(* ===== verification/Prelude.thy ===== *)
theory Prelude
  imports Main "HOL-Library.Word" "HOL-Library.Multiset"
begin

text \<open>
  Shared vocabulary of the development: the machine types of the Rust code, bounds-checked
  array reads, the list operations \<open>Vec::swap_remove\<close> and \<open>Iterator::position\<close>, the
  forward-scanning loop the radix tree uses three times, and the lemmas about them that the
  component theories rely on. Rules that unfold array bookkeeping are collected in
  \<open>arr_simps\<close>.
\<close>

named_theorems arr_simps \<open>rewrite rules for fixed-size arrays modelled as lists\<close>

type_synonym u8 = "8 word"
type_synonym u32 = "32 word"
type_synonym u64 = "64 word"
type_synonym bytes = "u8 list"
type_synonym row_id = u64

section \<open>Arrays of optional values\<close>

text \<open>
  Reading a slot of an array of options. An index outside the array is a panic in the code;
  the component invariants exclude it, and the guard keeps recursion through slots
  well-founded.
\<close>

definition nth_opt :: "'a option list \<Rightarrow> nat \<Rightarrow> 'a option" where
  "nth_opt xs i = (if i < length xs then xs ! i else None)"

lemma nth_opt_update [arr_simps]:
  "nth_opt (xs[i := x]) j = (if i = j \<and> i < length xs then x else nth_opt xs j)"
  by (auto simp: nth_opt_def)

lemma nth_opt_replicate [simp]: "nth_opt (replicate n None) i = None"
  by (simp add: nth_opt_def)

lemma nth_opt_Some_set: "nth_opt xs i = Some x \<Longrightarrow> Some x \<in> set xs"
  by (auto simp: nth_opt_def split: if_splits) (metis nth_mem)

lemma size_list_option_mem:
  "Some x \<in> set xs \<Longrightarrow> f x < size_list (size_option f) xs"
  by (induction xs) auto

section \<open>Loops and vector operations\<close>

text \<open>The scan \<open>while i < bound && p(i) { i += 1 }\<close>.\<close>

function advance :: "(nat \<Rightarrow> bool) \<Rightarrow> nat \<Rightarrow> nat \<Rightarrow> nat" where
  "advance p bound i = (if i < bound \<and> p i then advance p bound (Suc i) else i)"
  by pat_completeness auto
termination
  by (relation "measure (\<lambda>(p, bound, i). bound - i)") auto

declare advance.simps [simp del]

lemma advance_spec:
  "i \<le> advance p bound i \<and> (i \<le> bound \<longrightarrow> advance p bound i \<le> bound)
   \<and> (\<forall>j. i \<le> j \<and> j < advance p bound i \<longrightarrow> p j)
   \<and> (advance p bound i < bound \<longrightarrow> \<not> p (advance p bound i))"
proof (induction p bound i rule: advance.induct)
  case (1 p bound i)
  show ?case
  proof (cases "i < bound \<and> p i")
    case True
    then have eq: "advance p bound i = advance p bound (Suc i)"
      by (simp add: advance.simps [of p bound i])
    have "p j" if "i \<le> j" "j < advance p bound (Suc i)" for j
      using "1.IH" [OF True] True that by (cases "j = i") auto
    with "1.IH" [OF True] True show ?thesis
      unfolding eq by auto
  qed (auto simp: advance.simps [of p bound i])
qed

lemma advance_eqI:
  assumes "i \<le> m" "m \<le> bound" "\<And>j. i \<le> j \<Longrightarrow> j < m \<Longrightarrow> p j" "m < bound \<Longrightarrow> \<not> p m"
  shows "advance p bound i = m"
proof -
  let ?a = "advance p bound i"
  have a: "i \<le> ?a" "?a \<le> bound" "\<forall>j. i \<le> j \<and> j < ?a \<longrightarrow> p j" "?a < bound \<longrightarrow> \<not> p ?a"
    using advance_spec [of i p bound] assms(1,2) by auto
  have "\<not> ?a < m" using a(1,4) assms(2,3) by force
  moreover have "\<not> m < ?a" using a(2,3) assms(1,4) by force
  ultimately show ?thesis by simp
qed

text \<open>\<open>Iterator::position(|v| v == x)\<close>.\<close>

fun position :: "'a \<Rightarrow> 'a list \<Rightarrow> nat option" where
  "position x [] = None"
| "position x (y # ys) = (if y = x then Some 0 else map_option Suc (position x ys))"

lemma position_None: "position x xs = None \<longleftrightarrow> x \<notin> set xs"
  by (induction xs) auto

lemma position_Some: "position x xs = Some i \<Longrightarrow> i < length xs \<and> xs ! i = x"
  by (induction xs arbitrary: i) (auto split: if_splits)

text \<open>
  \<open>Vec::swap_remove(i)\<close>: the element at \<open>i\<close> is replaced by the last one, which is
  dropped from the end.
\<close>

definition swap_remove :: "'a list \<Rightarrow> nat \<Rightarrow> 'a list" where
  "swap_remove xs i = butlast (xs[i := last xs])"

lemma length_swap_remove [simp]: "length (swap_remove xs i) = length xs - 1"
  by (simp add: swap_remove_def)

lemma swap_remove_Cons:
  "xs \<noteq> [] \<Longrightarrow> swap_remove (x # xs) (Suc i) = x # swap_remove xs i"
  by (simp add: swap_remove_def)

lemma position_swap_remove_Cons:
  "position y xs = Some i \<Longrightarrow> swap_remove (x # xs) (Suc i) = x # swap_remove xs i"
  by (auto dest!: position_Some intro!: swap_remove_Cons)

lemma swap_remove_last [simp]: "swap_remove (xs @ [x]) (length xs) = xs"
  by (simp add: swap_remove_def)

lemma swap_remove_inner [simp]:
  "i < length xs \<Longrightarrow> swap_remove (xs @ [x]) i = xs[i := x]"
  by (simp add: swap_remove_def list_update_append)

lemma mset_swap_remove:
  assumes "i < length xs"
  shows "add_mset (xs ! i) (mset (swap_remove xs i)) = mset xs"
proof -
  obtain ys y where xs: "xs = ys @ [y]" using assms by (cases xs rule: rev_cases) auto
  show ?thesis
  proof (cases "i = length ys")
    case False
    with assms xs have "i < length ys" by simp
    then show ?thesis using xs by (simp add: mset_update nth_append nth_mem)
  qed (simp add: xs)
qed

lemma set_swap_remove:
  assumes "i < length xs" "distinct xs"
  shows "set (swap_remove xs i) = set xs - {xs ! i}" "distinct (swap_remove xs i)"
proof -
  let ?ys = "swap_remove xs i"
  have m: "mset (xs ! i # ?ys) = mset xs" using mset_swap_remove [OF assms(1)] by simp
  with assms(2) have "distinct (xs ! i # ?ys)" by (metis mset_eq_imp_distinct_iff)
  then show "distinct ?ys" "set ?ys = set xs - {xs ! i}"
    using mset_eq_setD [OF m] by auto
qed

lemma find_upt_None: "find p [0..<m] = None \<longleftrightarrow> (\<forall>i < m. \<not> p i)"
  by (auto simp: find_None_iff)

lemma find_upt_Some: "find p [0..<m] = Some i \<Longrightarrow> i < m \<and> p i"
  by (auto simp: find_Some_iff)

section \<open>Arrays of key bytes\<close>

text \<open>\<open>for i in 0..n { if keys[i] == key { return Some(i) } } None\<close>.\<close>

definition find_key :: "bytes \<Rightarrow> nat \<Rightarrow> u8 \<Rightarrow> nat option" where
  "find_key keys n k = find (\<lambda>i. keys ! i = k) [0..<n]"

lemma find_key_None: "find_key keys n k = None \<longleftrightarrow> (\<forall>i < n. keys ! i \<noteq> k)"
  by (auto simp: find_key_def find_None_iff)

lemma find_key_Some:
  assumes "distinct (take n keys)" "n \<le> length keys"
  shows "find_key keys n k = Some i \<longleftrightarrow> i < n \<and> keys ! i = k"
proof -
  have uniq: "i = j" if "i < n" "j < n" "keys ! i = keys ! j" for i j
    using that assms nth_eq_iff_index_eq [of "take n keys" i j] by simp
  show ?thesis
    by (auto simp: find_key_def find_Some_iff dest: uniq)
       (metis add.left_neutral diff_zero length_upt less_trans less_irrefl nth_upt uniq)
qed

lemma map_add_single: "m k = None \<Longrightarrow> [k \<mapsto> c] ++ m = m(k \<mapsto> c)"
  by (auto simp: fun_eq_iff map_add_def split: option.splits)

section \<open>Enumerating the bytes\<close>

lemma unat_u8_less [simp]: "unat (k :: u8) < 256"
  using unsigned_less [of k, where ?'a = nat] by simp

lemma unat_u8_eq [simp]: "unat (j :: u8) = unat k \<longleftrightarrow> j = k"
  by (simp add: word_unat_eq_iff)

lemma unat_of_nat_u32 [simp]: "i < 2 ^ 32 \<Longrightarrow> unat (word_of_nat i :: u32) = i"
  by (simp add: unsigned_of_nat take_bit_nat_eq_self)

lemma unat_of_nat_u8: "i < 256 \<Longrightarrow> unat (word_of_nat i :: u8) = i"
  by (simp add: unat_of_nat)

definition byte_pairs :: "(nat \<Rightarrow> 'c option) \<Rightarrow> (u8 \<times> 'c) list" where
  "byte_pairs f =
     List.map_filter (\<lambda>key. map_option (Pair (word_of_nat key)) (f key)) [0..<256]"

lemma byte_pairs_eq:
  "byte_pairs f = map (\<lambda>i. (word_of_nat i, the (f i))) (filter (\<lambda>i. f i \<noteq> None) [0..<256])"
  by (auto simp: byte_pairs_def List.map_filter_def intro!: map_cong)

lemma byte_pairs_keys: "sorted_wrt (<) (map fst (byte_pairs f))"
proof -
  have "(word_of_nat i :: u8) < word_of_nat j" if "i < j" "j < 256" for i j
    using that by (simp add: word_less_nat_alt unat_of_nat_u8)
  then have "sorted_wrt (\<lambda>i j. (word_of_nat i :: u8) < word_of_nat j)
      (filter (\<lambda>i. f i \<noteq> None) [0..<256])"
    by (intro sorted_wrt_filter sorted_wrt_mono_rel [OF _ sorted_wrt_upt]) auto
  then show ?thesis by (simp add: byte_pairs_eq sorted_wrt_map comp_def)
qed

lemma byte_pairs_distinct: "distinct (map fst (byte_pairs f))"
  using byte_pairs_keys [of f] by (simp add: strict_sorted_iff)

lemma byte_pairs_get: "map_of (byte_pairs f) k = f (unat k)"
proof -
  have "(k, c) \<in> set (byte_pairs f) \<longleftrightarrow> f (unat k) = Some c" for c
    by (force simp: byte_pairs_eq unat_of_nat_u8 image_iff)
  then have "map_of (byte_pairs f) k = Some c \<longleftrightarrow> f (unat k) = Some c" for c
    by (simp add: byte_pairs_distinct)
  then show ?thesis by (metis option.exhaust)
qed

lemma byte_pairs_length: "length (byte_pairs f) = card (dom (\<lambda>k :: u8. f (unat k)))"
proof -
  have "(\<lambda>k :: u8. f (unat k)) = map_of (byte_pairs f)" by (simp add: byte_pairs_get fun_eq_iff)
  then show ?thesis
    using byte_pairs_distinct [of f]
    by (metis distinct_card dom_map_of_conv_image_fst length_map list.set_map)
qed

section \<open>Strings\<close>

text \<open>\<open>str::eq_ignore_ascii_case\<close> and the lowering of one character.\<close>

definition ascii_lower :: "char \<Rightarrow> char" where
  "ascii_lower c = (if 65 \<le> (of_char c :: nat) \<and> (of_char c :: nat) \<le> 90 then char_of ((of_char c :: nat) + 32) else c)"

definition eq_ignore_ascii_case :: "string \<Rightarrow> string \<Rightarrow> bool" where
  "eq_ignore_ascii_case s t \<longleftrightarrow> map ascii_lower s = map ascii_lower t"

end
