(* ===== verification/Art_Node.thy ===== *)
theory Art_Node
  imports Prelude
begin

text \<open>
  The node types of the adaptive radix tree (\<^verbatim>\<open>src/src/storage/art_node.rs\<close>): the header
  with its truncated compressed prefix, the multi-value leaf, and the four inner nodes
  \<open>Node4\<close>, \<open>Node16\<close>, \<open>Node48\<close> and \<open>Node256\<close> with their child arrays. A struct
  that holds no node is a record; the four inner structs are single-constructor datatypes,
  because the node type recurses through them. \<open>num_children\<close> (a \<open>u16\<close>) is a natural
  number: the invariants below keep it at 256 or less. \<open>prefix_len\<close> is a \<open>u32\<close> that the
  code fills with a truncating cast, which \<open>set_prefix\<close> keeps.

  What the tree algorithms need from an inner node, a finite map from key bytes to children
  with an enumeration, is the locale \<open>child_store\<close> of theory \<open>Art_Store\<close>, which the four node
  types interpret; theory \<open>Art_Resize\<close> shows that growing and shrinking keep that map.
\<close>

section \<open>Header and leaf\<close>

definition MAX_PREFIX_LEN :: nat where
  "MAX_PREFIX_LEN = 10"

record node_header =
  nh_num_children :: nat
  nh_prefix_len :: nat
  nh_prefix :: bytes
  nh_values :: "row_id list"

definition header_default :: node_header where
  "header_default = \<lparr>nh_num_children = 0, nh_prefix_len = 0,
     nh_prefix = replicate MAX_PREFIX_LEN 0, nh_values = []\<rparr>"

definition set_prefix :: "bytes \<Rightarrow> node_header \<Rightarrow> node_header" where
  "set_prefix p h =
     (let len = min (length p) MAX_PREFIX_LEN in
      h\<lparr>nh_prefix_len := unat (word_of_nat (length p) :: u32),
        nh_prefix := take len p @ drop len (nh_prefix h)\<rparr>)"

definition header_with_prefix :: "bytes \<Rightarrow> node_header" where
  "header_with_prefix p = set_prefix p header_default"

definition get_prefix :: "node_header \<Rightarrow> bytes" where
  "get_prefix h = take (min (nh_prefix_len h) MAX_PREFIX_LEN) (nh_prefix h)"

record leaf_node =
  lf_key :: bytes
  lf_primary :: row_id
  lf_extra :: "row_id list"

definition leaf_new :: "bytes \<Rightarrow> row_id \<Rightarrow> leaf_node" where
  "leaf_new k v = \<lparr>lf_key = k, lf_primary = v, lf_extra = []\<rparr>"

definition leaf_from_values :: "bytes \<Rightarrow> row_id \<Rightarrow> row_id list \<Rightarrow> leaf_node" where
  "leaf_from_values k v vs = \<lparr>lf_key = k, lf_primary = v, lf_extra = vs\<rparr>"

definition leaf_value :: "leaf_node \<Rightarrow> row_id" where
  "leaf_value l = lf_primary l"

definition values_count :: "leaf_node \<Rightarrow> nat" where
  "values_count l = 1 + length (lf_extra l)"

definition push_value :: "row_id \<Rightarrow> leaf_node \<Rightarrow> leaf_node" where
  "push_value v l = l\<lparr>lf_extra := lf_extra l @ [v]\<rparr>"

definition all_values :: "leaf_node \<Rightarrow> row_id list" where
  "all_values l = lf_primary l # lf_extra l"

definition take_values :: "leaf_node \<Rightarrow> (row_id \<times> row_id list) \<times> leaf_node" where
  "take_values l = ((lf_primary l, lf_extra l), l\<lparr>lf_primary := 0, lf_extra := []\<rparr>)"

text \<open>The result pair is (removed, now empty).\<close>

definition leaf_remove_value :: "row_id \<Rightarrow> leaf_node \<Rightarrow> (bool \<times> bool) \<times> leaf_node" where
  "leaf_remove_value r l =
     (if lf_primary l = r then
        (if lf_extra l \<noteq> [] then
           ((True, False), l\<lparr>lf_primary := last (lf_extra l), lf_extra := butlast (lf_extra l)\<rparr>)
         else ((True, True), l))
      else case position r (lf_extra l) of
             Some pos \<Rightarrow> ((True, False), l\<lparr>lf_extra := swap_remove (lf_extra l) pos\<rparr>)
           | None \<Rightarrow> ((False, False), l))"

definition leaf_matches :: "leaf_node \<Rightarrow> bytes \<Rightarrow> bool" where
  "leaf_matches l k \<longleftrightarrow> lf_key l = k"

section \<open>Node4\<close>

datatype 'c node4 = Node4_struct
  (n4_header: node_header) (n4_keys: bytes) (n4_children: "'c option list")

definition node4_new :: "'c node4" where
  "node4_new = Node4_struct header_default (replicate 4 0) (replicate 4 None)"

definition node4_with_prefix :: "bytes \<Rightarrow> 'c node4" where
  "node4_with_prefix p = Node4_struct (header_with_prefix p) (replicate 4 0) (replicate 4 None)"

definition node4_is_full :: "'c node4 \<Rightarrow> bool" where
  "node4_is_full n \<longleftrightarrow> nh_num_children (n4_header n) \<ge> 4"

definition node4_find_child_index :: "'c node4 \<Rightarrow> u8 \<Rightarrow> nat option" where
  "node4_find_child_index n k = find_key (n4_keys n) (nh_num_children (n4_header n)) k"

definition node4_get_child :: "'c node4 \<Rightarrow> u8 \<Rightarrow> 'c option" where
  "node4_get_child n k = Option.bind (node4_find_child_index n k) (nth_opt (n4_children n))"

definition node4_add_child :: "'c node4 \<Rightarrow> u8 \<Rightarrow> 'c \<Rightarrow> bool \<times> 'c node4" where
  "node4_add_child n k c =
     (if node4_is_full n then (False, n)
      else let h = n4_header n; idx = nh_num_children h in
        (True, Node4_struct (h\<lparr>nh_num_children := idx + 1\<rparr>)
                 ((n4_keys n)[idx := k]) ((n4_children n)[idx := Some c])))"

definition node4_remove_child :: "'c node4 \<Rightarrow> u8 \<Rightarrow> 'c option \<times> 'c node4" where
  "node4_remove_child n k =
     (case node4_find_child_index n k of
        Some idx \<Rightarrow>
          let h = n4_header n;
              child = nth_opt (n4_children n) idx;
              ch1 = (n4_children n)[idx := None];
              last_idx = nh_num_children h - 1;
              ks = (if idx \<noteq> last_idx then (n4_keys n)[idx := n4_keys n ! last_idx] else n4_keys n);
              ch = (if idx \<noteq> last_idx then (ch1[idx := nth_opt ch1 last_idx])[last_idx := None]
                    else ch1)
          in (child, Node4_struct (h\<lparr>nh_num_children := nh_num_children h - 1\<rparr>) ks ch)
      | None \<Rightarrow> (None, n))"

definition node4_iter_children :: "'c node4 \<Rightarrow> (u8 \<times> 'c) list" where
  "node4_iter_children n =
     List.map_filter (\<lambda>i. map_option (Pair (n4_keys n ! i)) (nth_opt (n4_children n) i))
       [0..<nh_num_children (n4_header n)]"

section \<open>Node16\<close>

datatype 'c node16 = Node16_struct
  (n16_header: node_header) (n16_keys: bytes) (n16_children: "'c option list")

definition node16_new :: "'c node16" where
  "node16_new = Node16_struct header_default (replicate 16 0) (replicate 16 None)"

definition node16_with_prefix :: "bytes \<Rightarrow> 'c node16" where
  "node16_with_prefix p =
     Node16_struct (header_with_prefix p) (replicate 16 0) (replicate 16 None)"

definition node16_is_full :: "'c node16 \<Rightarrow> bool" where
  "node16_is_full n \<longleftrightarrow> nh_num_children (n16_header n) \<ge> 16"

definition node16_should_shrink :: "'c node16 \<Rightarrow> bool" where
  "node16_should_shrink n \<longleftrightarrow> nh_num_children (n16_header n) \<le> 4"

definition node16_find_child_index :: "'c node16 \<Rightarrow> u8 \<Rightarrow> nat option" where
  "node16_find_child_index n k = find_key (n16_keys n) (nh_num_children (n16_header n)) k"

definition node16_get_child :: "'c node16 \<Rightarrow> u8 \<Rightarrow> 'c option" where
  "node16_get_child n k = Option.bind (node16_find_child_index n k) (nth_opt (n16_children n))"

definition node16_add_child :: "'c node16 \<Rightarrow> u8 \<Rightarrow> 'c \<Rightarrow> bool \<times> 'c node16" where
  "node16_add_child n k c =
     (if node16_is_full n then (False, n)
      else let h = n16_header n; idx = nh_num_children h in
        (True, Node16_struct (h\<lparr>nh_num_children := idx + 1\<rparr>)
                 ((n16_keys n)[idx := k]) ((n16_children n)[idx := Some c])))"

definition node16_remove_child :: "'c node16 \<Rightarrow> u8 \<Rightarrow> 'c option \<times> 'c node16" where
  "node16_remove_child n k =
     (case node16_find_child_index n k of
        Some idx \<Rightarrow>
          let h = n16_header n;
              child = nth_opt (n16_children n) idx;
              ch1 = (n16_children n)[idx := None];
              last_idx = nh_num_children h - 1;
              ks = (if idx \<noteq> last_idx then (n16_keys n)[idx := n16_keys n ! last_idx]
                    else n16_keys n);
              ch = (if idx \<noteq> last_idx then (ch1[idx := nth_opt ch1 last_idx])[last_idx := None]
                    else ch1)
          in (child, Node16_struct (h\<lparr>nh_num_children := nh_num_children h - 1\<rparr>) ks ch)
      | None \<Rightarrow> (None, n))"

definition node16_iter_children :: "'c node16 \<Rightarrow> (u8 \<times> 'c) list" where
  "node16_iter_children n =
     List.map_filter (\<lambda>i. map_option (Pair (n16_keys n ! i)) (nth_opt (n16_children n) i))
       [0..<nh_num_children (n16_header n)]"

section \<open>Node48 and Node256\<close>

datatype 'c node48 = Node48_struct
  (n48_header: node_header) (n48_child_index: bytes) (n48_children: "'c option list")

definition node48_new :: "'c node48" where
  "node48_new = Node48_struct header_default (replicate 256 255) (replicate 48 None)"

definition node48_with_prefix :: "bytes \<Rightarrow> 'c node48" where
  "node48_with_prefix p =
     Node48_struct (header_with_prefix p) (replicate 256 255) (replicate 48 None)"

definition node48_is_full :: "'c node48 \<Rightarrow> bool" where
  "node48_is_full n \<longleftrightarrow> nh_num_children (n48_header n) \<ge> 48"

definition node48_should_shrink :: "'c node48 \<Rightarrow> bool" where
  "node48_should_shrink n \<longleftrightarrow> nh_num_children (n48_header n) \<le> 16"

definition node48_get_child :: "'c node48 \<Rightarrow> u8 \<Rightarrow> 'c option" where
  "node48_get_child n k =
     (let idx = n48_child_index n ! unat k in
      if idx \<noteq> 255 then nth_opt (n48_children n) (unat idx) else None)"

definition node48_find_free_slot :: "'c node48 \<Rightarrow> nat option" where
  "node48_find_free_slot n = find (\<lambda>i. nth_opt (n48_children n) i = None) [0..<48]"

definition node48_add_child :: "'c node48 \<Rightarrow> u8 \<Rightarrow> 'c \<Rightarrow> bool \<times> 'c node48" where
  "node48_add_child n k c =
     (if node48_is_full n then (False, n)
      else case node48_find_free_slot n of
        Some slot \<Rightarrow>
          let h = n48_header n in
          (True, Node48_struct (h\<lparr>nh_num_children := nh_num_children h + 1\<rparr>)
                   ((n48_child_index n)[unat k := word_of_nat slot])
                   ((n48_children n)[slot := Some c]))
      | None \<Rightarrow> (False, n))"

definition node48_remove_child :: "'c node48 \<Rightarrow> u8 \<Rightarrow> 'c option \<times> 'c node48" where
  "node48_remove_child n k =
     (let idx = n48_child_index n ! unat k; h = n48_header n in
      if idx \<noteq> 255 then
        (nth_opt (n48_children n) (unat idx),
         Node48_struct (h\<lparr>nh_num_children := nh_num_children h - 1\<rparr>)
           ((n48_child_index n)[unat k := 255]) ((n48_children n)[unat idx := None]))
      else (None, n))"

definition node48_iter_children :: "'c node48 \<Rightarrow> (u8 \<times> 'c) list" where
  "node48_iter_children n =
     List.map_filter (\<lambda>key. let idx = n48_child_index n ! key in
         if idx \<noteq> 255 then map_option (Pair (word_of_nat key)) (nth_opt (n48_children n) (unat idx))
         else None)
       [0..<256]"

datatype 'c node256 = Node256_struct
  (n256_header: node_header) (n256_children: "'c option list")

definition node256_new :: "'c node256" where
  "node256_new = Node256_struct header_default (replicate 256 None)"

definition node256_with_prefix :: "bytes \<Rightarrow> 'c node256" where
  "node256_with_prefix p = Node256_struct (header_with_prefix p) (replicate 256 None)"

definition node256_should_shrink :: "'c node256 \<Rightarrow> bool" where
  "node256_should_shrink n \<longleftrightarrow> nh_num_children (n256_header n) \<le> 48"

definition node256_get_child :: "'c node256 \<Rightarrow> u8 \<Rightarrow> 'c option" where
  "node256_get_child n k = nth_opt (n256_children n) (unat k)"

definition node256_add_child :: "'c node256 \<Rightarrow> u8 \<Rightarrow> 'c \<Rightarrow> bool \<times> 'c node256" where
  "node256_add_child n k c =
     (let h = n256_header n;
          h' = (if nth_opt (n256_children n) (unat k) = None
                then h\<lparr>nh_num_children := nh_num_children h + 1\<rparr> else h)
      in (True, Node256_struct h' ((n256_children n)[unat k := Some c])))"

definition node256_remove_child :: "'c node256 \<Rightarrow> u8 \<Rightarrow> 'c option \<times> 'c node256" where
  "node256_remove_child n k =
     (let h = n256_header n; child = nth_opt (n256_children n) (unat k);
          h' = (if child \<noteq> None then h\<lparr>nh_num_children := nh_num_children h - 1\<rparr> else h)
      in (child, Node256_struct h' ((n256_children n)[unat k := None])))"

definition node256_iter_children :: "'c node256 \<Rightarrow> (u8 \<times> 'c) list" where
  "node256_iter_children n =
     List.map_filter (\<lambda>key. map_option (Pair (word_of_nat key)) (nth_opt (n256_children n) key))
       [0..<256]"

text \<open>Assignments to one slot of a child array, \<open>n.children[i] = x\<close>.\<close>

definition node4_set_slot :: "'c node4 \<Rightarrow> nat \<Rightarrow> 'c option \<Rightarrow> 'c node4" where
  "node4_set_slot n i x = Node4_struct (n4_header n) (n4_keys n) ((n4_children n)[i := x])"

definition node16_set_slot :: "'c node16 \<Rightarrow> nat \<Rightarrow> 'c option \<Rightarrow> 'c node16" where
  "node16_set_slot n i x = Node16_struct (n16_header n) (n16_keys n) ((n16_children n)[i := x])"

definition node48_set_slot :: "'c node48 \<Rightarrow> nat \<Rightarrow> 'c option \<Rightarrow> 'c node48" where
  "node48_set_slot n i x =
     Node48_struct (n48_header n) (n48_child_index n) ((n48_children n)[i := x])"

definition node256_set_slot :: "'c node256 \<Rightarrow> nat \<Rightarrow> 'c option \<Rightarrow> 'c node256" where
  "node256_set_slot n i x = Node256_struct (n256_header n) ((n256_children n)[i := x])"

section \<open>Growing and shrinking\<close>

text \<open>
  The header of a resized node: the visible prefix bytes are copied, \<open>prefix_len\<close> keeps the
  full length, and the row ids of keys that end at the node move with it.
\<close>

definition resized_header :: "node_header \<Rightarrow> nat \<Rightarrow> node_header" where
  "resized_header h n = (header_with_prefix (get_prefix h))
     \<lparr>nh_prefix_len := nh_prefix_len h, nh_values := nh_values h, nh_num_children := n\<rparr>"

definition node4_grow :: "'c node4 \<Rightarrow> 'c node16" where
  "node4_grow n =
     (let (ks, cs) = fold (\<lambda>i (ks, cs). case nth_opt (n4_children n) i of
              Some c \<Rightarrow> (ks[i := n4_keys n ! i], cs[i := Some c])
            | None \<Rightarrow> (ks, cs)) [0..<4] (replicate 16 0, replicate 16 None)
      in Node16_struct (resized_header (n4_header n) (nh_num_children (n4_header n))) ks cs)"

definition node16_grow :: "'c node16 \<Rightarrow> 'c node48" where
  "node16_grow n =
     (let (ix, cs) = fold (\<lambda>i (ix, cs). case nth_opt (n16_children n) i of
              Some c \<Rightarrow> (ix[unat (n16_keys n ! i) := word_of_nat i], cs[i := Some c])
            | None \<Rightarrow> (ix, cs)) [0..<16] (replicate 256 255, replicate 48 None)
      in Node48_struct (resized_header (n16_header n) (nh_num_children (n16_header n))) ix cs)"

definition node48_grow :: "'c node48 \<Rightarrow> 'c node256" where
  "node48_grow n =
     (let cs = fold (\<lambda>key cs. let idx = n48_child_index n ! key in
              if idx \<noteq> 255 then
                (case nth_opt (n48_children n) (unat idx) of
                   Some c \<Rightarrow> cs[key := Some c] | None \<Rightarrow> cs)
              else cs) [0..<256] (replicate 256 None)
      in Node256_struct (resized_header (n48_header n) (nh_num_children (n48_header n))) cs)"

text \<open>
  The shrinking loops walk the occupied slots and fill the smaller node from slot 0,
  breaking once it is full: \<open>keyed\<close> targets have a key array, \<open>indexed\<close> ones the
  256-entry index array.
\<close>

fun fill_keyed :: "nat \<Rightarrow> (u8 \<times> 'c) list \<Rightarrow> nat \<Rightarrow> bytes \<Rightarrow> 'c option list
    \<Rightarrow> nat \<times> bytes \<times> 'c option list" where
  "fill_keyed cap [] idx ks cs = (idx, ks, cs)"
| "fill_keyed cap ((k, c) # ps) idx ks cs =
     (let ks' = ks[idx := k]; cs' = cs[idx := Some c] in
      if idx + 1 \<ge> cap then (idx + 1, ks', cs') else fill_keyed cap ps (idx + 1) ks' cs')"

fun fill_indexed :: "nat \<Rightarrow> (u8 \<times> 'c) list \<Rightarrow> nat \<Rightarrow> bytes \<Rightarrow> 'c option list
    \<Rightarrow> nat \<times> bytes \<times> 'c option list" where
  "fill_indexed cap [] slot ix cs = (slot, ix, cs)"
| "fill_indexed cap ((k, c) # ps) slot ix cs =
     (let ix' = ix[unat k := word_of_nat slot]; cs' = cs[slot := Some c] in
      if slot + 1 \<ge> cap then (slot + 1, ix', cs') else fill_indexed cap ps (slot + 1) ix' cs')"

definition node16_shrink :: "'c node16 \<Rightarrow> 'c node4" where
  "node16_shrink n =
     (let pairs = List.map_filter
            (\<lambda>i. map_option (Pair (n16_keys n ! i)) (nth_opt (n16_children n) i)) [0..<16];
          (idx, ks, cs) = fill_keyed 4 pairs 0 (replicate 4 0) (replicate 4 None)
      in Node4_struct (resized_header (n16_header n) idx) ks cs)"

definition node48_shrink :: "'c node48 \<Rightarrow> 'c node16" where
  "node48_shrink n =
     (let (idx, ks, cs) =
            fill_keyed 16 (node48_iter_children n) 0 (replicate 16 0) (replicate 16 None)
      in Node16_struct (resized_header (n48_header n) idx) ks cs)"

definition node256_shrink :: "'c node256 \<Rightarrow> 'c node48" where
  "node256_shrink n =
     (let (slot, ix, cs) =
            fill_indexed 48 (node256_iter_children n) 0 (replicate 256 255) (replicate 48 None)
      in Node48_struct (resized_header (n256_header n) slot) ix cs)"

section \<open>Header and leaf lemmas\<close>

text \<open>Row ids of a leaf as one list: \<open>remove_value\<close> is \<open>swap_remove\<close> on it.\<close>

definition swap_remove_value :: "row_id \<Rightarrow> row_id list \<Rightarrow> row_id list" where
  "swap_remove_value r vs =
     (case position r vs of Some pos \<Rightarrow> swap_remove vs pos | None \<Rightarrow> vs)"

lemma leaf_remove_value_spec:
  "case leaf_remove_value r l of ((removed, now_empty), l') \<Rightarrow>
     removed = (r \<in> set (all_values l))
     \<and> now_empty = (all_values l = [r])
     \<and> lf_key l' = lf_key l
     \<and> (\<not> now_empty \<longrightarrow> all_values l' = swap_remove_value r (all_values l))"
proof (cases "lf_primary l = r")
  case True
  then show ?thesis
    by (cases "lf_extra l" rule: rev_cases)
       (auto simp: leaf_remove_value_def all_values_def swap_remove_value_def swap_remove_def)
next
  case False
  then show ?thesis
    by (auto simp: leaf_remove_value_def all_values_def swap_remove_value_def
        position_swap_remove_Cons position_None split: option.splits dest: position_Some)
qed

lemma get_prefix_set_prefix:
  "length p < 2 ^ 32 \<Longrightarrow> get_prefix (set_prefix p h) = take 10 p"
  by (auto simp: get_prefix_def set_prefix_def MAX_PREFIX_LEN_def Let_def min_def)

lemma prefix_len_set_prefix:
  "length p < 2 ^ 32 \<Longrightarrow> nh_prefix_len (set_prefix p h) = length p"
  by (simp add: set_prefix_def Let_def)

end
