(* ===== verification/Art_Store.thy ===== *)
theory Art_Store
  imports Art_Node
begin

text \<open>
  The interface between the radix tree and its inner nodes. \<open>child_store\<close> lists the laws of
  a finite map from key bytes to children (lookup, insertion into a node that is not full,
  removal, enumeration, the child counter) and \<open>child_slots\<close> adds the slot-wise access the
  tree uses when it replaces a child in place. All four node types interpret both, and the
  resizing operations keep the map and the invariant.
\<close>

section \<open>The interface\<close>

locale child_store =
  fixes ok :: "'n \<Rightarrow> bool"
    and num :: "'n \<Rightarrow> nat"
    and get :: "'n \<Rightarrow> u8 \<Rightarrow> 'c option"
    and full :: "'n \<Rightarrow> bool"
    and add :: "'n \<Rightarrow> u8 \<Rightarrow> 'c \<Rightarrow> bool \<times> 'n"
    and remove :: "'n \<Rightarrow> u8 \<Rightarrow> 'c option \<times> 'n"
    and iter :: "'n \<Rightarrow> (u8 \<times> 'c) list"
  assumes iter_distinct: "ok n \<Longrightarrow> distinct (map fst (iter n))"
    and iter_get: "ok n \<Longrightarrow> map_of (iter n) = get n"
    and iter_num: "ok n \<Longrightarrow> length (iter n) = num n"
    and add_full: "full n \<Longrightarrow> add n k c = (False, n)"
    and add_free: "ok n \<Longrightarrow> \<not> full n \<Longrightarrow> get n k = None \<Longrightarrow> fst (add n k c)"
    and ok_add: "ok n \<Longrightarrow> \<not> full n \<Longrightarrow> get n k = None \<Longrightarrow> ok (snd (add n k c))"
    and get_add: "ok n \<Longrightarrow> \<not> full n \<Longrightarrow> get n k = None \<Longrightarrow>
      get (snd (add n k c)) = (get n)(k \<mapsto> c)"
    and remove_child: "ok n \<Longrightarrow> fst (remove n k) = get n k"
    and ok_remove: "ok n \<Longrightarrow> ok (snd (remove n k))"
    and get_remove: "ok n \<Longrightarrow> get (snd (remove n k)) = (get n)(k := None)"
begin

lemma iter_set: "ok n \<Longrightarrow> set (iter n) = {(k, c). get n k = Some c}"
  using iter_distinct [of n] iter_get [of n] by (auto simp: map_of_eq_Some_iff [symmetric])

lemma num_card: "ok n \<Longrightarrow> num n = card (dom (get n))"
  using iter_distinct [of n] iter_get [of n] iter_num [of n]
  by (metis distinct_card dom_map_of_conv_image_fst length_map list.set_map)

lemma num_bound: "ok n \<Longrightarrow> num n \<le> 256"
  using card_mono [of UNIV "dom (get n)"] by (simp add: num_card card_word)

lemma num_add:
  "ok n \<Longrightarrow> \<not> full n \<Longrightarrow> get n k = None \<Longrightarrow> num (snd (add n k c)) = num n + 1"
  using finite [of "dom (get n)"]
  by (simp add: num_card ok_add get_add domIff)

lemma num_remove:
  "ok n \<Longrightarrow> get n k \<noteq> None \<Longrightarrow> num (snd (remove n k)) + 1 = num n"
  using finite [of "dom (get n)"] card_Suc_Diff1 [of "dom (get n)" k]
  by (auto simp: num_card ok_remove get_remove domIff)

lemma add_then_remove:
  "ok n \<Longrightarrow> \<not> full n \<Longrightarrow> get n k = None \<Longrightarrow>
     get (snd (remove (snd (add n k c)) k)) = get n"
  by (simp add: get_remove ok_add get_add fun_upd_idem)

end

locale child_slots = child_store +
  fixes slot :: "'a \<Rightarrow> u8 \<Rightarrow> nat option"
    and children :: "'a \<Rightarrow> 'b option list"
    and set_slot :: "'a \<Rightarrow> nat \<Rightarrow> 'b option \<Rightarrow> 'a"
    and detach :: "'a \<Rightarrow> nat \<Rightarrow> u8 \<Rightarrow> 'a"
  assumes slot_get: "ok n \<Longrightarrow> get n k = Option.bind (slot n k) (nth_opt (children n))"
    and ok_set_slot: "ok n \<Longrightarrow> slot n k = Some i \<Longrightarrow> get n k \<noteq> None \<Longrightarrow> ok (set_slot n i (Some c))"
    and get_set_slot: "ok n \<Longrightarrow> slot n k = Some i \<Longrightarrow> get n k \<noteq> None \<Longrightarrow>
      get (set_slot n i (Some c)) = (get n)(k \<mapsto> c)"
    and detach_remove: "ok n \<Longrightarrow> slot n k = Some i \<Longrightarrow> get n k \<noteq> None \<Longrightarrow>
      detach n i k = snd (remove n k)"
begin

lemma get_detach:
  "ok n \<Longrightarrow> slot n k = Some i \<Longrightarrow> get n k \<noteq> None \<Longrightarrow>
     ok (detach n i k) \<and> get (detach n i k) = (get n)(k := None)"
  by (simp add: detach_remove ok_remove get_remove)

lemma slot_present: "ok n \<Longrightarrow> get n k = Some c \<Longrightarrow>
    \<exists>i. slot n k = Some i \<and> nth_opt (children n) i = Some c"
  by (simp add: slot_get bind_eq_Some_conv)

end

section \<open>Nodes with a key array\<close>

text \<open>
  \<open>Node4\<close> and \<open>Node16\<close> keep their children in insertion order in the first
  \<open>num_children\<close> slots: \<open>arr_rep\<close> relates the arrays to that list of pairs.
\<close>

definition arr_rep :: "nat \<Rightarrow> nat \<Rightarrow> bytes \<Rightarrow> 'c option list \<Rightarrow> (u8 \<times> 'c) list \<Rightarrow> bool" where
  "arr_rep cap n ks cs ps \<longleftrightarrow> length ps = n \<and> n \<le> cap \<and> length ks = cap
     \<and> take n ks = map fst ps \<and> cs = map (Some \<circ> snd) ps @ replicate (cap - n) None
     \<and> distinct (map fst ps)"

lemma arr_rep_nth:
  assumes "arr_rep cap n ks cs ps" "i < n"
  shows "ks ! i = fst (ps ! i)" "nth_opt cs i = Some (snd (ps ! i))"
proof -
  from assms have "take n ks ! i = map fst ps ! i" "length ps = n"
    by (simp_all add: arr_rep_def)
  with assms(2) show "ks ! i = fst (ps ! i)" by simp
  from assms show "nth_opt cs i = Some (snd (ps ! i))"
    by (simp add: arr_rep_def nth_opt_def nth_append)
qed

lemma arr_rep_find:
  assumes "arr_rep cap n ks cs ps"
  shows "find_key ks n k = Some i \<longleftrightarrow> i < n \<and> fst (ps ! i) = k"
proof -
  from assms have "distinct (take n ks)" "n \<le> length ks" by (auto simp: arr_rep_def)
  then show ?thesis using arr_rep_nth [OF assms] by (auto simp: find_key_Some)
qed

lemma arr_rep_lookup:
  assumes "arr_rep cap n ks cs ps"
  shows "Option.bind (find_key ks n k) (nth_opt cs) = map_of ps k"
proof (cases "find_key ks n k")
  case None
  then have "\<forall>i < length ps. fst (ps ! i) \<noteq> k"
    using assms arr_rep_nth(1) [OF assms] by (auto simp: find_key_None arr_rep_def)
  then have "k \<notin> fst ` set ps" by (auto simp: in_set_conv_nth) (metis fst_conv)
  with None map_of_eq_None_iff [of ps k] show ?thesis by simp
next
  case (Some i)
  then have i: "i < n" "fst (ps ! i) = k" by (auto simp: arr_rep_find [OF assms])
  with assms have "(k, snd (ps ! i)) \<in> set ps"
    by (metis arr_rep_def nth_mem prod.collapse)
  with assms have "map_of ps k = Some (snd (ps ! i))" by (simp add: arr_rep_def)
  with Some arr_rep_nth [OF assms i(1)] show ?thesis by simp
qed

lemma arr_rep_iter:
  assumes "arr_rep cap n ks cs ps" "n \<le> m" "m \<le> cap"
  shows "List.map_filter (\<lambda>i. map_option (Pair (ks ! i)) (nth_opt cs i)) [0..<m] = ps"
proof -
  let ?f = "\<lambda>i. map_option (Pair (ks ! i)) (nth_opt cs i)"
  have "List.map_filter ?f [0..<n] = map (\<lambda>i. ps ! i) [0..<n]"
    using arr_rep_nth [OF assms(1)]
    by (auto simp: List.map_filter_def intro!: filter_True)
  also have "\<dots> = ps" using assms(1) by (auto simp: arr_rep_def map_nth)
  finally have lo: "List.map_filter ?f [0..<n] = ps" .
  have "?f i = None" if "n \<le> i" "i < m" for i
    using that assms by (auto simp: arr_rep_def nth_opt_def nth_append)
  then have hi: "List.map_filter ?f [n..<m] = []"
    by (auto simp: List.map_filter_def filter_empty_conv)
  have "[0..<m] = [0..<n] @ [n..<m]" using assms(2) by (metis le0 upt_add_eq_append le_add_diff_inverse)
  with lo hi show ?thesis by (simp add: List.map_filter_def)
qed

lemma arr_rep_add:
  assumes "arr_rep cap n ks cs ps" "n < cap" "map_of ps k = None"
  shows "arr_rep cap (n + 1) (ks[n := k]) (cs[n := Some c]) (ps @ [(k, c)])"
proof -
  obtain m where m: "cap - n = Suc m" using assms(2) by (metis Suc_diff_Suc)
  have "take (Suc n) (ks[n := k]) = take n ks @ [k]"
    using assms by (simp add: arr_rep_def take_Suc_conv_app_nth)
  moreover have "cs[n := Some c] = map (Some \<circ> snd) (ps @ [(k, c)]) @ replicate (cap - (n + 1)) None"
    using assms m by (auto simp: arr_rep_def list_update_append)
  ultimately show ?thesis
    using assms by (auto simp: arr_rep_def map_of_eq_None_iff)
qed

lemma arr_rep_set:
  assumes "arr_rep cap n ks cs ps" "i < n" "fst (ps ! i) = k"
  shows "arr_rep cap n ks (cs[i := Some c]) (ps[i := (k, c)])"
    and "map_of (ps[i := (k, c)]) = (map_of ps)(k \<mapsto> c)"
proof -
  have fst_eq: "map fst (ps[i := (k, c)]) = map fst ps"
    using assms by (metis fst_conv list_update_id map_update nth_map)
  then show rep: "arr_rep cap n ks (cs[i := Some c]) (ps[i := (k, c)])"
    using assms by (auto simp: arr_rep_def list_update_append map_update)
  have d: "distinct (map fst ps)" and d': "distinct (map fst (ps[i := (k, c)]))"
    using assms(1) rep by (auto simp: arr_rep_def)
  have len: "i < length ps" using assms by (simp add: arr_rep_def)
  show "map_of (ps[i := (k, c)]) = (map_of ps)(k \<mapsto> c)"
  proof
    fix j
    have "map_of (ps[i := (k, c)]) j = Some d \<longleftrightarrow> ((map_of ps)(k \<mapsto> c)) j = Some d" for d
    proof -
      have "(j, d) \<in> set (ps[i := (k, c)]) \<longleftrightarrow>
          (if j = k then d = c else (j, d) \<in> set ps)"
      proof (cases "j = k")
        case True
        have "(k, c) \<in> set (ps[i := (k, c)])" using len by (simp add: set_update_memI)
        with True d' show ?thesis by (metis map_of_eq_Some_iff option.inject)
      next
        case False
        then show ?thesis using len assms(3)
          by (auto simp: in_set_conv_nth nth_list_update) (metis fst_conv)+
      qed
      then show ?thesis using d d' by auto
    qed
    then show "map_of (ps[i := (k, c)]) j = ((map_of ps)(k \<mapsto> c)) j"
      by (metis option.exhaust)
  qed
qed

lemma map_of_swap_remove:
  assumes "i < length ps" "distinct (map fst ps)"
  shows "map_of (swap_remove ps i) = (map_of ps)(fst (ps ! i) := None)"
    and "distinct (map fst (swap_remove ps i))"
proof -
  have d: "distinct ps" using assms(2) by (simp add: distinct_map)
  have s: "set (swap_remove ps i) = set ps - {ps ! i}"
    using set_swap_remove(1) [OF assms(1) d] .
  have inj: "inj_on fst (set ps)" using assms(2) by (simp add: distinct_map)
  then show d': "distinct (map fst (swap_remove ps i))"
    using set_swap_remove(2) [OF assms(1) d] s by (auto simp: distinct_map inj_on_def)
  show "map_of (swap_remove ps i) = (map_of ps)(fst (ps ! i) := None)"
  proof
    fix j
    have "map_of (swap_remove ps i) j = Some c
        \<longleftrightarrow> ((map_of ps)(fst (ps ! i) := None)) j = Some c" for c
    proof -
      have "(j, c) \<in> set ps \<Longrightarrow> j = fst (ps ! i) \<longleftrightarrow> (j, c) = ps ! i"
        using inj assms(1) by (metis fst_conv inj_onD nth_mem)
      then show ?thesis
        using map_of_eq_Some_iff [OF d'] map_of_eq_Some_iff [OF assms(2)] s by auto
    qed
    then show "map_of (swap_remove ps i) j = ((map_of ps)(fst (ps ! i) := None)) j"
      by (metis option.exhaust)
  qed
qed

text \<open>\<open>remove_child\<close>: the last pair moves into the vacated slot.\<close>

definition arr_drop :: "nat \<Rightarrow> nat \<Rightarrow> bytes \<Rightarrow> 'c option list \<Rightarrow> bytes \<times> 'c option list" where
  "arr_drop n i ks cs =
     (let ch1 = cs[i := None]; l = n - 1 in
      (if i \<noteq> l then ks[i := ks ! l] else ks,
       if i \<noteq> l then (ch1[i := nth_opt ch1 l])[l := None] else ch1))"

lemma arr_rep_drop:
  assumes "arr_rep cap n ks cs ps" "i < n"
  shows "arr_rep cap (n - 1) (fst (arr_drop n i ks cs)) (snd (arr_drop n i ks cs)) (swap_remove ps i)"
proof -
  obtain qs l where ps: "ps = qs @ [l]" and n: "n = Suc (length qs)"
    using assms by (cases ps rule: rev_cases) (auto simp: arr_rep_def)
  have ks: "take (length qs) ks = map fst qs" "ks ! length qs = fst l"
    using assms(1) arr_rep_nth(1) [OF assms(1), of "length qs"] ps n
    by (auto simp: arr_rep_def take_Suc_conv_app_nth)
  have d: "distinct (map fst (swap_remove ps i))"
    using assms map_of_swap_remove(2) [of i ps] by (simp add: arr_rep_def)
  have cs: "cs = map (Some \<circ> snd) qs @ Some (snd l) # replicate (cap - n) None"
    and cap: "n \<le> cap" "length ks = cap"
    using assms(1) ps by (auto simp: arr_rep_def)
  have rep: "cap - length qs = Suc (cap - n)" using cap n by arith
  show ?thesis
  proof (cases "i = n - 1")
    case True
    then show ?thesis using d ks cs cap rep ps n
      by (auto simp: arr_rep_def arr_drop_def list_update_append)
  next
    case False
    then have i: "i < length qs" using assms(2) n by simp
    have "take (length qs) (ks[i := fst l]) = map fst (qs[i := l])"
      using ks by (simp add: take_update_swap map_update)
    then show ?thesis using d ks cs cap rep ps n i False
      by (auto simp: arr_rep_def arr_drop_def list_update_append map_update nth_opt_def nth_append)
  qed
qed


section \<open>Node4 and Node16\<close>

definition node4_ok :: "'c node4 \<Rightarrow> bool" where
  "node4_ok n \<longleftrightarrow>
     arr_rep 4 (nh_num_children (n4_header n)) (n4_keys n) (n4_children n) (node4_iter_children n)"

definition node16_ok :: "'c node16 \<Rightarrow> bool" where
  "node16_ok n \<longleftrightarrow>
     arr_rep 16 (nh_num_children (n16_header n)) (n16_keys n) (n16_children n)
       (node16_iter_children n)"

lemma node4_okI:
  "arr_rep 4 (nh_num_children (n4_header n)) (n4_keys n) (n4_children n) ps
   \<Longrightarrow> node4_ok n \<and> node4_iter_children n = ps"
  by (auto simp: node4_ok_def node4_iter_children_def arr_rep_iter) (auto simp: arr_rep_def arr_rep_iter)

lemma node16_okI:
  "arr_rep 16 (nh_num_children (n16_header n)) (n16_keys n) (n16_children n) ps
   \<Longrightarrow> node16_ok n \<and> node16_iter_children n = ps"
  by (auto simp: node16_ok_def node16_iter_children_def arr_rep_iter) (auto simp: arr_rep_def arr_rep_iter)




lemma node4_get_map: "node4_ok n \<Longrightarrow> node4_get_child n = map_of (node4_iter_children n)"
  by (rule ext) (simp add: node4_get_child_def node4_find_child_index_def node4_ok_def arr_rep_lookup)

lemma node4_add:
  assumes "node4_ok n" "\<not> node4_is_full n" "node4_get_child n k = None"
  shows "fst (node4_add_child n k c) \<and> node4_ok (snd (node4_add_child n k c))
    \<and> node4_iter_children (snd (node4_add_child n k c)) = node4_iter_children n @ [(k, c)]"
  using assms node4_okI [of "snd (node4_add_child n k c)" "node4_iter_children n @ [(k, c)]"]
    arr_rep_add [of 4 _ "n4_keys n" "n4_children n" "node4_iter_children n" k c]
  by (simp add: node4_add_child_def node4_is_full_def node4_get_map node4_ok_def Let_def)

lemma node4_remove_drop:
  assumes "node4_find_child_index n k = Some i"
  shows "node4_remove_child n k = (nth_opt (n4_children n) i,
    let m = nh_num_children (n4_header n); d = arr_drop m i (n4_keys n) (n4_children n) in
    Node4_struct ((n4_header n)\<lparr>nh_num_children := m - 1\<rparr>) (fst d) (snd d))"
  using assms by (simp add: node4_remove_child_def arr_drop_def Let_def)

lemma node4_slot:
  assumes "node4_ok n" "node4_find_child_index n k = Some i"
  shows "i < nh_num_children (n4_header n)" "i < length (node4_iter_children n)"
    "fst (node4_iter_children n ! i) = k"
  using assms arr_rep_find [of 4 _ "n4_keys n" "n4_children n" "node4_iter_children n" k i]
  by (auto simp: node4_ok_def node4_find_child_index_def arr_rep_def)

lemma node4_remove:
  assumes "node4_ok n"
  shows "fst (node4_remove_child n k) = node4_get_child n k
    \<and> node4_ok (snd (node4_remove_child n k))
    \<and> node4_get_child (snd (node4_remove_child n k)) = (node4_get_child n)(k := None)"
proof (cases "node4_find_child_index n k")
  case None
  then show ?thesis
    using assms by (auto simp: node4_remove_child_def node4_get_child_def fun_eq_iff)
next
  case (Some i)
  let ?ps = "node4_iter_children n" and ?n' = "snd (node4_remove_child n k)"
  note slot = node4_slot [OF assms Some]
  note arr = assms [unfolded node4_ok_def]
  have rep: "node4_ok ?n'" "node4_iter_children ?n' = swap_remove ?ps i"
    using node4_okI [of ?n' "swap_remove ?ps i"] arr_rep_drop [OF arr slot(1)]
    by (simp_all add: node4_remove_drop [OF Some] Let_def)
  have "map_of (swap_remove ?ps i) = (map_of ?ps)(k := None)"
    using map_of_swap_remove(1) [of i ?ps] slot arr by (simp add: arr_rep_def)
  with rep assms have "node4_get_child ?n' = (node4_get_child n)(k := None)"
    by (simp add: node4_get_map)
  moreover have "fst (node4_remove_child n k) = node4_get_child n k"
    by (simp add: node4_remove_drop [OF Some] node4_get_child_def Some)
  ultimately show ?thesis using rep by simp
qed

lemma node4_set:
  assumes "node4_ok n" "node4_find_child_index n k = Some i"
  shows "node4_ok (node4_set_slot n i (Some c))
    \<and> node4_get_child (node4_set_slot n i (Some c)) = (node4_get_child n)(k \<mapsto> c)"
proof -
  let ?ps = "node4_iter_children n"
  note slot = node4_slot [OF assms]
  note arr = assms(1) [unfolded node4_ok_def]
  have "node4_ok (node4_set_slot n i (Some c))
      \<and> node4_iter_children (node4_set_slot n i (Some c)) = ?ps[i := (k, c)]"
    using arr_rep_set(1) [OF arr slot(1,3)] by (intro node4_okI) (simp add: node4_set_slot_def)
  then show ?thesis
    using assms arr_rep_set(2) [OF arr slot(1,3)] by (simp add: node4_get_map)
qed

lemma node4_detach:
  assumes "node4_find_child_index n k = Some i"
  shows "snd (node4_remove_child (node4_set_slot n i None) k) = snd (node4_remove_child n k)"
proof -
  have "node4_find_child_index (node4_set_slot n i None) k = Some i"
    using assms by (simp add: node4_find_child_index_def node4_set_slot_def)
  then show ?thesis
    by (simp add: node4_remove_drop assms node4_remove_drop [OF assms] node4_set_slot_def
        arr_drop_def Let_def)
qed

interpretation n4: child_store
  node4_ok "\<lambda>n. nh_num_children (n4_header n)" node4_get_child node4_is_full
  node4_add_child node4_remove_child node4_iter_children
proof (unfold_locales, goal_cases)
  case (1 n) then show ?case by (simp add: node4_ok_def arr_rep_def)
next
  case (2 n) then show ?case by (simp add: node4_get_map)
next
  case (3 n) then show ?case by (simp add: node4_ok_def arr_rep_def)
next
  case (4 n k c) then show ?case by (simp add: node4_add_child_def)
next
  case (5 n k c) then show ?case by (simp add: node4_add)
next
  case (6 n k c) then show ?case by (simp add: node4_add)
next
  case (7 n k c)
  then have "map_of (node4_iter_children n) k = None" by (simp add: node4_get_map)
  with 7 show ?case by (simp add: node4_add node4_get_map map_add_single)
qed (simp_all add: node4_remove)

interpretation n4s: child_slots
  node4_ok "\<lambda>n. nh_num_children (n4_header n)" node4_get_child node4_is_full
  node4_add_child node4_remove_child node4_iter_children
  node4_find_child_index n4_children node4_set_slot
  "\<lambda>n i k. snd (node4_remove_child (node4_set_slot n i None) k)"
  by unfold_locales (simp_all add: node4_get_child_def node4_set node4_detach)

lemma node16_get_map: "node16_ok n \<Longrightarrow> node16_get_child n = map_of (node16_iter_children n)"
  by (rule ext) (simp add: node16_get_child_def node16_find_child_index_def node16_ok_def arr_rep_lookup)

lemma node16_add:
  assumes "node16_ok n" "\<not> node16_is_full n" "node16_get_child n k = None"
  shows "fst (node16_add_child n k c) \<and> node16_ok (snd (node16_add_child n k c))
    \<and> node16_iter_children (snd (node16_add_child n k c)) = node16_iter_children n @ [(k, c)]"
  using assms node16_okI [of "snd (node16_add_child n k c)" "node16_iter_children n @ [(k, c)]"]
    arr_rep_add [of 16 _ "n16_keys n" "n16_children n" "node16_iter_children n" k c]
  by (simp add: node16_add_child_def node16_is_full_def node16_get_map node16_ok_def Let_def)

lemma node16_remove_drop:
  assumes "node16_find_child_index n k = Some i"
  shows "node16_remove_child n k = (nth_opt (n16_children n) i,
    let m = nh_num_children (n16_header n); d = arr_drop m i (n16_keys n) (n16_children n) in
    Node16_struct ((n16_header n)\<lparr>nh_num_children := m - 1\<rparr>) (fst d) (snd d))"
  using assms by (simp add: node16_remove_child_def arr_drop_def Let_def)

lemma node16_slot:
  assumes "node16_ok n" "node16_find_child_index n k = Some i"
  shows "i < nh_num_children (n16_header n)" "i < length (node16_iter_children n)"
    "fst (node16_iter_children n ! i) = k"
  using assms arr_rep_find [of 16 _ "n16_keys n" "n16_children n" "node16_iter_children n" k i]
  by (auto simp: node16_ok_def node16_find_child_index_def arr_rep_def)

lemma node16_remove:
  assumes "node16_ok n"
  shows "fst (node16_remove_child n k) = node16_get_child n k
    \<and> node16_ok (snd (node16_remove_child n k))
    \<and> node16_get_child (snd (node16_remove_child n k)) = (node16_get_child n)(k := None)"
proof (cases "node16_find_child_index n k")
  case None
  then show ?thesis
    using assms by (auto simp: node16_remove_child_def node16_get_child_def fun_eq_iff)
next
  case (Some i)
  let ?ps = "node16_iter_children n" and ?n' = "snd (node16_remove_child n k)"
  note slot = node16_slot [OF assms Some]
  note arr = assms [unfolded node16_ok_def]
  have rep: "node16_ok ?n'" "node16_iter_children ?n' = swap_remove ?ps i"
    using node16_okI [of ?n' "swap_remove ?ps i"] arr_rep_drop [OF arr slot(1)]
    by (simp_all add: node16_remove_drop [OF Some] Let_def)
  have "map_of (swap_remove ?ps i) = (map_of ?ps)(k := None)"
    using map_of_swap_remove(1) [of i ?ps] slot arr by (simp add: arr_rep_def)
  with rep assms have "node16_get_child ?n' = (node16_get_child n)(k := None)"
    by (simp add: node16_get_map)
  moreover have "fst (node16_remove_child n k) = node16_get_child n k"
    by (simp add: node16_remove_drop [OF Some] node16_get_child_def Some)
  ultimately show ?thesis using rep by simp
qed

lemma node16_set:
  assumes "node16_ok n" "node16_find_child_index n k = Some i"
  shows "node16_ok (node16_set_slot n i (Some c))
    \<and> node16_get_child (node16_set_slot n i (Some c)) = (node16_get_child n)(k \<mapsto> c)"
proof -
  let ?ps = "node16_iter_children n"
  note slot = node16_slot [OF assms]
  note arr = assms(1) [unfolded node16_ok_def]
  have "node16_ok (node16_set_slot n i (Some c))
      \<and> node16_iter_children (node16_set_slot n i (Some c)) = ?ps[i := (k, c)]"
    using arr_rep_set(1) [OF arr slot(1,3)] by (intro node16_okI) (simp add: node16_set_slot_def)
  then show ?thesis
    using assms arr_rep_set(2) [OF arr slot(1,3)] by (simp add: node16_get_map)
qed

lemma node16_detach:
  assumes "node16_find_child_index n k = Some i"
  shows "snd (node16_remove_child (node16_set_slot n i None) k) = snd (node16_remove_child n k)"
proof -
  have "node16_find_child_index (node16_set_slot n i None) k = Some i"
    using assms by (simp add: node16_find_child_index_def node16_set_slot_def)
  then show ?thesis
    by (simp add: node16_remove_drop assms node16_remove_drop [OF assms] node16_set_slot_def
        arr_drop_def Let_def)
qed

interpretation n16: child_store
  node16_ok "\<lambda>n. nh_num_children (n16_header n)" node16_get_child node16_is_full
  node16_add_child node16_remove_child node16_iter_children
proof (unfold_locales, goal_cases)
  case (1 n) then show ?case by (simp add: node16_ok_def arr_rep_def)
next
  case (2 n) then show ?case by (simp add: node16_get_map)
next
  case (3 n) then show ?case by (simp add: node16_ok_def arr_rep_def)
next
  case (4 n k c) then show ?case by (simp add: node16_add_child_def)
next
  case (5 n k c) then show ?case by (simp add: node16_add)
next
  case (6 n k c) then show ?case by (simp add: node16_add)
next
  case (7 n k c)
  then have "map_of (node16_iter_children n) k = None" by (simp add: node16_get_map)
  with 7 show ?case by (simp add: node16_add node16_get_map map_add_single)
qed (simp_all add: node16_remove)

interpretation n16s: child_slots
  node16_ok "\<lambda>n. nh_num_children (n16_header n)" node16_get_child node16_is_full
  node16_add_child node16_remove_child node16_iter_children
  node16_find_child_index n16_children node16_set_slot
  "\<lambda>n i k. snd (node16_remove_child (node16_set_slot n i None) k)"
  by unfold_locales (simp_all add: node16_get_child_def node16_set node16_detach)

section \<open>Node48\<close>

definition node48_idx :: "'c node48 \<Rightarrow> u8 \<Rightarrow> u8" where
  "node48_idx n k = n48_child_index n ! unat k"

text \<open>
  Every used index entry points to an occupied slot below 48, no two keys share a slot,
  every occupied slot is some key's, and the counter is the number of keys.
\<close>

definition node48_ok :: "'c node48 \<Rightarrow> bool" where
  "node48_ok n \<longleftrightarrow> length (n48_child_index n) = 256 \<and> length (n48_children n) = 48
     \<and> (\<forall>k. node48_idx n k \<noteq> 255 \<longrightarrow>
          unat (node48_idx n k) < 48 \<and> n48_children n ! unat (node48_idx n k) \<noteq> None)
     \<and> (\<forall>j k. node48_idx n j = node48_idx n k \<and> node48_idx n k \<noteq> 255 \<longrightarrow> j = k)
     \<and> (\<forall>s < 48. n48_children n ! s \<noteq> None \<longrightarrow>
          (\<exists>k. node48_idx n k \<noteq> 255 \<and> unat (node48_idx n k) = s))
     \<and> nh_num_children (n48_header n) = length (node48_iter_children n)"

lemma node48_okD:
  assumes "node48_ok n"
  shows "length (n48_child_index n) = 256" and "length (n48_children n) = 48"
    and "node48_idx n k \<noteq> 255 \<Longrightarrow>
      unat (node48_idx n k) < 48 \<and> n48_children n ! unat (node48_idx n k) \<noteq> None"
    and "node48_idx n j = node48_idx n k \<Longrightarrow> node48_idx n k \<noteq> 255 \<Longrightarrow> j = k"
    and "s < 48 \<Longrightarrow> n48_children n ! s \<noteq> None \<Longrightarrow>
      \<exists>k. node48_idx n k \<noteq> 255 \<and> unat (node48_idx n k) = s"
    and "nh_num_children (n48_header n) = length (node48_iter_children n)"
  using assms unfolding node48_ok_def by blast+

lemma node48_get_idx:
  "node48_get_child n k =
     (if node48_idx n k \<noteq> 255 then nth_opt (n48_children n) (unat (node48_idx n k)) else None)"
  by (simp add: node48_get_child_def node48_idx_def Let_def)

lemma node48_iter_pairs:
  "node48_iter_children n = byte_pairs (\<lambda>i. if n48_child_index n ! i \<noteq> 255
     then nth_opt (n48_children n) (unat (n48_child_index n ! i)) else None)"
  unfolding node48_iter_children_def byte_pairs_def
  by (rule arg_cong [where f = "\<lambda>g. List.map_filter g [0..<256]"]) (auto simp: Let_def)

lemma node48_iter_get: "map_of (node48_iter_children n) = node48_get_child n"
  by (rule ext) (simp add: node48_iter_pairs byte_pairs_get node48_get_idx node48_idx_def)

lemma node48_iter_distinct: "distinct (map fst (node48_iter_children n))"
  by (simp add: node48_iter_pairs byte_pairs_distinct)

lemma node48_iter_length: "length (node48_iter_children n) = card (dom (node48_get_child n))"
  using node48_iter_distinct [of n] node48_iter_get [of n]
  by (metis distinct_card dom_map_of_conv_image_fst length_map list.set_map)

lemma node48_get_None: "node48_ok n \<Longrightarrow> node48_get_child n k = None \<longleftrightarrow> node48_idx n k = 255"
  using node48_okD(2,3) [of n] by (auto simp: node48_get_idx nth_opt_def)

lemma node48_free_slot:
  assumes "node48_ok n" "\<not> node48_is_full n"
  obtains s where "node48_find_free_slot n = Some s" "s < 48" "n48_children n ! s = None"
proof -
  have len: "length (n48_children n) = 48" by (rule node48_okD(2) [OF assms(1)])
  have "\<exists>s < 48. n48_children n ! s = None"
  proof (rule ccontr)
    assume "\<not> ?thesis"
    then have "\<exists>k. node48_idx n k \<noteq> 255 \<and> unat (node48_idx n k) = s" if "s < 48" for s
      using node48_okD(5) [OF assms(1) that] that by auto
    then have "{..<48 :: nat} \<subseteq> (\<lambda>k. unat (node48_idx n k)) ` dom (node48_get_child n)"
      using node48_get_None [OF assms(1)] by (force simp: domIff)
    then have "48 \<le> card (dom (node48_get_child n))"
      using surj_card_le [of "dom (node48_get_child n)" "{..<48 :: nat}"] by simp
    with assms(2) node48_okD(6) [OF assms(1)] show False
      by (simp add: node48_is_full_def node48_iter_length)
  qed
  then have "node48_find_free_slot n \<noteq> None"
    unfolding node48_find_free_slot_def find_upt_None by (auto simp: nth_opt_def len)
  then obtain s where s: "node48_find_free_slot n = Some s" by blast
  then have "s < 48 \<and> n48_children n ! s = None"
    unfolding node48_find_free_slot_def using len by (auto dest!: find_upt_Some simp: nth_opt_def)
  with s that show ?thesis by blast
qed

lemma node48_okI:
  assumes "length (n48_child_index n) = 256" "length (n48_children n) = 48"
    and "\<And>k. node48_idx n k \<noteq> 255 \<Longrightarrow>
          unat (node48_idx n k) < 48 \<and> n48_children n ! unat (node48_idx n k) \<noteq> None"
    and "\<And>j k. node48_idx n j = node48_idx n k \<Longrightarrow> node48_idx n k \<noteq> 255 \<Longrightarrow> j = k"
    and "\<And>s. s < 48 \<Longrightarrow> n48_children n ! s \<noteq> None \<Longrightarrow>
          \<exists>k. node48_idx n k \<noteq> 255 \<and> unat (node48_idx n k) = s"
    and "nh_num_children (n48_header n) = card (dom (node48_get_child n))"
  shows "node48_ok n"
  using assms unfolding node48_ok_def by (auto simp: node48_iter_length)

lemma u8_slot:
  assumes "s < 48"
  shows "unat (word_of_nat s :: u8) = s" "(word_of_nat s :: u8) \<noteq> 255"
proof -
  show u: "unat (word_of_nat s :: u8) = s" using assms by (simp add: unat_of_nat_u8)
  have "unat (255 :: u8) = 255" by simp
  with u assms show "(word_of_nat s :: u8) \<noteq> 255" by force
qed

lemma node48_add:
  assumes "node48_ok n" "\<not> node48_is_full n" "node48_get_child n k = None"
  shows "fst (node48_add_child n k c) \<and> node48_ok (snd (node48_add_child n k c))
    \<and> node48_get_child (snd (node48_add_child n k c)) = (node48_get_child n)(k \<mapsto> c)"
proof -
  obtain s where s: "node48_find_free_slot n = Some s" "s < 48" "n48_children n ! s = None"
    using node48_free_slot [OF assms(1,2)] .
  note ok = node48_okD [OF assms(1)]
  let ?n = "snd (node48_add_child n k c)"
  have n: "?n = Node48_struct ((n48_header n)\<lparr>nh_num_children := nh_num_children (n48_header n) + 1\<rparr>)
      ((n48_child_index n)[unat k := word_of_nat s]) ((n48_children n)[s := Some c])"
    using assms(2) s(1) by (simp add: node48_add_child_def Let_def)
  have chs: "n48_children ?n = (n48_children n)[s := Some c]" by (simp add: n)
  have idx: "node48_idx ?n = (node48_idx n)(k := word_of_nat s)"
    using ok(1) by (auto simp: fun_eq_iff node48_idx_def n nth_list_update)
  have used: "unat (node48_idx n j) \<noteq> s" if "node48_idx n j \<noteq> 255" for j
    using ok(3) [OF that] s(3) by auto
  have fresh: "node48_idx n k = 255" using assms node48_get_None by blast
  have get: "node48_get_child ?n = (node48_get_child n)(k \<mapsto> c)"
  proof
    fix j show "node48_get_child ?n j = ((node48_get_child n)(k \<mapsto> c)) j"
      using used [of j] ok(2) u8_slot [OF s(2)] s(2)
      by (cases "j = k") (auto simp: node48_get_idx idx chs arr_simps)
  qed
  have "card (dom (node48_get_child ?n)) = Suc (card (dom (node48_get_child n)))"
    using assms(3) finite [of "dom (node48_get_child n)"] by (simp add: get domIff)
  then have num: "nh_num_children (n48_header ?n) = card (dom (node48_get_child ?n))"
    using ok(6) by (simp add: n node48_iter_length)
  have "node48_ok ?n"
  proof (rule node48_okI [OF _ _ _ _ _ num])
    show "length (n48_child_index ?n) = 256" "length (n48_children ?n) = 48" using ok(1,2) by (simp_all add: n)
  next
    fix j assume "node48_idx ?n j \<noteq> 255"
    then show "unat (node48_idx ?n j) < 48 \<and> n48_children ?n ! unat (node48_idx ?n j) \<noteq> None"
      using ok(2) ok(3) [of j] used [of j] u8_slot [OF s(2)] s(2)
      by (auto simp: idx chs nth_list_update split: if_splits)
  next
    fix i j assume "node48_idx ?n i = node48_idx ?n j" "node48_idx ?n j \<noteq> 255"
    then show "i = j"
      using ok(4) [of i j] used [of i] used [of j] u8_slot [OF s(2)] by (auto simp: idx split: if_splits)
  next
    fix t assume t: "t < 48" "n48_children ?n ! t \<noteq> None"
    show "\<exists>j. node48_idx ?n j \<noteq> 255 \<and> unat (node48_idx ?n j) = t"
    proof (cases "t = s")
      case True
      then show ?thesis using u8_slot [OF s(2)] by (intro exI [of _ k]) (simp add: idx)
    next
      case False
      then obtain j where "node48_idx n j \<noteq> 255 \<and> unat (node48_idx n j) = t"
        using ok(5) [of t] t by (auto simp: chs)
      then show ?thesis using fresh by (intro exI [of _ j]) (auto simp: idx)
    qed
  qed
  then show ?thesis using get assms(2) s(1) by (simp add: node48_add_child_def Let_def)
qed

lemma node48_remove:
  assumes "node48_ok n"
  shows "fst (node48_remove_child n k) = node48_get_child n k
    \<and> node48_ok (snd (node48_remove_child n k))
    \<and> node48_get_child (snd (node48_remove_child n k)) = (node48_get_child n)(k := None)"
proof (cases "node48_idx n k = 255")
  case True
  then have "node48_remove_child n k = (None, n)"
    by (simp add: node48_remove_child_def node48_idx_def Let_def)
  with True assms show ?thesis by (auto simp: fun_eq_iff node48_get_idx)
next
  case False
  note ok = node48_okD [OF assms]
  let ?n = "snd (node48_remove_child n k)" and ?s = "unat (node48_idx n k)"
  have r: "node48_remove_child n k = (nth_opt (n48_children n) ?s,
      Node48_struct ((n48_header n)\<lparr>nh_num_children := nh_num_children (n48_header n) - 1\<rparr>)
        ((n48_child_index n)[unat k := 255]) ((n48_children n)[?s := None]))"
    using False by (simp add: node48_remove_child_def node48_idx_def Let_def)
  have chs: "n48_children ?n = (n48_children n)[?s := None]" by (simp add: r)
  have idx: "node48_idx ?n = (node48_idx n)(k := 255)"
    using ok(1) by (auto simp: fun_eq_iff node48_idx_def r nth_list_update)
  have other: "unat (node48_idx n j) \<noteq> ?s" if "j \<noteq> k" for j
    using ok(4) [of j k] False that by auto
  have get: "node48_get_child ?n = (node48_get_child n)(k := None)"
  proof
    fix j show "node48_get_child ?n j = ((node48_get_child n)(k := None)) j"
      using other [of j] by (cases "j = k") (simp_all add: node48_get_idx idx chs arr_simps)
  qed
  have "node48_get_child n k \<noteq> None" using False assms node48_get_None by blast
  then have num: "nh_num_children (n48_header ?n) = card (dom (node48_get_child ?n))"
    using ok(6) finite [of "dom (node48_get_child n)"]
    unfolding get by (simp add: r node48_iter_length card_Diff_singleton domIff)
  have "node48_ok ?n"
  proof (rule node48_okI [OF _ _ _ _ _ num])
    show "length (n48_child_index ?n) = 256" "length (n48_children ?n) = 48" using ok(1,2) by (simp_all add: r)
  next
    fix j assume "node48_idx ?n j \<noteq> 255"
    then show "unat (node48_idx ?n j) < 48 \<and> n48_children ?n ! unat (node48_idx ?n j) \<noteq> None"
      using ok(3) [of j] other [of j] by (auto simp: idx chs split: if_splits)
  next
    fix i j assume "node48_idx ?n i = node48_idx ?n j" "node48_idx ?n j \<noteq> 255"
    then show "i = j" using ok(4) [of i j] by (auto simp: idx split: if_splits)
  next
    fix t assume t: "t < 48" "n48_children ?n ! t \<noteq> None"
    then have "t \<noteq> ?s" "n48_children n ! t \<noteq> None" using ok(2) by (cases "t = ?s"; simp add: chs)+
    then obtain j where "node48_idx n j \<noteq> 255 \<and> unat (node48_idx n j) = t" using ok(5) [OF t(1)] by blast
    then show "\<exists>j. node48_idx ?n j \<noteq> 255 \<and> unat (node48_idx ?n j) = t"
      using \<open>t \<noteq> ?s\<close> by (intro exI [of _ j]) (auto simp: idx)
  qed
  then show ?thesis using get r False by (simp add: node48_get_idx)
qed

lemma node48_set:
  assumes "node48_ok n" "node48_idx n k \<noteq> 255"
  shows "node48_ok (node48_set_slot n (unat (node48_idx n k)) (Some c))
    \<and> node48_get_child (node48_set_slot n (unat (node48_idx n k)) (Some c)) = (node48_get_child n)(k \<mapsto> c)"
proof -
  note ok = node48_okD [OF assms(1)]
  let ?s = "unat (node48_idx n k)"
  let ?n = "node48_set_slot n ?s (Some c)"
  have s: "?s < 48" "n48_children n ! ?s \<noteq> None" using ok(3) assms(2) by blast+
  have chs: "n48_children ?n = (n48_children n)[?s := Some c]" by (simp add: node48_set_slot_def)
  have idx: "node48_idx ?n = node48_idx n"
    by (simp add: fun_eq_iff node48_idx_def node48_set_slot_def)
  have other: "unat (node48_idx n j) \<noteq> ?s" if "j \<noteq> k" for j
    using ok(4) [of j k] assms(2) that by auto
  have get: "node48_get_child ?n = (node48_get_child n)(k \<mapsto> c)"
  proof
    fix j show "node48_get_child ?n j = ((node48_get_child n)(k \<mapsto> c)) j"
      using other [of j] s(1) assms(2) ok(2)
      by (cases "j = k") (simp_all add: node48_get_idx idx chs arr_simps)
  qed
  have "node48_get_child n k \<noteq> None" using assms node48_get_None by blast
  then have num: "nh_num_children (n48_header ?n) = card (dom (node48_get_child ?n))"
    using ok(6) unfolding get by (simp add: node48_set_slot_def node48_iter_length insert_absorb domIff)
  have ch: "n48_children ?n ! t \<noteq> None \<longleftrightarrow> n48_children n ! t \<noteq> None" if "t < 48" for t
    using s ok(2) that by (auto simp: chs nth_list_update)
  have "node48_ok ?n"
  proof (rule node48_okI [OF _ _ _ _ _ num])
    show "length (n48_child_index ?n) = 256" "length (n48_children ?n) = 48"
      using ok(1,2) by (simp_all add: node48_set_slot_def)
  qed (use ok(3,4,5) ch idx in auto)
  with get show ?thesis by simp
qed

definition node48_slot :: "'c node48 \<Rightarrow> u8 \<Rightarrow> nat option" where
  "node48_slot n k = (let idx = n48_child_index n ! unat k in if idx \<noteq> 255 then Some (unat idx) else None)"

lemma node48_slot_idx: "node48_slot n k = (if node48_idx n k \<noteq> 255 then Some (unat (node48_idx n k)) else None)"
  by (simp add: node48_slot_def node48_idx_def Let_def)

lemma node48_detach:
  assumes "node48_slot n k = Some i"
  shows "snd (node48_remove_child (node48_set_slot n i None) k) = snd (node48_remove_child n k)"
  using assms by (auto simp: node48_remove_child_def node48_set_slot_def node48_slot_def Let_def split: if_splits)

interpretation n48: child_store
  node48_ok "\<lambda>n. nh_num_children (n48_header n)" node48_get_child node48_is_full
  node48_add_child node48_remove_child node48_iter_children
proof (unfold_locales, goal_cases)
  case 1 show ?case by (rule node48_iter_distinct)
next
  case 2 show ?case by (rule node48_iter_get)
next
  case (3 n) then show ?case by (simp add: node48_okD(6))
next
  case (4 n k c) then show ?case by (simp add: node48_add_child_def)
qed (simp_all add: node48_add node48_remove)

interpretation n48s: child_slots
  node48_ok "\<lambda>n. nh_num_children (n48_header n)" node48_get_child node48_is_full
  node48_add_child node48_remove_child node48_iter_children
  node48_slot n48_children node48_set_slot
  "\<lambda>n i k. snd (node48_remove_child (node48_set_slot n i None) k)"
  by unfold_locales
     (auto simp: node48_get_idx node48_slot_idx node48_set node48_detach split: if_splits)

section \<open>Node256\<close>

definition node256_ok :: "'c node256 \<Rightarrow> bool" where
  "node256_ok n \<longleftrightarrow> length (n256_children n) = 256
     \<and> nh_num_children (n256_header n) = length (node256_iter_children n)"

lemma node256_iter_pairs: "node256_iter_children n = byte_pairs (nth_opt (n256_children n))"
  by (simp add: node256_iter_children_def byte_pairs_def)

lemma node256_iter_get: "map_of (node256_iter_children n) = node256_get_child n"
  by (rule ext) (simp add: node256_iter_pairs byte_pairs_get node256_get_child_def)

lemma node256_iter_length: "length (node256_iter_children n) = card (dom (node256_get_child n))"
  by (simp add: node256_iter_pairs byte_pairs_length node256_get_child_def [abs_def])

lemma node256_add:
  assumes "node256_ok n" "node256_get_child n k = None"
  shows "fst (node256_add_child n k c) \<and> node256_ok (snd (node256_add_child n k c))
    \<and> node256_get_child (snd (node256_add_child n k c)) = (node256_get_child n)(k \<mapsto> c)"
proof -
  have get: "node256_get_child (snd (node256_add_child n k c)) = (node256_get_child n)(k \<mapsto> c)"
    using assms(1)
    by (auto simp: fun_eq_iff node256_get_child_def node256_add_child_def Let_def arr_simps node256_ok_def)
  then show ?thesis
    using assms finite [of "dom (node256_get_child n)"]
    by (auto simp: node256_ok_def node256_iter_length node256_add_child_def Let_def domIff
        node256_get_child_def)
qed

lemma node256_remove:
  assumes "node256_ok n"
  shows "fst (node256_remove_child n k) = node256_get_child n k
    \<and> node256_ok (snd (node256_remove_child n k))
    \<and> node256_get_child (snd (node256_remove_child n k)) = (node256_get_child n)(k := None)"
proof -
  have get: "node256_get_child (snd (node256_remove_child n k)) = (node256_get_child n)(k := None)"
    by (auto simp: fun_eq_iff node256_get_child_def node256_remove_child_def Let_def arr_simps)
       (auto simp: nth_opt_def)
  then show ?thesis
    using assms finite [of "dom (node256_get_child n)"]
    by (auto simp: node256_ok_def node256_iter_length node256_remove_child_def Let_def domIff
        node256_get_child_def card_Diff_singleton_if)
qed

lemma node256_set:
  assumes "node256_ok n" "node256_get_child n k \<noteq> None"
  shows "node256_ok (node256_set_slot n (unat k) (Some c))
    \<and> node256_get_child (node256_set_slot n (unat k) (Some c)) = (node256_get_child n)(k \<mapsto> c)"
proof -
  have "node256_get_child (node256_set_slot n (unat k) (Some c)) = (node256_get_child n)(k \<mapsto> c)"
    using assms(1) by (auto simp: fun_eq_iff node256_get_child_def node256_set_slot_def arr_simps node256_ok_def)
  with assms show ?thesis
    by (auto simp: node256_ok_def node256_iter_length node256_set_slot_def insert_absorb domI)
qed

text \<open>In the tree, a removed \<open>Node256\<close> child is overwritten and the counter lowered in place.\<close>

definition node256_detach :: "'c node256 \<Rightarrow> nat \<Rightarrow> u8 \<Rightarrow> 'c node256" where
  "node256_detach n i k = (let m = node256_set_slot n i None; h = n256_header m in
     Node256_struct (h\<lparr>nh_num_children := nh_num_children h - 1\<rparr>) (n256_children m))"

interpretation n256: child_store
  node256_ok "\<lambda>n. nh_num_children (n256_header n)" node256_get_child "\<lambda>_. False"
  node256_add_child node256_remove_child node256_iter_children
proof (unfold_locales, goal_cases)
  case 1 show ?case by (simp add: node256_iter_pairs byte_pairs_distinct)
next
  case 2 show ?case by (rule node256_iter_get)
next
  case (3 n) then show ?case by (simp add: node256_ok_def)
qed (simp_all add: node256_add node256_remove)

interpretation n256s: child_slots
  node256_ok "\<lambda>n. nh_num_children (n256_header n)" node256_get_child "\<lambda>_. False"
  node256_add_child node256_remove_child node256_iter_children
  "\<lambda>n k. Some (unat k)" n256_children node256_set_slot node256_detach
proof (unfold_locales, goal_cases)
  case 1 show ?case by (simp add: node256_get_child_def)
next
  case 4 then show ?case
    by (auto simp: node256_get_child_def node256_detach_def node256_remove_child_def
        node256_set_slot_def Let_def)
qed (auto simp: node256_set)

end
