(* ===== verification/Art_Resize.thy ===== *)
theory Art_Resize
  imports Art_Store
begin

text \<open>
  Growing \<open>Node4 \<rightarrow> Node16 \<rightarrow> Node48 \<rightarrow> Node256\<close> and shrinking back keep the node
  invariant, the map from key bytes to children, and the header's prefix and row ids; the
  shrinking loops drop no child because they only run below the smaller node's capacity.
\<close>

section \<open>Headers\<close>

definition header_ok :: "node_header \<Rightarrow> bool" where
  "header_ok h \<longleftrightarrow> length (nh_prefix h) = MAX_PREFIX_LEN"

text \<open>Two headers that agree on everything but the child counter and the array padding.\<close>

definition header_same :: "node_header \<Rightarrow> node_header \<Rightarrow> bool" where
  "header_same g h \<longleftrightarrow> get_prefix g = get_prefix h \<and> nh_prefix_len g = nh_prefix_len h
     \<and> nh_values g = nh_values h \<and> (header_ok h \<longrightarrow> header_ok g)"

lemma header_ok_set_prefix: "header_ok h \<Longrightarrow> header_ok (set_prefix p h)"
  by (auto simp: header_ok_def set_prefix_def Let_def MAX_PREFIX_LEN_def)

lemma header_ok_with_prefix [simp]: "header_ok (header_with_prefix p)"
  unfolding header_with_prefix_def
  by (rule header_ok_set_prefix) (simp add: header_ok_def header_default_def)

lemma length_get_prefix: "header_ok h \<Longrightarrow> length (get_prefix h) = min (nh_prefix_len h) MAX_PREFIX_LEN"
  by (simp add: get_prefix_def header_ok_def)

lemma resized_header_same:
  assumes "header_ok h"
  shows "header_same (resized_header h n) h"
proof -
  have "length (get_prefix h) = min (nh_prefix_len h) MAX_PREFIX_LEN"
    using assms by (rule length_get_prefix)
  then have "get_prefix (resized_header h n) = get_prefix h"
    by (simp add: resized_header_def header_with_prefix_def set_prefix_def get_prefix_def [of "_\<lparr>nh_prefix_len := _, nh_values := _, nh_num_children := _\<rparr>"] Let_def)
  then show ?thesis
    using header_ok_with_prefix [of "get_prefix h"]
    by (simp add: header_same_def resized_header_def header_ok_def)
qed

lemma resized_header_num [simp]: "nh_num_children (resized_header h n) = n"
  by (simp add: resized_header_def)

section \<open>Growing\<close>

lemma fold_copy:
  assumes "m \<le> cap"
  shows "\<exists>ks' cs'. fold (\<lambda>i (ks, cs). case nth_opt src i of
        Some c \<Rightarrow> (ks[i := sk ! i], cs[i := Some c]) | None \<Rightarrow> (ks, cs)) [0..<m]
        (replicate cap z, replicate cap None) = (ks', cs')
     \<and> length ks' = cap \<and> length cs' = cap
     \<and> (\<forall>i < cap. ks' ! i = (if i < m \<and> nth_opt src i \<noteq> None then sk ! i else z))
     \<and> (\<forall>i < cap. cs' ! i = (if i < m then nth_opt src i else None))"
  using assms
proof (induction m)
  case 0
  then show ?case by simp
next
  case (Suc m)
  then obtain ks' cs' where IH: "fold (\<lambda>i (ks, cs). case nth_opt src i of
        Some c \<Rightarrow> (ks[i := sk ! i], cs[i := Some c]) | None \<Rightarrow> (ks, cs)) [0..<m]
        (replicate cap z, replicate cap None) = (ks', cs')"
      "length ks' = cap" "length cs' = cap"
      "\<forall>i < cap. ks' ! i = (if i < m \<and> nth_opt src i \<noteq> None then sk ! i else z)"
      "\<forall>i < cap. cs' ! i = (if i < m then nth_opt src i else None)"
    by auto
  show ?case
    using IH Suc.prems
    by (cases "nth_opt src m") (auto simp: nth_list_update less_Suc_eq)
qed

lemma node4_grow:
  assumes "node4_ok n" "header_ok (n4_header n)"
  shows "node16_ok (node4_grow n) \<and> node16_get_child (node4_grow n) = node4_get_child n
    \<and> header_same (n16_header (node4_grow n)) (n4_header n)
    \<and> nh_num_children (n16_header (node4_grow n)) = nh_num_children (n4_header n)"
proof -
  let ?m = "nh_num_children (n4_header n)" and ?ps = "node4_iter_children n"
  note arr = assms(1) [unfolded node4_ok_def]
  have rep: "length ?ps = ?m" "?m \<le> 4" "length (n4_keys n) = 4" "distinct (map fst ?ps)"
    using arr by (auto simp: arr_rep_def)
  have src: "nth_opt (n4_children n) i = (if i < ?m then Some (snd (?ps ! i)) else None)" for i
    using arr by (auto simp: arr_rep_nth arr_rep_def nth_opt_def nth_append)
  obtain ks cs where f: "fold (\<lambda>i (ks, cs). case nth_opt (n4_children n) i of
        Some c \<Rightarrow> (ks[i := n4_keys n ! i], cs[i := Some c]) | None \<Rightarrow> (ks, cs)) [0..<4]
        (replicate 16 0, replicate 16 None) = (ks, cs)"
      "length ks = 16" "length cs = 16"
      "\<forall>i < 16. ks ! i = (if i < 4 \<and> nth_opt (n4_children n) i \<noteq> None then n4_keys n ! i else 0)"
      "\<forall>i < 16. cs ! i = (if i < 4 then nth_opt (n4_children n) i else None)"
    using fold_copy [where m = 4 and cap = 16 and src = "n4_children n" and sk = "n4_keys n" and z = 0]
    by (auto simp del: upt_rec_numeral fold_simps)
  have g: "node4_grow n = Node16_struct (resized_header (n4_header n) ?m) ks cs"
    by (simp only: node4_grow_def f(1) Let_def prod.case)
  have "take ?m ks = map fst ?ps"
    using rep f(2,4) src arr_rep_nth(1) [OF arr] by (intro nth_equalityI) auto
  moreover have "cs = map (Some \<circ> snd) ?ps @ replicate (16 - ?m) None"
    using rep f(3,5) src by (intro nth_equalityI) (auto simp: nth_append)
  ultimately have "arr_rep 16 ?m ks cs ?ps" using rep f(2) by (simp add: arr_rep_def)
  then have ok: "node16_ok (node4_grow n) \<and> node16_iter_children (node4_grow n) = ?ps"
    by (intro node16_okI) (simp add: g)
  then have "node16_get_child (node4_grow n) = node4_get_child n"
    using assms(1) by (simp add: node16_get_map node4_get_map)
  with ok assms(2) show ?thesis by (simp add: g resized_header_same)
qed


text \<open>\<open>Node16 \<rightarrow> Node48\<close>: the index array ends up pointing each key at its old slot.\<close>

lemma find_append: "find p (xs @ ys) = (case find p xs of Some x \<Rightarrow> Some x | None \<Rightarrow> find p ys)"
  by (induction xs) auto

lemma find_key_Suc:
  "find_key keys (Suc m) k = (case find_key keys m k of Some i \<Rightarrow> Some i
     | None \<Rightarrow> if keys ! m = k then Some m else None)"
  by (simp add: find_key_def find_append split: option.split)

lemma find_key_bound: "find_key keys m k = Some i \<Longrightarrow> i < m \<and> keys ! i = k"
  unfolding find_key_def by (rule find_upt_Some)

lemma fold_index:
  assumes rep: "arr_rep 16 n keys src ps" and "m \<le> 16"
  shows "\<exists>ix cs. fold (\<lambda>i (ix, cs). case nth_opt src i of
        Some c \<Rightarrow> (ix[unat (keys ! i) := word_of_nat i], cs[i := Some c]) | None \<Rightarrow> (ix, cs)) [0..<m]
        (replicate 256 (255 :: u8), replicate 48 None) = (ix, cs)
     \<and> length ix = 256 \<and> length cs = 48
     \<and> (\<forall>k :: u8. ix ! unat k = (case find_key keys (min m n) k of Some i \<Rightarrow> word_of_nat i | None \<Rightarrow> 255))
     \<and> (\<forall>i < 48. cs ! i = (if i < min m n then Some (snd (ps ! i)) else None))"
  using assms(2)
proof (induction m)
  case 0
  then show ?case by (simp add: find_key_def)
next
  case (Suc m)
  then obtain ix cs where IH: "fold (\<lambda>i (ix, cs). case nth_opt src i of
        Some c \<Rightarrow> (ix[unat (keys ! i) := word_of_nat i], cs[i := Some c]) | None \<Rightarrow> (ix, cs)) [0..<m]
        (replicate 256 (255 :: u8), replicate 48 None) = (ix, cs)"
      "length ix = 256" "length cs = 48"
      "\<forall>k :: u8. ix ! unat k = (case find_key keys (min m n) k of Some i \<Rightarrow> word_of_nat i | None \<Rightarrow> 255)"
      "\<forall>i < 48. cs ! i = (if i < min m n then Some (snd (ps ! i)) else None)"
    by auto
  show ?case
  proof (cases "m < n")
    case True
    then have src: "nth_opt src m = Some (snd (ps ! m))" using arr_rep_nth(2) [OF rep] by blast
    have old: "find_key keys m (keys ! m) = None"
    proof (cases "find_key keys m (keys ! m)")
      case (Some i)
      then have "i < m" "keys ! i = keys ! m" using find_key_bound by blast+
      moreover have "distinct (take n keys)" "n \<le> length keys" using rep by (auto simp: arr_rep_def)
      ultimately show ?thesis using True nth_eq_iff_index_eq [of "take n keys" i m] by simp
    qed
    have mn: "min m n = m" "min (Suc m) n = Suc m" using True by simp_all
    have "ix[unat (keys ! m) := word_of_nat m] ! unat k
        = (case find_key keys (Suc m) k of Some i \<Rightarrow> word_of_nat i | None \<Rightarrow> 255)" for k :: u8
      using IH(2,4) old by (auto simp: nth_list_update mn find_key_Suc split: option.splits)
    then show ?thesis
      using IH src Suc.prems by (auto simp: mn nth_list_update less_Suc_eq)
  next
    case False
    then have src: "nth_opt src m = None"
      using rep Suc.prems by (auto simp: arr_rep_def nth_opt_def nth_append)
    have "min (Suc m) n = min m n" using False by simp
    then show ?thesis using IH src by simp
  qed
qed

lemma node16_grow:
  assumes "node16_ok n" "header_ok (n16_header n)"
  shows "node48_ok (node16_grow n) \<and> node48_get_child (node16_grow n) = node16_get_child n
    \<and> header_same (n48_header (node16_grow n)) (n16_header n)
    \<and> nh_num_children (n48_header (node16_grow n)) = nh_num_children (n16_header n)"
proof -
  let ?m = "nh_num_children (n16_header n)" and ?ps = "node16_iter_children n"
  let ?fk = "find_key (n16_keys n) ?m" and ?g = "node16_grow n"
  note arr = assms(1) [unfolded node16_ok_def]
  have m: "min 16 ?m = ?m" using arr by (simp add: arr_rep_def)
  obtain ix cs where f: "fold (\<lambda>i (ix, cs). case nth_opt (n16_children n) i of
        Some c \<Rightarrow> (ix[unat (n16_keys n ! i) := word_of_nat i], cs[i := Some c])
      | None \<Rightarrow> (ix, cs)) [0..<16] (replicate 256 (255 :: u8), replicate 48 None) = (ix, cs)"
      "length ix = 256" "length cs = 48"
      "\<forall>k :: u8. ix ! unat k = (case ?fk k of Some i \<Rightarrow> word_of_nat i | None \<Rightarrow> 255)"
      "\<forall>i < 48. cs ! i = (if i < ?m then Some (snd (?ps ! i)) else None)"
    using fold_index [OF arr order_refl] unfolding m by blast
  have g: "?g = Node48_struct (resized_header (n16_header n) ?m) ix cs"
    by (simp only: node16_grow_def f(1) Let_def prod.case)
  have fk: "?fk k = Some i \<longleftrightarrow> i < ?m \<and> fst (?ps ! i) = k" for k i
    by (rule arr_rep_find [OF arr])
  have small: "i < 48" "i < 256" if "i < ?m" for i using that arr by (simp_all add: arr_rep_def)
  have idx: "node48_idx ?g k = (case ?fk k of Some i \<Rightarrow> word_of_nat i | None \<Rightarrow> 255)" for k
    using f(4) by (simp add: node48_idx_def g)
  have get: "node48_get_child ?g = node16_get_child n"
  proof
    fix k show "node48_get_child ?g k = node16_get_child n k"
    proof (cases "?fk k")
      case (Some i)
      then have i: "i < ?m" using fk by blast
      then have "nth_opt cs i = nth_opt (n16_children n) i"
        using f(3,5) small(1) [OF i] arr_rep_nth(2) [OF arr i] by (simp add: nth_opt_def)
      with Some u8_slot [OF small(1) [OF i]] show ?thesis
        by (simp add: node48_get_idx idx node16_get_child_def node16_find_child_index_def) (simp add: g)
    qed (simp add: node48_get_idx idx node16_get_child_def node16_find_child_index_def)
  qed
  have "node48_ok ?g"
  proof (rule node48_okI)
    show "length (n48_child_index ?g) = 256" "length (n48_children ?g) = 48" using f by (simp_all add: g)
  next
    fix k assume "node48_idx ?g k \<noteq> 255"
    then obtain i where i: "?fk k = Some i" by (auto simp: idx split: option.splits)
    then have "i < ?m" using fk by blast
    then have "node48_idx ?g k = word_of_nat i" "unat (node48_idx ?g k) = i" "cs ! i \<noteq> None" "i < 48"
      using i small(1) u8_slot(1) f(5) by (simp_all add: idx)
    then show "unat (node48_idx ?g k) < 48 \<and> n48_children ?g ! unat (node48_idx ?g k) \<noteq> None"
      by (simp add: g)
  next
    fix j k assume jk: "node48_idx ?g j = node48_idx ?g k" "node48_idx ?g k \<noteq> 255"
    then obtain i i' where i: "?fk k = Some i" "?fk j = Some i'"
      by (auto simp: idx split: option.splits)
    then have "unat (word_of_nat i :: u8) = unat (word_of_nat i' :: u8)" using jk by (simp add: idx)
    moreover have "i < ?m" "i' < ?m" using i fk by blast+
    ultimately have "i = i'" using small(1) u8_slot(1) by metis
    then show "j = k" using i fk [of k i] fk [of j i'] by simp
  next
    fix s assume s: "s < 48" "n48_children ?g ! s \<noteq> None"
    then have "?fk (fst (?ps ! s)) = Some s" using f(5) fk by (auto simp: g split: if_splits)
    then show "\<exists>k. node48_idx ?g k \<noteq> 255 \<and> unat (node48_idx ?g k) = s"
      using u8_slot [OF s(1)] by (intro exI [of _ "fst (?ps ! s)"]) (simp add: idx)
  next
    show "nh_num_children (n48_header ?g) = card (dom (node48_get_child ?g))"
      using n16.num_card [OF assms(1)] unfolding get by (simp add: g)
  qed
  with get assms(2) show ?thesis by (simp add: g resized_header_same)
qed

text \<open>\<open>Node48 \<rightarrow> Node256\<close>.\<close>

lemma fold_fill:
  assumes "m \<le> cap"
  shows "length (fold (\<lambda>key cs. case f key of Some c \<Rightarrow> cs[key := Some c] | None \<Rightarrow> cs) [0..<m]
            (replicate cap None)) = cap
     \<and> (\<forall>i < cap. fold (\<lambda>key cs. case f key of Some c \<Rightarrow> cs[key := Some c] | None \<Rightarrow> cs) [0..<m]
            (replicate cap None) ! i = (if i < m then f i else None))"
  using assms
proof (induction m)
  case (Suc m)
  then show ?case by (cases "f m") (auto simp: nth_list_update less_Suc_eq)
qed simp

lemma node48_grow:
  assumes "node48_ok n" "header_ok (n48_header n)"
  shows "node256_ok (node48_grow n) \<and> node256_get_child (node48_grow n) = node48_get_child n
    \<and> header_same (n256_header (node48_grow n)) (n48_header n)
    \<and> nh_num_children (n256_header (node48_grow n)) = nh_num_children (n48_header n)"
proof -
  define f where "f = (\<lambda>i. if n48_child_index n ! i \<noteq> 255
     then nth_opt (n48_children n) (unat (n48_child_index n ! i)) else None)"
  define cs where "cs = fold (\<lambda>key cs. case f key of Some c \<Rightarrow> cs[key := Some c] | None \<Rightarrow> cs)
     [0..<256] (replicate 256 None)"
  have step: "(\<lambda>key cs. let idx = n48_child_index n ! key in
        if idx \<noteq> 255 then (case nth_opt (n48_children n) (unat idx) of
             Some c \<Rightarrow> cs[key := Some c] | None \<Rightarrow> cs) else cs)
      = (\<lambda>key cs. case f key of Some c \<Rightarrow> cs[key := Some c] | None \<Rightarrow> cs)"
    by (auto simp: fun_eq_iff Let_def f_def)
  have g: "node48_grow n =
      Node256_struct (resized_header (n48_header n) (nh_num_children (n48_header n))) cs"
    unfolding node48_grow_def step cs_def by (simp only: Let_def)
  have cs: "length cs = 256 \<and> (\<forall>i < 256. cs ! i = (if i < 256 then f i else None))"
    unfolding cs_def by (rule fold_fill [OF order_refl])
  have get: "node256_get_child (node48_grow n) = node48_get_child n"
    using cs by (simp add: fun_eq_iff node256_get_child_def g nth_opt_def)
       (simp add: f_def node48_get_idx node48_idx_def nth_opt_def)
  have "nh_num_children (n48_header n) = card (dom (node256_get_child (node48_grow n)))"
    unfolding get using node48_okD(6) [OF assms(1)] by (simp add: node48_iter_length)
  then have "node256_ok (node48_grow n)"
    unfolding node256_ok_def node256_iter_length using cs by (simp add: g)
  with get assms(2) show ?thesis by (simp add: g resized_header_same)
qed

section \<open>Shrinking\<close>

lemma fill_keyed_eq:
  "idx + length ps \<le> cap \<Longrightarrow> length ks = cap \<Longrightarrow> length cs = cap \<Longrightarrow>
   fill_keyed cap ps idx ks cs = (idx + length ps,
     take idx ks @ map fst ps @ drop (idx + length ps) ks,
     take idx cs @ map (Some \<circ> snd) ps @ drop (idx + length ps) cs)"
proof (induction ps arbitrary: idx ks cs)
  case (Cons p ps)
  obtain k c where p: "p = (k, c)" by (cases p)
  have "fill_keyed cap (p # ps) idx ks cs = fill_keyed cap ps (idx + 1) (ks[idx := k]) (cs[idx := Some c])"
    using Cons.prems by (cases ps) (auto simp: p Let_def)
  also have "\<dots> = (idx + length (p # ps),
      take (idx + 1) (ks[idx := k]) @ map fst ps @ drop (idx + length (p # ps)) (ks[idx := k]),
      take (idx + 1) (cs[idx := Some c]) @ map (Some \<circ> snd) ps @ drop (idx + length (p # ps)) (cs[idx := Some c]))"
    using Cons.prems by (simp add: Cons.IH)
  finally show ?case
    using Cons.prems by (simp add: p take_Suc_conv_app_nth)
qed simp

lemma fill_indexed_eq:
  "slot + length ps \<le> 48 \<Longrightarrow> length ix = 256 \<Longrightarrow> length cs = 48 \<Longrightarrow> distinct (map fst ps) \<Longrightarrow>
   \<exists>ix'. fill_indexed 48 ps slot ix cs = (slot + length ps, ix',
      take slot cs @ map (Some \<circ> snd) ps @ drop (slot + length ps) cs)
    \<and> length ix' = 256
    \<and> (\<forall>k. ix' ! unat k = (case position k (map fst ps) of
          Some i \<Rightarrow> word_of_nat (slot + i) | None \<Rightarrow> ix ! unat k))"
proof (induction ps arbitrary: slot ix cs)
  case (Cons p ps)
  obtain k c where p: "p = (k, c)" by (cases p)
  let ?ix = "ix[unat k := word_of_nat slot]"
  have step: "fill_indexed 48 (p # ps) slot ix cs = fill_indexed 48 ps (slot + 1) ?ix (cs[slot := Some c])"
    using Cons.prems by (cases ps) (auto simp: p Let_def)
  obtain ix' where ix': "fill_indexed 48 ps (slot + 1) ?ix (cs[slot := Some c]) = (slot + 1 + length ps, ix',
      take (slot + 1) (cs[slot := Some c]) @ map (Some \<circ> snd) ps @ drop (slot + 1 + length ps) (cs[slot := Some c]))"
      "length ix' = 256"
      "\<forall>j. ix' ! unat j = (case position j (map fst ps) of
          Some i \<Rightarrow> word_of_nat (slot + 1 + i) | None \<Rightarrow> ?ix ! unat j)"
    using Cons.IH [of "slot + 1" ?ix "cs[slot := Some c]"] Cons.prems by auto
  have fresh: "position k (map fst ps) = None" using Cons.prems(4) by (simp add: p position_None)
  have "ix' ! unat j = (case position j (map fst (p # ps)) of
          Some i \<Rightarrow> word_of_nat (slot + i) | None \<Rightarrow> ix ! unat j)" for j
    using ix'(3) fresh Cons.prems(2) by (auto simp: p nth_list_update split: option.splits)
  with step ix'(1,2) Cons.prems show ?case
    by (simp add: p take_Suc_conv_app_nth)
qed simp

lemma arr_rep_fill:
  assumes "length ps \<le> cap" "distinct (map fst ps)"
  shows "case fill_keyed cap ps 0 (replicate cap 0) (replicate cap None) of (idx, ks, cs) \<Rightarrow>
     idx = length ps \<and> arr_rep cap (length ps) ks cs ps"
  using assms by (simp add: fill_keyed_eq arr_rep_def)

lemma node16_shrink:
  assumes "node16_ok n" "header_ok (n16_header n)" "node16_should_shrink n"
  shows "node4_ok (node16_shrink n) \<and> node4_get_child (node16_shrink n) = node16_get_child n
    \<and> header_same (n4_header (node16_shrink n)) (n16_header n)
    \<and> nh_num_children (n4_header (node16_shrink n)) = nh_num_children (n16_header n)"
proof -
  let ?ps = "node16_iter_children n"
  note arr = assms(1) [unfolded node16_ok_def]
  have len: "length ?ps = nh_num_children (n16_header n)" "length ?ps \<le> 4" "distinct (map fst ?ps)"
    using arr assms(3) by (auto simp: arr_rep_def node16_should_shrink_def)
  have pairs: "List.map_filter (\<lambda>i. map_option (Pair (n16_keys n ! i)) (nth_opt (n16_children n) i)) [0..<16] = ?ps"
    by (rule arr_rep_iter [OF arr]) (use arr in \<open>auto simp: arr_rep_def\<close>)
  obtain idx ks cs where f: "fill_keyed 4 ?ps 0 (replicate 4 0) (replicate 4 None) = (idx, ks, cs)"
      "idx = length ?ps" "arr_rep 4 (length ?ps) ks cs ?ps"
    using arr_rep_fill [OF len(2,3)] by (auto split: prod.splits)
  have g: "node16_shrink n = Node4_struct (resized_header (n16_header n) idx) ks cs"
    by (simp only: node16_shrink_def pairs f(1) Let_def prod.case)
  have ok: "node4_ok (node16_shrink n) \<and> node4_iter_children (node16_shrink n) = ?ps"
    using f(2,3) by (intro node4_okI) (simp add: g)
  then have "node4_get_child (node16_shrink n) = node16_get_child n"
    using assms(1) by (simp add: node4_get_map node16_get_map)
  with ok assms(2) f(2) len(1) show ?thesis by (simp add: g resized_header_same)
qed

lemma node48_shrink:
  assumes "node48_ok n" "header_ok (n48_header n)" "node48_should_shrink n"
  shows "node16_ok (node48_shrink n) \<and> node16_get_child (node48_shrink n) = node48_get_child n
    \<and> header_same (n16_header (node48_shrink n)) (n48_header n)
    \<and> nh_num_children (n16_header (node48_shrink n)) = nh_num_children (n48_header n)"
proof -
  let ?ps = "node48_iter_children n"
  have len: "length ?ps = nh_num_children (n48_header n)" "length ?ps \<le> 16"
    using n48.iter_num [OF assms(1)] assms(3) by (simp_all add: node48_should_shrink_def)
  obtain idx ks cs where f: "fill_keyed 16 ?ps 0 (replicate 16 0) (replicate 16 None) = (idx, ks, cs)"
      "idx = length ?ps" "arr_rep 16 (length ?ps) ks cs ?ps"
    using arr_rep_fill [OF len(2) node48_iter_distinct] by (auto split: prod.splits)
  have g: "node48_shrink n = Node16_struct (resized_header (n48_header n) idx) ks cs"
    by (simp only: node48_shrink_def f(1) Let_def prod.case)
  have ok: "node16_ok (node48_shrink n) \<and> node16_iter_children (node48_shrink n) = ?ps"
    using f(2,3) by (intro node16_okI) (simp add: g)
  then have "node16_get_child (node48_shrink n) = node48_get_child n"
    using n16.iter_get [of "node48_shrink n"] by (simp add: node48_iter_get)
  with ok assms(2) f(2) len(1) show ?thesis by (simp add: g resized_header_same)
qed

lemma position_map_fst:
  assumes "distinct (map fst ps)"
  shows "map_of ps k = map_option (\<lambda>i. snd (ps ! i)) (position k (map fst ps))"
  using assms by (induction ps) (auto simp: option.map_comp comp_def)

lemma position_nth: "distinct xs \<Longrightarrow> i < length xs \<Longrightarrow> position (xs ! i) xs = Some i"
  by (induction xs arbitrary: i) (auto simp: nth_Cons split: nat.splits)

lemma node256_shrink:
  assumes "node256_ok n" "header_ok (n256_header n)" "node256_should_shrink n"
  shows "node48_ok (node256_shrink n) \<and> node48_get_child (node256_shrink n) = node256_get_child n
    \<and> header_same (n48_header (node256_shrink n)) (n256_header n)
    \<and> nh_num_children (n48_header (node256_shrink n)) = nh_num_children (n256_header n)"
proof -
  let ?ps = "node256_iter_children n" and ?g = "node256_shrink n"
  let ?pos = "\<lambda>k. position k (map fst ?ps)"
  have d: "distinct (map fst ?ps)" by (rule n256.iter_distinct [OF assms(1)])
  have len: "length ?ps = nh_num_children (n256_header n)" "length ?ps \<le> 48"
    using n256.iter_num [OF assms(1)] assms(3) by (simp_all add: node256_should_shrink_def)
  define cs where "cs = map (Some \<circ> snd) ?ps @ replicate (48 - length ?ps) None"
  obtain ix where f: "fill_indexed 48 ?ps 0 (replicate 256 255) (replicate 48 None) = (length ?ps, ix, cs)"
      "length ix = 256" "\<forall>k. ix ! unat k = (case ?pos k of Some i \<Rightarrow> word_of_nat i | None \<Rightarrow> 255)"
    using fill_indexed_eq [of 0 ?ps "replicate 256 255" "replicate 48 None"] len(2) d
    by (auto simp: cs_def cong: option.case_cong)
  have cs: "length cs = 48" "\<And>i. i < 48 \<Longrightarrow> cs ! i = (if i < length ?ps then Some (snd (?ps ! i)) else None)"
    using len(2) by (auto simp: cs_def nth_append)
  have g: "?g = Node48_struct (resized_header (n256_header n) (length ?ps)) ix cs"
    by (simp only: node256_shrink_def f(1) Let_def prod.case)
  have idx: "node48_idx ?g k = (case ?pos k of Some i \<Rightarrow> word_of_nat i | None \<Rightarrow> 255)" for k
    using f(3) by (simp add: node48_idx_def g)
  have pos: "i < length ?ps \<and> fst (?ps ! i) = k \<and> i < 48" if "?pos k = Some i" for k i
    using position_Some [OF that] len(2) by auto
  have get: "node48_get_child ?g = node256_get_child n"
  proof
    fix k
    have "node48_get_child ?g k = map_of ?ps k"
    proof (cases "?pos k")
      case (Some i)
      with pos [OF Some] u8_slot [of i] cs show ?thesis
        by (simp add: node48_get_idx idx position_map_fst [OF d] nth_opt_def) (simp add: g cs)
    qed (simp add: node48_get_idx idx position_map_fst [OF d])
    then show "node48_get_child ?g k = node256_get_child n k" by (simp add: node256_iter_get)
  qed
  have "node48_ok ?g"
  proof (rule node48_okI)
    show "length (n48_child_index ?g) = 256" "length (n48_children ?g) = 48" using f(2) cs(1) by (simp_all add: g)
  next
    fix k assume "node48_idx ?g k \<noteq> 255"
    then obtain i where i: "?pos k = Some i" by (auto simp: idx split: option.splits)
    then have "unat (node48_idx ?g k) = i" "cs ! i \<noteq> None" "i < 48"
      using pos [OF i] u8_slot(1) [of i] cs(2) [of i] by (simp_all add: idx)
    then show "unat (node48_idx ?g k) < 48 \<and> n48_children ?g ! unat (node48_idx ?g k) \<noteq> None"
      by (simp add: g)
  next
    fix j k assume jk: "node48_idx ?g j = node48_idx ?g k" "node48_idx ?g k \<noteq> 255"
    then obtain i i' where i: "?pos k = Some i" "?pos j = Some i'"
      by (auto simp: idx split: option.splits)
    then have "unat (word_of_nat i :: u8) = unat (word_of_nat i' :: u8)" using jk by (simp add: idx)
    then have "i = i'" using pos [OF i(1)] pos [OF i(2)] u8_slot(1) by metis
    then show "j = k" using pos [OF i(1)] pos [OF i(2)] by simp
  next
    fix s assume s: "s < 48" "n48_children ?g ! s \<noteq> None"
    then have "s < length ?ps" using cs(2) by (auto simp: g split: if_splits)
    then have "?pos (fst (?ps ! s)) = Some s" using position_nth [OF d, of s] by simp
    then show "\<exists>k. node48_idx ?g k \<noteq> 255 \<and> unat (node48_idx ?g k) = s"
      using u8_slot [OF s(1)] by (intro exI [of _ "fst (?ps ! s)"]) (simp add: idx)
  next
    show "nh_num_children (n48_header ?g) = card (dom (node48_get_child ?g))"
      unfolding get using node256_iter_length [of n] by (simp add: g)
  qed
  with get assms(2) len(1) show ?thesis by (simp add: g resized_header_same)
qed

lemmas resize_facts = node4_grow node16_grow node48_grow node16_shrink node48_shrink node256_shrink

end
