(* ===== verification/Dense_Int.thy ===== *)
theory Dense_Int
  imports Prelude
begin

text \<open>
  \<open>DenseIntStats\<close> of \<^verbatim>\<open>src/src/storage/art_index.rs\<close>: a constant-size summary of the
  integer primary keys of a table that answers range counts while the keys stay contiguous.
  An \<open>i64\<close> is an integer between \<open>i64_min\<close> and \<open>i64_max\<close>, with the saturating steps
  written out; the \<open>i128\<close> arithmetic of the code never leaves its range and is exact.
\<close>

definition i64_min :: int where
  "i64_min = - (2 ^ 63)"

definition i64_max :: int where
  "i64_max = 2 ^ 63 - 1"

definition usize_max :: int where
  "usize_max = 2 ^ 64 - 1"

record dense_int_stats =
  di_key_width :: nat
  di_len :: nat
  di_min :: int
  di_max :: int
  di_dense :: bool
  di_valid :: bool

definition dense_new :: "nat \<Rightarrow> int \<Rightarrow> dense_int_stats" where
  "dense_new key_width v = \<lparr>di_key_width = key_width, di_len = 1, di_min = v, di_max = v,
     di_dense = True, di_valid = True\<rparr>"

definition is_contiguous :: "dense_int_stats \<Rightarrow> bool" where
  "is_contiguous s = (if \<not> di_valid s then False
     else let span = di_max s - di_min s + 1 in span \<ge> 0 \<and> span = int (di_len s))"

definition dense_insert :: "nat \<Rightarrow> int \<Rightarrow> dense_int_stats \<Rightarrow> dense_int_stats" where
  "dense_insert key_width v s =
     (if \<not> di_valid s \<or> di_key_width s \<noteq> key_width then s\<lparr>di_valid := False\<rparr>
      else let s = s\<lparr>di_len := di_len s + 1, di_min := min (di_min s) v, di_max := max (di_max s) v\<rparr>
           in s\<lparr>di_dense := is_contiguous s\<rparr>)"

definition dense_delete :: "int \<Rightarrow> dense_int_stats \<Rightarrow> dense_int_stats" where
  "dense_delete v s =
     (if \<not> di_valid s \<or> di_len s = 0 then s\<lparr>di_valid := False\<rparr>
      else if di_len s = 1 then s\<lparr>di_len := 0, di_dense := True, di_min := 0, di_max := 0\<rparr>
      else let s = s\<lparr>di_len := di_len s - 1\<rparr> in
        if di_dense s then
          (if v = di_min s then s\<lparr>di_min := min (di_min s + 1) i64_max\<rparr>
           else if v = di_max s then s\<lparr>di_max := max (di_max s - 1) i64_min\<rparr>
           else s\<lparr>di_dense := False\<rparr>)
        else s\<lparr>di_valid := False\<rparr>)"

type_synonym int_bound = "(int \<times> bool) option"

definition dense_count_range :: "nat \<Rightarrow> int_bound \<Rightarrow> int_bound \<Rightarrow> dense_int_stats \<Rightarrow> nat option" where
  "dense_count_range key_width lower upper s =
     (if \<not> di_valid s \<or> \<not> di_dense s \<or> di_len s = 0 \<or> di_key_width s \<noteq> key_width then None
      else
        let lo = (case lower of None \<Rightarrow> di_min s
              | Some (bound, inclusive) \<Rightarrow> max (di_min s) (bound + (if inclusive then 0 else 1)));
            hi = (case upper of None \<Rightarrow> di_max s
              | Some (bound, inclusive) \<Rightarrow> min (di_max s) (bound - (if inclusive then 0 else 1)))
        in if lo > hi then Some 0
           else if hi - lo + 1 \<le> usize_max then Some (nat (hi - lo + 1)) else None)"

text \<open>The three methods of the tree that keep the summary (\<open>None\<close> before the first key).\<close>

definition dense_record_insert :: "nat \<Rightarrow> int \<Rightarrow> dense_int_stats option \<Rightarrow> dense_int_stats option" where
  "dense_record_insert key_width v st = (case st of
       Some s \<Rightarrow> Some (dense_insert key_width v s) | None \<Rightarrow> Some (dense_new key_width v))"

definition dense_record_delete :: "int \<Rightarrow> dense_int_stats option \<Rightarrow> dense_int_stats option" where
  "dense_record_delete v st = (case st of None \<Rightarrow> None
     | Some s \<Rightarrow> let s = dense_delete v s in if di_len s = 0 then None else Some s)"

definition dense_int_count :: "nat \<Rightarrow> int_bound \<Rightarrow> int_bound \<Rightarrow> dense_int_stats option \<Rightarrow> nat option" where
  "dense_int_count key_width lower upper st = Option.bind st (dense_count_range key_width lower upper)"

section \<open>The summary against the set of keys\<close>

definition in_i64 :: "int \<Rightarrow> bool" where
  "in_i64 v \<longleftrightarrow> i64_min \<le> v \<and> v \<le> i64_max"

text \<open>A table's life: distinct keys come and go while the summary is told about each step.\<close>

inductive dense_reach :: "dense_int_stats option \<Rightarrow> int set \<Rightarrow> bool" where
  start: "dense_reach None {}"
| ins: "dense_reach st S \<Longrightarrow> v \<notin> S \<Longrightarrow> in_i64 v \<Longrightarrow> dense_reach (dense_record_insert w v st) (insert v S)"
| del: "dense_reach st S \<Longrightarrow> v \<in> S \<Longrightarrow> dense_reach (dense_record_delete v st) (S - {v})"

definition dense_inv :: "dense_int_stats option \<Rightarrow> int set \<Rightarrow> bool" where
  "dense_inv st S \<longleftrightarrow> finite S \<and> (\<forall>v \<in> S. in_i64 v) \<and> (case st of None \<Rightarrow> S = {}
     | Some s \<Rightarrow> di_len s \<ge> 1 \<and> (di_valid s \<longrightarrow> di_len s = card S \<and> S \<noteq> {} \<and> di_min s = Min S \<and> di_max s = Max S
         \<and> (di_dense s \<longleftrightarrow> S = {di_min s .. di_max s})))"

lemma contiguous_card:
  assumes "finite (S :: int set)" "S \<noteq> {}"
  shows "Max S - Min S + 1 = int (card S) \<longleftrightarrow> S = {Min S .. Max S}"
proof -
  have sub: "S \<subseteq> {Min S .. Max S}" using assms by auto
  have le: "Min S \<le> Max S" using assms by auto
  then have c: "int (card {Min S .. Max S}) = Max S - Min S + 1" by simp
  show ?thesis
  proof
    assume "Max S - Min S + 1 = int (card S)"
    then have "card S = card {Min S .. Max S}" using c by simp
    then show "S = {Min S .. Max S}" using card_subset_eq [OF _ sub] by simp
  next
    assume "S = {Min S .. Max S}"
    then show "Max S - Min S + 1 = int (card S)" using c by metis
  qed
qed

lemma interval_ends: "x \<le> y \<Longrightarrow> Min {x .. y} = (x :: int)" "x \<le> y \<Longrightarrow> Max {x .. y} = (y :: int)"
  by (auto intro: Min_eqI Max_eqI)

lemma dense_insert_inv:
  assumes "dense_inv st S" "v \<notin> S" "in_i64 v"
  shows "dense_inv (dense_record_insert w v st) (insert v S)"
proof (cases st)
  case None
  then show ?thesis using assms by (auto simp: dense_inv_def dense_record_insert_def dense_new_def)
next
  case (Some s)
  have fin: "finite S" "\<forall>v \<in> S. in_i64 v" "di_len s \<ge> 1" using assms Some by (auto simp: dense_inv_def)
  show ?thesis
  proof (cases "di_valid s \<and> di_key_width s = w")
    case True
    then have s: "di_len s = card S" "S \<noteq> {}" "di_min s = Min S" "di_max s = Max S"
      using assms(1) Some by (auto simp: dense_inv_def)
    have mm: "min (Min S) v = Min (insert v S)" "max (Max S) v = Max (insert v S)"
      using fin s(2) by (simp_all add: min.commute max.commute)
    have card: "card (insert v S) = Suc (card S)" using fin assms(2) by simp
    have "Max (insert v S) - Min (insert v S) + 1 = int (Suc (card S)) \<longleftrightarrow> insert v S = {Min (insert v S) .. Max (insert v S)}"
      using contiguous_card [of "insert v S"] fin card by simp
    then show ?thesis
      using True s fin assms(3) card
      by (simp add: dense_inv_def dense_record_insert_def Some dense_insert_def Let_def is_contiguous_def mm)
  next
    case False
    then show ?thesis
      using fin assms(3) by (auto simp: dense_inv_def dense_record_insert_def Some dense_insert_def)
  qed
qed

lemma dense_delete_inv:
  assumes "dense_inv st S" "v \<in> S"
  shows "dense_inv (dense_record_delete v st) (S - {v})"
proof -
  obtain s where st: "st = Some s" using assms by (auto simp: dense_inv_def split: option.splits)
  have fin: "finite S" "\<forall>v \<in> S. in_i64 v" "di_len s \<ge> 1" using assms st by (auto simp: dense_inv_def)
  consider (bad) "\<not> di_valid s" | (single) "di_valid s" "di_len s = 1"
    | (sparse) "di_valid s" "di_len s > 1" "\<not> di_dense s" | (dense) "di_valid s" "di_len s > 1" "di_dense s"
    using fin(3) by linarith
  then show ?thesis
  proof cases
    case single
    then have "card S = 1" using assms st by (auto simp: dense_inv_def)
    then have "S - {v} = {}" using assms(2) by (auto simp: card_1_singleton_iff)
    then show ?thesis
      using single fin by (auto simp: dense_inv_def dense_record_delete_def dense_delete_def st Let_def)
  next
    case dense
    define a b where "a = di_min s" and "b = di_max s"
    have S: "S = {a .. b}" "di_len s = card S" "di_min s = a" "di_max s = b"
      using assms(1) dense unfolding dense_inv_def st option.case a_def b_def by blast+
    have ab: "a < b" using S(1,2) dense(2) by auto
    have v: "a \<le> v" "v \<le> b" "in_i64 a" "in_i64 b" using assms(2) fin(2) ab by (auto simp: S(1))
    have card: "card (S - {v}) = card S - 1" using assms(2) fin(1) by simp
    have "(v = a \<longrightarrow> S - {v} = {a + 1 .. b}) \<and> (v = b \<longrightarrow> S - {v} = {a .. b - 1})" using S(1) ab by auto
    moreover have "Min (S - {v}) = a \<and> Max (S - {v}) = b \<and> S - {v} \<noteq> {a .. b}" if "v \<noteq> a" "v \<noteq> b"
    proof (intro conjI)
      show "Min (S - {v}) = a" "Max (S - {v}) = b"
        using that S(1) ab by (intro Min_eqI; simp) (use that S(1) ab in \<open>intro Max_eqI; simp\<close>)
      show "S - {v} \<noteq> {a .. b}" using S(1) assms(2) by blast
    qed
    moreover have "min (a + 1) i64_max = a + 1" "max (b - 1) i64_min = b - 1"
      using v ab by (auto simp: in_i64_def)
    moreover have "S - {v} \<noteq> {}"
    proof -
      have "(if v = a then b else a) \<in> S - {v}" using S(1) ab by auto
      then show ?thesis by blast
    qed
    moreover have "finite (S - {v})" "\<forall>x \<in> S - {v}. in_i64 x" using fin by auto
    ultimately show ?thesis
      using dense S(2-4) ab card
      unfolding dense_inv_def dense_record_delete_def dense_delete_def st Let_def
      by (cases "v = a"; cases "v = b") (auto simp: interval_ends)
  qed (use assms fin in \<open>auto simp: dense_inv_def dense_record_delete_def dense_delete_def st Let_def\<close>)
qed

lemma dense_reach_inv: "dense_reach st S \<Longrightarrow> dense_inv st S"
proof (induction rule: dense_reach.induct)
  case start
  show ?case by (simp add: dense_inv_def)
qed (simp_all add: dense_insert_inv dense_delete_inv)

definition int_in_range :: "int_bound \<Rightarrow> int_bound \<Rightarrow> int \<Rightarrow> bool" where
  "int_in_range lower upper v \<longleftrightarrow>
     (case lower of None \<Rightarrow> True | Some (b, inclusive) \<Rightarrow> if inclusive then b \<le> v else b < v)
   \<and> (case upper of None \<Rightarrow> True | Some (b, inclusive) \<Rightarrow> if inclusive then v \<le> b else v < b)"

text \<open>
  Whenever the dense-integer summary answers a range count, the answer is the number of
  keys of the table in that range, after any history of insertions of fresh keys and deletions
  of present keys.
\<close>

theorem dense_count_exact:
  assumes "dense_reach st S" "dense_int_count w lower upper st = Some c"
  shows "c = card {v \<in> S. int_in_range lower upper v}"
proof -
  obtain s where st: "st = Some s" and cr: "dense_count_range w lower upper s = Some c"
    using assms(2) by (auto simp: dense_int_count_def bind_eq_Some_conv)
  have inv: "dense_inv st S" using assms(1) by (rule dense_reach_inv)
  define lo where "lo = (case lower of None \<Rightarrow> di_min s
      | Some (bound, inclusive) \<Rightarrow> max (di_min s) (bound + (if inclusive then 0 else 1)))"
  define hi where "hi = (case upper of None \<Rightarrow> di_max s
      | Some (bound, inclusive) \<Rightarrow> min (di_max s) (bound - (if inclusive then 0 else 1)))"
  have "di_valid s" "di_dense s" using cr by (auto simp: dense_count_range_def split: if_splits)
  then have "S = {di_min s .. di_max s}" using inv unfolding dense_inv_def st option.case by blast
  then have "{v \<in> S. int_in_range lower upper v} = {lo .. hi}"
    by (auto simp: lo_def hi_def int_in_range_def split: option.splits if_splits)
  moreover have "c = (if lo > hi then 0 else nat (hi - lo + 1))"
    using cr unfolding dense_count_range_def Let_def lo_def [symmetric] hi_def [symmetric]
    by (auto split: if_splits)
  ultimately show ?thesis by simp
qed

theorem dense_count_exact_witness:
  "dense_int_count 8 (Some (10, False)) None (dense_record_delete 10 (dense_record_insert 8 12 (dense_record_insert 8 10 (dense_record_insert 8 11 None))))
     = Some (card {v \<in> {11, 12 :: int}. int_in_range (Some (10, False)) None v})"
proof -
  let ?st = "dense_record_delete 10 (dense_record_insert 8 12 (dense_record_insert 8 10 (dense_record_insert 8 11 None)))"
  have "dense_reach ?st ({12, 10, 11} - {10})"
    by (intro dense_reach.intros) (auto simp: in_i64_def i64_min_def i64_max_def)
  moreover have "{12, 10, 11} - {10 :: int} = {11, 12}" by auto
  moreover have "dense_int_count 8 (Some (10, False)) None ?st = Some 2" by code_simp
  ultimately show ?thesis using dense_count_exact [of ?st "{11, 12}" 8 "Some (10, False)" None 2] by simp
qed

end
