(* ===== verification/Art_Index.thy ===== *)
theory Art_Index
  imports Art_Resize Dense_Int
begin

text \<open>
  The adaptive radix tree itself (\<^verbatim>\<open>src/src/storage/art_index.rs\<close> and the \<open>ArtNode\<close>
  enum of \<^verbatim>\<open>art_node.rs\<close>): lookup, insertion with prefix splitting, removal of a key or of
  one row id. Methods that take \<open>&mut self\<close> return the updated tree record together with
  their result; \<open>Err\<close> is \<open>Inl\<close>. The statistics counters are 64-bit words whose
  arithmetic wraps, as in the release profile. The four structurally equal match arms of the
  code (one per node size) are one equation over \<open>child_slot\<close>, \<open>children_of\<close> and
  \<open>set_child_slot\<close>, which select the arm.
\<close>

section \<open>The node enum\<close>

datatype art_node =
    Node4 "art_node node4"
  | Node16 "art_node node16"
  | Node48 "art_node node48"
  | Node256 "art_node node256"
  | Leaf leaf_node

definition try_header :: "art_node \<Rightarrow> node_header option" where
  "try_header node = (case node of
       Node4 n \<Rightarrow> Some (n4_header n) | Node16 n \<Rightarrow> Some (n16_header n)
     | Node48 n \<Rightarrow> Some (n48_header n) | Node256 n \<Rightarrow> Some (n256_header n)
     | Leaf _ \<Rightarrow> None)"

text \<open>\<open>header()\<close> panics on a leaf; every caller has matched the leaf away before.\<close>

definition art_header :: "art_node \<Rightarrow> node_header" where
  "art_header node = the (try_header node)"

definition header_mut :: "(node_header \<Rightarrow> node_header) \<Rightarrow> art_node \<Rightarrow> art_node" where
  "header_mut f node = (case node of
       Node4 n \<Rightarrow> Node4 (Node4_struct (f (n4_header n)) (n4_keys n) (n4_children n))
     | Node16 n \<Rightarrow> Node16 (Node16_struct (f (n16_header n)) (n16_keys n) (n16_children n))
     | Node48 n \<Rightarrow> Node48 (Node48_struct (f (n48_header n)) (n48_child_index n) (n48_children n))
     | Node256 n \<Rightarrow> Node256 (Node256_struct (f (n256_header n)) (n256_children n))
     | Leaf l \<Rightarrow> Leaf l)"

definition is_leaf :: "art_node \<Rightarrow> bool" where
  "is_leaf node = (case node of Leaf _ \<Rightarrow> True | _ \<Rightarrow> False)"

definition as_leaf :: "art_node \<Rightarrow> leaf_node option" where
  "as_leaf node = (case node of Leaf l \<Rightarrow> Some l | _ \<Rightarrow> None)"

definition get_child :: "art_node \<Rightarrow> u8 \<Rightarrow> art_node option" where
  "get_child node k = (case node of
       Node4 n \<Rightarrow> node4_get_child n k | Node16 n \<Rightarrow> node16_get_child n k
     | Node48 n \<Rightarrow> node48_get_child n k | Node256 n \<Rightarrow> node256_get_child n k
     | Leaf _ \<Rightarrow> None)"

definition num_children :: "art_node \<Rightarrow> nat" where
  "num_children node = (case try_header node of Some h \<Rightarrow> nh_num_children h | None \<Rightarrow> 0)"

definition iter_children :: "art_node \<Rightarrow> (u8 \<times> art_node) list" where
  "iter_children node = (case node of
       Node4 n \<Rightarrow> node4_iter_children n | Node16 n \<Rightarrow> node16_iter_children n
     | Node48 n \<Rightarrow> node48_iter_children n | Node256 n \<Rightarrow> node256_iter_children n
     | Leaf _ \<Rightarrow> [])"

text \<open>The slot an arm of \<open>match &mut node\<close> selects, and reads and writes of that slot.\<close>

definition child_slot :: "art_node \<Rightarrow> u8 \<Rightarrow> nat option" where
  "child_slot node k = (case node of
       Node4 n \<Rightarrow> node4_find_child_index n k | Node16 n \<Rightarrow> node16_find_child_index n k
     | Node48 n \<Rightarrow> node48_slot n k | Node256 _ \<Rightarrow> Some (unat k)
     | Leaf _ \<Rightarrow> None)"

definition children_of :: "art_node \<Rightarrow> art_node option list" where
  "children_of node = (case node of
       Node4 n \<Rightarrow> n4_children n | Node16 n \<Rightarrow> n16_children n
     | Node48 n \<Rightarrow> n48_children n | Node256 n \<Rightarrow> n256_children n
     | Leaf _ \<Rightarrow> [])"

definition set_child_slot :: "art_node \<Rightarrow> nat \<Rightarrow> art_node option \<Rightarrow> art_node" where
  "set_child_slot node i c = (case node of
       Node4 n \<Rightarrow> Node4 (node4_set_slot n i c) | Node16 n \<Rightarrow> Node16 (node16_set_slot n i c)
     | Node48 n \<Rightarrow> Node48 (node48_set_slot n i c) | Node256 n \<Rightarrow> Node256 (node256_set_slot n i c)
     | Leaf l \<Rightarrow> Leaf l)"

text \<open>What a removing arm does when the child vanished: the slot was already taken.\<close>

definition detach_child :: "art_node \<Rightarrow> nat \<Rightarrow> u8 \<Rightarrow> art_node" where
  "detach_child node i k = (case node of
       Node4 n \<Rightarrow> Node4 (snd (node4_remove_child (node4_set_slot n i None) k))
     | Node16 n \<Rightarrow> Node16 (snd (node16_remove_child (node16_set_slot n i None) k))
     | Node48 n \<Rightarrow> Node48 (snd (node48_remove_child (node48_set_slot n i None) k))
     | Node256 n \<Rightarrow> Node256 (node256_detach n i k)
     | Leaf l \<Rightarrow> Leaf l)"

definition node_kind_name :: "art_node \<Rightarrow> string" where
  "node_kind_name node = (case node of
       Node4 _ \<Rightarrow> ''Node4'' | Node16 _ \<Rightarrow> ''Node16'' | Node48 _ \<Rightarrow> ''Node48''
     | Node256 _ \<Rightarrow> ''Node256'' | Leaf _ \<Rightarrow> ''Leaf'')"

section \<open>Tree, errors and statistics\<close>

datatype art_index_type = PrimaryKey | ForeignKey | Unique | Manual

definition index_type_display :: "art_index_type \<Rightarrow> string" where
  "index_type_display t = (case t of
       PrimaryKey \<Rightarrow> ''PRIMARY KEY'' | ForeignKey \<Rightarrow> ''FOREIGN KEY''
     | Unique \<Rightarrow> ''UNIQUE'' | Manual \<Rightarrow> ''MANUAL'')"

datatype art_index_error =
    DuplicateKey string
  | KeyNotFound
  | ForeignKeyViolation string
  | NullPrimaryKey
  | IndexAlreadyExists string
  | IndexNotFound string
  | Internal string

record art_index_stats =
  st_key_count :: u64
  st_node4_count :: u64
  st_node16_count :: u64
  st_node48_count :: u64
  st_node256_count :: u64
  st_leaf_count :: u64
  st_memory_bytes :: u64
  st_lookup_count :: u64
  st_insert_count :: u64
  st_delete_count :: u64

definition stats_default :: art_index_stats where
  "stats_default = \<lparr>st_key_count = 0, st_node4_count = 0, st_node16_count = 0, st_node48_count = 0,
     st_node256_count = 0, st_leaf_count = 0, st_memory_bytes = 0, st_lookup_count = 0,
     st_insert_count = 0, st_delete_count = 0\<rparr>"

definition total_nodes :: "art_index_stats \<Rightarrow> u64" where
  "total_nodes s = st_node4_count s + st_node16_count s + st_node48_count s + st_node256_count s"

record art_tree =
  at_root :: "art_node option"
  at_name :: string
  at_table :: string
  at_columns :: "string list"
  at_index_type :: art_index_type
  at_size :: u64
  at_stats :: art_index_stats
  at_dense :: "dense_int_stats option"

abbreviation upd_stats :: "(art_index_stats \<Rightarrow> art_index_stats) \<Rightarrow> art_tree \<Rightarrow> art_tree" where
  "upd_stats f t \<equiv> t\<lparr>at_stats := f (at_stats t)\<rparr>"

definition art_new :: "string \<Rightarrow> string \<Rightarrow> string list \<Rightarrow> art_index_type \<Rightarrow> art_tree" where
  "art_new name table columns ty = \<lparr>at_root = None, at_name = name, at_table = table,
     at_columns = columns, at_index_type = ty, at_size = 0, at_stats = stats_default, at_dense = None\<rparr>"

definition art_clear :: "art_tree \<Rightarrow> art_tree" where
  "art_clear t = t\<lparr>at_root := None, at_size := 0, at_stats := stats_default, at_dense := None\<rparr>"

definition art_rename :: "string \<Rightarrow> string \<Rightarrow> art_tree \<Rightarrow> art_tree" where
  "art_rename new_table new_name t = t\<lparr>at_table := new_table, at_name := new_name\<rparr>"

definition art_rename_column :: "string \<Rightarrow> string \<Rightarrow> art_tree \<Rightarrow> art_tree \<times> bool" where
  "art_rename_column old new t =
     (t\<lparr>at_columns := map (\<lambda>col. if eq_ignore_ascii_case col old then new else col) (at_columns t)\<rparr>,
      \<exists>col \<in> set (at_columns t). eq_ignore_ascii_case col old)"

definition record_dense_int_insert :: "nat \<Rightarrow> int \<Rightarrow> art_tree \<Rightarrow> art_tree" where
  "record_dense_int_insert key_width v t = t\<lparr>at_dense := dense_record_insert key_width v (at_dense t)\<rparr>"

definition record_dense_int_delete :: "int \<Rightarrow> art_tree \<Rightarrow> art_tree" where
  "record_dense_int_delete v t = t\<lparr>at_dense := dense_record_delete v (at_dense t)\<rparr>"

definition art_is_empty :: "art_tree \<Rightarrow> bool" where
  "art_is_empty t \<longleftrightarrow> at_size t = 0"

definition is_unique_type :: "art_index_type \<Rightarrow> bool" where
  "is_unique_type ty \<longleftrightarrow> ty = PrimaryKey \<or> ty = Unique"

section \<open>Recursion through children\<close>

lemma node_struct_size:
  fixes f :: "'c \<Rightarrow> nat"
  shows "size_list (size_option f) (n4_children n4) \<le> size_node4 f n4"
    and "size_list (size_option f) (n16_children n16) \<le> size_node16 f n16"
    and "size_list (size_option f) (n48_children n48) \<le> size_node48 f n48"
    and "size_list (size_option f) (n256_children n256) \<le> size_node256 f n256"
  by (cases n4, simp) (cases n16, simp, cases n48, simp, cases n256, simp)

lemma child_mem_size:
  assumes "Some c \<in> set (children_of n)"
  shows "size c < size n"
proof -
  have "size c < size_list (size_option size) (children_of n)"
    using assms by (rule size_list_option_mem)
  also have "\<dots> \<le> size n"
    by (cases n) (auto simp: children_of_def intro: le_SucI node_struct_size)
  finally show ?thesis .
qed

lemma slot_child_size [termination_simp]: "nth_opt (children_of n) i = Some c \<Longrightarrow> size c < size n"
  by (blast dest: nth_opt_Some_set child_mem_size)

lemma get_child_mem: "get_child n k = Some c \<Longrightarrow> Some c \<in> set (children_of n)"
  by (auto simp: get_child_def children_of_def node4_get_child_def node16_get_child_def
      node48_get_child_def node256_get_child_def bind_eq_Some_conv Let_def
      split: art_node.splits if_splits dest: nth_opt_Some_set)

lemma get_child_size [termination_simp]: "get_child n k = Some c \<Longrightarrow> size c < size n"
  by (blast dest: get_child_mem child_mem_size)

lemma iter_children_size [termination_simp]:
  "(b, c) \<in> set (iter_children n) \<Longrightarrow> size c < size n"
  "p \<in> set (iter_children n) \<Longrightarrow> size (snd p) < size n"
proof -
  have mem: "Some c \<in> set (children_of n)" if "(b, c) \<in> set (iter_children n)" for b c
    using that
    by (auto simp: iter_children_def children_of_def node4_iter_children_def node16_iter_children_def
        node48_iter_children_def node256_iter_children_def List.map_filter_def Let_def
        simp del: upt_rec_numeral split: art_node.splits if_splits dest: nth_opt_Some_set)
  show "(b, c) \<in> set (iter_children n) \<Longrightarrow> size c < size n" using mem child_mem_size by blast
  show "p \<in> set (iter_children n) \<Longrightarrow> size (snd p) < size n" using mem [of "fst p" "snd p"] child_mem_size by simp
qed


text \<open>\<open>Iterator::find_map\<close>.\<close>

fun find_map :: "('a \<Rightarrow> 'b option) \<Rightarrow> 'a list \<Rightarrow> 'b option" where
  "find_map f [] = None"
| "find_map f (x # xs) = (case f x of Some y \<Rightarrow> Some y | None \<Rightarrow> find_map f xs)"

lemma find_map_cong [fundef_cong]:
  "xs = ys \<Longrightarrow> (\<And>x. x \<in> set ys \<Longrightarrow> f x = g x) \<Longrightarrow> find_map f xs = find_map g ys"
  by (induction xs arbitrary: ys) (auto split: option.splits)

function first_leaf_key :: "art_node \<Rightarrow> bytes option" where
  "first_leaf_key node = (case node of
       Leaf leaf \<Rightarrow> Some (lf_key leaf)
     | _ \<Rightarrow> find_map (\<lambda>p. first_leaf_key (snd p)) (iter_children node))"
  by pat_completeness auto
termination
  by (relation "measure size") (auto dest: iter_children_size)

declare first_leaf_key.simps [simp del]

definition prefix_mismatch_pos :: "art_node \<Rightarrow> bytes \<Rightarrow> nat \<Rightarrow> nat" where
  "prefix_mismatch_pos node key depth =
     (let header = art_header node;
          prefix_len = nh_prefix_len header;
          prefix = get_prefix header;
          mismatch_pos = advance (\<lambda>i. depth + i < length key \<and> prefix ! i = key ! (depth + i))
            (length prefix) 0
      in if mismatch_pos < length prefix \<or> mismatch_pos \<ge> prefix_len then mismatch_pos
         else case first_leaf_key node of
             None \<Rightarrow> mismatch_pos
           | Some rep \<Rightarrow> advance (\<lambda>i. depth + i < length key \<and> depth + i < length rep
                 \<and> rep ! (depth + i) = key ! (depth + i)) prefix_len mismatch_pos)"

section \<open>Lookup\<close>

function get_recursive :: "art_node \<Rightarrow> bytes \<Rightarrow> nat \<Rightarrow> row_id option" where
  "get_recursive node key depth = (case node of
       Leaf leaf \<Rightarrow> (if leaf_matches leaf key then Some (leaf_value leaf) else None)
     | _ \<Rightarrow>
         let header = art_header node; prefix_len = nh_prefix_len header in
         if prefix_mismatch_pos node key depth < prefix_len then None
         else let new_depth = depth + prefix_len in
           if new_depth \<ge> length key then
             (case nh_values header of v # _ \<Rightarrow> Some v | [] \<Rightarrow> None)
           else case get_child node (key ! new_depth) of
               None \<Rightarrow> None
             | Some child \<Rightarrow> get_recursive child key (new_depth + 1))"
  by pat_completeness auto
termination
  by (relation "measure (\<lambda>(node, _, _). size node)") (auto dest: get_child_size)

function get_all_recursive :: "art_node \<Rightarrow> bytes \<Rightarrow> nat \<Rightarrow> row_id list" where
  "get_all_recursive node key depth = (case node of
       Leaf leaf \<Rightarrow> (if leaf_matches leaf key then all_values leaf else [])
     | _ \<Rightarrow>
         let header = art_header node; prefix_len = nh_prefix_len header in
         if prefix_mismatch_pos node key depth < prefix_len then []
         else let new_depth = depth + prefix_len in
           if new_depth \<ge> length key then nh_values header
           else case get_child node (key ! new_depth) of
               None \<Rightarrow> []
             | Some child \<Rightarrow> get_all_recursive child key (new_depth + 1))"
  by pat_completeness auto
termination
  by (relation "measure (\<lambda>(node, _, _). size node)") (auto dest: get_child_size)

declare get_recursive.simps [simp del] get_all_recursive.simps [simp del]

definition art_get :: "art_tree \<Rightarrow> bytes \<Rightarrow> row_id option" where
  "art_get t key = (case at_root t of None \<Rightarrow> None | Some node \<Rightarrow> get_recursive node key 0)"

definition art_get_all :: "art_tree \<Rightarrow> bytes \<Rightarrow> row_id list" where
  "art_get_all t key = (case at_root t of None \<Rightarrow> [] | Some node \<Rightarrow> get_all_recursive node key 0)"

definition art_contains :: "art_tree \<Rightarrow> bytes \<Rightarrow> bool" where
  "art_contains t key \<longleftrightarrow> art_get t key \<noteq> None"

section \<open>Insertion\<close>

text \<open>The leaf arm of \<open>insert_into_node\<close>: append to the leaf, or split it.\<close>

definition insert_into_leaf ::
  "art_tree \<Rightarrow> leaf_node \<Rightarrow> bytes \<Rightarrow> row_id \<Rightarrow> nat \<Rightarrow> art_tree \<times> (art_index_error + art_node)" where
  "insert_into_leaf self leaf key val depth =
     (if leaf_matches leaf key then (self, Inr (Leaf (push_value val leaf)))
      else
        let existing_key = lf_key leaf;
            (primary, extra) = fst (take_values leaf);
            prefix_len = advance (\<lambda>i. depth + i < length key \<and> depth + i < length existing_key
                \<and> key ! (depth + i) = existing_key ! (depth + i)) (length key) 0;
            prefix = (if prefix_len > 0 then take prefix_len (drop depth key) else []);
            new_node = node4_with_prefix prefix;
            new_depth = depth + prefix_len;
            new_node = (if new_depth < length existing_key then
                snd (node4_add_child new_node (existing_key ! new_depth)
                  (Leaf (leaf_from_values existing_key primary extra)))
              else Node4_struct ((n4_header new_node)
                \<lparr>nh_values := nh_values (n4_header new_node) @ [primary] @ extra\<rparr>)
                (n4_keys new_node) (n4_children new_node));
            new_node = (if new_depth < length key then
                snd (node4_add_child new_node (key ! new_depth) (Leaf (leaf_new key val)))
              else Node4_struct ((n4_header new_node)
                \<lparr>nh_values := nh_values (n4_header new_node) @ [val]\<rparr>)
                (n4_keys new_node) (n4_children new_node))
        in (upd_stats (\<lambda>s. s\<lparr>st_node4_count := st_node4_count s + 1,
                            st_leaf_count := st_leaf_count s + 1\<rparr>) self,
            Inr (Node4 new_node)))"

definition prefix_byte_for_split ::
  "nat \<Rightarrow> nat \<Rightarrow> bytes \<Rightarrow> bytes option \<Rightarrow> art_index_error + u8" where
  "prefix_byte_for_split depth prefix_pos stored_prefix representative_key =
     (if prefix_pos < length stored_prefix then Inr (stored_prefix ! prefix_pos)
      else case representative_key of
          Some rep \<Rightarrow> (if depth + prefix_pos < length rep then Inr (rep ! (depth + prefix_pos))
                      else Inl (Internal ''Cannot recover hidden ART prefix byte''))
        | None \<Rightarrow> Inl (Internal ''Cannot recover hidden ART prefix byte''))"

fun prefix_bytes_loop ::
  "nat \<Rightarrow> nat list \<Rightarrow> bytes \<Rightarrow> bytes option \<Rightarrow> art_index_error + bytes" where
  "prefix_bytes_loop depth [] stored rep = Inr []"
| "prefix_bytes_loop depth (pos # poss) stored rep =
     (case prefix_byte_for_split depth pos stored rep of
        Inl e \<Rightarrow> Inl e
      | Inr b \<Rightarrow> (case prefix_bytes_loop depth poss stored rep of
            Inl e \<Rightarrow> Inl e | Inr bs \<Rightarrow> Inr (b # bs)))"

definition prefix_bytes_for_split ::
  "nat \<Rightarrow> nat \<Rightarrow> nat \<Rightarrow> bytes \<Rightarrow> bytes option \<Rightarrow> art_index_error + bytes" where
  "prefix_bytes_for_split depth start_prefix_pos old_prefix_len stored rep =
     prefix_bytes_loop depth [start_prefix_pos..<old_prefix_len] stored rep"

definition split_node :: "art_tree \<Rightarrow> art_node \<Rightarrow> bytes \<Rightarrow> row_id \<Rightarrow> nat \<Rightarrow> nat
    \<Rightarrow> art_tree \<times> (art_index_error + art_node)" where
  "split_node self node key val depth mismatch_pos =
     (let header = art_header node;
          old_prefix_len = nh_prefix_len header;
          old_stored_prefix = get_prefix header;
          representative_key = first_leaf_key node
      in if depth + mismatch_pos > length key then
           (self, Inl (Internal ''Invalid ART split prefix range''))
         else
           let new_parent = node4_with_prefix (take mismatch_pos (drop depth key)) in
           case prefix_bytes_for_split depth (mismatch_pos + 1) old_prefix_len
               old_stored_prefix representative_key of
             Inl e \<Rightarrow> (self, Inl e)
           | Inr remaining_prefix \<Rightarrow>
               let node = header_mut (set_prefix remaining_prefix) node in
               (case prefix_byte_for_split depth mismatch_pos old_stored_prefix representative_key of
                  Inl e \<Rightarrow> (self, Inl e)
                | Inr old_key \<Rightarrow>
                    let new_parent = snd (node4_add_child new_parent old_key node);
                        new_key_pos = depth + mismatch_pos;
                        (self, new_parent) = (if new_key_pos < length key then
                            (upd_stats (\<lambda>s. s\<lparr>st_leaf_count := st_leaf_count s + 1\<rparr>) self,
                             snd (node4_add_child new_parent (key ! new_key_pos) (Leaf (leaf_new key val))))
                          else (self, Node4_struct ((n4_header new_parent)
                            \<lparr>nh_values := nh_values (n4_header new_parent) @ [val]\<rparr>)
                            (n4_keys new_parent) (n4_children new_parent)))
                    in (upd_stats (\<lambda>s. s\<lparr>st_node4_count := st_node4_count s + 1\<rparr>) self,
                        Inr (Node4 new_parent))))"

text \<open>The last match of \<open>insert_into_node\<close>: add a leaf, growing a full node first.\<close>

definition add_leaf_child :: "art_tree \<Rightarrow> art_node \<Rightarrow> u8 \<Rightarrow> art_node \<Rightarrow> art_tree \<times> art_node" where
  "add_leaf_child self node b new_leaf = (case node of
       Node4 n \<Rightarrow>
         if node4_is_full n then
           (upd_stats (\<lambda>s. s\<lparr>st_node4_count := st_node4_count s - 1,
                           st_node16_count := st_node16_count s + 1\<rparr>) self,
            Node16 (snd (node16_add_child (node4_grow n) b new_leaf)))
         else (self, Node4 (snd (node4_add_child n b new_leaf)))
     | Node16 n \<Rightarrow>
         if node16_is_full n then
           (upd_stats (\<lambda>s. s\<lparr>st_node16_count := st_node16_count s - 1,
                           st_node48_count := st_node48_count s + 1\<rparr>) self,
            Node48 (snd (node48_add_child (node16_grow n) b new_leaf)))
         else (self, Node16 (snd (node16_add_child n b new_leaf)))
     | Node48 n \<Rightarrow>
         if node48_is_full n then
           (upd_stats (\<lambda>s. s\<lparr>st_node48_count := st_node48_count s - 1,
                           st_node256_count := st_node256_count s + 1\<rparr>) self,
            Node256 (snd (node256_add_child (node48_grow n) b new_leaf)))
         else (self, Node48 (snd (node48_add_child n b new_leaf)))
     | Node256 n \<Rightarrow> (self, Node256 (snd (node256_add_child n b new_leaf)))
     | Leaf l \<Rightarrow> (self, Leaf l))"

function insert_into_node ::
  "art_tree \<Rightarrow> art_node \<Rightarrow> bytes \<Rightarrow> row_id \<Rightarrow> nat \<Rightarrow> art_tree \<times> (art_index_error + art_node)" where
  "insert_into_node self node key val depth = (case node of
       Leaf leaf \<Rightarrow> insert_into_leaf self leaf key val depth
     | _ \<Rightarrow>
         let prefix_len = nh_prefix_len (art_header node);
             mismatch_pos = prefix_mismatch_pos node key depth
         in if mismatch_pos < min prefix_len MAX_PREFIX_LEN then
              split_node self node key val depth mismatch_pos
            else if mismatch_pos < prefix_len then split_node self node key val depth mismatch_pos
            else
              let new_depth = depth + prefix_len in
              if new_depth \<ge> length key then
                (if is_unique_type (at_index_type self) \<and> nh_values (art_header node) \<noteq> [] then
                   (self, Inl (DuplicateKey (''Key already exists in ''
                      @ (if at_index_type self = PrimaryKey then ''primary key'' else ''unique'')
                      @ '' index '' @ [CHR 0x27] @ at_name self @ [CHR 0x27])))
                 else (self, Inr (header_mut (\<lambda>h. h\<lparr>nh_values := nh_values h @ [val]\<rparr>) node)))
              else
                let next_byte = key ! new_depth in
                (case get_child node next_byte of
                   Some _ \<Rightarrow>
                     (case child_slot node next_byte of
                        None \<Rightarrow> (self, Inr node)
                      | Some idx \<Rightarrow>
                          (case nth_opt (children_of node) idx of
                             None \<Rightarrow> (self, Inl (Internal (''Inconsistent '' @ node_kind_name node @ '' child'')))
                           | Some child \<Rightarrow>
                               (case insert_into_node self child key val (new_depth + 1) of
                                  (self', Inl e) \<Rightarrow> (self', Inl e)
                                | (self', Inr child') \<Rightarrow> (self', Inr (set_child_slot node idx (Some child'))))))
                 | None \<Rightarrow>
                     let self = upd_stats (\<lambda>s. s\<lparr>st_leaf_count := st_leaf_count s + 1\<rparr>) self;
                         (self, node') = add_leaf_child self node next_byte (Leaf (leaf_new key val))
                     in (self, Inr node')))"
  by pat_completeness auto
termination
  by (relation "measure (\<lambda>(_, node, _, _, _). size node)") (auto dest: slot_child_size)

declare insert_into_node.simps [simp del]

definition insert_recursive ::
  "art_tree \<Rightarrow> bytes \<Rightarrow> row_id \<Rightarrow> nat \<Rightarrow> art_tree \<times> (art_index_error + unit)" where
  "insert_recursive self key val depth = (case at_root self of
       None \<Rightarrow> (self, Inl (Internal ''Missing root node during insert''))
     | Some root \<Rightarrow>
         (case insert_into_node (self\<lparr>at_root := None\<rparr>) root key val depth of
            (self, Inl e) \<Rightarrow> (self, Inl e)
          | (self, Inr root') \<Rightarrow> (self\<lparr>at_root := Some root'\<rparr>, Inr ())))"

definition art_insert :: "art_tree \<Rightarrow> bytes \<Rightarrow> row_id \<Rightarrow> art_tree \<times> (art_index_error + unit)" where
  "art_insert self key val =
     (let self = upd_stats (\<lambda>s. s\<lparr>st_insert_count := st_insert_count s + 1\<rparr>) self in
      if key = [] \<and> at_index_type self = PrimaryKey then (self, Inl NullPrimaryKey)
      else if is_unique_type (at_index_type self) \<and> art_contains self key then
        (self, Inl (DuplicateKey (''Key already exists in ''
            @ index_type_display (at_index_type self) @ '' index'')))
      else case at_root self of
          None \<Rightarrow>
            (upd_stats (\<lambda>s. s\<lparr>st_key_count := 1, st_leaf_count := 1\<rparr>)
               (self\<lparr>at_root := Some (Leaf (leaf_new key val)), at_size := 1\<rparr>), Inr ())
        | Some _ \<Rightarrow>
            (case insert_recursive self key val 0 of
               (self, Inl e) \<Rightarrow> (self, Inl e)
             | (self, Inr _) \<Rightarrow>
                 let self = self\<lparr>at_size := at_size self + 1\<rparr> in
                 (upd_stats (\<lambda>s. s\<lparr>st_key_count := at_size self\<rparr>) self, Inr ())))"

section \<open>Removal\<close>

definition maybe_shrink_node :: "art_tree \<Rightarrow> art_node \<Rightarrow> art_tree \<times> art_node" where
  "maybe_shrink_node self node = (case node of
       Node16 n \<Rightarrow>
         if node16_should_shrink n then
           (upd_stats (\<lambda>s. s\<lparr>st_node16_count := st_node16_count s - 1,
                           st_node4_count := st_node4_count s + 1\<rparr>) self, Node4 (node16_shrink n))
         else (self, node)
     | Node48 n \<Rightarrow>
         if node48_should_shrink n then
           (upd_stats (\<lambda>s. s\<lparr>st_node48_count := st_node48_count s - 1,
                           st_node16_count := st_node16_count s + 1\<rparr>) self, Node16 (node48_shrink n))
         else (self, node)
     | Node256 n \<Rightarrow>
         if node256_should_shrink n then
           (upd_stats (\<lambda>s. s\<lparr>st_node256_count := st_node256_count s - 1,
                           st_node48_count := st_node48_count s + 1\<rparr>) self, Node48 (node256_shrink n))
         else (self, node)
     | _ \<Rightarrow> (self, node))"

text \<open>How a removing arm stores what came back from the child.\<close>

definition put_back :: "art_node \<Rightarrow> nat \<Rightarrow> u8 \<Rightarrow> art_node option \<Rightarrow> art_node" where
  "put_back node idx b new_child = (case new_child of
       Some c \<Rightarrow> set_child_slot node idx (Some c) | None \<Rightarrow> detach_child node idx b)"

definition reduce_size :: "nat \<Rightarrow> art_tree \<Rightarrow> art_tree" where
  "reduce_size k self = (let self = self\<lparr>at_size := at_size self - word_of_nat k\<rparr> in
     upd_stats (\<lambda>s. s\<lparr>st_key_count := at_size self\<rparr>) self)"

function remove_recursive :: "art_tree \<Rightarrow> art_node \<Rightarrow> bytes \<Rightarrow> nat
    \<Rightarrow> art_tree \<times> (art_index_error + (art_node option \<times> row_id option))" where
  "remove_recursive self node key depth = (case node of
       Leaf leaf \<Rightarrow>
         if leaf_matches leaf key then
           let count = values_count leaf in
           (if count > 1 then reduce_size (count - 1) self else self, Inr (None, Some (leaf_value leaf)))
         else (self, Inr (Some (Leaf leaf), None))
     | _ \<Rightarrow>
         let prefix_len = nh_prefix_len (art_header node) in
         if prefix_mismatch_pos node key depth < prefix_len then (self, Inr (Some node, None))
         else
           let new_depth = depth + prefix_len in
           if new_depth \<ge> length key then
             let vals = nh_values (art_header node);
                 inner = header_mut (\<lambda>h. h\<lparr>nh_values := []\<rparr>) node
             in (if length vals > 1 then reduce_size (length vals - 1) self else self,
                 Inr (Some inner, case vals of v # _ \<Rightarrow> Some v | [] \<Rightarrow> None))
           else
             let next_byte = key ! new_depth in
             (case child_slot node next_byte of
                None \<Rightarrow> let (self, final_node) = maybe_shrink_node self node in
                  (self, Inr (Some final_node, None))
              | Some idx \<Rightarrow>
                  (case nth_opt (children_of node) idx of
                     None \<Rightarrow> (case node of
                         Node256 _ \<Rightarrow> let (self, final_node) = maybe_shrink_node self node in
                           (self, Inr (Some final_node, None))
                       | _ \<Rightarrow> (self, Inl (Internal (''Inconsistent '' @ node_kind_name node @ '' child''))))
                   | Some child \<Rightarrow>
                       (case remove_recursive self child key (new_depth + 1) of
                          (self, Inl e) \<Rightarrow> (self, Inl e)
                        | (self, Inr (new_child, removed)) \<Rightarrow>
                            let (self, final_node) =
                              maybe_shrink_node self (put_back node idx next_byte new_child)
                            in (self, Inr (Some final_node, removed))))))"
  by pat_completeness auto
termination
  by (relation "measure (\<lambda>(_, node, _, _). size node)") (auto dest: slot_child_size)

definition art_remove :: "art_tree \<Rightarrow> bytes \<Rightarrow> art_tree \<times> (art_index_error + row_id option)" where
  "art_remove self key =
     (let self = upd_stats (\<lambda>s. s\<lparr>st_delete_count := st_delete_count s + 1\<rparr>) self in
      case at_root self of
        None \<Rightarrow> (self, Inr None)
      | Some root \<Rightarrow>
          (case remove_recursive (self\<lparr>at_root := None\<rparr>) root key 0 of
             (self, Inl e) \<Rightarrow> (self, Inl e)
           | (self, Inr (new_root, removed)) \<Rightarrow>
               let self = self\<lparr>at_root := new_root\<rparr> in
               if removed \<noteq> None then
                 (upd_stats (\<lambda>s. s\<lparr>st_leaf_count := st_leaf_count s - 1\<rparr>) (reduce_size 1 self), Inr removed)
               else (self, Inr removed)))"

function remove_value_recursive :: "art_tree \<Rightarrow> art_node \<Rightarrow> bytes \<Rightarrow> row_id \<Rightarrow> nat
    \<Rightarrow> art_tree \<times> (art_index_error + (art_node option \<times> bool))" where
  "remove_value_recursive self node key row depth = (case node of
       Leaf leaf \<Rightarrow>
         if leaf_matches leaf key then
           (case leaf_remove_value row leaf of ((removed, now_empty), leaf) \<Rightarrow>
              if removed \<and> now_empty then
                (upd_stats (\<lambda>s. s\<lparr>st_leaf_count := st_leaf_count s - 1\<rparr>) self, Inr (None, True))
              else if removed then (self, Inr (Some (Leaf leaf), True))
              else (self, Inr (Some (Leaf leaf), False)))
         else (self, Inr (Some (Leaf leaf), False))
     | _ \<Rightarrow>
         let prefix_len = nh_prefix_len (art_header node) in
         if prefix_mismatch_pos node key depth < prefix_len then (self, Inr (Some node, False))
         else
           let new_depth = depth + prefix_len in
           if new_depth \<ge> length key then
             (case position row (nh_values (art_header node)) of
                Some pos \<Rightarrow>
                  (self, Inr (Some (header_mut (\<lambda>h. h\<lparr>nh_values := swap_remove (nh_values h) pos\<rparr>) node), True))
              | None \<Rightarrow> (self, Inr (Some node, False)))
           else
             let next_byte = key ! new_depth in
             (case child_slot node next_byte of
                None \<Rightarrow> let (self, final_node) = maybe_shrink_node self node in
                  (self, Inr (Some final_node, False))
              | Some idx \<Rightarrow>
                  (case nth_opt (children_of node) idx of
                     None \<Rightarrow> (case node of
                         Node256 _ \<Rightarrow> let (self, final_node) = maybe_shrink_node self node in
                           (self, Inr (Some final_node, False))
                       | _ \<Rightarrow> (self, Inl (Internal (''Inconsistent '' @ node_kind_name node @ '' child''))))
                   | Some child \<Rightarrow>
                       (case remove_value_recursive self child key row (new_depth + 1) of
                          (self, Inl e) \<Rightarrow> (self, Inl e)
                        | (self, Inr (new_child, removed)) \<Rightarrow>
                            let (self, final_node) =
                              maybe_shrink_node self (put_back node idx next_byte new_child)
                            in (self, Inr (Some final_node, removed))))))"
  by pat_completeness auto
termination
  by (relation "measure (\<lambda>(_, node, _, _, _). size node)") (auto dest: slot_child_size)

declare remove_recursive.simps [simp del] remove_value_recursive.simps [simp del]

definition art_remove_value ::
  "art_tree \<Rightarrow> bytes \<Rightarrow> row_id \<Rightarrow> art_tree \<times> (art_index_error + bool)" where
  "art_remove_value self key row =
     (let self = upd_stats (\<lambda>s. s\<lparr>st_delete_count := st_delete_count s + 1\<rparr>) self in
      case at_root self of
        None \<Rightarrow> (self, Inr False)
      | Some root \<Rightarrow>
          (case remove_value_recursive (self\<lparr>at_root := None\<rparr>) root key row 0 of
             (self, Inl e) \<Rightarrow> (self, Inl e)
           | (self, Inr (new_root, removed)) \<Rightarrow>
               let self = self\<lparr>at_root := new_root\<rparr> in
               (if removed then reduce_size 1 self else self, Inr removed)))"

end
