(* ===== verification/Art_Inv.thy ===== *)
theory Art_Inv
  imports Art_Index "HOL-Library.Sublist"
begin

text \<open>
  The invariant of the radix tree and what lookup computes under it. The first section lifts
  the \<open>child_slots\<close> interpretations of the four node sizes to the node enum. \<open>art_inv\<close>
  relates a subtree to the path of bytes above it: every key below starts with that path,
  the compressed prefix of an inner node is a byte string of which the header stores at
  most the first ten bytes, and a longer prefix can be recovered from a leaf below the node.
\<close>

section \<open>Node-level facts for the enum\<close>

definition node_ok :: "art_node \<Rightarrow> bool" where
  "node_ok node = (case node of
       Node4 n \<Rightarrow> node4_ok n | Node16 n \<Rightarrow> node16_ok n
     | Node48 n \<Rightarrow> node48_ok n | Node256 n \<Rightarrow> node256_ok n | Leaf _ \<Rightarrow> True)"

lemmas node_case_defs = node_ok_def get_child_def iter_children_def child_slot_def children_of_def
  set_child_slot_def detach_child_def art_header_def try_header_def is_leaf_def header_mut_def

lemma inner_case: "\<not> is_leaf n \<Longrightarrow> case_art_node (\<lambda>_. g) (\<lambda>_. g) (\<lambda>_. g) (\<lambda>_. g) f n = g"
  by (cases n) (auto simp: is_leaf_def)

lemma iter_children_get: "node_ok n \<Longrightarrow> map_of (iter_children n) = get_child n"
  by (auto simp: node_case_defs n4.iter_get n16.iter_get n48.iter_get n256.iter_get fun_eq_iff
      split: art_node.splits)

lemma iter_children_distinct: "node_ok n \<Longrightarrow> distinct (map fst (iter_children n))"
  by (auto simp: node_case_defs n4.iter_distinct n16.iter_distinct n48.iter_distinct
      n256.iter_distinct split: art_node.splits)

lemma iter_children_set: "node_ok n \<Longrightarrow> (b, c) \<in> set (iter_children n) \<longleftrightarrow> get_child n b = Some c"
  using iter_children_distinct [of n] iter_children_get [of n] by (metis map_of_eq_Some_iff)

lemma child_slot_present:
  "node_ok n \<Longrightarrow> get_child n k = Some c \<Longrightarrow>
     \<exists>i. child_slot n k = Some i \<and> nth_opt (children_of n) i = Some c"
  by (cases n) (simp_all add: node_case_defs n4s.slot_present n16s.slot_present n48s.slot_present
      node256_get_child_def)

lemma keyed_slot_None:
  "node4_ok n4 \<Longrightarrow> node4_get_child n4 k = None \<Longrightarrow> node4_find_child_index n4 k = None"
  "node16_ok n16 \<Longrightarrow> node16_get_child n16 k = None \<Longrightarrow> node16_find_child_index n16 k = None"
proof -
  show "node4_ok n4 \<Longrightarrow> node4_get_child n4 k = None \<Longrightarrow> node4_find_child_index n4 k = None"
    using arr_rep_nth(2) [OF node4_ok_def [of n4, THEN iffD1]] node4_slot(1) [of n4 k]
    by (cases "node4_find_child_index n4 k") (force simp: node4_get_child_def)+
  show "node16_ok n16 \<Longrightarrow> node16_get_child n16 k = None \<Longrightarrow> node16_find_child_index n16 k = None"
    using arr_rep_nth(2) [OF node16_ok_def [of n16, THEN iffD1]] node16_slot(1) [of n16 k]
    by (cases "node16_find_child_index n16 k") (force simp: node16_get_child_def)+
qed

lemma child_slot_absent:
  "node_ok n \<Longrightarrow> get_child n k = None \<Longrightarrow>
     child_slot n k = None \<or> (\<exists>m i. n = Node256 m \<and> child_slot n k = Some i \<and> nth_opt (children_of n) i = None)"
  by (cases n) (simp_all add: node_case_defs keyed_slot_None node48_get_None node48_slot_idx
      node256_get_child_def)

lemma set_child_slot_ok:
  assumes "node_ok n" "child_slot n k = Some i" "get_child n k \<noteq> None"
  shows "node_ok (set_child_slot n i (Some c)) \<and> is_leaf (set_child_slot n i (Some c)) = is_leaf n
    \<and> get_child (set_child_slot n i (Some c)) = (get_child n)(k \<mapsto> c)
    \<and> art_header (set_child_slot n i (Some c)) = art_header n"
proof (cases n)
  case (Node4 m)
  with assms n4s.get_set_slot [of m k i c] n4s.ok_set_slot [of m k i c] show ?thesis
    by (auto simp: node_case_defs node4_set_slot_def fun_eq_iff)
next
  case (Node16 m)
  with assms n16s.get_set_slot [of m k i c] n16s.ok_set_slot [of m k i c] show ?thesis
    by (auto simp: node_case_defs node16_set_slot_def fun_eq_iff)
next
  case (Node48 m)
  with assms n48s.get_set_slot [of m k i c] n48s.ok_set_slot [of m k i c] show ?thesis
    by (auto simp: node_case_defs node48_set_slot_def fun_eq_iff)
next
  case (Node256 m)
  with assms n256s.get_set_slot [of m k i c] n256s.ok_set_slot [of m k i c] show ?thesis
    by (auto simp: node_case_defs node256_set_slot_def fun_eq_iff)
qed (use assms in \<open>simp add: node_case_defs\<close>)

lemma header_same_refl [simp]: "header_same h h"
  by (simp add: header_same_def)

lemma header_same_num [simp]: "header_same (h\<lparr>nh_num_children := m\<rparr>) h"
  by (simp add: header_same_def get_prefix_def header_ok_def)

lemma header_same_trans: "header_same f g \<Longrightarrow> header_same g h \<Longrightarrow> header_same f h"
  by (auto simp: header_same_def)

lemma remove_child_header:
  "header_same (n4_header (snd (node4_remove_child n4 k))) (n4_header n4)"
  "header_same (n16_header (snd (node16_remove_child n16 k))) (n16_header n16)"
  "header_same (n48_header (snd (node48_remove_child n48 k))) (n48_header n48)"
  "header_same (n256_header (node256_detach n256 i k)) (n256_header n256)"
  by (auto simp: node4_remove_child_def node16_remove_child_def node48_remove_child_def
      node256_detach_def node256_set_slot_def Let_def split: option.splits)

lemma detach_child_ok:
  assumes "node_ok n" "child_slot n k = Some i" "get_child n k \<noteq> None"
  shows "node_ok (detach_child n i k) \<and> is_leaf (detach_child n i k) = is_leaf n
    \<and> get_child (detach_child n i k) = (get_child n)(k := None)
    \<and> header_same (art_header (detach_child n i k)) (art_header n)"
proof (cases n)
  case (Node4 m)
  with assms n4s.get_detach [of m k i] remove_child_header(1) [of "node4_set_slot m i None" k] show ?thesis
    by (auto simp: node_case_defs fun_eq_iff node4_set_slot_def)
next
  case (Node16 m)
  with assms n16s.get_detach [of m k i] remove_child_header(2) [of "node16_set_slot m i None" k] show ?thesis
    by (auto simp: node_case_defs fun_eq_iff node16_set_slot_def)
next
  case (Node48 m)
  with assms n48s.get_detach [of m k i] remove_child_header(3) [of "node48_set_slot m i None" k] show ?thesis
    by (auto simp: node_case_defs fun_eq_iff node48_set_slot_def)
next
  case (Node256 m)
  with assms n256s.get_detach [of m k i] remove_child_header(4) [of m i k] show ?thesis
    by (auto simp: node_case_defs fun_eq_iff)
qed (use assms in \<open>simp add: node_case_defs\<close>)

lemma add_child_header:
  "header_same (n4_header (snd (node4_add_child n4 k c))) (n4_header n4)"
  "header_same (n16_header (snd (node16_add_child n16 k c))) (n16_header n16)"
  "header_same (n48_header (snd (node48_add_child n48 k c))) (n48_header n48)"
  "header_same (n256_header (snd (node256_add_child n256 k c))) (n256_header n256)"
  by (auto simp: node4_add_child_def node16_add_child_def node48_add_child_def
      node256_add_child_def Let_def split: option.splits)

lemma add_leaf_child_ok:
  assumes "node_ok n" "\<not> is_leaf n" "header_ok (art_header n)" "get_child n k = None"
    and "add_leaf_child self n k c = (self', n')"
  shows "node_ok n' \<and> \<not> is_leaf n' \<and> get_child n' = (get_child n)(k \<mapsto> c)
    \<and> header_same (art_header n') (art_header n)"
proof (cases n)
  case (Node4 m)
  then have m: "node4_ok m" "header_ok (n4_header m)" "node4_get_child m k = None"
    using assms by (simp_all add: node_case_defs)
  show ?thesis
  proof (cases "node4_is_full m")
    case True
    note g = node4_grow [OF m(1,2)]
    have num: "nh_num_children (n4_header m) = 4" using True m(1) by (simp add: node4_is_full_def node4_ok_def arr_rep_def)
    then have free: "\<not> node16_is_full (node4_grow m)" using g by (simp add: node16_is_full_def)
    have "node16_get_child (node4_grow m) k = None" using g m(3) by simp
    with g free have "node16_ok (snd (node16_add_child (node4_grow m) k c))"
        "node16_get_child (snd (node16_add_child (node4_grow m) k c)) = (node4_get_child m)(k \<mapsto> c)"
      by (simp_all add: n16.ok_add n16.get_add)
    then show ?thesis
      using True assms(5) Node4 g header_same_trans [OF add_child_header(2)]
      by (auto simp: add_leaf_child_def node_case_defs fun_eq_iff)
  next
    case False
    then show ?thesis
      using assms(5) Node4 n4.ok_add [OF m(1) False m(3)] n4.get_add [OF m(1) False m(3)]
      by (auto simp: add_leaf_child_def node_case_defs fun_eq_iff add_child_header)
  qed
next
  case (Node16 m)
  then have m: "node16_ok m" "header_ok (n16_header m)" "node16_get_child m k = None"
    using assms by (simp_all add: node_case_defs)
  show ?thesis
  proof (cases "node16_is_full m")
    case True
    note g = node16_grow [OF m(1,2)]
    have "nh_num_children (n16_header m) = 16"
      using True m(1) by (simp add: node16_is_full_def node16_ok_def arr_rep_def)
    then have free: "\<not> node48_is_full (node16_grow m)" using g by (simp add: node48_is_full_def)
    have "node48_get_child (node16_grow m) k = None" using g m(3) by simp
    with g free have "node48_ok (snd (node48_add_child (node16_grow m) k c))"
        "node48_get_child (snd (node48_add_child (node16_grow m) k c)) = (node16_get_child m)(k \<mapsto> c)"
      by (simp_all add: n48.ok_add n48.get_add)
    then show ?thesis
      using True assms(5) Node16 g header_same_trans [OF add_child_header(3)]
      by (auto simp: add_leaf_child_def node_case_defs fun_eq_iff)
  next
    case False
    then show ?thesis
      using assms(5) Node16 n16.ok_add [OF m(1) False m(3)] n16.get_add [OF m(1) False m(3)]
      by (auto simp: add_leaf_child_def node_case_defs fun_eq_iff add_child_header)
  qed
next
  case (Node48 m)
  then have m: "node48_ok m" "header_ok (n48_header m)" "node48_get_child m k = None"
    using assms by (simp_all add: node_case_defs)
  show ?thesis
  proof (cases "node48_is_full m")
    case True
    note g = node48_grow [OF m(1,2)]
    have "node256_get_child (node48_grow m) k = None" using g m(3) by simp
    with g have "node256_ok (snd (node256_add_child (node48_grow m) k c))"
        "node256_get_child (snd (node256_add_child (node48_grow m) k c)) = (node48_get_child m)(k \<mapsto> c)"
      by (simp_all add: n256.ok_add n256.get_add)
    then show ?thesis
      using True assms(5) Node48 g header_same_trans [OF add_child_header(4)]
      by (auto simp: add_leaf_child_def node_case_defs fun_eq_iff)
  next
    case False
    then show ?thesis
      using assms(5) Node48 n48.ok_add [OF m(1) False m(3)] n48.get_add [OF m(1) False m(3)]
      by (auto simp: add_leaf_child_def node_case_defs fun_eq_iff add_child_header)
  qed
next
  case (Node256 m)
  then have m: "node256_ok m" "node256_get_child m k = None"
    using assms by (simp_all add: node_case_defs)
  then show ?thesis
    using assms(5) Node256 n256.ok_add [OF m(1) _ m(2)] n256.get_add [OF m(1) _ m(2)]
    by (auto simp: add_leaf_child_def node_case_defs fun_eq_iff add_child_header)
qed (use assms in \<open>simp add: node_case_defs\<close>)

lemma maybe_shrink_ok:
  assumes "node_ok n" "\<not> is_leaf n" "header_ok (art_header n)" "maybe_shrink_node self n = (self', n')"
  shows "node_ok n' \<and> \<not> is_leaf n' \<and> get_child n' = get_child n
    \<and> header_same (art_header n') (art_header n)"
  using assms
  by (cases n)
     (auto simp: maybe_shrink_node_def node_case_defs node16_shrink node48_shrink node256_shrink
       fun_eq_iff split: if_splits)

text \<open>A header update that leaves the child counter alone is invisible to the child map.\<close>

lemma iter_header_irrelevant:
  assumes "nh_num_children h' = nh_num_children h"
  shows "node4_iter_children (Node4_struct h' ks cs) = node4_iter_children (Node4_struct h ks cs)"
    "node16_iter_children (Node16_struct h' ks cs) = node16_iter_children (Node16_struct h ks cs)"
    "node48_iter_children (Node48_struct h' ks cs) = node48_iter_children (Node48_struct h ks cs)"
    "node256_iter_children (Node256_struct h' cs) = node256_iter_children (Node256_struct h cs)"
  using assms
  by (simp_all add: node4_iter_children_def node16_iter_children_def node48_iter_children_def
      node256_iter_children_def Let_def del: upt_rec_numeral cong: if_cong option.case_cong)

lemma idx_header_irrelevant: "node48_idx (Node48_struct h' ks cs) = node48_idx (Node48_struct h ks cs)"
  by (simp add: fun_eq_iff node48_idx_def)

lemma ok_header_irrelevant:
  assumes "nh_num_children h' = nh_num_children h"
  shows "node4_ok (Node4_struct h' ks cs) = node4_ok (Node4_struct h ks cs)"
    "node16_ok (Node16_struct h' ks cs) = node16_ok (Node16_struct h ks cs)"
    "node48_ok (Node48_struct h' ks cs) = node48_ok (Node48_struct h ks cs)"
    "node256_ok (Node256_struct h' cs) = node256_ok (Node256_struct h cs)"
  unfolding node4_ok_def node16_ok_def node48_ok_def node256_ok_def iter_header_irrelevant [OF assms]
    idx_header_irrelevant [of h' ks cs h]
  by (simp_all only: node4.sel node16.sel node48.sel node256.sel assms)

lemma get_header_irrelevant:
  assumes "nh_num_children h' = nh_num_children h"
  shows "node4_get_child (Node4_struct h' ks cs) = node4_get_child (Node4_struct h ks cs)"
    "node16_get_child (Node16_struct h' ks cs) = node16_get_child (Node16_struct h ks cs)"
    "node48_get_child (Node48_struct h' ks cs) = node48_get_child (Node48_struct h ks cs)"
    "node256_get_child (Node256_struct h' cs) = node256_get_child (Node256_struct h cs)"
  using assms
  by (simp_all add: fun_eq_iff node4_get_child_def node4_find_child_index_def node16_get_child_def
      node16_find_child_index_def node48_get_child_def node256_get_child_def Let_def cong: if_cong)

lemma header_mut_ok:
  assumes "node_ok n" "\<not> is_leaf n" "\<And>h. nh_num_children (f h) = nh_num_children h"
  shows "node_ok (header_mut f n)" "\<not> is_leaf (header_mut f n)"
    "get_child (header_mut f n) = get_child n" "iter_children (header_mut f n) = iter_children n"
    "art_header (header_mut f n) = f (art_header n)"
proof -
  have num: "nh_num_children (f h) = nh_num_children h" for h by (rule assms(3))
  show "node_ok (header_mut f n)"
    using assms(1,2) by (cases n) (auto simp: node_ok_def header_mut_def ok_header_irrelevant [OF num])
  show "get_child (header_mut f n) = get_child n"
    by (cases n) (auto simp: get_child_def header_mut_def fun_eq_iff get_header_irrelevant [OF num])
  show "iter_children (header_mut f n) = iter_children n"
    by (cases n) (auto simp: iter_children_def header_mut_def iter_header_irrelevant [OF num])
  show "\<not> is_leaf (header_mut f n)" "art_header (header_mut f n) = f (art_header n)"
    using assms(2) by (cases n; simp add: is_leaf_def header_mut_def art_header_def try_header_def)+
qed


section \<open>The tree invariant\<close>

definition has_leaf :: "art_node \<Rightarrow> bool" where
  "has_leaf n \<longleftrightarrow> first_leaf_key n \<noteq> None"

lemma find_map_None: "find_map f xs = None \<longleftrightarrow> (\<forall>x \<in> set xs. f x = None)"
  by (induction xs) (auto split: option.splits)

lemma find_map_Some: "find_map f xs = Some y \<Longrightarrow> \<exists>x \<in> set xs. f x = Some y"
  by (induction xs) (auto split: option.splits)

lemma first_leaf_key_Leaf [simp]: "first_leaf_key (Leaf l) = Some (lf_key l)"
  by (simp add: first_leaf_key.simps)

lemma first_leaf_key_inner:
  "\<not> is_leaf n \<Longrightarrow> first_leaf_key n = find_map (\<lambda>p. first_leaf_key (snd p)) (iter_children n)"
  by (subst first_leaf_key.simps) (simp add: is_leaf_def split: art_node.splits)

lemma has_leaf_Leaf [simp]: "has_leaf (Leaf l)"
  by (simp add: has_leaf_def)

lemma has_leaf_inner:
  "\<not> is_leaf n \<Longrightarrow> node_ok n \<Longrightarrow> has_leaf n \<longleftrightarrow> (\<exists>b c. get_child n b = Some c \<and> has_leaf c)"
  using iter_children_set [of n]
  by (force simp: has_leaf_def first_leaf_key_inner find_map_None)

inductive art_inv :: "bytes \<Rightarrow> art_node \<Rightarrow> bool" where
  inv_leaf: "prefix acc (lf_key l) \<Longrightarrow> art_inv acc (Leaf l)"
| inv_inner: "\<not> is_leaf n \<Longrightarrow> node_ok n \<Longrightarrow> header_ok (art_header n) \<Longrightarrow> length p < 2 ^ 32 \<Longrightarrow>
    nh_prefix_len (art_header n) = length p \<Longrightarrow> get_prefix (art_header n) = take 10 p \<Longrightarrow>
    length p \<le> 10 \<or> has_leaf n \<Longrightarrow>
    (\<And>b c. get_child n b = Some c \<Longrightarrow> art_inv (acc @ p @ [b]) c) \<Longrightarrow> art_inv acc n"

inductive_simps art_inv_leaf [simp]: "art_inv acc (Leaf l)"

text \<open>An inner node with its full compressed prefix \<open>p\<close> made explicit.\<close>

definition inner_inv :: "bytes \<Rightarrow> bytes \<Rightarrow> art_node \<Rightarrow> bool" where
  "inner_inv acc p n \<longleftrightarrow> \<not> is_leaf n \<and> node_ok n \<and> header_ok (art_header n) \<and> length p < 2 ^ 32
     \<and> nh_prefix_len (art_header n) = length p \<and> get_prefix (art_header n) = take 10 p
     \<and> (length p \<le> 10 \<or> has_leaf n)
     \<and> (\<forall>b c. get_child n b = Some c \<longrightarrow> art_inv (acc @ p @ [b]) c)"

lemma inner_inv_art_inv: "inner_inv acc p n \<Longrightarrow> art_inv acc n"
  unfolding inner_inv_def by (rule inv_inner) auto

lemma art_inv_cases:
  assumes "art_inv acc n"
  obtains (leaf) l where "n = Leaf l" "prefix acc (lf_key l)"
  | (inner) p where "inner_inv acc p n"
  using assms by cases (auto simp: inner_inv_def)

lemma first_leaf_key_prefix:
  "art_inv acc n \<Longrightarrow> first_leaf_key n = Some k \<Longrightarrow> prefix acc k"
proof (induction arbitrary: k rule: art_inv.induct)
  case (inv_inner n p acc)
  then obtain q where q: "q \<in> set (iter_children n)" "first_leaf_key (snd q) = Some k"
    by (auto simp: first_leaf_key_inner dest!: find_map_Some)
  then have "get_child n (fst q) = Some (snd q)"
    using inv_inner.hyps(2) by (simp add: iter_children_set [symmetric])
  then have "prefix (acc @ p @ [fst q]) k" using inv_inner.IH q(2) by blast
  then show ?case by (auto simp: prefix_def)
qed auto

lemma inner_representative:
  assumes "inner_inv acc p n" "first_leaf_key n = Some k"
  shows "prefix (acc @ p) k"
proof -
  obtain q where q: "q \<in> set (iter_children n)" "first_leaf_key (snd q) = Some k"
    using assms by (auto simp: inner_inv_def first_leaf_key_inner dest!: find_map_Some)
  then have "get_child n (fst q) = Some (snd q)"
    using assms(1) by (simp add: inner_inv_def iter_children_set [symmetric])
  then have "art_inv (acc @ p @ [fst q]) (snd q)" using assms(1) by (simp add: inner_inv_def)
  from first_leaf_key_prefix [OF this q(2)] have "prefix (acc @ p @ [fst q]) k" .
  then show ?thesis by (auto simp: prefix_def)
qed

section \<open>Matching the compressed prefix\<close>

text \<open>Length of the longest common prefix.\<close>

fun lcp_len :: "'a list \<Rightarrow> 'a list \<Rightarrow> nat" where
  "lcp_len (x # xs) (y # ys) = (if x = y then Suc (lcp_len xs ys) else 0)"
| "lcp_len _ _ = 0"

lemma lcp_len_le: "lcp_len xs ys \<le> length xs \<and> lcp_len xs ys \<le> length ys"
  by (induction xs ys rule: lcp_len.induct) auto

lemma lcp_len_nth: "i < lcp_len xs ys \<Longrightarrow> xs ! i = ys ! i"
  by (induction xs ys arbitrary: i rule: lcp_len.induct)
     (auto simp: nth_Cons split: nat.splits if_splits)

lemma lcp_len_stop:
  "lcp_len xs ys < length xs \<Longrightarrow> lcp_len xs ys < length ys \<Longrightarrow> xs ! lcp_len xs ys \<noteq> ys ! lcp_len xs ys"
  by (induction xs ys rule: lcp_len.induct) auto

lemma lcp_len_full: "lcp_len xs ys = length xs \<longleftrightarrow> prefix xs ys"
  by (induction xs ys rule: lcp_len.induct) auto

lemma lcp_len_take: "take (lcp_len xs ys) xs = take (lcp_len xs ys) ys"
  by (induction xs ys rule: lcp_len.induct) auto

lemma prefix_mismatch_pos_lcp:
  assumes inv: "inner_inv acc p n"
  shows "prefix_mismatch_pos n (acc @ rest) (length acc) = lcp_len p rest"
proof -
  let ?m = "lcp_len p rest" and ?q = "min 10 (length p)"
  have len: "nh_prefix_len (art_header n) = length p" and pre: "get_prefix (art_header n) = take 10 p"
    using inv by (auto simp: inner_inv_def)
  note m = lcp_len_le [of p rest] lcp_len_nth [of _ p rest] lcp_len_stop [of p rest]
  have first: "advance (\<lambda>i. length acc + i < length (acc @ rest)
      \<and> take 10 p ! i = (acc @ rest) ! (length acc + i)) (length (take 10 p)) 0 = min ?m ?q"
    by (rule advance_eqI) (use m in \<open>auto simp: min_def split: if_splits\<close>)
  show ?thesis
  proof (cases "?m < ?q \<or> length p \<le> 10")
    case True
    then have "min ?m ?q < ?q \<or> ?q \<ge> length p" "min ?m ?q = ?m" using m(1) by auto
    then show ?thesis
      using m(1) unfolding prefix_mismatch_pos_def Let_def len pre first by (auto simp: min_def)
  next
    case False
    then obtain rep where rep: "first_leaf_key n = Some rep"
      using inv by (auto simp: inner_inv_def has_leaf_def)
    then obtain zs where zs: "rep = acc @ p @ zs"
      using inner_representative [OF inv rep] by (auto simp: prefix_def)
    have snd: "advance (\<lambda>i. length acc + i < length (acc @ rest) \<and> length acc + i < length rep
        \<and> rep ! (length acc + i) = (acc @ rest) ! (length acc + i)) (length p) ?q = ?m"
      by (rule advance_eqI) (use m False in \<open>auto simp: zs nth_append\<close>)
    have "min ?m ?q = ?q" "\<not> ?q < length (take 10 p)" "\<not> ?q \<ge> length p" using False by auto
    moreover have "?q = 10" using False by simp
    ultimately show ?thesis
      using snd unfolding prefix_mismatch_pos_def Let_def len pre first by (simp add: rep)
  qed
qed

section \<open>Lookup under the invariant\<close>

lemma get_all_leaf [simp]:
  "get_all_recursive (Leaf l) key depth = (if lf_key l = key then all_values l else [])"
  by (simp add: get_all_recursive.simps leaf_matches_def)

lemma get_recursive_inner:
  "\<not> is_leaf n \<Longrightarrow> get_recursive n key depth =
     (if prefix_mismatch_pos n key depth < nh_prefix_len (art_header n) then None
      else if depth + nh_prefix_len (art_header n) \<ge> length key then
        (case nh_values (art_header n) of v # _ \<Rightarrow> Some v | [] \<Rightarrow> None)
      else case get_child n (key ! (depth + nh_prefix_len (art_header n))) of
          None \<Rightarrow> None
        | Some c \<Rightarrow> get_recursive c key (depth + nh_prefix_len (art_header n) + 1))"
  by (subst get_recursive.simps) (auto simp: is_leaf_def Let_def split: art_node.split)

lemma get_all_recursive_inner:
  "\<not> is_leaf n \<Longrightarrow> get_all_recursive n key depth =
     (if prefix_mismatch_pos n key depth < nh_prefix_len (art_header n) then []
      else if depth + nh_prefix_len (art_header n) \<ge> length key then nh_values (art_header n)
      else case get_child n (key ! (depth + nh_prefix_len (art_header n))) of
          None \<Rightarrow> []
        | Some c \<Rightarrow> get_all_recursive c key (depth + nh_prefix_len (art_header n) + 1))"
  by (subst get_all_recursive.simps) (auto simp: is_leaf_def Let_def split: art_node.split)

lemma get_all_inner:
  assumes "inner_inv acc p n"
  shows "get_all_recursive n (acc @ rest) (length acc) =
     (if \<not> prefix p rest then []
      else if length rest = length p then nh_values (art_header n)
      else case get_child n (rest ! length p) of
          None \<Rightarrow> []
        | Some c \<Rightarrow> get_all_recursive c (acc @ rest) (length (acc @ p @ [rest ! length p])))"
proof -
  have n: "\<not> is_leaf n" "nh_prefix_len (art_header n) = length p" using assms by (auto simp: inner_inv_def)
  have pos: "prefix_mismatch_pos n (acc @ rest) (length acc) < length p \<longleftrightarrow> \<not> prefix p rest"
    using lcp_len_le [of p rest] lcp_len_full [of p rest]
    by (auto simp: prefix_mismatch_pos_lcp [OF assms])
  have le: "prefix p rest \<Longrightarrow> length p \<le> length rest" by (rule prefix_length_le)
  show ?thesis
    unfolding get_all_recursive_inner [OF n(1)] n(2) pos
    using le by (auto simp: nth_append split: option.split)
qed

lemma get_inner_first:
  "get_recursive n key depth = (case get_all_recursive n key depth of [] \<Rightarrow> None | v # _ \<Rightarrow> Some v)"
proof (induction "size n" arbitrary: n depth rule: less_induct)
  case less
  show ?case
  proof (cases "is_leaf n")
    case True
    then show ?thesis
      by (cases n) (simp_all add: get_recursive.simps leaf_matches_def leaf_value_def all_values_def is_leaf_def)
  next
    case False
    show ?thesis
      unfolding get_recursive_inner [OF False] get_all_recursive_inner [OF False]
      by (simp add: less get_child_size split: option.split)
  qed
qed

section \<open>Recoverable trees\<close>

function all_inner :: "(art_node \<Rightarrow> bool) \<Rightarrow> art_node \<Rightarrow> bool" where
  "all_inner P node = (case node of Leaf _ \<Rightarrow> True
     | _ \<Rightarrow> P node \<and> list_all (\<lambda>q. all_inner P (snd q)) (iter_children node))"
  by pat_completeness auto
termination
  by (relation "measure (\<lambda>(_, n). size n)") (auto dest: iter_children_size)

declare all_inner.simps [simp del]

definition recoverable :: "art_node \<Rightarrow> bool" where
  "recoverable = all_inner (\<lambda>n. nh_prefix_len (art_header n) \<le> 10 \<or> first_leaf_key n \<noteq> None)"

definition short_prefixes :: "art_node \<Rightarrow> bool" where
  "short_prefixes = all_inner (\<lambda>n. nh_prefix_len (art_header n) \<le> 10)"

lemma all_inner_node:
  "node_ok n \<Longrightarrow> all_inner P n \<longleftrightarrow> is_leaf n \<or> P n \<and> (\<forall>b c. get_child n b = Some c \<longrightarrow> all_inner P c)"
proof (cases "is_leaf n")
  case True
  then show ?thesis by (cases n) (simp_all add: is_leaf_def all_inner.simps)
next
  case False
  moreover assume "node_ok n"
  ultimately show ?thesis
    unfolding all_inner.simps [of P n] inner_case [OF False]
    using iter_children_set [of n] by (auto simp: list_all_iff) (metis snd_conv)
qed

lemma all_inner_leaf [simp]: "all_inner P (Leaf l)"
  by (simp add: all_inner.simps)

lemma leaf_short [simp]: "short_prefixes (Leaf l)" "recoverable (Leaf l)"
  by (simp_all add: short_prefixes_def recoverable_def)

lemma short_recoverable: "short_prefixes n \<Longrightarrow> recoverable n"
  unfolding short_prefixes_def recoverable_def
proof (induction n rule: measure_induct_rule [of size])
  case (less n)
  show ?case
  proof (cases "is_leaf n")
    case True
    then show ?thesis by (cases n) (simp_all add: is_leaf_def)
  next
    case False
    show ?thesis
      using less unfolding all_inner.simps [of _ n] inner_case [OF False]
      by (auto simp: list_all_iff dest: iter_children_size)
  qed
qed

lemma art_inv_recoverable: "art_inv acc n \<Longrightarrow> recoverable n"
  unfolding recoverable_def
  by (induction rule: art_inv.induct) (simp_all add: all_inner_node has_leaf_def)

lemma inner_recoverable:
  "node_ok n \<Longrightarrow> \<not> is_leaf n \<Longrightarrow> recoverable n \<longleftrightarrow>
     (nh_prefix_len (art_header n) \<le> 10 \<or> has_leaf n) \<and> (\<forall>b c. get_child n b = Some c \<longrightarrow> recoverable c)"
  unfolding recoverable_def by (subst all_inner_node) (simp_all add: has_leaf_def)

lemma inner_short:
  "node_ok n \<Longrightarrow> \<not> is_leaf n \<Longrightarrow> short_prefixes n \<longleftrightarrow>
     nh_prefix_len (art_header n) \<le> 10 \<and> (\<forall>b c. get_child n b = Some c \<longrightarrow> short_prefixes c)"
  unfolding short_prefixes_def by (subst all_inner_node) simp_all

end
