(* ===== verification/Art_Insert.thy ===== *)
theory Art_Insert
  imports Art_Inv
begin

text \<open>
  Insertion into the radix tree. \<open>view acc n\<close> is the content of a subtree as a function from
  the key bytes below the path \<open>acc\<close> to the list of row ids; the lemmas of this theory show
  that every arm of \<open>insert_into_node\<close> (leaf append, leaf split, prefix split, value on an
  inner node, descent, new child with growth) appends one row id at one key, keeps the tree
  invariant and never takes an internal error exit.
\<close>

section \<open>The content of a subtree\<close>

definition view :: "bytes \<Rightarrow> art_node \<Rightarrow> bytes \<Rightarrow> row_id list" where
  "view acc n k = get_all_recursive n (acc @ k) (length acc)"

lemma view_leaf: "view acc (Leaf l) k = (if lf_key l = acc @ k then all_values l else [])"
  by (simp add: view_def)

lemma view_inner:
  assumes "inner_inv acc p n"
  shows "view acc n k = (if prefix p k then (case drop (length p) k of
       [] \<Rightarrow> nh_values (art_header n)
     | b # k' \<Rightarrow> (case get_child n b of None \<Rightarrow> [] | Some c \<Rightarrow> view (acc @ p @ [b]) c k')) else [])"
proof (cases "prefix p k")
  case True
  then obtain k' where k: "k = p @ k'" by (auto simp: prefix_def)
  show ?thesis
    unfolding view_def get_all_inner [OF assms] by (cases k') (auto simp: k split: option.split)
qed (simp add: view_def get_all_inner [OF assms])

lemma lcp_split:
  assumes "xs \<noteq> ys"
  obtains (left) b ys' where "xs = take (lcp_len xs ys) xs" "ys = take (lcp_len xs ys) xs @ b # ys'"
  | (right) a xs' where "xs = take (lcp_len xs ys) xs @ a # xs'" "ys = take (lcp_len xs ys) xs"
  | (fork) a xs' b ys' where "xs = take (lcp_len xs ys) xs @ a # xs'"
      "ys = take (lcp_len xs ys) xs @ b # ys'" "a \<noteq> b"
proof -
  let ?m = "lcp_len xs ys"
  have eq: "take ?m ys = take ?m xs" by (rule lcp_len_take [symmetric])
  have xs: "?m < length xs \<Longrightarrow> xs = take ?m xs @ xs ! ?m # drop (Suc ?m) xs" by (rule id_take_nth_drop)
  have ys: "?m < length ys \<Longrightarrow> ys = take ?m xs @ ys ! ?m # drop (Suc ?m) ys"
    using id_take_nth_drop [of ?m ys] eq by simp
  have full: "\<not> ?m < length xs \<Longrightarrow> xs = take ?m xs" "\<not> ?m < length ys \<Longrightarrow> ys = take ?m xs"
    using eq by auto
  show thesis
    using assms xs ys full lcp_len_stop [of xs ys] left right fork by metis
qed

section \<open>Building a parent node\<close>

text \<open>The shape of a \<open>Node4\<close> that is being filled: prefix, values and child map.\<close>

definition node4_shape ::
  "bytes \<Rightarrow> row_id list \<Rightarrow> (u8 \<Rightarrow> art_node option) \<Rightarrow> art_node node4 \<Rightarrow> bool" where
  "node4_shape p vs cm n \<longleftrightarrow> node4_ok n \<and> header_ok (n4_header n)
     \<and> nh_prefix_len (n4_header n) = length p \<and> get_prefix (n4_header n) = take 10 p
     \<and> nh_values (n4_header n) = vs \<and> node4_get_child n = cm"

lemma shape_new: "length p < 2 ^ 32 \<Longrightarrow> node4_shape p [] Map.empty (node4_with_prefix p)"
  by (auto simp: node4_shape_def node4_with_prefix_def get_prefix_set_prefix prefix_len_set_prefix
      header_with_prefix_def node4_get_child_def node4_find_child_index_def find_key_def
      set_prefix_def header_default_def header_ok_def MAX_PREFIX_LEN_def Let_def
      node4_ok_def arr_rep_def node4_iter_children_def fun_eq_iff get_prefix_def min_def)

lemma shape_add:
  assumes "node4_shape p vs cm n" "cm k = None" "card (dom cm) < 4"
  shows "node4_shape p vs (cm(k \<mapsto> c)) (snd (node4_add_child n k c))"
proof -
  have n: "node4_ok n" "node4_get_child n = cm" using assms by (auto simp: node4_shape_def)
  have "\<not> node4_is_full n" using n4.num_card [OF n(1)] n(2) assms(3) by (simp add: node4_is_full_def)
  then show ?thesis
    using assms add_child_header(1) [of n k c] n n4.ok_add [OF n(1), of k c] n4.get_add [OF n(1), of k c]
    by (auto simp: node4_shape_def header_same_def)
qed

lemma shape_values:
  assumes "node4_shape p vs cm n"
  shows "node4_shape p (vs @ ws) cm (Node4_struct ((n4_header n)
     \<lparr>nh_values := nh_values (n4_header n) @ ws\<rparr>) (n4_keys n) (n4_children n))"
proof -
  have num: "nh_num_children ((n4_header n)\<lparr>nh_values := nh_values (n4_header n) @ ws\<rparr>)
      = nh_num_children (n4_header n)" by simp
  show ?thesis
    using assms ok_header_irrelevant(1) [OF num, of "n4_keys n" "n4_children n"]
      get_header_irrelevant(1) [OF num, of "n4_keys n" "n4_children n"]
    by (auto simp: node4_shape_def header_ok_def get_prefix_def)
qed

lemma shape_inner_inv:
  assumes "node4_shape p vs cm n" "length p < 2 ^ 32" "length p \<le> 10 \<or> (\<exists>b c. cm b = Some c \<and> has_leaf c)"
    and "\<And>b c. cm b = Some c \<Longrightarrow> art_inv (acc @ p @ [b]) c"
  shows "inner_inv acc p (Node4 n)" "nh_values (art_header (Node4 n)) = vs"
    "get_child (Node4 n) = cm" "node_ok (Node4 n)"
proof -
  show ok: "node_ok (Node4 n)" "get_child (Node4 n) = cm" "nh_values (art_header (Node4 n)) = vs"
    using assms(1) by (auto simp: node4_shape_def node_case_defs)
  show "inner_inv acc p (Node4 n)"
    unfolding inner_inv_def ok(2)
    using assms ok has_leaf_inner [OF _ ok(1)] by (auto simp: node4_shape_def node_case_defs)
qed

section \<open>The insertion contract\<close>

text \<open>What a successful insertion of row \<open>v\<close> at path \<open>acc @ rest\<close> makes of a subtree.\<close>

definition inserted :: "bytes \<Rightarrow> art_node \<Rightarrow> bytes \<Rightarrow> row_id \<Rightarrow> art_node \<Rightarrow> bool" where
  "inserted acc n rest v n' \<longleftrightarrow> art_inv acc n' \<and> (has_leaf n \<longrightarrow> has_leaf n')
     \<and> (short_prefixes n \<and> length rest \<le> 10 \<longrightarrow> short_prefixes n')
     \<and> view acc n' = (view acc n)(rest := view acc n rest @ [v])"

text \<open>Content of an inner node with prefix \<open>p\<close>, values \<open>vs\<close> and child map \<open>cm\<close>.\<close>

definition inner_view :: "bytes \<Rightarrow> bytes \<Rightarrow> row_id list \<Rightarrow> (u8 \<Rightarrow> art_node option) \<Rightarrow> bytes \<Rightarrow> row_id list" where
  "inner_view acc p vs cm k = (if prefix p k then (case drop (length p) k of
       [] \<Rightarrow> vs
     | b # k' \<Rightarrow> (case cm b of None \<Rightarrow> [] | Some c \<Rightarrow> view (acc @ p @ [b]) c k')) else [])"

lemma view_inner_view:
  "inner_inv acc p n \<Longrightarrow> view acc n = inner_view acc p (nh_values (art_header n)) (get_child n)"
  by (simp add: fun_eq_iff view_inner inner_view_def)

lemma inner_viewE:
  obtains (here) "k = p" "inner_view acc p vs cm k = vs"
  | (below) b k' where "k = p @ b # k'"
      "inner_view acc p vs cm k = (case cm b of None \<Rightarrow> [] | Some c \<Rightarrow> view (acc @ p @ [b]) c k')"
  | (off) "\<not> prefix p k" "inner_view acc p vs cm k = []"
proof (cases "prefix p k")
  case True
  then obtain k' where "k = p @ k'" by (auto simp: prefix_def)
  then show ?thesis using here below by (cases k') (auto simp: inner_view_def)
qed (use off in \<open>simp add: inner_view_def\<close>)

lemma shape_inserted:
  assumes "node4_shape p vs cm n" "length p < 2 ^ 32"
    and "length p \<le> 10 \<and> \<not> has_leaf old \<or> (\<exists>b c. cm b = Some c \<and> has_leaf c)"
    and "\<And>b c. cm b = Some c \<Longrightarrow> art_inv (acc @ p @ [b]) c"
    and "\<And>k. inner_view acc p vs cm k = (if k = rest then view acc old k @ [v] else view acc old k)"
    and "short_prefixes old \<Longrightarrow> length rest \<le> 10 \<Longrightarrow>
      length p \<le> 10 \<and> (\<forall>b c. cm b = Some c \<longrightarrow> short_prefixes c)"
  shows "inserted acc old rest v (Node4 n)"
proof -
  have ex: "length p \<le> 10 \<or> (\<exists>b c. cm b = Some c \<and> has_leaf c)" using assms(3) by blast
  have i: "inner_inv acc p (Node4 n)" "nh_values (art_header (Node4 n)) = vs"
      "get_child (Node4 n) = cm" "node_ok (Node4 n)"
    using shape_inner_inv [OF assms(1,2) ex assms(4)] by blast+
  have "has_leaf old \<Longrightarrow> has_leaf (Node4 n)"
    using i(3,4) assms(3) has_leaf_inner [of "Node4 n"] by (auto simp: is_leaf_def)
  moreover have "view acc (Node4 n) = (view acc old)(rest := view acc old rest @ [v])"
    unfolding view_inner_view [OF i(1)] i(2,3) using assms(5) by auto
  moreover have "short_prefixes (Node4 n)" if "short_prefixes old" "length rest \<le> 10"
    using assms(6) [OF that] i by (auto simp: inner_short inner_inv_def)
  ultimately show ?thesis
    using inner_inv_art_inv [OF i(1)] by (simp add: inserted_def)
qed

lemma insert_leaf:
  assumes pre: "prefix acc (lf_key l)" and len: "length (acc @ rest) < 2 ^ 32"
  shows "\<exists>self' n'. insert_into_leaf self l (acc @ rest) v (length acc) = (self', Inr n')
    \<and> inserted acc (Leaf l) rest v n'"
proof (cases "lf_key l = acc @ rest")
  case True
  then have "insert_into_leaf self l (acc @ rest) v (length acc) = (self, Inr (Leaf (push_value v l)))"
    by (simp add: insert_into_leaf_def leaf_matches_def)
  moreover have "inserted acc (Leaf l) rest v (Leaf (push_value v l))"
    using pre True by (auto simp: inserted_def view_leaf push_value_def all_values_def fun_eq_iff)
  ultimately show ?thesis by blast
next
  case False
  obtain ex where ex: "lf_key l = acc @ ex" using pre by (auto simp: prefix_def)
  then have "rest \<noteq> ex" using False by auto
  define m p where "m = lcp_len rest ex" and "p = take m rest"
  have adv: "advance (\<lambda>i. length acc + i < length (acc @ rest) \<and> length acc + i < length (acc @ ex)
      \<and> (acc @ rest) ! (length acc + i) = (acc @ ex) ! (length acc + i)) (length (acc @ rest)) 0 = m"
    by (rule advance_eqI)
      (use lcp_len_le [of rest ex] lcp_len_nth [of _ rest ex] lcp_len_stop [of rest ex]
        in \<open>auto simp: m_def\<close>)
  have m: "m = length p" "m \<le> length rest" using lcp_len_le [of rest ex] by (auto simp: p_def m_def)
  have plen: "length p < 2 ^ 32" using m len by simp
  have pfx: "(if 0 < m then take m (drop (length acc) (acc @ rest)) else []) = p" by (simp add: p_def)
  let ?self = "upd_stats (\<lambda>s. s\<lparr>st_node4_count := st_node4_count s + 1,
                            st_leaf_count := st_leaf_count s + 1\<rparr>) self"
  let ?old = "Leaf (leaf_from_values (acc @ ex) (lf_primary l) (lf_extra l))"
  let ?new = "Leaf (leaf_new (acc @ rest) v)"
  define n1 where "n1 = (if length acc + m < length (acc @ ex)
      then snd (node4_add_child (node4_with_prefix p) ((acc @ ex) ! (length acc + m)) ?old)
      else Node4_struct ((n4_header (node4_with_prefix p :: art_node node4))
        \<lparr>nh_values := nh_values (n4_header (node4_with_prefix p :: art_node node4)) @ [lf_primary l] @ lf_extra l\<rparr>)
        (n4_keys (node4_with_prefix p :: art_node node4)) (n4_children (node4_with_prefix p)))"
  define n2 where "n2 = (if length acc + m < length (acc @ rest)
      then snd (node4_add_child n1 ((acc @ rest) ! (length acc + m)) ?new)
      else Node4_struct ((n4_header n1)\<lparr>nh_values := nh_values (n4_header n1) @ [v]\<rparr>)
        (n4_keys n1) (n4_children n1))"
  have res: "insert_into_leaf self l (acc @ rest) v (length acc) = (?self, Inr (Node4 n2))"
    using False
    unfolding insert_into_leaf_def leaf_matches_def Let_def ex take_values_def n1_def n2_def
      prod.case fst_conv adv pfx
    by simp
  note sh0 = shape_new [OF plen]
  have "inserted acc (Leaf l) rest v (Node4 n2)"
    using \<open>rest \<noteq> ex\<close>
  proof (cases rule: lcp_split)
    case (left b ys')
    then have r: "rest = p" "ex = p @ b # ys'" by (simp_all add: p_def m_def)
    have "node4_shape p [v] [b \<mapsto> ?old] n2"
      using shape_values [OF shape_add [OF sh0, of b ?old], of "[v]"]
      by (simp add: n2_def n1_def r m(1) nth_append)
    from this plen show ?thesis
    proof (rule shape_inserted)
      show "inner_view acc p [v] [b \<mapsto> ?old] k =
          (if k = rest then view acc (Leaf l) k @ [v] else view acc (Leaf l) k)" for k
        by (rule inner_viewE [of k p acc "[v]" "[b \<mapsto> ?old]"])
           (auto simp: r ex view_leaf all_values_def leaf_from_values_def leaf_new_def)
    qed (auto simp: r leaf_from_values_def leaf_new_def split: if_splits)
  next
    case (right a xs')
    then have r: "rest = p @ a # xs'" "ex = p" by (simp_all add: p_def m_def)
    have "node4_shape p (all_values l) [a \<mapsto> ?new] n2"
      using shape_add [OF shape_values [OF sh0, of "all_values l"], of a ?new]
      by (simp add: n2_def n1_def r m(1) nth_append all_values_def)
    from this plen show ?thesis
    proof (rule shape_inserted)
      show "inner_view acc p (all_values l) [a \<mapsto> ?new] k =
          (if k = rest then view acc (Leaf l) k @ [v] else view acc (Leaf l) k)" for k
        by (rule inner_viewE [of k p acc "all_values l" "[a \<mapsto> ?new]"])
           (auto simp: r ex view_leaf all_values_def leaf_from_values_def leaf_new_def)
    qed (auto simp: r leaf_from_values_def leaf_new_def split: if_splits)
  next
    case (fork a xs' b ys')
    then have r: "rest = p @ a # xs'" "ex = p @ b # ys'" by (simp_all add: p_def m_def)
    have "node4_shape p [] [b \<mapsto> ?old, a \<mapsto> ?new] n2"
      using shape_add [OF shape_add [OF sh0, of b ?old], of a ?new] fork(3)
      by (simp add: n2_def n1_def r m(1) nth_append)
    from this plen show ?thesis
    proof (rule shape_inserted)
      show "inner_view acc p [] [b \<mapsto> ?old, a \<mapsto> ?new] k =
          (if k = rest then view acc (Leaf l) k @ [v] else view acc (Leaf l) k)" for k
        by (rule inner_viewE [of k p acc "[]" "[b \<mapsto> ?old, a \<mapsto> ?new]"])
           (use fork(3) in \<open>auto simp: r ex view_leaf all_values_def leaf_from_values_def leaf_new_def\<close>)
    qed (auto simp: r leaf_from_values_def leaf_new_def split: if_splits)
  qed
  with res show ?thesis by blast
qed

section \<open>Splitting a compressed prefix\<close>

lemma prefix_byte_recover:
  assumes "inner_inv acc p n" "i < length p"
  shows "prefix_byte_for_split (length acc) i (get_prefix (art_header n)) (first_leaf_key n) = Inr (p ! i)"
proof -
  have pre: "get_prefix (art_header n) = take 10 p" "length p \<le> 10 \<or> has_leaf n"
    using assms(1) by (auto simp: inner_inv_def)
  show ?thesis
  proof (cases "i < 10")
    case False
    then obtain rep where "first_leaf_key n = Some rep" using pre(2) assms(2) by (auto simp: has_leaf_def)
    then show ?thesis
      using inner_representative [OF assms(1)] False assms(2)
      by (auto simp: prefix_byte_for_split_def pre prefix_def nth_append)
  qed (use assms(2) in \<open>simp add: prefix_byte_for_split_def pre\<close>)
qed

lemma prefix_bytes_recover:
  assumes "inner_inv acc p n"
  shows "prefix_bytes_for_split (length acc) i (length p) (get_prefix (art_header n)) (first_leaf_key n)
     = Inr (drop i p)"
proof -
  have "\<forall>j \<in> set is. j < length p \<Longrightarrow>
      prefix_bytes_loop (length acc) is (get_prefix (art_header n)) (first_leaf_key n) = Inr (map (nth p) is)" for "is"
    by (induction "is") (simp_all add: prefix_byte_recover [OF assms])
  moreover have "map (nth p) [i..<length p] = drop i p" by (rule nth_equalityI) auto
  ultimately show ?thesis by (simp add: prefix_bytes_for_split_def)
qed

lemma set_prefix_values [simp]:
  "nh_values (set_prefix p h) = nh_values h" "nh_num_children (set_prefix p h) = nh_num_children h"
  by (simp_all add: set_prefix_def Let_def)

lemma has_leaf_header:
  assumes "node_ok n" "\<not> is_leaf n" "\<And>h. nh_num_children (f h) = nh_num_children h"
  shows "has_leaf (header_mut f n) = has_leaf n"
  using header_mut_ok [OF assms] assms(2) by (simp add: has_leaf_def first_leaf_key_inner)

lemma shorten_prefix:
  assumes inv: "inner_inv acc p n" and p: "p = q @ b # r"
  shows "inner_inv (acc @ q @ [b]) r (header_mut (set_prefix r) n)"
    "view (acc @ q @ [b]) (header_mut (set_prefix r) n) k = view acc n (q @ b # k)"
    "short_prefixes n \<Longrightarrow> short_prefixes (header_mut (set_prefix r) n)"
proof -
  have n: "\<not> is_leaf n" "node_ok n" "header_ok (art_header n)" "length p < 2 ^ 32" "length p \<le> 10 \<or> has_leaf n"
    using inv by (auto simp: inner_inv_def)
  note h = header_mut_ok [OF n(2,1), of "set_prefix r"] has_leaf_header [OF n(2,1), of "set_prefix r"]
  have r: "length r < 2 ^ 32" "length r \<le> 10 \<or> has_leaf n" using n p by auto
  show "short_prefixes n \<Longrightarrow> short_prefixes (header_mut (set_prefix r) n)"
    using inv h(1-5) n p r(1) by (auto simp: inner_short inner_inv_def prefix_len_set_prefix)
  show i: "inner_inv (acc @ q @ [b]) r (header_mut (set_prefix r) n)"
    unfolding inner_inv_def
    using inv h r n(3) p by (simp add: inner_inv_def get_prefix_set_prefix prefix_len_set_prefix header_ok_set_prefix)
  show "view (acc @ q @ [b]) (header_mut (set_prefix r) n) k = view acc n (q @ b # k)"
    unfolding view_inner_view [OF i] view_inner_view [OF inv]
    by (simp add: inner_view_def p h(3,5) split: list.split option.split)
qed

lemma insert_split:
  assumes inv: "inner_inv acc p n" and m: "lcp_len p rest < length p" and len: "length (acc @ rest) < 2 ^ 32"
  shows "\<exists>self' n'. split_node self n (acc @ rest) v (length acc) (lcp_len p rest) = (self', Inr n')
    \<and> inserted acc n rest v n'"
proof -
  define q b r where "q = take (lcp_len p rest) p" and "b = p ! lcp_len p rest"
    and "r = drop (Suc (lcp_len p rest)) p"
  let ?sub = "header_mut (set_prefix r) n" and ?new = "Leaf (leaf_new (acc @ rest) v)"
  have p: "p = q @ b # r" unfolding q_def b_def r_def using m by (rule id_take_nth_drop)
  have le: "lcp_len p rest \<le> length rest" and q: "take (lcp_len p rest) rest = q" "length q = lcp_len p rest"
    using lcp_len_le [of p rest] lcp_len_take [of p rest] m by (auto simp: q_def)
  have plen: "length p < 2 ^ 32" "nh_prefix_len (art_header n) = length p" "length p \<le> 10 \<or> has_leaf n"
    using inv by (auto simp: inner_inv_def)
  have hl: "has_leaf ?sub = has_leaf n" by (rule has_leaf_header) (use inv in \<open>auto simp: inner_inv_def\<close>)
  note sub = shorten_prefix [OF inv p]
  note sh1 = shape_add [OF shape_new, of q b ?sub]
  show ?thesis
  proof (cases "lcp_len p rest < length rest")
    case True
    define a r' where "a = rest ! length q" and "r' = drop (Suc (length q)) rest"
    have rest: "rest = q @ a # r'" using id_take_nth_drop [OF True] by (simp add: a_def r'_def q)
    have ab: "a \<noteq> b" using lcp_len_stop [OF m True] by (simp add: a_def b_def q)
    have "split_node self n (acc @ rest) v (length acc) (lcp_len p rest) =
        (upd_stats (\<lambda>s. s\<lparr>st_node4_count := st_node4_count s + 1\<rparr>)
           (upd_stats (\<lambda>s. s\<lparr>st_leaf_count := st_leaf_count s + 1\<rparr>) self),
         Inr (Node4 (snd (node4_add_child (snd (node4_add_child (node4_with_prefix q) b ?sub)) a ?new))))"
      using True le unfolding split_node_def Let_def plen prefix_bytes_recover [OF inv] prefix_byte_recover [OF inv m]
      by (simp add: r_def q a_def b_def nth_append)
    moreover have "node4_shape q [] [b \<mapsto> ?sub, a \<mapsto> ?new]
        (snd (node4_add_child (snd (node4_add_child (node4_with_prefix q) b ?sub)) a ?new))"
      using shape_add [OF sh1, of a ?new] plen p ab by simp
    then have "inserted acc n rest v
        (Node4 (snd (node4_add_child (snd (node4_add_child (node4_with_prefix q) b ?sub)) a ?new)))"
    proof (rule shape_inserted)
      show "inner_view acc q [] [b \<mapsto> ?sub, a \<mapsto> ?new] k =
          (if k = rest then view acc n k @ [v] else view acc n k)" for k
        by (rule inner_viewE [of k q acc "[]" "[b \<mapsto> ?sub, a \<mapsto> ?new]"])
           (use ab in \<open>auto simp: rest p sub view_leaf leaf_new_def all_values_def view_inner_view [OF inv] inner_view_def
              dest: append_prefixD\<close>)
    qed (use plen p sub(1,3) ab rest in \<open>auto simp: leaf_new_def intro: inner_inv_art_inv split: if_splits\<close>)
    ultimately show ?thesis by blast
  next
    case False
    then have rest: "rest = q" using q le by simp
    let ?n = "snd (node4_add_child (node4_with_prefix q) b ?sub)"
    let ?n' = "Node4_struct ((n4_header ?n)\<lparr>nh_values := nh_values (n4_header ?n) @ [v]\<rparr>) (n4_keys ?n) (n4_children ?n)"
    have "split_node self n (acc @ rest) v (length acc) (lcp_len p rest) =
        (upd_stats (\<lambda>s. s\<lparr>st_node4_count := st_node4_count s + 1\<rparr>) self, Inr (Node4 ?n'))"
      using False le unfolding split_node_def Let_def plen prefix_bytes_recover [OF inv] prefix_byte_recover [OF inv m]
      by (simp add: r_def q b_def rest [symmetric])
    moreover have "node4_shape q [v] [b \<mapsto> ?sub] ?n'"
      using shape_values [OF sh1, of "[v]"] plen p by simp
    then have "inserted acc n rest v (Node4 ?n')"
    proof (rule shape_inserted)
      show "inner_view acc q [v] [b \<mapsto> ?sub] k =
          (if k = rest then view acc n k @ [v] else view acc n k)" for k
        by (rule inner_viewE [of k q acc "[v]" "[b \<mapsto> ?sub]"])
           (auto simp: rest p sub view_inner_view [OF inv] inner_view_def dest: append_prefixD)
    qed (use plen p sub(1,3) hl rest in \<open>auto intro: inner_inv_art_inv split: if_splits\<close>)
    ultimately show ?thesis by blast
  qed
qed

section \<open>The recursion\<close>

lemma insert_into_node_inner:
  assumes inv: "inner_inv acc p n" and rest: "rest = p @ k"
  shows "insert_into_node self n (acc @ rest) v (length acc) = (case k of
       [] \<Rightarrow> if is_unique_type (at_index_type self) \<and> nh_values (art_header n) \<noteq> [] then
           (self, Inl (DuplicateKey (''Key already exists in ''
              @ (if at_index_type self = PrimaryKey then ''primary key'' else ''unique'')
              @ '' index '' @ [CHR 0x27] @ at_name self @ [CHR 0x27])))
         else (self, Inr (header_mut (\<lambda>h. h\<lparr>nh_values := nh_values h @ [v]\<rparr>) n))
     | b # k' \<Rightarrow> (case get_child n b of
          Some _ \<Rightarrow> (case child_slot n b of
              None \<Rightarrow> (self, Inr n)
            | Some idx \<Rightarrow> (case nth_opt (children_of n) idx of
                None \<Rightarrow> (self, Inl (Internal (''Inconsistent '' @ node_kind_name n @ '' child'')))
              | Some child \<Rightarrow> (case insert_into_node self child (acc @ rest) v (length (acc @ p @ [b])) of
                    (self', Inl e) \<Rightarrow> (self', Inl e)
                  | (self', Inr child') \<Rightarrow> (self', Inr (set_child_slot n idx (Some child'))))))
        | None \<Rightarrow> (case add_leaf_child (upd_stats (\<lambda>s. s\<lparr>st_leaf_count := st_leaf_count s + 1\<rparr>) self)
              n b (Leaf (leaf_new (acc @ rest) v)) of (self', n') \<Rightarrow> (self', Inr n'))))"
proof -
  have n: "nh_prefix_len (art_header n) = length p" "\<not> is_leaf n" using inv by (auto simp: inner_inv_def)
  have m: "prefix_mismatch_pos n (acc @ rest) (length acc) = length p"
    using prefix_mismatch_pos_lcp [OF inv] lcp_len_full [of p rest] by (simp add: rest)
  show ?thesis
    unfolding insert_into_node.simps [of self n] inner_case [OF n(2)] m n(1) Let_def
    by (cases k) (simp_all add: rest nth_append split: option.split)
qed

lemma inserted_value:
  assumes inv: "inner_inv acc p n"
  shows "inserted acc n p v (header_mut (\<lambda>h. h\<lparr>nh_values := nh_values h @ [v]\<rparr>) n)"
proof -
  let ?f = "\<lambda>h. h\<lparr>nh_values := nh_values h @ [v]\<rparr>"
  have n: "node_ok n" "\<not> is_leaf n" using inv by (auto simp: inner_inv_def)
  note h = header_mut_ok [OF n, of ?f] has_leaf_header [OF n, of ?f]
  have i: "inner_inv acc p (header_mut ?f n)"
    using inv h by (auto simp: inner_inv_def header_ok_def get_prefix_def)
  have "view acc (header_mut ?f n) k = ((view acc n)(p := view acc n p @ [v])) k" for k
    unfolding view_inner_view [OF i] view_inner_view [OF inv]
    by (rule inner_viewE [of k p acc "nh_values (art_header n)" "get_child n"])
       (auto simp: inner_view_def h(3,5))
  moreover have "short_prefixes n \<Longrightarrow> short_prefixes (header_mut ?f n)"
    using n h(1-5) by (simp add: inner_short)
  ultimately show ?thesis
    using inner_inv_art_inv [OF i] h(6) by (auto simp: inserted_def)
qed

lemma inserted_child:
  assumes inv: "inner_inv acc p n"
    and n': "node_ok n'" "\<not> is_leaf n'" "header_same (art_header n') (art_header n)"
      "get_child n' = (get_child n)(b \<mapsto> c')"
    and c': "art_inv (acc @ p @ [b]) c'" "has_leaf n \<longrightarrow> has_leaf n'"
      "short_prefixes n \<Longrightarrow> length k' \<le> 10 \<Longrightarrow> short_prefixes c'"
    and view: "view (acc @ p @ [b]) c' = (old)(k' := old k' @ [v])"
    and old: "old = (case get_child n b of None \<Rightarrow> (\<lambda>_. []) | Some c \<Rightarrow> view (acc @ p @ [b]) c)"
  shows "inserted acc n (p @ b # k') v n'"
proof -
  have i: "inner_inv acc p n'"
    using inv n' c' by (auto simp: inner_inv_def header_same_def)
  have vals: "nh_values (art_header n') = nh_values (art_header n)" using n' by (simp add: header_same_def)
  have "view acc n' k = ((view acc n)(p @ b # k' := view acc n (p @ b # k') @ [v])) k" for k
    unfolding view_inner_view [OF i] view_inner_view [OF inv] vals
    by (rule inner_viewE [of k p acc "nh_values (art_header n)" "get_child n"])
       (auto simp: inner_view_def n'(4) view old split: option.split)
  moreover have "short_prefixes n'" if "short_prefixes n" "length (p @ b # k') \<le> 10"
    using that c'(3) n' inv by (auto simp: inner_short inner_inv_def header_same_def split: if_splits)
  ultimately show ?thesis
    using inner_inv_art_inv [OF i] c'(2) by (auto simp: inserted_def)
qed

lemma insert_new_child:
  assumes inv: "inner_inv acc p n" and b: "get_child n b = None"
    and add: "add_leaf_child self n b (Leaf (leaf_new (acc @ p @ b # k') v)) = (self', n')"
  shows "inserted acc n (p @ b # k') v n'"
proof -
  have "node_ok n" "\<not> is_leaf n" "header_ok (art_header n)" using inv by (auto simp: inner_inv_def)
  from add_leaf_child_ok [OF this b add]
  have n': "node_ok n'" "\<not> is_leaf n'" "header_same (art_header n') (art_header n)"
      "get_child n' = (get_child n)(b \<mapsto> Leaf (leaf_new (acc @ p @ b # k') v))" by auto
  have "has_leaf n'" using has_leaf_inner [OF n'(2,1)] n'(4) by (metis fun_upd_same has_leaf_Leaf)
  then show ?thesis
    by (intro inserted_child [OF inv n']) (auto simp: b view_leaf leaf_new_def all_values_def)
qed

lemma insert_descend:
  assumes inv: "inner_inv acc p n" and c: "get_child n b = Some c" and i: "child_slot n b = Some i"
    and ins: "inserted (acc @ p @ [b]) c k' v c'"
  shows "inserted acc n (p @ b # k') v (set_child_slot n i (Some c'))"
proof -
  have n: "node_ok n" "\<not> is_leaf n" using inv by (auto simp: inner_inv_def)
  then have n': "node_ok (set_child_slot n i (Some c'))" "\<not> is_leaf (set_child_slot n i (Some c'))"
      "header_same (art_header (set_child_slot n i (Some c'))) (art_header n)"
      "get_child (set_child_slot n i (Some c')) = (get_child n)(b \<mapsto> c')"
    using set_child_slot_ok [OF n(1) i, of c'] c by auto
  have "has_leaf n \<longrightarrow> has_leaf (set_child_slot n i (Some c'))"
    using has_leaf_inner [OF n(2,1)] has_leaf_inner [OF n'(2,1)] n'(4) ins c
    unfolding inserted_def by (metis fun_upd_other fun_upd_same option.inject)
  then show ?thesis
    using ins n c by (intro inserted_child [OF inv n']) (auto simp: inserted_def inner_short)
qed

text \<open>
  Insertion below any path succeeds, keeps the invariant and appends exactly one row id. For a
  unique index the key must be absent, which \<open>art_insert\<close> checks before it descends.
\<close>

lemma insert_into_node_ok:
  assumes "art_inv acc n" "length (acc @ rest) < 2 ^ 32"
    and "is_unique_type (at_index_type self) \<Longrightarrow> view acc n rest = []"
  shows "\<exists>self' n'. insert_into_node self n (acc @ rest) v (length acc) = (self', Inr n')
    \<and> inserted acc n rest v n'"
  using assms
proof (induction n arbitrary: acc rest rule: measure_induct_rule [of size])
  case (less n)
  from less.prems(1) show ?case
  proof (cases rule: art_inv_cases)
    case (leaf l)
    then show ?thesis
      using insert_leaf [OF leaf(2) less.prems(2), of self v] by (simp add: insert_into_node.simps)
  next
    case (inner p)
    have n: "\<not> is_leaf n" "nh_prefix_len (art_header n) = length p" "node_ok n"
      using inner by (auto simp: inner_inv_def)
    show ?thesis
    proof (cases "prefix p rest")
      case False
      then have m: "lcp_len p rest < length p" using lcp_len_full [of p rest] lcp_len_le [of p rest] by simp
      have "insert_into_node self n (acc @ rest) v (length acc) =
          split_node self n (acc @ rest) v (length acc) (lcp_len p rest)"
        unfolding insert_into_node.simps [of self n] inner_case [OF n(1)] n(2)
          prefix_mismatch_pos_lcp [OF inner] Let_def using m by simp
      then show ?thesis using insert_split [OF inner m less.prems(2)] by simp
    next
      case True
      then obtain k where k: "rest = p @ k" by (auto simp: prefix_def)
      note eq = insert_into_node_inner [OF inner k, of self v]
      show ?thesis
      proof (cases k)
        case Nil
        then have "is_unique_type (at_index_type self) \<Longrightarrow> nh_values (art_header n) = []"
          using less.prems(3) k view_inner [OF inner, of rest] by simp
        then show ?thesis using eq Nil k inserted_value [OF inner, of v] by auto
      next
        case (Cons b k')
        show ?thesis
        proof (cases "get_child n b")
          case None
          then show ?thesis
            using eq Cons k insert_new_child [OF inner None] by (auto split: prod.split)
        next
          case (Some c)
          then obtain i where i: "child_slot n b = Some i" "nth_opt (children_of n) i = Some c"
            using child_slot_present [OF n(3)] by blast
          have "art_inv (acc @ p @ [b]) c" using inner Some by (auto simp: inner_inv_def)
          moreover have "view acc n rest = view (acc @ p @ [b]) c k'"
            using view_inner [OF inner, of rest] k Cons Some by simp
          ultimately obtain self' c' where
            "insert_into_node self c ((acc @ p @ [b]) @ k') v (length (acc @ p @ [b])) = (self', Inr c')"
            "inserted (acc @ p @ [b]) c k' v c'"
            using less.IH [OF get_child_size [OF Some], of "acc @ p @ [b]" k'] less.prems k Cons by auto
          then show ?thesis
            using eq Cons k Some i insert_descend [OF inner Some i(1)] by auto
        qed
      qed
    qed
  qed
qed

text \<open>The descent touches nothing of the tree record but the statistics.\<close>

lemma add_leaf_child_frame: "add_leaf_child self n b c = (self', n') \<Longrightarrow> \<exists>s. self' = self\<lparr>at_stats := s\<rparr>"
  by (auto simp: add_leaf_child_def split: art_node.splits if_splits intro: exI [of _ "at_stats self"])

lemma insert_into_leaf_frame:
  "insert_into_leaf self l key v d = (self', r) \<Longrightarrow> \<exists>s. self' = self\<lparr>at_stats := s\<rparr>"
  by (auto simp: insert_into_leaf_def Let_def split: prod.splits if_splits intro: exI [of _ "at_stats self"])

lemma split_node_frame:
  "split_node self n key v d m = (self', r) \<Longrightarrow> \<exists>s. self' = self\<lparr>at_stats := s\<rparr>"
  by (auto simp: split_node_def Let_def split: prod.splits if_splits sum.splits intro: exI [of _ "at_stats self"])

lemma insert_frame:
  "insert_into_node self n key v d = (self', r) \<Longrightarrow> \<exists>s. self' = self\<lparr>at_stats := s\<rparr>"
proof (induction n arbitrary: d self' r rule: measure_induct_rule [of size])
  case (less n)
  show ?case
  proof (cases "is_leaf n")
    case True
    then show ?thesis
      using less.prems insert_into_leaf_frame by (cases n) (auto simp: is_leaf_def insert_into_node.simps)
  next
    case False
    show ?thesis
      using less.prems split_node_frame less.IH [OF slot_child_size]
      unfolding insert_into_node.simps [of self n] inner_case [OF False] Let_def
      by (auto split: if_splits option.splits sum.splits prod.splits intro: exI [of _ "at_stats self"]
          dest!: add_leaf_child_frame)
  qed
qed

end
