(* ===== verification/Art_Remove.thy ===== *)
theory Art_Remove
  imports Art_Insert
begin

text \<open>
  Removal of a key and of one row id. The code keeps an inner node after its last leaf is
  gone; the bytes of a compressed prefix beyond the tenth can then no longer be recovered.
  \<open>recoverable\<close> (theory \<open>Art_Inv\<close>) says that this has not happened, and the removal lemmas show that the
  content changes at the removed key alone whenever the resulting tree is recoverable. When
  all compressed prefixes fit into the header (\<open>short_prefixes\<close>) it always is.
\<close>

section \<open>The removal contract\<close>

text \<open>Row list \<open>w\<close> replaces what was stored at \<open>acc @ rest\<close>.\<close>

definition removed_ok :: "bytes \<Rightarrow> art_node \<Rightarrow> bytes \<Rightarrow> row_id list \<Rightarrow> art_node option \<Rightarrow> bool" where
  "removed_ok acc n rest w no = (case no of
       None \<Rightarrow> w = [] \<and> (\<forall>k. k \<noteq> rest \<longrightarrow> view acc n k = [])
     | Some n' \<Rightarrow> (short_prefixes n \<longrightarrow> short_prefixes n')
         \<and> (recoverable n' \<longrightarrow> art_inv acc n' \<and> view acc n' = (view acc n)(rest := w)))"

text \<open>A node with the prefix and the values of \<open>n\<close> and a changed child map.\<close>

lemma inner_changed:
  assumes inv: "inner_inv acc p n"
    and n': "node_ok n'" "\<not> is_leaf n'" "header_same (art_header n') (art_header n)" "recoverable n'"
    and child: "\<forall>b c. get_child n' b = Some c \<longrightarrow> art_inv (acc @ p @ [b]) c"
  shows "inner_inv acc p n'" "view acc n' = inner_view acc p (nh_values (art_header n)) (get_child n')"
proof -
  show i: "inner_inv acc p n'"
    using inv n' child inner_recoverable [OF n'(1,2)] by (auto simp: inner_inv_def header_same_def)
  show "view acc n' = inner_view acc p (nh_values (art_header n)) (get_child n')"
    using view_inner_view [OF i] n'(3) by (simp add: header_same_def)
qed

lemma removed_shrink:
  assumes inv: "inner_inv acc p n" and shr: "maybe_shrink_node self n = (self', n')"
  shows "removed_ok acc n rest (view acc n rest) (Some n')"
proof -
  have n: "node_ok n" "\<not> is_leaf n" "header_ok (art_header n)" using inv by (auto simp: inner_inv_def)
  from maybe_shrink_ok [OF this shr]
  have n': "node_ok n'" "\<not> is_leaf n'" "header_same (art_header n') (art_header n)" "get_child n' = get_child n"
    by auto
  have "short_prefixes n \<Longrightarrow> short_prefixes n'"
    using n n' by (simp add: inner_short header_same_def)
  moreover have "art_inv acc n' \<and> view acc n' = view acc n" if "recoverable n'"
  proof -
    have child: "\<forall>b c. get_child n' b = Some c \<longrightarrow> art_inv (acc @ p @ [b]) c"
      using inv n'(4) by (simp add: inner_inv_def)
    note ch = inner_changed [OF inv n'(1-3) that child]
    show ?thesis using inner_inv_art_inv [OF ch(1)] ch(2) n'(4) view_inner_view [OF inv] by simp
  qed
  ultimately show ?thesis by (simp add: removed_ok_def)
qed

lemma removed_values:
  assumes inv: "inner_inv acc p n"
  shows "removed_ok acc n p (f (nh_values (art_header n))) (Some (header_mut (\<lambda>h. h\<lparr>nh_values := f (nh_values h)\<rparr>) n))"
proof -
  let ?f = "\<lambda>h. h\<lparr>nh_values := f (nh_values h)\<rparr>"
  have n: "node_ok n" "\<not> is_leaf n" using inv by (auto simp: inner_inv_def)
  note h = header_mut_ok [OF n, of ?f] has_leaf_header [OF n, of ?f]
  have i: "inner_inv acc p (header_mut ?f n)"
    using inv h by (auto simp: inner_inv_def header_ok_def get_prefix_def)
  have "view acc (header_mut ?f n) k = ((view acc n)(p := f (nh_values (art_header n)))) k" for k
    unfolding view_inner_view [OF i] view_inner_view [OF inv]
    by (rule inner_viewE [of k p acc "nh_values (art_header n)" "get_child n"])
       (auto simp: inner_view_def h(3,5))
  moreover have "short_prefixes n \<Longrightarrow> short_prefixes (header_mut ?f n)"
    using n h(1-5) by (simp add: inner_short)
  ultimately show ?thesis
    using inner_inv_art_inv [OF i] by (auto simp: removed_ok_def)
qed

lemma put_back_ok:
  assumes "node_ok n" "\<not> is_leaf n" "child_slot n b = Some i" "get_child n b \<noteq> None"
  shows "node_ok (put_back n i b nc) \<and> \<not> is_leaf (put_back n i b nc)
    \<and> get_child (put_back n i b nc) = (get_child n)(b := nc)
    \<and> header_same (art_header (put_back n i b nc)) (art_header n)"
  using assms set_child_slot_ok [OF assms(1,3,4)] detach_child_ok [OF assms(1,3,4)]
  by (auto simp: put_back_def split: option.split)

lemma removed_child:
  assumes inv: "inner_inv acc p n" and c: "get_child n b = Some c" and i: "child_slot n b = Some i"
    and rem: "removed_ok (acc @ p @ [b]) c k' w nc"
    and shr: "maybe_shrink_node self (put_back n i b nc) = (self', n')"
  shows "removed_ok acc n (p @ b # k') w (Some n')"
proof -
  have n: "node_ok n" "\<not> is_leaf n" "header_ok (art_header n)" using inv by (auto simp: inner_inv_def)
  have q: "node_ok (put_back n i b nc)" "\<not> is_leaf (put_back n i b nc)" "header_ok (art_header (put_back n i b nc))"
    "get_child (put_back n i b nc) = (get_child n)(b := nc)"
    "header_same (art_header (put_back n i b nc)) (art_header n)"
    using put_back_ok [OF n(1,2) i, of nc] n(3) c by (auto simp: header_same_def)
  have n': "node_ok n'" "\<not> is_leaf n'" "header_same (art_header n') (art_header n)" "get_child n' = (get_child n)(b := nc)"
    using maybe_shrink_ok [OF q(1-3) shr] q(4) header_same_trans [OF _ q(5)] by auto
  have "short_prefixes n'" if "short_prefixes n"
    using that rem c n n' by (auto simp: inner_short header_same_def removed_ok_def split: option.splits if_splits)
  moreover have "art_inv acc n' \<and> view acc n' = (view acc n)(p @ b # k' := w)" if rc: "recoverable n'"
  proof -
    have nc: "recoverable c'" if "nc = Some c'" for c'
      using rc inner_recoverable [OF n'(1,2)] n'(4) that by (metis fun_upd_same)
    then have child: "\<forall>x c'. get_child n' x = Some c' \<longrightarrow> art_inv (acc @ p @ [x]) c'"
      using n'(4) rem inv by (auto simp: removed_ok_def inner_inv_def split: if_splits)
    note ch = inner_changed [OF inv n'(1-3) rc child]
    have vb: "(case nc of None \<Rightarrow> [] | Some c' \<Rightarrow> view (acc @ p @ [b]) c' k)
        = ((view (acc @ p @ [b]) c)(k' := w)) k" for k
      using rem nc by (auto simp: removed_ok_def split: option.splits)
    have "view acc n' k = ((view acc n)(p @ b # k' := w)) k" for k
      unfolding ch(2) view_inner_view [OF inv]
      by (rule inner_viewE [of k p acc "nh_values (art_header n)" "get_child n"])
         (use vb c in \<open>auto simp: inner_view_def n'(4)\<close>)
    then show ?thesis using inner_inv_art_inv [OF ch(1)] by auto
  qed
  ultimately show ?thesis by (simp add: removed_ok_def)
qed

section \<open>Removing a key\<close>

abbreviation first_of :: "'a list \<Rightarrow> 'a option" where
  "first_of xs \<equiv> (case xs of [] \<Rightarrow> None | x # _ \<Rightarrow> Some x)"

lemma removed_same: "art_inv acc n \<Longrightarrow> view acc n rest = w \<Longrightarrow> removed_ok acc n rest w (Some n)"
  by (auto simp: removed_ok_def)

lemma maybe_shrink_frame: "maybe_shrink_node self n = (self', n') \<Longrightarrow> \<exists>s. self' = self\<lparr>at_stats := s\<rparr>"
  by (auto simp: maybe_shrink_node_def split: art_node.splits if_splits intro: exI [of _ "at_stats self"])

definition size_frame :: "art_tree \<Rightarrow> nat \<Rightarrow> art_tree \<Rightarrow> bool" where
  "size_frame self k self' \<longleftrightarrow> (\<exists>s. self' = self\<lparr>at_size := at_size self - word_of_nat k, at_stats := s\<rparr>)"

lemma size_frame_refl [simp]: "size_frame self 0 self"
  unfolding size_frame_def by (rule exI [of _ "at_stats self"]) simp

lemma size_frame_reduce [simp]: "size_frame self k (reduce_size k self)"
  by (auto simp: size_frame_def reduce_size_def Let_def)

lemma size_frame_shrink:
  "size_frame self k self' \<Longrightarrow> maybe_shrink_node self' n = (self'', n') \<Longrightarrow> size_frame self k self''"
  by (auto simp: size_frame_def dest!: maybe_shrink_frame)

lemma remove_ok:
  assumes "art_inv acc n"
  shows "\<exists>self' no. remove_recursive self n (acc @ rest) (length acc) = (self', Inr (no, first_of (view acc n rest)))
     \<and> removed_ok acc n rest [] no \<and> size_frame self (length (view acc n rest) - 1) self'"
  using assms
proof (induction n arbitrary: acc rest self rule: measure_induct_rule [of size])
  case (less n)
  from less.prems show ?case
  proof (cases rule: art_inv_cases)
    case (leaf l)
    show ?thesis
      using leaf removed_same [OF less.prems, of rest "[]"]
      by (cases "lf_key l = acc @ rest")
         (auto simp: remove_recursive.simps leaf_matches_def view_leaf removed_ok_def
           values_count_def leaf_value_def all_values_def)
  next
    case (inner p)
    have n: "\<not> is_leaf n" "nh_prefix_len (art_header n) = length p" "node_ok n"
      using inner by (auto simp: inner_inv_def)
    note eq = remove_recursive.simps [of self n, unfolded inner_case [OF n(1)] n(2) Let_def]
    note pos = prefix_mismatch_pos_lcp [OF inner, of rest]
    show ?thesis
    proof (cases "prefix p rest")
      case False
      then have "lcp_len p rest < length p" using lcp_len_full [of p rest] lcp_len_le [of p rest] by simp
      then show ?thesis
        using eq pos removed_same [OF less.prems, of rest] view_inner [OF inner, of rest] False by simp
    next
      case True
      then obtain k where k: "rest = p @ k" by (auto simp: prefix_def)
      have pos: "prefix_mismatch_pos n (acc @ p @ k) (length acc) = length p"
        using pos lcp_len_full [of p rest] k by simp
      show ?thesis
      proof (cases k)
        case Nil
        then show ?thesis
          using eq pos k removed_values [OF inner, of "\<lambda>_. []"] view_inner [OF inner, of rest] by simp
      next
        case (Cons b k')
        have vw: "view acc n rest = (case get_child n b of None \<Rightarrow> [] | Some c \<Rightarrow> view (acc @ p @ [b]) c k')"
          using view_inner [OF inner, of rest] k Cons by simp
        show ?thesis
        proof (cases "get_child n b")
          case None
          obtain self' n' where sh: "maybe_shrink_node self n = (self', n')" by force
          have "remove_recursive self n (acc @ rest) (length acc) = (self', Inr (Some n', None))"
            using eq pos child_slot_absent [OF n(3) None] k Cons sh by (auto simp: nth_append)
          then show ?thesis
            using removed_shrink [OF inner sh, of rest] size_frame_shrink [OF size_frame_refl sh] vw None by auto
        next
          case (Some c)
          then obtain i where i: "child_slot n b = Some i" "nth_opt (children_of n) i = Some c"
            using child_slot_present [OF n(3)] by blast
          have "art_inv (acc @ p @ [b]) c" using inner Some by (auto simp: inner_inv_def)
          from less.IH [OF get_child_size [OF Some] this, of self k']
          obtain self' nc where r: "remove_recursive self c ((acc @ p @ [b]) @ k') (length (acc @ p @ [b]))
                = (self', Inr (nc, first_of (view (acc @ p @ [b]) c k')))"
              "removed_ok (acc @ p @ [b]) c k' [] nc"
              "size_frame self (length (view (acc @ p @ [b]) c k') - 1) self'" by blast
          obtain self'' n' where sh: "maybe_shrink_node self' (put_back n i b nc) = (self'', n')" by force
          have "remove_recursive self n (acc @ rest) (length acc) = (self'', Inr (Some n', first_of (view acc n rest)))"
            using eq pos i k Cons sh r(1) vw Some by (simp add: nth_append)
          then show ?thesis
            using removed_child [OF inner Some i(1) r(2) sh] size_frame_shrink [OF r(3) sh] vw Some k Cons by auto
        qed
      qed
    qed
  qed
qed

section \<open>Removing one row id\<close>

lemma swap_remove_value_absent: "r \<notin> set vs \<Longrightarrow> swap_remove_value r vs = vs"
  using position_None [of r vs] by (simp add: swap_remove_value_def)

lemma remove_value_leaf:
  assumes "lf_key l = acc @ rest"
  shows "\<exists>self' no. remove_value_recursive self (Leaf l) (acc @ rest) r (length acc)
       = (self', Inr (no, r \<in> set (all_values l)))
     \<and> removed_ok acc (Leaf l) rest (swap_remove_value r (all_values l)) no \<and> size_frame self 0 self'"
proof -
  obtain rm em l' where lr: "leaf_remove_value r l = ((rm, em), l')" by (metis surj_pair)
  have sp: "rm = (r \<in> set (all_values l))" "em = (all_values l = [r])" "lf_key l' = lf_key l"
      "\<not> em \<Longrightarrow> all_values l' = swap_remove_value r (all_values l)"
    using leaf_remove_value_spec [of r l] by (simp_all add: lr)
  have keep: "removed_ok acc (Leaf l) rest (all_values l') (Some (Leaf l'))"
    using assms sp(3) by (auto simp: removed_ok_def view_leaf short_prefixes_def fun_eq_iff)
  show ?thesis
  proof (cases em)
    case True
    then have "swap_remove_value r (all_values l) = []" "rm"
      using sp by (simp_all add: swap_remove_value_def swap_remove_def)
    then show ?thesis
      using True assms lr sp(1)
      by (auto simp: remove_value_recursive.simps leaf_matches_def removed_ok_def view_leaf size_frame_def)
  next
    case False
    then show ?thesis
      using assms lr sp keep by (auto simp: remove_value_recursive.simps leaf_matches_def)
  qed
qed

lemma remove_value_ok:
  assumes "art_inv acc n"
  shows "\<exists>self' no. remove_value_recursive self n (acc @ rest) r (length acc) = (self', Inr (no, r \<in> set (view acc n rest)))
     \<and> removed_ok acc n rest (swap_remove_value r (view acc n rest)) no \<and> size_frame self 0 self'"
  using assms
proof (induction n arbitrary: acc rest self rule: measure_induct_rule [of size])
  case (less n)
  from less.prems show ?case
  proof (cases rule: art_inv_cases)
    case (leaf l)
    show ?thesis
      using leaf removed_same [OF less.prems, of rest "[]"] remove_value_leaf [of l acc rest self r]
      by (cases "lf_key l = acc @ rest")
         (auto simp: remove_value_recursive.simps leaf_matches_def view_leaf swap_remove_value_absent)
  next
    case (inner p)
    have n: "\<not> is_leaf n" "nh_prefix_len (art_header n) = length p" "node_ok n"
      using inner by (auto simp: inner_inv_def)
    note eq = remove_value_recursive.simps [of self n, unfolded inner_case [OF n(1)] n(2) Let_def]
    note pos = prefix_mismatch_pos_lcp [OF inner, of rest]
    show ?thesis
    proof (cases "prefix p rest")
      case False
      then have "lcp_len p rest < length p" using lcp_len_full [of p rest] lcp_len_le [of p rest] by simp
      then show ?thesis
        using eq pos removed_same [OF less.prems, of rest "[]"] view_inner [OF inner, of rest] False
        by (simp add: swap_remove_value_absent)
    next
      case True
      then obtain k where k: "rest = p @ k" by (auto simp: prefix_def)
      have pos: "prefix_mismatch_pos n (acc @ p @ k) (length acc) = length p"
        using pos lcp_len_full [of p rest] k by simp
      show ?thesis
      proof (cases k)
        case Nil
        let ?vs = "nh_values (art_header n)"
        have vw: "view acc n rest = ?vs" using view_inner [OF inner, of rest] k Nil by simp
        show ?thesis
        proof (cases "position r ?vs")
          case None
          then show ?thesis
            using eq pos k Nil vw removed_same [OF less.prems, of rest ?vs] position_None [of r ?vs]
            by (simp add: swap_remove_value_absent)
        next
          case (Some i)
          then have "r \<in> set ?vs" using position_None [of r ?vs] by auto
          then show ?thesis
            using eq pos k Nil vw Some removed_values [OF inner, of "\<lambda>vs. swap_remove vs i"]
            by (simp add: swap_remove_value_def)
        qed
      next
        case (Cons b k')
        have vw: "view acc n rest = (case get_child n b of None \<Rightarrow> [] | Some c \<Rightarrow> view (acc @ p @ [b]) c k')"
          using view_inner [OF inner, of rest] k Cons by simp
        show ?thesis
        proof (cases "get_child n b")
          case None
          obtain self' n' where sh: "maybe_shrink_node self n = (self', n')" by force
          have "remove_value_recursive self n (acc @ rest) r (length acc) = (self', Inr (Some n', False))"
            using eq pos child_slot_absent [OF n(3) None] k Cons sh by (auto simp: nth_append)
          then show ?thesis
            using removed_shrink [OF inner sh, of rest] size_frame_shrink [OF size_frame_refl sh] vw None
            by (auto simp: swap_remove_value_absent)
        next
          case (Some c)
          then obtain i where i: "child_slot n b = Some i" "nth_opt (children_of n) i = Some c"
            using child_slot_present [OF n(3)] by blast
          have "art_inv (acc @ p @ [b]) c" using inner Some by (auto simp: inner_inv_def)
          from less.IH [OF get_child_size [OF Some] this, of self k']
          obtain self' nc where r: "remove_value_recursive self c ((acc @ p @ [b]) @ k') r (length (acc @ p @ [b]))
                = (self', Inr (nc, r \<in> set (view (acc @ p @ [b]) c k')))"
              "removed_ok (acc @ p @ [b]) c k' (swap_remove_value r (view (acc @ p @ [b]) c k')) nc"
              "size_frame self 0 self'" by blast
          obtain self'' n' where sh: "maybe_shrink_node self' (put_back n i b nc) = (self'', n')" by force
          have "remove_value_recursive self n (acc @ rest) r (length acc)
              = (self'', Inr (Some n', r \<in> set (view acc n rest)))"
            using eq pos i k Cons sh r(1) vw Some by (simp add: nth_append)
          then show ?thesis
            using removed_child [OF inner Some i(1) r(2) sh] size_frame_shrink [OF r(3) sh] vw Some k Cons by auto
        qed
      qed
    qed
  qed
qed

end
