(* ===== verification/Art_Spec.thy ===== *)
theory Art_Spec
  imports Art_Remove
begin

text \<open>
  The contract of the index and the proof that the tree implements it. The abstract index is
  a function from keys to row lists. \<open>insert_index\<close> states what insertion and lookup
  promise, \<open>row_index\<close> adds removal; clients prove their facts once in these locales. The
  tree interprets the first for keys of any length below 2 to the 32, the second for keys of
  at most ten bytes, for which every compressed prefix fits into its header.
\<close>

section \<open>Abstract index\<close>

text \<open>Why an insertion is refused: a null primary key, or a taken key of a unique index.\<close>

definition refused :: "art_index_type \<Rightarrow> (bytes \<Rightarrow> row_id list) \<Rightarrow> bytes \<Rightarrow> bool" where
  "refused ty f k \<longleftrightarrow> k = [] \<and> ty = PrimaryKey \<or> is_unique_type ty \<and> f k \<noteq> []"

definition is_key_error :: "art_index_error \<Rightarrow> bool" where
  "is_key_error e = (case e of NullPrimaryKey \<Rightarrow> True | DuplicateKey _ \<Rightarrow> True | _ \<Rightarrow> False)"

definition rows_total :: "(bytes \<Rightarrow> row_id list) \<Rightarrow> nat" where
  "rows_total f = (\<Sum>k | f k \<noteq> []. length (f k))"

lemma rows_total_upd:
  assumes "finite {k. f k \<noteq> []}"
  shows "finite {j. (f(k := w)) j \<noteq> []}" "rows_total (f(k := w)) + length (f k) = rows_total f + length w"
proof -
  let ?S = "insert k {j. f j \<noteq> []}"
  have fin: "finite ?S" using assms by simp
  have sub: "{j. (f(k := w)) j \<noteq> []} \<subseteq> ?S" by auto
  then show "finite {j. (f(k := w)) j \<noteq> []}" using fin by (rule finite_subset)
  have all: "rows_total g = (\<Sum>j \<in> ?S. length (g j))" if "{j. g j \<noteq> []} \<subseteq> ?S" for g
    unfolding rows_total_def by (rule sum.mono_neutral_left [OF fin that]) simp
  have f: "(\<Sum>j \<in> ?S. length (f j)) = length (f k) + (\<Sum>j \<in> ?S - {k}. length (f j))"
    by (rule sum.remove [OF fin]) simp
  have g: "(\<Sum>j \<in> ?S. length ((f(k := w)) j)) = length w + (\<Sum>j \<in> ?S - {k}. length (f j))"
    by (subst sum.remove [OF fin, of k]) (auto intro: sum.cong)
  show "rows_total (f(k := w)) + length (f k) = rows_total f + length w"
    unfolding all [OF sub] all [of f, OF subset_insertI] f g by simp
qed

lemma mset_swap_remove_value: "mset (swap_remove_value v vs) = mset vs - {#v#}"
proof (cases "position v vs")
  case None
  then have "v \<notin># mset vs" by (simp add: position_None)
  then show ?thesis using None by (simp add: swap_remove_value_def diff_single_trivial)
next
  case (Some i)
  then have "add_mset v (mset (swap_remove vs i)) = mset vs"
    using position_Some [OF Some] mset_swap_remove [of i vs] by simp
  then have "mset vs - {#v#} = mset (swap_remove vs i)" by (metis add_mset_remove_trivial)
  then show ?thesis using Some by (simp add: swap_remove_value_def)
qed

text \<open>Sequences of operations, on any implementation and on the abstract index.\<close>

datatype index_op = OpInsert bytes row_id | OpRemove bytes | OpRemoveValue bytes row_id

datatype index_reply = Accepted | Refused | RemovedKey "row_id option" | RemovedRow bool | Failed

fun op_key :: "index_op \<Rightarrow> bytes" where
  "op_key (OpInsert k _) = k" | "op_key (OpRemove k) = k" | "op_key (OpRemoveValue k _) = k"

fun index_step :: "('s \<Rightarrow> bytes \<Rightarrow> row_id \<Rightarrow> 's \<times> (art_index_error + unit)) \<Rightarrow>
    ('s \<Rightarrow> bytes \<Rightarrow> 's \<times> (art_index_error + row_id option)) \<Rightarrow>
    ('s \<Rightarrow> bytes \<Rightarrow> row_id \<Rightarrow> 's \<times> (art_index_error + bool)) \<Rightarrow> 's \<Rightarrow> index_op \<Rightarrow> 's \<times> index_reply" where
  "index_step ins rem remv s (OpInsert k v) = (fst (ins s k v), case snd (ins s k v) of
       Inr _ \<Rightarrow> Accepted | Inl e \<Rightarrow> if is_key_error e then Refused else Failed)"
| "index_step ins rem remv s (OpRemove k) = (fst (rem s k), case snd (rem s k) of
       Inr r \<Rightarrow> RemovedKey r | Inl e \<Rightarrow> Failed)"
| "index_step ins rem remv s (OpRemoveValue k v) = (fst (remv s k v), case snd (remv s k v) of
       Inr r \<Rightarrow> RemovedRow r | Inl e \<Rightarrow> Failed)"

fun spec_step :: "art_index_type \<Rightarrow> (bytes \<Rightarrow> row_id list) \<Rightarrow> index_op \<Rightarrow> (bytes \<Rightarrow> row_id list) \<times> index_reply" where
  "spec_step ty f (OpInsert k v) = (if refused ty f k then (f, Refused) else (f(k := f k @ [v]), Accepted))"
| "spec_step ty f (OpRemove k) = (f(k := []), RemovedKey (first_of (f k)))"
| "spec_step ty f (OpRemoveValue k v) = (f(k := swap_remove_value v (f k)), RemovedRow (v \<in> set (f k)))"

fun run_steps :: "('s \<Rightarrow> index_op \<Rightarrow> 's \<times> index_reply) \<Rightarrow> 's \<Rightarrow> index_op list \<Rightarrow> 's \<times> index_reply list" where
  "run_steps step s [] = (s, [])"
| "run_steps step s (op # ops) = (let (s', r) = step s op; (s'', rs) = run_steps step s' ops in (s'', r # rs))"

locale insert_index =
  fixes ok :: "'s \<Rightarrow> bool"
    and adm :: "bytes \<Rightarrow> bool"
    and kind :: "'s \<Rightarrow> art_index_type"
    and rows :: "'s \<Rightarrow> bytes \<Rightarrow> row_id list"
    and get1 :: "'s \<Rightarrow> bytes \<Rightarrow> row_id option"
    and ins :: "'s \<Rightarrow> bytes \<Rightarrow> row_id \<Rightarrow> 's \<times> (art_index_error + unit)"
  assumes get_first: "get1 s k = first_of (rows s k)"
    and ins_kind: "kind (fst (ins s k v)) = kind s"
    and ins_refused: "ok s \<Longrightarrow> refused (kind s) (rows s) k \<Longrightarrow>
      (\<exists>e. snd (ins s k v) = Inl e \<and> is_key_error e) \<and> ok (fst (ins s k v)) \<and> rows (fst (ins s k v)) = rows s"
    and ins_ok: "ok s \<Longrightarrow> adm k \<Longrightarrow> \<not> refused (kind s) (rows s) k \<Longrightarrow>
      snd (ins s k v) = Inr () \<and> ok (fst (ins s k v)) \<and> rows (fst (ins s k v)) = (rows s)(k := rows s k @ [v])"
begin

lemma ins_keeps_ok: "ok s \<Longrightarrow> adm k \<Longrightarrow> ok (fst (ins s k v))"
  using ins_refused [of s k v] ins_ok [of s k v] by blast

lemma ins_other: "ok s \<Longrightarrow> adm k \<Longrightarrow> j \<noteq> k \<Longrightarrow> rows (fst (ins s k v)) j = rows s j"
  using ins_refused [of s k v] ins_ok [of s k v] by (cases "refused (kind s) (rows s) k") auto

lemma ins_get: "ok s \<Longrightarrow> adm k \<Longrightarrow> snd (ins s k v) = Inr () \<Longrightarrow> get1 s k = None \<Longrightarrow>
    get1 (fst (ins s k v)) k = Some v"
  using ins_refused [of s k v] ins_ok [of s k v]
  by (cases "refused (kind s) (rows s) k") (auto simp: get_first split: list.splits)

lemma unique_single:
  "ok s \<Longrightarrow> adm k \<Longrightarrow> is_unique_type (kind s) \<Longrightarrow> (\<And>j. length (rows s j) \<le> 1) \<Longrightarrow>
     length (rows (fst (ins s k v)) j) \<le> 1"
  using ins_refused [of s k v] ins_ok [of s k v]
  by (cases "refused (kind s) (rows s) k") (auto simp: refused_def)

lemma load_rows:
  assumes "ok s" "\<not> is_unique_type (kind s)" "\<forall>p \<in> set kvs. adm (fst p)"
  shows "ok (fold (\<lambda>(k, v) s. fst (ins s k v)) kvs s)
    \<and> rows (fold (\<lambda>(k, v) s. fst (ins s k v)) kvs s) k = rows s k @ map snd (filter (\<lambda>p. fst p = k) kvs)"
  using assms
proof (induction kvs arbitrary: s)
  case (Cons p kvs)
  obtain j v where p: "p = (j, v)" by force
  have "adm j" "\<not> refused (kind s) (rows s) j"
    using Cons.prems p by (auto simp: refused_def is_unique_type_def)
  from ins_ok [OF Cons.prems(1) this, of v] show ?case
    using Cons.IH [of "fst (ins s j v)"] Cons.prems p by (auto simp: ins_kind)
qed simp

end

locale row_index = insert_index +
  fixes rem :: "'a \<Rightarrow> bytes \<Rightarrow> 'a \<times> (art_index_error + row_id option)"
    and remv :: "'a \<Rightarrow> bytes \<Rightarrow> row_id \<Rightarrow> 'a \<times> (art_index_error + bool)"
  assumes rem_kind: "ok s \<Longrightarrow> kind (fst (rem s k)) = kind s" "ok s \<Longrightarrow> kind (fst (remv s k v)) = kind s"
    and rem_ok: "ok s \<Longrightarrow> snd (rem s k) = Inr (first_of (rows s k)) \<and> ok (fst (rem s k))
      \<and> rows (fst (rem s k)) = (rows s)(k := [])"
    and remv_ok: "ok s \<Longrightarrow> snd (remv s k v) = Inr (v \<in> set (rows s k)) \<and> ok (fst (remv s k v))
      \<and> rows (fst (remv s k v)) = (rows s)(k := swap_remove_value v (rows s k))"
begin

lemma rem_get: "ok s \<Longrightarrow> get1 (fst (rem s k)) k = None"
  by (simp add: get_first rem_ok)

lemma ins_rem: "ok s \<Longrightarrow> adm k \<Longrightarrow> rows s k = [] \<Longrightarrow> rows (fst (rem (fst (ins s k v)) k)) = rows s"
  using ins_refused [of s k v] ins_ok [of s k v] rem_ok [of "fst (ins s k v)" k]
  by (cases "refused (kind s) (rows s) k") (auto simp: fun_eq_iff)

lemma remv_mset: "ok s \<Longrightarrow> mset (rows (fst (remv s k v)) k) = mset (rows s k) - {#v#}"
  by (simp add: remv_ok mset_swap_remove_value)

lemma step_refines:
  assumes "ok s" "adm (op_key op)"
  shows "ok (fst (index_step ins rem remv s op)) \<and> kind (fst (index_step ins rem remv s op)) = kind s
    \<and> spec_step (kind s) (rows s) op = (rows (fst (index_step ins rem remv s op)), snd (index_step ins rem remv s op))"
proof (cases op)
  case (OpInsert k v)
  then show ?thesis
    using assms ins_refused [of s k v] ins_ok [of s k v]
    by (cases "refused (kind s) (rows s) k") (auto simp: ins_kind)
qed (use assms in \<open>auto simp: rem_ok remv_ok rem_kind\<close>)

lemma run_refines:
  assumes "ok s" "\<forall>op \<in> set ops. adm (op_key op)"
  shows "ok (fst (run_steps (index_step ins rem remv) s ops))
    \<and> kind (fst (run_steps (index_step ins rem remv) s ops)) = kind s
    \<and> run_steps (spec_step (kind s)) (rows s) ops =
        (rows (fst (run_steps (index_step ins rem remv) s ops)), snd (run_steps (index_step ins rem remv) s ops))"
  using assms
proof (induction ops arbitrary: s)
  case (Cons op ops)
  then have "adm (op_key op)" by simp
  note st = step_refines [OF Cons.prems(1) this]
  show ?case
    using Cons.IH [of "fst (index_step ins rem remv s op)"] st Cons.prems
    by (simp add: case_prod_unfold Let_def)
qed simp

end

section \<open>The tree as an index\<close>

definition tree_ok :: "art_tree \<Rightarrow> bool" where
  "tree_ok t \<longleftrightarrow> (case at_root t of None \<Rightarrow> True | Some n \<Rightarrow> art_inv [] n)"

text \<open>
  Well-formed trees: the radix invariant, finitely many keys, \<open>len()\<close> counting the stored
  row ids, and at most one row id per key in a unique index.
\<close>

definition tree_wf :: "art_tree \<Rightarrow> bool" where
  "tree_wf t \<longleftrightarrow> tree_ok t \<and> finite {k. art_get_all t k \<noteq> []}
     \<and> at_size t = word_of_nat (rows_total (art_get_all t))
     \<and> (is_unique_type (at_index_type t) \<longrightarrow> (\<forall>k. length (art_get_all t k) \<le> 1))"

definition tree_short :: "art_tree \<Rightarrow> bool" where
  "tree_short t \<longleftrightarrow> (case at_root t of None \<Rightarrow> True | Some n \<Rightarrow> short_prefixes n)"

definition tree_recoverable :: "art_tree \<Rightarrow> bool" where
  "tree_recoverable t \<longleftrightarrow> (case at_root t of None \<Rightarrow> True | Some n \<Rightarrow> recoverable n)"

lemma get_all_root: "art_get_all t = (case at_root t of None \<Rightarrow> (\<lambda>_. []) | Some n \<Rightarrow> view [] n)"
  by (auto simp: art_get_all_def view_def fun_eq_iff split: option.split)

lemma get_all_cong: "at_root t = at_root t' \<Longrightarrow> art_get_all t = art_get_all t'"
  by (simp add: get_all_root)

lemma art_get_first: "art_get t k = first_of (art_get_all t k)"
  by (auto simp: art_get_def art_get_all_def get_inner_first split: option.split list.split)

lemma art_contains_rows: "art_contains t k \<longleftrightarrow> art_get_all t k \<noteq> []"
  by (auto simp: art_contains_def art_get_first split: list.split)

text \<open>Well-formedness after the rows of one key were replaced and the size adjusted.\<close>

lemma tree_wf_upd:
  assumes wf: "tree_wf t" and ok: "tree_ok t'" and rows: "art_get_all t' = (art_get_all t)(k := w)"
    and ty: "at_index_type t' = at_index_type t"
    and sz: "at_size t' + word_of_nat (length (art_get_all t k)) = at_size t + word_of_nat (length w)"
    and un: "is_unique_type (at_index_type t) \<Longrightarrow> length w \<le> 1"
  shows "tree_wf t'"
proof -
  have fin: "finite {k. art_get_all t k \<noteq> []}" and size: "at_size t = word_of_nat (rows_total (art_get_all t))"
    using wf by (auto simp: tree_wf_def)
  note up = rows_total_upd [OF fin, of k w]
  have "at_size t' + word_of_nat (length (art_get_all t k))
      = word_of_nat (rows_total (art_get_all t')) + word_of_nat (length (art_get_all t k))"
    unfolding sz size of_nat_add [symmetric] rows up(2) by simp
  then show ?thesis using wf ok up(1) ty un rows by (auto simp: tree_wf_def)
qed

definition dup_message :: "art_index_type \<Rightarrow> string" where
  "dup_message ty = ''Key already exists in '' @ index_type_display ty @ '' index''"

abbreviation count_insert :: "art_tree \<Rightarrow> art_tree" where
  "count_insert t \<equiv> upd_stats (\<lambda>s. s\<lparr>st_insert_count := st_insert_count s + 1\<rparr>) t"

lemma insert_refused:
  assumes "refused (at_index_type t) (art_get_all t) k"
  shows "art_insert t k v = (count_insert t,
     Inl (if k = [] \<and> at_index_type t = PrimaryKey then NullPrimaryKey else DuplicateKey (dup_message (at_index_type t))))"
  using assms get_all_cong [of "count_insert t" t]
  by (auto simp: art_insert_def refused_def art_contains_rows dup_message_def Let_def)

lemma insert_accepted:
  assumes wf: "tree_wf t" and len: "length k < 2 ^ 32" and ok: "\<not> refused (at_index_type t) (art_get_all t) k"
  shows "\<exists>t'. art_insert t k v = (t', Inr ()) \<and> tree_wf t' \<and> at_index_type t' = at_index_type t
    \<and> art_get_all t' = (art_get_all t)(k := art_get_all t k @ [v])
    \<and> (tree_short t \<and> length k \<le> 10 \<longrightarrow> tree_short t')"
proof -
  let ?t = "count_insert t"
  have same: "art_get_all ?t = art_get_all t" by (rule get_all_cong) simp
  have guard: "\<not> (k = [] \<and> at_index_type t = PrimaryKey)" "\<not> (is_unique_type (at_index_type t) \<and> art_contains ?t k)"
    using ok same by (auto simp: refused_def art_contains_rows)
  have un: "is_unique_type (at_index_type t) \<Longrightarrow> art_get_all t k = []" using ok by (auto simp: refused_def)
  show ?thesis
  proof (cases "at_root t")
    case None
    let ?t' = "upd_stats (\<lambda>s. s\<lparr>st_key_count := 1, st_leaf_count := 1\<rparr>)
       (?t\<lparr>at_root := Some (Leaf (leaf_new k v)), at_size := 1\<rparr>)"
    have none: "art_get_all t = (\<lambda>_. [])" using None by (simp add: get_all_root)
    have rows: "art_get_all ?t' = (art_get_all t)(k := art_get_all t k @ [v])"
      by (auto simp: get_all_root None view_leaf leaf_new_def all_values_def)
    have "at_size t = 0" using wf none by (simp add: tree_wf_def rows_total_def)
    then have "tree_wf ?t'"
      by (intro tree_wf_upd [OF wf _ rows]) (simp_all add: tree_ok_def none)
    then show ?thesis using rows None guard by (simp add: art_insert_def Let_def tree_short_def)
  next
    case (Some n)
    have inv: "art_inv [] n" using wf Some by (simp add: tree_wf_def tree_ok_def)
    have "is_unique_type (at_index_type (?t\<lparr>at_root := None\<rparr>)) \<Longrightarrow> view [] n k = []"
      using un Some by (simp add: get_all_root)
    from insert_into_node_ok [OF inv _ this, of "?t\<lparr>at_root := None\<rparr>" v] len
    obtain self' n' where ins: "insert_into_node (?t\<lparr>at_root := None\<rparr>) n k v 0 = (self', Inr n')" "inserted [] n k v n'"
      by auto
    obtain s where s: "self' = ?t\<lparr>at_root := None, at_stats := s\<rparr>" using insert_frame [OF ins(1)] by auto
    let ?t' = "upd_stats (\<lambda>s. s\<lparr>st_key_count := at_size t + 1\<rparr>) (self'\<lparr>at_root := Some n', at_size := at_size t + 1\<rparr>)"
    have res: "art_insert t k v = (?t', Inr ())"
      using guard Some ins(1) s by (simp add: art_insert_def insert_recursive_def Let_def)
    have rows: "art_get_all ?t' = (art_get_all t)(k := art_get_all t k @ [v])"
      using ins(2) Some by (simp add: get_all_root inserted_def)
    have "tree_wf ?t'"
      by (rule tree_wf_upd [OF wf _ rows]) (use ins(2) un in \<open>auto simp: tree_ok_def inserted_def s\<close>)
    moreover have "tree_short t \<and> length k \<le> 10 \<longrightarrow> tree_short ?t'"
      using ins(2) Some by (simp add: tree_short_def inserted_def)
    ultimately show ?thesis using res rows s by simp
  qed
qed

text \<open>What a removal with new row list \<open>w\<close> makes of the tree.\<close>

definition tree_removed :: "art_tree \<Rightarrow> bytes \<Rightarrow> row_id list \<Rightarrow> art_tree \<Rightarrow> bool" where
  "tree_removed t k w t' \<longleftrightarrow> at_index_type t' = at_index_type t \<and> (tree_short t \<longrightarrow> tree_short t')
     \<and> (tree_recoverable t' \<longrightarrow> tree_wf t' \<and> art_get_all t' = (art_get_all t)(k := w))"

lemma removed_tree:
  assumes wf: "tree_wf t" and root: "at_root t = Some n" and rem: "removed_ok [] n k w no"
    and t': "at_root t' = no" "at_index_type t' = at_index_type t"
    and sz: "at_size t' + word_of_nat (length (art_get_all t k)) = at_size t + word_of_nat (length w)"
    and un: "length w \<le> length (art_get_all t k)"
  shows "tree_removed t k w t'"
proof -
  have short: "tree_short t \<longrightarrow> tree_short t'"
    using rem t' root by (auto simp: tree_short_def removed_ok_def split: option.splits)
  have "tree_wf t' \<and> art_get_all t' = (art_get_all t)(k := w)" if "tree_recoverable t'"
  proof -
    have rows: "art_get_all t' = (art_get_all t)(k := w)"
      using rem that t' root by (auto simp: tree_recoverable_def removed_ok_def get_all_root split: option.splits)
    have "tree_ok t'"
      using rem that t' by (auto simp: tree_ok_def tree_recoverable_def removed_ok_def split: option.splits)
    then have "tree_wf t'"
      using un wf by (intro tree_wf_upd [OF wf _ rows t'(2) sz]) (auto simp: tree_wf_def intro: order_trans)
    with rows show ?thesis by simp
  qed
  with short t' show ?thesis by (simp add: tree_removed_def)
qed

lemma removed_nothing: "tree_wf t \<Longrightarrow> at_root t = None \<Longrightarrow> tree_removed t k [] (t\<lparr>at_stats := s\<rparr>)"
  by (auto simp: tree_removed_def tree_short_def tree_wf_def tree_ok_def get_all_root rows_total_def)

lemma art_remove_ok:
  assumes wf: "tree_wf t"
  shows "\<exists>t'. art_remove t k = (t', Inr (first_of (art_get_all t k))) \<and> tree_removed t k [] t'"
proof (cases "at_root t")
  case None
  then show ?thesis using removed_nothing [OF wf None, of k] by (simp add: art_remove_def Let_def get_all_root)
next
  case (Some n)
  let ?t = "(upd_stats (\<lambda>s. s\<lparr>st_delete_count := st_delete_count s + 1\<rparr>) t)\<lparr>at_root := None\<rparr>"
  have inv: "art_inv [] n" using wf Some by (simp add: tree_wf_def tree_ok_def)
  have rows: "art_get_all t k = view [] n k" using Some by (simp add: get_all_root)
  from remove_ok [OF inv, of ?t k] obtain self' no where
    r: "remove_recursive ?t n k 0 = (self', Inr (no, first_of (view [] n k)))" "removed_ok [] n k [] no"
      "size_frame ?t (length (view [] n k) - 1) self'" by auto
  obtain s where s: "self' = ?t\<lparr>at_size := at_size t - word_of_nat (length (view [] n k) - 1), at_stats := s\<rparr>"
    using r(3) by (auto simp: size_frame_def)
  define t' where "t' = fst (art_remove t k)"
  have t': "art_remove t k = (t', Inr (first_of (art_get_all t k)))" "at_root t' = no"
      "at_index_type t' = at_index_type t"
      "at_size t' = (if view [] n k = [] then at_size t
         else at_size t - word_of_nat (length (view [] n k) - 1) - 1)"
    using r(1) Some s by (cases "view [] n k"; simp add: t'_def art_remove_def Let_def rows reduce_size_def)+
  have "at_size t' + word_of_nat (length (art_get_all t k)) = at_size t + word_of_nat (length ([] :: row_id list))"
    using t'(4) rows by (cases "view [] n k") auto
  then show ?thesis using removed_tree [OF wf Some r(2) t'(2,3)] t'(1) by auto
qed

lemma length_swap_remove_value:
  "length (swap_remove_value v vs) = (if v \<in> set vs then length vs - 1 else length vs)"
  using position_None [of v vs] by (auto simp: swap_remove_value_def split: option.split)

lemma art_remove_value_ok:
  assumes wf: "tree_wf t"
  shows "\<exists>t'. art_remove_value t k v = (t', Inr (v \<in> set (art_get_all t k)))
    \<and> tree_removed t k (swap_remove_value v (art_get_all t k)) t'"
proof (cases "at_root t")
  case None
  then show ?thesis
    using removed_nothing [OF wf None, of k]
    by (simp add: art_remove_value_def Let_def get_all_root swap_remove_value_absent)
next
  case (Some n)
  let ?t = "(upd_stats (\<lambda>s. s\<lparr>st_delete_count := st_delete_count s + 1\<rparr>) t)\<lparr>at_root := None\<rparr>"
  have inv: "art_inv [] n" using wf Some by (simp add: tree_wf_def tree_ok_def)
  have rows: "art_get_all t k = view [] n k" using Some by (simp add: get_all_root)
  from remove_value_ok [OF inv, of ?t k v] obtain self' no where
    r: "remove_value_recursive ?t n k v 0 = (self', Inr (no, v \<in> set (view [] n k)))"
      "removed_ok [] n k (swap_remove_value v (view [] n k)) no" "size_frame ?t 0 self'" by auto
  obtain s where s: "self' = ?t\<lparr>at_stats := s\<rparr>" using r(3) by (auto simp: size_frame_def)
  define t' where "t' = fst (art_remove_value t k v)"
  have t': "art_remove_value t k v = (t', Inr (v \<in> set (art_get_all t k)))" "at_root t' = no"
      "at_index_type t' = at_index_type t"
      "at_size t' = (if v \<in> set (view [] n k) then at_size t - 1 else at_size t)"
    using r(1) Some s by (simp_all add: t'_def art_remove_value_def Let_def rows reduce_size_def)
  have "at_size t' + word_of_nat (length (art_get_all t k))
      = at_size t + word_of_nat (length (swap_remove_value v (art_get_all t k)))"
    using t'(4) rows by (cases "view [] n k") (auto simp: length_swap_remove_value)
  then show ?thesis
    using removed_tree [OF wf Some r(2) t'(2,3)] t'(1) rows by (auto simp: length_swap_remove_value)
qed

section \<open>Interpretations\<close>

lemma insert_kind: "at_index_type (fst (art_insert t k v)) = at_index_type t"
proof -
  have "at_index_type (fst (insert_recursive (count_insert t) k v 0)) = at_index_type t"
    using insert_frame [of "(count_insert t)\<lparr>at_root := None\<rparr>" _ k v 0]
    by (fastforce simp: insert_recursive_def split: option.split prod.split sum.split)
  then show ?thesis by (auto simp: art_insert_def Let_def split: option.split prod.split sum.split)
qed

interpretation tree_ins: insert_index tree_wf "\<lambda>k. length k < 2 ^ 32" at_index_type art_get_all art_get art_insert
proof
  fix t :: art_tree and k v
  show "art_get t k = first_of (art_get_all t k)" by (rule art_get_first)
  show "at_index_type (fst (art_insert t k v)) = at_index_type t" by (rule insert_kind)
  assume wf: "tree_wf t"
  have cnt: "art_get_all (count_insert t) = art_get_all t" by (rule get_all_cong) simp
  show "(\<exists>e. snd (art_insert t k v) = Inl e \<and> is_key_error e) \<and> tree_wf (fst (art_insert t k v))
      \<and> art_get_all (fst (art_insert t k v)) = art_get_all t"
    if "refused (at_index_type t) (art_get_all t) k"
    using wf cnt insert_refused [OF that, of v]
    by (auto simp: is_key_error_def tree_wf_def tree_ok_def)
  show "snd (art_insert t k v) = Inr () \<and> tree_wf (fst (art_insert t k v))
      \<and> art_get_all (fst (art_insert t k v)) = (art_get_all t)(k := art_get_all t k @ [v])"
    if "length k < 2 ^ 32" "\<not> refused (at_index_type t) (art_get_all t) k"
    using insert_accepted [OF wf that, of v] by auto
qed

text \<open>Trees whose compressed prefixes all fit into their headers.\<close>

definition short_tree :: "art_tree \<Rightarrow> bool" where
  "short_tree t \<longleftrightarrow> tree_wf t \<and> tree_short t"

lemma tree_short_recoverable: "tree_short t \<Longrightarrow> tree_recoverable t"
  by (auto simp: tree_short_def tree_recoverable_def short_recoverable split: option.splits)

lemma removed_short: "short_tree t \<Longrightarrow> tree_removed t k w t' \<Longrightarrow> short_tree t' \<and> art_get_all t' = (art_get_all t)(k := w)"
  by (auto simp: short_tree_def tree_removed_def tree_short_recoverable)

lemma remove_kind:
  "tree_wf t \<Longrightarrow> at_index_type (fst (art_remove t k)) = at_index_type t"
  "tree_wf t \<Longrightarrow> at_index_type (fst (art_remove_value t k v)) = at_index_type t"
  using art_remove_ok [of t k] art_remove_value_ok [of t k v] by (auto simp: tree_removed_def)

interpretation tree: row_index short_tree "\<lambda>k. length k \<le> 10" at_index_type art_get_all art_get art_insert
  art_remove art_remove_value
proof unfold_locales
  fix t :: art_tree and k v
  assume st: "short_tree t"
  then have wf: "tree_wf t" by (simp add: short_tree_def)
  show "(\<exists>e. snd (art_insert t k v) = Inl e \<and> is_key_error e) \<and> short_tree (fst (art_insert t k v))
      \<and> art_get_all (fst (art_insert t k v)) = art_get_all t"
    if "refused (at_index_type t) (art_get_all t) k"
    using st tree_ins.ins_refused [OF wf that, of v] insert_refused [OF that, of v]
    by (auto simp: short_tree_def tree_short_def)
  show "snd (art_insert t k v) = Inr () \<and> short_tree (fst (art_insert t k v))
      \<and> art_get_all (fst (art_insert t k v)) = (art_get_all t)(k := art_get_all t k @ [v])"
    if "length k \<le> 10" "\<not> refused (at_index_type t) (art_get_all t) k"
    using insert_accepted [OF wf _ that(2), of v] that(1) st by (auto simp: short_tree_def)
  show "snd (art_remove t k) = Inr (first_of (art_get_all t k)) \<and> short_tree (fst (art_remove t k))
      \<and> art_get_all (fst (art_remove t k)) = (art_get_all t)(k := [])"
    using art_remove_ok [OF wf, of k] removed_short [OF st] by auto
  show "snd (art_remove_value t k v) = Inr (v \<in> set (art_get_all t k)) \<and> short_tree (fst (art_remove_value t k v))
      \<and> art_get_all (fst (art_remove_value t k v)) = (art_get_all t)(k := swap_remove_value v (art_get_all t k))"
    using art_remove_value_ok [OF wf, of k v] removed_short [OF st] by auto
qed (auto simp: art_get_first insert_kind remove_kind short_tree_def)

section \<open>Properties\<close>

lemma new_tree [simp]: "tree_wf (art_new name table cols ty)" "tree_short (art_new name table cols ty)"
    "art_get_all (art_new name table cols ty) = (\<lambda>_. [])" "at_index_type (art_new name table cols ty) = ty"
  by (simp_all add: art_new_def tree_wf_def tree_ok_def tree_short_def get_all_root rows_total_def)

abbreviation art_step :: "art_tree \<Rightarrow> index_op \<Rightarrow> art_tree \<times> index_reply" where
  "art_step \<equiv> index_step art_insert art_remove art_remove_value"

text \<open>
  C1. Every sequence of insertions, removals and single-row removals on a freshly created
  index whose keys have at most ten bytes gives the replies and the lookups of the abstract
  index, on all four node sizes and through all splits, growths and shrinks.
\<close>

theorem art_run_refines:
  assumes "\<forall>op \<in> set ops. length (op_key op) \<le> 10"
  shows "run_steps (spec_step ty) (\<lambda>_. []) ops =
    (art_get_all (fst (run_steps art_step (art_new name table cols ty) ops)),
     snd (run_steps art_step (art_new name table cols ty) ops))"
  using tree.run_refines [of "art_new name table cols ty" ops] assms by (simp add: short_tree_def)

theorem art_run_refines_witness:
  "run_steps (spec_step Unique) (\<lambda>_. []) [OpInsert [1, 2] 7, OpInsert [1, 2] 8, OpInsert [1, 3] 9, OpRemove [1, 2]] =
    (art_get_all (fst (run_steps art_step (art_new ''i'' ''t'' [] Unique)
       [OpInsert [1, 2] 7, OpInsert [1, 2] 8, OpInsert [1, 3] 9, OpRemove [1, 2]])),
     snd (run_steps art_step (art_new ''i'' ''t'' [] Unique)
       [OpInsert [1, 2] 7, OpInsert [1, 2] 8, OpInsert [1, 3] 9, OpRemove [1, 2]]))
   \<and> snd (run_steps (spec_step Unique) (\<lambda>_. []) [OpInsert [1, 2] 7, OpInsert [1, 2] 8, OpInsert [1, 3] 9, OpRemove [1, 2]])
     = [Accepted, Refused, Accepted, RemovedKey (Some 7)]"
  by (rule conjI [OF art_run_refines]) (simp_all add: refused_def is_unique_type_def)

text \<open>
  Insertion into any well-formed index, for keys of any length below 2 to the 32: the
  call succeeds unless it must be refused, the new row id is appended to the rows of its key,
  every other key keeps its rows, and the tree stays well formed (with \<open>len()\<close> counting the
  stored row ids and a unique index holding one row id per key).
\<close>

theorem art_insert_correct:
  assumes "tree_wf t" "length k < 2 ^ 32"
  shows "if refused (at_index_type t) (art_get_all t) k
    then (\<exists>e. snd (art_insert t k v) = Inl e \<and> is_key_error e)
      \<and> tree_wf (fst (art_insert t k v)) \<and> art_get_all (fst (art_insert t k v)) = art_get_all t
    else snd (art_insert t k v) = Inr () \<and> tree_wf (fst (art_insert t k v))
      \<and> art_get_all (fst (art_insert t k v)) = (art_get_all t)(k := art_get_all t k @ [v])"
  using assms tree_ins.ins_refused [of t k v] tree_ins.ins_ok [of t k v] by simp

theorem art_insert_correct_witness:
  "tree_wf (fst (art_insert (art_new ''i'' ''t'' [] Manual) (replicate 300 7) 1))
   \<and> art_get_all (fst (art_insert (art_new ''i'' ''t'' [] Manual) (replicate 300 7) 1))
     = (\<lambda>_. [])(replicate 300 7 := [1])"
  using art_insert_correct [of "art_new ''i'' ''t'' [] Manual" "replicate 300 7" 1]
  by (simp add: refused_def is_unique_type_def)

text \<open>
  Removing a key returns its first row id and never fails; whenever the remaining tree is
  recoverable, the key has no rows, all other keys keep theirs and the tree is well formed.
\<close>

theorem art_remove_correct:
  assumes "tree_wf t"
  shows "snd (art_remove t k) = Inr (art_get t k)
    \<and> (tree_recoverable (fst (art_remove t k)) \<longrightarrow> tree_wf (fst (art_remove t k))
       \<and> art_get_all (fst (art_remove t k)) = (art_get_all t)(k := []))"
  using art_remove_ok [OF assms, of k] by (auto simp: tree_removed_def art_get_first)

theorem art_remove_correct_witness:
  "snd (art_remove (fst (art_insert (art_new ''i'' ''t'' [] Manual) [5] 1)) [5]) = Inr (Some 1)
   \<and> art_get_all (fst (art_remove (fst (art_insert (art_new ''i'' ''t'' [] Manual) [5] 1)) [5])) [5] = []"
proof -
  let ?t = "fst (art_insert (art_new ''i'' ''t'' [] Manual) [5] 1)"
  have wf: "tree_wf ?t" by (rule tree_ins.ins_keeps_ok) simp_all
  have "tree_recoverable (fst (art_remove ?t [5]))" "art_get ?t [5] = Some 1" by code_simp+
  then show ?thesis using art_remove_correct [OF wf, of "[5]"] by simp
qed

text \<open>
  Removing one row id of a key reports whether it was there, and in a recoverable result
  the rows of that key lose one occurrence of it while all other keys are untouched.
\<close>

theorem art_remove_value_correct:
  assumes "tree_wf t"
  shows "snd (art_remove_value t k v) = Inr (v \<in> set (art_get_all t k))
    \<and> (tree_recoverable (fst (art_remove_value t k v)) \<longrightarrow> tree_wf (fst (art_remove_value t k v))
       \<and> mset (art_get_all (fst (art_remove_value t k v)) k) = mset (art_get_all t k) - {#v#}
       \<and> (\<forall>j. j \<noteq> k \<longrightarrow> art_get_all (fst (art_remove_value t k v)) j = art_get_all t j))"
  using art_remove_value_ok [OF assms, of k v]
  by (auto simp: tree_removed_def mset_swap_remove_value)

theorem art_remove_value_correct_witness:
  "snd (art_remove_value (fst (art_insert (art_new ''i'' ''t'' [] Manual) [5] 1)) [5] 1) = Inr True
   \<and> mset (art_get_all (fst (art_remove_value (fst (art_insert (art_new ''i'' ''t'' [] Manual) [5] 1)) [5] 1)) [5]) = {#}"
proof -
  let ?t = "fst (art_insert (art_new ''i'' ''t'' [] Manual) [5] 1)"
  have wf: "tree_wf ?t" by (rule tree_ins.ins_keeps_ok) simp_all
  have "tree_recoverable (fst (art_remove_value ?t [5] 1))" "art_get_all ?t [5] = [1]" by code_simp+
  then show ?thesis using art_remove_value_correct [OF wf, of "[5]" 1] by simp
qed

text \<open>
  After any sequence of operations on keys of at most ten bytes, \<open>len()\<close> is the number
  of row ids stored (modulo the word size) and a unique or primary-key index holds at most one
  row id per key.
\<close>

theorem art_run_invariant:
  assumes "\<forall>op \<in> set ops. length (op_key op) \<le> 10" "t = fst (run_steps art_step (art_new name table cols ty) ops)"
  shows "at_size t = word_of_nat (rows_total (art_get_all t))
    \<and> finite {k. art_get_all t k \<noteq> []} \<and> (is_unique_type ty \<longrightarrow> (\<forall>k. length (art_get_all t k) \<le> 1))"
proof -
  have "short_tree t" "at_index_type t = ty"
    using tree.run_refines [of "art_new name table cols ty" ops] assms by (simp_all add: short_tree_def)
  then show ?thesis by (simp add: short_tree_def tree_wf_def)
qed

theorem art_run_invariant_witness:
  "length (art_get_all (fst (run_steps art_step (art_new ''i'' ''t'' [] PrimaryKey) [OpInsert [1] 5, OpInsert [1] 6])) [1]) \<le> 1"
  using art_run_invariant [of "[OpInsert [1] 5, OpInsert [1] 6]" _ "''i''" "''t''" "[]" PrimaryKey]
  by (simp add: is_unique_type_def)

text \<open>Two keys that share twelve bytes, and a third one inserted after both were removed.\<close>

definition long_key :: "u8 \<Rightarrow> bytes" where
  "long_key i = replicate 12 97 @ [i]"

definition loss_ops :: "index_op list" where
  "loss_ops = [OpInsert [98] 1, OpInsert (long_key 1) 2, OpInsert (long_key 2) 3,
     OpRemove (long_key 1), OpRemove (long_key 2), OpInsert (long_key 3) 4]"

text \<open>
  The bound on compressed prefixes is needed: with keys that share more than ten bytes,
  removing the last leaf below an inner node makes a later insertion fail internally, and the
  failing call leaves the index without its root, so an unrelated key is lost.
\<close>

theorem art_hidden_prefix_loss:
  "snd (run_steps art_step (art_new ''i'' ''t'' [] Manual) loss_ops)
     = [Accepted, Accepted, Accepted, RemovedKey (Some 2), RemovedKey (Some 3), Failed]
   \<and> art_get (fst (run_steps art_step (art_new ''i'' ''t'' [] Manual) (take 5 loss_ops))) [98] = Some 1
   \<and> art_get (fst (run_steps art_step (art_new ''i'' ''t'' [] Manual) loss_ops)) [98] = None"
  by code_simp

end
