(* ===== verification/Art_Scan.thy ===== *)
theory Art_Scan
  imports Art_Spec "HOL-Library.List_Lexorder"
begin

text \<open>
  Ordered traversal of the radix tree: the iterator \<open>ArtIterator\<close> with its stack and queue
  of pending values, and \<open>range_scan\<close>, a bounded depth-first walk that prunes subtrees which
  cannot meet the bounds. Both are shown to produce what the recursive listing \<open>entries\<close>
  contains; for trees whose compressed prefixes fit into their headers that listing is the
  content of the index in ascending key order. Keys are compared bytewise, the order of
  \<open>List_Lexorder\<close>.
\<close>

section \<open>The iterator\<close>

type_synonym visit_stack = "(art_node \<times> bytes) list"

record art_iterator =
  ai_stack :: visit_stack
  ai_pending :: "(bytes \<times> row_id) list"

definition iterator_new :: "art_tree \<Rightarrow> art_iterator" where
  "iterator_new t = \<lparr>ai_stack = (case at_root t of Some root \<Rightarrow> [(root, [])] | None \<Rightarrow> []), ai_pending = []\<rparr>"

text \<open>
  The children an arm of \<open>next\<close> pushes, first to be visited first: \<open>Node4\<close> and
  \<open>Node16\<close> are sorted by key byte, the other two enumerate in byte order.
\<close>

definition ordered_children :: "art_node \<Rightarrow> (u8 \<times> art_node) list" where
  "ordered_children node = (case node of
       Node4 n \<Rightarrow> sort_key fst (node4_iter_children n)
     | Node16 n \<Rightarrow> sort_key fst (node16_iter_children n)
     | Node48 n \<Rightarrow> node48_iter_children n
     | Node256 n \<Rightarrow> node256_iter_children n
     | Leaf _ \<Rightarrow> [])"

definition push_children :: "bytes \<Rightarrow> (u8 \<times> art_node) list \<Rightarrow> visit_stack" where
  "push_children node_key children = map (\<lambda>(b, child). (child, node_key @ [b])) children"

lemma ordered_children_mem: "p \<in> set (ordered_children n) \<longleftrightarrow> p \<in> set (iter_children n)"
  by (simp add: ordered_children_def iter_children_def split: art_node.split)

definition stack_order :: "(visit_stack \<times> visit_stack) set" where
  "stack_order = inv_image (mult less_than) (\<lambda>st. mset (map (\<lambda>p. size (fst p)) st))"

lemma wf_stack_order [simp]: "wf stack_order"
  by (simp add: stack_order_def wf_mult)

lemma stack_order_pop:
  assumes "\<forall>q \<in> set new. size (fst q) < size n"
  shows "(new @ st, (n, k) # st) \<in> stack_order"
proof -
  have "(mset (map (\<lambda>p. size (fst p)) st) + mset (map (\<lambda>p. size (fst p)) new),
      mset (map (\<lambda>p. size (fst p)) st) + {#size n#}) \<in> mult less_than"
    by (rule one_step_implies_mult) (use assms in auto)
  then show ?thesis by (simp add: stack_order_def union_commute)
qed

lemma push_children_size:
  "q \<in> set (push_children k (ordered_children n)) \<Longrightarrow> size (fst q) < size n"
  by (auto simp: push_children_def ordered_children_mem dest: iter_children_size)

lemma pop_leaf_order: "(st, (n, k) # st) \<in> stack_order"
  using stack_order_pop [of "[]" n st k] by simp

function next_loop :: "visit_stack \<Rightarrow> ((bytes \<times> row_id) \<times> art_iterator) option" where
  "next_loop [] = None"
| "next_loop ((node, key_prefix) # stack) = (case node of
       Leaf leaf \<Rightarrow>
         if values_count leaf = 1 then
           Some ((lf_key leaf, leaf_value leaf), \<lparr>ai_stack = stack, ai_pending = []\<rparr>)
         else (case map (Pair (lf_key leaf)) (all_values leaf) of
             item # pending \<Rightarrow> Some (item, \<lparr>ai_stack = stack, ai_pending = pending\<rparr>)
           | [] \<Rightarrow> next_loop stack)
     | _ \<Rightarrow>
         let node_key = key_prefix @ get_prefix (art_header node);
             stack' = push_children node_key (ordered_children node) @ stack
         in (case map (Pair node_key) (nh_values (art_header node)) of
               item # pending \<Rightarrow> Some (item, \<lparr>ai_stack = stack', ai_pending = pending\<rparr>)
             | [] \<Rightarrow> next_loop stack'))"
  by pat_completeness auto
termination
  by (relation stack_order) (auto intro!: stack_order_pop pop_leaf_order dest: push_children_size)

declare next_loop.simps(2) [simp del]

definition iterator_next :: "art_iterator \<Rightarrow> ((bytes \<times> row_id) \<times> art_iterator) option" where
  "iterator_next it = (case ai_pending it of
       item # pending \<Rightarrow> Some (item, it\<lparr>ai_pending := pending\<rparr>)
     | [] \<Rightarrow> next_loop (ai_stack it))"

text \<open>The recursive listing of a subtree, with the key bytes the code reconstructs.\<close>

function entries :: "bytes \<Rightarrow> art_node \<Rightarrow> (bytes \<times> row_id) list" where
  "entries k node = (case node of
       Leaf leaf \<Rightarrow> map (Pair (lf_key leaf)) (all_values leaf)
     | _ \<Rightarrow> let node_key = k @ get_prefix (art_header node) in
         map (Pair node_key) (nh_values (art_header node))
         @ concat (map (\<lambda>p. entries (node_key @ [fst p]) (snd p)) (ordered_children node)))"
  by pat_completeness auto
termination
  by (relation "measure (\<lambda>(_, n). size n)") (auto simp: ordered_children_mem dest: iter_children_size)

declare entries.simps [simp del]

definition stack_entries :: "visit_stack \<Rightarrow> (bytes \<times> row_id) list" where
  "stack_entries st = concat (map (\<lambda>(n, k). entries k n) st)"

lemma stack_entries_simps [simp]:
  "stack_entries [] = []" "stack_entries ((n, k) # st) = entries k n @ stack_entries st"
  "stack_entries (st @ st') = stack_entries st @ stack_entries st'"
  by (simp_all add: stack_entries_def)

lemma entries_leaf [simp]: "entries k (Leaf l) = map (Pair (lf_key l)) (all_values l)"
  by (simp add: entries.simps)

lemma entries_inner:
  assumes "\<not> is_leaf n"
  shows "entries k n = map (Pair (k @ get_prefix (art_header n))) (nh_values (art_header n))
     @ stack_entries (push_children (k @ get_prefix (art_header n)) (ordered_children n))"
  unfolding entries.simps [of k n] inner_case [OF assms] Let_def stack_entries_def push_children_def
  by (simp add: comp_def case_prod_unfold)

definition iterator_entries :: "art_iterator \<Rightarrow> (bytes \<times> row_id) list" where
  "iterator_entries it = ai_pending it @ stack_entries (ai_stack it)"

lemma next_loop_entries:
  "case next_loop st of None \<Rightarrow> stack_entries st = []
   | Some (item, it) \<Rightarrow> stack_entries st = item # iterator_entries it"
proof (induction st rule: wf_induct_rule [OF wf_stack_order])
  case (1 st)
  show ?case
  proof (cases st)
    case (Cons p stack)
    obtain n k where p: "p = (n, k)" by force
    show ?thesis
    proof (cases "is_leaf n")
      case True
      then obtain l where "n = Leaf l" by (cases n) (auto simp: is_leaf_def)
      then show ?thesis
        by (auto simp: Cons p next_loop.simps iterator_entries_def values_count_def leaf_value_def all_values_def)
    next
      case False
      let ?st = "push_children (k @ get_prefix (art_header n)) (ordered_children n) @ stack"
      have "(?st, st) \<in> stack_order"
        unfolding Cons p by (rule stack_order_pop) (auto dest: push_children_size)
      from 1 [OF this] show ?thesis
        unfolding Cons p next_loop.simps(2) inner_case [OF False] Let_def
        by (cases "nh_values (art_header n)") (auto simp: entries_inner [OF False] iterator_entries_def split: option.splits)
    qed
  qed simp
qed

lemma iterator_next_entries:
  "case iterator_next it of None \<Rightarrow> iterator_entries it = []
   | Some (item, it') \<Rightarrow> iterator_entries it = item # iterator_entries it'"
  using next_loop_entries [of "ai_stack it"]
  by (auto simp: iterator_next_def iterator_entries_def split: list.splits option.splits)

lemma stack_order_trans: "(a, b) \<in> stack_order \<Longrightarrow> (b, c) \<in> stack_order \<Longrightarrow> (a, c) \<in> stack_order"
  unfolding stack_order_def mult_def by (auto intro: trancl_trans)

lemma next_loop_order: "next_loop st = Some (item, it) \<Longrightarrow> (ai_stack it, st) \<in> stack_order"
proof (induction st arbitrary: item it rule: wf_induct_rule [OF wf_stack_order])
  case (1 st)
  obtain n k stack where st: "st = (n, k) # stack" using 1 by (cases st) auto
  let ?st = "push_children (k @ get_prefix (art_header n)) (ordered_children n) @ stack"
  have less: "(stack, st) \<in> stack_order" "(?st, st) \<in> stack_order"
    unfolding st by (auto intro!: pop_leaf_order stack_order_pop dest: push_children_size)
  note ih = 1(1) [OF less(1)] 1(1) [OF less(2)]
  show ?case
  proof (cases "is_leaf n")
    case True
    then show ?thesis
      using 1(2) less ih stack_order_trans
      by (cases n) (auto simp: st next_loop.simps is_leaf_def all_values_def split: if_splits)
  next
    case False
    then show ?thesis
      using 1(2) less(2) ih(2) stack_order_trans [OF _ less(2)]
      unfolding st next_loop.simps(2) inner_case [OF False] Let_def
      by (cases "nh_values (art_header n)") auto
  qed
qed

text \<open>Calling \<open>next\<close> until it returns \<open>None\<close>, as a \<open>for\<close> loop over the iterator does.\<close>

function iterator_collect :: "art_iterator \<Rightarrow> (bytes \<times> row_id) list" where
  "iterator_collect it = (case iterator_next it of None \<Rightarrow> []
     | Some (item, it') \<Rightarrow> item # iterator_collect it')"
  by pat_completeness auto
termination
  by (relation "inv_image (stack_order <*lex*> less_than) (\<lambda>it. (ai_stack it, length (ai_pending it)))")
     (auto simp: iterator_next_def split: list.splits dest: next_loop_order)

declare iterator_collect.simps [simp del]

lemma iterator_collect_entries: "iterator_collect it = iterator_entries it"
proof (induction it rule: iterator_collect.induct)
  case (1 it)
  then show ?case
    using iterator_next_entries [of it] by (subst iterator_collect.simps) (auto split: option.splits)
qed

section \<open>The listing is the ordered content\<close>

lemma append_lex [simp]: "(q @ x \<le> q @ y) = (x \<le> y)" "(q @ x < q @ y) = (x < y)" for x y :: bytes
  by (induction q) auto

lemma prefix_le: "prefix x y \<Longrightarrow> x \<le> y" for x y :: bytes
  using append_lex(1) [of x "[]"] by (auto simp: prefix_def)

lemma branch_less: "b < b' \<Longrightarrow> prefix (q @ [b]) x \<Longrightarrow> prefix (q @ [b']) y \<Longrightarrow> x < y" for x y :: bytes
  by (auto simp: prefix_def)

lemma ordered_children_sorted:
  assumes "node_ok n"
  shows "sorted_wrt (<) (map fst (ordered_children n))"
proof (cases n)
  case (Node48 m)
  then show ?thesis by (simp add: ordered_children_def node48_iter_pairs byte_pairs_keys)
next
  case (Node256 m)
  then show ?thesis by (simp add: ordered_children_def node256_iter_pairs byte_pairs_keys)
qed (use iter_children_distinct [OF assms] in
    \<open>auto simp: ordered_children_def iter_children_def strict_sorted_iff distinct_map\<close>)

lemma ordered_children_distinct: "node_ok n \<Longrightarrow> distinct (map fst (ordered_children n))"
  using ordered_children_sorted by (simp add: strict_sorted_iff)

lemma ordered_children_get:
  assumes "node_ok n"
  shows "map_of (ordered_children n) = get_child n"
proof -
  have "set (ordered_children n) = set (iter_children n)" by (auto simp: ordered_children_mem)
  then have "map_of (ordered_children n) = map_of (iter_children n)"
    using map_of_inject_set [OF ordered_children_distinct iter_children_distinct] assms by blast
  then show ?thesis using iter_children_get [OF assms] by simp
qed

lemma concat_map_single:
  assumes "distinct (map fst cs)" "\<And>b c. (b, c) \<in> set cs \<Longrightarrow> b \<noteq> x \<Longrightarrow> f b c = []"
  shows "concat (map (\<lambda>p. f (fst p) (snd p)) cs) = (case map_of cs x of None \<Rightarrow> [] | Some c \<Rightarrow> f x c)"
  using assms
proof (induction cs)
  case (Cons p cs)
  obtain b c where p: "p = (b, c)" by force
  have rest: "concat (map (\<lambda>p. f (fst p) (snd p)) cs) = (case map_of cs x of None \<Rightarrow> [] | Some c \<Rightarrow> f x c)"
    using Cons by simp
  show ?case
  proof (cases "b = x")
    case True
    then have "map_of cs x = None" using Cons.prems(1) p by (simp add: map_of_eq_None_iff)
    then show ?thesis using rest True p by simp
  next
    case False
    then show ?thesis using rest Cons.prems(2) [of b c] p by simp
  qed
qed simp

text \<open>An inner node whose compressed prefix is stored completely.\<close>

lemma entries_short_inner:
  assumes "inner_inv acc p n" "short_prefixes n"
  shows "entries acc n = map (Pair (acc @ p)) (nh_values (art_header n))
    @ concat (map (\<lambda>q. entries (acc @ p @ [fst q]) (snd q)) (ordered_children n))"
    "\<And>b c. (b, c) \<in> set (ordered_children n) \<Longrightarrow> art_inv (acc @ p @ [b]) c \<and> short_prefixes c \<and> size c < size n"
proof -
  have n: "\<not> is_leaf n" "node_ok n" "nh_prefix_len (art_header n) = length p" "get_prefix (art_header n) = take 10 p"
    using assms by (auto simp: inner_inv_def)
  have p: "get_prefix (art_header n) = p" using n assms(2) inner_short [OF n(2,1)] by simp
  show "entries acc n = map (Pair (acc @ p)) (nh_values (art_header n))
    @ concat (map (\<lambda>q. entries (acc @ p @ [fst q]) (snd q)) (ordered_children n))"
    unfolding entries.simps [of acc n] inner_case [OF n(1)] Let_def p by simp
  show "art_inv (acc @ p @ [b]) c \<and> short_prefixes c \<and> size c < size n" if "(b, c) \<in> set (ordered_children n)" for b c
    using that assms inner_short [OF n(2,1)] iter_children_set [OF n(2), of b c] iter_children_size(1) [of b c n]
    by (auto simp: ordered_children_mem inner_inv_def)
qed

lemma entries_prefix:
  "art_inv acc n \<Longrightarrow> short_prefixes n \<Longrightarrow> (k, v) \<in> set (entries acc n) \<Longrightarrow> prefix acc k"
proof (induction n arbitrary: acc rule: measure_induct_rule [of size])
  case (less n)
  from less.prems(1) show ?case
  proof (cases rule: art_inv_cases)
    case (inner p)
    note e = entries_short_inner [OF inner less.prems(2)]
    from less.prems(3) consider "k = acc @ p"
      | b c where "(b, c) \<in> set (ordered_children n)" "(k, v) \<in> set (entries (acc @ p @ [b]) c)"
      unfolding e(1) by auto
    then show ?thesis
    proof cases
      case 2
      then have "prefix (acc @ p @ [b]) k" using less.IH [of c "acc @ p @ [b]"] e(2) by blast
      then show ?thesis by (auto simp: prefix_def)
    qed simp
  qed (use less.prems in auto)
qed

lemma entries_prefix_inner:
  assumes "inner_inv acc p n" "short_prefixes n" "(k, v) \<in> set (entries acc n)"
  shows "prefix (acc @ p) k"
proof -
  note e = entries_short_inner [OF assms(1,2)]
  have "prefix (acc @ p) k" if "(b, c) \<in> set (ordered_children n)" "(k, v) \<in> set (entries (acc @ p @ [b]) c)" for b c
    using entries_prefix [of "acc @ p @ [b]" c k v] e(2) [OF that(1)] that(2) by (auto simp: prefix_def)
  then show ?thesis using assms(3) unfolding e(1) by auto
qed

definition rows_at :: "bytes \<Rightarrow> (bytes \<times> row_id) list \<Rightarrow> row_id list" where
  "rows_at k es = map snd (filter (\<lambda>p. fst p = k) es)"

lemma rows_at_simps [simp]:
  "rows_at k [] = []" "rows_at k (xs @ ys) = rows_at k xs @ rows_at k ys"
  "rows_at k (map (Pair k') vs) = (if k = k' then vs else [])"
  "rows_at k (concat xss) = concat (map (rows_at k) xss)"
  by (auto simp: rows_at_def [abs_def] filter_map comp_def filter_concat map_concat)

lemma rows_at_none: "(\<And>v. (k, v) \<notin> set es) \<Longrightarrow> rows_at k es = []"
  by (auto simp: rows_at_def filter_empty_conv)

lemma entries_view:
  "art_inv acc n \<Longrightarrow> short_prefixes n \<Longrightarrow> rows_at (acc @ k) (entries acc n) = view acc n k"
proof (induction n arbitrary: acc k rule: measure_induct_rule [of size])
  case (less n)
  from less.prems(1) show ?case
  proof (cases rule: art_inv_cases)
    case (leaf l)
    then show ?thesis by (auto simp: view_leaf)
  next
    case (inner p)
    have n: "node_ok n" using inner by (simp add: inner_inv_def)
    note e = entries_short_inner [OF inner less.prems(2)]
    let ?f = "\<lambda>b c. rows_at (acc @ k) (entries (acc @ p @ [b]) c)"
    have off: "?f b c = []" if "(b, c) \<in> set (ordered_children n)" "\<not> prefix (p @ [b]) k" for b c
      using entries_prefix [of "acc @ p @ [b]" c "acc @ k"] e(2) [OF that(1)] that(2) by (auto intro!: rows_at_none)
    have ent: "rows_at (acc @ k) (entries acc n) = (if k = p then nh_values (art_header n) else [])
        @ concat (map (\<lambda>q. ?f (fst q) (snd q)) (ordered_children n))"
      unfolding e(1) by (simp add: comp_def)
    show ?thesis
      unfolding ent view_inner_view [OF inner]
    proof (rule inner_viewE [of k p acc "nh_values (art_header n)" "get_child n"])
      fix b k'
      assume k: "k = p @ b # k'" and v: "inner_view acc p (nh_values (art_header n)) (get_child n) k =
         (case get_child n b of None \<Rightarrow> [] | Some c \<Rightarrow> view (acc @ p @ [b]) c k')"
      have "concat (map (\<lambda>q. ?f (fst q) (snd q)) (ordered_children n))
          = (case get_child n b of None \<Rightarrow> [] | Some c \<Rightarrow> ?f b c)"
        using concat_map_single [OF ordered_children_distinct [OF n], of b ?f] off
        by (auto simp: ordered_children_get [OF n] k)
      moreover have "?f b c = view (acc @ p @ [b]) c k'" if "get_child n b = Some c" for c
        using less.IH [of c "acc @ p @ [b]" k'] e(2) [of b c] that map_of_SomeD [of "ordered_children n" b c]
        by (auto simp: k ordered_children_get [OF n])
      ultimately show "(if k = p then nh_values (art_header n) else [])
        @ concat (map (\<lambda>q. ?f (fst q) (snd q)) (ordered_children n)) = inner_view acc p (nh_values (art_header n)) (get_child n) k"
        unfolding v by (auto simp: k split: option.split)
    qed (use off in \<open>auto simp: prefix_def\<close>)
  qed
qed

lemma sorted_concat_blocks:
  assumes "sorted_wrt (<) (map fst cs)" "\<And>b c. (b, c) \<in> set cs \<Longrightarrow> sorted (map fst (f b c))"
    and "\<And>b c k v. (b, c) \<in> set cs \<Longrightarrow> (k, v) \<in> set (f b c) \<Longrightarrow> prefix (q @ [b]) k"
  shows "sorted (map fst (concat (map (\<lambda>p. f (fst p) (snd p)) cs) :: (bytes \<times> row_id) list))"
  using assms
proof (induction cs)
  case (Cons p cs)
  have "k \<le> k'" if "(k, v) \<in> set (f (fst p) (snd p))" "(b, c) \<in> set cs" "(k', v') \<in> set (f b c)" for k v b c k' v'
  proof -
    have "fst p < b" using Cons.prems(1) that(2) by (force simp: image_iff)
    then show ?thesis
      using branch_less [of "fst p" b q k k'] Cons.prems(3) [of "fst p" "snd p"] Cons.prems(3) [of b c] that by force
  qed
  moreover have "sorted (map fst (concat (map (\<lambda>p. f (fst p) (snd p)) cs)))"
    by (rule Cons.IH) (use Cons.prems in \<open>simp, (simp; fail), meson list.set_intros(2)\<close>)
  moreover have "sorted (map fst (f (fst p) (snd p)))" using Cons.prems(2) by simp
  ultimately show ?case by (auto simp: sorted_append)
qed simp

lemma entries_sorted:
  "art_inv acc n \<Longrightarrow> short_prefixes n \<Longrightarrow> sorted (map fst (entries acc n))"
proof (induction n arbitrary: acc rule: measure_induct_rule [of size])
  case (less n)
  from less.prems(1) show ?case
  proof (cases rule: art_inv_cases)
    case (leaf l)
    then show ?thesis by (simp add: comp_def sorted_replicate map_replicate_const)
  next
    case (inner p)
    have n: "node_ok n" using inner by (simp add: inner_inv_def)
    note e = entries_short_inner [OF inner less.prems(2)]
    have pre: "prefix ((acc @ p) @ [b]) k" if "(b, c) \<in> set (ordered_children n)" "(k, v) \<in> set (entries (acc @ p @ [b]) c)" for b c k v
      using entries_prefix e(2) [OF that(1)] that(2) by fastforce
    have "sorted (map fst (concat (map (\<lambda>q. entries (acc @ p @ [fst q]) (snd q)) (ordered_children n))))"
      using sorted_concat_blocks [OF ordered_children_sorted [OF n], of "\<lambda>b c. entries (acc @ p @ [b]) c" "acc @ p"]
        less.IH e(2) pre by blast
    moreover have "acc @ p \<le> k" if "(b, c) \<in> set (ordered_children n)" "(k, v) \<in> set (entries (acc @ p @ [b]) c)" for b c k v
      using pre [OF that] append_prefixD prefix_le by blast
    ultimately show ?thesis
      unfolding e(1) by (auto simp: sorted_append comp_def sorted_replicate map_replicate_const)
  qed
qed

section \<open>Range scan\<close>

type_synonym key_bound = "(bytes \<times> bool) option"

definition key_in_range :: "bytes \<Rightarrow> key_bound \<Rightarrow> key_bound \<Rightarrow> bool" where
  "key_in_range key lower upper \<longleftrightarrow>
     (case lower of None \<Rightarrow> True | Some (bound, inclusive) \<Rightarrow> \<not> key < bound \<and> (key = bound \<longrightarrow> inclusive))
   \<and> (case upper of None \<Rightarrow> True | Some (bound, inclusive) \<Rightarrow> \<not> bound < key \<and> (key = bound \<longrightarrow> inclusive))"

definition prefix_may_intersect :: "bytes \<Rightarrow> key_bound \<Rightarrow> key_bound \<Rightarrow> bool" where
  "prefix_may_intersect pre lower upper \<longleftrightarrow>
     (case lower of None \<Rightarrow> True | Some (bound, _) \<Rightarrow>
        let m = min (length pre) (length bound) in \<not> take m pre < take m bound)
   \<and> (case upper of None \<Rightarrow> True | Some (bound, inclusive) \<Rightarrow>
        let m = min (length pre) (length bound) in
        if take m bound < take m pre then False
        else if take m pre = take m bound
          then \<not> (length pre > length bound \<or> length pre = length bound \<and> \<not> inclusive)
        else True)"

lemma take_less: "take m x < take m y \<Longrightarrow> x < y" for x y :: bytes
proof (induction m arbitrary: x y)
  case (Suc m)
  then show ?case by (cases x; cases y) auto
qed simp

lemma prefix_take_less:
  fixes k :: bytes
  assumes "take m p < take m b" "prefix p k" "m \<le> length p"
  shows "k < b"
  using assms take_less [of m k b] by (auto simp: prefix_def)

lemma upper_test:
  "\<not> X \<Longrightarrow> (Y \<Longrightarrow> a \<le> b \<and> (a = b \<longrightarrow> i)) \<Longrightarrow>
     if X then False else if Y then \<not> ((b::nat) < a \<or> a = b \<and> \<not> i) else True"
  by auto

text \<open>Pruning is safe: no key below a pruned prefix is in range.\<close>

lemma prefix_may_intersect_sound:
  assumes "prefix p k" "key_in_range k lower upper"
  shows "prefix_may_intersect p lower upper"
proof -
  have lo: "\<not> take (min (length p) (length b)) p < take (min (length p) (length b)) b" if "lower = Some (b, i)" for b i
    using prefix_take_less [of "min (length p) (length b)" p b k] assms that by (auto simp: key_in_range_def)
  have up: "\<not> take (min (length p) (length b)) b < take (min (length p) (length b)) p" if "upper = Some (b, i)" for b i
  proof
    assume "take (min (length p) (length b)) b < take (min (length p) (length b)) p"
    then have "take (min (length p) (length b)) b < take (min (length p) (length b)) k"
      using assms(1) by (auto simp: prefix_def)
    from take_less [OF this] show False using assms(2) that by (simp add: key_in_range_def)
  qed
  have eq: "length p \<le> length b \<and> (length p = length b \<longrightarrow> i)"
    if "upper = Some (b, i)" "take (min (length p) (length b)) p = take (min (length p) (length b)) b" for b i
  proof (rule ccontr)
    assume neg: "\<not> (length p \<le> length b \<and> (length p = length b \<longrightarrow> i))"
    then have "length b \<le> length p" by auto
    then have "take (length b) p = b" using that(2) by (simp add: min_absorb2)
    then have "prefix b p" by (metis take_is_prefix)
    then have "prefix b k" using assms(1) by auto
    then have "b \<le> k" by (rule prefix_le)
    then have "k = b" "i" using assms(2) that(1) by (auto simp: key_in_range_def)
    then have "length p \<le> length b" using assms(1) prefix_length_le by blast
    then show False using neg \<open>i\<close> by simp
  qed
  show ?thesis
    unfolding prefix_may_intersect_def Let_def
  proof (rule conjI)
    show "case lower of None \<Rightarrow> True | Some (bound, _) \<Rightarrow>
        \<not> take (min (length p) (length bound)) p < take (min (length p) (length bound)) bound"
      using lo by (cases lower) auto
    show "case upper of None \<Rightarrow> True | Some (bound, inclusive) \<Rightarrow>
        if take (min (length p) (length bound)) bound < take (min (length p) (length bound)) p then False
        else if take (min (length p) (length bound)) p = take (min (length p) (length bound)) bound
          then \<not> (length p > length bound \<or> length p = length bound \<and> \<not> inclusive)
        else True"
    proof (cases upper)
      case (Some bi)
      obtain b i where "bi = (b, i)" by force
      then have u: "upper = Some (b, i)" using Some by simp
      show ?thesis
        unfolding u option.case prod.case by (rule upper_test [OF up [OF u]]) (rule eq [OF u])
    qed simp
  qed
qed

text \<open>The values of one node that are pushed before the cap is reached.\<close>

definition push_capped :: "nat option \<Rightarrow> (bytes \<times> row_id) list \<Rightarrow> (bytes \<times> row_id) list \<Rightarrow> (bytes \<times> row_id) list" where
  "push_capped cap out items = (case cap of None \<Rightarrow> out @ items
     | Some c \<Rightarrow> out @ take (max 1 (c - length out)) items)"

definition cap_reached :: "nat option \<Rightarrow> (bytes \<times> row_id) list \<Rightarrow> bool" where
  "cap_reached cap out = (case cap of None \<Rightarrow> False | Some c \<Rightarrow> length out \<ge> c)"

lemma push_filter_size:
  "q \<in> set (push_children k (filter p (sort_key fst (iter_children n)))) \<Longrightarrow> size (fst q) < size n"
  by (auto simp: push_children_def dest: iter_children_size)

function range_loop ::
  "key_bound \<Rightarrow> key_bound \<Rightarrow> nat option \<Rightarrow> visit_stack \<Rightarrow> (bytes \<times> row_id) list \<Rightarrow> (bytes \<times> row_id) list" where
  "range_loop lower upper cap [] out = out"
| "range_loop lower upper cap ((node, key_prefix) # stack) out =
     (if cap_reached cap out then out
      else case node of
        Leaf leaf \<Rightarrow> range_loop lower upper cap stack
          (if key_in_range (lf_key leaf) lower upper
           then push_capped cap out (map (Pair (lf_key leaf)) (all_values leaf)) else out)
      | _ \<Rightarrow>
          let header = art_header node;
              node_key = key_prefix @ get_prefix header
          in if \<not> prefix_may_intersect node_key lower upper then range_loop lower upper cap stack out
             else
               let out' = (if nh_values header \<noteq> [] \<and> key_in_range node_key lower upper
                     then push_capped cap out (map (Pair node_key) (nh_values header)) else out);
                   children = sort_key fst (iter_children node)
               in range_loop lower upper cap
                    (push_children node_key
                       (filter (\<lambda>p. prefix_may_intersect (node_key @ [fst p]) lower upper) children) @ stack) out')"
  by pat_completeness auto
termination
  by (relation "inv_image stack_order (\<lambda>(_, _, _, st, _). st)")
     (auto intro!: stack_order_pop pop_leaf_order dest: push_filter_size)

declare range_loop.simps(2) [simp del]

definition range_scan :: "art_tree \<Rightarrow> key_bound \<Rightarrow> key_bound \<Rightarrow> nat option \<Rightarrow> (bytes \<times> row_id) list" where
  "range_scan t lower upper limit = (case at_root t of None \<Rightarrow> []
     | Some root \<Rightarrow> if limit = Some 0 then [] else range_loop lower upper limit [(root, [])] [])"

definition art_range :: "art_tree \<Rightarrow> bytes \<Rightarrow> bytes \<Rightarrow> (bytes \<times> row_id) list" where
  "art_range t start end_key = range_scan t (Some (start, True)) (Some (end_key, False)) None"

definition prefix_scan :: "art_tree \<Rightarrow> bytes \<Rightarrow> (bytes \<times> row_id) list" where
  "prefix_scan t pre = filter (\<lambda>p. take (length pre) (fst p) = pre) (iterator_collect (iterator_new t))"

section \<open>Correctness of the scan\<close>

definition capped :: "nat option \<Rightarrow> 'a list \<Rightarrow> 'a list \<Rightarrow> 'a list" where
  "capped cap out xs = (case cap of None \<Rightarrow> out @ xs | Some c \<Rightarrow> out @ take (c - length out) xs)"

lemma capped_reached: "cap_reached cap out \<Longrightarrow> capped cap out xs = out"
  by (auto simp: cap_reached_def capped_def split: option.splits)

lemma capped_push: "\<not> cap_reached cap out \<Longrightarrow> capped cap (push_capped cap out xs) ys = capped cap out (xs @ ys)"
  by (auto simp: cap_reached_def capped_def push_capped_def min_def split: option.splits)

lemma ordered_children_sort:
  assumes "node_ok n" "\<not> is_leaf n"
  shows "sort_key fst (iter_children n) = ordered_children n"
  using assms ordered_children_sorted [OF assms(1)]
  by (cases n) (auto simp: ordered_children_def iter_children_def is_leaf_def strict_sorted_iff intro: sort_key_id_if_sorted)

abbreviation in_range :: "key_bound \<Rightarrow> key_bound \<Rightarrow> (bytes \<times> row_id) list \<Rightarrow> (bytes \<times> row_id) list" where
  "in_range lower upper es \<equiv> filter (\<lambda>p. key_in_range (fst p) lower upper) es"

lemma pruned_empty:
  assumes "art_inv k n" "short_prefixes n" "\<not> prefix_may_intersect k lower upper"
  shows "in_range lower upper (entries k n) = []"
  using entries_prefix [OF assms(1,2)] prefix_may_intersect_sound assms(3)
  by (fastforce simp: filter_empty_conv)

lemma pruned_children:
  assumes "\<forall>(b, c) \<in> set cs. art_inv (q @ [b]) c \<and> short_prefixes c"
  shows "in_range lower upper (stack_entries (push_children q
        (filter (\<lambda>p. prefix_may_intersect (q @ [fst p]) lower upper) cs)))
     = in_range lower upper (stack_entries (push_children q cs))"
  using assms
proof (induction cs)
  case (Cons p cs)
  then show ?case
    using pruned_empty [of "q @ [fst p]" "snd p" lower upper] by (auto simp: push_children_def case_prod_unfold)
qed (simp add: push_children_def)

lemma range_loop_correct:
  "\<forall>(n, k) \<in> set st. art_inv k n \<and> short_prefixes n \<Longrightarrow>
     range_loop lower upper cap st out = capped cap out (in_range lower upper (stack_entries st))"
proof (induction st arbitrary: out rule: wf_induct_rule [OF wf_stack_order])
  case (1 st)
  show ?case
  proof (cases "st = [] \<or> cap_reached cap out")
    case True
    then show ?thesis
    proof
      assume "st = []"
      then show ?thesis by (simp add: capped_def split: option.split)
    next
      assume r: "cap_reached cap out"
      then show ?thesis by (cases st) (auto simp: range_loop.simps capped_reached)
    qed
  next
    case False
    then obtain n k stack where st: "st = (n, k) # stack" and nr: "\<not> cap_reached cap out" by (cases st) auto
    have inv: "art_inv k n" "short_prefixes n" and tl: "\<forall>(n, k) \<in> set stack. art_inv k n \<and> short_prefixes n"
      using "1.prems" st by auto
    have ihs: "range_loop lower upper cap stack out' = capped cap out' (in_range lower upper (stack_entries stack))" for out'
      by (rule "1.IH") (use tl in \<open>auto simp: st intro: pop_leaf_order\<close>)
    from inv(1) show ?thesis
    proof (cases rule: art_inv_cases)
      case (leaf l)
      then show ?thesis
        using nr by (auto simp: st range_loop.simps ihs capped_push filter_map comp_def)
    next
      case (inner p)
      have n: "\<not> is_leaf n" "node_ok n" using inner by (auto simp: inner_inv_def)
      have gp: "get_prefix (art_header n) = p"
        using inner inv(2) inner_short [OF n(2,1)] by (auto simp: inner_inv_def)
      note eq = range_loop.simps(2) [of lower upper cap n k stack out, unfolded inner_case [OF n(1)] Let_def gp
          ordered_children_sort [OF n(2,1)]]
      note e = entries_short_inner [OF inner inv(2)]
      let ?cs = "filter (\<lambda>q. prefix_may_intersect ((k @ p) @ [fst q]) lower upper) (ordered_children n)"
      have ch: "\<forall>(b, c) \<in> set (ordered_children n). art_inv ((k @ p) @ [b]) c \<and> short_prefixes c" using e(2) by auto
      have ih: "range_loop lower upper cap (push_children (k @ p) ?cs @ stack) out' =
          capped cap out' (in_range lower upper (stack_entries (push_children (k @ p) ?cs @ stack)))" for out'
      proof (rule "1.IH")
        show "(push_children (k @ p) ?cs @ stack, st) \<in> stack_order"
          unfolding st by (rule stack_order_pop) (use e(2) in \<open>auto simp: push_children_def\<close>)
        show "\<forall>(n, k) \<in> set (push_children (k @ p) ?cs @ stack). art_inv k n \<and> short_prefixes n"
          using ch tl by (auto simp: push_children_def)
      qed
      have fl: "in_range lower upper (stack_entries st) =
          (if key_in_range (k @ p) lower upper then map (Pair (k @ p)) (nh_values (art_header n)) else [])
          @ in_range lower upper (stack_entries (push_children (k @ p) ?cs @ stack))"
        unfolding st by (simp add: entries_inner [OF n(1)] gp pruned_children [OF ch, simplified] filter_map comp_def)
      show ?thesis
      proof (cases "prefix_may_intersect (k @ p) lower upper")
        case True
        then show ?thesis using nr unfolding st eq ih fl [unfolded st] by (auto simp: capped_push)
      next
        case no: False
        have "in_range lower upper (entries k n) = []"
          using entries_prefix_inner [OF inner inv(2)] prefix_may_intersect_sound no
          by (fastforce simp: filter_empty_conv)
        then show ?thesis using nr no unfolding st eq by (simp add: ihs)
      qed
    qed
  qed
qed

section \<open>Properties\<close>

lemma iterator_root: "iterator_entries (iterator_new t) = (case at_root t of None \<Rightarrow> [] | Some n \<Rightarrow> entries [] n)"
  by (simp add: iterator_entries_def iterator_new_def split: option.split)

lemma short_root: "short_tree t \<Longrightarrow> at_root t = Some n \<Longrightarrow> art_inv [] n \<and> short_prefixes n"
  by (simp add: short_tree_def tree_wf_def tree_ok_def tree_short_def)

text \<open>
  Iterating over an index whose compressed prefixes fit into their headers terminates and
  yields every key with its rows, in ascending key order and nothing else.
\<close>

theorem art_iterator_correct:
  assumes "short_tree t"
  shows "sorted (map fst (iterator_collect (iterator_new t)))
    \<and> (\<forall>k. rows_at k (iterator_collect (iterator_new t)) = art_get_all t k)"
proof (cases "at_root t")
  case (Some n)
  then show ?thesis
    using short_root [OF assms Some] entries_sorted [of "[]" n] entries_view [of "[]" n]
    by (simp add: iterator_collect_entries iterator_root get_all_root)
qed (simp add: iterator_collect_entries iterator_root get_all_root)

text \<open>
  C30. For a tree whose compressed prefixes have at most ten bytes, a range scan returns exactly the first entries, as
  many as the limit allows, in key order, whose key meets both bounds: pruning whole subtrees loses nothing there.
\<close>

theorem art_range_scan_correct:
  assumes "short_tree t"
  shows "range_scan t lower upper limit = (let hits = in_range lower upper (iterator_collect (iterator_new t)) in
     case limit of None \<Rightarrow> hits | Some c \<Rightarrow> take c hits)"
proof (cases "at_root t")
  case (Some n)
  then show ?thesis
    using short_root [OF assms Some] range_loop_correct [of "[(n, [])]" lower upper limit "[]"]
    by (auto simp: range_scan_def iterator_collect_entries iterator_root capped_def split: option.split)
qed (simp add: range_scan_def iterator_collect_entries iterator_root split: option.split)

text \<open>A sample index: six keys with a common first byte, one the prefix of another.\<close>

definition sample_tree :: "art_index_type \<Rightarrow> art_tree" where
  "sample_tree ty = fst (run_steps art_step (art_new ''idx'' ''tab'' [''c''] ty)
     [OpInsert [5, 9] 1, OpInsert [5] 2, OpInsert [5, 3] 3, OpInsert [5, 200] 4, OpInsert [5, 3, 3] 5, OpInsert [5, 77] 6,
      OpRemove [5, 77]])"

lemma sample_short: "short_tree (sample_tree ty)"
  unfolding sample_tree_def
  by (rule tree.run_refines [THEN conjunct1]) (simp_all add: short_tree_def)

theorem art_iterator_correct_witness:
  "sorted (map fst (iterator_collect (iterator_new (sample_tree Unique))))
   \<and> iterator_collect (iterator_new (sample_tree Unique)) = [([5], 2), ([5, 3], 3), ([5, 3, 3], 5), ([5, 9], 1), ([5, 200], 4)]"
  by (rule conjI [OF art_iterator_correct [OF sample_short, THEN conjunct1]]) code_simp

theorem art_range_scan_correct_witness:
  "range_scan (sample_tree Unique) (Some ([5, 3], False)) (Some ([5, 9], True)) (Some 2) = [([5, 3, 3], 5), ([5, 9], 1)]"
  unfolding art_range_scan_correct [OF sample_short] by code_simp

text \<open>
  With a compressed prefix longer than ten bytes the walk reconstructs wrong keys: a scan
  from the smallest key of an index with two keys finds neither of them, although both are
  stored and in range, and the iterator reports a truncated key for a value kept on an inner
  node.
\<close>

theorem art_range_scan_truncated_prefix:
  "let t = fst (run_steps art_step (art_new ''i'' ''t'' [] Manual) [OpInsert (long_key 1) 1, OpInsert (long_key 2) 2])
   in art_get t (long_key 1) = Some 1 \<and> art_get t (long_key 2) = Some 2
      \<and> key_in_range (long_key 2) (Some (long_key 1, True)) None
      \<and> range_scan t (Some (long_key 1, True)) None None = []
      \<and> iterator_collect (iterator_new (fst (art_insert t (replicate 12 97) 3)))
        = [(replicate 10 97, 3), (long_key 1, 1), (long_key 2, 2)]"
  by code_simp

end
