(* ===== verification/Lock_Manager.thy ===== *)
theory Lock_Manager
  imports Prelude "HOL-Library.AList"
begin

text \<open>
  The pessimistic lock manager (\<^verbatim>\<open>src/src/storage/lock_manager.rs\<close>): re-entrant shared and
  exclusive locks per resource, the wait-for graph with its depth-first deadlock test, RAII
  guards and the statement-retry policy. The two concurrent maps are association lists. One
  attempt to acquire holds the entry of its resource and is one step. A release and the clean-up of a
  transaction are several: each access to an entry, each later removal of an entry that was found
  empty, and the removal from the wait-for graph. The clock is an input. Acquisition counters are natural numbers.
\<close>

section \<open>Lock state of one resource\<close>

type_synonym txn = u64

datatype lock_type = ReadLock | WriteLock

definition is_compatible_with :: "lock_type \<Rightarrow> lock_type \<Rightarrow> bool" where
  "is_compatible_with a b = (case (a, b) of (ReadLock, ReadLock) \<Rightarrow> True | _ \<Rightarrow> False)"

record lock_state =
  ls_holders :: "txn list"
  ls_type :: "lock_type option"
  ls_waiters :: "(txn \<times> lock_type) list"
  ls_counts :: "(txn \<times> nat) list"

definition lock_state_new :: lock_state where
  "lock_state_new = \<lparr>ls_holders = [], ls_type = None, ls_waiters = [], ls_counts = []\<rparr>"

definition can_acquire :: "lock_state \<Rightarrow> txn \<Rightarrow> lock_type \<Rightarrow> bool" where
  "can_acquire st t ty =
     (if ls_holders st = [] then True
      else if length (ls_holders st) = 1 \<and> hd (ls_holders st) = t then True
      else case ls_type st of Some cur \<Rightarrow> is_compatible_with ty cur | None \<Rightarrow> True)"

definition add_holder :: "lock_state \<Rightarrow> txn \<Rightarrow> lock_type \<Rightarrow> lock_state" where
  "add_holder st t ty =
     st\<lparr>ls_holders := (if t \<in> set (ls_holders st) then ls_holders st else ls_holders st @ [t]),
        ls_counts := AList.update t ((case map_of (ls_counts st) t of Some c \<Rightarrow> c | None \<Rightarrow> 0) + 1) (ls_counts st),
        ls_type := (case ls_type st of Some WriteLock \<Rightarrow> Some WriteLock | _ \<Rightarrow> Some ty)\<rparr>"

definition remove_holder :: "lock_state \<Rightarrow> txn \<Rightarrow> lock_state" where
  "remove_holder st t =
     (let st = st\<lparr>ls_holders := filter (\<lambda>h. h \<noteq> t) (ls_holders st), ls_counts := AList.delete t (ls_counts st)\<rparr>
      in if ls_holders st = [] then st\<lparr>ls_type := None\<rparr> else st)"

definition release_once :: "lock_state \<Rightarrow> txn \<Rightarrow> lock_state \<times> bool" where
  "release_once st t = (case map_of (ls_counts st) t of
       Some c \<Rightarrow>
         if c > 1 then (st\<lparr>ls_counts := AList.update t (c - 1) (ls_counts st)\<rparr>, False)
         else (remove_holder st t, True)
     | None \<Rightarrow>
         let st = st\<lparr>ls_holders := filter (\<lambda>h. h \<noteq> t) (ls_holders st)\<rparr>
         in (if ls_holders st = [] then st\<lparr>ls_type := None\<rparr> else st, False))"

definition duplicate_acquisition :: "lock_state \<Rightarrow> txn \<Rightarrow> lock_state" where
  "duplicate_acquisition st t = (case map_of (ls_counts st) t of
       Some c \<Rightarrow> st\<lparr>ls_counts := AList.update t (c + 1) (ls_counts st)\<rparr> | None \<Rightarrow> st)"

definition add_waiter :: "lock_state \<Rightarrow> txn \<Rightarrow> lock_type \<Rightarrow> lock_state" where
  "add_waiter st t ty =
     (if \<exists>w \<in> set (ls_waiters st). fst w = t then st else st\<lparr>ls_waiters := ls_waiters st @ [(t, ty)]\<rparr>)"

definition remove_waiter :: "lock_state \<Rightarrow> txn \<Rightarrow> lock_state" where
  "remove_waiter st t = st\<lparr>ls_waiters := filter (\<lambda>w. fst w \<noteq> t) (ls_waiters st)\<rparr>"

section \<open>Re-entrant locks as an interface\<close>

text \<open>
  What a client of one lock relies on: \<open>cnt\<close> counts the acquisitions of each transaction,
  \<open>excl\<close> says that the lock is held for writing.
\<close>

locale reentrant_lock =
  fixes ok :: "'s \<Rightarrow> bool"
    and cnt :: "'s \<Rightarrow> txn \<Rightarrow> nat"
    and excl :: "'s \<Rightarrow> bool"
    and can :: "'s \<Rightarrow> txn \<Rightarrow> lock_type \<Rightarrow> bool"
    and acq :: "'s \<Rightarrow> txn \<Rightarrow> lock_type \<Rightarrow> 's"
    and rel :: "'s \<Rightarrow> txn \<Rightarrow> 's"
  assumes ok_acq: "ok s \<Longrightarrow> can s t ty \<Longrightarrow> ok (acq s t ty)"
    and ok_rel: "ok s \<Longrightarrow> ok (rel s t)"
    and cnt_acq: "ok s \<Longrightarrow> cnt (acq s t ty) = (cnt s)(t := cnt s t + 1)"
    and cnt_rel: "ok s \<Longrightarrow> cnt (rel s t) = (cnt s)(t := cnt s t - 1)"
    and excl_acq: "ok s \<Longrightarrow> can s t ty \<Longrightarrow> excl (acq s t ty) \<longleftrightarrow> ty = WriteLock \<or> excl s"
    and excl_rel: "ok s \<Longrightarrow> excl (rel s t) \<longleftrightarrow> excl s \<and> (\<exists>u. cnt (rel s t) u > 0)"
    and excl_single: "ok s \<Longrightarrow> excl s \<Longrightarrow> cnt s t > 0 \<Longrightarrow> cnt s u > 0 \<Longrightarrow> t = u"
    and can_iff: "ok s \<Longrightarrow> can s t ty \<longleftrightarrow>
      (\<forall>u. cnt s u > 0 \<longrightarrow> u = t) \<or> ty = ReadLock \<and> \<not> excl s"
begin

lemma holder_reacquires: "ok s \<Longrightarrow> excl s \<Longrightarrow> cnt s t > 0 \<Longrightarrow> can s t ty"
  using can_iff [of s t ty] excl_single [of s _ t] by blast

lemma other_blocked: "ok s \<Longrightarrow> excl s \<Longrightarrow> cnt s t > 0 \<Longrightarrow> u \<noteq> t \<Longrightarrow> \<not> can s u ty"
  using can_iff [of s u ty] by blast

lemma writer_blocked_by_reader: "ok s \<Longrightarrow> cnt s t > 0 \<Longrightarrow> u \<noteq> t \<Longrightarrow> \<not> can s u WriteLock"
  using can_iff [of s u WriteLock] by blast

text \<open>A holder that acquired \<open>n\<close> times keeps everybody else out until its last release.\<close>

lemma partial_release:
  assumes "ok s" "excl s" "m < cnt s t"
  shows "ok (((\<lambda>s. rel s t) ^^ m) s) \<and> excl (((\<lambda>s. rel s t) ^^ m) s)
    \<and> cnt (((\<lambda>s. rel s t) ^^ m) s) = (cnt s)(t := cnt s t - m)"
  using assms(3)
proof (induction m)
  case (Suc m)
  let ?s = "((\<lambda>s. rel s t) ^^ m) s"
  have ih: "ok ?s" "excl ?s" "cnt ?s = (cnt s)(t := cnt s t - m)" using Suc by auto
  have c: "cnt (rel ?s t) = (cnt s)(t := cnt s t - Suc m)" using cnt_rel [OF ih(1), of t] ih(3) by simp
  then have "cnt (rel ?s t) t > 0" using Suc.prems by simp
  then have "excl (rel ?s t)" using excl_rel [OF ih(1), of t] ih(2) by blast
  then show ?case using ok_rel [OF ih(1)] c by simp
qed (simp add: assms)

lemma blocked_until_last_release:
  assumes "ok s" "excl s" "m < cnt s t" "u \<noteq> t"
  shows "\<not> can (((\<lambda>s. rel s t) ^^ m) s) u ty"
  using partial_release [OF assms(1-3)] other_blocked [of "((\<lambda>s. rel s t) ^^ m) s" t u ty] assms(3,4) by simp

end

section \<open>The invariant of a lock state\<close>

definition lock_ok :: "lock_state \<Rightarrow> bool" where
  "lock_ok st \<longleftrightarrow> distinct (ls_holders st) \<and> set (ls_holders st) = dom (map_of (ls_counts st))
     \<and> (\<forall>t c. map_of (ls_counts st) t = Some c \<longrightarrow> c \<ge> 1)
     \<and> (ls_holders st = [] \<longleftrightarrow> ls_type st = None)
     \<and> (ls_type st = Some WriteLock \<longrightarrow> length (ls_holders st) = 1)
     \<and> distinct (map fst (ls_waiters st))"

definition lock_count :: "lock_state \<Rightarrow> txn \<Rightarrow> nat" where
  "lock_count st t = (case map_of (ls_counts st) t of Some c \<Rightarrow> c | None \<Rightarrow> 0)"

abbreviation lock_excl :: "lock_state \<Rightarrow> bool" where
  "lock_excl st \<equiv> ls_type st = Some WriteLock"

lemmas alist_simps = update_conv' delete_conv'

lemma lock_count_pos: "lock_ok st \<Longrightarrow> lock_count st t > 0 \<longleftrightarrow> t \<in> set (ls_holders st)"
  by (force simp: lock_ok_def lock_count_def split: option.splits)

lemma lock_ok_new [simp]: "lock_ok lock_state_new" "lock_count lock_state_new t = 0"
  by (simp_all add: lock_ok_def lock_state_new_def lock_count_def)

lemma sole_holder: "distinct hs \<Longrightarrow> hs \<noteq> [] \<Longrightarrow> length hs = 1 \<and> hd hs = t \<longleftrightarrow> set hs \<subseteq> {t}"
  by (cases hs; cases "tl hs") auto

lemma filter_singleton_list: "length xs = 1 \<Longrightarrow> filter P xs \<noteq> [] \<Longrightarrow> length (filter P xs) = 1"
  by (cases xs) (auto split: if_splits)

lemma can_acquire_iff:
  assumes "lock_ok st"
  shows "can_acquire st t ty \<longleftrightarrow> set (ls_holders st) \<subseteq> {t} \<or> ty = ReadLock \<and> \<not> lock_excl st"
proof (cases "ls_holders st")
  case (Cons h hs)
  then obtain cur where cur: "ls_type st = Some cur" using assms by (auto simp: lock_ok_def)
  have "length (ls_holders st) = 1 \<and> hd (ls_holders st) = t \<longleftrightarrow> set (ls_holders st) \<subseteq> {t}"
    by (rule sole_holder) (use assms Cons in \<open>simp_all add: lock_ok_def\<close>)
  then show ?thesis
    using cur Cons by (cases ty; cases cur) (auto simp: can_acquire_def is_compatible_with_def)
qed (simp add: can_acquire_def)

lemma add_holder_ok:
  assumes "lock_ok st" "can_acquire st t ty"
  shows "lock_ok (add_holder st t ty)"
proof -
  have sub: "set (ls_holders st) \<subseteq> {t} \<or> ty = ReadLock \<and> \<not> lock_excl st"
    using assms can_acquire_iff by blast
  have "length (ls_holders (add_holder st t ty)) = 1" if "ls_type (add_holder st t ty) = Some WriteLock"
  proof -
    have "set (ls_holders st) \<subseteq> {t}"
      using sub that assms(1) by (auto simp: add_holder_def lock_ok_def split: option.splits lock_type.splits)
    then show ?thesis
      using assms(1) by (cases "ls_holders st"; cases "tl (ls_holders st)") (auto simp: add_holder_def lock_ok_def)
  qed
  then show ?thesis
    using assms(1)
    by (auto simp: lock_ok_def add_holder_def alist_simps split: option.splits lock_type.splits if_splits)
qed

lemma remove_holder_ok:
  assumes "lock_ok st"
  shows "lock_ok (remove_holder st t)"
proof -
  have dom: "set (filter (\<lambda>h. h \<noteq> t) (ls_holders st)) = dom ((map_of (ls_counts st))(t := None))"
    using assms by (auto simp: lock_ok_def)
  have ne: "filter (\<lambda>h. h \<noteq> t) (ls_holders st) \<noteq> [] \<Longrightarrow> ls_holders st \<noteq> []" by auto
  show ?thesis
    using assms filter_singleton_list [of "ls_holders st" "\<lambda>h. h \<noteq> t"] ne
    unfolding lock_ok_def remove_holder_def Let_def
    by (cases "filter (\<lambda>h. h \<noteq> t) (ls_holders st) = []") (use dom in \<open>auto simp: alist_simps\<close>)
qed

lemma remove_holder_count: "lock_count (remove_holder st t) = (lock_count st)(t := 0)"
  by (auto simp: fun_eq_iff lock_count_def remove_holder_def alist_simps Let_def)

lemma release_absent:
  assumes "lock_ok st" "map_of (ls_counts st) t = None"
  shows "release_once st t = (st, False)"
proof -
  have "t \<notin> set (ls_holders st)" using assms by (auto simp: lock_ok_def)
  then have "filter (\<lambda>h. h \<noteq> t) (ls_holders st) = ls_holders st" by (auto simp: filter_id_conv)
  then show ?thesis using assms by (auto simp: release_once_def Let_def lock_ok_def)
qed

lemma release_once_ok:
  assumes "lock_ok st"
  shows "lock_ok (fst (release_once st t))"
proof (cases "map_of (ls_counts st) t")
  case (Some c)
  then show ?thesis
    using assms remove_holder_ok [OF assms, of t] unfolding release_once_def
    by (auto simp: lock_ok_def alist_simps split: if_splits)
qed (simp add: assms release_absent)

lemma release_once_count:
  assumes "lock_ok st"
  shows "lock_count (fst (release_once st t)) = (lock_count st)(t := lock_count st t - 1)"
proof (cases "map_of (ls_counts st) t")
  case None
  then show ?thesis using assms by (auto simp: release_absent lock_count_def fun_eq_iff)
next
  case (Some c)
  have c: "c \<ge> 1" "lock_count st t = c" using Some assms by (simp_all add: lock_ok_def lock_count_def)
  show ?thesis
  proof (cases "c > 1")
    case True
    then show ?thesis using Some by (auto simp: release_once_def lock_count_def alist_simps fun_eq_iff)
  next
    case False
    then show ?thesis using Some c by (simp add: release_once_def remove_holder_count)
  qed
qed

lemma release_once_excl:
  assumes "lock_ok st"
  shows "lock_excl (fst (release_once st t)) \<longleftrightarrow> lock_excl st \<and> (\<exists>u. lock_count (fst (release_once st t)) u > 0)"
proof -
  let ?st = "fst (release_once st t)"
  have ok: "lock_ok ?st" using assms by (rule release_once_ok)
  have ty: "ls_type ?st = (if ls_holders ?st = [] then None else ls_type st)"
    using ok by (auto simp: release_once_def remove_holder_def Let_def lock_ok_def split: option.splits if_splits)
  have "(\<exists>u. lock_count ?st u > 0) \<longleftrightarrow> ls_holders ?st \<noteq> []"
    using lock_count_pos [OF ok] by (metis list.set_intros(1) list.set_cases empty_iff empty_set ex_in_conv set_empty)
  then show ?thesis using ty by auto
qed

lemma add_holder_count: "lock_count (add_holder st t ty) = (lock_count st)(t := lock_count st t + 1)"
  by (auto simp: fun_eq_iff lock_count_def add_holder_def alist_simps split: option.splits)

lemma add_holder_excl: "lock_excl (add_holder st t ty) \<longleftrightarrow> ty = WriteLock \<or> lock_excl st"
  by (auto simp: add_holder_def split: option.splits lock_type.splits)

interpretation lstate: reentrant_lock lock_ok lock_count lock_excl can_acquire add_holder
  "\<lambda>st t. fst (release_once st t)"
proof
  fix s :: lock_state and t u ty
  assume ok: "lock_ok s"
  show "t = u" if ex: "lock_excl s" and pos: "0 < lock_count s t" "0 < lock_count s u"
  proof -
    obtain h where "ls_holders s = [h]" using ok ex by (auto simp: lock_ok_def length_Suc_conv)
    then show ?thesis using pos lock_count_pos [OF ok] by simp
  qed
  show "can_acquire s t ty \<longleftrightarrow> (\<forall>u. 0 < lock_count s u \<longrightarrow> u = t) \<or> ty = ReadLock \<and> \<not> lock_excl s"
    using can_acquire_iff [OF ok] lock_count_pos [OF ok] by auto
qed (simp_all add: add_holder_ok release_once_ok add_holder_count release_once_count add_holder_excl release_once_excl)

section \<open>The manager\<close>

record retry_policy =
  rp_max_attempts :: nat
  rp_backoff_base_ms :: nat
  rp_backoff_cap_ms :: nat

record lock_manager =
  lm_locks :: "(string \<times> lock_state) list"
  lm_wait_graph :: "(txn \<times> txn list) list"
  lm_timeout_ms :: nat
  lm_retry :: retry_policy

datatype lock_error =
    LockConflict string txn lock_type
  | DeadlockError txn
  | WriteConflict string string txn txn nat

definition retry_disabled :: retry_policy where
  "retry_disabled = \<lparr>rp_max_attempts = 0, rp_backoff_base_ms = 5, rp_backoff_cap_ms = 100\<rparr>"

definition manager_new :: "nat \<Rightarrow> retry_policy \<Rightarrow> lock_manager" where
  "manager_new timeout_ms retry = \<lparr>lm_locks = [], lm_wait_graph = [], lm_timeout_ms = timeout_ms, lm_retry = retry\<rparr>"

definition resolve_timeout_ms :: "nat \<Rightarrow> nat option \<Rightarrow> nat" where
  "resolve_timeout_ms config_ms env_override = (case env_override of Some ms \<Rightarrow> ms | None \<Rightarrow> config_ms)"

record lock_guard =
  lg_lock_id :: string
  lg_txn :: txn

definition try_acquire_lock ::
  "lock_manager \<Rightarrow> string \<Rightarrow> txn \<Rightarrow> lock_type \<Rightarrow> lock_manager \<times> (lock_error + lock_guard)" where
  "try_acquire_lock m resource t ty =
     (let st = (case map_of (lm_locks m) resource of Some st \<Rightarrow> st | None \<Rightarrow> lock_state_new) in
      if can_acquire st t ty then
        (m\<lparr>lm_locks := AList.update resource (remove_waiter (add_holder st t ty) t) (lm_locks m),
           lm_wait_graph := AList.delete t (lm_wait_graph m)\<rparr>,
         Inr \<lparr>lg_lock_id = resource, lg_txn = t\<rparr>)
      else
        (m\<lparr>lm_locks := AList.update resource (add_waiter st t ty) (lm_locks m),
           lm_wait_graph := AList.update t (filter (\<lambda>h. h \<noteq> t) (ls_holders st)) (lm_wait_graph m)\<rparr>,
         Inl (LockConflict resource t ty)))"

definition primary_holder :: "lock_manager \<Rightarrow> string \<Rightarrow> txn" where
  "primary_holder m resource = (case map_of (lm_locks m) resource of None \<Rightarrow> 0
     | Some st \<Rightarrow> (case ls_holders st of h # _ \<Rightarrow> h | [] \<Rightarrow> 0))"

text \<open>
  The part of a release that holds the entry of the resource, with the decision to remove the
  entry; the removal, after the entry was let go; and the removal from the wait-for graph.
\<close>

definition release_update :: "lock_manager \<Rightarrow> string \<Rightarrow> txn \<Rightarrow> lock_manager \<times> bool" where
  "release_update m resource t = (case map_of (lm_locks m) resource of
       None \<Rightarrow> (m, False)
     | Some st \<Rightarrow> (case release_once st t of (st', fully_released) \<Rightarrow>
         (m\<lparr>lm_locks := AList.update resource st' (lm_locks m)\<rparr>, fully_released \<and> ls_holders st' = [] \<and> ls_waiters st' = [])))"

definition remove_entry :: "string \<Rightarrow> lock_manager \<Rightarrow> lock_manager" where
  "remove_entry resource m = m\<lparr>lm_locks := AList.delete resource (lm_locks m)\<rparr>"

definition remove_wait :: "txn \<Rightarrow> lock_manager \<Rightarrow> lock_manager" where
  "remove_wait t m = m\<lparr>lm_wait_graph := AList.delete t (lm_wait_graph m)\<rparr>"

definition release_lock_internal :: "lock_manager \<Rightarrow> string \<Rightarrow> txn \<Rightarrow> lock_manager" where
  "release_lock_internal m resource t = (case release_update m resource t of (m, gone) \<Rightarrow>
     remove_wait t (if gone then remove_entry resource m else m))"

text \<open>One turn of the loop of \<open>cleanup_transaction\<close>, divided in the same way.\<close>

definition cleanup_update :: "txn \<Rightarrow> string \<Rightarrow> lock_manager \<Rightarrow> lock_manager \<times> bool" where
  "cleanup_update t key m = (case map_of (lm_locks m) key of None \<Rightarrow> (m, False)
     | Some st \<Rightarrow> let st' = remove_waiter (remove_holder st t) t in
         (m\<lparr>lm_locks := AList.update key st' (lm_locks m)\<rparr>, ls_holders st' = [] \<and> ls_waiters st' = []))"

definition cleanup_entry :: "txn \<Rightarrow> string \<Rightarrow> lock_manager \<Rightarrow> lock_manager" where
  "cleanup_entry t key m = (case cleanup_update t key m of (m, gone) \<Rightarrow> if gone then remove_entry key m else m)"

definition cleanup_transaction :: "lock_manager \<Rightarrow> txn \<Rightarrow> lock_manager" where
  "cleanup_transaction m t = fold (cleanup_entry t) (map fst (lm_locks m)) (remove_wait t m)"

definition get_lock_holders :: "lock_manager \<Rightarrow> string \<Rightarrow> txn list" where
  "get_lock_holders m resource = (case map_of (lm_locks m) resource of Some st \<Rightarrow> ls_holders st | None \<Rightarrow> [])"

definition is_locked :: "lock_manager \<Rightarrow> string \<Rightarrow> bool" where
  "is_locked m resource = (case map_of (lm_locks m) resource of Some st \<Rightarrow> ls_holders st \<noteq> [] | None \<Rightarrow> False)"

definition get_statistics :: "lock_manager \<Rightarrow> nat \<times> nat \<times> nat" where
  "get_statistics m = (length (lm_locks m), sum_list (map (\<lambda>e. length (ls_holders (snd e))) (lm_locks m)),
     sum_list (map (\<lambda>e. length (ls_waiters (snd e))) (lm_locks m)))"

definition guard_clone :: "lock_manager \<Rightarrow> lock_guard \<Rightarrow> lock_manager \<times> lock_guard" where
  "guard_clone m g = (case map_of (lm_locks m) (lg_lock_id g) of
       Some st \<Rightarrow> m\<lparr>lm_locks := AList.update (lg_lock_id g) (duplicate_acquisition st (lg_txn g)) (lm_locks m)\<rparr>
     | None \<Rightarrow> m, g)"

definition guard_drop :: "lock_manager \<Rightarrow> lock_guard \<Rightarrow> lock_manager" where
  "guard_drop m g = release_lock_internal m (lg_lock_id g) (lg_txn g)"

text \<open>\<open>str::split_once\<close>.\<close>

definition split_once :: "char \<Rightarrow> string \<Rightarrow> (string \<times> string) option" where
  "split_once c s = (if c \<in> set s then Some (takeWhile (\<lambda>x. x \<noteq> c) s, tl (dropWhile (\<lambda>x. x \<noteq> c) s)) else None)"

definition split_row_resource :: "string \<Rightarrow> string \<times> string" where
  "split_row_resource resource =
     (if take 5 resource = ''data:'' then
        (case split_once CHR '':'' (drop 5 resource) of Some (table, row) \<Rightarrow> (table, row) | None \<Rightarrow> ([], resource))
      else ([], resource))"

section \<open>Deadlock detection\<close>

text \<open>
  The depth-first search with its visited set and recursion stack. The fuel bounds the depth of
  the recursion; \<open>detect_deadlock\<close> supplies one more than the number of waiting transactions,
  which \<open>has_cycle_total\<close> shows to be enough.
\<close>

fun has_cycle :: "(txn \<times> txn list) list \<Rightarrow> nat \<Rightarrow> txn \<Rightarrow> txn list \<Rightarrow> txn list \<Rightarrow> (bool \<times> txn list \<times> txn list) option"
and has_cycle_loop :: "(txn \<times> txn list) list \<Rightarrow> nat \<Rightarrow> txn \<Rightarrow> txn list \<Rightarrow> txn list \<Rightarrow> txn list \<Rightarrow> (bool \<times> txn list \<times> txn list) option"
where
  "has_cycle g 0 node visited rec_stack = None"
| "has_cycle g (Suc fuel) node visited rec_stack =
     has_cycle_loop g fuel node (case map_of g node of Some ns \<Rightarrow> ns | None \<Rightarrow> [])
       (List.insert node visited) (List.insert node rec_stack)"
| "has_cycle_loop g fuel node [] visited rec_stack = Some (False, visited, removeAll node rec_stack)"
| "has_cycle_loop g fuel node (nb # nbs) visited rec_stack =
     (if nb \<notin> set visited then
        (case has_cycle g fuel nb visited rec_stack of
           None \<Rightarrow> None
         | Some (True, v, r) \<Rightarrow> Some (True, v, r)
         | Some (False, v, r) \<Rightarrow> has_cycle_loop g fuel node nbs v r)
      else if nb \<in> set rec_stack then Some (True, visited, rec_stack)
      else has_cycle_loop g fuel node nbs visited rec_stack)"

definition detect_deadlock :: "lock_manager \<Rightarrow> txn \<Rightarrow> bool option" where
  "detect_deadlock m t = map_option fst (has_cycle (lm_wait_graph m) (Suc (length (lm_wait_graph m))) t [] [])"

definition wait_edges :: "(txn \<times> txn list) list \<Rightarrow> (txn \<times> txn) set" where
  "wait_edges g = {(x, y). \<exists>ns. map_of g x = Some ns \<and> y \<in> set ns}"

text \<open>Finished nodes: closed under waiting and on no cycle.\<close>

definition finished :: "(txn \<times> txn list) list \<Rightarrow> txn set \<Rightarrow> bool" where
  "finished g D \<longleftrightarrow> (\<forall>x \<in> D. \<forall>y. (x, y) \<in> wait_edges g \<longrightarrow> y \<in> D) \<and> (\<forall>x \<in> D. (x, x) \<notin> (wait_edges g)\<^sup>+)"

lemma finished_reach: "finished g D \<Longrightarrow> (x, y) \<in> (wait_edges g)\<^sup>* \<Longrightarrow> x \<in> D \<Longrightarrow> y \<in> D"
  by (rotate_tac 1, induction rule: rtrancl_induct) (auto simp: finished_def)

lemma finished_insert:
  assumes "finished g D" "x \<notin> D" "\<And>y. (x, y) \<in> wait_edges g \<Longrightarrow> y \<in> D"
  shows "finished g (insert x D)"
proof -
  have "(x, x) \<notin> (wait_edges g)\<^sup>+"
  proof
    assume "(x, x) \<in> (wait_edges g)\<^sup>+"
    then obtain y where "(x, y) \<in> wait_edges g" "(y, x) \<in> (wait_edges g)\<^sup>*" by (metis tranclD)
    then show False using finished_reach [OF assms(1)] assms(2,3) by blast
  qed
  then show ?thesis using assms unfolding finished_def by blast
qed

text \<open>
  What the search knows when it is called with visited nodes \<open>V\<close> and recursion stack
  \<open>R\<close>: the stack lies on a path to the current node, everything else visited is finished.
\<close>

definition dfs_pre :: "(txn \<times> txn list) list \<Rightarrow> txn \<Rightarrow> txn list \<Rightarrow> txn list \<Rightarrow> bool" where
  "dfs_pre g node V R \<longleftrightarrow> set R \<subseteq> set V \<and> finished g (set V - set R)
     \<and> (\<forall>r \<in> set R. (r, node) \<in> (wait_edges g)\<^sup>*)"

definition dfs_post :: "(txn \<times> txn list) list \<Rightarrow> txn \<Rightarrow> txn list \<Rightarrow> txn list \<Rightarrow> bool \<times> txn list \<times> txn list \<Rightarrow> bool" where
  "dfs_post g node V R res = (case res of
       (True, _, _) \<Rightarrow> \<exists>c. (node, c) \<in> (wait_edges g)\<^sup>* \<and> (c, c) \<in> (wait_edges g)\<^sup>+
     | (False, V', R') \<Rightarrow> set R' = set R \<and> set V \<subseteq> set V' \<and> finished g (set V' - set R') \<and> set R' \<subseteq> set V'
         \<and> node \<in> set V' - set R')"

lemma has_cycle_correct:
  "dfs_pre g node V R \<Longrightarrow> node \<notin> set V \<Longrightarrow> has_cycle g fuel node V R = Some res \<Longrightarrow> dfs_post g node V R res"
  "dfs_pre g node V R \<Longrightarrow> node \<in> set R \<Longrightarrow> (\<And>y. y \<in> set nbs \<Longrightarrow> (node, y) \<in> wait_edges g) \<Longrightarrow>
     (\<And>y. (node, y) \<in> wait_edges g \<Longrightarrow> y \<in> set nbs \<or> y \<in> set V - set R) \<Longrightarrow>
     has_cycle_loop g fuel node nbs V R = Some res \<Longrightarrow> dfs_post g node V (removeAll node R) res"
proof (induction g fuel node V R and g fuel node nbs V R arbitrary: res and res rule: has_cycle_has_cycle_loop.induct)
  case (1 g node visited rec_stack)
  then show ?case by simp
next
  case (2 g fuel node V R)
  have R: "node \<notin> set R" using 2(2,3) by (auto simp: dfs_pre_def)
  have "dfs_post g node (List.insert node V) (removeAll node (List.insert node R)) res"
  proof (rule "2.IH")
    show "dfs_pre g node (List.insert node V) (List.insert node R)"
      using 2(2,3) R by (auto simp: dfs_pre_def insert_Diff_if)
  qed (use 2(4) in \<open>auto simp: wait_edges_def split: option.splits\<close>)
  then show ?case using R by (auto simp: dfs_post_def split: prod.splits bool.splits)
next
  case (3 g fuel node V R)
  have "set V - (set R - {node}) = insert node (set V - set R)" using 3(1,2) by (auto simp: dfs_pre_def)
  moreover have "finished g (insert node (set V - set R))"
    using 3(1,2,4) by (intro finished_insert) (auto simp: dfs_pre_def)
  ultimately show ?case using 3(1,2,5) by (auto simp: dfs_post_def dfs_pre_def)
next
  case (4 g fuel node nb nbs V R)
  have edge: "(node, nb) \<in> wait_edges g" using "4.prems"(3) by simp
  consider (new) "nb \<notin> set V" | (cyc) "nb \<in> set V" "nb \<in> set R" | (old) "nb \<in> set V" "nb \<notin> set R" by blast
  then show ?case
  proof cases
    case new
    have pre: "dfs_pre g nb V R" using "4.prems"(1) edge by (auto simp: dfs_pre_def)
    obtain b v r where call: "has_cycle g fuel nb V R = Some (b, v, r)"
      using "4.prems"(5) new by (auto split: option.splits)
    note post = "4.IH"(1) [OF new pre new call]
    show ?thesis
    proof (cases b)
      case True
      then obtain c where c: "(nb, c) \<in> (wait_edges g)\<^sup>*" "(c, c) \<in> (wait_edges g)\<^sup>+"
        using post by (auto simp: dfs_post_def)
      have "(node, c) \<in> (wait_edges g)\<^sup>*" using edge c(1) by (rule converse_rtrancl_into_rtrancl)
      then show ?thesis
        using True call "4.prems"(5) new c(2) by (auto simp: dfs_post_def)
    next
      case False
      then have p: "set r = set R" "set V \<subseteq> set v" "finished g (set v - set r)" "set r \<subseteq> set v" "nb \<in> set v - set r"
        using post by (auto simp: dfs_post_def)
      have "dfs_post g node v (removeAll node r) res"
      proof (rule "4.IH"(2) [OF new call])
        show "dfs_pre g node v r" using p "4.prems"(1) by (auto simp: dfs_pre_def)
        show "has_cycle_loop g fuel node nbs v r = Some res" using "4.prems"(5) new call False by simp
        show "y \<in> set nbs \<or> y \<in> set v - set r" if "(node, y) \<in> wait_edges g" for y
          using "4.prems"(4) [OF that] p by auto
      qed (use False p "4.prems"(2,3) in auto)
      then show ?thesis using p by (auto simp: dfs_post_def split: prod.splits bool.splits)
    qed
  next
    case cyc
    then have "(nb, node) \<in> (wait_edges g)\<^sup>*" using "4.prems"(1) by (auto simp: dfs_pre_def)
    then have "(node, node) \<in> (wait_edges g)\<^sup>+" using edge by (rule rtrancl_into_trancl2 [rotated])
    then show ?thesis using cyc "4.prems"(5) by (auto simp: dfs_post_def)
  next
    case old
    then show ?thesis
      using "4.prems" by (intro "4.IH"(3)) auto
  qed
qed

lemma has_cycle_total:
  "card (set (map fst g) - set V) < fuel \<Longrightarrow> node \<notin> set V \<Longrightarrow> has_cycle g fuel node V R \<noteq> None
     \<and> (\<forall>b v r. has_cycle g fuel node V R = Some (b, v, r) \<longrightarrow> set V \<subseteq> set v)"
  "card (set (map fst g) - set V) < fuel \<or> nbs = [] \<Longrightarrow> has_cycle_loop g fuel node nbs V R \<noteq> None
     \<and> (\<forall>b v r. has_cycle_loop g fuel node nbs V R = Some (b, v, r) \<longrightarrow> set V \<subseteq> set v)"
proof (induction g fuel node V R and g fuel node nbs V R rule: has_cycle_has_cycle_loop.induct)
  case (2 g fuel node V R)
  let ?nbs = "case map_of g node of Some ns \<Rightarrow> ns | None \<Rightarrow> []"
  have "card (set (map fst g) - set (List.insert node V)) < fuel \<or> ?nbs = []"
  proof (cases "node \<in> set (map fst g)")
    case True
    have "card (set (map fst g) - insert node (set V)) < card (set (map fst g) - set V)"
      by (rule psubset_card_mono) (use True 2(3) in auto)
    then show ?thesis using 2(2) by simp
  next
    case False
    then have "map_of g node = None" by (metis map_of_eq_None_iff set_map)
    then show ?thesis by simp
  qed
  then show ?case using "2.IH" unfolding has_cycle.simps(2) List.set_insert insert_subset by blast
next
  case (4 g fuel node nb nbs V R)
  then have f: "card (set (map fst g) - set V) < fuel" by simp
  have mono: "card (set (map fst g) - set v) < fuel" if "set V \<subseteq> set v" for v
  proof -
    have "card (set (map fst g) - set v) \<le> card (set (map fst g) - set V)"
      by (rule card_mono) (use that in auto)
    then show ?thesis using f by simp
  qed
  show ?case
  proof (cases "nb \<in> set V")
    case False
    then obtain b v r where call: "has_cycle g fuel nb V R = Some (b, v, r)" "set V \<subseteq> set v"
      using "4.IH"(1) [OF False f False] by auto
    show ?thesis
    proof (cases b)
      case False': False
      have ih: "has_cycle_loop g fuel node nbs v r \<noteq> None
          \<and> (\<forall>b' v' r'. has_cycle_loop g fuel node nbs v r = Some (b', v', r') \<longrightarrow> set v \<subseteq> set v')"
        using "4.IH"(2) [OF False call(1) refl _ refl] False' mono [OF call(2)] by blast
      then show ?thesis using False' False call by auto
    qed (use False call in auto)
  next
    case True
    then show ?thesis using "4.IH"(3) f by auto
  qed
qed auto

lemma detect_deadlock_iff:
  "detect_deadlock m t = Some (\<exists>c. (t, c) \<in> (wait_edges (lm_wait_graph m))\<^sup>* \<and> (c, c) \<in> (wait_edges (lm_wait_graph m))\<^sup>+)"
proof -
  let ?g = "lm_wait_graph m" and ?f = "Suc (length (lm_wait_graph m))"
  have "card (set (map fst ?g) - set []) < ?f"
    using card_length [of "map fst ?g"] by simp
  then obtain b v r where call: "has_cycle ?g ?f t [] [] = Some (b, v, r)"
    using has_cycle_total(1) [of ?g "[]" ?f t "[]"] by auto
  have "dfs_pre ?g t [] []" by (simp add: dfs_pre_def finished_def)
  then have post: "dfs_post ?g t [] [] (b, v, r)" using has_cycle_correct(1) [OF _ _ call] by simp
  have "b \<longleftrightarrow> (\<exists>c. (t, c) \<in> (wait_edges ?g)\<^sup>* \<and> (c, c) \<in> (wait_edges ?g)\<^sup>+)"
  proof (cases b)
    case False
    then have fin: "finished ?g (set v)" and t: "t \<in> set v" using post by (auto simp: dfs_post_def)
    have "(c, c) \<notin> (wait_edges ?g)\<^sup>+" if "(t, c) \<in> (wait_edges ?g)\<^sup>*" for c
      using finished_reach [OF fin that t] fin by (simp add: finished_def)
    then show ?thesis using False by blast
  qed (use post in \<open>auto simp: dfs_post_def\<close>)
  then show ?thesis using call by (simp add: detect_deadlock_def)
qed

section \<open>Acquisition and the life of guards\<close>

datatype acquire_outcome = Granted lock_guard | AcquireError lock_error | Retry

text \<open>
  One iteration of the loop of \<open>acquire_lock\<close>; \<open>elapsed\<close> is the comparison of the clock with
  the timeout. \<open>Retry\<close> is the millisecond sleep before the next iteration.
\<close>

definition acquire_iteration ::
  "lock_manager \<Rightarrow> string \<Rightarrow> txn \<Rightarrow> lock_type \<Rightarrow> bool \<Rightarrow> lock_manager \<times> acquire_outcome" where
  "acquire_iteration m resource t ty elapsed =
     (case try_acquire_lock m resource t ty of
        (m, Inr guard) \<Rightarrow> (m, Granted guard)
      | (m, Inl e) \<Rightarrow>
          if detect_deadlock m t = Some True then
            (cleanup_transaction m t, AcquireError (DeadlockError t))
          else if elapsed then
            let holder = primary_holder m resource; (table, row) = split_row_resource resource in
            (cleanup_transaction m t, AcquireError (WriteConflict table row holder t (lm_timeout_ms m)))
          else (m, Retry))"

definition held :: "lock_manager \<Rightarrow> string \<Rightarrow> txn \<Rightarrow> nat" where
  "held m r t = (case map_of (lm_locks m) r of None \<Rightarrow> 0 | Some st \<Rightarrow> lock_count st t)"

definition write_locked :: "lock_manager \<Rightarrow> string \<Rightarrow> bool" where
  "write_locked m r \<longleftrightarrow> (\<exists>st. map_of (lm_locks m) r = Some st \<and> lock_excl st)"

definition mgr_ok :: "lock_manager \<Rightarrow> bool" where
  "mgr_ok m \<longleftrightarrow> (\<forall>r st. map_of (lm_locks m) r = Some st \<longrightarrow> lock_ok st)
     \<and> (\<forall>t ns. map_of (lm_wait_graph m) t = Some ns \<longrightarrow> t \<notin> set ns)"

lemma waiter_irrelevant [simp]:
  "lock_count (remove_waiter st t) = lock_count st" "lock_count (add_waiter st t ty) = lock_count st"
  "ls_type (remove_waiter st t) = ls_type st" "ls_type (add_waiter st t ty) = ls_type st"
  "ls_holders (remove_waiter st t) = ls_holders st"
  by (auto simp: fun_eq_iff lock_count_def remove_waiter_def add_waiter_def)

lemma waiter_ok [simp]: "lock_ok st \<Longrightarrow> lock_ok (remove_waiter st t)" "lock_ok st \<Longrightarrow> lock_ok (add_waiter st t ty)"
  by (auto simp: lock_ok_def remove_waiter_def add_waiter_def distinct_map_filter)

lemma held_upd:
  "held (m\<lparr>lm_locks := AList.update r st (lm_locks m), lm_wait_graph := g\<rparr>) = (held m)(r := lock_count st)"
  "held (m\<lparr>lm_locks := AList.update r st (lm_locks m)\<rparr>) = (held m)(r := lock_count st)"
  by (auto simp: fun_eq_iff held_def alist_simps)

lemma write_locked_upd:
  "write_locked (m\<lparr>lm_locks := AList.update r st (lm_locks m), lm_wait_graph := g\<rparr>) = (write_locked m)(r := lock_excl st)"
  "write_locked (m\<lparr>lm_locks := AList.update r st (lm_locks m)\<rparr>) = (write_locked m)(r := lock_excl st)"
  by (auto simp: fun_eq_iff write_locked_def alist_simps)

lemma write_locked_single:
  "mgr_ok m \<Longrightarrow> write_locked m r \<Longrightarrow> held m r t > 0 \<Longrightarrow> held m r u > 0 \<Longrightarrow> t = u"
  unfolding mgr_ok_def write_locked_def held_def using lstate.excl_single by fastforce

lemma try_acquire_granted:
  assumes "mgr_ok m" "try_acquire_lock m r t ty = (m', Inr g)"
  shows "g = \<lparr>lg_lock_id = r, lg_txn = t\<rparr>" "mgr_ok m'" "held m' = (held m)(r := (held m r)(t := held m r t + 1))"
    "write_locked m' = (write_locked m)(r := ty = WriteLock \<or> write_locked m r)"
proof -
  define st where "st = (case map_of (lm_locks m) r of Some st \<Rightarrow> st | None \<Rightarrow> lock_state_new)"
  have ok: "lock_ok st" using assms(1) by (auto simp: st_def mgr_ok_def split: option.split)
  have h: "lock_count st = held m r" "lock_excl st = write_locked m r"
    by (auto simp: st_def held_def write_locked_def lock_state_new_def lock_count_def fun_eq_iff split: option.split)
  have c: "can_acquire st t ty"
    and m': "m' = m\<lparr>lm_locks := AList.update r (remove_waiter (add_holder st t ty) t) (lm_locks m),
      lm_wait_graph := AList.delete t (lm_wait_graph m)\<rparr>" and g: "g = \<lparr>lg_lock_id = r, lg_txn = t\<rparr>"
    using assms(2) unfolding try_acquire_lock_def st_def [symmetric] Let_def by (auto split: if_splits)
  show "g = \<lparr>lg_lock_id = r, lg_txn = t\<rparr>" by (rule g)
  show "mgr_ok m'" unfolding m'
    using assms(1) add_holder_ok [OF ok c] by (auto simp: mgr_ok_def alist_simps)
  show "held m' = (held m)(r := (held m r)(t := held m r t + 1))"
    unfolding m' held_upd by (simp add: add_holder_count h)
  show "write_locked m' = (write_locked m)(r := ty = WriteLock \<or> write_locked m r)"
    unfolding m' write_locked_upd by (simp add: add_holder_excl h)
qed

lemma try_acquire_refused:
  assumes "mgr_ok m" "try_acquire_lock m r t ty = (m', Inl e)"
  shows "e = LockConflict r t ty" "mgr_ok m'" "held m' = held m" "write_locked m' = write_locked m"
proof -
  define st where "st = (case map_of (lm_locks m) r of Some st \<Rightarrow> st | None \<Rightarrow> lock_state_new)"
  have ok: "lock_ok st" using assms(1) by (auto simp: st_def mgr_ok_def split: option.split)
  have h: "lock_count st = held m r" "lock_excl st = write_locked m r"
    by (auto simp: st_def held_def write_locked_def lock_state_new_def lock_count_def fun_eq_iff split: option.split)
  have m': "m' = m\<lparr>lm_locks := AList.update r (add_waiter st t ty) (lm_locks m),
      lm_wait_graph := AList.update t (filter (\<lambda>h. h \<noteq> t) (ls_holders st)) (lm_wait_graph m)\<rparr>" "e = LockConflict r t ty"
    using assms(2) unfolding try_acquire_lock_def st_def [symmetric] Let_def by (auto split: if_splits)
  show "e = LockConflict r t ty" by (rule m')
  show "mgr_ok m'" unfolding m' using assms(1) ok by (auto simp: mgr_ok_def alist_simps)
  show "held m' = held m" unfolding m' held_upd by (simp add: h fun_eq_iff)
  show "write_locked m' = write_locked m" unfolding m' write_locked_upd by (simp add: h fun_eq_iff)
qed

lemma release_update_effect:
  assumes "mgr_ok m" "release_update m r t = (m', gone)"
  shows "mgr_ok m'" "held m' = (held m)(r := (held m r)(t := held m r t - 1))"
    "write_locked m' = (write_locked m)(r := write_locked m r \<and> (\<exists>u. held m' r u > 0))" "gone \<Longrightarrow> held m' r u = 0"
proof -
  have "mgr_ok m' \<and> held m' = (held m)(r := (held m r)(t := held m r t - 1))
    \<and> write_locked m' = (write_locked m)(r := write_locked m r \<and> (\<exists>u. held m' r u > 0)) \<and> (gone \<longrightarrow> held m' r u = 0)"
  proof (cases "map_of (lm_locks m) r")
    case None
    then show ?thesis using assms by (auto simp: release_update_def held_def write_locked_def fun_eq_iff)
  next
    case (Some st)
    have ok: "lock_ok st" using Some assms by (auto simp: mgr_ok_def)
    obtain st' full where rel: "release_once st t = (st', full)" by force
    have st': "lock_ok st'" "lock_count st' = (lock_count st)(t := lock_count st t - 1)"
        "lock_excl st' \<longleftrightarrow> lock_excl st \<and> (\<exists>u. lock_count st' u > 0)"
      using release_once_ok [OF ok, of t] release_once_count [OF ok, of t] release_once_excl [OF ok, of t] rel by auto
    have h: "held m r = lock_count st" "write_locked m r = lock_excl st" using Some by (auto simp: held_def write_locked_def fun_eq_iff)
    have m': "m' = m\<lparr>lm_locks := AList.update r st' (lm_locks m)\<rparr>" "gone \<longrightarrow> ls_holders st' = []" using assms(2) Some rel by (auto simp: release_update_def)
    have "mgr_ok m'" using assms(1) st'(1) by (auto simp: m' mgr_ok_def alist_simps)
    moreover have held': "held m' = (held m)(r := lock_count st')" unfolding m' by (rule held_upd)
    moreover have "write_locked m' = (write_locked m)(r := lock_excl st')" unfolding m' by (rule write_locked_upd)
    moreover have "gone \<longrightarrow> lock_count st' u = 0" using m'(2) lock_count_pos [OF st'(1), of u] by auto
    ultimately show ?thesis using st'(2,3) h by simp
  qed
  then show "mgr_ok m'" "held m' = (held m)(r := (held m r)(t := held m r t - 1))"
    "write_locked m' = (write_locked m)(r := write_locked m r \<and> (\<exists>u. held m' r u > 0))" "gone \<Longrightarrow> held m' r u = 0" by blast+
qed

lemma remove_entry_effect:
  "mgr_ok m \<Longrightarrow> mgr_ok (remove_entry r m)" "held (remove_entry r m) = (held m)(r := \<lambda>u. 0)"
  "write_locked (remove_entry r m) = (write_locked m)(r := False)"
  by (auto simp: remove_entry_def mgr_ok_def held_def write_locked_def alist_simps fun_eq_iff split: if_splits)

lemma remove_wait_effect [simp]:
  "mgr_ok m \<Longrightarrow> mgr_ok (remove_wait t m)" "held (remove_wait t m) = held m" "write_locked (remove_wait t m) = write_locked m"
  by (auto simp: remove_wait_def mgr_ok_def held_def write_locked_def alist_simps fun_eq_iff split: if_splits)

lemma remove_holder_excl: "lock_ok st \<Longrightarrow> lock_excl (remove_holder st t) \<longleftrightarrow> lock_excl st \<and> ls_holders (remove_holder st t) \<noteq> []"
  by (auto simp: remove_holder_def Let_def)

lemma cleanup_update_effect:
  assumes "mgr_ok m" "cleanup_update t r m = (m', gone)"
  shows "mgr_ok m'" "held m' = (held m)(r := (held m r)(t := 0))"
    "write_locked m' = (write_locked m)(r := write_locked m r \<and> (\<exists>u. held m' r u > 0))" "gone \<Longrightarrow> held m' r u = 0"
proof -
  have "mgr_ok m' \<and> held m' = (held m)(r := (held m r)(t := 0))
    \<and> write_locked m' = (write_locked m)(r := write_locked m r \<and> (\<exists>u. held m' r u > 0)) \<and> (gone \<longrightarrow> held m' r u = 0)"
  proof (cases "map_of (lm_locks m) r")
    case None
    then show ?thesis using assms by (auto simp: cleanup_update_def held_def write_locked_def fun_eq_iff)
  next
    case (Some st)
    let ?st = "remove_waiter (remove_holder st t) t"
    have ok: "lock_ok st" using Some assms by (auto simp: mgr_ok_def)
    have h: "held m r = lock_count st" "write_locked m r = lock_excl st" using Some by (auto simp: held_def write_locked_def fun_eq_iff)
    note ok' = remove_holder_ok [OF ok, of t]
    have ex: "(\<exists>u. lock_count (remove_holder st t) u > 0) \<longleftrightarrow> ls_holders (remove_holder st t) \<noteq> []"
      using lock_count_pos [OF ok'] by (metis list.set_intros(1) list.exhaust empty_iff empty_set)
    have m': "m' = m\<lparr>lm_locks := AList.update r ?st (lm_locks m)\<rparr>" "gone \<longrightarrow> ls_holders (remove_holder st t) = []"
      using assms(2) Some by (auto simp: cleanup_update_def Let_def)
    have "mgr_ok m'" using assms(1) ok' by (auto simp: m' mgr_ok_def alist_simps)
    moreover have "held m' = (held m)(r := (lock_count st)(t := 0))" unfolding m' held_upd by (simp add: remove_holder_count)
    moreover have "write_locked m' = (write_locked m)(r := lock_excl st \<and> ls_holders (remove_holder st t) \<noteq> [])"
      unfolding m' write_locked_upd by (simp add: remove_holder_excl [OF ok])
    moreover have "gone \<longrightarrow> lock_count (remove_holder st t) u = 0" using m'(2) ex by auto
    ultimately show ?thesis using ex h remove_holder_count [of st t] by simp
  qed
  then show "mgr_ok m'" "held m' = (held m)(r := (held m r)(t := 0))"
    "write_locked m' = (write_locked m)(r := write_locked m r \<and> (\<exists>u. held m' r u > 0))" "gone \<Longrightarrow> held m' r u = 0" by blast+
qed

section \<open>The system of transactions and guards\<close>

text \<open>
  Live guards are kept with the lock type they were granted for. A transaction whose clean-up has
  begun, as victim or after a failed acquisition, is aborted: it may still drop guards it holds, but it
  acquires nothing any more. The calls that are under way are pending, with what they still have to do; the
  keys a clean-up visits are those its iteration of the map happened to yield. Between the
  access to an entry and its removal other transactions run: \<open>race\<close> says whether one of them may
  be granted a lock on the entry that is about to be removed.
\<close>

datatype pending_call =
    Reaping string txn
  | Unwaiting txn
  | Cleaning txn "string list"
  | Clean_reaping txn string "string list"

record lock_system =
  sys_mgr :: lock_manager
  sys_guards :: "(lock_guard \<times> lock_type) list"
  sys_aborted :: "txn set"
  sys_pending :: "pending_call list"

definition reaped :: "lock_system \<Rightarrow> string set" where
  "reaped s = {r. \<exists>t ks. Reaping r t \<in> set (sys_pending s) \<or> Clean_reaping t r ks \<in> set (sys_pending s)}"

definition cleaned :: "lock_system \<Rightarrow> txn set" where
  "cleaned s = {t. \<exists>r ks. Cleaning t ks \<in> set (sys_pending s) \<or> Clean_reaping t r ks \<in> set (sys_pending s)}"

abbreviation continue :: "pending_call \<Rightarrow> pending_call \<Rightarrow> lock_system \<Rightarrow> lock_system" where
  "continue c c' s \<equiv> s\<lparr>sys_pending := c' # remove1 c (sys_pending s)\<rparr>"

inductive lock_step :: "bool \<Rightarrow> lock_system \<Rightarrow> lock_system \<Rightarrow> bool" for race where
  grant: "t \<notin> sys_aborted s \<Longrightarrow> race \<or> r \<notin> reaped s \<Longrightarrow> try_acquire_lock (sys_mgr s) r t ty = (m', Inr g) \<Longrightarrow>
    lock_step race s (s\<lparr>sys_mgr := m', sys_guards := (g, ty) # sys_guards s\<rparr>)"
| refuse: "t \<notin> sys_aborted s \<Longrightarrow> try_acquire_lock (sys_mgr s) r t ty = (m', Inl e) \<Longrightarrow> lock_step race s (s\<lparr>sys_mgr := m'\<rparr>)"
| clone: "(g, ty) \<in> set (sys_guards s) \<Longrightarrow>
    lock_step race s (s\<lparr>sys_mgr := fst (guard_clone (sys_mgr s) g), sys_guards := (g, ty) # sys_guards s\<rparr>)"
| drop: "(g, ty) \<in> set (sys_guards s) \<Longrightarrow> release_update (sys_mgr s) (lg_lock_id g) (lg_txn g) = (m', gone) \<Longrightarrow>
    lock_step race s (s\<lparr>sys_mgr := m', sys_guards := remove1 (g, ty) (sys_guards s),
      sys_pending := (if gone then Reaping (lg_lock_id g) (lg_txn g) else Unwaiting (lg_txn g)) # sys_pending s\<rparr>)"
| reap: "Reaping r t \<in> set (sys_pending s) \<Longrightarrow>
    lock_step race s (continue (Reaping r t) (Unwaiting t) (s\<lparr>sys_mgr := remove_entry r (sys_mgr s)\<rparr>))"
| unwait: "Unwaiting t \<in> set (sys_pending s) \<Longrightarrow>
    lock_step race s (s\<lparr>sys_mgr := remove_wait t (sys_mgr s), sys_pending := remove1 (Unwaiting t) (sys_pending s)\<rparr>)"
| abort: "lock_step race s (s\<lparr>sys_mgr := remove_wait t (sys_mgr s), sys_aborted := insert t (sys_aborted s), sys_pending := Cleaning t keys # sys_pending s\<rparr>)"
| clean: "Cleaning t (k # keys) \<in> set (sys_pending s) \<Longrightarrow> cleanup_update t k (sys_mgr s) = (m', gone) \<Longrightarrow>
    lock_step race s (continue (Cleaning t (k # keys)) (if gone then Clean_reaping t k keys else Cleaning t keys) (s\<lparr>sys_mgr := m'\<rparr>))"
| clean_reap: "Clean_reaping t k keys \<in> set (sys_pending s) \<Longrightarrow>
    lock_step race s (continue (Clean_reaping t k keys) (Cleaning t keys) (s\<lparr>sys_mgr := remove_entry k (sys_mgr s)\<rparr>))"

definition lock_system_init :: "nat \<Rightarrow> retry_policy \<Rightarrow> lock_system" where
  "lock_system_init timeout_ms retry = \<lparr>sys_mgr = manager_new timeout_ms retry, sys_guards = [], sys_aborted = {}, sys_pending = []\<rparr>"

definition guards_on :: "lock_system \<Rightarrow> string \<Rightarrow> txn \<Rightarrow> (lock_guard \<times> lock_type) list" where
  "guards_on s r t = filter (\<lambda>p. lg_lock_id (fst p) = r \<and> lg_txn (fst p) = t) (sys_guards s)"

definition sys_inv :: "lock_system \<Rightarrow> bool" where
  "sys_inv s \<longleftrightarrow> mgr_ok (sys_mgr s)
     \<and> (\<forall>r t. t \<notin> sys_aborted s \<longrightarrow> held (sys_mgr s) r t = length (guards_on s r t))
     \<and> (\<forall>g. (g, WriteLock) \<in> set (sys_guards s) \<longrightarrow> lg_txn g \<notin> sys_aborted s \<longrightarrow> write_locked (sys_mgr s) (lg_lock_id g))
     \<and> (\<forall>r \<in> reaped s. \<forall>t. held (sys_mgr s) r t = 0) \<and> cleaned s \<subseteq> sys_aborted s"

lemma clone_effect:
  assumes "mgr_ok m"
  shows "mgr_ok (fst (guard_clone m g))"
    "held (fst (guard_clone m g)) = (held m)(lg_lock_id g := (held m (lg_lock_id g))
       (lg_txn g := (if held m (lg_lock_id g) (lg_txn g) > 0 then held m (lg_lock_id g) (lg_txn g) + 1 else 0)))"
    "write_locked (fst (guard_clone m g)) = write_locked m"
proof -
  have "mgr_ok (fst (guard_clone m g)) \<and> write_locked (fst (guard_clone m g)) = write_locked m
    \<and> held (fst (guard_clone m g)) = (held m)(lg_lock_id g := (held m (lg_lock_id g))
       (lg_txn g := (if held m (lg_lock_id g) (lg_txn g) > 0 then held m (lg_lock_id g) (lg_txn g) + 1 else 0)))"
  proof (cases "map_of (lm_locks m) (lg_lock_id g)")
    case None
    then show ?thesis using assms by (auto simp: guard_clone_def held_def fun_eq_iff)
  next
    case (Some st)
    have ok: "lock_ok st" using Some assms by (auto simp: mgr_ok_def)
    have d: "lock_ok (duplicate_acquisition st (lg_txn g))"
      using ok by (auto simp: duplicate_acquisition_def lock_ok_def alist_simps split: option.splits)
    have c: "lock_count (duplicate_acquisition st (lg_txn g)) = (lock_count st)
        (lg_txn g := (if lock_count st (lg_txn g) > 0 then lock_count st (lg_txn g) + 1 else 0))"
    proof (cases "map_of (ls_counts st) (lg_txn g)")
      case (Some c)
      then have "c \<ge> 1" using ok by (simp add: lock_ok_def)
      then show ?thesis using Some by (auto simp: duplicate_acquisition_def lock_count_def alist_simps fun_eq_iff)
    qed (auto simp: duplicate_acquisition_def lock_count_def fun_eq_iff)
    have h: "held m (lg_lock_id g) = lock_count st" "write_locked m (lg_lock_id g) = lock_excl st"
      using Some by (auto simp: held_def write_locked_def fun_eq_iff)
    have "ls_type (duplicate_acquisition st (lg_txn g)) = ls_type st"
      by (simp add: duplicate_acquisition_def split: option.split)
    then show ?thesis
      using assms d c h by (auto simp: guard_clone_def Some held_upd write_locked_upd mgr_ok_def alist_simps fun_eq_iff)
  qed
  then show "mgr_ok (fst (guard_clone m g))"
    "held (fst (guard_clone m g)) = (held m)(lg_lock_id g := (held m (lg_lock_id g))
       (lg_txn g := (if held m (lg_lock_id g) (lg_txn g) > 0 then held m (lg_lock_id g) (lg_txn g) + 1 else 0)))"
    "write_locked (fst (guard_clone m g)) = write_locked m" by blast+
qed

lemma guards_on_remove:
  assumes "(g, ty) \<in> set (sys_guards s)"
  shows "length (filter (\<lambda>p. lg_lock_id (fst p) = r \<and> lg_txn (fst p) = t) (remove1 (g, ty) (sys_guards s))) =
     length (guards_on s r t) - (if lg_lock_id g = r \<and> lg_txn g = t then 1 else 0)"
  using assms by (simp add: guards_on_def filter_remove1 length_remove1)

lemma guards_on_pos: "(g, ty) \<in> set (sys_guards s) \<Longrightarrow> length (guards_on s (lg_lock_id g) (lg_txn g)) > 0"
  by (rule length_pos_if_in_set [of "(g, ty)"]) (simp add: guards_on_def)

lemma held_guard: "sys_inv s \<Longrightarrow> (g, ty) \<in> set (sys_guards s) \<Longrightarrow> lg_txn g \<notin> sys_aborted s \<Longrightarrow>
    held (sys_mgr s) (lg_lock_id g) (lg_txn g) > 0"
  using guards_on_pos [of g ty s] by (simp add: sys_inv_def)

text \<open>A step that takes nothing away from the guards that stay alive keeps the locks of the writers.\<close>

lemma sys_invI:
  assumes "sys_inv s" "mgr_ok (sys_mgr s')" "sys_aborted s \<subseteq> sys_aborted s'" "set (sys_guards s') \<subseteq> set (sys_guards s)"
    and held: "\<And>r t. t \<notin> sys_aborted s' \<Longrightarrow> held (sys_mgr s') r t = length (guards_on s' r t)"
    and kept: "\<And>r. write_locked (sys_mgr s) r \<Longrightarrow> (\<exists>u. held (sys_mgr s') r u > 0) \<Longrightarrow> write_locked (sys_mgr s') r"
    and reaped: "\<And>r t. r \<in> reaped s' \<Longrightarrow> held (sys_mgr s') r t = 0" and cleaned: "cleaned s' \<subseteq> sys_aborted s'"
  shows "sys_inv s'"
proof -
  have "write_locked (sys_mgr s') (lg_lock_id g)" if g: "(g, WriteLock) \<in> set (sys_guards s')" "lg_txn g \<notin> sys_aborted s'" for g
  proof (rule kept)
    show "write_locked (sys_mgr s) (lg_lock_id g)" using assms(1,3,4) g by (auto simp: sys_inv_def)
    have "held (sys_mgr s') (lg_lock_id g) (lg_txn g) > 0" using held [OF g(2)] guards_on_pos [OF g(1)] by simp
    then show "\<exists>u. held (sys_mgr s') (lg_lock_id g) u > 0" by blast
  qed
  then show ?thesis using assms(2) held reaped cleaned by (simp add: sys_inv_def)
qed

lemma pending_remove: "c \<in> set (remove1 d cs) \<Longrightarrow> c \<in> set cs"
  using set_remove1_subset by fastforce

lemmas pending_defs = reaped_def cleaned_def

lemma sys_inv_step: "lock_step False s s' \<Longrightarrow> sys_inv s \<Longrightarrow> sys_inv s'"
proof (induction rule: lock_step.induct)
  case (grant t s r ty m' g)
  have ok: "mgr_ok (sys_mgr s)" using grant.prems by (simp add: sys_inv_def)
  note e = try_acquire_granted [OF ok grant.hyps(3)]
  show ?case using grant.prems grant.hyps(1,2) e by (auto simp: sys_inv_def guards_on_def pending_defs)
next
  case (refuse t s r ty m' e)
  have ok: "mgr_ok (sys_mgr s)" using refuse.prems by (simp add: sys_inv_def)
  from try_acquire_refused [OF ok refuse.hyps(2)] refuse.prems show ?case by (simp add: sys_inv_def guards_on_def pending_defs)
next
  case (clone g ty s)
  have ok: "mgr_ok (sys_mgr s)" using clone.prems by (simp add: sys_inv_def)
  note e = clone_effect [OF ok, of g]
  let ?s = "s\<lparr>sys_mgr := fst (guard_clone (sys_mgr s) g), sys_guards := (g, ty) # sys_guards s\<rparr>"
  have p: "reaped ?s = reaped s" "cleaned ?s = cleaned s" by (simp_all add: pending_defs)
  have inv: "\<And>r t. t \<notin> sys_aborted s \<Longrightarrow> held (sys_mgr s) r t = length (guards_on s r t)"
    "\<And>r t. r \<in> reaped s \<Longrightarrow> held (sys_mgr s) r t = 0" "cleaned s \<subseteq> sys_aborted s" using clone.prems by (auto simp: sys_inv_def)
  show ?case
  proof (rule sys_invI [OF clone.prems])
    show "held (sys_mgr ?s) r t = length (guards_on ?s r t)" if "t \<notin> sys_aborted ?s" for r t
      using that inv(1) [of t] held_guard [OF clone.prems clone.hyps] by (auto simp: e(2) guards_on_def)
    show "held (sys_mgr ?s) r t = 0" if "r \<in> reaped ?s" for r t using inv(2) [of r] that p(1) by (auto simp: e(2))
  qed (use clone.hyps e p inv(3) in simp_all)
next
  case (drop g ty s m' gone)
  have ok: "mgr_ok (sys_mgr s)" and inv: "\<And>r t. t \<notin> sys_aborted s \<Longrightarrow> held (sys_mgr s) r t = length (guards_on s r t)"
    "\<And>r t. r \<in> reaped s \<Longrightarrow> held (sys_mgr s) r t = 0" "cleaned s \<subseteq> sys_aborted s" using drop.prems by (auto simp: sys_inv_def)
  note e = release_update_effect [OF ok drop.hyps(2)]
  let ?s = "s\<lparr>sys_mgr := m', sys_guards := remove1 (g, ty) (sys_guards s),
      sys_pending := (if gone then Reaping (lg_lock_id g) (lg_txn g) else Unwaiting (lg_txn g)) # sys_pending s\<rparr>"
  have p: "reaped ?s \<subseteq> reaped s \<union> (if gone then {lg_lock_id g} else {})" "cleaned ?s = cleaned s" by (auto simp: pending_defs split: if_splits)
  have reaped: "held m' r t = 0" if "r \<in> reaped ?s" for r t
  proof (cases "r \<in> reaped s")
    case True
    from inv(2) [OF this] show ?thesis by (auto simp: e(2))
  next
    case False
    then show ?thesis using that p(1) e(4) by (auto split: if_splits)
  qed
  show ?case
  proof (rule sys_invI [OF drop.prems])
    fix r t assume "t \<notin> sys_aborted ?s"
    then show "held (sys_mgr ?s) r t = length (guards_on ?s r t)"
      using inv(1) [of t] by (auto simp: guards_on_def [of ?s] guards_on_remove [OF drop.hyps(1)] e(2))
  next
    show "set (sys_guards ?s) \<subseteq> set (sys_guards s)" by (auto dest: pending_remove)
    show "write_locked (sys_mgr ?s) r" if "write_locked (sys_mgr s) r" "\<exists>u. held (sys_mgr ?s) r u > 0" for r using that by (auto simp: e(3))
  qed (use e(1) reaped p(2) inv(3) in simp_all)
next
  case (reap r t s)
  let ?s = "continue (Reaping r t) (Unwaiting t) (s\<lparr>sys_mgr := remove_entry r (sys_mgr s)\<rparr>)"
  have "r \<in> reaped s" using reap.hyps by (auto simp: reaped_def)
  then have h: "(held (sys_mgr s))(r := \<lambda>u. 0) = held (sys_mgr s)" using reap.prems by (auto simp: sys_inv_def fun_eq_iff)
  have p: "reaped ?s \<subseteq> reaped s" "cleaned ?s \<subseteq> cleaned s" by (auto simp: pending_defs dest!: pending_remove)
  show ?case
  proof (rule sys_invI [OF reap.prems])
    show "write_locked (sys_mgr ?s) q" if "write_locked (sys_mgr s) q" "\<exists>u. held (sys_mgr ?s) q u > 0" for q
      using that by (auto simp: remove_entry_effect split: if_splits)
  qed (use reap.prems p in \<open>auto simp: remove_entry_effect h sys_inv_def guards_on_def\<close>)
next
  case (unwait t s)
  let ?s = "s\<lparr>sys_mgr := remove_wait t (sys_mgr s), sys_pending := remove1 (Unwaiting t) (sys_pending s)\<rparr>"
  have p: "reaped ?s \<subseteq> reaped s" "cleaned ?s \<subseteq> cleaned s" by (auto simp: pending_defs dest!: pending_remove)
  show ?case by (rule sys_invI [OF unwait.prems]) (use unwait.prems p in \<open>auto simp: sys_inv_def guards_on_def\<close>)
next
  case (abort s t keys)
  let ?s = "s\<lparr>sys_mgr := remove_wait t (sys_mgr s), sys_aborted := insert t (sys_aborted s), sys_pending := Cleaning t keys # sys_pending s\<rparr>"
  have p: "reaped ?s = reaped s" "cleaned ?s = insert t (cleaned s)" by (auto simp: pending_defs)
  show ?case by (rule sys_invI [OF abort.prems]) (use abort.prems p in \<open>auto simp: sys_inv_def guards_on_def\<close>)
next
  case (clean t k keys s m' gone)
  have ok: "mgr_ok (sys_mgr s)" and inv: "\<And>r t. t \<notin> sys_aborted s \<Longrightarrow> held (sys_mgr s) r t = length (guards_on s r t)"
    "\<And>r t. r \<in> reaped s \<Longrightarrow> held (sys_mgr s) r t = 0" "cleaned s \<subseteq> sys_aborted s" using clean.prems by (auto simp: sys_inv_def)
  note e = cleanup_update_effect [OF ok clean.hyps(2)]
  let ?s = "continue (Cleaning t (k # keys)) (if gone then Clean_reaping t k keys else Cleaning t keys) (s\<lparr>sys_mgr := m'\<rparr>)"
  have t: "t \<in> sys_aborted s" using clean.hyps(1) inv(3) by (auto simp: cleaned_def)
  have p: "reaped ?s \<subseteq> reaped s \<union> (if gone then {k} else {})" "cleaned ?s \<subseteq> insert t (cleaned s)"
    by (auto simp: pending_defs dest!: pending_remove split: if_splits)
  have reaped: "held m' r u = 0" if "r \<in> reaped ?s" for r u
  proof (cases "r \<in> reaped s")
    case True
    from inv(2) [OF this] show ?thesis by (auto simp: e(2))
  next
    case False
    then show ?thesis using that p(1) e(4) by (auto split: if_splits)
  qed
  show ?case
  proof (rule sys_invI [OF clean.prems])
    show "write_locked (sys_mgr ?s) q" if "write_locked (sys_mgr s) q" "\<exists>u. held (sys_mgr ?s) q u > 0" for q using that by (auto simp: e(3))
    show "held (sys_mgr ?s) q u = length (guards_on ?s q u)" if "u \<notin> sys_aborted ?s" for q u using that inv(1) t by (auto simp: e(2) guards_on_def)
    show "cleaned ?s \<subseteq> sys_aborted ?s" using p(2) t inv(3) by auto
  qed (use e(1) reaped in simp_all)
next
  case (clean_reap t k keys s)
  let ?s = "continue (Clean_reaping t k keys) (Cleaning t keys) (s\<lparr>sys_mgr := remove_entry k (sys_mgr s)\<rparr>)"
  have "k \<in> reaped s" "t \<in> cleaned s" using clean_reap.hyps by (auto simp: pending_defs)
  then have h: "(held (sys_mgr s))(k := \<lambda>u. 0) = held (sys_mgr s)" using clean_reap.prems by (auto simp: sys_inv_def fun_eq_iff)
  have p: "reaped ?s \<subseteq> reaped s" "cleaned ?s \<subseteq> cleaned s" using \<open>t \<in> cleaned s\<close> by (auto simp: pending_defs dest!: pending_remove)
  show ?case
  proof (rule sys_invI [OF clean_reap.prems])
    show "write_locked (sys_mgr ?s) q" if "write_locked (sys_mgr s) q" "\<exists>u. held (sys_mgr ?s) q u > 0" for q
      using that by (auto simp: remove_entry_effect split: if_splits)
  qed (use clean_reap.prems p in \<open>auto simp: remove_entry_effect h sys_inv_def guards_on_def\<close>)
qed

lemma sys_inv_init: "sys_inv (lock_system_init timeout_ms retry)"
  by (simp add: sys_inv_def lock_system_init_def manager_new_def mgr_ok_def held_def guards_on_def pending_defs)

lemma sys_inv_reachable: "(lock_step False)\<^sup>*\<^sup>* (lock_system_init timeout_ms retry) s \<Longrightarrow> sys_inv s"
  by (induction rule: rtranclp_induct) (auto intro: sys_inv_init sys_inv_step)

section \<open>Statement retry\<close>

definition u64_max :: nat where
  "u64_max = 2 ^ 64 - 1"

text \<open>The upper end of the jitter interval of \<open>backoff_delay\<close>; the random draw is an argument.\<close>

definition backoff_ceiling :: "retry_policy \<Rightarrow> nat \<Rightarrow> nat" where
  "backoff_ceiling p retry_number =
     (let base = max (rp_backoff_base_ms p) 1;
          cap = max (rp_backoff_cap_ms p) base;
          shift = min (retry_number - 1) 63
      in min (min (base * 2 ^ shift) u64_max) cap)"

definition backoff_delay :: "retry_policy \<Rightarrow> (nat \<Rightarrow> nat) \<Rightarrow> nat \<Rightarrow> nat" where
  "backoff_delay p gen_range retry_number = gen_range (backoff_ceiling p retry_number)"

definition retry_after :: "retry_policy \<Rightarrow> (nat \<Rightarrow> nat) \<Rightarrow> nat \<Rightarrow> lock_error \<Rightarrow> nat option" where
  "retry_after p gen_range retries_done e =
     (if rp_max_attempts p = 0 \<or> retries_done \<ge> rp_max_attempts p then None
      else case e of WriteConflict _ _ _ _ _ \<Rightarrow> Some (backoff_delay p gen_range (retries_done + 1)) | _ \<Rightarrow> None)"

lemma backoff_ceiling_bounds:
  "1 \<le> backoff_ceiling p n" "backoff_ceiling p n \<le> max (rp_backoff_cap_ms p) (max (rp_backoff_base_ms p) 1)"
proof -
  have "1 \<le> max (rp_backoff_base_ms p) 1 * 2 ^ min (n - 1) 63" by simp
  moreover have "1 \<le> u64_max" by (simp add: u64_max_def)
  ultimately show "1 \<le> backoff_ceiling p n" unfolding backoff_ceiling_def Let_def by (simp add: le_max_iff_disj)
  show "backoff_ceiling p n \<le> max (rp_backoff_cap_ms p) (max (rp_backoff_base_ms p) 1)"
    by (simp add: backoff_ceiling_def Let_def)
qed

lemma backoff_ceiling_mono: "n \<le> n' \<Longrightarrow> backoff_ceiling p n \<le> backoff_ceiling p n'"
proof -
  assume "n \<le> n'"
  then have "max (rp_backoff_base_ms p) 1 * 2 ^ min (n - 1) 63 \<le> max (rp_backoff_base_ms p) 1 * 2 ^ min (n' - 1) 63"
    by (intro mult_le_mono2 power_increasing) auto
  then show ?thesis unfolding backoff_ceiling_def Let_def by (intro min.mono) auto
qed

section \<open>Properties\<close>

lemma holder_held: "mgr_ok m \<Longrightarrow> t \<in> set (get_lock_holders m r) \<longleftrightarrow> held m r t > 0"
  by (cases "map_of (lm_locks m) r") (auto simp: get_lock_holders_def held_def mgr_ok_def lock_count_pos)

text \<open>Acquiring and releasing a lock that nobody else uses, step by step.\<close>

definition write_guard :: "string \<Rightarrow> txn \<Rightarrow> lock_guard" where
  "write_guard r t = \<lparr>lg_lock_id = r, lg_txn = t\<rparr>"

definition with_holder :: "string \<Rightarrow> txn \<Rightarrow> lock_manager \<Rightarrow> lock_manager" where
  "with_holder r t m = m\<lparr>lm_locks := [(r, \<lparr>ls_holders = [t], ls_type = Some WriteLock, ls_waiters = [], ls_counts = [(t, 1)]\<rparr>)]\<rparr>"

definition with_empty :: "string \<Rightarrow> lock_manager \<Rightarrow> lock_manager" where
  "with_empty r m = m\<lparr>lm_locks := [(r, lock_state_new)]\<rparr>"

lemma acquire_alone:
  "lm_wait_graph m = [] \<Longrightarrow> try_acquire_lock (m\<lparr>lm_locks := []\<rparr>) r t WriteLock = (with_holder r t m, Inr (write_guard r t))"
  "lm_wait_graph m = [] \<Longrightarrow> try_acquire_lock (with_empty r m) r t WriteLock = (with_holder r t m, Inr (write_guard r t))"
  "release_update (with_holder r t m) r t = (with_empty r m, True)" "remove_entry r (with_holder r t m) = m\<lparr>lm_locks := []\<rparr>"
  by (simp_all add: try_acquire_lock_def with_holder_def with_empty_def write_guard_def lock_state_new_def can_acquire_def add_holder_def
      remove_waiter_def release_update_def release_once_def remove_holder_def remove_entry_def)

lemma write_guard_simps [simp]: "lg_lock_id (write_guard r t) = r" "lg_txn (write_guard r t) = t"
  by (simp_all add: write_guard_def)

definition holding :: "string \<Rightarrow> txn \<Rightarrow> lock_system \<Rightarrow> lock_system" where
  "holding r t s = s\<lparr>sys_mgr := with_holder r t (sys_mgr s), sys_guards := (write_guard r t, WriteLock) # sys_guards s\<rparr>"

lemma first_grant: "lock_step race (lock_system_init timeout_ms retry) (holding r t (lock_system_init timeout_ms retry))"
proof -
  have "sys_mgr (lock_system_init timeout_ms retry) = (manager_new timeout_ms retry)\<lparr>lm_locks := []\<rparr>" by (simp add: lock_system_init_def manager_new_def)
  then have "try_acquire_lock (sys_mgr (lock_system_init timeout_ms retry)) r t WriteLock
      = (with_holder r t (sys_mgr (lock_system_init timeout_ms retry)), Inr (write_guard r t))"
    using acquire_alone(1) [of "manager_new timeout_ms retry" r t] by (simp add: manager_new_def with_holder_def)
  from lock_step.grant [OF _ _ this] show ?thesis by (simp add: holding_def lock_system_init_def pending_defs)
qed

text \<open>
  C15. Mutual exclusion, while no lock is granted on an entry that is about to be removed: in every
  state reached by any interleaving of grants, refusals, guard clones, the steps of guard drops and the steps of
  clean-ups, a guard granted for writing and any other guard on the same resource belong to the
  same transaction, unless one of the two transactions is aborted (an aborted transaction asks for no
  more locks). The proviso is that between the access by which the last holder empties an entry and the
  removal of that entry nobody is granted it; the next theorem shows what happens otherwise.
\<close>

theorem lock_mutual_exclusion:
  assumes "(lock_step False)\<^sup>*\<^sup>* (lock_system_init timeout_ms retry) s"
    and "(g, WriteLock) \<in> set (sys_guards s)" "(h, ty) \<in> set (sys_guards s)" "lg_lock_id g = lg_lock_id h"
    and "lg_txn g \<notin> sys_aborted s" "lg_txn h \<notin> sys_aborted s"
  shows "lg_txn g = lg_txn h"
proof -
  have inv: "sys_inv s" using assms(1) by (rule sys_inv_reachable)
  have "write_locked (sys_mgr s) (lg_lock_id g)" "mgr_ok (sys_mgr s)"
    using inv assms(2,5) by (auto simp: sys_inv_def)
  then show ?thesis
    using write_locked_single held_guard [OF inv assms(2,5)] held_guard [OF inv assms(3,6)] assms(4) by simp
qed

theorem lock_mutual_exclusion_witness:
  "let s = holding ''a'' 1 (lock_system_init 1000 retry_disabled)
   in (write_guard ''a'' 1, WriteLock) \<in> set (sys_guards s) \<and> (write_guard ''a'' 2, ReadLock) \<notin> set (sys_guards s)"
proof -
  let ?s = "holding ''a'' 1 (lock_system_init 1000 retry_disabled)"
  have run: "(lock_step False)\<^sup>*\<^sup>* (lock_system_init 1000 retry_disabled) ?s" using first_grant by blast
  have g: "(write_guard ''a'' 1, WriteLock) \<in> set (sys_guards ?s)" "sys_aborted ?s = {}" by (simp_all add: holding_def lock_system_init_def)
  have "(write_guard ''a'' 2, ReadLock) \<notin> set (sys_guards ?s)"
    using lock_mutual_exclusion [OF run g(1), of "write_guard ''a'' 2" ReadLock] g(2) by auto
  then show ?thesis using g(1) by (simp add: Let_def)
qed

text \<open>
  C35. Without that proviso mutual exclusion fails. A transaction drops the last guard on a resource and finds the
  entry empty; before it removes the entry a second transaction is granted the write lock on
  it; the removal takes the entry of the second transaction away, and a third one is granted the same write
  lock. For every resource and any two transactions \<open>u\<close> and \<open>w\<close>, both write guards are then live and no transaction is aborted.
\<close>

theorem removal_race_breaks_exclusion:
  "\<exists>s. (lock_step True)\<^sup>*\<^sup>* (lock_system_init timeout_ms retry) s \<and> sys_aborted s = {}
     \<and> (write_guard r u, WriteLock) \<in> set (sys_guards s) \<and> (write_guard r w, WriteLock) \<in> set (sys_guards s)"
proof -
  let ?m = "manager_new timeout_ms retry"
  let ?s1 = "holding r t (lock_system_init timeout_ms retry)"
  let ?s2 = "\<lparr>sys_mgr = with_empty r ?m, sys_guards = [], sys_aborted = {}, sys_pending = [Reaping r t]\<rparr>"
  let ?s3 = "\<lparr>sys_mgr = with_holder r u ?m, sys_guards = [(write_guard r u, WriteLock)], sys_aborted = {}, sys_pending = [Reaping r t]\<rparr>"
  let ?s4 = "\<lparr>sys_mgr = ?m\<lparr>lm_locks := []\<rparr>, sys_guards = [(write_guard r u, WriteLock)], sys_aborted = {}, sys_pending = [Unwaiting t]\<rparr>"
  let ?s5 = "\<lparr>sys_mgr = with_holder r w ?m, sys_guards = [(write_guard r w, WriteLock), (write_guard r u, WriteLock)], sys_aborted = {}, sys_pending = [Unwaiting t]\<rparr>"
  have g: "lm_wait_graph ?m = []" by (simp add: manager_new_def)
  have "lock_step True ?s1 ?s2"
    using lock_step.drop [of "write_guard r t" WriteLock ?s1 "with_empty r ?m" True True] acquire_alone(3) [of r t ?m]
    by (simp add: holding_def lock_system_init_def)
  moreover have "lock_step True ?s2 ?s3"
    using lock_step.grant [of u ?s2 True r WriteLock, OF _ _ ] acquire_alone(2) [OF g, of r u] by simp
  moreover have "lock_step True ?s3 ?s4" using lock_step.reap [of r t ?s3 True] by (simp add: acquire_alone(4))
  moreover have "lock_step True ?s4 ?s5" using lock_step.grant [of w ?s4 True r WriteLock] acquire_alone(1) [OF g, of r w] by simp
  ultimately have "(lock_step True)\<^sup>*\<^sup>* (lock_system_init timeout_ms retry) ?s5" using first_grant [of True timeout_ms retry r t]
    by (meson converse_rtranclp_into_rtranclp rtranclp.rtrancl_refl)
  then show ?thesis by (intro exI [of _ ?s5]) simp
qed

text \<open>
  Guard accounting, under the same proviso: a transaction that was not aborted is a holder of a
  resource exactly while it has a live guard on it, and its acquisition count is the number of those guards.
\<close>

theorem lock_guard_accounting:
  assumes "(lock_step False)\<^sup>*\<^sup>* (lock_system_init timeout_ms retry) s" "t \<notin> sys_aborted s"
  shows "(t \<in> set (get_lock_holders (sys_mgr s) r) \<longleftrightarrow> guards_on s r t \<noteq> []) \<and> held (sys_mgr s) r t = length (guards_on s r t)"
proof -
  have inv: "sys_inv s" using assms(1) by (rule sys_inv_reachable)
  then have "mgr_ok (sys_mgr s)" by (simp add: sys_inv_def)
  from holder_held [OF this] show ?thesis using inv assms(2) by (simp add: sys_inv_def)
qed

theorem lock_guard_accounting_witness:
  "let s = holding ''a'' 1 (lock_system_init 1000 retry_disabled) in held (sys_mgr s) ''a'' 1 = 1 \<and> 1 \<in> set (get_lock_holders (sys_mgr s) ''a'')"
proof -
  have "(lock_step False)\<^sup>*\<^sup>* (lock_system_init 1000 retry_disabled) (holding ''a'' 1 (lock_system_init 1000 retry_disabled))" using first_grant by blast
  from lock_guard_accounting [OF this, of 1 "''a''"] show ?thesis by (simp add: holding_def lock_system_init_def guards_on_def Let_def)
qed

text \<open>
  C33. Deadlock detection always ends, reports every transaction that is on a cycle of waiting transactions,
  and reports nobody when the wait-for graph has no cycle at all. (A transaction outside a cycle that waits for
  one is reported as well, see \<open>bystander_reported\<close>.)
\<close>

theorem deadlocks_found:
  "((t, t) \<in> (wait_edges (lm_wait_graph m))\<^sup>+ \<longrightarrow> detect_deadlock m t = Some True)
   \<and> ((\<forall>c. (c, c) \<notin> (wait_edges (lm_wait_graph m))\<^sup>+) \<longrightarrow> detect_deadlock m t = Some False) \<and> detect_deadlock m t \<noteq> None"
  unfolding detect_deadlock_iff by blast

theorem deadlocks_found_witness:
  "let m = (manager_new 1000 retry_disabled)\<lparr>lm_wait_graph := [(1, [2]), (2, [1])]\<rparr> in detect_deadlock m 1 = Some True"
proof -
  have "(1, 2) \<in> wait_edges [(1, [2]), (2, [1])]" "(2, 1) \<in> wait_edges [(1, [2]), (2, [1 :: txn])]" by (simp_all add: wait_edges_def)
  then have "(1, 1) \<in> (wait_edges [(1, [2]), (2, [1])])\<^sup>+" by (meson trancl.simps)
  then show ?thesis using deadlocks_found [of 1 "(manager_new 1000 retry_disabled)\<lparr>lm_wait_graph := [(1, [2]), (2, [1])]\<rparr>"] by (simp add: Let_def)
qed

text \<open>
  Re-entrancy: a transaction that holds a write lock with \<open>n\<close> acquisitions can always
  take it again, and after fewer than \<open>n\<close> releases nobody else can acquire it in any mode.
\<close>

theorem lock_reentrant:
  assumes "lock_ok st" "ls_type st = Some WriteLock" "m < lock_count st t"
  shows "can_acquire st t ty \<and> (u \<noteq> t \<longrightarrow> \<not> can_acquire (((\<lambda>st. fst (release_once st t)) ^^ m) st) u ty')"
  using lstate.holder_reacquires [OF assms(1,2)] lstate.blocked_until_last_release [OF assms] assms(3) by simp

theorem lock_reentrant_witness:
  "can_acquire (add_holder (add_holder lock_state_new 7 WriteLock) 7 ReadLock) 7 ReadLock
   \<and> \<not> can_acquire (((\<lambda>st. fst (release_once st 7)) ^^ 1) (add_holder (add_holder lock_state_new 7 WriteLock) 7 ReadLock)) 8 ReadLock"
proof -
  let ?st = "add_holder (add_holder lock_state_new 7 WriteLock) 7 ReadLock"
  have "can_acquire lock_state_new 7 WriteLock" "can_acquire (add_holder lock_state_new 7 WriteLock) 7 ReadLock"
      "ls_type ?st = Some WriteLock" "1 < lock_count ?st 7" by code_simp+
  then have "lock_ok ?st" by (intro add_holder_ok) simp_all
  from lock_reentrant [OF this \<open>ls_type ?st = Some WriteLock\<close> \<open>1 < lock_count ?st 7\<close>, of ReadLock 8 ReadLock]
  show ?thesis by simp
qed

text \<open>
  A retry is granted only after a write conflict and at most \<open>max_attempts\<close> times, with a
  delay between zero and the configured cap (never below the base), provided the random draw
  respects its range; the ceiling never shrinks from one retry to the next.
\<close>

theorem retry_after_bounded:
  assumes "retry_after p gen_range k e = Some d" "\<And>n. gen_range n \<le> n"
  shows "k < rp_max_attempts p \<and> (\<exists>table row holder txn timeout. e = WriteConflict table row holder txn timeout)
    \<and> d \<le> max (rp_backoff_cap_ms p) (max (rp_backoff_base_ms p) 1)
    \<and> backoff_ceiling p k \<le> backoff_ceiling p (k + 1)"
  using assms(1) order_trans [OF assms(2) backoff_ceiling_bounds(2)] backoff_ceiling_mono [of k "k + 1" p]
  by (auto simp: retry_after_def backoff_delay_def split: if_splits lock_error.splits)

theorem retry_after_bounded_witness:
  "retry_after \<lparr>rp_max_attempts = 3, rp_backoff_base_ms = 5, rp_backoff_cap_ms = 100\<rparr> (\<lambda>n. n) 1 (WriteConflict [] [] 1 2 0) = Some 10
   \<and> (10 :: nat) \<le> 100"
proof -
  let ?p = "\<lparr>rp_max_attempts = 3, rp_backoff_base_ms = 5, rp_backoff_cap_ms = 100\<rparr>"
  have r: "retry_after ?p (\<lambda>n. n) 1 (WriteConflict [] [] 1 2 0) = Some 10"
    by (simp add: retry_after_def backoff_delay_def backoff_ceiling_def u64_max_def Let_def)
  from retry_after_bounded [OF this] show ?thesis using r by simp
qed

text \<open>Two transactions on two resources; the first waits for the second.\<close>

definition waiting_manager :: lock_manager where
  "waiting_manager =
     (let m = manager_new 1000 retry_disabled;
          m = fst (acquire_iteration m ''data:t:1'' 2 WriteLock False);
          m = fst (acquire_iteration m ''data:t:2'' 1 WriteLock False)
      in fst (acquire_iteration m ''data:t:1'' 1 WriteLock False))"

text \<open>
  Releasing a lock leaves the edges of its waiters in the wait-for graph until each of them
  retries: a transaction that has released the only resource another one waits for can still be
  aborted as a deadlock victim, although no transaction is blocked by it any more.
\<close>

theorem stale_wait_edge_aborts:
  "let m = release_lock_internal waiting_manager ''data:t:1'' 2
   in \<not> is_locked m ''data:t:1'' \<and> get_lock_holders m ''data:t:2'' = [1]
      \<and> snd (acquire_iteration m ''data:t:2'' 2 WriteLock False) = AcquireError (DeadlockError 2)"
  by code_simp

text \<open>
  The test also reports a transaction that waits, directly or through others, for a transaction on a cycle
  without being on a cycle itself.
\<close>

theorem bystander_reported:
  assumes "(t, c) \<in> (wait_edges (lm_wait_graph m))\<^sup>*" "(c, c) \<in> (wait_edges (lm_wait_graph m))\<^sup>+" "(t, t) \<notin> (wait_edges (lm_wait_graph m))\<^sup>+"
  shows "detect_deadlock m t = Some True"
  using assms unfolding detect_deadlock_iff by blast

theorem bystander_reported_witness:
  "let m = (manager_new 1000 retry_disabled)\<lparr>lm_wait_graph := [(1, [2]), (2, [1]), (3, [1])]\<rparr>
   in detect_deadlock m 3 = Some True \<and> (3, 3) \<notin> (wait_edges (lm_wait_graph m))\<^sup>+"
proof -
  let ?g = "[(1, [2]), (2, [1]), (3, [1])] :: (txn \<times> txn list) list"
  have "y \<noteq> 3" if "(x, y) \<in> (wait_edges ?g)\<^sup>+" for x y
    using that by (induction rule: trancl_induct) (auto simp: wait_edges_def split: if_splits)
  then have n: "(3, 3) \<notin> (wait_edges ?g)\<^sup>+" by blast
  have e: "(1, 2) \<in> wait_edges ?g" "(2, 1) \<in> wait_edges ?g" "(3, 1) \<in> wait_edges ?g" by (simp_all add: wait_edges_def)
  then have "(1, 1) \<in> (wait_edges ?g)\<^sup>+" "(3, 1) \<in> (wait_edges ?g)\<^sup>*" by (meson trancl.simps) (use e(3) in blast)
  then show ?thesis using bystander_reported [of 3 1 "(manager_new 1000 retry_disabled)\<lparr>lm_wait_graph := ?g\<rparr>"] n by (simp add: Let_def)
qed

end
