(* ===== verification/Conflict_Registry.thy ===== *)
theory Conflict_Registry
  imports Prelude "HOL-Library.AList"
begin

unbundle bit_operations_syntax

text \<open>
  The write-conflict registry (\<^verbatim>\<open>src/src/storage/conflict.rs\<close>): the ring of in-flight
  commits with its packed slots, the applied watermark and the snapshot barrier, and the
  first-committer-wins validation over the last write timestamp of each key. The concurrent
  maps are association lists, the ring is a function on slot indices, announcement counters are
  natural numbers (a \<open>u64\<close> that is incremented once per commit). A method is one atomic step,
  except \<open>validate_and_record\<close>, which is also given key by key, because that is the unit at
  which committers interleave. Parking on the condition variable has no model: the barrier is
  the test that ends the wait.
\<close>

section \<open>Slots\<close>

definition INFLIGHT_RING_SIZE :: nat where
  "INFLIGHT_RING_SIZE = 4096"

definition PRUNE_INTERVAL_COMMITS :: nat where
  "PRUNE_INTERVAL_COMMITS = 4096"

definition SLOT_EMPTY :: u64 where
  "SLOT_EMPTY = 0"

definition slot_pending :: "u64 \<Rightarrow> u64" where
  "slot_pending ts = push_bit 1 ts OR 1"

definition slot_applied :: "u64 \<Rightarrow> u64" where
  "slot_applied ts = push_bit 1 ts"

definition slot_is_pending :: "u64 \<Rightarrow> bool" where
  "slot_is_pending v \<longleftrightarrow> v AND 1 = 1"

definition slot_ts :: "u64 \<Rightarrow> u64" where
  "slot_ts v = drop_bit 1 v"

text \<open>Timestamps are counters from one on, far below two to the 63.\<close>

definition ts_ok :: "u64 \<Rightarrow> bool" where
  "ts_ok ts \<longleftrightarrow> 0 < ts \<and> ts < 2 ^ 63"

lemma slot_is_pending_odd: "slot_is_pending v \<longleftrightarrow> odd v"
  by (simp add: slot_is_pending_def and_one_eq odd_iff_mod_2_eq_one)

lemma unat_applied: "ts_ok ts \<Longrightarrow> unat (slot_applied ts) = 2 * unat ts"
proof -
  assume "ts_ok ts"
  then have "unat ts * 2 < 2 ^ 64" by (simp add: ts_ok_def word_less_nat_alt)
  then show ?thesis by (simp add: slot_applied_def push_bit_eq_mult unat_word_ariths)
qed

lemma pending_applied: "slot_pending ts = slot_applied ts + 1"
  by (simp add: slot_pending_def slot_applied_def or_one_eq)

lemma unat_pending: "ts_ok ts \<Longrightarrow> unat (slot_pending ts) = 2 * unat ts + 1"
proof -
  assume ts: "ts_ok ts"
  then have "2 * unat ts + 1 < 2 ^ 64" by (simp add: ts_ok_def word_less_nat_alt)
  then show ?thesis using unat_applied [OF ts] by (simp add: pending_applied unat_word_ariths)
qed

lemma unat_slot_ts: "unat (slot_ts v) = unat v div 2"
  by (simp add: slot_ts_def drop_bit_eq_div unat_div)

lemma slot_facts [simp]:
  assumes "ts_ok ts"
  shows "slot_ts (slot_pending ts) = ts" "slot_ts (slot_applied ts) = ts"
    "slot_is_pending (slot_pending ts)" "\<not> slot_is_pending (slot_applied ts)"
    "slot_pending ts \<noteq> SLOT_EMPTY" "slot_applied ts \<noteq> SLOT_EMPTY" "slot_pending ts \<noteq> slot_applied ts'"
proof -
  show "slot_ts (slot_pending ts) = ts" "slot_ts (slot_applied ts) = ts"
    by (simp_all add: word_unat_eq_iff unat_slot_ts unat_pending unat_applied assms)
  have ev: "even (slot_applied ts)" for ts :: u64 by (simp add: slot_applied_def)
  then show "slot_is_pending (slot_pending ts)" "\<not> slot_is_pending (slot_applied ts)"
    by (simp_all add: slot_is_pending_odd pending_applied)
  show "slot_pending ts \<noteq> slot_applied ts'" using ev [of ts] ev [of ts'] pending_applied [of ts] by (metis even_plus_one_iff)
  have "unat ts > 0" using assms by (simp add: ts_ok_def word_less_nat_alt)
  then show "slot_pending ts \<noteq> SLOT_EMPTY" "slot_applied ts \<noteq> SLOT_EMPTY"
    using unat_pending [OF assms] unat_applied [OF assms] by (auto simp: SLOT_EMPTY_def)
qed

lemma slot_pending_inj: "ts_ok a \<Longrightarrow> ts_ok b \<Longrightarrow> slot_pending a = slot_pending b \<longleftrightarrow> a = b"
  using slot_facts(1) by metis

section \<open>The registry\<close>

record registry =
  cr_recent :: "(bytes \<times> u64) list"
  cr_active :: "(u64 \<times> u64) list"
  cr_ring :: "nat \<Rightarrow> u64"
  cr_head :: nat
  cr_tail :: nat
  cr_pending :: nat
  cr_watermark :: u64
  cr_commits :: nat
  cr_pins :: "(u64 \<times> u64) list"
  cr_next_pin :: u64

definition registry_new :: registry where
  "registry_new = \<lparr>cr_recent = [], cr_active = [], cr_ring = (\<lambda>_. SLOT_EMPTY), cr_head = 0, cr_tail = 0,
     cr_pending = 0, cr_watermark = 0, cr_commits = 0, cr_pins = [], cr_next_pin = 0\<rparr>"

definition ring_index :: "nat \<Rightarrow> nat" where
  "ring_index seq = seq mod INFLIGHT_RING_SIZE"

definition ring_slot :: "registry \<Rightarrow> nat \<Rightarrow> u64" where
  "ring_slot reg seq = cr_ring reg (ring_index seq)"

definition set_slot :: "nat \<Rightarrow> u64 \<Rightarrow> registry \<Rightarrow> registry" where
  "set_slot seq v reg = reg\<lparr>cr_ring := (cr_ring reg)(ring_index seq := v)\<rparr>"

definition register_txn :: "u64 \<Rightarrow> u64 \<Rightarrow> registry \<Rightarrow> registry" where
  "register_txn txn snapshot reg = reg\<lparr>cr_active := AList.update txn snapshot (cr_active reg)\<rparr>"

definition refresh_txn :: "u64 \<Rightarrow> u64 \<Rightarrow> registry \<Rightarrow> registry" where
  "refresh_txn txn snapshot reg = reg\<lparr>cr_active := AList.update txn snapshot (cr_active reg)\<rparr>"

definition deregister_txn :: "u64 \<Rightarrow> registry \<Rightarrow> registry" where
  "deregister_txn txn reg = reg\<lparr>cr_active := AList.delete txn (cr_active reg)\<rparr>"

text \<open>The scan of the unreclaimed window, from \<open>tail\<close> up to the first pending slot.\<close>

function pending_scan :: "registry \<Rightarrow> u64 \<Rightarrow> nat \<Rightarrow> bool" where
  "pending_scan reg snapshot s =
     (if s \<ge> cr_head reg then False
      else if slot_is_pending (ring_slot reg s) then slot_ts (ring_slot reg s) \<le> snapshot
      else pending_scan reg snapshot (s + 1))"
  by pat_completeness auto
termination
  by (relation "measure (\<lambda>(reg, _, s). cr_head reg - s)") auto

declare pending_scan.simps [simp del]

definition has_pending_at_or_below :: "registry \<Rightarrow> u64 \<Rightarrow> bool" where
  "has_pending_at_or_below reg snapshot = pending_scan reg snapshot (cr_tail reg)"

text \<open>\<open>snapshot_barrier\<close> returns without waiting, or the test of its waiting loop succeeds.\<close>

definition barrier_open :: "registry \<Rightarrow> u64 \<Rightarrow> bool" where
  "barrier_open reg snapshot =
     (if cr_pending reg = 0 then True
      else if cr_watermark reg \<ge> snapshot then True
      else \<not> has_pending_at_or_below reg snapshot)"

function try_reclaim :: "registry \<Rightarrow> registry" where
  "try_reclaim reg =
     (if cr_tail reg \<ge> cr_head reg then reg
      else let v = ring_slot reg (cr_tail reg) in
        if v = SLOT_EMPTY \<or> slot_is_pending v then reg
        else try_reclaim ((set_slot (cr_tail reg) SLOT_EMPTY reg)
               \<lparr>cr_watermark := max (cr_watermark reg) (slot_ts v), cr_tail := cr_tail reg + 1\<rparr>))"
  by pat_completeness auto
termination
  by (relation "measure (\<lambda>reg. cr_head reg - cr_tail reg)") (auto simp: set_slot_def)

declare try_reclaim.simps [simp del]

text \<open>\<open>None\<close>: the ring is full and stays full after reclaiming, so the announcement waits.\<close>

definition begin_commit :: "u64 \<Rightarrow> registry \<Rightarrow> registry option" where
  "begin_commit ts reg =
     (let reg = (if cr_head reg - cr_tail reg \<ge> INFLIGHT_RING_SIZE then try_reclaim reg else reg) in
      if cr_head reg - cr_tail reg \<ge> INFLIGHT_RING_SIZE then None
      else Some ((set_slot (cr_head reg) (slot_pending ts) reg)
             \<lparr>cr_pending := cr_pending reg + 1, cr_head := cr_head reg + 1\<rparr>))"

function end_scan :: "registry \<Rightarrow> u64 \<Rightarrow> nat \<Rightarrow> nat option" where
  "end_scan reg pending s =
     (if s \<ge> cr_head reg then None
      else if ring_slot reg s = pending then Some s
      else end_scan reg pending (s + 1))"
  by pat_completeness auto
termination
  by (relation "measure (\<lambda>(reg, _, s). cr_head reg - s)") auto

declare end_scan.simps [simp del]

text \<open>
  \<open>hint\<close> is the thread-local \<open>(commit_ts, seq)\<close> of the calling thread's last announcement on
  this registry.
\<close>

definition end_commit :: "(u64 \<times> nat) option \<Rightarrow> u64 \<Rightarrow> registry \<Rightarrow> registry" where
  "end_commit hint ts reg =
     (let pending = slot_pending ts; applied = slot_applied ts;
          hinted = (case hint of
              Some (hts, hseq) \<Rightarrow> if hts = ts \<and> ring_slot reg hseq = pending then Some hseq else None
            | None \<Rightarrow> None);
          marked = (case hinted of Some s \<Rightarrow> Some s | None \<Rightarrow> end_scan reg pending (cr_tail reg))
      in case marked of
           None \<Rightarrow> reg
         | Some s \<Rightarrow> try_reclaim ((set_slot s applied reg)\<lparr>cr_pending := cr_pending reg - 1\<rparr>))"

section \<open>The ring as an ordered ledger\<close>

text \<open>The abstract ledger: announced timestamps in order, each pending or applied.\<close>

type_synonym ledger = "(u64 \<times> bool) list"

definition encode :: "u64 \<times> bool \<Rightarrow> u64" where
  "encode e = (if snd e then slot_pending (fst e) else slot_applied (fst e))"

definition ring_rep :: "registry \<Rightarrow> ledger \<Rightarrow> bool" where
  "ring_rep reg es \<longleftrightarrow> cr_head reg = cr_tail reg + length es \<and> length es \<le> INFLIGHT_RING_SIZE
     \<and> (\<forall>i < length es. ring_slot reg (cr_tail reg + i) = encode (es ! i))
     \<and> (\<forall>j. (\<forall>i < length es. ring_index (cr_tail reg + i) \<noteq> j) \<longrightarrow> cr_ring reg j = SLOT_EMPTY)
     \<and> (\<forall>e \<in> set es. ts_ok (fst e) \<and> cr_watermark reg < fst e) \<and> sorted_wrt (<) (map fst es)
     \<and> cr_pending reg = length (filter snd es)"

lemma ring_index_inj: "a < b \<Longrightarrow> b < a + INFLIGHT_RING_SIZE \<Longrightarrow> ring_index a \<noteq> ring_index b"
proof
  assume ab: "a < b" "b < a + INFLIGHT_RING_SIZE" and "ring_index a = ring_index b"
  then have "INFLIGHT_RING_SIZE dvd b - a" unfolding ring_index_def by (metis mod_eq_dvd_iff_nat less_imp_le)
  then show False using ab by (auto dest: dvd_imp_le)
qed

lemma window_index:
  "i < length es \<Longrightarrow> j < length es \<Longrightarrow> length es \<le> INFLIGHT_RING_SIZE \<Longrightarrow>
     ring_index (t + i) = ring_index (t + j) \<longleftrightarrow> i = j"
  using ring_index_inj [of "t + i" "t + j"] ring_index_inj [of "t + j" "t + i"] by (cases i j rule: linorder_cases) auto

lemma encode_facts:
  "ts_ok (fst e) \<Longrightarrow> slot_is_pending (encode e) = snd e" "ts_ok (fst e) \<Longrightarrow> slot_ts (encode e) = fst e"
  "ts_ok (fst e) \<Longrightarrow> encode e \<noteq> SLOT_EMPTY"
  by (simp_all add: encode_def)

lemma encode_pending:
  assumes "ts_ok ts" "ts_ok (fst e)"
  shows "encode e = slot_pending ts \<longleftrightarrow> e = (ts, True)"
proof (cases "snd e")
  case True
  then show ?thesis using assms by (cases e) (simp add: encode_def slot_pending_inj)
next
  case False
  then have "encode e \<noteq> slot_pending ts" using slot_facts(7) [OF assms(1), of "fst e"] by (simp add: encode_def)
  then show ?thesis using False by auto
qed

lemma pending_scan_spec:
  assumes "ring_rep reg es" "i \<le> length es"
  shows "pending_scan reg s (cr_tail reg + i) \<longleftrightarrow> (\<exists>e \<in> set (drop i es). snd e \<and> fst e \<le> s)"
  using assms(2)
proof (induction "length es - i" arbitrary: i)
  case 0
  then show ?case using assms(1) by (subst pending_scan.simps) (simp add: ring_rep_def)
next
  case (Suc d)
  then have i: "i < length es" by simp
  let ?e = "es ! i"
  have e: "ring_slot reg (cr_tail reg + i) = encode ?e" "ts_ok (fst ?e)" using assms(1) i by (auto simp: ring_rep_def)
  have drop: "drop i es = ?e # drop (Suc i) es" using i by (rule Cons_nth_drop_Suc [symmetric])
  have ih: "pending_scan reg s (cr_tail reg + Suc i) \<longleftrightarrow> (\<exists>e \<in> set (drop (Suc i) es). snd e \<and> fst e \<le> s)"
    using Suc i by (intro Suc.hyps(1)) auto
  have later: "fst ?e < fst e" if mem: "e \<in> set (drop (Suc i) es)" for e
  proof -
    obtain k where k: "e = es ! (Suc i + k)" "Suc i + k < length es" using mem by (auto simp: in_set_conv_nth)
    then have "map fst es ! i < map fst es ! (Suc i + k)"
      using assms(1) by (intro sorted_wrt_nth_less [of "(<)"]) (auto simp: ring_rep_def)
    then show ?thesis using k i by simp
  qed
  have "\<not> s \<ge> fst ?e \<Longrightarrow> \<not> (\<exists>e \<in> set (drop (Suc i) es). snd e \<and> fst e \<le> s)"
    using later by (meson linorder_not_less order_less_le_trans order_less_trans)
  then show ?case
    using assms(1) i ih by (subst pending_scan.simps) (auto simp: e encode_facts ring_rep_def drop)
qed

lemma barrier_open_spec:
  assumes "ring_rep reg es"
  shows "barrier_open reg s \<longleftrightarrow> (\<forall>ts. (ts, True) \<in> set es \<longrightarrow> s < ts)"
proof -
  have scan: "has_pending_at_or_below reg s \<longleftrightarrow> (\<exists>ts. (ts, True) \<in> set es \<and> ts \<le> s)"
    using pending_scan_spec [OF assms, of 0 s] by (force simp: has_pending_at_or_below_def)
  have "cr_pending reg = 0 \<Longrightarrow> (ts, True) \<notin> set es" for ts
    using assms by (auto simp: ring_rep_def filter_empty_conv)
  moreover have "s \<le> cr_watermark reg \<Longrightarrow> (ts, True) \<in> set es \<Longrightarrow> s < ts" for ts
    using assms by (auto simp: ring_rep_def)
  ultimately show ?thesis using scan by (auto simp: barrier_open_def linorder_not_le)
qed

lemma ring_rep_reclaim_one:
  assumes rep: "ring_rep reg (e # es)" and e: "\<not> snd e"
  shows "ring_rep ((set_slot (cr_tail reg) SLOT_EMPTY reg)
      \<lparr>cr_watermark := max (cr_watermark reg) (fst e), cr_tail := cr_tail reg + 1\<rparr>) es"
proof -
  let ?reg = "(set_slot (cr_tail reg) SLOT_EMPTY reg)
      \<lparr>cr_watermark := max (cr_watermark reg) (fst e), cr_tail := cr_tail reg + 1\<rparr>"
  have len: "length (e # es) \<le> INFLIGHT_RING_SIZE" using rep by (simp add: ring_rep_def)
  have ne: "ring_index (cr_tail reg) \<noteq> ring_index (cr_tail reg + Suc i)" if "i < length es" for i
    using window_index [of 0 "e # es" "Suc i" "cr_tail reg"] len that by simp
  have slots: "ring_slot ?reg (cr_tail ?reg + i) = encode (es ! i)" if "i < length es" for i
  proof -
    have "ring_slot reg (cr_tail reg + Suc i) = encode ((e # es) ! Suc i)"
      using rep that unfolding ring_rep_def by (metis Suc_less_eq length_Cons)
    then show ?thesis using ne [OF that] by (simp add: ring_slot_def set_slot_def)
  qed
  have empty: "cr_ring ?reg j = SLOT_EMPTY" if "\<forall>i < length es. ring_index (cr_tail ?reg + i) \<noteq> j" for j
  proof (cases "j = ring_index (cr_tail reg)")
    case False
    have "\<forall>i < length (e # es). ring_index (cr_tail reg + i) \<noteq> j"
      using that False by (auto simp: less_Suc_eq_0_disj)
    then have "cr_ring reg j = SLOT_EMPTY" using rep unfolding ring_rep_def by blast
    then show ?thesis using False by (simp add: set_slot_def)
  qed (simp add: set_slot_def)
  show ?thesis
    unfolding ring_rep_def using slots empty rep e by (auto simp: ring_rep_def set_slot_def)
qed

lemma try_reclaim_rep:
  "ring_rep reg es \<Longrightarrow> ring_rep (try_reclaim reg) (dropWhile (\<lambda>e. \<not> snd e) es)
     \<and> cr_watermark reg \<le> cr_watermark (try_reclaim reg)
     \<and> (cr_watermark (try_reclaim reg) = cr_watermark reg \<or> cr_watermark (try_reclaim reg) \<in> fst ` set es)"
proof (induction es arbitrary: reg)
  case Nil
  then show ?case by (subst (1 2 3 4) try_reclaim.simps) (simp add: ring_rep_def)
next
  case (Cons e es)
  have e: "ring_slot reg (cr_tail reg) = encode e" "ts_ok (fst e)" "\<not> cr_tail reg \<ge> cr_head reg"
    using Cons.prems unfolding ring_rep_def by (metis add.right_neutral length_greater_0_conv list.distinct(1) nth_Cons_0, simp_all)
  show ?case
  proof (cases "snd e")
    case True
    then have "try_reclaim reg = reg" by (subst try_reclaim.simps) (simp add: e encode_facts Let_def)
    then show ?thesis using Cons.prems True by simp
  next
    case False
    let ?reg = "(set_slot (cr_tail reg) SLOT_EMPTY reg)
        \<lparr>cr_watermark := max (cr_watermark reg) (fst e), cr_tail := cr_tail reg + 1\<rparr>"
    have eq: "try_reclaim reg = try_reclaim ?reg"
      using e False by (subst try_reclaim.simps) (simp add: encode_facts Let_def)
    have "cr_watermark ?reg = fst e" using Cons.prems by (auto simp: ring_rep_def max_def)
    then show ?thesis
      using Cons.IH [OF ring_rep_reclaim_one [OF Cons.prems False]] False Cons.prems unfolding eq
      by (auto simp: ring_rep_def intro: less_imp_le order_trans)
  qed
qed

lemma begin_commit_rep:
  assumes rep: "ring_rep reg es" and ts: "ts_ok ts" "\<forall>e \<in> set es. fst e < ts" "cr_watermark reg < ts"
    and bg: "begin_commit ts reg = Some reg'"
  shows "\<exists>es'. ring_rep reg' (es' @ [(ts, True)]) \<and> (\<forall>x. (x, True) \<in> set es' \<longleftrightarrow> (x, True) \<in> set es)
     \<and> set es' \<subseteq> set es \<and> cr_watermark reg \<le> cr_watermark reg'
     \<and> (cr_watermark reg' = cr_watermark reg \<or> cr_watermark reg' \<in> fst ` set es)"
proof -
  define r where "r = (if cr_head reg - cr_tail reg \<ge> INFLIGHT_RING_SIZE then try_reclaim reg else reg)"
  define es' where "es' = (if cr_head reg - cr_tail reg \<ge> INFLIGHT_RING_SIZE then dropWhile (\<lambda>e. \<not> snd e) es else es)"
  have r: "ring_rep r es'" "cr_watermark reg \<le> cr_watermark r"
      "cr_watermark r = cr_watermark reg \<or> cr_watermark r \<in> fst ` set es"
    using rep try_reclaim_rep [OF rep] by (auto simp: r_def es'_def)
  have sub: "set es' \<subseteq> set es" by (auto simp: es'_def dest: set_dropWhileD)
  have pend: "(x, True) \<in> set es' \<longleftrightarrow> (x, True) \<in> set es" for x
  proof -
    have "(x, True) \<in> set (takeWhile (\<lambda>e. \<not> snd e) es) \<Longrightarrow> False" by (auto dest: set_takeWhileD)
    moreover have "set es = set (takeWhile (\<lambda>e. \<not> snd e) es) \<union> set (dropWhile (\<lambda>e. \<not> snd e) es)"
      by (simp add: set_append [symmetric] del: set_append)
    ultimately show ?thesis unfolding es'_def by auto
  qed
  have room: "cr_head r - cr_tail r < INFLIGHT_RING_SIZE"
    and reg': "reg' = (set_slot (cr_head r) (slot_pending ts) r)\<lparr>cr_pending := cr_pending r + 1, cr_head := cr_head r + 1\<rparr>"
    using bg unfolding begin_commit_def Let_def r_def [symmetric] by (auto split: if_splits)
  have len: "length es' < INFLIGHT_RING_SIZE" using room r(1) by (simp add: ring_rep_def)
  have hd: "cr_head r = cr_tail r + length es'" using r(1) by (simp add: ring_rep_def)
  have ne: "ring_index (cr_tail r + i) \<noteq> ring_index (cr_head r)" if "i < length es'" for i
    using ring_index_inj [of "cr_tail r + i" "cr_head r"] that len hd by simp
  have wm: "cr_watermark r < ts" using r(3) ts(2,3) by auto
  have "ring_rep reg' (es' @ [(ts, True)])"
    unfolding ring_rep_def
  proof (intro conjI allI impI ballI)
    show "ring_slot reg' (cr_tail reg' + i) = encode ((es' @ [(ts, True)]) ! i)" if "i < length (es' @ [(ts, True)])" for i
      using that ne r(1) hd by (cases "i = length es'") (auto simp: reg' ring_slot_def set_slot_def encode_def ring_rep_def nth_append)
    show "cr_ring reg' j = SLOT_EMPTY" if "\<forall>i < length (es' @ [(ts, True)]). ring_index (cr_tail reg' + i) \<noteq> j" for j
    proof -
      have "j \<noteq> ring_index (cr_head r)" "\<forall>i < length es'. ring_index (cr_tail r + i) \<noteq> j"
        using that hd by (auto simp: reg' set_slot_def less_Suc_eq)
      then show ?thesis using r(1) unfolding ring_rep_def by (simp add: reg' set_slot_def)
    qed
  qed (use r(1) ts sub wm len hd in \<open>auto simp: reg' set_slot_def ring_rep_def sorted_wrt_append\<close>)
  moreover have "cr_watermark reg' = cr_watermark r" by (simp add: reg' set_slot_def)
  ultimately show ?thesis using pend sub r(2,3) by metis
qed

definition mark_applied :: "u64 \<Rightarrow> ledger \<Rightarrow> ledger" where
  "mark_applied ts es = map (\<lambda>e. if fst e = ts then (ts, False) else e) es"

lemma mark_update:
  assumes "distinct (map fst es)" "i < length es" "es ! i = (ts, True)"
  shows "mark_applied ts es = es[i := (ts, False)]"
proof (rule nth_equalityI)
  fix j
  assume "j < length (mark_applied ts es)"
  then have j: "j < length es" by (simp add: mark_applied_def)
  have "fst (es ! j) = ts \<longleftrightarrow> j = i"
    using assms j nth_eq_iff_index_eq [of "map fst es" j i] by auto
  then show "mark_applied ts es ! j = es[i := (ts, False)] ! j" using j by (auto simp: mark_applied_def)
qed (simp add: mark_applied_def)

lemma ring_rep_distinct: "ring_rep reg es \<Longrightarrow> distinct (map fst es)"
  by (simp add: ring_rep_def strict_sorted_iff)

lemma filter_update_length:
  "i < length es \<Longrightarrow> P (es ! i) \<Longrightarrow> \<not> P e \<Longrightarrow> length (filter P es) = Suc (length (filter P (es[i := e])))"
  by (induction es arbitrary: i) (auto simp: nth_Cons split: nat.splits)

lemma mark_rep:
  assumes rep: "ring_rep reg es" and i: "i < length es" "es ! i = (ts, True)"
    and s: "ring_index s = ring_index (cr_tail reg + i)"
  shows "ring_rep ((set_slot s (slot_applied ts) reg)\<lparr>cr_pending := cr_pending reg - 1\<rparr>) (mark_applied ts es)"
proof -
  let ?es = "es[i := (ts, False)]"
  have es: "mark_applied ts es = ?es" using mark_update [OF ring_rep_distinct [OF rep] i] .
  have len: "length es \<le> INFLIGHT_RING_SIZE" using rep by (simp add: ring_rep_def)
  have ts: "ts_ok ts" "cr_watermark reg < ts" using rep i nth_mem [OF i(1)] by (auto simp: ring_rep_def)
  have fsts: "map fst ?es = map fst es" using i by (simp add: map_update list_update_same_conv)
  let ?reg = "(set_slot s (slot_applied ts) reg)\<lparr>cr_pending := cr_pending reg - 1\<rparr>"
  show ?thesis
    unfolding es ring_rep_def fsts
  proof (intro conjI allI impI ballI)
    show "ring_slot ?reg (cr_tail ?reg + j) = encode (?es ! j)" if "j < length ?es" for j
      using that rep i s window_index [of i es j "cr_tail reg"] len
      by (cases "j = i") (auto simp: ring_slot_def set_slot_def encode_def ring_rep_def)
    show "cr_ring ?reg j = SLOT_EMPTY" if "\<forall>i < length ?es. ring_index (cr_tail ?reg + i) \<noteq> j" for j
      using that rep i s by (auto simp: set_slot_def ring_rep_def)
    show "cr_pending ?reg = length (filter snd ?es)"
      using rep i filter_update_length [of i es snd "(ts, False)"] by (simp add: ring_rep_def set_slot_def)
    fix e assume "e \<in> set ?es"
    then have "e = (ts, False) \<or> e \<in> set es" using set_update_subset_insert by fastforce
    then show "ts_ok (fst e)" "cr_watermark ?reg < fst e" using rep ts by (auto simp: ring_rep_def set_slot_def)
  qed (use rep in \<open>auto simp: ring_rep_def set_slot_def\<close>)
qed

lemma end_scan_spec:
  assumes rep: "ring_rep reg es" and ts: "ts_ok ts" and i: "i \<le> length es"
  shows "(case end_scan reg (slot_pending ts) (cr_tail reg + i) of
      None \<Rightarrow> (ts, True) \<notin> set (drop i es)
    | Some s \<Rightarrow> \<exists>j < length es. s = cr_tail reg + j \<and> es ! j = (ts, True))"
  using i
proof (induction "length es - i" arbitrary: i)
  case 0
  then show ?case using rep by (subst end_scan.simps) (simp add: ring_rep_def)
next
  case (Suc d)
  then have i: "i < length es" by simp
  have e: "ring_slot reg (cr_tail reg + i) = encode (es ! i)" "ts_ok (fst (es ! i))" using rep i by (auto simp: ring_rep_def)
  have drop: "drop i es = es ! i # drop (Suc i) es" using i by (rule Cons_nth_drop_Suc [symmetric])
  have "length es - Suc i = d" "Suc i \<le> length es" using Suc i by auto
  note ih = Suc.hyps(1) [OF this(1) [symmetric] this(2)]
  show ?case
    using rep i ih encode_pending [OF ts e(2)]
    by (subst end_scan.simps) (auto simp: ring_rep_def e(1) drop split: option.splits)
qed


text \<open>A matching hint names the slot the scan would find, so it changes nothing.\<close>

lemma hint_slot:
  assumes rep: "ring_rep reg es" and ts: "ts_ok ts" and hit: "ring_slot reg s = slot_pending ts"
  obtains j where "j < length es" "es ! j = (ts, True)" "ring_index s = ring_index (cr_tail reg + j)"
proof -
  have "cr_ring reg (ring_index s) \<noteq> SLOT_EMPTY" using hit ts by (simp add: ring_slot_def)
  then obtain j where j: "j < length es" "ring_index (cr_tail reg + j) = ring_index s"
    using rep unfolding ring_rep_def by blast
  then have "encode (es ! j) = slot_pending ts" using rep hit by (auto simp: ring_rep_def ring_slot_def)
  then have "es ! j = (ts, True)" using encode_pending [OF ts] rep j(1) by (auto simp: ring_rep_def)
  then show thesis using that j by simp
qed

lemma end_commit_cases:
  assumes rep: "ring_rep reg es" and ts: "ts_ok ts"
  obtains (absent) "(ts, True) \<notin> set es" "end_commit hint ts reg = reg"
  | (marked) j where "j < length es" "es ! j = (ts, True)"
      "end_commit hint ts reg = try_reclaim ((set_slot (cr_tail reg + j) (slot_applied ts) reg)\<lparr>cr_pending := cr_pending reg - 1\<rparr>)"
proof -
  define hinted where "hinted = (case hint of
      Some (hts, hseq) \<Rightarrow> if hts = ts \<and> ring_slot reg hseq = slot_pending ts then Some hseq else None | None \<Rightarrow> None)"
  have eq: "end_commit hint ts reg = (case (case hinted of Some s \<Rightarrow> Some s | None \<Rightarrow> end_scan reg (slot_pending ts) (cr_tail reg)) of
      None \<Rightarrow> reg
    | Some s \<Rightarrow> try_reclaim ((set_slot s (slot_applied ts) reg)\<lparr>cr_pending := cr_pending reg - 1\<rparr>))"
    unfolding end_commit_def hinted_def Let_def ..
  show thesis
  proof (cases hinted)
    case None
    then show thesis
      using end_scan_spec [OF rep ts, of 0] eq absent marked by (auto split: option.splits)
  next
    case (Some s)
    then have "ring_slot reg s = slot_pending ts" by (auto simp: hinted_def split: option.splits if_splits)
    from hint_slot [OF rep ts this] obtain j where
      j: "j < length es" "es ! j = (ts, True)" "ring_index s = ring_index (cr_tail reg + j)" .
    then have "set_slot s (slot_applied ts) reg = set_slot (cr_tail reg + j) (slot_applied ts) reg" by (simp add: set_slot_def)
    then show thesis using eq Some j marked by simp
  qed
qed

section \<open>Validation of write sets\<close>

definition active_min :: "(u64 \<times> u64) list \<Rightarrow> u64 option" where
  "active_min entries = (case map snd entries of [] \<Rightarrow> None | x # xs \<Rightarrow> Some (fold min xs x))"

definition prune :: "registry \<Rightarrow> registry" where
  "prune reg = (let min_active = (case active_min (cr_active reg) of Some s \<Rightarrow> s | None \<Rightarrow> - 1) in
     reg\<lparr>cr_recent := filter (\<lambda>(k, ts). ts \<ge> min_active) (cr_recent reg)\<rparr>)"

text \<open>The body of the loop for one key: the prior timestamp of a conflict, or the undo record.\<close>

definition record_key :: "bool \<Rightarrow> u64 \<Rightarrow> u64 \<Rightarrow> bytes \<Rightarrow> registry \<Rightarrow> registry \<times> (u64 + u64 option)" where
  "record_key validate snapshot commit_ts key reg = (case map_of (cr_recent reg) key of
       Some prior \<Rightarrow>
         if validate \<and> prior > snapshot then (reg, Inl prior)
         else (reg\<lparr>cr_recent := AList.update key commit_ts (cr_recent reg)\<rparr>, Inr (Some prior))
     | None \<Rightarrow> (reg\<lparr>cr_recent := AList.update key commit_ts (cr_recent reg)\<rparr>, Inr None))"

definition undo_key :: "bytes \<times> u64 option \<Rightarrow> registry \<Rightarrow> registry" where
  "undo_key rec reg = (case rec of
       (k, Some ts) \<Rightarrow> reg\<lparr>cr_recent := AList.update k ts (cr_recent reg)\<rparr>
     | (k, None) \<Rightarrow> reg\<lparr>cr_recent := AList.delete k (cr_recent reg)\<rparr>)"

fun record_loop :: "bool \<Rightarrow> u64 \<Rightarrow> u64 \<Rightarrow> bytes list \<Rightarrow> registry
    \<Rightarrow> registry \<times> (bytes \<times> u64 option) list \<times> (bytes \<times> u64) option" where
  "record_loop validate snapshot commit_ts [] reg = (reg, [], None)"
| "record_loop validate snapshot commit_ts (k # ks) reg =
     (case record_key validate snapshot commit_ts k reg of
        (reg, Inl prior) \<Rightarrow> (reg, [], Some (k, prior))
      | (reg, Inr prior) \<Rightarrow> (case record_loop validate snapshot commit_ts ks reg of
            (reg, recorded, conflict) \<Rightarrow> (reg, (k, prior) # recorded, conflict)))"

definition validate_and_record ::
  "bytes list \<Rightarrow> bool \<Rightarrow> u64 \<Rightarrow> u64 \<Rightarrow> registry \<Rightarrow> registry \<times> ((bytes \<times> u64) + unit)" where
  "validate_and_record write_set validate snapshot commit_ts reg =
     (if write_set = [] then (reg, Inr ())
      else case record_loop validate snapshot commit_ts write_set reg of
          (reg, recorded, Some (key, ts)) \<Rightarrow> (fold undo_key recorded reg, Inl (key, ts))
        | (reg, _, None) \<Rightarrow>
            let n = cr_commits reg; reg = reg\<lparr>cr_commits := n + 1\<rparr> in
            (if n mod PRUNE_INTERVAL_COMMITS = PRUNE_INTERVAL_COMMITS - 1 then prune reg else reg, Inr ()))"

definition tracked_keys :: "registry \<Rightarrow> nat" where
  "tracked_keys reg = length (cr_recent reg)"

definition pin_snapshot :: "u64 \<Rightarrow> registry \<Rightarrow> registry \<times> u64" where
  "pin_snapshot snapshot reg =
     (reg\<lparr>cr_pins := AList.update (cr_next_pin reg) snapshot (cr_pins reg), cr_next_pin := cr_next_pin reg + 1\<rparr>,
      cr_next_pin reg)"

definition unpin_snapshot :: "u64 \<Rightarrow> registry \<Rightarrow> registry" where
  "unpin_snapshot pin reg = reg\<lparr>cr_pins := AList.delete pin (cr_pins reg)\<rparr>"

definition gc_pin_count :: "registry \<Rightarrow> nat" where
  "gc_pin_count reg = length (cr_pins reg)"

definition min_pinned_snapshot :: "registry \<Rightarrow> u64 option" where
  "min_pinned_snapshot reg = (case (active_min (cr_pins reg), active_min (cr_active reg)) of
       (Some a, Some b) \<Rightarrow> Some (min a b) | (Some a, None) \<Rightarrow> Some a | (None, Some b) \<Rightarrow> Some b | (None, None) \<Rightarrow> None)"

lemma fold_min: "fold min xs x \<le> x \<and> (\<forall>y \<in> set xs. fold min xs x \<le> y) \<and> fold min xs x \<in> insert x (set xs)"
  for x :: "'a :: linorder"
  by (induction xs arbitrary: x) (fastforce simp: min_def)+

lemma active_min_spec:
  "case active_min entries of None \<Rightarrow> entries = []
   | Some m \<Rightarrow> m \<in> snd ` set entries \<and> (\<forall>e \<in> set entries. m \<le> snd e)"
proof (cases entries)
  case (Cons e es)
  then show ?thesis using fold_min [of "map snd es" "snd e"] by (auto simp: active_min_def)
qed (simp add: active_min_def)

lemma prune_keeps:
  assumes "map_of (cr_active reg) t = Some s" "map_of (cr_recent reg) k = Some r" "s \<le> r"
  shows "map_of (cr_recent (prune reg)) k = Some r"
proof -
  have "(t, s) \<in> set (cr_active reg)" using assms(1) by (rule map_of_SomeD)
  then obtain m where m: "active_min (cr_active reg) = Some m" "m \<le> s"
    using active_min_spec [of "cr_active reg"] by (auto split: option.splits)
  have "map_of (filter (\<lambda>(k, ts). m \<le> ts) xs) k = Some r" if "map_of xs k = Some r" for xs :: "(bytes \<times> u64) list"
    using that m(2) assms(3) by (induction xs) (auto split: if_splits)
  then show ?thesis using assms(2) m(1) by (simp add: prune_def)
qed

lemma undo_map:
  "map_of (cr_recent (undo_key r reg)) = (map_of (cr_recent reg))(fst r := snd r)" "cr_active (undo_key r reg) = cr_active reg"
  by (auto simp: undo_key_def update_conv' delete_conv' split: prod.split option.split)

lemma undo_fold_map:
  "map_of (cr_recent (fold undo_key rs reg)) = fold (\<lambda>r m. m(fst r := snd r)) rs (map_of (cr_recent reg))"
  "cr_active (fold undo_key rs reg) = cr_active reg"
  by (induction rs arbitrary: reg) (simp_all add: undo_map)

lemma fold_upd_commute:
  "k \<notin> fst ` set rs \<Longrightarrow> fold (\<lambda>r m. m(fst r := snd r)) rs (m(k := p)) = (fold (\<lambda>r m. m(fst r := snd r)) rs m)(k := p)"
  by (induction rs arbitrary: m) (auto simp: fun_upd_twist)

lemma record_key_spec:
  assumes "record_key validate snapshot commit_ts k reg = (reg', res)"
  shows "cr_active reg' = cr_active reg \<and> cr_commits reg' = cr_commits reg
    \<and> (case res of
        Inl r \<Rightarrow> reg' = reg \<and> validate \<and> map_of (cr_recent reg) k = Some r \<and> snapshot < r
      | Inr prior \<Rightarrow> prior = map_of (cr_recent reg) k \<and> map_of (cr_recent reg') = (map_of (cr_recent reg))(k \<mapsto> commit_ts)
          \<and> (validate \<longrightarrow> (\<forall>r. map_of (cr_recent reg) k = Some r \<longrightarrow> r \<le> snapshot)))"
  using assms by (auto simp: record_key_def update_conv' split: option.splits if_splits)

lemma record_loop_spec:
  assumes "distinct ks" "record_loop validate snapshot commit_ts ks reg = (reg', recorded, conflict)"
  shows "cr_active reg' = cr_active reg \<and> cr_commits reg' = cr_commits reg
    \<and> fold (\<lambda>r m. m(fst r := snd r)) recorded (map_of (cr_recent reg')) = map_of (cr_recent reg)
    \<and> set (map fst recorded) \<subseteq> set ks
    \<and> (case conflict of
        None \<Rightarrow> map_of (cr_recent reg') = (\<lambda>k. if k \<in> set ks then Some commit_ts else map_of (cr_recent reg) k)
          \<and> (validate \<longrightarrow> (\<forall>k \<in> set ks. \<forall>r. map_of (cr_recent reg) k = Some r \<longrightarrow> r \<le> snapshot))
      | Some (k, r) \<Rightarrow> validate \<and> k \<in> set ks \<and> map_of (cr_recent reg) k = Some r \<and> snapshot < r)"
  using assms
proof (induction ks arbitrary: reg reg' recorded conflict)
  case (Cons k ks)
  obtain reg1 res where rk: "record_key validate snapshot commit_ts k reg = (reg1, res)" by force
  note key = record_key_spec [OF rk]
  show ?case
  proof (cases res)
    case (Inl prior)
    then show ?thesis using Cons.prems rk key by auto
  next
    case (Inr prior)
    obtain reg2 rec' conf where rl: "record_loop validate snapshot commit_ts ks reg1 = (reg2, rec', conf)" by (metis prod_cases3)
    have res: "reg' = reg2" "recorded = (k, prior) # rec'" "conflict = conf" using Cons.prems(2) rk Inr rl by auto
    have k: "k \<notin> set ks" "distinct ks" using Cons.prems(1) by auto
    note ih = Cons.IH [OF k(2) rl]
    have m1: "map_of (cr_recent reg1) = (map_of (cr_recent reg))(k \<mapsto> commit_ts)" "prior = map_of (cr_recent reg) k"
        "validate \<longrightarrow> (\<forall>r. map_of (cr_recent reg) k = Some r \<longrightarrow> r \<le> snapshot)"
      using key Inr by auto
    have kn: "k \<notin> fst ` set rec'" using ih k(1) by auto
    have ihm: "fold (\<lambda>r m. m(fst r := snd r)) rec' (map_of (cr_recent reg2)) = map_of (cr_recent reg1)" using ih by blast
    have "fold (\<lambda>r m. m(fst r := snd r)) recorded (map_of (cr_recent reg'))
        = (fold (\<lambda>r m. m(fst r := snd r)) rec' (map_of (cr_recent reg2)))(k := prior)"
      using fold_upd_commute [OF kn, of "map_of (cr_recent reg2)" prior] by (simp add: res)
    then have undo: "fold (\<lambda>r m. m(fst r := snd r)) recorded (map_of (cr_recent reg')) = map_of (cr_recent reg)"
      unfolding ihm m1 by simp
    have frame: "cr_active reg' = cr_active reg \<and> cr_commits reg' = cr_commits reg" using ih key by (simp add: res)
    have sub: "set (map fst recorded) \<subseteq> set (k # ks)" using ih by (auto simp: res)
    have "case conflict of
        None \<Rightarrow> map_of (cr_recent reg') = (\<lambda>x. if x \<in> set (k # ks) then Some commit_ts else map_of (cr_recent reg) x)
          \<and> (validate \<longrightarrow> (\<forall>x \<in> set (k # ks). \<forall>r. map_of (cr_recent reg) x = Some r \<longrightarrow> r \<le> snapshot))
      | Some (x, r) \<Rightarrow> validate \<and> x \<in> set (k # ks) \<and> map_of (cr_recent reg) x = Some r \<and> snapshot < r"
    proof (cases conf)
      case None
      then have c: "map_of (cr_recent reg2) = (\<lambda>x. if x \<in> set ks then Some commit_ts else map_of (cr_recent reg1) x)"
          "validate \<longrightarrow> (\<forall>x \<in> set ks. \<forall>r. map_of (cr_recent reg1) x = Some r \<longrightarrow> r \<le> snapshot)" using ih by simp_all
      have "map_of (cr_recent reg1) x = map_of (cr_recent reg) x" if "x \<in> set ks" for x using m1(1) k(1) that by auto
      then show ?thesis using c m1 None by (auto simp: res fun_eq_iff)
    next
      case (Some c)
      then obtain x r where c: "c = (x, r)" "validate" "x \<in> set ks" "map_of (cr_recent reg1) x = Some r" "snapshot < r"
        using ih by (auto split: prod.splits)
      moreover have "map_of (cr_recent reg1) x = map_of (cr_recent reg) x" using m1(1) k(1) c(3) by auto
      ultimately show ?thesis by (simp add: res Some)
    qed
    then show ?thesis using frame undo sub by blast
  qed
qed auto

lemma validate_ok_spec:
  assumes "distinct ks" "validate_and_record ks validate snapshot commit_ts reg = (reg', Inr ())"
  shows "cr_active reg' = cr_active reg
    \<and> (validate \<longrightarrow> (\<forall>k \<in> set ks. \<forall>r. map_of (cr_recent reg) k = Some r \<longrightarrow> r \<le> snapshot))
    \<and> (\<forall>k r t s. (if k \<in> set ks then Some commit_ts else map_of (cr_recent reg) k) = Some r \<longrightarrow>
         map_of (cr_active reg) t = Some s \<longrightarrow> s \<le> r \<longrightarrow> map_of (cr_recent reg') k = Some r)"
proof (cases "ks = []")
  case True
  then show ?thesis using assms by (simp add: validate_and_record_def)
next
  case False
  obtain reg1 rec' conf where rl: "record_loop validate snapshot commit_ts ks reg = (reg1, rec', conf)" by (metis prod_cases3)
  note spec = record_loop_spec [OF assms(1) rl]
  let ?reg2 = "reg1\<lparr>cr_commits := cr_commits reg1 + 1\<rparr>"
  have conf: "conf = None" and reg': "reg' = (if cr_commits reg1 mod PRUNE_INTERVAL_COMMITS = PRUNE_INTERVAL_COMMITS - 1 then prune ?reg2 else ?reg2)"
    using assms(2) False rl by (auto simp: validate_and_record_def Let_def split: option.splits if_splits)
  have m1: "map_of (cr_recent ?reg2) = (\<lambda>k. if k \<in> set ks then Some commit_ts else map_of (cr_recent reg) k)"
      "cr_active ?reg2 = cr_active reg" using spec conf by auto
  have "map_of (cr_recent reg') k = Some r"
    if "map_of (cr_recent ?reg2) k = Some r" "map_of (cr_active reg) t = Some s" "s \<le> r" for k r t s
    using prune_keeps [of ?reg2 t s k r] that m1(2) by (simp add: reg')
  moreover have "cr_active reg' = cr_active reg" using m1(2) by (simp add: reg' prune_def Let_def)
  ultimately show ?thesis using spec conf m1(1) by auto
qed

lemma validate_conflict_spec:
  assumes "distinct ks" "validate_and_record ks validate snapshot commit_ts reg = (reg', Inl (k, r))"
  shows "cr_active reg' = cr_active reg \<and> map_of (cr_recent reg') = map_of (cr_recent reg)
    \<and> validate \<and> k \<in> set ks \<and> map_of (cr_recent reg) k = Some r \<and> snapshot < r"
proof -
  obtain reg1 rec' conf where rl: "record_loop validate snapshot commit_ts ks reg = (reg1, rec', conf)" by (metis prod_cases3)
  note spec = record_loop_spec [OF assms(1) rl]
  have "conf = Some (k, r)" "reg' = fold undo_key rec' reg1"
    using assms(2) rl by (auto simp: validate_and_record_def Let_def split: option.splits if_splits)
  then show ?thesis using spec by (simp add: undo_fold_map)
qed

section \<open>The ledger interface\<close>

text \<open>
  What the snapshot barrier relies on: \<open>A\<close> is the set of announced commit timestamps, \<open>P\<close>
  those not yet applied, and \<open>mark\<close> the watermark.
\<close>

locale inflight_ledger =
  fixes ok :: "'r \<Rightarrow> u64 set \<Rightarrow> u64 set \<Rightarrow> bool"
    and announce :: "u64 \<Rightarrow> 'r \<Rightarrow> 'r option"
    and finish :: "'h \<Rightarrow> u64 \<Rightarrow> 'r \<Rightarrow> 'r"
    and passes :: "'r \<Rightarrow> u64 \<Rightarrow> bool"
    and mark :: "'r \<Rightarrow> u64"
  assumes announce_ok: "ok r A P \<Longrightarrow> ts_ok ts \<Longrightarrow> \<forall>a \<in> A. a < ts \<Longrightarrow> announce ts r = Some r' \<Longrightarrow>
      ok r' (insert ts A) (insert ts P) \<and> mark r \<le> mark r'"
    and finish_ok: "ok r A P \<Longrightarrow> ts_ok ts \<Longrightarrow> ok (finish h ts r) A (P - {ts}) \<and> mark r \<le> mark (finish h ts r)"
    and passes_iff: "ok r A P \<Longrightarrow> passes r s \<longleftrightarrow> (\<forall>ts \<in> P. s < ts)"
    and mark_pending: "ok r A P \<Longrightarrow> ts \<in> P \<Longrightarrow> mark r < ts"
begin

lemma covered_applied: "ok r A P \<Longrightarrow> passes r s \<Longrightarrow> a \<le> s \<Longrightarrow> a \<notin> P"
  by (auto simp: passes_iff)

lemma mark_applied_below: "ok r A P \<Longrightarrow> a \<le> mark r \<Longrightarrow> a \<notin> P"
  using mark_pending by (meson linorder_not_le)

lemma passes_stable_announce:
  "ok r A P \<Longrightarrow> passes r s \<Longrightarrow> ts_ok ts \<Longrightarrow> \<forall>a \<in> A. a < ts \<Longrightarrow> s < ts \<Longrightarrow> announce ts r = Some r' \<Longrightarrow> passes r' s"
  using announce_ok [of r A P ts r'] by (auto simp: passes_iff)

lemma passes_stable_finish: "ok r A P \<Longrightarrow> passes r s \<Longrightarrow> ts_ok ts \<Longrightarrow> passes (finish h ts r) s"
  using finish_ok [of r A P ts h] by (auto simp: passes_iff)

end

definition ledger_ok :: "registry \<Rightarrow> u64 set \<Rightarrow> u64 set \<Rightarrow> bool" where
  "ledger_ok reg A P \<longleftrightarrow> (\<exists>es. ring_rep reg es \<and> P = {ts. (ts, True) \<in> set es} \<and> fst ` set es \<subseteq> A
     \<and> (cr_watermark reg = 0 \<or> cr_watermark reg \<in> A))"

lemma ledger_begin:
  assumes ok: "ledger_ok reg A P" and ts: "ts_ok ts" "\<forall>a \<in> A. a < ts" and bg: "begin_commit ts reg = Some reg'"
  shows "ledger_ok reg' (insert ts A) (insert ts P) \<and> cr_watermark reg \<le> cr_watermark reg'"
proof -
  obtain es where es: "ring_rep reg es" "P = {ts. (ts, True) \<in> set es}" "fst ` set es \<subseteq> A"
      "cr_watermark reg = 0 \<or> cr_watermark reg \<in> A" using ok by (auto simp: ledger_ok_def)
  have "\<forall>e \<in> set es. fst e < ts" using es(3) ts(2) by auto
  moreover have "cr_watermark reg < ts" using es(4) ts by (auto simp: ts_ok_def)
  ultimately obtain es' where es': "ring_rep reg' (es' @ [(ts, True)])" "\<forall>x. (x, True) \<in> set es' \<longleftrightarrow> (x, True) \<in> set es"
      "set es' \<subseteq> set es" "cr_watermark reg \<le> cr_watermark reg'"
      "cr_watermark reg' = cr_watermark reg \<or> cr_watermark reg' \<in> fst ` set es"
    using begin_commit_rep [OF es(1) ts(1) _ _ bg] by blast
  have "fst ` set (es' @ [(ts, True)]) \<subseteq> insert ts A" "cr_watermark reg' = 0 \<or> cr_watermark reg' \<in> insert ts A"
    using es'(3,5) es(3,4) by auto
  then show ?thesis
    unfolding ledger_ok_def using es'(1,2,4) es(2) by (intro conjI exI [of _ "es' @ [(ts, True)]"]) auto
qed

lemma dropWhile_applied: "(x, True) \<in> set (dropWhile (\<lambda>e. \<not> snd e) es) \<longleftrightarrow> (x, True) \<in> set es"
  by (induction es) auto

lemma ledger_end:
  assumes ok: "ledger_ok reg A P" and ts: "ts_ok ts"
  shows "ledger_ok (end_commit hint ts reg) A (P - {ts}) \<and> cr_watermark reg \<le> cr_watermark (end_commit hint ts reg)"
proof -
  obtain es where es: "ring_rep reg es" "P = {ts. (ts, True) \<in> set es}" "fst ` set es \<subseteq> A"
      "cr_watermark reg = 0 \<or> cr_watermark reg \<in> A" using ok by (auto simp: ledger_ok_def)
  from es(1) ts show ?thesis
  proof (cases rule: end_commit_cases [where hint = hint])
    case absent
    then show ?thesis using ok es(2) by simp
  next
    case (marked j)
    let ?reg = "(set_slot (cr_tail reg + j) (slot_applied ts) reg)\<lparr>cr_pending := cr_pending reg - 1\<rparr>"
    let ?es = "mark_applied ts es"
    have rep: "ring_rep ?reg ?es" by (rule mark_rep [OF es(1) marked(1,2) refl])
    note rec = try_reclaim_rep [OF rep]
    have "map fst ?es = map fst es" by (auto simp: mark_applied_def)
    then have fsts: "fst ` set ?es = fst ` set es" by (metis set_map)
    have pend: "{x. (x, True) \<in> set ?es} = P - {ts}" by (auto simp: mark_applied_def es(2) split: if_splits)
    have wm: "cr_watermark ?reg = cr_watermark reg" by (simp add: set_slot_def)
    show ?thesis
      unfolding marked(3) ledger_ok_def
    proof (intro conjI exI [of _ "dropWhile (\<lambda>e. \<not> snd e) ?es"])
      have "fst ` set (dropWhile (\<lambda>e. \<not> snd e) ?es) \<subseteq> fst ` set ?es"
        by (intro image_mono) (auto dest: set_dropWhileD)
      then show "fst ` set (dropWhile (\<lambda>e. \<not> snd e) ?es) \<subseteq> A" using fsts es(3) by simp
      show "cr_watermark (try_reclaim ?reg) = 0 \<or> cr_watermark (try_reclaim ?reg) \<in> A"
        using rec fsts es(3,4) wm by auto
    qed (use rec wm pend in \<open>auto simp: dropWhile_applied\<close>)
  qed
qed

interpretation ledger: inflight_ledger ledger_ok begin_commit end_commit barrier_open cr_watermark
proof
  show "ledger_ok r A P \<Longrightarrow> barrier_open r s \<longleftrightarrow> (\<forall>ts \<in> P. s < ts)" for r A P s
    using barrier_open_spec by (auto simp: ledger_ok_def)
  show "ledger_ok r A P \<Longrightarrow> ts \<in> P \<Longrightarrow> cr_watermark r < ts" for r A P ts
    by (auto simp: ledger_ok_def ring_rep_def)
qed (simp_all add: ledger_begin ledger_end)

text \<open>Histories of announcements and completions; other methods leave the ring alone.\<close>

inductive commit_run :: "registry \<Rightarrow> u64 set \<Rightarrow> u64 set \<Rightarrow> bool" where
  new: "commit_run registry_new {} {}"
| announce: "commit_run reg A P \<Longrightarrow> ts_ok ts \<Longrightarrow> \<forall>a \<in> A. a < ts \<Longrightarrow> begin_commit ts reg = Some reg' \<Longrightarrow>
    commit_run reg' (insert ts A) (insert ts P)"
| finish: "commit_run reg A P \<Longrightarrow> ts_ok ts \<Longrightarrow> commit_run (end_commit hint ts reg) A (P - {ts})"
| validate: "commit_run reg A P \<Longrightarrow> commit_run (fst (validate_and_record ks v s c reg)) A P"

lemma ledger_frame:
  "cr_ring reg' = cr_ring reg \<Longrightarrow> cr_head reg' = cr_head reg \<Longrightarrow> cr_tail reg' = cr_tail reg \<Longrightarrow>
   cr_pending reg' = cr_pending reg \<Longrightarrow> cr_watermark reg' = cr_watermark reg \<Longrightarrow> ledger_ok reg A P \<Longrightarrow> ledger_ok reg' A P"
  by (simp add: ledger_ok_def ring_rep_def ring_slot_def)

definition same_ring :: "registry \<Rightarrow> registry \<Rightarrow> bool" where
  "same_ring reg reg' \<longleftrightarrow> cr_ring reg' = cr_ring reg \<and> cr_head reg' = cr_head reg \<and> cr_tail reg' = cr_tail reg
     \<and> cr_pending reg' = cr_pending reg \<and> cr_watermark reg' = cr_watermark reg"

lemma record_loop_ring: "same_ring reg (fst (record_loop v s c ks reg))"
proof (induction ks arbitrary: reg)
  case (Cons k ks)
  obtain reg1 res where rk: "record_key v s c k reg = (reg1, res)" by force
  then have "same_ring reg reg1" by (auto simp: record_key_def same_ring_def split: option.splits if_splits)
  then show ?case using Cons.IH [of reg1] by (auto simp: rk same_ring_def split: sum.split prod.splits)
qed (simp add: same_ring_def)

lemma undo_ring: "same_ring reg (fold undo_key rs reg)"
  by (induction rs arbitrary: reg) (auto simp: same_ring_def undo_key_def split: prod.splits option.splits)

lemma validate_ring: "same_ring reg (fst (validate_and_record ks v s c reg))"
proof -
  obtain reg1 rec' conf where rl: "record_loop v s c ks reg = (reg1, rec', conf)" by (metis prod_cases3)
  then have "same_ring reg reg1" using record_loop_ring [of reg v s c ks] by simp
  then show ?thesis
    using rl undo_ring [of reg1 rec'] by (auto simp: validate_and_record_def same_ring_def prune_def Let_def split: option.split prod.split)
qed

lemma commit_run_ok: "commit_run reg A P \<Longrightarrow> ledger_ok reg A P"
proof (induction rule: commit_run.induct)
  case new
  show ?case by (simp add: ledger_ok_def ring_rep_def registry_new_def)
next
  case (announce reg A P ts reg')
  then show ?case using ledger.announce_ok by blast
next
  case (finish reg A P ts hint)
  then show ?case using ledger.finish_ok by blast
next
  case (validate reg A P ks v s c)
  then show ?case using validate_ring [of reg ks v s c] ledger_frame unfolding same_ring_def by blast
qed

text \<open>
  Histories in which any number of calls of \<open>validate_and_record\<close> interleave key by key: the
  access to one key holds its map entry and is one step. \<open>H\<close> holds every recorded write that was
  not undone and \<open>U\<close> the undo records, key, timestamp and prior timestamp. Per key the recorded
  timestamps grow, a snapshot is registered at or above the writes recorded so far, and a call that loses
  undoes a key while its own record is still the current one.
\<close>

inductive key_run :: "registry \<Rightarrow> (bytes \<times> u64) set \<Rightarrow> (bytes \<times> u64 \<times> u64 option) set \<Rightarrow> bool" where
  fresh: "key_run registry_new {} {}"
| register: "key_run reg H U \<Longrightarrow> \<forall>w \<in> H. snd w \<le> s \<Longrightarrow> key_run (register_txn t s reg) H U"
| refresh: "key_run reg H U \<Longrightarrow> \<forall>w \<in> H. snd w \<le> s \<Longrightarrow> key_run (refresh_txn t s reg) H U"
| deregister: "key_run reg H U \<Longrightarrow> key_run (deregister_txn t reg) H U"
| pin: "key_run reg H U \<Longrightarrow> key_run (fst (pin_snapshot s reg)) H U"
| unpin: "key_run reg H U \<Longrightarrow> key_run (unpin_snapshot p reg) H U"
| record_one: "key_run reg H U \<Longrightarrow> \<forall>d. (k, d) \<in> H \<longrightarrow> d < c \<Longrightarrow> record_key v s c k reg = (reg', Inr prior) \<Longrightarrow>
    key_run reg' (insert (k, c) H) (insert (k, c, prior) U)"
| undo: "key_run reg H U \<Longrightarrow> (k, c, prior) \<in> U \<Longrightarrow> map_of (cr_recent reg) k = Some c \<Longrightarrow>
    key_run (undo_key (k, prior) reg) (H - {(k, c)}) {u \<in> U. (fst u, fst (snd u)) \<noteq> (k, c)}"
| count: "key_run reg H U \<Longrightarrow> key_run (reg\<lparr>cr_commits := n\<rparr>) H U"
| prune: "key_run reg H U \<Longrightarrow> key_run (prune reg) H U"

text \<open>A recorded write after an active snapshot is still visible to that snapshot's validation, and would be after an undo of a later one.\<close>

definition writes_tracked :: "registry \<Rightarrow> (bytes \<times> u64) set \<Rightarrow> bool" where
  "writes_tracked reg H \<longleftrightarrow> (\<forall>k c t s. (k, c) \<in> H \<longrightarrow> map_of (cr_active reg) t = Some s \<longrightarrow> s < c \<longrightarrow>
     (\<exists>r. map_of (cr_recent reg) k = Some r \<and> c \<le> r))"

definition undo_tracked :: "registry \<Rightarrow> (bytes \<times> u64) set \<Rightarrow> (bytes \<times> u64 \<times> u64 option) set \<Rightarrow> bool" where
  "undo_tracked reg H U \<longleftrightarrow> (\<forall>k c prior d t s. (k, c, prior) \<in> U \<longrightarrow> (k, d) \<in> H \<longrightarrow> d < c \<longrightarrow>
     map_of (cr_active reg) t = Some s \<longrightarrow> s < d \<longrightarrow> (\<exists>r. prior = Some r \<and> d \<le> r))
     \<and> (\<forall>k c prior. (k, c, prior) \<in> U \<longrightarrow> (k, c) \<in> H)"

lemma key_run_tracked: "key_run reg H U \<Longrightarrow> writes_tracked reg H \<and> undo_tracked reg H U"
proof (induction rule: key_run.induct)
  case fresh
  show ?case by (simp add: writes_tracked_def undo_tracked_def)
next
  case (register reg H U s t)
  have "(k, d) \<in> H \<Longrightarrow> \<not> s < d" for k d using register.hyps(2) by auto
  then show ?case using register.IH unfolding writes_tracked_def undo_tracked_def register_txn_def
    by (simp add: update_conv')
next
  case (refresh reg H U s t)
  have "(k, d) \<in> H \<Longrightarrow> \<not> s < d" for k d using refresh.hyps(2) by auto
  then show ?case using refresh.IH unfolding writes_tracked_def undo_tracked_def refresh_txn_def
    by (simp add: update_conv')
next
  case (deregister reg H U t)
  have act: "map_of (cr_active (deregister_txn t reg)) u = Some x \<Longrightarrow> map_of (cr_active reg) u = Some x" for u x
    by (auto simp: deregister_txn_def delete_conv' split: if_splits)
  have rec: "cr_recent (deregister_txn t reg) = cr_recent reg" by (simp add: deregister_txn_def)
  have "writes_tracked (deregister_txn t reg) H" using deregister.IH act unfolding writes_tracked_def rec by blast
  moreover have "undo_tracked (deregister_txn t reg) H U" using deregister.IH act unfolding undo_tracked_def by blast
  ultimately show ?case by blast
next
  case (record_one reg H U k c v s reg' prior)
  note spec = record_key_spec [OF record_one.hyps(3), simplified]
  have "writes_tracked reg' (insert (k, c) H)"
    using record_one.IH record_one.hyps(2) spec unfolding writes_tracked_def by (auto split: if_splits intro: less_imp_le)
  moreover have "undo_tracked reg' (insert (k, c) H) (insert (k, c, prior) U)"
    unfolding undo_tracked_def
  proof (intro conjI allI impI)
    fix k' c' prior' d t s'
    assume a: "(k', c', prior') \<in> insert (k, c, prior) U" "(k', d) \<in> insert (k, c) H" "d < c'" "map_of (cr_active reg') t = Some s'" "s' < d"
    have act: "map_of (cr_active reg) t = Some s'" using a(4) spec by simp
    show "\<exists>r. prior' = Some r \<and> d \<le> r"
    proof (cases "(k', c', prior') = (k, c, prior)")
      case True
      then have "(k, d) \<in> H" using a(2,3) by auto
      then show ?thesis using True record_one.IH spec act a(5) unfolding writes_tracked_def by auto
    next
      case False
      then have u: "(k', c', prior') \<in> U" using a(1) by auto
      then have "(k', c') \<in> H" using record_one.IH unfolding undo_tracked_def by blast
      then have "(k', d) \<in> H" using a(2,3) record_one.hyps(2) by (auto dest: less_trans)
      then show ?thesis using record_one.IH u a(3,5) act unfolding undo_tracked_def by blast
    qed
  next
    fix k' c' prior'
    assume "(k', c', prior') \<in> insert (k, c, prior) U"
    then show "(k', c') \<in> insert (k, c) H" using record_one.IH unfolding undo_tracked_def by blast
  qed
  ultimately show ?case by blast
next
  case (undo reg H U k c prior)
  have m: "map_of (cr_recent (undo_key (k, prior) reg)) = (map_of (cr_recent reg))(k := prior)" "cr_active (undo_key (k, prior) reg) = cr_active reg"
    using undo_map [of "(k, prior)" reg] by simp_all
  have "writes_tracked (undo_key (k, prior) reg) (H - {(k, c)})"
    unfolding writes_tracked_def m
  proof (intro allI impI)
    fix k' d t s
    assume a: "(k', d) \<in> H - {(k, c)}" "map_of (cr_active reg) t = Some s" "s < d"
    then obtain r where r: "map_of (cr_recent reg) k' = Some r" "d \<le> r" using undo.IH unfolding writes_tracked_def by blast
    show "\<exists>r. ((map_of (cr_recent reg))(k := prior)) k' = Some r \<and> d \<le> r"
    proof (cases "k' = k")
      case True
      then have "d < c" using r undo.hyps(3) a(1) by auto
      then show ?thesis using undo.IH undo.hyps(2) a True unfolding undo_tracked_def by auto
    qed (use r in simp)
  qed
  moreover have "undo_tracked (undo_key (k, prior) reg) (H - {(k, c)}) {u \<in> U. (fst u, fst (snd u)) \<noteq> (k, c)}"
    using undo.IH unfolding undo_tracked_def m by (auto simp: prod_eq_iff)
  ultimately show ?case by blast
next
  case (prune reg H U)
  have a: "cr_active (prune reg) = cr_active reg" by (simp add: prune_def Let_def)
  have "writes_tracked (prune reg) H"
    unfolding writes_tracked_def a
  proof (intro allI impI)
    fix k d t s
    assume w: "(k, d) \<in> H" "map_of (cr_active reg) t = Some s" "s < d"
    then obtain r where r: "map_of (cr_recent reg) k = Some r" "d \<le> r" using prune.IH unfolding writes_tracked_def by blast
    then show "\<exists>r. map_of (cr_recent (prune reg)) k = Some r \<and> d \<le> r" using prune_keeps [OF w(2), of k r] w(3) by simp
  qed
  then show ?case using prune.IH unfolding undo_tracked_def a by blast
qed (simp_all add: writes_tracked_def undo_tracked_def pin_snapshot_def unpin_snapshot_def)

text \<open>The loop of one call is such a history of its own.\<close>

lemma record_loop_run:
  "key_run reg H U \<Longrightarrow> distinct ks \<Longrightarrow> \<forall>k \<in> set ks. \<forall>d. (k, d) \<in> H \<longrightarrow> d < c \<Longrightarrow> record_loop v s c ks reg = (reg', recorded, None) \<Longrightarrow>
    \<exists>U'. key_run reg' (H \<union> (\<lambda>k. (k, c)) ` set ks) U'"
proof (induction ks arbitrary: reg H U recorded)
  case (Cons k ks)
  obtain reg1 res where rk: "record_key v s c k reg = (reg1, res)" by force
  then obtain prior rec' where res: "res = Inr prior" "record_loop v s c ks reg1 = (reg', rec', None)"
    using Cons.prems(4) by (auto split: sum.splits prod.splits)
  have "key_run reg1 (insert (k, c) H) (insert (k, c, prior) U)" using key_run.record_one [OF Cons.prems(1) _ rk [unfolded res]] Cons.prems(3) by simp
  from Cons.IH [OF this _ _ res(2)] Cons.prems(2,3) show ?case by auto
qed auto

lemma ts_ok_5: "ts_ok 5"
  by (simp add: ts_ok_def)

lemma commit_run_one: "\<exists>reg. begin_commit 5 registry_new = Some reg \<and> commit_run reg {5} {5}"
proof -
  have "\<exists>reg. begin_commit 5 registry_new = Some reg"
    by (simp add: begin_commit_def registry_new_def INFLIGHT_RING_SIZE_def)
  then show ?thesis using commit_run.announce [OF commit_run.new ts_ok_5] by auto
qed

section \<open>Properties\<close>

text \<open>
  C9. The snapshot barrier is exact: in every history of announcements (in timestamp order)
  and completions, it lets a snapshot pass if and only if no announced commit at or below the
  snapshot is still unapplied. The two fast paths and the early exit of the ring scan never
  admit a snapshot that covers an unapplied commit.
\<close>

theorem snapshot_barrier_exact:
  assumes "commit_run reg A P"
  shows "barrier_open reg s \<longleftrightarrow> (\<forall>ts \<in> P. s < ts)"
  using ledger.passes_iff [OF commit_run_ok [OF assms]] .

theorem snapshot_barrier_exact_witness:
  "\<exists>reg. begin_commit 5 registry_new = Some reg \<and> \<not> barrier_open reg 5 \<and> barrier_open reg 4"
proof -
  obtain reg where "begin_commit 5 registry_new = Some reg" "commit_run reg {5} {5}"
    using commit_run_one by blast
  then show ?thesis using snapshot_barrier_exact [of reg "{5}" "{5}" 5] snapshot_barrier_exact [of reg "{5}" "{5}" 4] by simp
qed

text \<open>
  The applied watermark is sound and monotone: every announced commit at or below it has
  been applied, and neither an announcement nor a completion (with any thread-local hint) lowers
  it.
\<close>

theorem watermark_sound:
  assumes "commit_run reg A P" "ts_ok ts"
  shows "(\<forall>p \<in> P. cr_watermark reg < p) \<and> cr_watermark reg \<le> cr_watermark (end_commit hint ts reg)
    \<and> (\<forall>reg'. (\<forall>a \<in> A. a < ts) \<longrightarrow> begin_commit ts reg = Some reg' \<longrightarrow> cr_watermark reg \<le> cr_watermark reg')"
  using ledger.mark_pending [OF commit_run_ok [OF assms(1)]] ledger.finish_ok [OF commit_run_ok [OF assms(1)] assms(2)]
    ledger.announce_ok [OF commit_run_ok [OF assms(1)] assms(2)] by blast

theorem watermark_sound_witness:
  "\<exists>reg. begin_commit 5 registry_new = Some reg \<and> cr_watermark reg < 5 \<and> cr_watermark reg \<le> cr_watermark (end_commit None 5 reg)"
proof -
  obtain reg where "begin_commit 5 registry_new = Some reg" "commit_run reg {5} {5}"
    using commit_run_one by blast
  then show ?thesis using watermark_sound [of reg "{5}" "{5}" 5 None] ts_ok_5 by blast
qed

text \<open>
  The thread-local slot hint is a pure optimisation: \<open>end_commit\<close> gives the same registry
  with any hint as with none, and ending a commit that is not pending changes nothing.
\<close>

theorem end_commit_hint_irrelevant:
  assumes "commit_run reg A P" "ts_ok ts"
  shows "end_commit hint ts reg = end_commit None ts reg \<and> (ts \<notin> P \<longrightarrow> end_commit hint ts reg = reg)"
proof -
  obtain es where es: "ring_rep reg es" "P = {ts. (ts, True) \<in> set es}"
    using commit_run_ok [OF assms(1)] by (auto simp: ledger_ok_def)
  show ?thesis
  proof (cases "(ts, True) \<in> set es")
    case False
    have "end_commit h ts reg = reg" for h
      using es(1) assms(2)
    proof (cases rule: end_commit_cases [where hint = h])
      case (marked j)
      then show ?thesis using False nth_mem [of j es] by simp
    qed
    then show ?thesis by simp
  next
    case True
    have uniq: "i = j" if "i < length es" "j < length es" "es ! i = (ts, True)" "es ! j = (ts, True)" for i j
      using ring_rep_distinct [OF es(1)] that nth_eq_iff_index_eq [of "map fst es" i j] by simp
    obtain j where j: "j < length es" "es ! j = (ts, True)" using True by (auto simp: in_set_conv_nth)
    have "end_commit h ts reg = try_reclaim ((set_slot (cr_tail reg + j) (slot_applied ts) reg)\<lparr>cr_pending := cr_pending reg - 1\<rparr>)" for h
      using es(1) assms(2)
    proof (cases rule: end_commit_cases [where hint = h])
      case (marked i)
      then show ?thesis using uniq [OF marked(1) j(1) marked(2) j(2)] by simp
    qed (use True in simp)
    then show ?thesis using True es(2) by simp
  qed
qed

theorem end_commit_hint_irrelevant_witness:
  "\<exists>reg. begin_commit 5 registry_new = Some reg \<and> end_commit (Some (5, 0)) 5 reg = end_commit None 5 reg
     \<and> end_commit (Some (6, 3)) 6 reg = reg"
proof -
  have "ts_ok 6" by (simp add: ts_ok_def)
  moreover obtain reg where "begin_commit 5 registry_new = Some reg" "commit_run reg {5} {5}"
    using commit_run_one by blast
  ultimately show ?thesis
    using end_commit_hint_irrelevant [of reg "{5}" "{5}" 5 "Some (5, 0)"]
      end_commit_hint_irrelevant [of reg "{5}" "{5}" 6 "Some (6, 3)"] ts_ok_5 by force
qed



text \<open>
  A validation that loses names a key of the write set whose recorded timestamp is after
  the snapshot, and leaves the recorded timestamps exactly as they were.
\<close>

theorem losing_validation_leaves_no_trace:
  assumes "distinct ks" "validate_and_record ks v s c reg = (reg', Inl (k, r))"
  shows "map_of (cr_recent reg') = map_of (cr_recent reg) \<and> v \<and> k \<in> set ks
    \<and> map_of (cr_recent reg) k = Some r \<and> s < r"
  using validate_conflict_spec [OF assms] by blast

theorem losing_validation_leaves_no_trace_witness:
  "let reg = fst (validate_and_record [[98]] False 0 15 registry_new);
       (reg', res) = validate_and_record [[97], [98]] True 10 20 reg
   in res = Inl ([98], 15) \<and> map_of (cr_recent reg') = map_of (cr_recent reg)"
proof -
  let ?reg = "fst (validate_and_record [[98]] False 0 15 registry_new)"
  have "validate_and_record [[97], [98]] True 10 20 ?reg
      = (fst (validate_and_record [[97], [98]] True 10 20 ?reg), Inl ([98], 15))"
    by (simp add: validate_and_record_def record_key_def undo_key_def registry_new_def PRUNE_INTERVAL_COMMITS_def Let_def)
  from losing_validation_leaves_no_trace [OF _ this] this show ?thesis by (auto simp: Let_def split: prod.split)
qed

text \<open>
  C36. Interleaved key by key, the undo of a losing call can erase the record of a commit that happened in
  between. Whenever a call records a key \<open>a\<close>, another call then commits \<open>a\<close> at \<open>c'\<close> without validation, and the
  first call loses on a key \<open>b\<close>, its undo restores the timestamp that \<open>a\<close> had before: every transaction with a
  snapshot at or above that one passes validation on \<open>a\<close>, also with a snapshot before \<open>c'\<close>.
\<close>

theorem interleaved_undo_loses_record:
  assumes "a \<noteq> b" "map_of (cr_recent reg) b = Some r" "s < r" "\<And>p. map_of (cr_recent reg) a = Some p \<Longrightarrow> p \<le> s"
    and "record_key True s c a reg = (reg1, res_a)" "record_key False s' c' a reg1 = (reg2, res_other)"
    and "record_key True s c b reg2 = (reg3, res_b)" "s \<le> late" "late < c'"
  shows "res_a = Inr (map_of (cr_recent reg) a) \<and> res_other = Inr (Some c) \<and> res_b = Inl r \<and> map_of (cr_recent reg3) a = Some c'
    \<and> (let reg4 = undo_key (a, map_of (cr_recent reg) a) reg3 in
        map_of (cr_recent reg4) a = map_of (cr_recent reg) a \<and> (\<exists>reg5. record_key True late c'' a reg4 = (reg5, Inr (map_of (cr_recent reg) a))))"
proof -
  have a: "res_a = Inr (map_of (cr_recent reg) a)" "map_of (cr_recent reg1) = (map_of (cr_recent reg))(a \<mapsto> c)"
    using assms(4,5) by (auto simp: record_key_def update_conv' split: option.splits if_splits)
  have o: "res_other = Inr (Some c)" "map_of (cr_recent reg2) = (map_of (cr_recent reg))(a \<mapsto> c')"
    using assms(6) a(2) by (auto simp: record_key_def update_conv')
  have b: "res_b = Inl r" "reg3 = reg2" using assms(1-3,7) o(2) by (auto simp: record_key_def)
  have u: "map_of (cr_recent (undo_key (a, map_of (cr_recent reg) a) reg3)) a = map_of (cr_recent reg) a" by (simp add: undo_map)
  have "\<exists>reg5. record_key True late c'' a (undo_key (a, map_of (cr_recent reg) a) reg3) = (reg5, Inr (map_of (cr_recent reg) a))"
    using u assms(4,8) by (cases "map_of (cr_recent reg) a") (force simp: record_key_def)+
  then show ?thesis using a(1) o b u by (simp add: Let_def)
qed

theorem interleaved_undo_loses_record_witness:
  "let reg = fst (record_key False 0 15 [98] registry_new);
       reg3 = fst (record_key False 0 21 [97] (fst (record_key True 10 20 [97] reg)))
   in map_of (cr_recent reg3) [97] = Some 21 \<and> (\<exists>reg5. record_key True 12 30 [97] (undo_key ([97], None) reg3) = (reg5, Inr None))"
proof -
  let ?reg = "fst (record_key False 0 15 [98] registry_new)"
  let ?reg1 = "fst (record_key True 10 20 [97] ?reg)"
  let ?reg2 = "fst (record_key False 0 21 [97] ?reg1)"
  have m: "map_of (cr_recent ?reg) [98] = Some 15" "map_of (cr_recent ?reg) [97] = None" by (simp_all add: record_key_def registry_new_def)
  have r: "record_key True 10 20 [97] ?reg = (?reg1, Inr None)" "record_key False 0 21 [97] ?reg1 = (?reg2, Inr (Some 20))"
    "record_key True 10 20 [98] ?reg2 = (?reg2, Inl 15)" by (simp_all add: record_key_def registry_new_def)
  show ?thesis using interleaved_undo_loses_record [OF _ m(1) _ _ r, of 12 30] m(2) by (simp add: Let_def)
qed

text \<open>
  The garbage-collection horizon is safe: \<open>min_pinned_snapshot\<close> is at most every pinned
  and every registered snapshot, it is one of them, and it is \<open>None\<close> only when there are none.
\<close>

theorem min_pinned_snapshot_horizon:
  "case min_pinned_snapshot reg of
     None \<Rightarrow> cr_pins reg = [] \<and> cr_active reg = []
   | Some m \<Rightarrow> (\<forall>e \<in> set (cr_pins reg) \<union> set (cr_active reg). m \<le> snd e)
       \<and> m \<in> snd ` (set (cr_pins reg) \<union> set (cr_active reg))"
  using active_min_spec [of "cr_pins reg"] active_min_spec [of "cr_active reg"]
  by (auto simp: min_pinned_snapshot_def min_def split: option.splits)

theorem min_pinned_snapshot_horizon_witness:
  "let reg = register_txn 1 4 (fst (pin_snapshot 7 registry_new))
   in \<exists>m. min_pinned_snapshot reg = Some m \<and> m \<le> 4 \<and> m \<le> 7"
proof -
  let ?reg = "register_txn 1 4 (fst (pin_snapshot 7 registry_new))"
  have "cr_pins ?reg = [(0, 7)]" "cr_active ?reg = [(1, 4)]"
    by (simp_all add: register_txn_def pin_snapshot_def registry_new_def)
  then show ?thesis using min_pinned_snapshot_horizon [of ?reg] by (auto simp: Let_def split: option.splits)
qed

end
