(* ===== verification/Index_Registry.thy ===== *)
theory Index_Registry
  imports Art_Spec "HOL-Library.AList" "HOL-Library.Sublist"
begin

text \<open>
  The registry half of \<open>ArtIndexManager\<close> (\<^verbatim>\<open>src/src/storage/art_manager.rs\<close>): which index
  belongs to which table, the derived name maps, the minting of free names, creation, removal
  and renaming. The hash maps are association lists (an iteration visits one of the possible
  orders), a tree handle is the tree itself, and one method is one atomic step. The
  invalidation hook is a count of its calls.
\<close>

section \<open>State\<close>

record index_entry =
  ie_table :: string
  ie_columns :: "string list"
  ie_type :: art_index_type
  ie_label :: "string option"
  ie_tree :: art_tree

definition entry_with_label :: "art_tree \<Rightarrow> string option \<Rightarrow> index_entry" where
  "entry_with_label t label = \<lparr>ie_table = at_table t, ie_columns = at_columns t, ie_type = at_index_type t,
     ie_label = label, ie_tree = t\<rparr>"

definition entry_new :: "art_tree \<Rightarrow> index_entry" where
  "entry_new t = entry_with_label t None"

datatype index_name_policy = Refuse | MintFree

record foreign_key_info =
  fk_name :: string
  fk_table :: string
  fk_columns :: "string list"
  fk_ref_table :: string
  fk_ref_columns :: "string list"
  fk_index :: string

record art_manager_stats =
  ms_total_indexes :: u64
  ms_pk_indexes :: u64
  ms_fk_indexes :: u64
  ms_unique_indexes :: u64
  ms_manual_indexes :: u64
  ms_constraint_checks :: u64
  ms_violations_caught :: u64
  ms_index_renames :: u64

definition stats_add_index :: "art_index_type \<Rightarrow> art_manager_stats \<Rightarrow> art_manager_stats" where
  "stats_add_index ty s = (let s = s\<lparr>ms_total_indexes := ms_total_indexes s + 1\<rparr> in case ty of
       PrimaryKey \<Rightarrow> s\<lparr>ms_pk_indexes := ms_pk_indexes s + 1\<rparr>
     | ForeignKey \<Rightarrow> s\<lparr>ms_fk_indexes := ms_fk_indexes s + 1\<rparr>
     | Unique \<Rightarrow> s\<lparr>ms_unique_indexes := ms_unique_indexes s + 1\<rparr>
     | Manual \<Rightarrow> s\<lparr>ms_manual_indexes := ms_manual_indexes s + 1\<rparr>)"

definition stats_remove_index :: "art_index_type \<Rightarrow> art_manager_stats \<Rightarrow> art_manager_stats" where
  "stats_remove_index ty s = (let s = s\<lparr>ms_total_indexes := ms_total_indexes s - 1\<rparr> in case ty of
       PrimaryKey \<Rightarrow> s\<lparr>ms_pk_indexes := ms_pk_indexes s - 1\<rparr>
     | ForeignKey \<Rightarrow> s\<lparr>ms_fk_indexes := ms_fk_indexes s - 1\<rparr>
     | Unique \<Rightarrow> s\<lparr>ms_unique_indexes := ms_unique_indexes s - 1\<rparr>
     | Manual \<Rightarrow> s\<lparr>ms_manual_indexes := ms_manual_indexes s - 1\<rparr>)"

record art_manager =
  am_indexes :: "(string \<times> index_entry) list"
  am_pk :: "(string \<times> string) list"
  am_fk :: "(string \<times> string list) list"
  am_fk_info :: "(string \<times> foreign_key_info) list"
  am_unique :: "(string \<times> string list) list"
  am_table_indexes :: "(string \<times> string list) list"
  am_stats :: art_manager_stats
  am_clean :: bool
  am_hook :: bool
  am_hook_calls :: nat

definition art_manager_new :: art_manager where
  "art_manager_new = \<lparr>am_indexes = [], am_pk = [], am_fk = [], am_fk_info = [], am_unique = [], am_table_indexes = [],
     am_stats = \<lparr>ms_total_indexes = 0, ms_pk_indexes = 0, ms_fk_indexes = 0, ms_unique_indexes = 0,
       ms_manual_indexes = 0, ms_constraint_checks = 0, ms_violations_caught = 0, ms_index_renames = 0\<rparr>,
     am_clean = True, am_hook = False, am_hook_calls = 0\<rparr>"

definition set_snapshot_invalidation_hook :: "art_manager \<Rightarrow> art_manager" where
  "set_snapshot_invalidation_hook m = m\<lparr>am_hook := True\<rparr>"

definition mark_snapshot_clean :: "art_manager \<Rightarrow> art_manager" where
  "mark_snapshot_clean m = m\<lparr>am_clean := True\<rparr>"

definition note_mutation :: "art_manager \<Rightarrow> art_manager" where
  "note_mutation m =
     (if am_clean m then m\<lparr>am_clean := False, am_hook_calls := am_hook_calls m + (if am_hook m then 1 else 0)\<rparr> else m)"

section \<open>Names\<close>

fun join :: "string \<Rightarrow> string list \<Rightarrow> string" where
  "join sep [] = []"
| "join sep [s] = s"
| "join sep (s # t # ss) = s @ sep @ join sep (t # ss)"

definition pk_index_name :: "string \<Rightarrow> string" where
  "pk_index_name table = table @ ''_pkey''"

definition fk_index_name :: "string \<Rightarrow> string list \<Rightarrow> string" where
  "fk_index_name table columns = table @ ''_'' @ join ''_'' columns @ ''_fkey''"

definition unique_index_name :: "string \<Rightarrow> string list \<Rightarrow> string" where
  "unique_index_name table columns = table @ ''_'' @ join ''_'' columns @ ''_key''"

text \<open>Decimal printing of the suffix.\<close>

fun nat_str :: "nat \<Rightarrow> string" where
  "nat_str n = (if n < 10 then [char_of (48 + n)] else nat_str (n div 10) @ [char_of (48 + n mod 10)])"

declare nat_str.simps [simp del]

definition str_val :: "string \<Rightarrow> nat" where
  "str_val s = foldl (\<lambda>a c. 10 * a + (of_char c - 48)) 0 s"

lemma str_val_nat_str: "str_val (nat_str n) = n"
proof (induction n rule: nat_str.induct)
  case (1 n)
  have d: "of_char (char_of (48 + d)) - (48 :: nat) = d" if "d < 10" for d :: nat using that by simp
  show ?case
  proof (cases "n < 10")
    case True
    then show ?thesis by (subst nat_str.simps) (simp add: str_val_def d)
  next
    case False
    then show ?thesis
      using 1 [OF False] d [of "n mod 10"] by (subst nat_str.simps) (simp add: str_val_def mult_div_mod_eq)
  qed
qed

lemma nat_str_inj: "nat_str a = nat_str b \<longleftrightarrow> a = b"
  using str_val_nat_str by metis

definition suffixed :: "string \<Rightarrow> nat \<Rightarrow> string" where
  "suffixed base n = base @ ''_'' @ nat_str n"

lemma suffixed_inj: "suffixed base a = suffixed base b \<longleftrightarrow> a = b"
  by (simp add: suffixed_def nat_str_inj)

lemma suffixes_finite: "finite {k. n \<le> k \<and> suffixed base k \<in> set keys}"
proof (rule finite_imageD [of "suffixed base"])
  show "finite (suffixed base ` {k. n \<le> k \<and> suffixed base k \<in> set keys})"
    by (rule finite_subset [of _ "set keys"]) auto
qed (simp add: inj_on_def suffixed_inj)

text \<open>The loop that looks for the smallest free suffix; \<open>n\<close> is far from the bound of its \<open>u32\<close>.\<close>

function mint_from :: "string list \<Rightarrow> string \<Rightarrow> nat \<Rightarrow> string" where
  "mint_from keys base n = (if suffixed base n \<in> set keys then mint_from keys base (n + 1) else suffixed base n)"
  by pat_completeness auto
termination
proof (relation "measure (\<lambda>(keys, base, n). card {k. n \<le> k \<and> suffixed base k \<in> set keys})")
  fix keys base n
  assume "suffixed base n \<in> set keys"
  then have "{k. n + 1 \<le> k \<and> suffixed base k \<in> set keys} \<subset> {k. n \<le> k \<and> suffixed base k \<in> set keys}"
    by (auto simp: psubset_eq) (metis (mono_tags, lifting) Suc_n_not_le_n mem_Collect_eq order_refl)
  then show "((keys, base, n + 1), keys, base, n) \<in> measure (\<lambda>(keys, base, n). card {k. n \<le> k \<and> suffixed base k \<in> set keys})"
    using psubset_card_mono [OF suffixes_finite] by auto
qed simp

declare mint_from.simps [simp del]

definition mint_name :: "string list \<Rightarrow> string \<Rightarrow> string" where
  "mint_name keys base = (if base \<in> set keys then mint_from keys base 2 else base)"

lemma mint_from_spec: "\<exists>k \<ge> n. mint_from keys base n = suffixed base k \<and> suffixed base k \<notin> set keys
    \<and> (\<forall>j. n \<le> j \<and> j < k \<longrightarrow> suffixed base j \<in> set keys)"
proof (induction keys base n rule: mint_from.induct)
  case (1 keys base n)
  show ?case
  proof (cases "suffixed base n \<in> set keys")
    case True
    then have eq: "mint_from keys base n = mint_from keys base (n + 1)" by (simp add: mint_from.simps [of keys base n])
    from 1 [OF True] obtain k where k: "k \<ge> n + 1" "mint_from keys base (n + 1) = suffixed base k" "suffixed base k \<notin> set keys"
        "\<forall>j. n + 1 \<le> j \<and> j < k \<longrightarrow> suffixed base j \<in> set keys" by blast
    have "\<forall>j. n \<le> j \<and> j < k \<longrightarrow> suffixed base j \<in> set keys"
      using k(4) True by (metis Suc_eq_plus1 Suc_leI le_neq_implies_less)
    then show ?thesis using k eq by (intro exI [of _ k]) auto
  next
    case False
    then show ?thesis by (intro exI [of _ n]) (auto simp: mint_from.simps [of keys base n])
  qed
qed

lemma mint_name_free: "mint_name keys base \<notin> set keys"
  using mint_from_spec [of 2 keys base] by (auto simp: mint_name_def)

section \<open>Registration and removal\<close>

definition names_of :: "(string \<times> string list) list \<Rightarrow> string \<Rightarrow> string list" where
  "names_of mp t = (case map_of mp t of Some l \<Rightarrow> l | None \<Rightarrow> [])"

text \<open>\<open>entry(table).or_insert_with(Vec::new).push(name)\<close>.\<close>

definition push_name :: "string \<Rightarrow> string \<Rightarrow> (string \<times> string list) list \<Rightarrow> (string \<times> string list) list" where
  "push_name table name mp = AList.update table (names_of mp table @ [name]) mp"

definition table_index_add :: "string \<Rightarrow> string \<Rightarrow> art_manager \<Rightarrow> art_manager" where
  "table_index_add table name m = m\<lparr>am_table_indexes := push_name table name (am_table_indexes m)\<rparr>"

definition table_index_remove :: "string \<Rightarrow> string \<Rightarrow> art_manager \<Rightarrow> art_manager" where
  "table_index_remove table name m = (case map_of (am_table_indexes m) table of
       None \<Rightarrow> m
     | Some list \<Rightarrow> let list = filter (\<lambda>n. n \<noteq> name) list in
         m\<lparr>am_table_indexes := (if list = [] then AList.delete table (am_table_indexes m)
            else AList.update table list (am_table_indexes m))\<rparr>)"

definition register_index_entry ::
  "string \<Rightarrow> index_name_policy \<Rightarrow> (string \<Rightarrow> index_entry) \<Rightarrow> art_manager \<Rightarrow> art_manager \<times> (art_index_error + string)" where
  "register_index_entry base policy mk m =
     (let keys = map fst (am_indexes m) in
      if policy = Refuse then
        (if base \<in> set keys then (m, Inl (IndexAlreadyExists base))
         else (m\<lparr>am_indexes := AList.update base (mk base) (am_indexes m)\<rparr>, Inr base))
      else let candidate = mint_name keys base in
        (m\<lparr>am_indexes := AList.update candidate (mk candidate) (am_indexes m)\<rparr>, Inr candidate))"

definition create_pk_index :: "string \<Rightarrow> string list \<Rightarrow> art_manager \<Rightarrow> art_manager \<times> (art_index_error + string)" where
  "create_pk_index table columns m = (let m = note_mutation m in
     if map_of (am_pk m) table \<noteq> None
     then (m, Inl (IndexAlreadyExists (''Primary key already exists for table '' @ [CHR 0x27] @ table @ [CHR 0x27])))
     else case register_index_entry (pk_index_name table) MintFree
            (\<lambda>name. entry_new (art_new name table columns PrimaryKey)) m of
        (m, Inl e) \<Rightarrow> (m, Inl e)
      | (m, Inr index_name) \<Rightarrow>
          let m = table_index_add table index_name (m\<lparr>am_pk := AList.update table index_name (am_pk m)\<rparr>)
          in (m\<lparr>am_stats := stats_add_index PrimaryKey (am_stats m)\<rparr>, Inr index_name))"

definition create_fk_index ::
  "string \<Rightarrow> string list \<Rightarrow> string \<Rightarrow> string list \<Rightarrow> string option \<Rightarrow> art_manager \<Rightarrow> art_manager \<times> (art_index_error + string)" where
  "create_fk_index table columns ref_table ref_columns constraint_name m = (let m = note_mutation m in
     case register_index_entry (case constraint_name of Some n \<Rightarrow> n | None \<Rightarrow> fk_index_name table columns) Refuse
            (\<lambda>name. entry_new (art_new name table columns ForeignKey)) m of
        (m, Inl e) \<Rightarrow> (m, Inl e)
      | (m, Inr index_name) \<Rightarrow>
          let info = \<lparr>fk_name = index_name, fk_table = table, fk_columns = columns, fk_ref_table = ref_table,
                fk_ref_columns = ref_columns, fk_index = index_name\<rparr>;
              m = m\<lparr>am_fk := push_name table index_name (am_fk m)\<rparr>;
              m = table_index_add table index_name (m\<lparr>am_fk_info := AList.update index_name info (am_fk_info m)\<rparr>)
          in (m\<lparr>am_stats := stats_add_index ForeignKey (am_stats m)\<rparr>, Inr index_name))"

definition create_unique_index :: "string \<Rightarrow> string list \<Rightarrow> string option \<Rightarrow> art_manager \<Rightarrow> art_manager \<times> (art_index_error + string)" where
  "create_unique_index table columns constraint_name m = (let m = note_mutation m in
     case register_index_entry (case constraint_name of Some n \<Rightarrow> n | None \<Rightarrow> unique_index_name table columns) Refuse
            (\<lambda>name. entry_new (art_new name table columns Unique)) m of
        (m, Inl e) \<Rightarrow> (m, Inl e)
      | (m, Inr index_name) \<Rightarrow>
          let m = table_index_add table index_name (m\<lparr>am_unique := push_name table index_name (am_unique m)\<rparr>)
          in (m\<lparr>am_stats := stats_add_index Unique (am_stats m)\<rparr>, Inr index_name))"

definition create_constraint_unique_index ::
  "string \<Rightarrow> string list \<Rightarrow> string option \<Rightarrow> art_manager \<Rightarrow> art_manager \<times> (art_index_error + string)" where
  "create_constraint_unique_index table columns constraint_label m = (let m = note_mutation m in
     case register_index_entry (unique_index_name table columns) MintFree
            (\<lambda>name. entry_with_label (art_new name table columns Unique)
               (case constraint_label of Some l \<Rightarrow> if l \<noteq> name then Some l else None | None \<Rightarrow> None)) m of
        (m, Inl e) \<Rightarrow> (m, Inl e)
      | (m, Inr index_name) \<Rightarrow>
          let m = table_index_add table index_name (m\<lparr>am_unique := push_name table index_name (am_unique m)\<rparr>)
          in (m\<lparr>am_stats := stats_add_index Unique (am_stats m)\<rparr>, Inr index_name))"

definition create_manual_index :: "string \<Rightarrow> string \<Rightarrow> string list \<Rightarrow> art_manager \<Rightarrow> art_manager \<times> (art_index_error + string)" where
  "create_manual_index name table columns m = (let m = note_mutation m in
     case register_index_entry name Refuse (\<lambda>index_name. entry_new (art_new index_name table columns Manual)) m of
        (m, Inl e) \<Rightarrow> (m, Inl e)
      | (m, Inr _) \<Rightarrow>
          let m = table_index_add table name m
          in (m\<lparr>am_stats := stats_add_index Manual (am_stats m)\<rparr>, Inr name))"

definition retain_names :: "string \<Rightarrow> (string \<times> string list) list \<Rightarrow> (string \<times> string list) list" where
  "retain_names name mp = map (\<lambda>(t, l). (t, filter (\<lambda>n. n \<noteq> name) l)) mp"

definition drop_index :: "string \<Rightarrow> art_manager \<Rightarrow> art_manager \<times> (art_index_error + unit)" where
  "drop_index name m = (let m = note_mutation m in
     case map_of (am_indexes m) name of
       None \<Rightarrow> (m, Inl (IndexNotFound name))
     | Some entry \<Rightarrow>
         let m = table_index_remove (ie_table entry) name (m\<lparr>am_indexes := AList.delete name (am_indexes m)\<rparr>);
             m = (case ie_type entry of
                PrimaryKey \<Rightarrow> m\<lparr>am_pk := filter (\<lambda>(_, v). v \<noteq> name) (am_pk m)\<rparr>
              | ForeignKey \<Rightarrow> m\<lparr>am_fk := retain_names name (am_fk m), am_fk_info := AList.delete name (am_fk_info m)\<rparr>
              | Unique \<Rightarrow> m\<lparr>am_unique := retain_names name (am_unique m)\<rparr>
              | Manual \<Rightarrow> m)
         in (m\<lparr>am_stats := stats_remove_index (ie_type entry) (am_stats m)\<rparr>, Inr ()))"

fun drop_loop :: "string list \<Rightarrow> art_manager \<Rightarrow> art_manager \<times> (art_index_error + unit)" where
  "drop_loop [] m = (m, Inr ())"
| "drop_loop (name # names) m = (case drop_index name m of
     (m, Inl e) \<Rightarrow> (m, Inl e) | (m, Inr _) \<Rightarrow> drop_loop names m)"

definition drop_table_indexes :: "string \<Rightarrow> art_manager \<Rightarrow> art_manager \<times> (art_index_error + unit)" where
  "drop_table_indexes table m = drop_loop (map fst (filter (\<lambda>(_, e). ie_table e = table) (am_indexes m))) m"

definition clear_table_indexes :: "string \<Rightarrow> art_manager \<Rightarrow> art_manager" where
  "clear_table_indexes table m = (let m = note_mutation m in
     m\<lparr>am_indexes := map (\<lambda>(n, e). (n, if ie_table e = table then e\<lparr>ie_tree := art_clear (ie_tree e)\<rparr> else e)) (am_indexes m)\<rparr>)"

definition rename_columns :: "string \<Rightarrow> string \<Rightarrow> string list \<Rightarrow> string list" where
  "rename_columns old new cols = map (\<lambda>c. if eq_ignore_ascii_case c old then new else c) cols"

definition rename_column_in_indexes :: "string \<Rightarrow> string \<Rightarrow> string \<Rightarrow> art_manager \<Rightarrow> art_manager \<times> string list" where
  "rename_column_in_indexes table old new m =
     (if eq_ignore_ascii_case old new then (m, [])
      else let m = note_mutation m;
               hit = (\<lambda>e. ie_table e = table \<and> (\<exists>c \<in> set (ie_columns e). eq_ignore_ascii_case c old));
               changed = map fst (filter (\<lambda>(_, e). hit e) (am_indexes m));
               m = m\<lparr>am_indexes := map (\<lambda>(n, e). (n, if hit e then
                      e\<lparr>ie_columns := rename_columns old new (ie_columns e), ie_tree := fst (art_rename_column old new (ie_tree e))\<rparr>
                      else e)) (am_indexes m)\<rparr>
           in (m\<lparr>am_fk_info := map (\<lambda>(n, i).
                 let i = (if fk_table i = table then i\<lparr>fk_columns := rename_columns old new (fk_columns i)\<rparr> else i)
                 in (n, if fk_ref_table i = table then i\<lparr>fk_ref_columns := rename_columns old new (fk_ref_columns i)\<rparr> else i))
                 (am_fk_info m)\<rparr>, changed))"

section \<open>Table renaming\<close>

text \<open>\<open>str::replace\<close> for the patterns of the code, none of which is empty.\<close>

function replace_all :: "string \<Rightarrow> string \<Rightarrow> string \<Rightarrow> string" where
  "replace_all pat to [] = []"
| "replace_all pat to (c # cs) =
     (if pat \<noteq> [] \<and> prefix pat (c # cs) then to @ replace_all pat to (drop (length pat) (c # cs))
      else c # replace_all pat to cs)"
  by pat_completeness auto
termination
  by (relation "measure (\<lambda>(_, _, s). length s)") auto

definition renamed_index :: "string \<Rightarrow> string \<Rightarrow> string list \<Rightarrow> string \<Rightarrow> index_entry \<Rightarrow> string" where
  "renamed_index old_table new_table preserve old_name entry =
     (if old_name \<in> set preserve then old_name
      else let new_name = replace_all (''unique_'' @ old_table) (''unique_'' @ new_table)
                 (replace_all (''fk_'' @ old_table) (''fk_'' @ new_table)
                   (replace_all (''pk_'' @ old_table) (''pk_'' @ new_table)
                     (replace_all (''_'' @ old_table @ ''_'') (''_'' @ new_table @ ''_'') old_name)))
           in if new_name = old_name \<and> ie_type entry \<noteq> Manual \<and> prefix (old_table @ ''_'') old_name
              then new_table @ ''_'' @ drop (length (old_table @ ''_'')) old_name
              else new_name)"

fun rename_loop :: "string \<Rightarrow> string \<Rightarrow> string list \<Rightarrow> string list \<Rightarrow> (string \<times> index_entry) list
    \<Rightarrow> (string \<times> index_entry) list \<times> (string \<times> string) list" where
  "rename_loop old_table new_table preserve [] indexes = (indexes, [])"
| "rename_loop old_table new_table preserve (old_name # matching) indexes =
     (case map_of indexes old_name of
        None \<Rightarrow> rename_loop old_table new_table preserve matching indexes
      | Some entry \<Rightarrow>
          let new_name = renamed_index old_table new_table preserve old_name entry;
              entry = entry\<lparr>ie_tree := art_rename new_table new_name (ie_tree entry), ie_table := new_table\<rparr>;
              indexes = AList.update new_name entry (AList.delete old_name indexes);
              (indexes, renames) = rename_loop old_table new_table preserve matching indexes
          in (indexes, (old_name, new_name) # renames))"

definition rename_of :: "(string \<times> string) list \<Rightarrow> string \<Rightarrow> string" where
  "rename_of renames name = (case map_of renames name of Some n \<Rightarrow> n | None \<Rightarrow> name)"

definition move_names :: "string \<Rightarrow> string \<Rightarrow> (string \<times> string) list \<Rightarrow> (string \<times> string list) list \<Rightarrow> (string \<times> string list) list" where
  "move_names old_table new_table renames mp = (case map_of mp old_table of
       None \<Rightarrow> mp
     | Some names \<Rightarrow> AList.update new_table (map (rename_of renames) names) (AList.delete old_table mp))"

definition move_fk_info :: "string \<Rightarrow> string \<Rightarrow> string \<times> string \<Rightarrow> (string \<times> foreign_key_info) list \<Rightarrow> (string \<times> foreign_key_info) list" where
  "move_fk_info old_table new_table r fki = (case map_of fki (fst r) of
       None \<Rightarrow> fki
     | Some info \<Rightarrow> AList.update (snd r)
         (info\<lparr>fk_name := snd r, fk_index := snd r, fk_table := (if fk_table info = old_table then new_table else fk_table info)\<rparr>)
         (AList.delete (fst r) fki))"

definition rename_table_indexes :: "string \<Rightarrow> string \<Rightarrow> string list \<Rightarrow> art_manager \<Rightarrow> art_manager" where
  "rename_table_indexes old_table new_table preserve m =
     (let m = note_mutation m;
          matching = map fst (filter (\<lambda>(_, e). ie_table e = old_table) (am_indexes m));
          (indexes, renames) = rename_loop old_table new_table preserve matching (am_indexes m);
          m = m\<lparr>am_indexes := indexes\<rparr>;
          m = (if map_of (am_table_indexes m) old_table = None then m
               else let ti = AList.delete old_table (am_table_indexes m) in
                 m\<lparr>am_table_indexes := (if renames = [] then ti else AList.update new_table (map snd renames) ti)\<rparr>);
          m = (case map_of (am_pk m) old_table of
               None \<Rightarrow> m
             | Some name \<Rightarrow> m\<lparr>am_pk := AList.update new_table (rename_of renames name) (AList.delete old_table (am_pk m))\<rparr>);
          m = m\<lparr>am_fk := move_names old_table new_table renames (am_fk m)\<rparr>;
          m = m\<lparr>am_unique := move_names old_table new_table renames (am_unique m)\<rparr>;
          m = m\<lparr>am_fk_info := fold (move_fk_info old_table new_table) renames (am_fk_info m)\<rparr>
      in m\<lparr>am_stats := (am_stats m)\<lparr>ms_index_renames := ms_index_renames (am_stats m) + 1\<rparr>\<rparr>)"

section \<open>Consistency of the name maps\<close>

definition owned :: "art_manager \<Rightarrow> art_index_type \<Rightarrow> string \<Rightarrow> string \<Rightarrow> bool" where
  "owned m ty t n \<longleftrightarrow> (\<exists>e. map_of (am_indexes m) n = Some e \<and> ie_table e = t \<and> ie_type e = ty)"

definition lists_names :: "(string \<times> string list) list \<Rightarrow> (string \<Rightarrow> string \<Rightarrow> bool) \<Rightarrow> bool" where
  "lists_names mp P \<longleftrightarrow> (\<forall>t. distinct (names_of mp t) \<and> (\<forall>n. n \<in> set (names_of mp t) \<longleftrightarrow> P t n))"

definition mirrors :: "string \<Rightarrow> index_entry \<Rightarrow> bool" where
  "mirrors n e \<longleftrightarrow> at_name (ie_tree e) = n \<and> at_table (ie_tree e) = ie_table e \<and> at_columns (ie_tree e) = ie_columns e
     \<and> at_index_type (ie_tree e) = ie_type e"

text \<open>
  Every derived map says exactly what the map of entries says: the per-table lists, the primary
  key of each table, the unique and foreign-key lists, the foreign-key metadata, and the
  metadata mirrored in each entry.
\<close>

definition registry_ok :: "art_manager \<Rightarrow> bool" where
  "registry_ok m \<longleftrightarrow> distinct (map fst (am_indexes m)) \<and> distinct (map fst (am_pk m))
     \<and> (\<forall>n e. map_of (am_indexes m) n = Some e \<longrightarrow> mirrors n e)
     \<and> lists_names (am_table_indexes m) (\<lambda>t n. \<exists>ty. owned m ty t n) \<and> (\<forall>t. map_of (am_table_indexes m) t \<noteq> Some [])
     \<and> lists_names (am_unique m) (owned m Unique) \<and> lists_names (am_fk m) (owned m ForeignKey)
     \<and> (\<forall>t n. map_of (am_pk m) t = Some n \<longleftrightarrow> owned m PrimaryKey t n)
     \<and> (\<forall>n. map_of (am_fk_info m) n \<noteq> None \<longleftrightarrow> (\<exists>t. owned m ForeignKey t n))"

lemma note_mutation_frame [simp]:
  "am_indexes (note_mutation m) = am_indexes m" "am_pk (note_mutation m) = am_pk m" "am_fk (note_mutation m) = am_fk m"
  "am_fk_info (note_mutation m) = am_fk_info m" "am_unique (note_mutation m) = am_unique m"
  "am_table_indexes (note_mutation m) = am_table_indexes m" "am_stats (note_mutation m) = am_stats m"
  by (simp_all add: note_mutation_def)

lemma owned_cong: "am_indexes m = am_indexes m' \<Longrightarrow> owned m = owned m'"
  by (simp add: owned_def fun_eq_iff)

lemma registry_ok_cong:
  "am_indexes m' = am_indexes m \<Longrightarrow> am_pk m' = am_pk m \<Longrightarrow> am_fk m' = am_fk m \<Longrightarrow> am_fk_info m' = am_fk_info m \<Longrightarrow>
   am_unique m' = am_unique m \<Longrightarrow> am_table_indexes m' = am_table_indexes m \<Longrightarrow> registry_ok m' \<longleftrightarrow> registry_ok m"
  by (simp add: registry_ok_def owned_cong [of m' m])

lemma names_of_push: "names_of (push_name t n mp) s = (if s = t then names_of mp t @ [n] else names_of mp s)"
  by (simp add: push_name_def names_of_def update_conv')

lemma lists_names_push:
  assumes "lists_names mp P" "\<not> P t n"
  shows "lists_names (push_name t n mp) (\<lambda>s k. P s k \<or> s = t \<and> k = n)"
  using assms by (auto simp: lists_names_def names_of_push)

lemma lists_names_cong: "lists_names mp P \<Longrightarrow> (\<And>t n. P t n \<longleftrightarrow> Q t n) \<Longrightarrow> lists_names mp Q"
  by (simp add: lists_names_def)

lemma names_of_retain: "names_of (retain_names n mp) t = filter (\<lambda>k. k \<noteq> n) (names_of mp t)"
proof -
  have "map_of (retain_names n mp) t = map_option (filter (\<lambda>k. k \<noteq> n)) (map_of mp t)"
    by (induction mp) (auto simp: retain_names_def)
  then show ?thesis by (simp add: names_of_def split: option.split)
qed

lemma lists_names_retain: "lists_names mp P \<Longrightarrow> lists_names (retain_names n mp) (\<lambda>t k. P t k \<and> k \<noteq> n)"
  by (auto simp: lists_names_def names_of_retain)

lemma lists_names_drop:
  assumes "lists_names mp P" "mp' = (if b then retain_names n mp else mp)" "\<not> b \<Longrightarrow> \<forall>t. \<not> P t n"
    and "\<And>t k. Q t k \<longleftrightarrow> P t k \<and> k \<noteq> n"
  shows "lists_names mp' Q"
proof (cases b)
  case True
  then show ?thesis using lists_names_retain [OF assms(1), of n] assms(2,4) by (auto intro: lists_names_cong)
next
  case False
  show ?thesis
  proof (rule lists_names_cong [of _ P])
    show "lists_names mp' P" using assms(1,2) False by simp
    show "P t k \<longleftrightarrow> Q t k" for t k using assms(3,4) False by blast
  qed
qed

lemma names_of_remove:
  "names_of (am_table_indexes (table_index_remove t n m)) s =
     (if s = t then filter (\<lambda>k. k \<noteq> n) (names_of (am_table_indexes m) t) else names_of (am_table_indexes m) s)"
  by (auto simp: table_index_remove_def names_of_def update_conv' delete_conv' Let_def split: option.split)

lemma map_of_filter_distinct:
  "distinct (map fst xs) \<Longrightarrow> map_of (filter P xs) k = (case map_of xs k of Some v \<Rightarrow> if P (k, v) then Some v else None | None \<Rightarrow> None)"
  by (induction xs) (auto split: option.splits if_splits simp: map_of_eq_None_iff dest: map_of_SomeD)

lemma owned_unique: "owned m ty t n \<Longrightarrow> owned m ty' t' n \<Longrightarrow> ty = ty' \<and> t = t'"
  by (auto simp: owned_def)

text \<open>One entry was added under a free name, and the maps of its kind were extended.\<close>

lemma registry_ok_added:
  assumes ok: "registry_ok m" and free: "n \<notin> fst ` set (am_indexes m)" and e: "mirrors n e"
    and idx: "am_indexes m' = AList.update n e (am_indexes m)"
    and tix: "am_table_indexes m' = push_name (ie_table e) n (am_table_indexes m)"
    and uniq: "am_unique m' = (if ie_type e = Unique then push_name (ie_table e) n (am_unique m) else am_unique m)"
    and fk: "am_fk m' = (if ie_type e = ForeignKey then push_name (ie_table e) n (am_fk m) else am_fk m)"
    and pk: "am_pk m' = (if ie_type e = PrimaryKey then AList.update (ie_table e) n (am_pk m) else am_pk m)"
    and nopk: "ie_type e = PrimaryKey \<Longrightarrow> map_of (am_pk m) (ie_table e) = None"
    and info: "map_of (am_fk_info m') = (if ie_type e = ForeignKey then (map_of (am_fk_info m))(n \<mapsto> i) else map_of (am_fk_info m))"
  shows "registry_ok m'"
proof -
  have none: "map_of (am_indexes m) n = None" using free by (simp add: map_of_eq_None_iff)
  have own: "owned m' ty t k \<longleftrightarrow> owned m ty t k \<or> k = n \<and> t = ie_table e \<and> ty = ie_type e" for ty t k
    using none by (auto simp: owned_def idx update_conv')
  have new: "\<not> owned m ty t n" for ty t using none by (simp add: owned_def)
  have dist: "distinct (map fst (am_indexes m'))" "distinct (map fst (am_pk m'))"
    using ok by (auto simp: registry_ok_def idx pk intro: distinct_update)
  have mirr: "\<forall>k e'. map_of (am_indexes m') k = Some e' \<longrightarrow> mirrors k e'"
    using ok e by (auto simp: registry_ok_def idx update_conv')
  have ti: "lists_names (am_table_indexes m') (\<lambda>t k. \<exists>ty. owned m' ty t k)"
    unfolding tix by (rule lists_names_cong [OF lists_names_push [where P = "\<lambda>t n. \<exists>ty. owned m ty t n"]])
      (use ok new own in \<open>auto simp: registry_ok_def\<close>)
  have ne: "map_of (am_table_indexes m') t \<noteq> Some []" for t
    using ok by (auto simp: registry_ok_def tix push_name_def update_conv')
  have un: "lists_names (am_unique m') (owned m' Unique)"
  proof (cases "ie_type e = Unique")
    case True
    then show ?thesis unfolding uniq
      by (simp, intro lists_names_cong [OF lists_names_push [where P = "owned m Unique"]])
        (use ok new own in \<open>auto simp: registry_ok_def\<close>)
  qed (use ok own uniq in \<open>auto simp: registry_ok_def intro: lists_names_cong\<close>)
  have fks: "lists_names (am_fk m') (owned m' ForeignKey)"
  proof (cases "ie_type e = ForeignKey")
    case True
    then show ?thesis unfolding fk
      by (simp, intro lists_names_cong [OF lists_names_push [where P = "owned m ForeignKey"]])
        (use ok new own in \<open>auto simp: registry_ok_def\<close>)
  qed (use ok own fk in \<open>auto simp: registry_ok_def intro: lists_names_cong\<close>)
  have pks: "map_of (am_pk m') t = Some k \<longleftrightarrow> owned m' PrimaryKey t k" for t k
    using ok nopk own [of PrimaryKey t k] by (auto simp: registry_ok_def pk update_conv')
  have infos: "map_of (am_fk_info m') k \<noteq> None \<longleftrightarrow> (\<exists>t. owned m' ForeignKey t k)" for k
    using ok own [of ForeignKey _ k] by (auto simp: registry_ok_def info)
  show ?thesis unfolding registry_ok_def using dist mirr ti ne un fks pks infos by blast
qed

lemma mint_mirrors: "mirrors n (entry_with_label (art_new n t c ty) l)"
  by (simp add: mirrors_def entry_with_label_def art_new_def)

lemma entry_fields [simp]:
  "ie_table (entry_with_label (art_new n t c ty) l) = t" "ie_type (entry_with_label (art_new n t c ty) l) = ty"
  "ie_columns (entry_with_label (art_new n t c ty) l) = c"
  by (simp_all add: entry_with_label_def art_new_def)

lemma register_cases:
  assumes "register_index_entry base policy mk m = (m', res)"
  obtains (taken) "m' = m" "res = Inl (IndexAlreadyExists base)" "policy = Refuse" "base \<in> fst ` set (am_indexes m)"
  | (added) n where "res = Inr n" "n \<notin> fst ` set (am_indexes m)" "m' = m\<lparr>am_indexes := AList.update n (mk n) (am_indexes m)\<rparr>"
      "n = base \<or> policy = MintFree"
  using assms mint_name_free [of "map fst (am_indexes m)" base]
  by (auto simp: register_index_entry_def Let_def split: if_splits) (cases policy; simp)

lemma create_pk_ok: "registry_ok m \<Longrightarrow> registry_ok (fst (create_pk_index t c m))"
proof -
  assume ok: "registry_ok m"
  obtain m1 res where r: "register_index_entry (pk_index_name t) MintFree (\<lambda>name. entry_with_label (art_new name t c PrimaryKey) None) (note_mutation m) = (m1, res)"
    by force
  have ok1: "registry_ok (note_mutation m)" using ok by (simp cong: registry_ok_cong)
  show ?thesis
  proof (cases "map_of (am_pk m) t")
    case (Some n)
    then show ?thesis using ok1 by (simp add: create_pk_index_def)
  next
    case None
    from r show ?thesis
    proof (cases rule: register_cases)
      case taken
      then show ?thesis by simp
    next
      case (added n)
      show ?thesis
        by (rule registry_ok_added [OF ok1 added(2) mint_mirrors [of n t c PrimaryKey None], where i = undefined])
          (use None added in \<open>simp_all add: create_pk_index_def r Let_def table_index_add_def entry_new_def\<close>)
    qed
  qed
qed

lemma create_fk_ok: "registry_ok m \<Longrightarrow> registry_ok (fst (create_fk_index t c rt rc cn m))"
proof -
  assume ok: "registry_ok m"
  let ?base = "case cn of Some n \<Rightarrow> n | None \<Rightarrow> fk_index_name t c"
  obtain m1 res where r: "register_index_entry ?base Refuse (\<lambda>name. entry_with_label (art_new name t c ForeignKey) None) (note_mutation m) = (m1, res)"
    by force
  have ok1: "registry_ok (note_mutation m)" using ok by (simp cong: registry_ok_cong)
  from r show ?thesis
  proof (cases rule: register_cases)
    case taken
    then show ?thesis using ok1 by (simp add: create_fk_index_def entry_new_def r Let_def)
  next
    case (added n)
    show ?thesis
      by (rule registry_ok_added [OF ok1 added(2) mint_mirrors [of n t c ForeignKey None],
            where i = "\<lparr>fk_name = n, fk_table = t, fk_columns = c, fk_ref_table = rt, fk_ref_columns = rc, fk_index = n\<rparr>"])
        (use added in \<open>simp_all add: create_fk_index_def r Let_def table_index_add_def entry_new_def update_conv'\<close>)
  qed
qed

lemma create_unique_ok: "registry_ok m \<Longrightarrow> registry_ok (fst (create_unique_index t c cn m))"
proof -
  assume ok: "registry_ok m"
  let ?base = "case cn of Some n \<Rightarrow> n | None \<Rightarrow> unique_index_name t c"
  obtain m1 res where r: "register_index_entry ?base Refuse (\<lambda>name. entry_with_label (art_new name t c Unique) None) (note_mutation m) = (m1, res)"
    by force
  have ok1: "registry_ok (note_mutation m)" using ok by (simp cong: registry_ok_cong)
  from r show ?thesis
  proof (cases rule: register_cases)
    case taken
    then show ?thesis using ok1 by (simp add: create_unique_index_def entry_new_def r Let_def)
  next
    case (added n)
    show ?thesis
      by (rule registry_ok_added [OF ok1 added(2) mint_mirrors [of n t c Unique None], where i = undefined])
        (use added in \<open>simp_all add: create_unique_index_def r Let_def table_index_add_def entry_new_def\<close>)
  qed
qed

lemma create_constraint_ok: "registry_ok m \<Longrightarrow> registry_ok (fst (create_constraint_unique_index t c l m))"
proof -
  assume ok: "registry_ok m"
  let ?label = "\<lambda>name. case l of Some l \<Rightarrow> if l \<noteq> name then Some l else None | None \<Rightarrow> None"
  obtain m1 res where r: "register_index_entry (unique_index_name t c) MintFree
      (\<lambda>name. entry_with_label (art_new name t c Unique) (?label name)) (note_mutation m) = (m1, res)" by force
  have ok1: "registry_ok (note_mutation m)" using ok by (simp cong: registry_ok_cong)
  from r show ?thesis
  proof (cases rule: register_cases)
    case taken
    then show ?thesis by simp
  next
    case (added n)
    show ?thesis
      by (rule registry_ok_added [OF ok1 added(2) mint_mirrors [of n t c Unique "?label n"], where i = undefined])
        (use added in \<open>simp_all add: create_constraint_unique_index_def r Let_def table_index_add_def\<close>)
  qed
qed

lemma create_manual_ok: "registry_ok m \<Longrightarrow> registry_ok (fst (create_manual_index name t c m))"
proof -
  assume ok: "registry_ok m"
  obtain m1 res where r: "register_index_entry name Refuse (\<lambda>name. entry_with_label (art_new name t c Manual) None) (note_mutation m) = (m1, res)"
    by force
  have ok1: "registry_ok (note_mutation m)" using ok by (simp cong: registry_ok_cong)
  from r show ?thesis
  proof (cases rule: register_cases)
    case taken
    then show ?thesis using ok1 by (simp add: create_manual_index_def entry_new_def r Let_def)
  next
    case (added n)
    show ?thesis
      by (rule registry_ok_added [OF ok1 added(2) mint_mirrors [of n t c Manual None], where i = undefined])
        (use added in \<open>simp_all add: create_manual_index_def r Let_def table_index_add_def entry_new_def\<close>)
  qed
qed

lemma table_index_remove_frame [simp]:
  "am_indexes (table_index_remove t n m) = am_indexes m" "am_pk (table_index_remove t n m) = am_pk m"
  "am_fk (table_index_remove t n m) = am_fk m" "am_fk_info (table_index_remove t n m) = am_fk_info m"
  "am_unique (table_index_remove t n m) = am_unique m"
  by (auto simp: table_index_remove_def Let_def split: option.split)

lemma drop_index_ok:
  assumes ok: "registry_ok m" and n: "map_of (am_indexes m) n = Some e"
  shows "registry_ok (fst (drop_index n m)) \<and> snd (drop_index n m) = Inr ()
    \<and> am_indexes (fst (drop_index n m)) = AList.delete n (am_indexes m)"
proof -
  let ?m = "fst (drop_index n m)"
  have eq: "?m = (let m1 = table_index_remove (ie_table e) n ((note_mutation m)\<lparr>am_indexes := AList.delete n (am_indexes m)\<rparr>);
             m2 = (case ie_type e of
                PrimaryKey \<Rightarrow> m1\<lparr>am_pk := filter (\<lambda>(_, v). v \<noteq> n) (am_pk m1)\<rparr>
              | ForeignKey \<Rightarrow> m1\<lparr>am_fk := retain_names n (am_fk m1), am_fk_info := AList.delete n (am_fk_info m1)\<rparr>
              | Unique \<Rightarrow> m1\<lparr>am_unique := retain_names n (am_unique m1)\<rparr>
              | Manual \<Rightarrow> m1)
         in m2\<lparr>am_stats := stats_remove_index (ie_type e) (am_stats m2)\<rparr>)"
    using n by (simp add: drop_index_def Let_def)
  have idx: "am_indexes ?m = AList.delete n (am_indexes m)"
    by (simp add: eq Let_def split: art_index_type.split)
  have own: "owned ?m ty t k \<longleftrightarrow> owned m ty t k \<and> k \<noteq> n" for ty t k
    by (auto simp: owned_def idx delete_conv')
  have only: "owned m ty t n \<longleftrightarrow> ty = ie_type e \<and> t = ie_table e" for ty t using n by (auto simp: owned_def)
  have dist: "distinct (map fst (am_indexes ?m))" "distinct (map fst (am_pk ?m))"
    using ok by (auto simp: registry_ok_def idx eq Let_def distinct_delete distinct_map_filter split: art_index_type.split)
  have mirr: "\<forall>k e'. map_of (am_indexes ?m) k = Some e' \<longrightarrow> mirrors k e'"
    using ok by (auto simp: registry_ok_def idx delete_conv')
  have tix: "am_table_indexes ?m = am_table_indexes (table_index_remove (ie_table e) n ((note_mutation m)\<lparr>am_indexes := AList.delete n (am_indexes m)\<rparr>))"
    by (simp add: eq Let_def split: art_index_type.split)
  have names: "names_of (am_table_indexes ?m) t = filter (\<lambda>k. k \<noteq> n) (names_of (am_table_indexes m) t)" for t
  proof (cases "t = ie_table e")
    case False
    have "n \<notin> set (names_of (am_table_indexes m) t)"
      using ok only [of _ t] False by (auto simp: registry_ok_def lists_names_def)
    then show ?thesis using False by (auto simp: tix names_of_remove intro!: filter_True [symmetric])
  qed (simp add: tix names_of_remove)
  have ti: "lists_names (am_table_indexes ?m) (\<lambda>t k. \<exists>ty. owned ?m ty t k)"
    using ok by (auto simp: registry_ok_def lists_names_def names own)
  have ne: "map_of (am_table_indexes ?m) t \<noteq> Some []" for t
    using ok unfolding tix by (auto simp: registry_ok_def table_index_remove_def Let_def update_conv' delete_conv' split: option.split)
  have un: "lists_names (am_unique ?m) (owned ?m Unique)"
  proof -
    have "am_unique ?m = (if ie_type e = Unique then retain_names n (am_unique m) else am_unique m)"
      by (simp add: eq Let_def split: art_index_type.split)
    then show ?thesis
      by (rule lists_names_drop [of _ "owned m Unique", rotated]) (use ok only own in \<open>auto simp: registry_ok_def\<close>)
  qed
  have fks: "lists_names (am_fk ?m) (owned ?m ForeignKey)"
  proof -
    have "am_fk ?m = (if ie_type e = ForeignKey then retain_names n (am_fk m) else am_fk m)"
      by (simp add: eq Let_def split: art_index_type.split)
    then show ?thesis
      by (rule lists_names_drop [of _ "owned m ForeignKey", rotated]) (use ok only own in \<open>auto simp: registry_ok_def\<close>)
  qed
  have pks: "map_of (am_pk ?m) t = Some k \<longleftrightarrow> owned ?m PrimaryKey t k" for t k
  proof -
    have "am_pk ?m = (if ie_type e = PrimaryKey then filter (\<lambda>(_, v). v \<noteq> n) (am_pk m) else am_pk m)"
      by (simp add: eq Let_def split: art_index_type.split)
    moreover have "distinct (map fst (am_pk m))" "map_of (am_pk m) t = Some k \<longleftrightarrow> owned m PrimaryKey t k"
      using ok by (auto simp only: registry_ok_def)
    ultimately show ?thesis using only [of PrimaryKey t]
      by (cases "map_of (am_pk m) t"; cases "k = n") (auto simp only: own map_of_filter_distinct split: option.split if_splits)
  qed
  have infos: "map_of (am_fk_info ?m) k \<noteq> None \<longleftrightarrow> (\<exists>t. owned ?m ForeignKey t k)" for k
  proof -
    have "am_fk_info ?m = (if ie_type e = ForeignKey then AList.delete n (am_fk_info m) else am_fk_info m)"
      by (simp add: eq Let_def split: art_index_type.split)
    then show ?thesis using ok only [of ForeignKey] by (auto simp: registry_ok_def own delete_conv')
  qed
  have "snd (drop_index n m) = Inr ()" using n by (simp add: drop_index_def Let_def)
  then show ?thesis unfolding registry_ok_def using dist mirr ti ne un fks pks infos idx by blast
qed

text \<open>Entries changed in place keep their table, kind and mirrored fields.\<close>

lemma map_of_entries: "map_of (map (\<lambda>(n, e). (n, f e)) xs) n = map_option f (map_of xs n)"
  by (induction xs) auto

lemma registry_ok_entries:
  assumes ok: "registry_ok m" and idx: "am_indexes m' = map (\<lambda>(n, e). (n, f e)) (am_indexes m)"
    and f: "\<And>n e. mirrors n e \<Longrightarrow> mirrors n (f e) \<and> ie_table (f e) = ie_table e \<and> ie_type (f e) = ie_type e"
    and rest: "am_pk m' = am_pk m" "am_fk m' = am_fk m" "am_unique m' = am_unique m" "am_table_indexes m' = am_table_indexes m"
    and info: "\<And>n. map_of (am_fk_info m') n = None \<longleftrightarrow> map_of (am_fk_info m) n = None"
  shows "registry_ok m'"
proof -
  have fst: "map fst (am_indexes m') = map fst (am_indexes m)" by (simp add: idx comp_def case_prod_unfold)
  have look: "map_of (am_indexes m') n = map_option f (map_of (am_indexes m) n)" for n by (simp add: idx map_of_entries)
  have mirr: "map_of (am_indexes m) n = Some e \<Longrightarrow> mirrors n e" for n e using ok by (simp add: registry_ok_def)
  have own: "owned m' = owned m"
  proof (intro ext)
    fix ty t n
    show "owned m' ty t n = owned m ty t n"
      using f [of n] mirr [of n] by (cases "map_of (am_indexes m) n") (auto simp: owned_def look)
  qed
  show ?thesis
    using ok mirr f by (auto simp: registry_ok_def fst own rest info look)
qed

lemma clear_table_ok: "registry_ok m \<Longrightarrow> registry_ok (clear_table_indexes t m)"
  by (rule registry_ok_entries [where f = "\<lambda>e. if ie_table e = t then e\<lparr>ie_tree := art_clear (ie_tree e)\<rparr> else e"])
    (auto simp: clear_table_indexes_def mirrors_def art_clear_def)

lemma rename_column_ok: "registry_ok m \<Longrightarrow> registry_ok (fst (rename_column_in_indexes t old new m))"
proof (cases "eq_ignore_ascii_case old new")
  case False
  let ?hit = "\<lambda>e. ie_table e = t \<and> (\<exists>c \<in> set (ie_columns e). eq_ignore_ascii_case c old)"
  let ?f = "\<lambda>e. if ?hit e then e\<lparr>ie_columns := rename_columns old new (ie_columns e), ie_tree := fst (art_rename_column old new (ie_tree e))\<rparr> else e"
  let ?g = "\<lambda>i. let i = (if fk_table i = t then i\<lparr>fk_columns := rename_columns old new (fk_columns i)\<rparr> else i)
      in if fk_ref_table i = t then i\<lparr>fk_ref_columns := rename_columns old new (fk_ref_columns i)\<rparr> else i"
  assume ok: "registry_ok m"
  have info: "am_fk_info (fst (rename_column_in_indexes t old new m)) = map (\<lambda>(n, i). (n, ?g i)) (am_fk_info m)"
    using False by (auto simp: rename_column_in_indexes_def Let_def case_prod_unfold)
  show ?thesis
    by (rule registry_ok_entries [OF ok, where f = ?f])
      (use False in \<open>auto simp: info map_of_entries rename_column_in_indexes_def Let_def mirrors_def art_rename_column_def rename_columns_def\<close>)
qed (simp add: rename_column_in_indexes_def)

lemma drop_loop_ok:
  assumes "registry_ok m" "distinct names" "set names \<subseteq> fst ` set (am_indexes m)"
  shows "registry_ok (fst (drop_loop names m)) \<and> snd (drop_loop names m) = Inr ()
    \<and> am_indexes (fst (drop_loop names m)) = filter (\<lambda>(n, _). n \<notin> set names) (am_indexes m)"
  using assms
proof (induction names arbitrary: m)
  case (Cons n names)
  then obtain e where "map_of (am_indexes m) n = Some e" by (metis insert_subset list.set(2) map_of_eq_None_iff not_None_eq)
  note d = drop_index_ok [OF Cons.prems(1) this]
  have idx: "am_indexes (fst (drop_index n m)) = filter (\<lambda>(k, _). k \<noteq> n) (am_indexes m)"
    using d unfolding AList.delete_eq by (simp only: eq_commute [of n])
  have "set names \<subseteq> fst ` set (am_indexes (fst (drop_index n m)))"
  proof
    fix x assume x: "x \<in> set names"
    then obtain b where "(x, b) \<in> set (am_indexes m)" using Cons.prems(3) by force
    moreover have "x \<noteq> n" using x Cons.prems(2) by auto
    ultimately show "x \<in> fst ` set (am_indexes (fst (drop_index n m)))" unfolding idx by force
  qed
  with Cons.IH [of "fst (drop_index n m)"] d Cons.prems(2)
  have ih: "registry_ok (fst (drop_loop names (fst (drop_index n m)))) \<and> snd (drop_loop names (fst (drop_index n m))) = Inr ()
    \<and> am_indexes (fst (drop_loop names (fst (drop_index n m)))) = filter (\<lambda>(k, _). k \<notin> set names) (am_indexes (fst (drop_index n m)))"
    by simp
  have loop: "drop_loop (n # names) m = drop_loop names (fst (drop_index n m))"
    using d by (simp add: case_prod_unfold split: sum.split)
  show ?case unfolding loop using ih by (simp add: idx case_prod_unfold)
qed (simp add: case_prod_unfold)

lemma drop_table_ok:
  assumes ok: "registry_ok m"
  shows "registry_ok (fst (drop_table_indexes t m)) \<and> snd (drop_table_indexes t m) = Inr ()
    \<and> am_indexes (fst (drop_table_indexes t m)) = filter (\<lambda>(_, e). ie_table e \<noteq> t) (am_indexes m)"
proof -
  let ?names = "map fst (filter (\<lambda>(_, e). ie_table e = t) (am_indexes m))"
  have dist: "distinct (map fst (am_indexes m))" using ok by (simp add: registry_ok_def)
  then have "distinct ?names" by (rule distinct_map_filter)
  moreover have "set ?names \<subseteq> fst ` set (am_indexes m)" by auto
  ultimately have d: "registry_ok (fst (drop_loop ?names m)) \<and> snd (drop_loop ?names m) = Inr ()
    \<and> am_indexes (fst (drop_loop ?names m)) = filter (\<lambda>(n, _). n \<notin> set ?names) (am_indexes m)"
    using drop_loop_ok [OF ok] by blast
  have "filter (\<lambda>(n, _). n \<notin> set ?names) (am_indexes m) = filter (\<lambda>(_, e). ie_table e \<noteq> t) (am_indexes m)"
  proof (rule filter_cong [OF refl])
    fix p assume p: "p \<in> set (am_indexes m)"
    obtain n e where ne: "p = (n, e)" by force
    have uniq: "(n, e') \<in> set (am_indexes m) \<Longrightarrow> e' = e" for e'
      using eq_key_imp_eq_value [OF dist] p ne by blast
    have "n \<in> set ?names \<longleftrightarrow> (\<exists>e'. (n, e') \<in> set (am_indexes m) \<and> ie_table e' = t)" by force
    also have "\<dots> \<longleftrightarrow> ie_table e = t" using uniq p ne by blast
    finally show "(case p of (n, _) \<Rightarrow> n \<notin> set ?names) = (case p of (_, e) \<Rightarrow> ie_table e \<noteq> t)" by (simp only: ne prod.case)
  qed
  then show ?thesis using d by (simp add: drop_table_indexes_def)
qed

text \<open>Histories of registry operations.\<close>

inductive registry_run :: "art_manager \<Rightarrow> bool" where
  new: "registry_run art_manager_new"
| hook: "registry_run m \<Longrightarrow> registry_run (set_snapshot_invalidation_hook m)"
| clean: "registry_run m \<Longrightarrow> registry_run (mark_snapshot_clean m)"
| create_pk: "registry_run m \<Longrightarrow> registry_run (fst (create_pk_index t c m))"
| create_fk: "registry_run m \<Longrightarrow> registry_run (fst (create_fk_index t c rt rc cn m))"
| create_unique: "registry_run m \<Longrightarrow> registry_run (fst (create_unique_index t c cn m))"
| create_constraint: "registry_run m \<Longrightarrow> registry_run (fst (create_constraint_unique_index t c l m))"
| create_manual: "registry_run m \<Longrightarrow> registry_run (fst (create_manual_index n t c m))"
| drop: "registry_run m \<Longrightarrow> registry_run (fst (drop_index n m))"
| drop_table: "registry_run m \<Longrightarrow> registry_run (fst (drop_table_indexes t m))"
| clear: "registry_run m \<Longrightarrow> registry_run (clear_table_indexes t m)"
| rename_column: "registry_run m \<Longrightarrow> registry_run (fst (rename_column_in_indexes t old new m))"

lemma registry_run_ok: "registry_run m \<Longrightarrow> registry_ok m"
proof (induction rule: registry_run.induct)
  case new
  show ?case by (simp add: registry_ok_def art_manager_new_def owned_def lists_names_def names_of_def)
next
  case (hook m)
  then show ?case by (simp add: set_snapshot_invalidation_hook_def cong: registry_ok_cong)
next
  case (clean m)
  then show ?case by (simp add: mark_snapshot_clean_def cong: registry_ok_cong)
next
  case (drop m n)
  then show ?case
  proof (cases "map_of (am_indexes m) n")
    case None
    then have "fst (drop_index n m) = note_mutation m" by (simp add: drop_index_def)
    then show ?thesis using drop.IH by (simp cong: registry_ok_cong)
  qed (use drop_index_ok in blast)
qed (auto intro: create_pk_ok create_fk_ok create_unique_ok create_constraint_ok create_manual_ok clear_table_ok
    rename_column_ok simp: drop_table_ok)

lemma registry_names:
  "registry_ok m \<Longrightarrow> n \<in> set (names_of (am_table_indexes m) t) \<Longrightarrow> map_option ie_table (map_of (am_indexes m) n) = Some t"
  unfolding registry_ok_def lists_names_def owned_def by auto

lemma create_constraint_eq:
  "create_constraint_unique_index t c l m = (m1, r) \<Longrightarrow> r = Inr (mint_name (map fst (am_indexes m)) (unique_index_name t c))
    \<and> (\<exists>e. am_indexes m1 = AList.update (mint_name (map fst (am_indexes m)) (unique_index_name t c)) e (am_indexes m))"
  unfolding create_constraint_unique_index_def register_index_entry_def table_index_add_def Let_def by auto

lemma create_pk_eq:
  "create_pk_index t c m = (m1, r) \<Longrightarrow> map_of (am_pk m) t = None \<Longrightarrow> r = Inr (mint_name (map fst (am_indexes m)) (pk_index_name t))
    \<and> (\<exists>e. am_indexes m1 = AList.update (mint_name (map fst (am_indexes m)) (pk_index_name t)) e (am_indexes m))"
  unfolding create_pk_index_def register_index_entry_def table_index_add_def Let_def by auto

text \<open>The name the comment of \<open>register_index_entry\<close> promises: the base, or its first free suffix.\<close>

definition least_free :: "art_manager \<Rightarrow> string \<Rightarrow> string \<Rightarrow> bool" where
  "least_free m base n \<longleftrightarrow> (if map_of (am_indexes m) base = None then n = base
     else \<exists>k \<ge> 2. n = suffixed base k \<and> (\<forall>j. 2 \<le> j \<and> j < k \<longrightarrow> map_of (am_indexes m) (suffixed base j) \<noteq> None))"

lemma mint_name_least: "least_free m base (mint_name (map fst (am_indexes m)) base)"
  using mint_from_spec [of 2 "map fst (am_indexes m)" base]
  by (auto simp: least_free_def mint_name_def map_of_eq_None_iff)

section \<open>Properties\<close>

text \<open>
  C28. The derived name maps never drift from the map of entries: after any history of index
  creations (of all kinds, with chosen or minted names, accepted or refused), drops, table
  drops, truncations and column renames, the per-table list of a table names exactly its
  indexes, each once; so do the unique and foreign-key lists for their kinds, the primary-key
  map, the foreign-key metadata and the mirrored fields of every entry. The histories contain no
  table rename, which can evict an entry (\<open>rename_table_evicts\<close>), and no row operation.
\<close>

theorem registry_consistent:
  assumes "registry_run m"
  shows "registry_ok m"
  by (rule registry_run_ok [OF assms])

theorem registry_consistent_witness:
  "registry_ok (fst (drop_index ''t_pkey'' (fst (create_constraint_unique_index ''t'' [''a'', ''b''] None
     (fst (create_pk_index ''t'' [''id''] art_manager_new))))))"
  by (intro registry_consistent registry_run.intros)

text \<open>
  A derived name never fails and never evicts: creating a constraint index, or the first
  primary key of a table, always succeeds under a name no index had, which is the derived name
  when that is free and otherwise the derived name with the smallest free suffix from two on;
  every other entry stays as it was.
\<close>

theorem minted_index_never_evicts:
  assumes "create_constraint_unique_index t c l m = (m1, r1)"
    and "create_pk_index t c m = (m2, r2)" "map_of (am_pk m) t = None"
  shows "\<exists>n1 n2. r1 = Inr n1 \<and> r2 = Inr n2 \<and> map_of (am_indexes m) n1 = None \<and> map_of (am_indexes m) n2 = None
    \<and> least_free m (unique_index_name t c) n1 \<and> least_free m (pk_index_name t) n2
    \<and> (\<forall>n. n \<noteq> n1 \<longrightarrow> map_of (am_indexes m1) n = map_of (am_indexes m) n)
    \<and> (\<forall>n. n \<noteq> n2 \<longrightarrow> map_of (am_indexes m2) n = map_of (am_indexes m) n)"
proof -
  let ?keys = "map fst (am_indexes m)"
  let ?n1 = "mint_name ?keys (unique_index_name t c)" and ?n2 = "mint_name ?keys (pk_index_name t)"
  have free: "map_of (am_indexes m) (mint_name ?keys base) = None" for base
    using mint_name_free [of ?keys base] by (simp add: map_of_eq_None_iff)
  note shape = mint_name_least
  have 1: "r1 = Inr ?n1" "\<forall>n. n \<noteq> ?n1 \<longrightarrow> map_of (am_indexes m1) n = map_of (am_indexes m) n"
    using create_constraint_eq [OF assms(1)] by (auto simp: update_conv')
  have 2: "r2 = Inr ?n2" "\<forall>n. n \<noteq> ?n2 \<longrightarrow> map_of (am_indexes m2) n = map_of (am_indexes m) n"
    using create_pk_eq [OF assms(2,3)] by (auto simp: update_conv')
  show ?thesis by (intro exI [of _ ?n1] exI [of _ ?n2] conjI) (fact 1 2 free shape)+
qed

theorem minted_index_never_evicts_witness:
  "\<exists>n. snd (create_pk_index ''t'' [''id''] (fst (create_manual_index ''t_pkey'' ''other'' [''x''] art_manager_new))) = Inr n
     \<and> n \<noteq> ''t_pkey''"
proof -
  let ?m = "fst (create_manual_index ''t_pkey'' ''other'' [''x''] art_manager_new)"
  have pk: "map_of (am_pk ?m) ''t'' = None" and taken: "map_of (am_indexes ?m) ''t_pkey'' \<noteq> None"
    by (simp_all add: create_manual_index_def register_index_entry_def table_index_add_def art_manager_new_def Let_def note_mutation_def)
  obtain m1 r1 where 1: "create_constraint_unique_index ''t'' [''id''] None ?m = (m1, r1)" by force
  obtain m2 r2 where 2: "create_pk_index ''t'' [''id''] ?m = (m2, r2)" by force
  from minted_index_never_evicts [OF 1 2 pk] obtain n2 where "r2 = Inr n2" "map_of (am_indexes ?m) n2 = None" by blast
  then show ?thesis using taken 2 by auto
qed

text \<open>
  Dropping a table drops exactly its indexes: it always succeeds on a consistent registry,
  keeps every entry of the other tables with its tree, and leaves the registry consistent.
\<close>

theorem drop_table_exact:
  assumes "registry_run m"
  shows "snd (drop_table_indexes t m) = Inr () \<and> registry_ok (fst (drop_table_indexes t m))
    \<and> am_indexes (fst (drop_table_indexes t m)) = filter (\<lambda>(_, e). ie_table e \<noteq> t) (am_indexes m)"
  using drop_table_ok [OF registry_run_ok [OF assms]] by blast

theorem drop_table_exact_witness:
  "snd (drop_table_indexes ''t'' (fst (create_pk_index ''t'' [''id''] art_manager_new))) = Inr ()
   \<and> am_indexes (fst (drop_table_indexes ''t'' (fst (create_pk_index ''t'' [''id''] art_manager_new)))) = []"
proof -
  have run: "registry_run (fst (create_pk_index ''t'' [''id''] art_manager_new))" by (intro registry_run.intros)
  have "filter (\<lambda>(_, e). ie_table e \<noteq> ''t'') (am_indexes (fst (create_pk_index ''t'' [''id''] art_manager_new))) = []"
    by (simp add: create_pk_index_def register_index_entry_def table_index_add_def art_manager_new_def Let_def note_mutation_def
        mint_name_def entry_new_def)
  then show ?thesis using drop_table_exact [OF run, of "''t''"] by metis
qed

text \<open>
  Renaming a table can evict the index of another table: with a user index \<open>b_pkey\<close> on
  \<open>other\<close>, renaming table \<open>a\<close> to \<open>b\<close> moves the primary key of \<open>a\<close> onto the name \<open>b_pkey\<close>.
  The index of \<open>other\<close> is gone, and the list of \<open>other\<close> still names \<open>b_pkey\<close>, so its rows are
  maintained in the primary-key tree of \<open>b\<close>.
\<close>

theorem rename_table_evicts:
  "let m = fst (create_pk_index ''a'' [''id''] (fst (create_manual_index ''b_pkey'' ''other'' [''x''] art_manager_new)));
       m' = rename_table_indexes ''a'' ''b'' [''b_pkey''] m
   in map_option ie_table (map_of (am_indexes m) ''b_pkey'') = Some ''other''
      \<and> map_option ie_table (map_of (am_indexes m') ''b_pkey'') = Some ''b''
      \<and> names_of (am_table_indexes m') ''other'' = [''b_pkey''] \<and> \<not> registry_ok m'"
proof -
  let ?m = "fst (create_pk_index ''a'' [''id''] (fst (create_manual_index ''b_pkey'' ''other'' [''x''] art_manager_new)))"
  let ?m' = "rename_table_indexes ''a'' ''b'' [''b_pkey''] ?m"
  have m: "map_option ie_table (map_of (am_indexes ?m) ''b_pkey'') = Some ''other''"
    and m': "map_option ie_table (map_of (am_indexes ?m') ''b_pkey'') = Some ''b''"
      "names_of (am_table_indexes ?m') ''other'' = [''b_pkey'']"
    by code_simp+
  from m' have "\<not> registry_ok ?m'" using registry_names [of ?m' "''b_pkey''" "''other''"] by fastforce
  then show ?thesis using m m' by (simp add: Let_def)
qed

end
