(* ===== verification/Values.thy ===== *)
theory Values
  imports Prelude "HOL-Library.List_Lexorder"
begin

unbundle bit_operations_syntax

text \<open>
  The runtime values of \<^verbatim>\<open>src/src/types.rs\<close> and the facts of the Rust standard library about
  them that the index and filter code uses: big-endian bytes, signed reading of words, and the
  comparison of IEEE-754 numbers given by their bits. Strings are their UTF-8 bytes, since the
  code reads them only through \<open>as_bytes\<close> and \<open>cmp\<close> (byte order). A \<open>chrono\<close> timestamp
  is its instant in nanoseconds, a date its day number and a time its nanoseconds since
  midnight; how they print is a parameter of the operations that print them.
\<close>

type_synonym u16 = "16 word"

datatype sql_value =
    Null
  | Boolean bool
  | Int2 u16
  | Int4 u32
  | Int8 u64
  | Float4 u32
  | Float8 u64
  | Numeric bytes
  | String bytes
  | Bytes bytes
  | Uuid bytes
  | Timestamp int
  | Date int
  | Time int
  | Interval u64
  | Json bytes
  | Array "sql_value list"
  | Vector "u32 list"
  | DictRef u32
  | CasRef bytes
  | ColumnarRef

section \<open>Big-endian bytes\<close>

fun be_bytes :: "nat \<Rightarrow> nat \<Rightarrow> bytes" where
  "be_bytes 0 x = []"
| "be_bytes (Suc n) x = word_of_nat (x div 256 ^ n) # be_bytes n (x mod 256 ^ n)"

fun be_value :: "bytes \<Rightarrow> nat" where
  "be_value [] = 0"
| "be_value (b # bs) = unat b * 256 ^ length bs + be_value bs"

lemma length_be_bytes [simp]: "length (be_bytes n x) = n"
  by (induction n arbitrary: x) simp_all

lemma be_value_less: "be_value bs < 256 ^ length bs"
proof (induction bs)
  case (Cons b bs)
  have "unat b + 1 \<le> 256" using unat_u8_less [of b] by (simp only: Suc_eq_plus1 [symmetric] Suc_le_eq)
  then have "(unat b + 1) * 256 ^ length bs \<le> 256 * 256 ^ length bs" by (rule mult_right_mono) simp
  then have "unat b * 256 ^ length bs + 256 ^ length bs \<le> 256 * 256 ^ length bs" unfolding distrib_right by simp
  then have "be_value (b # bs) < 256 * 256 ^ length bs" using Cons unfolding be_value.simps by linarith
  then show ?case by simp
qed simp

lemma be_value_bytes: "x < 256 ^ n \<Longrightarrow> be_value (be_bytes n x) = x"
proof (induction n arbitrary: x)
  case (Suc n)
  have "x div 256 ^ n < 256" using Suc.prems by (simp add: less_mult_imp_div_less mult.commute)
  then show ?case using Suc.IH [of "x mod 256 ^ n"] by (simp add: unat_of_nat_u8 div_mult_mod_eq)
qed simp

lemma be_value_order: "length xs = length ys \<Longrightarrow> xs < ys \<longleftrightarrow> be_value xs < be_value ys"
proof (induction xs ys rule: list_induct2)
  case (Cons x xs y ys)
  have step: "unat a * 256 ^ length as + be_value as < unat b * 256 ^ length bs + be_value bs"
    if "length as = length bs" "a < b" for a b and as bs :: bytes
  proof -
    have "unat a + 1 \<le> unat b" using that(2) by (simp add: word_less_nat_alt)
    then have "(unat a + 1) * 256 ^ length as \<le> unat b * 256 ^ length as" by (intro mult_right_mono) simp_all
    then show ?thesis using be_value_less [of as] that(1) by (simp add: algebra_simps)
  qed
  from step [of xs ys x y] step [of ys xs y x] Cons show ?case
    by (cases x y rule: linorder_cases) auto
qed simp

text \<open>\<open>to_be_bytes\<close> of a word of \<open>n\<close> bytes, and back.\<close>

definition to_be_bytes :: "nat \<Rightarrow> 'a::len word \<Rightarrow> bytes" where
  "to_be_bytes n w = be_bytes n (unat w)"

definition from_be_bytes :: "bytes \<Rightarrow> 'a::len word" where
  "from_be_bytes bs = word_of_nat (be_value bs)"

lemma length_to_be_bytes [simp]: "length (to_be_bytes n w) = n"
  by (simp add: to_be_bytes_def)

lemma be_value_to_be_bytes: "LENGTH('a) = 8 * n \<Longrightarrow> be_value (to_be_bytes n w) = unat w" for w :: "'a::len word"
proof -
  assume n: "LENGTH('a) = 8 * n"
  have "unat w < 2 ^ LENGTH('a)" by (rule unsigned_less)
  then have "unat w < 256 ^ n" by (simp add: n power_mult)
  then show ?thesis by (simp add: to_be_bytes_def be_value_bytes)
qed

lemma from_to_be_bytes: "LENGTH('a) = 8 * n \<Longrightarrow> from_be_bytes (to_be_bytes n w) = w" for w :: "'a::len word"
  by (simp add: from_be_bytes_def be_value_to_be_bytes)

lemma to_be_bytes_order:
  "LENGTH('a) = 8 * n \<Longrightarrow> to_be_bytes n v < to_be_bytes n w \<longleftrightarrow> v < w" for v w :: "'a::len word"
  by (simp add: be_value_order be_value_to_be_bytes word_less_nat_alt)

section \<open>Sign bits\<close>

lemma uint_add_top: "uint (v + 2 ^ (LENGTH('a) - 1)) = (uint v + 2 ^ (LENGTH('a) - 1)) mod 2 ^ LENGTH('a)" for v :: "'a::len word"
  unfolding uint_word_ariths(1) by (simp add: uint_2p word_neq_0_conv [symmetric])

lemma uint_add_sign: "uint (v + 2 ^ (LENGTH('a) - 1)) = sint v + 2 ^ (LENGTH('a) - 1)" for v :: "'a::len word"
proof -
  have "sint v = take_bit LENGTH('a) (uint v + 2 ^ (LENGTH('a) - 1)) - 2 ^ (LENGTH('a) - 1)"
    by (simp add: sint_uint signed_take_bit_eq_take_bit_shift)
  then show ?thesis unfolding uint_add_top take_bit_eq_mod by simp
qed

lemma xor_sign: "v XOR 2 ^ (LENGTH('a) - 1) = v + 2 ^ (LENGTH('a) - 1)" for v :: "'a::len word"
proof (cases "bit v (LENGTH('a) - 1)")
  case False
  then show ?thesis
    by (subst disjunctive_add_eq_xor) (auto intro!: bit_eqI simp: bit_simps)
next
  case True
  let ?s = "2 ^ (LENGTH('a) - 1) :: 'a word"
  have two: "?s + ?s = 0" by (simp flip: mult_2 power_Suc)
  have "(v XOR ?s) AND ?s = 0" using True by (auto intro!: bit_eqI simp: bit_simps)
  then have "(v XOR ?s) + ?s = v" by (subst disjunctive_add_eq_xor) (simp_all add: xor.assoc)
  then have "v + ?s = (v XOR ?s) + (?s + ?s)" by (simp only: add.assoc [symmetric])
  then show ?thesis unfolding two by simp
qed

lemma xor_sign_order:
  "v XOR 2 ^ (LENGTH('a) - 1) < w XOR 2 ^ (LENGTH('a) - 1) \<longleftrightarrow> sint v < sint w" for v w :: "'a::len word"
  unfolding xor_sign word_less_def uint_add_sign by simp

section \<open>Comparison\<close>

datatype ordering = Less | Equal | Greater

definition cmp :: "'a::linorder \<Rightarrow> 'a \<Rightarrow> ordering" where
  "cmp a b = (if a < b then Less else if a = b then Equal else Greater)"

lemma cmp_simps [simp]:
  "cmp a b = Less \<longleftrightarrow> a < b" "cmp a b = Equal \<longleftrightarrow> a = b" "cmp a b = Greater \<longleftrightarrow> b < a"
  by (auto simp: cmp_def)

text \<open>
  The exact value of a binary floating-point number given by its bits, in units of the smallest
  positive \<open>f64\<close>, so that every finite \<open>f32\<close> and \<open>f64\<close> is an integer and an infinity is an
  integer beyond all of them. \<open>None\<close> is a NaN.
\<close>

definition float_units :: "nat \<Rightarrow> nat \<Rightarrow> nat" where
  "float_units frac mag = (let e = mag div 2 ^ frac; m = mag mod 2 ^ frac
     in if e = 0 then m else (2 ^ frac + m) * 2 ^ (e - 1))"

definition magnitude :: "'a::len word \<Rightarrow> nat" where
  "magnitude b = unat (take_bit (LENGTH('a) - 1) b)"

definition is_negative :: "'a::len word \<Rightarrow> bool" where
  "is_negative b = bit b (LENGTH('a) - 1)"

definition signed_units :: "bool \<Rightarrow> nat \<Rightarrow> int" where
  "signed_units neg u = (if neg then - int u else int u)"

definition f64_num :: "u64 \<Rightarrow> int option" where
  "f64_num b = (if magnitude b > 0x7FF0000000000000 then None
     else Some (signed_units (is_negative b) (float_units 52 (magnitude b))))"

definition f32_num :: "u32 \<Rightarrow> int option" where
  "f32_num b = (if magnitude b > 0x7F800000 then None
     else Some (signed_units (is_negative b)
       (if magnitude b = 0x7F800000 then float_units 52 0x7FF0000000000000
        else float_units 23 (magnitude b) * 2 ^ 925)))"

definition partial_cmp :: "int option \<Rightarrow> int option \<Rightarrow> ordering option" where
  "partial_cmp a b = (case (a, b) of (Some x, Some y) \<Rightarrow> Some (cmp x y) | _ \<Rightarrow> None)"

lemma float_units_mono:
  assumes "x < y"
  shows "float_units frac x < float_units frac y"
proof -
  let ?f = "2 ^ frac :: nat"
  let ?ex = "x div ?f" and ?ey = "y div ?f"
  have m: "x mod ?f < ?f" "y mod ?f < ?f" by simp_all
  have split: "?ex * ?f + x mod ?f = x" "?ey * ?f + y mod ?f = y" by (simp_all add: div_mult_mod_eq)
  have le: "?ex \<le> ?ey" using assms by (simp add: div_le_mono)
  show ?thesis
  proof (cases "?ex = ?ey")
    case True
    then have "x mod ?f < y mod ?f" using split assms by (metis nat_add_left_cancel_less)
    then show ?thesis using True by (simp add: float_units_def Let_def)
  next
    case False
    then have lt: "?ex < ?ey" using le by simp
    have "?f * 2 ^ (?ey - 1) \<le> float_units frac y" using lt by (simp add: float_units_def)
    moreover have "float_units frac x < ?f * 2 ^ ?ex"
    proof (cases "?ex = 0")
      case True
      then show ?thesis using m by (simp add: float_units_def)
    next
      case False
      then have "float_units frac x = (?f + x mod ?f) * 2 ^ (?ex - 1)" by (simp add: float_units_def)
      also have "\<dots> < (2 * ?f) * 2 ^ (?ex - 1)" using m by (intro mult_strict_right_mono) simp_all
      also have "\<dots> = ?f * (2 * 2 ^ (?ex - 1))" by (simp only: mult.assoc mult.left_commute)
      also have "2 * 2 ^ (?ex - 1) = (2 :: nat) ^ ?ex" using False by (cases ?ex) simp_all
      finally show ?thesis .
    qed
    moreover have "(2 :: nat) ^ ?ex \<le> 2 ^ (?ey - 1)" using lt by (intro power_increasing) simp_all
    ultimately show ?thesis by (meson le_less_trans less_le_trans mult_le_mono2 order_less_le_trans)
  qed
qed

text \<open>The total-order transform of the bits used by index keys.\<close>

definition float_order :: "'a::len word \<Rightarrow> 'a word" where
  "float_order b = (if b AND 2 ^ (LENGTH('a) - 1) = 0 then b XOR 2 ^ (LENGTH('a) - 1) else NOT b)"

lemma uint_split: "uint b = int (magnitude b) + (if is_negative b then 2 ^ (LENGTH('a) - 1) else 0)" for b :: "'a::len word"
proof -
  let ?n = "LENGTH('a) - 1"
  have n: "Suc ?n = LENGTH('a)" by simp
  have "uint b = take_bit (Suc ?n) (uint b)" unfolding n by (rule take_bit_int_eq_self [OF uint_ge_0 uint_lt2p, symmetric])
  also have "\<dots> = take_bit ?n (uint b) + of_bool (bit (uint b) ?n) * 2 ^ ?n"
    by (simp only: take_bit_Suc_from_most add.commute mult.commute)
  finally have A: "uint b = take_bit ?n (uint b) + of_bool (bit (uint b) ?n) * 2 ^ ?n" .
  have M: "int (magnitude b) = take_bit ?n (uint b)"
    unfolding magnitude_def of_nat_unat by (rule unsigned_take_bit_eq)
  have B: "bit (uint b) ?n = is_negative b" by (simp add: is_negative_def bit_simps)
  show ?thesis using A unfolding M [symmetric] B by simp
qed

lemma magnitude_less: "magnitude b < 2 ^ (LENGTH('a) - 1)" for b :: "'a::len word"
  unfolding magnitude_def by (simp add: unsigned_take_bit_eq)

lemma uint_float_order:
  "uint (float_order b) = 2 ^ (LENGTH('a) - 1) + (if is_negative b then - int (magnitude b) - 1 else int (magnitude b))"
  for b :: "'a::len word"
proof -
  have pow: "(2 :: int) ^ LENGTH('a) = 2 * 2 ^ (LENGTH('a) - 1)" by (simp flip: power_Suc)
  have test: "b AND 2 ^ (LENGTH('a) - 1) = 0 \<longleftrightarrow> \<not> is_negative b"
    by (simp add: is_negative_def and_exp_eq_0_iff_not_bit)
  have "int (magnitude b) < 2 ^ (LENGTH('a) - 1)" using magnitude_less [of b] by (metis of_nat_less_iff of_nat_numeral of_nat_power)
  then have "uint (b + 2 ^ (LENGTH('a) - 1)) = int (magnitude b) + 2 ^ (LENGTH('a) - 1)" if "\<not> is_negative b"
    unfolding uint_add_top using that uint_split [of b] pow by (intro mod_pos_pos_trivial [THEN trans]) simp_all
  moreover have "uint (NOT b) = 2 ^ LENGTH('a) - 1 - uint b"
  proof -
    have "NOT b = (- 1) - b" by (simp add: not_eq_complement)
    then have "uint (NOT b) = (uint (- 1 :: 'a word) - uint b) mod 2 ^ LENGTH('a)" by (simp only: uint_word_ariths(2))
    also have "uint (- 1 :: 'a word) = 2 ^ LENGTH('a) - 1" by (simp add: unsigned_minus_1_eq_mask mask_eq_exp_minus_1)
    also have "(2 ^ LENGTH('a) - 1 - uint b) mod 2 ^ LENGTH('a) = 2 ^ LENGTH('a) - 1 - uint b"
      using uint_lt2p [of b] uint_ge_0 [of b] by (intro mod_pos_pos_trivial) linarith+
    finally show ?thesis .
  qed
  ultimately show ?thesis
    using uint_split [of b] pow unfolding float_order_def test xor_sign by (cases "is_negative b") simp_all
qed

text \<open>
  The transform orders numbers by value; the two zeros, which are equal as numbers, are the
  only numbers it separates.
\<close>

lemma signed_order:
  fixes a b :: "'a::len word"
  assumes mono: "\<And>m n. m < n \<Longrightarrow> n \<le> B \<Longrightarrow> g m < g n" and "g 0 = 0"
    and B: "magnitude a \<le> B" "magnitude b \<le> B"
    and x: "x = signed_units (is_negative a) (g (magnitude a))" and y: "y = signed_units (is_negative b) (g (magnitude b))"
  shows "float_order a < float_order b \<longleftrightarrow> x < y \<or> x = y \<and> is_negative a \<and> \<not> is_negative b"
proof -
  have cmp: "m < n \<longleftrightarrow> g m < g n" if "m \<le> B" "n \<le> B" for m n
    using mono [of m n] mono [of n m] that by (cases m n rule: linorder_cases) auto
  have pos: "g m = 0 \<longleftrightarrow> m = 0" if "m \<le> B" for m
    using mono [of 0 m] assms(2) that by (cases m) auto
  note gs = cmp [OF B] cmp [OF B(2,1)] pos [OF B(1)] pos [OF B(2)]
  show ?thesis
    unfolding word_less_def uint_float_order x y signed_units_def using gs
    by (cases "is_negative a"; cases "is_negative b") auto
qed

lemma f64_order:
  assumes "f64_num a = Some x" "f64_num b = Some y"
  shows "float_order a < float_order b \<longleftrightarrow> x < y \<or> x = y \<and> is_negative a \<and> \<not> is_negative b"
proof (rule signed_order)
  show "float_units 52 m < float_units 52 n" if "m < n" for m n using that by (rule float_units_mono)
  show "float_units 52 0 = 0" by (simp add: float_units_def)
qed (use assms in \<open>auto simp: f64_num_def not_less split: if_splits\<close>)

lemma f32_order:
  assumes "f32_num a = Some x" "f32_num b = Some y"
  shows "float_order a < float_order b \<longleftrightarrow> x < y \<or> x = y \<and> is_negative a \<and> \<not> is_negative b"
proof (rule signed_order)
  let ?g = "\<lambda>m. if m = 0x7F800000 then float_units 52 0x7FF0000000000000 else float_units 23 m * 2 ^ 925"
  show "?g m < ?g n" if "m < n" "n \<le> 0x7F800000" for m n
  proof (cases "n = 0x7F800000")
    case True
    have "float_units 23 m < float_units 23 0x7F800000" using that True by (intro float_units_mono) simp
    also have "\<dots> = 2 ^ 277" by (simp add: float_units_def)
    finally have "float_units 23 m * 2 ^ 925 < 2 ^ 277 * 2 ^ 925" by (intro mult_strict_right_mono) simp_all
    also have "\<dots> = (2 :: nat) ^ 1202" by (simp only: power_add [symmetric]) simp
    also have "\<dots> \<le> 2 ^ 2098" by (intro power_increasing) simp_all
    also have "\<dots> = float_units 52 0x7FF0000000000000" by (simp add: float_units_def power_add [symmetric])
    finally show ?thesis using that True by simp
  next
    case False
    then show ?thesis using float_units_mono [OF that(1), of 23] that by simp
  qed
  show "?g 0 = 0" by (simp add: float_units_def)
qed (use assms in \<open>auto simp: f32_num_def not_less split: if_splits\<close>)

end
