(* ===== verification/Key_Encoding.thy ===== *)
theory Key_Encoding
  imports Values Dense_Int Art_Index
begin

unbundle bit_operations_syntax

text \<open>
  The index key encoding of \<^verbatim>\<open>src/src/storage/art_manager.rs\<close>: \<open>encode_value_into\<close>,
  \<open>encode_key_from_values\<close> with its column separator and zero-byte escape, the row-scoped
  fragment cache of \<open>encode_key_cached\<close>, and the inverse for integer keys. A push onto the key
  vector is an append; how \<open>chrono\<close> prints dates, times and timestamps is the parameter
  \<open>chrono_fmt\<close>.
\<close>

record chrono_fmt =
  fmt_date :: "int \<Rightarrow> bytes"
  fmt_time :: "int \<Rightarrow> bytes"
  fmt_rfc3339 :: "int \<Rightarrow> bytes"

definition extend_maybe_escaped :: "bytes \<Rightarrow> bytes \<Rightarrow> bool \<Rightarrow> bytes" where
  "extend_maybe_escaped key bs escape =
     (if \<not> escape \<or> 0 \<notin> set bs then key @ bs
      else key @ concat (map (\<lambda>b. if b = 0 then [0, 0xFF] else [b]) bs))"

definition columnar_ref_bytes :: bytes where
  "columnar_ref_bytes = [0x63, 0x6F, 0x6C, 0x75, 0x6D, 0x6E, 0x61, 0x72, 0x5F, 0x72, 0x65, 0x66]"

fun encode_value_into :: "chrono_fmt \<Rightarrow> bytes \<Rightarrow> sql_value \<Rightarrow> bool \<Rightarrow> bytes"
  and encode_key_from_values :: "chrono_fmt \<Rightarrow> sql_value list \<Rightarrow> bytes"
  and encode_rest :: "chrono_fmt \<Rightarrow> bytes \<Rightarrow> sql_value list \<Rightarrow> bytes"
where
  "encode_value_into cf key Null escape = key @ [0]"
| "encode_value_into cf key (Boolean b) escape = key @ [if b then 1 else 0]"
| "encode_value_into cf key (Int2 v) escape = key @ to_be_bytes 2 (v XOR 0x8000)"
| "encode_value_into cf key (Int4 v) escape = key @ to_be_bytes 4 (v XOR 0x80000000)"
| "encode_value_into cf key (Int8 v) escape = key @ to_be_bytes 8 (v XOR 0x8000000000000000)"
| "encode_value_into cf key (Float4 bits) escape =
     key @ to_be_bytes 4 (if bits AND 0x80000000 = 0 then bits XOR 0x80000000 else NOT bits)"
| "encode_value_into cf key (Float8 bits) escape =
     key @ to_be_bytes 8 (if bits AND 0x8000000000000000 = 0 then bits XOR 0x8000000000000000 else NOT bits)"
| "encode_value_into cf key (String s) escape = extend_maybe_escaped key s escape"
| "encode_value_into cf key (Bytes b) escape = extend_maybe_escaped key b escape"
| "encode_value_into cf key (Uuid u) escape = key @ u"
| "encode_value_into cf key (Numeric d) escape = extend_maybe_escaped key d escape"
| "encode_value_into cf key (Date d) escape = key @ fmt_date cf d"
| "encode_value_into cf key (Time t) escape = key @ fmt_time cf t"
| "encode_value_into cf key (Timestamp ts) escape = key @ fmt_rfc3339 cf ts"
| "encode_value_into cf key (Array arr) escape = extend_maybe_escaped key (encode_key_from_values cf arr) escape"
| "encode_value_into cf key (Json j) escape = extend_maybe_escaped key j escape"
| "encode_value_into cf key (Vector v) escape = key @ concat (map (to_be_bytes 4) v)"
| "encode_value_into cf key (DictRef dict_id) escape = key @ to_be_bytes 4 dict_id"
| "encode_value_into cf key (CasRef hash) escape = key @ hash"
| "encode_value_into cf key ColumnarRef escape = key @ columnar_ref_bytes"
| "encode_value_into cf key (Interval iv) escape = key @ to_be_bytes 8 iv"
| "encode_key_from_values cf [] = []"
| "encode_key_from_values cf [first] = encode_value_into cf [] first False"
| "encode_key_from_values cf (first # second # rest) =
     encode_rest cf (encode_value_into cf (encode_value_into cf [] first True @ [0]) second True) rest"
| "encode_rest cf key [] = key"
| "encode_rest cf key (value # rest) = encode_rest cf (encode_value_into cf (key @ [0]) value True) rest"

definition encode_key :: "chrono_fmt \<Rightarrow> sql_value list \<Rightarrow> bytes" where
  "encode_key cf values = encode_key_from_values cf values"

definition decode_int_key :: "bytes \<Rightarrow> nat \<Rightarrow> int option" where
  "decode_int_key key width =
     (if width = 2 \<and> length key = 2 then Some (sint (from_be_bytes key XOR (0x8000 :: u16)))
      else if width = 4 \<and> length key = 4 then Some (sint (from_be_bytes key XOR (0x80000000 :: u32)))
      else if width = 8 \<and> length key = 8 then Some (sint (from_be_bytes key XOR (0x8000000000000000 :: u64)))
      else None)"

definition int_value_width :: "sql_value \<Rightarrow> (int \<times> nat) option" where
  "int_value_width v = (case v of Int2 i \<Rightarrow> Some (sint i, 2) | Int4 i \<Rightarrow> Some (sint i, 4) | Int8 i \<Rightarrow> Some (sint i, 8) | _ \<Rightarrow> None)"

definition index_type_tag :: "art_index_type \<Rightarrow> u8" where
  "index_type_tag t = (case t of PrimaryKey \<Rightarrow> 0 | ForeignKey \<Rightarrow> 1 | Unique \<Rightarrow> 2 | Manual \<Rightarrow> 3)"

definition key_is_null_distinct :: "art_index_type \<Rightarrow> sql_value list \<Rightarrow> bool" where
  "key_is_null_distinct t values \<longleftrightarrow> t \<in> {PrimaryKey, Unique} \<and> Null \<in> set values"

section \<open>The fragment cache\<close>

type_synonym fragment_cache = "(nat \<times> bool \<times> bytes) list"

definition encode_fragment :: "chrono_fmt \<Rightarrow> fragment_cache \<Rightarrow> nat \<Rightarrow> sql_value \<Rightarrow> bool \<Rightarrow> fragment_cache \<times> bytes" where
  "encode_fragment cf cache col_idx v escape =
     (case find (\<lambda>(ci, esc, _). ci = col_idx \<and> esc = escape) cache of
        Some (_, _, buf) \<Rightarrow> (cache, buf)
      | None \<Rightarrow> let buf = encode_value_into cf [] v escape in (cache @ [(col_idx, escape, buf)], buf))"

fun encode_cached_loop :: "chrono_fmt \<Rightarrow> bool \<Rightarrow> nat \<Rightarrow> bytes \<Rightarrow> fragment_cache \<Rightarrow> (nat \<times> sql_value) list \<Rightarrow> fragment_cache \<times> bytes" where
  "encode_cached_loop cf escape i key cache [] = (cache, key)"
| "encode_cached_loop cf escape i key cache ((sidx, v) # cols) =
     (let key = (if i > 0 then key @ [0] else key);
          (cache, frag) = encode_fragment cf cache sidx v escape
      in encode_cached_loop cf escape (i + 1) (key @ frag) cache cols)"

definition encode_key_cached :: "chrono_fmt \<Rightarrow> fragment_cache \<Rightarrow> (nat \<times> sql_value) list \<Rightarrow> fragment_cache \<times> bytes" where
  "encode_key_cached cf cache cols = encode_cached_loop cf (length cols > 1) 0 [] cache cols"

section \<open>Keys as separated fragments\<close>

abbreviation fragment :: "chrono_fmt \<Rightarrow> bool \<Rightarrow> sql_value \<Rightarrow> bytes" where
  "fragment cf escape v \<equiv> encode_value_into cf [] v escape"

definition escape_zeros :: "bytes \<Rightarrow> bytes" where
  "escape_zeros bs = concat (map (\<lambda>b. if b = 0 then [0, 0xFF] else [b]) bs)"

lemma escape_zeros_simps [simp]:
  "escape_zeros [] = []" "escape_zeros (b # bs) = (if b = 0 then 0 # 0xFF # escape_zeros bs else b # escape_zeros bs)"
  by (simp_all add: escape_zeros_def)

lemma escape_zeros_id: "0 \<notin> set bs \<Longrightarrow> escape_zeros bs = bs"
  by (induction bs) auto

lemma extend_escaped: "extend_maybe_escaped key bs escape = key @ (if escape then escape_zeros bs else bs)"
  using escape_zeros_id [of bs] by (auto simp: extend_maybe_escaped_def escape_zeros_def)

lemma encode_value_append: "encode_value_into cf key v escape = key @ fragment cf escape v"
  by (cases v) (simp_all add: extend_escaped)

definition separated :: "bytes list \<Rightarrow> bytes" where
  "separated frags = (case frags of [] \<Rightarrow> [] | f # fs \<Rightarrow> f @ concat (map ((#) 0) fs))"

lemma separated_simps [simp]:
  "separated [] = []" "separated [f] = f" "separated (f # g # fs) = f @ 0 # separated (g # fs)"
  by (simp_all add: separated_def)

lemma encode_rest_eq: "encode_rest cf key vs = key @ concat (map (\<lambda>v. 0 # fragment cf True v) vs)"
proof (induction vs arbitrary: key)
  case (Cons v vs)
  then show ?case using encode_value_append [of cf "key @ [0]" v True] by simp
qed simp

lemma encode_key_separated: "encode_key_from_values cf vs = separated (map (fragment cf (length vs > 1)) vs)"
proof (cases vs)
  case (Cons first vs')
  show ?thesis
  proof (cases vs')
    case (Cons second rest)
    have "encode_value_into cf (fragment cf True first @ [0]) second True
        = fragment cf True first @ 0 # fragment cf True second"
      using encode_value_append [of cf "fragment cf True first @ [0]" second True] by simp
    then show ?thesis using \<open>vs = first # vs'\<close> Cons by (simp add: encode_rest_eq separated_def comp_def)
  qed (simp add: Cons)
qed simp

section \<open>Integer keys\<close>

lemma int2_fragment: "v XOR 0x8000 = v XOR 2 ^ (LENGTH(16) - 1)" for v :: u16
  by simp

lemma int4_fragment: "v XOR 0x80000000 = v XOR 2 ^ (LENGTH(32) - 1)" for v :: u32
  by simp

lemma int8_fragment: "v XOR 0x8000000000000000 = v XOR 2 ^ (LENGTH(64) - 1)" for v :: u64
  by simp

lemmas int_fragments = int2_fragment int4_fragment int8_fragment

lemma float4_fragment: "(if b AND 0x80000000 = 0 then b XOR 0x80000000 else NOT b) = float_order b" for b :: u32
  by (simp add: float_order_def)

lemma float8_fragment:
  "(if b AND 0x8000000000000000 = 0 then b XOR 0x8000000000000000 else NOT b) = float_order b" for b :: u64
  by (simp add: float_order_def)

lemma xor_twice: "(v XOR s) XOR s = v" for v s :: "'a::len word"
  by (simp add: xor.assoc)

section \<open>Composite keys\<close>

text \<open>Two values of one column, for the types whose fragment determines the value.\<close>

definition column_tag :: "sql_value \<Rightarrow> (nat \<times> nat) option" where
  "column_tag v = (case v of Boolean _ \<Rightarrow> Some (0, 1) | Int2 _ \<Rightarrow> Some (1, 2) | Int4 _ \<Rightarrow> Some (2, 4) | Int8 _ \<Rightarrow> Some (3, 8)
     | Float4 _ \<Rightarrow> Some (4, 4) | Float8 _ \<Rightarrow> Some (5, 8) | Uuid u \<Rightarrow> Some (6, length u) | Interval _ \<Rightarrow> Some (7, 8)
     | DictRef _ \<Rightarrow> Some (8, 4) | String _ \<Rightarrow> Some (9, 0) | Bytes _ \<Rightarrow> Some (10, 0) | Numeric _ \<Rightarrow> Some (11, 0)
     | Json _ \<Rightarrow> Some (12, 0) | _ \<Rightarrow> None)"

definition same_column :: "sql_value \<Rightarrow> sql_value \<Rightarrow> bool" where
  "same_column v w \<longleftrightarrow> column_tag v \<noteq> None \<and> column_tag v = column_tag w"

definition is_text :: "sql_value \<Rightarrow> bool" where
  "is_text v = (case v of String _ \<Rightarrow> True | Bytes _ \<Rightarrow> True | Numeric _ \<Rightarrow> True | Json _ \<Rightarrow> True | _ \<Rightarrow> False)"

definition starts_ff :: "bytes \<Rightarrow> bool" where
  "starts_ff bs = (case bs of b # _ \<Rightarrow> b = 0xFF | [] \<Rightarrow> False)"

fun unambiguous :: "chrono_fmt \<Rightarrow> sql_value list \<Rightarrow> bool" where
  "unambiguous cf (v # w # vs) \<longleftrightarrow> (is_text v \<longrightarrow> \<not> starts_ff (fragment cf True w)) \<and> unambiguous cf (w # vs)"
| "unambiguous cf _ \<longleftrightarrow> True"

lemma escape_zeros_sep:
  "escape_zeros s @ 0 # r = escape_zeros t @ 0 # r' \<Longrightarrow> \<not> starts_ff r \<Longrightarrow> \<not> starts_ff r' \<Longrightarrow> s = t \<and> r = r'"
proof (induction s arbitrary: t)
  case Nil
  then show ?case by (cases t) (auto simp: starts_ff_def split: if_splits)
next
  case (Cons b s)
  show ?case
  proof (cases t)
    case Nil
    then show ?thesis using Cons.prems by (auto simp: starts_ff_def split: if_splits)
  next
    case (Cons c t')
    then show ?thesis using Cons.prems Cons.IH [of t'] by (auto split: if_splits)
  qed
qed

lemma escape_zeros_inj: "escape_zeros s = escape_zeros t \<longleftrightarrow> s = t"
  using escape_zeros_sep [of s "[]" t "[]"] by (auto simp: starts_ff_def)

lemma to_be_bytes_inj: "LENGTH('a) = 8 * n \<Longrightarrow> to_be_bytes n v = to_be_bytes n w \<longleftrightarrow> v = w" for v w :: "'a::len word"
  using from_to_be_bytes by metis

lemma float_order_inj: "float_order a = float_order b \<longleftrightarrow> a = b" for a b :: "'a::len word"
proof
  assume "float_order a = float_order b"
  then have "uint (float_order a) = uint (float_order b)" by simp
  then have "magnitude a = magnitude b \<and> is_negative a = is_negative b"
    unfolding uint_float_order by (auto split: if_splits)
  then have "uint a = uint b" using uint_split [of a] uint_split [of b] by simp
  then show "a = b" by (simp add: word_uint_eq_iff)
qed simp

lemma fragment_inj: "same_column v w \<Longrightarrow> fragment cf e v = fragment cf e w \<longleftrightarrow> v = w"
proof -
  have x: "a XOR c = b XOR c \<longleftrightarrow> a = b" for a b c :: "'a::len word" using xor_twice by metis
  have b: "((if a then 1 else 0 :: u8) = (if b then 1 else 0)) \<longleftrightarrow> a = b" for a b by simp
  have t: "(if e then escape_zeros s else s) = (if e then escape_zeros t else t) \<longleftrightarrow> s = t" for s t
    by (simp add: escape_zeros_inj)
  show "same_column v w \<Longrightarrow> ?thesis"
    by (cases v; cases w) (simp_all add: same_column_def column_tag_def extend_escaped to_be_bytes_inj x b t
        float4_fragment float8_fragment float_order_inj split del: if_split cong: if_cong)
qed

lemma fragment_fixed: "same_column v w \<Longrightarrow> \<not> is_text v \<Longrightarrow> length (fragment cf e v) = length (fragment cf e w)"
  by (cases v; cases w) (simp_all add: same_column_def column_tag_def is_text_def split del: if_split)

lemma fragment_text: "is_text v \<Longrightarrow> \<exists>s. fragment cf True v = escape_zeros s"
  by (cases v) (auto simp: is_text_def extend_escaped)

lemma same_column_text: "same_column v w \<Longrightarrow> is_text w = is_text v"
  by (cases v; cases w) (simp_all add: same_column_def column_tag_def is_text_def)

lemma starts_ff_separated:
  "\<not> starts_ff f \<Longrightarrow> \<not> starts_ff (separated (f # fs))"
  by (cases f; cases fs) (simp_all add: starts_ff_def)

lemma fragment_split:
  assumes sc: "same_column v w" and eq: "fragment cf True v @ 0 # r = fragment cf True w @ 0 # r'"
    and ff: "is_text v \<Longrightarrow> \<not> starts_ff r" "is_text w \<Longrightarrow> \<not> starts_ff r'"
  shows "v = w \<and> r = r'"
proof (cases "is_text v")
  case True
  then have tw: "is_text w" using same_column_text [OF sc] by simp
  obtain s t where st: "fragment cf True v = escape_zeros s" "fragment cf True w = escape_zeros t"
    using fragment_text [OF True, of cf] fragment_text [OF tw, of cf] by blast
  from eq have "escape_zeros s @ 0 # r = escape_zeros t @ 0 # r'" by (simp only: st)
  from escape_zeros_sep [OF this ff(1) [OF True] ff(2) [OF tw]] have "s = t" "r = r'" by auto
  then show ?thesis using fragment_inj [OF sc, of cf True] st by simp
next
  case False
  from eq fragment_fixed [OF sc False, of cf True] have "fragment cf True v = fragment cf True w \<and> r = r'" by simp
  then show ?thesis using fragment_inj [OF sc, of cf True] by blast
qed

lemma separated_inj:
  "list_all2 same_column vs ws \<Longrightarrow> unambiguous cf vs \<Longrightarrow> unambiguous cf ws \<Longrightarrow>
   separated (map (fragment cf True) vs) = separated (map (fragment cf True) ws) \<Longrightarrow> vs = ws"
proof (induction vs ws rule: list_all2_induct)
  case (Cons v vs w ws)
  show ?case
  proof (cases vs)
    case Nil
    then show ?thesis using Cons fragment_inj [OF Cons.hyps(1), of cf True] by simp
  next
    case vs: (Cons v' vs')
    then obtain w' ws' where ws: "ws = w' # ws'" using Cons.hyps(2) by (cases ws) auto
    let ?r = "separated (map (fragment cf True) vs)" and ?r' = "separated (map (fragment cf True) ws)"
    have "is_text v \<Longrightarrow> \<not> starts_ff ?r" "is_text w \<Longrightarrow> \<not> starts_ff ?r'"
      using Cons.prems(1,2) starts_ff_separated by (simp_all add: vs ws)
    moreover have "fragment cf True v @ 0 # ?r = fragment cf True w @ 0 # ?r'" using Cons.prems(3) by (simp add: vs ws)
    ultimately have "v = w \<and> ?r = ?r'" using fragment_split [OF Cons.hyps(1)] by blast
    then show ?thesis using Cons.IH Cons.prems(1,2) by (simp add: vs ws)
  qed
qed simp

section \<open>The cache against the row\<close>

definition cache_ok :: "chrono_fmt \<Rightarrow> (nat \<Rightarrow> sql_value) \<Rightarrow> fragment_cache \<Rightarrow> bool" where
  "cache_ok cf row cache \<longleftrightarrow> (\<forall>(ci, esc, buf) \<in> set cache. buf = fragment cf esc (row ci))"

lemma encode_fragment_ok:
  assumes "cache_ok cf row cache"
  shows "encode_fragment cf cache ci (row ci) esc = (fst (encode_fragment cf cache ci (row ci) esc), fragment cf esc (row ci))
    \<and> cache_ok cf row (fst (encode_fragment cf cache ci (row ci) esc))"
proof (cases "find (\<lambda>(c, e, _). c = ci \<and> e = esc) cache")
  case None
  then show ?thesis using assms by (auto simp: encode_fragment_def cache_ok_def Let_def)
next
  case (Some entry)
  then have "entry \<in> set cache" "fst entry = ci" "fst (snd entry) = esc"
    by (auto simp: find_Some_iff in_set_conv_nth)
  then show ?thesis using Some assms by (auto simp: encode_fragment_def cache_ok_def split: prod.splits)
qed

lemma encode_cached_loop_ok:
  assumes "cache_ok cf row cache" "\<forall>(ci, v) \<in> set cols. v = row ci"
  shows "\<exists>cache'. cache_ok cf row cache' \<and> encode_cached_loop cf esc i key cache cols
    = (cache', key @ (if i = 0 then separated (map (fragment cf esc \<circ> snd) cols)
         else concat (map (\<lambda>c. 0 # fragment cf esc (snd c)) cols)))"
  using assms
proof (induction cols arbitrary: cache i key)
  case (Cons col cols)
  obtain ci where col: "col = (ci, row ci)" using Cons.prems(2) by (cases col) auto
  obtain cache1 where c1: "encode_fragment cf cache ci (row ci) esc = (cache1, fragment cf esc (row ci))" "cache_ok cf row cache1"
    using encode_fragment_ok [OF Cons.prems(1), of ci esc] by force
  from Cons.IH [OF c1(2), of "Suc i" "(if i > 0 then key @ [0] else key) @ fragment cf esc (row ci)"] Cons.prems(2)
  show ?case by (auto simp: col c1(1) separated_def comp_def)
qed auto

text \<open>A printer for the examples, which have no dates.\<close>

definition plain_fmt :: chrono_fmt where
  "plain_fmt = \<lparr>fmt_date = (\<lambda>_. []), fmt_time = (\<lambda>_. []), fmt_rfc3339 = (\<lambda>_. [])\<rparr>"

section \<open>Properties\<close>

text \<open>
  Single-column keys are order-preserving: the byte order of the keys of two integers of a
  column (any of the three widths), of two texts or of two byte strings is the order of the
  values, negative integers included.
\<close>

theorem single_column_key_order:
  "(encode_key cf [Int2 a2] < encode_key cf [Int2 b2] \<longleftrightarrow> sint a2 < sint b2)
   \<and> (encode_key cf [Int4 a4] < encode_key cf [Int4 b4] \<longleftrightarrow> sint a4 < sint b4)
   \<and> (encode_key cf [Int8 a8] < encode_key cf [Int8 b8] \<longleftrightarrow> sint a8 < sint b8)
   \<and> (encode_key cf [String s] < encode_key cf [String t] \<longleftrightarrow> s < t)
   \<and> (encode_key cf [Bytes s] < encode_key cf [Bytes t] \<longleftrightarrow> s < t)"
proof (intro conjI)
  show "encode_key cf [Int2 a2] < encode_key cf [Int2 b2] \<longleftrightarrow> sint a2 < sint b2"
    by (simp only: encode_key_def encode_key_from_values.simps encode_value_into.simps append_Nil int2_fragment
        to_be_bytes_order [where 'a = 16 and n = 2, simplified] xor_sign_order)
  show "encode_key cf [Int4 a4] < encode_key cf [Int4 b4] \<longleftrightarrow> sint a4 < sint b4"
    by (simp only: encode_key_def encode_key_from_values.simps encode_value_into.simps append_Nil int4_fragment
        to_be_bytes_order [where 'a = 32 and n = 4, simplified] xor_sign_order)
  show "encode_key cf [Int8 a8] < encode_key cf [Int8 b8] \<longleftrightarrow> sint a8 < sint b8"
    by (simp only: encode_key_def encode_key_from_values.simps encode_value_into.simps append_Nil int8_fragment
        to_be_bytes_order [where 'a = 64 and n = 8, simplified] xor_sign_order)
qed (simp_all add: encode_key_def extend_escaped)

text \<open>
  Float keys order the numbers of a column by value, in both widths, infinities included.
  Keys of different numbers never compare equal, and the only two equal numbers with different
  keys are the zeros: the key of \<open>-0.0\<close> lies below the key of \<open>0.0\<close>.
\<close>

theorem float_key_order:
  assumes "f64_num a = Some x" "f64_num b = Some y" "f32_num c = Some u" "f32_num d = Some v"
  shows "(encode_key cf [Float8 a] < encode_key cf [Float8 b] \<longleftrightarrow> x < y \<or> x = y \<and> is_negative a \<and> \<not> is_negative b)
    \<and> (encode_key cf [Float4 c] < encode_key cf [Float4 d] \<longleftrightarrow> u < v \<or> u = v \<and> is_negative c \<and> \<not> is_negative d)"
proof
  show "encode_key cf [Float8 a] < encode_key cf [Float8 b] \<longleftrightarrow> x < y \<or> x = y \<and> is_negative a \<and> \<not> is_negative b"
    by (simp only: encode_key_def encode_key_from_values.simps encode_value_into.simps append_Nil float8_fragment
        to_be_bytes_order [where 'a = 64 and n = 8, simplified] f64_order [OF assms(1,2)])
  show "encode_key cf [Float4 c] < encode_key cf [Float4 d] \<longleftrightarrow> u < v \<or> u = v \<and> is_negative c \<and> \<not> is_negative d"
    by (simp only: encode_key_def encode_key_from_values.simps encode_value_into.simps append_Nil float4_fragment
        to_be_bytes_order [where 'a = 32 and n = 4, simplified] f32_order [OF assms(3,4)])
qed

theorem float_key_order_witness:
  "encode_key plain_fmt [Float8 0x8000000000000000] < encode_key plain_fmt [Float8 0]
   \<and> f64_num 0x8000000000000000 = f64_num 0"
proof -
  have n: "f64_num 0x8000000000000000 = Some 0" "f64_num 0 = Some 0" "is_negative (0x8000000000000000 :: u64)" "\<not> is_negative (0 :: u64)"
    "f32_num 0 = Some 0"
    by (simp_all add: f64_num_def f32_num_def magnitude_def is_negative_def signed_units_def float_units_def bit_simps)
  show ?thesis using float_key_order [OF n(1,2,5,5), of plain_fmt] n by simp
qed

text \<open>
  C31. Integer keys decode to the value they encode: for every integer value, \<open>decode_int_key\<close>
  with the value's width inverts \<open>encode_key\<close>.
\<close>

theorem int_key_roundtrip:
  assumes "int_value_width v = Some (i, width)"
  shows "decode_int_key (encode_key cf [v]) width = Some i"
  using assms
  by (cases v) (auto simp: int_value_width_def decode_int_key_def encode_key_def from_to_be_bytes xor_twice)

theorem int_key_roundtrip_witness:
  "decode_int_key (encode_key plain_fmt [Int4 (- 5)]) 4 = Some (- 5)"
  by (rule int_key_roundtrip) (simp add: int_value_width_def)

text \<open>
  The fragment cache changes nothing: with a cache whose entries come from the same row,
  \<open>encode_key_cached\<close> yields the bytes of \<open>encode_key_from_values\<close> for one column and for
  several, and leaves a cache with the same property, so it holds for all indexes of the row.
\<close>

theorem encode_key_cached_identical:
  assumes "cache_ok cf row cache" "\<forall>(ci, v) \<in> set cols. v = row ci"
  shows "\<exists>cache'. encode_key_cached cf cache cols = (cache', encode_key_from_values cf (map snd cols)) \<and> cache_ok cf row cache'"
  using encode_cached_loop_ok [OF assms, of "length cols > 1" 0 "[]"]
  by (auto simp: encode_key_cached_def encode_key_separated)

theorem encode_key_cached_identical_witness:
  "\<exists>cache'. encode_key_cached plain_fmt [(1, True, [0x61])] [(0, Int2 7), (1, String [0x61])]
     = (cache', encode_key_from_values plain_fmt [Int2 7, String [0x61]])"
  using encode_key_cached_identical [of plain_fmt "\<lambda>c. if c = 0 then Int2 7 else String [0x61]"
      "[(1, True, [0x61])]" "[(0, Int2 7), (1, String [0x61])]"]
  by (auto simp: cache_ok_def extend_escaped)

text \<open>
  Keys identify rows: two rows of the same column types (and no NULL) have equal keys only
  if they are equal, for any number of columns, provided no value that follows a text column
  encodes to a first byte \<open>0xFF\<close>. UTF-8 text never does, so keys of text columns are injective
  with embedded zero bytes and empty strings.
\<close>

theorem composite_key_injective:
  assumes "list_all2 same_column vs ws" "unambiguous cf vs" "unambiguous cf ws"
  shows "encode_key cf vs = encode_key cf ws \<longleftrightarrow> vs = ws"
proof
  assume eq: "encode_key cf vs = encode_key cf ws"
  have len: "length ws = length vs" using list_all2_lengthD [OF assms(1)] by simp
  show "vs = ws"
  proof (cases "length vs > 1")
    case True
    then show ?thesis
      using eq separated_inj [OF assms] len by (simp add: encode_key_def encode_key_separated)
  next
    case False
    then show ?thesis
      using eq assms(1) fragment_inj [of "hd vs" "hd ws" cf False]
      by (cases vs; cases ws) (auto simp: encode_key_def)
  qed
qed simp

theorem composite_key_injective_witness:
  "encode_key plain_fmt [String [0x61, 0], String []] \<noteq> encode_key plain_fmt [String [0x61], String [0]]"
  using composite_key_injective [of "[String [0x61, 0], String []]" "[String [0x61], String [0]]" plain_fmt]
  by (simp add: same_column_def column_tag_def is_text_def starts_ff_def extend_escaped)

text \<open>
  The escape does not separate columns of byte strings: the rows \<open>(61 00, FF)\<close> and
  \<open>(61, FF 00)\<close> of two \<open>BYTEA\<close> columns are different and have the same key, so a unique index
  takes the second for a duplicate of the first.
\<close>

theorem bytea_key_collision:
  "encode_key cf [Bytes [0x61, 0], Bytes [0xFF]] = encode_key cf [Bytes [0x61], Bytes [0xFF, 0]]
   \<and> \<not> key_is_null_distinct Unique [Bytes [0x61, 0], Bytes [0xFF]]"
  by (simp add: encode_key_def encode_key_separated extend_escaped key_is_null_distinct_def)

end
