(* ===== verification/Row_Indexes.thy ===== *)
theory Row_Indexes
  imports Index_Registry Key_Encoding
begin

text \<open>
  The row half of \<open>ArtIndexManager\<close> (\<^verbatim>\<open>src/src/storage/art_manager.rs\<close>): maintenance of all
  indexes of a table for one row, with the all-or-nothing arm for rows that are not stored yet
  and the keep-everything arm for stored rows, deletion, backfill, and the uniqueness checks.
  A schema is the list of its column names and a tuple the list of its values; locks, logging
  and the write-volume census have no model. Keys come from \<open>Key_Encoding\<close>, trees from
  \<open>Art_Index\<close>.
\<close>

section \<open>Keys of a row\<close>

type_synonym schema = "string list"
type_synonym tuple = "sql_value list"

datatype row_state = NotStored | Stored

definition get_column_index :: "schema \<Rightarrow> string \<Rightarrow> nat option" where
  "get_column_index schema name = position name schema"

fun resolve_columns :: "schema \<Rightarrow> tuple \<Rightarrow> string list \<Rightarrow> (nat \<times> sql_value) list option" where
  "resolve_columns schema tuple [] = Some []"
| "resolve_columns schema tuple (c # cs) = (case get_column_index schema c of
     None \<Rightarrow> None
   | Some i \<Rightarrow> if i < length tuple
       then map_option (\<lambda>r. (i, tuple ! i) # r) (resolve_columns schema tuple cs) else None)"

definition index_value_refs_from_tuple :: "string list \<Rightarrow> schema \<Rightarrow> tuple \<Rightarrow> sql_value list option" where
  "index_value_refs_from_tuple columns schema tuple = map_option (map snd) (resolve_columns schema tuple columns)"

definition violation_name :: "index_entry \<Rightarrow> string \<Rightarrow> string" where
  "violation_name entry index_name = (case ie_label entry of Some l \<Rightarrow> l | None \<Rightarrow> index_name)"

definition quoted :: "string \<Rightarrow> string" where
  "quoted s = CHR 0x22 # s @ [CHR 0x22]"

definition art_error_display :: "art_index_error \<Rightarrow> string" where
  "art_error_display e = (case e of
       DuplicateKey key \<Rightarrow> ''Duplicate key: '' @ key
     | KeyNotFound \<Rightarrow> ''Key not found''
     | ForeignKeyViolation msg \<Rightarrow> ''Foreign key violation: '' @ msg
     | NullPrimaryKey \<Rightarrow> ''NULL value not allowed in primary key''
     | IndexAlreadyExists name \<Rightarrow> ''Index '' @ [CHR 0x27] @ name @ [CHR 0x27] @ '' already exists''
     | IndexNotFound name \<Rightarrow> ''Index '' @ [CHR 0x27] @ name @ [CHR 0x27] @ '' not found''
     | Internal msg \<Rightarrow> ''Internal error: '' @ msg)"

definition stored_duplicate_error :: "string \<Rightarrow> row_id \<Rightarrow> art_index_error \<Rightarrow> art_index_error" where
  "stored_duplicate_error index_name row_id err = (case err of
       DuplicateKey _ \<Rightarrow> DuplicateKey (''index '' @ quoted index_name @ '' refused the key of row '' @ nat_str (unat row_id)
         @ '', which is stored anyway ('' @ art_error_display err @ '') '' @ [CHR 0xE2, CHR 0x80, CHR 0x94]
         @ '' that index cannot find this row, and its entry belongs to the row that claimed the value first'')
     | _ \<Rightarrow> err)"

definition rejected_duplicate_error :: "string \<Rightarrow> art_index_type \<Rightarrow> art_index_error \<Rightarrow> art_index_error" where
  "rejected_duplicate_error index_name ty err = (case err of
       DuplicateKey _ \<Rightarrow> DuplicateKey (''Duplicate key value violates ''
         @ (if ty = PrimaryKey then ''PRIMARY KEY'' else ''UNIQUE'') @ '' constraint '' @ quoted index_name)
     | _ \<Rightarrow> err)"

section \<open>Maintenance\<close>

type_synonym index_map = "(string \<times> index_entry) list"
type_synonym undo_log = "(string \<times> bytes \<times> int option) list"

definition set_tree :: "string \<Rightarrow> index_entry \<Rightarrow> art_tree \<Rightarrow> index_map \<Rightarrow> index_map" where
  "set_tree name entry t indexes = AList.update name (entry\<lparr>ie_tree := t\<rparr>) indexes"

definition undo_entry :: "row_id \<Rightarrow> string \<times> bytes \<times> int option \<Rightarrow> index_map \<Rightarrow> index_map" where
  "undo_entry row_id u indexes = (case u of (name, key, dense) \<Rightarrow>
     (case map_of indexes name of
        None \<Rightarrow> indexes
      | Some entry \<Rightarrow>
          if is_unique_type (ie_type entry) then
            (case art_remove (ie_tree entry) key of
               (t, Inr (Some _)) \<Rightarrow>
                 set_tree name entry (case dense of Some v \<Rightarrow> record_dense_int_delete v t | None \<Rightarrow> t) indexes
             | (t, _) \<Rightarrow> set_tree name entry t indexes)
          else set_tree name entry (fst (art_remove_value (ie_tree entry) key row_id)) indexes))"

definition undo_row_index_entries :: "undo_log \<Rightarrow> row_id \<Rightarrow> index_map \<Rightarrow> index_map" where
  "undo_row_index_entries undo row_id indexes = fold (undo_entry row_id) (rev undo) indexes"

definition row_index_key :: "chrono_fmt \<Rightarrow> bool \<Rightarrow> fragment_cache \<Rightarrow> (nat \<times> sql_value) list \<Rightarrow> fragment_cache \<times> bytes" where
  "row_index_key cf multi_index cache resolved =
     (if multi_index then encode_key_cached cf cache resolved
      else (cache, encode_key_from_values cf (map snd resolved)))"

fun insert_loop :: "chrono_fmt \<Rightarrow> bool \<Rightarrow> row_state \<Rightarrow> row_id \<Rightarrow> schema \<Rightarrow> tuple \<Rightarrow> string list \<Rightarrow> index_map
    \<Rightarrow> fragment_cache \<Rightarrow> undo_log \<Rightarrow> art_index_error option \<Rightarrow> index_map \<times> (art_index_error + unit)" where
  "insert_loop cf multi st row_id schema tuple [] indexes cache undo first_error =
     (indexes, case first_error of Some e \<Rightarrow> Inl e | None \<Rightarrow> Inr ())"
| "insert_loop cf multi st row_id schema tuple (name # names) indexes cache undo first_error =
     (case map_of indexes name of
        None \<Rightarrow> insert_loop cf multi st row_id schema tuple names indexes cache undo first_error
      | Some entry \<Rightarrow> (case resolve_columns schema tuple (ie_columns entry) of
          None \<Rightarrow> insert_loop cf multi st row_id schema tuple names indexes cache undo first_error
        | Some resolved \<Rightarrow>
            if key_is_null_distinct (ie_type entry) (map snd resolved)
            then insert_loop cf multi st row_id schema tuple names indexes cache undo first_error
            else let (cache, key) = row_index_key cf multi cache resolved;
                     (t, outcome) = art_insert (ie_tree entry) key row_id
            in (case outcome of
                Inr _ \<Rightarrow>
                  let dense = (if ie_type entry = PrimaryKey \<and> length (ie_columns entry) = 1
                        then int_value_width (snd (hd resolved)) else None);
                      t = (case dense of Some (v, width) \<Rightarrow> record_dense_int_insert width v t | None \<Rightarrow> t);
                      undo = (if st = NotStored \<and> multi then undo @ [(name, key, map_option fst dense)] else undo)
                  in insert_loop cf multi st row_id schema tuple names (set_tree name entry t indexes) cache undo first_error
              | Inl e \<Rightarrow>
                  let indexes = set_tree name entry t indexes in
                  if is_unique_type (ie_type entry) then
                    (case st of
                       NotStored \<Rightarrow> (undo_row_index_entries undo row_id indexes,
                         Inl (rejected_duplicate_error (violation_name entry name) (ie_type entry) e))
                     | Stored \<Rightarrow> insert_loop cf multi st row_id schema tuple names indexes cache undo
                         (case first_error of Some f \<Rightarrow> Some f
                          | None \<Rightarrow> Some (stored_duplicate_error (violation_name entry name) row_id e)))
                  else insert_loop cf multi st row_id schema tuple names indexes cache undo first_error)))"

definition insert_row_indexes :: "chrono_fmt \<Rightarrow> string list \<Rightarrow> row_id \<Rightarrow> schema \<Rightarrow> tuple \<Rightarrow> row_state \<Rightarrow> index_map
    \<Rightarrow> index_map \<times> (art_index_error + unit)" where
  "insert_row_indexes cf names row_id schema tuple st indexes =
     insert_loop cf (length names > 1) st row_id schema tuple names indexes [] [] None"

text \<open>The three insert funnels; an empty list of indexes returns at once.\<close>

definition maintain_row :: "chrono_fmt \<Rightarrow> row_state \<Rightarrow> string \<Rightarrow> row_id \<Rightarrow> schema \<Rightarrow> tuple \<Rightarrow> art_manager
    \<Rightarrow> art_manager \<times> (art_index_error + unit)" where
  "maintain_row cf st table row_id schema tuple m =
     (let m = note_mutation m in case map_of (am_table_indexes m) table of
        Some (n # ns) \<Rightarrow> (case insert_row_indexes cf (n # ns) row_id schema tuple st (am_indexes m) of
            (indexes, res) \<Rightarrow> (m\<lparr>am_indexes := indexes\<rparr>, res))
      | _ \<Rightarrow> (m, Inr ()))"

definition on_insert_tuple :: "chrono_fmt \<Rightarrow> string \<Rightarrow> row_id \<Rightarrow> schema \<Rightarrow> tuple \<Rightarrow> art_manager \<Rightarrow> art_manager \<times> (art_index_error + unit)" where
  "on_insert_tuple cf table row_id schema tuple m = maintain_row cf Stored table row_id schema tuple m"

definition reserve_insert_tuple :: "chrono_fmt \<Rightarrow> string \<Rightarrow> row_id \<Rightarrow> schema \<Rightarrow> tuple \<Rightarrow> art_manager \<Rightarrow> art_manager \<times> (art_index_error + unit)" where
  "reserve_insert_tuple cf table row_id schema tuple m = maintain_row cf NotStored table row_id schema tuple m"

fun insert_rows_loop :: "chrono_fmt \<Rightarrow> string list \<Rightarrow> schema \<Rightarrow> (row_id \<times> tuple) list \<Rightarrow> index_map \<Rightarrow> art_index_error option
    \<Rightarrow> index_map \<times> (art_index_error + unit)" where
  "insert_rows_loop cf names schema [] indexes first_error = (indexes, case first_error of Some e \<Rightarrow> Inl e | None \<Rightarrow> Inr ())"
| "insert_rows_loop cf names schema ((row_id, tuple) # rows) indexes first_error =
     (case insert_row_indexes cf names row_id schema tuple Stored indexes of
        (indexes, Inl e) \<Rightarrow> insert_rows_loop cf names schema rows indexes
          (case first_error of Some f \<Rightarrow> Some f | None \<Rightarrow> Some e)
      | (indexes, Inr _) \<Rightarrow> insert_rows_loop cf names schema rows indexes first_error)"

definition on_insert_tuples :: "chrono_fmt \<Rightarrow> string \<Rightarrow> schema \<Rightarrow> (row_id \<times> tuple) list \<Rightarrow> art_manager \<Rightarrow> art_manager \<times> (art_index_error + unit)" where
  "on_insert_tuples cf table schema rows m =
     (if rows = [] then (m, Inr ())
      else let m = note_mutation m in case map_of (am_table_indexes m) table of
        Some (n # ns) \<Rightarrow> (case insert_rows_loop cf (n # ns) schema rows (am_indexes m) None of
            (indexes, res) \<Rightarrow> (m\<lparr>am_indexes := indexes\<rparr>, res))
      | _ \<Rightarrow> (m, Inr ()))"

fun delete_loop :: "chrono_fmt \<Rightarrow> bool \<Rightarrow> row_id \<Rightarrow> schema \<Rightarrow> tuple \<Rightarrow> string list \<Rightarrow> index_map
    \<Rightarrow> fragment_cache \<Rightarrow> art_index_error option \<Rightarrow> index_map \<times> (art_index_error + unit)" where
  "delete_loop cf multi row_id schema tuple [] indexes cache first_error =
     (indexes, case first_error of Some e \<Rightarrow> Inl e | None \<Rightarrow> Inr ())"
| "delete_loop cf multi row_id schema tuple (name # names) indexes cache first_error =
     (case map_of indexes name of
        None \<Rightarrow> delete_loop cf multi row_id schema tuple names indexes cache first_error
      | Some entry \<Rightarrow> (case resolve_columns schema tuple (ie_columns entry) of
          None \<Rightarrow> delete_loop cf multi row_id schema tuple names indexes cache first_error
        | Some resolved \<Rightarrow>
            if key_is_null_distinct (ie_type entry) (map snd resolved)
            then delete_loop cf multi row_id schema tuple names indexes cache first_error
            else let (cache, key) = row_index_key cf multi cache resolved in
            if is_unique_type (ie_type entry) then
              (case art_remove (ie_tree entry) key of
                 (t, Inr previous) \<Rightarrow>
                   let t = (if previous \<noteq> None \<and> ie_type entry = PrimaryKey \<and> length (ie_columns entry) = 1
                        then (case int_value_width (snd (hd resolved)) of Some (v, _) \<Rightarrow> record_dense_int_delete v t | None \<Rightarrow> t)
                        else t)
                   in delete_loop cf multi row_id schema tuple names (set_tree name entry t indexes) cache first_error
               | (t, Inl e) \<Rightarrow> delete_loop cf multi row_id schema tuple names (set_tree name entry t indexes) cache
                   (case first_error of Some f \<Rightarrow> Some f | None \<Rightarrow> Some e))
            else delete_loop cf multi row_id schema tuple names
                   (set_tree name entry (fst (art_remove_value (ie_tree entry) key row_id)) indexes) cache first_error))"

definition on_delete_tuple :: "chrono_fmt \<Rightarrow> string \<Rightarrow> row_id \<Rightarrow> schema \<Rightarrow> tuple \<Rightarrow> art_manager \<Rightarrow> art_manager \<times> (art_index_error + unit)" where
  "on_delete_tuple cf table row_id schema tuple m =
     (let m = note_mutation m in case map_of (am_table_indexes m) table of
        Some (n # ns) \<Rightarrow> (case delete_loop cf (length (n # ns) > 1) row_id schema tuple (n # ns) (am_indexes m) [] None of
            (indexes, res) \<Rightarrow> (m\<lparr>am_indexes := indexes\<rparr>, res))
      | _ \<Rightarrow> (m, Inr ()))"

section \<open>Checks\<close>

definition duplicate_violation :: "string \<Rightarrow> index_entry \<Rightarrow> string \<Rightarrow> art_index_error" where
  "duplicate_violation kind entry name =
     DuplicateKey (''Duplicate key value violates '' @ kind @ '' constraint '' @ quoted (violation_name entry name))"

definition count_check :: "art_manager \<Rightarrow> art_manager" where
  "count_check m = m\<lparr>am_stats := (am_stats m)\<lparr>ms_constraint_checks := ms_constraint_checks (am_stats m) + 1\<rparr>\<rparr>"

definition check_pk_constraint :: "chrono_fmt \<Rightarrow> string \<Rightarrow> sql_value list \<Rightarrow> art_manager \<Rightarrow> art_manager \<times> (art_index_error + unit)" where
  "check_pk_constraint cf table key_values m =
     (if Null \<in> set key_values then (m, Inl NullPrimaryKey)
      else case Option.bind (map_of (am_pk m) table) (\<lambda>n. map_option (Pair n) (map_of (am_indexes m) n)) of
        Some (pk_name, entry) \<Rightarrow>
          if art_contains (ie_tree entry) (encode_key cf key_values)
          then (m, Inl (duplicate_violation ''PRIMARY KEY'' entry pk_name)) else (count_check m, Inr ())
      | None \<Rightarrow> (count_check m, Inr ()))"

definition probe_tuple :: "chrono_fmt \<Rightarrow> schema \<Rightarrow> tuple \<Rightarrow> index_map \<Rightarrow> string \<Rightarrow> string \<Rightarrow> art_index_error option" where
  "probe_tuple cf schema tuple indexes kind name = (case map_of indexes name of
       None \<Rightarrow> None
     | Some entry \<Rightarrow> (case index_value_refs_from_tuple (ie_columns entry) schema tuple of
         None \<Rightarrow> None
       | Some values \<Rightarrow>
           if Null \<in> set values then None
           else if art_contains (ie_tree entry) (encode_key_from_values cf values)
           then Some (duplicate_violation kind entry name) else None))"

fun first_violation :: "(string \<Rightarrow> art_index_error option) \<Rightarrow> string list \<Rightarrow> art_index_error option" where
  "first_violation probe [] = None"
| "first_violation probe (n # ns) = (case probe n of Some e \<Rightarrow> Some e | None \<Rightarrow> first_violation probe ns)"

definition check_unique_constraints_tuple :: "chrono_fmt \<Rightarrow> string \<Rightarrow> schema \<Rightarrow> tuple \<Rightarrow> art_manager \<Rightarrow> art_manager \<times> (art_index_error + unit)" where
  "check_unique_constraints_tuple cf table schema tuple m =
     (case Option.bind (map_of (am_pk m) table) (probe_tuple cf schema tuple (am_indexes m) ''PRIMARY KEY'') of
        Some e \<Rightarrow> (m, Inl e)
      | None \<Rightarrow> (case first_violation (probe_tuple cf schema tuple (am_indexes m) ''UNIQUE'') (names_of (am_unique m) table) of
          Some e \<Rightarrow> (m, Inl e)
        | None \<Rightarrow> (count_check m, Inr ())))"

definition column_sets_match :: "string list \<Rightarrow> string list \<Rightarrow> bool" where
  "column_sets_match a b =
     (if length a \<noteq> length b then False
      else if length a = 1 then eq_ignore_ascii_case (hd a) (hd b)
      else (\<forall>x \<in> set a. \<exists>y \<in> set b. eq_ignore_ascii_case x y) \<and> (\<forall>y \<in> set b. \<exists>x \<in> set a. eq_ignore_ascii_case x y))"

record unique_conflict =
  uc_index_name :: string
  uc_columns :: "string list"
  uc_row_id :: row_id
  uc_is_primary_key :: bool

text \<open>The values of an index's columns, when every one is present and none is NULL.\<close>

fun usable_values :: "(string \<Rightarrow> sql_value option) \<Rightarrow> string list \<Rightarrow> sql_value list option" where
  "usable_values column_values [] = Some []"
| "usable_values column_values (c # cs) = (case column_values c of
     None \<Rightarrow> None
   | Some v \<Rightarrow> if v = Null then None else map_option (Cons v) (usable_values column_values cs))"

fun conflict_loop :: "chrono_fmt \<Rightarrow> (string \<Rightarrow> sql_value option) \<Rightarrow> string list option \<Rightarrow> index_map \<Rightarrow> (string \<times> bool) list \<Rightarrow> unique_conflict option" where
  "conflict_loop cf column_values arbiter indexes [] = None"
| "conflict_loop cf column_values arbiter indexes ((name, is_pk) # names) =
     (case map_of indexes name of
        None \<Rightarrow> conflict_loop cf column_values arbiter indexes names
      | Some entry \<Rightarrow>
          if (case arbiter of Some a \<Rightarrow> \<not> column_sets_match (ie_columns entry) a | None \<Rightarrow> False)
          then conflict_loop cf column_values arbiter indexes names
          else (case usable_values column_values (ie_columns entry) of
              None \<Rightarrow> conflict_loop cf column_values arbiter indexes names
            | Some values \<Rightarrow> (case art_get (ie_tree entry) (encode_key_from_values cf values) of
                Some row \<Rightarrow> Some \<lparr>uc_index_name = name, uc_columns = ie_columns entry, uc_row_id = row, uc_is_primary_key = is_pk\<rparr>
              | None \<Rightarrow> conflict_loop cf column_values arbiter indexes names)))"

definition find_unique_conflict :: "chrono_fmt \<Rightarrow> string \<Rightarrow> (string \<Rightarrow> sql_value option) \<Rightarrow> string list option \<Rightarrow> art_manager \<Rightarrow> unique_conflict option" where
  "find_unique_conflict cf table column_values arbiter m =
     conflict_loop cf column_values arbiter (am_indexes m)
       ((case map_of (am_pk m) table of Some n \<Rightarrow> [(n, True)] | None \<Rightarrow> []) @ map (\<lambda>n. (n, False)) (names_of (am_unique m) table))"

fun reorder_values :: "string list \<Rightarrow> sql_value list \<Rightarrow> string list \<Rightarrow> sql_value list option" where
  "reorder_values columns values [] = Some []"
| "reorder_values columns values (want # wants) =
     (case find (\<lambda>i. eq_ignore_ascii_case (columns ! i) want) [0..<length columns] of
        None \<Rightarrow> None
      | Some pos \<Rightarrow> if pos < length values then map_option (Cons (values ! pos)) (reorder_values columns values wants) else None)"

definition unique_key_taken_by_other_row :: "chrono_fmt \<Rightarrow> string \<Rightarrow> string list \<Rightarrow> sql_value list \<Rightarrow> row_id option \<Rightarrow> art_manager \<Rightarrow> bool" where
  "unique_key_taken_by_other_row cf table columns values exclude_row_id m =
     (if Null \<in> set values then False
      else \<exists>(_, entry) \<in> set (am_indexes m).
        ie_table entry = table \<and> is_unique_type (ie_type entry) \<and> column_sets_match (ie_columns entry) columns \<and>
        (case (if ie_columns entry = columns then Some values else reorder_values columns values (ie_columns entry)) of
           None \<Rightarrow> False
         | Some ordered \<Rightarrow> (case exclude_row_id of
             Some excluded \<Rightarrow> (\<exists>row \<in> set (art_get_all (ie_tree entry) (encode_key_from_values cf ordered)). row \<noteq> excluded)
           | None \<Rightarrow> art_contains (ie_tree entry) (encode_key_from_values cf ordered))))"

definition unique_key_exists :: "chrono_fmt \<Rightarrow> string \<Rightarrow> string list \<Rightarrow> sql_value list \<Rightarrow> art_manager \<Rightarrow> bool" where
  "unique_key_exists cf table columns values m = unique_key_taken_by_other_row cf table columns values None m"

definition pk_index_lookup :: "string \<Rightarrow> bytes \<Rightarrow> art_manager \<Rightarrow> row_id option" where
  "pk_index_lookup table key m =
     Option.bind (map_of (am_pk m) table) (\<lambda>n. Option.bind (map_of (am_indexes m) n) (\<lambda>e. art_get (ie_tree e) key))"

definition index_get_all :: "string \<Rightarrow> bytes \<Rightarrow> art_manager \<Rightarrow> row_id list" where
  "index_get_all name key m = (case map_of (am_indexes m) name of Some e \<Rightarrow> art_get_all (ie_tree e) key | None \<Rightarrow> [])"

definition remove_single_pk_key :: "string \<Rightarrow> bytes \<Rightarrow> row_id \<Rightarrow> sql_value \<Rightarrow> art_manager \<Rightarrow> art_manager \<times> (art_index_error + bool)" where
  "remove_single_pk_key table key row_id pk_value m = (let m = note_mutation m in
     case Option.bind (map_of (am_pk m) table) (\<lambda>n. map_option (Pair n) (map_of (am_indexes m) n)) of
       None \<Rightarrow> (m, Inr False)
     | Some (pk_name, entry) \<Rightarrow>
         if ie_type entry \<noteq> PrimaryKey \<or> length (ie_columns entry) \<noteq> 1 then (m, Inr False)
         else if art_get (ie_tree entry) key \<noteq> Some row_id then (m, Inr False)
         else (case art_remove (ie_tree entry) key of
             (t, Inl e) \<Rightarrow> (m\<lparr>am_indexes := set_tree pk_name entry t (am_indexes m)\<rparr>, Inl e)
           | (t, Inr previous) \<Rightarrow>
               let t = (if previous \<noteq> None then (case int_value_width pk_value of Some (v, _) \<Rightarrow> record_dense_int_delete v t | None \<Rightarrow> t) else t)
               in (m\<lparr>am_indexes := set_tree pk_name entry t (am_indexes m)\<rparr>, Inr (previous \<noteq> None))))"

fun backfill_loop :: "chrono_fmt \<Rightarrow> string \<Rightarrow> index_entry \<Rightarrow> schema \<Rightarrow> (row_id option \<times> tuple) list \<Rightarrow> nat \<Rightarrow> art_tree \<Rightarrow> art_tree \<times> (art_index_error + nat)" where
  "backfill_loop cf name entry schema [] cnt t = (t, Inr cnt)"
| "backfill_loop cf name entry schema ((row_id, tuple) # tuples) cnt t = (case row_id of
     None \<Rightarrow> (t, Inl (Internal (''Cannot backfill index '' @ [CHR 0x27] @ name @ [CHR 0x27] @ '' from tuple without row_id'')))
   | Some row \<Rightarrow> (case index_value_refs_from_tuple (ie_columns entry) schema tuple of
       None \<Rightarrow> backfill_loop cf name entry schema tuples cnt t
     | Some values \<Rightarrow>
         if ie_type entry = Unique \<and> Null \<in> set values then backfill_loop cf name entry schema tuples cnt t
         else let key = encode_key_from_values cf values in
         if ie_type entry = Unique \<and> art_contains t key then (t, Inl (duplicate_violation ''UNIQUE'' entry name))
         else (case art_insert t key row of
             (t, Inl e) \<Rightarrow> (t, Inl e)
           | (t, Inr _) \<Rightarrow> backfill_loop cf name entry schema tuples (cnt + 1) t)))"

text \<open>\<open>backfill_unique_index\<close>, \<open>backfill_manual_index\<close> and \<open>backfill_fk_index\<close>, by the kind they accept.\<close>

definition backfill_index :: "chrono_fmt \<Rightarrow> art_index_type \<Rightarrow> string \<Rightarrow> string \<Rightarrow> schema \<Rightarrow> (row_id option \<times> tuple) list \<Rightarrow> art_manager
    \<Rightarrow> art_manager \<times> (art_index_error + nat)" where
  "backfill_index cf kind what name schema tuples m = (let m = note_mutation m in
     case map_of (am_indexes m) name of
       None \<Rightarrow> (m, Inl (IndexNotFound name))
     | Some entry \<Rightarrow>
         if ie_type entry \<noteq> kind then (m, Inl (Internal (''Index '' @ [CHR 0x27] @ name @ [CHR 0x27] @ '' is not a '' @ what)))
         else (case backfill_loop cf name entry schema tuples 0 (ie_tree entry) of
           (t, res) \<Rightarrow> (m\<lparr>am_indexes := set_tree name entry t (am_indexes m)\<rparr>, res)))"

definition backfill_unique_index :: "chrono_fmt \<Rightarrow> string \<Rightarrow> schema \<Rightarrow> (row_id option \<times> tuple) list \<Rightarrow> art_manager \<Rightarrow> art_manager \<times> (art_index_error + nat)" where
  "backfill_unique_index cf = backfill_index cf Unique ''unique index''"

definition backfill_manual_index :: "chrono_fmt \<Rightarrow> string \<Rightarrow> schema \<Rightarrow> (row_id option \<times> tuple) list \<Rightarrow> art_manager \<Rightarrow> art_manager \<times> (art_index_error + nat)" where
  "backfill_manual_index cf = backfill_index cf Manual ''manual secondary index''"

definition backfill_fk_index :: "chrono_fmt \<Rightarrow> string \<Rightarrow> schema \<Rightarrow> (row_id option \<times> tuple) list \<Rightarrow> art_manager \<Rightarrow> art_manager \<times> (art_index_error + nat)" where
  "backfill_fk_index cf = backfill_index cf ForeignKey ''foreign-key index''"

definition columns_affect_indexes :: "string \<Rightarrow> string list \<Rightarrow> art_manager \<Rightarrow> bool" where
  "columns_affect_indexes table column_names m \<longleftrightarrow> column_names \<noteq> [] \<and>
     (\<exists>(_, entry) \<in> set (am_indexes m). ie_table entry = table \<and>
        (\<exists>c \<in> set (ie_columns entry). \<exists>name \<in> set column_names. eq_ignore_ascii_case name c))"

section \<open>Rows of the indexes\<close>

text \<open>The abstract state: for every index the row ids under each key.\<close>

type_synonym row_maps = "string \<Rightarrow> bytes \<Rightarrow> row_id list"

definition index_rows :: "index_map \<Rightarrow> row_maps" where
  "index_rows indexes n = (case map_of indexes n of None \<Rightarrow> (\<lambda>_. []) | Some e \<Rightarrow> art_get_all (ie_tree e))"

definition index_kind :: "index_map \<Rightarrow> string \<Rightarrow> art_index_type option" where
  "index_kind indexes n = map_option ie_type (map_of indexes n)"

text \<open>The key of a row in an index, if the index takes the row at all.\<close>

definition name_key :: "chrono_fmt \<Rightarrow> schema \<Rightarrow> tuple \<Rightarrow> index_map \<Rightarrow> string \<Rightarrow> bytes option" where
  "name_key cf schema tuple indexes n = (case map_of indexes n of
       None \<Rightarrow> None
     | Some e \<Rightarrow> (case resolve_columns schema tuple (ie_columns e) of
         None \<Rightarrow> None
       | Some resolved \<Rightarrow> if key_is_null_distinct (ie_type e) (map snd resolved) then None
           else Some (encode_key_from_values cf (map snd resolved))))"

definition refuses :: "chrono_fmt \<Rightarrow> schema \<Rightarrow> tuple \<Rightarrow> index_map \<Rightarrow> string \<Rightarrow> bool" where
  "refuses cf schema tuple indexes n \<longleftrightarrow> (\<exists>ty k. index_kind indexes n = Some ty \<and> name_key cf schema tuple indexes n = Some k
     \<and> refused ty (index_rows indexes n) k)"

definition add_row :: "bytes option \<Rightarrow> row_id \<Rightarrow> (bytes \<Rightarrow> row_id list) \<Rightarrow> bytes \<Rightarrow> row_id list" where
  "add_row key r f = (case key of None \<Rightarrow> f | Some k \<Rightarrow> f(k := f k @ [r]))"

definition drop_row :: "art_index_type option \<Rightarrow> bytes option \<Rightarrow> row_id \<Rightarrow> (bytes \<Rightarrow> row_id list) \<Rightarrow> bytes \<Rightarrow> row_id list" where
  "drop_row kind key r f = (case (kind, key) of
       (Some ty, Some k) \<Rightarrow> f(k := if is_unique_type ty then [] else swap_remove_value r (f k)) | _ \<Rightarrow> f)"

definition trees_ok :: "(art_tree \<Rightarrow> bool) \<Rightarrow> index_map \<Rightarrow> bool" where
  "trees_ok P indexes \<longleftrightarrow> (\<forall>n e. map_of indexes n = Some e \<longrightarrow> P (ie_tree e) \<and> at_index_type (ie_tree e) = ie_type e)"

definition meta :: "index_entry \<Rightarrow> string \<times> string list \<times> art_index_type \<times> string option" where
  "meta e = (ie_table e, ie_columns e, ie_type e, ie_label e)"

definition same_meta :: "index_map \<Rightarrow> index_map \<Rightarrow> bool" where
  "same_meta i j \<longleftrightarrow> (\<forall>n. map_option meta (map_of i n) = map_option meta (map_of j n))"

lemma same_meta_refl [simp]: "same_meta i i"
  by (simp add: same_meta_def)

lemma same_meta_trans: "same_meta i j \<Longrightarrow> same_meta j k \<Longrightarrow> same_meta i k"
  by (simp add: same_meta_def)

lemma same_meta_facts:
  assumes "same_meta i j"
  shows "index_kind j = index_kind i" "name_key cf schema tuple j = name_key cf schema tuple i"
proof -
  have "index_kind j n = index_kind i n \<and> name_key cf schema tuple j n = name_key cf schema tuple i n" for n
  proof -
    have "map_option meta (map_of i n) = map_option meta (map_of j n)" using assms by (simp add: same_meta_def)
    then show ?thesis
      by (cases "map_of i n"; cases "map_of j n") (auto simp: index_kind_def name_key_def meta_def split: option.split)
  qed
  then show "index_kind j = index_kind i" "name_key cf schema tuple j = name_key cf schema tuple i" by (simp_all add: fun_eq_iff)
qed

lemma set_tree_facts:
  assumes e: "map_of indexes n = Some e"
  shows "same_meta indexes (set_tree n e t indexes)"
    and "index_rows (set_tree n e t indexes) = (index_rows indexes)(n := art_get_all t)"
    and "trees_ok P indexes \<Longrightarrow> P t \<Longrightarrow> at_index_type t = ie_type e \<Longrightarrow> trees_ok P (set_tree n e t indexes)"
  using e by (auto simp: same_meta_def meta_def index_rows_def trees_ok_def set_tree_def update_conv' fun_eq_iff)

lemma dense_frame [simp]:
  "art_get_all (record_dense_int_insert w v t) = art_get_all t" "art_get_all (record_dense_int_delete v t) = art_get_all t"
  "at_index_type (record_dense_int_insert w v t) = at_index_type t" "at_index_type (record_dense_int_delete v t) = at_index_type t"
  "tree_wf (record_dense_int_insert w v t) = tree_wf t" "tree_wf (record_dense_int_delete v t) = tree_wf t"
  "tree_short (record_dense_int_insert w v t) = tree_short t" "tree_short (record_dense_int_delete v t) = tree_short t"
proof -
  show g: "art_get_all (record_dense_int_insert w v t) = art_get_all t" "art_get_all (record_dense_int_delete v t) = art_get_all t"
    by (rule get_all_cong, simp add: record_dense_int_insert_def record_dense_int_delete_def)+
  show "tree_wf (record_dense_int_insert w v t) = tree_wf t" "tree_wf (record_dense_int_delete v t) = tree_wf t"
    by (simp_all add: tree_wf_def g) (simp_all add: tree_ok_def record_dense_int_insert_def record_dense_int_delete_def)
qed (simp_all add: tree_short_def record_dense_int_insert_def record_dense_int_delete_def)

lemma swap_remove_value_append: "swap_remove_value r (xs @ [r]) = xs"
proof (cases "position r xs")
  case None
  then have "position r (xs @ [r]) = Some (length xs)"
    by (induction xs) (auto split: if_splits option.splits)
  then show ?thesis by (simp add: swap_remove_value_def)
next
  case (Some i)
  then have "position r (xs @ [r]) = Some i"
    by (induction xs arbitrary: i) (auto split: if_splits option.splits)
  moreover have "i < length xs" "xs ! i = r" using position_Some [OF Some] by auto
  ultimately show ?thesis by (simp add: swap_remove_value_def swap_remove_def list_update_same_conv list_update_append nth_append)
qed

lemma drop_add_row: "\<not> refused ty f k \<Longrightarrow> drop_row (Some ty) (Some k) r (add_row (Some k) r f) = f"
  by (auto simp: drop_row_def add_row_def swap_remove_value_append refused_def fun_eq_iff)

lemma refused_unique: "refused ty f k \<Longrightarrow> is_unique_type ty"
  by (auto simp: refused_def is_unique_type_def)

lemma resolve_columns_values: "resolve_columns schema tuple cols = Some r \<Longrightarrow> \<forall>(i, v) \<in> set r. v = tuple ! i"
  by (induction cols arbitrary: r) (auto split: option.splits if_splits)

lemma row_index_key_ok:
  assumes "cache_ok cf ((!) tuple) cache" "resolve_columns schema tuple cols = Some resolved"
  shows "\<exists>cache'. row_index_key cf multi cache resolved = (cache', encode_key_from_values cf (map snd resolved))
    \<and> cache_ok cf ((!) tuple) cache'"
  using encode_cached_loop_ok [OF assms(1) resolve_columns_values [OF assms(2)], of "length resolved > 1" 0 "[]"] assms(1)
  by (auto simp: row_index_key_def encode_key_cached_def encode_key_separated)

section \<open>One index at a time\<close>

text \<open>The state after the loop has handled one name, for an index that took or refused the row.\<close>

lemma name_key_Some:
  "name_key cf schema tuple indexes n = Some k \<longleftrightarrow> (\<exists>e r. map_of indexes n = Some e \<and> resolve_columns schema tuple (ie_columns e) = Some r
     \<and> \<not> key_is_null_distinct (ie_type e) (map snd r) \<and> k = encode_key_from_values cf (map snd r))"
  by (auto simp: name_key_def split: option.splits)

lemma insert_loop_skip:
  "name_key cf schema tuple indexes n = None \<Longrightarrow>
   insert_loop cf multi st row schema tuple (n # ns) indexes cache undo fe = insert_loop cf multi st row schema tuple ns indexes cache undo fe"
  by (auto simp: name_key_def split: option.splits if_splits)

definition insert_admits :: "(art_tree \<Rightarrow> bool) \<Rightarrow> (bytes \<Rightarrow> bool) \<Rightarrow> bool" where
  "insert_admits P adm \<longleftrightarrow> (\<forall>t. P t \<longrightarrow> tree_wf t) \<and> (\<forall>t w v. P t \<longrightarrow> P (record_dense_int_insert w v t))
     \<and> (\<forall>k. adm k \<longrightarrow> length k < 2 ^ 32) \<and> (\<forall>t k row. P t \<longrightarrow> adm k \<longrightarrow> P (fst (art_insert t k row)))
     \<and> (\<forall>t k row. P t \<longrightarrow> refused (at_index_type t) (art_get_all t) k \<longrightarrow> P (fst (art_insert t k row)))"

lemma admits_short: "insert_admits short_tree (\<lambda>k. length k \<le> 10)"
  using tree.ins_keeps_ok tree.ins_refused by (auto simp: insert_admits_def short_tree_def)

lemma admits_wf: "insert_admits tree_wf (\<lambda>k. length k < 2 ^ 32)"
  using tree_ins.ins_keeps_ok tree_ins.ins_refused by (auto simp: insert_admits_def)

lemma insert_loop_taken:
  assumes t: "trees_ok P indexes" and PI: "insert_admits P adm"
    and key: "name_key cf schema tuple indexes n = Some k" "adm k" and free: "\<not> refuses cf schema tuple indexes n"
    and cache: "cache_ok cf ((!) tuple) cache"
  shows "\<exists>indexes' cache' dense. insert_loop cf multi st row schema tuple (n # ns) indexes cache undo fe
      = insert_loop cf multi st row schema tuple ns indexes' cache' (if st = NotStored \<and> multi then undo @ [(n, k, dense)] else undo) fe
    \<and> cache_ok cf ((!) tuple) cache' \<and> same_meta indexes indexes' \<and> trees_ok P indexes'
    \<and> index_rows indexes' = (index_rows indexes)(n := add_row (Some k) row (index_rows indexes n))"
proof -
  from key(1) obtain e r where e: "map_of indexes n = Some e" and r: "resolve_columns schema tuple (ie_columns e) = Some r"
      and nd: "\<not> key_is_null_distinct (ie_type e) (map snd r)" and k: "k = encode_key_from_values cf (map snd r)"
    by (auto simp: name_key_Some)
  have te: "P (ie_tree e)" "at_index_type (ie_tree e) = ie_type e" using t e by (auto simp: trees_ok_def)
  have "\<not> refused (at_index_type (ie_tree e)) (art_get_all (ie_tree e)) k"
    using free key(1) e by (auto simp: refuses_def index_kind_def index_rows_def te)
  moreover have wf: "tree_wf (ie_tree e)" and len: "length k < 2 ^ 32" using PI te(1) key(2) by (auto simp: insert_admits_def)
  ultimately have free': "\<not> refused (at_index_type (ie_tree e)) (art_get_all (ie_tree e)) k" by simp
  note art = tree_ins.ins_ok [OF wf len free', of row]
  obtain cache' where c: "row_index_key cf multi cache r = (cache', k)" "cache_ok cf ((!) tuple) cache'"
    using row_index_key_ok [OF cache r, of multi] k by auto
  let ?d = "if ie_type e = PrimaryKey \<and> length (ie_columns e) = 1 then int_value_width (snd (hd r)) else None"
  obtain t1 where ai: "art_insert (ie_tree e) k row = (t1, Inr ())" using art by (metis prod.collapse)
  let ?t = "case ?d of Some (v, width) \<Rightarrow> record_dense_int_insert width v t1 | None \<Rightarrow> t1"
  have t1: "P t1" using PI te(1) key(2) unfolding insert_admits_def by (metis ai fst_conv)
  have t2: "P ?t" "at_index_type ?t = ie_type e" "art_get_all ?t = art_get_all t1"
    using t1 PI [unfolded insert_admits_def] insert_kind [of "ie_tree e" k row] te(2) by (auto simp: ai split: option.split)
  have loop: "insert_loop cf multi st row schema tuple (n # ns) indexes cache undo fe
      = insert_loop cf multi st row schema tuple ns (set_tree n e ?t indexes) cache'
          (if st = NotStored \<and> multi then undo @ [(n, k, map_option fst ?d)] else undo) fe"
    using e r nd c(1) ai by (simp add: Let_def)
  have rows: "index_rows (set_tree n e ?t indexes) = (index_rows indexes)(n := add_row (Some k) row (index_rows indexes n))"
    unfolding set_tree_facts(2) [OF e] t2(3) using art e by (simp add: add_row_def index_rows_def ai)
  show ?thesis
    using loop c(2) set_tree_facts(1) [OF e] set_tree_facts(3) [OF e t t2(1,2)] rows by blast
qed

lemma insert_loop_refused:
  assumes t: "trees_ok P indexes" and PI: "insert_admits P adm"
    and refuse: "refuses cf schema tuple indexes n" and cache: "cache_ok cf ((!) tuple) cache"
  shows "\<exists>indexes' cache' e f. insert_loop cf multi st row schema tuple (n # ns) indexes cache undo fe
      = (case st of NotStored \<Rightarrow> (undo_row_index_entries undo row indexes', Inl e)
         | Stored \<Rightarrow> insert_loop cf multi st row schema tuple ns indexes' cache' undo (Some f))
    \<and> cache_ok cf ((!) tuple) cache' \<and> same_meta indexes indexes' \<and> trees_ok P indexes' \<and> index_rows indexes' = index_rows indexes"
proof -
  from refuse obtain ty k where rk: "index_kind indexes n = Some ty" "name_key cf schema tuple indexes n = Some k"
      "refused ty (index_rows indexes n) k" by (auto simp: refuses_def)
  then obtain en r where e: "map_of indexes n = Some en" and r: "resolve_columns schema tuple (ie_columns en) = Some r"
      and nd: "\<not> key_is_null_distinct (ie_type en) (map snd r)" and k: "k = encode_key_from_values cf (map snd r)"
    by (auto simp: name_key_Some)
  have te: "P (ie_tree en)" "at_index_type (ie_tree en) = ie_type en" using t e by (auto simp: trees_ok_def)
  have ref: "refused (at_index_type (ie_tree en)) (art_get_all (ie_tree en)) k"
    using rk e by (auto simp: index_kind_def index_rows_def te)
  have wf: "tree_wf (ie_tree en)" and ins: "P (fst (art_insert (ie_tree en) k row))"
    using PI te(1) ref by (auto simp: insert_admits_def)
  note art = tree_ins.ins_refused [OF wf ref, of row]
  then obtain t1 err where ai: "art_insert (ie_tree en) k row = (t1, Inl err)" by (metis prod.collapse)
  have uniq: "is_unique_type (ie_type en)" using refused_unique [OF ref] te by simp
  obtain cache' where c: "row_index_key cf multi cache r = (cache', k)" "cache_ok cf ((!) tuple) cache'"
    using row_index_key_ok [OF cache r, of multi] k by auto
  let ?i = "set_tree n en t1 indexes"
  have "index_rows ?i = index_rows indexes" unfolding set_tree_facts(2) [OF e] using art e by (auto simp: index_rows_def ai)
  moreover have "trees_ok P ?i"
    using set_tree_facts(3) [OF e t ins] insert_kind [of "ie_tree en" k row] te(2) by (simp add: ai)
  moreover have "insert_loop cf multi st row schema tuple (n # ns) indexes cache undo fe
      = (case st of NotStored \<Rightarrow> (undo_row_index_entries undo row ?i, Inl (rejected_duplicate_error (violation_name en n) (ie_type en) err))
         | Stored \<Rightarrow> insert_loop cf multi st row schema tuple ns ?i cache' undo
            (Some (case fe of Some f \<Rightarrow> f | None \<Rightarrow> stored_duplicate_error (violation_name en n) row err)))"
    using e r nd c(1) uniq ai by (cases st) (simp_all add: Let_def split: option.split)
  ultimately show ?thesis using c(2) set_tree_facts(1) [OF e] by blast
qed

lemma refuses_cong:
  "same_meta indexes indexes' \<Longrightarrow> index_rows indexes' n = index_rows indexes n \<Longrightarrow>
   refuses cf schema tuple indexes' n = refuses cf schema tuple indexes n"
  using same_meta_facts [of indexes indexes'] by (simp add: refuses_def)

lemma undo_entry_rows:
  assumes t: "trees_ok short_tree indexes"
  shows "trees_ok short_tree (undo_entry row (n, k, d) indexes) \<and> same_meta indexes (undo_entry row (n, k, d) indexes)
    \<and> index_rows (undo_entry row (n, k, d) indexes)
      = (index_rows indexes)(n := drop_row (index_kind indexes n) (Some k) row (index_rows indexes n))"
proof (cases "map_of indexes n")
  case None
  then show ?thesis using t by (auto simp: undo_entry_def drop_row_def index_kind_def)
next
  case (Some e)
  have te: "short_tree (ie_tree e)" "at_index_type (ie_tree e) = ie_type e" using t Some by (auto simp: trees_ok_def)
  have rows: "index_rows indexes n = art_get_all (ie_tree e)" and kind: "index_kind indexes n = Some (ie_type e)"
    using Some by (simp_all add: index_rows_def index_kind_def)
  show ?thesis
  proof (cases "is_unique_type (ie_type e)")
    case True
    obtain t1 where t1: "art_remove (ie_tree e) k = (t1, Inr (first_of (art_get_all (ie_tree e) k)))" "short_tree t1"
        "art_get_all t1 = (art_get_all (ie_tree e))(k := [])" "at_index_type t1 = ie_type e"
      using tree.rem_ok [OF te(1), of k] tree.rem_kind(1) [OF te(1), of k] te(2) by (metis prod.collapse)
    let ?t = "case first_of (art_get_all (ie_tree e) k) of None \<Rightarrow> t1
      | Some _ \<Rightarrow> (case d of Some v \<Rightarrow> record_dense_int_delete v t1 | None \<Rightarrow> t1)"
    have t2: "short_tree ?t" "at_index_type ?t = ie_type e" "art_get_all ?t = art_get_all t1"
      using t1 by (auto simp: short_tree_def split: option.split)
    have "undo_entry row (n, k, d) indexes = set_tree n e ?t indexes"
      using Some True t1(1) by (simp add: undo_entry_def split: option.split)
    then show ?thesis
      using set_tree_facts(1) [OF Some] set_tree_facts(3) [OF Some t t2(1,2)] set_tree_facts(2) [OF Some, of ?t] t2(3) t1(3) True rows kind
      by (simp add: drop_row_def)
  next
    case False
    let ?t = "fst (art_remove_value (ie_tree e) k row)"
    note rv = tree.remv_ok [OF te(1), of k row] tree.rem_kind(2) [OF te(1), of k row]
    have "undo_entry row (n, k, d) indexes = set_tree n e ?t indexes" using Some False by (simp add: undo_entry_def)
    then show ?thesis
      using set_tree_facts(1) [OF Some] set_tree_facts(3) [OF Some t, of ?t] set_tree_facts(2) [OF Some, of ?t] rv te(2) False rows kind
      by (simp add: drop_row_def)
  qed
qed

definition drop_logged :: "(string \<Rightarrow> art_index_type option) \<Rightarrow> row_id \<Rightarrow> string \<times> bytes \<times> int option \<Rightarrow> row_maps \<Rightarrow> row_maps" where
  "drop_logged kind row u R = (case u of (n, k, _) \<Rightarrow> R(n := drop_row (kind n) (Some k) row (R n)))"

lemma drop_logged_entry: "drop_logged kind row (n, k, d) R = R(n := drop_row (kind n) (Some k) row (R n))"
  by (simp add: drop_logged_def)

lemma undo_rows:
  assumes "trees_ok short_tree indexes"
  shows "trees_ok short_tree (undo_row_index_entries undo row indexes) \<and> same_meta indexes (undo_row_index_entries undo row indexes)
    \<and> index_rows (undo_row_index_entries undo row indexes) = fold (drop_logged (index_kind indexes) row) (rev undo) (index_rows indexes)"
proof -
  have "trees_ok short_tree (fold (undo_entry row) us indexes) \<and> same_meta indexes (fold (undo_entry row) us indexes)
    \<and> index_rows (fold (undo_entry row) us indexes) = fold (drop_logged (index_kind indexes) row) us (index_rows indexes)" for us
    using assms
  proof (induction us arbitrary: indexes)
    case (Cons u us)
    obtain n k d where u: "u = (n, k, d)" by (metis prod_cases3)
    note one = undo_entry_rows [OF Cons.prems, of row n k d, folded u]
    have kind: "index_kind (undo_entry row u indexes) = index_kind indexes" using one same_meta_facts(1) by blast
    have rows: "index_rows (undo_entry row u indexes) = drop_logged (index_kind indexes) row u (index_rows indexes)"
      using one by (simp add: u drop_logged_entry)
    have ih: "trees_ok short_tree (fold (undo_entry row) us (undo_entry row u indexes))"
        "same_meta (undo_entry row u indexes) (fold (undo_entry row) us (undo_entry row u indexes))"
        "index_rows (fold (undo_entry row) us (undo_entry row u indexes))
          = fold (drop_logged (index_kind indexes) row) us (drop_logged (index_kind indexes) row u (index_rows indexes))"
      using Cons.IH [of "undo_entry row u indexes"] one unfolding kind rows by blast+
    have "same_meta indexes (fold (undo_entry row) us (undo_entry row u indexes))"
      using one ih(2) same_meta_trans by blast
    with ih show ?case by simp
  qed simp
  then show ?thesis by (simp add: undo_row_index_entries_def)
qed

abbreviation short_keys :: "chrono_fmt \<Rightarrow> schema \<Rightarrow> tuple \<Rightarrow> index_map \<Rightarrow> string list \<Rightarrow> bool" where
  "short_keys cf schema tuple indexes names \<equiv>
     \<forall>n \<in> set names. \<forall>k. name_key cf schema tuple indexes n = Some k \<longrightarrow> length k \<le> 10"

definition claimed_rows :: "chrono_fmt \<Rightarrow> schema \<Rightarrow> tuple \<Rightarrow> row_id \<Rightarrow> index_map \<Rightarrow> string list \<Rightarrow> row_maps" where
  "claimed_rows cf schema tuple row indexes names n = (if n \<in> set names
     then add_row (name_key cf schema tuple indexes n) row (index_rows indexes n) else index_rows indexes n)"

lemma claim_loop:
  assumes "trees_ok short_tree indexes" "distinct names" "short_keys cf schema tuple indexes names" "cache_ok cf ((!) tuple) cache"
    and "multi \<Longrightarrow> fold (drop_logged (index_kind indexes) row) (rev undo) (index_rows indexes) = R0"
    and "\<not> multi \<Longrightarrow> undo = [] \<and> length names \<le> 1 \<and> (names \<noteq> [] \<longrightarrow> index_rows indexes = R0)"
  shows "case insert_loop cf multi NotStored row schema tuple names indexes cache undo None of (indexes', res) \<Rightarrow>
      same_meta indexes indexes' \<and> trees_ok short_tree indexes'
      \<and> ((\<exists>n \<in> set names. refuses cf schema tuple indexes n) \<longrightarrow> (\<exists>e. res = Inl e) \<and> index_rows indexes' = R0)
      \<and> ((\<forall>n \<in> set names. \<not> refuses cf schema tuple indexes n) \<longrightarrow> res = Inr () \<and> index_rows indexes' = claimed_rows cf schema tuple row indexes names)"
  using assms
proof (induction names arbitrary: indexes cache undo)
  case Nil
  then show ?case by (simp add: claimed_rows_def fun_eq_iff)
next
  case (Cons n ns)
  have tail: "short_keys cf schema tuple indexes ns" "distinct ns" "n \<notin> set ns" using Cons.prems by auto
  show ?case
  proof (cases "refuses cf schema tuple indexes n")
    case True
    obtain indexes' e where i: "insert_loop cf multi NotStored row schema tuple (n # ns) indexes cache undo None
        = (undo_row_index_entries undo row indexes', Inl e)" "same_meta indexes indexes'" "trees_ok short_tree indexes'"
        "index_rows indexes' = index_rows indexes"
      using insert_loop_refused [OF Cons.prems(1) admits_short True Cons.prems(4), of multi NotStored row ns undo None]
      unfolding row_state.case by blast
    have "index_rows (undo_row_index_entries undo row indexes') = R0"
      using undo_rows [OF i(3), of undo row] i(4) same_meta_facts(1) [OF i(2)] Cons.prems(5,6) by (cases multi) auto
    then show ?thesis using i undo_rows [OF i(3), of undo row] True same_meta_trans [OF i(2)] by auto
  next
    case False
    show ?thesis
    proof (cases "name_key cf schema tuple indexes n")
      case None
      have "index_rows indexes = R0" if "\<not> multi" "ns \<noteq> []" using that Cons.prems(6) by simp
      then have ih: "case insert_loop cf multi NotStored row schema tuple ns indexes cache undo None of (indexes', res) \<Rightarrow>
        same_meta indexes indexes' \<and> trees_ok short_tree indexes'
        \<and> ((\<exists>n \<in> set ns. refuses cf schema tuple indexes n) \<longrightarrow> (\<exists>e. res = Inl e) \<and> index_rows indexes' = R0)
        \<and> ((\<forall>n \<in> set ns. \<not> refuses cf schema tuple indexes n) \<longrightarrow> res = Inr () \<and> index_rows indexes' = claimed_rows cf schema tuple row indexes ns)"
        using Cons.prems tail by (intro Cons.IH) auto
      have "claimed_rows cf schema tuple row indexes (n # ns) = claimed_rows cf schema tuple row indexes ns"
        using None by (auto simp: claimed_rows_def add_row_def fun_eq_iff)
      then show ?thesis using ih False insert_loop_skip [OF None] by (simp add: case_prod_unfold)
    next
      case (Some k)
      have k: "length k \<le> 10" using Cons.prems(3) Some by simp
      obtain indexes' cache' d where i: "insert_loop cf multi NotStored row schema tuple (n # ns) indexes cache undo None
          = insert_loop cf multi NotStored row schema tuple ns indexes' cache' (if multi then undo @ [(n, k, d)] else undo) None"
          "cache_ok cf ((!) tuple) cache'" "same_meta indexes indexes'" "trees_ok short_tree indexes'"
          "index_rows indexes' = (index_rows indexes)(n := add_row (Some k) row (index_rows indexes n))"
        using insert_loop_taken [OF Cons.prems(1) admits_short Some k False Cons.prems(4), of multi NotStored row ns undo None]
        by (simp only: simp_thms) blast
      note meta = same_meta_facts [OF i(3)]
      have ty: "\<exists>ty. index_kind indexes n = Some ty \<and> \<not> refused ty (index_rows indexes n) k"
        using False Some by (auto simp: refuses_def name_key_Some index_kind_def)
      have undone: "fold (drop_logged (index_kind indexes') row) (rev (undo @ [(n, k, d)])) (index_rows indexes') = R0" if "multi"
        using Cons.prems(5) [OF that] ty by (auto simp: meta i(5) drop_logged_entry drop_add_row)
      have keep: "index_rows indexes' m = index_rows indexes m" if "m \<in> set ns" for m using that tail(3) by (auto simp: i(5))
      have ref: "refuses cf schema tuple indexes' m = refuses cf schema tuple indexes m" if "m \<in> set ns" for m
        using refuses_cong [OF i(3) keep [OF that]] .
      have "case insert_loop cf multi NotStored row schema tuple ns indexes' cache' (if multi then undo @ [(n, k, d)] else undo) None of (indexes'', res) \<Rightarrow>
        same_meta indexes' indexes'' \<and> trees_ok short_tree indexes''
        \<and> ((\<exists>n \<in> set ns. refuses cf schema tuple indexes' n) \<longrightarrow> (\<exists>e. res = Inl e) \<and> index_rows indexes'' = R0)
        \<and> ((\<forall>n \<in> set ns. \<not> refuses cf schema tuple indexes' n) \<longrightarrow> res = Inr () \<and> index_rows indexes'' = claimed_rows cf schema tuple row indexes' ns)"
        using i(2,4) tail undone Cons.prems(6) by (intro Cons.IH) (auto simp: meta)
      moreover have "claimed_rows cf schema tuple row indexes' ns = claimed_rows cf schema tuple row indexes (n # ns)"
        using tail(3) Some by (auto simp: claimed_rows_def meta i(5) fun_eq_iff)
      ultimately show ?thesis using False ref i(1) same_meta_trans [OF i(3)] by (auto simp: case_prod_unfold)
    qed
  qed
qed

definition stored_rows :: "chrono_fmt \<Rightarrow> schema \<Rightarrow> tuple \<Rightarrow> row_id \<Rightarrow> index_map \<Rightarrow> string list \<Rightarrow> row_maps" where
  "stored_rows cf schema tuple row indexes names n = (if n \<in> set names \<and> \<not> refuses cf schema tuple indexes n
     then add_row (name_key cf schema tuple indexes n) row (index_rows indexes n) else index_rows indexes n)"

lemma stored_loop:
  assumes adm: "insert_admits P adm" and "trees_ok P indexes" "distinct names" "cache_ok cf ((!) tuple) cache"
    and "\<forall>n \<in> set names. \<forall>k. name_key cf schema tuple indexes n = Some k \<longrightarrow> adm k"
  shows "case insert_loop cf multi Stored row schema tuple names indexes cache undo fe of (indexes', res) \<Rightarrow>
      same_meta indexes indexes' \<and> trees_ok P indexes'
      \<and> (res = Inr () \<longleftrightarrow> fe = None \<and> (\<forall>n \<in> set names. \<not> refuses cf schema tuple indexes n))
      \<and> index_rows indexes' = stored_rows cf schema tuple row indexes names"
  using assms(2-)
proof (induction names arbitrary: indexes cache undo fe)
  case Nil
  then show ?case by (auto simp: stored_rows_def fun_eq_iff split: option.split)
next
  case (Cons n ns)
  have tail: "distinct ns" "n \<notin> set ns" using Cons.prems by auto
  have step: ?case
    if loop: "insert_loop cf multi Stored row schema tuple (n # ns) indexes cache undo fe
        = insert_loop cf multi Stored row schema tuple ns indexes1 cache1 undo1 fe1"
      and c1: "cache_ok cf ((!) tuple) cache1" and m1: "same_meta indexes indexes1" and t1: "trees_ok P indexes1"
      and r1: "index_rows indexes1 = (index_rows indexes)(n := stored_rows cf schema tuple row indexes (n # ns) n)"
      and f1: "fe1 = None \<longleftrightarrow> fe = None \<and> \<not> refuses cf schema tuple indexes n" for indexes1 cache1 undo1 fe1
  proof -
    note meta = same_meta_facts [OF m1]
    have ref: "refuses cf schema tuple indexes1 m = refuses cf schema tuple indexes m" if "m \<in> set ns" for m
      using that tail(2) by (intro refuses_cong [OF m1]) (auto simp: r1)
    have "case insert_loop cf multi Stored row schema tuple ns indexes1 cache1 undo1 fe1 of (indexes', res) \<Rightarrow>
      same_meta indexes1 indexes' \<and> trees_ok P indexes'
      \<and> (res = Inr () \<longleftrightarrow> fe1 = None \<and> (\<forall>n \<in> set ns. \<not> refuses cf schema tuple indexes1 n))
      \<and> index_rows indexes' = stored_rows cf schema tuple row indexes1 ns"
      using Cons.prems(4) by (intro Cons.IH [OF t1 tail(1) c1]) (simp add: meta)
    moreover have "stored_rows cf schema tuple row indexes1 ns = stored_rows cf schema tuple row indexes (n # ns)"
      using tail(2) ref by (auto simp: stored_rows_def meta r1 fun_eq_iff)
    ultimately show ?thesis using ref f1 same_meta_trans [OF m1] unfolding loop by (auto simp: case_prod_unfold)
  qed
  show ?case
  proof (cases "refuses cf schema tuple indexes n")
    case True
    have "\<exists>indexes' cache' f. insert_loop cf multi Stored row schema tuple (n # ns) indexes cache undo fe
        = insert_loop cf multi Stored row schema tuple ns indexes' cache' undo (Some f)
        \<and> cache_ok cf ((!) tuple) cache' \<and> same_meta indexes indexes' \<and> trees_ok P indexes' \<and> index_rows indexes' = index_rows indexes"
      using insert_loop_refused [OF Cons.prems(1) adm True Cons.prems(3), of multi Stored row ns undo fe]
      unfolding row_state.case by blast
    then obtain indexes' cache' f where i: "insert_loop cf multi Stored row schema tuple (n # ns) indexes cache undo fe
        = insert_loop cf multi Stored row schema tuple ns indexes' cache' undo (Some f)"
        "cache_ok cf ((!) tuple) cache'" "same_meta indexes indexes'" "trees_ok P indexes'" "index_rows indexes' = index_rows indexes"
      by blast
    show ?thesis by (rule step [OF i(1-4)]) (use True i(5) in \<open>auto simp: stored_rows_def fun_eq_iff\<close>)
  next
    case False
    show ?thesis
    proof (cases "name_key cf schema tuple indexes n")
      case None
      show ?thesis
        by (rule step [OF insert_loop_skip [OF None] Cons.prems(3) same_meta_refl Cons.prems(1)])
          (use False None in \<open>auto simp: stored_rows_def add_row_def fun_eq_iff\<close>)
    next
      case (Some k)
      have k: "adm k" using Cons.prems(4) Some by simp
      obtain indexes' cache' where i: "insert_loop cf multi Stored row schema tuple (n # ns) indexes cache undo fe
          = insert_loop cf multi Stored row schema tuple ns indexes' cache' undo fe"
          "cache_ok cf ((!) tuple) cache'" "same_meta indexes indexes'" "trees_ok P indexes'"
          "index_rows indexes' = (index_rows indexes)(n := add_row (Some k) row (index_rows indexes n))"
        using insert_loop_taken [OF Cons.prems(1) adm Some k False Cons.prems(3), of multi Stored row ns undo fe]
        by (simp only: row_state.distinct simp_thms if_False) blast
      show ?thesis by (rule step [OF i(1-4)]) (use False Some i(5) in \<open>auto simp: stored_rows_def fun_eq_iff\<close>)
    qed
  qed
qed

definition deleted_rows :: "chrono_fmt \<Rightarrow> schema \<Rightarrow> tuple \<Rightarrow> row_id \<Rightarrow> index_map \<Rightarrow> string list \<Rightarrow> row_maps" where
  "deleted_rows cf schema tuple row indexes names n = (if n \<in> set names
     then drop_row (index_kind indexes n) (name_key cf schema tuple indexes n) row (index_rows indexes n) else index_rows indexes n)"

lemma delete_loop_skip:
  "name_key cf schema tuple indexes n = None \<Longrightarrow>
   delete_loop cf multi row schema tuple (n # ns) indexes cache fe = delete_loop cf multi row schema tuple ns indexes cache fe"
  by (auto simp: name_key_def split: option.splits if_splits)

lemma delete_loop_step:
  assumes t: "trees_ok short_tree indexes" and key: "name_key cf schema tuple indexes n = Some k" and cache: "cache_ok cf ((!) tuple) cache"
  shows "\<exists>indexes' cache'. delete_loop cf multi row schema tuple (n # ns) indexes cache fe = delete_loop cf multi row schema tuple ns indexes' cache' fe
    \<and> cache_ok cf ((!) tuple) cache' \<and> same_meta indexes indexes' \<and> trees_ok short_tree indexes'
    \<and> index_rows indexes' = (index_rows indexes)(n := drop_row (index_kind indexes n) (Some k) row (index_rows indexes n))"
proof -
  from key obtain e r where e: "map_of indexes n = Some e" and r: "resolve_columns schema tuple (ie_columns e) = Some r"
      and nd: "\<not> key_is_null_distinct (ie_type e) (map snd r)" and k: "k = encode_key_from_values cf (map snd r)"
    by (auto simp: name_key_Some)
  have te: "short_tree (ie_tree e)" "at_index_type (ie_tree e) = ie_type e" using t e by (auto simp: trees_ok_def)
  have rows: "index_rows indexes n = art_get_all (ie_tree e)" and kind: "index_kind indexes n = Some (ie_type e)"
    using e by (simp_all add: index_rows_def index_kind_def)
  obtain cache' where c: "row_index_key cf multi cache r = (cache', k)" "cache_ok cf ((!) tuple) cache'"
    using row_index_key_ok [OF cache r, of multi] k by auto
  show ?thesis
  proof (cases "is_unique_type (ie_type e)")
    case True
    obtain t1 where t1: "art_remove (ie_tree e) k = (t1, Inr (first_of (art_get_all (ie_tree e) k)))" "short_tree t1"
        "art_get_all t1 = (art_get_all (ie_tree e))(k := [])" "at_index_type t1 = ie_type e"
      using tree.rem_ok [OF te(1), of k] tree.rem_kind(1) [OF te(1), of k] te(2) by (metis prod.collapse)
    let ?t = "if first_of (art_get_all (ie_tree e) k) \<noteq> None \<and> ie_type e = PrimaryKey \<and> length (ie_columns e) = 1
        then (case int_value_width (snd (hd r)) of Some (v, _) \<Rightarrow> record_dense_int_delete v t1 | None \<Rightarrow> t1) else t1"
    have t2: "short_tree ?t" "at_index_type ?t = ie_type e" "art_get_all ?t = art_get_all t1"
      using t1 by (auto simp: short_tree_def split: option.split)
    have "delete_loop cf multi row schema tuple (n # ns) indexes cache fe
        = delete_loop cf multi row schema tuple ns (set_tree n e ?t indexes) cache' fe"
      using e r nd c(1) True t1(1) by (simp add: Let_def)
    moreover have "index_rows (set_tree n e ?t indexes) = (index_rows indexes)(n := drop_row (index_kind indexes n) (Some k) row (index_rows indexes n))"
      unfolding set_tree_facts(2) [OF e] t2(3) t1(3) rows kind using True by (simp add: drop_row_def)
    ultimately show ?thesis using c(2) set_tree_facts(1) [OF e] set_tree_facts(3) [OF e t t2(1,2)] by blast
  next
    case False
    let ?t = "fst (art_remove_value (ie_tree e) k row)"
    have rv: "short_tree ?t" "at_index_type ?t = ie_type e" "art_get_all ?t = (art_get_all (ie_tree e))(k := swap_remove_value row (art_get_all (ie_tree e) k))"
      using tree.remv_ok [OF te(1), of k row] tree.rem_kind(2) [OF te(1), of k row] te(2) by auto
    have "delete_loop cf multi row schema tuple (n # ns) indexes cache fe
        = delete_loop cf multi row schema tuple ns (set_tree n e ?t indexes) cache' fe"
      using e r nd c(1) False by (simp add: Let_def)
    moreover have "index_rows (set_tree n e ?t indexes) = (index_rows indexes)(n := drop_row (index_kind indexes n) (Some k) row (index_rows indexes n))"
      unfolding set_tree_facts(2) [OF e] rv(3) rows kind using False by (simp add: drop_row_def)
    ultimately show ?thesis using c(2) set_tree_facts(1) [OF e] set_tree_facts(3) [OF e t rv(1,2)] by blast
  qed
qed

lemma delete_loop_rows:
  assumes "trees_ok short_tree indexes" "distinct names" "cache_ok cf ((!) tuple) cache"
  shows "case delete_loop cf multi row schema tuple names indexes cache None of (indexes', res) \<Rightarrow>
      same_meta indexes indexes' \<and> trees_ok short_tree indexes' \<and> res = Inr ()
      \<and> index_rows indexes' = deleted_rows cf schema tuple row indexes names"
  using assms
proof (induction names arbitrary: indexes cache)
  case Nil
  then show ?case by (auto simp: deleted_rows_def fun_eq_iff)
next
  case (Cons n ns)
  have tail: "distinct ns" "n \<notin> set ns" using Cons.prems by auto
  have "\<exists>indexes' cache'. delete_loop cf multi row schema tuple (n # ns) indexes cache None = delete_loop cf multi row schema tuple ns indexes' cache' None
    \<and> cache_ok cf ((!) tuple) cache' \<and> same_meta indexes indexes' \<and> trees_ok short_tree indexes'
    \<and> index_rows indexes' = (index_rows indexes)(n := drop_row (index_kind indexes n) (name_key cf schema tuple indexes n) row (index_rows indexes n))"
  proof (cases "name_key cf schema tuple indexes n")
    case None
    have "(index_rows indexes)(n := drop_row (index_kind indexes n) None row (index_rows indexes n)) = index_rows indexes"
      by (auto simp: drop_row_def split: option.split)
    then show ?thesis using delete_loop_skip [OF None] Cons.prems None same_meta_refl by metis
  next
    case (Some k)
    then show ?thesis using delete_loop_step [OF Cons.prems(1) Some Cons.prems(3), of multi row ns None] by metis
  qed
  then obtain indexes' cache' where i: "delete_loop cf multi row schema tuple (n # ns) indexes cache None = delete_loop cf multi row schema tuple ns indexes' cache' None"
      "cache_ok cf ((!) tuple) cache'" "same_meta indexes indexes'" "trees_ok short_tree indexes'"
      "index_rows indexes' = (index_rows indexes)(n := drop_row (index_kind indexes n) (name_key cf schema tuple indexes n) row (index_rows indexes n))"
    by blast
  have "deleted_rows cf schema tuple row indexes' ns = deleted_rows cf schema tuple row indexes (n # ns)"
    using tail(2) same_meta_facts [OF i(3)] by (auto simp: deleted_rows_def i(5) fun_eq_iff)
  then show ?case
    using Cons.IH [OF i(4) tail(1) i(2)] same_meta_trans [OF i(3)] unfolding i(1) by (auto simp: case_prod_unfold)
qed

section \<open>The manager\<close>

abbreviation manager_rows :: "art_manager \<Rightarrow> row_maps" where
  "manager_rows m \<equiv> index_rows (am_indexes m)"

abbreviation table_names :: "art_manager \<Rightarrow> string \<Rightarrow> string list" where
  "table_names m t \<equiv> names_of (am_table_indexes m) t"

text \<open>Every tree is well-formed with short prefixes, and no list names an index twice.\<close>

definition rows_ready :: "art_manager \<Rightarrow> bool" where
  "rows_ready m \<longleftrightarrow> trees_ok short_tree (am_indexes m) \<and> (\<forall>t. distinct (table_names m t))"

lemma maintain_row_eq:
  "maintain_row cf st t row schema tuple m = (m', res) \<Longrightarrow>
     insert_row_indexes cf (table_names m t) row schema tuple st (am_indexes m) = (am_indexes m', res)
     \<and> am_table_indexes m' = am_table_indexes m \<and> am_pk m' = am_pk m \<and> am_unique m' = am_unique m"
proof -
  have nil: "insert_row_indexes cf [] row schema tuple st i = (i, Inr ())" for i by (simp add: insert_row_indexes_def)
  show "maintain_row cf st t row schema tuple m = (m', res) \<Longrightarrow> ?thesis"
    by (auto simp: maintain_row_def names_of_def Let_def nil split: option.splits list.splits prod.splits)
qed

lemma on_delete_eq:
  "on_delete_tuple cf t row schema tuple m = (m', res) \<Longrightarrow>
     delete_loop cf (length (table_names m t) > 1) row schema tuple (table_names m t) (am_indexes m) [] None = (am_indexes m', res)
     \<and> am_table_indexes m' = am_table_indexes m"
  by (auto simp: on_delete_tuple_def names_of_def Let_def simp del: delete_loop.simps(2) split: option.splits list.splits prod.splits)

lemma cache_ok_Nil [simp]: "cache_ok cf row []"
  by (simp add: cache_ok_def)

lemma reserve_spec:
  assumes "rows_ready m" "short_keys cf schema tuple (am_indexes m) (table_names m t)"
    and "reserve_insert_tuple cf t row schema tuple m = (m', res)"
  shows "rows_ready m' \<and> same_meta (am_indexes m) (am_indexes m') \<and> am_table_indexes m' = am_table_indexes m
    \<and> ((\<exists>n \<in> set (table_names m t). refuses cf schema tuple (am_indexes m) n) \<longrightarrow> (\<exists>e. res = Inl e) \<and> manager_rows m' = manager_rows m)
    \<and> ((\<forall>n \<in> set (table_names m t). \<not> refuses cf schema tuple (am_indexes m) n) \<longrightarrow>
        res = Inr () \<and> manager_rows m' = claimed_rows cf schema tuple row (am_indexes m) (table_names m t))"
proof -
  have ready: "trees_ok short_tree (am_indexes m)" "distinct (table_names m t)" using assms(1) by (auto simp: rows_ready_def)
  note eq = maintain_row_eq [OF assms(3) [unfolded reserve_insert_tuple_def], unfolded insert_row_indexes_def]
  have "case insert_loop cf (length (table_names m t) > 1) NotStored row schema tuple (table_names m t) (am_indexes m) [] [] None of (indexes', res) \<Rightarrow>
      same_meta (am_indexes m) indexes' \<and> trees_ok short_tree indexes'
      \<and> ((\<exists>n \<in> set (table_names m t). refuses cf schema tuple (am_indexes m) n) \<longrightarrow> (\<exists>e. res = Inl e) \<and> index_rows indexes' = manager_rows m)
      \<and> ((\<forall>n \<in> set (table_names m t). \<not> refuses cf schema tuple (am_indexes m) n) \<longrightarrow>
          res = Inr () \<and> index_rows indexes' = claimed_rows cf schema tuple row (am_indexes m) (table_names m t))"
    by (rule claim_loop [OF ready assms(2)]) auto
  then show ?thesis using eq assms(1) by (auto simp: rows_ready_def)
qed

lemma delete_spec:
  assumes "rows_ready m" "on_delete_tuple cf t row schema tuple m = (m', res)"
  shows "rows_ready m' \<and> same_meta (am_indexes m) (am_indexes m') \<and> res = Inr ()
    \<and> manager_rows m' = deleted_rows cf schema tuple row (am_indexes m) (table_names m t)"
  using delete_loop_rows [where indexes = "am_indexes m" and names = "table_names m t" and cf = cf and tuple = tuple and cache = "[]"
      and multi = "length (table_names m t) > 1" and row = row and schema = schema]
    on_delete_eq [OF assms(2)] assms(1) by (auto simp: rows_ready_def)

lemma stored_spec:
  assumes "trees_ok tree_wf (am_indexes m)" "distinct (table_names m t)"
    and "\<forall>n \<in> set (table_names m t). \<forall>k. name_key cf schema tuple (am_indexes m) n = Some k \<longrightarrow> length k < 2 ^ 32"
    and "on_insert_tuple cf t row schema tuple m = (m', res)"
  shows "trees_ok tree_wf (am_indexes m') \<and> (res = Inr () \<longleftrightarrow> (\<forall>n \<in> set (table_names m t). \<not> refuses cf schema tuple (am_indexes m) n))
    \<and> manager_rows m' = stored_rows cf schema tuple row (am_indexes m) (table_names m t)"
  using stored_loop [OF admits_wf assms(1,2) cache_ok_Nil assms(3),
      where multi = "length (table_names m t) > 1" and row = row and undo = "[]" and fe = None]
    maintain_row_eq [OF assms(4) [unfolded on_insert_tuple_def], unfolded insert_row_indexes_def] by auto

text \<open>The uniqueness check against the claim.\<close>

lemma probe_None:
  assumes e: "map_of indexes n = Some e" and u: "is_unique_type (ie_type e)"
  shows "probe_tuple cf schema tuple indexes kind n = None
    \<longleftrightarrow> (\<forall>k. name_key cf schema tuple indexes n = Some k \<longrightarrow> index_rows indexes n k = [])"
  using e u
  by (auto simp: probe_tuple_def name_key_def index_value_refs_from_tuple_def index_rows_def key_is_null_distinct_def is_unique_type_def
      art_contains_rows split: option.splits)

lemma first_violation_None: "first_violation probe ns = None \<longleftrightarrow> (\<forall>n \<in> set ns. probe n = None)"
  by (induction ns) (auto split: option.split)

lemma registry_kind:
  assumes "registry_ok m" "n \<in> set (table_names m t)"
  shows "\<exists>e. map_of (am_indexes m) n = Some e \<and> ie_table e = t
    \<and> (ie_type e = PrimaryKey \<longleftrightarrow> map_of (am_pk m) t = Some n) \<and> (ie_type e = Unique \<longleftrightarrow> n \<in> set (names_of (am_unique m) t))"
proof -
  obtain ty where "owned m ty t n" using assms by (auto simp: registry_ok_def lists_names_def)
  then obtain e where e: "map_of (am_indexes m) n = Some e" "ie_table e = t" by (auto simp: owned_def)
  moreover have "owned m ty t n \<longleftrightarrow> ie_type e = ty" for ty using e by (auto simp: owned_def)
  moreover have "map_of (am_pk m) t = Some n \<longleftrightarrow> owned m PrimaryKey t n" "n \<in> set (names_of (am_unique m) t) \<longleftrightarrow> owned m Unique t n"
    using assms(1) unfolding registry_ok_def lists_names_def by blast+
  ultimately show ?thesis by blast
qed

lemma registry_listed:
  assumes "registry_ok m"
  shows "map_of (am_pk m) t = Some n \<Longrightarrow> n \<in> set (table_names m t)" "n \<in> set (names_of (am_unique m) t) \<Longrightarrow> n \<in> set (table_names m t)"
  using assms unfolding registry_ok_def lists_names_def by blast+

lemma check_ok_iff:
  assumes ok: "registry_ok m"
  shows "snd (check_unique_constraints_tuple cf t schema tuple m) = Inr () \<longleftrightarrow>
    (\<forall>n \<in> set (table_names m t). \<forall>ty k. index_kind (am_indexes m) n = Some ty \<longrightarrow> is_unique_type ty \<longrightarrow>
       name_key cf schema tuple (am_indexes m) n = Some k \<longrightarrow> manager_rows m n k = [])"
    (is "?check \<longleftrightarrow> (\<forall>n \<in> _. ?free n)")
proof -
  have probe: "probe_tuple cf schema tuple (am_indexes m) kind n = None \<longleftrightarrow> ?free n"
    if "map_of (am_pk m) t = Some n \<or> n \<in> set (names_of (am_unique m) t)" for n kind
  proof -
    have "n \<in> set (table_names m t)" using that registry_listed [OF ok] by blast
    from registry_kind [OF ok this] that obtain e where e: "map_of (am_indexes m) n = Some e" "ie_type e = PrimaryKey \<or> ie_type e = Unique" by blast
    then have "is_unique_type (ie_type e)" by (simp add: is_unique_type_def)
    then show ?thesis using probe_None [OF e(1)] e(1) by (auto simp: index_kind_def)
  qed
  have other: "?free n" if "n \<in> set (table_names m t)" "map_of (am_pk m) t \<noteq> Some n" "n \<notin> set (names_of (am_unique m) t)" for n
    using registry_kind [OF ok that(1)] that(2,3) by (auto simp: index_kind_def is_unique_type_def)
  have "?check \<longleftrightarrow> (\<forall>n. map_of (am_pk m) t = Some n \<longrightarrow> probe_tuple cf schema tuple (am_indexes m) ''PRIMARY KEY'' n = None)
      \<and> (\<forall>n \<in> set (names_of (am_unique m) t). probe_tuple cf schema tuple (am_indexes m) ''UNIQUE'' n = None)"
    using first_violation_None [of "probe_tuple cf schema tuple (am_indexes m) ''UNIQUE''" "names_of (am_unique m) t"]
    by (cases "map_of (am_pk m) t") (auto simp: check_unique_constraints_tuple_def split: option.splits)
  also have "\<dots> \<longleftrightarrow> (\<forall>n \<in> set (table_names m t). ?free n)"
    using probe other registry_listed(1) [OF ok, of t] registry_listed(2) [OF ok, of _ t] by blast
  finally show ?thesis .
qed

text \<open>A table with a primary key and a unique column, for the examples.\<close>

definition sample_manager :: art_manager where
  "sample_manager = fst (create_unique_index ''t'' [''v''] (Some ''u'') (fst (create_pk_index ''t'' [''id''] art_manager_new)))"

definition sample_schema :: schema where
  "sample_schema = [''id'', ''v'']"

lemma sample_run: "registry_run sample_manager"
  unfolding sample_manager_def by (intro registry_run.intros)

lemma sample_indexes:
  "am_indexes sample_manager = [(''t_pkey'', entry_new (art_new ''t_pkey'' ''t'' [''id''] PrimaryKey)), (''u'', entry_new (art_new ''u'' ''t'' [''v''] Unique))]"
  "table_names sample_manager ''t'' = [''t_pkey'', ''u'']"
  by (simp_all add: sample_manager_def create_unique_index_def create_pk_index_def register_index_entry_def table_index_add_def art_manager_new_def
      note_mutation_def Let_def mint_name_def pk_index_name_def push_name_def names_of_def)

lemma sample_facts:
  "rows_ready sample_manager" "manager_rows sample_manager = (\<lambda>_ _. [])"
  "index_kind (am_indexes sample_manager) ''t_pkey'' = Some PrimaryKey"
  "name_key cf sample_schema [Int2 i, String s] (am_indexes sample_manager) ''t_pkey'' = Some (to_be_bytes 2 (i XOR 0x8000))"
  "name_key cf sample_schema [Int2 i, String s] (am_indexes sample_manager) ''u'' = Some s"
proof -
  have "registry_ok sample_manager" by (rule registry_run_ok [OF sample_run])
  then have "distinct (table_names sample_manager t)" for t by (simp add: registry_ok_def lists_names_def)
  then show "rows_ready sample_manager"
    by (auto simp: rows_ready_def trees_ok_def sample_indexes entry_new_def entry_with_label_def short_tree_def)
  show "manager_rows sample_manager = (\<lambda>_ _. [])"
    by (auto simp: index_rows_def sample_indexes entry_new_def entry_with_label_def fun_eq_iff)
  show "index_kind (am_indexes sample_manager) ''t_pkey'' = Some PrimaryKey"
    by (simp add: index_kind_def sample_indexes entry_new_def)
  show "name_key cf sample_schema [Int2 i, String s] (am_indexes sample_manager) ''t_pkey'' = Some (to_be_bytes 2 (i XOR 0x8000))"
    "name_key cf sample_schema [Int2 i, String s] (am_indexes sample_manager) ''u'' = Some s"
    by (simp_all add: name_key_def sample_indexes entry_new_def sample_schema_def get_column_index_def key_is_null_distinct_def extend_escaped)
qed

lemma sample_row_short: "length s \<le> 10 \<Longrightarrow>
  short_keys cf sample_schema [Int2 i, String s] (am_indexes sample_manager) (table_names sample_manager ''t'')"
  by (auto simp: sample_indexes(2) sample_facts)

lemma sample_free: "n \<in> set (table_names sample_manager ''t'') \<Longrightarrow>
  refuses cf sample_schema [Int2 i, String s] (am_indexes sample_manager) n \<longleftrightarrow> False"
proof -
  have "to_be_bytes 2 v \<noteq> []" for v :: u16 using length_to_be_bytes [of 2 v] by (metis list.size(3) zero_neq_numeral)
  moreover have "index_kind (am_indexes sample_manager) ''u'' = Some Unique" by (simp add: index_kind_def sample_indexes entry_new_def)
  ultimately show "n \<in> set (table_names sample_manager ''t'') \<Longrightarrow> ?thesis"
    by (auto simp: refuses_def sample_facts sample_indexes(2) refused_def)
qed

section \<open>Properties\<close>

text \<open>
  C6. Claiming the keys of a row is all or nothing: if any index of the table refuses the row
  (a taken unique key, an empty primary key), \<open>reserve_insert_tuple\<close> reports an error and every
  index of the manager holds exactly the rows it held before, for tables with one index and
  with several; otherwise it succeeds, every index that takes the row has it appended under the
  row's key, and nothing else changes. For trees with compressed prefixes of at most ten bytes and
  a row with keys of at most ten bytes, where removal is exact.
\<close>

theorem reserve_all_or_nothing:
  assumes "rows_ready m" "\<forall>n \<in> set (table_names m t). \<forall>k. name_key cf schema tuple (am_indexes m) n = Some k \<longrightarrow> length k \<le> 10"
    and "reserve_insert_tuple cf t row schema tuple m = (m', res)"
  shows "(case res of
       Inl e \<Rightarrow> (\<exists>n \<in> set (table_names m t). refuses cf schema tuple (am_indexes m) n) \<and> manager_rows m' = manager_rows m
     | Inr _ \<Rightarrow> (\<forall>n \<in> set (table_names m t). \<not> refuses cf schema tuple (am_indexes m) n)
         \<and> manager_rows m' = (\<lambda>n. if n \<in> set (table_names m t) then add_row (name_key cf schema tuple (am_indexes m) n) row (manager_rows m n)
              else manager_rows m n)) \<and> rows_ready m'"
  using reserve_spec [OF assms]
  by (cases "\<exists>n \<in> set (table_names m t). refuses cf schema tuple (am_indexes m) n") (auto simp: claimed_rows_def fun_eq_iff)

theorem reserve_all_or_nothing_witness:
  "snd (reserve_insert_tuple plain_fmt ''t'' 1 sample_schema [Int2 5, String [97]] sample_manager) = Inr ()
   \<and> manager_rows (fst (reserve_insert_tuple plain_fmt ''t'' 1 sample_schema [Int2 5, String [97]] sample_manager)) ''u'' [97] = [1]"
proof -
  obtain m' res where r: "reserve_insert_tuple plain_fmt ''t'' 1 sample_schema [Int2 5, String [97]] sample_manager = (m', res)" by force
  have "length [97 :: u8] \<le> 10" by simp
  from reserve_all_or_nothing [OF sample_facts(1) sample_row_short [OF this] r] show ?thesis
    using sample_free by (cases res) (auto simp: r sample_indexes(2) sample_facts add_row_def)
qed

text \<open>
  A stored row is never stripped: \<open>on_insert_tuple\<close> appends the row to every index that
  does not refuse it, whatever the others answer and in whatever order they come, leaves the
  refusing indexes as they were, and reports an error exactly when some index refused. Keys of
  any length.
\<close>

theorem stored_row_keeps_entries:
  assumes "rows_ready m" "\<forall>n \<in> set (table_names m t). \<forall>k. name_key cf schema tuple (am_indexes m) n = Some k \<longrightarrow> length k < 2 ^ 32"
    and "on_insert_tuple cf t row schema tuple m = (m', res)"
  shows "(res = Inr () \<longleftrightarrow> (\<forall>n \<in> set (table_names m t). \<not> refuses cf schema tuple (am_indexes m) n))
    \<and> manager_rows m' = (\<lambda>n. if n \<in> set (table_names m t) \<and> \<not> refuses cf schema tuple (am_indexes m) n
         then add_row (name_key cf schema tuple (am_indexes m) n) row (manager_rows m n) else manager_rows m n)"
proof -
  have "trees_ok tree_wf (am_indexes m)" "distinct (table_names m t)"
    using assms(1) by (auto simp: rows_ready_def trees_ok_def short_tree_def)
  from stored_spec [OF this assms(2,3)] show ?thesis by (auto simp: stored_rows_def fun_eq_iff)
qed

theorem stored_row_keeps_entries_witness:
  "snd (on_insert_tuple plain_fmt ''t'' 1 sample_schema [Int2 5, String [97]] sample_manager) = Inr ()"
proof -
  obtain m' res where r: "on_insert_tuple plain_fmt ''t'' 1 sample_schema [Int2 5, String [97]] sample_manager = (m', res)" by force
  have "\<forall>n \<in> set (table_names sample_manager ''t''). \<forall>k.
      name_key plain_fmt sample_schema [Int2 5, String [97]] (am_indexes sample_manager) n = Some k \<longrightarrow> length k < 2 ^ 32"
    by (auto simp: sample_indexes(2) sample_facts)
  from stored_row_keeps_entries [OF sample_facts(1) this r] show ?thesis using sample_free by (simp add: r)
qed

text \<open>
  Giving a claim back restores the indexes: when \<open>reserve_insert_tuple\<close> succeeded and the
  write of the row then fails, \<open>on_delete_tuple\<close> with the same row succeeds and every index
  holds exactly the rows it held before the claim, in their order.
\<close>

theorem claim_given_back:
  assumes "rows_ready m" "\<forall>n \<in> set (table_names m t). \<forall>k. name_key cf schema tuple (am_indexes m) n = Some k \<longrightarrow> length k \<le> 10"
    and "reserve_insert_tuple cf t row schema tuple m = (m', Inr ())" "on_delete_tuple cf t row schema tuple m' = (m'', res)"
  shows "res = Inr () \<and> manager_rows m'' = manager_rows m"
proof -
  note r = reserve_spec [OF assms(1-3)]
  then have free: "\<not> refuses cf schema tuple (am_indexes m) n" if "n \<in> set (table_names m t)" for n
    using that by (metis Inl_Inr_False)
  have rows: "manager_rows m' = claimed_rows cf schema tuple row (am_indexes m) (table_names m t)" using r free by blast
  have "rows_ready m'" using r by blast
  note d = delete_spec [OF this assms(4)]
  have names: "table_names m' t = table_names m t" using r by simp
  note meta = same_meta_facts [of "am_indexes m" "am_indexes m'"]
  have "deleted_rows cf schema tuple row (am_indexes m') (table_names m' t) n = manager_rows m n" for n
  proof (cases "n \<in> set (table_names m t)")
    case True
    have restored: "drop_row (index_kind (am_indexes m) n) (name_key cf schema tuple (am_indexes m) n) row
        (add_row (name_key cf schema tuple (am_indexes m) n) row (manager_rows m n)) = manager_rows m n"
    proof (cases "name_key cf schema tuple (am_indexes m) n")
      case (Some k)
      then obtain ty where ty: "index_kind (am_indexes m) n = Some ty" by (auto simp: name_key_Some index_kind_def)
      then have "\<not> refused ty (manager_rows m n) k" using free [OF True] Some by (auto simp: refuses_def)
      then show ?thesis using drop_add_row Some ty by simp
    qed (simp add: drop_row_def add_row_def split: option.split)
    then show ?thesis using True r meta by (simp add: deleted_rows_def rows claimed_rows_def)
  qed (simp add: deleted_rows_def rows claimed_rows_def names)
  then show ?thesis using d by (simp add: fun_eq_iff)
qed

theorem claim_given_back_witness:
  "manager_rows (fst (on_delete_tuple plain_fmt ''t'' 1 sample_schema [Int2 5, String [97]]
     (fst (reserve_insert_tuple plain_fmt ''t'' 1 sample_schema [Int2 5, String [97]] sample_manager)))) ''u'' [97] = []"
proof -
  have s: "length [97 :: u8] \<le> 10" by simp
  obtain m' res where r: "reserve_insert_tuple plain_fmt ''t'' 1 sample_schema [Int2 5, String [97]] sample_manager = (m', res)" by force
  then have "res = Inr ()" using reserve_spec [OF sample_facts(1) sample_row_short [OF s] r] sample_free by auto
  with r have r': "reserve_insert_tuple plain_fmt ''t'' 1 sample_schema [Int2 5, String [97]] sample_manager = (m', Inr ())" by simp
  obtain m'' res' where d: "on_delete_tuple plain_fmt ''t'' 1 sample_schema [Int2 5, String [97]] m' = (m'', res')" by force
  from claim_given_back [OF sample_facts(1) sample_row_short [OF s] r' d] show ?thesis by (simp add: r d sample_facts)
qed

text \<open>
  The pre-check and the claim agree: on a consistent registry, \<open>check_unique_constraints_tuple\<close>
  passes and no primary-key column set encodes to the empty key exactly when
  \<open>reserve_insert_tuple\<close> of the same row succeeds. The pre-check reads the primary-key and unique
  name maps, the claim the per-table list.
\<close>

theorem precheck_agrees_with_claim:
  assumes "registry_ok m" "rows_ready m"
    and "\<forall>n \<in> set (table_names m t). \<forall>k. name_key cf schema tuple (am_indexes m) n = Some k \<longrightarrow> length k \<le> 10"
  shows "snd (reserve_insert_tuple cf t row schema tuple m) = Inr () \<longleftrightarrow>
    snd (check_unique_constraints_tuple cf t schema tuple m) = Inr ()
    \<and> (\<forall>n. map_of (am_pk m) t = Some n \<longrightarrow> name_key cf schema tuple (am_indexes m) n \<noteq> Some [])"
proof -
  obtain m' res where r: "reserve_insert_tuple cf t row schema tuple m = (m', res)" by force
  have "snd (reserve_insert_tuple cf t row schema tuple m) = Inr () \<longleftrightarrow> (\<forall>n \<in> set (table_names m t). \<not> refuses cf schema tuple (am_indexes m) n)"
    using reserve_spec [OF assms(2,3) r] r by auto
  also have "\<dots> \<longleftrightarrow> (\<forall>n \<in> set (table_names m t). (\<forall>ty k. index_kind (am_indexes m) n = Some ty \<longrightarrow> is_unique_type ty \<longrightarrow>
       name_key cf schema tuple (am_indexes m) n = Some k \<longrightarrow> manager_rows m n k = [])
     \<and> (index_kind (am_indexes m) n = Some PrimaryKey \<longrightarrow> name_key cf schema tuple (am_indexes m) n \<noteq> Some []))"
    by (fastforce simp: refuses_def refused_def)
  also have "\<dots> \<longleftrightarrow> snd (check_unique_constraints_tuple cf t schema tuple m) = Inr ()
    \<and> (\<forall>n. map_of (am_pk m) t = Some n \<longrightarrow> name_key cf schema tuple (am_indexes m) n \<noteq> Some [])"
  proof -
    have "n \<in> set (table_names m t) \<and> index_kind (am_indexes m) n = Some PrimaryKey \<longleftrightarrow> map_of (am_pk m) t = Some n" for n
      using registry_kind [OF assms(1), of n t] registry_listed(1) [OF assms(1), of t n] by (auto simp: index_kind_def)
    then show ?thesis unfolding check_ok_iff [OF assms(1)] by blast
  qed
  finally show ?thesis .
qed

theorem precheck_agrees_with_claim_witness:
  "snd (check_unique_constraints_tuple plain_fmt ''t'' sample_schema [Int2 5, String []] sample_manager) = Inr ()"
proof -
  have s: "length ([] :: u8 list) \<le> 10" by simp
  have ok: "registry_ok sample_manager" by (rule registry_run_ok [OF sample_run])
  obtain m' res where r: "reserve_insert_tuple plain_fmt ''t'' 1 sample_schema [Int2 5, String []] sample_manager = (m', res)" by force
  have "res = Inr ()" using reserve_spec [OF sample_facts(1) sample_row_short [OF s] r] sample_free by auto
  then show ?thesis
    using precheck_agrees_with_claim [OF ok sample_facts(1) sample_row_short [OF s, of plain_fmt 5], where row = 1] by (simp add: r)
qed

text \<open>
  Deleting a row can remove the index entry of another row: \<open>on_delete_tuple\<close> removes a
  unique key without comparing the owner, so deleting a stored duplicate, whose own entry was
  refused, makes the row that owns the key unreachable through the index and its key free.
\<close>

theorem delete_removes_owner_entry:
  assumes "rows_ready m" "n \<in> set (table_names m t)" "index_kind (am_indexes m) n = Some ty" "is_unique_type ty"
    and "name_key cf schema tuple (am_indexes m) n = Some k" "manager_rows m n k = [owner]" "owner \<noteq> row"
  shows "manager_rows (fst (on_delete_tuple cf t row schema tuple m)) n k = []"
proof -
  obtain m' res where "on_delete_tuple cf t row schema tuple m = (m', res)" by force
  from delete_spec [OF assms(1) this] this show ?thesis using assms by (auto simp: deleted_rows_def drop_row_def)
qed

theorem delete_removes_owner_entry_witness:
  "let m1 = fst (reserve_insert_tuple plain_fmt ''t'' 1 sample_schema [Int2 5, String [97]] sample_manager);
       m2 = fst (on_delete_tuple plain_fmt ''t'' 2 sample_schema [Int2 5, String [97]] m1)
   in manager_rows m1 ''u'' [97] = [1] \<and> manager_rows m2 ''u'' [97] = []"
proof -
  have s: "length [97 :: u8] \<le> 10" by simp
  obtain m1 res where r: "reserve_insert_tuple plain_fmt ''t'' 1 sample_schema [Int2 5, String [97]] sample_manager = (m1, res)" by force
  note spec = reserve_spec [OF sample_facts(1) sample_row_short [OF s] r]
  have meta: "same_meta (am_indexes sample_manager) (am_indexes m1)" "rows_ready m1" "table_names m1 ''t'' = [''t_pkey'', ''u'']"
    using spec sample_indexes(2) by auto
  have rows: "manager_rows m1 ''u'' [97] = [1]"
    using spec sample_free by (auto simp: claimed_rows_def sample_indexes(2) sample_facts add_row_def)
  have kind: "index_kind (am_indexes m1) ''u'' = Some Unique" "name_key plain_fmt sample_schema [Int2 5, String [97]] (am_indexes m1) ''u'' = Some [97]"
    using same_meta_facts [OF meta(1)] sample_facts(5) [of plain_fmt 5 "[97]"] by (simp_all add: index_kind_def sample_indexes entry_new_def)
  have "manager_rows (fst (on_delete_tuple plain_fmt ''t'' 2 sample_schema [Int2 5, String [97]] m1)) ''u'' [97] = []"
    by (rule delete_removes_owner_entry [OF meta(2) _ kind(1) _ kind(2) rows]) (simp_all add: meta(3) is_unique_type_def)
  then show ?thesis using rows by (simp add: r)
qed

text \<open>
  An empty text is taken for a NULL primary key: the key of the single-column primary key
  \<open>''\<close> is empty, and the claim of the row is refused with \<open>NullPrimaryKey\<close>, although the
  pre-check accepts the row.
\<close>

theorem empty_text_primary_key_refused:
  "let m = fst (create_pk_index ''t'' [''id''] art_manager_new)
   in snd (check_unique_constraints_tuple plain_fmt ''t'' [''id''] [String []] m) = Inr ()
      \<and> snd (reserve_insert_tuple plain_fmt ''t'' 1 [''id''] [String []] m) = Inl NullPrimaryKey"
  by code_simp

end
