(* ===== verification/Table_Rows.thy ===== *)
theory Table_Rows
  imports Row_Indexes
begin

text \<open>
  The rows of one table together with its indexes, as the storage engine keeps them
  (\<^verbatim>\<open>src/src/storage/engine.rs\<close>): the claim guards, the insert funnel, the batch funnel, the
  in-place update and the delete. The heap is the list of stored rows by row id; \<open>faults\<close> says
  which fallible step of an operation fails. Versions, logical log, vector indexes and the
  column-storage transforms have no model here, nor have branches.
\<close>

section \<open>Maintenance by column name\<close>

text \<open>
  The \<open>HashMap\<close> twins \<open>on_insert\<close> and \<open>on_delete\<close> of \<open>ArtIndexManager\<close>, which the in-place update
  uses. \<open>filter_map\<close> keeps the values of the columns that are present, and only complete keys are
  maintained.
\<close>

definition present_values :: "(string \<Rightarrow> sql_value option) \<Rightarrow> string list \<Rightarrow> sql_value list" where
  "present_values column_values cols = List.map_filter column_values cols"

fun hash_insert_loop :: "chrono_fmt \<Rightarrow> row_id \<Rightarrow> (string \<Rightarrow> sql_value option) \<Rightarrow> string list \<Rightarrow> index_map
    \<Rightarrow> art_index_error option \<Rightarrow> index_map \<times> (art_index_error + unit)" where
  "hash_insert_loop cf row_id cv [] indexes first_error = (indexes, case first_error of Some e \<Rightarrow> Inl e | None \<Rightarrow> Inr ())"
| "hash_insert_loop cf row_id cv (name # names) indexes first_error =
     (case map_of indexes name of
        None \<Rightarrow> hash_insert_loop cf row_id cv names indexes first_error
      | Some entry \<Rightarrow>
          let values = present_values cv (ie_columns entry) in
          if length values = length (ie_columns entry) \<and> \<not> key_is_null_distinct (ie_type entry) values then
            let (t, outcome) = art_insert (ie_tree entry) (encode_key cf values) row_id in
            if is_unique_type (ie_type entry) then
              (case outcome of
                 Inr _ \<Rightarrow>
                   let dense = (if ie_type entry = PrimaryKey \<and> length values = 1 then int_value_width (hd values) else None);
                       t = (case dense of Some (v, width) \<Rightarrow> record_dense_int_insert width v t | None \<Rightarrow> t)
                   in hash_insert_loop cf row_id cv names (set_tree name entry t indexes) first_error
               | Inl e \<Rightarrow> hash_insert_loop cf row_id cv names (set_tree name entry t indexes)
                   (case first_error of Some f \<Rightarrow> Some f | None \<Rightarrow> Some e))
            else hash_insert_loop cf row_id cv names (set_tree name entry t indexes) first_error
          else hash_insert_loop cf row_id cv names indexes first_error)"

fun hash_delete_loop :: "chrono_fmt \<Rightarrow> row_id \<Rightarrow> (string \<Rightarrow> sql_value option) \<Rightarrow> string list \<Rightarrow> index_map
    \<Rightarrow> art_index_error option \<Rightarrow> index_map \<times> (art_index_error + unit)" where
  "hash_delete_loop cf row_id cv [] indexes first_error = (indexes, case first_error of Some e \<Rightarrow> Inl e | None \<Rightarrow> Inr ())"
| "hash_delete_loop cf row_id cv (name # names) indexes first_error =
     (case map_of indexes name of
        None \<Rightarrow> hash_delete_loop cf row_id cv names indexes first_error
      | Some entry \<Rightarrow>
          let values = present_values cv (ie_columns entry) in
          if length values = length (ie_columns entry) \<and> \<not> key_is_null_distinct (ie_type entry) values then
            (if is_unique_type (ie_type entry) then
               (case art_remove (ie_tree entry) (encode_key cf values) of
                  (t, Inr previous) \<Rightarrow>
                    let t = (if previous \<noteq> None \<and> ie_type entry = PrimaryKey \<and> length values = 1
                         then (case int_value_width (hd values) of Some (v, _) \<Rightarrow> record_dense_int_delete v t | None \<Rightarrow> t) else t)
                    in hash_delete_loop cf row_id cv names (set_tree name entry t indexes) first_error
                | (t, Inl e) \<Rightarrow> hash_delete_loop cf row_id cv names (set_tree name entry t indexes)
                    (case first_error of Some f \<Rightarrow> Some f | None \<Rightarrow> Some e))
             else hash_delete_loop cf row_id cv names
               (set_tree name entry (fst (art_remove_value (ie_tree entry) (encode_key cf values) row_id)) indexes) first_error)
          else hash_delete_loop cf row_id cv names indexes first_error)"

definition on_insert :: "chrono_fmt \<Rightarrow> string \<Rightarrow> row_id \<Rightarrow> (string \<Rightarrow> sql_value option) \<Rightarrow> art_manager \<Rightarrow> art_manager \<times> (art_index_error + unit)" where
  "on_insert cf table row_id column_values m = (let m = note_mutation m in case map_of (am_table_indexes m) table of
       Some (n # ns) \<Rightarrow> (case hash_insert_loop cf row_id column_values (n # ns) (am_indexes m) None of
           (indexes, res) \<Rightarrow> (m\<lparr>am_indexes := indexes\<rparr>, res))
     | _ \<Rightarrow> (m, Inr ()))"

definition on_delete :: "chrono_fmt \<Rightarrow> string \<Rightarrow> row_id \<Rightarrow> (string \<Rightarrow> sql_value option) \<Rightarrow> art_manager \<Rightarrow> art_manager \<times> (art_index_error + unit)" where
  "on_delete cf table row_id column_values m = (let m = note_mutation m in case map_of (am_table_indexes m) table of
       Some (n # ns) \<Rightarrow> (case hash_delete_loop cf row_id column_values (n # ns) (am_indexes m) None of
           (indexes, res) \<Rightarrow> (m\<lparr>am_indexes := indexes\<rparr>, res))
     | _ \<Rightarrow> (m, Inr ()))"

definition on_update :: "chrono_fmt \<Rightarrow> string \<Rightarrow> row_id \<Rightarrow> (string \<Rightarrow> sql_value option) \<Rightarrow> (string \<Rightarrow> sql_value option)
    \<Rightarrow> art_manager \<Rightarrow> art_manager \<times> (art_index_error + unit)" where
  "on_update cf table row_id old_values new_values m =
     (let (m, deleted) = on_delete cf table row_id old_values m;
          (m, res) = on_insert cf table row_id new_values m
      in (m, case deleted of Inl e \<Rightarrow> Inl e | Inr _ \<Rightarrow> res))"

text \<open>Equality of values as Rust derives it: floats compare as numbers, so the two zeros are equal.\<close>

definition float_eq :: "int option \<Rightarrow> int option \<Rightarrow> bool" where
  "float_eq a b \<longleftrightarrow> partial_cmp a b = Some Equal"

fun value_eq :: "sql_value \<Rightarrow> sql_value \<Rightarrow> bool" and values_eq :: "sql_value list \<Rightarrow> sql_value list \<Rightarrow> bool" where
  "value_eq (Float4 a) w = (case w of Float4 b \<Rightarrow> float_eq (f32_num a) (f32_num b) | _ \<Rightarrow> False)"
| "value_eq (Float8 a) w = (case w of Float8 b \<Rightarrow> float_eq (f64_num a) (f64_num b) | _ \<Rightarrow> False)"
| "value_eq (Vector a) w = (case w of Vector b \<Rightarrow> list_all2 (\<lambda>x y. float_eq (f32_num x) (f32_num y)) a b | _ \<Rightarrow> False)"
| "value_eq (Array a) w = (case w of Array b \<Rightarrow> values_eq a b | _ \<Rightarrow> False)"
| "value_eq v w = (v = w)"
| "values_eq [] w = (w = [])"
| "values_eq (x # xs) w = (case w of [] \<Rightarrow> False | y # ys \<Rightarrow> value_eq x y \<and> values_eq xs ys)"

definition same_at :: "tuple \<Rightarrow> tuple \<Rightarrow> nat \<Rightarrow> bool" where
  "same_at old new i = (case (if i < length old then Some (old ! i) else None, if i < length new then Some (new ! i) else None) of
       (Some v, Some w) \<Rightarrow> value_eq v w | (None, None) \<Rightarrow> True | _ \<Rightarrow> False)"

definition tuple_update_affects_indexes :: "string \<Rightarrow> schema \<Rightarrow> tuple \<Rightarrow> tuple \<Rightarrow> art_manager \<Rightarrow> bool" where
  "tuple_update_affects_indexes table schema old new m \<longleftrightarrow> (\<exists>name \<in> fst ` set (am_indexes m).
     case map_of (am_indexes m) name of None \<Rightarrow> False | Some entry \<Rightarrow> ie_table entry = table \<and>
       (\<exists>c \<in> set (ie_columns entry). case get_column_index schema c of None \<Rightarrow> True | Some i \<Rightarrow> \<not> same_at old new i))"

text \<open>The \<open>HashMap\<close> of a row by column name: a later column of the same name replaces an earlier one.\<close>

definition column_map :: "schema \<Rightarrow> tuple \<Rightarrow> string \<Rightarrow> sql_value option" where
  "column_map schema tuple = map_of (rev (zip schema tuple))"

section \<open>The store\<close>

record row_store =
  rs_rows :: "(row_id \<times> tuple) list"
  rs_counter :: u64
  rs_manager :: art_manager

datatype store_error = ConstraintViolation string | StorageError string

text \<open>
  \<open>sf_before\<close>: a step before the claim fails (schema lookup, serialisation, column storage).
  \<open>sf_write\<close>: a step between the claim and the durable write fails (disk space, the write
  itself). \<open>sf_after\<close>: a step after the write fails (row counter, logical log).
\<close>

record store_faults =
  sf_before :: "string option"
  sf_write :: "string option"
  sf_after :: "string option"

definition next_row_id_volatile :: "row_store \<Rightarrow> row_store \<times> row_id" where
  "next_row_id_volatile s = (s\<lparr>rs_counter := rs_counter s + 1\<rparr>, rs_counter s + 1)"

definition claim_index_entries :: "chrono_fmt \<Rightarrow> string \<Rightarrow> row_id \<Rightarrow> schema \<Rightarrow> tuple \<Rightarrow> art_manager \<Rightarrow> art_manager \<times> (store_error + unit)" where
  "claim_index_entries cf table row_id schema tuple m = (case reserve_insert_tuple cf table row_id schema tuple m of
       (m, Inl e) \<Rightarrow> (m, Inl (ConstraintViolation (art_error_display e)))
     | (m, Inr _) \<Rightarrow> (m, Inr ()))"

definition release_index_claim :: "chrono_fmt \<Rightarrow> string \<Rightarrow> row_id \<Rightarrow> schema \<Rightarrow> tuple \<Rightarrow> art_manager \<Rightarrow> art_manager" where
  "release_index_claim cf table row_id schema tuple m = fst (on_delete_tuple cf table row_id schema tuple m)"

record index_claim =
  ic_row_id :: row_id
  ic_tuple :: tuple
  ic_pending :: bool

definition claim_acquire :: "chrono_fmt \<Rightarrow> string \<Rightarrow> row_id \<Rightarrow> schema \<Rightarrow> tuple \<Rightarrow> art_manager \<Rightarrow> art_manager \<times> (store_error + index_claim)" where
  "claim_acquire cf table row_id schema tuple m = (case claim_index_entries cf table row_id schema tuple m of
       (m, Inl e) \<Rightarrow> (m, Inl e)
     | (m, Inr _) \<Rightarrow> (m, Inr \<lparr>ic_row_id = row_id, ic_tuple = tuple, ic_pending = True\<rparr>))"

definition row_is_durable :: "index_claim \<Rightarrow> index_claim" where
  "row_is_durable c = c\<lparr>ic_pending := False\<rparr>"

definition claim_drop :: "chrono_fmt \<Rightarrow> string \<Rightarrow> schema \<Rightarrow> index_claim \<Rightarrow> art_manager \<Rightarrow> art_manager" where
  "claim_drop cf table schema c m =
     (if ic_pending c then release_index_claim cf table (ic_row_id c) schema (ic_tuple c) m else m)"

text \<open>The guard is dropped on every path, last.\<close>

definition insert_tuple :: "chrono_fmt \<Rightarrow> string \<Rightarrow> schema \<Rightarrow> store_faults \<Rightarrow> tuple \<Rightarrow> row_store \<Rightarrow> row_store \<times> (store_error + row_id)" where
  "insert_tuple cf table schema faults tuple s =
     (let (s, row_id) = next_row_id_volatile s in
      if sf_before faults \<noteq> None then (s, Inl (StorageError (the (sf_before faults))))
      else case claim_acquire cf table row_id schema tuple (rs_manager s) of
        (m, Inl e) \<Rightarrow> (s\<lparr>rs_manager := m\<rparr>, Inl e)
      | (m, Inr claim) \<Rightarrow>
          (case sf_write faults of
             Some e \<Rightarrow> (s\<lparr>rs_manager := claim_drop cf table schema claim m\<rparr>, Inl (StorageError e))
           | None \<Rightarrow>
               let s = s\<lparr>rs_rows := AList.update row_id tuple (rs_rows s)\<rparr>;
                   claim = row_is_durable claim;
                   s = s\<lparr>rs_manager := claim_drop cf table schema claim m\<rparr>
               in (s, case sf_after faults of Some e \<Rightarrow> Inl (StorageError e) | None \<Rightarrow> Inr row_id)))"

fun batch_release :: "chrono_fmt \<Rightarrow> string \<Rightarrow> schema \<Rightarrow> (row_id \<times> tuple) list \<Rightarrow> art_manager \<Rightarrow> art_manager" where
  "batch_release cf table schema [] m = m"
| "batch_release cf table schema ((row_id, tuple) # rows) m = batch_release cf table schema rows (release_index_claim cf table row_id schema tuple m)"

fun batch_acquire :: "chrono_fmt \<Rightarrow> string \<Rightarrow> schema \<Rightarrow> (row_id \<times> tuple) list \<Rightarrow> (row_id \<times> tuple) list \<Rightarrow> art_manager
    \<Rightarrow> art_manager \<times> (store_error + unit)" where
  "batch_acquire cf table schema claimed [] m = (m, Inr ())"
| "batch_acquire cf table schema claimed ((row_id, tuple) # rows) m =
     (case claim_index_entries cf table row_id schema tuple m of
        (m, Inl e) \<Rightarrow> (batch_release cf table schema claimed m, Inl e)
      | (m, Inr _) \<Rightarrow> batch_acquire cf table schema (claimed @ [(row_id, tuple)]) rows m)"

fun number_rows :: "tuple list \<Rightarrow> row_store \<Rightarrow> row_store \<times> (row_id \<times> tuple) list" where
  "number_rows [] s = (s, [])"
| "number_rows (tuple # tuples) s =
     (let (s, row_id) = next_row_id_volatile s; (s, rows) = number_rows tuples s in (s, (row_id, tuple) # rows))"

text \<open>One write batch: all rows become durable together or none does. The callers number the rows.\<close>

definition insert_prepared_tuples_fast_batch :: "chrono_fmt \<Rightarrow> string \<Rightarrow> schema \<Rightarrow> store_faults \<Rightarrow> (row_id \<times> tuple) list
    \<Rightarrow> row_store \<Rightarrow> row_store \<times> (store_error + nat)" where
  "insert_prepared_tuples_fast_batch cf table schema faults prepared s =
     (if prepared = [] then (s, Inr 0)
      else if sf_before faults \<noteq> None then (s, Inl (StorageError (the (sf_before faults))))
      else case batch_acquire cf table schema [] prepared (rs_manager s) of
        (m, Inl e) \<Rightarrow> (s\<lparr>rs_manager := m\<rparr>, Inl e)
      | (m, Inr _) \<Rightarrow>
          (case sf_write faults of
             Some e \<Rightarrow> (s\<lparr>rs_manager := batch_release cf table schema prepared m\<rparr>, Inl (StorageError e))
           | None \<Rightarrow> (s\<lparr>rs_rows := fold (\<lambda>(r, tp). AList.update r tp) prepared (rs_rows s), rs_manager := m\<rparr>, Inr (length prepared))))"

definition delete_tuple_fast :: "chrono_fmt \<Rightarrow> string \<Rightarrow> schema \<Rightarrow> store_faults \<Rightarrow> row_id \<Rightarrow> tuple \<Rightarrow> row_store \<Rightarrow> row_store \<times> (store_error + nat)" where
  "delete_tuple_fast cf table schema faults row_id old_tuple s =
     (case sf_write faults of
        Some e \<Rightarrow> (s, Inl (StorageError e))
      | None \<Rightarrow>
          let s = s\<lparr>rs_rows := AList.delete row_id (rs_rows s),
                rs_manager := fst (on_delete_tuple cf table row_id schema old_tuple (rs_manager s))\<rparr>
          in (s, case sf_after faults of Some e \<Rightarrow> Inl (StorageError e) | None \<Rightarrow> Inr 1))"

definition update_tuple_fast :: "chrono_fmt \<Rightarrow> string \<Rightarrow> schema \<Rightarrow> store_faults \<Rightarrow> row_id \<Rightarrow> tuple \<Rightarrow> tuple \<Rightarrow> bool option
    \<Rightarrow> row_store \<Rightarrow> row_store \<times> (store_error + nat)" where
  "update_tuple_fast cf table schema faults row_id new_tuple old_tuple index_update_needed s =
     (case sf_write faults of
        Some e \<Rightarrow> (s, Inl (StorageError e))
      | None \<Rightarrow>
          let s = s\<lparr>rs_rows := AList.update row_id new_tuple (rs_rows s)\<rparr>;
              update_indexes = (case index_update_needed of Some b \<Rightarrow> b
                | None \<Rightarrow> tuple_update_affects_indexes table schema old_tuple new_tuple (rs_manager s))
          in (if update_indexes
              then s\<lparr>rs_manager := fst (on_update cf table row_id (column_map schema old_tuple) (column_map schema new_tuple) (rs_manager s))\<rparr>
              else s, Inr 1))"

section \<open>Agreement of rows and indexes\<close>

text \<open>The rows of the table whose key in an index is \<open>k\<close>.\<close>

definition keyed :: "chrono_fmt \<Rightarrow> schema \<Rightarrow> index_map \<Rightarrow> (row_id \<times> tuple) list \<Rightarrow> string \<Rightarrow> bytes \<Rightarrow> row_id list" where
  "keyed cf schema indexes rows n k = map fst (filter (\<lambda>(r, tp). name_key cf schema tp indexes n = Some k) rows)"

definition agrees :: "chrono_fmt \<Rightarrow> string \<Rightarrow> schema \<Rightarrow> (row_id \<times> tuple) list \<Rightarrow> art_manager \<Rightarrow> bool" where
  "agrees cf t schema rows m \<longleftrightarrow> rows_ready m \<and> distinct (map fst rows)
     \<and> (\<forall>n \<in> set (table_names m t). \<forall>k. mset (manager_rows m n k) = mset (keyed cf schema (am_indexes m) rows n k))
     \<and> (\<forall>n \<in> set (table_names m t). \<forall>e. map_of (am_indexes m) n = Some e \<longrightarrow> ie_table e = t)
     \<and> (\<forall>n \<in> set (table_names m t). \<forall>ty k. index_kind (am_indexes m) n = Some ty \<longrightarrow> is_unique_type ty \<longrightarrow> length (manager_rows m n k) \<le> 1)"

definition same_registry :: "art_manager \<Rightarrow> art_manager \<Rightarrow> bool" where
  "same_registry m m' \<longleftrightarrow> am_table_indexes m' = am_table_indexes m \<and> same_meta (am_indexes m) (am_indexes m')"

lemma same_registry_refl [simp]: "same_registry m m"
  by (simp add: same_registry_def)

lemma same_registry_trans [trans]: "same_registry a b \<Longrightarrow> same_registry b c \<Longrightarrow> same_registry a c"
  by (auto simp: same_registry_def intro: same_meta_trans)

lemma keyed_append: "keyed cf schema i (rows @ rows') n k = keyed cf schema i rows n k @ keyed cf schema i rows' n k"
  by (simp add: keyed_def)

lemma keyed_meta: "same_meta i j \<Longrightarrow> keyed cf schema j = keyed cf schema i"
  by (simp add: keyed_def same_meta_facts(2) fun_eq_iff)

lemma same_meta_table: "same_meta i j \<Longrightarrow> map_of j n = Some e \<Longrightarrow> \<exists>e'. map_of i n = Some e' \<and> ie_table e' = ie_table e"
  unfolding same_meta_def by (metis (no_types, lifting) map_option_eq_Some meta_def prod.inject)

lemma agrees_frame:
  assumes "agrees cf t schema rows m" "rows_ready m'" "same_meta (am_indexes m) (am_indexes m')" "am_table_indexes m' = am_table_indexes m"
    and "distinct (map fst rows')"
    and "\<And>n k. n \<in> set (table_names m t) \<Longrightarrow> mset (manager_rows m' n k) = mset (keyed cf schema (am_indexes m) rows' n k)"
    and "\<And>n k ty. n \<in> set (table_names m t) \<Longrightarrow> index_kind (am_indexes m) n = Some ty \<Longrightarrow> is_unique_type ty \<Longrightarrow> length (manager_rows m' n k) \<le> 1"
  shows "agrees cf t schema rows' m'"
  using assms same_meta_table [OF assms(3)] unfolding agrees_def
  by (simp add: keyed_meta [OF assms(3)] same_meta_facts(1) [OF assms(3)]) metis

lemma added_agrees:
  assumes a: "agrees cf t schema rows m" and free: "\<forall>n \<in> set (table_names m t). \<not> refuses cf schema tuple (am_indexes m) n"
    and frame: "rows_ready m'" "same_meta (am_indexes m) (am_indexes m')" "am_table_indexes m' = am_table_indexes m"
    and rows: "manager_rows m' = claimed_rows cf schema tuple row (am_indexes m) (table_names m t)" and fresh: "row \<notin> fst ` set rows"
  shows "agrees cf t schema (rows @ [(row, tuple)]) m'"
proof -
  have new: "manager_rows m' n k = manager_rows m n k @ keyed cf schema (am_indexes m) [(row, tuple)] n k" if "n \<in> set (table_names m t)" for n k
    using that by (auto simp: rows claimed_rows_def add_row_def keyed_def split: option.split)
  show ?thesis
  proof (rule agrees_frame [OF a frame])
    fix n k ty assume n: "n \<in> set (table_names m t)" "index_kind (am_indexes m) n = Some ty" "is_unique_type ty"
    have "manager_rows m n k = []" if "name_key cf schema tuple (am_indexes m) n = Some k"
      using free n that by (auto simp: refuses_def refused_def)
    then show "length (manager_rows m' n k) \<le> 1" using a n by (auto simp: new [OF n(1)] keyed_def agrees_def)
  qed (use a fresh new in \<open>auto simp: agrees_def keyed_append\<close>)
qed

lemma claim_agrees:
  assumes a: "agrees cf t schema rows m" and short: "short_keys cf schema tuple (am_indexes m) (table_names m t)"
    and run: "reserve_insert_tuple cf t row schema tuple m = (m', res)" and fresh: "row \<notin> fst ` set rows"
  shows "same_registry m m'
    \<and> (case res of Inl _ \<Rightarrow> agrees cf t schema rows m' | Inr _ \<Rightarrow> agrees cf t schema (rows @ [(row, tuple)]) m')"
proof -
  have ready: "rows_ready m" using a by (simp add: agrees_def)
  note spec = reserve_spec [OF ready short run]
  show ?thesis
  proof (cases "\<exists>n \<in> set (table_names m t). refuses cf schema tuple (am_indexes m) n")
    case True
    then obtain e where "res = Inl e" "manager_rows m' = manager_rows m" using spec by blast
    moreover have "agrees cf t schema rows m'"
      using calculation spec a by (intro agrees_frame [OF a]) (simp_all add: agrees_def)
    ultimately show ?thesis using spec by (simp add: same_registry_def)
  next
    case False
    then show ?thesis using spec added_agrees [OF a _ _ _ _ _ fresh, of tuple m'] by (auto simp: same_registry_def)
  qed
qed

lemma keyed_without:
  assumes "distinct (map fst rows)" "(row, tuple) \<in> set rows"
  shows "mset (keyed cf schema i rows n k)
    = mset (keyed cf schema i (filter (\<lambda>p. fst p \<noteq> row) rows) n k) + (if name_key cf schema tuple i n = Some k then {#row#} else {#})"
  using assms
proof (induction rows)
  case (Cons p rows)
  obtain r tp where p: "p = (r, tp)" by (cases p)
  show ?case
  proof (cases "r = row")
    case True
    then have "tp = tuple" "filter (\<lambda>p. fst p \<noteq> row) rows = rows"
      using Cons.prems by (force simp: p intro!: filter_True)+
    then show ?thesis using True by (simp add: keyed_def p)
  next
    case False
    then show ?thesis using Cons by (auto simp: keyed_def p)
  qed
qed simp

lemma dropped_agrees:
  assumes a: "agrees cf t schema rows m" and mem: "(row, tuple) \<in> set rows"
    and frame: "rows_ready m'" "same_meta (am_indexes m) (am_indexes m')" "am_table_indexes m' = am_table_indexes m"
    and rows: "manager_rows m' = deleted_rows cf schema tuple row (am_indexes m) (table_names m t)"
  shows "agrees cf t schema (filter (\<lambda>p. fst p \<noteq> row) rows) m'"
proof -
  have d: "distinct (map fst rows)" using a by (simp add: agrees_def)
  have old: "mset (manager_rows m n k) = mset (keyed cf schema (am_indexes m) (filter (\<lambda>p. fst p \<noteq> row) rows) n k)
      + (if name_key cf schema tuple (am_indexes m) n = Some k then {#row#} else {#})" if "n \<in> set (table_names m t)" for n k
    using a that keyed_without [OF d mem, of cf schema "am_indexes m" n k] by (simp add: agrees_def)
  have new: "manager_rows m' n = drop_row (index_kind (am_indexes m) n) (name_key cf schema tuple (am_indexes m) n) row (manager_rows m n)"
    if "n \<in> set (table_names m t)" for n
    using that by (simp add: rows deleted_rows_def)
  show ?thesis
  proof (rule agrees_frame [OF a frame])
    fix n k assume n: "n \<in> set (table_names m t)"
    show "mset (manager_rows m' n k) = mset (keyed cf schema (am_indexes m) (filter (\<lambda>p. fst p \<noteq> row) rows) n k)"
    proof (cases "name_key cf schema tuple (am_indexes m) n")
      case None
      then show ?thesis using old [OF n, of k] by (simp add: new [OF n] drop_row_def split: option.split)
    next
      case (Some k')
      then obtain ty where ty: "index_kind (am_indexes m) n = Some ty" by (auto simp: name_key_Some index_kind_def)
      have one: "keyed cf schema (am_indexes m) (filter (\<lambda>p. fst p \<noteq> row) rows) n k = []" if "is_unique_type ty" "k = k'"
      proof -
        have "length (manager_rows m n k) \<le> 1" using a n ty that(1) by (auto simp: agrees_def)
        then have "size (mset (manager_rows m n k)) \<le> 1" by (simp only: size_mset)
        then show ?thesis unfolding old [OF n] using Some that(2) by simp
      qed
      show ?thesis
      proof (cases "k = k'")
        case False
        then show ?thesis using old [OF n, of k] by (simp add: new [OF n] drop_row_def ty Some)
      next
        case True
        then show ?thesis using old [OF n, of k] one by (auto simp: new [OF n] drop_row_def ty Some mset_swap_remove_value)
      qed
    qed
  next
    fix n k ty assume n: "n \<in> set (table_names m t)" "index_kind (am_indexes m) n = Some ty" "is_unique_type ty"
    have "length (manager_rows m n k) \<le> 1" using a n by (auto simp: agrees_def)
    then show "length (manager_rows m' n k) \<le> 1" by (simp add: new [OF n(1)] drop_row_def n split: option.split)
  qed (use d in \<open>auto simp: distinct_map_filter\<close>)
qed

lemma release_agrees:
  assumes a: "agrees cf t schema rows m" and mem: "(row, tuple) \<in> set rows"
    and run: "on_delete_tuple cf t row schema tuple m = (m', res)"
  shows "same_registry m m'
    \<and> agrees cf t schema (filter (\<lambda>p. fst p \<noteq> row) rows) m'"
proof -
  have "rows_ready m" using a by (simp add: agrees_def)
  from delete_spec [OF this run] on_delete_eq [OF run] show ?thesis using dropped_agrees [OF a mem, of m'] by (simp add: same_registry_def)
qed

section \<open>The maintenance by name is the maintenance by tuple\<close>

lemma column_map_eq:
  assumes "distinct schema" "length tuple = length schema"
  shows "column_map schema tuple c = map_option ((!) tuple) (get_column_index schema c)"
proof (cases "position c schema")
  case None
  then have "c \<notin> set schema" using position_None by metis
  then have "map_of (rev (zip schema tuple)) c = None" by (auto simp: map_of_eq_None_iff dest: set_zip_leftD)
  then show ?thesis using None by (simp add: column_map_def get_column_index_def)
next
  case (Some i)
  then have i: "i < length schema" "schema ! i = c" using position_Some [OF Some] by simp_all
  then have "(c, tuple ! i) \<in> set (rev (zip schema tuple))" using assms(2) by (force simp: in_set_zip)
  moreover have "distinct (map fst (rev (zip schema tuple)))" using assms by (simp add: rev_map [symmetric])
  ultimately have "map_of (rev (zip schema tuple)) c = Some (tuple ! i)" by (rule map_of_is_SomeI [rotated])
  then show ?thesis using Some by (simp add: column_map_def get_column_index_def)
qed

lemma present_resolve:
  assumes "distinct schema" "length tuple = length schema"
  shows "(case resolve_columns schema tuple cols of
      None \<Rightarrow> length (present_values (column_map schema tuple) cols) \<noteq> length cols
    | Some r \<Rightarrow> present_values (column_map schema tuple) cols = map snd r \<and> length r = length cols)"
proof (induction cols)
  case (Cons c cs)
  have le: "length (present_values f ds) \<le> length ds" for f ds
    by (induction ds) (auto simp: present_values_def map_filter_simps split: option.split)
  have "i < length tuple" if "get_column_index schema c = Some i" for i
    using that assms(2) position_Some [of c schema i] by (simp add: get_column_index_def)
  then show ?case using Cons.IH le [of "column_map schema tuple" cs]
    unfolding present_values_def map_filter_simps column_map_eq [OF assms, of c] by (auto split: option.splits)
qed (simp add: present_values_def map_filter_simps)

lemma hash_insert_is_tuple:
  assumes "distinct schema" "length tuple = length schema"
  shows "fst (hash_insert_loop cf row (column_map schema tuple) names indexes fe)
    = fst (insert_loop cf False Stored row schema tuple names indexes cache undo fe')"
proof (induction names arbitrary: indexes fe fe' cache undo)
  case (Cons n ns)
  show ?case
  proof (cases "map_of indexes n")
    case (Some e)
    show ?thesis
    proof (cases "resolve_columns schema tuple (ie_columns e)")
      case None
      then show ?thesis using present_resolve [OF assms, of "ie_columns e"] Some by (simp add: Cons.IH)
    next
      case r: (Some r)
      then have v: "present_values (column_map schema tuple) (ie_columns e) = map snd r" "length r = length (ie_columns e)"
        using present_resolve [OF assms, of "ie_columns e"] by simp_all
      have hd: "length r = 1 \<Longrightarrow> hd (map snd r) = snd (hd r)" by (cases r) simp_all
      obtain t1 res where ai: "art_insert (ie_tree e) (encode_key_from_values cf (map snd r)) row = (t1, res)" by fastforce
      show ?thesis
        using Some r v hd by (cases res) (auto simp: Let_def ai row_index_key_def encode_key_def is_unique_type_def Cons.IH split: option.split)
    qed
  qed (simp add: Cons.IH)
qed simp

lemma hash_delete_is_tuple:
  assumes "distinct schema" "length tuple = length schema"
  shows "fst (hash_delete_loop cf row (column_map schema tuple) names indexes fe)
    = fst (delete_loop cf False row schema tuple names indexes cache fe')"
proof (induction names arbitrary: indexes fe fe' cache)
  case (Cons n ns)
  show ?case
  proof (cases "map_of indexes n")
    case (Some e)
    show ?thesis
    proof (cases "resolve_columns schema tuple (ie_columns e)")
      case None
      then show ?thesis using present_resolve [OF assms, of "ie_columns e"] Some by (simp add: Cons.IH)
    next
      case r: (Some r)
      then have v: "present_values (column_map schema tuple) (ie_columns e) = map snd r" "length r = length (ie_columns e)"
        using present_resolve [OF assms, of "ie_columns e"] by simp_all
      have hd: "length r = 1 \<Longrightarrow> hd (map snd r) = snd (hd r)" by (cases r) simp_all
      obtain t1 res where ai: "art_remove (ie_tree e) (encode_key_from_values cf (map snd r)) = (t1, res)" by fastforce
      show ?thesis
        using Some r v hd by (cases res) (auto simp: Let_def ai row_index_key_def encode_key_def Cons.IH split: option.split)
    qed
  qed (simp add: Cons.IH)
qed simp

lemma on_delete_is_tuple:
  assumes full: "distinct schema" "length tuple = length schema"
  shows "am_table_indexes (fst (on_delete cf t row (column_map schema tuple) m)) = am_table_indexes m"
    and "am_indexes (fst (on_delete cf t row (column_map schema tuple) m))
      = fst (delete_loop cf False row schema tuple (table_names m t) (am_indexes m) [] None)"
  using hash_delete_is_tuple [OF full, of cf row _ "am_indexes m" None "[]" None]
  by (simp_all add: on_delete_def names_of_def Let_def case_prod_unfold del: hash_delete_loop.simps(2) delete_loop.simps(2) split: option.split list.split)

lemma on_insert_is_tuple:
  assumes full: "distinct schema" "length tuple = length schema"
  shows "am_table_indexes (fst (on_insert cf t row (column_map schema tuple) m)) = am_table_indexes m"
    and "am_indexes (fst (on_insert cf t row (column_map schema tuple) m))
      = fst (insert_loop cf False Stored row schema tuple (table_names m t) (am_indexes m) [] [] None)"
  using hash_insert_is_tuple [OF full, of cf row _ "am_indexes m" None "[]" "[]" None]
  by (simp_all add: on_insert_def names_of_def Let_def case_prod_unfold del: hash_insert_loop.simps(2) insert_loop.simps(2) split: option.split list.split)

lemma update_agrees:
  assumes a: "agrees cf t schema rows m" and mem: "(row, old) \<in> set rows"
    and full: "distinct schema" "length old = length schema" "length new = length schema"
    and short: "short_keys cf schema new (am_indexes m) (table_names m t)"
    and free: "\<forall>n \<in> set (table_names m t). \<forall>ty k. index_kind (am_indexes m) n = Some ty \<longrightarrow> is_unique_type ty \<longrightarrow>
      name_key cf schema new (am_indexes m) n = Some k \<longrightarrow>
        k \<noteq> [] \<and> (\<forall>(r, tp) \<in> set rows. name_key cf schema tp (am_indexes m) n = Some k \<longrightarrow> r = row)"
  shows "agrees cf t schema (filter (\<lambda>p. fst p \<noteq> row) rows @ [(row, new)])
      (fst (on_update cf t row (column_map schema old) (column_map schema new) m))
    \<and> am_table_indexes (fst (on_update cf t row (column_map schema old) (column_map schema new) m)) = am_table_indexes m
    \<and> same_meta (am_indexes m) (am_indexes (fst (on_update cf t row (column_map schema old) (column_map schema new) m)))"
proof -
  let ?rows = "filter (\<lambda>p. fst p \<noteq> row) rows"
  define m1 where "m1 = fst (on_delete cf t row (column_map schema old) m)"
  define m2 where "m2 = fst (on_insert cf t row (column_map schema new) m1)"
  have ready: "trees_ok short_tree (am_indexes m)" "\<forall>t. distinct (table_names m t)" using a by (auto simp: agrees_def rows_ready_def)
  have t1: "am_table_indexes m1 = am_table_indexes m"
    and i1: "am_indexes m1 = fst (delete_loop cf False row schema old (table_names m t) (am_indexes m) [] None)"
    unfolding m1_def by (rule on_delete_is_tuple [OF full(1,2)])+
  have d: "same_meta (am_indexes m) (am_indexes m1)" "trees_ok short_tree (am_indexes m1)"
      "manager_rows m1 = deleted_rows cf schema old row (am_indexes m) (table_names m t)"
    unfolding i1 using delete_loop_rows [OF ready(1) ready(2) [rule_format, of t] cache_ok_Nil, where multi = False and row = row and schema = schema and tuple = old]
    by (auto simp: case_prod_unfold)
  have a1: "agrees cf t schema ?rows m1" using t1 d ready by (intro dropped_agrees [OF a mem]) (auto simp: rows_ready_def)
  have keys: "name_key cf schema new (am_indexes m1) = name_key cf schema new (am_indexes m)" "index_kind (am_indexes m1) = index_kind (am_indexes m)"
    using same_meta_facts [OF d(1)] by simp_all
  have nr: "\<not> refuses cf schema new (am_indexes m1) n" if n: "n \<in> set (table_names m1 t)" for n
  proof
    assume "refuses cf schema new (am_indexes m1) n"
    then obtain ty k where k: "index_kind (am_indexes m) n = Some ty" "name_key cf schema new (am_indexes m) n = Some k"
        "refused ty (manager_rows m1 n) k" by (auto simp: refuses_def keys)
    then have u: "is_unique_type ty" by (simp add: refused_unique)
    have "k \<noteq> []" and other: "\<forall>(r, tp) \<in> set rows. name_key cf schema tp (am_indexes m) n = Some k \<longrightarrow> r = row"
      using free n k u t1 by (metis names_of_def)+
    then have "manager_rows m1 n k \<noteq> []" using k(3) by (auto simp: refused_def)
    moreover have "keyed cf schema (am_indexes m1) ?rows n k = []"
      using other by (fastforce simp: keyed_meta [OF d(1)] keyed_def filter_empty_conv)
    moreover have "mset (manager_rows m1 n k) = mset (keyed cf schema (am_indexes m1) ?rows n k)" using a1 n by (simp add: agrees_def)
    ultimately show False by simp
  qed
  have t2: "am_table_indexes m2 = am_table_indexes m1"
    and i2: "am_indexes m2 = fst (insert_loop cf False Stored row schema new (table_names m1 t) (am_indexes m1) [] [] None)"
    unfolding m2_def by (rule on_insert_is_tuple [OF full(1,3)])+
  have short1: "\<forall>n \<in> set (table_names m1 t). \<forall>k. name_key cf schema new (am_indexes m1) n = Some k \<longrightarrow> length k \<le> 10"
    using short by (simp add: keys t1)
  have s: "same_meta (am_indexes m1) (am_indexes m2)" "trees_ok short_tree (am_indexes m2)"
      "manager_rows m2 = stored_rows cf schema new row (am_indexes m1) (table_names m1 t)"
    unfolding i2 using stored_loop [OF admits_short d(2) _ cache_ok_Nil short1, where multi = False and row = row and undo = "[]" and fe = None] ready(2) t1
    by (auto simp: case_prod_unfold)
  have "manager_rows m2 = claimed_rows cf schema new row (am_indexes m1) (table_names m1 t)"
    using s(3) nr by (auto simp: stored_rows_def claimed_rows_def fun_eq_iff)
  then have "agrees cf t schema (?rows @ [(row, new)]) m2"
    using s t2 ready t1 nr by (intro added_agrees [OF a1]) (auto simp: rows_ready_def)
  moreover have "fst (on_update cf t row (column_map schema old) (column_map schema new) m) = m2"
    by (simp add: on_update_def m1_def m2_def case_prod_unfold Let_def)
  ultimately show ?thesis using t1 t2 same_meta_trans [OF d(1) s(1)] by simp
qed

section \<open>The store keeps them in agreement\<close>

definition store_ok :: "chrono_fmt \<Rightarrow> string \<Rightarrow> schema \<Rightarrow> row_store \<Rightarrow> bool" where
  "store_ok cf t schema s \<longleftrightarrow> agrees cf t schema (rs_rows s) (rs_manager s) \<and> (\<forall>r \<in> fst ` set (rs_rows s). r \<le> rs_counter s)"

lemma agrees_perm:
  assumes "agrees cf t schema rows m" "mset rows = mset rows'"
  shows "agrees cf t schema rows' m"
proof -
  have "mset (keyed cf schema i rows n k) = mset (keyed cf schema i rows' n k)" for i n k
    using assms(2) by (simp add: keyed_def mset_filter)
  moreover have "distinct (map fst rows) = distinct (map fst rows')"
    by (rule mset_eq_imp_distinct_iff) (simp add: assms(2))
  ultimately show ?thesis using assms(1) by (simp add: agrees_def)
qed

lemma delete_is_filter: "AList.delete r rows = filter (\<lambda>p. fst p \<noteq> r) rows"
  by (simp add: AList.delete_eq case_prod_unfold eq_commute)

lemma update_fresh: "r \<notin> fst ` set rows \<Longrightarrow> AList.update r tp rows = rows @ [(r, tp)]"
  by (induction rows) auto

lemma update_present:
  "distinct (map fst rows) \<Longrightarrow> r \<in> fst ` set rows \<Longrightarrow>
     mset (AList.update r tp rows) = mset (filter (\<lambda>p. fst p \<noteq> r) rows @ [(r, tp)])"
proof (induction rows)
  case (Cons p rows)
  show ?case
  proof (cases "fst p = r")
    case True
    then have "filter (\<lambda>p. fst p \<noteq> r) rows = rows" using Cons.prems by (intro filter_True ballI) (cases p, auto)
    then show ?thesis using True by (cases p) simp
  qed (use Cons in \<open>cases p, auto\<close>)
qed simp

lemma counter_fresh:
  assumes "\<forall>r \<in> fst ` set rows. r \<le> c" "(c :: u64) \<noteq> -1"
  shows "c + 1 \<notin> fst ` set rows" "c \<le> c + 1"
proof -
  have "c + 1 \<noteq> 0" using assms(2) by (metis add_eq_0_iff2)
  then have "c < c + 1" using unatSuc [of c] by (simp add: word_less_nat_alt add.commute)
  then show "c + 1 \<notin> fst ` set rows" "c \<le> c + 1" using assms(1) by (auto simp: not_le [symmetric] dest: bspec)
qed

lemma insert_facts:
  assumes ok: "store_ok cf t schema s" and room: "rs_counter s \<noteq> -1"
    and short: "short_keys cf schema tuple (am_indexes (rs_manager s)) (table_names (rs_manager s) t)"
    and run: "insert_tuple cf t schema faults tuple s = (s', res)"
  shows "store_ok cf t schema s' \<and> same_registry (rs_manager s) (rs_manager s')
    \<and> (\<exists>e. res = Inl e \<and> sf_after faults = None \<and> rs_rows s' = rs_rows s
        \<or> sf_after faults \<noteq> None \<and> res = Inl e
        \<or> res = Inr (rs_counter s + 1) \<and> rs_rows s' = rs_rows s @ [(rs_counter s + 1, tuple)])"
proof -
  let ?c = "rs_counter s + 1"
  have a: "agrees cf t schema (rs_rows s) (rs_manager s)" and le: "\<forall>r \<in> fst ` set (rs_rows s). r \<le> rs_counter s"
    using ok by (auto simp: store_ok_def)
  note fresh = counter_fresh [OF le room]
  have le': "r \<le> ?c" if "(r, tp) \<in> set (rs_rows s)" for r tp
  proof -
    have "r \<le> rs_counter s" using that le by force
    then show ?thesis using fresh(2) by (rule order_trans)
  qed
  obtain m r where claim: "reserve_insert_tuple cf t ?c schema tuple (rs_manager s) = (m, r)" by fastforce
  note agr = claim_agrees [OF a short claim fresh(1)]
  note defs = insert_tuple_def next_row_id_volatile_def claim_acquire_def claim_index_entries_def
  show ?thesis
  proof (cases "sf_before faults")
    case None
    show ?thesis
    proof (cases r)
      case (Inl e)
      then show ?thesis using agr claim None run by (auto simp: store_ok_def defs intro: le')
    next
      case (Inr u)
      then have a': "agrees cf t schema (rs_rows s @ [(?c, tuple)]) m" using agr by simp
      obtain m2 res2 where drop: "on_delete_tuple cf t ?c schema tuple m = (m2, res2)" by fastforce
      have "filter (\<lambda>p. fst p \<noteq> ?c) (rs_rows s) = rs_rows s" using fresh(1) by (intro filter_True ballI) force
      then have "agrees cf t schema (rs_rows s) m2" "same_registry (rs_manager s) m2"
        using release_agrees [OF a' _ drop] agr same_registry_trans by auto
      then show ?thesis using a' agr claim None Inr drop update_fresh [OF fresh(1)] run
        by (cases "sf_write faults"; cases "sf_after faults")
           (auto simp: store_ok_def defs claim_drop_def row_is_durable_def release_index_claim_def Let_def intro: le')
    qed
  qed (use a run in \<open>auto simp: store_ok_def insert_tuple_def next_row_id_volatile_def intro: le'\<close>)
qed

lemma delete_keeps:
  assumes ok: "store_ok cf t schema s" and mem: "(row, tuple) \<in> set (rs_rows s)"
  shows "store_ok cf t schema (fst (delete_tuple_fast cf t schema faults row tuple s))"
proof -
  obtain m res where run: "on_delete_tuple cf t row schema tuple (rs_manager s) = (m, res)" by fastforce
  have "agrees cf t schema (filter (\<lambda>p. fst p \<noteq> row) (rs_rows s)) m"
    using release_agrees [OF _ mem run] ok by (simp add: store_ok_def)
  then show ?thesis using ok by (cases "sf_write faults") (auto simp: delete_tuple_fast_def Let_def run delete_is_filter store_ok_def)
qed

lemma same_at_name_key:
  assumes "length old = length new" "\<forall>i < length old. same_at old new i \<longrightarrow> old ! i = new ! i"
    and "\<not> tuple_update_affects_indexes t schema old new m" "n \<in> set (table_names m t)"
    and "\<forall>n \<in> set (table_names m t). \<forall>e. map_of (am_indexes m) n = Some e \<longrightarrow> ie_table e = t"
  shows "name_key cf schema old (am_indexes m) n = name_key cf schema new (am_indexes m) n"
proof (cases "map_of (am_indexes m) n")
  case (Some e)
  then have e: "ie_table e = t" "n \<in> fst ` set (am_indexes m)" using assms(4,5) by (force dest: map_of_SomeD)+
  have same: "\<exists>i. get_column_index schema c = Some i \<and> same_at old new i" if "c \<in> set (ie_columns e)" for c
    using assms(3) that e Some unfolding tuple_update_affects_indexes_def
    by (smt (verit, best) option.case(2) option.exhaust_sel option.simps(4))
  have "resolve_columns schema old cs = resolve_columns schema new cs" if "set cs \<subseteq> set (ie_columns e)" for cs
    using that
  proof (induction cs)
    case (Cons c cs)
    then obtain i where "get_column_index schema c = Some i" "same_at old new i" using same by auto
    then show ?case using Cons assms(1,2) by simp
  qed simp
  then show ?thesis using Some by (simp add: name_key_def)
qed (simp add: name_key_def)

text \<open>
  What an in-place update is given: the stored row, full tuples, a new key that no other row has,
  and values that are equal only when they are the same (which excludes a zero changing its sign).
\<close>

definition update_ready :: "chrono_fmt \<Rightarrow> string \<Rightarrow> schema \<Rightarrow> row_id \<Rightarrow> tuple \<Rightarrow> tuple \<Rightarrow> row_store \<Rightarrow> bool" where
  "update_ready cf t schema row old new s \<longleftrightarrow> (row, old) \<in> set (rs_rows s) \<and> distinct schema
     \<and> length old = length schema \<and> length new = length schema
     \<and> short_keys cf schema new (am_indexes (rs_manager s)) (table_names (rs_manager s) t)
     \<and> (\<forall>i < length old. same_at old new i \<longrightarrow> old ! i = new ! i)
     \<and> (\<forall>n \<in> set (table_names (rs_manager s) t). \<forall>ty k. index_kind (am_indexes (rs_manager s)) n = Some ty \<longrightarrow> is_unique_type ty \<longrightarrow>
          name_key cf schema new (am_indexes (rs_manager s)) n = Some k \<longrightarrow>
          k \<noteq> [] \<and> (\<forall>(r, tp) \<in> set (rs_rows s). name_key cf schema tp (am_indexes (rs_manager s)) n = Some k \<longrightarrow> r = row))"

lemma update_keeps:
  assumes ok: "store_ok cf t schema s" and ready: "update_ready cf t schema row old new s" and hint: "hint \<noteq> Some False"
  shows "store_ok cf t schema (fst (update_tuple_fast cf t schema faults row new old hint s))"
proof (cases "sf_write faults")
  case None
  let ?m = "rs_manager s" and ?rows = "filter (\<lambda>p. fst p \<noteq> row) (rs_rows s) @ [(row, new)]"
  let ?u = "fst (on_update cf t row (column_map schema old) (column_map schema new) ?m)"
  have a: "agrees cf t schema (rs_rows s) ?m" and d: "distinct (map fst (rs_rows s))" and mem: "(row, old) \<in> set (rs_rows s)"
    using ok ready by (auto simp: store_ok_def agrees_def update_ready_def)
  have mrow: "row \<in> fst ` set (rs_rows s)" using mem by force
  note perm = update_present [OF d mrow, of new]
  have u: "agrees cf t schema ?rows ?u"
    using update_agrees [OF a mem, of new] ready unfolding update_ready_def by blast
  have n: "agrees cf t schema ?rows ?m" if no: "\<not> tuple_update_affects_indexes t schema old new ?m"
  proof (rule agrees_frame [OF a])
    have eq: "name_key cf schema old (am_indexes ?m) n = name_key cf schema new (am_indexes ?m) n" if "n \<in> set (table_names ?m t)" for n
      using ready a by (intro same_at_name_key [OF _ _ no that]) (auto simp: update_ready_def agrees_def)
    show "mset (manager_rows ?m n k) = mset (keyed cf schema (am_indexes ?m) ?rows n k)" if "n \<in> set (table_names ?m t)" for n k
      using a that keyed_without [OF d mem, of cf schema "am_indexes ?m" n k] eq [OF that]
      by (simp add: agrees_def keyed_append) (simp add: keyed_def)
  qed (use a d in \<open>auto simp: agrees_def distinct_map_filter\<close>)
  have "set (AList.update row new (rs_rows s)) = set ?rows" using perm by (metis set_mset_mset)
  then have le: "\<forall>r \<in> fst ` set (AList.update row new (rs_rows s)). r \<le> rs_counter s" using ok mrow by (auto simp: store_ok_def)
  have "agrees cf t schema (AList.update row new (rs_rows s)) ?u" by (rule agrees_perm [OF u]) (simp only: perm)
  moreover have "agrees cf t schema (AList.update row new (rs_rows s)) ?m" if "\<not> tuple_update_affects_indexes t schema old new ?m"
    by (rule agrees_perm [OF n [OF that]]) (simp only: perm)
  ultimately show ?thesis using le hint None by (cases hint) (auto simp: update_tuple_fast_def Let_def store_ok_def)
qed (use ok in \<open>simp add: update_tuple_fast_def\<close>)

lemma batch_release_agrees:
  "agrees cf t schema (base @ claimed) m \<Longrightarrow>
     agrees cf t schema base (batch_release cf t schema claimed m) \<and> same_registry m (batch_release cf t schema claimed m)"
proof (induction claimed arbitrary: m)
  case (Cons p claimed)
  obtain r tp where p: "p = (r, tp)" by (cases p)
  have "distinct (map fst (base @ (r, tp) # claimed))" using Cons.prems by (simp add: agrees_def p)
  then have "\<forall>p \<in> set base. fst p \<noteq> r" "\<forall>p \<in> set claimed. fst p \<noteq> r" by auto
  then have "filter (\<lambda>p. fst p \<noteq> r) (base @ (r, tp) # claimed) = base @ claimed" by (simp cong: filter_cong)
  moreover obtain m' res where run: "on_delete_tuple cf t r schema tp m = (m', res)" by fastforce
  ultimately have "agrees cf t schema (base @ claimed) m'" "same_registry m m'"
    using release_agrees [OF Cons.prems [unfolded p] _ run] by simp_all
  then show ?case using Cons.IH same_registry_trans by (auto simp: p release_index_claim_def run)
qed simp

lemma batch_acquire_agrees:
  assumes "agrees cf t schema (base @ claimed) m" "distinct (map fst rows)" "fst ` set (base @ claimed) \<inter> fst ` set rows = {}"
    and "\<forall>p \<in> set rows. short_keys cf schema (snd p) (am_indexes m) (table_names m t)"
  shows "case batch_acquire cf t schema claimed rows m of
      (m', Inl _) \<Rightarrow> agrees cf t schema base m' \<and> same_registry m m'
    | (m', Inr _) \<Rightarrow> agrees cf t schema (base @ claimed @ rows) m' \<and> same_registry m m'"
  using assms
proof (induction rows arbitrary: claimed m)
  case (Cons p rows)
  obtain r tp where p: "p = (r, tp)" by (cases p)
  obtain m' res where run: "reserve_insert_tuple cf t r schema tp m = (m', res)" by fastforce
  have fresh: "r \<notin> fst ` set (base @ claimed)" using Cons.prems(3) by (auto simp: p)
  have short: "short_keys cf schema tp (am_indexes m) (table_names m t)" using Cons.prems(4) by (simp add: p)
  note step = claim_agrees [OF Cons.prems(1) short run fresh]
  show ?case
  proof (cases res)
    case (Inl e)
    then show ?thesis using step batch_release_agrees [of cf t schema base claimed m'] same_registry_trans
      by (auto simp: p claim_index_entries_def run)
  next
    case (Inr u)
    have "case batch_acquire cf t schema (claimed @ [(r, tp)]) rows m' of
      (m'', Inl _) \<Rightarrow> agrees cf t schema base m'' \<and> same_registry m' m''
    | (m'', Inr _) \<Rightarrow> agrees cf t schema (base @ (claimed @ [(r, tp)]) @ rows) m'' \<and> same_registry m' m''"
      using step Inr Cons.prems same_meta_facts(2) [of "am_indexes m" "am_indexes m'"]
      by (intro Cons.IH) (auto simp: p same_registry_def)
    then show ?thesis using Inr step same_registry_trans [of m m'] unfolding p
      by (auto simp: claim_index_entries_def run split: prod.splits sum.splits)
  qed
qed simp

lemma number_rows_spec:
  "number_rows tuples s = (s', rows) \<Longrightarrow> unat (rs_counter s) + length tuples < 2 ^ 64 \<Longrightarrow>
     rs_rows s' = rs_rows s \<and> rs_manager s' = rs_manager s \<and> unat (rs_counter s') = unat (rs_counter s) + length tuples
     \<and> map snd rows = tuples \<and> map (\<lambda>p. unat (fst p)) rows = [unat (rs_counter s) + 1 ..< unat (rs_counter s) + 1 + length tuples]"
proof (induction tuples arbitrary: s s' rows)
  case (Cons tp tuples)
  let ?s = "s\<lparr>rs_counter := rs_counter s + 1\<rparr>"
  obtain rows' where n: "number_rows tuples ?s = (s', rows')" and rows: "rows = (rs_counter s + 1, tp) # rows'"
    using Cons.prems(1) by (auto simp: next_row_id_volatile_def split: prod.splits)
  have "unat (- 1 :: u64) = 2 ^ 64 - 1" by (simp add: unsigned_minus_1_eq_mask mask_eq_exp_minus_1)
  then have "rs_counter s + 1 \<noteq> 0" using Cons.prems(2) max_word_wrap [of "rs_counter s"] by auto
  then have c: "unat (rs_counter s + 1) = unat (rs_counter s) + 1" using unatSuc [of "rs_counter s"] by (simp add: add.commute)
  then show ?case using Cons.IH [OF n] Cons.prems(2) rows by (auto simp: upt_conv_Cons)
qed simp

lemma fold_update_fresh:
  "distinct (map fst new) \<Longrightarrow> fst ` set rows \<inter> fst ` set new = {} \<Longrightarrow> fold (\<lambda>(r, tp). AList.update r tp) new rows = rows @ new"
  by (induction new arbitrary: rows) (auto simp: update_fresh)

lemma batch_facts:
  assumes ok: "store_ok cf t schema s" and num: "number_rows tuples s = (s1, rows)" and room: "unat (rs_counter s) + length tuples < 2 ^ 64"
    and short: "\<forall>tp \<in> set tuples. short_keys cf schema tp (am_indexes (rs_manager s)) (table_names (rs_manager s) t)"
    and ins: "insert_prepared_tuples_fast_batch cf t schema faults rows s1 = (s', res)"
  shows "store_ok cf t schema s' \<and> same_registry (rs_manager s) (rs_manager s')
    \<and> (case res of Inl _ \<Rightarrow> rs_rows s' = rs_rows s | Inr c \<Rightarrow> c = length tuples \<and> rs_rows s' = rs_rows s @ rows)"
proof -
  note n = number_rows_spec [OF num room]
  have a: "agrees cf t schema (rs_rows s1 @ []) (rs_manager s1)" and le: "\<forall>r \<in> fst ` set (rs_rows s). unat r \<le> unat (rs_counter s)"
    using ok n by (auto simp: store_ok_def word_le_nat_alt)
  have ids: "unat (fst p) \<in> {unat (rs_counter s) + 1 ..< unat (rs_counter s) + 1 + length tuples}" if "p \<in> set rows" for p
    using that n by (metis (no_types, lifting) image_eqI list.set_map set_upt)
  have "distinct (map (\<lambda>p. unat (fst p)) rows)" using n distinct_upt by metis
  then have d: "distinct (map fst rows)" using distinct_map [of unat "map fst rows"] by (simp add: comp_def)
  have new: "fst ` set (rs_rows s1) \<inter> fst ` set rows = {}" using le ids n by fastforce
  have "\<forall>p \<in> set rows. snd p \<in> set tuples" using n by force
  then have acq: "case batch_acquire cf t schema [] rows (rs_manager s1) of
      (m', Inl _) \<Rightarrow> agrees cf t schema (rs_rows s1) m' \<and> same_registry (rs_manager s1) m'
    | (m', Inr _) \<Rightarrow> agrees cf t schema (rs_rows s1 @ [] @ rows) m' \<and> same_registry (rs_manager s1) m'"
    using short n new by (intro batch_acquire_agrees [OF a d]) auto
  have le1: "\<forall>r \<in> fst ` set (rs_rows s). r \<le> rs_counter s1" "\<forall>r \<in> fst ` set (rs_rows s @ rows). r \<le> rs_counter s1"
    using le ids n by (force simp: word_le_nat_alt)+
  obtain m r where run: "batch_acquire cf t schema [] rows (rs_manager s1) = (m, r)" by fastforce
  have len: "length rows = length tuples" using n by (metis length_map)
  have stop: ?thesis if "s' = s1\<lparr>rs_manager := m'\<rparr>" "agrees cf t schema (rs_rows s) m'" "same_registry (rs_manager s) m'"
      "(\<exists>e. res = Inl e) \<or> rows = [] \<and> res = Inr 0" for m'
  proof -
    have "store_ok cf t schema s'" using that(1,2) le1(1) n by (simp add: store_ok_def)
    then show ?thesis using that n by auto
  qed
  have stored: ?thesis if "s' = s1\<lparr>rs_rows := rs_rows s @ rows, rs_manager := m\<rparr>" "agrees cf t schema (rs_rows s @ rows) m"
      "same_registry (rs_manager s) m" "res = Inr (length rows)"
    using that le1(2) len by (simp add: store_ok_def)
  show ?thesis
  proof (cases "rows = [] \<or> sf_before faults \<noteq> None")
    case True
    then have "s' = s1\<lparr>rs_manager := rs_manager s1\<rparr> \<and> ((\<exists>e. res = Inl e) \<or> rows = [] \<and> res = Inr 0)"
      using ins by (cases "rows = []") (auto simp: insert_prepared_tuples_fast_batch_def)
    then show ?thesis using a n by (intro stop [of "rs_manager s1"]) simp_all
  next
    case False
    note ins' = ins [unfolded insert_prepared_tuples_fast_batch_def run]
    show ?thesis
    proof (cases r)
      case (Inl e)
      then show ?thesis using False ins' acq run n by (intro stop [of m]) auto
    next
      case (Inr u)
      then have m: "agrees cf t schema (rs_rows s @ rows) m" "same_registry (rs_manager s) m" using acq run n by auto
      show ?thesis
      proof (cases "sf_write faults")
        case None
        then show ?thesis using False ins' Inr m n fold_update_fresh [OF d new] by (intro stored) auto
      next
        case (Some e)
        then show ?thesis using False ins' Inr m batch_release_agrees [OF m(1)] same_registry_trans
          by (intro stop [of "batch_release cf t schema rows m"]) auto
      qed
    qed
  qed
qed

lemma agrees_same_answers:
  assumes "agrees cf t schema rows m" "agrees cf t schema rows m'" "same_registry m m'" "n \<in> set (table_names m t)"
  shows "mset (index_get_all n k m') = mset (index_get_all n k m)"
proof -
  have get: "index_get_all n k i = manager_rows i n k" for i by (simp add: index_get_all_def index_rows_def split: option.split)
  have "table_names m' t = table_names m t" "keyed cf schema (am_indexes m') = keyed cf schema (am_indexes m)"
    using assms(3) keyed_meta by (auto simp: same_registry_def)
  then show ?thesis using assms by (simp add: agrees_def get)
qed

text \<open>
  Every state the operations lead to, from an empty table whose indexes are registered: inserts
  and batches that succeed, are refused or fail at any step, deletes and in-place updates.
\<close>

inductive store_run :: "chrono_fmt \<Rightarrow> string \<Rightarrow> schema \<Rightarrow> row_store \<Rightarrow> bool" for cf t schema where
  start: "registry_ok m \<Longrightarrow> rows_ready m \<Longrightarrow> manager_rows m = (\<lambda>_ _. []) \<Longrightarrow>
     store_run cf t schema \<lparr>rs_rows = [], rs_counter = 0, rs_manager = m\<rparr>"
| insert_row: "store_run cf t schema s \<Longrightarrow> rs_counter s \<noteq> -1 \<Longrightarrow>
     short_keys cf schema tuple (am_indexes (rs_manager s)) (table_names (rs_manager s) t) \<Longrightarrow>
     store_run cf t schema (fst (insert_tuple cf t schema faults tuple s))"
| insert_batch: "store_run cf t schema s \<Longrightarrow> number_rows tuples s = (s1, rows) \<Longrightarrow> unat (rs_counter s) + length tuples < 2 ^ 64 \<Longrightarrow>
     \<forall>tp \<in> set tuples. short_keys cf schema tp (am_indexes (rs_manager s)) (table_names (rs_manager s) t) \<Longrightarrow>
     store_run cf t schema (fst (insert_prepared_tuples_fast_batch cf t schema faults rows s1))"
| delete_row: "store_run cf t schema s \<Longrightarrow> (row, tuple) \<in> set (rs_rows s) \<Longrightarrow>
     store_run cf t schema (fst (delete_tuple_fast cf t schema faults row tuple s))"
| update_row: "store_run cf t schema s \<Longrightarrow> update_ready cf t schema row old new s \<Longrightarrow> hint \<noteq> Some False \<Longrightarrow>
     store_run cf t schema (fst (update_tuple_fast cf t schema faults row new old hint s))"

lemma store_run_ok: "store_run cf t schema s \<Longrightarrow> store_ok cf t schema s"
proof (induction rule: store_run.induct)
  case (start m)
  then show ?case using registry_kind [OF start(1)] by (fastforce simp: store_ok_def agrees_def keyed_def)
next
  case (insert_row s tuple faults)
  then show ?case using insert_facts by (metis prod.collapse)
next
  case (insert_batch s tuples s1 rows faults)
  then show ?case using batch_facts by (metis prod.collapse)
qed (simp_all add: delete_keeps update_keeps)

text \<open>A store with two rows, one of them inserted under a failing write before, for the examples.\<close>

abbreviation no_faults :: store_faults where
  "no_faults \<equiv> \<lparr>sf_before = None, sf_write = None, sf_after = None\<rparr>"

definition sample_store :: row_store where
  "sample_store = \<lparr>rs_rows = [], rs_counter = 0, rs_manager = sample_manager\<rparr>"

lemma sample_store_run: "store_run cf ''t'' sample_schema sample_store"
  unfolding sample_store_def by (rule store_run.start [OF registry_run_ok [OF sample_run] sample_facts(1,2)])

lemma sample_insert:
  assumes "short_keys cf sample_schema tuple (am_indexes sample_manager) (table_names sample_manager ''t'')"
    and "\<forall>n \<in> set (table_names sample_manager ''t''). \<not> refuses cf sample_schema tuple (am_indexes sample_manager) n"
  shows "\<exists>m. insert_tuple cf ''t'' sample_schema no_faults tuple sample_store = (\<lparr>rs_rows = [(1, tuple)], rs_counter = 1, rs_manager = m\<rparr>, Inr 1)
    \<and> store_run cf ''t'' sample_schema \<lparr>rs_rows = [(1, tuple)], rs_counter = 1, rs_manager = m\<rparr>
    \<and> same_meta (am_indexes sample_manager) (am_indexes m) \<and> table_names m ''t'' = [''t_pkey'', ''u'']"
proof -
  obtain m res where run: "reserve_insert_tuple cf ''t'' 1 sample_schema tuple sample_manager = (m, res)" by fastforce
  note spec = reserve_spec [OF sample_facts(1) assms(1) run]
  then have "res = Inr ()" using assms(2) by blast
  then have eq: "insert_tuple cf ''t'' sample_schema no_faults tuple sample_store = (\<lparr>rs_rows = [(1, tuple)], rs_counter = 1, rs_manager = m\<rparr>, Inr 1)"
    by (simp add: insert_tuple_def next_row_id_volatile_def sample_store_def claim_acquire_def claim_index_entries_def run claim_drop_def
        row_is_durable_def)
  have "store_run cf ''t'' sample_schema (fst (insert_tuple cf ''t'' sample_schema no_faults tuple sample_store))"
    using assms(1) by (intro store_run.insert_row [OF sample_store_run]) (simp_all add: sample_store_def)
  then show ?thesis using eq spec sample_indexes(2) by simp
qed

lemma float_row:
  "name_key cf sample_schema [Int2 i, Float8 f] (am_indexes sample_manager) ''t_pkey'' = Some (to_be_bytes 2 (i XOR 0x8000))"
  "name_key cf sample_schema [Int2 i, Float8 f] (am_indexes sample_manager) ''u'' = Some (encode_key cf [Float8 f])"
  "short_keys cf sample_schema [Int2 i, Float8 f] (am_indexes sample_manager) (table_names sample_manager ''t'')"
  "n \<in> set (table_names sample_manager ''t'') \<Longrightarrow> \<not> refuses cf sample_schema [Int2 i, Float8 f] (am_indexes sample_manager) n"
proof -
  show k: "name_key cf sample_schema [Int2 i, Float8 f] (am_indexes sample_manager) ''t_pkey'' = Some (to_be_bytes 2 (i XOR 0x8000))"
    "name_key cf sample_schema [Int2 i, Float8 f] (am_indexes sample_manager) ''u'' = Some (encode_key cf [Float8 f])"
    by (simp_all add: name_key_def sample_indexes entry_new_def sample_schema_def get_column_index_def key_is_null_distinct_def encode_key_def)
  show "short_keys cf sample_schema [Int2 i, Float8 f] (am_indexes sample_manager) (table_names sample_manager ''t'')"
    by (auto simp: sample_indexes(2) k encode_key_def)
  have "to_be_bytes 2 v \<noteq> []" for v :: u16 using length_to_be_bytes [of 2 v] by (metis list.size(3) zero_neq_numeral)
  moreover have "index_kind (am_indexes sample_manager) ''u'' = Some Unique" by (simp add: index_kind_def sample_indexes entry_new_def)
  ultimately show "n \<in> set (table_names sample_manager ''t'') \<Longrightarrow> \<not> refuses cf sample_schema [Int2 i, Float8 f] (am_indexes sample_manager) n"
    by (auto simp: refuses_def k sample_facts sample_indexes(2) refused_def)
qed

section \<open>Properties of the store\<close>

text \<open>
  C2. In every state the storage operations lead to - rows inserted one by one or in batches,
  refused by a unique index, failed at any step, deleted or updated in place - every index of the
  table answers every key with exactly the stored rows that have it, and no two stored rows
  share the key of a unique index. The histories are those of \<open>store_run\<close>: index keys have at most ten
  bytes, the row counter does not wrap, and an update gives a stored row a non-empty key in every unique index that
  no other row has, changes no column between values that are equal but not the same (zero and
  negative zero), and has no hint that it touches no index.
\<close>

theorem indexes_agree_with_rows:
  assumes "store_run cf t schema s" "n \<in> set (table_names (rs_manager s) t)"
  shows "mset (index_get_all n k (rs_manager s)) = mset (keyed cf schema (am_indexes (rs_manager s)) (rs_rows s) n k)
    \<and> distinct (map fst (rs_rows s))
    \<and> ((\<exists>ty. index_kind (am_indexes (rs_manager s)) n = Some ty \<and> is_unique_type ty) \<longrightarrow>
        length (keyed cf schema (am_indexes (rs_manager s)) (rs_rows s) n k) \<le> 1)"
proof -
  have "agrees cf t schema (rs_rows s) (rs_manager s)" using store_run_ok [OF assms(1)] by (simp add: store_ok_def)
  moreover have "index_get_all n k (rs_manager s) = manager_rows (rs_manager s) n k"
    by (simp add: index_get_all_def index_rows_def split: option.split)
  ultimately show ?thesis using assms(2) by (auto simp: agrees_def) (metis size_mset)
qed

theorem indexes_agree_with_rows_witness:
  "\<exists>s :: row_store. rs_rows s = [(1, [Int2 7, String [1, 2]])] \<and> mset (index_get_all ''u'' [1, 2] (rs_manager s)) = {#1#}"
proof -
  let ?row = "[Int2 7, String [1, 2]]"
  obtain m where m: "store_run plain_fmt ''t'' sample_schema \<lparr>rs_rows = [(1, ?row)], rs_counter = 1, rs_manager = m\<rparr>"
      "same_meta (am_indexes sample_manager) (am_indexes m)" "table_names m ''t'' = [''t_pkey'', ''u'']"
    using sample_insert [OF sample_row_short [of "[1, 2]" plain_fmt 7]] sample_free by auto
  have "mset (index_get_all ''u'' [1, 2] m) = mset (keyed plain_fmt sample_schema (am_indexes m) [(1, ?row)] ''u'' [1, 2])"
    using indexes_agree_with_rows [OF m(1), of "''u''" "[1, 2]"] m(3) by simp
  then show ?thesis
    by (intro exI [of _ "\<lparr>rs_rows = [(1, ?row)], rs_counter = 1, rs_manager = m\<rparr>"]) (simp add: keyed_meta [OF m(2)] keyed_def sample_facts)
qed

lemma counter_room: "unat (c :: u64) + 1 < 2 ^ 64 \<Longrightarrow> c \<noteq> -1"
  by (auto simp: unsigned_minus_1_eq_mask mask_eq_exp_minus_1)

text \<open>
  C7. A row insert that is refused by an index, or that fails before or at the durable write,
  leaves the table as it was: the stored rows are the same, and every index of the table answers
  every key with the same rows. For states of \<open>store_run\<close>, a row whose index keys have at most ten bytes, and a
  row counter that does not wrap.
\<close>

theorem failed_insert_leaves_no_trace:
  assumes "store_run cf t schema s" "unat (rs_counter s) + 1 < 2 ^ 64"
    and "short_keys cf schema tuple (am_indexes (rs_manager s)) (table_names (rs_manager s) t)"
    and "insert_tuple cf t schema faults tuple s = (s', Inl e)" "sf_after faults = None"
    and "n \<in> set (table_names (rs_manager s) t)"
  shows "rs_rows s' = rs_rows s \<and> mset (index_get_all n k (rs_manager s')) = mset (index_get_all n k (rs_manager s))"
proof -
  have ok: "store_ok cf t schema s" by (rule store_run_ok [OF assms(1)])
  have "store_ok cf t schema s' \<and> same_registry (rs_manager s) (rs_manager s') \<and> rs_rows s' = rs_rows s"
    using insert_facts [OF ok counter_room [OF assms(2)] assms(3,4)] assms(5) by auto
  then show ?thesis using ok agrees_same_answers [of cf t schema "rs_rows s" "rs_manager s" "rs_manager s'" n k] assms(6)
    by (auto simp: store_ok_def)
qed

theorem failed_insert_leaves_no_trace_witness:
  "rs_rows (fst (insert_tuple plain_fmt ''t'' sample_schema \<lparr>sf_before = None, sf_write = Some ''disk full'', sf_after = None\<rparr>
      [Int2 7, String [1, 2]] sample_store)) = []"
proof -
  let ?f = "\<lparr>sf_before = None, sf_write = Some ''disk full'', sf_after = None\<rparr>"
  let ?r = "insert_tuple plain_fmt ''t'' sample_schema ?f [Int2 7, String [1, 2]] sample_store"
  have "\<exists>e. snd ?r = Inl e"
    by (simp add: insert_tuple_def next_row_id_volatile_def case_prod_unfold Let_def split: sum.split)
  then obtain e where "?r = (fst ?r, Inl e)" by (metis prod.collapse)
  from failed_insert_leaves_no_trace [OF sample_store_run _ _ this, of "''u''"] show ?thesis
    using sample_row_short [of "[1, 2]" plain_fmt 7] by (simp add: sample_store_def sample_indexes(2))
qed

text \<open>
  C27. A batch insert is all or nothing: when any row of the batch is refused, by a stored row or
  by an earlier row of the same batch, or the write fails, no row of the batch is stored and every
  index of the table answers every key with the same rows; otherwise all rows are stored. For
  states of \<open>store_run\<close>, rows whose index keys have at most ten bytes, and a row counter that does not wrap.
\<close>

theorem batch_insert_all_or_nothing:
  assumes "store_run cf t schema s" "number_rows tuples s = (s1, rows)" "unat (rs_counter s) + length tuples < 2 ^ 64"
    and "\<forall>tp \<in> set tuples. short_keys cf schema tp (am_indexes (rs_manager s)) (table_names (rs_manager s) t)"
    and "insert_prepared_tuples_fast_batch cf t schema faults rows s1 = (s', res)"
    and "n \<in> set (table_names (rs_manager s) t)"
  shows "case res of
      Inl _ \<Rightarrow> rs_rows s' = rs_rows s \<and> mset (index_get_all n k (rs_manager s')) = mset (index_get_all n k (rs_manager s))
    | Inr c \<Rightarrow> c = length tuples \<and> rs_rows s' = rs_rows s @ rows \<and> map snd rows = tuples"
proof -
  have ok: "store_ok cf t schema s" by (rule store_run_ok [OF assms(1)])
  note f = batch_facts [OF ok assms(2-5)] number_rows_spec [OF assms(2,3)]
  then show ?thesis using ok agrees_same_answers [of cf t schema "rs_rows s" "rs_manager s" "rs_manager s'" n k] assms(6)
    by (cases res) (auto simp: store_ok_def)
qed

theorem batch_insert_all_or_nothing_witness:
  "let (s1, rows) = number_rows [[Int2 7, String [1]], [Int2 8, String [2]]] sample_store
   in map fst rows = [1, 2] \<and> (case insert_prepared_tuples_fast_batch plain_fmt ''t'' sample_schema
        \<lparr>sf_before = None, sf_write = Some ''disk full'', sf_after = None\<rparr> rows s1 of (s', res) \<Rightarrow> rs_rows s' = [])"
proof -
  let ?f = "\<lparr>sf_before = None, sf_write = Some ''disk full'', sf_after = None\<rparr>"
  let ?rows = "[(1, [Int2 7, String [1]]), (2, [Int2 8, String [2]])]"
  let ?s = "sample_store\<lparr>rs_counter := 2\<rparr>"
  let ?r = "insert_prepared_tuples_fast_batch plain_fmt ''t'' sample_schema ?f ?rows ?s"
  have num: "number_rows [[Int2 7, String [1]], [Int2 8, String [2]]] sample_store = (?s, ?rows)"
    by (simp add: next_row_id_volatile_def sample_store_def)
  have "\<exists>e. snd ?r = Inl e"
    by (simp add: insert_prepared_tuples_fast_batch_def del: batch_acquire.simps split: prod.split sum.split)
  then obtain e where r: "?r = (fst ?r, Inl e)" by (metis prod.collapse)
  have "rs_rows (fst ?r) = []"
    using batch_insert_all_or_nothing [OF sample_store_run num _ _ r, of "''u''"]
      sample_row_short [of "[1]" plain_fmt 7] sample_row_short [of "[2]" plain_fmt 8]
    by (simp add: sample_store_def sample_indexes(2))
  then show ?thesis unfolding num by (simp add: case_prod_unfold Let_def)
qed

text \<open>
  C37. Changing a zero to a negative zero in an indexed column loses the row from the index:
  \<open>tuple_update_affects_indexes\<close> compares the values, which are equal, while their keys differ, so
  the update stores the new value and the index still holds the old key only. The state before
  is an ordinary one, reached by a single insert.
\<close>

theorem negative_zero_update_loses_row:
  "\<exists>s s'. store_run cf ''t'' sample_schema s \<and> rs_rows s = [(1, [Int2 7, Float8 0])]
    \<and> update_tuple_fast cf ''t'' sample_schema no_faults 1 [Int2 7, Float8 0x8000000000000000] [Int2 7, Float8 0] None s = (s', Inr 1)
    \<and> rs_rows s' = [(1, [Int2 7, Float8 0x8000000000000000])]
    \<and> index_get_all ''u'' (encode_key cf [Float8 0x8000000000000000]) (rs_manager s') = []
    \<and> mset (index_get_all ''u'' (encode_key cf [Float8 0]) (rs_manager s')) = {#1#}"
proof -
  let ?old = "[Int2 7, Float8 0]" and ?new = "[Int2 7, Float8 0x8000000000000000]"
  obtain m where run: "store_run cf ''t'' sample_schema \<lparr>rs_rows = [(1, ?old)], rs_counter = 1, rs_manager = m\<rparr>"
      and m: "same_meta (am_indexes sample_manager) (am_indexes m)" "table_names m ''t'' = [''t_pkey'', ''u'']"
    using sample_insert [OF float_row(3), of cf 7 0] float_row(4) by auto
  let ?s = "\<lparr>rs_rows = [(1, ?old)], rs_counter = 1, rs_manager = m\<rparr>"
  have n: "f64_num 0x8000000000000000 = Some 0" "f64_num 0 = Some 0"
    by (simp_all add: f64_num_def magnitude_def is_negative_def signed_units_def float_units_def bit_simps)
  have eq: "value_eq (Float8 0) (Float8 0x8000000000000000)" by (simp add: float_eq_def n partial_cmp_def cmp_def)
  have cols: "ie_columns e = [''id''] \<or> ie_columns e = [''v'']" if "map_of (am_indexes m) nm = Some e" for nm e
  proof -
    have "map_option meta (map_of (am_indexes sample_manager) nm) = Some (meta e)"
      using m(1) that by (simp add: same_meta_def)
    then show ?thesis by (auto simp: sample_indexes entry_new_def meta_def split: if_splits)
  qed
  have "\<not> tuple_update_affects_indexes ''t'' sample_schema ?old ?new m"
    using eq by (auto simp: tuple_update_affects_indexes_def sample_schema_def get_column_index_def same_at_def split: option.splits dest!: cols)
  then have upd: "update_tuple_fast cf ''t'' sample_schema no_faults 1 ?new ?old None ?s = (?s\<lparr>rs_rows := [(1, ?new)]\<rparr>, Inr 1)"
    by (simp add: update_tuple_fast_def)
  have get: "mset (index_get_all ''u'' k m) = (if k = encode_key cf [Float8 0] then {#1#} else {#})" for k
  proof -
    have "agrees cf ''t'' sample_schema [(1, ?old)] m" using store_run_ok [OF run] by (simp add: store_ok_def)
    then have "mset (manager_rows m ''u'' k) = mset (keyed cf sample_schema (am_indexes m) [(1, ?old)] ''u'' k)" using m(2) by (simp add: agrees_def)
    moreover have "index_get_all ''u'' k m = manager_rows m ''u'' k" by (simp add: index_get_all_def index_rows_def split: option.split)
    ultimately show ?thesis using float_row(2) [of cf 7 0] by (simp add: keyed_meta [OF m(1)] keyed_def)
  qed
  have "encode_key cf [Float8 0x8000000000000000] \<noteq> encode_key cf [Float8 0]"
    by (simp add: encode_key_def to_be_bytes_inj [where n = 8])
  then have "index_get_all ''u'' (encode_key cf [Float8 0x8000000000000000]) m = []"
    using get [of "encode_key cf [Float8 0x8000000000000000]"] by simp
  then show ?thesis
    using run upd get [of "encode_key cf [Float8 0]"]
    by (intro exI [of _ ?s] exI [of _ "?s\<lparr>rs_rows := [(1, ?new)]\<rparr>"]) simp
qed

end
