(* ===== verification/Sequences.thy ===== *)
theory Sequences
  imports Main "HOL-Library.AList"
begin

text \<open>
  SQL sequences: the persisted records (\<^verbatim>\<open>src/src/storage/catalog.rs\<close>), the runtime with its
  reserved block and \<open>nextval\<close>/\<open>setval\<close>/\<open>currval\<close> (\<^verbatim>\<open>src/src/sql/sequences.rs\<close>), and the
  \<open>CREATE\<close>/\<open>ALTER\<close>/\<open>DROP SEQUENCE\<close> arms of the executor (\<^verbatim>\<open>src/src/sql/executor/mod.rs\<close>). Here a
  call runs alone; \<open>Sequence_Race\<close> interleaves the same pieces. An \<open>i64\<close> is an \<open>int\<close> whose
  checked and saturating operations are written out. The outcomes of the storage calls are an
  input of every operation.
\<close>

section \<open>Machine integers\<close>

definition i64_MIN :: int where "i64_MIN = - (2 ^ 63)"
definition i64_MAX :: int where "i64_MAX = 2 ^ 63 - 1"

definition checked_add :: "int \<Rightarrow> int \<Rightarrow> int option" where
  "checked_add a b = (if i64_MIN \<le> a + b \<and> a + b \<le> i64_MAX then Some (a + b) else None)"

definition saturating_add :: "int \<Rightarrow> int \<Rightarrow> int" where
  "saturating_add a b = max i64_MIN (min i64_MAX (a + b))"

definition saturating_sub :: "int \<Rightarrow> int \<Rightarrow> int" where
  "saturating_sub a b = max i64_MIN (min i64_MAX (a - b))"

section \<open>Records\<close>

definition DEFAULT_SEQUENCE_CACHE :: int where
  "DEFAULT_SEQUENCE_CACHE = 32"

record persisted_sequence =
  ps_name :: string
  ps_data_type :: string
  ps_start_value :: int
  ps_increment_by :: int
  ps_min_value :: int
  ps_max_value :: int
  ps_cache :: int
  ps_cycle :: bool
  ps_owned_by_table :: "string option"
  ps_owned_by_column :: "string option"

record persisted_seq_state =
  pss_last_reserved :: int
  pss_is_called :: bool

definition BIGINT_MIN :: int where "BIGINT_MIN = i64_MIN + 1"
definition BIGINT_MAX :: int where "BIGINT_MAX = i64_MAX"

definition type_bounds :: "string \<Rightarrow> int \<times> int" where
  "type_bounds ty = (if ty = ''smallint'' then (- (2 ^ 15), 2 ^ 15 - 1)
     else if ty = ''integer'' then (- (2 ^ 31), 2 ^ 31 - 1) else (BIGINT_MIN, BIGINT_MAX))"

definition default_named :: "string \<Rightarrow> persisted_sequence" where
  "default_named name = \<lparr>ps_name = name, ps_data_type = ''bigint'', ps_start_value = 1, ps_increment_by = 1,
     ps_min_value = 1, ps_max_value = snd (type_bounds ''bigint''), ps_cache = DEFAULT_SEQUENCE_CACHE, ps_cycle = False,
     ps_owned_by_table = None, ps_owned_by_column = None\<rparr>"

datatype seq_error =
    ReachedMaximum string int
  | ReachedMinimum string int
  | SetvalOutOfBounds int string int int
  | MinAboveMax string int int
  | StartOutOfBounds string int int int
  | RestartOutOfBounds string int int int
  | IncrementZero
  | DoesNotExist string
  | NoStorageContext
  | StorageFailure string

section \<open>The runtime of one sequence\<close>

text \<open>\<open>rt_refill\<close> is the state of the refill mutex; a call that runs alone finds it free.\<close>

record seq_runtime =
  rt_increment :: int
  rt_min_value :: int
  rt_max_value :: int
  rt_cache :: int
  rt_cycle :: bool
  rt_start :: int
  rt_not_called_target :: int
  rt_next :: int
  rt_block_end :: int
  rt_is_called :: bool
  rt_last_served :: int
  rt_refill :: bool
  rt_volatile :: bool

definition seed_state :: "persisted_sequence \<Rightarrow> persisted_seq_state" where
  "seed_state def = \<lparr>pss_last_reserved = ps_start_value def, pss_is_called = False\<rparr>"

definition from_persisted :: "persisted_sequence \<Rightarrow> persisted_seq_state option \<Rightarrow> bool \<Rightarrow> seq_runtime" where
  "from_persisted def state volatile =
     (let st = (case state of Some st \<Rightarrow> st | None \<Rightarrow> seed_state def);
          increment = ps_increment_by def;
          last = pss_last_reserved st;
          (next, block_end) = (if pss_is_called st
            then (if increment > 0 then saturating_add last 1 else saturating_sub last 1, last)
            else (last, if increment > 0 then saturating_sub last 1 else saturating_add last 1))
      in \<lparr>rt_increment = increment, rt_min_value = ps_min_value def, rt_max_value = ps_max_value def,
          rt_cache = max (ps_cache def) 1, rt_cycle = ps_cycle def, rt_start = ps_start_value def,
          rt_not_called_target = last, rt_next = next, rt_block_end = block_end, rt_is_called = pss_is_called st,
          rt_last_served = i64_MIN, rt_refill = False, rt_volatile = volatile\<rparr>)"

definition in_block :: "seq_runtime \<Rightarrow> int \<Rightarrow> int \<Rightarrow> bool" where
  "in_block rt cur e = (if rt_increment rt > 0 then cur \<le> e else cur \<ge> e)"

definition checked_step :: "string \<Rightarrow> int \<Rightarrow> int \<Rightarrow> int \<Rightarrow> int \<Rightarrow> bool \<Rightarrow> seq_error + int" where
  "checked_step name cur incr mn mx cycle =
     (let wrapped = (if cycle then Inr (if incr > 0 then mn else mx)
           else if incr > 0 then Inl (ReachedMaximum name mx) else Inl (ReachedMinimum name mn))
      in case checked_add cur incr of
           Some n \<Rightarrow> if incr > 0 \<and> n \<le> mx then Inr n
             else if incr < 0 \<and> n \<ge> mn then Inr n
             else if incr = 0 then Inr n else wrapped
         | None \<Rightarrow> wrapped)"

text \<open>Computed in \<open>i128\<close>, which the operands cannot overflow.\<close>

definition clamp_block_end :: "int \<Rightarrow> int \<Rightarrow> int \<Rightarrow> int \<Rightarrow> int \<Rightarrow> int" where
  "clamp_block_end first incr cache mn mx = (let raw = first + incr * (max cache 1 - 1) in
     if raw < mn then mn else if raw > mx then mx else raw)"

text \<open>The pointer past \<open>v\<close>, parked just outside the block when the addition overflows.\<close>

definition step_past :: "seq_runtime \<Rightarrow> int \<Rightarrow> int \<Rightarrow> int" where
  "step_past rt v e = (case checked_add v (rt_increment rt) of
       Some n \<Rightarrow> n
     | None \<Rightarrow> if rt_increment rt > 0 then saturating_add e 1 else saturating_sub e 1)"

definition fast_next :: "seq_runtime \<Rightarrow> (seq_runtime \<times> int) option" where
  "fast_next rt = (let cur = rt_next rt; e = rt_block_end rt in
     if in_block rt cur e
     then Some (rt\<lparr>rt_next := step_past rt cur e, rt_is_called := True, rt_last_served := cur\<rparr>, cur)
     else None)"

text \<open>The first value of a new block.\<close>

definition refill_first :: "string \<Rightarrow> seq_runtime \<Rightarrow> persisted_seq_state option \<Rightarrow> seq_error + int" where
  "refill_first name rt durable =
     (let in_mem_high = rt_block_end rt;
          durable_called = (case durable of Some d \<Rightarrow> pss_is_called d | None \<Rightarrow> False);
          base_called = (durable_called \<or> rt_is_called rt)
      in if \<not> base_called then
           Inr (case durable of Some d \<Rightarrow> if \<not> pss_is_called d then pss_last_reserved d else rt_not_called_target rt
                | None \<Rightarrow> rt_not_called_target rt)
         else
           let durable_high = (case durable of Some d \<Rightarrow> pss_last_reserved d | None \<Rightarrow> in_mem_high);
               high = max durable_high in_mem_high
           in checked_step name high (rt_increment rt) (rt_min_value rt) (rt_max_value rt) (rt_cycle rt))"

definition refill_last :: "seq_runtime \<Rightarrow> int \<Rightarrow> int" where
  "refill_last rt first = clamp_block_end first (rt_increment rt) (rt_cache rt) (rt_min_value rt) (rt_max_value rt)"

definition publish_block :: "int \<Rightarrow> int \<Rightarrow> seq_runtime \<Rightarrow> seq_runtime" where
  "publish_block first e rt = rt\<lparr>rt_next := step_past rt first e, rt_is_called := True,
     rt_last_served := first, rt_block_end := e\<rparr>"

section \<open>The sequences of a database\<close>

text \<open>
  The definitions and states as the storage returns them, the cached runtimes, and whether the
  namespace has a live engine. \<open>seq_io\<close> carries the failures of one operation: of reads, of the
  two kinds of write, and of the fsync.
\<close>

record seq_db =
  sq_defs :: "(string \<times> persisted_sequence) list"
  sq_states :: "(string \<times> persisted_seq_state) list"
  sq_store :: "(string \<times> seq_runtime) list"
  sq_engine :: bool

record seq_io =
  io_read :: "string option"
  io_put_def :: "string option"
  io_put_state :: "string option"
  io_fsync :: "string option"

definition io_ok :: seq_io where
  "io_ok = \<lparr>io_read = None, io_put_def = None, io_put_state = None, io_fsync = None\<rparr>"

definition get_sequence :: "seq_io \<Rightarrow> string \<Rightarrow> seq_db \<Rightarrow> seq_error + persisted_sequence option" where
  "get_sequence io name db = (case io_read io of Some e \<Rightarrow> Inl (StorageFailure e) | None \<Rightarrow> Inr (map_of (sq_defs db) name))"

definition get_sequence_state :: "seq_io \<Rightarrow> string \<Rightarrow> seq_db \<Rightarrow> seq_error + persisted_seq_state option" where
  "get_sequence_state io name db = (case io_read io of Some e \<Rightarrow> Inl (StorageFailure e) | None \<Rightarrow> Inr (map_of (sq_states db) name))"

definition save_sequence :: "seq_io \<Rightarrow> persisted_sequence \<Rightarrow> seq_db \<Rightarrow> seq_db \<times> (seq_error + unit)" where
  "save_sequence io def db = (case io_put_def io of Some e \<Rightarrow> (db, Inl (StorageFailure e))
     | None \<Rightarrow> (db\<lparr>sq_defs := AList.update (ps_name def) def (sq_defs db)\<rparr>, Inr ()))"

definition save_sequence_state :: "seq_io \<Rightarrow> string \<Rightarrow> persisted_seq_state \<Rightarrow> seq_db \<Rightarrow> seq_db \<times> (seq_error + unit)" where
  "save_sequence_state io name st db = (case io_put_state io of Some e \<Rightarrow> (db, Inl (StorageFailure e))
     | None \<Rightarrow> (db\<lparr>sq_states := AList.update name st (sq_states db)\<rparr>, Inr ()))"

definition drop_sequence :: "seq_io \<Rightarrow> string \<Rightarrow> seq_db \<Rightarrow> seq_db \<times> (seq_error + unit)" where
  "drop_sequence io name db = (case io_put_def io of Some e \<Rightarrow> (db, Inl (StorageFailure e))
     | None \<Rightarrow> let db = db\<lparr>sq_defs := AList.delete name (sq_defs db)\<rparr> in
         (case io_put_state io of Some e \<Rightarrow> (db, Inl (StorageFailure e))
          | None \<Rightarrow> (db\<lparr>sq_states := AList.delete name (sq_states db)\<rparr>, Inr ())))"

text \<open>A failed fsync leaves the record written.\<close>

definition flush_sequence_state :: "seq_io \<Rightarrow> string \<Rightarrow> persisted_seq_state \<Rightarrow> seq_db \<Rightarrow> seq_db \<times> (seq_error + unit)" where
  "flush_sequence_state io name st db = (case save_sequence_state io name st db of
       (db, Inl e) \<Rightarrow> (db, Inl e)
     | (db, Inr _) \<Rightarrow> (db, case io_fsync io of Some e \<Rightarrow> Inl (StorageFailure e) | None \<Rightarrow> Inr ()))"

definition set_runtime :: "string \<Rightarrow> seq_runtime \<Rightarrow> seq_db \<Rightarrow> seq_db" where
  "set_runtime name rt db = db\<lparr>sq_store := AList.update name rt (sq_store db)\<rparr>"

definition invalidate_cache :: "string \<Rightarrow> seq_db \<Rightarrow> seq_db" where
  "invalidate_cache name db = db\<lparr>sq_store := AList.delete name (sq_store db)\<rparr>"

text \<open>An unknown sequence is created with defaults and seeded only if no state survives.\<close>

definition auto_vivify :: "seq_io \<Rightarrow> string \<Rightarrow> seq_db \<Rightarrow> seq_db \<times> (seq_error + seq_runtime)" where
  "auto_vivify io name db = (let def = default_named name in
     case save_sequence io def db of
       (db, Inl e) \<Rightarrow> (db, Inl e)
     | (db, Inr _) \<Rightarrow> (case get_sequence_state io name db of
         Inl e \<Rightarrow> (db, Inl e)
       | Inr (Some st) \<Rightarrow> let rt = from_persisted def (Some st) False in (set_runtime name rt db, Inr rt)
       | Inr None \<Rightarrow> (case save_sequence_state io name (seed_state def) db of
           (db, Inl e) \<Rightarrow> (db, Inl e)
         | (db, Inr _) \<Rightarrow> let rt = from_persisted def (Some (seed_state def)) False in (set_runtime name rt db, Inr rt))))"

definition runtime_for :: "seq_io \<Rightarrow> string \<Rightarrow> seq_db \<Rightarrow> seq_db \<times> (seq_error + seq_runtime)" where
  "runtime_for io name db = (case map_of (sq_store db) name of
       Some rt \<Rightarrow> (db, Inr rt)
     | None \<Rightarrow>
         if sq_engine db then (case get_sequence io name db of
             Inl e \<Rightarrow> (db, Inl e)
           | Inr (Some def) \<Rightarrow> (case get_sequence_state io name db of
               Inl e \<Rightarrow> (db, Inl e)
             | Inr st \<Rightarrow> let rt = from_persisted def st False in (set_runtime name rt db, Inr rt))
           | Inr None \<Rightarrow> auto_vivify io name db)
         else let rt = from_persisted (default_named name) None True in (set_runtime name rt db, Inr rt))"

definition persist_high_water :: "seq_io \<Rightarrow> seq_runtime \<Rightarrow> string \<Rightarrow> int \<Rightarrow> seq_db \<Rightarrow> seq_db \<times> (seq_error + unit)" where
  "persist_high_water io rt name last_reserved db =
     (if rt_volatile rt then (db, Inr ())
      else if \<not> sq_engine db then (db, Inl NoStorageContext)
      else flush_sequence_state io name \<lparr>pss_last_reserved = last_reserved, pss_is_called = True\<rparr> db)"

definition refill_block :: "seq_io \<Rightarrow> string \<Rightarrow> seq_runtime \<Rightarrow> seq_db \<Rightarrow> seq_db \<times> (seq_error + int)" where
  "refill_block io name rt db =
     (case (if rt_volatile rt \<or> \<not> sq_engine db then Inr None else get_sequence_state io name db) of
        Inl e \<Rightarrow> (db, Inl e)
      | Inr durable \<Rightarrow> (case refill_first name rt durable of
          Inl e \<Rightarrow> (db, Inl e)
        | Inr first \<Rightarrow> let last = refill_last rt first in
            (case persist_high_water io rt name last db of
               (db, Inl e) \<Rightarrow> (db, Inl e)
             | (db, Inr _) \<Rightarrow> (set_runtime name (publish_block first last rt) db, Inr first))))"

definition try_nextval :: "seq_io \<Rightarrow> string \<Rightarrow> seq_db \<Rightarrow> seq_db \<times> (seq_error + int)" where
  "try_nextval io name db = (case runtime_for io name db of
       (db, Inl e) \<Rightarrow> (db, Inl e)
     | (db, Inr rt) \<Rightarrow> (case fast_next rt of
         Some (rt, v) \<Rightarrow> (set_runtime name rt db, Inr v)
       | None \<Rightarrow> refill_block io name rt db))"

definition try_currval :: "string \<Rightarrow> seq_db \<Rightarrow> int" where
  "try_currval name db = (case map_of (sq_store db) name of
       None \<Rightarrow> 0
     | Some rt \<Rightarrow>
         if \<not> rt_is_called rt then 0
         else if rt_last_served rt \<noteq> i64_MIN then rt_last_served rt
         else (case checked_add (rt_next rt) (- rt_increment rt) of Some v \<Rightarrow> v | None \<Rightarrow> rt_next rt))"

definition peek_last_served :: "string \<Rightarrow> seq_db \<Rightarrow> int option" where
  "peek_last_served name db = (case map_of (sq_store db) name of
       None \<Rightarrow> None | Some rt \<Rightarrow> if rt_last_served rt = i64_MIN then None else Some (rt_last_served rt))"

definition setval_volatile :: "string \<Rightarrow> int \<Rightarrow> bool \<Rightarrow> seq_runtime \<Rightarrow> seq_runtime" where
  "setval_volatile name v is_called rt =
     (let nxt = (if is_called
        then (case checked_step name v (rt_increment rt) (rt_min_value rt) (rt_max_value rt) True of Inr n \<Rightarrow> n | Inl _ \<Rightarrow> v)
        else v)
      in rt\<lparr>rt_block_end := v, rt_next := nxt, rt_is_called := is_called\<rparr>)"

definition try_setval :: "seq_io \<Rightarrow> string \<Rightarrow> int \<Rightarrow> bool \<Rightarrow> seq_db \<Rightarrow> seq_db \<times> (seq_error + int)" where
  "try_setval io name v is_called db = (case runtime_for io name db of
       (db, Inl e) \<Rightarrow> (db, Inl e)
     | (db, Inr rt) \<Rightarrow>
         if v < rt_min_value rt \<or> v > rt_max_value rt
         then (db, Inl (SetvalOutOfBounds v name (rt_min_value rt) (rt_max_value rt)))
         else if rt_volatile rt then (set_runtime name (setval_volatile name v is_called rt) db, Inr v)
         else if \<not> sq_engine db then (db, Inl NoStorageContext)
         else (case flush_sequence_state io name \<lparr>pss_last_reserved = v, pss_is_called = is_called\<rparr> db of
             (db, Inl e) \<Rightarrow> (db, Inl e)
           | (db, Inr _) \<Rightarrow> (invalidate_cache name db, Inr v)))"

definition nextval :: "seq_io \<Rightarrow> string \<Rightarrow> seq_db \<Rightarrow> seq_db \<times> int" where
  "nextval io name db = (case try_nextval io name db of
       (db, Inr v) \<Rightarrow> (db, v)
     | (db, Inl _) \<Rightarrow> (case runtime_for io name db of
         (db, Inr rt) \<Rightarrow> (db, if rt_increment rt \<ge> 0 then rt_max_value rt else rt_min_value rt)
       | (db, Inl _) \<Rightarrow> (db, 0)))"

definition setval :: "seq_io \<Rightarrow> string \<Rightarrow> int \<Rightarrow> bool \<Rightarrow> seq_db \<Rightarrow> seq_db \<times> int" where
  "setval io name v is_called db = (fst (try_setval io name v is_called db), v)"

text \<open>The process ends and the database is opened again: the runtimes are gone.\<close>

definition reopen :: "seq_db \<Rightarrow> seq_db" where
  "reopen db = db\<lparr>sq_store := []\<rparr>"

section \<open>Statements\<close>

record alter_sequence_action =
  as_name :: string
  as_if_exists :: bool
  as_restart :: "int option option"
  as_increment :: "int option"
  as_min_value :: "int option option"
  as_max_value :: "int option option"
  as_cache :: "int option"
  as_cycle :: "bool option"
  as_start_value :: "int option"
  as_owned_by :: "(string \<times> string) option option"
  as_data_type :: "string option"

definition build_sequence_def :: "string \<Rightarrow> string option \<Rightarrow> int option \<Rightarrow> int option \<Rightarrow> int option \<Rightarrow> bool \<Rightarrow> int option \<Rightarrow> bool
    \<Rightarrow> int option \<Rightarrow> bool \<Rightarrow> (string \<times> string) option \<Rightarrow> seq_error + persisted_sequence" where
  "build_sequence_def name data_type start_value increment_by min_value no_minvalue max_value no_maxvalue cache cycle owned_by =
     (let ty = (case data_type of Some t \<Rightarrow> t | None \<Rightarrow> ''bigint'');
          increment = (case increment_by of Some n \<Rightarrow> if n = 0 then 1 else n | None \<Rightarrow> 1);
          (type_min, type_max) = type_bounds ty;
          default_min = (if increment \<ge> 0 then 1 else type_min);
          default_max = (if increment \<ge> 0 then type_max else -1);
          mn = (case min_value of Some n \<Rightarrow> n | None \<Rightarrow> default_min);
          mx = (case max_value of Some n \<Rightarrow> n | None \<Rightarrow> default_max);
          start = (case start_value of Some s \<Rightarrow> s | None \<Rightarrow> if increment \<ge> 0 then mn else mx);
          mn = (if increment \<ge> 0 \<and> min_value = None \<and> \<not> no_minvalue \<and> start < mn then start else mn)
      in if mn > mx then Inl (MinAboveMax name mn mx)
         else if start < mn \<or> start > mx then Inl (StartOutOfBounds name start mn mx)
         else Inr \<lparr>ps_name = name, ps_data_type = ty, ps_start_value = start, ps_increment_by = increment,
                ps_min_value = mn, ps_max_value = mx,
                ps_cache = max (case cache of Some c \<Rightarrow> c | None \<Rightarrow> DEFAULT_SEQUENCE_CACHE) 1, ps_cycle = cycle,
                ps_owned_by_table = map_option fst owned_by, ps_owned_by_column = map_option snd owned_by\<rparr>)"

text \<open>\<open>built\<close> is the outcome of \<open>build_sequence_def\<close> on the clauses of the statement.\<close>

definition exec_create_sequence :: "seq_io \<Rightarrow> bool \<Rightarrow> string \<Rightarrow> seq_error + persisted_sequence \<Rightarrow> seq_db \<Rightarrow> seq_db \<times> (seq_error + unit)" where
  "exec_create_sequence io if_not_exists name built db =
     (case io_read io of
        Some e \<Rightarrow> (db, Inl (StorageFailure e))
      | None \<Rightarrow>
        let already_exists = (map_of (sq_defs db) name \<noteq> None) in
        if if_not_exists \<and> already_exists then (db, Inr ())
        else (case built of
            Inl e \<Rightarrow> (db, Inl e)
          | Inr def \<Rightarrow> (case save_sequence io def db of
              (db, Inl e) \<Rightarrow> (db, Inl e)
            | (db, Inr _) \<Rightarrow>
                if already_exists then (invalidate_cache name db, Inr ())
                else (case save_sequence_state io name (seed_state def) db of
                    (db, Inl e) \<Rightarrow> (db, Inl e)
                  | (db, Inr _) \<Rightarrow> (invalidate_cache name db, Inr ())))))"

definition altered_def :: "alter_sequence_action \<Rightarrow> persisted_sequence \<Rightarrow> seq_error + persisted_sequence" where
  "altered_def action def =
     (let def = (case as_data_type action of
            None \<Rightarrow> def
          | Some new_type \<Rightarrow>
              let incr_sign = (case as_increment action of Some i \<Rightarrow> i | None \<Rightarrow> ps_increment_by def);
                  (tmin, tmax) = type_bounds new_type;
                  def = def\<lparr>ps_data_type := new_type\<rparr>;
                  def = (if as_min_value action = None then def\<lparr>ps_min_value := (if incr_sign \<ge> 0 then 1 else tmin)\<rparr> else def)
              in (if as_max_value action = None then def\<lparr>ps_max_value := (if incr_sign \<ge> 0 then tmax else -1)\<rparr> else def))
      in if as_increment action = Some 0 then Inl IncrementZero
      else let
          def = (case as_increment action of Some i \<Rightarrow> def\<lparr>ps_increment_by := i\<rparr> | None \<Rightarrow> def);
          def = (case as_cache action of Some c \<Rightarrow> def\<lparr>ps_cache := max c 1\<rparr> | None \<Rightarrow> def);
          def = (case as_cycle action of Some c \<Rightarrow> def\<lparr>ps_cycle := c\<rparr> | None \<Rightarrow> def);
          def = (case as_start_value action of Some s \<Rightarrow> def\<lparr>ps_start_value := s\<rparr> | None \<Rightarrow> def);
          def = (case as_min_value action of
              Some (Some n) \<Rightarrow> def\<lparr>ps_min_value := n\<rparr>
            | Some None \<Rightarrow> def\<lparr>ps_min_value := (if ps_increment_by def \<ge> 0 then 1 else fst (type_bounds (ps_data_type def)))\<rparr>
            | None \<Rightarrow> def);
          def = (case as_max_value action of
              Some (Some n) \<Rightarrow> def\<lparr>ps_max_value := n\<rparr>
            | Some None \<Rightarrow> def\<lparr>ps_max_value := (if ps_increment_by def \<ge> 0 then snd (type_bounds (ps_data_type def)) else -1)\<rparr>
            | None \<Rightarrow> def);
          def = (case as_owned_by action of
              Some (Some (t, c)) \<Rightarrow> def\<lparr>ps_owned_by_table := Some t, ps_owned_by_column := Some c\<rparr>
            | Some None \<Rightarrow> def\<lparr>ps_owned_by_table := None, ps_owned_by_column := None\<rparr>
            | None \<Rightarrow> def)
      in if ps_min_value def > ps_max_value def then Inl (MinAboveMax (as_name action) (ps_min_value def) (ps_max_value def))
         else if ps_start_value def < ps_min_value def \<or> ps_start_value def > ps_max_value def
         then Inl (StartOutOfBounds (as_name action) (ps_start_value def) (ps_min_value def) (ps_max_value def))
         else Inr def)"

definition exec_alter_sequence :: "seq_io \<Rightarrow> alter_sequence_action \<Rightarrow> seq_db \<Rightarrow> seq_db \<times> (seq_error + unit)" where
  "exec_alter_sequence io action db =
     (let name = as_name action in case get_sequence io name db of
        Inl e \<Rightarrow> (db, Inl e)
      | Inr None \<Rightarrow> (db, if as_if_exists action then Inr () else Inl (DoesNotExist name))
      | Inr (Some def) \<Rightarrow> (case altered_def action def of
          Inl e \<Rightarrow> (db, Inl e)
        | Inr def \<Rightarrow> (case save_sequence io def db of
            (db, Inl e) \<Rightarrow> (db, Inl e)
          | (db, Inr _) \<Rightarrow> (case as_restart action of
              None \<Rightarrow> (invalidate_cache name db, Inr ())
            | Some restart \<Rightarrow>
                let target = (case restart of Some n \<Rightarrow> n | None \<Rightarrow> ps_start_value def) in
                if target < ps_min_value def \<or> target > ps_max_value def
                then (db, Inl (RestartOutOfBounds name target (ps_min_value def) (ps_max_value def)))
                else (case save_sequence_state io name \<lparr>pss_last_reserved = target, pss_is_called = False\<rparr> db of
                    (db, Inl e) \<Rightarrow> (db, Inl e)
                  | (db, Inr _) \<Rightarrow> (invalidate_cache name db, Inr ()))))))"

definition exec_drop_sequence :: "seq_io \<Rightarrow> string \<Rightarrow> bool \<Rightarrow> seq_db \<Rightarrow> seq_db \<times> (seq_error + unit)" where
  "exec_drop_sequence io name if_exists db =
     (case (if if_exists then Inr None else get_sequence io name db) of
        Inl e \<Rightarrow> (db, Inl e)
      | Inr found \<Rightarrow>
          if \<not> if_exists \<and> found = None then (db, Inl (DoesNotExist name))
          else (case drop_sequence io name db of
              (db, Inl e) \<Rightarrow> (db, Inl e)
            | (db, Inr _) \<Rightarrow> (invalidate_cache name db, Inr ())))"

section \<open>The reference: an arithmetic progression\<close>

text \<open>PostgreSQL's rule on unbounded integers, with no blocks and no caching.\<close>

definition ref_next :: "persisted_sequence \<Rightarrow> int option \<Rightarrow> seq_error + int" where
  "ref_next d prev = (case prev of
       None \<Rightarrow> Inr (ps_start_value d)
     | Some v \<Rightarrow> let n = v + ps_increment_by d in
         if ps_min_value d \<le> n \<and> n \<le> ps_max_value d then Inr n
         else if ps_cycle d then Inr (if ps_increment_by d > 0 then ps_min_value d else ps_max_value d)
         else Inl (if ps_increment_by d > 0 then ReachedMaximum (ps_name d) (ps_max_value d)
           else ReachedMinimum (ps_name d) (ps_min_value d)))"

fun ref_calls :: "persisted_sequence \<Rightarrow> int option \<Rightarrow> nat \<Rightarrow> (seq_error + int) list" where
  "ref_calls d prev 0 = []"
| "ref_calls d prev (Suc n) = (case ref_next d prev of
     Inr v \<Rightarrow> Inr v # ref_calls d (Some v) n
   | Inl e \<Rightarrow> Inl e # ref_calls d prev n)"

fun nextval_calls :: "string \<Rightarrow> seq_db \<Rightarrow> nat \<Rightarrow> (seq_error + int) list" where
  "nextval_calls name db 0 = []"
| "nextval_calls name db (Suc n) = (case try_nextval io_ok name db of (db, r) \<Rightarrow> r # nextval_calls name db n)"

definition def_ok :: "persisted_sequence \<Rightarrow> bool" where
  "def_ok d \<longleftrightarrow> ps_increment_by d \<noteq> 0 \<and> i64_MIN \<le> ps_increment_by d \<and> ps_increment_by d \<le> i64_MAX
     \<and> i64_MIN \<le> ps_min_value d \<and> ps_max_value d \<le> i64_MAX
     \<and> ps_min_value d \<le> ps_start_value d \<and> ps_start_value d \<le> ps_max_value d"

text \<open>The end of a block that starts at \<open>v\<close>, and that it stays off the ends of \<open>i64\<close>.\<close>

definition block_end_of :: "persisted_sequence \<Rightarrow> int \<Rightarrow> int" where
  "block_end_of d v = clamp_block_end v (ps_increment_by d) (max (ps_cache d) 1) (ps_min_value d) (ps_max_value d)"

definition has_room :: "persisted_sequence \<Rightarrow> int \<Rightarrow> bool" where
  "has_room d v \<longleftrightarrow> i64_MIN < block_end_of d v \<and> block_end_of d v < i64_MAX"

text \<open>Bounds inside \<open>i64\<close> leave room for every block.\<close>

lemma has_room_inside: "def_ok d \<Longrightarrow> i64_MIN < ps_min_value d \<Longrightarrow> ps_max_value d < i64_MAX \<Longrightarrow> has_room d v"
  by (auto simp: has_room_def block_end_of_def clamp_block_end_def def_ok_def Let_def)

section \<open>Arithmetic of blocks\<close>

definition seq_bound :: "persisted_sequence \<Rightarrow> int" where
  "seq_bound d = (if ps_increment_by d > 0 then ps_max_value d else ps_min_value d)"

text \<open>The values from \<open>v\<close> on reach \<open>e\<close> exactly, or \<open>e\<close> is the bound.\<close>

definition reaches :: "persisted_sequence \<Rightarrow> int \<Rightarrow> int \<Rightarrow> bool" where
  "reaches d v e \<longleftrightarrow> (\<exists>k :: nat. e = v + ps_increment_by d * int k)
     \<or> e = seq_bound d \<and> (if ps_increment_by d > 0 then v \<le> e else e \<le> v)"

definition rt_cfg :: "persisted_sequence \<Rightarrow> seq_runtime \<Rightarrow> bool" where
  "rt_cfg d rt \<longleftrightarrow> rt_increment rt = ps_increment_by d \<and> rt_min_value rt = ps_min_value d \<and> rt_max_value rt = ps_max_value d
     \<and> rt_cache rt = max (ps_cache d) 1 \<and> rt_cycle rt = ps_cycle d \<and> \<not> rt_volatile rt"

lemma block_end_of_facts:
  assumes "def_ok d" "ps_min_value d \<le> v" "v \<le> ps_max_value d"
  shows "ps_min_value d \<le> block_end_of d v \<and> block_end_of d v \<le> ps_max_value d
    \<and> (if ps_increment_by d > 0 then v \<le> block_end_of d v else block_end_of d v \<le> v) \<and> reaches d v (block_end_of d v)"
proof -
  define k where "k = nat (max (ps_cache d) 1 - 1)"
  have ik: "max (ps_cache d) 1 - 1 = int k" by (simp add: k_def max_def)
  have k: "block_end_of d v = (let raw = v + ps_increment_by d * int k in
      if raw < ps_min_value d then ps_min_value d else if raw > ps_max_value d then ps_max_value d else raw)"
    by (simp add: block_end_of_def clamp_block_end_def ik)
  show ?thesis
  proof (cases "ps_increment_by d > 0")
    case True
    then have "0 \<le> ps_increment_by d * int k" by simp
    with assms(2) have "block_end_of d v = (if v + ps_increment_by d * int k > ps_max_value d then ps_max_value d else v + ps_increment_by d * int k)"
      unfolding k Let_def by auto
    moreover have "v \<le> v + ps_increment_by d * int k" using True by simp
    ultimately show ?thesis using True assms by (auto simp: reaches_def seq_bound_def intro: order_trans)
  next
    case False
    then have le: "v + ps_increment_by d * int k \<le> v" by (simp add: mult_nonpos_nonneg)
    then have "\<not> v + ps_increment_by d * int k > ps_max_value d" using assms(3) by linarith
    then have "block_end_of d v = (if v + ps_increment_by d * int k < ps_min_value d then ps_min_value d else v + ps_increment_by d * int k)"
      unfolding k Let_def by auto
    then show ?thesis using False le assms by (auto simp: reaches_def seq_bound_def)
  qed
qed

lemma lattice_step:
  fixes inc :: int and k :: nat
  assumes "0 < k"
  shows "0 < inc \<Longrightarrow> inc \<le> inc * int k" "inc < 0 \<Longrightarrow> inc * int k \<le> inc"
  using assms mult_left_mono [of 1 "int k" inc] mult_left_mono_neg [of 1 "int k" inc] by auto

text \<open>Where the pointer stands after \<open>v\<close> was taken from a block that ends at \<open>e\<close>.\<close>

lemma step_past_in_block:
  assumes "def_ok d" "rt_cfg d rt" "i64_MIN < e" "e < i64_MAX" "ps_min_value d \<le> v" "v \<le> ps_max_value d"
    and "ps_min_value d \<le> e" "e \<le> ps_max_value d" "reaches d v e" "in_block rt (step_past rt v e) e"
  shows "step_past rt v e = v + ps_increment_by d \<and> ps_min_value d \<le> v + ps_increment_by d \<and> v + ps_increment_by d \<le> ps_max_value d
    \<and> reaches d (v + ps_increment_by d) e"
proof -
  let ?i = "ps_increment_by d"
  have s: "step_past rt v e = v + ?i"
    using assms(2-4,10) by (auto simp: step_past_def checked_add_def saturating_add_def saturating_sub_def in_block_def rt_cfg_def
        split: if_splits)
  have le: "if ?i > 0 then v + ?i \<le> e else e \<le> v + ?i" using assms(2,10) by (simp add: s in_block_def rt_cfg_def split: if_splits)
  have "reaches d (v + ?i) e"
  proof (cases "\<exists>k :: nat. e = v + ?i * int k")
    case True
    then obtain k :: nat where k: "e = v + ?i * int k" by blast
    have "k \<noteq> 0" using k le assms(1) by (auto simp: def_ok_def split: if_splits)
    then obtain j where "k = Suc j" by (cases k) auto
    then show ?thesis using k by (auto simp: reaches_def algebra_simps)
  next
    case False
    then show ?thesis using assms(9) le by (auto simp: reaches_def)
  qed
  then show ?thesis using s le assms by (auto simp: def_ok_def split: if_splits)
qed

lemma step_past_exhausted:
  assumes "def_ok d" "rt_cfg d rt" "i64_MIN < e" "e < i64_MAX" "ps_min_value d \<le> v" "v \<le> ps_max_value d"
    and "ps_min_value d \<le> e" "e \<le> ps_max_value d" "reaches d v e" "\<not> in_block rt (step_past rt v e) e" "ps_name d = name"
  shows "checked_step name e (ps_increment_by d) (ps_min_value d) (ps_max_value d) (ps_cycle d) = ref_next d (Some v)"
proof -
  let ?i = "ps_increment_by d"
  have past: "if ?i > 0 then e < v + ?i else v + ?i < e"
    using assms(1-6,8,10) by (auto simp: step_past_def checked_add_def in_block_def rt_cfg_def def_ok_def split: if_splits)
  have i: "?i \<noteq> 0" using assms(1) by (simp add: def_ok_def)
  have *: "v = e \<or> e = seq_bound d"
  proof (cases "\<exists>k :: nat. e = v + ?i * int k")
    case True
    then obtain k :: nat where k: "e = v + ?i * int k" by blast
    have "k = 0"
    proof (rule ccontr)
      assume "k \<noteq> 0"
      then show False using lattice_step [of k ?i] k past i by (cases "?i > 0") auto
    qed
    then show ?thesis using k by simp
  qed (use assms(9) in \<open>auto simp: reaches_def\<close>)
  then show ?thesis
    using assms(1,5-8,11) past i
    by (cases "?i > 0") (auto simp: checked_step_def ref_next_def checked_add_def def_ok_def seq_bound_def Let_def)
qed

section \<open>Simulation\<close>

text \<open>
  The state of a sequence whose last value was \<open>prev\<close>: not loaded yet, loaded and not called, or
  called, with the block and the durable record in step.
\<close>

definition seq_rel :: "persisted_sequence \<Rightarrow> string \<Rightarrow> int option \<Rightarrow> seq_db \<Rightarrow> bool" where
  "seq_rel d name prev db \<longleftrightarrow> sq_engine db \<and> map_of (sq_defs db) name = Some d \<and> ps_name d = name \<and>
     (case prev of
        None \<Rightarrow> map_of (sq_states db) name = Some (seed_state d)
          \<and> (map_of (sq_store db) name = None \<or> map_of (sq_store db) name = Some (from_persisted d (Some (seed_state d)) False))
      | Some v \<Rightarrow> \<exists>rt. map_of (sq_store db) name = Some rt \<and> rt_cfg d rt \<and> rt_is_called rt
          \<and> map_of (sq_states db) name = Some \<lparr>pss_last_reserved = rt_block_end rt, pss_is_called = True\<rparr>
          \<and> rt_next rt = step_past rt v (rt_block_end rt) \<and> ps_min_value d \<le> v \<and> v \<le> ps_max_value d
          \<and> ps_min_value d \<le> rt_block_end rt \<and> rt_block_end rt \<le> ps_max_value d
          \<and> i64_MIN < rt_block_end rt \<and> rt_block_end rt < i64_MAX \<and> reaches d v (rt_block_end rt))"

lemma from_persisted_cfg: "rt_cfg d (from_persisted d st False)"
  by (simp add: rt_cfg_def from_persisted_def Let_def split: prod.split)

lemma refill_block_ok:
  assumes "sq_engine db" "\<not> rt_volatile rt" "refill_first name rt (map_of (sq_states db) name) = r"
  shows "refill_block io_ok name rt db = (case r of
      Inl e \<Rightarrow> (db, Inl e)
    | Inr first \<Rightarrow> (set_runtime name (publish_block first (refill_last rt first) rt)
        (db\<lparr>sq_states := AList.update name \<lparr>pss_last_reserved = refill_last rt first, pss_is_called = True\<rparr> (sq_states db)\<rparr>), Inr first))"
  using assms by (simp add: refill_block_def get_sequence_state_def io_ok_def persist_high_water_def flush_sequence_state_def
      save_sequence_state_def Let_def split: sum.split)

text \<open>A block that starts at \<open>first\<close>, published.\<close>

lemma published_rel:
  assumes "def_ok d" "rt_cfg d rt" "ps_min_value d \<le> first" "first \<le> ps_max_value d" "has_room d first"
    and "sq_engine db" "map_of (sq_defs db) name = Some d" "ps_name d = name"
  shows "seq_rel d name (Some first) (set_runtime name (publish_block first (refill_last rt first) rt)
        (db\<lparr>sq_states := AList.update name \<lparr>pss_last_reserved = refill_last rt first, pss_is_called = True\<rparr> (sq_states db)\<rparr>))"
proof -
  have e: "refill_last rt first = block_end_of d first" using assms(2) by (simp add: refill_last_def block_end_of_def rt_cfg_def)
  have sp: "step_past (publish_block first e rt) = step_past rt" for e by (simp add: fun_eq_iff step_past_def publish_block_def)
  show ?thesis
    using block_end_of_facts [OF assms(1,3,4)] assms
    by (auto simp: seq_rel_def set_runtime_def publish_block_def e sp [unfolded publish_block_def] update_conv' rt_cfg_def has_room_def)
qed

lemma nextval_called:
  assumes "def_ok d" "seq_rel d name (Some v) db" "try_nextval io_ok name db = (db', r)"
  shows "r = ref_next d (Some v) \<and> ((\<forall>n. r = Inr n \<longrightarrow> has_room d n) \<longrightarrow>
    seq_rel d name (case r of Inr n \<Rightarrow> Some n | Inl _ \<Rightarrow> Some v) db')"
proof -
  from assms(2) obtain rt where rt: "map_of (sq_store db) name = Some rt" "rt_cfg d rt" "rt_is_called rt"
      "map_of (sq_states db) name = Some \<lparr>pss_last_reserved = rt_block_end rt, pss_is_called = True\<rparr>"
      "rt_next rt = step_past rt v (rt_block_end rt)" "ps_min_value d \<le> v" "v \<le> ps_max_value d"
      "ps_min_value d \<le> rt_block_end rt" "rt_block_end rt \<le> ps_max_value d"
      "i64_MIN < rt_block_end rt" "rt_block_end rt < i64_MAX" "reaches d v (rt_block_end rt)"
    and db: "sq_engine db" "map_of (sq_defs db) name = Some d" "ps_name d = name"
    by (auto simp: seq_rel_def)
  note bounds = rt(10,11) rt(6-9,12)
  show ?thesis
  proof (cases "in_block rt (rt_next rt) (rt_block_end rt)")
    case True
    note s = step_past_in_block [OF assms(1) rt(2) bounds True [unfolded rt(5)]]
    let ?n = "v + ps_increment_by d"
    let ?rt = "rt\<lparr>rt_next := step_past rt ?n (rt_block_end rt), rt_is_called := True, rt_last_served := ?n\<rparr>"
    have sp: "step_past ?rt = step_past rt" by (simp add: fun_eq_iff step_past_def)
    have "try_nextval io_ok name db = (set_runtime name ?rt db, Inr ?n)"
      using True rt(1,5) s by (simp add: try_nextval_def runtime_for_def fast_next_def Let_def)
    then have r: "r = Inr ?n" "db' = set_runtime name ?rt db" using assms(3) by simp_all
    have "seq_rel d name (Some ?n) db'"
      using rt db s sp by (auto simp: seq_rel_def r(2) set_runtime_def update_conv' rt_cfg_def)
    then show ?thesis using r s by (simp add: ref_next_def)
  next
    case False
    note s = step_past_exhausted [OF assms(1) rt(2) bounds False [unfolded rt(5)] db(3)]
    have f: "refill_first name rt (map_of (sq_states db) name) = ref_next d (Some v)"
      using s rt(2,4) by (simp add: refill_first_def Let_def rt_cfg_def)
    have vol: "\<not> rt_volatile rt" using rt(2) by (simp add: rt_cfg_def)
    have call: "try_nextval io_ok name db = refill_block io_ok name rt db"
      using False rt(1) by (simp add: try_nextval_def runtime_for_def fast_next_def Let_def)
    note refill = refill_block_ok [OF db(1) vol f]
    show ?thesis
    proof (cases "ref_next d (Some v)")
      case (Inl e)
      then show ?thesis using call refill assms(2,3) by simp
    next
      case (Inr first)
      then have "ps_min_value d \<le> first" "first \<le> ps_max_value d"
        using rt(6,7) assms(1) by (auto simp: ref_next_def Let_def def_ok_def split: if_splits)
      moreover have "r = Inr first" using call refill Inr assms(3) by simp
      ultimately show ?thesis using published_rel [OF assms(1) rt(2)] call refill Inr assms(3) db by simp
    qed
  qed
qed

lemma first_not_in_block:
  assumes "def_ok d" "i64_MIN < pss_last_reserved st" "pss_last_reserved st < i64_MAX"
  shows "\<not> in_block (from_persisted d (Some st) False) (rt_next (from_persisted d (Some st) False)) (rt_block_end (from_persisted d (Some st) False))"
  using assms by (auto simp: from_persisted_def Let_def in_block_def saturating_add_def saturating_sub_def def_ok_def split: prod.split)

lemma load_runtime:
  assumes "sq_engine db" "map_of (sq_defs db) name = Some d" "map_of (sq_store db) name = None" "map_of (sq_states db) name = Some st"
  shows "runtime_for io_ok name db = (set_runtime name (from_persisted d (Some st) False) db, Inr (from_persisted d (Some st) False))"
  using assms by (simp add: runtime_for_def get_sequence_def get_sequence_state_def io_ok_def Let_def)

lemma set_runtime_frame [simp]:
  "sq_defs (set_runtime name rt db) = sq_defs db" "sq_states (set_runtime name rt db) = sq_states db"
  "sq_engine (set_runtime name rt db) = sq_engine db"
  "map_of (sq_store (set_runtime name rt db)) n = (if n = name then Some rt else map_of (sq_store db) n)"
  by (simp_all add: set_runtime_def update_conv')

text \<open>A call that finds a freshly loaded runtime goes to the refill.\<close>

lemma nextval_loaded:
  assumes "def_ok d" "sq_engine db" "map_of (sq_defs db) name = Some d" "map_of (sq_states db) name = Some st"
    and "map_of (sq_store db) name = None \<or> map_of (sq_store db) name = Some (from_persisted d (Some st) False)"
    and "i64_MIN < pss_last_reserved st" "pss_last_reserved st < i64_MAX"
  shows "\<exists>db1. sq_engine db1 \<and> sq_defs db1 = sq_defs db \<and> sq_states db1 = sq_states db
    \<and> try_nextval io_ok name db = refill_block io_ok name (from_persisted d (Some st) False) db1"
proof -
  let ?rt = "from_persisted d (Some st) False"
  obtain db1 where db1: "runtime_for io_ok name db = (db1, Inr ?rt)" "sq_engine db1" "sq_defs db1 = sq_defs db" "sq_states db1 = sq_states db"
    using assms(5) load_runtime [OF assms(2,3) _ assms(4)] assms(2) by (force simp: runtime_for_def)
  have "fast_next ?rt = None" using first_not_in_block [OF assms(1,6,7)] by (simp add: fast_next_def Let_def)
  then show ?thesis using db1 by (intro exI [of _ db1]) (simp add: try_nextval_def)
qed

lemma resume_first:
  assumes "def_ok d" "ps_min_value d \<le> pss_last_reserved st" "pss_last_reserved st \<le> ps_max_value d"
    and "i64_MIN < pss_last_reserved st" "pss_last_reserved st < i64_MAX" "ps_name d = name"
  shows "refill_first name (from_persisted d (Some st) False) (Some st) =
    (if pss_is_called st then ref_next d (Some (pss_last_reserved st)) else Inr (pss_last_reserved st))"
  using assms by (auto simp: refill_first_def from_persisted_def checked_step_def ref_next_def checked_add_def def_ok_def Let_def)

lemma nextval_first:
  assumes "def_ok d" "i64_MIN < ps_start_value d" "ps_start_value d < i64_MAX" "has_room d (ps_start_value d)"
    and "seq_rel d name None db" "try_nextval io_ok name db = (db', r)"
  shows "r = Inr (ps_start_value d) \<and> seq_rel d name (Some (ps_start_value d)) db'"
proof -
  have db: "sq_engine db" "map_of (sq_defs db) name = Some d" "ps_name d = name" "map_of (sq_states db) name = Some (seed_state d)"
      "map_of (sq_store db) name = None \<or> map_of (sq_store db) name = Some (from_persisted d (Some (seed_state d)) False)"
    using assms(5) by (auto simp: seq_rel_def)
  have s: "pss_last_reserved (seed_state d) = ps_start_value d" "\<not> pss_is_called (seed_state d)" by (simp_all add: seed_state_def)
  have range: "ps_min_value d \<le> ps_start_value d" "ps_start_value d \<le> ps_max_value d" using assms(1) by (auto simp: def_ok_def)
  from nextval_loaded [OF assms(1) db(1,2,4,5)] assms(2,3) s obtain db1 where db1: "sq_engine db1" "sq_defs db1 = sq_defs db"
      "sq_states db1 = sq_states db" "try_nextval io_ok name db = refill_block io_ok name (from_persisted d (Some (seed_state d)) False) db1"
    by auto
  have f: "refill_first name (from_persisted d (Some (seed_state d)) False) (map_of (sq_states db1) name) = Inr (ps_start_value d)"
    using resume_first [OF assms(1), of "seed_state d" name] assms(2,3) s range db db1 by simp
  have "\<not> rt_volatile (from_persisted d (Some (seed_state d)) False)" using from_persisted_cfg by (simp add: rt_cfg_def)
  from refill_block_ok [OF db1(1) this f] show ?thesis
    using published_rel [OF assms(1) from_persisted_cfg range assms(4) db1(1)] db db1 assms(6) by (auto simp: db1)
qed

lemma calls_eq:
  assumes "def_ok d" "i64_MIN < ps_start_value d" "ps_start_value d < i64_MAX" "seq_rel d name prev db"
    and "\<forall>v. Inr v \<in> set (ref_calls d prev n) \<longrightarrow> has_room d v"
  shows "nextval_calls name db n = ref_calls d prev n"
  using assms(4,5)
proof (induction n arbitrary: prev db)
  case (Suc n)
  obtain db' r where step: "try_nextval io_ok name db = (db', r)" by force
  show ?case
  proof (cases prev)
    case None
    have "Inr (ps_start_value d) \<in> set (ref_calls d prev (Suc n))" by (simp add: None ref_next_def)
    with Suc.prems have "has_room d (ps_start_value d)" by blast
    from nextval_first [OF assms(1-3) this] Suc.prems(1) step None
    have "r = Inr (ps_start_value d) \<and> seq_rel d name (Some (ps_start_value d)) db'" by blast
    then show ?thesis using Suc.IH [of "Some (ps_start_value d)" db'] Suc.prems(2) step by (simp add: None ref_next_def)
  next
    case (Some v)
    note nv = nextval_called [OF assms(1) Suc.prems(1) [unfolded Some] step]
    moreover have "\<forall>m. r = Inr m \<longrightarrow> has_room d m" using nv Suc.prems(2) Some by simp
    ultimately show ?thesis
      using Suc.IH Suc.prems(2) step Some by (cases r) (force split: sum.splits)+
  qed
qed simp

section \<open>Properties\<close>

text \<open>
  Blocks and caching are invisible: after \<open>CREATE SEQUENCE\<close> of a new sequence, the results
  of \<open>n\<close> calls of \<open>nextval\<close>, errors at the bound and wrap-around of cycling sequences included,
  are those of the uncached arithmetic progression from the start value, for either sign of the
  increment and every cache size, as long as no block reaches the ends of \<open>i64\<close>.
\<close>

theorem nextval_progression:
  assumes "def_ok d" "ps_name d = name" "sq_engine db" "map_of (sq_defs db) name = None"
    and "exec_create_sequence io_ok ine name (Inr d) db = (db1, res)"
    and "i64_MIN < ps_start_value d" "ps_start_value d < i64_MAX" "\<forall>v. Inr v \<in> set (ref_calls d None n) \<longrightarrow> has_room d v"
  shows "res = Inr () \<and> nextval_calls name db1 n = ref_calls d None n"
proof -
  have "res = Inr () \<and> seq_rel d name None db1"
    using assms(2-5) by (auto simp: exec_create_sequence_def io_ok_def save_sequence_def save_sequence_state_def Let_def
        seq_rel_def invalidate_cache_def update_conv' delete_conv' split: if_splits)
  then show ?thesis using calls_eq [OF assms(1,6,7) _ assms(8)] by blast
qed

definition counter_def :: persisted_sequence where
  "counter_def = \<lparr>ps_name = ''s'', ps_data_type = ''bigint'', ps_start_value = 3, ps_increment_by = 2, ps_min_value = 1,
     ps_max_value = 8, ps_cache = 2, ps_cycle = True, ps_owned_by_table = None, ps_owned_by_column = None\<rparr>"

definition empty_db :: seq_db where
  "empty_db = \<lparr>sq_defs = [], sq_states = [], sq_store = [], sq_engine = True\<rparr>"

theorem nextval_progression_witness:
  "nextval_calls ''s'' (fst (exec_create_sequence io_ok False ''s'' (Inr counter_def) empty_db)) 5 = [Inr 3, Inr 5, Inr 7, Inr 1, Inr 3]"
proof -
  have refs: "ref_calls counter_def None 5 = [Inr 3, Inr 5, Inr 7, Inr 1, Inr 3]" by code_simp
  obtain db1 res where c: "exec_create_sequence io_ok False ''s'' (Inr counter_def) empty_db = (db1, res)" by force
  have d: "def_ok counter_def" "i64_MIN < ps_min_value counter_def" "ps_max_value counter_def < i64_MAX"
    by (simp_all add: counter_def_def def_ok_def i64_MIN_def i64_MAX_def)
  have "nextval_calls ''s'' db1 5 = ref_calls counter_def None 5"
    by (rule nextval_progression [OF d(1) _ _ _ c, THEN conjunct2])
      (use has_room_inside [OF d] in \<open>simp_all add: counter_def_def empty_db_def i64_MIN_def i64_MAX_def\<close>)
  then show ?thesis using c refs by simp
qed

text \<open>
  \<open>setval\<close> is honoured by the next call, in the same process and after a reopen: with
  \<open>is_called\<close> the next value is the successor of the set value, without it the set value itself;
  a value outside the bounds is refused and changes nothing that is stored.
\<close>

theorem setval_honoured:
  assumes "def_ok d" "ps_name d = name" "sq_engine db" "map_of (sq_defs db) name = Some d" "i64_MIN < v" "v < i64_MAX"
    and "map_of (sq_store db) name = None \<or> (\<exists>rt. map_of (sq_store db) name = Some rt \<and> rt_cfg d rt)"
    and "try_setval io_ok name v c db = (db1, r)"
  shows "if ps_min_value d \<le> v \<and> v \<le> ps_max_value d
    then r = Inr v \<and> (\<forall>db2 \<in> {db1, reopen db1}. snd (try_nextval io_ok name db2) = (if c then ref_next d (Some v) else Inr v))
    else r = Inl (SetvalOutOfBounds v name (ps_min_value d) (ps_max_value d)) \<and> sq_states db1 = sq_states db \<and> sq_defs db1 = sq_defs db"
proof -
  obtain rt db0 where rt: "runtime_for io_ok name db = (db0, Inr rt)" "rt_cfg d rt" "sq_engine db0"
      "sq_states db0 = sq_states db" "sq_defs db0 = sq_defs db"
    using assms(3,4,7) from_persisted_cfg [of d]
    by (fastforce simp: runtime_for_def get_sequence_def get_sequence_state_def io_ok_def Let_def)
  show ?thesis
  proof (cases "ps_min_value d \<le> v \<and> v \<le> ps_max_value d")
    case True
    let ?st = "\<lparr>pss_last_reserved = v, pss_is_called = c\<rparr>"
    have r: "r = Inr v" "db1 = invalidate_cache name (db0\<lparr>sq_states := AList.update name ?st (sq_states db0)\<rparr>)"
      using assms(8) rt True by (auto simp: try_setval_def rt_cfg_def flush_sequence_state_def save_sequence_state_def io_ok_def)
    have "snd (try_nextval io_ok name db2) = (if c then ref_next d (Some v) else Inr v)" if "db2 \<in> {db1, reopen db1}" for db2
    proof -
      have db2: "sq_engine db2" "map_of (sq_defs db2) name = Some d" "map_of (sq_states db2) name = Some ?st" "map_of (sq_store db2) name = None"
        using that rt assms(4) by (auto simp: r(2) reopen_def invalidate_cache_def update_conv' delete_conv')
      from nextval_loaded [OF assms(1) db2(1-3)] db2(4) assms(5,6) obtain db3 where db3: "sq_engine db3" "sq_states db3 = sq_states db2"
          "try_nextval io_ok name db2 = refill_block io_ok name (from_persisted d (Some ?st) False) db3" by auto
      have "refill_first name (from_persisted d (Some ?st) False) (map_of (sq_states db3) name) = (if c then ref_next d (Some v) else Inr v)"
        using resume_first [OF assms(1), of ?st name] True assms(2,5,6) db2(3) db3(2) by simp
      moreover have "\<not> rt_volatile (from_persisted d (Some ?st) False)" using from_persisted_cfg by (simp add: rt_cfg_def)
      ultimately show ?thesis using refill_block_ok [OF db3(1)] db3(3) by (simp split: sum.split)
    qed
    then show ?thesis using r(1) True by simp
  next
    case False
    then show ?thesis using assms(8) rt by (auto simp: try_setval_def rt_cfg_def)
  qed
qed

theorem setval_honoured_witness:
  "snd (try_nextval io_ok ''s'' (reopen (fst (try_setval io_ok ''s'' 5 True (fst (exec_create_sequence io_ok False ''s'' (Inr counter_def) empty_db)))))) = Inr 7"
proof -
  let ?db = "fst (exec_create_sequence io_ok False ''s'' (Inr counter_def) empty_db)"
  obtain db1 r where s: "try_setval io_ok ''s'' 5 True ?db = (db1, r)" by force
  have ref: "ref_next counter_def (Some 5) = Inr 7" by code_simp
  have db: "sq_engine ?db" "map_of (sq_defs ?db) ''s'' = Some counter_def" "map_of (sq_store ?db) ''s'' = None" by code_simp+
  have "if ps_min_value counter_def \<le> 5 \<and> 5 \<le> ps_max_value counter_def
    then r = Inr 5 \<and> (\<forall>db2 \<in> {db1, reopen db1}. snd (try_nextval io_ok ''s'' db2) = (if True then ref_next counter_def (Some 5) else Inr 5))
    else r = Inl (SetvalOutOfBounds 5 ''s'' (ps_min_value counter_def) (ps_max_value counter_def)) \<and> sq_states db1 = sq_states ?db \<and> sq_defs db1 = sq_defs ?db"
    by (rule setval_honoured [OF _ _ db(1,2) _ _ _ s]) (use db(3) in \<open>simp_all add: counter_def_def def_ok_def i64_MIN_def i64_MAX_def\<close>)
  then show ?thesis using s ref by (simp add: counter_def_def)
qed

text \<open>
  The largest \<open>i64\<close> is handed out for ever: the pointer is parked past the block with a
  saturating addition, which stays inside a block that ends at the largest value, so the
  sequence repeats its last value instead of reporting its maximum.
\<close>

theorem top_value_repeats:
  "let d = counter_def\<lparr>ps_start_value := i64_MAX, ps_max_value := i64_MAX, ps_cycle := False\<rparr>
   in nextval_calls ''s'' (fst (exec_create_sequence io_ok False ''s'' (Inr d) empty_db)) 3 = [Inr i64_MAX, Inr i64_MAX, Inr i64_MAX]
      \<and> ref_calls d None 3 = [Inr i64_MAX, Inl (ReachedMaximum ''s'' i64_MAX), Inl (ReachedMaximum ''s'' i64_MAX)]"
  by code_simp

text \<open>
  \<open>ALTER SEQUENCE\<close> checks the new bounds against the start value only: raising \<open>MINVALUE\<close>
  and \<open>START\<close> above the current position succeeds, and the following calls return values below
  the minimum.
\<close>

theorem alter_leaves_bounds:
  "let db = fst (exec_create_sequence io_ok False ''s'' (Inr (default_named ''s'')) empty_db);
       db = fst (try_nextval io_ok ''s'' db);
       a = \<lparr>as_name = ''s'', as_if_exists = False, as_restart = None, as_increment = None, as_min_value = Some (Some 50),
         as_max_value = None, as_cache = None, as_cycle = None, as_start_value = Some 50, as_owned_by = None, as_data_type = None\<rparr>;
       (db, r) = exec_alter_sequence io_ok a db
   in r = Inr () \<and> map_option ps_min_value (map_of (sq_defs db) ''s'') = Some 50 \<and> snd (try_nextval io_ok ''s'' db) = Inr 33"
  by code_simp

text \<open>
  A refused \<open>ALTER SEQUENCE ... RESTART\<close> is half applied: the definition is saved before the
  restart value is checked, so the statement fails and the increment has changed.
\<close>

theorem refused_restart_changes_definition:
  "let db = fst (exec_create_sequence io_ok False ''s'' (Inr (default_named ''s'')) empty_db);
       a = \<lparr>as_name = ''s'', as_if_exists = False, as_restart = Some (Some 0), as_increment = Some 5, as_min_value = None,
         as_max_value = None, as_cache = None, as_cycle = None, as_start_value = None, as_owned_by = None, as_data_type = None\<rparr>;
       (db', r) = exec_alter_sequence io_ok a db
   in r = Inl (RestartOutOfBounds ''s'' 0 1 i64_MAX) \<and> map_option ps_increment_by (map_of (sq_defs db) ''s'') = Some 1
      \<and> map_option ps_increment_by (map_of (sq_defs db') ''s'') = Some 5"
  by code_simp

definition opt_i64 :: "int option \<Rightarrow> bool" where
  "opt_i64 x \<longleftrightarrow> (case x of None \<Rightarrow> True | Some n \<Rightarrow> i64_MIN \<le> n \<and> n \<le> i64_MAX)"

abbreviation within_i64 :: "int \<Rightarrow> bool" where
  "within_i64 n \<equiv> i64_MIN \<le> n \<and> n \<le> i64_MAX"

lemma type_bounds_i64: "within_i64 (fst (type_bounds ty))" "within_i64 (snd (type_bounds ty))"
  by (auto simp: type_bounds_def BIGINT_MIN_def BIGINT_MAX_def i64_MIN_def i64_MAX_def)

lemma unit_i64: "within_i64 1" "within_i64 (- 1)"
  by (simp_all add: i64_MIN_def i64_MAX_def)

lemma build_sequence_def_ok:
  assumes "opt_i64 start" "opt_i64 inc" "opt_i64 mn" "opt_i64 mx" "build_sequence_def name ty start inc mn nomin mx nomax cache cyc own = Inr d"
  shows "def_ok d"
proof -
  define i where "i = (case inc of Some n \<Rightarrow> if n = 0 then 1 else n | None \<Rightarrow> 1)"
  obtain tmin tmax where tb: "type_bounds (case ty of Some t \<Rightarrow> t | None \<Rightarrow> ''bigint'') = (tmin, tmax)" by force
  define lo where "lo = (case mn of Some n \<Rightarrow> n | None \<Rightarrow> if i \<ge> 0 then 1 else tmin)"
  define hi where "hi = (case mx of Some n \<Rightarrow> n | None \<Rightarrow> if i \<ge> 0 then tmax else -1)"
  define st where "st = (case start of Some s \<Rightarrow> s | None \<Rightarrow> if i \<ge> 0 then lo else hi)"
  define lo' where "lo' = (if i \<ge> 0 \<and> mn = None \<and> \<not> nomin \<and> st < lo then st else lo)"
  note t = type_bounds_i64 [of "case ty of Some t \<Rightarrow> t | None \<Rightarrow> ''bigint''", unfolded tb fst_conv snd_conv]
  have i: "i \<noteq> 0 \<and> within_i64 i" using assms(2) unit_i64 by (auto simp: i_def opt_i64_def split: option.split)
  have lo: "within_i64 lo" and hi: "within_i64 hi" using assms(3,4) t unit_i64 by (auto simp: lo_def hi_def opt_i64_def split: option.split)
  then have "within_i64 st" using assms(1) by (auto simp: st_def opt_i64_def split: option.split)
  then have lo': "within_i64 lo'" using lo by (simp add: lo'_def)
  from assms(5) have "lo' \<le> st \<and> st \<le> hi \<and> ps_start_value d = st \<and> ps_increment_by d = i \<and> ps_min_value d = lo' \<and> ps_max_value d = hi"
    unfolding build_sequence_def_def Let_def tb prod.case i_def [symmetric] lo_def [symmetric] hi_def [symmetric] st_def [symmetric] lo'_def [symmetric]
    by (auto split: if_splits)
  then show ?thesis using i hi lo' by (simp add: def_ok_def)
qed

lemma altered_def_ok:
  assumes "def_ok d" "opt_i64 (as_increment a)" "opt_i64 (Option.bind (as_min_value a) id)" "opt_i64 (Option.bind (as_max_value a) id)"
    and "altered_def a d = Inr d'"
  shows "def_ok d'"
proof -
  define d1 where "d1 = (case as_data_type a of None \<Rightarrow> d | Some new_type \<Rightarrow>
      let incr_sign = (case as_increment a of Some i \<Rightarrow> i | None \<Rightarrow> ps_increment_by d);
          (tmin, tmax) = type_bounds new_type;
          def = d\<lparr>ps_data_type := new_type\<rparr>;
          def = (if as_min_value a = None then def\<lparr>ps_min_value := (if incr_sign \<ge> 0 then 1 else tmin)\<rparr> else def)
      in (if as_max_value a = None then def\<lparr>ps_max_value := (if incr_sign \<ge> 0 then tmax else -1)\<rparr> else def))"
  have d1: "within_i64 (ps_min_value d1)" "within_i64 (ps_max_value d1)" "ps_increment_by d1 = ps_increment_by d"
    using assms(1) type_bounds_i64 unit_i64 unfolding d1_def def_ok_def
    by (auto simp: Let_def split: option.split prod.split) (metis fst_conv snd_conv)+
  have nz: "as_increment a \<noteq> Some 0" using assms(5) by (auto simp: altered_def_def split: if_splits)
  define i where "i = (case as_increment a of Some i \<Rightarrow> i | None \<Rightarrow> ps_increment_by d)"
  have i: "i \<noteq> 0 \<and> within_i64 i" using assms(1,2) nz by (auto simp: i_def def_ok_def opt_i64_def split: option.split)
  define d2 where "d2 = (case as_increment a of Some i \<Rightarrow> d1\<lparr>ps_increment_by := i\<rparr> | None \<Rightarrow> d1)"
  define d3 where "d3 = (case as_cache a of Some c \<Rightarrow> d2\<lparr>ps_cache := max c 1\<rparr> | None \<Rightarrow> d2)"
  define d4 where "d4 = (case as_cycle a of Some c \<Rightarrow> d3\<lparr>ps_cycle := c\<rparr> | None \<Rightarrow> d3)"
  define d5 where "d5 = (case as_start_value a of Some s \<Rightarrow> d4\<lparr>ps_start_value := s\<rparr> | None \<Rightarrow> d4)"
  define d6 where "d6 = (case as_min_value a of
        Some (Some n) \<Rightarrow> d5\<lparr>ps_min_value := n\<rparr>
      | Some None \<Rightarrow> d5\<lparr>ps_min_value := (if ps_increment_by d5 \<ge> 0 then 1 else fst (type_bounds (ps_data_type d5)))\<rparr>
      | None \<Rightarrow> d5)"
  define d7 where "d7 = (case as_max_value a of
        Some (Some n) \<Rightarrow> d6\<lparr>ps_max_value := n\<rparr>
      | Some None \<Rightarrow> d6\<lparr>ps_max_value := (if ps_increment_by d6 \<ge> 0 then snd (type_bounds (ps_data_type d6)) else -1)\<rparr>
      | None \<Rightarrow> d6)"
  define d8 where "d8 = (case as_owned_by a of
        Some (Some (t, c)) \<Rightarrow> d7\<lparr>ps_owned_by_table := Some t, ps_owned_by_column := Some c\<rparr>
      | Some None \<Rightarrow> d7\<lparr>ps_owned_by_table := None, ps_owned_by_column := None\<rparr>
      | None \<Rightarrow> d7)"
  have ok: "d' = d8 \<and> ps_min_value d8 \<le> ps_start_value d8 \<and> ps_start_value d8 \<le> ps_max_value d8"
    using assms(5) nz unfolding altered_def_def Let_def d1_def [unfolded Let_def, symmetric] d2_def [symmetric] d3_def [symmetric]
      d4_def [symmetric] d5_def [symmetric] d6_def [symmetric] d7_def [symmetric] d8_def [symmetric]
    by (auto split: if_splits)
  have 2: "ps_increment_by d2 = i" "ps_min_value d2 = ps_min_value d1" "ps_max_value d2 = ps_max_value d1"
    by (simp_all add: d2_def i_def d1(3) split: option.split)
  have 5: "ps_increment_by d5 = i" "ps_min_value d5 = ps_min_value d1" "ps_max_value d5 = ps_max_value d1"
    using 2 by (simp_all add: d5_def d4_def d3_def split: option.split)
  have 6: "ps_increment_by d6 = i" "ps_max_value d6 = ps_max_value d1" using 5 by (simp_all add: d6_def split: option.split)
  have 7: "ps_increment_by d7 = i" "ps_min_value d7 = ps_min_value d6" using 6 by (simp_all add: d7_def split: option.split)
  have 8: "ps_increment_by d8 = i" "ps_min_value d8 = ps_min_value d6" "ps_max_value d8 = ps_max_value d7"
    using 7 by (simp_all add: d8_def split: option.split prod.split)
  have "within_i64 (ps_min_value d6)"
    using d1(1) 5 assms(3) type_bounds_i64 unit_i64 by (auto simp: d6_def opt_i64_def split: option.splits)
  moreover have "within_i64 (ps_max_value d7)"
    using d1(2) 6 assms(4) type_bounds_i64 unit_i64 by (auto simp: d7_def opt_i64_def split: option.splits)
  ultimately show ?thesis using i 8 ok by (simp add: def_ok_def)
qed

text \<open>
  Accepted definitions are well formed: whatever clauses \<open>CREATE SEQUENCE\<close> and
  \<open>ALTER SEQUENCE\<close> are given, a definition they accept has a non-zero increment, bounds within
  \<open>i64\<close> and a start value between them.
\<close>

theorem accepted_definitions_ok:
  assumes "opt_i64 start" "opt_i64 inc" "opt_i64 mn" "opt_i64 mx" "build_sequence_def name ty start inc mn nomin mx nomax cache cyc own = Inr d"
    and "opt_i64 (as_increment a)" "opt_i64 (Option.bind (as_min_value a) id)" "opt_i64 (Option.bind (as_max_value a) id)"
    and "altered_def a d = Inr d'"
  shows "def_ok d \<and> def_ok d'"
  using build_sequence_def_ok [OF assms(1-5)] altered_def_ok [OF _ assms(6-9)] by blast

theorem accepted_definitions_ok_witness:
  "let a = \<lparr>as_name = ''s'', as_if_exists = False, as_restart = None, as_increment = Some (-1), as_min_value = Some None,
         as_max_value = None, as_cache = None, as_cycle = None, as_start_value = None, as_owned_by = None, as_data_type = None\<rparr>
   in case build_sequence_def ''s'' None None None None False None False None False None of
        Inr d \<Rightarrow> (case altered_def a d of Inr d' \<Rightarrow> def_ok d \<and> def_ok d' | Inl _ \<Rightarrow> False) | Inl _ \<Rightarrow> False"
proof -
  let ?a = "\<lparr>as_name = ''s'', as_if_exists = False, as_restart = None, as_increment = Some (-1), as_min_value = Some None,
         as_max_value = None, as_cache = None, as_cycle = None, as_start_value = None, as_owned_by = None, as_data_type = None\<rparr>"
  obtain d where d: "build_sequence_def ''s'' None None None None False None False None False None = Inr d"
    by (simp add: build_sequence_def_def Let_def type_bounds_def BIGINT_MAX_def i64_MAX_def)
  then obtain d' where d': "altered_def ?a d = Inr d'"
    by (auto simp: build_sequence_def_def altered_def_def Let_def type_bounds_def BIGINT_MAX_def BIGINT_MIN_def i64_MAX_def i64_MIN_def split: if_splits)
  have "def_ok d \<and> def_ok d'"
    by (rule accepted_definitions_ok [OF _ _ _ _ d _ _ _ d']) (simp_all add: opt_i64_def i64_MIN_def i64_MAX_def)
  then show ?thesis using d d' by (simp add: Let_def)
qed

end
