(* ===== verification/Interleaving.thy ===== *)
theory Interleaving
  imports Main
begin

text \<open>
  Shared lemmas on interleaved threads. The program counters of the threads are a list, a step
  updates one position; \<open>sole\<close> says that a lock flag is set exactly while one thread is in the
  section it guards, and \<open>all_threads\<close> that every program counter satisfies its assertion.
\<close>

definition sole :: "('a \<Rightarrow> bool) \<Rightarrow> bool \<Rightarrow> 'a list \<Rightarrow> bool" where
  "sole P flag xs \<longleftrightarrow> (if flag then \<exists>l < length xs. \<forall>t < length xs. P (xs ! t) \<longleftrightarrow> t = l
     else \<forall>t < length xs. \<not> P (xs ! t))"

definition all_threads :: "('a \<Rightarrow> bool) \<Rightarrow> 'a list \<Rightarrow> bool" where
  "all_threads A xs \<longleftrightarrow> (\<forall>t < length xs. A (xs ! t))"

lemma sole_keep: "sole P flag xs \<Longrightarrow> t < length xs \<Longrightarrow> P c = P (xs ! t) \<Longrightarrow> sole P flag (xs[t := c])"
  by (auto simp: sole_def nth_list_update split: if_splits)

lemma sole_enter: "sole P False xs \<Longrightarrow> t < length xs \<Longrightarrow> P c \<Longrightarrow> sole P True (xs[t := c])"
  by (auto simp: sole_def nth_list_update)

lemma sole_leave: "sole P True xs \<Longrightarrow> t < length xs \<Longrightarrow> P (xs ! t) \<Longrightarrow> \<not> P c \<Longrightarrow> sole P False (xs[t := c])"
  by (auto simp: sole_def nth_list_update)

lemma sole_replicate [simp]: "\<not> P c \<Longrightarrow> sole P False (replicate n c)"
  by (simp add: sole_def)

lemma sole_flag: "sole P flag xs \<Longrightarrow> t < length xs \<Longrightarrow> P (xs ! t) \<Longrightarrow> flag"
  by (auto simp: sole_def split: if_splits)

lemma sole_unique: "sole P flag xs \<Longrightarrow> t < length xs \<Longrightarrow> u < length xs \<Longrightarrow> P (xs ! t) \<Longrightarrow> P (xs ! u) \<Longrightarrow> t = u"
  by (auto simp: sole_def split: if_splits)

lemma sole_exists: "sole P True xs \<Longrightarrow> \<exists>t < length xs. P (xs ! t)"
  by (auto simp: sole_def)

lemma all_threads_at: "all_threads A xs \<Longrightarrow> t < length xs \<Longrightarrow> A (xs ! t)"
  by (simp add: all_threads_def)

lemma all_threads_replicate [simp]: "A c \<Longrightarrow> all_threads A (replicate n c)"
  by (simp add: all_threads_def)

text \<open>A step of thread \<open>t\<close>: it reaches its own assertion and keeps those of the others.\<close>

lemma all_threads_step:
  assumes "all_threads A xs" "B c" "\<And>u. u < length xs \<Longrightarrow> u \<noteq> t \<Longrightarrow> A (xs ! u) \<Longrightarrow> B (xs ! u)"
  shows "all_threads B (xs[t := c])"
  unfolding all_threads_def
proof (intro allI impI)
  fix u assume "u < length (xs[t := c])"
  then show "B (xs[t := c] ! u)" using assms by (cases "u = t") (auto simp: all_threads_def)
qed

text \<open>A variant that bounds the number of steps the threads can still take.\<close>

lemma sum_list_step: "t < length xs \<Longrightarrow> sum_list (map w (xs[t := c])) + w (xs ! t) = sum_list (map w xs) + (w c :: nat)"
proof (induction xs arbitrary: t)
  case (Cons x xs)
  then show ?case by (cases t) (simp_all add: algebra_simps)
qed simp

end
