(* ===== verification/Sequence_Race.thy ===== *)
theory Sequence_Race
  imports Sequences Interleaving
begin

text \<open>
  Concurrent \<open>nextval\<close> on one sequence (\<^verbatim>\<open>src/src/sql/sequences.rs\<close>, \<open>runtime_for\<close> and
  \<open>try_nextval_in\<close>), one atomic load, store, compare-and-swap or storage call per step and in
  program order. Runtimes live on a heap, because threads keep the handle they fetched; the map
  holds one handle or none. The log lists the state records that may survive a crash, newest
  first: reads see the newest, an fsync leaves only it, a crash leaves any one of them and
  forgets the runtimes. \<open>ss_served\<close> collects every value handed out.
\<close>

section \<open>Threads\<close>

datatype seq_pc =
    Start
  | Built seq_runtime
  | Have nat
  | GotNext nat int
  | GotEnd nat int int
  | WantLock nat
  | Locked nat
  | LockedCur nat int
  | Refill nat
  | Flush nat int int
  | Fsync nat int int
  | Publish nat int int
  | Mark nat int int
  | Widen nat int int
  | Done "seq_error + int"

record seq_sys =
  ss_log :: "persisted_seq_state list"
  ss_store :: "nat option"
  ss_heap :: "seq_runtime list"
  ss_threads :: "seq_pc list"
  ss_served :: "int list"

abbreviation at_pc :: "nat \<Rightarrow> seq_pc \<Rightarrow> seq_sys \<Rightarrow> seq_sys" where
  "at_pc t c s \<equiv> s\<lparr>ss_threads := (ss_threads s)[t := c]\<rparr>"

abbreviation upd_rt :: "nat \<Rightarrow> (seq_runtime \<Rightarrow> seq_runtime) \<Rightarrow> seq_sys \<Rightarrow> seq_sys" where
  "upd_rt h f s \<equiv> s\<lparr>ss_heap := (ss_heap s)[h := f (ss_heap s ! h)]\<rparr>"

abbreviation serve :: "int \<Rightarrow> seq_sys \<Rightarrow> seq_sys" where
  "serve v s \<equiv> s\<lparr>ss_served := v # ss_served s\<rparr>"

text \<open>
  One step of thread \<open>t\<close> for the sequence with definition \<open>d\<close>; \<open>fault\<close> is the outcome of the
  storage call, if the step makes one. \<open>None\<close>: the thread is blocked on the mutex.
\<close>

definition thread_step :: "persisted_sequence \<Rightarrow> bool \<Rightarrow> nat \<Rightarrow> seq_sys \<Rightarrow> seq_sys option" where
  "thread_step d fault t s = (let rt = (\<lambda>h. ss_heap s ! h) in case ss_threads s ! t of
     Start \<Rightarrow> Some (case ss_store s of
         Some h \<Rightarrow> at_pc t (Have h) s
       | None \<Rightarrow> if fault then at_pc t (Done (Inl (StorageFailure ''read''))) s
           else at_pc t (Built (from_persisted d (case ss_log s of r # _ \<Rightarrow> Some r | [] \<Rightarrow> None) False)) s)
   | Built r \<Rightarrow> Some (case ss_store s of
         Some h \<Rightarrow> at_pc t (Have h) s
       | None \<Rightarrow> at_pc t (Have (length (ss_heap s))) (s\<lparr>ss_heap := ss_heap s @ [r], ss_store := Some (length (ss_heap s))\<rparr>))
   | Have h \<Rightarrow> Some (at_pc t (GotNext h (rt_next (rt h))) s)
   | GotNext h cur \<Rightarrow> Some (let e = rt_block_end (rt h) in
         if in_block (rt h) cur e then at_pc t (GotEnd h cur e) s else at_pc t (WantLock h) s)
   | GotEnd h cur e \<Rightarrow> Some (if rt_next (rt h) = cur
         then at_pc t (Done (Inr cur)) (serve cur (upd_rt h (\<lambda>r. r\<lparr>rt_next := step_past r cur e, rt_is_called := True, rt_last_served := cur\<rparr>) s))
         else at_pc t (Have h) s)
   | WantLock h \<Rightarrow> if rt_refill (rt h) then None else Some (at_pc t (Locked h) (upd_rt h (\<lambda>r. r\<lparr>rt_refill := True\<rparr>) s))
   | Locked h \<Rightarrow> Some (at_pc t (LockedCur h (rt_next (rt h))) s)
   | LockedCur h cur \<Rightarrow> Some (if in_block (rt h) cur (rt_block_end (rt h))
         then at_pc t Start (upd_rt h (\<lambda>r. r\<lparr>rt_refill := False\<rparr>) s) else at_pc t (Refill h) s)
   | Refill h \<Rightarrow> Some (case (if fault then Inl (StorageFailure ''read'')
           else refill_first (ps_name d) (rt h) (case ss_log s of r # _ \<Rightarrow> Some r | [] \<Rightarrow> None)) of
         Inl e \<Rightarrow> at_pc t (Done (Inl e)) (upd_rt h (\<lambda>r. r\<lparr>rt_refill := False\<rparr>) s)
       | Inr first \<Rightarrow> at_pc t (Flush h first (refill_last (rt h) first)) s)
   | Flush h first e \<Rightarrow> Some (if fault then at_pc t (Done (Inl (StorageFailure ''put''))) (upd_rt h (\<lambda>r. r\<lparr>rt_refill := False\<rparr>) s)
         else at_pc t (Fsync h first e) (s\<lparr>ss_log := \<lparr>pss_last_reserved = e, pss_is_called = True\<rparr> # ss_log s\<rparr>))
   | Fsync h first e \<Rightarrow> Some (if fault then at_pc t (Done (Inl (StorageFailure ''fsync''))) (upd_rt h (\<lambda>r. r\<lparr>rt_refill := False\<rparr>) s)
         else at_pc t (Publish h first e) (s\<lparr>ss_log := take 1 (ss_log s)\<rparr>))
   | Publish h first e \<Rightarrow> Some (at_pc t (Mark h first e) (serve first (upd_rt h (\<lambda>r. r\<lparr>rt_next := step_past r first e\<rparr>) s)))
   | Mark h first e \<Rightarrow> Some (at_pc t (Widen h first e) (upd_rt h (\<lambda>r. r\<lparr>rt_is_called := True, rt_last_served := first\<rparr>) s))
   | Widen h first e \<Rightarrow> Some (at_pc t (Done (Inr first)) (upd_rt h (\<lambda>r. r\<lparr>rt_block_end := e, rt_refill := False\<rparr>) s))
   | Done r \<Rightarrow> Some (at_pc t Start s))"

text \<open>A crash: the log keeps record \<open>i\<close>, a new process starts with the same number of threads.\<close>

definition crash_step :: "nat \<Rightarrow> seq_sys \<Rightarrow> seq_sys option" where
  "crash_step i s = (if i < length (ss_log s)
     then Some (s\<lparr>ss_log := [ss_log s ! i], ss_store := None, ss_heap := [], ss_threads := map (\<lambda>_. Start) (ss_threads s)\<rparr>)
     else None)"

text \<open>\<open>setval\<close> run in one piece: it takes the mutex of the current runtime, if there is one.\<close>

definition setval_step :: "int \<Rightarrow> bool \<Rightarrow> seq_sys \<Rightarrow> seq_sys option" where
  "setval_step v is_called s =
     (if (case ss_store s of Some h \<Rightarrow> rt_refill (ss_heap s ! h) | None \<Rightarrow> False) then None
      else Some (s\<lparr>ss_log := [\<lparr>pss_last_reserved = v, pss_is_called = is_called\<rparr>], ss_store := None\<rparr>))"

datatype seq_action = Advance nat bool | Crash nat | Setval int bool

definition seq_exec :: "persisted_sequence \<Rightarrow> seq_action \<Rightarrow> seq_sys \<Rightarrow> seq_sys option" where
  "seq_exec d a s = (case a of
       Advance t fault \<Rightarrow> if t < length (ss_threads s) then thread_step d fault t s else None
     | Crash i \<Rightarrow> crash_step i s
     | Setval v c \<Rightarrow> setval_step v c s)"

fun seq_execs :: "persisted_sequence \<Rightarrow> seq_action list \<Rightarrow> seq_sys \<Rightarrow> seq_sys option" where
  "seq_execs d [] s = Some s"
| "seq_execs d (a # as) s = (case seq_exec d a s of Some s \<Rightarrow> seq_execs d as s | None \<Rightarrow> None)"

definition seq_init :: "persisted_sequence \<Rightarrow> nat \<Rightarrow> seq_sys" where
  "seq_init d n = \<lparr>ss_log = [seed_state d], ss_store = None, ss_heap = [], ss_threads = replicate n Start, ss_served = []\<rparr>"

text \<open>
  Runs of \<open>nextval\<close> and crashes in which every reserved block stays off the ends of \<open>i64\<close>.
\<close>

inductive seq_reach :: "persisted_sequence \<Rightarrow> seq_sys \<Rightarrow> bool" for d where
  init: "seq_reach d (seq_init d n)"
| exec: "seq_reach d s \<Longrightarrow> seq_exec d a s = Some s' \<Longrightarrow> (\<And>v c. a \<noteq> Setval v c)
    \<Longrightarrow> (\<forall>r \<in> set (ss_log s'). i64_MIN < pss_last_reserved r \<and> pss_last_reserved r < i64_MAX) \<Longrightarrow> seq_reach d s'"

section \<open>Invariant\<close>

text \<open>The order in which a sequence hands out values.\<close>

definition no_later :: "persisted_sequence \<Rightarrow> int \<Rightarrow> int \<Rightarrow> bool" where
  "no_later d a b \<longleftrightarrow> (if ps_increment_by d > 0 then a \<le> b else b \<le> a)"

definition before :: "persisted_sequence \<Rightarrow> int \<Rightarrow> int \<Rightarrow> bool" where
  "before d a b \<longleftrightarrow> (if ps_increment_by d > 0 then a < b else b < a)"

lemma before_no_later: "before d a b \<longleftrightarrow> \<not> no_later d b a"
  by (auto simp: before_def no_later_def)

lemma no_later_refl [simp]: "no_later d a a"
  by (simp add: no_later_def)

lemma no_later_trans: "no_later d a b \<Longrightarrow> no_later d b c \<Longrightarrow> no_later d a c"
  by (auto simp: no_later_def split: if_splits)

lemma before_trans: "before d a b \<Longrightarrow> no_later d b c \<Longrightarrow> before d a c" "no_later d a b \<Longrightarrow> before d b c \<Longrightarrow> before d a c"
  "before d a b \<Longrightarrow> no_later d a b"
  by (auto simp: no_later_def before_def split: if_splits)

lemma in_block_no_later: "rt_cfg d rt \<Longrightarrow> in_block rt a b = no_later d a b"
  by (simp add: in_block_def no_later_def rt_cfg_def)

abbreviation in_bounds :: "persisted_sequence \<Rightarrow> int \<Rightarrow> bool" where
  "in_bounds d v \<equiv> ps_min_value d \<le> v \<and> v \<le> ps_max_value d"

text \<open>The records that may survive a crash, and the values handed out so far.\<close>

definition log_inv :: "persisted_sequence \<Rightarrow> persisted_seq_state list \<Rightarrow> int list \<Rightarrow> bool" where
  "log_inv d log served \<longleftrightarrow> log \<noteq> [] \<and> distinct served
     \<and> (\<forall>r \<in> set log. in_bounds d (pss_last_reserved r) \<and> i64_MIN < pss_last_reserved r \<and> pss_last_reserved r < i64_MAX)
     \<and> (\<forall>v \<in> set served. in_bounds d v \<and> (\<forall>r \<in> set log. pss_is_called r \<and> no_later d v (pss_last_reserved r)))"

text \<open>
  The runtime: everything handed out lies before \<open>next\<close>, the block lies within every record, and
  \<open>next\<close> is at most one step past the block except while a new block is being published.
\<close>

definition rt_inv :: "persisted_sequence \<Rightarrow> persisted_seq_state list \<Rightarrow> int list \<Rightarrow> bool \<Rightarrow> seq_runtime \<Rightarrow> bool" where
  "rt_inv d log served mid rt \<longleftrightarrow> rt_cfg d rt
     \<and> ps_min_value d - 1 \<le> rt_block_end rt \<and> rt_block_end rt \<le> ps_max_value d + 1
     \<and> (if ps_increment_by d > 0 then rt_block_end rt \<le> ps_max_value d else ps_min_value d \<le> rt_block_end rt)
     \<and> (\<forall>r \<in> set log. pss_is_called r \<longrightarrow> no_later d (rt_block_end rt) (pss_last_reserved r))
     \<and> (\<forall>v \<in> set served. before d v (rt_next rt))
     \<and> (if ps_increment_by d > 0 then ps_min_value d \<le> rt_next rt else rt_next rt \<le> ps_max_value d)
     \<and> ((\<exists>r \<in> set log. \<not> pss_is_called r) \<longrightarrow> before d (rt_block_end rt) (rt_next rt) \<and> \<not> rt_is_called rt)
     \<and> (\<not> pss_is_called (hd log) \<longrightarrow> rt_next rt = pss_last_reserved (hd log))
     \<and> (mid \<or> no_later d (rt_next rt) (rt_block_end rt + ps_increment_by d))"

fun holds :: "seq_pc \<Rightarrow> bool" where
  "holds (Locked h) = True"
| "holds (LockedCur h cur) = True"
| "holds (Refill h) = True"
| "holds (Flush h first e) = True"
| "holds (Fsync h first e) = True"
| "holds (Publish h first e) = True"
| "holds (Mark h first e) = True"
| "holds (Widen h first e) = True"
| "holds _ = False"

fun is_mid :: "seq_pc \<Rightarrow> bool" where
  "is_mid (Mark h first e) = True"
| "is_mid (Widen h first e) = True"
| "is_mid _ = False"

definition new_block :: "persisted_sequence \<Rightarrow> int \<Rightarrow> int \<Rightarrow> bool" where
  "new_block d first e \<longleftrightarrow> in_bounds d first \<and> in_bounds d e \<and> no_later d first e"

fun pc_inv :: "persisted_sequence \<Rightarrow> persisted_seq_state list \<Rightarrow> int list \<Rightarrow> seq_runtime \<Rightarrow> seq_pc \<Rightarrow> bool" where
  "pc_inv d log served rt Start = True"
| "pc_inv d log served rt (Built r) = True"
| "pc_inv d log served rt (Done r) = True"
| "pc_inv d log served rt (Have h) = (h = 0)"
| "pc_inv d log served rt (GotNext h cur) = (h = 0)"
| "pc_inv d log served rt (GotEnd h cur e) = (h = 0 \<and> no_later d cur e \<and> no_later d e (rt_block_end rt))"
| "pc_inv d log served rt (WantLock h) = (h = 0)"
| "pc_inv d log served rt (Locked h) = (h = 0)"
| "pc_inv d log served rt (LockedCur h cur) = (h = 0 \<and> no_later d cur (rt_next rt))"
| "pc_inv d log served rt (Refill h) = (h = 0 \<and> before d (rt_block_end rt) (rt_next rt))"
| "pc_inv d log served rt (Flush h first e) =
     (h = 0 \<and> before d (rt_block_end rt) (rt_next rt) \<and> no_later d (rt_next rt) first \<and> new_block d first e)"
| "pc_inv d log served rt (Fsync h first e) =
     (h = 0 \<and> before d (rt_block_end rt) (rt_next rt) \<and> no_later d (rt_next rt) first \<and> new_block d first e
      \<and> hd log = \<lparr>pss_last_reserved = e, pss_is_called = True\<rparr>)"
| "pc_inv d log served rt (Publish h first e) =
     (h = 0 \<and> before d (rt_block_end rt) (rt_next rt) \<and> no_later d (rt_next rt) first \<and> new_block d first e
      \<and> log = [\<lparr>pss_last_reserved = e, pss_is_called = True\<rparr>])"
| "pc_inv d log served rt (Mark h first e) =
     (h = 0 \<and> before d (rt_block_end rt) (rt_next rt) \<and> new_block d first e \<and> rt_next rt = step_past rt first e
      \<and> log = [\<lparr>pss_last_reserved = e, pss_is_called = True\<rparr>])"
| "pc_inv d log served rt (Widen h first e) =
     (h = 0 \<and> before d (rt_block_end rt) (rt_next rt) \<and> new_block d first e \<and> rt_next rt = step_past rt first e
      \<and> log = [\<lparr>pss_last_reserved = e, pss_is_called = True\<rparr>])"

text \<open>Before a runtime exists, threads have at most built one from the newest record.\<close>

fun pc_fresh :: "persisted_sequence \<Rightarrow> persisted_seq_state list \<Rightarrow> seq_pc \<Rightarrow> bool" where
  "pc_fresh d log Start = True"
| "pc_fresh d log (Done r) = True"
| "pc_fresh d log (Built r) = (r = from_persisted d (Some (hd log)) False)"
| "pc_fresh d log _ = False"

definition seq_inv :: "persisted_sequence \<Rightarrow> seq_sys \<Rightarrow> bool" where
  "seq_inv d s \<longleftrightarrow> log_inv d (ss_log s) (ss_served s) \<and>
     (ss_heap s = [] \<and> ss_store s = None \<and> length (ss_log s) = 1 \<and> all_threads (pc_fresh d (ss_log s)) (ss_threads s)
      \<or> (\<exists>rt. ss_heap s = [rt] \<and> ss_store s = Some 0 \<and> sole holds (rt_refill rt) (ss_threads s)
           \<and> rt_inv d (ss_log s) (ss_served s) (list_ex is_mid (ss_threads s)) rt
           \<and> all_threads (pc_inv d (ss_log s) (ss_served s) rt) (ss_threads s)))"

lemma step_past_facts:
  assumes "def_ok d" "rt_cfg d rt" "in_bounds d v" "no_later d v e" "if ps_increment_by d > 0 then e < i64_MAX else i64_MIN < e"
  shows "before d v (step_past rt v e) \<and> no_later d (step_past rt v e) (e + ps_increment_by d)"
  using assms by (auto simp: step_past_def checked_add_def saturating_add_def saturating_sub_def rt_cfg_def def_ok_def no_later_def before_def
      split: if_splits)

lemma step_past_cong [simp]:
  "step_past (r\<lparr>rt_next := a, rt_is_called := b, rt_last_served := c\<rparr>) v e = step_past r v e"
  "step_past (r\<lparr>rt_next := a\<rparr>) v e = step_past r v e" "step_past (r\<lparr>rt_refill := f\<rparr>) v e = step_past r v e"
  "step_past (r\<lparr>rt_is_called := b, rt_last_served := c\<rparr>) v e = step_past r v e"
  by (simp_all add: step_past_def)

lemma rt_cfg_cong [simp]:
  "rt_cfg d (r\<lparr>rt_next := a, rt_is_called := b, rt_last_served := c\<rparr>) = rt_cfg d r" "rt_cfg d (r\<lparr>rt_next := a\<rparr>) = rt_cfg d r"
  "rt_cfg d (r\<lparr>rt_refill := f\<rparr>) = rt_cfg d r" "rt_cfg d (r\<lparr>rt_is_called := b, rt_last_served := c\<rparr>) = rt_cfg d r"
  "rt_cfg d (r\<lparr>rt_block_end := e\<rparr>) = rt_cfg d r"
  by (simp_all add: rt_cfg_def)

lemma rt_inv_refill [simp]: "rt_inv d log served mid (r\<lparr>rt_refill := f\<rparr>) = rt_inv d log served mid r"
  by (simp add: rt_inv_def)

lemma cas_inv:
  assumes "def_ok d" "log_inv d log served" "rt_inv d log served mid rt" "rt_next rt = cur" "no_later d cur e" "no_later d e (rt_block_end rt)"
  shows "log_inv d log (cur # served)
    \<and> rt_inv d log (cur # served) mid (rt\<lparr>rt_next := step_past rt cur e, rt_is_called := True, rt_last_served := cur\<rparr>)"
proof -
  have cfg: "rt_cfg d rt" using assms(3) by (simp add: rt_inv_def)
  have nb: "\<not> before d (rt_block_end rt) (rt_next rt)" using no_later_trans [OF assms(5,6)] assms(4) by (simp add: before_no_later)
  then have called: "pss_is_called r" if "r \<in> set log" for r using assms(3) that by (auto simp: rt_inv_def)
  have ne: "log \<noteq> []" using assms(2) by (simp add: log_inv_def)
  then have hd: "hd log \<in> set log" by simp
  have cover: "no_later d cur (pss_last_reserved r) \<and> no_later d e (pss_last_reserved r)" if "r \<in> set log" for r
    using that called assms(3,5,6) by (auto simp: rt_inv_def intro: no_later_trans)
  have "in_bounds d (pss_last_reserved (hd log))" "i64_MIN < pss_last_reserved (hd log)" "pss_last_reserved (hd log) < i64_MAX"
      "if ps_increment_by d > 0 then ps_min_value d \<le> cur else cur \<le> ps_max_value d"
    using hd assms(2-4) unfolding log_inv_def rt_inv_def by blast+
  then have e: "(if ps_increment_by d > 0 then e < i64_MAX else i64_MIN < e) \<and> in_bounds d cur"
    using cover [OF hd] by (auto simp: no_later_def split: if_splits)
  note sp = step_past_facts [OF assms(1) cfg _ assms(5)]
  have sp: "before d cur (step_past rt cur e)" "no_later d (step_past rt cur e) (e + ps_increment_by d)" using sp e by auto
  have fresh: "cur \<notin> set served" using assms(3,4) by (auto simp: rt_inv_def before_def)
  have "log_inv d log (cur # served)" using assms(2) fresh e cover called by (simp add: log_inv_def)
  moreover have "no_later d (step_past rt cur e) (rt_block_end rt + ps_increment_by d)"
    using sp(2) assms(6) by (auto simp: no_later_def split: if_splits)
  moreover have "\<forall>v \<in> set (cur # served). before d v (step_past rt cur e)"
    using sp(1) assms(3,4) by (auto simp: rt_inv_def intro: before_trans)
  moreover have "if ps_increment_by d > 0 then ps_min_value d \<le> step_past rt cur e else step_past rt cur e \<le> ps_max_value d"
    using sp(1) e by (auto simp: before_def)
  ultimately show ?thesis using assms(3) called hd by (auto simp: rt_inv_def)
qed

lemma refill_inv:
  assumes "def_ok d" "\<not> ps_cycle d" "log_inv d log served" "rt_inv d log served False rt" "before d (rt_block_end rt) (rt_next rt)"
    and "refill_first name rt (Some (hd log)) = Inr first"
  shows "no_later d (rt_next rt) first \<and> new_block d first (refill_last rt first)"
proof -
  have cfg: "rt_cfg d rt" using assms(4) by (simp add: rt_inv_def)
  have hd: "hd log \<in> set log" using assms(3) by (simp add: log_inv_def)
  have "no_later d (rt_next rt) first \<and> in_bounds d first"
  proof (cases "pss_is_called (hd log)")
    case False
    then have "\<not> rt_is_called rt" using assms(4) hd by (auto simp: rt_inv_def)
    then have "first = pss_last_reserved (hd log)" using assms(6) False by (simp add: refill_first_def)
    then show ?thesis using assms(3,4) False hd by (auto simp: rt_inv_def log_inv_def)
  next
    case True
    then have le: "no_later d (rt_block_end rt) (pss_last_reserved (hd log))" using assms(4) hd by (auto simp: rt_inv_def)
    let ?h = "max (pss_last_reserved (hd log)) (rt_block_end rt)"
    have f: "checked_step name ?h (ps_increment_by d) (ps_min_value d) (ps_max_value d) False = Inr first"
      using assms(2,6) True cfg by (simp add: refill_first_def rt_cfg_def)
    then have first: "first = ?h + ps_increment_by d" "if ps_increment_by d > 0 then first \<le> ps_max_value d else first \<ge> ps_min_value d"
      using assms(1) by (auto simp: checked_step_def checked_add_def def_ok_def Let_def split: if_splits)
    show ?thesis using first le assms(1,4) unfolding rt_inv_def def_ok_def no_later_def by (auto split: if_splits)
  qed
  moreover have "refill_last rt first = block_end_of d first" using cfg by (simp add: refill_last_def block_end_of_def rt_cfg_def)
  ultimately show ?thesis using block_end_of_facts [OF assms(1)] by (auto simp: new_block_def no_later_def split: if_splits)
qed

lemma put_inv:
  assumes "log_inv d log served" "rt_inv d log served mid rt" "before d (rt_block_end rt) (rt_next rt)" "no_later d (rt_next rt) first"
    and "new_block d first e" "i64_MIN < e" "e < i64_MAX"
  shows "log_inv d (\<lparr>pss_last_reserved = e, pss_is_called = True\<rparr> # log) served
    \<and> rt_inv d (\<lparr>pss_last_reserved = e, pss_is_called = True\<rparr> # log) served mid rt"
proof -
  have "before d (rt_block_end rt) e" "\<forall>v \<in> set served. before d v e"
    using assms(2-5) unfolding rt_inv_def new_block_def by (meson before_trans)+
  then show ?thesis using assms unfolding log_inv_def rt_inv_def new_block_def by (auto intro: before_trans)
qed

lemma fsync_inv:
  assumes "log_inv d log served" "rt_inv d log served mid rt" "pss_is_called (hd log)"
  shows "log_inv d [hd log] served \<and> rt_inv d [hd log] served mid rt"
proof -
  have "hd log \<in> set log" using assms(1) by (simp add: log_inv_def)
  then show ?thesis using assms unfolding log_inv_def rt_inv_def by auto
qed

lemma publish_inv:
  assumes "def_ok d" "log = [\<lparr>pss_last_reserved = e, pss_is_called = True\<rparr>]" "log_inv d log served" "rt_inv d log served mid rt"
    and "before d (rt_block_end rt) (rt_next rt)" "no_later d (rt_next rt) first" "new_block d first e"
  shows "log_inv d log (first # served) \<and> rt_inv d log (first # served) True (rt\<lparr>rt_next := step_past rt first e\<rparr>)
    \<and> before d (rt_block_end rt) (step_past rt first e)"
proof -
  have cfg: "rt_cfg d rt" using assms(4) by (simp add: rt_inv_def)
  have e: "i64_MIN < e" "e < i64_MAX" using assms(2,3) by (auto simp: log_inv_def)
  then have sp: "before d first (step_past rt first e)"
    using step_past_facts [OF assms(1) cfg] assms(7) by (auto simp: new_block_def)
  have old: "before d v first" if "v \<in> set served" for v using that assms(4,6) by (auto simp: rt_inv_def intro: before_trans)
  then have "first \<notin> set served" by (metis before_no_later no_later_refl)
  then have "log_inv d log (first # served)" using assms(2,3,7) by (auto simp: log_inv_def new_block_def)
  moreover have "before d (rt_block_end rt) (step_past rt first e)" using assms(5,6) sp by (meson before_trans)
  moreover have "if ps_increment_by d > 0 then ps_min_value d \<le> step_past rt first e else step_past rt first e \<le> ps_max_value d"
    using sp assms(7) by (auto simp: before_def new_block_def)
  ultimately show ?thesis using assms(2,4) sp old by (auto simp: rt_inv_def intro: before_trans)
qed

lemma widen_inv:
  assumes "def_ok d" "log = [\<lparr>pss_last_reserved = e, pss_is_called = True\<rparr>]" "log_inv d log served" "rt_inv d log served mid rt"
    and "new_block d first e" "rt_next rt = step_past rt first e"
  shows "rt_inv d log served mid' (rt\<lparr>rt_block_end := e, rt_refill := False\<rparr>)"
proof -
  have cfg: "rt_cfg d rt" using assms(4) by (simp add: rt_inv_def)
  have e: "i64_MIN < e" "e < i64_MAX" using assms(2,3) by (auto simp: log_inv_def)
  then have "no_later d (step_past rt first e) (e + ps_increment_by d)"
    using step_past_facts [OF assms(1) cfg] assms(5) by (auto simp: new_block_def)
  then show ?thesis using assms(2,4-6) by (auto simp: rt_inv_def new_block_def)
qed

lemma mark_inv: "rt_inv d log served mid rt \<Longrightarrow> pss_is_called (hd log) \<Longrightarrow> log = [r] \<Longrightarrow>
    rt_inv d log served mid (rt\<lparr>rt_is_called := True, rt_last_served := v\<rparr>)"
  by (auto simp: rt_inv_def)

text \<open>A runtime loaded from the only surviving record.\<close>

lemma load_inv:
  assumes "def_ok d" "log_inv d [r] served"
  shows "rt_inv d [r] served False (from_persisted d (Some r) False)"
proof -
  let ?rt = "from_persisted d (Some r) False" and ?l = "pss_last_reserved r"
  have b: "in_bounds d ?l" "i64_MIN < ?l" "?l < i64_MAX" and v: "\<forall>v \<in> set served. pss_is_called r \<and> no_later d v ?l"
    using assms(2) by (auto simp: log_inv_def)
  have i: "ps_increment_by d \<noteq> 0" using assms(1) by (simp add: def_ok_def)
  have rt: "rt_next ?rt = (if pss_is_called r then (if ps_increment_by d > 0 then ?l + 1 else ?l - 1) else ?l)"
    "rt_block_end ?rt = (if pss_is_called r then ?l else (if ps_increment_by d > 0 then ?l - 1 else ?l + 1))"
    "rt_is_called ?rt = pss_is_called r"
    using b by (auto simp: from_persisted_def Let_def saturating_add_def saturating_sub_def)
  have "\<forall>v \<in> set served. before d v (rt_next ?rt)" using v by (auto simp: rt before_def no_later_def split: if_splits)
  then show ?thesis
    using b i by (cases "pss_is_called r"; cases "ps_increment_by d > 0")
      (simp_all add: rt_inv_def from_persisted_cfg rt before_def no_later_def)
qed

lemma mid_keep: "t < length xs \<Longrightarrow> is_mid c = is_mid (xs ! t) \<Longrightarrow> list_ex is_mid (xs[t := c]) = list_ex is_mid xs"
  unfolding list_ex_iff by (metis (no_types, lifting) in_set_conv_nth length_list_update nth_list_update)

lemma mid_holds: "is_mid c \<Longrightarrow> holds c"
  by (cases c) auto

lemma mid_holder:
  assumes "sole holds f xs" "t < length xs" "holds (xs ! t)"
  shows "list_ex is_mid (xs[t := c]) = is_mid c"
proof -
  have "\<not> is_mid (xs ! u)" if "u < length xs" "u \<noteq> t" for u using sole_unique [OF assms(1) that(1) assms(2)] that(2) assms(3) mid_holds by blast
  then show ?thesis unfolding list_ex_iff using assms(2) by (metis (no_types, lifting) in_set_conv_nth length_list_update nth_list_update)
qed

text \<open>Threads outside the mutex only see the end of the block, which never recedes.\<close>

lemma pc_inv_frame:
  assumes "pc_inv d log served rt c" "\<not> holds c" "no_later d (rt_block_end rt) (rt_block_end rt')"
  shows "pc_inv d log' served' rt' c"
  using assms by (cases c) (auto intro: no_later_trans)

section \<open>Preservation\<close>

definition live :: "persisted_sequence \<Rightarrow> seq_sys \<Rightarrow> seq_runtime \<Rightarrow> bool" where
  "live d s rt \<longleftrightarrow> log_inv d (ss_log s) (ss_served s) \<and> ss_heap s = [rt] \<and> ss_store s = Some 0 \<and> sole holds (rt_refill rt) (ss_threads s)
     \<and> rt_inv d (ss_log s) (ss_served s) (list_ex is_mid (ss_threads s)) rt
     \<and> all_threads (pc_inv d (ss_log s) (ss_served s) rt) (ss_threads s)"

lemma live_inv: "live d s rt \<Longrightarrow> seq_inv d s"
  by (auto simp: live_def seq_inv_def)

text \<open>A step of the thread that holds the mutex.\<close>

lemma holder_step:
  assumes "live d s rt" "t < length (ss_threads s)" "holds (ss_threads s ! t)"
    and "log_inv d log' served'" "rt_inv d log' served' (is_mid c) rt'" "pc_inv d log' served' rt' c"
    and "rt_refill rt' = holds c" "no_later d (rt_block_end rt) (rt_block_end rt')"
  shows "live d \<lparr>ss_log = log', ss_store = Some 0, ss_heap = [rt'], ss_threads = (ss_threads s)[t := c], ss_served = served'\<rparr> rt'"
proof -
  have sole: "sole holds (rt_refill rt) (ss_threads s)" and all: "all_threads (pc_inv d (ss_log s) (ss_served s) rt) (ss_threads s)"
    using assms(1) by (auto simp: live_def)
  have "rt_refill rt" using sole_flag [OF sole assms(2,3)] .
  then have "sole holds (rt_refill rt') ((ss_threads s)[t := c])"
    using sole_keep [OF sole assms(2)] sole_leave [of holds "ss_threads s" t c] sole assms(2,3,7) by (cases "holds c") auto
  moreover have "pc_inv d log' served' rt' (ss_threads s ! u)"
    if "u < length (ss_threads s)" "u \<noteq> t" "pc_inv d (ss_log s) (ss_served s) rt (ss_threads s ! u)" for u
    using pc_inv_frame [OF that(3) _ assms(8)] sole_unique [OF sole that(1) assms(2)] that(2) assms(3) by blast
  then have "all_threads (pc_inv d log' served' rt') ((ss_threads s)[t := c])"
    by (intro all_threads_step [OF all]) (use assms(6) in auto)
  ultimately show ?thesis using assms(4,5) mid_holder [OF sole assms(2,3)] by (simp add: live_def)
qed

text \<open>A step of a thread outside the mutex that changes its own program counter only.\<close>

lemma outsider_step:
  assumes "live d s rt" "t < length (ss_threads s)" "\<not> holds (ss_threads s ! t)" "\<not> holds c" "pc_inv d (ss_log s) (ss_served s) rt c"
  shows "live d (at_pc t c s) rt"
proof -
  have "sole holds (rt_refill rt) ((ss_threads s)[t := c])" using assms by (intro sole_keep) (auto simp: live_def)
  moreover have "list_ex is_mid ((ss_threads s)[t := c]) = list_ex is_mid (ss_threads s)"
    by (rule mid_keep [OF assms(2)]) (use assms(3,4) mid_holds in blast)
  moreover have "all_threads (pc_inv d (ss_log s) (ss_served s) rt) ((ss_threads s)[t := c])"
    by (rule all_threads_step) (use assms in \<open>auto simp: live_def\<close>)
  ultimately show ?thesis using assms(1) by (simp add: live_def)
qed

lemma acquire_step:
  assumes "live d s rt" "t < length (ss_threads s)" "ss_threads s ! t = WantLock h" "\<not> rt_refill rt"
  shows "live d (at_pc t (Locked 0) (upd_rt 0 (\<lambda>r. r\<lparr>rt_refill := True\<rparr>) s)) (rt\<lparr>rt_refill := True\<rparr>)"
proof -
  have sole: "sole holds False (ss_threads s)" using assms by (auto simp: live_def)
  then have "sole holds True ((ss_threads s)[t := Locked 0])" using assms(2) by (intro sole_enter) auto
  moreover have "list_ex is_mid ((ss_threads s)[t := Locked 0]) = list_ex is_mid (ss_threads s)"
    by (rule mid_keep [OF assms(2)]) (simp add: assms(3))
  moreover have "pc_inv d (ss_log s) (ss_served s) (rt\<lparr>rt_refill := True\<rparr>) (ss_threads s ! u)"
    if "u < length (ss_threads s)" "pc_inv d (ss_log s) (ss_served s) rt (ss_threads s ! u)" for u
    by (rule pc_inv_frame [OF that(2)]) (use sole that(1) in \<open>auto simp: sole_def\<close>)
  then have "all_threads (pc_inv d (ss_log s) (ss_served s) (rt\<lparr>rt_refill := True\<rparr>)) ((ss_threads s)[t := Locked 0])"
    using assms(1) by (intro all_threads_step [of "pc_inv d (ss_log s) (ss_served s) rt"]) (auto simp: live_def)
  ultimately show ?thesis using assms(1) by (simp add: live_def)
qed

lemma cas_step:
  assumes "def_ok d" "live d s rt" "t < length (ss_threads s)" "ss_threads s ! t = GotEnd h cur e" "rt_next rt = cur"
  defines "rt' \<equiv> rt\<lparr>rt_next := step_past rt cur e, rt_is_called := True, rt_last_served := cur\<rparr>"
  shows "live d \<lparr>ss_log = ss_log s, ss_store = Some 0, ss_heap = [rt'], ss_threads = (ss_threads s)[t := Done (Inr cur)],
    ss_served = cur # ss_served s\<rparr> rt'"
proof -
  have l: "log_inv d (ss_log s) (ss_served s)" "rt_inv d (ss_log s) (ss_served s) (list_ex is_mid (ss_threads s)) rt"
      "sole holds (rt_refill rt) (ss_threads s)" and all: "all_threads (pc_inv d (ss_log s) (ss_served s) rt) (ss_threads s)"
    using assms(2) by (auto simp: live_def)
  have me: "no_later d cur e" "no_later d e (rt_block_end rt)" using all_threads_at [OF all assms(3)] assms(4) by auto
  note cas = cas_inv [OF assms(1) l(1,2) assms(5) me, folded rt'_def]
  have inside: "\<not> before d (rt_block_end rt) (rt_next rt)" using no_later_trans [OF me] assms(5) by (simp add: before_no_later)
  have "\<forall>v \<in> set (cur # ss_served s). before d v (rt_next rt')" using cas by (auto simp: rt_inv_def)
  then have "no_later d cur (rt_next rt')" by (auto intro: before_trans)
  then have "pc_inv d (ss_log s) (cur # ss_served s) rt' (ss_threads s ! u)"
    if "pc_inv d (ss_log s) (ss_served s) rt (ss_threads s ! u)" for u
    using that inside assms(5) by (cases "ss_threads s ! u") (auto simp: rt'_def intro: no_later_trans)
  then have "all_threads (pc_inv d (ss_log s) (cur # ss_served s) rt') ((ss_threads s)[t := Done (Inr cur)])"
    by (intro all_threads_step [OF all]) auto
  moreover have "sole holds (rt_refill rt) ((ss_threads s)[t := Done (Inr cur)])" using sole_keep [OF l(3) assms(3)] assms(4) by simp
  moreover have "list_ex is_mid ((ss_threads s)[t := Done (Inr cur)]) = list_ex is_mid (ss_threads s)"
    by (rule mid_keep [OF assms(3)]) (simp add: assms(4))
  ultimately show ?thesis using cas by (simp add: live_def rt'_def)
qed

lemma fresh_step:
  assumes "def_ok d" "log_inv d (ss_log s) (ss_served s)" "ss_heap s = []" "ss_store s = None" "length (ss_log s) = 1"
    and "all_threads (pc_fresh d (ss_log s)) (ss_threads s)" "t < length (ss_threads s)" "thread_step d fault t s = Some s'"
  shows "seq_inv d s'"
proof -
  obtain r where r: "ss_log s = [r]" using assms(5) by (cases "ss_log s") auto
  have me: "pc_fresh d (ss_log s) (ss_threads s ! t)" by (rule all_threads_at [OF assms(6,7)])
  have keep: "seq_inv d (at_pc t c s)" if "pc_fresh d (ss_log s) c" for c
  proof -
    have "all_threads (pc_fresh d (ss_log s)) ((ss_threads s)[t := c])" by (intro all_threads_step [OF assms(6)]) (use that in auto)
    then show ?thesis using assms by (simp add: seq_inv_def)
  qed
  show ?thesis
  proof (cases "ss_threads s ! t")
    case Start
    then show ?thesis using assms(4,8) keep r by (auto simp: thread_step_def split: if_splits)
  next
    case (Done x)
    then show ?thesis using assms(8) keep by (auto simp: thread_step_def)
  next
    case (Built rt)
    then have rt: "rt = from_persisted d (Some r) False" using me r by simp
    have nh: "\<not> holds (ss_threads s ! u)" if "u < length (ss_threads s)" for u
      using all_threads_at [OF assms(6) that] by (cases "ss_threads s ! u") auto
    have "sole holds (rt_refill rt) ((ss_threads s)[t := Have 0])"
      using nh assms(7) by (auto simp: sole_def rt from_persisted_def Let_def nth_list_update split: prod.split)
    moreover have mid: "\<not> list_ex is_mid ((ss_threads s)[t := Have 0])"
    proof -
      have "\<not> is_mid (ss_threads s ! u)" if "u < length (ss_threads s)" for u using nh [OF that] mid_holds by blast
      then show ?thesis unfolding list_ex_iff using assms(7)
        by (metis is_mid.simps(5) in_set_conv_nth length_list_update nth_list_update)
    qed
    moreover have "all_threads (pc_inv d [r] (ss_served s) rt) ((ss_threads s)[t := Have 0])"
    proof (rule all_threads_step [OF assms(6)])
      fix u assume "pc_fresh d (ss_log s) (ss_threads s ! u)"
      then show "pc_inv d [r] (ss_served s) rt (ss_threads s ! u)" by (cases "ss_threads s ! u") auto
    qed simp
    moreover have "s' = s\<lparr>ss_heap := [rt], ss_store := Some 0, ss_threads := (ss_threads s)[t := Have 0]\<rparr>"
      using assms(3,4,8) Built by (simp add: thread_step_def)
    ultimately have "live d s' rt" using assms(2) r load_inv [OF assms(1), of r "ss_served s"] rt by (simp add: live_def)
    then show ?thesis by (rule live_inv)
  qed (use me in auto)
qed

lemma live_step:
  assumes "def_ok d" "\<not> ps_cycle d" "live d s rt" "t < length (ss_threads s)" "thread_step d fault t s = Some s'"
    and "\<forall>r \<in> set (ss_log s'). i64_MIN < pss_last_reserved r \<and> pss_last_reserved r < i64_MAX"
  shows "seq_inv d s'"
proof -
  obtain log served xs where s: "s = \<lparr>ss_log = log, ss_store = Some 0, ss_heap = [rt], ss_threads = xs, ss_served = served\<rparr>"
    using assms(3) by (cases s) (auto simp: live_def)
  have log: "log_inv d log served" and rt: "rt_inv d log served (list_ex is_mid xs) rt" and sole: "sole holds (rt_refill rt) xs"
    and all: "all_threads (pc_inv d log served rt) xs" and t: "t < length xs" using assms(3,4) by (auto simp: live_def s)
  have me: "pc_inv d log served rt (xs ! t)" by (rule all_threads_at [OF all t])
  have cfg: "rt_cfg d rt" using rt by (simp add: rt_inv_def)
  obtain r0 rest where rlog: "log = r0 # rest" using log by (cases log) (auto simp: log_inv_def)
  have out: "seq_inv d (s\<lparr>ss_threads := xs[t := c]\<rparr>)" if "\<not> holds (xs ! t)" "\<not> holds c" "pc_inv d log served rt c" for c
    using outsider_step [OF assms(3,4), of c, THEN live_inv] that by (simp add: s)
  have hold: "seq_inv d \<lparr>ss_log = log', ss_store = Some 0, ss_heap = [rt'], ss_threads = xs[t := c], ss_served = served'\<rparr>"
    if "holds (xs ! t)" "log_inv d log' served'" "rt_inv d log' served' (is_mid c) rt'" "pc_inv d log' served' rt' c"
      "rt_refill rt' = holds c" "no_later d (rt_block_end rt) (rt_block_end rt')" for log' served' c rt'
    using holder_step [OF assms(3,4) _ that(2-6), THEN live_inv] that(1) by (simp add: s)
  have flag: "rt_refill rt" if "holds (xs ! t)" by (rule sole_flag [OF sole t that])
  have mid: "rt_inv d log served (is_mid (xs ! t)) rt" if "holds (xs ! t)"
    using rt mid_holder [OF sole t that, of "xs ! t"] by simp
  have unlock: "seq_inv d \<lparr>ss_log = log, ss_store = Some 0, ss_heap = [rt\<lparr>rt_refill := False\<rparr>], ss_threads = xs[t := c], ss_served = served\<rparr>"
    if "holds (xs ! t)" "\<not> is_mid (xs ! t)" "c = Start \<or> (\<exists>r. c = Done r)" for c
    by (rule hold) (use that log mid in auto)
  show ?thesis
  proof (cases "xs ! t")
    case (LockedCur h cur)
    show ?thesis
    proof (cases "no_later d cur (rt_block_end rt)")
      case True
      then show ?thesis using assms(5) LockedCur me unlock cfg by (auto simp: thread_step_def in_block_no_later s)
    next
      case False
      then have "before d (rt_block_end rt) (rt_next rt)" using me LockedCur by (auto simp: before_no_later intro: no_later_trans)
      then have "seq_inv d \<lparr>ss_log = log, ss_store = Some 0, ss_heap = [rt], ss_threads = xs[t := Refill 0], ss_served = served\<rparr>"
        by (intro hold) (use log mid flag LockedCur in auto)
      then show ?thesis using False assms(5) LockedCur me cfg by (auto simp: thread_step_def in_block_no_later s)
    qed
  next
    case (Refill h)
    then have b: "before d (rt_block_end rt) (rt_next rt)" and h: "h = 0" using me by auto
    show ?thesis
    proof (cases "\<not> fault \<and> (\<exists>v. refill_first (ps_name d) rt (Some r0) = Inr v)")
      case True
      then obtain first where f: "refill_first (ps_name d) rt (Some r0) = Inr first" by blast
      have "no_later d (rt_next rt) first \<and> new_block d first (refill_last rt first)"
        by (rule refill_inv [OF assms(1,2) log _ b]) (use f mid Refill rlog in auto)
      then have "seq_inv d \<lparr>ss_log = log, ss_store = Some 0, ss_heap = [rt], ss_threads = xs[t := Flush 0 first (refill_last rt first)], ss_served = served\<rparr>"
        by (intro hold) (use log mid flag Refill b in auto)
      then show ?thesis using True f assms(5) Refill h rlog by (auto simp: thread_step_def s)
    next
      case False
      then obtain e where "(if fault then Inl (StorageFailure ''read'') else refill_first (ps_name d) rt (Some r0)) = Inl e"
        by (cases fault; cases "refill_first (ps_name d) rt (Some r0)") auto
      then have "s' = \<lparr>ss_log = log, ss_store = Some 0, ss_heap = [rt\<lparr>rt_refill := False\<rparr>], ss_threads = xs[t := Done (Inl e)], ss_served = served\<rparr>"
        using assms(5) Refill h rlog by (cases fault) (auto simp: thread_step_def s Let_def)
      then show ?thesis using unlock Refill by simp
    qed
  next
    case (Flush h first e)
    then have m: "h = 0" "before d (rt_block_end rt) (rt_next rt)" "no_later d (rt_next rt) first" "new_block d first e" using me by auto
    show ?thesis
    proof (cases fault)
      case True
      then show ?thesis using unlock assms(5) Flush m(1) by (auto simp: thread_step_def s)
    next
      case False
      let ?log = "\<lparr>pss_last_reserved = e, pss_is_called = True\<rparr> # log"
      have s': "s' = \<lparr>ss_log = ?log, ss_store = Some 0, ss_heap = [rt], ss_threads = xs[t := Fsync 0 first e], ss_served = served\<rparr>"
        using assms(5) Flush m(1) False by (auto simp: thread_step_def s)
      have "log_inv d ?log served \<and> rt_inv d ?log served False rt"
        by (rule put_inv [OF log _ m(2-4)]) (use mid Flush assms(6) s' in auto)
      then show ?thesis unfolding s' by (intro hold) (use flag Flush m in auto)
    qed
  next
    case (Fsync h first e)
    then have m: "h = 0" "before d (rt_block_end rt) (rt_next rt)" "no_later d (rt_next rt) first" "new_block d first e"
      and hd: "r0 = \<lparr>pss_last_reserved = e, pss_is_called = True\<rparr>" using me rlog by auto
    show ?thesis
    proof (cases fault)
      case True
      then show ?thesis using unlock assms(5) Fsync m(1) by (auto simp: thread_step_def s)
    next
      case False
      have "log_inv d [hd log] served \<and> rt_inv d [hd log] served False rt"
        by (rule fsync_inv [OF log]) (use mid Fsync rlog hd in auto)
      then have "seq_inv d \<lparr>ss_log = [r0], ss_store = Some 0, ss_heap = [rt], ss_threads = xs[t := Publish 0 first e], ss_served = served\<rparr>"
        by (intro hold) (use flag Fsync m rlog hd in auto)
      then show ?thesis using assms(5) Fsync m(1) False rlog by (auto simp: thread_step_def s)
    qed
  next
    case (Publish h first e)
    then have m: "h = 0" "before d (rt_block_end rt) (rt_next rt)" "no_later d (rt_next rt) first" "new_block d first e"
      and l: "log = [\<lparr>pss_last_reserved = e, pss_is_called = True\<rparr>]" using me by auto
    note p = publish_inv [OF assms(1) l log mid m(2-4)]
    have "seq_inv d \<lparr>ss_log = log, ss_store = Some 0, ss_heap = [rt\<lparr>rt_next := step_past rt first e\<rparr>],
        ss_threads = xs[t := Mark 0 first e], ss_served = first # served\<rparr>"
      by (intro hold) (use p flag Publish m l in auto)
    then show ?thesis using assms(5) Publish m(1) by (auto simp: thread_step_def s)
  next
    case (Mark h first e)
    then have m: "h = 0" "before d (rt_block_end rt) (rt_next rt)" "new_block d first e" "rt_next rt = step_past rt first e"
      and l: "log = [\<lparr>pss_last_reserved = e, pss_is_called = True\<rparr>]" using me by auto
    have "seq_inv d \<lparr>ss_log = log, ss_store = Some 0, ss_heap = [rt\<lparr>rt_is_called := True, rt_last_served := first\<rparr>],
        ss_threads = xs[t := Widen 0 first e], ss_served = served\<rparr>"
      by (intro hold) (use mark_inv [OF mid _ l] log flag Mark m l in auto)
    then show ?thesis using assms(5) Mark m(1) by (auto simp: thread_step_def s)
  next
    case (Widen h first e)
    then have m: "h = 0" "before d (rt_block_end rt) (rt_next rt)" "new_block d first e" "rt_next rt = step_past rt first e"
      and l: "log = [\<lparr>pss_last_reserved = e, pss_is_called = True\<rparr>]" using me by auto
    have "rt_inv d log served False (rt\<lparr>rt_block_end := e, rt_refill := False\<rparr>)"
      by (rule widen_inv [OF assms(1) l log mid m(3,4)]) (simp add: Widen)
    moreover have "no_later d (rt_block_end rt) e" using rt l by (auto simp: rt_inv_def)
    ultimately have "seq_inv d \<lparr>ss_log = log, ss_store = Some 0, ss_heap = [rt\<lparr>rt_block_end := e, rt_refill := False\<rparr>],
        ss_threads = xs[t := Done (Inr first)], ss_served = served\<rparr>"
      by (intro hold) (use log Widen in auto)
    then show ?thesis using assms(5) Widen m(1) by (auto simp: thread_step_def s)
  next
    case (GotEnd h cur e)
    then have h: "h = 0" using me by auto
    show ?thesis
    proof (cases "rt_next rt = cur")
      case True
      have "ss_threads s ! t = GotEnd h cur e" using GotEnd by (simp add: s)
      from cas_step [OF assms(1,3,4) this True, THEN live_inv] show ?thesis
        using True h assms(5) GotEnd by (simp add: thread_step_def s)
    next
      case False
      then show ?thesis using out [of "Have 0"] h assms(5) GotEnd by (simp add: thread_step_def s)
    qed
  next
    case (WantLock h)
    then have "h = 0" using me by auto
    then show ?thesis using WantLock assms(5) acquire_step [OF assms(3,4), THEN live_inv] by (auto simp: thread_step_def s split: if_splits)
  next
    case (Locked h)
    then have "h = 0" using me by auto
    moreover have "seq_inv d \<lparr>ss_log = log, ss_store = Some 0, ss_heap = [rt], ss_threads = xs[t := LockedCur 0 (rt_next rt)], ss_served = served\<rparr>"
      by (intro hold) (use log mid flag Locked in auto)
    ultimately show ?thesis using Locked assms(5) by (auto simp: thread_step_def s)
  next
    case (GotNext h cur)
    then show ?thesis using me assms(5) cfg out [of "WantLock 0"] out [of "GotEnd 0 cur (rt_block_end rt)"]
      by (auto simp: thread_step_def in_block_no_later Let_def s split: if_splits)
  next
    case Start
    then show ?thesis using assms(5) out [of "Have 0"] by (simp add: thread_step_def s)
  next
    case (Built r)
    then show ?thesis using assms(5) out [of "Have 0"] by (simp add: thread_step_def s)
  next
    case (Have h)
    then show ?thesis using me assms(5) out [of "GotNext 0 (rt_next rt)"] by (simp add: thread_step_def s)
  next
    case (Done r)
    then show ?thesis using assms(5) out [of Start] by (simp add: thread_step_def s)
  qed
qed

lemma crash_inv:
  assumes "seq_inv d s" "crash_step i s = Some s'"
  shows "seq_inv d s'"
proof -
  have i: "i < length (ss_log s)" and s': "s' = s\<lparr>ss_log := [ss_log s ! i], ss_store := None, ss_heap := [],
      ss_threads := map (\<lambda>_. Start) (ss_threads s)\<rparr>"
    using assms(2) by (auto simp: crash_step_def split: if_splits)
  have "ss_log s ! i \<in> set (ss_log s)" using i by simp
  then have "log_inv d [ss_log s ! i] (ss_served s)" using assms(1) unfolding seq_inv_def log_inv_def by auto
  then show ?thesis by (simp add: seq_inv_def s' all_threads_def)
qed

lemma seq_inv_init: "def_ok d \<Longrightarrow> i64_MIN < ps_start_value d \<Longrightarrow> ps_start_value d < i64_MAX \<Longrightarrow> seq_inv d (seq_init d n)"
  by (auto simp: seq_inv_def seq_init_def log_inv_def seed_state_def def_ok_def)

lemma seq_reach_inv:
  assumes "def_ok d" "\<not> ps_cycle d" "i64_MIN < ps_start_value d" "ps_start_value d < i64_MAX" "seq_reach d s"
  shows "seq_inv d s"
  using assms(5)
proof (induction rule: seq_reach.induct)
  case (exec s a s')
  show ?case
  proof (cases a)
    case (Advance t fault)
    then have t: "t < length (ss_threads s)" "thread_step d fault t s = Some s'" using exec.hyps by (auto simp: seq_exec_def split: if_splits)
    from exec.IH consider "ss_heap s = []" "ss_store s = None" "length (ss_log s) = 1" "all_threads (pc_fresh d (ss_log s)) (ss_threads s)"
      | rt where "live d s rt" unfolding seq_inv_def live_def by fastforce
    then show ?thesis
    proof cases
      case 1
      then show ?thesis using fresh_step [OF assms(1) _ 1 t] exec.IH by (simp add: seq_inv_def)
    qed (rule live_step [OF assms(1,2) _ t], use exec.hyps in auto)
  next
    case (Crash i)
    then show ?thesis using crash_inv exec by (simp add: seq_exec_def)
  qed (use exec in auto)
qed (rule seq_inv_init [OF assms(1,3,4)])

section \<open>Properties\<close>

text \<open>
  C8. The no-duplicate invariant: for a sequence without CYCLE whose start value and state records lie
  strictly between the ends of \<open>i64\<close>, and on which \<open>setval\<close> is not called, no value is handed out
  twice and every value lies within the bounds, with any number of threads calling \<open>nextval\<close> in
  any interleaving, with failing reads, writes and fsyncs, and across any number of crashes that
  keep any state record not yet superseded by an fsync. Moreover every record that a crash could
  leave behind is marked as called and lies at or past every value handed out. With \<open>setval\<close> values
  repeat (\<open>setval_race_duplicates\<close>), and so does the largest \<open>i64\<close> (\<open>top_value_repeats\<close>).
\<close>

theorem nextval_never_repeats:
  assumes "def_ok d" "\<not> ps_cycle d" "i64_MIN < ps_start_value d" "ps_start_value d < i64_MAX" "seq_reach d s"
  shows "distinct (ss_served s) \<and> (\<forall>v \<in> set (ss_served s). ps_min_value d \<le> v \<and> v \<le> ps_max_value d
    \<and> (\<forall>r \<in> set (ss_log s). pss_is_called r \<and> no_later d v (pss_last_reserved r)))"
  using seq_reach_inv [OF assms] by (simp add: seq_inv_def log_inv_def)

text \<open>An executable check that a run has no \<open>setval\<close> and keeps its records off the ends of \<open>i64\<close>.\<close>

fun run_inside :: "persisted_sequence \<Rightarrow> seq_action list \<Rightarrow> seq_sys \<Rightarrow> seq_sys option" where
  "run_inside d [] s = Some s"
| "run_inside d (a # as) s = (case (case a of Setval v c \<Rightarrow> None | _ \<Rightarrow> seq_exec d a s) of
     None \<Rightarrow> None
   | Some s \<Rightarrow> if list_all (\<lambda>r. i64_MIN < pss_last_reserved r \<and> pss_last_reserved r < i64_MAX) (ss_log s)
       then run_inside d as s else None)"

lemma run_inside_reach: "run_inside d as s = Some s' \<Longrightarrow> seq_reach d s \<Longrightarrow> seq_reach d s'"
proof (induction as arbitrary: s)
  case (Cons a as)
  then obtain s1 where s1: "seq_exec d a s = Some s1" "\<forall>v c. a \<noteq> Setval v c" "run_inside d as s1 = Some s'"
      "list_all (\<lambda>r. i64_MIN < pss_last_reserved r \<and> pss_last_reserved r < i64_MAX) (ss_log s1)"
    by (cases a) (auto split: option.splits if_splits)
  then have "seq_reach d s1" using seq_reach.exec [OF Cons.prems(2) s1(1)] by (auto simp: list_all_iff)
  then show ?case using Cons.IH s1(3) by blast
qed simp

theorem nextval_never_repeats_witness:
  "let d = counter_def\<lparr>ps_cycle := False\<rparr>;
       run = replicate 13 (Advance 0 False) @ [Crash 0] @ replicate 13 (Advance 1 False)
   in case run_inside d run (seq_init d 2) of
        Some s \<Rightarrow> ss_served s = [7, 3] \<and> distinct (ss_served s) | None \<Rightarrow> False"
proof -
  let ?d = "counter_def\<lparr>ps_cycle := False\<rparr>" and ?run = "replicate 13 (Advance 0 False) @ [Crash 0] @ replicate 13 (Advance 1 False)"
  have "map_option ss_served (run_inside ?d ?run (seq_init ?d 2)) = Some [7, 3]" by code_simp
  then obtain s where s: "run_inside ?d ?run (seq_init ?d 2) = Some s" "ss_served s = [7, 3]" by auto
  have "distinct (ss_served s)"
    by (rule nextval_never_repeats [THEN conjunct1, OF _ _ _ _ run_inside_reach [OF s(1) seq_reach.init]])
      (simp_all add: counter_def_def def_ok_def i64_MIN_def i64_MAX_def)
  then show ?thesis using s by (simp add: Let_def)
qed

text \<open>
  \<open>setval\<close> breaks the serialisation of refills: it evicts the runtime, a thread that
  fetched the old one before keeps using it with its own mutex, and the next thread builds a new
  one. Both can reserve the same block between their reads of the durable record and their
  writes, and return the same value.
\<close>

theorem setval_race_duplicates:
  "let d = counter_def\<lparr>ps_start_value := 1, ps_increment_by := 1, ps_max_value := 1000, ps_cache := 1, ps_cycle := False\<rparr>;
       run = replicate 13 (Advance 0 False) @ [Advance 1 False, Setval 100 True] @ replicate 8 (Advance 2 False)
         @ replicate 9 (Advance 1 False) @ replicate 3 (Advance 2 False)
   in map_option ss_served (seq_execs d run (seq_init d 3)) = Some [101, 101, 1]"
  by code_simp

end
