(* ===== verification/Group_Commit.thy ===== *)
theory Group_Commit
  imports Interleaving
begin

text \<open>
  The leader/follower group committer (\<^verbatim>\<open>src/src/storage/group_commit.rs\<close>). Each critical
  section of \<open>wait_durable\<close>, from one acquisition of the mutex to its release or its wait on the
  condition variable, is one function on the shared state; a step relation interleaves them for
  any number of threads. A thread that has to wait parks on the condition variable and runs again only
  after a flush has notified all waiters. The log is counted in batches: a thread writes its batch before it
  joins, and a flush that succeeds covers at least the batches written before it began. The
  accumulation window is the time between the join of a leader and the close of its cohort.
\<close>

section \<open>The interface: a durability barrier\<close>

text \<open>
  What a writer relies on: an acknowledged position lies within the synced part of the log, and
  the synced part never shrinks. A crash keeps a prefix of the log that contains the synced
  part, so an acknowledged record survives every later crash.
\<close>

locale durability_barrier =
  fixes env :: "'s \<Rightarrow> 's \<Rightarrow> bool" and synced :: "'s \<Rightarrow> nat" and acknowledged :: "'s \<Rightarrow> nat \<Rightarrow> bool"
  assumes acknowledged_synced: "acknowledged s p \<Longrightarrow> p \<le> synced s"
    and synced_grows: "env s s' \<Longrightarrow> synced s \<le> synced s'"
begin

lemma synced_later: "env\<^sup>*\<^sup>* s s' \<Longrightarrow> synced s \<le> synced s'"
  by (induction rule: rtranclp_induct) (auto dest: synced_grows)

lemma stays_durable: "acknowledged s p \<Longrightarrow> env\<^sup>*\<^sup>* s s' \<Longrightarrow> p \<le> synced s'"
  using acknowledged_synced synced_later le_trans by blast

lemma survives_crash:
  "acknowledged s p \<Longrightarrow> env\<^sup>*\<^sup>* s s' \<Longrightarrow> 0 < p \<Longrightarrow> p \<le> length log \<Longrightarrow> synced s' \<le> n \<Longrightarrow> log ! (p - 1) \<in> set (take n log)"
  using stays_durable [of s p s'] by (auto simp: in_set_conv_nth intro!: exI [of _ "p - 1"])

end

section \<open>Shared state and critical sections\<close>

definition ERROR_RETENTION_GENS :: nat where
  "ERROR_RETENTION_GENS = 1024"

record gc_state =
  gc_accumulating :: nat
  gc_completed :: nat
  gc_leader_present :: bool
  gc_flush_in_progress :: bool
  gc_failed :: "(nat \<times> string) list"

definition committer_new :: gc_state where
  "committer_new = \<lparr>gc_accumulating = 1, gc_completed = 0, gc_leader_present = False,
     gc_flush_in_progress = False, gc_failed = []\<rparr>"

text \<open>The first section: the generation joined, and whether the caller leads it.\<close>

definition join_cohort :: "gc_state \<Rightarrow> gc_state \<times> nat \<times> bool" where
  "join_cohort st = (let my_gen = gc_accumulating st in
     if gc_leader_present st then (st, my_gen, False)
     else (st\<lparr>gc_leader_present := True\<rparr>, my_gen, True))"

text \<open>A follower's wait: \<open>None\<close> while its generation has not completed.\<close>

definition follower_result :: "nat \<Rightarrow> gc_state \<Rightarrow> (string + unit) option" where
  "follower_result my_gen st =
     (if gc_completed st < my_gen then None
      else Some (case map_of (gc_failed st) my_gen of Some msg \<Rightarrow> Inl msg | None \<Rightarrow> Inr ()))"

text \<open>The leader closes its cohort; \<open>None\<close> while another flush is in flight.\<close>

definition close_cohort :: "nat \<Rightarrow> gc_state \<Rightarrow> gc_state option" where
  "close_cohort my_gen st =
     (if gc_flush_in_progress st then None
      else Some (st\<lparr>gc_accumulating := my_gen + 1, gc_leader_present := False, gc_flush_in_progress := True\<rparr>))"

definition finish_flush :: "nat \<Rightarrow> string + unit \<Rightarrow> gc_state \<Rightarrow> gc_state" where
  "finish_flush my_gen result st =
     (let st = st\<lparr>gc_flush_in_progress := False, gc_completed := max (gc_completed st) my_gen\<rparr> in
      case result of
        Inr _ \<Rightarrow> st
      | Inl msg \<Rightarrow> st\<lparr>gc_failed := filter (\<lambda>(gen, _). gen > gc_completed st - ERROR_RETENTION_GENS)
          ((my_gen, msg) # filter (\<lambda>(gen, _). gen \<noteq> my_gen) (gc_failed st))\<rparr>)"

section \<open>Interleaving\<close>

datatype committer =
    Idle
  | Written nat \<comment> \<open>the number of batches in the log once its own is written\<close>
  | Following nat nat \<comment> \<open>generation, position\<close>
  | Leading nat nat
  | Flushing nat nat nat \<comment> \<open>generation, position, batches in the log when the flush began\<close>
  | Returned nat "string + unit"

record commit_system =
  cs_state :: gc_state
  cs_written :: nat
  cs_synced :: nat
  cs_threads :: "committer list"
  cs_parked :: "nat set"

definition system_new :: "nat \<Rightarrow> commit_system" where
  "system_new n = \<lparr>cs_state = committer_new, cs_written = 0, cs_synced = 0, cs_threads = replicate n Idle, cs_parked = {}\<rparr>"

abbreviation goto :: "nat \<Rightarrow> committer \<Rightarrow> commit_system \<Rightarrow> commit_system" where
  "goto t c s \<equiv> s\<lparr>cs_threads := (cs_threads s)[t := c]\<rparr>"

text \<open>\<open>cv.notify_all\<close>: every parked thread runs again and tests its condition anew.\<close>

definition notify_all :: "commit_system \<Rightarrow> commit_system" where
  "notify_all s = s\<lparr>cs_parked := {}\<rparr>"

lemma notify_all_simps [simp]: "cs_state (notify_all s) = cs_state s" "cs_written (notify_all s) = cs_written s" "cs_synced (notify_all s) = cs_synced s"
  "cs_threads (notify_all s) = cs_threads s" "cs_parked (notify_all s) = {}"
  by (simp_all add: notify_all_def)

inductive commit_step :: "commit_system \<Rightarrow> commit_system \<Rightarrow> bool" where
  join: "t < length (cs_threads s) \<Longrightarrow> cs_threads s ! t = Written p \<Longrightarrow> join_cohort (cs_state s) = (st, g, lead)
    \<Longrightarrow> commit_step s (goto t (if lead then Leading g p else Following g p) (s\<lparr>cs_state := st\<rparr>))"
| close: "t < length (cs_threads s) \<Longrightarrow> cs_threads s ! t = Leading g p \<Longrightarrow> t \<notin> cs_parked s \<Longrightarrow> close_cohort g (cs_state s) = Some st
    \<Longrightarrow> commit_step s (goto t (Flushing g p (cs_written s)) (s\<lparr>cs_state := st\<rparr>))"
| leader_waits: "t < length (cs_threads s) \<Longrightarrow> cs_threads s ! t = Leading g p \<Longrightarrow> t \<notin> cs_parked s \<Longrightarrow> close_cohort g (cs_state s) = None
    \<Longrightarrow> commit_step s (s\<lparr>cs_parked := insert t (cs_parked s)\<rparr>)"
| flushed: "t < length (cs_threads s) \<Longrightarrow> cs_threads s ! t = Flushing g p start \<Longrightarrow> start \<le> n \<Longrightarrow> n \<le> cs_written s
    \<Longrightarrow> commit_step s (notify_all (goto t (Returned p (Inr ()))
          (s\<lparr>cs_state := finish_flush g (Inr ()) (cs_state s), cs_synced := max (cs_synced s) n\<rparr>)))"
| flush_failed: "t < length (cs_threads s) \<Longrightarrow> cs_threads s ! t = Flushing g p start
    \<Longrightarrow> commit_step s (notify_all (goto t (Returned p (Inl msg)) (s\<lparr>cs_state := finish_flush g (Inl msg) (cs_state s)\<rparr>)))"
| wake: "t < length (cs_threads s) \<Longrightarrow> cs_threads s ! t = Following g p \<Longrightarrow> t \<notin> cs_parked s \<Longrightarrow> follower_result g (cs_state s) = Some r
    \<Longrightarrow> commit_step s (goto t (Returned p r) s)"
| follower_waits: "t < length (cs_threads s) \<Longrightarrow> cs_threads s ! t = Following g p \<Longrightarrow> t \<notin> cs_parked s \<Longrightarrow> follower_result g (cs_state s) = None
    \<Longrightarrow> commit_step s (s\<lparr>cs_parked := insert t (cs_parked s)\<rparr>)"

text \<open>A thread starts a commit: its batch goes to the log, unsynced.\<close>

inductive commit_start :: "commit_system \<Rightarrow> commit_system \<Rightarrow> bool" where
  append_batch: "t < length (cs_threads s) \<Longrightarrow> cs_threads s ! t \<in> {Idle, Returned p r}
    \<Longrightarrow> commit_start s (goto t (Written (cs_written s + 1)) (s\<lparr>cs_written := cs_written s + 1\<rparr>))"

inductive commit_reach :: "commit_system \<Rightarrow> bool" where
  new: "commit_reach (system_new n)"
| start: "commit_reach s \<Longrightarrow> commit_start s s' \<Longrightarrow> commit_reach s'"
| step: "commit_reach s \<Longrightarrow> commit_step s s' \<Longrightarrow> commit_reach s'"

section \<open>Invariant\<close>

primrec is_leading :: "committer \<Rightarrow> bool" where
  "is_leading Idle = False"
| "is_leading (Written p) = False"
| "is_leading (Following g p) = False"
| "is_leading (Leading g p) = True"
| "is_leading (Flushing g p start) = False"
| "is_leading (Returned p r) = False"

primrec is_flushing :: "committer \<Rightarrow> bool" where
  "is_flushing Idle = False"
| "is_flushing (Written p) = False"
| "is_flushing (Following g p) = False"
| "is_flushing (Leading g p) = False"
| "is_flushing (Flushing g p start) = True"
| "is_flushing (Returned p r) = False"

text \<open>
  What holds at each point of a thread. A follower's generation is open, in flight (its batch
  then lies before the start of the flush), or completed: recorded as failed, durable, or so old
  that its record may have been pruned.
\<close>

primrec gc_assert :: "gc_state \<Rightarrow> nat \<Rightarrow> nat \<Rightarrow> nat option \<Rightarrow> committer \<Rightarrow> bool" where
  "gc_assert st written synced flush_start Idle = True"
| "gc_assert st written synced flush_start (Written p) = (p \<le> written)"
| "gc_assert st written synced flush_start (Following g p) =
     (p \<le> written \<and> 0 < g \<and> g \<le> gc_accumulating st \<and> (g = gc_accumulating st \<longrightarrow> gc_leader_present st)
      \<and> (\<forall>start. flush_start = Some start \<longrightarrow> g + 1 = gc_accumulating st \<longrightarrow> p \<le> start)
      \<and> (g \<le> gc_completed st \<longrightarrow> map_of (gc_failed st) g \<noteq> None \<or> p \<le> synced \<or> g + ERROR_RETENTION_GENS \<le> gc_completed st))"
| "gc_assert st written synced flush_start (Leading g p) = (p \<le> written \<and> g = gc_accumulating st)"
| "gc_assert st written synced flush_start (Flushing g p start) =
     (p \<le> start \<and> start \<le> written \<and> g + 1 = gc_accumulating st \<and> flush_start = Some start)"
| "gc_assert st written synced flush_start (Returned p r) = True"

definition gc_inv :: "commit_system \<Rightarrow> bool" where
  "gc_inv s \<longleftrightarrow> (let st = cs_state s; xs = cs_threads s in
     sole is_leading (gc_leader_present st) xs \<and> sole is_flushing (gc_flush_in_progress st) xs
     \<and> gc_accumulating st = gc_completed st + (if gc_flush_in_progress st then 2 else 1)
     \<and> cs_synced s \<le> cs_written s
     \<and> (\<exists>fs. (fs = None \<longleftrightarrow> \<not> gc_flush_in_progress st) \<and> all_threads (gc_assert st (cs_written s) (cs_synced s) fs) xs))"

lemma gc_invI:
  assumes "sole is_leading (gc_leader_present (cs_state s)) (cs_threads s)"
    and "sole is_flushing (gc_flush_in_progress (cs_state s)) (cs_threads s)"
    and "gc_accumulating (cs_state s) = gc_completed (cs_state s) + (if gc_flush_in_progress (cs_state s) then 2 else 1)"
    and "cs_synced s \<le> cs_written s" "fs = None \<longleftrightarrow> \<not> gc_flush_in_progress (cs_state s)"
    and "all_threads (gc_assert (cs_state s) (cs_written s) (cs_synced s) fs) (cs_threads s)"
  shows "gc_inv s"
  using assms unfolding gc_inv_def Let_def by blast

lemma gc_invE:
  assumes "gc_inv s"
  obtains fs where "sole is_leading (gc_leader_present (cs_state s)) (cs_threads s)"
    "sole is_flushing (gc_flush_in_progress (cs_state s)) (cs_threads s)"
    "gc_accumulating (cs_state s) = gc_completed (cs_state s) + (if gc_flush_in_progress (cs_state s) then 2 else 1)"
    "cs_synced s \<le> cs_written s" "fs = None \<longleftrightarrow> \<not> gc_flush_in_progress (cs_state s)"
    "all_threads (gc_assert (cs_state s) (cs_written s) (cs_synced s) fs) (cs_threads s)"
  using assms unfolding gc_inv_def Let_def by blast

lemma gc_inv_parked [simp]: "gc_inv (s\<lparr>cs_parked := w\<rparr>) = gc_inv s" "gc_inv (notify_all s) = gc_inv s"
  by (simp_all add: gc_inv_def notify_all_def)

lemma gc_inv_new: "gc_inv (system_new n)"
  by (rule gc_invI [where fs = None]) (simp_all add: system_new_def committer_new_def)

lemma gc_inv_start: "commit_start s s' \<Longrightarrow> gc_inv s \<Longrightarrow> gc_inv s'"
proof (induction rule: commit_start.induct)
  case (append_batch t s p r)
  from append_batch(3) obtain fs where inv: "sole is_leading (gc_leader_present (cs_state s)) (cs_threads s)"
    "sole is_flushing (gc_flush_in_progress (cs_state s)) (cs_threads s)"
    "gc_accumulating (cs_state s) = gc_completed (cs_state s) + (if gc_flush_in_progress (cs_state s) then 2 else 1)"
    "cs_synced s \<le> cs_written s" "fs = None \<longleftrightarrow> \<not> gc_flush_in_progress (cs_state s)"
    "all_threads (gc_assert (cs_state s) (cs_written s) (cs_synced s) fs) (cs_threads s)" by (rule gc_invE)
  have idle: "\<not> is_leading (cs_threads s ! t)" "\<not> is_flushing (cs_threads s ! t)" using append_batch(2) by auto
  have grow: "gc_assert st w y fs c \<Longrightarrow> gc_assert st (Suc w) y fs c" for st w y c by (cases c) auto
  show ?case
    by (rule gc_invI [where fs = fs]) (use inv idle append_batch(1) grow in \<open>auto intro!: sole_keep elim!: all_threads_step\<close>)
qed

text \<open>Frames of the assertions: what a step of one thread may change under the feet of the others.\<close>

lemma map_of_filter_key: "map_of (filter (\<lambda>(k, _). P k) xs) k = (if P k then map_of xs k else None)"
  by (induction xs) auto

lemma failed_after: "map_of (gc_failed (finish_flush g r st)) g' =
    (case r of Inr _ \<Rightarrow> map_of (gc_failed st) g'
     | Inl msg \<Rightarrow> if g' > max (gc_completed st) g - ERROR_RETENTION_GENS then (if g' = g then Some msg else map_of (gc_failed st) g') else None)"
  by (auto simp: finish_flush_def Let_def map_of_filter_key simp del: filter_filter split: sum.split)

lemma assert_finish:
  assumes "gc_assert st w y (Some start) c" "\<not> is_flushing c" "gc_accumulating st = gc_completed st + 2" "g + 1 = gc_accumulating st"
    and "case r of Inr _ \<Rightarrow> start \<le> y' | Inl _ \<Rightarrow> True" "y \<le> y'"
  shows "gc_assert (finish_flush g r st) w y' None c"
proof (cases c)
  case (Following g' p)
  have c: "gc_completed (finish_flush g r st) = g" "gc_accumulating (finish_flush g r st) = gc_accumulating st"
      "gc_leader_present (finish_flush g r st) = gc_leader_present st"
    using assms(3,4) by (simp_all add: finish_flush_def Let_def split: sum.split)
  have f: "map_of (gc_failed (finish_flush g r st)) g' \<noteq> None" if "map_of (gc_failed st) g' \<noteq> None" "g < g' + ERROR_RETENTION_GENS"
    using that assms(1,3,4) Following by (auto simp: failed_after split: sum.split)
  have l: "map_of (gc_failed (finish_flush g r st)) g \<noteq> None" if "r = Inl msg" for msg
    using that assms(3,4) by (auto simp: failed_after ERROR_RETENTION_GENS_def)
  show ?thesis
  proof (cases "g' = g")
    case True
    then have "p \<le> start" using assms(1,4) Following by auto
    then show ?thesis using assms Following True c l by (cases r) auto
  next
    case False
    then have "g' \<le> g \<longrightarrow> g' \<le> gc_completed st" using assms(3,4) by auto
    then show ?thesis using assms Following False c f by (fastforce simp: not_le)
  qed
qed (use assms in \<open>simp_all add: finish_flush_def Let_def split: sum.split\<close>)

lemma gc_inv_step: "commit_step s s' \<Longrightarrow> gc_inv s \<Longrightarrow> gc_inv s'"
proof -
  assume step: "commit_step s s'" and "gc_inv s"
  from \<open>gc_inv s\<close> obtain fs where inv: "sole is_leading (gc_leader_present (cs_state s)) (cs_threads s)"
    "sole is_flushing (gc_flush_in_progress (cs_state s)) (cs_threads s)"
    "gc_accumulating (cs_state s) = gc_completed (cs_state s) + (if gc_flush_in_progress (cs_state s) then 2 else 1)"
    "cs_synced s \<le> cs_written s" "fs = None \<longleftrightarrow> \<not> gc_flush_in_progress (cs_state s)"
    "all_threads (gc_assert (cs_state s) (cs_written s) (cs_synced s) fs) (cs_threads s)" by (rule gc_invE)
  have lead: "u = t" if "u < length (cs_threads s)" "t < length (cs_threads s)" "is_leading (cs_threads s ! u)" "is_leading (cs_threads s ! t)" for u t
    using sole_unique [OF inv(1)] that by blast
  have flush: "u = t" if "u < length (cs_threads s)" "t < length (cs_threads s)" "is_flushing (cs_threads s ! u)" "is_flushing (cs_threads s ! t)" for u t
    using sole_unique [OF inv(2)] that by blast
  have finish: "gc_inv (goto t (Returned p r) (s\<lparr>cs_state := finish_flush g r (cs_state s), cs_synced := y\<rparr>))"
    if h: "t < length (cs_threads s)" "cs_threads s ! t = Flushing g p start"
      "case r of Inr _ \<Rightarrow> start \<le> y | Inl _ \<Rightarrow> True" "cs_synced s \<le> y" "y \<le> cs_written s" for t g p start r y
  proof -
    have fip: "gc_flush_in_progress (cs_state s)" using sole_flag [OF inv(2) that(1)] that(2) by simp
    have me: "g + 1 = gc_accumulating (cs_state s)" "fs = Some start" using all_threads_at [OF inv(6) that(1)] that(2) by auto
    have acc: "gc_accumulating (cs_state s) = gc_completed (cs_state s) + 2" using inv(3) fip by simp
    have st: "gc_leader_present (finish_flush g r (cs_state s)) = gc_leader_present (cs_state s)"
      "\<not> gc_flush_in_progress (finish_flush g r (cs_state s))" "gc_completed (finish_flush g r (cs_state s)) = g"
      "gc_accumulating (finish_flush g r (cs_state s)) = g + 1"
      using me acc by (simp_all add: finish_flush_def Let_def split: sum.split)
    have "gc_assert (finish_flush g r (cs_state s)) (cs_written s) y None (cs_threads s ! u)"
      if u: "u < length (cs_threads s)" "u \<noteq> t" "gc_assert (cs_state s) (cs_written s) (cs_synced s) fs (cs_threads s ! u)" for u
      by (rule assert_finish [OF _ _ acc me(1) h(3,4)]) (use u flush [of u t] h me in auto)
    moreover have "sole is_flushing False ((cs_threads s)[t := Returned p r])"
      using sole_leave [of is_flushing "cs_threads s" t] inv(2) fip that by auto
    ultimately show ?thesis using inv that st
      by (intro gc_invI [where fs = None]) (auto intro!: sole_keep elim!: all_threads_step)
  qed
  from step show "gc_inv s'"
  proof (cases rule: commit_step.cases)
    case (join t p st g l)
    show ?thesis
    proof (cases "gc_leader_present (cs_state s)")
      case True
      then show ?thesis using join inv all_threads_at [OF inv(6) join(2)]
        by (intro gc_invI [where fs = fs]) (auto simp: join_cohort_def Let_def intro!: sole_keep elim!: all_threads_step)
    next
      case False
      have keep: "gc_assert (cs_state s\<lparr>gc_leader_present := True\<rparr>) w y fs c" if "gc_assert (cs_state s) w y fs c" for w y c
        using that by (cases c) auto
      have "sole is_leading True ((cs_threads s)[t := Leading g p])" "sole is_flushing (gc_flush_in_progress (cs_state s)) ((cs_threads s)[t := Leading g p])"
        using sole_enter [of is_leading "cs_threads s" t] sole_keep [OF inv(2) join(2)] inv(1) join(2,3) False by auto
      then show ?thesis using False join inv(3-5) keep all_threads_at [OF inv(6) join(2)] all_threads_step [OF inv(6)]
        by (intro gc_invI [where fs = fs]) (auto simp: join_cohort_def Let_def)
    qed
  next
    case (close t g p st)
    then have nf: "\<not> gc_flush_in_progress (cs_state s)" and st: "st = cs_state s\<lparr>gc_accumulating := g + 1, gc_leader_present := False, gc_flush_in_progress := True\<rparr>"
      by (auto simp: close_cohort_def split: if_splits)
    have me: "p \<le> cs_written s" "g = gc_accumulating (cs_state s)" using all_threads_at [OF inv(6) close(2)] close(3) by auto
    have keep: "gc_assert st (cs_written s) (cs_synced s) (Some (cs_written s)) (cs_threads s ! u)"
      if "u < length (cs_threads s)" "u \<noteq> t" "gc_assert (cs_state s) (cs_written s) (cs_synced s) fs (cs_threads s ! u)" for u
      using that lead [of u t] flush nf inv(3) me(2) close sole_flag [OF inv(2) that(1)] by (cases "cs_threads s ! u") (auto simp: st)
    have "sole is_leading False ((cs_threads s)[t := Flushing g p (cs_written s)])"
      using sole_leave [of is_leading "cs_threads s" t] inv(1) sole_flag [OF inv(1) close(2)] close by auto
    moreover have "sole is_flushing True ((cs_threads s)[t := Flushing g p (cs_written s)])"
      using sole_enter [of is_flushing "cs_threads s" t] inv(2) nf close by auto
    ultimately show ?thesis using close st inv nf me keep
      by (intro gc_invI [where fs = "Some (cs_written s)"]) (auto elim!: all_threads_step)
  next
    case (flushed t g p start n)
    have "gc_inv (goto t (Returned p (Inr ())) (s\<lparr>cs_state := finish_flush g (Inr ()) (cs_state s), cs_synced := max (cs_synced s) n\<rparr>))"
      by (rule finish [OF flushed(2,3)]) (use flushed(4,5) inv(4) in auto)
    then show ?thesis by (simp only: flushed(1) gc_inv_parked)
  next
    case (flush_failed t g p start msg)
    have "gc_inv (goto t (Returned p (Inl msg)) (s\<lparr>cs_state := finish_flush g (Inl msg) (cs_state s), cs_synced := cs_synced s\<rparr>))"
      by (rule finish [OF flush_failed(2,3)]) (use inv(4) in auto)
    then show ?thesis by (simp add: flush_failed(1))
  next
    case (wake t g p r)
    then show ?thesis using inv by (intro gc_invI [where fs = fs]) (auto intro!: sole_keep elim!: all_threads_step)
  qed (use \<open>gc_inv s\<close> in simp_all)
qed

text \<open>No wake-up is lost: a parked thread waits for something that a flush in flight, or one still to come, will end.\<close>

definition has_to_wait :: "gc_state \<Rightarrow> committer \<Rightarrow> bool" where
  "has_to_wait st c = (case c of Following g p \<Rightarrow> gc_completed st < g | Leading g p \<Rightarrow> gc_flush_in_progress st | _ \<Rightarrow> False)"

definition parked_ok :: "commit_system \<Rightarrow> bool" where
  "parked_ok s \<longleftrightarrow> (\<forall>t \<in> cs_parked s. t < length (cs_threads s) \<and> has_to_wait (cs_state s) (cs_threads s ! t))"

lemma has_to_wait_simps [simp]:
  "\<not> has_to_wait st Idle" "\<not> has_to_wait st (Written p)" "has_to_wait st (Following g p) \<longleftrightarrow> gc_completed st < g"
  "has_to_wait st (Leading g p) \<longleftrightarrow> gc_flush_in_progress st" "\<not> has_to_wait st (Flushing g p n)" "\<not> has_to_wait st (Returned p r)"
  by (simp_all add: has_to_wait_def)

lemma parked_waits: "parked_ok s \<Longrightarrow> \<not> has_to_wait (cs_state s) (cs_threads s ! t) \<Longrightarrow> t \<notin> cs_parked s"
  by (auto simp: parked_ok_def)

lemma parked_keep:
  assumes "parked_ok s" "t \<notin> cs_parked s" "cs_parked s' = cs_parked s" "cs_threads s' = (cs_threads s)[t := c]"
    and "gc_completed (cs_state s') = gc_completed (cs_state s)" "gc_flush_in_progress (cs_state s) \<Longrightarrow> gc_flush_in_progress (cs_state s')"
  shows "parked_ok s'"
  unfolding parked_ok_def
proof
  fix u assume u: "u \<in> cs_parked s'"
  have "has_to_wait (cs_state s) x \<Longrightarrow> has_to_wait (cs_state s') x" for x using assms(5,6) by (cases x) simp_all
  then show "u < length (cs_threads s') \<and> has_to_wait (cs_state s') (cs_threads s' ! u)"
    using u assms(1-4) by (cases "u = t") (auto simp: parked_ok_def)
qed

lemma parked_ok_step: "commit_step s s' \<Longrightarrow> parked_ok s \<Longrightarrow> parked_ok s'"
proof (induction rule: commit_step.induct)
  case (join t s p st g lead)
  have "gc_completed st = gc_completed (cs_state s)" "gc_flush_in_progress st = gc_flush_in_progress (cs_state s)"
    using join(3) by (auto simp: join_cohort_def Let_def split: if_splits)
  then show ?case using join(2) by (intro parked_keep [OF join(4) parked_waits [OF join(4), of t]]) simp_all
next
  case (close t s g p st)
  then have "gc_completed st = gc_completed (cs_state s)" "gc_flush_in_progress st" by (auto simp: close_cohort_def split: if_splits)
  then show ?case using close(3) by (intro parked_keep [OF close(5), of t]) simp_all
next
  case (wake t s g p r)
  then show ?case by (intro parked_keep [OF wake(5), of t]) simp_all
qed (auto simp: parked_ok_def notify_all_def close_cohort_def follower_result_def split: if_splits)

lemma parked_ok_start: "commit_start s s' \<Longrightarrow> parked_ok s \<Longrightarrow> parked_ok s'"
proof (induction rule: commit_start.induct)
  case (append_batch t s p r)
  have "\<not> has_to_wait (cs_state s) (cs_threads s ! t)" using append_batch(2) by auto
  from parked_keep [OF append_batch(3) parked_waits [OF append_batch(3) this]] show ?case by simp
qed

lemma commit_reach_parked: "commit_reach s \<Longrightarrow> parked_ok s"
proof (induction rule: commit_reach.induct)
  case (new n)
  show ?case by (simp add: parked_ok_def system_new_def)
qed (auto intro: parked_ok_start parked_ok_step)

lemma commit_reach_inv: "commit_reach s \<Longrightarrow> gc_inv s"
  by (induction rule: commit_reach.induct) (auto intro: gc_inv_new gc_inv_start gc_inv_step)

section \<open>Progress\<close>

text \<open>How many steps a thread can still take before it returns.\<close>

primrec steps_left :: "committer \<Rightarrow> nat" where
  "steps_left Idle = 0"
| "steps_left (Written p) = 3"
| "steps_left (Following g p) = 1"
| "steps_left (Leading g p) = 2"
| "steps_left (Flushing g p start) = 1"
| "steps_left (Returned p r) = 0"

definition commit_variant :: "commit_system \<Rightarrow> nat" where
  "commit_variant s = sum_list (map steps_left (cs_threads s)) * Suc (length (cs_threads s)) + card ({..<length (cs_threads s)} - cs_parked s)"

lemma commit_variant_step:
  assumes "commit_step s s'"
  shows "commit_variant s' < commit_variant s" "length (cs_threads s') = length (cs_threads s)"
proof -
  have run: "commit_variant s' < commit_variant s \<and> length (cs_threads s') = length (cs_threads s)"
    if t: "t < length (cs_threads s)" and s': "cs_threads s' = (cs_threads s)[t := c]" and less: "steps_left c < steps_left (cs_threads s ! t)" for t c
  proof -
    let ?n = "length (cs_threads s)"
    have "Suc (sum_list (map steps_left (cs_threads s'))) \<le> sum_list (map steps_left (cs_threads s))"
      using sum_list_step [OF t, of steps_left c] less unfolding s' by linarith
    then have "Suc (sum_list (map steps_left (cs_threads s'))) * Suc ?n \<le> sum_list (map steps_left (cs_threads s)) * Suc ?n" by (rule mult_le_mono1)
    moreover have "card ({..<?n} - cs_parked s') \<le> ?n" by (metis card_lessThan card_mono Diff_subset finite_lessThan)
    ultimately show ?thesis unfolding commit_variant_def s' by simp
  qed
  have park: "commit_variant s' < commit_variant s \<and> length (cs_threads s') = length (cs_threads s)"
    if "t < length (cs_threads s)" "t \<notin> cs_parked s" "s' = s\<lparr>cs_parked := insert t (cs_parked s)\<rparr>" for t
  proof -
    have "{..<length (cs_threads s)} - insert t (cs_parked s) \<subset> {..<length (cs_threads s)} - cs_parked s" using that by auto
    then have "card ({..<length (cs_threads s)} - insert t (cs_parked s)) < card ({..<length (cs_threads s)} - cs_parked s)" by (rule psubset_card_mono [rotated]) simp
    then show ?thesis using that(3) by (simp add: commit_variant_def)
  qed
  from assms have "commit_variant s' < commit_variant s \<and> length (cs_threads s') = length (cs_threads s)"
  proof (cases rule: commit_step.cases)
    case (join t p st g lead)
    then show ?thesis by (intro run [of t "if lead then Leading g p else Following g p"]) auto
  next
    case (close t g p st)
    then show ?thesis by (intro run [of t "Flushing g p (cs_written s)"]) auto
  next
    case (flushed t g p start n)
    then show ?thesis by (intro run [of t "Returned p (Inr ())"]) (auto simp: notify_all_def)
  next
    case (flush_failed t g p start msg)
    then show ?thesis by (intro run [of t "Returned p (Inl msg)"]) (auto simp: notify_all_def)
  next
    case (wake t g p r)
    then show ?thesis by (intro run [of t "Returned p r"]) auto
  next
    case (leader_waits t g p)
    then show ?thesis by (intro park) simp_all
  next
    case (follower_waits t g p)
    then show ?thesis by (intro park) simp_all
  qed
  then show "commit_variant s' < commit_variant s" "length (cs_threads s') = length (cs_threads s)" by simp_all
qed

lemma commit_progress:
  assumes "gc_inv s" "parked_ok s" "t < length (cs_threads s)" "steps_left (cs_threads s ! t) > 0"
  shows "\<exists>s'. commit_step s s'"
proof -
  from assms(1) obtain fs where inv: "sole is_leading (gc_leader_present (cs_state s)) (cs_threads s)"
    "sole is_flushing (gc_flush_in_progress (cs_state s)) (cs_threads s)"
    "gc_accumulating (cs_state s) = gc_completed (cs_state s) + (if gc_flush_in_progress (cs_state s) then 2 else 1)"
    "all_threads (gc_assert (cs_state s) (cs_written s) (cs_synced s) fs) (cs_threads s)" by (rule gc_invE)
  show ?thesis
  proof (cases "gc_flush_in_progress (cs_state s)")
    case True
    with inv(2) obtain u where u: "u < length (cs_threads s)" "is_flushing (cs_threads s ! u)" using sole_exists by auto
    then obtain g p start where "cs_threads s ! u = Flushing g p start" by (cases "cs_threads s ! u") auto
    then show ?thesis using commit_step.flush_failed u(1) by blast
  next
    case idle: False
    show ?thesis
    proof (cases "gc_leader_present (cs_state s)")
      case True
      with inv(1) obtain u where u: "u < length (cs_threads s)" "is_leading (cs_threads s ! u)" using sole_exists by auto
      then obtain g p where l: "cs_threads s ! u = Leading g p" by (cases "cs_threads s ! u") auto
      have "u \<notin> cs_parked s" using parked_waits [OF assms(2)] l idle by simp
      moreover obtain st where "close_cohort g (cs_state s) = Some st" using idle by (simp add: close_cohort_def)
      ultimately show ?thesis using commit_step.close u(1) l by blast
    next
      case False
      have a: "gc_assert (cs_state s) (cs_written s) (cs_synced s) fs (cs_threads s ! t)" by (rule all_threads_at [OF inv(4) assms(3)])
      show ?thesis
      proof (cases "cs_threads s ! t")
        case (Following g p)
        then have "g \<le> gc_completed (cs_state s)" using a False inv(3) idle by auto
        moreover from this have "t \<notin> cs_parked s" using parked_waits [OF assms(2), of t] Following by simp
        moreover obtain r where "follower_result g (cs_state s) = Some r" using calculation(1) by (simp add: follower_result_def)
        ultimately show ?thesis using commit_step.wake assms(3) Following by blast
      next
        case (Written p)
        obtain st g l where "join_cohort (cs_state s) = (st, g, l)" by (cases "join_cohort (cs_state s)") auto
        then show ?thesis using commit_step.join assms(3) Written by blast
      qed (use assms sole_flag [OF inv(1) assms(3)] sole_flag [OF inv(2) assms(3)] False idle in auto)
    qed
  qed
qed

definition settled :: "commit_system \<Rightarrow> bool" where
  "settled s \<longleftrightarrow> (\<forall>c \<in> set (cs_threads s). steps_left c = 0)"

lemma commit_settles: "gc_inv s \<Longrightarrow> parked_ok s \<Longrightarrow> \<exists>s'. commit_step\<^sup>*\<^sup>* s s' \<and> settled s'"
proof (induction "commit_variant s" arbitrary: s rule: less_induct)
  case less
  show ?case
  proof (cases "settled s")
    case False
    then obtain t where "t < length (cs_threads s)" "steps_left (cs_threads s ! t) > 0"
      unfolding settled_def by (metis in_set_conv_nth not_gr_zero)
    from commit_progress [OF less.prems this] obtain s1 where s1: "commit_step s s1" ..
    from less.hyps [OF commit_variant_step(1) [OF s1] gc_inv_step [OF s1 less.prems(1)] parked_ok_step [OF s1 less.prems(2)]] obtain s' where "commit_step\<^sup>*\<^sup>* s1 s'" "settled s'" by blast
    then show ?thesis using s1 by (meson converse_rtranclp_into_rtranclp)
  qed blast
qed

lemma commit_run_bounded: "(commit_step ^^ n) s s' \<Longrightarrow> n + commit_variant s' \<le> commit_variant s"
proof (induction n arbitrary: s')
  case (Suc n)
  then obtain s1 where "(commit_step ^^ n) s s1" "commit_step s1 s'" by auto
  then show ?case using Suc.IH [of s1] commit_variant_step(1) [of s1 s'] by simp
qed simp

lemma commit_variant_le: "commit_variant s \<le> 3 * length (cs_threads s) * Suc (length (cs_threads s)) + length (cs_threads s)"
proof -
  have "steps_left c \<le> 3" for c by (cases c) auto
  then have "sum_list (map steps_left xs) \<le> 3 * length xs" for xs
    by (induction xs) (auto intro: add_mono order_trans)
  then have "sum_list (map steps_left (cs_threads s)) * Suc (length (cs_threads s)) \<le> 3 * length (cs_threads s) * Suc (length (cs_threads s))"
    by (rule mult_le_mono1)
  moreover have "card ({..<length (cs_threads s)} - cs_parked s) \<le> length (cs_threads s)" by (metis card_lessThan card_mono Diff_subset finite_lessThan)
  ultimately show ?thesis unfolding commit_variant_def by (rule add_mono)
qed

lemma returned_durable:
  assumes "gc_inv s" "commit_step s s'" "t < length (cs_threads s)" "steps_left (cs_threads s ! t) > 0"
    and "cs_threads s' ! t = Returned p (Inr ())"
    and "\<forall>g q. cs_threads s ! t = Following g q \<longrightarrow> gc_completed (cs_state s) < g + ERROR_RETENTION_GENS"
  shows "p \<le> cs_synced s'"
proof -
  from assms(1) obtain fs where inv: "all_threads (gc_assert (cs_state s) (cs_written s) (cs_synced s) fs) (cs_threads s)"
    by (rule gc_invE)
  from all_threads_at [OF this assms(3)]
  have a: "gc_assert (cs_state s) (cs_written s) (cs_synced s) fs (cs_threads s ! t)" .
  from assms(2) show ?thesis
  proof (cases rule: commit_step.cases)
    case (flushed u g q start n)
    then show ?thesis using assms a by (cases "u = t") auto
  next
    case (wake u g q r)
    then have [simp]: "u = t" using assms(3-5) by (cases "u = t") auto
    have "\<not> gc_completed (cs_state s) < g" "map_of (gc_failed (cs_state s)) g = None"
      using wake assms(3,5) by (auto simp: follower_result_def split: if_splits option.splits)
    then show ?thesis using wake a assms(3,5,6) by auto
  qed (use assms(3-5) in \<open>(auto simp: nth_list_update split: if_splits)\<close>)
qed

text \<open>A lone committer, and a follower whose cohort's flush failed while others go on failing.\<close>

definition solo :: "committer \<Rightarrow> gc_state \<Rightarrow> commit_system" where
  "solo c st = \<lparr>cs_state = st, cs_written = 1, cs_synced = 0, cs_threads = [c], cs_parked = {}\<rparr>"

lemma solo_reach: "commit_reach (solo (Flushing 1 1 1) (committer_new\<lparr>gc_accumulating := 2, gc_flush_in_progress := True\<rparr>))"
proof -
  have "commit_start (system_new 1) (solo (Written 1) committer_new)"
    using commit_start.append_batch [of 0 "system_new 1" 0 "Inr ()"] by (simp add: system_new_def solo_def)
  then have 1: "commit_reach (solo (Written 1) committer_new)" by (rule commit_reach.start [OF commit_reach.new])
  have "commit_step (solo (Written 1) committer_new) (solo (Leading 1 1) (committer_new\<lparr>gc_leader_present := True\<rparr>))"
    using commit_step.join [of 0 "solo (Written 1) committer_new" 1 "committer_new\<lparr>gc_leader_present := True\<rparr>" 1 True]
    by (simp add: solo_def join_cohort_def committer_new_def)
  then have 2: "commit_reach (solo (Leading 1 1) (committer_new\<lparr>gc_leader_present := True\<rparr>))" by (rule commit_reach.step [OF 1])
  have "commit_step (solo (Leading 1 1) (committer_new\<lparr>gc_leader_present := True\<rparr>))
      (solo (Flushing 1 1 1) (committer_new\<lparr>gc_accumulating := 2, gc_flush_in_progress := True\<rparr>))"
    using commit_step.close [of 0 "solo (Leading 1 1) (committer_new\<lparr>gc_leader_present := True\<rparr>)" 1 1]
    by (simp add: solo_def close_cohort_def committer_new_def numeral_2_eq_2)
  then show ?thesis by (rule commit_reach.step [OF 2])
qed

definition late :: "nat \<Rightarrow> (nat \<times> string) list \<Rightarrow> commit_system" where
  "late k f = \<lparr>cs_state = \<lparr>gc_accumulating = k + 1, gc_completed = k, gc_leader_present = False, gc_flush_in_progress = False, gc_failed = f\<rparr>,
     cs_written = k + 1, cs_synced = 0, cs_threads = [Following 1 1, Returned (k + 1) (Inl ''io'')], cs_parked = {}\<rparr>"

abbreviation pair :: "gc_state \<Rightarrow> nat \<Rightarrow> committer \<Rightarrow> committer \<Rightarrow> commit_system" where
  "pair st w c d \<equiv> \<lparr>cs_state = st, cs_written = w, cs_synced = 0, cs_threads = [c, d], cs_parked = {}\<rparr>"

lemma pair_steps:
  "commit_reach (pair st w c (Written q)) \<Longrightarrow> \<not> gc_leader_present st
    \<Longrightarrow> commit_reach (pair (st\<lparr>gc_leader_present := True\<rparr>) w c (Leading (gc_accumulating st) q))"
  "commit_reach (pair st w c (Leading g q)) \<Longrightarrow> \<not> gc_flush_in_progress st
    \<Longrightarrow> commit_reach (pair (st\<lparr>gc_accumulating := g + 1, gc_leader_present := False, gc_flush_in_progress := True\<rparr>) w c (Flushing g q w))"
  "commit_reach (pair st w c (Flushing g q n)) \<Longrightarrow> commit_reach (pair (finish_flush g (Inl ''io'') st) w c (Returned q (Inl ''io'')))"
  subgoal
    using commit_reach.step [OF _ commit_step.join [of 1 "pair st w c (Written q)" q "st\<lparr>gc_leader_present := True\<rparr>" "gc_accumulating st" True]]
    by (simp add: join_cohort_def)
  subgoal
    using commit_reach.step [OF _ commit_step.close [of 1 "pair st w c (Leading g q)" g q]] by (simp add: close_cohort_def)
  subgoal
    using commit_reach.step [OF _ commit_step.flush_failed [of 1 "pair st w c (Flushing g q n)" g q n "''io''"]] by (simp add: notify_all_def)
  done

lemma late_reach: "0 < k \<Longrightarrow> \<exists>f. commit_reach (late k f) \<and> (k > ERROR_RETENTION_GENS \<longrightarrow> map_of f 1 = None)"
proof (induction k rule: nat_induct_non_zero)
  case 1
  let ?led = "committer_new\<lparr>gc_leader_present := True\<rparr>"
  have "commit_start (system_new 2) (pair committer_new 1 (Written 1) Idle)"
    using commit_start.append_batch [of 0 "system_new 2" 0 "Inr ()"] by (simp add: system_new_def numeral_2_eq_2)
  then have "commit_reach (pair committer_new 1 (Written 1) Idle)" by (rule commit_reach.start [OF commit_reach.new])
  moreover have "commit_start (pair committer_new 1 (Written 1) Idle) (pair committer_new 2 (Written 1) (Written 2))"
    using commit_start.append_batch [of 1 "pair committer_new 1 (Written 1) Idle" 0 "Inr ()"] by (simp add: numeral_2_eq_2)
  ultimately have "commit_reach (pair committer_new 2 (Written 1) (Written 2))" by (rule commit_reach.start)
  from pair_steps(1) [OF this] have "commit_reach (pair ?led 2 (Written 1) (Leading 1 2))" by (simp add: committer_new_def)
  moreover have "commit_step (pair ?led 2 (Written 1) (Leading 1 2)) (pair ?led 2 (Following 1 1) (Leading 1 2))"
    using commit_step.join [of 0 "pair ?led 2 (Written 1) (Leading 1 2)" 1 ?led 1 False] by (simp add: join_cohort_def committer_new_def)
  ultimately have "commit_reach (pair ?led 2 (Following 1 1) (Leading 1 2))" by (rule commit_reach.step)
  from pair_steps(3) [OF pair_steps(2) [OF this]] show ?case
    by (intro exI [of _ "[(1, ''io'')]"]) (simp add: committer_new_def finish_flush_def Let_def late_def ERROR_RETENTION_GENS_def numeral_2_eq_2)
next
  case (Suc k)
  then obtain f where f: "commit_reach (late k f)" by blast
  let ?st = "\<lparr>gc_accumulating = k + 1, gc_completed = k, gc_leader_present = False, gc_flush_in_progress = False, gc_failed = f\<rparr>"
  let ?fin = "finish_flush (k + 1) (Inl ''io'') (?st\<lparr>gc_leader_present := False, gc_accumulating := k + 2, gc_flush_in_progress := True\<rparr>)"
  have "commit_start (late k f) (pair ?st (k + 2) (Following 1 1) (Written (k + 2)))"
    using commit_start.append_batch [of 1 "late k f" "k + 1" "Inl ''io''"] by (simp add: late_def)
  from commit_reach.start [OF f this] have "commit_reach (pair ?st (k + 2) (Following 1 1) (Written (k + 2)))" .
  from pair_steps(3) [OF pair_steps(2) [OF pair_steps(1) [OF this]]]
  have "commit_reach (late (Suc k) (gc_failed ?fin))" by (simp add: late_def finish_flush_def Let_def)
  moreover have "Suc k > ERROR_RETENTION_GENS \<longrightarrow> map_of (gc_failed ?fin) 1 = None"
    using Suc(1) by (auto simp: failed_after)
  ultimately show ?case by blast
qed

text \<open>The committer as a durability barrier.\<close>

definition commit_env :: "commit_system \<Rightarrow> commit_system \<Rightarrow> bool" where
  "commit_env s s' \<longleftrightarrow> commit_step s s' \<or> commit_start s s'"

text \<open>A thread has just returned success for position \<open>p\<close>.\<close>

definition committed :: "commit_system \<Rightarrow> nat \<Rightarrow> bool" where
  "committed s' p \<longleftrightarrow> (\<exists>s t. gc_inv s \<and> commit_step s s' \<and> t < length (cs_threads s) \<and> steps_left (cs_threads s ! t) > 0
     \<and> cs_threads s' ! t = Returned p (Inr ())
     \<and> (\<forall>g q. cs_threads s ! t = Following g q \<longrightarrow> gc_completed (cs_state s) < g + ERROR_RETENTION_GENS))"

lemma commit_env_synced: "commit_env s s' \<Longrightarrow> cs_synced s \<le> cs_synced s'"
  unfolding commit_env_def by (auto elim!: commit_step.cases commit_start.cases)

interpretation group_commit: durability_barrier commit_env cs_synced committed
  by unfold_locales (auto simp: committed_def intro: returned_durable commit_env_synced)

section \<open>Properties\<close>

text \<open>
  C29. Success means durable: whenever a committer returns from \<open>wait_durable\<close> with success,
  as leader or as follower and in any interleaving of any number of threads, the batch it wrote
  before joining lies within the synced part of the log, then and in every later state. The
  condition for a follower is that it wakes while fewer than \<open>ERROR_RETENTION_GENS\<close> generations have
  completed since its own; \<open>late_follower_reports_success\<close> shows that it is needed.
\<close>

theorem group_commit_durable:
  assumes "commit_reach s" "commit_step s s'" "t < length (cs_threads s)" "steps_left (cs_threads s ! t) > 0"
    and "cs_threads s' ! t = Returned p (Inr ())"
    and "\<forall>g q. cs_threads s ! t = Following g q \<longrightarrow> gc_completed (cs_state s) < g + ERROR_RETENTION_GENS"
    and "commit_env\<^sup>*\<^sup>* s' later"
  shows "p \<le> cs_synced later"
proof -
  have "committed s' p" using commit_reach_inv [OF assms(1)] assms(2-6) unfolding committed_def by blast
  then show ?thesis using assms(7) by (rule group_commit.stays_durable)
qed

theorem group_commit_durable_witness:
  "let s = solo (Flushing 1 1 1) (committer_new\<lparr>gc_accumulating := 2, gc_flush_in_progress := True\<rparr>);
       s' = notify_all (goto 0 (Returned 1 (Inr ())) (s\<lparr>cs_state := finish_flush 1 (Inr ()) (cs_state s), cs_synced := 1\<rparr>))
   in commit_step s s' \<and> 1 \<le> cs_synced s'"
proof -
  let ?s = "solo (Flushing 1 1 1) (committer_new\<lparr>gc_accumulating := 2, gc_flush_in_progress := True\<rparr>)"
  let ?s' = "notify_all (goto 0 (Returned 1 (Inr ())) (?s\<lparr>cs_state := finish_flush 1 (Inr ()) (cs_state ?s), cs_synced := 1\<rparr>))"
  have step: "commit_step ?s ?s'" using commit_step.flushed [of 0 ?s 1 1 1 1] by (simp add: solo_def)
  have "1 \<le> cs_synced ?s'" by (rule group_commit_durable [OF solo_reach step, of 0]) (simp_all add: solo_def)
  then show ?thesis using step by (simp add: Let_def)
qed

text \<open>
  C34. Nobody waits for ever: from every reachable state the threads inside \<open>wait_durable\<close> can
  all be run to their return; every run of them in which no new commit starts ends, within a number of steps quadratic in the number of
  threads; and in a state in which no step is possible no thread is left inside, so no thread
  is parked on the condition variable with nobody to notify it, whatever the flushes answer. The
  flush itself is assumed to return.
\<close>

theorem group_commit_live:
  assumes "commit_reach s"
  shows "(\<exists>s'. commit_step\<^sup>*\<^sup>* s s' \<and> settled s')
    \<and> (\<forall>n s'. (commit_step ^^ n) s s' \<longrightarrow> n \<le> 3 * length (cs_threads s) * Suc (length (cs_threads s)) + length (cs_threads s))
    \<and> ((\<nexists>s'. commit_step s s') \<longrightarrow> settled s \<and> cs_parked s = {})"
proof (intro conjI allI impI)
  note inv = commit_reach_inv [OF assms] commit_reach_parked [OF assms]
  show "\<exists>s'. commit_step\<^sup>*\<^sup>* s s' \<and> settled s'" by (rule commit_settles [OF inv])
  show "n \<le> 3 * length (cs_threads s) * Suc (length (cs_threads s)) + length (cs_threads s)" if "(commit_step ^^ n) s s'" for n s'
    using commit_run_bounded [OF that] commit_variant_le [of s] by linarith
  show *: "settled s" if "\<nexists>s'. commit_step s s'"
    using commit_progress [OF inv] that unfolding settled_def by (metis in_set_conv_nth not_gr_zero)
  show "cs_parked s = {}" if "\<nexists>s'. commit_step s s'"
  proof -
    have "\<not> has_to_wait st c" if "steps_left c = 0" for st c using that by (cases c) simp_all
    then show ?thesis using * [OF that] inv(2) unfolding settled_def parked_ok_def by (metis equals0I nth_mem)
  qed
qed

theorem group_commit_live_witness:
  "\<exists>s'. commit_step\<^sup>*\<^sup>* (solo (Flushing 1 1 1) (committer_new\<lparr>gc_accumulating := 2, gc_flush_in_progress := True\<rparr>)) s' \<and> settled s'"
  using group_commit_live [OF solo_reach] by blast

text \<open>
  The error record of a generation can be pruned before its follower wakes: after 1025
  failed flushes in a row a follower of the first one, scheduled late, returns success although
  no flush ever succeeded and its batch is not durable.
\<close>

theorem late_follower_reports_success:
  "\<exists>s s'. commit_reach s \<and> commit_step s s' \<and> cs_threads s ! 0 = Following 1 1 \<and> cs_threads s' ! 0 = Returned 1 (Inr ())
     \<and> cs_synced s' = 0"
proof -
  obtain f where f: "commit_reach (late 1025 f)" "map_of f 1 = None"
    using late_reach [of 1025] by (auto simp: ERROR_RETENTION_GENS_def)
  have "commit_step (late 1025 f) (goto 0 (Returned 1 (Inr ())) (late 1025 f))"
    by (rule commit_step.wake [of _ _ 1]) (use f(2) in \<open>simp_all add: late_def follower_result_def\<close>)
  then show ?thesis using f(1) by (intro exI conjI) (assumption | simp add: late_def)+
qed

end
