(* ===== verification/Filter_Predicate.thy ===== *)
theory Filter_Predicate
  imports Values
begin

text \<open>
  The predicates that a scan pushes into storage (\<^verbatim>\<open>src/src/storage/simd_filter.rs\<close>,
  \<open>FilterPredicate\<close>) and the ordering of numeric payloads they use
  (\<^verbatim>\<open>src/src/sql/numeric_special.rs\<close>). Text is UTF-8 and is decoded to code points where the
  code iterates over \<open>char\<close>. \<open>rust_decimal\<close>, \<open>uuid\<close> and the parser of floats are parameters.
\<close>

section \<open>Text\<close>

text \<open>\<open>str::chars\<close> on well-formed UTF-8.\<close>

fun chars :: "bytes \<Rightarrow> nat list" where
  "chars [] = []"
| "chars (a # bs) = (if unat a < 0x80 then unat a # chars bs
     else if unat a < 0xE0 then (case bs of
         b # bs \<Rightarrow> ((unat a - 0xC0) * 64 + (unat b - 0x80)) # chars bs | _ \<Rightarrow> [])
     else if unat a < 0xF0 then (case bs of
         b # c # bs \<Rightarrow> (((unat a - 0xE0) * 64 + (unat b - 0x80)) * 64 + (unat c - 0x80)) # chars bs | _ \<Rightarrow> [])
     else (case bs of
         b # c # d # bs \<Rightarrow> ((((unat a - 0xF0) * 64 + (unat b - 0x80)) * 64 + (unat c - 0x80)) * 64 + (unat d - 0x80)) # chars bs
       | _ \<Rightarrow> []))"

text \<open>The bytes of a text again.\<close>

definition utf8_char :: "nat \<Rightarrow> bytes" where
  "utf8_char c = map word_of_nat (if c < 0x80 then [c]
     else if c < 0x800 then [0xC0 + c div 64, 0x80 + c mod 64]
     else if c < 0x10000 then [0xE0 + c div 4096, 0x80 + c div 64 mod 64, 0x80 + c mod 64]
     else [0xF0 + c div 262144, 0x80 + c div 4096 mod 64, 0x80 + c div 64 mod 64, 0x80 + c mod 64])"

definition utf8 :: "nat list \<Rightarrow> bytes" where
  "utf8 cs = concat (map utf8_char cs)"

definition is_whitespace :: "nat \<Rightarrow> bool" where
  "is_whitespace c \<longleftrightarrow> 9 \<le> c \<and> c \<le> 13 \<or> c = 0x20 \<or> c = 0x85 \<or> c = 0xA0 \<or> c = 0x1680 \<or> 0x2000 \<le> c \<and> c \<le> 0x200A
     \<or> c = 0x2028 \<or> c = 0x2029 \<or> c = 0x202F \<or> c = 0x205F \<or> c = 0x3000"

definition trim :: "nat list \<Rightarrow> nat list" where
  "trim s = rev (dropWhile is_whitespace (rev (dropWhile is_whitespace s)))"

definition ascii_lower :: "nat \<Rightarrow> nat" where
  "ascii_lower c = (if 65 \<le> c \<and> c \<le> 90 then c + 32 else c)"

definition same_letters :: "nat list \<Rightarrow> nat list \<Rightarrow> bool" where
  "same_letters a b \<longleftrightarrow> map ascii_lower a = map ascii_lower b"

abbreviation letters :: "string \<Rightarrow> nat list" where
  "letters s \<equiv> map of_char s"

section \<open>Numeric payloads\<close>

datatype special = NaN | PosInf | NegInf

definition special_rank :: "special \<Rightarrow> nat" where
  "special_rank s = (case s of NegInf \<Rightarrow> 0 | PosInf \<Rightarrow> 2 | NaN \<Rightarrow> 3)"

definition from_neg :: "bool \<Rightarrow> special" where
  "from_neg neg = (if neg then NegInf else PosInf)"

definition parse_special :: "bytes \<Rightarrow> special option" where
  "parse_special s = (let t = trim (chars s) in
     if same_letters t (letters ''nan'') then Some NaN
     else let (neg, rest) = (case t of c # r \<Rightarrow> if c = 0x2B then (False, r) else if c = 0x2D then (True, r) else (False, t) | [] \<Rightarrow> (False, t)) in
       if same_letters rest (letters ''inf'') \<or> same_letters rest (letters ''infinity'') then Some (from_neg neg) else None)"

definition special_of :: "bytes \<Rightarrow> special option" where
  "special_of s = (let t = chars s in
     if t = letters ''NaN'' then Some NaN
     else if t = letters ''Infinity'' then Some PosInf
     else if t = letters ''-Infinity'' then Some NegInf
     else parse_special s)"

definition rank_of :: "special option \<Rightarrow> nat" where
  "rank_of s = (case s of None \<Rightarrow> 1 | Some sp \<Rightarrow> special_rank sp)"

text \<open>
  The external parsers: \<open>Decimal\<close> as mantissa and scale, \<open>f64\<close> as its bits, \<open>Uuid\<close> as its bytes,
  and how a \<open>Decimal\<close> prints.
\<close>

record parsers =
  px_decimal :: "bytes \<Rightarrow> (int \<times> nat) option"
  px_f64 :: "bytes \<Rightarrow> u64 option"
  px_uuid :: "bytes \<Rightarrow> bytes option"
  px_decimal_text :: "int \<times> nat \<Rightarrow> bytes"

definition special_text :: "special \<Rightarrow> bytes" where
  "special_text s = map of_char (case s of NaN \<Rightarrow> ''NaN'' | PosInf \<Rightarrow> ''Infinity'' | NegInf \<Rightarrow> ''-Infinity'')"

definition parse_numeric_text :: "parsers \<Rightarrow> bytes \<Rightarrow> bytes option" where
  "parse_numeric_text px s = (case parse_special s of
       Some sp \<Rightarrow> Some (special_text sp)
     | None \<Rightarrow> map_option (px_decimal_text px) (px_decimal px (utf8 (trim (chars s)))))"

definition decimal_cmp :: "int \<times> nat \<Rightarrow> int \<times> nat \<Rightarrow> ordering" where
  "decimal_cmp a b = cmp (fst a * 10 ^ snd b) (fst b * 10 ^ snd a)"

definition cmp_finite_numeric :: "parsers \<Rightarrow> bytes \<Rightarrow> bytes \<Rightarrow> ordering option" where
  "cmp_finite_numeric px a b = (case (px_decimal px a, px_decimal px b) of
       (Some ad, Some bd) \<Rightarrow> Some (decimal_cmp ad bd)
     | _ \<Rightarrow> Option.bind (px_f64 px a) (\<lambda>af. Option.bind (px_f64 px b) (\<lambda>bf. partial_cmp (f64_num af) (f64_num bf))))"

definition cmp_numeric_pushdown :: "parsers \<Rightarrow> bytes \<Rightarrow> bytes \<Rightarrow> ordering option" where
  "cmp_numeric_pushdown px a b = (case (special_of a, special_of b) of
       (None, None) \<Rightarrow> cmp_finite_numeric px a b
     | (sa, sb) \<Rightarrow> Some (cmp (rank_of sa) (rank_of sb)))"

text \<open>\<open>trim_matches\<close> with the quote character.\<close>

definition unquote :: "bytes \<Rightarrow> bytes" where
  "unquote s = rev (dropWhile (\<lambda>c. c = 0x27) (rev (dropWhile (\<lambda>c. c = 0x27) s)))"

definition parse_uuid_literal :: "parsers \<Rightarrow> bytes \<Rightarrow> bytes option" where
  "parse_uuid_literal px s = (case px_uuid px s of Some u \<Rightarrow> Some u | None \<Rightarrow> px_uuid px (unquote s))"

section \<open>Comparison\<close>

text \<open>
  Floats are numbers in units of \<open>2 powr -1074\<close>, infinities one step above the largest. The test
  \<open>(a - b).abs() < EPSILON\<close> rounds the difference: below \<open>EPSILON\<close> the spacing of \<open>f64\<close> is
  \<open>2 powr -105\<close>, so differences from \<open>EPSILON - 2 powr -106\<close> on round to \<open>EPSILON\<close> or above; for \<open>f32\<close> the
  limit is \<open>2 powr -23 - 2 powr -48\<close>. A difference with an infinity is infinite or NaN.
\<close>

definition inf_units :: int where
  "inf_units = int (float_units 52 0x7FF0000000000000)"

definition near_eq :: "int \<Rightarrow> int option \<Rightarrow> int option \<Rightarrow> bool" where
  "near_eq limit a b = (case (a, b) of (Some x, Some y) \<Rightarrow> \<bar>x\<bar> < inf_units \<and> \<bar>y\<bar> < inf_units \<and> \<bar>x - y\<bar> < limit | _ \<Rightarrow> False)"

definition EPS64 :: int where "EPS64 = 2 ^ 1022 - 2 ^ 968"
definition EPS32 :: int where "EPS32 = 2 ^ 1051 - 2 ^ 1026"

definition int_value :: "sql_value \<Rightarrow> int option" where
  "int_value v = (case v of Int2 i \<Rightarrow> Some (sint i) | Int4 i \<Rightarrow> Some (sint i) | Int8 i \<Rightarrow> Some (sint i) | _ \<Rightarrow> None)"

definition float_value :: "sql_value \<Rightarrow> int option option" where
  "float_value v = (case v of Float4 f \<Rightarrow> Some (f32_num f) | Float8 f \<Rightarrow> Some (f64_num f) | _ \<Rightarrow> None)"

fun compare_eq :: "parsers \<Rightarrow> sql_value \<Rightarrow> sql_value \<Rightarrow> bool" and compare_eqs :: "parsers \<Rightarrow> sql_value list \<Rightarrow> sql_value list \<Rightarrow> bool" where
  "compare_eq px Null b = (b = Null)"
| "compare_eq px (Boolean x) b = (b = Boolean x)"
| "compare_eq px (Float4 x) b = (case b of Float4 y \<Rightarrow> near_eq EPS32 (f32_num x) (f32_num y)
     | Float8 y \<Rightarrow> near_eq EPS64 (f32_num x) (f64_num y) | _ \<Rightarrow> False)"
| "compare_eq px (Float8 x) b = (case b of Float8 y \<Rightarrow> near_eq EPS64 (f64_num x) (f64_num y)
     | Float4 y \<Rightarrow> near_eq EPS64 (f64_num x) (f32_num y) | _ \<Rightarrow> False)"
| "compare_eq px (String x) b = (case b of String y \<Rightarrow> x = y | Uuid y \<Rightarrow> parse_uuid_literal px x = Some y | _ \<Rightarrow> False)"
| "compare_eq px (Bytes x) b = (b = Bytes x)"
| "compare_eq px (Uuid x) b = (case b of Uuid y \<Rightarrow> x = y | String y \<Rightarrow> parse_uuid_literal px y = Some x | _ \<Rightarrow> False)"
| "compare_eq px (Timestamp x) b = (b = Timestamp x)"
| "compare_eq px (Numeric x) b = (b = Numeric x)"
| "compare_eq px (Json x) b = (b = Json x)"
| "compare_eq px (Array x) b = (case b of Array y \<Rightarrow> compare_eqs px x y | _ \<Rightarrow> False)"
| "compare_eq px (Vector x) b = (case b of Vector y \<Rightarrow> list_all2 (\<lambda>f g. near_eq EPS32 (f32_num f) (f32_num g)) x y | _ \<Rightarrow> False)"
| "compare_eq px a b = (case (int_value a, int_value b) of (Some x, Some y) \<Rightarrow> x = y | _ \<Rightarrow> False)"
| "compare_eqs px [] ys = (ys = [])"
| "compare_eqs px (x # xs) ys = (case ys of [] \<Rightarrow> False | y # ys \<Rightarrow> compare_eq px x y \<and> compare_eqs px xs ys)"

text \<open>
  \<open>compare_lt\<close> and \<open>compare_gt\<close> list the same pairs of types; \<open>want\<close> is the ordering they ask for.
\<close>

definition compare_is :: "parsers \<Rightarrow> ordering \<Rightarrow> sql_value \<Rightarrow> sql_value \<Rightarrow> bool" where
  "compare_is px want a b = (case a of
       Boolean x \<Rightarrow> (case b of Boolean y \<Rightarrow> cmp x y = want | _ \<Rightarrow> False)
     | Float4 x \<Rightarrow> (case float_value b of Some y \<Rightarrow> partial_cmp (f32_num x) y = Some want | None \<Rightarrow> False)
     | Float8 x \<Rightarrow> (case float_value b of Some y \<Rightarrow> partial_cmp (f64_num x) y = Some want | None \<Rightarrow> False)
     | String x \<Rightarrow> (case b of String y \<Rightarrow> cmp x y = want | _ \<Rightarrow> False)
     | Bytes x \<Rightarrow> (case b of Bytes y \<Rightarrow> cmp x y = want | _ \<Rightarrow> False)
     | Timestamp x \<Rightarrow> (case b of Timestamp y \<Rightarrow> cmp x y = want | _ \<Rightarrow> False)
     | Numeric x \<Rightarrow> (case b of Numeric y \<Rightarrow> cmp_numeric_pushdown px x y = Some want | _ \<Rightarrow> False)
     | _ \<Rightarrow> (case (int_value a, int_value b) of (Some x, Some y) \<Rightarrow> cmp x y = want | _ \<Rightarrow> False))"

definition compare_lt :: "parsers \<Rightarrow> sql_value \<Rightarrow> sql_value \<Rightarrow> bool" where
  "compare_lt px a b = compare_is px Less a b"

definition compare_gt :: "parsers \<Rightarrow> sql_value \<Rightarrow> sql_value \<Rightarrow> bool" where
  "compare_gt px a b = compare_is px Greater a b"

section \<open>Patterns\<close>

function match_like_recursive :: "nat list \<Rightarrow> nat list \<Rightarrow> nat \<Rightarrow> nat \<Rightarrow> bool" where
  "match_like_recursive tx pat ti pj =
     (if pj \<ge> length pat then ti = length tx
      else if pat ! pj = 0x25 then list_ex (\<lambda>i. match_like_recursive tx pat i (pj + 1)) [ti..<length tx + 1]
      else if ti = length tx then False
      else if pat ! pj = 0x5F \<or> pat ! pj = tx ! ti then match_like_recursive tx pat (ti + 1) (pj + 1)
      else False)"
  by pat_completeness auto
termination by (relation "measure (\<lambda>(tx, pat, ti, pj). length pat - pj)") auto

declare match_like_recursive.simps [simp del]

definition match_like_pattern :: "bytes \<Rightarrow> bytes \<Rightarrow> bool" where
  "match_like_pattern tx pat = match_like_recursive (chars tx) (chars pat) 0 0"

section \<open>Predicates\<close>

datatype filter_op = Eq | NotEq | Lt | LtEq | Gt | GtEq | IsNull | IsNotNull | Like | NotLike | In | NotIn | Between | NotBetween

record filter_predicate =
  fp_column_index :: nat
  fp_column_name :: string
  fp_op :: filter_op
  fp_value :: sql_value
  fp_value2 :: "sql_value option"
  fp_value_list :: "sql_value list"
  fp_pattern :: "bytes option"

definition evaluate_like :: "filter_predicate \<Rightarrow> sql_value \<Rightarrow> bool" where
  "evaluate_like p v = (case fp_pattern p of
       None \<Rightarrow> False
     | Some pat \<Rightarrow> (case v of String s \<Rightarrow> match_like_pattern s pat | _ \<Rightarrow> False))"

definition evaluate :: "parsers \<Rightarrow> filter_predicate \<Rightarrow> sql_value \<Rightarrow> bool" where
  "evaluate px p v = (let w = fp_value p in case fp_op p of
       Eq \<Rightarrow> compare_eq px v w
     | NotEq \<Rightarrow> \<not> compare_eq px v w
     | Lt \<Rightarrow> compare_lt px v w
     | LtEq \<Rightarrow> compare_lt px v w \<or> compare_eq px v w
     | Gt \<Rightarrow> compare_gt px v w
     | GtEq \<Rightarrow> compare_gt px v w \<or> compare_eq px v w
     | IsNull \<Rightarrow> v = Null
     | IsNotNull \<Rightarrow> v \<noteq> Null
     | Like \<Rightarrow> evaluate_like p v
     | NotLike \<Rightarrow> \<not> evaluate_like p v
     | In \<Rightarrow> list_ex (compare_eq px v) (fp_value_list p)
     | NotIn \<Rightarrow> \<not> list_ex (compare_eq px v) (fp_value_list p)
     | Between \<Rightarrow> (case fp_value2 p of
           Some high \<Rightarrow> (compare_gt px v w \<or> compare_eq px v w) \<and> (compare_lt px v high \<or> compare_eq px v high) | None \<Rightarrow> False)
     | NotBetween \<Rightarrow> (case fp_value2 p of
           Some high \<Rightarrow> compare_lt px v w \<or> compare_gt px v high | None \<Rightarrow> True))"

section \<open>What a pattern matches\<close>

text \<open>
  A pattern splits the text into one piece for each of its characters: any piece for a percent
  sign, one character for an underscore, the character itself otherwise.
\<close>

definition piece :: "nat \<Rightarrow> nat list \<Rightarrow> bool" where
  "piece c s = (if c = 0x25 then True else if c = 0x5F then length s = 1 else s = [c])"

definition like_splits :: "nat list \<Rightarrow> nat list \<Rightarrow> bool" where
  "like_splits pat tx \<longleftrightarrow> (\<exists>ps. list_all2 piece pat ps \<and> concat ps = tx)"

lemma like_splits_Nil: "like_splits [] tx \<longleftrightarrow> tx = []"
  by (auto simp: like_splits_def)

lemma like_splits_Cons: "like_splits (c # pat) tx \<longleftrightarrow> (\<exists>k \<le> length tx. piece c (take k tx) \<and> like_splits pat (drop k tx))"
proof
  assume "like_splits (c # pat) tx"
  then obtain p ps where "piece c p" "list_all2 piece pat ps" "p @ concat ps = tx"
    unfolding like_splits_def by (auto simp: list_all2_Cons1)
  then show "\<exists>k \<le> length tx. piece c (take k tx) \<and> like_splits pat (drop k tx)"
    by (intro exI [of _ "length p"]) (auto simp: like_splits_def)
next
  assume "\<exists>k \<le> length tx. piece c (take k tx) \<and> like_splits pat (drop k tx)"
  then obtain k ps where "piece c (take k tx)" "list_all2 piece pat ps" "concat ps = drop k tx" by (auto simp: like_splits_def)
  then show "like_splits (c # pat) tx" unfolding like_splits_def by (intro exI [of _ "take k tx # ps"]) simp
qed

lemma like_splits_single:
  assumes "c \<noteq> 0x25"
  shows "like_splits (c # pat) tx \<longleftrightarrow> tx \<noteq> [] \<and> (c = 0x5F \<or> c = hd tx) \<and> like_splits pat (tl tx)"
proof -
  have "piece c (take k tx) \<longleftrightarrow> k = 1 \<and> tx \<noteq> [] \<and> (c = 0x5F \<or> c = hd tx)" if "k \<le> length tx" for k
    using assms that by (cases tx; cases k) (auto simp: piece_def take_Cons')
  then have "like_splits (c # pat) tx \<longleftrightarrow> (\<exists>k \<le> length tx. k = 1 \<and> tx \<noteq> [] \<and> (c = 0x5F \<or> c = hd tx) \<and> like_splits pat (drop k tx))"
    unfolding like_splits_Cons by blast
  then show ?thesis by (auto simp: drop_Suc Suc_le_eq)
qed

lemma match_like_correct:
  "ti \<le> length tx \<Longrightarrow> match_like_recursive tx pat ti pj \<longleftrightarrow> like_splits (drop pj pat) (drop ti tx)"
proof (induction tx pat ti pj rule: match_like_recursive.induct)
  case (1 tx pat ti pj)
  show ?case
  proof (cases "pj < length pat")
    case False
    then show ?thesis using 1 by (auto simp: match_like_recursive.simps [of tx pat ti pj] like_splits_Nil)
  next
    case True
    note step = match_like_recursive.simps [of tx pat ti pj] Cons_nth_drop_Suc [OF True, symmetric]
    show ?thesis
    proof (cases "pat ! pj = 0x25")
      case percent: True
      have ih: "match_like_recursive tx pat i (pj + 1) \<longleftrightarrow> like_splits (drop (pj + 1) pat) (drop i tx)"
        if "i \<in> set [ti..<length tx + 1]" for i using 1(1) [OF _ percent that] True that by auto
      have "match_like_recursive tx pat ti pj \<longleftrightarrow> (\<exists>i \<in> set [ti..<length tx + 1]. like_splits (drop (pj + 1) pat) (drop i tx))"
        using True percent ih unfolding step(1) list_ex_iff by auto
      also have "\<dots> \<longleftrightarrow> (\<exists>i. ti \<le> i \<and> i \<le> length tx \<and> like_splits (drop (pj + 1) pat) (drop i tx))"
      proof -
        have "i \<in> set [ti..<length tx + 1] \<longleftrightarrow> ti \<le> i \<and> i \<le> length tx" for i by auto
        then show ?thesis by blast
      qed
      also have "\<dots> \<longleftrightarrow> (\<exists>k \<le> length tx - ti. like_splits (drop (pj + 1) pat) (drop k (drop ti tx)))"
      proof
        assume "\<exists>i. ti \<le> i \<and> i \<le> length tx \<and> like_splits (drop (pj + 1) pat) (drop i tx)"
        then obtain i where "ti \<le> i" "i \<le> length tx" "like_splits (drop (pj + 1) pat) (drop i tx)" by blast
        then show "\<exists>k \<le> length tx - ti. like_splits (drop (pj + 1) pat) (drop k (drop ti tx))"
          by (intro exI [of _ "i - ti"]) simp
      next
        assume "\<exists>k \<le> length tx - ti. like_splits (drop (pj + 1) pat) (drop k (drop ti tx))"
        then obtain k where "k \<le> length tx - ti" "like_splits (drop (pj + 1) pat) (drop k (drop ti tx))" by blast
        then show "\<exists>i. ti \<le> i \<and> i \<le> length tx \<and> like_splits (drop (pj + 1) pat) (drop i tx)"
          using 1(3) by (intro exI [of _ "k + ti"]) simp
      qed
      finally show ?thesis using percent by (simp add: step(2) like_splits_Cons piece_def)
    next
      case False
      show ?thesis
      proof (cases "ti = length tx")
        case stop: True
        then show ?thesis using True False unfolding step by (simp add: like_splits_single [OF False])
      next
        case more: False
        then have "drop ti tx \<noteq> []" "hd (drop ti tx) = tx ! ti" "tl (drop ti tx) = drop (ti + 1) tx"
          using 1(3) by (simp_all add: hd_drop_conv_nth tl_drop drop_Suc)
        then show ?thesis using True False more 1 by (auto simp: step like_splits_single [OF False])
      qed
    qed
  qed
qed

text \<open>
  a pushed pattern matches exactly the texts that split into pieces as the pattern says, a
  percent sign standing for any number of characters and an underscore for one, whatever the
  positions the recursion starts from.
\<close>

theorem like_pattern_meaning: "match_like_pattern s pat \<longleftrightarrow> like_splits (chars pat) (chars s)"
  using match_like_correct [of 0 "chars s" "chars pat" 0] by (simp add: match_like_pattern_def)

end
