(* ===== verification/Zone_Map.thy ===== *)
theory Zone_Map
  imports Filter_Predicate "HOL-Library.AList"
begin

text \<open>
  Zone maps (\<^verbatim>\<open>src/src/storage/zone_map.rs\<close>): per block of rows and per column the smallest and
  largest value, the number of values and of NULLs, and the tests that let a scan skip a block.
  Counters are natural numbers; a \<open>HashMap\<close> of columns is an association list, and the derived
  statistics that only report (skip ratio, memory) have no model.
\<close>

section \<open>Ranges\<close>

record value_range =
  vr_min :: "sql_value option"
  vr_max :: "sql_value option"
  vr_has_nulls :: bool
  vr_count :: nat
  vr_null_count :: nat

definition range_empty :: value_range where
  "range_empty = \<lparr>vr_min = None, vr_max = None, vr_has_nulls = False, vr_count = 0, vr_null_count = 0\<rparr>"

definition from_value :: "sql_value \<Rightarrow> value_range" where
  "from_value v = (if v = Null
     then \<lparr>vr_min = None, vr_max = None, vr_has_nulls = True, vr_count = 1, vr_null_count = 1\<rparr>
     else \<lparr>vr_min = Some v, vr_max = Some v, vr_has_nulls = False, vr_count = 1, vr_null_count = 0\<rparr>)"

definition compare_values :: "parsers \<Rightarrow> sql_value \<Rightarrow> sql_value \<Rightarrow> ordering option" where
  "compare_values px a b =
     (if a = Null then Some (if b = Null then Equal else Less)
      else if b = Null then Some Greater
      else case a of
       Boolean x \<Rightarrow> (case b of Boolean y \<Rightarrow> Some (cmp x y) | _ \<Rightarrow> None)
     | Float4 x \<Rightarrow> Option.bind (float_value b) (partial_cmp (f32_num x))
     | Float8 x \<Rightarrow> Option.bind (float_value b) (partial_cmp (f64_num x))
     | String x \<Rightarrow> (case b of String y \<Rightarrow> Some (cmp x y) | _ \<Rightarrow> None)
     | Bytes x \<Rightarrow> (case b of Bytes y \<Rightarrow> Some (cmp x y) | _ \<Rightarrow> None)
     | Uuid x \<Rightarrow> (case b of Uuid y \<Rightarrow> Some (cmp x y) | _ \<Rightarrow> None)
     | Timestamp x \<Rightarrow> (case b of Timestamp y \<Rightarrow> Some (cmp x y) | _ \<Rightarrow> None)
     | Numeric x \<Rightarrow> (case b of Numeric y \<Rightarrow> cmp_numeric_pushdown px x y | _ \<Rightarrow> None)
     | Json x \<Rightarrow> (case b of Json y \<Rightarrow> Some (cmp x y) | _ \<Rightarrow> None)
     | _ \<Rightarrow> (case (int_value a, int_value b) of (Some x, Some y) \<Rightarrow> Some (cmp x y) | _ \<Rightarrow> None))"

definition lower_min :: "parsers \<Rightarrow> sql_value \<Rightarrow> sql_value option \<Rightarrow> sql_value option" where
  "lower_min px v cur = (case cur of None \<Rightarrow> Some v | Some c \<Rightarrow> if compare_values px v c = Some Less then Some v else cur)"

definition raise_max :: "parsers \<Rightarrow> sql_value \<Rightarrow> sql_value option \<Rightarrow> sql_value option" where
  "raise_max px v cur = (case cur of None \<Rightarrow> Some v | Some c \<Rightarrow> if compare_values px v c = Some Greater then Some v else cur)"

definition range_update :: "parsers \<Rightarrow> sql_value \<Rightarrow> value_range \<Rightarrow> value_range" where
  "range_update px v r = (let r = r\<lparr>vr_count := vr_count r + 1\<rparr> in
     if v = Null then r\<lparr>vr_has_nulls := True, vr_null_count := vr_null_count r + 1\<rparr>
     else r\<lparr>vr_min := lower_min px v (vr_min r), vr_max := raise_max px v (vr_max r)\<rparr>)"

definition range_merge :: "parsers \<Rightarrow> value_range \<Rightarrow> value_range \<Rightarrow> value_range" where
  "range_merge px other r = r\<lparr>
     vr_count := vr_count r + vr_count other,
     vr_null_count := vr_null_count r + vr_null_count other,
     vr_has_nulls := vr_has_nulls r \<or> vr_has_nulls other,
     vr_min := (case vr_min other of None \<Rightarrow> vr_min r | Some m \<Rightarrow> lower_min px m (vr_min r)),
     vr_max := (case vr_max other of None \<Rightarrow> vr_max r | Some m \<Rightarrow> raise_max px m (vr_max r))\<rparr>"

definition might_contain :: "parsers \<Rightarrow> sql_value \<Rightarrow> value_range \<Rightarrow> bool" where
  "might_contain px v r = (if v = Null then vr_has_nulls r
     else case (vr_min r, vr_max r) of
       (Some lo, Some hi) \<Rightarrow>
         (case compare_values px v lo of Some c \<Rightarrow> c \<noteq> Less | None \<Rightarrow> False) \<and>
         (case compare_values px v hi of Some c \<Rightarrow> c \<noteq> Greater | None \<Rightarrow> False)
     | _ \<Rightarrow> False)"

definition might_contain_less_than :: "parsers \<Rightarrow> sql_value \<Rightarrow> value_range \<Rightarrow> bool" where
  "might_contain_less_than px v r = (case vr_min r of
       Some lo \<Rightarrow> (case compare_values px lo v of Some c \<Rightarrow> c = Less | None \<Rightarrow> False) | None \<Rightarrow> False)"

definition might_contain_less_or_equal :: "parsers \<Rightarrow> sql_value \<Rightarrow> value_range \<Rightarrow> bool" where
  "might_contain_less_or_equal px v r = (case vr_min r of
       Some lo \<Rightarrow> (case compare_values px lo v of Some c \<Rightarrow> c \<noteq> Greater | None \<Rightarrow> False) | None \<Rightarrow> False)"

definition might_contain_greater_than :: "parsers \<Rightarrow> sql_value \<Rightarrow> value_range \<Rightarrow> bool" where
  "might_contain_greater_than px v r = (case vr_max r of
       Some hi \<Rightarrow> (case compare_values px hi v of Some c \<Rightarrow> c = Greater | None \<Rightarrow> False) | None \<Rightarrow> False)"

definition might_contain_greater_or_equal :: "parsers \<Rightarrow> sql_value \<Rightarrow> value_range \<Rightarrow> bool" where
  "might_contain_greater_or_equal px v r = (case vr_max r of
       Some hi \<Rightarrow> (case compare_values px hi v of Some c \<Rightarrow> c \<noteq> Less | None \<Rightarrow> False) | None \<Rightarrow> False)"

definition might_overlap :: "parsers \<Rightarrow> sql_value \<Rightarrow> sql_value \<Rightarrow> value_range \<Rightarrow> bool" where
  "might_overlap px low high r = (might_contain_less_or_equal px high r \<and> might_contain_greater_or_equal px low r)"

section \<open>Blocks\<close>

datatype range_op = REq | RNotEq | RLt | RLtEq | RGt | RGtEq

record block_zone_map =
  bz_block_id :: nat
  bz_row_count :: nat
  bz_first_row_id :: nat
  bz_last_row_id :: nat
  bz_columns :: "(string \<times> value_range) list"

definition block_new :: "nat \<Rightarrow> nat \<Rightarrow> block_zone_map" where
  "block_new block_id first_row_id =
     \<lparr>bz_block_id = block_id, bz_row_count = 0, bz_first_row_id = first_row_id, bz_last_row_id = first_row_id, bz_columns = []\<rparr>"

definition column_update :: "parsers \<Rightarrow> string \<times> sql_value \<Rightarrow> (string \<times> value_range) list \<Rightarrow> (string \<times> value_range) list" where
  "column_update px cv cols = (case cv of (c, v) \<Rightarrow>
     AList.update c (range_update px v (case map_of cols c of Some r \<Rightarrow> r | None \<Rightarrow> range_empty)) cols)"

definition block_add_row :: "parsers \<Rightarrow> nat \<Rightarrow> (string \<times> sql_value) list \<Rightarrow> block_zone_map \<Rightarrow> block_zone_map" where
  "block_add_row px row_id values b = b\<lparr>
     bz_row_count := bz_row_count b + 1,
     bz_last_row_id := row_id,
     bz_columns := fold (column_update px) values (bz_columns b)\<rparr>"

definition block_might_contain :: "parsers \<Rightarrow> string \<Rightarrow> sql_value \<Rightarrow> block_zone_map \<Rightarrow> bool" where
  "block_might_contain px c v b = (case map_of (bz_columns b) c of Some r \<Rightarrow> might_contain px v r | None \<Rightarrow> True)"

definition might_match_range :: "parsers \<Rightarrow> string \<Rightarrow> range_op \<Rightarrow> sql_value \<Rightarrow> block_zone_map \<Rightarrow> bool" where
  "might_match_range px c op v b = (case map_of (bz_columns b) c of
       Some r \<Rightarrow> (case op of
           REq \<Rightarrow> might_contain px v r
         | RNotEq \<Rightarrow> True
         | RLt \<Rightarrow> might_contain_less_than px v r
         | RLtEq \<Rightarrow> might_contain_less_or_equal px v r
         | RGt \<Rightarrow> might_contain_greater_than px v r
         | RGtEq \<Rightarrow> might_contain_greater_or_equal px v r)
     | None \<Rightarrow> True)"

definition might_match_between :: "parsers \<Rightarrow> string \<Rightarrow> sql_value \<Rightarrow> sql_value \<Rightarrow> block_zone_map \<Rightarrow> bool" where
  "might_match_between px c low high b = (case map_of (bz_columns b) c of Some r \<Rightarrow> might_overlap px low high r | None \<Rightarrow> True)"

definition might_contain_null :: "string \<Rightarrow> block_zone_map \<Rightarrow> bool" where
  "might_contain_null c b = (case map_of (bz_columns b) c of Some r \<Rightarrow> vr_has_nulls r | None \<Rightarrow> True)"

definition might_contain_not_null :: "string \<Rightarrow> block_zone_map \<Rightarrow> bool" where
  "might_contain_not_null c b = (case map_of (bz_columns b) c of Some r \<Rightarrow> vr_count r > vr_null_count r | None \<Rightarrow> True)"

section \<open>Tables\<close>

record zone_map_stats =
  zs_total_blocks :: nat
  zs_blocks_skipped :: nat
  zs_blocks_scanned :: nat
  zs_predicate_evaluations :: nat

record table_zone_map =
  tz_table_name :: string
  tz_blocks :: "block_zone_map list"
  tz_stats :: zone_map_stats
  tz_block_size :: nat

definition stats_zero :: zone_map_stats where
  "stats_zero = \<lparr>zs_total_blocks = 0, zs_blocks_skipped = 0, zs_blocks_scanned = 0, zs_predicate_evaluations = 0\<rparr>"

definition zone_map_new :: "string \<Rightarrow> nat \<Rightarrow> table_zone_map" where
  "zone_map_new name block_size = \<lparr>tz_table_name = name, tz_blocks = [], tz_stats = stats_zero, tz_block_size = max block_size 1\<rparr>"

text \<open>The loop that appends blocks until the one at \<open>block_idx\<close> exists.\<close>

definition ensure_blocks :: "nat \<Rightarrow> table_zone_map \<Rightarrow> table_zone_map" where
  "ensure_blocks block_idx z = (let have_n = length (tz_blocks z); missing = block_idx + 1 - have_n in
     z\<lparr>tz_blocks := tz_blocks z @ map (\<lambda>i. block_new i (i * tz_block_size z)) [have_n..<have_n + missing],
       tz_stats := (tz_stats z)\<lparr>zs_total_blocks := zs_total_blocks (tz_stats z) + missing\<rparr>\<rparr>)"

definition zone_add_row :: "parsers \<Rightarrow> nat \<Rightarrow> (string \<times> sql_value) list \<Rightarrow> table_zone_map \<Rightarrow> table_zone_map" where
  "zone_add_row px row_id values z = (let block_idx = row_id div tz_block_size z; z = ensure_blocks block_idx z in
     if block_idx < length (tz_blocks z)
     then z\<lparr>tz_blocks := (tz_blocks z)[block_idx := block_add_row px row_id values (tz_blocks z ! block_idx)]\<rparr> else z)"

definition count_blocks :: "(block_zone_map \<Rightarrow> bool) \<Rightarrow> table_zone_map \<Rightarrow> table_zone_map" where
  "count_blocks keep z = z\<lparr>tz_stats := (tz_stats z)\<lparr>
     zs_predicate_evaluations := zs_predicate_evaluations (tz_stats z) + length (tz_blocks z),
     zs_blocks_scanned := zs_blocks_scanned (tz_stats z) + length (filter keep (tz_blocks z)),
     zs_blocks_skipped := zs_blocks_skipped (tz_stats z) + length (filter (\<lambda>b. \<not> keep b) (tz_blocks z))\<rparr>\<rparr>"

definition matching_blocks :: "(block_zone_map \<Rightarrow> bool) \<Rightarrow> table_zone_map \<Rightarrow> table_zone_map \<times> nat list" where
  "matching_blocks keep z = (count_blocks keep z, map bz_block_id (filter keep (tz_blocks z)))"

definition get_matching_blocks_eq :: "parsers \<Rightarrow> string \<Rightarrow> sql_value \<Rightarrow> table_zone_map \<Rightarrow> table_zone_map \<times> nat list" where
  "get_matching_blocks_eq px c v = matching_blocks (block_might_contain px c v)"

definition get_matching_blocks_range :: "parsers \<Rightarrow> string \<Rightarrow> range_op \<Rightarrow> sql_value \<Rightarrow> table_zone_map \<Rightarrow> table_zone_map \<times> nat list" where
  "get_matching_blocks_range px c op v = matching_blocks (might_match_range px c op v)"

definition get_matching_blocks_between :: "parsers \<Rightarrow> string \<Rightarrow> sql_value \<Rightarrow> sql_value \<Rightarrow> table_zone_map \<Rightarrow> table_zone_map \<times> nat list" where
  "get_matching_blocks_between px c low high = matching_blocks (might_match_between px c low high)"

definition get_blocks_with_nulls :: "string \<Rightarrow> table_zone_map \<Rightarrow> nat list" where
  "get_blocks_with_nulls c z = map bz_block_id (filter (might_contain_null c) (tz_blocks z))"

definition get_blocks_with_not_nulls :: "string \<Rightarrow> table_zone_map \<Rightarrow> nat list" where
  "get_blocks_with_not_nulls c z = map bz_block_id (filter (might_contain_not_null c) (tz_blocks z))"

definition get_block_row_range :: "nat \<Rightarrow> table_zone_map \<Rightarrow> (nat \<times> nat) option" where
  "get_block_row_range i z = (if i < length (tz_blocks z)
     then Some (bz_first_row_id (tz_blocks z ! i), bz_last_row_id (tz_blocks z ! i)) else None)"

definition reset_stats :: "table_zone_map \<Rightarrow> table_zone_map" where
  "reset_stats z = z\<lparr>tz_stats := stats_zero\<lparr>zs_total_blocks := length (tz_blocks z)\<rparr>\<rparr>"

fun build_loop :: "parsers \<Rightarrow> string list \<Rightarrow> nat \<Rightarrow> sql_value list list \<Rightarrow> table_zone_map \<Rightarrow> table_zone_map" where
  "build_loop px names row_id [] z = z"
| "build_loop px names row_id (tp # tuples) z = build_loop px names (row_id + 1) tuples (zone_add_row px row_id (zip names tp) z)"

definition build_from_tuples :: "parsers \<Rightarrow> string list \<Rightarrow> sql_value list list \<Rightarrow> table_zone_map \<Rightarrow> table_zone_map" where
  "build_from_tuples px names tuples z = build_loop px names 0 tuples z"

section \<open>Ordered families of values\<close>

text \<open>
  The values of a column can be summarised by bounds when \<open>compare_values\<close> orders them by a key.
  A range \<open>covers\<close> the values it has seen: the bounds are two of them and enclose the rest.
\<close>

locale ordered_family =
  fixes px :: parsers and S :: "sql_value \<Rightarrow> bool" and key :: "sql_value \<Rightarrow> 'k::linorder"
  assumes not_null: "S v \<Longrightarrow> v \<noteq> Null"
    and cmp_key: "S a \<Longrightarrow> S b \<Longrightarrow> compare_values px a b = Some (cmp (key a) (key b))"
begin

definition encloses :: "sql_value \<Rightarrow> sql_value \<Rightarrow> sql_value list \<Rightarrow> bool" where
  "encloses lo hi vs \<longleftrightarrow> S lo \<and> S hi \<and> (\<forall>v \<in> set vs. v \<noteq> Null \<longrightarrow> key lo \<le> key v \<and> key v \<le> key hi)"

definition covers :: "value_range \<Rightarrow> sql_value list \<Rightarrow> bool" where
  "covers r vs \<longleftrightarrow> (\<forall>v \<in> set vs. v = Null \<or> S v) \<and> (vr_has_nulls r \<longleftrightarrow> Null \<in> set vs) \<and> vr_count r = length vs
     \<and> vr_null_count r = length (filter (\<lambda>v. v = Null) vs)
     \<and> (case (vr_min r, vr_max r) of (None, None) \<Rightarrow> \<forall>v \<in> set vs. v = Null | (Some lo, Some hi) \<Rightarrow> encloses lo hi vs | _ \<Rightarrow> False)"

lemma covers_empty: "covers range_empty []"
  by (simp add: covers_def range_empty_def)

lemma encloses_join:
  assumes "encloses lo hi vs" "encloses lo' hi' ws"
  shows "encloses (if key lo' < key lo then lo' else lo) (if key hi < key hi' then hi' else hi) (vs @ ws)"
proof -
  have "key (if key lo' < key lo then lo' else lo) = min (key lo) (key lo')" "key (if key hi < key hi' then hi' else hi) = max (key hi) (key hi')"
    by (auto simp: min_def max_def)
  then show ?thesis using assms unfolding encloses_def by (simp add: min_le_iff_disj le_max_iff_disj ball_Un)
qed

lemma encloses_single: "S v \<Longrightarrow> encloses v v [v]"
  by (simp add: encloses_def)

lemma encloses_nulls: "encloses lo hi vs \<Longrightarrow> \<forall>v \<in> set ws. v = Null \<Longrightarrow> encloses lo hi (vs @ ws) \<and> encloses lo hi (ws @ vs)"
  by (auto simp: encloses_def)

lemma covers_cases:
  assumes "covers r vs"
  obtains "vr_min r = None" "vr_max r = None" "\<forall>v \<in> set vs. v = Null"
    | lo hi where "vr_min r = Some lo" "vr_max r = Some hi" "encloses lo hi vs" "S lo" "S hi"
  using assms by (auto simp: covers_def encloses_def split: option.splits)

lemma joined_min: "S a \<Longrightarrow> S b \<Longrightarrow> lower_min px a (Some b) = Some (if key a < key b then a else b)"
  by (simp add: lower_min_def cmp_key)

lemma joined_max: "S a \<Longrightarrow> S b \<Longrightarrow> raise_max px a (Some b) = Some (if key b < key a then a else b)"
  by (simp add: raise_max_def cmp_key)

lemma covers_merge:
  assumes a: "covers r vs" and b: "covers other ws"
  shows "covers (range_merge px other r) (vs @ ws)"
proof -
  let ?m = "range_merge px other r"
  have "(\<forall>v \<in> set (vs @ ws). v = Null \<or> S v) \<and> (vr_has_nulls ?m \<longleftrightarrow> Null \<in> set (vs @ ws)) \<and> vr_count ?m = length (vs @ ws)
     \<and> vr_null_count ?m = length (filter (\<lambda>v. v = Null) (vs @ ws))"
    using a b by (auto simp: covers_def range_merge_def)
  moreover have "case (vr_min ?m, vr_max ?m) of (None, None) \<Rightarrow> \<forall>v \<in> set (vs @ ws). v = Null
      | (Some lo, Some hi) \<Rightarrow> encloses lo hi (vs @ ws) | _ \<Rightarrow> False"
  proof (cases rule: covers_cases [OF a])
    case 1
    note r = this
    show ?thesis by (cases rule: covers_cases [OF b]) (use r in \<open>auto simp: range_merge_def lower_min_def raise_max_def encloses_nulls\<close>)
  next
    case (2 lo hi)
    note r = this
    show ?thesis
    proof (cases rule: covers_cases [OF b])
      case 1
      then show ?thesis using r by (simp add: range_merge_def encloses_nulls)
    next
      case (2 lo' hi')
      then show ?thesis using r by (simp add: range_merge_def joined_min joined_max encloses_join)
    qed
  qed
  ultimately show ?thesis unfolding covers_def by blast
qed

text \<open>Updating a range is merging the range of one value into it.\<close>

lemma update_is_merge: "range_update px v r = range_merge px (from_value v) r"
  by (simp add: range_update_def range_merge_def from_value_def Let_def)

lemma covers_update:
  assumes "covers r vs" "v = Null \<or> S v"
  shows "covers (range_update px v r) (vs @ [v])"
proof -
  have "covers (from_value v) [v]" using assms(2) not_null by (auto simp: covers_def from_value_def encloses_single)
  then show ?thesis using covers_merge [OF assms(1)] by (simp add: update_is_merge)
qed

lemma covers_fold:
  assumes "\<forall>v \<in> set vs. v = Null \<or> S v"
  shows "covers (fold (range_update px) vs range_empty) vs"
  using assms by (induction vs rule: rev_induct) (simp_all add: covers_empty covers_update)

text \<open>A value that is in the block and in the asked relation to the bound keeps the block.\<close>

lemma kept:
  assumes r: "covers r vs" and v: "v \<in> set vs" "S v" and b: "S b"
  shows "compare_values px v b = Some Equal \<Longrightarrow> might_contain px b r"
    and "compare_values px v b = Some Less \<Longrightarrow> might_contain_less_than px b r"
    and "compare_values px v b = Some Less \<or> compare_values px v b = Some Equal \<Longrightarrow> might_contain_less_or_equal px b r"
    and "compare_values px v b = Some Greater \<Longrightarrow> might_contain_greater_than px b r"
    and "compare_values px v b = Some Greater \<or> compare_values px v b = Some Equal \<Longrightarrow> might_contain_greater_or_equal px b r"
proof -
  have "v \<noteq> Null" using v not_null by auto
  then obtain lo hi where l: "vr_min r = Some lo" "vr_max r = Some hi" "S lo" "S hi" "key lo \<le> key v" "key v \<le> key hi"
    using v by (cases rule: covers_cases [OF r]) (auto simp: encloses_def)
  note defs = might_contain_def might_contain_less_than_def might_contain_less_or_equal_def might_contain_greater_than_def
    might_contain_greater_or_equal_def
  show "compare_values px v b = Some Equal \<Longrightarrow> might_contain px b r"
    and "compare_values px v b = Some Less \<Longrightarrow> might_contain_less_than px b r"
    and "compare_values px v b = Some Less \<or> compare_values px v b = Some Equal \<Longrightarrow> might_contain_less_or_equal px b r"
    and "compare_values px v b = Some Greater \<Longrightarrow> might_contain_greater_than px b r"
    and "compare_values px v b = Some Greater \<or> compare_values px v b = Some Equal \<Longrightarrow> might_contain_greater_or_equal px b r"
    using l v b not_null [OF b] by (auto simp: defs cmp_key cmp_def split: if_splits)
qed

lemma kept_fold:
  assumes "\<forall>v \<in> set vs. v = Null \<or> S v" "v \<in> set vs" "S v" "S b" "compare_values px v b = Some c"
  defines "r \<equiv> fold (range_update px) vs range_empty"
  shows "(c = Equal \<longrightarrow> might_contain px b r) \<and> (c = Less \<longrightarrow> might_contain_less_than px b r)
    \<and> (c \<noteq> Greater \<longrightarrow> might_contain_less_or_equal px b r) \<and> (c = Greater \<longrightarrow> might_contain_greater_than px b r)
    \<and> (c \<noteq> Less \<longrightarrow> might_contain_greater_or_equal px b r)"
  using kept [OF covers_fold [OF assms(1)] assms(2-4)] assms(5) unfolding r_def by (cases c) simp_all

lemma kept_null:
  assumes "covers r vs" "v \<in> set vs"
  shows "v = Null \<Longrightarrow> vr_has_nulls r" and "v \<noteq> Null \<Longrightarrow> vr_count r > vr_null_count r"
proof -
  show "v = Null \<Longrightarrow> vr_has_nulls r" using assms by (simp add: covers_def)
  show "v \<noteq> Null \<Longrightarrow> vr_count r > vr_null_count r"
    using assms length_filter_less [of v vs "\<lambda>v. v = Null"] by (simp add: covers_def)
qed

end

section \<open>The families of the code\<close>

definition decimal_key :: "parsers \<Rightarrow> sql_value \<Rightarrow> int option" where
  "decimal_key px v = (case v of
       Numeric x \<Rightarrow> if special_of x = None
         then Option.bind (px_decimal px x) (\<lambda>(m, e). if e \<le> 28 then Some (m * 10 ^ (28 - e)) else None) else None
     | _ \<Rightarrow> None)"

definition text_key :: "sql_value \<Rightarrow> (nat \<times> bytes) option" where
  "text_key v = (case v of String s \<Rightarrow> Some (0, s) | Bytes s \<Rightarrow> Some (1, s) | Uuid s \<Rightarrow> Some (2, s) | Json s \<Rightarrow> Some (3, s) | _ \<Rightarrow> None)"

lemma decimal_cmp_key:
  assumes "e \<le> 28" "f \<le> 28"
  shows "decimal_cmp (m, e) (n, f) = cmp (m * 10 ^ (28 - e)) (n * 10 ^ (28 - f))"
proof -
  have e: "28 - e + (e + f) = f + 28" "28 - f + (e + f) = e + 28" using assms by simp_all
  have p: "m * 10 ^ (28 - e) * 10 ^ (e + f) = m * 10 ^ f * 10 ^ 28" "n * 10 ^ (28 - f) * 10 ^ (e + f) = n * 10 ^ e * (10 :: int) ^ 28"
    by (simp_all only: mult.assoc power_add [symmetric] e)
  have pos: "0 < (10 :: int) ^ k" for k by simp
  have scale: "cmp (a * c) (b * c) = cmp a b" if "0 < c" for a b c :: int using that by (simp add: cmp_def)
  have "cmp (m * 10 ^ f) (n * 10 ^ e) = cmp (m * 10 ^ f * 10 ^ 28) (n * 10 ^ e * 10 ^ 28)" by (simp only: scale [OF pos])
  also have "\<dots> = cmp (m * 10 ^ (28 - e)) (n * 10 ^ (28 - f))" unfolding p [symmetric] by (simp only: scale [OF pos])
  finally show ?thesis by (simp add: decimal_cmp_def)
qed

interpretation bools: ordered_family px "\<lambda>v. \<exists>b. v = Boolean b" "\<lambda>v. v = Boolean True" for px
  by unfold_locales (auto simp: compare_values_def)

interpretation ints: ordered_family px "\<lambda>v. int_value v \<noteq> None" "\<lambda>v. the (int_value v)" for px
  by unfold_locales (auto simp: compare_values_def int_value_def split: sql_value.splits)

interpretation floats: ordered_family px "\<lambda>v. \<exists>x. float_value v = Some (Some x)" "\<lambda>v. the (the (float_value v))" for px
  by unfold_locales (auto simp: compare_values_def float_value_def partial_cmp_def split: sql_value.splits)

interpretation texts: ordered_family px "\<lambda>v. \<exists>s. text_key v = Some (k, s)" "\<lambda>v. snd (the (text_key v))" for px k
  by unfold_locales (auto simp: compare_values_def text_key_def split: sql_value.splits)

interpretation times: ordered_family px "\<lambda>v. \<exists>x. v = Timestamp x" "\<lambda>v. case v of Timestamp x \<Rightarrow> x | _ \<Rightarrow> 0" for px
  by unfold_locales (auto simp: compare_values_def)

interpretation decimals: ordered_family px "\<lambda>v. decimal_key px v \<noteq> None" "\<lambda>v. the (decimal_key px v)" for px
  by unfold_locales
    (auto simp: compare_values_def decimal_key_def cmp_numeric_pushdown_def cmp_finite_numeric_def decimal_cmp_key
      split: sql_value.splits if_splits option.splits bind_splits)

text \<open>The family of a value, if it has one; NaN, dates, times, arrays and vectors have none.\<close>

definition order_class :: "parsers \<Rightarrow> sql_value \<Rightarrow> nat option" where
  "order_class px v =
     (if \<exists>b \<in> {True, False}. v = Boolean b then Some 0
      else if int_value v \<noteq> None then Some 1
      else case float_value v of Some (Some _) \<Rightarrow> Some 2 | Some None \<Rightarrow> None
      | None \<Rightarrow> (case text_key v of Some (k, _) \<Rightarrow> Some (3 + k)
      | None \<Rightarrow> (case v of Timestamp _ \<Rightarrow> Some 7
      | _ \<Rightarrow> if decimal_key px v \<noteq> None then Some 8 else None)))"

lemma order_class_family:
  "order_class px v = Some f \<longleftrightarrow>
     (f = 0 \<and> (\<exists>b. v = Boolean b)) \<or> (f = 1 \<and> int_value v \<noteq> None) \<or> (f = 2 \<and> (\<exists>x. float_value v = Some (Some x)))
     \<or> (\<exists>k < 4. f = 3 + k \<and> (\<exists>s. text_key v = Some (k, s))) \<or> (f = 7 \<and> (\<exists>x. v = Timestamp x)) \<or> (f = 8 \<and> decimal_key px v \<noteq> None)"
  by (cases v) (auto simp: order_class_def int_value_def float_value_def text_key_def decimal_key_def split: option.splits)

lemma class_not_null [simp]: "order_class px Null = None"
  by (simp add: order_class_def int_value_def float_value_def text_key_def decimal_key_def)

text \<open>Whatever the family, a block is kept when one of its values is in the asked relation to the bound.\<close>

lemma fold_kept:
  assumes vs: "\<forall>v \<in> set vs. v = Null \<or> order_class px v = Some f" and v: "v \<in> set vs" and b: "order_class px b = Some f"
    and rel: "compare_values px v b = Some c" "v \<noteq> Null"
  defines "r \<equiv> fold (range_update px) vs range_empty"
  shows "(c = Equal \<longrightarrow> might_contain px b r) \<and> (c = Less \<longrightarrow> might_contain_less_than px b r)
    \<and> (c \<noteq> Greater \<longrightarrow> might_contain_less_or_equal px b r) \<and> (c = Greater \<longrightarrow> might_contain_greater_than px b r)
    \<and> (c \<noteq> Less \<longrightarrow> might_contain_greater_or_equal px b r)"
proof -
  have vc: "order_class px v = Some f" using vs v rel(2) by auto
  consider "f = 0" | "f = 1" | "f = 2" | k where "k < 4" "f = 3 + k" | "f = 7" | "f = 8"
    using vc unfolding order_class_family by auto
  then show ?thesis
  proof cases
    case 1
    show ?thesis unfolding r_def
      by (rule bools.kept_fold [OF _ v _ _ rel(1)]) (use 1 vs vc b in \<open>auto simp: order_class_family\<close>)
  next
    case 2
    show ?thesis unfolding r_def
      by (rule ints.kept_fold [OF _ v _ _ rel(1)]) (use 2 vs vc b in \<open>auto simp: order_class_family\<close>)
  next
    case 3
    show ?thesis unfolding r_def
      by (rule floats.kept_fold [OF _ v _ _ rel(1)]) (use 3 vs vc b in \<open>auto simp: order_class_family\<close>)
  next
    case (4 k)
    show ?thesis unfolding r_def
      by (rule texts.kept_fold [where k = k, OF _ v _ _ rel(1)]) (use 4 vs vc b in \<open>auto simp: order_class_family\<close>)
  next
    case 5
    show ?thesis unfolding r_def
      by (rule times.kept_fold [OF _ v _ _ rel(1)]) (use 5 vs vc b in \<open>auto simp: order_class_family\<close>)
  next
    case 6
    show ?thesis unfolding r_def
      by (rule decimals.kept_fold [OF _ v _ _ rel(1)]) (use 6 vs vc b in \<open>auto simp: order_class_family\<close>)
  qed
qed

section \<open>The blocks of a table\<close>

text \<open>A map from column names to summaries, where each value of a row updates the summary of its column.\<close>

definition entry_update :: "(sql_value \<Rightarrow> 's \<Rightarrow> 's) \<Rightarrow> (string \<Rightarrow> 's) \<Rightarrow> string \<times> sql_value \<Rightarrow> (string \<times> 's) list \<Rightarrow> (string \<times> 's) list" where
  "entry_update upd init cv cols = (case cv of (c, v) \<Rightarrow>
     AList.update c (upd v (case map_of cols c of Some s \<Rightarrow> s | None \<Rightarrow> init c)) cols)"

definition add_entries :: "(sql_value \<Rightarrow> 's \<Rightarrow> 's) \<Rightarrow> (string \<Rightarrow> 's) \<Rightarrow> string list \<Rightarrow> sql_value list \<Rightarrow> (string \<times> 's) list \<Rightarrow> (string \<times> 's) list" where
  "add_entries upd init names tp cols = fold (entry_update upd init) (zip names tp) cols"

lemma entry_updates_get:
  "distinct (map fst kvs) \<Longrightarrow> map_of (fold (entry_update upd init) kvs cols) c = (case map_of kvs c of
     None \<Rightarrow> map_of cols c | Some v \<Rightarrow> Some (upd v (case map_of cols c of Some r \<Rightarrow> r | None \<Rightarrow> init c)))"
proof (induction kvs arbitrary: cols)
  case (Cons kv kvs)
  obtain k v where kv: "kv = (k, v)" by (cases kv)
  have "map_of kvs k = None" using Cons.prems by (simp add: kv map_of_eq_None_iff)
  then show ?case using Cons by (auto simp: kv entry_update_def update_conv' split: option.split)
qed simp

lemma add_entries_get:
  assumes "distinct names" "length tp = length names" "i < length names"
  shows "map_of (add_entries upd init names tp cols) (names ! i)
    = Some (upd (tp ! i) (case map_of cols (names ! i) of Some r \<Rightarrow> r | None \<Rightarrow> init (names ! i)))"
proof -
  have "distinct (map fst (zip names tp))" "(names ! i, tp ! i) \<in> set (zip names tp)" using assms by (auto simp: in_set_zip)
  then have "map_of (zip names tp) (names ! i) = Some (tp ! i)" by (rule map_of_is_SomeI)
  then show ?thesis using entry_updates_get [OF \<open>distinct (map fst (zip names tp))\<close>, of upd init cols "names ! i"] by (simp add: add_entries_def)
qed

lemma fold_entries_get:
  assumes "distinct names" "\<forall>tp \<in> set rows. length tp = length names" "i < length names"
  shows "map_of (fold (add_entries upd init names) rows []) (names ! i)
    = (if rows = [] then None else Some (fold upd (map (\<lambda>tp. tp ! i) rows) (init (names ! i))))"
  using assms(2)
proof (induction rows rule: rev_induct)
  case (snoc tp rows)
  then show ?case using add_entries_get [OF assms(1) _ assms(3), of tp upd init] by auto
qed simp

definition add_columns :: "parsers \<Rightarrow> string list \<Rightarrow> sql_value list \<Rightarrow> (string \<times> value_range) list \<Rightarrow> (string \<times> value_range) list" where
  "add_columns px names tp cols = fold (column_update px) (zip names tp) cols"

lemma add_columns_entries: "add_columns px = add_entries (range_update px) (\<lambda>_. range_empty)"
  by (simp add: fun_eq_iff add_columns_def add_entries_def column_update_def [abs_def] entry_update_def [abs_def])

lemma fold_columns_get:
  assumes "distinct names" "\<forall>tp \<in> set rows. length tp = length names" "i < length names"
  shows "map_of (fold (add_columns px names) rows []) (names ! i)
    = (if rows = [] then None else Some (fold (range_update px) (map (\<lambda>tp. tp ! i) rows) range_empty))"
  unfolding add_columns_entries by (rule fold_entries_get [OF assms])

definition block_rows :: "nat \<Rightarrow> nat \<Rightarrow> sql_value list list \<Rightarrow> sql_value list list" where
  "block_rows bs j rows = map ((!) rows) (filter (\<lambda>i. i div bs = j) [0..<length rows])"

lemma block_rows_snoc: "block_rows bs j (rows @ [tp]) = block_rows bs j rows @ (if length rows div bs = j then [tp] else [])"
  by (auto simp: block_rows_def nth_append)

lemma block_rows_mem: "i < length rows \<Longrightarrow> rows ! i \<in> set (block_rows bs (i div bs) rows)"
  by (auto simp: block_rows_def)

lemma block_rows_sub: "set (block_rows bs j rows) \<subseteq> set rows"
  by (auto simp: block_rows_def)

definition zone_shape :: "parsers \<Rightarrow> string list \<Rightarrow> nat \<Rightarrow> sql_value list list \<Rightarrow> table_zone_map \<Rightarrow> bool" where
  "zone_shape px names bs rows z \<longleftrightarrow> tz_block_size z = bs \<and> (\<forall>i < length rows. i div bs < length (tz_blocks z))
     \<and> (\<forall>j < length (tz_blocks z). bz_block_id (tz_blocks z ! j) = j
          \<and> bz_columns (tz_blocks z ! j) = fold (add_columns px names) (block_rows bs j rows) [])"

lemma zone_shape_add:
  assumes s: "zone_shape px names bs rows z" and bs: "0 < bs"
  shows "zone_shape px names bs (rows @ [tp]) (zone_add_row px (length rows) (zip names tp) z)"
proof -
  let ?k = "length rows div bs" and ?L = "length (tz_blocks z)"
  define e where "e = ensure_blocks ?k z"
  have size: "tz_block_size z = bs" "tz_block_size e = bs" using s by (simp_all add: zone_shape_def e_def ensure_blocks_def Let_def)
  have len: "length (tz_blocks e) = max ?L (?k + 1)" by (simp add: e_def ensure_blocks_def Let_def)
  have empty: "block_rows bs j rows = []" if "?L \<le> j" for j
    using that s by (fastforce simp: zone_shape_def block_rows_def filter_empty_conv)
  have blk: "bz_block_id (tz_blocks e ! j) = j \<and> bz_columns (tz_blocks e ! j) = fold (add_columns px names) (block_rows bs j rows) []"
    if "j < length (tz_blocks e)" for j
  proof (cases "j < ?L")
    case True
    then show ?thesis using s by (simp add: zone_shape_def e_def ensure_blocks_def Let_def nth_append)
  next
    case False
    then have "tz_blocks e ! j = block_new j (j * bs)"
      using that len size(1) by (auto simp: e_def ensure_blocks_def Let_def nth_append simp del: upt_Suc)
    then show ?thesis using False by (simp add: empty block_new_def)
  qed
  have k: "?k < length (tz_blocks e)" by (simp add: len)
  have add: "zone_add_row px (length rows) (zip names tp) z
      = e\<lparr>tz_blocks := (tz_blocks e)[?k := block_add_row px (length rows) (zip names tp) (tz_blocks e ! ?k)]\<rparr>"
    using k by (simp add: zone_add_row_def size(1) e_def Let_def)
  have reach: "i div bs < length (tz_blocks e)" if "i < length (rows @ [tp])" for i
    using that s len by (cases "i = length rows") (auto simp: zone_shape_def less_Suc_eq)
  show ?thesis unfolding zone_shape_def add
  proof (intro conjI allI impI)
    show "i div bs < length (tz_blocks (e\<lparr>tz_blocks := (tz_blocks e)[?k := block_add_row px (length rows) (zip names tp) (tz_blocks e ! ?k)]\<rparr>))"
      if "i < length (rows @ [tp])" for i using reach [OF that] by simp
    fix j
    let ?b = "tz_blocks (e\<lparr>tz_blocks := (tz_blocks e)[?k := block_add_row px (length rows) (zip names tp) (tz_blocks e ! ?k)]\<rparr>) ! j"
    assume j: "j < length (tz_blocks (e\<lparr>tz_blocks := (tz_blocks e)[?k := block_add_row px (length rows) (zip names tp) (tz_blocks e ! ?k)]\<rparr>))"
    show "bz_block_id ?b = j" using blk [of j] j k by (cases "j = ?k") (auto simp: block_add_row_def)
    show "bz_columns ?b = fold (add_columns px names) (block_rows bs j (rows @ [tp])) []"
      using blk [of j] j k by (cases "j = ?k") (auto simp: block_add_row_def block_rows_snoc add_columns_def)
  qed (simp add: size)
qed

lemma build_shape:
  assumes "zone_shape px names bs rows z" "0 < bs"
  shows "zone_shape px names bs (rows @ tuples) (build_loop px names (length rows) tuples z)"
  using assms
proof (induction tuples arbitrary: rows z)
  case (Cons tp tuples)
  then show ?case using Cons.IH [OF zone_shape_add [OF Cons.prems]] by simp
qed simp

lemma built_shape: "zone_shape px names (max bs 1) tuples (build_from_tuples px names tuples (zone_map_new t bs))"
  using build_shape [of px names "max bs 1" "[]" "zone_map_new t bs" tuples]
  by (simp add: build_from_tuples_def zone_shape_def zone_map_new_def)

section \<open>Properties of zone maps\<close>

lemma compare_is_values: "compare_is px want v b \<Longrightarrow> compare_values px v b = Some want"
  by (cases v; cases b) (auto simp: compare_is_def compare_values_def int_value_def float_value_def split: option.splits)

lemma compare_eq_values:
  assumes "compare_eq px v b" "order_class px v = Some f" "order_class px b = Some f" "f \<noteq> 2"
  shows "compare_values px v b = Some Equal"
  using assms
  by (cases v; cases b) (auto simp: compare_values_def order_class_def int_value_def float_value_def text_key_def decimal_key_def
      cmp_numeric_pushdown_def cmp_finite_numeric_def decimal_cmp_def split: option.splits if_splits)

definition range_filter :: "range_op \<Rightarrow> filter_op" where
  "range_filter op = (case op of REq \<Rightarrow> Eq | RNotEq \<Rightarrow> NotEq | RLt \<Rightarrow> Lt | RLtEq \<Rightarrow> LtEq | RGt \<Rightarrow> Gt | RGtEq \<Rightarrow> GtEq)"

lemma column_kept:
  assumes vs: "\<forall>v \<in> set vs. v = Null \<or> order_class px v = Some f" and v: "v \<in> set vs" and b: "order_class px (fp_value p) = Some f"
    and float: "f \<noteq> 2 \<or> op = RLt \<or> op = RGt \<or> op = RNotEq" and op: "fp_op p = range_filter op" and ev: "evaluate px p v"
    and col: "map_of (bz_columns blk) c = Some (fold (range_update px) vs range_empty)"
  shows "might_match_range px c op (fp_value p) blk"
proof (cases "op = RNotEq")
  case True
  then show ?thesis by (simp add: might_match_range_def split: option.split)
next
  case False
  have nn: "v \<noteq> Null"
  proof
    assume "v = Null"
    then show False using ev op False b by (cases op) (auto simp: evaluate_def range_filter_def compare_lt_def compare_gt_def compare_is_def int_value_def)
  qed
  then have vc: "order_class px v = Some f" using vs v by auto
  have eq: "compare_values px v (fp_value p) = Some Equal" if "compare_eq px v (fp_value p)" "f \<noteq> 2"
    using compare_eq_values [OF that(1) vc b that(2)] .
  have "\<exists>c. compare_values px v (fp_value p) = Some c \<and> (case op of REq \<Rightarrow> c = Equal | RNotEq \<Rightarrow> True | RLt \<Rightarrow> c = Less
      | RLtEq \<Rightarrow> c \<noteq> Greater | RGt \<Rightarrow> c = Greater | RGtEq \<Rightarrow> c \<noteq> Less)"
    using ev op float False eq compare_is_values [of px Less v "fp_value p"] compare_is_values [of px Greater v "fp_value p"]
    by (cases op) (auto simp: evaluate_def Let_def range_filter_def compare_lt_def compare_gt_def)
  then obtain c where c: "compare_values px v (fp_value p) = Some c" "case op of REq \<Rightarrow> c = Equal | RNotEq \<Rightarrow> True | RLt \<Rightarrow> c = Less
      | RLtEq \<Rightarrow> c \<noteq> Greater | RGt \<Rightarrow> c = Greater | RGtEq \<Rightarrow> c \<noteq> Less" by blast
  show ?thesis using fold_kept [OF vs v b c(1) nn] c(2) by (cases op) (auto simp: might_match_range_def col)
qed

lemma shape_keeps_matches:
  assumes shape: "zone_shape px names bs tuples z"
    and "distinct names" "\<forall>tp \<in> set tuples. length tp = length names" "i < length names" "row < length tuples"
    and "\<forall>tp \<in> set tuples. tp ! i = Null \<or> order_class px (tp ! i) = Some f" "order_class px (fp_value p) = Some f"
    and "f \<noteq> 2 \<or> op = RLt \<or> op = RGt \<or> op = RNotEq" "fp_op p = range_filter op" "evaluate px p (tuples ! row ! i)"
  shows "row div bs \<in> set (snd (get_matching_blocks_range px (names ! i) op (fp_value p) z))"
proof -
  let ?j = "row div bs"
  let ?rows = "block_rows bs ?j tuples"
  have j: "?j < length (tz_blocks z)" using shape assms(5) by (simp add: zone_shape_def)
  have mem: "tuples ! row \<in> set ?rows" by (rule block_rows_mem [OF assms(5)])
  have rows: "set ?rows \<subseteq> set tuples" by (rule block_rows_sub)
  have "map_of (bz_columns (tz_blocks z ! ?j)) (names ! i) = Some (fold (range_update px) (map (\<lambda>tp. tp ! i) ?rows) range_empty)"
  proof -
    have "\<forall>tp \<in> set ?rows. length tp = length names" "?rows \<noteq> []" using rows mem assms(3) by auto
    moreover have "bz_columns (tz_blocks z ! ?j) = fold (add_columns px names) ?rows []" using shape j unfolding zone_shape_def by blast
    ultimately show ?thesis using fold_columns_get [OF assms(2) _ assms(4), of ?rows px] by simp
  qed
  then have "might_match_range px (names ! i) op (fp_value p) (tz_blocks z ! ?j)"
    using assms(6) rows mem by (intro column_kept [OF _ _ assms(7-10)]) auto
  moreover have "bz_block_id (tz_blocks z ! ?j) = ?j" "tz_blocks z ! ?j \<in> set (tz_blocks z)" using shape j unfolding zone_shape_def by auto
  ultimately show ?thesis unfolding get_matching_blocks_range_def matching_blocks_def by force
qed

text \<open>
  A zone map never hides a matching row: when every column holds values of one ordered family
  (booleans, integers of any width, numbers, text, bytes, timestamps, decimals) or NULL and the
  bound belongs to the family of its column, the block of every row that satisfies a comparison
  is among the blocks the zone map returns, however the rows are cut into blocks. For floats this
  covers the strict comparisons.
\<close>

theorem zone_map_keeps_matches:
  assumes "distinct names" "\<forall>tp \<in> set tuples. length tp = length names" "i < length names" "row < length tuples"
    and "\<forall>tp \<in> set tuples. tp ! i = Null \<or> order_class px (tp ! i) = Some f" "order_class px (fp_value p) = Some f"
    and "f \<noteq> 2 \<or> op = RLt \<or> op = RGt \<or> op = RNotEq" "fp_op p = range_filter op" "evaluate px p (tuples ! row ! i)"
  shows "row div max bs 1 \<in> set (snd (get_matching_blocks_range px (names ! i) op (fp_value p)
    (build_from_tuples px names tuples (zone_map_new t bs))))"
  by (rule shape_keeps_matches [OF built_shape assms])

definition no_parsers :: parsers where
  "no_parsers = \<lparr>px_decimal = (\<lambda>_. None), px_f64 = (\<lambda>_. None), px_uuid = (\<lambda>_. None), px_decimal_text = (\<lambda>_. [])\<rparr>"

definition compare_pred :: "nat \<Rightarrow> string \<Rightarrow> filter_op \<Rightarrow> sql_value \<Rightarrow> filter_predicate" where
  "compare_pred i c op v = \<lparr>fp_column_index = i, fp_column_name = c, fp_op = op, fp_value = v, fp_value2 = None, fp_value_list = [], fp_pattern = None\<rparr>"

theorem zone_map_keeps_matches_witness:
  "2 div max 2 1 \<in> set (snd (get_matching_blocks_range no_parsers ''v'' RGt (Int8 4)
    (build_from_tuples no_parsers [''id'', ''v''] [[Int4 1, Int4 2], [Int4 2, Null], [Int4 3, Int4 9]] (zone_map_new ''t'' 2))))"
  using zone_map_keeps_matches [where names = "[''id'', ''v'']" and tuples = "[[Int4 1, Int4 2], [Int4 2, Null], [Int4 3, Int4 9]]"
      and i = 1 and row = 2 and px = no_parsers and f = 1 and p = "compare_pred 1 ''v'' Gt (Int8 4)" and op = RGt and bs = 2 and t = "''t''"]
  by (simp add: order_class_def int_value_def compare_pred_def range_filter_def evaluate_def compare_gt_def compare_is_def cmp_def)

text \<open>
  A NaN that reaches a zone first hides the rest of it: it becomes both bounds, nothing compares
  with it, so later values never replace it and every comparison skips the block, also for rows
  that satisfy the comparison.
\<close>

theorem nan_first_hides_block:
  assumes "f64_num nan = None" "f64_num x = Some u" "f64_num b = Some w" "u < w"
  shows "evaluate px (compare_pred 0 ''v'' Lt (Float8 b)) (Float8 x)
    \<and> snd (get_matching_blocks_range px ''v'' RLt (Float8 b)
        (build_from_tuples px [''v''] [[Float8 nan], [Float8 x]] (zone_map_new ''t'' 1000))) = []"
  using assms
  by (simp add: evaluate_def compare_pred_def compare_lt_def compare_is_def float_value_def partial_cmp_def cmp_def
      build_from_tuples_def zone_add_row_def ensure_blocks_def zone_map_new_def block_add_row_def column_update_def range_update_def
      range_empty_def block_new_def lower_min_def raise_max_def compare_values_def get_matching_blocks_range_def matching_blocks_def
      might_match_range_def might_contain_less_than_def Let_def)

theorem nan_first_hides_block_witness:
  "snd (get_matching_blocks_range no_parsers ''v'' RLt (Float8 0x3FF0000000000000)
        (build_from_tuples no_parsers [''v''] [[Float8 0x7FF8000000000000], [Float8 0]] (zone_map_new ''t'' 1000))) = []"
proof -
  have "f64_num 0x7FF8000000000000 = None" "f64_num 0 = Some 0" "f64_num 0x3FF0000000000000 = Some (2 ^ 1074)"
    by (simp_all add: f64_num_def magnitude_def is_negative_def signed_units_def float_units_def bit_simps take_bit_eq_mod)
  from nan_first_hides_block [OF this, of no_parsers] show ?thesis by simp
qed

end
