(* ===== verification/Bloom_Filter.thy ===== *)
theory Bloom_Filter
  imports Values
begin

text \<open>
  Bloom filters (\<^verbatim>\<open>src/src/storage/bloom_filter.rs\<close>): the bit vector, insertion and lookup with
  the double hashing of Kirsch and Mitzenmacher, union, and the filters of the columns of a table.
  \<open>DefaultHasher\<close> is a parameter: a function of the bytes that are written into it. The sizes that
  the configuration computes with logarithms are inputs; the code clamps them. Counters are
  natural numbers and the fill ratio is kept as the number of bits that are set.
\<close>

section \<open>Hash input\<close>

record hash_env =
  he_hash :: "bytes \<Rightarrow> u64"
  he_date :: "int \<Rightarrow> bytes"
  he_time :: "int \<Rightarrow> bytes"
  he_uuid :: "bytes \<Rightarrow> bytes"

definition le_bytes :: "nat \<Rightarrow> 'a::len word \<Rightarrow> bytes" where
  "le_bytes n w = rev (to_be_bytes n w)"

definition str_stream :: "bytes \<Rightarrow> bytes" where
  "str_stream s = s @ [0xFF]"

definition slice_stream :: "bytes \<Rightarrow> bytes" where
  "slice_stream s = le_bytes 8 (word_of_nat (length s) :: u64) @ s"

text \<open>\<open>timestamp_nanos_opt().unwrap_or(0)\<close>\<close>

definition nanos :: "int \<Rightarrow> u64" where
  "nanos t = (if - (2 ^ 63) \<le> t \<and> t < 2 ^ 63 then word_of_int t else 0)"

definition scalar_stream :: "hash_env \<Rightarrow> sql_value \<Rightarrow> bytes" where
  "scalar_stream he v = (case v of
       Null \<Rightarrow> [0]
     | Boolean b \<Rightarrow> [if b then 1 else 0]
     | Int2 i \<Rightarrow> le_bytes 2 i | Int4 i \<Rightarrow> le_bytes 4 i | Int8 i \<Rightarrow> le_bytes 8 i
     | Float4 f \<Rightarrow> le_bytes 4 f | Float8 f \<Rightarrow> le_bytes 8 f
     | Numeric s \<Rightarrow> str_stream s | String s \<Rightarrow> str_stream s | Json s \<Rightarrow> str_stream s
     | Bytes b \<Rightarrow> slice_stream b
     | Uuid u \<Rightarrow> str_stream (he_uuid he u)
     | Timestamp t \<Rightarrow> le_bytes 8 (nanos t)
     | Date d \<Rightarrow> str_stream (he_date he d)
     | Time t \<Rightarrow> str_stream (he_time he t)
     | DictRef d \<Rightarrow> le_bytes 4 d
     | CasRef h \<Rightarrow> slice_stream h
     | ColumnarRef \<Rightarrow> [0]
     | Interval i \<Rightarrow> le_bytes 8 i
     | _ \<Rightarrow> [])"

text \<open>\<open>hash_value\<close>: what a value inside an array writes into the hasher.\<close>

fun hash_value :: "hash_env \<Rightarrow> sql_value \<Rightarrow> bytes" and hash_values :: "hash_env \<Rightarrow> sql_value list \<Rightarrow> bytes" where
  "hash_value he (Array xs) = hash_values he xs"
| "hash_value he (Vector fs) = concat (map (le_bytes 4) fs)"
| "hash_value he v = scalar_stream he v"
| "hash_values he [] = []"
| "hash_values he (x # xs) = hash_value he x @ hash_values he xs"

text \<open>What \<open>insert_value\<close> and \<open>check_value\<close> hash: arrays and vectors are hashed to a number first.\<close>

definition value_stream :: "hash_env \<Rightarrow> sql_value \<Rightarrow> bytes" where
  "value_stream he v = (case v of
       Array xs \<Rightarrow> le_bytes 8 (he_hash he (hash_values he xs))
     | Vector fs \<Rightarrow> le_bytes 8 (he_hash he (concat (map (le_bytes 4) fs)))
     | _ \<Rightarrow> scalar_stream he v)"

definition hash_pair :: "hash_env \<Rightarrow> bytes \<Rightarrow> u64 \<times> u64" where
  "hash_pair he s = (let h1 = he_hash he s; h2 = he_hash he (le_bytes 8 h1 @ s) in (h1, h2))"

section \<open>The filter\<close>

record bloom_stats =
  bs_lookups :: nat
  bs_true_positives :: nat
  bs_true_negatives :: nat
  bs_false_positives :: nat
  bs_insertions :: nat
  bs_set_bits :: nat

record bloom_filter =
  bf_bits :: "u64 list"
  bf_num_bits :: nat
  bf_num_hashes :: nat
  bf_stats :: bloom_stats

definition bloom_stats_zero :: bloom_stats where
  "bloom_stats_zero = \<lparr>bs_lookups = 0, bs_true_positives = 0, bs_true_negatives = 0, bs_false_positives = 0, bs_insertions = 0, bs_set_bits = 0\<rparr>"

text \<open>The configuration: the rounded sizes before they are clamped.\<close>

definition optimal_bits :: "nat \<Rightarrow> nat" where
  "optimal_bits raw = max raw 64"

definition optimal_hash_count :: "nat \<Rightarrow> nat" where
  "optimal_hash_count raw = min (max raw 1) 16"

definition bloom_new :: "nat \<Rightarrow> nat \<Rightarrow> bloom_filter" where
  "bloom_new raw_bits raw_hashes = (let num_bits = optimal_bits raw_bits in
     \<lparr>bf_bits = replicate ((num_bits + 63) div 64) 0, bf_num_bits = num_bits, bf_num_hashes = optimal_hash_count raw_hashes,
      bf_stats = bloom_stats_zero\<rparr>)"

definition get_bit_index :: "bloom_filter \<Rightarrow> u64 \<Rightarrow> u64 \<Rightarrow> nat \<Rightarrow> nat" where
  "get_bit_index f h1 h2 i = unat (h1 + word_of_nat i * h2) mod bf_num_bits f"

definition set_bit_at :: "nat \<Rightarrow> u64 list \<Rightarrow> u64 list" where
  "set_bit_at index bits = (let w = index div 64 in bits[w := bits ! w OR push_bit (index mod 64) 1])"

definition get_bit_at :: "nat \<Rightarrow> u64 list \<Rightarrow> bool" where
  "get_bit_at index bits = (drop_bit (index mod 64) (bits ! (index div 64)) AND 1 = 1)"

definition update_fill_ratio :: "bloom_filter \<Rightarrow> bloom_filter" where
  "update_fill_ratio f = f\<lparr>bf_stats := (bf_stats f)\<lparr>bs_set_bits := sum_list (map (\<lambda>w. length (filter (bit w) [0..<64])) (bf_bits f))\<rparr>\<rparr>"

definition bloom_insert :: "hash_env \<Rightarrow> bytes \<Rightarrow> bloom_filter \<Rightarrow> bloom_filter" where
  "bloom_insert he s f = (let (h1, h2) = hash_pair he s;
       f = f\<lparr>bf_bits := fold (\<lambda>i. set_bit_at (get_bit_index f h1 h2 i)) [0..<bf_num_hashes f] (bf_bits f)\<rparr>;
       f = f\<lparr>bf_stats := (bf_stats f)\<lparr>bs_insertions := bs_insertions (bf_stats f) + 1\<rparr>\<rparr>
     in update_fill_ratio f)"

definition insert_value :: "hash_env \<Rightarrow> sql_value \<Rightarrow> bloom_filter \<Rightarrow> bloom_filter" where
  "insert_value he v f = bloom_insert he (value_stream he v) f"

definition bloom_check :: "hash_env \<Rightarrow> bytes \<Rightarrow> bloom_filter \<Rightarrow> bool" where
  "bloom_check he s f = (let (h1, h2) = hash_pair he s in
     list_all (\<lambda>i. get_bit_at (get_bit_index f h1 h2 i) (bf_bits f)) [0..<bf_num_hashes f])"

definition check_value :: "hash_env \<Rightarrow> sql_value \<Rightarrow> bloom_filter \<Rightarrow> bool" where
  "check_value he v f = bloom_check he (value_stream he v) f"

definition bloom_might_contain :: "hash_env \<Rightarrow> bytes \<Rightarrow> bloom_filter \<Rightarrow> bloom_filter \<times> bool" where
  "bloom_might_contain he s f =
     (let f = f\<lparr>bf_stats := (bf_stats f)\<lparr>bs_lookups := bs_lookups (bf_stats f) + 1\<rparr>\<rparr> in
      if bloom_check he s f then (f, True)
      else (f\<lparr>bf_stats := (bf_stats f)\<lparr>bs_true_negatives := bs_true_negatives (bf_stats f) + 1\<rparr>\<rparr>, False))"

definition might_contain_value :: "hash_env \<Rightarrow> sql_value \<Rightarrow> bloom_filter \<Rightarrow> bloom_filter \<times> bool" where
  "might_contain_value he v f = bloom_might_contain he (value_stream he v) f"

definition record_true_positive :: "bloom_filter \<Rightarrow> bloom_filter" where
  "record_true_positive f = f\<lparr>bf_stats := (bf_stats f)\<lparr>bs_true_positives := bs_true_positives (bf_stats f) + 1\<rparr>\<rparr>"

definition record_false_positive :: "bloom_filter \<Rightarrow> bloom_filter" where
  "record_false_positive f = f\<lparr>bf_stats := (bf_stats f)\<lparr>bs_false_positives := bs_false_positives (bf_stats f) + 1\<rparr>\<rparr>"

definition bloom_clear :: "bloom_filter \<Rightarrow> bloom_filter" where
  "bloom_clear f = f\<lparr>bf_bits := map (\<lambda>_. 0) (bf_bits f), bf_stats := bloom_stats_zero\<rparr>"

definition apply_delta_bits :: "nat \<Rightarrow> u64 \<Rightarrow> bloom_filter \<Rightarrow> bloom_filter" where
  "apply_delta_bits word_idx bits_mask f = (if word_idx < length (bf_bits f)
     then f\<lparr>bf_bits := (bf_bits f)[word_idx := bf_bits f ! word_idx OR bits_mask]\<rparr> else f)"

definition increment_items_added :: "nat \<Rightarrow> bloom_filter \<Rightarrow> bloom_filter" where
  "increment_items_added k f = f\<lparr>bf_stats := (bf_stats f)\<lparr>bs_insertions := bs_insertions (bf_stats f) + k\<rparr>\<rparr>"

definition bloom_merge :: "bloom_filter \<Rightarrow> bloom_filter \<Rightarrow> bloom_filter \<times> (string + unit)" where
  "bloom_merge other f = (if bf_num_bits f \<noteq> bf_num_bits other \<or> bf_num_hashes f \<noteq> bf_num_hashes other
     then (f, Inl ''Cannot merge bloom filters with different configurations'')
     else let f = f\<lparr>bf_bits := fold (\<lambda>i bits. bits[i := bits ! i OR bf_bits other ! i]) [0..<length (bf_bits other)] (bf_bits f)\<rparr>;
              f = f\<lparr>bf_stats := (bf_stats f)\<lparr>bs_insertions := bs_insertions (bf_stats f) + bs_insertions (bf_stats other)\<rparr>\<rparr>
       in (update_fill_ratio f, Inr ()))"

section \<open>The filters of a table\<close>

record column_bloom =
  cb_column_name :: string
  cb_filter :: bloom_filter
  cb_row_count :: nat

record block_bloom =
  bb_block_id :: nat
  bb_row_filter :: bloom_filter
  bb_column_filters :: "column_bloom list"

record table_blooms =
  tb_table_name :: string
  tb_column_filters :: "column_bloom list"
  tb_block_filters :: "block_bloom list"
  tb_row_id_filter :: bloom_filter

text \<open>\<open>sizes\<close>: the rounded sizes the configuration computes for an expected number of elements.\<close>

definition for_elements :: "(nat \<Rightarrow> nat \<times> nat) \<Rightarrow> nat \<Rightarrow> bloom_filter" where
  "for_elements sizes n = bloom_new (fst (sizes n)) (snd (sizes n))"

definition column_bloom_new :: "(nat \<Rightarrow> nat \<times> nat) \<Rightarrow> string \<Rightarrow> nat \<Rightarrow> column_bloom" where
  "column_bloom_new sizes c expected = \<lparr>cb_column_name = c, cb_filter = for_elements sizes expected, cb_row_count = 0\<rparr>"

definition column_bloom_add :: "hash_env \<Rightarrow> sql_value \<Rightarrow> column_bloom \<Rightarrow> column_bloom" where
  "column_bloom_add he v cb = cb\<lparr>cb_filter := insert_value he v (cb_filter cb), cb_row_count := cb_row_count cb + 1\<rparr>"

definition column_might_contain :: "hash_env \<Rightarrow> sql_value \<Rightarrow> column_bloom \<Rightarrow> column_bloom \<times> bool" where
  "column_might_contain he v cb = (case might_contain_value he v (cb_filter cb) of (f, res) \<Rightarrow> (cb\<lparr>cb_filter := f\<rparr>, res))"

definition table_blooms_new :: "(nat \<Rightarrow> nat \<times> nat) \<Rightarrow> string \<Rightarrow> nat \<Rightarrow> table_blooms" where
  "table_blooms_new sizes name expected_rows =
     \<lparr>tb_table_name = name, tb_column_filters = [], tb_block_filters = [], tb_row_id_filter = for_elements sizes expected_rows\<rparr>"

definition add_column :: "(nat \<Rightarrow> nat \<times> nat) \<Rightarrow> string \<Rightarrow> nat \<Rightarrow> table_blooms \<Rightarrow> table_blooms" where
  "add_column sizes c expected tb = tb\<lparr>tb_column_filters := tb_column_filters tb @ [column_bloom_new sizes c expected]\<rparr>"

text \<open>The first filter of the column takes the value.\<close>

fun add_to_column :: "hash_env \<Rightarrow> string \<times> sql_value \<Rightarrow> column_bloom list \<Rightarrow> column_bloom list" where
  "add_to_column he cv [] = []"
| "add_to_column he cv (cb # cbs) = (if cb_column_name cb = fst cv then column_bloom_add he (snd cv) cb # cbs
     else cb # add_to_column he cv cbs)"

definition index_row :: "hash_env \<Rightarrow> nat \<Rightarrow> (string \<times> sql_value) list \<Rightarrow> table_blooms \<Rightarrow> table_blooms" where
  "index_row he row_id values tb = tb\<lparr>
     tb_row_id_filter := bloom_insert he (le_bytes 8 (word_of_nat row_id :: u64)) (tb_row_id_filter tb),
     tb_column_filters := fold (add_to_column he) values (tb_column_filters tb)\<rparr>"

fun column_lookup :: "hash_env \<Rightarrow> string \<Rightarrow> sql_value \<Rightarrow> column_bloom list \<Rightarrow> column_bloom list \<times> bool" where
  "column_lookup he c v [] = ([], True)"
| "column_lookup he c v (cb # cbs) = (if cb_column_name cb = c
     then (case column_might_contain he v cb of (cb, res) \<Rightarrow> (cb # cbs, res))
     else (case column_lookup he c v cbs of (cbs, res) \<Rightarrow> (cb # cbs, res)))"

definition table_might_contain :: "hash_env \<Rightarrow> string \<Rightarrow> sql_value \<Rightarrow> table_blooms \<Rightarrow> table_blooms \<times> bool" where
  "table_might_contain he c v tb = (case column_lookup he c v (tb_column_filters tb) of (cbs, res) \<Rightarrow> (tb\<lparr>tb_column_filters := cbs\<rparr>, res))"

fun index_rows_from :: "hash_env \<Rightarrow> string list \<Rightarrow> nat \<Rightarrow> sql_value list list \<Rightarrow> table_blooms \<Rightarrow> table_blooms" where
  "index_rows_from he names row_id [] tb = tb"
| "index_rows_from he names row_id (tp # tuples) tb = index_rows_from he names (row_id + 1) tuples (index_row he row_id (zip names tp) tb)"

definition ensure_column :: "(nat \<Rightarrow> nat \<times> nat) \<Rightarrow> nat \<Rightarrow> string \<Rightarrow> table_blooms \<Rightarrow> table_blooms" where
  "ensure_column sizes expected c tb = (if \<exists>cb \<in> set (tb_column_filters tb). cb_column_name cb = c then tb else add_column sizes c expected tb)"

definition blooms_from_tuples :: "hash_env \<Rightarrow> (nat \<Rightarrow> nat \<times> nat) \<Rightarrow> string list \<Rightarrow> sql_value list list \<Rightarrow> table_blooms \<Rightarrow> table_blooms" where
  "blooms_from_tuples he sizes names tuples tb =
     index_rows_from he names 0 tuples (fold (ensure_column sizes (max (length tuples) 1000)) names tb)"

text \<open>The filters of a block.\<close>

definition block_bloom_new :: "(nat \<Rightarrow> nat \<times> nat) \<Rightarrow> nat \<Rightarrow> nat \<Rightarrow> block_bloom" where
  "block_bloom_new sizes block_id expected_rows = \<lparr>bb_block_id = block_id, bb_row_filter = for_elements sizes expected_rows, bb_column_filters = []\<rparr>"

definition add_column_filter :: "(nat \<Rightarrow> nat \<times> nat) \<Rightarrow> string \<Rightarrow> nat \<Rightarrow> block_bloom \<Rightarrow> block_bloom" where
  "add_column_filter sizes c expected bb = bb\<lparr>bb_column_filters := bb_column_filters bb @ [column_bloom_new sizes c expected]\<rparr>"

definition bloom_add_row :: "hash_env \<Rightarrow> nat \<Rightarrow> block_bloom \<Rightarrow> block_bloom" where
  "bloom_add_row he row_id bb = bb\<lparr>bb_row_filter := bloom_insert he (le_bytes 8 (word_of_nat row_id :: u64)) (bb_row_filter bb)\<rparr>"

definition might_contain_row :: "hash_env \<Rightarrow> nat \<Rightarrow> block_bloom \<Rightarrow> block_bloom \<times> bool" where
  "might_contain_row he row_id bb =
     (case bloom_might_contain he (le_bytes 8 (word_of_nat row_id :: u64)) (bb_row_filter bb) of (f, res) \<Rightarrow> (bb\<lparr>bb_row_filter := f\<rparr>, res))"

definition might_contain_in_column :: "hash_env \<Rightarrow> string \<Rightarrow> sql_value \<Rightarrow> block_bloom \<Rightarrow> block_bloom \<times> bool" where
  "might_contain_in_column he c v bb =
     (case column_lookup he c v (bb_column_filters bb) of (cbs, res) \<Rightarrow> (bb\<lparr>bb_column_filters := cbs\<rparr>, res))"

definition bloom_memory_usage :: "bloom_filter \<Rightarrow> nat" where
  "bloom_memory_usage f = length (bf_bits f) * 8"

definition table_memory_usage :: "table_blooms \<Rightarrow> nat" where
  "table_memory_usage tb = bloom_memory_usage (tb_row_id_filter tb)
     + sum_list (map (bloom_memory_usage \<circ> cb_filter) (tb_column_filters tb))
     + sum_list (map (\<lambda>bb. bloom_memory_usage (bb_row_filter bb)
         + sum_list (map (bloom_memory_usage \<circ> cb_filter) (bb_column_filters bb))) (tb_block_filters tb))"

section \<open>Bits\<close>

definition bloom_ok :: "bloom_filter \<Rightarrow> bool" where
  "bloom_ok f \<longleftrightarrow> 0 < bf_num_bits f \<and> length (bf_bits f) = (bf_num_bits f + 63) div 64"

definition marked :: "u64 list \<Rightarrow> nat \<Rightarrow> bool" where
  "marked bits i \<longleftrightarrow> bit (bits ! (i div 64)) (i mod 64)"

lemma get_bit_marked: "get_bit_at i bits = marked bits i"
  by (simp add: get_bit_at_def marked_def and_one_eq bit_iff_odd_drop_bit odd_iff_mod_2_eq_one)

lemma index_in_words:
  assumes "bloom_ok f"
  shows "get_bit_index f h1 h2 i div 64 < length (bf_bits f)"
proof -
  have "get_bit_index f h1 h2 i < bf_num_bits f" using assms by (simp add: bloom_ok_def get_bit_index_def)
  then show ?thesis using assms by (simp add: bloom_ok_def)
qed

lemma set_bit_marked:
  "i div 64 < length bits \<Longrightarrow> marked (set_bit_at i bits) i"
  "i div 64 < length bits \<Longrightarrow> marked bits j \<Longrightarrow> marked (set_bit_at i bits) j"
  "length (set_bit_at i bits) = length bits"
  by (auto simp: marked_def set_bit_at_def Let_def bit_or_iff bit_push_bit_iff bit_1_iff bit_exp_iff nth_list_update)

lemma set_bits_marked:
  assumes "\<forall>i \<in> set is. idx i div 64 < length bits"
  shows "length (fold (\<lambda>i. set_bit_at (idx i)) is bits) = length bits
    \<and> (\<forall>j. marked bits j \<longrightarrow> marked (fold (\<lambda>i. set_bit_at (idx i)) is bits) j)
    \<and> (\<forall>i \<in> set is. marked (fold (\<lambda>i. set_bit_at (idx i)) is bits) (idx i))"
  using assms
proof (induction "is" arbitrary: bits)
  case (Cons i "is")
  have "idx i div 64 < length bits" using Cons.prems by simp
  then show ?case using Cons set_bit_marked by auto
qed simp

section \<open>No false negatives\<close>

text \<open>\<open>grows f g\<close>: \<open>g\<close> has the shape of \<open>f\<close> and at least its bits, so whatever \<open>f\<close> finds, \<open>g\<close> finds.\<close>

definition grows :: "bloom_filter \<Rightarrow> bloom_filter \<Rightarrow> bool" where
  "grows f g \<longleftrightarrow> bf_num_bits g = bf_num_bits f \<and> bf_num_hashes g = bf_num_hashes f \<and> length (bf_bits g) = length (bf_bits f)
     \<and> (\<forall>i. i div 64 < length (bf_bits f) \<longrightarrow> marked (bf_bits f) i \<longrightarrow> marked (bf_bits g) i)"

lemma grows_refl [simp]: "grows f f"
  by (simp add: grows_def)

lemma grows_trans [trans]: "grows f g \<Longrightarrow> grows g h \<Longrightarrow> grows f h"
  by (simp add: grows_def)

lemma grows_ok: "grows f g \<Longrightarrow> bloom_ok f \<Longrightarrow> bloom_ok g"
  by (simp add: grows_def bloom_ok_def)

lemma grows_same: "bf_num_bits g = bf_num_bits f \<Longrightarrow> bf_num_hashes g = bf_num_hashes f \<Longrightarrow> bf_bits g = bf_bits f \<Longrightarrow> grows f g"
  by (simp add: grows_def)

lemma index_shape: "bf_num_bits g = bf_num_bits f \<Longrightarrow> get_bit_index g = get_bit_index f"
  by (simp add: get_bit_index_def fun_eq_iff)

lemma bloom_check_iff:
  "bloom_check he s f \<longleftrightarrow> (\<forall>i < bf_num_hashes f. marked (bf_bits f) (get_bit_index f (fst (hash_pair he s)) (snd (hash_pair he s)) i))"
  by (simp add: bloom_check_def get_bit_marked list_all_iff case_prod_unfold Let_def Ball_def)

lemma check_grows:
  assumes "bloom_ok f" "grows f g" "bloom_check he s f"
  shows "bloom_check he s g"
proof -
  have g: "get_bit_index g = get_bit_index f" "bf_num_hashes g = bf_num_hashes f" using assms(2) index_shape [of g f] by (auto simp: grows_def)
  show ?thesis using assms index_in_words [OF assms(1)] unfolding bloom_check_iff g grows_def by blast
qed

lemma new_ok: "bloom_ok (bloom_new a b)"
  by (simp add: bloom_ok_def bloom_new_def optimal_bits_def Let_def)

lemma insert_found:
  assumes "bloom_ok f"
  shows "grows f (bloom_insert he s f)" "bloom_check he s (bloom_insert he s f)"
proof -
  obtain h1 h2 where h: "hash_pair he s = (h1, h2)" by fastforce
  note m = set_bits_marked [of "[0..<bf_num_hashes f]" "get_bit_index f h1 h2" "bf_bits f"] index_in_words [OF assms]
  have i: "bf_num_bits (bloom_insert he s f) = bf_num_bits f" "bf_num_hashes (bloom_insert he s f) = bf_num_hashes f"
    "bf_bits (bloom_insert he s f) = fold (\<lambda>i. set_bit_at (get_bit_index f h1 h2 i)) [0..<bf_num_hashes f] (bf_bits f)"
    by (simp_all add: bloom_insert_def h update_fill_ratio_def Let_def)
  show "grows f (bloom_insert he s f)" using m unfolding grows_def i by blast
  have "marked (bf_bits (bloom_insert he s f)) (get_bit_index f h1 h2 j)" if "j < bf_num_hashes f" for j
    using m that unfolding i by simp
  then show "bloom_check he s (bloom_insert he s f)"
    unfolding bloom_check_iff i(2) index_shape [OF i(1)] h by simp
qed

lemma lookup_grows:
  assumes "bloom_might_contain he s f = (g, res)"
  shows "grows f g" "res = bloom_check he s f"
  using assms
  by (auto simp: bloom_might_contain_def bloom_check_def get_bit_index_def Let_def intro!: grows_same split: if_splits)

lemma or_words:
  assumes "length ys = length xs"
  shows "n \<le> length xs \<Longrightarrow> length (fold (\<lambda>i bits. bits[i := bits ! i OR ys ! i]) [0..<n] xs) = length xs
    \<and> (\<forall>k < length xs. fold (\<lambda>i bits. bits[i := bits ! i OR ys ! i]) [0..<n] xs ! k = (if k < n then xs ! k OR ys ! k else xs ! k))"
  by (induction n) (auto simp: nth_list_update less_Suc_eq)

lemma or_marked:
  assumes "i div 64 < length xs" "xs ! (i div 64) = a OR b" "bit a (i mod 64) \<or> bit b (i mod 64)"
  shows "marked xs i"
  using assms by (auto simp: marked_def bit_or_iff)

lemma delta_grows: "grows f (apply_delta_bits w m f)"
  by (auto simp: grows_def apply_delta_bits_def marked_def nth_list_update bit_or_iff)

lemma stats_grow:
  "grows f (increment_items_added k f)" "grows f (record_true_positive f)" "grows f (record_false_positive f)"
  by (simp_all add: grows_same increment_items_added_def record_true_positive_def record_false_positive_def)

lemma merge_grows:
  assumes "bloom_ok f" "bloom_ok g" "bloom_merge g f = (h, Inr ())"
  shows "grows f h" "grows g h"
proof -
  have s: "bf_num_bits f = bf_num_bits g" "bf_num_hashes f = bf_num_hashes g" using assms(3) by (auto simp: bloom_merge_def split: if_splits)
  then have l: "length (bf_bits g) = length (bf_bits f)" using assms(1,2) by (simp add: bloom_ok_def)
  have h: "bf_num_bits h = bf_num_bits f" "bf_num_hashes h = bf_num_hashes f"
    "bf_bits h = fold (\<lambda>i bits. bits[i := bits ! i OR bf_bits g ! i]) [0..<length (bf_bits g)] (bf_bits f)"
    using assms(3) s by (auto simp: bloom_merge_def update_fill_ratio_def Let_def split: if_splits)
  have w: "length (bf_bits h) = length (bf_bits f)" "\<And>k. k < length (bf_bits f) \<Longrightarrow> bf_bits h ! k = bf_bits f ! k OR bf_bits g ! k"
    using or_words [OF l, of "length (bf_bits f)"] l h(3) by auto
  show "grows f h" "grows g h" using w l s h(1,2) by (auto simp: grows_def marked_def bit_or_iff)
qed

text \<open>
  A filter in use: it starts empty, values and delta bits are added, lookups and statistics run,
  and filters of the same shape are merged into it. \<open>bloom_run he f seen\<close>: the values \<open>seen\<close> were
  inserted on the way to \<open>f\<close>.
\<close>

inductive bloom_run :: "hash_env \<Rightarrow> bloom_filter \<Rightarrow> sql_value set \<Rightarrow> bool" for he where
  start: "bloom_run he (bloom_new a b) {}"
| insert: "bloom_run he f seen \<Longrightarrow> bloom_run he (insert_value he v f) (Set.insert v seen)"
| lookup: "bloom_run he f seen \<Longrightarrow> might_contain_value he v f = (g, res) \<Longrightarrow> bloom_run he g seen"
| delta: "bloom_run he f seen \<Longrightarrow> bloom_run he (apply_delta_bits w m f) seen"
| items: "bloom_run he f seen \<Longrightarrow> bloom_run he (increment_items_added k f) seen"
| true_positive: "bloom_run he f seen \<Longrightarrow> bloom_run he (record_true_positive f) seen"
| false_positive: "bloom_run he f seen \<Longrightarrow> bloom_run he (record_false_positive f) seen"
| merge: "bloom_run he f seen \<Longrightarrow> bloom_run he g seen' \<Longrightarrow> bloom_merge g f = (h, Inr ()) \<Longrightarrow> bloom_run he h (seen \<union> seen')"
| clear: "bloom_run he f seen \<Longrightarrow> bloom_run he (bloom_clear f) {}"

definition holds_all :: "hash_env \<Rightarrow> sql_value set \<Rightarrow> bloom_filter \<Rightarrow> bool" where
  "holds_all he seen f \<longleftrightarrow> bloom_ok f \<and> (\<forall>v \<in> seen. check_value he v f)"

lemma holds_grows: "grows f g \<Longrightarrow> holds_all he seen f \<Longrightarrow> holds_all he seen g"
  using check_grows grows_ok by (fastforce simp: holds_all_def check_value_def)

lemma holds_insert: "holds_all he seen f \<Longrightarrow> holds_all he (Set.insert v seen) (insert_value he v f)"
  using holds_grows [of f "insert_value he v f" he seen] insert_found [of f he "value_stream he v"]
  by (auto simp: holds_all_def check_value_def insert_value_def)

lemma bloom_run_holds: "bloom_run he f seen \<Longrightarrow> holds_all he seen f"
proof (induction rule: bloom_run.induct)
  case (start a b)
  then show ?case using new_ok by (simp add: holds_all_def)
next
  case (insert f seen v)
  then show ?case by (simp add: holds_insert)
next
  case (lookup f seen v g res)
  then show ?case using lookup_grows holds_grows unfolding might_contain_value_def by blast
next
  case (merge f seen g seen' h)
  have "grows f h" "grows g h" using merge_grows merge.IH merge.hyps by (auto simp: holds_all_def)
  then show ?case using holds_grows [of f h he seen] holds_grows [of g h he seen'] merge.IH by (auto simp: holds_all_def)
next
  case (clear f seen)
  then show ?case by (simp add: holds_all_def bloom_ok_def bloom_clear_def)
qed (use delta_grows stats_grow holds_grows in blast)+

section \<open>The columns of a table\<close>

text \<open>\<open>column_finds\<close>: a lookup of the value in the filters of the columns answers that it may be there.\<close>

definition columns_ok :: "column_bloom list \<Rightarrow> bool" where
  "columns_ok cbs \<longleftrightarrow> (\<forall>cb \<in> set cbs. bloom_ok (cb_filter cb))"

definition column_finds :: "hash_env \<Rightarrow> string \<Rightarrow> sql_value \<Rightarrow> column_bloom list \<Rightarrow> bool" where
  "column_finds he c v cbs \<longleftrightarrow> snd (column_lookup he c v cbs)"

lemma column_finds_simps [simp]:
  "column_finds he c v []"
  "column_finds he c v (cb # cbs) \<longleftrightarrow> (if cb_column_name cb = c then check_value he v (cb_filter cb) else column_finds he c v cbs)"
  using lookup_grows(2) [of he "value_stream he v" "cb_filter cb"]
  by (auto simp: column_finds_def column_might_contain_def might_contain_value_def check_value_def split: prod.splits)

lemma add_keeps:
  assumes "columns_ok cbs"
  shows "columns_ok (add_to_column he cv cbs) \<and> column_finds he (fst cv) (snd cv) (add_to_column he cv cbs)
    \<and> (\<forall>c v. column_finds he c v cbs \<longrightarrow> column_finds he c v (add_to_column he cv cbs))"
  using assms
proof (induction cbs)
  case (Cons cb cbs)
  have h: "holds_all he {} (cb_filter cb)" using Cons.prems by (simp add: columns_ok_def holds_all_def)
  have g: "bloom_ok (cb_filter (column_bloom_add he v cb))" "check_value he v (cb_filter (column_bloom_add he v cb))"
    "check_value he w (cb_filter cb) \<Longrightarrow> check_value he w (cb_filter (column_bloom_add he v cb))" for v w
    using holds_insert [OF h, of v] holds_insert [of he "{w}" "cb_filter cb" v] h
    by (auto simp: holds_all_def column_bloom_add_def)
  have n: "cb_column_name (column_bloom_add he v cb) = cb_column_name cb" for v by (simp add: column_bloom_add_def)
  show ?case using Cons g n by (auto simp: columns_ok_def)
qed (simp add: columns_ok_def)

lemma add_all_keeps:
  assumes "columns_ok cbs"
  shows "columns_ok (fold (add_to_column he) cvs cbs)
    \<and> (\<forall>cv \<in> set cvs. column_finds he (fst cv) (snd cv) (fold (add_to_column he) cvs cbs))
    \<and> (\<forall>c v. column_finds he c v cbs \<longrightarrow> column_finds he c v (fold (add_to_column he) cvs cbs))"
  using assms
proof (induction cvs arbitrary: cbs)
  case (Cons cv cvs)
  then show ?case using add_keeps [OF Cons.prems, of he cv] by auto
qed simp

lemma index_rows_keeps:
  assumes "columns_ok (tb_column_filters tb)"
  shows "(\<forall>tp \<in> set tuples. \<forall>cv \<in> set (zip names tp). column_finds he (fst cv) (snd cv) (tb_column_filters (index_rows_from he names n tuples tb)))
    \<and> (\<forall>c v. column_finds he c v (tb_column_filters tb) \<longrightarrow> column_finds he c v (tb_column_filters (index_rows_from he names n tuples tb)))"
  using assms
proof (induction tuples arbitrary: n tb)
  case (Cons tp tuples)
  let ?tb = "index_row he n (zip names tp) tb"
  have cbs: "tb_column_filters ?tb = fold (add_to_column he) (zip names tp) (tb_column_filters tb)" by (simp add: index_row_def)
  note k = add_all_keeps [OF Cons.prems, of he "zip names tp", folded cbs]
  show ?case using Cons.IH [of ?tb "n + 1"] k by (auto simp: Ball_def)
qed simp

lemma ensure_columns_ok: "columns_ok (tb_column_filters tb) \<Longrightarrow> columns_ok (tb_column_filters (fold (ensure_column sizes e) cs tb))"
proof (induction cs arbitrary: tb)
  case (Cons c cs)
  have "columns_ok (tb_column_filters (ensure_column sizes e c tb))" using Cons.prems
    by (auto simp: ensure_column_def add_column_def column_bloom_new_def for_elements_def columns_ok_def new_ok)
  then show ?case using Cons.IH by simp
qed simp

section \<open>Properties\<close>

text \<open>
  C16. a Bloom filter never misses. Whatever sequence of insertions, lookups, delta updates and
  merges a filter has been through since it was created or cleared, a lookup of any value that
  was inserted on the way answers that it may be present, and the lookup changes only counters.
\<close>

theorem bloom_never_misses:
  assumes "bloom_run he f seen" "v \<in> seen"
  shows "\<exists>g. might_contain_value he v f = (g, True) \<and> bf_bits g = bf_bits f"
proof -
  obtain g res where m: "bloom_might_contain he (value_stream he v) f = (g, res)" by fastforce
  have "check_value he v f" using bloom_run_holds [OF assms(1)] assms(2) by (simp add: holds_all_def)
  then show ?thesis using m lookup_grows [OF m]
    by (auto simp: might_contain_value_def check_value_def bloom_might_contain_def Let_def split: if_splits)
qed

definition sum_env :: hash_env where
  "sum_env = \<lparr>he_hash = (\<lambda>s. fold (\<lambda>b h. h * 31 + ucast b) s 7), he_date = (\<lambda>_. []), he_time = (\<lambda>_. []), he_uuid = id\<rparr>"

theorem bloom_never_misses_witness:
  "\<exists>g. might_contain_value sum_env (Int4 5) (insert_value sum_env Null (insert_value sum_env (Int4 5) (bloom_new 100 3))) = (g, True)"
proof -
  have "bloom_run sum_env (insert_value sum_env Null (insert_value sum_env (Int4 5) (bloom_new 100 3))) {Null, Int4 5}"
    by (intro bloom_run.intros)
  from bloom_never_misses [OF this, of "Int4 5"] show ?thesis by blast
qed

text \<open>
  the filters that a table's rows were indexed into, by whatever filters it started from,
  answer that a value may be present for every column value of every row.
\<close>

theorem table_blooms_cover_rows:
  assumes "columns_ok (tb_column_filters tb)" "tp \<in> set tuples" "i < length names" "i < length tp"
  shows "snd (table_might_contain he (names ! i) (tp ! i) (blooms_from_tuples he sizes names tuples tb))"
proof -
  have "(names ! i, tp ! i) \<in> set (zip names tp)" using assms(3,4) by (auto simp: set_zip)
  then have "column_finds he (names ! i) (tp ! i) (tb_column_filters (blooms_from_tuples he sizes names tuples tb))"
    unfolding blooms_from_tuples_def using index_rows_keeps [OF ensure_columns_ok [OF assms(1)]] assms(2) by fastforce
  then show ?thesis by (simp add: table_might_contain_def column_finds_def case_prod_unfold)
qed

theorem table_blooms_cover_rows_witness:
  "snd (table_might_contain sum_env ''a'' (Int4 5) (blooms_from_tuples sum_env (\<lambda>n. (n, 3)) [''a''] [[Int4 5], [Null]] (table_blooms_new (\<lambda>n. (n, 3)) ''t'' 2)))"
  using table_blooms_cover_rows [of "table_blooms_new (\<lambda>n. (n, 3)) ''t'' 2" "[Int4 5]" "[[Int4 5], [Null]]" 0 "[''a'']" sum_env "\<lambda>n. (n, 3)"]
  by (simp add: table_blooms_new_def columns_ok_def)

end
