(* ===== verification/Pushdown.thy ===== *)
theory Pushdown
  imports Zone_Map Bloom_Filter
begin

text \<open>
  Predicate pushdown (\<^verbatim>\<open>src/src/storage/predicate_pushdown.rs\<close>): the analysis of a WHERE clause
  into predicates on columns, the manager that keeps Bloom filters and zone maps per table, and
  the scan that uses both before it evaluates the predicates on the rows that are left. The gates
  around it are those of the optimizer (\<^verbatim>\<open>src/src/optimizer/rules.rs\<close>, \<open>can_push_predicate\<close>) and
  of the executor (\<^verbatim>\<open>src/src/sql/executor/scan.rs\<close>, \<open>storage_predicates_are_sql_safe\<close>,
  \<open>flatten_and\<close>). A division by zero is the value \<open>None\<close>. Expressions that no function here
  distinguishes are one constructor; thresholds and rates that no code reads are left out.
\<close>

section \<open>Expressions and schemas\<close>

datatype data_type = TBoolean | TInt2 | TInt4 | TInt8 | TFloat4 | TFloat8 | TNumeric | TVarchar "nat option" | TText | TChar nat
  | TBytea | TDate | TTime | TTimestamp | TTimestamptz | TInterval | TUuid | TJson | TJsonb | TArray data_type | TVector nat
  | TTsVector | TTsQuery

record column =
  col_name :: string
  col_type :: data_type

type_synonym schema = "column list"

fun column_position :: "string \<Rightarrow> schema \<Rightarrow> nat option" where
  "column_position name [] = None"
| "column_position name (c # cs) = (if col_name c = name then Some 0 else map_option Suc (column_position name cs))"

datatype binary_operator = OpEq | OpNotEq | OpLt | OpLtEq | OpGt | OpGtEq | OpAnd | OpOr | OpLike | OpOther

datatype logical_expr =
    Column "string option" string
  | Literal sql_value
  | Parameter nat
  | Cast logical_expr data_type
  | BinaryExpr logical_expr binary_operator logical_expr
  | IsNullExpr logical_expr bool
  | BetweenExpr logical_expr logical_expr logical_expr bool
  | InList logical_expr "logical_expr list" bool
  | OtherExpr "logical_expr list"

section \<open>Analysed predicates\<close>

datatype predicate_op = PEq | PNotEq | PLt | PLtEq | PGt | PGtEq | PIsNull | PIsNotNull | PBetween | PIn | PLike

text \<open>Selectivities are the code's constants in hundredths.\<close>

record analyzed_predicate =
  ap_column_name :: string
  ap_column_index :: nat
  ap_op :: predicate_op
  ap_value :: sql_value
  ap_value2 :: "sql_value option"
  ap_value_list :: "sql_value list"
  ap_selectivity :: nat
  ap_can_use_bloom :: bool
  ap_can_use_zone_map :: bool

definition to_range_op :: "predicate_op \<Rightarrow> range_op option" where
  "to_range_op op = (case op of PEq \<Rightarrow> Some REq | PNotEq \<Rightarrow> Some RNotEq | PLt \<Rightarrow> Some RLt | PLtEq \<Rightarrow> Some RLtEq | PGt \<Rightarrow> Some RGt
     | PGtEq \<Rightarrow> Some RGtEq | _ \<Rightarrow> None)"

definition to_filter_op :: "predicate_op \<Rightarrow> filter_op option" where
  "to_filter_op op = Some (case op of PEq \<Rightarrow> Eq | PNotEq \<Rightarrow> NotEq | PLt \<Rightarrow> Lt | PLtEq \<Rightarrow> LtEq | PGt \<Rightarrow> Gt | PGtEq \<Rightarrow> GtEq
     | PIsNull \<Rightarrow> IsNull | PIsNotNull \<Rightarrow> IsNotNull | PBetween \<Rightarrow> Between | PIn \<Rightarrow> In | PLike \<Rightarrow> Like)"

definition coerce_literal_for_column :: "parsers \<Rightarrow> sql_value \<Rightarrow> data_type \<Rightarrow> sql_value" where
  "coerce_literal_for_column px v ty = (case (v, ty) of
       (String s, TUuid) \<Rightarrow> (case parse_uuid_literal px s of Some u \<Rightarrow> Uuid u | None \<Rightarrow> v)
     | (String s, TNumeric) \<Rightarrow> (case parse_numeric_text px s of Some n \<Rightarrow> Numeric n | None \<Rightarrow> v)
     | _ \<Rightarrow> v)"

fun resolve_pushdown_value :: "sql_value list \<Rightarrow> logical_expr \<Rightarrow> sql_value option" where
  "resolve_pushdown_value ps (Literal v) = Some v"
| "resolve_pushdown_value ps (Parameter i) = (if i > 0 \<and> i - 1 < length ps then Some (ps ! (i - 1)) else None)"
| "resolve_pushdown_value ps (Cast e ty) = resolve_pushdown_value ps e"
| "resolve_pushdown_value ps e = None"

definition comparison_op :: "binary_operator \<Rightarrow> predicate_op option" where
  "comparison_op op = (case op of OpEq \<Rightarrow> Some PEq | OpNotEq \<Rightarrow> Some PNotEq | OpLt \<Rightarrow> Some PLt | OpLtEq \<Rightarrow> Some PLtEq
     | OpGt \<Rightarrow> Some PGt | OpGtEq \<Rightarrow> Some PGtEq | _ \<Rightarrow> None)"

definition extract_comparison ::
  "parsers \<Rightarrow> schema \<Rightarrow> sql_value list \<Rightarrow> logical_expr \<Rightarrow> logical_expr \<Rightarrow> binary_operator \<Rightarrow> analyzed_predicate option" where
  "extract_comparison px schema ps left right op = (case left of
       Column _ name \<Rightarrow> (case column_position name schema of
           None \<Rightarrow> None
         | Some idx \<Rightarrow> (case resolve_pushdown_value ps right of
               None \<Rightarrow> None
             | Some v \<Rightarrow> (case comparison_op op of
                   None \<Rightarrow> None
                 | Some pop \<Rightarrow> Some \<lparr>ap_column_name = name, ap_column_index = idx, ap_op = pop,
                     ap_value = coerce_literal_for_column px v (col_type (schema ! idx)), ap_value2 = None, ap_value_list = [],
                     ap_selectivity = (case pop of PEq \<Rightarrow> 1 | PNotEq \<Rightarrow> 99 | _ \<Rightarrow> 33),
                     ap_can_use_bloom = (pop = PEq), ap_can_use_zone_map = (pop \<in> {PEq, PLt, PLtEq, PGt, PGtEq})\<rparr>)))
     | _ \<Rightarrow> None)"

definition extract_like :: "schema \<Rightarrow> logical_expr \<Rightarrow> logical_expr \<Rightarrow> analyzed_predicate option" where
  "extract_like schema left right = (case left of
       Column _ name \<Rightarrow> (case column_position name schema of
           None \<Rightarrow> None
         | Some idx \<Rightarrow> (case right of
               Literal (String s) \<Rightarrow> Some \<lparr>ap_column_name = name, ap_column_index = idx, ap_op = PLike, ap_value = String s,
                 ap_value2 = None, ap_value_list = [], ap_selectivity = 10, ap_can_use_bloom = False, ap_can_use_zone_map = False\<rparr>
             | _ \<Rightarrow> None))
     | _ \<Rightarrow> None)"

definition extract_null :: "schema \<Rightarrow> logical_expr \<Rightarrow> bool \<Rightarrow> analyzed_predicate list" where
  "extract_null schema e is_null = (case e of
       Column _ name \<Rightarrow> (case column_position name schema of
           None \<Rightarrow> []
         | Some idx \<Rightarrow> [\<lparr>ap_column_name = name, ap_column_index = idx, ap_op = (if is_null then PIsNull else PIsNotNull), ap_value = Null,
             ap_value2 = None, ap_value_list = [], ap_selectivity = 10, ap_can_use_bloom = False, ap_can_use_zone_map = True\<rparr>])
     | _ \<Rightarrow> [])"

definition extract_between ::
  "parsers \<Rightarrow> schema \<Rightarrow> sql_value list \<Rightarrow> logical_expr \<Rightarrow> logical_expr \<Rightarrow> logical_expr \<Rightarrow> bool \<Rightarrow> analyzed_predicate list" where
  "extract_between px schema ps e low high negated = (case e of
       Column _ name \<Rightarrow> (case (resolve_pushdown_value ps low, resolve_pushdown_value ps high) of
           (Some lv, Some hv) \<Rightarrow> (case column_position name schema of
               None \<Rightarrow> []
             | Some idx \<Rightarrow> (let ty = col_type (schema ! idx) in
                 [\<lparr>ap_column_name = name, ap_column_index = idx, ap_op = (if negated then PNotEq else PBetween),
                   ap_value = coerce_literal_for_column px lv ty, ap_value2 = Some (coerce_literal_for_column px hv ty),
                   ap_value_list = [], ap_selectivity = 20, ap_can_use_bloom = False, ap_can_use_zone_map = True\<rparr>]))
         | _ \<Rightarrow> [])
     | _ \<Rightarrow> [])"

fun resolve_all :: "parsers \<Rightarrow> data_type \<Rightarrow> sql_value list \<Rightarrow> logical_expr list \<Rightarrow> sql_value list option" where
  "resolve_all px ty ps [] = Some []"
| "resolve_all px ty ps (e # es) = (case resolve_pushdown_value ps e of
       None \<Rightarrow> None
     | Some v \<Rightarrow> map_option ((#) (coerce_literal_for_column px v ty)) (resolve_all px ty ps es))"

definition extract_in ::
  "parsers \<Rightarrow> schema \<Rightarrow> sql_value list \<Rightarrow> logical_expr \<Rightarrow> logical_expr list \<Rightarrow> bool \<Rightarrow> analyzed_predicate list" where
  "extract_in px schema ps e es negated = (case e of
       Column _ name \<Rightarrow> (case column_position name schema of
           None \<Rightarrow> []
         | Some idx \<Rightarrow> (case resolve_all px (col_type (schema ! idx)) ps es of
               None \<Rightarrow> []
             | Some [] \<Rightarrow> []
             | Some (v # vs) \<Rightarrow> [\<lparr>ap_column_name = name, ap_column_index = idx, ap_op = (if negated then PNotEq else PIn), ap_value = v,
                 ap_value2 = None, ap_value_list = v # vs, ap_selectivity = 10, ap_can_use_bloom = (\<not> negated),
                 ap_can_use_zone_map = False\<rparr>]))
     | _ \<Rightarrow> [])"

fun extract_predicates :: "parsers \<Rightarrow> schema \<Rightarrow> sql_value list \<Rightarrow> logical_expr \<Rightarrow> analyzed_predicate list" where
  "extract_predicates px schema ps (BinaryExpr left op right) = (case op of
       OpAnd \<Rightarrow> extract_predicates px schema ps left @ extract_predicates px schema ps right
     | OpLike \<Rightarrow> (case extract_like schema left right of Some p \<Rightarrow> [p] | None \<Rightarrow> [])
     | OpOr \<Rightarrow> []
     | OpOther \<Rightarrow> []
     | _ \<Rightarrow> (case extract_comparison px schema ps left right op of
           Some p \<Rightarrow> [p]
         | None \<Rightarrow> (case extract_comparison px schema ps right left op of Some p \<Rightarrow> [p] | None \<Rightarrow> [])))"
| "extract_predicates px schema ps (IsNullExpr e is_null) = extract_null schema e is_null"
| "extract_predicates px schema ps (BetweenExpr e low high negated) = extract_between px schema ps e low high negated"
| "extract_predicates px schema ps (InList e es negated) = extract_in px schema ps e es negated"
| "extract_predicates px schema ps e = []"

definition analyze_predicate :: "parsers \<Rightarrow> logical_expr \<Rightarrow> schema \<Rightarrow> sql_value list \<Rightarrow> analyzed_predicate list" where
  "analyze_predicate px e schema ps = extract_predicates px schema ps e"

section \<open>The gates\<close>

definition is_column :: "logical_expr \<Rightarrow> bool" where
  "is_column e = (case e of Column _ _ \<Rightarrow> True | _ \<Rightarrow> False)"

definition is_bound_literal :: "logical_expr \<Rightarrow> bool" where
  "is_bound_literal e = (case e of Literal v \<Rightarrow> v \<noteq> Null | _ \<Rightarrow> False)"

fun can_push_predicate :: "logical_expr \<Rightarrow> bool" where
  "can_push_predicate (BinaryExpr left op right) = (case op of
       OpAnd \<Rightarrow> can_push_predicate left \<and> can_push_predicate right
     | OpLike \<Rightarrow> is_column left \<and> (case right of Literal _ \<Rightarrow> True | _ \<Rightarrow> False)
     | OpOr \<Rightarrow> False
     | OpNotEq \<Rightarrow> False
     | OpOther \<Rightarrow> False
     | _ \<Rightarrow> is_column left \<and> is_bound_literal right \<or> is_bound_literal left \<and> is_column right)"
| "can_push_predicate (IsNullExpr e _) = is_column e"
| "can_push_predicate (BetweenExpr e low high negated) = (\<not> negated \<and> is_column e \<and> is_bound_literal low \<and> is_bound_literal high)"
| "can_push_predicate (InList e es negated) = (\<not> negated \<and> is_column e \<and> list_all is_bound_literal es)"
| "can_push_predicate e = False"

fun flatten_and :: "logical_expr \<Rightarrow> logical_expr list" where
  "flatten_and (BinaryExpr left op right) = (if op = OpAnd then flatten_and left @ flatten_and right else [BinaryExpr left op right])"
| "flatten_and e = [e]"

definition storage_filter_value_matches_type :: "data_type \<Rightarrow> sql_value \<Rightarrow> bool" where
  "storage_filter_value_matches_type ty v = (case v of
       Null \<Rightarrow> True
     | Boolean _ \<Rightarrow> ty = TBoolean
     | Int2 _ \<Rightarrow> ty \<in> {TInt2, TInt4, TInt8} | Int4 _ \<Rightarrow> ty \<in> {TInt2, TInt4, TInt8} | Int8 _ \<Rightarrow> ty \<in> {TInt2, TInt4, TInt8}
     | Float4 _ \<Rightarrow> ty \<in> {TFloat4, TFloat8} | Float8 _ \<Rightarrow> ty \<in> {TFloat4, TFloat8}
     | Numeric _ \<Rightarrow> ty = TNumeric
     | String _ \<Rightarrow> (case ty of TText \<Rightarrow> True | TVarchar _ \<Rightarrow> True | TChar _ \<Rightarrow> True | _ \<Rightarrow> False)
     | Bytes _ \<Rightarrow> ty = TBytea
     | Uuid _ \<Rightarrow> ty = TUuid
     | Timestamp _ \<Rightarrow> ty \<in> {TTimestamp, TTimestamptz}
     | Date _ \<Rightarrow> ty = TDate
     | Time _ \<Rightarrow> ty = TTime
     | Interval _ \<Rightarrow> ty = TInterval
     | Json _ \<Rightarrow> ty \<in> {TJson, TJsonb, TTsVector, TTsQuery}
     | Array _ \<Rightarrow> (case ty of TArray _ \<Rightarrow> True | _ \<Rightarrow> False)
     | Vector _ \<Rightarrow> (case ty of TVector _ \<Rightarrow> True | _ \<Rightarrow> False)
     | _ \<Rightarrow> False)"

definition storage_predicate_safe :: "schema \<Rightarrow> analyzed_predicate \<Rightarrow> bool" where
  "storage_predicate_safe schema p = (if ap_column_index p < length schema
     then let fits = storage_filter_value_matches_type (col_type (schema ! ap_column_index p)) in
       case ap_op p of
         PIsNull \<Rightarrow> True
       | PIsNotNull \<Rightarrow> True
       | PBetween \<Rightarrow> fits (ap_value p) \<and> (case ap_value2 p of Some v \<Rightarrow> fits v | None \<Rightarrow> False)
       | PIn \<Rightarrow> list_all fits (ap_value_list p)
       | _ \<Rightarrow> ap_value p \<noteq> Null \<and> fits (ap_value p)
     else False)"

definition storage_predicates_are_sql_safe :: "schema \<Rightarrow> analyzed_predicate list \<Rightarrow> bool" where
  "storage_predicates_are_sql_safe schema preds = list_all (storage_predicate_safe schema) preds"

text \<open>What the executor pushes into the scan, and whether the evaluator filters the result again.\<close>

definition pushed_predicates :: "parsers \<Rightarrow> schema \<Rightarrow> sql_value list \<Rightarrow> logical_expr option \<Rightarrow> analyzed_predicate list \<times> bool" where
  "pushed_predicates px schema ps predicate =
     (let analyzed = (case predicate of Some e \<Rightarrow> analyze_predicate px e schema ps | None \<Rightarrow> []);
          extraction_complete = (case predicate of Some e \<Rightarrow> length analyzed = length (flatten_and e) | None \<Rightarrow> True);
          safe = extraction_complete \<and> storage_predicates_are_sql_safe schema analyzed
      in (if safe then analyzed else [], \<not> safe \<and> predicate \<noteq> None))"

section \<open>The manager\<close>

record pushdown_config =
  pc_bloom_filter :: bool
  pc_zone_map :: bool
  pc_simd_filter :: bool
  pc_zone_map_min_rows :: nat
  pc_zone_map_block_size :: nat
  pc_bloom_expected_distinct :: nat

record pushdown_stats =
  pu_total_scans :: nat
  pu_pushdown_scans :: nat
  pu_bloom_rows_skipped :: nat
  pu_zone_blocks_skipped :: nat
  pu_simd_rows_filtered :: nat
  pu_baseline_rows :: nat
  pu_returned_rows :: nat
  pu_early_terminations :: nat

record pushdown_manager =
  pm_config :: pushdown_config
  pm_bloom_filters :: "(string \<times> table_blooms) list"
  pm_zone_maps :: "(string \<times> table_zone_map) list"
  pm_stats :: pushdown_stats

definition pushdown_stats_zero :: pushdown_stats where
  "pushdown_stats_zero = \<lparr>pu_total_scans = 0, pu_pushdown_scans = 0, pu_bloom_rows_skipped = 0, pu_zone_blocks_skipped = 0,
     pu_simd_rows_filtered = 0, pu_baseline_rows = 0, pu_returned_rows = 0, pu_early_terminations = 0\<rparr>"

definition pushdown_config_default :: pushdown_config where
  "pushdown_config_default = \<lparr>pc_bloom_filter = True, pc_zone_map = True, pc_simd_filter = True, pc_zone_map_min_rows = 100,
     pc_zone_map_block_size = 1000, pc_bloom_expected_distinct = 1000\<rparr>"

definition pushdown_new :: "pushdown_config \<Rightarrow> pushdown_manager" where
  "pushdown_new config = \<lparr>pm_config = config, pm_bloom_filters = [], pm_zone_maps = [], pm_stats = pushdown_stats_zero\<rparr>"

definition register_bloom_filters :: "string \<Rightarrow> table_blooms \<Rightarrow> pushdown_manager \<Rightarrow> pushdown_manager" where
  "register_bloom_filters t filters pm = pm\<lparr>pm_bloom_filters := AList.update t filters (pm_bloom_filters pm)\<rparr>"

definition register_zone_maps :: "string \<Rightarrow> table_zone_map \<Rightarrow> pushdown_manager \<Rightarrow> pushdown_manager" where
  "register_zone_maps t z pm = pm\<lparr>pm_zone_maps := AList.update t z (pm_zone_maps pm)\<rparr>"

definition remove_table :: "string \<Rightarrow> pushdown_manager \<Rightarrow> pushdown_manager" where
  "remove_table t pm = pm\<lparr>pm_bloom_filters := AList.delete t (pm_bloom_filters pm), pm_zone_maps := AList.delete t (pm_zone_maps pm)\<rparr>"

definition has_structures_for_table :: "string \<Rightarrow> pushdown_manager \<Rightarrow> bool" where
  "has_structures_for_table t pm = (map_of (pm_bloom_filters pm) t \<noteq> None \<or> map_of (pm_zone_maps pm) t \<noteq> None)"

definition initialize_table :: "(nat \<Rightarrow> nat \<times> nat) \<Rightarrow> string \<Rightarrow> string list \<Rightarrow> nat \<Rightarrow> pushdown_manager \<Rightarrow> pushdown_manager" where
  "initialize_table sizes t columns expected_rows pm =
     register_zone_maps t (zone_map_new t (pc_zone_map_block_size (pm_config pm)))
       (register_bloom_filters t
          (fold (\<lambda>c. add_column sizes c (pc_bloom_expected_distinct (pm_config pm))) columns (table_blooms_new sizes t expected_rows)) pm)"

definition pushdown_index_row :: "hash_env \<Rightarrow> parsers \<Rightarrow> string \<Rightarrow> nat \<Rightarrow> (string \<times> sql_value) list \<Rightarrow> pushdown_manager \<Rightarrow> pushdown_manager" where
  "pushdown_index_row he px t row_id values pm =
     (let pm = (case map_of (pm_bloom_filters pm) t of
                    Some tb \<Rightarrow> register_bloom_filters t (index_row he row_id values tb) pm | None \<Rightarrow> pm)
      in case map_of (pm_zone_maps pm) t of Some z \<Rightarrow> register_zone_maps t (zone_add_row px row_id values z) pm | None \<Rightarrow> pm)"

definition pushdown_reset_stats :: "pushdown_manager \<Rightarrow> pushdown_manager" where
  "pushdown_reset_stats pm = pm\<lparr>pm_stats := pushdown_stats_zero\<rparr>"

definition set_config :: "pushdown_config \<Rightarrow> pushdown_manager \<Rightarrow> pushdown_manager" where
  "set_config config pm = pm\<lparr>pm_config := config\<rparr>"

definition bloom_filter_memory_usage :: "pushdown_manager \<Rightarrow> nat" where
  "bloom_filter_memory_usage pm = sum_list (map (table_memory_usage \<circ> snd) (pm_bloom_filters pm))"

text \<open>
  \<open>build_bloom_filters_for_table\<close> and \<open>build_zone_maps_for_table\<close> of the storage engine, on the rows
  that the table scan returned.
\<close>

definition build_bloom_filters_for_table ::
  "hash_env \<Rightarrow> (nat \<Rightarrow> nat \<times> nat) \<Rightarrow> string \<Rightarrow> schema \<Rightarrow> sql_value list list \<Rightarrow> pushdown_manager \<Rightarrow> pushdown_manager" where
  "build_bloom_filters_for_table he sizes t schema tuples pm = (if tuples = [] then pm
     else register_bloom_filters t (blooms_from_tuples he sizes (map col_name schema) tuples (table_blooms_new sizes t (length tuples))) pm)"

definition build_zone_maps_for_table ::
  "parsers \<Rightarrow> string \<Rightarrow> nat \<Rightarrow> schema \<Rightarrow> sql_value list list \<Rightarrow> pushdown_manager \<Rightarrow> pushdown_manager" where
  "build_zone_maps_for_table px t block_size schema tuples pm = (if tuples = [] then pm
     else register_zone_maps t (build_from_tuples px (map col_name schema) tuples (zone_map_new t block_size)) pm)"

section \<open>The scan\<close>

definition to_filter_predicate :: "analyzed_predicate \<Rightarrow> filter_predicate option" where
  "to_filter_predicate p = map_option (\<lambda>op. \<lparr>fp_column_index = ap_column_index p, fp_column_name = ap_column_name p, fp_op = op,
     fp_value = ap_value p, fp_value2 = ap_value2 p, fp_value_list = ap_value_list p,
     fp_pattern = (case ap_value p of String s \<Rightarrow> if ap_op p = PLike then Some s else None | _ \<Rightarrow> None)\<rparr>) (to_filter_op (ap_op p))"

definition filters_of :: "analyzed_predicate list \<Rightarrow> filter_predicate list" where
  "filters_of preds = List.map_filter to_filter_predicate preds"

definition tuple_matches_filter_predicates :: "parsers \<Rightarrow> sql_value list \<Rightarrow> filter_predicate list \<Rightarrow> bool" where
  "tuple_matches_filter_predicates px tp preds =
     list_all (\<lambda>p. fp_column_index p < length tp \<and> evaluate px p (tp ! fp_column_index p)) preds"

fun any_might_contain :: "hash_env \<Rightarrow> string \<Rightarrow> sql_value list \<Rightarrow> table_blooms \<Rightarrow> table_blooms \<times> bool" where
  "any_might_contain he c [] tb = (tb, False)"
| "any_might_contain he c (v # vs) tb = (case table_might_contain he c v tb of (tb, res) \<Rightarrow> if res then (tb, True) else any_might_contain he c vs tb)"

text \<open>Phase 1: the answer \<open>False\<close> stops the scan with no rows.\<close>

fun bloom_phase :: "hash_env \<Rightarrow> analyzed_predicate list \<Rightarrow> table_blooms \<Rightarrow> table_blooms \<times> bool" where
  "bloom_phase he [] tb = (tb, True)"
| "bloom_phase he (p # preds) tb = (if \<not> ap_can_use_bloom p then bloom_phase he preds tb
     else if ap_op p = PEq then (case table_might_contain he (ap_column_name p) (ap_value p) tb of
         (tb, res) \<Rightarrow> if res then bloom_phase he preds tb else (tb, False))
     else if ap_op p = PIn then (case any_might_contain he (ap_column_name p) (ap_value_list p) tb of
         (tb, res) \<Rightarrow> if res then bloom_phase he preds tb else (tb, False))
     else bloom_phase he preds tb)"

text \<open>Phase 2: the zone map, the candidate rows, and how many blocks were skipped.\<close>

fun zone_phase :: "parsers \<Rightarrow> nat \<Rightarrow> analyzed_predicate list \<Rightarrow> table_zone_map \<times> nat list \<times> nat \<Rightarrow> (table_zone_map \<times> nat list \<times> nat) option" where
  "zone_phase px block_size [] st = Some st"
| "zone_phase px block_size (p # preds) (z, candidates, skipped_blocks) =
     (if \<not> ap_can_use_zone_map p then zone_phase px block_size preds (z, candidates, skipped_blocks)
      else case to_range_op (ap_op p) of
        None \<Rightarrow> zone_phase px block_size preds (z, candidates, skipped_blocks)
      | Some rop \<Rightarrow>
          (let (z, blocks) = get_matching_blocks_range px (ap_column_name p) rop (ap_value p) z in
           if block_size = 0 then None
           else let kept = filter (\<lambda>idx. idx div block_size \<in> set blocks) candidates in
             zone_phase px block_size preds (z, kept, skipped_blocks + (length candidates - length kept) div block_size)))"

text \<open>Phase 3: rows in order until the limit is reached; the limit is tested after a row is added.\<close>

fun match_loop ::
  "parsers \<Rightarrow> filter_predicate list \<Rightarrow> nat list option \<Rightarrow> nat option \<Rightarrow> nat \<Rightarrow> sql_value list list \<Rightarrow> sql_value list list \<Rightarrow> sql_value list list" where
  "match_loop px preds candidate_set limit idx [] acc = acc"
| "match_loop px preds candidate_set limit idx (tp # tuples) acc =
     (if (case candidate_set of Some cs \<Rightarrow> idx \<notin> set cs | None \<Rightarrow> False) \<or> \<not> tuple_matches_filter_predicates px tp preds
      then match_loop px preds candidate_set limit (idx + 1) tuples acc
      else let acc = acc @ [tp] in
        if (case limit of Some lim \<Rightarrow> length acc \<ge> lim | None \<Rightarrow> False) then acc
        else match_loop px preds candidate_set limit (idx + 1) tuples acc)"

definition bump :: "(pushdown_stats \<Rightarrow> pushdown_stats) \<Rightarrow> pushdown_manager \<Rightarrow> pushdown_manager" where
  "bump f pm = pm\<lparr>pm_stats := f (pm_stats pm)\<rparr>"

definition scan_bloom :: "hash_env \<Rightarrow> string \<Rightarrow> analyzed_predicate list \<Rightarrow> pushdown_manager \<Rightarrow> pushdown_manager \<times> bool" where
  "scan_bloom he t preds pm = (case map_of (pm_bloom_filters pm) t of
       Some tb \<Rightarrow> if pc_bloom_filter (pm_config pm)
         then (case bloom_phase he preds tb of (tb, go) \<Rightarrow> (register_bloom_filters t tb pm, go)) else (pm, True)
     | None \<Rightarrow> (pm, True))"

definition scan_zones :: "parsers \<Rightarrow> string \<Rightarrow> nat \<Rightarrow> analyzed_predicate list \<Rightarrow> pushdown_manager \<Rightarrow> (pushdown_manager \<times> nat list) option" where
  "scan_zones px t n preds pm = (case map_of (pm_zone_maps pm) t of
       Some z \<Rightarrow> if pc_zone_map (pm_config pm) \<and> pc_zone_map_min_rows (pm_config pm) \<le> n
         then map_option (\<lambda>(z, candidates, skipped). (bump (\<lambda>s. s\<lparr>pu_zone_blocks_skipped := pu_zone_blocks_skipped s + skipped\<rparr>)
                (register_zone_maps t z pm), candidates))
           (zone_phase px (pc_zone_map_block_size (pm_config pm)) preds (z, [0..<n], 0))
         else Some (pm, [0..<n])
     | None \<Rightarrow> Some (pm, [0..<n]))"

definition scan_with_pushdown ::
  "hash_env \<Rightarrow> parsers \<Rightarrow> string \<Rightarrow> sql_value list list \<Rightarrow> analyzed_predicate list \<Rightarrow> nat option \<Rightarrow> pushdown_manager
    \<Rightarrow> (pushdown_manager \<times> sql_value list list) option" where
  "scan_with_pushdown he px t tuples preds limit pm =
     (let n = length tuples;
          pm = bump (\<lambda>s. s\<lparr>pu_total_scans := pu_total_scans s + 1, pu_baseline_rows := pu_baseline_rows s + n\<rparr>) pm in
      if preds = [] \<or> \<not> pc_simd_filter (pm_config pm)
      then Some (pm, (case limit of Some l \<Rightarrow> take l tuples | None \<Rightarrow> tuples))
      else let pm = bump (\<lambda>s. s\<lparr>pu_pushdown_scans := pu_pushdown_scans s + 1\<rparr>) pm;
               (pm, go) = scan_bloom he t preds pm in
        if \<not> go then Some (bump (\<lambda>s. s\<lparr>pu_bloom_rows_skipped := pu_bloom_rows_skipped s + n\<rparr>) pm, [])
        else case scan_zones px t n preds pm of
            None \<Rightarrow> None
          | Some (pm, candidates) \<Rightarrow>
              (let candidate_set = (if length candidates = n then None else Some candidates);
                   found = match_loop px (filters_of preds) candidate_set limit 0 tuples [];
                   k = length found;
                   early = (if k < length candidates \<and> limit \<noteq> None then 1 else 0)
               in Some (bump (\<lambda>s. s\<lparr>pu_simd_rows_filtered := pu_simd_rows_filtered s + (length candidates - k),
                      pu_early_terminations := pu_early_terminations s + early,
                      pu_returned_rows := pu_returned_rows s + k\<rparr>) pm, found)))"

section \<open>What the scan returns\<close>

text \<open>The rows it should return: those that satisfy every predicate, cut off after the limit (but not before the first row).\<close>

definition limit_take :: "nat option \<Rightarrow> 'a list \<Rightarrow> 'a list" where
  "limit_take limit xs = (case limit of Some l \<Rightarrow> take (max l 1) xs | None \<Rightarrow> xs)"

lemma match_loop_filter:
  assumes "\<And>k. k < length tuples \<Longrightarrow> tuple_matches_filter_predicates px (tuples ! k) preds
      \<Longrightarrow> (case cs of Some cs \<Rightarrow> idx + k \<in> set cs | None \<Rightarrow> True)"
  shows "match_loop px preds cs limit idx tuples acc = acc @ (let rows = filter (\<lambda>tp. tuple_matches_filter_predicates px tp preds) tuples in
    case limit of Some l \<Rightarrow> take (max 1 (l - length acc)) rows | None \<Rightarrow> rows)"
  using assms
proof (induction tuples arbitrary: idx acc)
  case (Cons tp tuples)
  have step: "case cs of Some cs \<Rightarrow> idx + 1 + k \<in> set cs | None \<Rightarrow> True"
    if "k < length tuples" "tuple_matches_filter_predicates px (tuples ! k) preds" for k
    using Cons.prems [of "Suc k"] that by (cases cs) simp_all
  have "tuple_matches_filter_predicates px tp preds \<Longrightarrow> (case cs of Some cs \<Rightarrow> idx \<in> set cs | None \<Rightarrow> True)"
    using Cons.prems [of 0] by (cases cs) simp_all
  then show ?case using Cons.IH [of "idx + 1"] step by (cases limit; cases cs) (auto simp: Let_def max_def take_Cons' not_le)
qed (simp split: option.split)

subsection \<open>Bloom filters\<close>

definition bloom_covers :: "hash_env \<Rightarrow> string list \<Rightarrow> sql_value list list \<Rightarrow> table_blooms \<Rightarrow> bool" where
  "bloom_covers he names tuples tb \<longleftrightarrow> (\<forall>tp \<in> set tuples. \<forall>i < length names. column_finds he (names ! i) (tp ! i) (tb_column_filters tb))"

lemma column_lookup_keeps: "column_finds he c' v' (fst (column_lookup he c v cbs)) = column_finds he c' v' cbs"
proof (induction cbs)
  case (Cons cb cbs)
  obtain f res where m: "bloom_might_contain he (value_stream he v) (cb_filter cb) = (f, res)" by fastforce
  then have "bloom_check he w f = bloom_check he w (cb_filter cb)" for w
    by (auto simp: bloom_might_contain_def bloom_check_iff get_bit_index_def Let_def split: if_splits)
  then show ?case using Cons m by (auto simp: column_might_contain_def might_contain_value_def check_value_def split: prod.splits)
qed simp

lemma table_lookup:
  "snd (table_might_contain he c v tb) = column_finds he c v (tb_column_filters tb)"
  "bloom_covers he names tuples (fst (table_might_contain he c v tb)) = bloom_covers he names tuples tb"
  by (simp_all add: table_might_contain_def column_finds_def [symmetric] case_prod_unfold bloom_covers_def column_lookup_keeps)

lemma any_lookup:
  "bloom_covers he names tuples (fst (any_might_contain he c vs tb)) = bloom_covers he names tuples tb"
  "bloom_covers he names tuples tb \<Longrightarrow> tp \<in> set tuples \<Longrightarrow> i < length names \<Longrightarrow> tp ! i \<in> set vs \<Longrightarrow> snd (any_might_contain he (names ! i) vs tb)"
proof (induction vs arbitrary: tb)
  case (Cons v vs)
  { case 1
    then show ?case using Cons.IH(1) table_lookup(2) by (simp add: case_prod_unfold) }
  { case 2
    have "column_finds he (names ! i) (tp ! i) (tb_column_filters tb)" using 2 by (simp add: bloom_covers_def)
    then show ?case using 2 Cons.IH(2) [of "fst (table_might_contain he (names ! i) v tb)"]
      by (auto simp: case_prod_unfold table_lookup) }
qed simp_all

text \<open>
  A Bloom filter hashes the bytes of a value, so its answer is about the very value: stored values
  and literal have to be of one type, and not of one with an approximate equality.
\<close>

definition value_kind :: "sql_value \<Rightarrow> nat" where
  "value_kind v = (case v of Null \<Rightarrow> 0 | Boolean _ \<Rightarrow> 1 | Int2 _ \<Rightarrow> 2 | Int4 _ \<Rightarrow> 3 | Int8 _ \<Rightarrow> 4 | Float4 _ \<Rightarrow> 5 | Float8 _ \<Rightarrow> 6 | Numeric _ \<Rightarrow> 7
     | String _ \<Rightarrow> 8 | Bytes _ \<Rightarrow> 9 | Uuid _ \<Rightarrow> 10 | Timestamp _ \<Rightarrow> 11 | Date _ \<Rightarrow> 12 | Time _ \<Rightarrow> 13 | Interval _ \<Rightarrow> 14 | Json _ \<Rightarrow> 15
     | Array _ \<Rightarrow> 16 | Vector _ \<Rightarrow> 17 | DictRef _ \<Rightarrow> 18 | CasRef _ \<Rightarrow> 19 | ColumnarRef \<Rightarrow> 20)"

definition hash_comparable :: "sql_value \<Rightarrow> sql_value \<Rightarrow> bool" where
  "hash_comparable v w \<longleftrightarrow> v = Null \<or> value_kind v = value_kind w \<and> value_kind v \<notin> {5, 6, 16, 17}"

lemma hash_comparable_eq: "hash_comparable v w \<Longrightarrow> compare_eq px v w \<Longrightarrow> v = w"
  by (cases v; cases w) (auto simp: hash_comparable_def value_kind_def int_value_def signed_word_eqI)

definition pred_fits :: "parsers \<Rightarrow> string list \<Rightarrow> sql_value list list \<Rightarrow> analyzed_predicate \<Rightarrow> bool" where
  "pred_fits px names tuples p \<longleftrightarrow> (let i = ap_column_index p in i < length names \<and> ap_column_name p = names ! i
     \<and> (ap_can_use_bloom p \<and> ap_op p = PEq \<longrightarrow> (\<forall>tp \<in> set tuples. hash_comparable (tp ! i) (ap_value p)))
     \<and> (ap_can_use_bloom p \<and> ap_op p = PIn \<longrightarrow> (\<forall>tp \<in> set tuples. \<forall>v \<in> set (ap_value_list p). hash_comparable (tp ! i) v))
     \<and> (ap_can_use_zone_map p \<and> to_range_op (ap_op p) \<noteq> None \<longrightarrow>
         (\<exists>f. order_class px (ap_value p) = Some f \<and> (\<forall>tp \<in> set tuples. tp ! i = Null \<or> order_class px (tp ! i) = Some f)
            \<and> (f \<noteq> 2 \<or> ap_op p = PLt \<or> ap_op p = PGt))))"

lemma filters_of_Cons:
  "tuple_matches_filter_predicates px tp (filters_of (p # preds)) \<longleftrightarrow>
     ap_column_index p < length tp \<and> evaluate px (the (to_filter_predicate p)) (tp ! ap_column_index p)
     \<and> tuple_matches_filter_predicates px tp (filters_of preds)"
  by (simp add: tuple_matches_filter_predicates_def filters_of_def map_filter_simps to_filter_predicate_def to_filter_op_def)

text \<open>What a pushed predicate says of a value, for each operation.\<close>

lemma pred_eval:
  "ap_op p = PEq \<Longrightarrow> evaluate px (the (to_filter_predicate p)) v = compare_eq px v (ap_value p)"
  "ap_op p = PNotEq \<Longrightarrow> evaluate px (the (to_filter_predicate p)) v = (\<not> compare_eq px v (ap_value p))"
  "ap_op p = PLt \<Longrightarrow> evaluate px (the (to_filter_predicate p)) v = compare_lt px v (ap_value p)"
  "ap_op p = PLtEq \<Longrightarrow> evaluate px (the (to_filter_predicate p)) v = (compare_lt px v (ap_value p) \<or> compare_eq px v (ap_value p))"
  "ap_op p = PGt \<Longrightarrow> evaluate px (the (to_filter_predicate p)) v = compare_gt px v (ap_value p)"
  "ap_op p = PGtEq \<Longrightarrow> evaluate px (the (to_filter_predicate p)) v = (compare_gt px v (ap_value p) \<or> compare_eq px v (ap_value p))"
  "ap_op p = PIsNull \<Longrightarrow> evaluate px (the (to_filter_predicate p)) v = (v = Null)"
  "ap_op p = PIsNotNull \<Longrightarrow> evaluate px (the (to_filter_predicate p)) v = (v \<noteq> Null)"
  "ap_op p = PIn \<Longrightarrow> evaluate px (the (to_filter_predicate p)) v = list_ex (compare_eq px v) (ap_value_list p)"
  "ap_op p = PBetween \<Longrightarrow> ap_value2 p = Some high \<Longrightarrow> evaluate px (the (to_filter_predicate p)) v =
     ((compare_gt px v (ap_value p) \<or> compare_eq px v (ap_value p)) \<and> (compare_lt px v high \<or> compare_eq px v high))"
  "ap_op p = PLike \<Longrightarrow> ap_value p = String pat \<Longrightarrow> evaluate px (the (to_filter_predicate p)) v =
     (case v of String s \<Rightarrow> match_like_pattern s pat | _ \<Rightarrow> False)"
  by (simp_all add: to_filter_predicate_def to_filter_op_def evaluate_def evaluate_like_def Let_def)

lemma bloom_phase_go:
  assumes "bloom_covers he names tuples tb" "\<forall>p \<in> set preds. pred_fits px names tuples p"
    "tp \<in> set tuples" "tuple_matches_filter_predicates px tp (filters_of preds)"
  shows "snd (bloom_phase he preds tb)"
  using assms
proof (induction preds arbitrary: tb)
  case (Cons p preds)
  let ?i = "ap_column_index p" and ?c = "ap_column_name p"
  note m = Cons.prems(4) [unfolded filters_of_Cons]
  have fit: "?i < length names" "?c = names ! ?i" using Cons.prems(2) by (auto simp: pred_fits_def Let_def)
  have rest: "snd (bloom_phase he preds tb')" if "bloom_covers he names tuples tb'" for tb'
    using Cons.IH [OF that] Cons.prems(2,3) m by simp
  have eq: "snd (table_might_contain he ?c (ap_value p) tb)" if "ap_can_use_bloom p" "ap_op p = PEq"
  proof -
    have "tp ! ?i = ap_value p"
      using that Cons.prems(2,3) m by (auto simp: pred_fits_def Let_def pred_eval intro!: hash_comparable_eq)
    then show ?thesis using Cons.prems(1,3) fit unfolding table_lookup bloom_covers_def by metis
  qed
  have isin: "snd (any_might_contain he ?c (ap_value_list p) tb)" if "ap_can_use_bloom p" "ap_op p = PIn"
  proof -
    have "list_ex (compare_eq px (tp ! ?i)) (ap_value_list p)" using m pred_eval(9) [OF that(2)] by simp
    then obtain v where "v \<in> set (ap_value_list p)" "compare_eq px (tp ! ?i) v" by (auto simp: list_ex_iff)
    then have "tp ! ?i \<in> set (ap_value_list p)"
      using that Cons.prems(2,3) hash_comparable_eq [of "tp ! ?i" v] by (auto simp: pred_fits_def Let_def)
    then show ?thesis using any_lookup(2) [OF Cons.prems(1,3) fit(1)] fit(2) by simp
  qed
  show ?case using rest [of tb] rest [of "fst (table_might_contain he ?c (ap_value p) tb)"]
      rest [of "fst (any_might_contain he ?c (ap_value_list p) tb)"] eq isin Cons.prems(1) any_lookup(1) table_lookup(2)
    by (auto simp: case_prod_unfold)
qed simp

subsection \<open>Zone maps\<close>

lemma zone_shape_counts: "zone_shape px names bs tuples (fst (get_matching_blocks_range px c op v z)) = zone_shape px names bs tuples z"
  by (simp add: get_matching_blocks_range_def matching_blocks_def count_blocks_def zone_shape_def)

lemma range_filter_op: "to_range_op op = Some rop \<Longrightarrow> to_filter_op op = Some (range_filter rop)"
  by (cases op) (auto simp: to_range_op_def to_filter_op_def range_filter_def)

lemma zone_phase_keeps:
  assumes "zone_shape px names bs tuples z" "0 < bs" "distinct names" "\<forall>tp \<in> set tuples. length tp = length names"
    "\<forall>p \<in> set preds. pred_fits px names tuples p"
  shows "\<exists>z' kept k. zone_phase px bs preds (z, candidates, skipped) = Some (z', kept, k) \<and>
    (\<forall>row \<in> set candidates. row < length tuples \<longrightarrow> tuple_matches_filter_predicates px (tuples ! row) (filters_of preds) \<longrightarrow> row \<in> set kept)"
  using assms(1,5)
proof (induction preds arbitrary: z candidates skipped)
  case (Cons p preds)
  let ?i = "ap_column_index p"
  have fit: "?i < length names" "ap_column_name p = names ! ?i" using Cons.prems(2) by (auto simp: pred_fits_def Let_def)
  have fits: "\<forall>p \<in> set preds. pred_fits px names tuples p" using Cons.prems(2) by simp
  show ?case
  proof (cases "ap_can_use_zone_map p \<and> to_range_op (ap_op p) \<noteq> None")
    case False
    then show ?thesis using Cons.IH [OF Cons.prems(1) fits, of candidates skipped] by (auto simp: filters_of_Cons)
  next
    case True
    then obtain rop where rop: "to_range_op (ap_op p) = Some rop" by auto
    obtain f where f: "order_class px (ap_value p) = Some f" "\<forall>tp \<in> set tuples. tp ! ?i = Null \<or> order_class px (tp ! ?i) = Some f"
      "f \<noteq> 2 \<or> ap_op p = PLt \<or> ap_op p = PGt" using True Cons.prems(2) by (auto simp: pred_fits_def Let_def)
    obtain z' blocks where b: "get_matching_blocks_range px (names ! ?i) rop (ap_value p) z = (z', blocks)" by fastforce
    have shape: "zone_shape px names bs tuples z'" using Cons.prems(1) zone_shape_counts b by (metis fst_conv)
    have float: "f \<noteq> 2 \<or> rop = RLt \<or> rop = RGt \<or> rop = RNotEq" using f(3) rop by (auto simp: to_range_op_def)
    have hit: "row div bs \<in> set blocks" if "row < length tuples" "evaluate px (the (to_filter_predicate p)) (tuples ! row ! ?i)" for row
      using shape_keeps_matches [OF Cons.prems(1) assms(3,4) fit(1) that(1) f(2), of "the (to_filter_predicate p)" rop] f(1) float that(2) b rop
      by (simp add: to_filter_predicate_def range_filter_op)
    obtain z'' kept k where r: "zone_phase px bs preds (z', filter (\<lambda>idx. idx div bs \<in> set blocks) candidates,
        skipped + (length candidates - length (filter (\<lambda>idx. idx div bs \<in> set blocks) candidates)) div bs) = Some (z'', kept, k)"
      "\<forall>row \<in> set (filter (\<lambda>idx. idx div bs \<in> set blocks) candidates). row < length tuples \<longrightarrow>
        tuple_matches_filter_predicates px (tuples ! row) (filters_of preds) \<longrightarrow> row \<in> set kept"
      using Cons.IH [OF shape fits] by blast
    show ?thesis using True r hit rop b assms(2) by (auto simp: Let_def fit(2) filters_of_Cons)
  qed
qed simp

subsection \<open>Both\<close>

lemma scan_result:
  assumes "pc_simd_filter (pm_config pm)" "preds \<noteq> []" "0 < pc_zone_map_block_size (pm_config pm)" "distinct names"
    "\<forall>tp \<in> set tuples. length tp = length names" "\<forall>p \<in> set preds. pred_fits px names tuples p"
    and blooms: "\<And>tb. map_of (pm_bloom_filters pm) t = Some tb \<Longrightarrow> bloom_covers he names tuples tb"
    and zones: "\<And>z. map_of (pm_zone_maps pm) t = Some z \<Longrightarrow> zone_shape px names (pc_zone_map_block_size (pm_config pm)) tuples z"
  shows "\<exists>pm'. scan_with_pushdown he px t tuples preds limit pm =
    Some (pm', limit_take limit (filter (\<lambda>tp. tuple_matches_filter_predicates px tp (filters_of preds)) tuples))"
proof -
  let ?M = "\<lambda>tp. tuple_matches_filter_predicates px tp (filters_of preds)" and ?n = "length tuples"
  let ?bump = "\<lambda>pm. bump (\<lambda>s. s\<lparr>pu_pushdown_scans := pu_pushdown_scans s + 1\<rparr>)
    (bump (\<lambda>s. s\<lparr>pu_total_scans := pu_total_scans s + 1, pu_baseline_rows := pu_baseline_rows s + ?n\<rparr>) pm)"
  obtain pm1 go where b: "scan_bloom he t preds (?bump pm) = (pm1, go)" by fastforce
  have same: "pm_config pm1 = pm_config pm" "pm_zone_maps pm1 = pm_zone_maps pm"
    using b by (auto simp: scan_bloom_def bump_def register_bloom_filters_def split: option.splits if_splits prod.splits)
  have go: "go" if "tp \<in> set tuples" "?M tp" for tp
    using b bloom_phase_go [OF blooms assms(6) that] by (fastforce simp: scan_bloom_def bump_def split: option.splits if_splits prod.splits)
  have "\<exists>pm2 kept. scan_zones px t ?n preds pm1 = Some (pm2, kept) \<and> (\<forall>row < ?n. ?M (tuples ! row) \<longrightarrow> row \<in> set kept)"
  proof (cases "map_of (pm_zone_maps pm) t")
    case (Some z)
    from zone_phase_keeps [OF zones [OF Some] assms(3-6), of "[0..<?n]" 0]
    obtain z' kept k where "zone_phase px (pc_zone_map_block_size (pm_config pm)) preds (z, [0..<?n], 0) = Some (z', kept, k)"
      "\<forall>row < ?n. ?M (tuples ! row) \<longrightarrow> row \<in> set kept" by auto
    then show ?thesis using Some by (auto simp: scan_zones_def same)
  qed (simp add: scan_zones_def same)
  then obtain pm2 kept where z: "scan_zones px t ?n preds pm1 = Some (pm2, kept)" "\<And>row. row < ?n \<Longrightarrow> ?M (tuples ! row) \<Longrightarrow> row \<in> set kept" by blast
  have "match_loop px (filters_of preds) (if length kept = ?n then None else Some kept) limit 0 tuples [] = limit_take limit (filter ?M tuples)"
    using z(2) by (subst match_loop_filter) (auto simp: limit_take_def Let_def max.commute split: option.splits)
  moreover have "\<not> go \<Longrightarrow> filter ?M tuples = []" using go by (auto simp: filter_empty_conv)
  ultimately show ?thesis
    using b z(1) assms(1,2) by (cases go) (auto simp: scan_with_pushdown_def Let_def bump_def limit_take_def split: option.split)
qed

section \<open>What is pushed means what SQL says\<close>

text \<open>
  The meaning of a condition by SQL's rules: a comparison with NULL is not true, other values
  compare by the order of their type.
\<close>

definition sql_holds :: "parsers \<Rightarrow> (ordering \<Rightarrow> bool) \<Rightarrow> sql_value \<Rightarrow> sql_value \<Rightarrow> bool" where
  "sql_holds px rel v w \<longleftrightarrow> v \<noteq> Null \<and> w \<noteq> Null \<and> (case compare_values px v w of Some c \<Rightarrow> rel c | None \<Rightarrow> False)"

definition operand :: "schema \<Rightarrow> sql_value list \<Rightarrow> logical_expr \<Rightarrow> sql_value" where
  "operand schema tp e = (case e of
       Column _ name \<Rightarrow> (case column_position name schema of Some i \<Rightarrow> tp ! i | None \<Rightarrow> Null)
     | Literal v \<Rightarrow> v
     | _ \<Rightarrow> Null)"

definition comparison_rel :: "binary_operator \<Rightarrow> ordering \<Rightarrow> bool" where
  "comparison_rel op c = (case op of OpEq \<Rightarrow> c = Equal | OpNotEq \<Rightarrow> c \<noteq> Equal | OpLt \<Rightarrow> c = Less | OpLtEq \<Rightarrow> c \<noteq> Greater
     | OpGt \<Rightarrow> c = Greater | OpGtEq \<Rightarrow> c \<noteq> Less | _ \<Rightarrow> False)"

fun sql_true :: "parsers \<Rightarrow> schema \<Rightarrow> sql_value list \<Rightarrow> logical_expr \<Rightarrow> bool" where
  "sql_true px schema tp (BinaryExpr l op r) = (case op of
       OpAnd \<Rightarrow> sql_true px schema tp l \<and> sql_true px schema tp r
     | OpOr \<Rightarrow> sql_true px schema tp l \<or> sql_true px schema tp r
     | OpLike \<Rightarrow> (case (operand schema tp l, operand schema tp r) of (String s, String pat) \<Rightarrow> like_splits (chars pat) (chars s) | _ \<Rightarrow> False)
     | OpOther \<Rightarrow> False
     | _ \<Rightarrow> sql_holds px (comparison_rel op) (operand schema tp l) (operand schema tp r))"
| "sql_true px schema tp (IsNullExpr e is_null) = ((operand schema tp e = Null) = is_null)"
| "sql_true px schema tp (BetweenExpr e low high negated) = (\<not> negated
     \<and> sql_holds px (\<lambda>c. c \<noteq> Less) (operand schema tp e) (operand schema tp low)
     \<and> sql_holds px (\<lambda>c. c \<noteq> Greater) (operand schema tp e) (operand schema tp high))"
| "sql_true px schema tp (InList e es negated) = (\<not> negated
     \<and> (\<exists>x \<in> set es. sql_holds px (\<lambda>c. c = Equal) (operand schema tp e) (operand schema tp x)))"
| "sql_true px schema tp e = False"

text \<open>Types whose equality and order the storage predicates decide exactly.\<close>

definition plain_type :: "data_type \<Rightarrow> bool" where
  "plain_type ty = (case ty of TBoolean \<Rightarrow> True | TInt2 \<Rightarrow> True | TInt4 \<Rightarrow> True | TInt8 \<Rightarrow> True | TText \<Rightarrow> True | TVarchar _ \<Rightarrow> True
     | TChar _ \<Rightarrow> True | TBytea \<Rightarrow> True | TTimestamp \<Rightarrow> True | TTimestamptz \<Rightarrow> True | _ \<Rightarrow> False)"

definition row_typed :: "schema \<Rightarrow> sql_value list \<Rightarrow> bool" where
  "row_typed schema tp \<longleftrightarrow> list_all2 (\<lambda>c v. plain_type (col_type c) \<and> storage_filter_value_matches_type (col_type c) v) schema tp"

text \<open>No ordering comparison has its literal on the left.\<close>

fun column_first :: "logical_expr \<Rightarrow> bool" where
  "column_first (BinaryExpr l op r) = (if op = OpAnd then column_first l \<and> column_first r
     else if op \<in> {OpLt, OpLtEq, OpGt, OpGtEq} then is_column l else True)"
| "column_first e = True"

lemmas storage_compare_defs = compare_lt_def compare_gt_def compare_is_def sql_holds_def compare_values_def int_value_def
  storage_filter_value_matches_type_def plain_type_def

lemma plain_values:
  assumes "plain_type ty" "storage_filter_value_matches_type ty v" "storage_filter_value_matches_type ty w"
  obtains "v = Null" | "w = Null" | a b where "v = Boolean a" "w = Boolean b" | a b where "int_value v = Some a" "int_value w = Some b"
    | a b where "v = String a" "w = String b" | a b where "v = Bytes a" "w = Bytes b" | a b where "v = Timestamp a" "w = Timestamp b"
proof -
  have v: "v = Null \<or> ty = TBoolean \<and> (\<exists>a. v = Boolean a) \<or> ty \<in> {TInt2, TInt4, TInt8} \<and> (\<exists>a. int_value v = Some a)
      \<or> ty \<notin> {TBoolean, TInt2, TInt4, TInt8, TBytea, TTimestamp, TTimestamptz} \<and> (\<exists>a. v = String a)
      \<or> ty = TBytea \<and> (\<exists>a. v = Bytes a) \<or> ty \<in> {TTimestamp, TTimestamptz} \<and> (\<exists>a. v = Timestamp a)"
    if "storage_filter_value_matches_type ty v" for v
    using assms(1) that by (cases v) (auto simp: storage_compare_defs split: data_type.splits)
  show thesis using v [OF assms(2)] v [OF assms(3)] that by auto
qed

lemma int_value_cases: "int_value v = Some a \<Longrightarrow> (\<exists>i. v = Int2 i) \<or> (\<exists>i. v = Int4 i) \<or> (\<exists>i. v = Int8 i)"
  by (auto simp: int_value_def split: sql_value.splits)

lemma plain_compare:
  assumes "plain_type ty" "storage_filter_value_matches_type ty v" "storage_filter_value_matches_type ty w"
  shows "(compare_lt px v w \<longleftrightarrow> sql_holds px (\<lambda>c. c = Less) v w) \<and> (compare_gt px v w \<longleftrightarrow> sql_holds px (\<lambda>c. c = Greater) v w)
    \<and> (w \<noteq> Null \<longrightarrow> (compare_eq px v w \<longleftrightarrow> sql_holds px (\<lambda>c. c = Equal) v w))"
proof -
  note defs = compare_lt_def compare_gt_def compare_is_def sql_holds_def compare_values_def
  show ?thesis
  proof (cases rule: plain_values [OF assms])
    case 1
    then show ?thesis by (cases w) (auto simp: defs int_value_def)
  next
    case 2
    then show ?thesis by (cases v) (auto simp: defs int_value_def float_value_def)
  next
    case (4 a b)
    from int_value_cases [OF 4(1)] int_value_cases [OF 4(2)] show ?thesis by (elim disjE exE) (auto simp: defs int_value_def)
  qed (auto simp: defs)
qed

lemma plain_eq_sym:
  assumes "plain_type ty" "storage_filter_value_matches_type ty v" "storage_filter_value_matches_type ty w"
  shows "sql_holds px (\<lambda>c. c = Equal) v w \<longleftrightarrow> sql_holds px (\<lambda>c. c = Equal) w v"
proof (cases rule: plain_values [OF assms])
  case (4 a b)
  from int_value_cases [OF 4(1)] int_value_cases [OF 4(2)] show ?thesis
    by (elim disjE exE) (auto simp: sql_holds_def compare_values_def int_value_def)
qed (auto simp: sql_holds_def compare_values_def)

lemma plain_coerce: "plain_type ty \<Longrightarrow> coerce_literal_for_column px v ty = v"
  by (cases ty) (auto simp: plain_type_def coerce_literal_for_column_def split: sql_value.splits)

lemma sql_holds_mono: "sql_holds px P v w \<or> sql_holds px Q v w \<longleftrightarrow> sql_holds px (\<lambda>c. P c \<or> Q c) v w"
  by (auto simp: sql_holds_def split: option.splits)

lemma sql_holds_cong: "(\<And>c. P c = Q c) \<Longrightarrow> sql_holds px P v w = sql_holds px Q v w"
  by (simp add: sql_holds_def split: option.split)

lemma ordering_rels: "(c = Less \<or> c = Equal) = (c \<noteq> Greater)" "(c = Greater \<or> c = Equal) = (c \<noteq> Less)" for c :: ordering
  by (cases c; simp)+

lemma plain_le_ge:
  assumes "plain_type ty" "storage_filter_value_matches_type ty v" "storage_filter_value_matches_type ty w" "w \<noteq> Null"
  shows "compare_lt px v w \<or> compare_eq px v w \<longleftrightarrow> sql_holds px (\<lambda>c. c \<noteq> Greater) v w"
    and "compare_gt px v w \<or> compare_eq px v w \<longleftrightarrow> sql_holds px (\<lambda>c. c \<noteq> Less) v w"
  using plain_compare [OF assms(1-3), of px] assms(4) by (simp_all add: sql_holds_mono ordering_rels)

lemma column_position_bound: "column_position name schema = Some i \<Longrightarrow> i < length schema \<and> col_name (schema ! i) = name"
  by (induction schema arbitrary: i) (auto split: if_splits)

lemma extracted_one: "op \<noteq> OpAnd \<Longrightarrow> length (extract_predicates px schema ps (BinaryExpr l op r)) \<le> 1"
  by (cases op) (auto split: option.splits)

lemma extracted_le: "length (extract_predicates px schema ps e) \<le> length (flatten_and e)"
proof (induction e rule: flatten_and.induct)
  case (1 l op r)
  then show ?case using extracted_one [of op px schema ps l r] by (cases "op = OpAnd") (simp_all add: add_mono)
qed (auto simp: extract_null_def extract_between_def extract_in_def Let_def split: logical_expr.splits option.splits list.splits)

lemma single_match: "tuple_matches_filter_predicates px tp (filters_of [p]) \<longleftrightarrow>
    ap_column_index p < length tp \<and> evaluate px (the (to_filter_predicate p)) (tp ! ap_column_index p)"
  unfolding filters_of_Cons by (simp add: filters_of_def tuple_matches_filter_predicates_def)

lemma filters_of_append: "filters_of (ps @ qs) = filters_of ps @ filters_of qs"
  by (simp add: filters_of_def List.map_filter_def)

lemma matches_append: "tuple_matches_filter_predicates px tp (ps @ qs) \<longleftrightarrow> tuple_matches_filter_predicates px tp ps \<and> tuple_matches_filter_predicates px tp qs"
  by (simp add: tuple_matches_filter_predicates_def)

text \<open>The column that a safe predicate is about, in a row of plain types.\<close>

lemma typed_column:
  assumes "row_typed schema tp" "column_position name schema = Some i"
  shows "i < length tp" "i < length schema" "plain_type (col_type (schema ! i))" "storage_filter_value_matches_type (col_type (schema ! i)) (tp ! i)"
  using assms column_position_bound [OF assms(2)] by (auto simp: row_typed_def list_all2_conv_all_nth)

lemma comparison_rels:
  "comparison_rel OpEq = (\<lambda>c. c = Equal)" "comparison_rel OpLt = (\<lambda>c. c = Less)" "comparison_rel OpLtEq = (\<lambda>c. c \<noteq> Greater)"
  "comparison_rel OpGt = (\<lambda>c. c = Greater)" "comparison_rel OpGtEq = (\<lambda>c. c \<noteq> Less)"
  by (simp_all add: fun_eq_iff comparison_rel_def)

text \<open>One comparison of a column with a literal.\<close>

lemma comparison_meaning:
  assumes tp: "row_typed schema tp" and x: "extract_comparison px schema ps (Column q name) (Literal v) op = Some p"
    and safe: "storage_predicate_safe schema p" and op: "op \<in> {OpEq, OpLt, OpLtEq, OpGt, OpGtEq}"
  shows "tuple_matches_filter_predicates px tp (filters_of [p]) \<longleftrightarrow> sql_holds px (comparison_rel op) (operand schema tp (Column q name)) v"
    and "op = OpEq \<Longrightarrow> sql_holds px (comparison_rel op) (operand schema tp (Column q name)) v
      \<longleftrightarrow> sql_holds px (comparison_rel op) v (operand schema tp (Column q name))"
proof -
  obtain i pop where i: "column_position name schema = Some i" "comparison_op op = Some pop" "ap_op p = pop" "ap_column_index p = i"
      "ap_value p = coerce_literal_for_column px v (col_type (schema ! i))"
    using x by (auto simp: extract_comparison_def split: option.splits)
  note ty = typed_column [OF tp i(1)]
  have v: "ap_value p = v" using i(5) ty(3) by (simp add: plain_coerce)
  have w: "storage_filter_value_matches_type (col_type (schema ! i)) v" "v \<noteq> Null"
    using safe i(2-4) v ty(2) op by (auto simp: storage_predicate_safe_def comparison_op_def Let_def)
  have o: "operand schema tp (Column q name) = tp ! i" by (simp add: operand_def i(1))
  note le = plain_le_ge [OF ty(3,4) w, of px] and lt = plain_compare [OF ty(3,4) w(1), of px]
  have m: "tuple_matches_filter_predicates px tp (filters_of [p]) \<longleftrightarrow> evaluate px (the (to_filter_predicate p)) (tp ! i)"
    using ty(1) i(4) by (simp add: single_match)
  from op show "tuple_matches_filter_predicates px tp (filters_of [p]) \<longleftrightarrow> sql_holds px (comparison_rel op) (operand schema tp (Column q name)) v"
    unfolding m o using i(2,3) w(2) le lt
    by (elim insertE) (simp_all add: comparison_op_def pred_eval comparison_rels v)
  show "sql_holds px (comparison_rel op) (operand schema tp (Column q name)) v
      \<longleftrightarrow> sql_holds px (comparison_rel op) v (operand schema tp (Column q name))" if "op = OpEq"
    unfolding that o using plain_eq_sym [OF ty(3,4) w(1), of px] by (simp add: comparison_rels)
qed

lemma column_cases: "is_column e \<Longrightarrow> (\<And>q name. e = Column q name \<Longrightarrow> P) \<Longrightarrow> P"
  by (cases e) (auto simp: is_column_def)

lemma literal_cases: "is_bound_literal e \<Longrightarrow> (\<And>v. e = Literal v \<Longrightarrow> v \<noteq> Null \<Longrightarrow> P) \<Longrightarrow> P"
  by (cases e) (auto simp: is_bound_literal_def)

lemma null_meaning:
  assumes "row_typed schema tp" "extract_null schema (Column q name) is_null = [p]"
  shows "tuple_matches_filter_predicates px tp (filters_of [p]) \<longleftrightarrow> sql_true px schema tp (IsNullExpr (Column q name) is_null)"
proof -
  obtain i where i: "column_position name schema = Some i" "ap_column_index p = i" "ap_op p = (if is_null then PIsNull else PIsNotNull)"
    using assms(2) by (auto simp: extract_null_def split: option.splits)
  show ?thesis using typed_column(1) [OF assms(1) i(1)] i by (cases is_null) (simp_all add: single_match pred_eval operand_def)
qed

lemma like_meaning:
  assumes "row_typed schema tp" "extract_like schema (Column q name) (Literal w) = Some p"
  shows "tuple_matches_filter_predicates px tp (filters_of [p]) \<longleftrightarrow> sql_true px schema tp (BinaryExpr (Column q name) OpLike (Literal w))"
proof -
  obtain i pat where i: "column_position name schema = Some i" "ap_column_index p = i" "ap_op p = PLike" "ap_value p = String pat" "w = String pat"
    using assms(2) by (auto simp: extract_like_def split: option.splits sql_value.splits)
  have like: "match_like_pattern s pat = like_splits (chars pat) (chars s)" for s
    using match_like_correct [of 0 "chars s" "chars pat" 0] by (simp add: match_like_pattern_def)
  show ?thesis using typed_column(1) [OF assms(1) i(1)] i by (simp add: single_match pred_eval operand_def like split: sql_value.split)
qed

lemma between_meaning:
  assumes "row_typed schema tp" "extract_between px schema ps (Column q name) (Literal lo) (Literal hi) False = [p]"
    "storage_predicate_safe schema p" "lo \<noteq> Null" "hi \<noteq> Null"
  shows "tuple_matches_filter_predicates px tp (filters_of [p]) \<longleftrightarrow>
    sql_true px schema tp (BetweenExpr (Column q name) (Literal lo) (Literal hi) False)"
proof -
  obtain i where i: "column_position name schema = Some i" "ap_column_index p = i" "ap_op p = PBetween"
      "ap_value p = coerce_literal_for_column px lo (col_type (schema ! i))" "ap_value2 p = Some (coerce_literal_for_column px hi (col_type (schema ! i)))"
    using assms(2) by (auto simp: extract_between_def Let_def split: option.splits)
  note ty = typed_column [OF assms(1) i(1)]
  have v: "ap_value p = lo" "ap_value2 p = Some hi" using i(4,5) ty(3) by (simp_all add: plain_coerce)
  have "storage_filter_value_matches_type (col_type (schema ! i)) lo" "storage_filter_value_matches_type (col_type (schema ! i)) hi"
    using assms(3) i(2,3) v ty(2) by (auto simp: storage_predicate_safe_def Let_def)
  then show ?thesis
    using plain_le_ge(2) [OF ty(3,4) _ assms(4), of px] plain_le_ge(1) [OF ty(3,4) _ assms(5), of px] ty(1) i(1-3) v
    by (simp add: single_match pred_eval operand_def)
qed

lemma resolve_literals:
  "list_all is_bound_literal es \<Longrightarrow> plain_type ty \<Longrightarrow> resolve_all px ty ps es = Some (map (operand schema tp) es)"
  by (induction es) (auto simp: plain_coerce operand_def elim!: literal_cases)

lemma in_meaning:
  assumes "row_typed schema tp" "extract_in px schema ps (Column q name) es False = [p]" "storage_predicate_safe schema p"
    "list_all is_bound_literal es"
  shows "tuple_matches_filter_predicates px tp (filters_of [p]) \<longleftrightarrow> sql_true px schema tp (InList (Column q name) es False)"
proof -
  obtain i where i: "column_position name schema = Some i" using assms(2) by (auto simp: extract_in_def split: option.splits)
  note ty = typed_column [OF assms(1) i]
  have p: "ap_column_index p = i" "ap_op p = PIn" "ap_value_list p = map (operand schema tp) es"
    using assms(2) resolve_literals [OF assms(4) ty(3), of px ps schema tp] by (auto simp: extract_in_def i split: list.splits)
  have eq: "compare_eq px (tp ! i) (operand schema tp x) \<longleftrightarrow> sql_holds px (\<lambda>c. c = Equal) (tp ! i) (operand schema tp x)" if "x \<in> set es" for x
  proof -
    have "storage_filter_value_matches_type (col_type (schema ! i)) (operand schema tp x)"
      using assms(3) p that ty(2) by (auto simp: storage_predicate_safe_def Let_def list_all_iff)
    moreover have "operand schema tp x \<noteq> Null" using assms(4) that by (auto simp: list_all_iff operand_def elim!: literal_cases)
    ultimately show ?thesis using plain_compare [OF ty(3,4)] by blast
  qed
  show ?thesis using ty(1) p i eq by (auto simp: single_match pred_eval list_ex_iff operand_def)
qed

lemma operand_literal [simp]: "operand schema tp (Literal v) = v"
  by (simp add: operand_def)

text \<open>The leaves of a conjunction, then the conjunction.\<close>

lemma leaf_comparison_meaning:
  assumes tp: "row_typed schema tp" and op: "op \<in> {OpEq, OpLt, OpLtEq, OpGt, OpGtEq}"
    and e: "can_push_predicate (BinaryExpr l op r)" "column_first (BinaryExpr l op r)"
    and x: "extract_predicates px schema ps (BinaryExpr l op r) = [p]" "storage_predicate_safe schema p"
  shows "tuple_matches_filter_predicates px tp (filters_of [p]) \<longleftrightarrow> sql_true px schema tp (BinaryExpr l op r)"
proof -
  have t: "sql_true px schema tp (BinaryExpr l op r) \<longleftrightarrow> sql_holds px (comparison_rel op) (operand schema tp l) (operand schema tp r)"
    using op by auto
  have ex: "(case extract_comparison px schema ps l r op of Some p \<Rightarrow> [p]
      | None \<Rightarrow> (case extract_comparison px schema ps r l op of Some p \<Rightarrow> [p] | None \<Rightarrow> [])) = [p]" using x(1) op by auto
  have "is_column l \<and> is_bound_literal r \<or> is_bound_literal l \<and> is_column r" using e(1) op by auto
  then consider q name v where "l = Column q name" "r = Literal v" | q name v where "l = Literal v" "r = Column q name"
    by (elim disjE conjE column_cases literal_cases) auto
  then show ?thesis
  proof cases
    case (1 q name v)
    then have "extract_comparison px schema ps (Column q name) (Literal v) op = Some p"
      using ex by (auto simp: extract_comparison_def split: option.splits)
    from comparison_meaning(1) [OF tp this x(2) op] show ?thesis unfolding t unfolding 1 by simp
  next
    case (2 q name v)
    then have p: "extract_comparison px schema ps (Column q name) (Literal v) op = Some p"
      using ex by (auto simp: extract_comparison_def split: option.splits)
    have "op = OpEq" using e(2) op 2 by (auto simp: is_column_def)
    then show ?thesis using comparison_meaning [OF tp p x(2) op] unfolding t unfolding 2 by simp
  qed
qed

lemma leaf_meaning:
  assumes tp: "row_typed schema tp" and e: "can_push_predicate e" "column_first e" "\<And>l r. e \<noteq> BinaryExpr l OpAnd r"
    and x: "extract_predicates px schema ps e = [p]" "storage_predicate_safe schema p"
  shows "tuple_matches_filter_predicates px tp (filters_of [p]) \<longleftrightarrow> sql_true px schema tp e"
proof (cases e)
  case (BinaryExpr l op r)
  show ?thesis
  proof (cases "op = OpLike")
    case True
    then show ?thesis using e x tp unfolding BinaryExpr
      by (auto elim!: column_cases split: logical_expr.splits option.splits intro!: like_meaning simp del: sql_true.simps)
  next
    case False
    then have "op \<in> {OpEq, OpLt, OpLtEq, OpGt, OpGtEq}" using e(1,3) unfolding BinaryExpr by (cases op) auto
    then show ?thesis using leaf_comparison_meaning [OF tp] e x unfolding BinaryExpr by blast
  qed
next
  case (IsNullExpr e' b)
  then obtain q name where "e' = Column q name" using e(1) by (auto elim: column_cases)
  then show ?thesis using null_meaning [OF tp] x(1) unfolding IsNullExpr by simp
next
  case (BetweenExpr e' lo hi neg)
  then obtain q name v w where "e' = Column q name" "lo = Literal v" "hi = Literal w" "v \<noteq> Null" "w \<noteq> Null" "\<not> neg"
    using e(1) by (auto elim!: column_cases literal_cases)
  then show ?thesis using between_meaning [OF tp _ x(2)] x(1) unfolding BetweenExpr by simp
next
  case (InList e' es neg)
  then obtain q name where "e' = Column q name" "list_all is_bound_literal es" "\<not> neg" using e(1) by (auto elim: column_cases)
  then show ?thesis using in_meaning [OF tp _ x(2)] x(1) unfolding InList by simp
qed (use e in auto)

lemma leaves_meaning:
  assumes "row_typed schema tp" "can_push_predicate e" "column_first e" "\<And>l r. e \<noteq> BinaryExpr l OpAnd r"
    "length (extract_predicates px schema ps e) = 1" "list_all (storage_predicate_safe schema) (extract_predicates px schema ps e)"
  shows "tuple_matches_filter_predicates px tp (filters_of (extract_predicates px schema ps e)) \<longleftrightarrow> sql_true px schema tp e"
proof -
  obtain p where p: "extract_predicates px schema ps e = [p]" using assms(5) by (auto simp: length_Suc_conv)
  then show ?thesis using leaf_meaning [OF assms(1-4) p] assms(6) by simp
qed

lemma conjunction_meaning:
  assumes "row_typed schema tp" "can_push_predicate e" "column_first e" "length (extract_predicates px schema ps e) = length (flatten_and e)"
    "list_all (storage_predicate_safe schema) (extract_predicates px schema ps e)"
  shows "tuple_matches_filter_predicates px tp (filters_of (extract_predicates px schema ps e)) \<longleftrightarrow> sql_true px schema tp e"
  using assms
proof (induction e rule: flatten_and.induct)
  case (1 l op r)
  show ?case
  proof (cases "op = OpAnd")
    case True
    have "length (extract_predicates px schema ps l) = length (flatten_and l)" "length (extract_predicates px schema ps r) = length (flatten_and r)"
      using 1(6) True extracted_le [of px schema ps l] extracted_le [of px schema ps r] by auto
    then show ?thesis using 1 True by (simp add: filters_of_append matches_append)
  next
    case False
    then show ?thesis using 1(6,7) by (intro leaves_meaning [OF 1(3-5)]) (auto simp del: extract_predicates.simps)
  qed
qed (rule leaves_meaning; simp)+

lemma built_blooms_cover:
  assumes "\<forall>tp \<in> set tuples. length tp = length names"
  shows "bloom_covers he names tuples (blooms_from_tuples he sizes names tuples (table_blooms_new sizes t n))"
  unfolding bloom_covers_def
proof (intro ballI allI impI)
  fix tp i
  assume *: "tp \<in> set tuples" "i < length names"
  have ok: "columns_ok (tb_column_filters (fold (ensure_column sizes (max (length tuples) 1000)) names (table_blooms_new sizes t n)))"
    by (rule ensure_columns_ok) (simp add: table_blooms_new_def columns_ok_def)
  have "(names ! i, tp ! i) \<in> set (zip names tp)" using * assms by (auto simp: set_zip)
  then show "column_finds he (names ! i) (tp ! i) (tb_column_filters (blooms_from_tuples he sizes names tuples (table_blooms_new sizes t n)))"
    unfolding blooms_from_tuples_def using index_rows_keeps [OF ok] *(1) by fastforce
qed

lemma build_config [simp]:
  "pm_config (build_zone_maps_for_table px t bs schema tuples pm) = pm_config pm"
  "pm_config (build_bloom_filters_for_table he sizes t schema tuples pm) = pm_config pm"
  by (simp_all add: build_zone_maps_for_table_def build_bloom_filters_for_table_def register_bloom_filters_def register_zone_maps_def)

lemma built_scan_result:
  assumes bs: "bs = pc_zone_map_block_size (pm_config pm)" and "pc_simd_filter (pm_config pm)" "preds \<noteq> []" "0 < bs" "distinct (map col_name schema)"
    "\<forall>tp \<in> set tuples. length tp = length schema" "\<forall>p \<in> set preds. pred_fits px (map col_name schema) tuples p" "tuples \<noteq> []"
  shows "\<exists>pm'. scan_with_pushdown he px t tuples preds limit
      (build_zone_maps_for_table px t bs schema tuples (build_bloom_filters_for_table he sizes t schema tuples pm)) =
    Some (pm', limit_take limit (filter (\<lambda>tp. tuple_matches_filter_predicates px tp (filters_of preds)) tuples))"
proof (rule scan_result [where names = "map col_name schema"])
  let ?pm = "build_zone_maps_for_table px t bs schema tuples (build_bloom_filters_for_table he sizes t schema tuples pm)"
  show "pc_simd_filter (pm_config ?pm)" "preds \<noteq> []" "0 < pc_zone_map_block_size (pm_config ?pm)" "distinct (map col_name schema)"
    "\<forall>tp \<in> set tuples. length tp = length (map col_name schema)" "\<forall>p \<in> set preds. pred_fits px (map col_name schema) tuples p"
    using assms by simp_all
  show "bloom_covers he (map col_name schema) tuples tb" if "map_of (pm_bloom_filters ?pm) t = Some tb" for tb
    using that assms(6,8) built_blooms_cover [of tuples "map col_name schema"]
    by (auto simp: build_zone_maps_for_table_def build_bloom_filters_for_table_def register_bloom_filters_def register_zone_maps_def update_conv')
  show "zone_shape px (map col_name schema) (pc_zone_map_block_size (pm_config ?pm)) tuples z" if "map_of (pm_zone_maps ?pm) t = Some z" for z
  proof -
    have "max bs 1 = bs" using assms(4) by simp
    then show ?thesis using that assms(8) built_shape [of px "map col_name schema" bs tuples t] bs
      by (simp add: build_zone_maps_for_table_def register_zone_maps_def update_conv')
  qed
qed

section \<open>Properties\<close>

text \<open>
  C3. pruning never changes the answer. After the Bloom filters and the zone maps of a table were
  built from its rows with the block size of the manager, a pushed-down scan of these rows
  returns exactly the rows that satisfy every predicate, in order, up to the limit, whichever
  blocks or tables the filters skip; it does not fail. A limit of zero counts as one: the scan tests the limit
  after it has added a row. The predicates have to fit (\<open>pred_fits\<close>): they are about columns of the
  schema, compare values of the column's own kind where a Bloom filter is asked, and of one order family where a
  zone map is asked. Another block size loses rows (\<open>zone_block_size_mismatch_loses_row\<close>).
\<close>

theorem pushdown_scan_exact:
  assumes bs: "bs = pc_zone_map_block_size (pm_config pm)" and "pc_simd_filter (pm_config pm)" "preds \<noteq> []" "0 < bs" "distinct (map col_name schema)"
    "\<forall>tp \<in> set tuples. length tp = length schema" "\<forall>p \<in> set preds. pred_fits px (map col_name schema) tuples p" "tuples \<noteq> []"
  shows "\<exists>pm'. scan_with_pushdown he px t tuples preds limit
      (build_zone_maps_for_table px t bs schema tuples (build_bloom_filters_for_table he sizes t schema tuples pm)) =
    Some (pm', limit_take limit (filter (\<lambda>tp. tuple_matches_filter_predicates px tp (filters_of preds)) tuples))"
  using assms by (rule built_scan_result)

definition age_schema :: schema where
  "age_schema = [\<lparr>col_name = ''id'', col_type = TInt4\<rparr>, \<lparr>col_name = ''age'', col_type = TInt4\<rparr>]"

definition small_blocks :: pushdown_config where
  "small_blocks = pushdown_config_default\<lparr>pc_zone_map_min_rows := 2, pc_zone_map_block_size := 2\<rparr>"

theorem pushdown_scan_exact_witness:
  "\<exists>pm'. scan_with_pushdown sum_env no_parsers ''t'' [[Int4 1, Int4 30], [Int4 2, Null], [Int4 3, Int4 50]]
      (analyze_predicate no_parsers (BinaryExpr (Column None ''age'') OpGt (Literal (Int4 40))) age_schema []) None
      (build_zone_maps_for_table no_parsers ''t'' 2 age_schema [[Int4 1, Int4 30], [Int4 2, Null], [Int4 3, Int4 50]]
        (build_bloom_filters_for_table sum_env (\<lambda>n. (n, 3)) ''t'' age_schema [[Int4 1, Int4 30], [Int4 2, Null], [Int4 3, Int4 50]]
          (pushdown_new small_blocks))) = Some (pm', [[Int4 3, Int4 50]])"
proof -
  let ?rows = "[[Int4 1, Int4 30], [Int4 2, Null], [Int4 3, Int4 50]]"
  let ?preds = "analyze_predicate no_parsers (BinaryExpr (Column None ''age'') OpGt (Literal (Int4 40))) age_schema []"
  have p: "?preds = [\<lparr>ap_column_name = ''age'', ap_column_index = 1, ap_op = PGt, ap_value = Int4 40, ap_value2 = None, ap_value_list = [],
      ap_selectivity = 33, ap_can_use_bloom = False, ap_can_use_zone_map = True\<rparr>]"
    by (simp add: analyze_predicate_def extract_comparison_def age_schema_def comparison_op_def coerce_literal_for_column_def)
  have fits: "\<forall>p \<in> set ?preds. pred_fits no_parsers (map col_name age_schema) ?rows p"
    unfolding p by (simp add: pred_fits_def age_schema_def order_class_def int_value_def)
  have rows: "filter (\<lambda>tp. tuple_matches_filter_predicates no_parsers tp (filters_of ?preds)) ?rows = [[Int4 3, Int4 50]]"
    unfolding p by (simp add: single_match pred_eval compare_gt_def compare_is_def int_value_def cmp_def)
  have ne: "?preds \<noteq> []" unfolding p by simp
  have "\<exists>pm'. scan_with_pushdown sum_env no_parsers ''t'' ?rows ?preds None
      (build_zone_maps_for_table no_parsers ''t'' 2 age_schema ?rows
        (build_bloom_filters_for_table sum_env (\<lambda>n. (n, 3)) ''t'' age_schema ?rows (pushdown_new small_blocks))) =
    Some (pm', limit_take None (filter (\<lambda>tp. tuple_matches_filter_predicates no_parsers tp (filters_of ?preds)) ?rows))"
    by (rule pushdown_scan_exact [OF _ _ ne _ _ _ fits])
      (simp_all add: small_blocks_def pushdown_new_def pushdown_config_default_def age_schema_def)
  then show ?thesis unfolding rows by (simp add: limit_take_def)
qed



text \<open>
  C38. a comparison with its literal on the left is pushed with the same operator, so its meaning
  is reversed. \<open>b < x\<close> is accepted by the optimizer and by the executor, nothing filters the
  result again, and the rows returned are those with \<open>x < b\<close>.
\<close>

theorem literal_first_comparison_reversed:
  fixes b :: u32
  defines "e \<equiv> BinaryExpr (Literal (Int4 b)) OpLt (Column None ''x'')" and "schema \<equiv> [\<lparr>col_name = ''x'', col_type = TInt4\<rparr>]"
  shows "can_push_predicate e \<and> snd (pushed_predicates px schema ps (Some e)) = False
    \<and> (\<forall>a. tuple_matches_filter_predicates px [Int4 a] (filters_of (fst (pushed_predicates px schema ps (Some e)))) \<longleftrightarrow> sint a < sint b)
    \<and> (\<forall>a. sql_true px schema [Int4 a] e \<longleftrightarrow> sint b < sint a)"
  by (simp add: e_def schema_def is_bound_literal_def is_column_def pushed_predicates_def analyze_predicate_def extract_comparison_def
      comparison_op_def coerce_literal_for_column_def storage_predicates_are_sql_safe_def storage_predicate_safe_def
      storage_filter_value_matches_type_def Let_def single_match pred_eval compare_lt_def compare_is_def int_value_def
      operand_def sql_holds_def compare_values_def comparison_rel_def)

text \<open>
  a range comparison on a UUID column is accepted and pushed, but the storage predicate has
  no order for UUIDs, so the scan returns no row, also where the smaller UUID is in the table.
\<close>

theorem uuid_range_returns_nothing:
  fixes u :: bytes
  defines "e \<equiv> BinaryExpr (Column None ''id'') OpLt (Literal (Uuid u))" and "schema \<equiv> [\<lparr>col_name = ''id'', col_type = TUuid\<rparr>]"
  shows "can_push_predicate e \<and> snd (pushed_predicates px schema ps (Some e)) = False
    \<and> (\<forall>w. \<not> tuple_matches_filter_predicates px [Uuid w] (filters_of (fst (pushed_predicates px schema ps (Some e)))))
    \<and> (\<forall>w. sql_true px schema [Uuid w] e \<longleftrightarrow> w < u)"
  by (simp add: e_def schema_def is_bound_literal_def is_column_def pushed_predicates_def analyze_predicate_def extract_comparison_def
      comparison_op_def coerce_literal_for_column_def storage_predicates_are_sql_safe_def storage_predicate_safe_def
      storage_filter_value_matches_type_def Let_def single_match pred_eval compare_lt_def compare_is_def int_value_def
      operand_def sql_holds_def compare_values_def comparison_rel_def)

text \<open>
  zone maps that were built with another block size than the one in the configuration prune rows
  that match: the scan looks for a row's block by the configured size, the zone map numbered
  its blocks by its own.
\<close>

theorem zone_block_size_mismatch_loses_row:
  "\<exists>pm'. scan_with_pushdown he px ''t'' [[Int4 1], [Int4 2]]
      (analyze_predicate px (BinaryExpr (Column None ''x'') OpEq (Literal (Int4 2))) [\<lparr>col_name = ''x'', col_type = TInt4\<rparr>] []) None
      (build_zone_maps_for_table px ''t'' 1 [\<lparr>col_name = ''x'', col_type = TInt4\<rparr>] [[Int4 1], [Int4 2]] (pushdown_new small_blocks))
    = Some (pm', [])"
  by (simp add: scan_with_pushdown_def bump_def scan_bloom_def scan_zones_def build_zone_maps_for_table_def register_zone_maps_def pushdown_new_def
      small_blocks_def pushdown_config_default_def analyze_predicate_def extract_comparison_def comparison_op_def coerce_literal_for_column_def
      to_range_op_def get_matching_blocks_range_def matching_blocks_def count_blocks_def build_from_tuples_def zone_map_new_def
      zone_add_row_def ensure_blocks_def block_new_def block_add_row_def column_update_def range_update_def range_empty_def lower_min_def
      raise_max_def might_match_range_def might_contain_def compare_values_def int_value_def cmp_def upt_rec Let_def)

end
