(* ===== verification/Simd_Filter.thy ===== *)
theory Simd_Filter
  imports Pushdown Table_Rows
begin

text \<open>
  The filtering engine over batches (\<^verbatim>\<open>src/src/storage/simd_filter.rs\<close>): combined predicates, filters of
  columns and rows with and without a limit, the AVX2 kernel for 32-bit integers with its vector
  instructions lane by lane, and the batch loops for 64-bit integers and floats. Whether the
  processor has AVX2 is an argument. A vector load past the end of the slice is the value \<open>None\<close>.
  Times and running averages are not modelled.
\<close>

section \<open>Combined predicates\<close>

datatype combined_predicate =
    Single filter_predicate
  | And "combined_predicate list"
  | Or "combined_predicate list"
  | Not combined_predicate

fun combined_evaluate :: "parsers \<Rightarrow> sql_value list \<Rightarrow> combined_predicate \<Rightarrow> bool" where
  "combined_evaluate px row (Single p) = (if fp_column_index p < length row then evaluate px p (row ! fp_column_index p) else False)"
| "combined_evaluate px row (And ps) = list_all (combined_evaluate px row) ps"
| "combined_evaluate px row (Or ps) = list_ex (combined_evaluate px row) ps"
| "combined_evaluate px row (Not p) = (\<not> combined_evaluate px row p)"

fun collect_column_indices :: "combined_predicate \<Rightarrow> nat list" where
  "collect_column_indices (Single p) = [fp_column_index p]"
| "collect_column_indices (And ps) = concat (map collect_column_indices ps)"
| "collect_column_indices (Or ps) = concat (map collect_column_indices ps)"
| "collect_column_indices (Not p) = collect_column_indices p"

text \<open>\<open>sort_unstable\<close> and \<open>dedup\<close>.\<close>

definition get_column_indices :: "combined_predicate \<Rightarrow> nat list" where
  "get_column_indices p = remdups_adj (sort (collect_column_indices p))"

section \<open>The engine\<close>

record filter_result =
  fr_matched_indices :: "nat list"
  fr_matched_count :: nat
  fr_total_count :: nat

record simd_stats =
  ss_total_filters :: nat
  ss_total_rows_filtered :: nat
  ss_total_rows_matched :: nat
  ss_early_terminations :: nat
  ss_simd_operations :: nat
  ss_scalar_operations :: nat

record simd_engine =
  se_stats :: simd_stats
  se_batch_size :: nat

definition simd_stats_zero :: simd_stats where
  "simd_stats_zero = \<lparr>ss_total_filters = 0, ss_total_rows_filtered = 0, ss_total_rows_matched = 0, ss_early_terminations = 0,
     ss_simd_operations = 0, ss_scalar_operations = 0\<rparr>"

definition with_batch_size :: "nat \<Rightarrow> simd_engine" where
  "with_batch_size n = \<lparr>se_stats = simd_stats_zero, se_batch_size = max n 64\<rparr>"

definition result_empty :: filter_result where
  "result_empty = \<lparr>fr_matched_indices = [], fr_matched_count = 0, fr_total_count = 0\<rparr>"

definition push_index :: "nat \<Rightarrow> filter_result \<Rightarrow> filter_result" where
  "push_index i r = r\<lparr>fr_matched_indices := fr_matched_indices r @ [i], fr_matched_count := fr_matched_count r + 1\<rparr>"

definition update_stats :: "filter_result \<Rightarrow> simd_engine \<Rightarrow> simd_engine" where
  "update_stats r e = e\<lparr>se_stats := (se_stats e)\<lparr>ss_total_filters := ss_total_filters (se_stats e) + 1,
     ss_total_rows_filtered := ss_total_rows_filtered (se_stats e) + fr_total_count r,
     ss_total_rows_matched := ss_total_rows_matched (se_stats e) + fr_matched_count r\<rparr>\<rparr>"

text \<open>The loop of the filters: \<open>keep\<close> is the test on an element.\<close>

fun filter_loop :: "('a \<Rightarrow> bool) \<Rightarrow> nat \<Rightarrow> 'a list \<Rightarrow> filter_result \<Rightarrow> filter_result" where
  "filter_loop keep idx [] r = r"
| "filter_loop keep idx (x # xs) r = filter_loop keep (idx + 1) xs (if keep x then push_index idx r else r)"

text \<open>With a limit: the second component says that the loop ended early.\<close>

fun limit_loop :: "('a \<Rightarrow> bool) \<Rightarrow> nat \<Rightarrow> nat \<Rightarrow> 'a list \<Rightarrow> filter_result \<Rightarrow> filter_result \<times> bool" where
  "limit_loop keep limit idx [] r = (r, False)"
| "limit_loop keep limit idx (x # xs) r = (if keep x
     then let r = push_index idx r in if fr_matched_count r \<ge> limit then (r, True) else limit_loop keep limit (idx + 1) xs r
     else limit_loop keep limit (idx + 1) xs r)"

definition filter_all :: "('a \<Rightarrow> bool) \<Rightarrow> 'a list \<Rightarrow> simd_engine \<Rightarrow> simd_engine \<times> filter_result" where
  "filter_all keep xs e = (let r = filter_loop keep 0 xs (result_empty\<lparr>fr_total_count := length xs\<rparr>) in (update_stats r e, r))"

definition filter_limit :: "('a \<Rightarrow> bool) \<Rightarrow> nat \<Rightarrow> 'a list \<Rightarrow> simd_engine \<Rightarrow> simd_engine \<times> filter_result" where
  "filter_limit keep limit xs e = (let (r, early) = limit_loop keep limit 0 xs (result_empty\<lparr>fr_total_count := length xs\<rparr>);
       e = (if early then e\<lparr>se_stats := (se_stats e)\<lparr>ss_early_terminations := ss_early_terminations (se_stats e) + 1\<rparr>\<rparr> else e)
     in (update_stats r e, r))"

definition filter_column :: "parsers \<Rightarrow> sql_value list \<Rightarrow> filter_predicate \<Rightarrow> simd_engine \<Rightarrow> simd_engine \<times> filter_result" where
  "filter_column px values p = filter_all (evaluate px p) values"

definition filter_column_with_limit :: "parsers \<Rightarrow> sql_value list \<Rightarrow> filter_predicate \<Rightarrow> nat \<Rightarrow> simd_engine \<Rightarrow> simd_engine \<times> filter_result" where
  "filter_column_with_limit px values p limit = filter_limit (evaluate px p) limit values"

definition filter_rows :: "parsers \<Rightarrow> sql_value list list \<Rightarrow> combined_predicate \<Rightarrow> simd_engine \<Rightarrow> simd_engine \<times> filter_result" where
  "filter_rows px rows p = filter_all (\<lambda>row. combined_evaluate px row p) rows"

definition filter_rows_with_limit :: "parsers \<Rightarrow> sql_value list list \<Rightarrow> combined_predicate \<Rightarrow> nat \<Rightarrow> simd_engine \<Rightarrow> simd_engine \<times> filter_result" where
  "filter_rows_with_limit px rows p limit = filter_limit (\<lambda>row. combined_evaluate px row p) limit rows"

text \<open>The inner loop leaves a row at the first predicate that fails.\<close>

fun passes_all :: "parsers \<Rightarrow> sql_value list \<Rightarrow> filter_predicate list \<Rightarrow> bool" where
  "passes_all px row [] = True"
| "passes_all px row (p # ps) = (if fp_column_index p \<ge> length row \<or> \<not> evaluate px p (row ! fp_column_index p) then False else passes_all px row ps)"

definition filter_and_predicates :: "parsers \<Rightarrow> sql_value list list \<Rightarrow> filter_predicate list \<Rightarrow> simd_engine \<Rightarrow> simd_engine \<times> filter_result" where
  "filter_and_predicates px rows ps e = (if ps = []
     then (e, \<lparr>fr_matched_indices = [0..<length rows], fr_matched_count = length rows, fr_total_count = length rows\<rparr>)
     else filter_all (\<lambda>row. passes_all px row ps) rows e)"

section \<open>Vector instructions\<close>

text \<open>A 256-bit register as eight lanes of 32 bits, the lowest first.\<close>

type_synonym m256i = "u32 list"

definition set1_epi32 :: "u32 \<Rightarrow> m256i" where
  "set1_epi32 v = replicate 8 v"

definition loadu_si256 :: "u32 list \<Rightarrow> nat \<Rightarrow> m256i option" where
  "loadu_si256 values offset = (if offset + 8 \<le> length values then Some (take 8 (drop offset values)) else None)"

definition cmpeq_epi32 :: "m256i \<Rightarrow> m256i \<Rightarrow> m256i" where
  "cmpeq_epi32 = map2 (\<lambda>x y. if x = y then -1 else 0)"

definition cmpgt_epi32 :: "m256i \<Rightarrow> m256i \<Rightarrow> m256i" where
  "cmpgt_epi32 = map2 (\<lambda>x y. if sint x > sint y then -1 else 0)"

definition xor_si256 :: "m256i \<Rightarrow> m256i \<Rightarrow> m256i" where
  "xor_si256 = map2 (XOR)"

text \<open>Bit \<open>i\<close> of the mask is the top bit of byte \<open>i\<close> of the register.\<close>

definition movemask_epi8 :: "m256i \<Rightarrow> u32" where
  "movemask_epi8 v = foldr (\<lambda>i m. if bit (v ! (i div 4)) (8 * (i mod 4) + 7) then push_bit i 1 OR m else m) [0..<32] 0"

definition int32_mask :: "filter_op \<Rightarrow> m256i \<Rightarrow> m256i \<Rightarrow> m256i" where
  "int32_mask op data cmp_vec = (case op of
       Eq \<Rightarrow> cmpeq_epi32 data cmp_vec
     | Lt \<Rightarrow> cmpgt_epi32 cmp_vec data
     | Gt \<Rightarrow> cmpgt_epi32 data cmp_vec
     | LtEq \<Rightarrow> xor_si256 (cmpgt_epi32 data cmp_vec) (set1_epi32 (-1))
     | GtEq \<Rightarrow> xor_si256 (cmpgt_epi32 cmp_vec data) (set1_epi32 (-1))
     | NotEq \<Rightarrow> xor_si256 (cmpeq_epi32 data cmp_vec) (set1_epi32 (-1))
     | _ \<Rightarrow> set1_epi32 0)"

section \<open>Typed batches\<close>

definition int_matches :: "filter_op \<Rightarrow> 'a::len word \<Rightarrow> 'a word \<Rightarrow> bool" where
  "int_matches op v c = (case op of Eq \<Rightarrow> v = c | NotEq \<Rightarrow> v \<noteq> c | Lt \<Rightarrow> sint v < sint c | LtEq \<Rightarrow> sint v \<le> sint c
     | Gt \<Rightarrow> sint v > sint c | GtEq \<Rightarrow> sint v \<ge> sint c | _ \<Rightarrow> False)"

definition filter_int32_scalar :: "u32 list \<Rightarrow> filter_op \<Rightarrow> u32 \<Rightarrow> filter_result \<Rightarrow> filter_result" where
  "filter_int32_scalar values op c r = filter_loop (\<lambda>v. int_matches op v c) 0 values r"

fun avx2_chunks :: "u32 list \<Rightarrow> filter_op \<Rightarrow> m256i \<Rightarrow> nat list \<Rightarrow> nat list \<Rightarrow> nat list option" where
  "avx2_chunks values op cmp_vec [] matched = Some matched"
| "avx2_chunks values op cmp_vec (chunk_idx # cs) matched = (let offset = chunk_idx * 8 in
     case loadu_si256 values offset of
       None \<Rightarrow> None
     | Some data \<Rightarrow> (let mask_bits = movemask_epi8 (int32_mask op data cmp_vec) in
         avx2_chunks values op cmp_vec cs
           (matched @ map (\<lambda>i. offset + i) (filter (\<lambda>i. drop_bit (i * 4) mask_bits AND 0xF = 0xF) [0..<8]))))"

definition filter_int32_avx2 :: "u32 list \<Rightarrow> filter_op \<Rightarrow> u32 \<Rightarrow> nat list option" where
  "filter_int32_avx2 values op c = (let n = length values; chunks = n div 8; remainder_start = chunks * 8 in
     map_option (\<lambda>matched. matched @ map fst (filter (\<lambda>(i, v). int_matches op v c) (drop remainder_start (enumerate 0 values))))
       (avx2_chunks values op (set1_epi32 c) [0..<chunks] []))"

definition filter_int32_batch_simd :: "bool \<Rightarrow> u32 list \<Rightarrow> filter_op \<Rightarrow> u32 \<Rightarrow> simd_engine \<Rightarrow> (simd_engine \<times> filter_result) option" where
  "filter_int32_batch_simd avx2 values op c e = (let r = result_empty\<lparr>fr_total_count := length values\<rparr> in
     if avx2 \<and> length values \<ge> 8
     then map_option (\<lambda>matched. let r = r\<lparr>fr_matched_indices := matched, fr_matched_count := length matched\<rparr> in
            (update_stats r (e\<lparr>se_stats := (se_stats e)\<lparr>ss_simd_operations := ss_simd_operations (se_stats e) + 1\<rparr>\<rparr>), r))
          (filter_int32_avx2 values op c)
     else let r = filter_int32_scalar values op c r in
       Some (update_stats r (e\<lparr>se_stats := (se_stats e)\<lparr>ss_scalar_operations := ss_scalar_operations (se_stats e) + 1\<rparr>\<rparr>), r))"

text \<open>\<open>chunks\<close> of a slice; the size is positive.\<close>

function slice_chunks :: "nat \<Rightarrow> 'a list \<Rightarrow> 'a list list" where
  "slice_chunks n xs = (if xs = [] \<or> n = 0 then [] else take n xs # slice_chunks n (drop n xs))"
  by pat_completeness auto
termination by (relation "measure (\<lambda>(n, xs). length xs)") auto

declare slice_chunks.simps [simp del]

fun batch_loop :: "('a \<Rightarrow> bool) \<Rightarrow> nat \<Rightarrow> nat \<Rightarrow> 'a list list \<Rightarrow> filter_result \<Rightarrow> filter_result" where
  "batch_loop keep batch_size k [] r = r"
| "batch_loop keep batch_size k (chunk # cs) r = batch_loop keep batch_size (k + 1) cs (filter_loop keep (k * batch_size) chunk r)"

definition filter_batches :: "('a \<Rightarrow> bool) \<Rightarrow> 'a list \<Rightarrow> simd_engine \<Rightarrow> simd_engine \<times> filter_result" where
  "filter_batches keep values e =
     (let r = batch_loop keep (se_batch_size e) 0 (slice_chunks (se_batch_size e) values) (result_empty\<lparr>fr_total_count := length values\<rparr>)
      in (update_stats r e, r))"

definition filter_int64_batch :: "u64 list \<Rightarrow> filter_op \<Rightarrow> u64 \<Rightarrow> simd_engine \<Rightarrow> simd_engine \<times> filter_result" where
  "filter_int64_batch values op c = filter_batches (\<lambda>v. int_matches op v c) values"

text \<open>The difference of equal infinities is NaN, so they are neither near nor far.\<close>

definition far_from :: "int option \<Rightarrow> int option \<Rightarrow> bool" where
  "far_from a b = (case (a, b) of (Some x, Some y) \<Rightarrow> \<not> near_eq EPS64 a b \<and> \<not> (x = y \<and> \<bar>x\<bar> = inf_units) | _ \<Rightarrow> False)"

definition float_matches :: "filter_op \<Rightarrow> u64 \<Rightarrow> u64 \<Rightarrow> bool" where
  "float_matches op v c = (case op of
       Eq \<Rightarrow> near_eq EPS64 (f64_num v) (f64_num c)
     | NotEq \<Rightarrow> far_from (f64_num v) (f64_num c)
     | Lt \<Rightarrow> partial_cmp (f64_num v) (f64_num c) = Some Less
     | LtEq \<Rightarrow> partial_cmp (f64_num v) (f64_num c) \<in> {Some Less, Some Equal}
     | Gt \<Rightarrow> partial_cmp (f64_num v) (f64_num c) = Some Greater
     | GtEq \<Rightarrow> partial_cmp (f64_num v) (f64_num c) \<in> {Some Greater, Some Equal}
     | _ \<Rightarrow> False)"

definition filter_float64_batch :: "u64 list \<Rightarrow> filter_op \<Rightarrow> u64 \<Rightarrow> simd_engine \<Rightarrow> simd_engine \<times> filter_result" where
  "filter_float64_batch values op c = filter_batches (\<lambda>v. float_matches op v c) values"

section \<open>Tuples\<close>

text \<open>\<open>value_lt\<close> and its siblings list the same pairs of types; \<open>want\<close> are the orderings they accept.\<close>

definition value_ordered :: "ordering set \<Rightarrow> sql_value \<Rightarrow> sql_value \<Rightarrow> bool" where
  "value_ordered want a b = (case (a, b) of
       (Int8 x, Int8 y) \<Rightarrow> cmp (sint x) (sint y) \<in> want
     | (Float8 x, Float8 y) \<Rightarrow> (case partial_cmp (f64_num x) (f64_num y) of Some c \<Rightarrow> c \<in> want | None \<Rightarrow> False)
     | (String x, String y) \<Rightarrow> cmp x y \<in> want
     | (Timestamp x, Timestamp y) \<Rightarrow> cmp x y \<in> want
     | _ \<Rightarrow> False)"

definition evaluate_predicate :: "sql_value \<Rightarrow> analyzed_predicate \<Rightarrow> bool" where
  "evaluate_predicate v p = (case ap_op p of
       PEq \<Rightarrow> value_eq v (ap_value p)
     | PNotEq \<Rightarrow> \<not> value_eq v (ap_value p)
     | PLt \<Rightarrow> value_ordered {Less} v (ap_value p)
     | PLtEq \<Rightarrow> value_ordered {Less, Equal} v (ap_value p)
     | PGt \<Rightarrow> value_ordered {Greater} v (ap_value p)
     | PGtEq \<Rightarrow> value_ordered {Greater, Equal} v (ap_value p)
     | PIsNull \<Rightarrow> v = Null
     | PIsNotNull \<Rightarrow> v \<noteq> Null
     | _ \<Rightarrow> True)"

definition filter_batch :: "sql_value list list \<Rightarrow> analyzed_predicate list \<Rightarrow> column list \<Rightarrow> simd_engine \<Rightarrow> simd_engine \<times> sql_value list list" where
  "filter_batch tuples preds schema e = (let result = filter (\<lambda>tp. list_all (\<lambda>p. case column_position (ap_column_name p) schema of
           Some idx \<Rightarrow> if idx < length tp then evaluate_predicate (tp ! idx) p else False
         | None \<Rightarrow> False) preds) tuples
     in (e\<lparr>se_stats := (se_stats e)\<lparr>ss_total_filters := ss_total_filters (se_stats e) + 1,
           ss_total_rows_filtered := ss_total_rows_filtered (se_stats e) + length tuples,
           ss_total_rows_matched := ss_total_rows_matched (se_stats e) + length result\<rparr>\<rparr>, result))"

section \<open>The loops are filters\<close>

definition matches_from :: "('a \<Rightarrow> bool) \<Rightarrow> nat \<Rightarrow> 'a list \<Rightarrow> nat list" where
  "matches_from keep idx xs = map (\<lambda>i. idx + i) (filter (\<lambda>i. keep (xs ! i)) [0..<length xs])"

lemma matches_from_Nil [simp]: "matches_from keep idx [] = []"
  by (simp add: matches_from_def)

lemma matches_from_append: "matches_from keep idx (xs @ ys) = matches_from keep idx xs @ matches_from keep (idx + length xs) ys"
proof -
  have u: "[0..<length xs + length ys] = [0..<length xs] @ map (\<lambda>i. length xs + i) [0..<length ys]"
    using upt_add_eq_append [of 0 "length xs" "length ys"] map_add_upt [of "length xs" "length ys"] by (simp add: add.commute)
  have "filter (\<lambda>i. keep ((xs @ ys) ! i)) [0..<length xs] = filter (\<lambda>i. keep (xs ! i)) [0..<length xs]"
    by (rule filter_cong) (auto simp: nth_append)
  then show ?thesis by (simp add: matches_from_def u filter_map comp_def add.assoc)
qed

lemma matches_from_Cons: "matches_from keep idx (x # xs) = (if keep x then [idx] else []) @ matches_from keep (idx + 1) xs"
  using matches_from_append [of keep idx "[x]" xs] by (simp add: matches_from_def)

lemma filter_loop_matches: "filter_loop keep idx xs r = r\<lparr>fr_matched_indices := fr_matched_indices r @ matches_from keep idx xs,
    fr_matched_count := fr_matched_count r + length (matches_from keep idx xs)\<rparr>"
  by (induction xs arbitrary: idx r) (auto simp: push_index_def matches_from_Cons)

lemma limit_loop_matches:
  assumes "fr_matched_count r = length (fr_matched_indices r)"
  shows "fst (limit_loop keep limit idx xs r) = (let ms = take (max 1 (limit - fr_matched_count r)) (matches_from keep idx xs) in
    r\<lparr>fr_matched_indices := fr_matched_indices r @ ms, fr_matched_count := fr_matched_count r + length ms\<rparr>)"
  using assms
proof (induction xs arbitrary: idx r)
  case (Cons x xs)
  show ?case
  proof (cases "keep x")
    case True
    let ?r = "push_index idx r"
    have c: "fr_matched_count ?r = length (fr_matched_indices ?r)" "fr_matched_count ?r = fr_matched_count r + 1"
      using Cons.prems by (simp_all add: push_index_def)
    show ?thesis
    proof (cases "limit \<le> fr_matched_count r + 1")
      case stop: True
      then have "max 1 (limit - fr_matched_count r) = 1" by simp
      then show ?thesis using True stop by (simp add: c(2) Let_def matches_from_Cons push_index_def)
    next
      case False
      then have "max 1 (limit - fr_matched_count r) = Suc (max 1 (limit - fr_matched_count ?r))" unfolding c(2) by simp
      then show ?thesis using True False Cons.IH [OF c(1)] by (simp add: c(2) Let_def matches_from_Cons push_index_def)
    qed
  next
    case False
    then show ?thesis using Cons by (simp add: matches_from_Cons)
  qed
qed simp

lemma batch_loop_matches:
  assumes "0 < n"
  shows "batch_loop keep n k (slice_chunks n xs) r = filter_loop keep (k * n) xs r"
  using assms
proof (induction n xs arbitrary: k r rule: slice_chunks.induct)
  case (1 n xs)
  show ?case
  proof (cases "xs = []")
    case False
    have "batch_loop keep n k (slice_chunks n xs) r = batch_loop keep n (k + 1) (slice_chunks n (drop n xs)) (filter_loop keep (k * n) (take n xs) r)"
      using False 1(2) by (subst slice_chunks.simps) simp
    also have "\<dots> = filter_loop keep ((k + 1) * n) (drop n xs) (filter_loop keep (k * n) (take n xs) r)" using False 1 by simp
    also have "\<dots> = filter_loop keep (k * n) (take n xs @ drop n xs) r"
    proof (cases "n \<le> length xs")
      case True
      then show ?thesis unfolding filter_loop_matches matches_from_append by (simp add: add.commute min_def)
    next
      case False
      then show ?thesis by simp
    qed
    finally show ?thesis by simp
  qed (simp add: slice_chunks.simps)
qed

section \<open>The AVX2 kernel\<close>

lemma movemask_bit:
  assumes "j < 32"
  shows "bit (movemask_epi8 v) j \<longleftrightarrow> bit (v ! (j div 4)) (8 * (j mod 4) + 7)"
proof -
  have "bit (foldr (\<lambda>i m. if bit (v ! (i div 4)) (8 * (i mod 4) + 7) then push_bit i 1 OR m else m) is (0 :: u32)) j
      \<longleftrightarrow> j \<in> set is \<and> bit (v ! (j div 4)) (8 * (j mod 4) + 7)" for "is"
    using assms by (induction "is") (auto simp: bit_or_iff bit_exp_iff)
  then show ?thesis using assms unfolding movemask_epi8_def by simp
qed

text \<open>A lane is all ones or all zeros, so its four mask bits are, too.\<close>

lemma lane_test:
  assumes "i < 8" "v ! i = (if b then -1 else 0)"
  shows "drop_bit (i * 4) (movemask_epi8 v) AND 0xF = 0xF \<longleftrightarrow> b"
proof -
  have m: "bit (movemask_epi8 v) (4 * i + k) \<longleftrightarrow> b" if "k < 4" for k
  proof -
    have "(4 * i + k) div 4 = i" "(4 * i + k) mod 4 = k" "4 * i + k < 32" using that assms(1) by simp_all
    then show ?thesis using movemask_bit [of "4 * i + k" v] assms(2) that by simp
  qed
  have F: "(0xF :: u32) = mask 4" by (simp add: mask_eq_exp_minus_1)
  have "drop_bit (i * 4) (movemask_epi8 v) AND 0xF = (if b then 0xF else 0)"
    unfolding F by (rule bit_word_eqI) (use m in \<open>auto simp: bit_simps mult.commute\<close>)
  then show ?thesis by simp
qed

lemma mask_lane:
  assumes "length data = 8" "i < 8"
  shows "int32_mask op data (set1_epi32 c) ! i = (if int_matches op (data ! i) c then -1 else 0)"
  using assms by (cases op) (auto simp: int32_mask_def int_matches_def cmpeq_epi32_def cmpgt_epi32_def xor_si256_def set1_epi32_def not_less not_le)

lemma chunk_matches:
  assumes "length data = 8"
  shows "map (\<lambda>i. offset + i) (filter (\<lambda>i. drop_bit (i * 4) (movemask_epi8 (int32_mask op data (set1_epi32 c))) AND 0xF = 0xF) [0..<8])
    = matches_from (\<lambda>v. int_matches op v c) offset data"
  unfolding matches_from_def assms
  by (intro arg_cong [where f = "map _"] filter_cong refl) (use lane_test mask_lane [OF assms] in auto)

lemma avx2_chunks_matches:
  assumes "8 * (k + m) \<le> length values"
  shows "avx2_chunks values op (set1_epi32 c) [k..<k + m] matched
    = Some (matched @ matches_from (\<lambda>v. int_matches op v c) (8 * k) (take (8 * m) (drop (8 * k) values)))"
  using assms
proof (induction m arbitrary: k matched)
  case (Suc m)
  let ?d = "take 8 (drop (8 * k) values)"
  have u: "[k..<k + Suc m] = k # [k + 1..<k + 1 + m]" by (simp add: upt_conv_Cons)
  have d: "loadu_si256 values (k * 8) = Some ?d" "length ?d = 8" using Suc.prems by (auto simp: loadu_si256_def mult.commute)
  have s: "take (8 * Suc m) (drop (8 * k) values) = ?d @ take (8 * m) (drop (8 * (k + 1)) values)"
    by (simp add: take_add add.commute)
  have "avx2_chunks values op (set1_epi32 c) [k..<k + Suc m] matched
      = avx2_chunks values op (set1_epi32 c) [k + 1..<k + 1 + m] (matched @ matches_from (\<lambda>v. int_matches op v c) (k * 8) ?d)"
    unfolding u by (simp add: d Let_def chunk_matches [OF d(2)] del: upt_Suc)
  also have "\<dots> = Some (matched @ matches_from (\<lambda>v. int_matches op v c) (8 * k) ?d
      @ matches_from (\<lambda>v. int_matches op v c) (8 * (k + 1)) (take (8 * m) (drop (8 * (k + 1)) values)))"
    using Suc.IH [of "k + 1"] Suc.prems by (simp add: mult.commute)
  finally show ?case unfolding s matches_from_append d(2) by (simp add: add.commute)
qed simp

section \<open>Properties\<close>

lemma matches_from_zero: "matches_from keep 0 xs = filter (\<lambda>i. keep (xs ! i)) [0..<length xs]"
  by (simp add: matches_from_def)

lemma enumerate_tail: "map fst (filter (\<lambda>(i, v). keep v) (enumerate k xs)) = matches_from keep k xs"
  by (induction xs arbitrary: k) (auto simp: matches_from_Cons)

lemma avx2_matches: "filter_int32_avx2 values op c = Some (filter (\<lambda>i. int_matches op (values ! i) c) [0..<length values])"
proof -
  let ?m = "\<lambda>v. int_matches op v c" and ?n = "8 * (length values div 8)"
  have n: "?n \<le> length values" by simp
  have chunks: "avx2_chunks values op (set1_epi32 c) [0..<length values div 8] [] = Some (matches_from ?m 0 (take ?n values))"
    using avx2_chunks_matches [of 0 "length values div 8" "values" op c "[]"] by simp
  have tail: "map fst (filter (\<lambda>(i, v). ?m v) (drop ?n (enumerate 0 values))) = matches_from ?m ?n (drop ?n values)"
    using enumerate_tail [of ?m ?n "drop ?n values"] by (simp add: enumerate_eq_zip drop_zip)
  have "matches_from ?m 0 (take ?n values) @ matches_from ?m ?n (drop ?n values) = matches_from ?m 0 values"
    using matches_from_append [of ?m 0 "take ?n values" "drop ?n values"] n by (simp add: min_def)
  then show ?thesis unfolding filter_int32_avx2_def Let_def chunks using tail by (simp add: matches_from_zero mult.commute)
qed

text \<open>
  C17. The vector kernel computes what the scalar loop computes: for every slice, operator and bound,
  with AVX2 or without, the filter of 32-bit integers returns the positions of exactly the matching
  values in order, and no vector load leaves the slice.
\<close>

theorem avx2_filter_exact:
  "\<exists>e'. filter_int32_batch_simd avx2 values op c e = Some (e',
     \<lparr>fr_matched_indices = filter (\<lambda>i. int_matches op (values ! i) c) [0..<length values],
      fr_matched_count = length (filter (\<lambda>i. int_matches op (values ! i) c) [0..<length values]), fr_total_count = length values\<rparr>)"
  by (simp add: filter_int32_batch_simd_def avx2_matches filter_int32_scalar_def filter_loop_matches matches_from_zero result_empty_def Let_def)

lemma int_matches_evaluate:
  assumes "op \<in> {Eq, NotEq, Lt, LtEq, Gt, GtEq}"
  shows "evaluate px (compare_pred k col op (Int8 c)) (Int8 v) = int_matches op v c"
proof -
  have "sint v = sint c \<longleftrightarrow> v = c" by (auto intro: signed_word_eqI)
  then show ?thesis using assms
    by (elim insertE) (auto simp: evaluate_def compare_pred_def int_matches_def compare_lt_def compare_gt_def compare_is_def int_value_def)
qed

text \<open>
  The batch loop over 64-bit integers returns the result of evaluating the predicate value by
  value, whatever the batch size the engine was made with.
\<close>

theorem int64_batch_is_column_filter:
  assumes "op \<in> {Eq, NotEq, Lt, LtEq, Gt, GtEq}"
  shows "filter_int64_batch values op c (with_batch_size n) = filter_column px (map Int8 values) (compare_pred k col op (Int8 c)) (with_batch_size n)"
proof -
  have "matches_from (\<lambda>v. int_matches op v c) 0 values = matches_from (evaluate px (compare_pred k col op (Int8 c))) 0 (map Int8 values)"
    unfolding matches_from_zero using int_matches_evaluate [OF assms] by (auto intro: filter_cong)
  then show ?thesis using batch_loop_matches [of "max n 64" "\<lambda>v. int_matches op v c" 0 "values"]
    by (simp add: filter_int64_batch_def filter_batches_def filter_column_def filter_all_def with_batch_size_def filter_loop_matches Let_def)
qed

theorem int64_batch_is_column_filter_witness:
  "fr_matched_indices (snd (filter_column no_parsers (map Int8 [5, -1]) (compare_pred 0 ''x'' Lt (Int8 3)) (with_batch_size 1)))
    = fr_matched_indices (snd (filter_int64_batch [5, -1] Lt 3 (with_batch_size 1)))"
  using int64_batch_is_column_filter [of Lt "[5, -1]" 3 1 no_parsers 0 "''x''"] by simp

text \<open>
  The row filter with a list of predicates is the filter with their conjunction, and with a limit
  it returns the first matches, but never fewer than one.
\<close>

theorem row_filters_agree:
  "fr_matched_indices (snd (filter_and_predicates px rows ps e)) = fr_matched_indices (snd (filter_rows px rows (And (map Single ps)) e))
   \<and> fr_matched_indices (snd (filter_rows_with_limit px rows p limit e)) = take (max 1 limit) (fr_matched_indices (snd (filter_rows px rows p e)))"
proof -
  have "passes_all px row ps = combined_evaluate px row (And (map Single ps))" for row
    by (induction ps) auto
  moreover have "matches_from (\<lambda>_. True) 0 rows = [0..<length rows]" by (simp add: matches_from_zero)
  ultimately have "fr_matched_indices (snd (filter_and_predicates px rows ps e)) = fr_matched_indices (snd (filter_rows px rows (And (map Single ps)) e))"
    by (cases ps) (simp_all add: filter_and_predicates_def filter_rows_def filter_all_def filter_loop_matches result_empty_def Let_def)
  moreover have "fr_matched_indices (snd (filter_rows_with_limit px rows p limit e)) = take (max 1 limit) (fr_matched_indices (snd (filter_rows px rows p e)))"
    using limit_loop_matches [of "result_empty\<lparr>fr_total_count := length rows\<rparr>" "\<lambda>row. combined_evaluate px row p" limit 0 rows]
    by (simp add: filter_rows_with_limit_def filter_limit_def filter_rows_def filter_all_def filter_loop_matches result_empty_def Let_def case_prod_unfold)
  ultimately show ?thesis by blast
qed

text \<open>
  The filter over tuples has no order for 32-bit integers: whatever the rows, a range predicate on an
  INTEGER column drops them all, where the predicate of the same name keeps the smaller ones.
\<close>

theorem filter_batch_drops_int4:
  fixes a b :: u32 and px :: parsers
  defines "schema \<equiv> [\<lparr>col_name = ''x'', col_type = TInt4\<rparr>]"
  defines "preds \<equiv> analyze_predicate px (BinaryExpr (Column None ''x'') OpLt (Literal (Int4 b))) schema []"
  shows "snd (filter_batch [[Int4 a]] preds schema e) = []
    \<and> (tuple_matches_filter_predicates px [Int4 a] (filters_of preds) \<longleftrightarrow> sint a < sint b)"
  by (simp add: schema_def preds_def filter_batch_def analyze_predicate_def extract_comparison_def comparison_op_def coerce_literal_for_column_def
      evaluate_predicate_def value_ordered_def Let_def single_match pred_eval compare_lt_def compare_is_def int_value_def)

end
