(* ===== verification/Zone_Summary.thy ===== *)
theory Zone_Summary
  imports Simd_Filter
begin

text \<open>
  Columnar zone summaries (\<^verbatim>\<open>src/src/storage/columnar_zone_summary.rs\<close>): the HyperLogLog sketch, the summary of
  a column, a block and a table, the decision whether a block can satisfy predicates, and merging.
  The hash of a value is a parameter. Sums, averages, most common values and histograms only feed
  estimates and are not modelled.
\<close>

section \<open>HyperLogLog\<close>

record hyperloglog =
  hl_precision :: nat
  hl_registers :: "nat list"
  hl_count :: nat

definition hll_new :: "nat \<Rightarrow> hyperloglog" where
  "hll_new precision = (let precision = min (max precision 4) 18 in
     \<lparr>hl_precision = precision, hl_registers = replicate (2 ^ precision) 0, hl_count = 0\<rparr>)"

definition leading_zeros :: "u64 \<Rightarrow> nat" where
  "leading_zeros w = length (takeWhile (\<lambda>i. \<not> bit w i) (rev [0..<64]))"

definition hll_index :: "nat \<Rightarrow> u64 \<Rightarrow> nat" where
  "hll_index precision h = unat (drop_bit (64 - precision) h)"

definition hll_rank :: "nat \<Rightarrow> u64 \<Rightarrow> nat" where
  "hll_rank precision h = leading_zeros (push_bit precision h) + 1"

definition hll_add :: "(sql_value \<Rightarrow> u64) \<Rightarrow> sql_value \<Rightarrow> hyperloglog \<Rightarrow> hyperloglog" where
  "hll_add hash_of v s = (let h = hash_of v; register_idx = hll_index (hl_precision s) h; lz = hll_rank (hl_precision s) h;
       s = (if lz > hl_registers s ! register_idx then s\<lparr>hl_registers := (hl_registers s)[register_idx := lz]\<rparr> else s)
     in s\<lparr>hl_count := hl_count s + 1\<rparr>)"

definition hll_merge :: "hyperloglog \<Rightarrow> hyperloglog \<Rightarrow> hyperloglog" where
  "hll_merge other s = (if hl_precision s \<noteq> hl_precision other then s
     else s\<lparr>hl_registers := fold (\<lambda>i rs. if hl_registers other ! i > rs ! i then rs[i := hl_registers other ! i] else rs)
              [0..<length (hl_registers s)] (hl_registers s),
            hl_count := hl_count s + hl_count other\<rparr>)"

section \<open>Columns\<close>

record column_summary =
  cz_column_name :: string
  cz_min :: "sql_value option"
  cz_max :: "sql_value option"
  cz_null_count :: nat
  cz_row_count :: nat
  cz_hll :: hyperloglog

definition summary_new :: "string \<Rightarrow> column_summary" where
  "summary_new c = \<lparr>cz_column_name = c, cz_min = None, cz_max = None, cz_null_count = 0, cz_row_count = 0, cz_hll = hll_new 12\<rparr>"

text \<open>The comparisons of a summary are those of the filter over tuples.\<close>

definition update_min_max :: "sql_value \<Rightarrow> column_summary \<Rightarrow> column_summary" where
  "update_min_max v s = s\<lparr>
     cz_min := (case cz_min s of None \<Rightarrow> Some v | Some m \<Rightarrow> if value_ordered {Less} v m then Some v else Some m),
     cz_max := (case cz_max s of None \<Rightarrow> Some v | Some m \<Rightarrow> if value_ordered {Greater} v m then Some v else Some m)\<rparr>"

definition update_incremental :: "(sql_value \<Rightarrow> u64) \<Rightarrow> sql_value \<Rightarrow> column_summary \<Rightarrow> column_summary" where
  "update_incremental hash_of v s = (let s = s\<lparr>cz_row_count := cz_row_count s + 1\<rparr> in
     if v = Null then s\<lparr>cz_null_count := cz_null_count s + 1\<rparr>
     else let s = update_min_max v s in s\<lparr>cz_hll := hll_add hash_of v (cz_hll s)\<rparr>)"

datatype block_decision = Skip | Scan | FullMatch
datatype summary_match = Impossible | Partial | Full

definition opt_test :: "(sql_value \<Rightarrow> bool) \<Rightarrow> sql_value option \<Rightarrow> bool" where
  "opt_test test v = (case v of Some x \<Rightarrow> test x | None \<Rightarrow> False)"

definition evaluate_predicate_against_summary :: "analyzed_predicate \<Rightarrow> column_summary \<Rightarrow> summary_match" where
  "evaluate_predicate_against_summary p s = (let w = ap_value p in case ap_op p of
       PEq \<Rightarrow> (case (cz_min s, cz_max s) of
           (Some lo, Some hi) \<Rightarrow> if value_ordered {Less} w lo \<or> value_ordered {Greater} w hi then Impossible else Partial
         | _ \<Rightarrow> Partial)
     | PLt \<Rightarrow> if opt_test (value_ordered {Less, Equal} w) (cz_min s) then Impossible
              else if opt_test (value_ordered {Greater} w) (cz_max s) then Full else Partial
     | PLtEq \<Rightarrow> if opt_test (value_ordered {Less} w) (cz_min s) then Impossible
              else if opt_test (value_ordered {Greater, Equal} w) (cz_max s) then Full else Partial
     | PGt \<Rightarrow> if opt_test (value_ordered {Greater, Equal} w) (cz_max s) then Impossible
              else if opt_test (value_ordered {Less} w) (cz_min s) then Full else Partial
     | PGtEq \<Rightarrow> if opt_test (value_ordered {Greater} w) (cz_max s) then Impossible
              else if opt_test (value_ordered {Less, Equal} w) (cz_min s) then Full else Partial
     | PNotEq \<Rightarrow> Partial
     | PIsNull \<Rightarrow> if cz_null_count s = 0 then Impossible else if cz_null_count s = cz_row_count s then Full else Partial
     | PIsNotNull \<Rightarrow> if cz_null_count s = cz_row_count s then Impossible else if cz_null_count s = 0 then Full else Partial
     | _ \<Rightarrow> Partial)"

section \<open>Blocks and tables\<close>

record block_summary =
  zb_block_id :: nat
  zb_first_row_id :: nat
  zb_last_row_id :: nat
  zb_row_count :: nat
  zb_columns :: "(string \<times> column_summary) list"

definition block_summary_new :: "nat \<Rightarrow> nat \<Rightarrow> block_summary" where
  "block_summary_new block_id first_row_id =
     \<lparr>zb_block_id = block_id, zb_first_row_id = first_row_id, zb_last_row_id = first_row_id, zb_row_count = 0, zb_columns = []\<rparr>"

definition summary_entry :: "(sql_value \<Rightarrow> u64) \<Rightarrow> string \<times> sql_value \<Rightarrow> (string \<times> column_summary) list \<Rightarrow> (string \<times> column_summary) list" where
  "summary_entry hash_of cv cols = (case cv of (c, v) \<Rightarrow>
     AList.update c (update_incremental hash_of v (case map_of cols c of Some s \<Rightarrow> s | None \<Rightarrow> summary_new c)) cols)"

definition update_on_insert :: "(sql_value \<Rightarrow> u64) \<Rightarrow> nat \<Rightarrow> (string \<times> sql_value) list \<Rightarrow> block_summary \<Rightarrow> block_summary" where
  "update_on_insert hash_of row_id values b = b\<lparr>zb_row_count := zb_row_count b + 1, zb_last_row_id := row_id,
     zb_columns := fold (summary_entry hash_of) values (zb_columns b)\<rparr>"

fun satisfy_loop :: "(string \<times> column_summary) list \<Rightarrow> analyzed_predicate list \<Rightarrow> bool \<Rightarrow> block_decision" where
  "satisfy_loop cols [] all_full_match = (if all_full_match then FullMatch else Scan)"
| "satisfy_loop cols (p # preds) all_full_match = (case map_of cols (ap_column_name p) of
       Some s \<Rightarrow> (case evaluate_predicate_against_summary p s of
           Impossible \<Rightarrow> Skip
         | Partial \<Rightarrow> satisfy_loop cols preds False
         | Full \<Rightarrow> satisfy_loop cols preds all_full_match)
     | None \<Rightarrow> satisfy_loop cols preds False)"

definition can_satisfy :: "analyzed_predicate list \<Rightarrow> block_summary \<Rightarrow> block_decision" where
  "can_satisfy preds b = satisfy_loop (zb_columns b) preds True"

definition merge_column :: "column_summary \<Rightarrow> column_summary \<Rightarrow> column_summary" where
  "merge_column other s = s\<lparr>
     cz_min := (case cz_min other of None \<Rightarrow> cz_min s | Some m \<Rightarrow>
        (case cz_min s of None \<Rightarrow> Some m | Some cur \<Rightarrow> if value_ordered {Less} m cur then Some m else Some cur)),
     cz_max := (case cz_max other of None \<Rightarrow> cz_max s | Some m \<Rightarrow>
        (case cz_max s of None \<Rightarrow> Some m | Some cur \<Rightarrow> if value_ordered {Greater} m cur then Some m else Some cur)),
     cz_null_count := cz_null_count s + cz_null_count other,
     cz_row_count := cz_row_count s + cz_row_count other,
     cz_hll := hll_merge (cz_hll other) (cz_hll s)\<rparr>"

text \<open>The columns of the other block in some order, the order its map yields.\<close>

definition block_merge :: "block_summary \<Rightarrow> block_summary \<Rightarrow> block_summary" where
  "block_merge other b = b\<lparr>zb_row_count := zb_row_count b + zb_row_count other, zb_last_row_id := max (zb_last_row_id b) (zb_last_row_id other),
     zb_columns := fold (\<lambda>(c, oc) cols. AList.update c (merge_column oc (case map_of cols c of Some s \<Rightarrow> s | None \<Rightarrow> summary_new c)) cols)
       (zb_columns other) (zb_columns b)\<rparr>"

record table_summaries =
  zt_table_name :: string
  zt_block_size :: nat
  zt_blocks :: "(nat \<times> block_summary) list"
  zt_total_rows :: nat

definition summaries_new :: "string \<Rightarrow> nat \<Rightarrow> table_summaries" where
  "summaries_new t block_size = \<lparr>zt_table_name = t, zt_block_size = block_size, zt_blocks = [], zt_total_rows = 0\<rparr>"

text \<open>\<open>get_block_for_row\<close> divides by the block size: \<open>None\<close> when it is zero.\<close>

definition get_block_for_row :: "nat \<Rightarrow> table_summaries \<Rightarrow> (nat \<times> block_summary) option" where
  "get_block_for_row row_id z = (if zt_block_size z = 0 then None
     else let block_id = row_id div zt_block_size z; first_row_id = block_id * zt_block_size z in
       Some (block_id, case map_of (zt_blocks z) block_id of Some b \<Rightarrow> b | None \<Rightarrow> block_summary_new block_id first_row_id))"

definition summaries_on_insert :: "(sql_value \<Rightarrow> u64) \<Rightarrow> nat \<Rightarrow> (string \<times> sql_value) list \<Rightarrow> table_summaries \<Rightarrow> table_summaries option" where
  "summaries_on_insert hash_of row_id values z = map_option (\<lambda>(block_id, b).
     z\<lparr>zt_blocks := AList.update block_id (update_on_insert hash_of row_id values b) (zt_blocks z), zt_total_rows := zt_total_rows z + 1\<rparr>)
     (get_block_for_row row_id z)"

definition get_candidate_blocks :: "analyzed_predicate list \<Rightarrow> table_summaries \<Rightarrow> nat list" where
  "get_candidate_blocks preds z = map fst (filter (\<lambda>(_, b). can_satisfy preds b \<noteq> Skip) (zt_blocks z))"

section \<open>Merging sketches\<close>

definition hll_ok :: "hyperloglog \<Rightarrow> bool" where
  "hll_ok s \<longleftrightarrow> 0 < hl_precision s \<and> hl_precision s \<le> 18 \<and> length (hl_registers s) = 2 ^ hl_precision s"

text \<open>The register of a bucket: the largest rank of the values that fall into it.\<close>

definition bucket_max :: "(sql_value \<Rightarrow> u64) \<Rightarrow> nat \<Rightarrow> sql_value list \<Rightarrow> nat \<Rightarrow> nat" where
  "bucket_max hash_of p vs i = fold max (map (hll_rank p \<circ> hash_of) (filter (\<lambda>v. hll_index p (hash_of v) = i) vs)) 0"

lemma hll_index_bound: "0 < p \<Longrightarrow> p \<le> 18 \<Longrightarrow> hll_index p h < 2 ^ p"
proof -
  assume p: "0 < p" "p \<le> 18"
  have "unat h < 2 ^ (64 - p) * 2 ^ p" using unsigned_less [of h] p by (simp flip: power_add)
  moreover have "unat (drop_bit (64 - p) h) = unat h div 2 ^ (64 - p)" unfolding unat_drop_bit_eq by (rule drop_bit_eq_div)
  ultimately show ?thesis by (simp add: hll_index_def less_mult_imp_div_less mult.commute)
qed

lemma hll_new_ok: "hll_ok (hll_new p)"
  by (simp add: hll_ok_def hll_new_def Let_def)

lemma hll_add_ok: "hll_ok s \<Longrightarrow> hll_ok (hll_add hash_of v s)"
  by (simp add: hll_ok_def hll_add_def Let_def)

lemma hll_add_at:
  assumes "hll_ok s" "i < 2 ^ hl_precision s"
  shows "hl_registers (hll_add hash_of v s) ! i = (if hll_index (hl_precision s) (hash_of v) = i
    then max (hl_registers s ! i) (hll_rank (hl_precision s) (hash_of v)) else hl_registers s ! i)"
  using assms by (auto simp: hll_add_def hll_ok_def Let_def nth_list_update)

lemma hll_merge_at:
  assumes "hll_ok s" "hll_ok t" "hl_precision s = hl_precision t" "i < 2 ^ hl_precision s"
  shows "hl_registers (hll_merge t s) ! i = max (hl_registers s ! i) (hl_registers t ! i)"
proof -
  let ?f = "\<lambda>i rs. if hl_registers t ! i > rs ! i then rs[i := hl_registers t ! i] else rs"
  have "length (fold ?f [0..<n] rs) = length rs \<and> (\<forall>i < length rs. fold ?f [0..<n] rs ! i = (if i < n then max (rs ! i) (hl_registers t ! i) else rs ! i))"
    if "n \<le> length rs" for n and rs :: "nat list"
    using that by (induction n) (auto simp: nth_list_update less_Suc_eq)
  from this [of "length (hl_registers s)" "hl_registers s"] show ?thesis using assms by (simp add: hll_merge_def hll_ok_def)
qed

lemma hll_merge_shape: "hl_precision (hll_merge t s) = hl_precision s" "length (hl_registers (hll_merge t s)) = length (hl_registers s)"
proof -
  let ?f = "\<lambda>i rs. if hl_registers t ! i > rs ! i then rs[i := hl_registers t ! i] else rs"
  have "length (fold ?f is rs) = length rs" for "is" and rs :: "nat list" by (induction "is" arbitrary: rs) simp_all
  then show "length (hl_registers (hll_merge t s)) = length (hl_registers s)" by (simp add: hll_merge_def)
qed (simp add: hll_merge_def)

lemma fold_max_start: "fold max xs (k :: nat) = max k (fold max xs 0)"
proof (induction xs arbitrary: k)
  case (Cons x xs)
  show ?case using Cons [of "max x k"] Cons [of x] by (simp add: max.assoc max.left_commute)
qed simp

lemma hll_fold:
  assumes "hll_ok s"
  shows "hll_ok (fold (hll_add hash_of) vs s) \<and> hl_precision (fold (hll_add hash_of) vs s) = hl_precision s
    \<and> hl_count (fold (hll_add hash_of) vs s) = hl_count s + length vs
    \<and> (\<forall>i < 2 ^ hl_precision s. hl_registers (fold (hll_add hash_of) vs s) ! i
        = max (hl_registers s ! i) (bucket_max hash_of (hl_precision s) vs i))"
  using assms
proof (induction vs arbitrary: s)
  case (Cons v vs)
  let ?s = "hll_add hash_of v s"
  have s: "hll_ok ?s" "hl_precision ?s = hl_precision s" "hl_count ?s = hl_count s + 1"
    using Cons.prems hll_add_ok by (simp_all add: hll_add_def Let_def)
  have b: "bucket_max hash_of p (v # vs) i = (if hll_index p (hash_of v) = i then max (hll_rank p (hash_of v)) (bucket_max hash_of p vs i)
      else bucket_max hash_of p vs i)" for p i
    by (simp add: bucket_max_def fold_max_start [of _ "hll_rank p (hash_of v)"])
  show ?case using Cons.IH [OF s(1)] s(2,3) hll_add_at [OF Cons.prems] unfolding b by (auto simp: max.assoc)
qed (simp add: bucket_max_def)

section \<open>What a summary says\<close>

text \<open>
  A family of values that the summary comparisons order by a key. The lemmas are about the summary
  of a list of values: its bounds enclose them, so an impossible predicate matches none of them and
  a full one all that are not NULL.
\<close>

locale summary_family =
  fixes S :: "sql_value \<Rightarrow> bool" and key :: "sql_value \<Rightarrow> 'k::linorder"
  assumes not_null: "S v \<Longrightarrow> v \<noteq> Null"
    and ordered_key: "S a \<Longrightarrow> S b \<Longrightarrow> value_ordered want a b \<longleftrightarrow> cmp (key a) (key b) \<in> want"
    and eq_key: "S a \<Longrightarrow> S b \<Longrightarrow> value_eq a b \<Longrightarrow> key a = key b"
begin

definition bounds :: "column_summary \<Rightarrow> sql_value list \<Rightarrow> bool" where
  "bounds s vs \<longleftrightarrow> (case cz_min s of None \<Rightarrow> \<forall>v \<in> set vs. v = Null | Some m \<Rightarrow> S m \<and> (\<forall>v \<in> set vs. v \<noteq> Null \<longrightarrow> key m \<le> key v))
     \<and> (case cz_max s of None \<Rightarrow> \<forall>v \<in> set vs. v = Null | Some m \<Rightarrow> S m \<and> (\<forall>v \<in> set vs. v \<noteq> Null \<longrightarrow> key v \<le> key m))
     \<and> cz_null_count s = length (filter (\<lambda>v. v = Null) vs) \<and> cz_row_count s = length vs"

lemma bounds_update:
  assumes "bounds s vs" "v = Null \<or> S v"
  shows "bounds (update_incremental hash_of v s) (vs @ [v])"
proof (cases "v = Null")
  case True
  then show ?thesis using assms(1) by (auto simp: bounds_def update_incremental_def Let_def split: option.splits)
next
  case False
  then have v: "S v" using assms(2) by simp
  have lo: "case cz_min (update_incremental hash_of v s) of None \<Rightarrow> False
      | Some m \<Rightarrow> S m \<and> (\<forall>x \<in> set (vs @ [v]). x \<noteq> Null \<longrightarrow> key m \<le> key x)"
    using assms(1) v False ordered_key [OF v, of _ "{Less}"]
    by (auto simp: bounds_def update_incremental_def update_min_max_def Let_def split: option.splits)
  have hi: "case cz_max (update_incremental hash_of v s) of None \<Rightarrow> False
      | Some m \<Rightarrow> S m \<and> (\<forall>x \<in> set (vs @ [v]). x \<noteq> Null \<longrightarrow> key x \<le> key m)"
    using assms(1) v False ordered_key [OF v, of _ "{Greater}"]
    by (auto simp: bounds_def update_incremental_def update_min_max_def Let_def split: option.splits)
  have "cz_null_count (update_incremental hash_of v s) = length (filter (\<lambda>v. v = Null) (vs @ [v]))"
    "cz_row_count (update_incremental hash_of v s) = length (vs @ [v])"
    using assms(1) False by (simp_all add: bounds_def update_incremental_def update_min_max_def Let_def)
  then show ?thesis using lo hi by (auto simp: bounds_def split: option.splits)
qed

lemma bounds_fold: "\<forall>v \<in> set vs. v = Null \<or> S v \<Longrightarrow> bounds (fold (update_incremental hash_of) vs (summary_new c)) vs"
  by (induction vs rule: rev_induct) (simp_all add: bounds_update, simp add: bounds_def summary_new_def)

lemma null_count_all: "v \<in> set vs \<Longrightarrow> length (filter (\<lambda>v. v = Null) vs) = length vs \<Longrightarrow> v = Null"
  by (metis (mono_tags, lifting) filter_id_conv length_filter_less less_irrefl)

lemma impossible_sound:
  assumes b: "bounds s vs" and v: "v \<in> set vs" "v = Null \<or> S v" and p: "S (ap_value p) \<or> ap_op p \<in> {PIsNull, PIsNotNull}"
    and i: "evaluate_predicate_against_summary p s = Impossible"
  shows "\<not> evaluate_predicate v p"
proof (cases "ap_op p \<in> {PIsNull, PIsNotNull}")
  case True
  then show ?thesis using b v(1) i null_count_all [OF v(1)]
    by (auto simp: evaluate_predicate_against_summary_def evaluate_predicate_def bounds_def Let_def filter_empty_conv split: if_splits)
next
  case False
  then have w: "S (ap_value p)" using p by simp
  show ?thesis
  proof (cases "v = Null")
    case True
    then show ?thesis using False w not_null [OF w] i
      by (cases "ap_op p") (auto simp: evaluate_predicate_def value_ordered_def evaluate_predicate_against_summary_def)
  next
    case nn: False
    then have sv: "S v" using v(2) by simp
    obtain lo hi where l: "cz_min s = Some lo" "cz_max s = Some hi" "S lo" "S hi" "key lo \<le> key v" "key v \<le> key hi"
      using b v(1) nn by (auto simp: bounds_def split: option.splits)
    show ?thesis using False i l sv w eq_key [OF sv w]
      by (cases "ap_op p") (auto simp: evaluate_predicate_against_summary_def evaluate_predicate_def opt_test_def ordered_key Let_def split: if_splits)
  qed
qed

lemma full_sound:
  assumes b: "bounds s vs" and v: "v \<in> set vs" "S v" and p: "S (ap_value p) \<or> ap_op p \<in> {PIsNull, PIsNotNull}"
    and f: "evaluate_predicate_against_summary p s = Full"
  shows "evaluate_predicate v p"
proof (cases "ap_op p \<in> {PIsNull, PIsNotNull}")
  case True
  then show ?thesis using b v f not_null [OF v(2)] null_count_all [OF v(1)]
    by (auto simp: evaluate_predicate_against_summary_def evaluate_predicate_def bounds_def Let_def split: if_splits)
next
  case False
  then have w: "S (ap_value p)" using p by simp
  obtain lo hi where l: "cz_min s = Some lo" "cz_max s = Some hi" "S lo" "S hi" "key lo \<le> key v" "key v \<le> key hi"
    using b v not_null [OF v(2)] by (auto simp: bounds_def split: option.splits)
  show ?thesis using False f l v(2) w
    by (cases "ap_op p") (auto simp: evaluate_predicate_against_summary_def evaluate_predicate_def opt_test_def ordered_key Let_def split: if_splits)
qed

end

text \<open>The families: 64-bit integers, floats that are numbers, texts and timestamps.\<close>

definition int8_of :: "sql_value \<Rightarrow> int" where
  "int8_of v = (case v of Int8 i \<Rightarrow> sint i | _ \<Rightarrow> 0)"

definition float8_of :: "sql_value \<Rightarrow> int option" where
  "float8_of v = (case v of Float8 f \<Rightarrow> f64_num f | _ \<Rightarrow> None)"

definition string_of :: "sql_value \<Rightarrow> bytes" where
  "string_of v = (case v of String s \<Rightarrow> s | _ \<Rightarrow> [])"

definition timestamp_of :: "sql_value \<Rightarrow> int" where
  "timestamp_of v = (case v of Timestamp t \<Rightarrow> t | _ \<Rightarrow> 0)"

interpretation int8s: summary_family "\<lambda>v. \<exists>i. v = Int8 i" int8_of
  by unfold_locales (auto simp: value_ordered_def int8_of_def)

interpretation float8s: summary_family "\<lambda>v. \<exists>x. float8_of v = Some x" "\<lambda>v. the (float8_of v)"
  by unfold_locales
    (auto simp: value_ordered_def float8_of_def float_eq_def partial_cmp_def split: sql_value.splits)

interpretation strings: summary_family "\<lambda>v. \<exists>s. v = String s" string_of
  by unfold_locales (auto simp: value_ordered_def string_of_def)

interpretation timestamps: summary_family "\<lambda>v. \<exists>t. v = Timestamp t" timestamp_of
  by unfold_locales (auto simp: value_ordered_def timestamp_of_def)

text \<open>The family of a value, if it has one.\<close>

definition summary_class :: "sql_value \<Rightarrow> nat option" where
  "summary_class v = (case v of Int8 _ \<Rightarrow> Some 0 | Float8 f \<Rightarrow> (case f64_num f of Some _ \<Rightarrow> Some 1 | None \<Rightarrow> None)
     | String _ \<Rightarrow> Some 2 | Timestamp _ \<Rightarrow> Some 3 | _ \<Rightarrow> None)"

lemma summary_class_family:
  "summary_class v = Some f \<longleftrightarrow> f = 0 \<and> (\<exists>i. v = Int8 i) \<or> f = 1 \<and> (\<exists>x. float8_of v = Some x)
     \<or> f = 2 \<and> (\<exists>s. v = String s) \<or> f = 3 \<and> (\<exists>t. v = Timestamp t)"
  by (cases v) (auto simp: summary_class_def float8_of_def split: option.splits)

text \<open>A predicate that the summary of the values of one family can decide.\<close>

definition decidable_by :: "nat \<Rightarrow> analyzed_predicate \<Rightarrow> bool" where
  "decidable_by f p \<longleftrightarrow> summary_class (ap_value p) = Some f \<or> ap_op p \<in> {PIsNull, PIsNotNull}"

lemma summary_sound:
  fixes hash_of :: "sql_value \<Rightarrow> u64" and c :: string
  assumes vs: "\<forall>v \<in> set vs. v = Null \<or> summary_class v = Some f" and v: "v \<in> set vs" and p: "decidable_by f p" and f: "f < 4"
  defines "s \<equiv> fold (update_incremental hash_of) vs (summary_new c)"
  shows "(evaluate_predicate_against_summary p s = Impossible \<longrightarrow> \<not> evaluate_predicate v p)
    \<and> (evaluate_predicate_against_summary p s = Full \<longrightarrow> v \<noteq> Null \<longrightarrow> evaluate_predicate v p)"
proof -
  consider "f = 0" | "f = 1" | "f = 2" | "f = 3" using f by linarith
  then show ?thesis
  proof cases
    case 1
    have "int8s.bounds s vs" unfolding s_def by (rule int8s.bounds_fold) (use vs 1 in \<open>auto simp: summary_class_family\<close>)
    from int8s.impossible_sound [OF this v] int8s.full_sound [OF this v] show ?thesis
      using vs v p 1 by (auto simp: summary_class_family decidable_by_def)
  next
    case 2
    have "float8s.bounds s vs" unfolding s_def by (rule float8s.bounds_fold) (use vs 2 in \<open>auto simp: summary_class_family\<close>)
    from float8s.impossible_sound [OF this v] float8s.full_sound [OF this v] show ?thesis
      using vs v p 2 by (auto simp: summary_class_family decidable_by_def)
  next
    case 3
    have "strings.bounds s vs" unfolding s_def by (rule strings.bounds_fold) (use vs 3 in \<open>auto simp: summary_class_family\<close>)
    from strings.impossible_sound [OF this v] strings.full_sound [OF this v] show ?thesis
      using vs v p 3 by (auto simp: summary_class_family decidable_by_def)
  next
    case 4
    have "timestamps.bounds s vs" unfolding s_def by (rule timestamps.bounds_fold) (use vs 4 in \<open>auto simp: summary_class_family\<close>)
    from timestamps.impossible_sound [OF this v] timestamps.full_sound [OF this v] show ?thesis
      using vs v p 4 by (auto simp: summary_class_family decidable_by_def)
  qed
qed

section \<open>The summaries of a table\<close>

abbreviation add_summaries :: "(sql_value \<Rightarrow> u64) \<Rightarrow> string list \<Rightarrow> sql_value list \<Rightarrow> (string \<times> column_summary) list \<Rightarrow> (string \<times> column_summary) list" where
  "add_summaries hash_of \<equiv> add_entries (update_incremental hash_of) summary_new"

fun summaries_insert_all :: "(sql_value \<Rightarrow> u64) \<Rightarrow> string list \<Rightarrow> nat \<Rightarrow> sql_value list list \<Rightarrow> table_summaries \<Rightarrow> table_summaries option" where
  "summaries_insert_all hash_of names row_id [] z = Some z"
| "summaries_insert_all hash_of names row_id (tp # tuples) z =
     Option.bind (summaries_on_insert hash_of row_id (zip names tp) z) (summaries_insert_all hash_of names (row_id + 1) tuples)"

definition summary_shape :: "(sql_value \<Rightarrow> u64) \<Rightarrow> string list \<Rightarrow> nat \<Rightarrow> sql_value list list \<Rightarrow> table_summaries \<Rightarrow> bool" where
  "summary_shape hash_of names bs rows z \<longleftrightarrow> zt_block_size z = bs \<and> (\<forall>j. case map_of (zt_blocks z) j of
       Some b \<Rightarrow> zb_columns b = fold (add_summaries hash_of names) (block_rows bs j rows) []
     | None \<Rightarrow> block_rows bs j rows = [])"

lemma summary_entry_update: "summary_entry hash_of = entry_update (update_incremental hash_of) summary_new"
  by (simp add: fun_eq_iff summary_entry_def entry_update_def)

lemma summary_shape_add:
  assumes "summary_shape hash_of names bs rows z" "0 < bs"
  shows "\<exists>z'. summaries_on_insert hash_of (length rows) (zip names tp) z = Some z' \<and> summary_shape hash_of names bs (rows @ [tp]) z'"
proof -
  let ?j = "length rows div bs"
  let ?b = "case map_of (zt_blocks z) ?j of Some b \<Rightarrow> b | None \<Rightarrow> block_summary_new ?j (?j * bs)"
  have at: "case map_of (zt_blocks z) j of Some b \<Rightarrow> zb_columns b = fold (add_summaries hash_of names) (block_rows bs j rows) []
      | None \<Rightarrow> block_rows bs j rows = []" for j
    using assms(1) unfolding summary_shape_def by blast
  have b: "zb_columns ?b = fold (add_summaries hash_of names) (block_rows bs ?j rows) []"
    using at [of ?j] by (simp add: block_summary_new_def split: option.splits)
  have z: "zt_block_size z = bs" using assms(1) by (simp add: summary_shape_def)
  have "summaries_on_insert hash_of (length rows) (zip names tp) z = Some (z\<lparr>zt_blocks := AList.update ?j
      (update_on_insert hash_of (length rows) (zip names tp) ?b) (zt_blocks z), zt_total_rows := zt_total_rows z + 1\<rparr>)"
    using assms(2) by (simp add: summaries_on_insert_def get_block_for_row_def z Let_def)
  moreover have "summary_shape hash_of names bs (rows @ [tp]) (z\<lparr>zt_blocks := AList.update ?j
      (update_on_insert hash_of (length rows) (zip names tp) ?b) (zt_blocks z), zt_total_rows := zt_total_rows z + 1\<rparr>)"
    unfolding summary_shape_def
  proof (intro conjI allI)
    fix j
    show "case map_of (zt_blocks (z\<lparr>zt_blocks := AList.update ?j (update_on_insert hash_of (length rows) (zip names tp) ?b) (zt_blocks z),
          zt_total_rows := zt_total_rows z + 1\<rparr>)) j of
        Some b \<Rightarrow> zb_columns b = fold (add_summaries hash_of names) (block_rows bs j (rows @ [tp])) []
      | None \<Rightarrow> block_rows bs j (rows @ [tp]) = []"
      unfolding block_rows_snoc using at [of j] b by (cases "j = ?j") (simp_all add: update_conv' update_on_insert_def summary_entry_update add_entries_def split: option.splits)
  qed (simp add: z)
  ultimately show ?thesis by blast
qed

lemma summaries_insert_shape:
  assumes "summary_shape hash_of names bs rows z" "0 < bs"
  shows "\<exists>z'. summaries_insert_all hash_of names (length rows) tuples z = Some z' \<and> summary_shape hash_of names bs (rows @ tuples) z'"
  using assms
proof (induction tuples arbitrary: rows z)
  case (Cons tp tuples)
  obtain z' where z': "summaries_on_insert hash_of (length rows) (zip names tp) z = Some z'" "summary_shape hash_of names bs (rows @ [tp]) z'"
    using summary_shape_add [OF Cons.prems] by blast
  then show ?case using Cons.IH [OF z'(2) Cons.prems(2)] by simp
qed simp

lemma summaries_built:
  assumes "0 < bs"
  shows "\<exists>z. summaries_insert_all hash_of names 0 tuples (summaries_new t bs) = Some z \<and> summary_shape hash_of names bs tuples z"
proof -
  have "summary_shape hash_of names bs [] (summaries_new t bs)" by (simp add: summary_shape_def summaries_new_def block_rows_def)
  from summaries_insert_shape [OF this assms, of tuples] show ?thesis by simp
qed

section \<open>Decisions\<close>

definition decision_fits :: "string list \<Rightarrow> sql_value list list \<Rightarrow> analyzed_predicate \<Rightarrow> bool" where
  "decision_fits names tuples p \<longleftrightarrow> (\<exists>i < length names. ap_column_name p = names ! i \<and> (\<exists>f < 4. decidable_by f p
     \<and> (\<forall>tp \<in> set tuples. tp ! i = Null \<or> summary_class (tp ! i) = Some f)))"

lemma column_summary_get:
  assumes "distinct names" "\<forall>tp \<in> set rows. length tp = length names" "i < length names" "rows \<noteq> []"
  shows "map_of (fold (add_summaries hash_of names) rows []) (names ! i)
    = Some (fold (update_incremental hash_of) (map (\<lambda>tp. tp ! i) rows) (summary_new (names ! i)))"
  using fold_entries_get [OF assms(1-3)] assms(4) by simp

lemma decision_sound:
  fixes hash_of :: "sql_value \<Rightarrow> u64"
  assumes "distinct names" "\<forall>tp \<in> set rows. length tp = length names" "\<forall>p \<in> set preds. decision_fits names rows p" "tp \<in> set rows"
  defines "cols \<equiv> fold (add_summaries hash_of names) rows []"
  defines "holds \<equiv> \<lambda>p. \<exists>i < length names. ap_column_name p = names ! i \<and> evaluate_predicate (tp ! i) p"
  shows "(satisfy_loop cols preds full = Skip \<longrightarrow> (\<exists>p \<in> set preds. \<not> holds p))
    \<and> (satisfy_loop cols preds full = FullMatch \<longrightarrow> Null \<notin> set tp \<longrightarrow> full \<and> (\<forall>p \<in> set preds. holds p))"
  using assms(3)
proof (induction preds arbitrary: full)
  case (Cons p preds)
  obtain i f where i: "i < length names" "ap_column_name p = names ! i" "decidable_by f p" "f < 4"
      "\<forall>tp \<in> set rows. tp ! i = Null \<or> summary_class (tp ! i) = Some f"
    using Cons.prems by (auto simp: decision_fits_def)
  let ?s = "fold (update_incremental hash_of) (map (\<lambda>tp. tp ! i) rows) (summary_new (names ! i))"
  have get: "map_of cols (ap_column_name p) = Some ?s"
    unfolding cols_def i(2) by (rule column_summary_get [OF assms(1,2) i(1)]) (use assms(4) in auto)
  have h: "holds p \<longleftrightarrow> evaluate_predicate (tp ! i) p" unfolding holds_def using i(1,2) assms(1) by (auto simp: nth_eq_iff_index_eq)
  have sound: "(evaluate_predicate_against_summary p ?s = Impossible \<longrightarrow> \<not> evaluate_predicate (tp ! i) p)
      \<and> (evaluate_predicate_against_summary p ?s = Full \<longrightarrow> tp ! i \<noteq> Null \<longrightarrow> evaluate_predicate (tp ! i) p)"
    using i(3-5) assms(4) by (intro summary_sound) auto
  have "tp ! i \<in> set tp" using i(1) assms(2,4) by auto
  then show ?case using Cons.IH [of False] Cons.IH [of full] Cons.prems sound h get
    by (cases "evaluate_predicate_against_summary p ?s") auto
qed simp

section \<open>Properties\<close>

text \<open>
  Merging sketches is exact: the sketch of two lists of values, each built on its own and then
  merged, is the sketch of the values together, whatever the hash function.
\<close>

theorem hll_merge_is_union:
  "hll_merge (fold (hll_add hash_of) ws (hll_new p)) (fold (hll_add hash_of) vs (hll_new p)) = fold (hll_add hash_of) (vs @ ws) (hll_new p)"
proof -
  let ?v = "fold (hll_add hash_of) vs (hll_new p)" and ?w = "fold (hll_add hash_of) ws (hll_new p)"
  let ?b = "fold (hll_add hash_of) (vs @ ws) (hll_new p)" and ?p = "hl_precision (hll_new p)"
  note f = hll_fold [OF hll_new_ok [of p], of hash_of]
  have z: "hl_registers (hll_new p) ! i = 0" if "i < 2 ^ ?p" for i using that by (simp add: hll_new_def Let_def)
  have b: "bucket_max hash_of ?p (vs @ ws) i = max (bucket_max hash_of ?p vs i) (bucket_max hash_of ?p ws i)" for i
    by (simp add: bucket_max_def fold_max_start [of _ "fold max _ 0"])
  have "hl_registers (hll_merge ?w ?v) = hl_registers ?b"
  proof (rule nth_equalityI)
    show "length (hl_registers (hll_merge ?w ?v)) = length (hl_registers ?b)"
      using f [of vs] f [of "vs @ ws"] by (simp add: hll_merge_shape hll_ok_def)
    fix i assume "i < length (hl_registers (hll_merge ?w ?v))"
    then have i: "i < 2 ^ ?p" using f [of vs] by (simp add: hll_merge_shape hll_ok_def)
    show "hl_registers (hll_merge ?w ?v) ! i = hl_registers ?b ! i"
      using hll_merge_at [of ?v ?w i] f [of vs] f [of ws] f [of "vs @ ws"] i z [OF i] b by simp
  qed
  moreover have "hl_precision (hll_merge ?w ?v) = hl_precision ?b" using f [of vs] f [of "vs @ ws"] by (simp add: hll_merge_shape)
  moreover have "hl_count (hll_merge ?w ?v) = hl_count ?b"
    using f [of vs] f [of ws] f [of "vs @ ws"] by (simp add: hll_merge_def hll_new_def Let_def)
  ultimately show ?thesis by (cases "hll_merge ?w ?v"; cases ?b) simp
qed

text \<open>
  A block that is reported as a full match may hold rows that do not match: NULL counts for no
  bound, so a block of a value below the bound and a NULL is a full match of the comparison.
\<close>

theorem full_match_ignores_nulls:
  assumes "sint a < sint b"
  shows "can_satisfy (analyze_predicate px (BinaryExpr (Column None ''x'') OpLt (Literal (Int8 b))) [\<lparr>col_name = ''x'', col_type = TInt8\<rparr>] [])
      (update_on_insert hash_of 1 [(''x'', Null)] (update_on_insert hash_of 0 [(''x'', Int8 a)] (block_summary_new 0 0))) = FullMatch
    \<and> \<not> evaluate_predicate Null (hd (analyze_predicate px (BinaryExpr (Column None ''x'') OpLt (Literal (Int8 b))) [\<lparr>col_name = ''x'', col_type = TInt8\<rparr>] []))"
  using assms
  by (simp add: analyze_predicate_def extract_comparison_def comparison_op_def coerce_literal_for_column_def can_satisfy_def update_on_insert_def
      summary_entry_def block_summary_new_def update_incremental_def update_min_max_def summary_new_def Let_def
      evaluate_predicate_against_summary_def opt_test_def value_ordered_def evaluate_predicate_def)

theorem full_match_ignores_nulls_witness:
  "can_satisfy (analyze_predicate no_parsers (BinaryExpr (Column None ''x'') OpLt (Literal (Int8 5))) [\<lparr>col_name = ''x'', col_type = TInt8\<rparr>] [])
      (update_on_insert (\<lambda>_. 0) 1 [(''x'', Null)] (update_on_insert (\<lambda>_. 0) 0 [(''x'', Int8 3)] (block_summary_new 0 0))) = FullMatch"
  using full_match_ignores_nulls [of 3 5 no_parsers "\<lambda>_. 0"] by simp

end
