(* ===== verification/Parallel_Filter.thy ===== *)
theory Parallel_Filter
  imports Zone_Summary Interleaving "HOL-Library.Sublist"
begin

text \<open>
  Parallel filtering (\<^verbatim>\<open>src/src/storage/parallel_filter.rs\<close>): the engine with its layers, block
  pruning by zone summaries, and the evaluation with a limit, whose chunks run on several threads
  and share a counter. Rayon's ordered iterators return the results of the chunks in the order
  of the chunks, so where the chunks do not share state the result is that of the chunks in order. The
  threshold that the engine adapts to timings is an argument. A chunk size of zero is refused by rayon:
  \<open>None\<close>.
\<close>

section \<open>The engine\<close>

record parallel_config =
  pf_parallel_threshold :: nat
  pf_chunk_size :: nat
  pf_parallel_bloom :: bool
  pf_parallel_simd :: bool
  pf_adaptive :: bool
  pf_min_adaptive :: nat
  pf_max_adaptive :: nat

record parallel_stats =
  pf_total_evaluations :: nat
  pf_parallel_evaluations :: nat
  pf_sequential_evaluations :: nat
  pf_tuples_processed :: nat
  pf_tuples_filtered :: nat
  pf_bloom_checks :: nat
  pf_bloom_hits :: nat
  pf_zone_map_checks :: nat
  pf_zone_map_skips :: nat
  pf_simd_batches :: nat

record parallel_engine =
  pf_config :: parallel_config
  pf_simd :: simd_engine
  pf_stats :: parallel_stats

definition pf_count :: "(parallel_stats \<Rightarrow> parallel_stats) \<Rightarrow> parallel_engine \<Rightarrow> parallel_engine" where
  "pf_count f e = e\<lparr>pf_stats := f (pf_stats e)\<rparr>"

definition filter_simd :: "sql_value list list \<Rightarrow> analyzed_predicate list \<Rightarrow> column list \<Rightarrow> parallel_engine \<Rightarrow> parallel_engine \<times> sql_value list list" where
  "filter_simd tuples preds schema e = (case filter_batch tuples preds schema (pf_simd e) of (s, rows) \<Rightarrow> (e\<lparr>pf_simd := s\<rparr>, rows))"

fun check_bloom_filters :: "hash_env \<Rightarrow> analyzed_predicate list \<Rightarrow> table_blooms \<Rightarrow> bool" where
  "check_bloom_filters he [] tb = True"
| "check_bloom_filters he (p # preds) tb = (if ap_op p \<noteq> PEq then check_bloom_filters he preds tb
     else case find (\<lambda>cb. cb_column_name cb = ap_column_name p) (tb_column_filters tb) of
         Some cb \<Rightarrow> if \<not> check_value he (ap_value p) (cb_filter cb) then True else check_bloom_filters he preds tb
       | None \<Rightarrow> check_bloom_filters he preds tb)"

definition filter_sequential ::
  "hash_env \<Rightarrow> sql_value list list \<Rightarrow> analyzed_predicate list \<Rightarrow> column list \<Rightarrow> table_blooms option \<Rightarrow> parallel_engine \<Rightarrow> parallel_engine \<times> sql_value list list" where
  "filter_sequential he tuples preds schema blooms e =
     (let e = pf_count (\<lambda>s. s\<lparr>pf_sequential_evaluations := pf_sequential_evaluations s + 1\<rparr>) e;
          tuples = (case blooms of Some tb \<Rightarrow> filter (\<lambda>_. check_bloom_filters he preds tb) tuples | None \<Rightarrow> tuples)
      in filter_simd tuples preds schema e)"

definition parallel_bloom_filter ::
  "hash_env \<Rightarrow> sql_value list list \<Rightarrow> analyzed_predicate list \<Rightarrow> table_blooms \<Rightarrow> parallel_engine \<Rightarrow> parallel_engine \<times> sql_value list list" where
  "parallel_bloom_filter he tuples preds tb e = (let result = filter (\<lambda>_. check_bloom_filters he preds tb) tuples in
     (pf_count (\<lambda>s. s\<lparr>pf_bloom_checks := pf_bloom_checks s + length tuples, pf_bloom_hits := pf_bloom_hits s + length result\<rparr>) e, result))"

fun filter_chunks :: "analyzed_predicate list \<Rightarrow> column list \<Rightarrow> sql_value list list list \<Rightarrow> parallel_engine \<Rightarrow> parallel_engine \<times> sql_value list list" where
  "filter_chunks preds schema [] e = (e, [])"
| "filter_chunks preds schema (chunk # cs) e = (let (e, rows) = filter_simd chunk preds schema e; (e, rest) = filter_chunks preds schema cs e in (e, rows @ rest))"

definition parallel_simd_filter ::
  "sql_value list list \<Rightarrow> analyzed_predicate list \<Rightarrow> column list \<Rightarrow> parallel_engine \<Rightarrow> (parallel_engine \<times> sql_value list list) option" where
  "parallel_simd_filter tuples preds schema e = (if pf_chunk_size (pf_config e) = 0 then None
     else let chunks = slice_chunks (pf_chunk_size (pf_config e)) tuples; (e, rows) = filter_chunks preds schema chunks e in
       Some (pf_count (\<lambda>s. s\<lparr>pf_simd_batches := pf_simd_batches s + length chunks\<rparr>) e, rows))"

definition filter_parallel ::
  "hash_env \<Rightarrow> nat \<Rightarrow> sql_value list list \<Rightarrow> analyzed_predicate list \<Rightarrow> column list \<Rightarrow> table_blooms option \<Rightarrow> parallel_engine
    \<Rightarrow> (parallel_engine \<times> sql_value list list) option" where
  "filter_parallel he effective_threshold tuples preds schema blooms e =
     (let n = length tuples;
          e = pf_count (\<lambda>s. s\<lparr>pf_total_evaluations := pf_total_evaluations s + 1, pf_tuples_processed := pf_tuples_processed s + n\<rparr>) e in
      if n < effective_threshold then Some (filter_sequential he tuples preds schema blooms e)
      else let e = pf_count (\<lambda>s. s\<lparr>pf_parallel_evaluations := pf_parallel_evaluations s + 1\<rparr>) e;
               (e, bloom_filtered) = (case blooms of
                   Some tb \<Rightarrow> if pf_parallel_bloom (pf_config e) then parallel_bloom_filter he tuples preds tb e else (e, tuples)
                 | None \<Rightarrow> (e, tuples))
        in map_option (\<lambda>(e, result). (pf_count (\<lambda>s. s\<lparr>pf_tuples_filtered := pf_tuples_filtered s + (n - length result)\<rparr>) e, result))
          (if pf_parallel_simd (pf_config e) then parallel_simd_filter bloom_filtered preds schema e
           else Some (filter_simd bloom_filtered preds schema e)))"

section \<open>Zone pruning\<close>

text \<open>The blocks in the order in which the map yields them.\<close>

fun prune_blocks ::
  "analyzed_predicate list \<Rightarrow> column list \<Rightarrow> table_summaries \<Rightarrow> (nat \<times> sql_value list list) list \<Rightarrow> parallel_engine
    \<Rightarrow> parallel_engine \<times> nat \<times> sql_value list list" where
  "prune_blocks preds schema z [] e = (e, 0, [])"
| "prune_blocks preds schema z ((block_id, tuples) # bs) e =
     (let decision = (case map_of (zt_blocks z) block_id of Some b \<Rightarrow> can_satisfy preds b | None \<Rightarrow> Scan);
          (e, skips, rows) = (case decision of Skip \<Rightarrow> (e, 1, []) | FullMatch \<Rightarrow> (e, 0, tuples)
            | Scan \<Rightarrow> (case filter_simd tuples preds schema e of (e, rows) \<Rightarrow> (e, 0, rows)));
          (e, more, rest) = prune_blocks preds schema z bs e
      in (e, skips + more, rows @ rest))"

definition filter_with_zone_pruning ::
  "(nat \<times> sql_value list list) list \<Rightarrow> analyzed_predicate list \<Rightarrow> column list \<Rightarrow> table_summaries \<Rightarrow> parallel_engine \<Rightarrow> parallel_engine \<times> sql_value list list" where
  "filter_with_zone_pruning blocks preds schema z e = (let (e, skips, rows) = prune_blocks preds schema z blocks e in
     (pf_count (\<lambda>s. s\<lparr>pf_zone_map_checks := pf_zone_map_checks s + length blocks, pf_zone_map_skips := pf_zone_map_skips s + skips\<rparr>) e, rows))"

section \<open>Early termination\<close>

text \<open>
  The chunks of \<open>evaluate_parallel_with_limit\<close>: a thread that takes a chunk loads the counter and skips
  the chunk when the limit is reached; otherwise it filters the chunk and adds its matches to the
  counter. Loads and additions of different threads interleave in every order. \<open>ms\<close> are the matches
  of the chunks.
\<close>

datatype chunk_state = Waiting | Running | Skipped | Finished

record limit_state =
  li_found :: nat
  li_chunks :: "chunk_state list"

inductive limit_step :: "'a list list \<Rightarrow> nat \<Rightarrow> limit_state \<Rightarrow> limit_state \<Rightarrow> bool" for ms limit where
  skip: "i < length (li_chunks s) \<Longrightarrow> li_chunks s ! i = Waiting \<Longrightarrow> limit \<le> li_found s
    \<Longrightarrow> limit_step ms limit s (s\<lparr>li_chunks := (li_chunks s)[i := Skipped]\<rparr>)"
| start: "i < length (li_chunks s) \<Longrightarrow> li_chunks s ! i = Waiting \<Longrightarrow> li_found s < limit
    \<Longrightarrow> limit_step ms limit s (s\<lparr>li_chunks := (li_chunks s)[i := Running]\<rparr>)"
| finish: "i < length (li_chunks s) \<Longrightarrow> li_chunks s ! i = Running
    \<Longrightarrow> limit_step ms limit s (s\<lparr>li_found := li_found s + length (ms ! i), li_chunks := (li_chunks s)[i := Finished]\<rparr>)"

definition limit_init :: "nat \<Rightarrow> limit_state" where
  "limit_init n = \<lparr>li_found = 0, li_chunks = replicate n Waiting\<rparr>"

definition limit_over :: "limit_state \<Rightarrow> bool" where
  "limit_over s \<longleftrightarrow> list_all (\<lambda>c. c = Skipped \<or> c = Finished) (li_chunks s)"

definition limit_result :: "'a list list \<Rightarrow> nat \<Rightarrow> limit_state \<Rightarrow> 'a list" where
  "limit_result ms limit s = take limit (concat (map2 (\<lambda>c m. if c = Finished then m else []) (li_chunks s) ms))"

definition chunk_matches_of :: "nat \<Rightarrow> sql_value list list \<Rightarrow> analyzed_predicate list \<Rightarrow> column list \<Rightarrow> simd_engine \<Rightarrow> sql_value list list list" where
  "chunk_matches_of chunk_size tuples preds schema e = map (\<lambda>chunk. snd (filter_batch chunk preds schema e)) (slice_chunks chunk_size tuples)"

text \<open>The results that \<open>evaluate_parallel_with_limit\<close> can return.\<close>

inductive limit_outcome :: "parallel_config \<Rightarrow> sql_value list list \<Rightarrow> analyzed_predicate list \<Rightarrow> column list \<Rightarrow> nat \<Rightarrow> simd_engine \<Rightarrow> sql_value list list \<Rightarrow> bool"
  for cf tuples preds schema limit e where
  sequential: "length tuples < pf_parallel_threshold cf \<or> limit = 0
    \<Longrightarrow> limit_outcome cf tuples preds schema limit e (take limit (snd (filter_batch tuples preds schema e)))"
| parallel: "\<not> (length tuples < pf_parallel_threshold cf \<or> limit = 0) \<Longrightarrow> 0 < pf_chunk_size cf
    \<Longrightarrow> ms = chunk_matches_of (pf_chunk_size cf) tuples preds schema e
    \<Longrightarrow> (limit_step ms limit)\<^sup>*\<^sup>* (limit_init (length ms)) s \<Longrightarrow> limit_over s
    \<Longrightarrow> limit_outcome cf tuples preds schema limit e (limit_result ms limit s)"

section \<open>Chunks and the whole\<close>

lemma filter_batch_append:
  "snd (filter_batch (xs @ ys) preds schema e) = snd (filter_batch xs preds schema e) @ snd (filter_batch ys preds schema e')"
  by (simp add: filter_batch_def Let_def)

lemma filter_batch_any: "snd (filter_batch xs preds schema e) = snd (filter_batch xs preds schema e')"
  by (simp add: filter_batch_def Let_def)

lemma filter_simd_snd: "snd (filter_simd xs preds schema e) = snd (filter_batch xs preds schema (pf_simd e))"
  by (simp add: filter_simd_def case_prod_unfold)

lemma slice_chunks_concat: "0 < n \<Longrightarrow> concat (slice_chunks n xs) = xs"
proof (induction n xs rule: slice_chunks.induct)
  case (1 n xs)
  then show ?case by (subst slice_chunks.simps) auto
qed

lemma filter_chunks_concat: "snd (filter_chunks preds schema cs e) = snd (filter_batch (concat cs) preds schema e')"
proof (induction cs arbitrary: e)
  case (Cons c cs)
  show ?case using Cons [of "fst (filter_simd c preds schema e)"] filter_batch_append [of c "concat cs" preds schema e' e']
      filter_batch_any [of c preds schema e' "pf_simd e"]
    by (simp add: case_prod_unfold filter_simd_snd)
qed (simp add: filter_batch_def)

lemma bloom_check_passes: "check_bloom_filters he preds tb"
  by (induction preds) (auto split: option.split)

lemma bloom_layer:
  "\<exists>q. (case blooms of Some tb \<Rightarrow> if on then parallel_bloom_filter he tuples preds tb x else (x, tuples) | None \<Rightarrow> (x, tuples)) = (q, tuples)
     \<and> pf_config q = pf_config x"
  by (cases blooms) (auto simp: parallel_bloom_filter_def Let_def bloom_check_passes pf_count_def)

lemma chunk_matches_concat:
  assumes "0 < n"
  shows "concat (chunk_matches_of n tuples preds schema e) = snd (filter_batch tuples preds schema e)"
proof -
  have "concat (map (\<lambda>c. snd (filter_batch c preds schema e)) cs) = snd (filter_batch (concat cs) preds schema e)" for cs
    by (induction cs) (simp_all add: filter_batch_append [of _ _ preds schema e e], simp add: filter_batch_def)
  then show ?thesis using slice_chunks_concat [OF assms, of tuples] by (simp add: chunk_matches_of_def)
qed

section \<open>The shared counter\<close>

definition done_rows :: "'a list list \<Rightarrow> chunk_state list \<Rightarrow> 'a list" where
  "done_rows ms cs = concat (map2 (\<lambda>c m. if c = Finished then m else []) cs ms)"

lemma done_rows_update:
  "length ms = length cs \<Longrightarrow> i < length cs \<Longrightarrow> cs ! i \<noteq> Finished \<Longrightarrow>
    length (done_rows ms (cs[i := c])) = length (done_rows ms cs) + (if c = Finished then length (ms ! i) else 0)"
proof (induction ms cs arbitrary: i rule: list_induct2)
  case (Cons m ms d cs)
  then show ?case by (cases i) (auto simp: done_rows_def)
qed simp

definition limit_inv :: "'a list list \<Rightarrow> nat \<Rightarrow> limit_state \<Rightarrow> bool" where
  "limit_inv ms limit s \<longleftrightarrow> length (li_chunks s) = length ms \<and> li_found s = length (done_rows ms (li_chunks s))
     \<and> (Skipped \<in> set (li_chunks s) \<longrightarrow> limit \<le> li_found s)"

lemma done_rows_waiting [simp]: "done_rows ms (replicate n Waiting) = []"
  by (auto simp: done_rows_def concat_eq_Nil_conv set_zip)

lemma limit_inv_run: "(limit_step ms limit)\<^sup>*\<^sup>* (limit_init (length ms)) s \<Longrightarrow> limit_inv ms limit s"
proof (induction rule: rtranclp_induct)
  case base
  then show ?case by (simp add: limit_inv_def limit_init_def)
next
  case (step s s')
  from step(2,3) show ?case
    by (induction rule: limit_step.induct)
      (auto simp: limit_inv_def done_rows_update dest!: set_update_subset_insert [THEN subsetD])
qed

lemma done_rows_subseq: "length ms = length cs \<Longrightarrow> subseq (done_rows ms cs) (concat ms)"
  by (induction ms cs rule: list_induct2) (auto simp: done_rows_def intro: list_emb_append_mono)

lemma done_rows_all: "length ms = length cs \<Longrightarrow> \<forall>c \<in> set cs. c = Finished \<Longrightarrow> done_rows ms cs = concat ms"
  by (induction ms cs rule: list_induct2) (auto simp: done_rows_def)

section \<open>Properties\<close>

text \<open>
  C26. The evaluation with a limit returns, for every interleaving of the threads, as many rows as the
  limit allows: the rows are matches in table order, and there are as many as the smaller of the limit and
  the number of matches. They need not be the first matches.
\<close>

theorem parallel_limit_exact:
  assumes "limit_outcome cf tuples preds schema limit e rows"
  shows "subseq rows (snd (filter_batch tuples preds schema e)) \<and> length rows = min limit (length (snd (filter_batch tuples preds schema e)))"
  using assms
proof (induction rule: limit_outcome.induct)
  case sequential
  then show ?case by (simp add: prefix_imp_subseq take_is_prefix min.commute)
next
  case (parallel ms s)
  have i: "limit_inv ms limit s" by (rule limit_inv_run [OF parallel(4)])
  have ms: "concat ms = snd (filter_batch tuples preds schema e)" using chunk_matches_concat [OF parallel(2)] parallel(3) by simp
  have l: "length ms = length (li_chunks s)" using i by (simp add: limit_inv_def)
  have r: "limit_result ms limit s = take limit (done_rows ms (li_chunks s))" by (simp add: limit_result_def done_rows_def)
  have sub: "subseq (done_rows ms (li_chunks s)) (concat ms)" by (rule done_rows_subseq [OF l])
  have "subseq (take limit (done_rows ms (li_chunks s))) (concat ms)"
    by (rule subseq_order.order_trans [OF _ sub]) (simp add: prefix_imp_subseq take_is_prefix)
  moreover have "length (take limit (done_rows ms (li_chunks s))) = min limit (length (concat ms))"
  proof (cases "Skipped \<in> set (li_chunks s)")
    case True
    then have "limit \<le> length (done_rows ms (li_chunks s))" using i by (simp add: limit_inv_def)
    then show ?thesis using list_emb_length [OF sub] by simp
  next
    case False
    then have "\<forall>c \<in> set (li_chunks s). c = Finished" using parallel(5) by (auto simp: limit_over_def list_all_iff)
    then show ?thesis by (simp add: done_rows_all [OF l] min.commute)
  qed
  ultimately show ?case unfolding r ms by simp
qed

definition plain_engine :: parallel_engine where
  "plain_engine = \<lparr>pf_config = \<lparr>pf_parallel_threshold = 1000, pf_chunk_size = 256, pf_parallel_bloom = True, pf_parallel_simd = True, pf_adaptive = True,
       pf_min_adaptive = 256, pf_max_adaptive = 5000\<rparr>,
     pf_simd = with_batch_size 1024,
     pf_stats = \<lparr>pf_total_evaluations = 0, pf_parallel_evaluations = 0, pf_sequential_evaluations = 0, pf_tuples_processed = 0, pf_tuples_filtered = 0,
       pf_bloom_checks = 0, pf_bloom_hits = 0, pf_zone_map_checks = 0, pf_zone_map_skips = 0, pf_simd_batches = 0\<rparr>\<rparr>"

text \<open>Two chunks of one row: the thread of the second one finishes first, so the first chunk is skipped.\<close>

theorem parallel_limit_exact_witness:
  "let cf = (pf_config plain_engine)\<lparr>pf_parallel_threshold := 1, pf_chunk_size := 1\<rparr>; rows = [[Int8 2]]
   in limit_outcome cf [[Int8 1], [Int8 2]] [] [] 1 (with_batch_size 64) rows
      \<and> subseq rows (snd (filter_batch [[Int8 1], [Int8 2]] [] [] (with_batch_size 64))) \<and> length rows = 1"
proof -
  let ?cf = "(pf_config plain_engine)\<lparr>pf_parallel_threshold := 1, pf_chunk_size := 1\<rparr>" and ?e = "with_batch_size 64"
  let ?ms = "[[[Int8 1]], [[Int8 2]]]"
  have ms: "?ms = chunk_matches_of (pf_chunk_size ?cf) [[Int8 1], [Int8 2]] [] [] ?e"
    by (simp add: chunk_matches_of_def slice_chunks.simps filter_batch_def Let_def)
  let ?s0 = "\<lparr>li_found = 0, li_chunks = [Waiting, Waiting]\<rparr>" and ?s1 = "\<lparr>li_found = 0, li_chunks = [Waiting, Running]\<rparr>"
  let ?s2 = "\<lparr>li_found = 1, li_chunks = [Waiting, Finished]\<rparr>" and ?s3 = "\<lparr>li_found = 1, li_chunks = [Skipped, Finished]\<rparr>"
  have "limit_step ?ms 1 ?s0 ?s1" using limit_step.start [of 1 ?s0 1 ?ms] by simp
  moreover have "limit_step ?ms 1 ?s1 ?s2" using limit_step.finish [of 1 ?s1 ?ms 1] by simp
  moreover have "limit_step ?ms 1 ?s2 ?s3" using limit_step.skip [of 0 ?s2 1 ?ms] by simp
  ultimately have "(limit_step ?ms 1)\<^sup>*\<^sup>* ?s0 ?s3" by (meson converse_rtranclp_into_rtranclp rtranclp.rtrancl_refl)
  then have run: "(limit_step ?ms 1)\<^sup>*\<^sup>* (limit_init (length ?ms)) ?s3" by (simp add: limit_init_def numeral_2_eq_2)
  have "limit_outcome ?cf [[Int8 1], [Int8 2]] [] [] 1 ?e (limit_result ?ms 1 ?s3)"
    by (rule limit_outcome.parallel [OF _ _ ms run]) (simp_all add: limit_over_def plain_engine_def)
  then have o: "limit_outcome ?cf [[Int8 1], [Int8 2]] [] [] 1 ?e [[Int8 2]]" by (simp add: limit_result_def)
  from parallel_limit_exact [OF o] o show ?thesis by (simp add: Let_def)
qed

text \<open>
  The layers of the engine do not change the result: for every threshold, chunk size and Bloom filter the
  parallel filter returns what one pass over all rows returns.
\<close>

theorem filter_parallel_exact:
  assumes "0 < pf_chunk_size (pf_config e)"
  shows "\<exists>e'. filter_parallel he threshold tuples preds schema blooms e = Some (e', snd (filter_batch tuples preds schema (pf_simd e)))"
proof -
  note any = filter_batch_any [of tuples preds schema _ "pf_simd e"]
  have s: "\<exists>e'. filter_simd tuples preds schema x = (e', snd (filter_batch tuples preds schema (pf_simd e)))" for x
    using any [of "pf_simd x"] filter_simd_snd [of tuples preds schema x] by (metis prod.collapse)
  have p: "\<exists>e'. parallel_simd_filter tuples preds schema x = Some (e', snd (filter_batch tuples preds schema (pf_simd e)))"
    if "pf_config x = pf_config e" for x
    using filter_chunks_concat [of preds schema "slice_chunks (pf_chunk_size (pf_config e)) tuples" x "pf_simd e"] slice_chunks_concat [OF assms, of tuples]
      assms that by (simp add: parallel_simd_filter_def Let_def case_prod_unfold)
  have b: "filter (\<lambda>_. check_bloom_filters he preds tb) xs = xs" for tb and xs :: "sql_value list list" by (simp add: bloom_check_passes)
  let ?e = "pf_count (\<lambda>s. s\<lparr>pf_total_evaluations := pf_total_evaluations s + 1, pf_tuples_processed := pf_tuples_processed s + length tuples\<rparr>) e"
  show ?thesis
  proof (cases "length tuples < threshold")
    case True
    have "\<exists>e'. filter_sequential he tuples preds schema blooms ?e = (e', snd (filter_batch tuples preds schema (pf_simd e)))"
      using s by (cases blooms) (simp_all add: filter_sequential_def Let_def b)
    then show ?thesis using True by (auto simp: filter_parallel_def Let_def)
  next
    case False
    let ?q = "pf_count (\<lambda>s. s\<lparr>pf_parallel_evaluations := pf_parallel_evaluations s + 1\<rparr>) ?e"
    obtain q where q: "(case blooms of Some tb \<Rightarrow> if pf_parallel_bloom (pf_config ?q) then parallel_bloom_filter he tuples preds tb ?q else (?q, tuples)
        | None \<Rightarrow> (?q, tuples)) = (q, tuples)" "pf_config q = pf_config ?q"
      using bloom_layer [where blooms = blooms and on = "pf_parallel_bloom (pf_config ?q)" and x = ?q] by blast
    have "pf_config q = pf_config e" using q(2) by (simp add: pf_count_def)
    then show ?thesis using False p [of q] s [of q] unfolding filter_parallel_def Let_def q(1) by auto
  qed
qed

theorem filter_parallel_exact_witness:
  "\<exists>e'. filter_parallel sum_env 1 [[Int8 1]] [] [] None plain_engine = Some (e', [[Int8 1]])"
  using filter_parallel_exact [of plain_engine sum_env 1 "[[Int8 1]]" "[]" "[]" None] by (simp add: plain_engine_def filter_batch_def Let_def)

lemma filter_batch_mem:
  assumes "tp \<in> set tuples" "distinct (map col_name schema)" "length tp = length schema"
  shows "tp \<in> set (snd (filter_batch tuples preds schema e)) \<longleftrightarrow>
    (\<forall>p \<in> set preds. \<exists>i < length (map col_name schema). ap_column_name p = map col_name schema ! i \<and> evaluate_predicate (tp ! i) p)"
proof -
  have "(case column_position (ap_column_name p) schema of Some idx \<Rightarrow> if idx < length tp then evaluate_predicate (tp ! idx) p else False | None \<Rightarrow> False)
      \<longleftrightarrow> (\<exists>i < length schema. ap_column_name p = col_name (schema ! i) \<and> evaluate_predicate (tp ! i) p)" for p
  proof (cases "column_position (ap_column_name p) schema")
    case None
    have "column_position c cs = None \<Longrightarrow> i < length cs \<Longrightarrow> col_name (cs ! i) \<noteq> c" for c cs i
      by (induction cs arbitrary: i) (auto simp: nth_Cons split: if_splits nat.splits)
    note none = this [OF None]
    have "\<not> (\<exists>i < length schema. ap_column_name p = col_name (schema ! i) \<and> evaluate_predicate (tp ! i) p)" using none by metis
    then show ?thesis unfolding None by simp
  next
    case (Some k)
    have uniq: "i = k" if "i < length schema" "ap_column_name p = col_name (schema ! i)" for i
      using column_position_bound [OF Some] that assms(2) by (metis distinct_conv_nth length_map nth_map)
    have k: "k < length schema" "col_name (schema ! k) = ap_column_name p" using column_position_bound [OF Some] by auto
    have "(\<exists>i < length schema. ap_column_name p = col_name (schema ! i) \<and> evaluate_predicate (tp ! i) p) \<longleftrightarrow> evaluate_predicate (tp ! k) p"
      using uniq k by metis
    then show ?thesis using k(1) assms(3) by (simp add: Some)
  qed
  then show ?thesis using assms(1) by (simp add: filter_batch_def Let_def list_all_iff cong: conj_cong)
qed

lemma filter_batch_none: "(\<And>tp. tp \<in> set tuples \<Longrightarrow> tp \<notin> set (snd (filter_batch tuples preds schema e))) \<Longrightarrow> snd (filter_batch tuples preds schema e) = []"
  by (auto simp: filter_batch_def Let_def filter_empty_conv)

lemma filter_batch_whole: "(\<And>tp. tp \<in> set tuples \<Longrightarrow> tp \<in> set (snd (filter_batch tuples preds schema e))) \<Longrightarrow> snd (filter_batch tuples preds schema e) = tuples"
  by (auto simp: filter_batch_def Let_def filter_id_conv)

lemma prune_blocks_exact:
  assumes "summary_shape hash_of (map col_name schema) bs tuples z" "distinct (map col_name schema)"
    "\<forall>tp \<in> set tuples. length tp = length schema \<and> Null \<notin> set tp" "\<forall>p \<in> set preds. decision_fits (map col_name schema) tuples p"
  shows "snd (snd (prune_blocks preds schema z (map (\<lambda>j. (j, block_rows bs j tuples)) js) e))
    = concat (map (\<lambda>j. snd (filter_batch (block_rows bs j tuples) preds schema e')) js)"
proof (induction js arbitrary: e)
  case (Cons j js)
  let ?rows = "block_rows bs j tuples" and ?names = "map col_name schema"
  have sub: "set ?rows \<subseteq> set tuples" by (rule block_rows_sub)
  have fits: "\<forall>p \<in> set preds. decision_fits ?names ?rows p" using assms(4) sub unfolding decision_fits_def by blast
  have len: "\<forall>tp \<in> set ?rows. length tp = length ?names" using assms(3) sub by auto
  have at: "case map_of (zt_blocks z) j of Some b \<Rightarrow> zb_columns b = fold (add_summaries hash_of ?names) ?rows [] | None \<Rightarrow> ?rows = []"
    using assms(1) unfolding summary_shape_def by blast
  have mem: "tp \<in> set (snd (filter_batch ?rows preds schema e')) \<longleftrightarrow> (\<forall>p \<in> set preds. \<exists>i < length ?names. ap_column_name p = ?names ! i \<and> evaluate_predicate (tp ! i) p)"
    if "tp \<in> set ?rows" for tp using filter_batch_mem [OF that assms(2)] len that by simp
  have skip: "snd (filter_batch ?rows preds schema e') = []" if "map_of (zt_blocks z) j = Some b" "can_satisfy preds b = Skip" for b
    using decision_sound [OF assms(2) len fits, of _ hash_of True] at that mem by (intro filter_batch_none) (fastforce simp: can_satisfy_def)
  have full: "snd (filter_batch ?rows preds schema e') = ?rows" if "map_of (zt_blocks z) j = Some b" "can_satisfy preds b = FullMatch" for b
    using decision_sound [OF assms(2) len fits, of _ hash_of True] at that mem assms(3) sub by (intro filter_batch_whole) (fastforce simp: can_satisfy_def)
  show ?case using Cons skip full filter_batch_any [of ?rows preds schema e' "pf_simd e"]
    by (auto simp: Let_def case_prod_unfold filter_simd_snd split: option.splits block_decision.splits)
qed simp

text \<open>
  Pruning by zone summaries is exact for rows without NULL: when the summaries were filled by inserting the
  rows, the filter over the blocks returns what filtering every block returns, in the order of the
  blocks. With a NULL in the block it is not.
\<close>

theorem zone_pruning_exact:
  assumes "0 < bs" "distinct (map col_name schema)" "\<forall>tp \<in> set tuples. length tp = length schema \<and> Null \<notin> set tp"
    "\<forall>p \<in> set preds. decision_fits (map col_name schema) tuples p"
  shows "\<exists>z. summaries_insert_all hash_of (map col_name schema) 0 tuples (summaries_new t bs) = Some z
    \<and> snd (filter_with_zone_pruning (map (\<lambda>j. (j, block_rows bs j tuples)) js) preds schema z e)
      = concat (map (\<lambda>j. snd (filter_batch (block_rows bs j tuples) preds schema (pf_simd e))) js)"
proof -
  obtain z where z: "summaries_insert_all hash_of (map col_name schema) 0 tuples (summaries_new t bs) = Some z"
      "summary_shape hash_of (map col_name schema) bs tuples z" using summaries_built [OF assms(1)] by blast
  then show ?thesis using prune_blocks_exact [OF z(2) assms(2-4), of js e "pf_simd e"]
    by (simp add: filter_with_zone_pruning_def case_prod_unfold Let_def)
qed

definition x_schema :: "column list" where
  "x_schema = [\<lparr>col_name = ''x'', col_type = TInt8\<rparr>]"

definition x_below :: "u64 \<Rightarrow> analyzed_predicate" where
  "x_below b = \<lparr>ap_column_name = ''x'', ap_column_index = 0, ap_op = PLt, ap_value = Int8 b, ap_value2 = None, ap_value_list = [], ap_selectivity = 33,
     ap_can_use_bloom = False, ap_can_use_zone_map = True\<rparr>"

theorem zone_pruning_exact_witness:
  "\<exists>z. summaries_insert_all (\<lambda>_. 0) (map col_name x_schema) 0 [[Int8 1], [Int8 2], [Int8 9]] (summaries_new ''t'' 2) = Some z
    \<and> snd (filter_with_zone_pruning [(0, [[Int8 1], [Int8 2]]), (1, [[Int8 9]])] [x_below 5] x_schema z plain_engine) = [[Int8 1], [Int8 2]]"
proof -
  have rows: "block_rows 2 0 [[Int8 1], [Int8 2], [Int8 9]] = [[Int8 1], [Int8 2]]" "block_rows 2 (Suc 0) [[Int8 1], [Int8 2], [Int8 9]] = [[Int8 9]]"
    by (simp_all add: block_rows_def upt_rec)
  have "\<forall>p \<in> set [x_below 5]. decision_fits (map col_name x_schema) [[Int8 1], [Int8 2], [Int8 9]] p"
    by (simp add: decision_fits_def x_below_def x_schema_def decidable_by_def summary_class_def)
  from zone_pruning_exact [of 2 x_schema, OF _ _ _ this, of "\<lambda>_. 0" "''t''" "[0, 1]" plain_engine] show ?thesis
    by (simp add: rows x_schema_def x_below_def filter_batch_def evaluate_predicate_def value_ordered_def Let_def cmp_def)
qed

end
