(* ===== verification/Eval_Ops.thy ===== *)
theory Eval_Ops
  imports Pushdown
begin

text \<open>
  The operations on values of the expression evaluator
  (\<^verbatim>\<open>src/src/sql/evaluator.rs\<close>): comparison with coercions, equality for \<open>IN\<close> and \<open>CASE\<close>,
  three-valued logic, integer arithmetic, patterns and array literals. What \<open>chrono\<close>,
  \<open>rust_decimal\<close>, \<open>uuid\<close> and \<open>regex\<close> do is in the record \<open>eval_lib\<close>, as are the texts of floats
  and the arms of the arithmetic operators on decimals, floats, times and intervals. An error of
  the code is one constructor for each kind of message.
\<close>

section \<open>Results\<close>

datatype eval_error =
    Cannot_compare | Invalid_numeric | Invalid_uuid | Not_boolean | Division_by_zero | Overflow | Bad_operand | Bad_pattern
  | Parameter_zero | Parameter_missing | Column_missing | Out_of_bounds | No_trigger_row
  | Row_size | Row_operator | Bare_row | Needs_executor | Bad_any | Unsupported | Other_error string

definition bind_result :: "'e + 'a \<Rightarrow> ('a \<Rightarrow> 'e + 'b) \<Rightarrow> 'e + 'b" where
  "bind_result r f = (case r of Inl e \<Rightarrow> Inl e | Inr x \<Rightarrow> f x)"

lemma bind_result_simps [simp]: "bind_result (Inl e) f = Inl e" "bind_result (Inr x) f = f x"
  by (simp_all add: bind_result_def)

lemma bind_result_cong [fundef_cong]: "r = s \<Longrightarrow> (\<And>x. s = Inr x \<Longrightarrow> f x = g x) \<Longrightarrow> bind_result r f = bind_result s g"
  by (cases s) auto

lemma bind_result_Inr: "bind_result r f = Inr y \<longleftrightarrow> (\<exists>x. r = Inr x \<and> f x = Inr y)"
  by (cases r) auto

record eval_lib =
  lib_px :: parsers
  lib_f32 :: "bytes \<Rightarrow> u32 option"
  lib_f32_text :: "u32 \<Rightarrow> bytes"
  lib_f64_text :: "u64 \<Rightarrow> bytes"
  lib_rfc3339 :: "bytes \<Rightarrow> int option"
  lib_datetime :: "string \<Rightarrow> bytes \<Rightarrow> int option"
  lib_ymd :: "bytes \<Rightarrow> int option"
  lib_timestamp_text :: "int \<Rightarrow> bytes"
  lib_date_text :: "int \<Rightarrow> bytes"
  lib_regex :: "nat list \<Rightarrow> bytes \<Rightarrow> bool option"
  lib_arith :: "nat \<Rightarrow> sql_value \<Rightarrow> sql_value \<Rightarrow> eval_error + sql_value"
  lib_operator :: "nat \<Rightarrow> sql_value \<Rightarrow> sql_value \<Rightarrow> eval_error + sql_value"
  lib_lower :: "string \<Rightarrow> string"
  lib_scalar :: "string \<Rightarrow> string \<Rightarrow> sql_value list \<Rightarrow> data_type option list \<Rightarrow> eval_error + sql_value"
  lib_cast :: "sql_value \<Rightarrow> data_type \<Rightarrow> eval_error + sql_value"

section \<open>Numbers and their texts\<close>

text \<open>\<open>to_string\<close> and \<open>parse\<close> of the signed integers.\<close>

fun digits :: "nat \<Rightarrow> bytes" where
  "digits n = (if n < 10 then [word_of_nat (48 + n)] else digits (n div 10) @ [word_of_nat (48 + n mod 10)])"

declare digits.simps [simp del]

definition int_text :: "int \<Rightarrow> bytes" where
  "int_text i = (if i < 0 then 0x2D # digits (nat (- i)) else digits (nat i))"

definition is_digit :: "u8 \<Rightarrow> bool" where
  "is_digit c \<longleftrightarrow> 48 \<le> unat c \<and> unat c \<le> 57"

definition digits_value :: "bytes \<Rightarrow> nat" where
  "digits_value ds = foldl (\<lambda>n d. 10 * n + (unat d - 48)) 0 ds"

definition int_range :: "nat \<Rightarrow> int \<Rightarrow> bool" where
  "int_range w i \<longleftrightarrow> - (2 ^ (w - 1)) \<le> i \<and> i < 2 ^ (w - 1)"

definition parse_int :: "nat \<Rightarrow> bytes \<Rightarrow> int option" where
  "parse_int w s = (let (neg, ds) = (case s of c # r \<Rightarrow> if c = 0x2B then (False, r) else if c = 0x2D then (True, r) else (False, s) | [] \<Rightarrow> (False, s));
       i = (if neg then - int (digits_value ds) else int (digits_value ds))
     in if ds \<noteq> [] \<and> list_all is_digit ds \<and> int_range w i then Some i else None)"

text \<open>An integer as a float: the nearest number with \<open>p\<close> significant bits, the even one of two.\<close>

fun bit_length :: "nat \<Rightarrow> nat" where
  "bit_length n = (if n = 0 then 0 else Suc (bit_length (n div 2)))"

declare bit_length.simps [simp del]

definition round_bits :: "nat \<Rightarrow> nat \<Rightarrow> nat" where
  "round_bits p n = (let k = bit_length n - p; q = n div 2 ^ k; r = 2 * (n mod 2 ^ k)
     in if k = 0 then n else if r > 2 ^ k \<or> r = 2 ^ k \<and> odd q then (q + 1) * 2 ^ k else q * 2 ^ k)"

definition float_of_int :: "nat \<Rightarrow> int \<Rightarrow> int option" where
  "float_of_int p i = Some (signed_units (i < 0) (round_bits p (nat \<bar>i\<bar>) * 2 ^ 1074))"

abbreviation f64_of_int :: "int \<Rightarrow> int option" where "f64_of_int \<equiv> float_of_int 53"
abbreviation f32_of_int :: "int \<Rightarrow> int option" where "f32_of_int \<equiv> float_of_int 24"

definition fcmp :: "int option \<Rightarrow> int option \<Rightarrow> ordering" where
  "fcmp a b = (case partial_cmp a b of Some c \<Rightarrow> c | None \<Rightarrow> Equal)"

definition feq :: "int option \<Rightarrow> int option \<Rightarrow> bool" where
  "feq a b \<longleftrightarrow> partial_cmp a b = Some Equal"

section \<open>Special numerics\<close>

definition float_rank :: "int option \<Rightarrow> nat" where
  "float_rank f = (case f of None \<Rightarrow> 3 | Some x \<Rightarrow> if x = inf_units then 2 else if x = - inf_units then 0 else 1)"

definition numeric_rank :: "sql_value \<Rightarrow> nat option" where
  "numeric_rank v = (case v of Numeric s \<Rightarrow> Some (rank_of (special_of s)) | Float4 f \<Rightarrow> Some (float_rank (f32_num f))
     | Float8 f \<Rightarrow> Some (float_rank (f64_num f)) | Int2 _ \<Rightarrow> Some 1 | Int4 _ \<Rightarrow> Some 1 | Int8 _ \<Rightarrow> Some 1 | _ \<Rightarrow> None)"

definition is_special_numeric :: "sql_value \<Rightarrow> bool" where
  "is_special_numeric v = (case v of Numeric s \<Rightarrow> special_of s \<noteq> None | _ \<Rightarrow> False)"

definition special_operator_cmp :: "sql_value \<Rightarrow> sql_value \<Rightarrow> ordering option" where
  "special_operator_cmp l r = (if \<not> is_special_numeric l \<and> \<not> is_special_numeric r then None
     else case (numeric_rank l, numeric_rank r) of (Some a, Some b) \<Rightarrow> Some (cmp a b) | _ \<Rightarrow> None)"

section \<open>Comparison\<close>

definition NANOS_PER_DAY :: int where "NANOS_PER_DAY = 86400 * 10 ^ 9"

definition parse_timestamp_string :: "eval_lib \<Rightarrow> bytes \<Rightarrow> int option" where
  "parse_timestamp_string lib s = (case lib_rfc3339 lib s of Some t \<Rightarrow> Some t | None \<Rightarrow>
     case lib_datetime lib ''%Y-%m-%d %H:%M:%S%.f'' s of Some t \<Rightarrow> Some t | None \<Rightarrow>
     case lib_datetime lib ''%Y-%m-%d %H:%M:%S'' s of Some t \<Rightarrow> Some t | None \<Rightarrow>
     map_option (\<lambda>d. d * NANOS_PER_DAY) (lib_ymd lib s))"

definition date_naive :: "int \<Rightarrow> int" where
  "date_naive t = t div NANOS_PER_DAY"

definition parse_date_string :: "eval_lib \<Rightarrow> bytes \<Rightarrow> int option" where
  "parse_date_string lib s = (case lib_ymd lib s of Some d \<Rightarrow> Some d | None \<Rightarrow> map_option date_naive (parse_timestamp_string lib s))"

definition text_true :: "bytes \<Rightarrow> bool" where
  "text_true s \<longleftrightarrow> chars s \<in> set [letters ''1'', letters ''true'', letters ''TRUE'', letters ''t'', letters ''yes'']"

definition text_int_cmp :: "nat \<Rightarrow> bytes \<Rightarrow> int \<Rightarrow> ordering" where
  "text_int_cmp w s i = (case parse_int w s of Some a \<Rightarrow> cmp a i | None \<Rightarrow> cmp s (int_text i))"

definition int_text_cmp :: "nat \<Rightarrow> int \<Rightarrow> bytes \<Rightarrow> ordering" where
  "int_text_cmp w i s = (case parse_int w s of Some b \<Rightarrow> cmp i b | None \<Rightarrow> cmp (int_text i) s)"

definition or_error :: "eval_error \<Rightarrow> 'a option \<Rightarrow> eval_error + 'a" where
  "or_error e x = (case x of Some y \<Rightarrow> Inr y | None \<Rightarrow> Inl e)"

lemma or_error_simps [simp]: "or_error e (Some y) = Inr y" "or_error e None = Inl e"
  by (simp_all add: or_error_def)

definition uuid_from_slice :: "bytes \<Rightarrow> bytes option" where
  "uuid_from_slice b = (if length b = 16 then Some b else None)"

text \<open>The arms with an integer on the left, and those with a number on the right of a float.\<close>

definition int_ordering :: "eval_lib \<Rightarrow> int \<Rightarrow> sql_value \<Rightarrow> eval_error + ordering" where
  "int_ordering lib a r = (case r of
       Int2 b \<Rightarrow> Inr (cmp a (sint b)) | Int4 b \<Rightarrow> Inr (cmp a (sint b)) | Int8 b \<Rightarrow> Inr (cmp a (sint b))
     | Float4 b \<Rightarrow> Inr (fcmp (f64_of_int a) (f32_num b)) | Float8 b \<Rightarrow> Inr (fcmp (f64_of_int a) (f64_num b))
     | Numeric b \<Rightarrow> map_sum id (decimal_cmp (a, 0)) (or_error Invalid_numeric (px_decimal (lib_px lib) b))
     | _ \<Rightarrow> Inl Cannot_compare)"

definition float_ordering :: "eval_lib \<Rightarrow> int option \<Rightarrow> sql_value \<Rightarrow> eval_error + ordering" where
  "float_ordering lib a r = (case r of
       Float4 b \<Rightarrow> Inr (fcmp a (f32_num b)) | Float8 b \<Rightarrow> Inr (fcmp a (f64_num b))
     | Int2 b \<Rightarrow> Inr (fcmp a (f64_of_int (sint b))) | Int4 b \<Rightarrow> Inr (fcmp a (f64_of_int (sint b)))
     | Int8 b \<Rightarrow> Inr (fcmp a (f64_of_int (sint b)))
     | Numeric b \<Rightarrow> map_sum id (\<lambda>f. fcmp a (f64_num f)) (or_error Invalid_numeric (px_f64 (lib_px lib) b))
     | _ \<Rightarrow> Inl Cannot_compare)"

definition numeric_ordering :: "eval_lib \<Rightarrow> bytes \<Rightarrow> sql_value \<Rightarrow> eval_error + ordering" where
  "numeric_ordering lib a r = (let dec = or_error Invalid_numeric (px_decimal (lib_px lib) a); num = or_error Invalid_numeric (px_f64 (lib_px lib) a) in case r of
       Numeric b \<Rightarrow> (case (px_decimal (lib_px lib) a, px_decimal (lib_px lib) b) of (Some x, Some y) \<Rightarrow> Inr (decimal_cmp x y) | _ \<Rightarrow> Inl Invalid_numeric)
     | Int2 b \<Rightarrow> map_sum id (\<lambda>x. decimal_cmp x (sint b, 0)) dec | Int4 b \<Rightarrow> map_sum id (\<lambda>x. decimal_cmp x (sint b, 0)) dec
     | Int8 b \<Rightarrow> map_sum id (\<lambda>x. decimal_cmp x (sint b, 0)) dec
     | Float4 b \<Rightarrow> map_sum id (\<lambda>f. fcmp (f64_num f) (f32_num b)) num
     | Float8 b \<Rightarrow> map_sum id (\<lambda>f. fcmp (f64_num f) (f64_num b)) num
     | _ \<Rightarrow> Inl Cannot_compare)"

definition string_ordering :: "eval_lib \<Rightarrow> bytes \<Rightarrow> sql_value \<Rightarrow> eval_error + ordering" where
  "string_ordering lib a r = (case r of
       String b \<Rightarrow> Inr (cmp a b)
     | Uuid b \<Rightarrow> map_sum id (\<lambda>u. cmp u b) (or_error Invalid_uuid (px_uuid (lib_px lib) a))
     | Timestamp b \<Rightarrow> Inr (case parse_timestamp_string lib a of Some t \<Rightarrow> cmp t b | None \<Rightarrow> cmp a (lib_timestamp_text lib b))
     | Date b \<Rightarrow> Inr (case parse_date_string lib a of Some d \<Rightarrow> cmp d b | None \<Rightarrow> cmp a (lib_date_text lib b))
     | Int2 b \<Rightarrow> Inr (text_int_cmp 16 a (sint b)) | Int4 b \<Rightarrow> Inr (text_int_cmp 32 a (sint b)) | Int8 b \<Rightarrow> Inr (text_int_cmp 64 a (sint b))
     | Float4 b \<Rightarrow> Inr (case lib_f32 lib a of Some f \<Rightarrow> fcmp (f32_num f) (f32_num b) | None \<Rightarrow> cmp a (lib_f32_text lib b))
     | Float8 b \<Rightarrow> Inr (case px_f64 (lib_px lib) a of Some f \<Rightarrow> fcmp (f64_num f) (f64_num b) | None \<Rightarrow> cmp a (lib_f64_text lib b))
     | Boolean b \<Rightarrow> Inr (cmp (text_true a) b)
     | _ \<Rightarrow> Inl Cannot_compare)"

definition value_ordering :: "eval_lib \<Rightarrow> sql_value \<Rightarrow> sql_value \<Rightarrow> eval_error + ordering" where
  "value_ordering lib l r = (case l of
       Int2 a \<Rightarrow> (case r of String b \<Rightarrow> Inr (int_text_cmp 16 (sint a) b) | _ \<Rightarrow> int_ordering lib (sint a) r)
     | Int4 a \<Rightarrow> (case r of String b \<Rightarrow> Inr (int_text_cmp 32 (sint a) b) | Boolean b \<Rightarrow> Inr (cmp (sint a) (of_bool b)) | _ \<Rightarrow> int_ordering lib (sint a) r)
     | Int8 a \<Rightarrow> (case r of String b \<Rightarrow> Inr (int_text_cmp 64 (sint a) b) | Boolean b \<Rightarrow> Inr (cmp (sint a) (of_bool b)) | _ \<Rightarrow> int_ordering lib (sint a) r)
     | Float4 a \<Rightarrow> (case r of
           String b \<Rightarrow> Inr (case lib_f32 lib b of Some f \<Rightarrow> fcmp (f32_num a) (f32_num f) | None \<Rightarrow> cmp (lib_f32_text lib a) b)
         | _ \<Rightarrow> float_ordering lib (f32_num a) r)
     | Float8 a \<Rightarrow> (case r of
           String b \<Rightarrow> Inr (case px_f64 (lib_px lib) b of Some f \<Rightarrow> fcmp (f64_num a) (f64_num f) | None \<Rightarrow> cmp (lib_f64_text lib a) b)
         | _ \<Rightarrow> float_ordering lib (f64_num a) r)
     | Numeric a \<Rightarrow> numeric_ordering lib a r
     | String a \<Rightarrow> string_ordering lib a r
     | Uuid a \<Rightarrow> (case r of
           Uuid b \<Rightarrow> Inr (cmp a b)
         | String b \<Rightarrow> map_sum id (cmp a) (or_error Invalid_uuid (px_uuid (lib_px lib) b))
         | Bytes b \<Rightarrow> map_sum id (cmp a) (or_error Invalid_uuid (uuid_from_slice b))
         | _ \<Rightarrow> Inl Cannot_compare)
     | Bytes a \<Rightarrow> (case r of Uuid b \<Rightarrow> map_sum id (\<lambda>u. cmp u b) (or_error Invalid_uuid (uuid_from_slice a)) | _ \<Rightarrow> Inl Cannot_compare)
     | Boolean a \<Rightarrow> (case r of
           Boolean b \<Rightarrow> Inr (cmp a b) | String b \<Rightarrow> Inr (cmp a (text_true b))
         | Int4 b \<Rightarrow> Inr (cmp (of_bool a) (sint b)) | Int8 b \<Rightarrow> Inr (cmp (of_bool a) (sint b))
         | _ \<Rightarrow> Inl Cannot_compare)
     | Timestamp a \<Rightarrow> (case r of
           Timestamp b \<Rightarrow> Inr (cmp a b) | Date b \<Rightarrow> Inr (cmp (date_naive a) b)
         | String b \<Rightarrow> Inr (case parse_timestamp_string lib b of Some t \<Rightarrow> cmp a t | None \<Rightarrow> cmp (lib_timestamp_text lib a) b)
         | _ \<Rightarrow> Inl Cannot_compare)
     | Date a \<Rightarrow> (case r of
           Date b \<Rightarrow> Inr (cmp a b) | Timestamp b \<Rightarrow> Inr (cmp a (date_naive b))
         | String b \<Rightarrow> Inr (case parse_date_string lib b of Some d \<Rightarrow> cmp a d | None \<Rightarrow> cmp (lib_date_text lib a) b)
         | _ \<Rightarrow> Inl Cannot_compare)
     | _ \<Rightarrow> Inl Cannot_compare)"

definition eval_compare_values :: "eval_lib \<Rightarrow> (ordering \<Rightarrow> bool) \<Rightarrow> sql_value \<Rightarrow> sql_value \<Rightarrow> eval_error + sql_value" where
  "eval_compare_values lib f l r = (if l = Null \<or> r = Null then Inr Null
     else case special_operator_cmp l r of Some c \<Rightarrow> Inr (Boolean (f c))
     | None \<Rightarrow> map_sum id (\<lambda>c. Boolean (f c)) (value_ordering lib l r))"

text \<open>\<open>values_equal\<close>, which \<open>IN\<close>, \<open>CASE\<close> and \<open>IS DISTINCT FROM\<close> use.\<close>

definition int_eq :: "eval_lib \<Rightarrow> int \<Rightarrow> sql_value \<Rightarrow> bool" where
  "int_eq lib a r = (case r of
       Int2 b \<Rightarrow> a = sint b | Int4 b \<Rightarrow> a = sint b | Int8 b \<Rightarrow> a = sint b
     | Float4 b \<Rightarrow> feq (f32_of_int a) (f32_num b) | Float8 b \<Rightarrow> feq (f64_of_int a) (f64_num b)
     | Numeric b \<Rightarrow> (case px_decimal (lib_px lib) b of Some d \<Rightarrow> decimal_cmp (a, 0) d = Equal | None \<Rightarrow> False)
     | _ \<Rightarrow> False)"

definition text_bool_eq :: "bytes \<Rightarrow> bool \<Rightarrow> bool" where
  "text_bool_eq s b \<longleftrightarrow> chars s \<in> (if b then set [letters ''1'', letters ''true'', letters ''TRUE'', letters ''t'']
     else set [letters ''0'', letters ''false'', letters ''FALSE'', letters ''f''])"

definition text_eq :: "eval_lib \<Rightarrow> bytes \<Rightarrow> sql_value \<Rightarrow> bool" where
  "text_eq lib s r = (case r of
       Uuid b \<Rightarrow> px_uuid (lib_px lib) s = Some b
     | Int8 n \<Rightarrow> parse_int 64 s = Some (sint n) | Int4 n \<Rightarrow> parse_int 32 s = Some (sint n) | Int2 n \<Rightarrow> parse_int 16 s = Some (sint n)
     | Float8 n \<Rightarrow> (case px_f64 (lib_px lib) s of Some f \<Rightarrow> near_eq EPS64 (f64_num f) (f64_num n) | None \<Rightarrow> False)
     | Float4 n \<Rightarrow> (case lib_f32 lib s of Some f \<Rightarrow> near_eq EPS32 (f32_num f) (f32_num n) | None \<Rightarrow> False)
     | Boolean b \<Rightarrow> text_bool_eq s b
     | _ \<Rightarrow> False)"

definition numeric_eq :: "eval_lib \<Rightarrow> bytes \<Rightarrow> sql_value \<Rightarrow> bool" where
  "numeric_eq lib a r = (case r of
       Numeric b \<Rightarrow> a = b
     | Float8 b \<Rightarrow> (case px_f64 (lib_px lib) a of Some f \<Rightarrow> feq (f64_num f) (f64_num b) | None \<Rightarrow> False)
     | Float4 b \<Rightarrow> (case px_f64 (lib_px lib) a of Some f \<Rightarrow> feq (f64_num f) (f32_num b) | None \<Rightarrow> False)
     | _ \<Rightarrow> (case int_value r of Some b \<Rightarrow> (case px_decimal (lib_px lib) a of Some d \<Rightarrow> decimal_cmp d (b, 0) = Equal | None \<Rightarrow> False) | None \<Rightarrow> False))"

definition values_equal :: "eval_lib \<Rightarrow> sql_value \<Rightarrow> sql_value \<Rightarrow> bool" where
  "values_equal lib l r = (case special_operator_cmp l r of Some c \<Rightarrow> c = Equal | None \<Rightarrow> (case l of
       Int2 a \<Rightarrow> (case r of String s \<Rightarrow> text_eq lib s l | _ \<Rightarrow> int_eq lib (sint a) r)
     | Int4 a \<Rightarrow> (case r of String s \<Rightarrow> text_eq lib s l | _ \<Rightarrow> int_eq lib (sint a) r)
     | Int8 a \<Rightarrow> (case r of String s \<Rightarrow> text_eq lib s l | _ \<Rightarrow> int_eq lib (sint a) r)
     | Float4 a \<Rightarrow> (case r of
           Float4 b \<Rightarrow> feq (f32_num a) (f32_num b) | Float8 b \<Rightarrow> feq (f32_num a) (f64_num b)
         | String s \<Rightarrow> text_eq lib s l | Numeric b \<Rightarrow> (case px_f64 (lib_px lib) b of Some f \<Rightarrow> feq (f32_num a) (f64_num f) | None \<Rightarrow> False)
         | _ \<Rightarrow> (case int_value r of Some b \<Rightarrow> feq (f32_num a) (f32_of_int b) | None \<Rightarrow> False))
     | Float8 a \<Rightarrow> (case r of
           Float8 b \<Rightarrow> feq (f64_num a) (f64_num b) | Float4 b \<Rightarrow> feq (f64_num a) (f32_num b)
         | String s \<Rightarrow> text_eq lib s l | Numeric b \<Rightarrow> (case px_f64 (lib_px lib) b of Some f \<Rightarrow> feq (f64_num a) (f64_num f) | None \<Rightarrow> False)
         | _ \<Rightarrow> (case int_value r of Some b \<Rightarrow> feq (f64_num a) (f64_of_int b) | None \<Rightarrow> False))
     | Numeric a \<Rightarrow> numeric_eq lib a r
     | String a \<Rightarrow> (case r of String b \<Rightarrow> a = b | _ \<Rightarrow> text_eq lib a r)
     | Uuid a \<Rightarrow> (case r of Uuid b \<Rightarrow> a = b | String s \<Rightarrow> text_eq lib s l | _ \<Rightarrow> False)
     | Boolean a \<Rightarrow> (case r of Boolean b \<Rightarrow> a = b | String s \<Rightarrow> text_eq lib s l | _ \<Rightarrow> False)
     | Date a \<Rightarrow> r = Date a | Time a \<Rightarrow> r = Time a | Timestamp a \<Rightarrow> r = Timestamp a
     | _ \<Rightarrow> False))"

section \<open>Three-valued logic\<close>

definition to_tri_bool :: "sql_value \<Rightarrow> eval_error + bool option" where
  "to_tri_bool v = (case v of Boolean b \<Rightarrow> Inr (Some b) | Null \<Rightarrow> Inr None | _ \<Rightarrow> Inl Not_boolean)"

definition to_boolean :: "sql_value \<Rightarrow> eval_error + bool" where
  "to_boolean v = (case v of Boolean b \<Rightarrow> Inr b | Null \<Rightarrow> Inr False | _ \<Rightarrow> Inl Not_boolean)"

definition three_valued_and :: "sql_value \<Rightarrow> sql_value \<Rightarrow> eval_error + sql_value" where
  "three_valued_and left right = bind_result (to_tri_bool left) (\<lambda>l. bind_result (to_tri_bool right) (\<lambda>r.
     Inr (if l = Some False \<or> r = Some False then Boolean False else if l = Some True \<and> r = Some True then Boolean True else Null)))"

definition three_valued_or :: "sql_value \<Rightarrow> sql_value \<Rightarrow> eval_error + sql_value" where
  "three_valued_or left right = bind_result (to_tri_bool left) (\<lambda>l. bind_result (to_tri_bool right) (\<lambda>r.
     Inr (if l = Some True \<or> r = Some True then Boolean True else if l = Some False \<and> r = Some False then Boolean False else Null)))"

definition evaluate_is_distinct_from :: "eval_lib \<Rightarrow> bool \<Rightarrow> sql_value \<Rightarrow> sql_value \<Rightarrow> eval_error + sql_value" where
  "evaluate_is_distinct_from lib d l r = (let is_distinct =
       (if l = Null \<and> r = Null then False else if l = Null \<or> r = Null then True else \<not> values_equal lib l r)
     in Inr (Boolean (if d then is_distinct else \<not> is_distinct)))"

section \<open>Arithmetic\<close>

text \<open>
  The integer arms of \<open>arithmetic_add\<close>, \<open>arithmetic_subtract\<close>, \<open>arithmetic_multiply\<close> and
  \<open>arithmetic_divide\<close>: two \<open>i16\<close> are widened to \<open>i32\<close> and two \<open>i32\<close> to \<open>i64\<close>, where the operation
  is exact, and narrowed again when the result fits; an \<open>i64\<close> makes the operation checked.
\<close>

definition narrow16 :: "int \<Rightarrow> sql_value" where
  "narrow16 i = (if int_range 16 i then Int2 (word_of_int i) else Int4 (word_of_int i))"

definition narrow32 :: "int \<Rightarrow> sql_value" where
  "narrow32 i = (if int_range 32 i then Int4 (word_of_int i) else Int8 (word_of_int i))"

definition checked64 :: "int \<Rightarrow> eval_error + sql_value" where
  "checked64 i = (if int_range 64 i then Inr (Int8 (word_of_int i)) else Inl Overflow)"

definition int_arms :: "(int \<Rightarrow> int \<Rightarrow> int) \<Rightarrow> sql_value \<Rightarrow> sql_value \<Rightarrow> (eval_error + sql_value) option" where
  "int_arms f l r = (case (l, r) of
       (Int2 a, Int2 b) \<Rightarrow> Some (Inr (narrow16 (f (sint a) (sint b))))
     | (Int2 a, Int4 b) \<Rightarrow> Some (Inr (narrow32 (f (sint a) (sint b))))
     | (Int4 a, Int2 b) \<Rightarrow> Some (Inr (narrow32 (f (sint a) (sint b))))
     | (Int4 a, Int4 b) \<Rightarrow> Some (Inr (narrow32 (f (sint a) (sint b))))
     | (Int8 a, Int8 b) \<Rightarrow> Some (checked64 (f (sint a) (sint b)))
     | (Int4 a, Int8 b) \<Rightarrow> Some (checked64 (f (sint a) (sint b)))
     | (Int8 a, Int4 b) \<Rightarrow> Some (checked64 (f (sint a) (sint b)))
     | (Int2 a, Int8 b) \<Rightarrow> Some (checked64 (f (sint a) (sint b)))
     | (Int8 a, Int2 b) \<Rightarrow> Some (checked64 (f (sint a) (sint b)))
     | _ \<Rightarrow> None)"

text \<open>Integer division and remainder truncate towards zero.\<close>

definition trunc_div :: "int \<Rightarrow> int \<Rightarrow> int" where
  "trunc_div a b = sgn a * sgn b * (\<bar>a\<bar> div \<bar>b\<bar>)"

definition trunc_rem :: "int \<Rightarrow> int \<Rightarrow> int" where
  "trunc_rem a b = a - b * trunc_div a b"

definition is_zero :: "eval_lib \<Rightarrow> sql_value \<Rightarrow> bool" where
  "is_zero lib v = (case v of Int2 i \<Rightarrow> i = 0 | Int4 i \<Rightarrow> i = 0 | Int8 i \<Rightarrow> i = 0
     | Float4 f \<Rightarrow> f32_num f = Some 0 | Float8 f \<Rightarrow> f64_num f = Some 0
     | Numeric n \<Rightarrow> (case px_decimal (lib_px lib) n of Some d \<Rightarrow> decimal_cmp d (0, 0) = Equal | None \<Rightarrow> False)
     | _ \<Rightarrow> False)"

definition arithmetic :: "eval_lib \<Rightarrow> nat \<Rightarrow> (int \<Rightarrow> int \<Rightarrow> int) \<Rightarrow> sql_value \<Rightarrow> sql_value \<Rightarrow> eval_error + sql_value" where
  "arithmetic lib tag f l r = (if l = Null \<or> r = Null then Inr Null
     else case int_arms f l r of Some res \<Rightarrow> res | None \<Rightarrow> lib_arith lib tag l r)"

definition arithmetic_add :: "eval_lib \<Rightarrow> sql_value \<Rightarrow> sql_value \<Rightarrow> eval_error + sql_value" where
  "arithmetic_add lib l r = arithmetic lib 0 (+) l r"

definition arithmetic_subtract :: "eval_lib \<Rightarrow> sql_value \<Rightarrow> sql_value \<Rightarrow> eval_error + sql_value" where
  "arithmetic_subtract lib l r = arithmetic lib 1 (-) l r"

definition arithmetic_multiply :: "eval_lib \<Rightarrow> sql_value \<Rightarrow> sql_value \<Rightarrow> eval_error + sql_value" where
  "arithmetic_multiply lib l r = arithmetic lib 2 (*) l r"

definition divide_op :: "eval_lib \<Rightarrow> sql_value \<Rightarrow> sql_value \<Rightarrow> eval_error + sql_value" where
  "divide_op lib l r = (if l = Null \<or> r = Null then Inr Null
     else if is_zero lib r then Inl Division_by_zero else arithmetic lib 3 trunc_div l r)"

definition arithmetic_modulo :: "sql_value \<Rightarrow> sql_value \<Rightarrow> eval_error + sql_value" where
  "arithmetic_modulo l r = (if l = Null \<or> r = Null then Inr Null else case (l, r) of
       (Int2 a, Int2 b) \<Rightarrow> if b = 0 then Inl Division_by_zero
         else if int_range 16 (trunc_div (sint a) (sint b)) then Inr (Int2 (word_of_int (trunc_rem (sint a) (sint b)))) else Inl Overflow
     | (Int4 a, Int4 b) \<Rightarrow> if b = 0 then Inl Division_by_zero
         else if int_range 32 (trunc_div (sint a) (sint b)) then Inr (Int4 (word_of_int (trunc_rem (sint a) (sint b)))) else Inl Overflow
     | (Int8 a, Int8 b) \<Rightarrow> if b = 0 then Inl Division_by_zero
         else if int_range 64 (trunc_div (sint a) (sint b)) then Inr (Int8 (word_of_int (trunc_rem (sint a) (sint b)))) else Inl Overflow
     | (Int4 a, Int8 b) \<Rightarrow> if b = 0 then Inl Division_by_zero
         else if int_range 64 (trunc_div (sint a) (sint b)) then Inr (Int8 (word_of_int (trunc_rem (sint a) (sint b)))) else Inl Overflow
     | (Int8 a, Int4 b) \<Rightarrow> if b = 0 then Inl Division_by_zero
         else if int_range 64 (trunc_div (sint a) (sint b)) then Inr (Int8 (word_of_int (trunc_rem (sint a) (sint b)))) else Inl Overflow
     | _ \<Rightarrow> Inl Bad_operand)"

datatype unary_op = UNot | UMinus | UPlus

definition negate_numeric :: "bytes \<Rightarrow> bytes" where
  "negate_numeric n = (if n = special_text NaN then n else case n of c # rest \<Rightarrow> if c = 0x2D then rest else 0x2D # n | [] \<Rightarrow> 0x2D # n)"

definition evaluate_unary_op :: "unary_op \<Rightarrow> sql_value \<Rightarrow> eval_error + sql_value" where
  "evaluate_unary_op op v = (case op of
       UNot \<Rightarrow> if v = Null then Inr Null else map_sum id (\<lambda>b. Boolean (\<not> b)) (to_boolean v)
     | UMinus \<Rightarrow> (case v of
           Int2 i \<Rightarrow> if int_range 16 (- sint i) then Inr (Int2 (- i)) else Inl Overflow
         | Int4 i \<Rightarrow> if int_range 32 (- sint i) then Inr (Int4 (- i)) else Inl Overflow
         | Int8 i \<Rightarrow> if int_range 64 (- sint i) then Inr (Int8 (- i)) else Inl Overflow
         | Float4 f \<Rightarrow> Inr (Float4 (flip_bit 31 f))
         | Float8 f \<Rightarrow> Inr (Float8 (flip_bit 63 f))
         | Numeric n \<Rightarrow> Inr (Numeric (negate_numeric n))
         | _ \<Rightarrow> Inl Bad_operand)
     | UPlus \<Rightarrow> Inl Unsupported)"

section \<open>Patterns and arrays\<close>

text \<open>The regular expression of a \<open>LIKE\<close> pattern, in code points.\<close>

definition regex_special :: "nat \<Rightarrow> bool" where
  "regex_special c \<longleftrightarrow> c \<in> set (letters ''^$.*+?{}[]|()'')"

fun like_body :: "nat list \<Rightarrow> nat list" where
  "like_body [] = []"
| "like_body (c # cs) = (if c = 0x5C then (case cs of [] \<Rightarrow> []
       | n # cs' \<Rightarrow> (if regex_special n \<or> n = 0x5C then [0x5C, n] else [n]) @ like_body cs')
     else if c = 0x25 then [0x2E, 0x2A] @ like_body cs
     else if c = 0x5F then 0x2E # like_body cs
     else if regex_special c then [0x5C, c] @ like_body cs
     else c # like_body cs)"

definition like_pattern_to_regex :: "bytes \<Rightarrow> nat list" where
  "like_pattern_to_regex pat = 0x5E # like_body (chars pat) @ [0x24]"

definition like_op :: "eval_lib \<Rightarrow> bool \<Rightarrow> sql_value \<Rightarrow> sql_value \<Rightarrow> eval_error + sql_value" where
  "like_op lib negated l r = (if l = Null \<or> r = Null then Inr Null else case l of
       String s \<Rightarrow> (case r of
           String pat \<Rightarrow> map_sum id (\<lambda>m. Boolean (if negated then \<not> m else m)) (or_error Bad_pattern (lib_regex lib (like_pattern_to_regex pat) s))
         | _ \<Rightarrow> Inl Bad_operand)
     | _ \<Rightarrow> Inl Bad_operand)"

definition get_array_element :: "sql_value list \<Rightarrow> int \<Rightarrow> sql_value" where
  "get_array_element arr idx = (if idx < 1 then Null else if nat (idx - 1) < length arr then arr ! nat (idx - 1) else Null)"

definition evaluate_array_subscript :: "sql_value \<Rightarrow> sql_value \<Rightarrow> eval_error + sql_value" where
  "evaluate_array_subscript arr idx = (case (arr, int_value idx) of
       (Array xs, Some i) \<Rightarrow> Inr (get_array_element xs i)
     | _ \<Rightarrow> if arr = Null \<or> idx = Null then Inr Null else Inl Bad_operand)"

text \<open>\<open>parse_pg_text_array\<close>: the elements of an array literal.\<close>

fun quoted_element :: "nat list \<Rightarrow> nat list \<times> nat list" where
  "quoted_element [] = ([], [])"
| "quoted_element (c # cs) = (if c = 0x5C then (case cs of [] \<Rightarrow> ([], []) | e # cs' \<Rightarrow> apfst ((#) e) (quoted_element cs'))
     else if c = 0x22 then ([], cs)
     else apfst ((#) c) (quoted_element cs))"

definition next_element :: "nat list \<Rightarrow> sql_value \<times> nat list" where
  "next_element s = (let cs = dropWhile is_whitespace s in case cs of
       q # r \<Rightarrow> if q = 0x22 then (let (x, r') = quoted_element r in (String (utf8 x), dropWhile (\<lambda>c. c \<noteq> 0x2C) r'))
         else (let x = trim (takeWhile (\<lambda>c. c \<noteq> 0x2C) cs)
           in (if same_letters x (letters ''NULL'') then Null else String (utf8 x), dropWhile (\<lambda>c. c \<noteq> 0x2C) cs))
     | [] \<Rightarrow> (String [], []))"

lemma quoted_element_length: "length (snd (quoted_element cs)) \<le> length cs"
proof (induction cs rule: quoted_element.induct)
  case (2 c cs)
  then show ?case by (cases cs) (simp_all add: le_SucI)
qed simp

lemma next_element_length: "length (snd (next_element s)) \<le> length s"
proof -
  let ?cs = "dropWhile is_whitespace s"
  have cs: "length ?cs \<le> length s" by (rule length_dropWhile_le)
  show ?thesis
  proof (cases ?cs)
    case (Cons q r)
    have "length (dropWhile (\<lambda>c. c \<noteq> 0x2C) (snd (quoted_element r))) \<le> length r"
      using length_dropWhile_le quoted_element_length by (rule le_trans)
    moreover have "length (dropWhile (\<lambda>c. c \<noteq> 0x2C) (q # r)) \<le> length (q # r)" by (rule length_dropWhile_le)
    ultimately show ?thesis using cs unfolding next_element_def Let_def Cons by (simp add: split_beta)
  next
    case Nil
    then show ?thesis unfolding next_element_def Let_def Nil by simp
  qed
qed

function array_elements :: "nat list \<Rightarrow> sql_value list" where
  "array_elements s = (let (v, rest) = next_element s in v # (case rest of [] \<Rightarrow> [] | c # cs \<Rightarrow> array_elements cs))"
  by pat_completeness auto
termination
proof (relation "measure length")
  fix s v :: "nat list" and x :: "sql_value \<times> nat list" and va rest c cs
  assume "x = next_element s" "(va, rest) = x" "rest = c # cs"
  then show "(cs, s) \<in> measure length" using next_element_length [of s] by (metis Suc_le_lessD in_measure length_Cons snd_conv)
qed simp

declare array_elements.simps [simp del]

definition parse_pg_text_array :: "bytes \<Rightarrow> sql_value list option" where
  "parse_pg_text_array s = (let t = trim (chars s) in
     if t \<noteq> [] \<and> hd t = 0x7B \<and> tl t \<noteq> [] \<and> last t = 0x7D
     then Some (let inner = butlast (tl t) in if trim inner = [] then [] else array_elements inner) else None)"

section \<open>Swapping the operands of a comparison\<close>

definition flip :: "ordering \<Rightarrow> ordering" where
  "flip c = (case c of Less \<Rightarrow> Greater | Equal \<Rightarrow> Equal | Greater \<Rightarrow> Less)"

lemma flip_simps [simp]: "flip Less = Greater" "flip Equal = Equal" "flip Greater = Less"
  by (simp_all add: flip_def)

lemma flip_cmp [simp]: "flip (cmp a b) = cmp b a"
  by (auto simp: cmp_def)

lemma flip_fcmp [simp]: "flip (fcmp a b) = fcmp b a"
  by (cases a; cases b) (simp_all add: fcmp_def partial_cmp_def)

lemma flip_decimal [simp]: "flip (decimal_cmp a b) = decimal_cmp b a"
  by (simp add: decimal_cmp_def)

lemma flip_text_int [simp]: "flip (text_int_cmp w s i) = int_text_cmp w i s" "flip (int_text_cmp w i s) = text_int_cmp w s i"
  by (simp_all add: text_int_cmp_def int_text_cmp_def split: option.split)

lemma flip_if: "flip (if b then c else d) = (if b then flip c else flip d)"
  by simp

lemma flip_or_error: "map_sum id g (map_sum id f (or_error e x)) = map_sum id (\<lambda>y. g (f y)) (or_error e x)"
  by (cases x) simp_all

lemmas ordering_defs = value_ordering_def int_ordering_def float_ordering_def numeric_ordering_def string_ordering_def

lemma flip_option: "flip (case x of Some y \<Rightarrow> f y | None \<Rightarrow> c) = (case x of Some y \<Rightarrow> flip (f y) | None \<Rightarrow> flip c)"
  by (cases x) simp_all

lemma value_ordering_swap: "value_ordering lib r l = map_sum id flip (value_ordering lib l r)"
  by (cases l; cases r) (simp_all add: ordering_defs flip_or_error flip_option Let_def split: option.split)

lemma special_operator_swap: "special_operator_cmp r l = map_option flip (special_operator_cmp l r)"
  by (cases "numeric_rank l"; cases "numeric_rank r") (simp_all add: special_operator_cmp_def)

lemma eval_compare_swap: "eval_compare_values lib f r l = eval_compare_values lib (\<lambda>c. f (flip c)) l r"
  unfolding eval_compare_values_def special_operator_swap [of r l] value_ordering_swap [of lib r l]
  by (cases "special_operator_cmp l r"; cases "value_ordering lib l r") auto

section \<open>Exact integers\<close>

lemma sint_of_range: "int_range LENGTH('a) i \<Longrightarrow> sint (word_of_int i :: 'a::len word) = i"
  unfolding sint_sbintrunc' by (simp add: int_range_def signed_take_bit_int_eq_self)

lemma int_range_sint: "int_range LENGTH('a) (sint w)" for w :: "'a::len word"
  using sint_greater_eq [of w] sint_less [of w] by (simp add: int_range_def)

lemma int_range_mono: "int_range v i \<Longrightarrow> v \<le> w \<Longrightarrow> int_range w i"
proof -
  assume "int_range v i" "v \<le> w"
  moreover then have "(2::int) ^ (v - 1) \<le> 2 ^ (w - 1)" by (intro power_increasing) auto
  ultimately show ?thesis unfolding int_range_def by linarith
qed

lemma narrow_exact:
  "int_range 32 i \<Longrightarrow> int_value (narrow16 i) = Some i" "int_range 64 i \<Longrightarrow> int_value (narrow32 i) = Some i"
  using sint_of_range [where 'a = 16, of i] sint_of_range [where 'a = 32, of i] sint_of_range [where 'a = 64, of i]
  by (simp_all add: narrow16_def narrow32_def int_value_def)

text \<open>An operation that two small operands cannot take far.\<close>

definition widening :: "(int \<Rightarrow> int \<Rightarrow> int) \<Rightarrow> int \<Rightarrow> int \<Rightarrow> bool" where
  "widening f a b \<longleftrightarrow> (int_range 16 a \<and> int_range 16 b \<longrightarrow> int_range 32 (f a b)) \<and> (int_range 32 a \<and> int_range 32 b \<longrightarrow> int_range 64 (f a b))"

lemma widening_plus_minus: "widening (+) a b" "widening (-) a b"
  by (auto simp: widening_def int_range_def)

lemma abs_range: "int_range w i \<Longrightarrow> \<bar>i\<bar> \<le> 2 ^ (w - 1)"
  by (auto simp: int_range_def abs_le_iff)

lemma widening_mult: "widening (*) a b"
proof -
  have "\<bar>a * b\<bar> \<le> 2 ^ (w - 1) * 2 ^ (w - 1)" if "int_range w a" "int_range w b" for w
    unfolding abs_mult using abs_range [OF that(1)] abs_range [OF that(2)] by (intro mult_mono) auto
  from this [of 16] this [of 32] show ?thesis by (auto simp: widening_def int_range_def abs_le_iff)
qed

lemma trunc_div_abs: "\<bar>trunc_div a b\<bar> \<le> \<bar>a\<bar>"
proof -
  have "\<bar>a\<bar> div \<bar>b\<bar> \<le> \<bar>a\<bar>" using zdiv_mono2 [of "\<bar>a\<bar>" 1 "\<bar>b\<bar>"] by (cases "b = 0") (simp_all del: div_abs_eq)
  moreover have nonneg: "0 \<le> \<bar>a\<bar> div \<bar>b\<bar>" by (cases "b = 0") (simp_all add: pos_imp_zdiv_nonneg_iff del: div_abs_eq)
  then have "\<bar>trunc_div a b\<bar> \<le> \<bar>a\<bar> div \<bar>b\<bar>" unfolding trunc_div_def abs_mult abs_sgn_eq abs_of_nonneg [OF nonneg] by simp
  ultimately show ?thesis by simp
qed

lemma widening_div: "widening trunc_div a b"
proof -
  have "\<bar>trunc_div a b\<bar> \<le> 2 ^ (w - 1)" if "int_range w a" for w
    using trunc_div_abs [of a b] abs_range [OF that] by simp
  from this [of 16] this [of 32] show ?thesis by (auto simp: widening_def int_range_def abs_le_iff)
qed

text \<open>The result \<open>i\<close> as an integer of some width, or the overflow of \<open>BIGINT\<close>.\<close>

definition exact_result :: "int \<Rightarrow> eval_error + sql_value \<Rightarrow> bool" where
  "exact_result i res = (if int_range 64 i then (case res of Inr v \<Rightarrow> int_value v = Some i | Inl _ \<Rightarrow> False) else res = Inl Overflow)"

lemma exact_results:
  "int_range 32 i \<Longrightarrow> exact_result i (Inr (narrow16 i))" "int_range 64 i \<Longrightarrow> exact_result i (Inr (narrow32 i))" "exact_result i (checked64 i)"
  using int_range_mono [of 32 i 64] sint_of_range [where 'a = 64, of i]
  by (simp_all add: exact_result_def narrow_exact, simp add: checked64_def int_value_def)

lemma int_arms_exact:
  assumes "int_value l = Some a" "int_value r = Some b" "widening f a b"
  shows "exact_result (f a b) (the (int_arms f l r))" "int_arms f l r \<noteq> None"
proof -
  have s: "int_range 16 (sint x)" "int_range 32 (sint x)" "int_range 32 (sint y)" for x :: u16 and y :: u32
    using int_range_sint [of x] int_range_sint [of y] int_range_mono [of 16 "sint x" 32] by simp_all
  have f: "int_range 16 a \<Longrightarrow> int_range 16 b \<Longrightarrow> int_range 32 (f a b)" "int_range 32 a \<Longrightarrow> int_range 32 b \<Longrightarrow> int_range 64 (f a b)"
    using assms(3) by (simp_all add: widening_def)
  from int_value_cases [OF assms(1)] int_value_cases [OF assms(2)]
  have "exact_result (f a b) (the (int_arms f l r)) \<and> int_arms f l r \<noteq> None"
    using assms(1,2) s f by (elim disjE exE) (auto simp: int_arms_def int_value_def intro!: exact_results)
  then show "exact_result (f a b) (the (int_arms f l r))" "int_arms f l r \<noteq> None" by simp_all
qed

lemma trunc_div_rem: "a = b * trunc_div a b + trunc_rem a b" "b \<noteq> 0 \<Longrightarrow> \<bar>trunc_rem a b\<bar> < \<bar>b\<bar>" "b \<noteq> 0 \<Longrightarrow> 0 \<le> trunc_rem a b * a"
proof -
  show "a = b * trunc_div a b + trunc_rem a b" by (simp add: trunc_rem_def)
  have "b * trunc_div a b = sgn a * (\<bar>b\<bar> * (\<bar>a\<bar> div \<bar>b\<bar>))" by (simp add: trunc_div_def abs_sgn algebra_simps)
  then have r: "trunc_rem a b = sgn a * (\<bar>a\<bar> mod \<bar>b\<bar>)"
    by (simp add: trunc_rem_def minus_mult_div_eq_mod [symmetric] right_diff_distrib sgn_mult_abs)
  show "b \<noteq> 0 \<Longrightarrow> \<bar>trunc_rem a b\<bar> < \<bar>b\<bar>" unfolding r by (auto simp: abs_mult sgn_if)
  show "b \<noteq> 0 \<Longrightarrow> 0 \<le> trunc_rem a b * a" unfolding r by (auto simp: sgn_if intro: mult_nonneg_nonneg mult_nonneg_nonpos)
qed

section \<open>Integers and their texts\<close>

lemma digits_correct: "digits_value (digits n) = n \<and> list_all is_digit (digits n) \<and> digits n \<noteq> []"
proof (induction n rule: digits.induct)
  case (1 n)
  have d: "unat (48 + word_of_nat k :: u8) = 48 + k" if "k < 10" for k using that unat_of_nat_u8 [of "48 + k"] by simp
  show ?case
  proof (cases "n < 10")
    case True
    then show ?thesis using d [of n] by (simp add: digits.simps [of n] digits_value_def is_digit_def)
  next
    case False
    then show ?thesis using 1 d [of "n mod 10"] by (simp add: digits.simps [of n] digits_value_def is_digit_def div_mult_mod_eq [of n 10])
  qed
qed

lemma digit_not_sign: "list_all is_digit ds \<Longrightarrow> ds \<noteq> [] \<Longrightarrow> hd ds \<noteq> 0x2B \<and> hd ds \<noteq> 0x2D"
  by (cases ds) (auto simp: is_digit_def)

lemma int_text_parse: "int_range w i \<Longrightarrow> parse_int w (int_text i) = Some i"
proof (cases "i < 0")
  case True
  moreover assume "int_range w i"
  ultimately show ?thesis using digits_correct [of "nat (- i)"] by (simp add: parse_int_def int_text_def)
next
  case False
  moreover assume "int_range w i"
  ultimately show ?thesis using digits_correct [of "nat i"] digit_not_sign [of "digits (nat i)"]
    by (cases "digits (nat i)") (simp_all add: parse_int_def int_text_def)
qed

end
