(* ===== verification/Evaluator.thy ===== *)
theory Evaluator
  imports Eval_Ops
begin

text \<open>
  The expression evaluator of \<^verbatim>\<open>src/src/sql/evaluator.rs\<close>: expressions
  (\<^verbatim>\<open>src/src/sql/logical_plan.rs\<close>), column resolution (\<^verbatim>\<open>src/src/types.rs\<close>), \<open>evaluate\<close> with its
  loops, and \<open>bind\<close>, which resolves columns and function names once for all rows. The loops of
  the code run over lists of the results of the operands; a result that the code does not reach
  is not looked at. A subquery plan is a number.
\<close>

section \<open>Schemas\<close>

record ev_column = column +
  col_source_table :: "string option"
  col_source_name :: "string option"

type_synonym ev_schema = "ev_column list"

definition schema_column_index :: "ev_schema \<Rightarrow> string \<Rightarrow> nat option" where
  "schema_column_index schema name = column_position name (map column.truncate schema)"

fun qualified_loop :: "string \<Rightarrow> string \<Rightarrow> nat \<Rightarrow> nat option \<Rightarrow> ev_schema \<Rightarrow> nat option" where
  "qualified_loop t name i by_real [] = by_real"
| "qualified_loop t name i by_real (c # cs) = (if col_name c \<noteq> name then qualified_loop t name (Suc i) by_real cs
     else if col_source_table c = Some t then Some i
     else qualified_loop t name (Suc i) (if by_real = None \<and> col_source_name c = Some t then Some i else by_real) cs)"

definition get_qualified_column_index :: "ev_schema \<Rightarrow> string option \<Rightarrow> string \<Rightarrow> nat option" where
  "get_qualified_column_index schema table name = (case table of
       None \<Rightarrow> schema_column_index schema name
     | Some t \<Rightarrow> qualified_loop t name 0 None schema)"

section \<open>Expressions\<close>

datatype bin_op = BPlus | BMinus | BMultiply | BDivide | BModulo | BEq | BNotEq | BIsDistinctFrom | BIsNotDistinctFrom | BLt | BLtEq
  | BGt | BGtEq | BAnd | BOr | BLike | BNotLike | BILike | BNotILike | BRegexMatch | BRegexIMatch | BNotRegexMatch | BNotRegexIMatch
  | BSimilarTo | BNotSimilarTo | BVectorL2 | BVectorCosine | BVectorInner | BJsonGet | BJsonGetText | BJsonContains | BJsonContainedBy
  | BJsonExists | BJsonExistsAny | BJsonExistsAll | BArrayConcat | BStringConcat | BTsMatch | BJsonPathGet | BJsonPathGetText

datatype expr =
    EColumn "string option" string
  | ELiteral sql_value
  | EBinary expr bin_op expr
  | EUnary unary_op expr
  | EAggregate string "expr list" bool
  | EScalar string "expr list"
  | ECase "expr option" "(expr \<times> expr) list" "expr option"
  | ECast expr data_type
  | EIsNull expr bool
  | EBetween expr expr expr bool
  | EInList expr "expr list" bool
  | EInSet expr "sql_value list" bool
  | EScalarSubquery nat
  | EInSubquery expr nat bool
  | EExists nat bool
  | EDefaultValue
  | EWildcard
  | EParameter nat
  | ENewRow string
  | EOldRow string
  | ESubscript expr expr
  | ETuple "expr list"
  | EWindow string "expr list"
  | EBoundColumn nat "string option" string

record trigger_rows =
  new_tuple :: "sql_value list option"
  old_tuple :: "sql_value list option"
  row_schema :: ev_schema

record evaluator =
  ev_schema :: ev_schema
  ev_parameters :: "sql_value list"
  ev_trigger :: "trigger_rows option"

definition evaluator_new :: "ev_schema \<Rightarrow> evaluator" where
  "evaluator_new schema = \<lparr>ev_schema = schema, ev_parameters = [], ev_trigger = None\<rparr>"

definition evaluator_with_parameters :: "ev_schema \<Rightarrow> sql_value list \<Rightarrow> evaluator" where
  "evaluator_with_parameters schema ps = \<lparr>ev_schema = schema, ev_parameters = ps, ev_trigger = None\<rparr>"

definition evaluator_with_trigger :: "ev_schema \<Rightarrow> sql_value list \<Rightarrow> trigger_rows \<Rightarrow> evaluator" where
  "evaluator_with_trigger schema ps tr = \<lparr>ev_schema = schema, ev_parameters = ps, ev_trigger = Some tr\<rparr>"

section \<open>Leaves\<close>

definition tuple_get :: "sql_value list \<Rightarrow> nat \<Rightarrow> eval_error + sql_value" where
  "tuple_get tp i = (if i < length tp then Inr (tp ! i) else Inl Out_of_bounds)"

definition parameter_value :: "evaluator \<Rightarrow> nat \<Rightarrow> eval_error + sql_value" where
  "parameter_value ev i = (if i = 0 then Inl Parameter_zero
     else if i - 1 < length (ev_parameters ev) then Inr (ev_parameters ev ! (i - 1)) else Inl Parameter_missing)"

definition lower_ascii :: "string \<Rightarrow> string" where
  "lower_ascii s = map (\<lambda>c. char_of (ascii_lower (of_char c))) s"

definition row_value :: "trigger_rows \<Rightarrow> bool \<Rightarrow> string \<Rightarrow> eval_error + sql_value" where
  "row_value tr is_new name = (case (if is_new then new_tuple tr else old_tuple tr) of
       None \<Rightarrow> Inl No_trigger_row
     | Some row \<Rightarrow> (case schema_column_index (row_schema tr) name of None \<Rightarrow> Inl Column_missing | Some i \<Rightarrow> tuple_get row i))"

definition trigger_column :: "evaluator \<Rightarrow> string option \<Rightarrow> string \<Rightarrow> (eval_error + sql_value) option" where
  "trigger_column ev table name = (case (ev_trigger ev, table) of
       (Some tr, Some t) \<Rightarrow> (let q = lower_ascii t in if q = ''new'' \<or> q = ''old'' then Some (row_value tr (q = ''new'') name) else None)
     | _ \<Rightarrow> None)"

definition column_value :: "evaluator \<Rightarrow> sql_value list \<Rightarrow> string option \<Rightarrow> string \<Rightarrow> eval_error + sql_value" where
  "column_value ev tp table name = (case trigger_column ev table name of Some r \<Rightarrow> r
     | None \<Rightarrow> (case get_qualified_column_index (ev_schema ev) table name of None \<Rightarrow> Inl Column_missing | Some i \<Rightarrow> tuple_get tp i))"

definition trigger_row :: "evaluator \<Rightarrow> bool \<Rightarrow> string \<Rightarrow> eval_error + sql_value" where
  "trigger_row ev is_new name = (case ev_trigger ev of None \<Rightarrow> Inl No_trigger_row | Some tr \<Rightarrow> row_value tr is_new name)"

section \<open>Operators\<close>

definition and_short_circuit :: "eval_error + sql_value \<Rightarrow> eval_error + sql_value \<Rightarrow> eval_error + sql_value" where
  "and_short_circuit l r = bind_result l (\<lambda>lv. case lv of
       Boolean b \<Rightarrow> if b then bind_result r (\<lambda>rv. case rv of Boolean c \<Rightarrow> Inr (Boolean c) | Null \<Rightarrow> Inr Null | _ \<Rightarrow> Inl Not_boolean)
         else Inr (Boolean False)
     | Null \<Rightarrow> bind_result r (\<lambda>rv. case rv of Boolean c \<Rightarrow> Inr (if c then Null else Boolean False) | Null \<Rightarrow> Inr Null | _ \<Rightarrow> Inl Not_boolean)
     | _ \<Rightarrow> Inl Not_boolean)"

definition or_short_circuit :: "eval_error + sql_value \<Rightarrow> eval_error + sql_value \<Rightarrow> eval_error + sql_value" where
  "or_short_circuit l r = bind_result l (\<lambda>lv. case lv of
       Boolean b \<Rightarrow> if b then Inr (Boolean True)
         else bind_result r (\<lambda>rv. case rv of Boolean c \<Rightarrow> Inr (Boolean c) | Null \<Rightarrow> Inr Null | _ \<Rightarrow> Inl Not_boolean)
     | Null \<Rightarrow> bind_result r (\<lambda>rv. case rv of Boolean c \<Rightarrow> Inr (if c then Boolean True else Null) | Null \<Rightarrow> Inr Null | _ \<Rightarrow> Inl Not_boolean)
     | _ \<Rightarrow> Inl Not_boolean)"

text \<open>The numbers of the operators whose arms are parameters.\<close>

definition operator_tag :: "bin_op \<Rightarrow> nat" where
  "operator_tag op = (case op of BILike \<Rightarrow> 0 | BNotILike \<Rightarrow> 1 | BRegexMatch \<Rightarrow> 2 | BRegexIMatch \<Rightarrow> 3 | BNotRegexMatch \<Rightarrow> 4
     | BNotRegexIMatch \<Rightarrow> 5 | BSimilarTo \<Rightarrow> 6 | BNotSimilarTo \<Rightarrow> 7 | BVectorL2 \<Rightarrow> 8 | BVectorCosine \<Rightarrow> 9 | BVectorInner \<Rightarrow> 10
     | BJsonGet \<Rightarrow> 11 | BJsonGetText \<Rightarrow> 12 | BJsonContains \<Rightarrow> 13 | BJsonContainedBy \<Rightarrow> 14 | BJsonExists \<Rightarrow> 15 | BJsonExistsAny \<Rightarrow> 16
     | BJsonExistsAll \<Rightarrow> 17 | BArrayConcat \<Rightarrow> 18 | BStringConcat \<Rightarrow> 19 | BTsMatch \<Rightarrow> 20 | BJsonPathGet \<Rightarrow> 21 | _ \<Rightarrow> 22)"

definition evaluate_binary_op :: "eval_lib \<Rightarrow> bin_op \<Rightarrow> sql_value \<Rightarrow> sql_value \<Rightarrow> eval_error + sql_value" where
  "evaluate_binary_op lib op l r = (case op of
       BEq \<Rightarrow> eval_compare_values lib (\<lambda>c. c = Equal) l r
     | BNotEq \<Rightarrow> eval_compare_values lib (\<lambda>c. c \<noteq> Equal) l r
     | BIsDistinctFrom \<Rightarrow> evaluate_is_distinct_from lib True l r
     | BIsNotDistinctFrom \<Rightarrow> evaluate_is_distinct_from lib False l r
     | BLt \<Rightarrow> eval_compare_values lib (\<lambda>c. c = Less) l r
     | BLtEq \<Rightarrow> eval_compare_values lib (\<lambda>c. c \<noteq> Greater) l r
     | BGt \<Rightarrow> eval_compare_values lib (\<lambda>c. c = Greater) l r
     | BGtEq \<Rightarrow> eval_compare_values lib (\<lambda>c. c \<noteq> Less) l r
     | BAnd \<Rightarrow> three_valued_and l r
     | BOr \<Rightarrow> three_valued_or l r
     | BPlus \<Rightarrow> arithmetic_add lib l r
     | BMinus \<Rightarrow> arithmetic_subtract lib l r
     | BMultiply \<Rightarrow> arithmetic_multiply lib l r
     | BDivide \<Rightarrow> divide_op lib l r
     | BModulo \<Rightarrow> arithmetic_modulo l r
     | BLike \<Rightarrow> like_op lib False l r
     | BNotLike \<Rightarrow> like_op lib True l r
     | _ \<Rightarrow> lib_operator lib (operator_tag op) l r)"

text \<open>Row constructors. The pairs are the results of the elements; \<open>saw_null\<close> is the loop's flag.\<close>

definition row_decide :: "eval_lib \<Rightarrow> bin_op \<Rightarrow> sql_value \<Rightarrow> sql_value \<Rightarrow> eval_error + sql_value" where
  "row_decide lib op l r = (case op of
       BEq \<Rightarrow> Inr (Boolean False) | BNotEq \<Rightarrow> Inr (Boolean True)
     | BLt \<Rightarrow> eval_compare_values lib (\<lambda>c. c = Less) l r | BLtEq \<Rightarrow> eval_compare_values lib (\<lambda>c. c = Less) l r
     | BGt \<Rightarrow> eval_compare_values lib (\<lambda>c. c = Greater) l r | BGtEq \<Rightarrow> eval_compare_values lib (\<lambda>c. c = Greater) l r
     | _ \<Rightarrow> Inl Row_operator)"

definition row_equal :: "bin_op \<Rightarrow> eval_error + sql_value" where
  "row_equal op = (case op of BEq \<Rightarrow> Inr (Boolean True) | BLtEq \<Rightarrow> Inr (Boolean True) | BGtEq \<Rightarrow> Inr (Boolean True)
     | BNotEq \<Rightarrow> Inr (Boolean False) | BLt \<Rightarrow> Inr (Boolean False) | BGt \<Rightarrow> Inr (Boolean False) | _ \<Rightarrow> Inl Row_operator)"

fun row_loop :: "eval_lib \<Rightarrow> bin_op \<Rightarrow> bool \<Rightarrow> ((eval_error + sql_value) \<times> (eval_error + sql_value)) list \<Rightarrow> eval_error + sql_value" where
  "row_loop lib op saw_null [] = (if saw_null then Inr Null else row_equal op)"
| "row_loop lib op saw_null (p # ps) = bind_result (fst p) (\<lambda>lv. bind_result (snd p) (\<lambda>rv.
     if lv = Null \<or> rv = Null
     then (if op \<in> {BLt, BLtEq, BGt, BGtEq} then Inr Null else row_loop lib op True ps)
     else bind_result (eval_compare_values lib (\<lambda>c. c = Equal) lv rv) (\<lambda>eq.
       if eq = Boolean True then row_loop lib op saw_null ps else row_decide lib op lv rv)))"

definition evaluate_tuple_compare ::
    "eval_lib \<Rightarrow> bin_op \<Rightarrow> (eval_error + sql_value) list \<Rightarrow> (eval_error + sql_value) list \<Rightarrow> eval_error + sql_value" where
  "evaluate_tuple_compare lib op ls rs = (if length ls \<noteq> length rs then Inl Row_size else row_loop lib op False (zip ls rs))"

text \<open>The loop of \<open>IN\<close>, with the array form that \<open>= ANY\<close> is planned as.\<close>

definition ANY_ARRAY_MARKER_FUNCTION :: string where
  "ANY_ARRAY_MARKER_FUNCTION = ''__hdb_any_array''"

datatype in_item = Item "eval_error + sql_value" | Any_array "(eval_error + sql_value) list"

fun any_loop :: "eval_lib \<Rightarrow> sql_value \<Rightarrow> bool \<Rightarrow> sql_value list \<Rightarrow> bool \<times> bool" where
  "any_loop lib v has_null [] = (False, has_null)"
| "any_loop lib v has_null (x # xs) = (if x = Null then any_loop lib v True xs
     else if values_equal lib v x then (True, has_null) else any_loop lib v has_null xs)"

definition resolve_array :: "sql_value \<Rightarrow> sql_value list option" where
  "resolve_array a = (case a of Array xs \<Rightarrow> Some xs | String s \<Rightarrow> parse_pg_text_array s | _ \<Rightarrow> None)"

fun in_loop :: "eval_lib \<Rightarrow> sql_value \<Rightarrow> bool \<Rightarrow> in_item list \<Rightarrow> eval_error + bool \<times> bool" where
  "in_loop lib v has_null [] = Inr (False, has_null)"
| "in_loop lib v has_null (Item r # items) = bind_result r (\<lambda>x. if x = Null then in_loop lib v True items
     else if values_equal lib v x then Inr (True, has_null) else in_loop lib v has_null items)"
| "in_loop lib v has_null (Any_array rs # items) = (if length rs \<noteq> 1 then Inl Bad_any else bind_result (hd rs) (\<lambda>a.
     case resolve_array a of
       Some xs \<Rightarrow> (let (found, has_null') = any_loop lib v has_null xs in if found then Inr (True, has_null') else in_loop lib v has_null' items)
     | None \<Rightarrow> if a = Null then in_loop lib v True items else Inl Bad_any))"

definition in_result :: "bool \<Rightarrow> bool \<times> bool \<Rightarrow> sql_value" where
  "in_result negated p = (if fst p then Boolean (\<not> negated) else if snd p then Null else Boolean negated)"

definition evaluate_in_list :: "eval_lib \<Rightarrow> bool \<Rightarrow> in_item list \<Rightarrow> sql_value \<Rightarrow> eval_error + sql_value" where
  "evaluate_in_list lib negated items v = (if v = Null then Inr Null else map_sum id (in_result negated) (in_loop lib v False items))"

definition evaluate_in_set :: "eval_lib \<Rightarrow> bool \<Rightarrow> sql_value list \<Rightarrow> sql_value \<Rightarrow> sql_value" where
  "evaluate_in_set lib negated values v = (if v = Null then Null
     else let found = list_ex (values_equal lib v) values in Boolean (if negated then \<not> found else found))"

definition evaluate_between :: "eval_lib \<Rightarrow> bool \<Rightarrow> sql_value \<Rightarrow> sql_value \<Rightarrow> sql_value \<Rightarrow> eval_error + sql_value" where
  "evaluate_between lib negated v low high = (if v = Null \<or> low = Null \<or> high = Null then Inr Null
     else bind_result (eval_compare_values lib (\<lambda>c. c \<noteq> Less) v low) (\<lambda>ge.
       bind_result (eval_compare_values lib (\<lambda>c. c \<noteq> Greater) v high) (\<lambda>le.
         let in_range = (ge = Boolean True \<and> le = Boolean True) in Inr (Boolean (if negated then \<not> in_range else in_range)))))"

text \<open>The branches of \<open>CASE\<close>, each with the result of its condition and of its value.\<close>

fun case_loop :: "(sql_value \<Rightarrow> bool) \<Rightarrow> ((eval_error + sql_value) \<times> (eval_error + sql_value)) list \<Rightarrow> eval_error + sql_value \<Rightarrow> eval_error + sql_value" where
  "case_loop taken [] els = els"
| "case_loop taken (p # ps) els = bind_result (fst p) (\<lambda>w. if taken w then snd p else case_loop taken ps els)"

text \<open>\<open>collect\<close> of results: the first error.\<close>

fun collect :: "('e + 'a) list \<Rightarrow> 'e + 'a list" where
  "collect [] = Inr []"
| "collect (r # rs) = bind_result r (\<lambda>x. bind_result (collect rs) (\<lambda>xs. Inr (x # xs)))"

section \<open>Function names\<close>

definition dispatch_form :: "string \<Rightarrow> bool" where
  "dispatch_form s \<longleftrightarrow> list_all (\<lambda>c. (of_char c :: nat) < 128) s \<and> \<not> list_ex (\<lambda>c. 65 \<le> (of_char c :: nat) \<and> (of_char c :: nat) \<le> 90) s"

definition strip_pg_catalog :: "string \<Rightarrow> string" where
  "strip_pg_catalog s = (if take 11 s = ''pg_catalog.'' then drop 11 s else s)"

definition normalize_function_name :: "eval_lib \<Rightarrow> string \<Rightarrow> string" where
  "normalize_function_name lib s = strip_pg_catalog (if dispatch_form s then s else lib_lower lib s)"

definition static_type_of :: "evaluator \<Rightarrow> expr \<Rightarrow> data_type option" where
  "static_type_of ev e = (case e of
       ECast _ ty \<Rightarrow> Some ty
     | EColumn table name \<Rightarrow> Option.bind (get_qualified_column_index (ev_schema ev) table name)
         (\<lambda>i. if i < length (ev_schema ev) then Some (col_type (ev_schema ev ! i)) else None)
     | EBoundColumn i _ _ \<Rightarrow> if i < length (ev_schema ev) then Some (col_type (ev_schema ev ! i)) else None
     | _ \<Rightarrow> None)"

section \<open>Evaluation\<close>

fun evaluate_expr :: "eval_lib \<Rightarrow> evaluator \<Rightarrow> sql_value list \<Rightarrow> expr \<Rightarrow> eval_error + sql_value" where
  "evaluate_expr lib ev tp (ELiteral v) = Inr v"
| "evaluate_expr lib ev tp (EParameter i) = parameter_value ev i"
| "evaluate_expr lib ev tp (EColumn table name) = column_value ev tp table name"
| "evaluate_expr lib ev tp (EBoundColumn i _ _) = tuple_get tp i"
| "evaluate_expr lib ev tp (EBinary l op r) =
     (if op = BAnd then and_short_circuit (evaluate_expr lib ev tp l) (evaluate_expr lib ev tp r)
      else if op = BOr then or_short_circuit (evaluate_expr lib ev tp l) (evaluate_expr lib ev tp r)
      else case (l, r) of
        (ETuple ls, ETuple rs) \<Rightarrow> evaluate_tuple_compare lib op (map (evaluate_expr lib ev tp) ls) (map (evaluate_expr lib ev tp) rs)
      | _ \<Rightarrow> bind_result (evaluate_expr lib ev tp l) (\<lambda>lv. bind_result (evaluate_expr lib ev tp r) (evaluate_binary_op lib op lv)))"
| "evaluate_expr lib ev tp (ETuple _) = Inl Bare_row"
| "evaluate_expr lib ev tp (EUnary op e) = bind_result (evaluate_expr lib ev tp e) (evaluate_unary_op op)"
| "evaluate_expr lib ev tp (EIsNull e is_null) = map_sum id (\<lambda>v. Boolean ((v = Null) = is_null)) (evaluate_expr lib ev tp e)"
| "evaluate_expr lib ev tp (EScalar f args) = bind_result (collect (map (evaluate_expr lib ev tp) args))
     (\<lambda>vs. lib_scalar lib f (normalize_function_name lib f) vs (map (static_type_of ev) args))"
| "evaluate_expr lib ev tp (ECast e ty) = bind_result (evaluate_expr lib ev tp e) (\<lambda>v. lib_cast lib v ty)"
| "evaluate_expr lib ev tp EWildcard = Inl Unsupported"
| "evaluate_expr lib ev tp (ENewRow name) = trigger_row ev True name"
| "evaluate_expr lib ev tp (EOldRow name) = trigger_row ev False name"
| "evaluate_expr lib ev tp (ESubscript a i) = bind_result (evaluate_expr lib ev tp a) (\<lambda>av. bind_result (evaluate_expr lib ev tp i) (evaluate_array_subscript av))"
| "evaluate_expr lib ev tp (EInList e es negated) = bind_result (evaluate_expr lib ev tp e) (evaluate_in_list lib negated
     (map (\<lambda>x. case x of
         EScalar f args \<Rightarrow> if f = ANY_ARRAY_MARKER_FUNCTION then Any_array (map (evaluate_expr lib ev tp) args) else Item (evaluate_expr lib ev tp x)
       | _ \<Rightarrow> Item (evaluate_expr lib ev tp x)) es))"
| "evaluate_expr lib ev tp (EInSet e vs negated) = map_sum id (evaluate_in_set lib negated vs) (evaluate_expr lib ev tp e)"
| "evaluate_expr lib ev tp (EInSubquery e q negated) = Inl Needs_executor"
| "evaluate_expr lib ev tp EDefaultValue = Inl Unsupported"
| "evaluate_expr lib ev tp (EScalarSubquery q) = Inl Needs_executor"
| "evaluate_expr lib ev tp (EExists q negated) = Inl Needs_executor"
| "evaluate_expr lib ev tp (EBetween e low high negated) = bind_result (evaluate_expr lib ev tp e) (\<lambda>v.
     bind_result (evaluate_expr lib ev tp low) (\<lambda>lo. bind_result (evaluate_expr lib ev tp high) (evaluate_between lib negated v lo)))"
| "evaluate_expr lib ev tp (ECase base whens els) =
     (let branches = map (\<lambda>(w, t). (evaluate_expr lib ev tp w, evaluate_expr lib ev tp t)) whens;
          otherwise = (case els of Some e \<Rightarrow> evaluate_expr lib ev tp e | None \<Rightarrow> Inr Null)
      in case base of
        Some e \<Rightarrow> bind_result (evaluate_expr lib ev tp e) (\<lambda>v. case_loop (values_equal lib v) branches otherwise)
      | None \<Rightarrow> case_loop (\<lambda>c. c = Boolean True) branches otherwise)"
| "evaluate_expr lib ev tp (EWindow _ _) = Inl Needs_executor"
| "evaluate_expr lib ev tp (EAggregate _ _ _) = Inl Unsupported"

section \<open>Binding\<close>

fun rewrite_leaves :: "(string option \<Rightarrow> string \<Rightarrow> expr) \<Rightarrow> (string \<Rightarrow> string) \<Rightarrow> expr \<Rightarrow> expr" where
  "rewrite_leaves oc fn (EColumn table name) = oc table name"
| "rewrite_leaves oc fn (EBinary l op r) = EBinary (rewrite_leaves oc fn l) op (rewrite_leaves oc fn r)"
| "rewrite_leaves oc fn (EUnary op e) = EUnary op (rewrite_leaves oc fn e)"
| "rewrite_leaves oc fn (EIsNull e b) = EIsNull (rewrite_leaves oc fn e) b"
| "rewrite_leaves oc fn (EBetween e lo hi negated) = EBetween (rewrite_leaves oc fn e) (rewrite_leaves oc fn lo) (rewrite_leaves oc fn hi) negated"
| "rewrite_leaves oc fn (EInList e es negated) = EInList (rewrite_leaves oc fn e) (map (rewrite_leaves oc fn) es) negated"
| "rewrite_leaves oc fn (EInSet e vs negated) = EInSet (rewrite_leaves oc fn e) vs negated"
| "rewrite_leaves oc fn (ECase base whens els) = ECase (map_option (rewrite_leaves oc fn) base)
     (map (\<lambda>(w, t). (rewrite_leaves oc fn w, rewrite_leaves oc fn t)) whens) (map_option (rewrite_leaves oc fn) els)"
| "rewrite_leaves oc fn (ECast e ty) = ECast (rewrite_leaves oc fn e) ty"
| "rewrite_leaves oc fn (EScalar f args) = EScalar (fn f) (map (rewrite_leaves oc fn) args)"
| "rewrite_leaves oc fn (ESubscript a i) = ESubscript (rewrite_leaves oc fn a) (rewrite_leaves oc fn i)"
| "rewrite_leaves oc fn (ETuple es) = ETuple (map (rewrite_leaves oc fn) es)"
| "rewrite_leaves oc fn e = e"

definition map_column_refs :: "(string option \<Rightarrow> string \<Rightarrow> expr) \<Rightarrow> expr \<Rightarrow> expr" where
  "map_column_refs oc e = rewrite_leaves oc (\<lambda>f. f) e"

definition bind_column :: "ev_schema \<Rightarrow> string option \<Rightarrow> string \<Rightarrow> expr" where
  "bind_column schema table name = (case get_qualified_column_index schema table name of
       Some i \<Rightarrow> EBoundColumn i table name
     | None \<Rightarrow> EColumn table name)"

definition bind_expr_columns :: "eval_lib \<Rightarrow> ev_schema \<Rightarrow> expr \<Rightarrow> expr" where
  "bind_expr_columns lib schema e = rewrite_leaves (bind_column schema) (normalize_function_name lib) e"

text \<open>The executor's replacement of \<open>IN (SELECT ...)\<close> by the values the subquery returned.\<close>

definition materialize_in_subquery :: "expr \<Rightarrow> sql_value list list \<Rightarrow> bool \<Rightarrow> expr" where
  "materialize_in_subquery e results negated = (let vs = map hd (filter (\<lambda>t. t \<noteq> []) results) in
     if length results > 16 then EInSet e (remdups vs) negated else EInList e (map ELiteral vs) negated)"

end
