(* ===== verification/Eval_Laws.thy ===== *)
theory Eval_Laws
  imports Evaluator
begin

text \<open>
  What the evaluator of \<^verbatim>\<open>src/src/sql/evaluator.rs\<close> guarantees: binding an expression does not
  change its value, conditions have truth values, the short-circuit connectives are those of
  three-valued logic, row constructors compare lexicographically, integer arithmetic is exact
  or an error, and the predicates that a scan evaluates in storage agree with it.
\<close>

section \<open>Binding\<close>

fun function_names :: "expr \<Rightarrow> string list" where
  "function_names (EBinary l op r) = function_names l @ function_names r"
| "function_names (EUnary op e) = function_names e"
| "function_names (EIsNull e b) = function_names e"
| "function_names (EBetween e lo hi negated) = function_names e @ function_names lo @ function_names hi"
| "function_names (EInList e es negated) = function_names e @ concat (map function_names es)"
| "function_names (EInSet e vs negated) = function_names e"
| "function_names (ECase base whens els) = (case base of Some e \<Rightarrow> function_names e | None \<Rightarrow> [])
     @ concat (map (\<lambda>(w, t). function_names w @ function_names t) whens) @ (case els of Some e \<Rightarrow> function_names e | None \<Rightarrow> [])"
| "function_names (ECast e ty) = function_names e"
| "function_names (EScalar f args) = f # concat (map function_names args)"
| "function_names (ESubscript a i) = function_names a @ function_names i"
| "function_names (ETuple es) = concat (map function_names es)"
| "function_names e = []"

text \<open>
  A name that normalising a second time does not change further, and whose function does not show how the
  name was spelled. In the code the raw name occurs only in errors: of unknown functions and of the
  constructors of text-search queries.
\<close>

definition stable_name :: "eval_lib \<Rightarrow> string \<Rightarrow> bool" where
  "stable_name lib f \<longleftrightarrow> normalize_function_name lib (normalize_function_name lib f) = normalize_function_name lib f
     \<and> (normalize_function_name lib f = ANY_ARRAY_MARKER_FUNCTION \<longrightarrow> f = ANY_ARRAY_MARKER_FUNCTION)
     \<and> lib_scalar lib f (normalize_function_name lib f) = lib_scalar lib (normalize_function_name lib f) (normalize_function_name lib f)"

lemma marker_stable [simp]: "normalize_function_name lib ANY_ARRAY_MARKER_FUNCTION = ANY_ARRAY_MARKER_FUNCTION"
  by (simp add: normalize_function_name_def strip_pg_catalog_def dispatch_form_def ANY_ARRAY_MARKER_FUNCTION_def)

definition operands_of :: "expr \<Rightarrow> expr list" where
  "operands_of e = (case e of EScalar _ args \<Rightarrow> args | ETuple es \<Rightarrow> es | _ \<Rightarrow> [])"

definition bound :: "eval_lib \<Rightarrow> evaluator \<Rightarrow> expr \<Rightarrow> expr" where
  "bound lib ev e = bind_expr_columns lib (ev_schema ev) e"

lemma bound_column: "bound lib ev (EColumn table name) = bind_column (ev_schema ev) table name"
  by (simp add: bound_def bind_expr_columns_def)

lemma bound_scalar: "bound lib ev e = EScalar g bs \<longleftrightarrow> (\<exists>f args. e = EScalar f args \<and> g = normalize_function_name lib f \<and> bs = map (bound lib ev) args)"
  by (cases e) (auto simp: bound_def bind_expr_columns_def bind_column_def split: option.splits)

lemma bound_tuple: "bound lib ev e = ETuple bs \<longleftrightarrow> (\<exists>es. e = ETuple es \<and> bs = map (bound lib ev) es)"
  by (cases e) (auto simp: bound_def bind_expr_columns_def bind_column_def split: option.splits)

lemma bound_static_type: "static_type_of ev (bound lib ev e) = static_type_of ev e"
  by (cases e) (simp_all add: bound_def bind_expr_columns_def bind_column_def static_type_of_def split: option.split)

lemma binary_plain:
  assumes "(\<forall>ls. l \<noteq> ETuple ls) \<or> (\<forall>rs. r \<noteq> ETuple rs)"
  shows "evaluate_expr lib ev tp (EBinary l op r) =
    (if op = BAnd then and_short_circuit (evaluate_expr lib ev tp l) (evaluate_expr lib ev tp r)
     else if op = BOr then or_short_circuit (evaluate_expr lib ev tp l) (evaluate_expr lib ev tp r)
     else bind_result (evaluate_expr lib ev tp l) (\<lambda>lv. bind_result (evaluate_expr lib ev tp r) (evaluate_binary_op lib op lv)))"
proof (cases "\<exists>ls. l = ETuple ls")
  case True
  then have "\<forall>rs. r \<noteq> ETuple rs" using assms by auto
  with True show ?thesis by (cases r) auto
next
  case False
  then show ?thesis by (cases l) auto
qed

definition in_item_of :: "eval_lib \<Rightarrow> evaluator \<Rightarrow> sql_value list \<Rightarrow> expr \<Rightarrow> in_item" where
  "in_item_of lib ev tp x = (case x of
       EScalar f args \<Rightarrow> if f = ANY_ARRAY_MARKER_FUNCTION then Any_array (map (evaluate_expr lib ev tp) args) else Item (evaluate_expr lib ev tp x)
     | _ \<Rightarrow> Item (evaluate_expr lib ev tp x))"

lemma evaluate_in: "evaluate_expr lib ev tp (EInList e es negated) = bind_result (evaluate_expr lib ev tp e) (evaluate_in_list lib negated (map (in_item_of lib ev tp) es))"
  by (simp add: in_item_of_def [abs_def])

lemma in_item_plain: "(\<And>f args. x \<noteq> EScalar f args) \<Longrightarrow> in_item_of lib ev tp x = Item (evaluate_expr lib ev tp x)"
  by (cases x) (auto simp: in_item_of_def)

text \<open>Binding keeps the value of an expression and of the operands of a call or a row.\<close>

definition binds :: "eval_lib \<Rightarrow> evaluator \<Rightarrow> sql_value list \<Rightarrow> expr \<Rightarrow> bool" where
  "binds lib ev tp e \<longleftrightarrow> (list_all (stable_name lib) (function_names e) \<longrightarrow>
     evaluate_expr lib ev tp (bound lib ev e) = evaluate_expr lib ev tp e
     \<and> (\<forall>a \<in> set (operands_of e). evaluate_expr lib ev tp (bound lib ev a) = evaluate_expr lib ev tp a))"

lemma bindsD:
  assumes "binds lib ev tp e" "list_all (stable_name lib) (function_names e)"
  shows "evaluate_expr lib ev tp (bound lib ev e) = evaluate_expr lib ev tp e"
    and "a \<in> set (operands_of e) \<Longrightarrow> evaluate_expr lib ev tp (bound lib ev a) = evaluate_expr lib ev tp a"
  using assms by (auto simp: binds_def)

lemma binds_list:
  assumes "\<And>x. x \<in> set xs \<Longrightarrow> binds lib ev tp x" "list_all (stable_name lib) (concat (map function_names xs))"
  shows "map (evaluate_expr lib ev tp) (map (bound lib ev) xs) = map (evaluate_expr lib ev tp) xs"
  using assms by (auto intro!: bindsD(1) simp: list_all_iff)

lemma binds_item:
  assumes "binds lib ev tp x" "list_all (stable_name lib) (function_names x)"
  shows "in_item_of lib ev tp (bound lib ev x) = in_item_of lib ev tp x"
proof (cases "\<exists>f args. x = EScalar f args")
  case True
  then obtain f args where x: "x = EScalar f args" by blast
  have b: "bound lib ev x = EScalar (normalize_function_name lib f) (map (bound lib ev) args)" using x bound_scalar by blast
  have m: "normalize_function_name lib f = ANY_ARRAY_MARKER_FUNCTION \<longleftrightarrow> f = ANY_ARRAY_MARKER_FUNCTION"
    using assms(2) by (auto simp: x stable_name_def)
  have "map (evaluate_expr lib ev tp) (map (bound lib ev) args) = map (evaluate_expr lib ev tp) args"
    using bindsD(2) [OF assms] by (simp add: x operands_of_def)
  then show ?thesis using bindsD(1) [OF assms] m unfolding b unfolding x by (simp add: in_item_of_def del: evaluate_expr.simps)
next
  case False
  then have "\<And>f args. bound lib ev x \<noteq> EScalar f args" by (auto simp: bound_scalar)
  then show ?thesis using False bindsD(1) [OF assms] by (simp add: in_item_plain)
qed

lemma bound_simps:
  "bound lib ev (EBinary l op r) = EBinary (bound lib ev l) op (bound lib ev r)"
  "bound lib ev (EUnary uop e) = EUnary uop (bound lib ev e)"
  "bound lib ev (EIsNull e b) = EIsNull (bound lib ev e) b"
  "bound lib ev (EBetween e lo hi negated) = EBetween (bound lib ev e) (bound lib ev lo) (bound lib ev hi) negated"
  "bound lib ev (EInList e es negated) = EInList (bound lib ev e) (map (bound lib ev) es) negated"
  "bound lib ev (EInSet e vs negated) = EInSet (bound lib ev e) vs negated"
  "bound lib ev (ECase base whens els) = ECase (map_option (bound lib ev) base) (map (\<lambda>(w, t). (bound lib ev w, bound lib ev t)) whens) (map_option (bound lib ev) els)"
  "bound lib ev (ECast e ty) = ECast (bound lib ev e) ty"
  "bound lib ev (EScalar f args) = EScalar (normalize_function_name lib f) (map (bound lib ev) args)"
  "bound lib ev (ESubscript a i) = ESubscript (bound lib ev a) (bound lib ev i)"
  "bound lib ev (ETuple es) = ETuple (map (bound lib ev) es)"
  by (simp_all add: bound_def [abs_def] bind_expr_columns_def [abs_def])

lemma binds_binary:
  assumes "binds lib ev tp l" "binds lib ev tp r"
  shows "binds lib ev tp (EBinary l op r)"
proof (unfold binds_def, intro impI conjI)
  assume names: "list_all (stable_name lib) (function_names (EBinary l op r))"
  then have n: "list_all (stable_name lib) (function_names l)" "list_all (stable_name lib) (function_names r)" by simp_all
  note l = bindsD [OF assms(1) n(1)] and r = bindsD [OF assms(2) n(2)]
  show "evaluate_expr lib ev tp (bound lib ev (EBinary l op r)) = evaluate_expr lib ev tp (EBinary l op r)"
  proof (cases "(\<exists>ls. l = ETuple ls) \<and> (\<exists>rs. r = ETuple rs)")
    case True
    then obtain ls rs where "l = ETuple ls" "r = ETuple rs" by blast
    then show ?thesis using l r by (simp add: bound_simps operands_of_def cong: map_cong)
  next
    case False
    then have "(\<forall>ls. l \<noteq> ETuple ls) \<or> (\<forall>rs. r \<noteq> ETuple rs)"
      "(\<forall>ls. bound lib ev l \<noteq> ETuple ls) \<or> (\<forall>rs. bound lib ev r \<noteq> ETuple rs)" by (auto simp: bound_tuple)
    then show ?thesis unfolding bound_simps by (simp only: binary_plain l(1) r(1))
  qed
qed (simp add: operands_of_def)

lemma binds_scalar:
  assumes "\<And>x. x \<in> set args \<Longrightarrow> binds lib ev tp x"
  shows "binds lib ev tp (EScalar f args)"
proof (unfold binds_def, intro impI conjI)
  assume names: "list_all (stable_name lib) (function_names (EScalar f args))"
  then have n: "list_all (stable_name lib) (concat (map function_names args))" and f: "stable_name lib f" by simp_all
  have t: "map (static_type_of ev) (map (bound lib ev) args) = map (static_type_of ev) args" by (simp add: bound_static_type)
  have m: "map (evaluate_expr lib ev tp) (map (bound lib ev) args) = map (evaluate_expr lib ev tp) args" using assms n by (rule binds_list)
  have g: "normalize_function_name lib (normalize_function_name lib f) = normalize_function_name lib f"
    "lib_scalar lib f (normalize_function_name lib f) = lib_scalar lib (normalize_function_name lib f) (normalize_function_name lib f)"
    using f by (simp_all add: stable_name_def)
  show "evaluate_expr lib ev tp (bound lib ev (EScalar f args)) = evaluate_expr lib ev tp (EScalar f args)"
    by (simp only: bound_simps evaluate_expr.simps m t g)
  show "\<forall>a \<in> set (operands_of (EScalar f args)). evaluate_expr lib ev tp (bound lib ev a) = evaluate_expr lib ev tp a"
    using m by (simp add: operands_of_def)
qed

lemma binds_case:
  assumes "\<And>e. base = Some e \<Longrightarrow> binds lib ev tp e" "\<And>w t. (w, t) \<in> set whens \<Longrightarrow> binds lib ev tp w \<and> binds lib ev tp t"
    "\<And>e. els = Some e \<Longrightarrow> binds lib ev tp e"
  shows "binds lib ev tp (ECase base whens els)"
proof (unfold binds_def, intro impI conjI)
  assume names: "list_all (stable_name lib) (function_names (ECase base whens els))"
  have b: "base = Some e \<Longrightarrow> evaluate_expr lib ev tp (bound lib ev e) = evaluate_expr lib ev tp e" for e
    using bindsD(1) [OF assms(1)] names by simp
  have d: "els = Some e \<Longrightarrow> evaluate_expr lib ev tp (bound lib ev e) = evaluate_expr lib ev tp e" for e
    using bindsD(1) [OF assms(3)] names by simp
  have w: "map (\<lambda>(w, t). (evaluate_expr lib ev tp w, evaluate_expr lib ev tp t)) (map (\<lambda>(w, t). (bound lib ev w, bound lib ev t)) whens)
      = map (\<lambda>(w, t). (evaluate_expr lib ev tp w, evaluate_expr lib ev tp t)) whens"
  proof -
    have "evaluate_expr lib ev tp (bound lib ev w) = evaluate_expr lib ev tp w \<and> evaluate_expr lib ev tp (bound lib ev t) = evaluate_expr lib ev tp t"
      if "(w, t) \<in> set whens" for w t
    proof -
      have "list_all (stable_name lib) (function_names w)" "list_all (stable_name lib) (function_names t)"
        using names that by (auto simp: list_all_iff)
      with assms(2) [OF that] bindsD(1) show ?thesis by blast
    qed
    then show ?thesis by (simp add: split_beta) (metis (no_types, lifting) prod.collapse)
  qed
  show "evaluate_expr lib ev tp (bound lib ev (ECase base whens els)) = evaluate_expr lib ev tp (ECase base whens els)"
    unfolding bound_simps evaluate_expr.simps w using b d by (cases base; cases els) (simp_all add: Let_def)
qed (simp add: operands_of_def)

lemma binds_all:
  assumes "ev_trigger ev = None"
  shows "binds lib ev tp e"
proof (induction e)
  case (EColumn table name)
  have "evaluate_expr lib ev tp (bind_column (ev_schema ev) table name) = evaluate_expr lib ev tp (EColumn table name)"
    using assms by (auto simp: bind_column_def column_value_def trigger_column_def split: option.split)
  then show ?case by (simp add: binds_def bound_column operands_of_def del: evaluate_expr.simps)
next
  case (EBinary l op r)
  then show ?case by (rule binds_binary)
next
  case (EScalar f args)
  then show ?case by (rule binds_scalar)
next
  case (ECase base whens els)
  show ?case by (rule binds_case) (use ECase in \<open>auto simp: prod_set_simps\<close>)
next
  case (EInList e es negated)
  have "map (in_item_of lib ev tp) (map (bound lib ev) es) = map (in_item_of lib ev tp) es" if "list_all (stable_name lib) (concat (map function_names es))"
    using EInList(2) that by (auto intro!: binds_item simp: list_all_iff)
  then show ?case using bindsD(1) [OF EInList(1)] unfolding binds_def bound_simps evaluate_in by (simp add: operands_of_def del: map_map)
next
  case (ETuple es)
  then show ?case by (auto simp: binds_def bound_simps operands_of_def list_all_iff)
qed (auto simp: binds_def bound_simps operands_of_def, simp_all add: bound_def bind_expr_columns_def)

section \<open>Truth values\<close>

definition truth :: "sql_value \<Rightarrow> bool" where
  "truth v \<longleftrightarrow> (case v of Null \<Rightarrow> True | Boolean _ \<Rightarrow> True | _ \<Rightarrow> False)"

lemma truth_simps [simp]: "truth Null" "truth (Boolean b)"
  by (simp_all add: truth_def)

lemma truth_cases: "truth v \<Longrightarrow> (v = Null \<Longrightarrow> P) \<Longrightarrow> (\<And>b. v = Boolean b \<Longrightarrow> P) \<Longrightarrow> P"
  by (cases v) (auto simp: truth_def)

definition truth_result :: "eval_error + sql_value \<Rightarrow> bool" where
  "truth_result r \<longleftrightarrow> (case r of Inl _ \<Rightarrow> True | Inr v \<Rightarrow> truth v)"

lemma truth_result_simps [simp]: "truth_result (Inl e)" "truth_result (Inr v) = truth v" "truth_result (map_sum id (\<lambda>x. Boolean (f x)) r)"
  by (simp_all add: truth_result_def split: sum.split) (cases r; simp)

lemma truth_bind: "(\<And>x. r = Inr x \<Longrightarrow> truth_result (f x)) \<Longrightarrow> truth_result (bind_result r f)"
  by (cases r) simp_all

lemma truth_compare [simp]: "truth_result (eval_compare_values lib f l r)"
  by (simp add: eval_compare_values_def split: option.split)

lemma truth_connectives [simp]: "truth_result (and_short_circuit l r)" "truth_result (or_short_circuit l r)"
  by (auto simp: and_short_circuit_def or_short_circuit_def intro!: truth_bind split: sql_value.split)

lemma truth_like [simp]: "truth_result (like_op lib negated l r)"
  by (simp add: like_op_def split: sql_value.split)

lemma truth_distinct [simp]: "truth_result (evaluate_is_distinct_from lib d l r)"
  by (simp add: evaluate_is_distinct_from_def Let_def)

lemma truth_row [simp]: "truth_result (row_loop lib op saw ps)"
proof (induction ps arbitrary: saw)
  case (Cons p ps)
  have "truth_result (row_decide lib op l r)" for l r by (cases op) (simp_all add: row_decide_def)
  then show ?case using Cons by (auto intro!: truth_bind)
qed (auto simp: row_equal_def split: bin_op.split)

definition condition_op :: "bin_op \<Rightarrow> bool" where
  "condition_op op \<longleftrightarrow> op \<in> {BEq, BNotEq, BIsDistinctFrom, BIsNotDistinctFrom, BLt, BLtEq, BGt, BGtEq, BAnd, BOr, BLike, BNotLike}"

lemma truth_binary [simp]: "condition_op op \<Longrightarrow> truth_result (evaluate_binary_op lib op l r)"
  by (cases op) (auto simp: condition_op_def evaluate_binary_op_def three_valued_and_def three_valued_or_def intro!: truth_bind)

fun is_condition :: "expr \<Rightarrow> bool" where
  "is_condition (EBinary l op r) = condition_op op"
| "is_condition (EUnary op e) = (op = UNot)"
| "is_condition (EIsNull e b) = True"
| "is_condition (EBetween e lo hi negated) = True"
| "is_condition (EInList e es negated) = True"
| "is_condition (EInSet e vs negated) = True"
| "is_condition (ECase base whens els) = (list_all (\<lambda>(w, t). is_condition t) whens \<and> (case els of Some e \<Rightarrow> is_condition e | None \<Rightarrow> True))"
| "is_condition e = False"

lemma truth_case_loop:
  "(\<And>p. p \<in> set ps \<Longrightarrow> truth_result (snd p)) \<Longrightarrow> truth_result d \<Longrightarrow> truth_result (case_loop taken ps d)"
proof (induction ps)
  case (Cons p ps)
  have "truth_result (snd p)" using Cons(2) by simp
  then show ?case using Cons by (simp add: truth_bind)
qed simp

lemma condition_truth: "is_condition e \<Longrightarrow> truth_result (evaluate_expr lib ev tp e)"
proof (induction e rule: is_condition.induct)
  case (1 l op r)
  then have b: "truth_result (bind_result lr (\<lambda>lv. bind_result rr (evaluate_binary_op lib op lv)))" for lr rr by (auto intro!: truth_bind)
  have t: "truth_result (evaluate_tuple_compare lib op ls rs)" for ls rs by (simp add: evaluate_tuple_compare_def)
  have "truth_result (bind_result rr (evaluate_binary_op lib op lv))" for rr lv using 1 by (auto intro!: truth_bind)
  then show ?case using b t by (simp split: expr.split)
next
  case (2 op e)
  then show ?case by (auto simp: evaluate_unary_op_def to_boolean_def intro!: truth_bind split: sql_value.split)
next
  case (4 e lo hi negated)
  show ?case by (auto simp: evaluate_between_def Let_def intro!: truth_bind)
next
  case (5 e es negated)
  have "truth_result (evaluate_in_list lib negated items v)" for items v
    by (cases "in_loop lib v False items") (auto simp: evaluate_in_list_def in_result_def)
  then show ?case by (auto intro!: truth_bind)
next
  case (6 e vs negated)
  then show ?case by (cases "evaluate_expr lib ev tp e") (simp_all add: evaluate_in_set_def Let_def)
next
  case (7 base whens els)
  have d: "truth_result (case els of Some e \<Rightarrow> evaluate_expr lib ev tp e | None \<Rightarrow> Inr Null)"
    using 7 by (auto split: option.splits)
  have w: "truth_result (snd p)" if "p \<in> set (map (\<lambda>(w, t). (evaluate_expr lib ev tp w, evaluate_expr lib ev tp t)) whens)" for p
    using that 7 by (auto simp: list_all_iff)
  have "truth_result (case_loop taken (map (\<lambda>(w, t). (evaluate_expr lib ev tp w, evaluate_expr lib ev tp t)) whens)
      (case els of Some e \<Rightarrow> evaluate_expr lib ev tp e | None \<Rightarrow> Inr Null))" for taken using w d by (rule truth_case_loop)
  then show ?case unfolding evaluate_expr.simps Let_def by (cases base) (simp_all add: truth_bind)
qed auto

section \<open>The connectives\<close>

lemma de_morgan:
  "bind_result (and_short_circuit l r) (evaluate_unary_op UNot) = or_short_circuit (bind_result l (evaluate_unary_op UNot)) (bind_result r (evaluate_unary_op UNot))"
  by (cases l; cases r) (auto simp: and_short_circuit_def or_short_circuit_def evaluate_unary_op_def to_boolean_def split: sql_value.splits)

lemma connectives_three_valued:
  assumes "truth lv" "truth rv"
  shows "and_short_circuit (Inr lv) (Inr rv) = three_valued_and lv rv" "or_short_circuit (Inr lv) (Inr rv) = three_valued_or lv rv"
  using assms by (auto simp: and_short_circuit_def or_short_circuit_def three_valued_and_def three_valued_or_def to_tri_bool_def elim!: truth_cases)

lemma and_true: "and_short_circuit l r = Inr (Boolean True) \<longleftrightarrow> l = Inr (Boolean True) \<and> r = Inr (Boolean True)"
  by (cases l; cases r) (auto simp: and_short_circuit_def split: sql_value.splits if_splits)

section \<open>Row constructors\<close>

text \<open>The order of two elements, \<open>None\<close> when one of them is NULL.\<close>

definition pair_order :: "eval_lib \<Rightarrow> sql_value \<Rightarrow> sql_value \<Rightarrow> eval_error + ordering option" where
  "pair_order lib l r = (if l = Null \<or> r = Null then Inr None
     else case special_operator_cmp l r of Some c \<Rightarrow> Inr (Some c) | None \<Rightarrow> map_sum id Some (value_ordering lib l r))"

lemma compare_pair_order:
  "pair_order lib l r = Inr (Some c) \<Longrightarrow> eval_compare_values lib f l r = Inr (Boolean (f c)) \<and> l \<noteq> Null \<and> r \<noteq> Null"
  "pair_order lib l r = Inr None \<longleftrightarrow> l = Null \<or> r = Null"
  by (cases "special_operator_cmp l r"; cases "value_ordering lib l r"; auto simp: pair_order_def eval_compare_values_def split: if_splits)+

text \<open>Lexicographic comparison: the first pair that is not equal decides, unknown when it has a NULL.\<close>

fun lex_order :: "ordering option list \<Rightarrow> ordering option" where
  "lex_order [] = Some Equal"
| "lex_order (c # cs) = (if c = Some Equal then lex_order cs else c)"

definition row_relation :: "bin_op \<Rightarrow> ordering \<Rightarrow> bool" where
  "row_relation op c = (case op of BEq \<Rightarrow> c = Equal | BNotEq \<Rightarrow> c \<noteq> Equal | BLt \<Rightarrow> c = Less | BLtEq \<Rightarrow> c \<noteq> Greater
     | BGt \<Rightarrow> c = Greater | BGtEq \<Rightarrow> c \<noteq> Less | _ \<Rightarrow> False)"

lemma row_loop_order:
  assumes "op \<in> {BLt, BLtEq, BGt, BGtEq}" "list_all2 (\<lambda>(l, r) c. pair_order lib l r = Inr c) ps cs"
  shows "row_loop lib op False (map (\<lambda>(l, r). (Inr l, Inr r)) ps) = Inr (case lex_order cs of Some c \<Rightarrow> Boolean (row_relation op c) | None \<Rightarrow> Null)"
  using assms(2)
proof (induction rule: list_all2_induct)
  case Nil
  then show ?case using assms(1) by (auto simp: row_relation_def row_equal_def)
next
  case (Cons p ps c cs)
  obtain l r where p: "p = (l, r)" by (cases p)
  show ?case
  proof (cases c)
    case None
    then show ?thesis using Cons(1) assms(1) by (simp add: p compare_pair_order(2))
  next
    case (Some d)
    have "eval_compare_values lib f l r = Inr (Boolean (f d)) \<and> l \<noteq> Null \<and> r \<noteq> Null" for f
      using Cons(1) compare_pair_order(1) by (simp add: p Some)
    then show ?thesis using Cons(3) assms(1) by (cases d) (auto simp: p Some row_decide_def row_relation_def)
  qed
qed

lemma row_loop_equality:
  assumes "op \<in> {BEq, BNotEq}" "list_all2 (\<lambda>(l, r) c. pair_order lib l r = Inr c) ps cs"
  shows "row_loop lib op saw (map (\<lambda>(l, r). (Inr l, Inr r)) ps) =
    Inr (if \<exists>c \<in> set cs. c \<noteq> None \<and> c \<noteq> Some Equal then Boolean (op = BNotEq) else if saw \<or> None \<in> set cs then Null else Boolean (op = BEq))"
  using assms(2)
proof (induction arbitrary: saw rule: list_all2_induct)
  case Nil
  then show ?case using assms(1) by (auto simp: row_equal_def)
next
  case (Cons p ps c cs)
  obtain l r where p: "p = (l, r)" by (cases p)
  show ?case
  proof (cases c)
    case None
    then show ?thesis using Cons(1,3) assms(1) by (auto simp: p compare_pair_order(2))
  next
    case (Some d)
    have "eval_compare_values lib f l r = Inr (Boolean (f d)) \<and> l \<noteq> Null \<and> r \<noteq> Null" for f
      using Cons(1) compare_pair_order(1) by (simp add: p Some)
    then show ?thesis using Cons(3) assms(1) by (cases d) (auto simp: p Some row_decide_def)
  qed
qed

section \<open>Membership\<close>

lemma values_equal_Null [simp]: "\<not> values_equal lib v Null"
proof -
  have "special_operator_cmp v Null = None" by (simp add: special_operator_cmp_def numeric_rank_def is_special_numeric_def split: option.split)
  then show ?thesis by (simp add: values_equal_def int_eq_def text_eq_def numeric_eq_def int_value_def split: sql_value.split)
qed

lemma any_loop_result:
  "in_result negated (any_loop lib v has_null xs) = (if list_ex (values_equal lib v) xs then Boolean (\<not> negated)
     else if has_null \<or> Null \<in> set xs then Null else Boolean negated)"
proof -
  have "fst (any_loop lib v has_null xs) \<longleftrightarrow> list_ex (values_equal lib v) xs"
    by (induction xs arbitrary: has_null) auto
  moreover have "\<not> list_ex (values_equal lib v) xs \<Longrightarrow> snd (any_loop lib v has_null xs) \<longleftrightarrow> has_null \<or> Null \<in> set xs"
    by (induction xs arbitrary: has_null) auto
  ultimately show ?thesis by (simp add: in_result_def)
qed

lemma in_loop_items: "in_loop lib v has_null (map (\<lambda>x. Item (Inr x)) xs) = Inr (any_loop lib v has_null xs)"
  by (induction xs arbitrary: has_null) auto

lemma in_literals:
  assumes "evaluate_expr lib ev tp e = Inr v" "v \<noteq> Null"
  shows "evaluate_expr lib ev tp (EInList e (map ELiteral xs) negated) = Inr (if list_ex (values_equal lib v) xs then Boolean (\<not> negated)
     else if Null \<in> set xs then Null else Boolean negated)"
proof -
  have "map (\<lambda>x. case x of
         EScalar f args \<Rightarrow> if f = ANY_ARRAY_MARKER_FUNCTION then Any_array (map (evaluate_expr lib ev tp) args) else Item (evaluate_expr lib ev tp x)
       | _ \<Rightarrow> Item (evaluate_expr lib ev tp x)) (map ELiteral xs) = map (\<lambda>x. Item (Inr x)) xs" by simp
  then show ?thesis using assms unfolding evaluate_expr.simps by (simp add: evaluate_in_list_def in_loop_items any_loop_result del: map_map)
qed

section \<open>Properties\<close>

definition plain_lib :: eval_lib where
  "plain_lib = \<lparr>lib_px = no_parsers, lib_f32 = (\<lambda>_. None), lib_f32_text = (\<lambda>_. []), lib_f64_text = (\<lambda>_. []), lib_rfc3339 = (\<lambda>_. None),
     lib_datetime = (\<lambda>_ _. None), lib_ymd = (\<lambda>_. None), lib_timestamp_text = (\<lambda>_. []), lib_date_text = (\<lambda>_. []), lib_regex = (\<lambda>_ _. None),
     lib_arith = (\<lambda>_ _ _. Inl Bad_operand), lib_operator = (\<lambda>_ _ _. Inl Bad_operand), lib_lower = lower_ascii,
     lib_scalar = (\<lambda>raw f vs _. if f = ''abs'' then Inr (hd vs) else Inl Unsupported), lib_cast = (\<lambda>v _. Inr v)\<rparr>"

abbreviation id_column :: ev_column where
  "id_column \<equiv> \<lparr>col_name = ''id'', col_type = TInt4, col_source_table = Some ''t'', col_source_name = Some ''t''\<rparr>"

text \<open>
  C18. binding does not change what an expression evaluates to. For every row, an expression
  whose columns were replaced by positions and whose function names were normalised once gives
  the same value, or the same error, as the expression itself; columns that do not resolve, row
  constructors, \<open>CASE\<close>, \<open>IN\<close> lists with array parameters and nested calls included. It holds
  outside triggers, for function names that normalising again does not change and for functions whose
  answer does not show how the name was spelled (the error for an unknown function quotes the name as
  written, so binding changes that text).
\<close>

theorem bind_preserves_evaluation:
  assumes "ev_trigger ev = None" "list_all (stable_name lib) (function_names e)"
  shows "evaluate_expr lib ev tp (bind_expr_columns lib (ev_schema ev) e) = evaluate_expr lib ev tp e"
  using bindsD(1) [OF binds_all [OF assms(1)] assms(2), of tp] by (simp only: bound_def)

theorem bind_preserves_evaluation_witness:
  "evaluate_expr plain_lib (evaluator_new [id_column]) [Int4 7]
     (bind_expr_columns plain_lib [id_column] (EScalar ''pg_catalog.ABS'' [EColumn (Some ''t'') ''id''])) = Inr (Int4 7)"
proof -
  have n: "normalize_function_name plain_lib ''pg_catalog.ABS'' = ''abs''" "normalize_function_name plain_lib ''abs'' = ''abs''"
    by (simp_all add: normalize_function_name_def dispatch_form_def strip_pg_catalog_def plain_lib_def lower_ascii_def ascii_lower_def char_of_def bit_0)
  have abs: "lib_scalar plain_lib ''pg_catalog.ABS'' ''abs'' = lib_scalar plain_lib ''abs'' ''abs''" by (simp add: plain_lib_def)
  have "evaluate_expr plain_lib (evaluator_new [id_column]) [Int4 7]
      (bind_expr_columns plain_lib (ev_schema (evaluator_new [id_column])) (EScalar ''pg_catalog.ABS'' [EColumn (Some ''t'') ''id'']))
    = evaluate_expr plain_lib (evaluator_new [id_column]) [Int4 7] (EScalar ''pg_catalog.ABS'' [EColumn (Some ''t'') ''id''])"
    by (rule bind_preserves_evaluation) (simp_all add: evaluator_new_def stable_name_def n abs ANY_ARRAY_MARKER_FUNCTION_def)
  then show ?thesis by (simp add: n evaluator_new_def column_value_def trigger_column_def get_qualified_column_index_def tuple_get_def)
    (simp add: plain_lib_def)
qed

text \<open>
  C32. a condition is TRUE, FALSE or NULL. Comparisons, logical connectives, patterns, \<open>BETWEEN\<close>,
  \<open>IN\<close>, \<open>IS NULL\<close>, \<open>NOT\<close>, row comparisons and \<open>CASE\<close> expressions over conditions never evaluate to a
  value of another type, whatever their operands are; they either fail or yield a truth value.
\<close>

theorem conditions_have_truth_values:
  assumes "is_condition e" "evaluate_expr lib ev tp e = Inr v"
  shows "v = Null \<or> v = Boolean True \<or> v = Boolean False"
  using condition_truth [OF assms(1), of lib ev tp] assms(2) by (auto elim: truth_cases)

theorem conditions_have_truth_values_witness:
  "\<exists>v. evaluate_expr plain_lib (evaluator_new []) [] (EInList (ELiteral (Int4 3)) [ELiteral (Int8 3), ELiteral Null] True) = Inr v \<and> v \<noteq> Int4 3"
proof -
  let ?e = "EInList (ELiteral (Int4 3)) [ELiteral (Int8 3), ELiteral Null] True"
  obtain v where v: "evaluate_expr plain_lib (evaluator_new []) [] ?e = Inr v"
    by (cases "values_equal plain_lib (Int4 3) (Int8 3)") (simp_all add: evaluate_in_list_def)
  from conditions_have_truth_values [OF _ this] show ?thesis using v by auto
qed

text \<open>
  C20. the short-circuit connectives are those of three-valued logic. When both sides are truth
  values they give what the tables of \<open>AND\<close> and \<open>OR\<close> give; a left side that decides the result
  hides the right side, with its errors; and De Morgan's law holds for every two expressions,
  errors included.
\<close>

theorem short_circuit_is_three_valued:
  "(evaluate_expr lib ev tp l = Inr lv \<and> evaluate_expr lib ev tp r = Inr rv \<and> truth lv \<and> truth rv \<longrightarrow>
      evaluate_expr lib ev tp (EBinary l BAnd r) = three_valued_and lv rv \<and> evaluate_expr lib ev tp (EBinary l BOr r) = three_valued_or lv rv)
   \<and> (evaluate_expr lib ev tp l = Inr (Boolean False) \<longrightarrow> evaluate_expr lib ev tp (EBinary l BAnd r) = Inr (Boolean False))
   \<and> (evaluate_expr lib ev tp l = Inr (Boolean True) \<longrightarrow> evaluate_expr lib ev tp (EBinary l BOr r) = Inr (Boolean True))
   \<and> evaluate_expr lib ev tp (EUnary UNot (EBinary l BAnd r)) = evaluate_expr lib ev tp (EBinary (EUnary UNot l) BOr (EUnary UNot r))"
proof (intro conjI impI)
  assume "evaluate_expr lib ev tp l = Inr lv \<and> evaluate_expr lib ev tp r = Inr rv \<and> truth lv \<and> truth rv"
  then show "evaluate_expr lib ev tp (EBinary l BAnd r) = three_valued_and lv rv" "evaluate_expr lib ev tp (EBinary l BOr r) = three_valued_or lv rv"
    by (simp_all add: connectives_three_valued)
next
  show "evaluate_expr lib ev tp (EUnary UNot (EBinary l BAnd r)) = evaluate_expr lib ev tp (EBinary (EUnary UNot l) BOr (EUnary UNot r))"
    using de_morgan [of "evaluate_expr lib ev tp l" "evaluate_expr lib ev tp r"] by simp
qed (simp_all add: and_short_circuit_def or_short_circuit_def)

theorem short_circuit_is_three_valued_witness:
  "evaluate_expr plain_lib (evaluator_new []) [] (EBinary (ELiteral (Boolean False)) BAnd (EColumn None ''x'')) = Inr (Boolean False)
   \<and> evaluate_expr plain_lib (evaluator_new []) [] (EBinary (ELiteral Null) BOr (ELiteral (Boolean True))) = three_valued_or Null (Boolean True)"
  using short_circuit_is_three_valued [of plain_lib "evaluator_new []" "[]" "ELiteral (Boolean False)" Null "EColumn None ''x''" Null]
    short_circuit_is_three_valued [of plain_lib "evaluator_new []" "[]" "ELiteral Null" Null "ELiteral (Boolean True)" "Boolean True"]
  by (simp del: evaluate_expr.simps(3,5))

text \<open>
  row constructors compare as SQL says. For elements that can be compared, an ordering
  comparison gives the order of the first pair of elements that is not equal, NULL when that pair
  has a NULL; equality is false as soon as one pair differs, NULL when no pair differs and one has
  a NULL, and true otherwise.
\<close>

theorem row_comparison_lexicographic:
  assumes "list_all2 (\<lambda>(l, r) c. pair_order lib l r = Inr c) (zip ls rs) cs" "length ls = length rs"
  shows "(op \<in> {BLt, BLtEq, BGt, BGtEq} \<longrightarrow> evaluate_expr lib ev tp (EBinary (ETuple (map ELiteral ls)) op (ETuple (map ELiteral rs)))
      = Inr (case lex_order cs of Some c \<Rightarrow> Boolean (row_relation op c) | None \<Rightarrow> Null))
    \<and> (op \<in> {BEq, BNotEq} \<longrightarrow> evaluate_expr lib ev tp (EBinary (ETuple (map ELiteral ls)) op (ETuple (map ELiteral rs)))
      = Inr (if \<exists>c \<in> set cs. c \<noteq> None \<and> c \<noteq> Some Equal then Boolean (op = BNotEq) else if None \<in> set cs then Null else Boolean (op = BEq)))"
proof -
  have z: "zip (map Inr ls) (map Inr rs) = map (\<lambda>(l, r). (Inr l, Inr r)) (zip ls rs)" by (simp add: zip_map_map)
  have m: "map (evaluate_expr lib ev tp) (map ELiteral xs) = map Inr xs" for xs by simp
  have e: "evaluate_expr lib ev tp (EBinary (ETuple (map ELiteral ls)) op (ETuple (map ELiteral rs)))
      = row_loop lib op False (map (\<lambda>(l, r). (Inr l, Inr r)) (zip ls rs))" if "op \<noteq> BAnd" "op \<noteq> BOr"
    using assms(2) that by (simp add: evaluate_tuple_compare_def m z del: map_map)
  show ?thesis
  proof (intro conjI impI)
    assume "op \<in> {BLt, BLtEq, BGt, BGtEq}"
    then show "evaluate_expr lib ev tp (EBinary (ETuple (map ELiteral ls)) op (ETuple (map ELiteral rs)))
        = Inr (case lex_order cs of Some c \<Rightarrow> Boolean (row_relation op c) | None \<Rightarrow> Null)"
      using row_loop_order [OF _ assms(1)] e by auto
  next
    assume op: "op \<in> {BEq, BNotEq}"
    from row_loop_equality [OF this assms(1), of False] op e
    show "evaluate_expr lib ev tp (EBinary (ETuple (map ELiteral ls)) op (ETuple (map ELiteral rs)))
        = Inr (if \<exists>c \<in> set cs. c \<noteq> None \<and> c \<noteq> Some Equal then Boolean (op = BNotEq) else if None \<in> set cs then Null else Boolean (op = BEq))"
      by (elim insertE) (simp_all del: evaluate_expr.simps)
  qed
qed

theorem row_comparison_lexicographic_witness:
  "evaluate_expr plain_lib (evaluator_new []) [] (EBinary (ETuple (map ELiteral [Int4 1, Null])) BLt (ETuple (map ELiteral [Int4 2, Int4 5]))) = Inr (Boolean True)
   \<and> evaluate_expr plain_lib (evaluator_new []) [] (EBinary (ETuple (map ELiteral [Int4 1, Null])) BEq (ETuple (map ELiteral [Int4 2, Int4 5]))) = Inr (Boolean False)"
proof -
  have o: "pair_order plain_lib (Int4 1) (Int4 2) = Inr (Some Less)" "pair_order plain_lib Null (Int4 5) = Inr None"
    by (simp_all add: pair_order_def special_operator_cmp_def is_special_numeric_def ordering_defs cmp_def)
  have "list_all2 (\<lambda>(l, r) c. pair_order plain_lib l r = Inr c) (zip [Int4 1, Null] [Int4 2, Int4 5]) [Some Less, None]" by (simp add: o)
  from row_comparison_lexicographic [OF this] show ?thesis by (simp add: row_relation_def del: evaluate_expr.simps)
qed

text \<open>
  C19. integer arithmetic is exact or an error. For integers of any width, \<open>+\<close>, \<open>-\<close>, \<open>*\<close> and \<open>/\<close>
  give the mathematical result, the quotient truncated towards zero, as an integer wide enough to
  hold it; when no \<open>BIGINT\<close> can hold it they fail with an overflow, and a zero divisor is an
  error. Nothing wraps around.
\<close>

theorem integer_arithmetic_exact:
  assumes "int_value l = Some a" "int_value r = Some b"
  shows "exact_result (a + b) (arithmetic_add lib l r) \<and> exact_result (a - b) (arithmetic_subtract lib l r)
    \<and> exact_result (a * b) (arithmetic_multiply lib l r)
    \<and> (if b = 0 then divide_op lib l r = Inl Division_by_zero else exact_result (trunc_div a b) (divide_op lib l r))"
proof -
  have n: "l \<noteq> Null" "r \<noteq> Null" using assms by (auto simp: int_value_def)
  have z: "is_zero lib r \<longleftrightarrow> b = 0" using int_value_cases [OF assms(2)] assms(2)
    by (auto simp: is_zero_def int_value_def signed_eq_0_iff)
  have ar: "exact_result (f a b) (arithmetic lib tag f l r)" if "widening f a b" for f tag
    using int_arms_exact [OF assms that] n by (auto simp: arithmetic_def)
  show ?thesis using ar widening_plus_minus widening_mult widening_div n z
    by (simp add: arithmetic_add_def arithmetic_subtract_def arithmetic_multiply_def divide_op_def)
qed

theorem integer_arithmetic_exact_witness:
  "arithmetic_add plain_lib (Int8 0x7FFFFFFFFFFFFFFF) (Int2 1) = Inl Overflow
   \<and> exact_result 2147483648 (arithmetic_add plain_lib (Int4 0x7FFFFFFF) (Int4 1))"
proof -
  have v: "int_value (Int8 0x7FFFFFFFFFFFFFFF) = Some 9223372036854775807" "int_value (Int2 1) = Some 1"
    "int_value (Int4 0x7FFFFFFF) = Some 2147483647" "int_value (Int4 1) = Some 1" by (simp_all add: int_value_def)
  show ?thesis using integer_arithmetic_exact [OF v(1,2), of plain_lib] integer_arithmetic_exact [OF v(3,4), of plain_lib]
    by (simp add: exact_result_def int_range_def)
qed

text \<open>
  \<open>NOT IN\<close> over a subquery with more than sixteen rows forgets NULL. Up to sixteen rows the
  values become a list and a NULL among them makes the condition NULL where no value matches, as
  SQL says; with more rows they become a set, and the same condition is TRUE.
\<close>

theorem in_subquery_forgets_null:
  fixes results :: "sql_value list list"
  assumes "evaluate_expr lib ev tp e = Inr v" "v \<noteq> Null"
  defines "column \<equiv> map hd (filter (\<lambda>t. t \<noteq> []) results)"
  shows "evaluate_expr lib ev tp (materialize_in_subquery e results negated) = Inr (if list_ex (values_equal lib v) column then Boolean (\<not> negated)
    else if Null \<in> set column \<and> length results \<le> 16 then Null else Boolean negated)"
proof (cases "length results > 16")
  case True
  have "list_ex (values_equal lib v) (remdups column) = list_ex (values_equal lib v) column" by (simp add: list_ex_iff)
  then show ?thesis using True assms(1,2)
    by (simp add: materialize_in_subquery_def evaluate_in_set_def column_def [symmetric] Let_def)
next
  case False
  then show ?thesis using in_literals [OF assms(1,2), of column negated]
    by (simp add: materialize_in_subquery_def column_def [symmetric] Let_def del: evaluate_expr.simps)
qed

theorem in_subquery_forgets_null_witness:
  "evaluate_expr plain_lib (evaluator_new []) [] (materialize_in_subquery (ELiteral (Boolean True)) ([Null] # replicate 15 [Boolean False]) True) = Inr Null
   \<and> evaluate_expr plain_lib (evaluator_new []) [] (materialize_in_subquery (ELiteral (Boolean True)) ([Null] # replicate 16 [Boolean False]) True) = Inr (Boolean True)"
proof -
  have ne: "\<not> values_equal plain_lib (Boolean True) (Boolean False)"
    by (simp add: values_equal_def special_operator_cmp_def is_special_numeric_def)
  have c: "map hd (filter (\<lambda>t. t \<noteq> []) ([Null] # replicate n [Boolean False])) = Null # replicate n (Boolean False)" for n
    by (simp add: filter_replicate)
  have x: "\<not> list_ex (values_equal plain_lib (Boolean True)) (replicate n (Boolean False))" for n
    using ne by (auto simp: list_ex_iff)
  have v: "evaluate_expr plain_lib (evaluator_new []) [] (ELiteral (Boolean True)) = Inr (Boolean True)" by simp
  from in_subquery_forgets_null [OF v, of "[Null] # replicate 15 [Boolean False]" True]
    in_subquery_forgets_null [OF v, of "[Null] # replicate 16 [Boolean False]" True]
  show ?thesis unfolding c by (simp add: x del: evaluate_expr.simps)
qed

text \<open>
  \<open>BETWEEN\<close> with a NULL bound is NULL even when the other bound excludes the value. For a value
  below the lower bound and a NULL upper bound, \<open>x >= low AND x <= high\<close> is FALSE, so \<open>NOT BETWEEN\<close>
  should be TRUE; the evaluator answers NULL to both forms, and a filter with \<open>NOT BETWEEN\<close> loses the
  row.
\<close>

theorem between_null_bound:
  assumes "eval_compare_values lib (\<lambda>c. c \<noteq> Less) x low = Inr (Boolean False)"
  shows "evaluate_expr lib ev tp (EBetween (ELiteral x) (ELiteral low) (ELiteral Null) negated) = Inr Null
    \<and> evaluate_expr lib ev tp (EBinary (EBinary (ELiteral x) BGtEq (ELiteral low)) BAnd (EBinary (ELiteral x) BLtEq (ELiteral Null))) = Inr (Boolean False)
    \<and> evaluate_expr lib ev tp (EUnary UNot (EBinary (EBinary (ELiteral x) BGtEq (ELiteral low)) BAnd (EBinary (ELiteral x) BLtEq (ELiteral Null)))) = Inr (Boolean True)"
  using assms by (simp add: evaluate_between_def evaluate_binary_op_def and_short_circuit_def evaluate_unary_op_def to_boolean_def)

theorem between_null_bound_witness:
  "evaluate_expr plain_lib (evaluator_new []) [] (EBetween (ELiteral (Int4 5)) (ELiteral (Int4 10)) (ELiteral Null) True) = Inr Null"
proof -
  have "eval_compare_values plain_lib (\<lambda>c. c \<noteq> Less) (Int4 5) (Int4 10) = Inr (Boolean False)"
    by (simp add: eval_compare_values_def special_operator_cmp_def is_special_numeric_def ordering_defs cmp_def)
  from between_null_bound [OF this, of "evaluator_new []" "[]" True] show ?thesis by blast
qed

text \<open>
  \<open>=\<close> and \<open>IN\<close> disagree. A NaN of type \<open>DOUBLE PRECISION\<close> equals every number by \<open>=\<close> and none by
  \<open>IN\<close>; a UUID equals its sixteen bytes by \<open>=\<close> and not by \<open>IN\<close>; two texts of one decimal number
  that is not a special value are equal by \<open>=\<close> and not by \<open>IN\<close>.
\<close>

theorem equality_and_in_disagree:
  "(f64_num n = None \<longrightarrow> eval_compare_values lib (\<lambda>c. c = Equal) (Float8 n) (Float8 x) = Inr (Boolean True)
      \<and> \<not> values_equal lib (Float8 n) (Float8 x))
   \<and> (length u = 16 \<longrightarrow> eval_compare_values lib (\<lambda>c. c = Equal) (Uuid u) (Bytes u) = Inr (Boolean True) \<and> \<not> values_equal lib (Uuid u) (Bytes u))
   \<and> (special_of a = None \<and> special_of b = None \<and> a \<noteq> b \<and> px_decimal (lib_px lib) a = Some d \<and> px_decimal (lib_px lib) b = Some e \<and> decimal_cmp d e = Equal
      \<longrightarrow> eval_compare_values lib (\<lambda>c. c = Equal) (Numeric a) (Numeric b) = Inr (Boolean True) \<and> \<not> values_equal lib (Numeric a) (Numeric b))"
  by (auto simp: eval_compare_values_def values_equal_def special_operator_cmp_def is_special_numeric_def ordering_defs uuid_from_slice_def
      fcmp_def feq_def partial_cmp_def numeric_eq_def)

theorem equality_and_in_disagree_witness:
  "eval_compare_values plain_lib (\<lambda>c. c = Equal) (Uuid (replicate 16 7)) (Bytes (replicate 16 7)) = Inr (Boolean True)
   \<and> \<not> values_equal plain_lib (Uuid (replicate 16 7)) (Bytes (replicate 16 7))"
  using equality_and_in_disagree [of 0 plain_lib 0 "replicate 16 7" "[]" "[]" "(0, 0)" "(0, 0)"] by simp

text \<open>
  Comparing with swapped operands: \<open>l < r\<close> is \<open>r > l\<close>, \<open>l <= r\<close> is \<open>r >= l\<close> and equality is
  symmetric, through every coercion and with the same errors.
\<close>

lemma comparison_swaps:
  "evaluate_binary_op lib BLt l r = evaluate_binary_op lib BGt r l" "evaluate_binary_op lib BLtEq l r = evaluate_binary_op lib BGtEq r l"
  "evaluate_binary_op lib BEq l r = evaluate_binary_op lib BEq r l"
proof -
  have f: "flip c = Greater \<longleftrightarrow> c = Less" "flip c = Less \<longleftrightarrow> c = Greater" "flip c = Equal \<longleftrightarrow> c = Equal" for c by (cases c; simp)+
  show "evaluate_binary_op lib BLt l r = evaluate_binary_op lib BGt r l" "evaluate_binary_op lib BLtEq l r = evaluate_binary_op lib BGtEq r l"
    "evaluate_binary_op lib BEq l r = evaluate_binary_op lib BEq r l"
    unfolding evaluate_binary_op_def bin_op.case by (subst eval_compare_swap, simp add: f)+
qed

text \<open>
  The escape of a pattern is known to the evaluator only: for \<open>a\%\<close> it builds an expression with a
  literal percent sign, while the pushed predicate reads the backslash as a character of its own.
\<close>

lemma like_escape_differs:
  "like_pattern_to_regex [0x61, 0x5C, 0x25] = letters ''^a%$'' \<and> \<not> match_like_pattern [0x61, 0x25] [0x61, 0x5C, 0x25]"
proof -
  have c: "chars [0x61, 0x5C, 0x25] = [0x61, 0x5C, 0x25]" "chars [0x61, 0x25] = [0x61, 0x25]" by simp_all
  have "\<not> like_splits [0x61, 0x5C, 0x25] [0x61, 0x25]" by (simp add: like_splits_single)
  then show ?thesis using match_like_correct [of 0 "[0x61, 0x25]" "[0x61, 0x5C, 0x25]" 0]
    by (simp add: like_pattern_to_regex_def c match_like_pattern_def regex_special_def del: chars.simps)
qed

text \<open>Two operators that fail on operands they are meant for: the negation of NULL, and \<open>SMALLINT % INT\<close>.\<close>

lemma operators_that_fail: "evaluate_unary_op UMinus Null = Inl Bad_operand" "arithmetic_modulo (Int2 a) (Int4 b) = Inl Bad_operand"
  by (simp_all add: evaluate_unary_op_def arithmetic_modulo_def)

end
