(* ===== verification/Eval_Pushdown.thy ===== *)
theory Eval_Pushdown
  imports Eval_Laws
begin

text \<open>
  The evaluator beside the predicates that a scan evaluates in storage
  (\<^verbatim>\<open>src/src/storage/predicate_pushdown.rs\<close>): the two decide the same rows where the executor
  filters in storage only, and the cases where the evaluator's own operators disagree with each
  other.
\<close>

section \<open>Evaluation in storage\<close>

text \<open>An expression as the analysis of predicates reads it.\<close>

definition op_view :: "bin_op \<Rightarrow> binary_operator" where
  "op_view op = (case op of BEq \<Rightarrow> OpEq | BNotEq \<Rightarrow> OpNotEq | BLt \<Rightarrow> OpLt | BLtEq \<Rightarrow> OpLtEq | BGt \<Rightarrow> OpGt | BGtEq \<Rightarrow> OpGtEq
     | BAnd \<Rightarrow> OpAnd | BOr \<Rightarrow> OpOr | BLike \<Rightarrow> OpLike | _ \<Rightarrow> OpOther)"

fun expr_view :: "expr \<Rightarrow> logical_expr" where
  "expr_view (EColumn q name) = Column q name"
| "expr_view (ELiteral v) = Literal v"
| "expr_view (EParameter i) = Parameter i"
| "expr_view (ECast e ty) = Cast (expr_view e) ty"
| "expr_view (EBinary l op r) = BinaryExpr (expr_view l) (op_view op) (expr_view r)"
| "expr_view (EIsNull e b) = IsNullExpr (expr_view e) b"
| "expr_view (EBetween e lo hi negated) = BetweenExpr (expr_view e) (expr_view lo) (expr_view hi) negated"
| "expr_view (EInList e es negated) = InList (expr_view e) (map expr_view es) negated"
| "expr_view e = OtherExpr []"

lemma view_cases:
  "is_column (expr_view e) \<longleftrightarrow> (\<exists>q name. e = EColumn q name)" "is_bound_literal (expr_view e) \<longleftrightarrow> (\<exists>v. e = ELiteral v \<and> v \<noteq> Null)"
  by (cases e; simp add: is_column_def is_bound_literal_def)+

lemma view_literals: "list_all is_bound_literal (map expr_view es) \<Longrightarrow> \<exists>vs. es = map ELiteral vs \<and> Null \<notin> set vs"
proof (induction es)
  case (Cons e es)
  then obtain v vs where "e = ELiteral v" "v \<noteq> Null" "es = map ELiteral vs" "Null \<notin> set vs" by (auto simp: view_cases)
  then show ?case by (intro exI [of _ "v # vs"]) simp
qed simp

text \<open>The columns of a condition, resolved by the evaluator as by the scan, and no patterns.\<close>

fun resolves :: "ev_schema \<Rightarrow> expr \<Rightarrow> bool" where
  "resolves schema (EColumn q name) = (get_qualified_column_index schema q name = schema_column_index schema name)"
| "resolves schema (EBinary l op r) = (op \<noteq> BLike \<and> resolves schema l \<and> resolves schema r)"
| "resolves schema (EIsNull e b) = resolves schema e"
| "resolves schema (EBetween e lo hi negated) = resolves schema e"
| "resolves schema (EInList e es negated) = resolves schema e"
| "resolves schema e = True"

lemma plain_eval:
  assumes "plain_type ty" "ty \<noteq> TBytea" "storage_filter_value_matches_type ty v" "storage_filter_value_matches_type ty w" "w \<noteq> Null"
  shows "\<exists>u. eval_compare_values lib f v w = Inr u \<and> truth u \<and> (u = Boolean True \<longleftrightarrow> sql_holds px f v w)"
    and "v \<noteq> Null \<Longrightarrow> values_equal lib v w \<longleftrightarrow> sql_holds px (\<lambda>c. c = Equal) v w"
proof -
  note defs = eval_compare_values_def sql_holds_def special_operator_cmp_def is_special_numeric_def ordering_defs compare_values_def
    values_equal_def int_eq_def text_eq_def
  have both: "(\<exists>u. eval_compare_values lib f v w = Inr u \<and> truth u \<and> (u = Boolean True \<longleftrightarrow> sql_holds px f v w))
      \<and> (v \<noteq> Null \<longrightarrow> (values_equal lib v w \<longleftrightarrow> sql_holds px (\<lambda>c. c = Equal) v w))"
  proof (cases rule: plain_values [OF assms(1,3,4)])
    case (4 a b)
    from int_value_cases [OF 4(1)] int_value_cases [OF 4(2)] show ?thesis by (elim disjE exE) (simp_all add: defs int_value_def)
  next
    case (6 a b)
    then show ?thesis using assms(1-4) by (auto simp: storage_filter_value_matches_type_def)
  qed (use assms(5) in \<open>auto simp: defs\<close>)
  then show "\<exists>u. eval_compare_values lib f v w = Inr u \<and> truth u \<and> (u = Boolean True \<longleftrightarrow> sql_holds px f v w)"
    "v \<noteq> Null \<Longrightarrow> values_equal lib v w \<longleftrightarrow> sql_holds px (\<lambda>c. c = Equal) v w" by blast+
qed

lemma comparison_fits:
  assumes "row_typed schema tp" "extract_comparison px schema ps (Column q name) (Literal v) op = Some p"
    "storage_predicate_safe schema p" "op \<in> {OpEq, OpLt, OpLtEq, OpGt, OpGtEq}"
  obtains i where "column_position name schema = Some i" "storage_filter_value_matches_type (col_type (schema ! i)) v" "v \<noteq> Null"
proof -
  obtain i pop where i: "column_position name schema = Some i" "comparison_op op = Some pop" "ap_op p = pop" "ap_column_index p = i"
      "ap_value p = coerce_literal_for_column px v (col_type (schema ! i))"
    using assms(2) by (auto simp: extract_comparison_def split: option.splits)
  note ty = typed_column [OF assms(1) i(1)]
  have "ap_value p = v" using i(5) ty(3) by (simp add: plain_coerce)
  then show ?thesis using assms(3,4) i ty(2) by (intro that [of i]) (auto simp: storage_predicate_safe_def comparison_op_def Let_def)
qed

lemma between_fits:
  assumes "row_typed schema tp" "extract_between px schema ps (Column q name) (Literal lo) (Literal hi) False = [p]" "storage_predicate_safe schema p"
  obtains i where "column_position name schema = Some i" "storage_filter_value_matches_type (col_type (schema ! i)) lo"
    "storage_filter_value_matches_type (col_type (schema ! i)) hi"
proof -
  obtain i where i: "column_position name schema = Some i" "ap_column_index p = i" "ap_op p = PBetween"
      "ap_value p = coerce_literal_for_column px lo (col_type (schema ! i))" "ap_value2 p = Some (coerce_literal_for_column px hi (col_type (schema ! i)))"
    using assms(2) by (auto simp: extract_between_def Let_def split: option.splits)
  note ty = typed_column [OF assms(1) i(1)]
  show ?thesis using assms(3) i ty(2,3) by (intro that [of i]) (auto simp: storage_predicate_safe_def plain_coerce Let_def)
qed

lemma in_fits:
  assumes "row_typed schema tp" "extract_in px schema ps (Column q name) (map Literal vs) False = [p]" "storage_predicate_safe schema p" "Null \<notin> set vs"
  obtains i where "column_position name schema = Some i" "\<And>v. v \<in> set vs \<Longrightarrow> storage_filter_value_matches_type (col_type (schema ! i)) v"
proof -
  obtain i where i: "column_position name schema = Some i" using assms(2) by (auto simp: extract_in_def split: option.splits)
  note ty = typed_column [OF assms(1) i]
  have "list_all is_bound_literal (map Literal vs)" using assms(4) by (auto simp: list_all_iff is_bound_literal_def)
  moreover have "map (operand schema tp) (map Literal vs) = vs" by (induction vs) simp_all
  ultimately have "resolve_all px (col_type (schema ! i)) ps (map Literal vs) = Some vs"
    using resolve_literals [OF _ ty(3), of "map Literal vs" px ps schema tp] by (simp del: map_map)
  then have "ap_column_index p = i" "ap_op p = PIn" "ap_value_list p = vs"
    using assms(2) by (auto simp: extract_in_def i split: list.splits)
  then show ?thesis using assms(3) i ty(2) by (intro that [of i]) (auto simp: storage_predicate_safe_def Let_def list_all_iff)
qed

text \<open>A result that is a truth value, and true exactly when the condition is.\<close>

definition decides :: "eval_error + sql_value \<Rightarrow> bool \<Rightarrow> bool" where
  "decides r b \<longleftrightarrow> (\<exists>u. r = Inr u \<and> truth u \<and> (u = Boolean True \<longleftrightarrow> b))"

lemma decides_and: "decides l a \<Longrightarrow> decides r b \<Longrightarrow> decides (and_short_circuit l r) (a \<and> b)"
  by (auto simp: decides_def and_short_circuit_def elim!: truth_cases split: if_splits)

lemma column_evaluates:
  assumes "resolves schema (EColumn q name)" "column_position name (map column.truncate schema) = Some i" "i < length tp"
  shows "evaluate_expr lib (evaluator_with_parameters schema ps) tp (EColumn q name) = Inr (tp ! i)"
  using assms by (simp add: column_value_def trigger_column_def evaluator_with_parameters_def schema_column_index_def tuple_get_def split: option.split)

lemma comparison_evaluates:
  assumes "op \<in> {BEq, BLt, BLtEq, BGt, BGtEq}" "evaluate_expr lib ev tp l = Inr v" "evaluate_expr lib ev tp r = Inr w"
  shows "evaluate_expr lib ev tp (EBinary l op r) = eval_compare_values lib (comparison_rel (op_view op)) v w"
proof -
  have "(\<forall>ls. l \<noteq> ETuple ls)" using assms(2) by auto
  then have "evaluate_expr lib ev tp (EBinary l op r) = evaluate_binary_op lib op v w" using assms by (cases l) auto
  then show ?thesis using assms(1) by (auto simp: evaluate_binary_op_def op_view_def comparison_rels)
qed

text \<open>What is known of a column that a safe predicate names.\<close>

lemma column_facts:
  fixes schema :: ev_schema
  defines "cs \<equiv> map column.truncate schema"
  assumes "row_typed cs tp" "\<forall>c \<in> set schema. col_type c \<noteq> TBytea" "resolves schema (EColumn q name)" "column_position name cs = Some i"
  shows "evaluate_expr lib (evaluator_with_parameters schema ps) tp (EColumn q name) = Inr (tp ! i)" "operand cs tp (Column q name) = tp ! i"
    and "storage_filter_value_matches_type (col_type (cs ! i)) w \<Longrightarrow> w \<noteq> Null \<Longrightarrow> decides (eval_compare_values lib f (tp ! i) w) (sql_holds px f (tp ! i) w)"
    and "storage_filter_value_matches_type (col_type (cs ! i)) w \<Longrightarrow> w \<noteq> Null \<Longrightarrow> tp ! i \<noteq> Null
      \<Longrightarrow> values_equal lib (tp ! i) w \<longleftrightarrow> sql_holds px (\<lambda>c. c = Equal) (tp ! i) w"
    and "storage_filter_value_matches_type (col_type (cs ! i)) w \<Longrightarrow> sql_holds px (\<lambda>c. c = Equal) (tp ! i) w \<longleftrightarrow> sql_holds px (\<lambda>c. c = Equal) w (tp ! i)"
proof -
  note ty = typed_column [OF assms(2,5)]
  have b: "col_type (cs ! i) \<noteq> TBytea" using assms(3) ty(2) by (simp add: cs_def column.defs)
  show "evaluate_expr lib (evaluator_with_parameters schema ps) tp (EColumn q name) = Inr (tp ! i)"
    using column_evaluates assms(4,5) ty(1) by (simp add: cs_def del: evaluate_expr.simps)
  show "operand cs tp (Column q name) = tp ! i" by (simp add: operand_def assms(5))
  show "decides (eval_compare_values lib f (tp ! i) w) (sql_holds px f (tp ! i) w)"
    if "storage_filter_value_matches_type (col_type (cs ! i)) w" "w \<noteq> Null"
    unfolding decides_def using plain_eval(1) [OF ty(3) b ty(4) that] .
  show "values_equal lib (tp ! i) w \<longleftrightarrow> sql_holds px (\<lambda>c. c = Equal) (tp ! i) w"
    if "storage_filter_value_matches_type (col_type (cs ! i)) w" "w \<noteq> Null" "tp ! i \<noteq> Null"
    using plain_eval(2) [OF ty(3) b ty(4) that] .
  show "sql_holds px (\<lambda>c. c = Equal) (tp ! i) w \<longleftrightarrow> sql_holds px (\<lambda>c. c = Equal) w (tp ! i)"
    if "storage_filter_value_matches_type (col_type (cs ! i)) w" using plain_eq_sym [OF ty(3,4) that] .
qed

lemma leaf_comparison_evaluates:
  fixes schema :: ev_schema
  defines "cs \<equiv> map column.truncate schema"
  assumes tp: "row_typed cs tp" "\<forall>c \<in> set schema. col_type c \<noteq> TBytea"
    and op: "op \<in> {BEq, BLt, BLtEq, BGt, BGtEq}" and e: "can_push_predicate (expr_view (EBinary l op r))"
    "column_first (expr_view (EBinary l op r))" "resolves schema (EBinary l op r)"
    and x: "extract_predicates px cs ps (expr_view (EBinary l op r)) = [p]" "storage_predicate_safe cs p"
  shows "decides (evaluate_expr lib (evaluator_with_parameters schema ps) tp (EBinary l op r)) (sql_true px cs tp (expr_view (EBinary l op r)))"
proof -
  let ?l = "expr_view l" and ?r = "expr_view r" and ?ev = "evaluator_with_parameters schema ps"
  have v: "op_view op \<in> {OpEq, OpLt, OpLtEq, OpGt, OpGtEq}" using op by (auto simp: op_view_def)
  have t: "sql_true px cs tp (expr_view (EBinary l op r)) \<longleftrightarrow> sql_holds px (comparison_rel (op_view op)) (operand cs tp ?l) (operand cs tp ?r)"
    using v by auto
  have ex: "(case extract_comparison px cs ps ?l ?r (op_view op) of Some p \<Rightarrow> [p]
      | None \<Rightarrow> (case extract_comparison px cs ps ?r ?l (op_view op) of Some p \<Rightarrow> [p] | None \<Rightarrow> [])) = [p]" using x(1) v by auto
  have "is_column ?l \<and> is_bound_literal ?r \<or> is_bound_literal ?l \<and> is_column ?r" using e(1) v by auto
  then consider q name w where "l = EColumn q name" "r = ELiteral w" | q name w where "l = ELiteral w" "r = EColumn q name"
    by (auto simp: view_cases)
  then show ?thesis
  proof cases
    case (1 q name w)
    then have p: "extract_comparison px cs ps (Column q name) (Literal w) (op_view op) = Some p"
      using ex by (auto simp: extract_comparison_def split: option.splits)
    have n: "resolves schema (EColumn q name)" using e(3) by (simp add: 1)
    from comparison_fits [OF tp(1) p x(2) v] obtain i where
      i: "column_position name cs = Some i" "storage_filter_value_matches_type (col_type (cs ! i)) w" "w \<noteq> Null" .
    note col = column_facts [OF tp [unfolded cs_def] n i(1) [unfolded cs_def], folded cs_def]
    show ?thesis using col(2,3) i comparison_evaluates [OF op col(1), of lib ps "ELiteral w" w] unfolding t unfolding 1
      by (simp del: evaluate_expr.simps(3,5))
  next
    case (2 q name w)
    then have p: "extract_comparison px cs ps (Column q name) (Literal w) (op_view op) = Some p"
      using ex by (auto simp: extract_comparison_def split: option.splits)
    have n: "resolves schema (EColumn q name)" and eq: "op = BEq" using e(2,3) op by (auto simp: 2 is_column_def op_view_def)
    from comparison_fits [OF tp(1) p x(2) v] obtain i where
      i: "column_position name cs = Some i" "storage_filter_value_matches_type (col_type (cs ! i)) w" "w \<noteq> Null" .
    note col = column_facts [OF tp [unfolded cs_def] n i(1) [unfolded cs_def], folded cs_def]
    have "(\<lambda>c. flip c = Equal) = (\<lambda>c. c = Equal)" by (rule ext) (simp add: flip_def split: ordering.split)
    then have "evaluate_expr lib ?ev tp (EBinary l op r) = eval_compare_values lib (\<lambda>c. c = Equal) (tp ! i) w"
      using comparison_evaluates [OF op _ col(1), of lib ps "ELiteral w" w] eval_compare_swap [of lib "\<lambda>c. c = Equal" w "tp ! i"]
      by (simp add: 2 eq op_view_def comparison_rels del: evaluate_expr.simps(3,5))
    moreover have "decides (eval_compare_values lib (\<lambda>c. c = Equal) (tp ! i) w) (sql_holds px (\<lambda>c. c = Equal) w (tp ! i))"
      using col(3) [OF i(2,3), of lib "\<lambda>c. c = Equal" px] col(5) [OF i(2), of px] by simp
    ultimately show ?thesis using col(2) unfolding t unfolding 2 by (simp add: eq op_view_def comparison_rels)
  qed
qed

lemma leaf_evaluates:
  fixes schema :: ev_schema
  defines "cs \<equiv> map column.truncate schema"
  assumes tp: "row_typed cs tp" "\<forall>c \<in> set schema. col_type c \<noteq> TBytea"
    and e: "can_push_predicate (expr_view e)" "column_first (expr_view e)" "resolves schema e" "\<And>l r. e \<noteq> EBinary l BAnd r"
    and x: "extract_predicates px cs ps (expr_view e) = [p]" "storage_predicate_safe cs p"
  shows "decides (evaluate_expr lib (evaluator_with_parameters schema ps) tp e) (sql_true px cs tp (expr_view e))"
proof (cases e)
  case (EBinary l op r)
  have "op \<in> {BEq, BLt, BLtEq, BGt, BGtEq}" using e(1,3,4) unfolding EBinary by (cases op) (auto simp: op_view_def)
  then show ?thesis using leaf_comparison_evaluates [OF tp [unfolded cs_def]] e x unfolding EBinary cs_def by blast
next
  case (EIsNull e' b)
  then obtain q name where c: "e' = EColumn q name" using e(1) by (auto simp: view_cases)
  then obtain i where "column_position name cs = Some i" using x(1) by (auto simp: EIsNull extract_null_def split: option.splits)
  with column_facts(1,2) [OF tp [unfolded cs_def], of q name i] e(3) show ?thesis
    unfolding EIsNull c by (simp add: cs_def decides_def del: evaluate_expr.simps(3))
next
  case (EBetween e' lo hi neg)
  then obtain q name v w where c: "e' = EColumn q name" "lo = ELiteral v" "hi = ELiteral w" "v \<noteq> Null" "w \<noteq> Null" "\<not> neg"
    using e(1) by (auto simp: view_cases)
  obtain i where i: "column_position name cs = Some i" "storage_filter_value_matches_type (col_type (cs ! i)) v"
      "storage_filter_value_matches_type (col_type (cs ! i)) w"
    by (rule between_fits [OF tp(1) _ x(2), of px ps q name v w]) (use x(1) in \<open>auto simp: EBetween c\<close>)
  note col = column_facts [OF tp [unfolded cs_def] _ i(1) [unfolded cs_def], of q, folded cs_def]
  have n: "resolves schema (EColumn q name)" using e(3) by (simp add: EBetween c)
  obtain g h where "eval_compare_values lib (\<lambda>c. c \<noteq> Less) (tp ! i) v = Inr g" "g = Boolean True \<longleftrightarrow> sql_holds px (\<lambda>c. c \<noteq> Less) (tp ! i) v"
      "eval_compare_values lib (\<lambda>c. c \<noteq> Greater) (tp ! i) w = Inr h" "h = Boolean True \<longleftrightarrow> sql_holds px (\<lambda>c. c \<noteq> Greater) (tp ! i) w"
    using col(3) [OF n i(2) c(4)] col(3) [OF n i(3) c(5)] unfolding decides_def by metis
  then show ?thesis using col(1,2) [OF n] c(4-6) unfolding EBetween c(1-3)
    by (auto simp: decides_def evaluate_between_def sql_holds_def simp del: evaluate_expr.simps(3))
next
  case (EInList e' es neg)
  then obtain q name vs where c: "e' = EColumn q name" "es = map ELiteral vs" "Null \<notin> set vs" "\<not> neg"
    using e(1) view_literals [of es] by (auto simp: view_cases)
  obtain i where i: "column_position name cs = Some i" "\<And>v. v \<in> set vs \<Longrightarrow> storage_filter_value_matches_type (col_type (cs ! i)) v"
    by (rule in_fits [OF tp(1) _ x(2) c(3), of px ps q name]) (use x(1) in \<open>auto simp: EInList c comp_def\<close>)
  have n: "resolves schema (EColumn q name)" using e(3) by (simp add: EInList c)
  note col = column_facts [OF tp [unfolded cs_def] n i(1) [unfolded cs_def], folded cs_def]
  have nn: "v \<noteq> Null" if "v \<in> set vs" for v using c(3) that by auto
  have t: "sql_true px cs tp (expr_view e) \<longleftrightarrow> (\<exists>v \<in> set vs. sql_holds px (\<lambda>c. c = Equal) (tp ! i) v)"
    using col(2) c(4) by (simp add: EInList c)
  show ?thesis
  proof (cases "tp ! i = Null")
    case True
    then have "evaluate_expr lib (evaluator_with_parameters schema ps) tp e = Inr Null"
      using col(1) [of lib ps] by (simp add: EInList c evaluate_in_list_def del: evaluate_expr.simps(3))
    then show ?thesis unfolding t using True by (simp add: decides_def sql_holds_def)
  next
    case False
    have "list_ex (values_equal lib (tp ! i)) vs \<longleftrightarrow> (\<exists>v \<in> set vs. sql_holds px (\<lambda>c. c = Equal) (tp ! i) v)"
      using col(4) [OF i(2) nn False] by (auto simp: list_ex_iff)
    then show ?thesis unfolding t using in_literals [OF col(1) False, of lib ps vs neg] c(3,4) unfolding EInList c(1,2)
      by (simp add: decides_def del: evaluate_expr.simps)
  qed
qed (use e in auto)

lemma conjunction_evaluates:
  fixes schema :: ev_schema
  defines "cs \<equiv> map column.truncate schema"
  assumes "row_typed cs tp" "\<forall>c \<in> set schema. col_type c \<noteq> TBytea" "can_push_predicate (expr_view e)" "column_first (expr_view e)" "resolves schema e"
    "length (extract_predicates px cs ps (expr_view e)) = length (flatten_and (expr_view e))"
    "list_all (storage_predicate_safe cs) (extract_predicates px cs ps (expr_view e))"
  shows "decides (evaluate_expr lib (evaluator_with_parameters schema ps) tp e) (sql_true px cs tp (expr_view e))"
proof -
  let ?x = "\<lambda>e. extract_predicates px cs ps (expr_view e)"
  have leaf: "decides (evaluate_expr lib (evaluator_with_parameters schema ps) tp e) (sql_true px cs tp (expr_view e))"
    if "can_push_predicate (expr_view e)" "column_first (expr_view e)" "resolves schema e" "length (?x e) = length (flatten_and (expr_view e))"
      "list_all (storage_predicate_safe cs) (?x e)" "\<And>l r. e \<noteq> EBinary l BAnd r" for e
  proof -
    have "length (flatten_and (expr_view e)) = 1" using that(6)
      by (cases e) (auto simp: op_view_def split: bin_op.splits)
    then have "length (?x e) = Suc 0" using that(4) by simp
    then obtain p where p: "?x e = [p]" by (metis One_nat_def length_0_conv length_Suc_conv)
    then show ?thesis using leaf_evaluates [OF assms(2,3) [unfolded cs_def] that(1-3,6)] that(5) unfolding cs_def by simp
  qed
  show ?thesis using assms(4-)
  proof (induction e)
    case (EBinary l op r)
    show ?case
    proof (cases "op = BAnd")
      case True
      have "length (?x l) = length (flatten_and (expr_view l))" "length (?x r) = length (flatten_and (expr_view r))"
        using EBinary(6) True extracted_le [of px cs ps "expr_view l"] extracted_le [of px cs ps "expr_view r"] by (auto simp: op_view_def)
      then show ?thesis using EBinary True by (simp add: op_view_def decides_and)
    qed (use EBinary in \<open>intro leaf; blast\<close>)
  qed (rule leaf; blast)+
qed

lemma truncate_names [simp]: "map col_name (map column.truncate schema) = map col_name schema"
  by (simp add: column.defs)

lemma pushed_decides:
  fixes schema :: ev_schema
  defines "cs \<equiv> map column.truncate schema"
  assumes "row_typed cs tp" "\<forall>c \<in> set schema. col_type c \<noteq> TBytea" "can_push_predicate (expr_view e)" "column_first (expr_view e)" "resolves schema e"
    "pushed_predicates px cs ps (Some (expr_view e)) = (preds, False)"
  shows "tuple_matches_filter_predicates px tp (filters_of preds) \<longleftrightarrow>
    evaluate_expr lib (evaluator_with_parameters schema ps) tp e = Inr (Boolean True)"
proof -
  have p: "preds = extract_predicates px cs ps (expr_view e)" "length (extract_predicates px cs ps (expr_view e)) = length (flatten_and (expr_view e))"
    "list_all (storage_predicate_safe cs) (extract_predicates px cs ps (expr_view e))"
    using assms(7) by (auto simp: pushed_predicates_def analyze_predicate_def storage_predicates_are_sql_safe_def Let_def split: if_splits)
  from conjunction_evaluates [OF assms(2,3) [unfolded cs_def] assms(4-6) p(2,3) [unfolded cs_def], of lib]
  have "evaluate_expr lib (evaluator_with_parameters schema ps) tp e = Inr (Boolean True) \<longleftrightarrow> sql_true px cs tp (expr_view e)"
    by (auto simp: decides_def cs_def)
  with conjunction_meaning [OF assms(2,4,5) p(2,3)] show ?thesis unfolding p(1) by simp
qed

lemma flatten_nonempty: "flatten_and e \<noteq> []"
  by (induction e rule: flatten_and.induct) auto

lemma pushed_nonempty: "pushed_predicates px cs ps (Some e) = (preds, False) \<Longrightarrow> preds \<noteq> []"
  using flatten_nonempty [of e] by (auto simp: pushed_predicates_def Let_def split: if_splits)

section \<open>Properties\<close>

text \<open>
  C4. a scan that filters in storage returns what the evaluator keeps. For a condition that the
  optimizer accepts and the executor pushes without filtering again, with the column on the left of every ordering
  comparison, columns that resolve alike by name, no pattern, rows of integer, text, boolean and timestamp
  columns, predicates that fit (\<open>pred_fits\<close>) and the configured block size, the scan with the Bloom
  filters and zone maps built from the rows returns exactly the rows for which evaluating the
  condition gives TRUE, in order, up to the limit (where zero counts as one); for every other row the evaluator
  gives FALSE or NULL and no error.
\<close>

theorem scan_returns_what_evaluator_keeps:
  fixes schema :: ev_schema
  defines "cs \<equiv> map column.truncate schema"
  assumes e: "can_push_predicate (expr_view e)" "column_first (expr_view e)" "resolves schema e"
      "pushed_predicates px cs ps (Some (expr_view e)) = (preds, False)"
    and rows: "\<forall>tp \<in> set tuples. row_typed cs tp" "tuples \<noteq> []" "\<forall>c \<in> set schema. col_type c \<noteq> TBytea" "distinct (map col_name schema)"
      "\<forall>p \<in> set preds. pred_fits px (map col_name schema) tuples p"
    and pm: "bs = pc_zone_map_block_size (pm_config pm)" "pc_simd_filter (pm_config pm)" "0 < bs"
  shows "(\<exists>pm'. scan_with_pushdown he px t tuples preds limit
      (build_zone_maps_for_table px t bs cs tuples (build_bloom_filters_for_table he sizes t cs tuples pm)) =
    Some (pm', limit_take limit (filter (\<lambda>tp. evaluate_expr lib (evaluator_with_parameters schema ps) tp e = Inr (Boolean True)) tuples)))
    \<and> (\<forall>tp \<in> set tuples. \<exists>v. evaluate_expr lib (evaluator_with_parameters schema ps) tp e = Inr v \<and> truth v)"
proof
  have same: "filter (\<lambda>tp. tuple_matches_filter_predicates px tp (filters_of preds)) tuples =
      filter (\<lambda>tp. evaluate_expr lib (evaluator_with_parameters schema ps) tp e = Inr (Boolean True)) tuples"
    using pushed_decides [OF _ rows(3) e(1-3) e(4) [unfolded cs_def]] rows(1) unfolding cs_def by (intro filter_cong) auto
  show "\<exists>pm'. scan_with_pushdown he px t tuples preds limit
      (build_zone_maps_for_table px t bs cs tuples (build_bloom_filters_for_table he sizes t cs tuples pm)) =
    Some (pm', limit_take limit (filter (\<lambda>tp. evaluate_expr lib (evaluator_with_parameters schema ps) tp e = Inr (Boolean True)) tuples))"
    unfolding same [symmetric]
  proof (rule built_scan_result [OF pm(1,2) pushed_nonempty [OF e(4)] pm(3) _ _ _ rows(2)])
    show "distinct (map col_name cs)" "\<forall>p \<in> set preds. pred_fits px (map col_name cs) tuples p"
      using rows(4,5) unfolding cs_def truncate_names .
    show "\<forall>tp \<in> set tuples. length tp = length cs" using rows(1) by (auto simp: row_typed_def dest!: bspec list_all2_lengthD)
  qed
  have "length (extract_predicates px cs ps (expr_view e)) = length (flatten_and (expr_view e))"
    "list_all (storage_predicate_safe cs) (extract_predicates px cs ps (expr_view e))"
    using e(4) by (auto simp: pushed_predicates_def analyze_predicate_def storage_predicates_are_sql_safe_def Let_def split: if_splits)
  then show "\<forall>tp \<in> set tuples. \<exists>v. evaluate_expr lib (evaluator_with_parameters schema ps) tp e = Inr v \<and> truth v"
    using conjunction_evaluates [OF _ rows(3) e(1-3)] rows(1) unfolding cs_def decides_def by blast
qed

abbreviation age_column :: ev_column where
  "age_column \<equiv> \<lparr>col_name = ''age'', col_type = TInt4, col_source_table = Some ''t'', col_source_name = Some ''t''\<rparr>"

theorem scan_returns_what_evaluator_keeps_witness:
  "\<exists>pm'. scan_with_pushdown sum_env no_parsers ''t'' [[Int4 1, Int4 30], [Int4 2, Null], [Int4 3, Int4 50]]
      (fst (pushed_predicates no_parsers age_schema [] (Some (expr_view (EBinary (EColumn (Some ''t'') ''age'') BGt (ELiteral (Int4 40))))))) None
      (build_zone_maps_for_table no_parsers ''t'' 2 age_schema [[Int4 1, Int4 30], [Int4 2, Null], [Int4 3, Int4 50]]
        (build_bloom_filters_for_table sum_env (\<lambda>n. (n, 3)) ''t'' age_schema [[Int4 1, Int4 30], [Int4 2, Null], [Int4 3, Int4 50]]
          (pushdown_new small_blocks))) =
    Some (pm', filter (\<lambda>tp. evaluate_expr plain_lib (evaluator_with_parameters [id_column, age_column] []) tp
      (EBinary (EColumn (Some ''t'') ''age'') BGt (ELiteral (Int4 40))) = Inr (Boolean True)) [[Int4 1, Int4 30], [Int4 2, Null], [Int4 3, Int4 50]])"
proof -
  let ?e = "EBinary (EColumn (Some ''t'') ''age'') BGt (ELiteral (Int4 40))" and ?rows = "[[Int4 1, Int4 30], [Int4 2, Null], [Int4 3, Int4 50]]"
  have cs: "map column.truncate [id_column, age_column] = age_schema" by (simp add: column.defs age_schema_def)
  have p: "pushed_predicates no_parsers age_schema [] (Some (expr_view ?e)) =
      ([\<lparr>ap_column_name = ''age'', ap_column_index = 1, ap_op = PGt, ap_value = Int4 40, ap_value2 = None, ap_value_list = [],
        ap_selectivity = 33, ap_can_use_bloom = False, ap_can_use_zone_map = True\<rparr>], False)"
    by (simp add: pushed_predicates_def analyze_predicate_def extract_comparison_def age_schema_def comparison_op_def coerce_literal_for_column_def
        op_view_def storage_predicates_are_sql_safe_def storage_predicate_safe_def storage_filter_value_matches_type_def Let_def)
  have typed: "\<forall>tp \<in> set ?rows. row_typed age_schema tp"
    by (simp add: row_typed_def age_schema_def plain_type_def storage_filter_value_matches_type_def)
  note scan = scan_returns_what_evaluator_keeps [where schema = "[id_column, age_column]" and e = ?e and tuples = ?rows and limit = None
      and pm = "pushdown_new small_blocks" and lib = plain_lib and he = sum_env and t = "''t''" and sizes = "\<lambda>n. (n, 3)", unfolded cs, OF _ _ _ p typed]
  show ?thesis unfolding p fst_conv
    by (rule conjunct1 [OF scan, unfolded limit_take_def option.case])
      (simp_all add: is_column_def is_bound_literal_def op_view_def get_qualified_column_index_def schema_column_index_def column.defs
        pred_fits_def order_class_def int_value_def small_blocks_def pushdown_new_def pushdown_config_default_def)
qed

end
