(* ===== verification/Storage_Keys.thy ===== *)
theory Storage_Keys
  imports Eval_Ops
begin

text \<open>
  The keys of the row store and of its version history, as the storage layer builds and parses
  them (\<^verbatim>\<open>src/src/storage/transaction.rs\<close>, \<^verbatim>\<open>src/src/storage/time_travel.rs\<close>,
  \<^verbatim>\<open>src/src/storage/copy_marker.rs\<close>), with what they use of the Rust standard library: UTF-8
  validation, \<open>from_utf8_lossy\<close>, \<open>parse::<u64>\<close>, \<open>to_string\<close> and \<open>{:020}\<close>, \<open>find\<close> and
  \<open>rfind\<close>. RocksDB is a parameter: the record \<open>kv\<close> of its operations, with \<open>kv_holds\<close> for the
  documented meaning of its reads and \<open>kv_writes\<close> for that of a write batch.
\<close>

section \<open>Texts\<close>

definition ascii :: "string \<Rightarrow> bytes" where
  "ascii s = map of_char s"

abbreviation colon :: u8 where
  "colon \<equiv> 0x3A"

text \<open>
  One step of the standard library's UTF-8 decoder: the number of bytes of the character at the
  front, or of the invalid sequence that \<open>from_utf8_lossy\<close> replaces.
\<close>

definition in_range :: "nat \<Rightarrow> nat \<Rightarrow> u8 option \<Rightarrow> bool" where
  "in_range lo hi b = (case b of None \<Rightarrow> False | Some b \<Rightarrow> lo \<le> unat b \<and> unat b \<le> hi)"

definition byte_at :: "bytes \<Rightarrow> nat \<Rightarrow> u8 option" where
  "byte_at bs i = (if i < length bs then Some (bs ! i) else None)"

definition second_byte :: "nat \<Rightarrow> u8 option \<Rightarrow> bool" where
  "second_byte a = in_range (if a = 0xE0 then 0xA0 else if a = 0xF0 then 0x90 else 0x80) (if a = 0xED then 0x9F else if a = 0xF4 then 0x8F else 0xBF)"

definition utf8_step :: "bytes \<Rightarrow> nat + nat" where
  "utf8_step bs = (let a = unat (hd bs); b = byte_at bs 1; c = byte_at bs 2; d = byte_at bs 3 in
     if a < 0x80 then Inr 1
     else if 0xC2 \<le> a \<and> a \<le> 0xDF then (if in_range 0x80 0xBF b then Inr 2 else Inl 1)
     else if 0xE0 \<le> a \<and> a \<le> 0xEF then
       (if second_byte a b then (if in_range 0x80 0xBF c then Inr 3 else Inl 2) else Inl 1)
     else if 0xF0 \<le> a \<and> a \<le> 0xF4 then
       (if second_byte a b then (if in_range 0x80 0xBF c then (if in_range 0x80 0xBF d then Inr 4 else Inl 3) else Inl 2) else Inl 1)
     else Inl 1)"

lemma utf8_step_pos: "utf8_step bs = Inl n \<Longrightarrow> 0 < n" "utf8_step bs = Inr n \<Longrightarrow> 0 < n"
  by (auto simp: utf8_step_def Let_def split: if_splits)

function is_utf8 :: "bytes \<Rightarrow> bool" where
  "is_utf8 bs = (if bs = [] then True else case utf8_step bs of Inl n \<Rightarrow> False | Inr n \<Rightarrow> is_utf8 (drop n bs))"
  by pat_completeness auto
termination
  by (relation "measure length") (simp_all add: utf8_step_pos)

declare is_utf8.simps [simp del]

function from_utf8_lossy :: "bytes \<Rightarrow> bytes" where
  "from_utf8_lossy bs = (if bs = [] then [] else case utf8_step bs of
       Inl n \<Rightarrow> [0xEF, 0xBF, 0xBD] @ from_utf8_lossy (drop n bs)
     | Inr n \<Rightarrow> take n bs @ from_utf8_lossy (drop n bs))"
  by pat_completeness auto
termination
  by (relation "measure length") (simp_all add: utf8_step_pos)

declare from_utf8_lossy.simps [simp del]

definition parse_u64 :: "bytes \<Rightarrow> u64 option" where
  "parse_u64 s = (let ds = (case s of c # r \<Rightarrow> if c = 0x2B then r else s | [] \<Rightarrow> s) in
     if ds \<noteq> [] \<and> list_all is_digit ds \<and> digits_value ds < 2 ^ 64 then Some (word_of_nat (digits_value ds)) else None)"

text \<open>\<open>to_string\<close> of a \<open>u64\<close>, and \<open>{:020}\<close>.\<close>

definition u64_text :: "u64 \<Rightarrow> bytes" where
  "u64_text n = digits (unat n)"

definition pad20 :: "u64 \<Rightarrow> bytes" where
  "pad20 n = (let ds = u64_text n in replicate (20 - length ds) 0x30 @ ds)"

text \<open>\<open>strip_prefix\<close>, and a text cut at its first and at its last colon.\<close>

definition strip_prefix :: "bytes \<Rightarrow> bytes \<Rightarrow> bytes option" where
  "strip_prefix p s = (if take (length p) s = p then Some (drop (length p) s) else None)"

definition cut_first :: "bytes \<Rightarrow> (bytes \<times> bytes) option" where
  "cut_first s = (if colon \<in> set s then Some (takeWhile (\<lambda>c. c \<noteq> colon) s, tl (dropWhile (\<lambda>c. c \<noteq> colon) s)) else None)"

definition cut_last :: "bytes \<Rightarrow> (bytes \<times> bytes) option" where
  "cut_last s = map_option (\<lambda>(a, b). (rev b, rev a)) (cut_first (rev s))"

section \<open>Keys\<close>

definition data_prefix :: "bytes \<Rightarrow> bytes" where
  "data_prefix t = ascii ''data:'' @ t @ [colon]"

definition data_key :: "bytes \<Rightarrow> u64 \<Rightarrow> bytes" where
  "data_key t r = data_prefix t @ u64_text r"

definition version_prefix :: "bytes \<Rightarrow> u64 \<Rightarrow> bytes" where
  "version_prefix t r = ascii ''v:'' @ t @ [colon] @ u64_text r @ [colon]"

definition version_key :: "bytes \<Rightarrow> u64 \<Rightarrow> u64 \<Rightarrow> bytes" where
  "version_key t r ts = version_prefix t r @ u64_text ts"

definition version_index_prefix :: "bytes \<Rightarrow> u64 \<Rightarrow> bytes" where
  "version_index_prefix t r = ascii ''v_idx:'' @ t @ [colon] @ u64_text r @ [colon]"

definition version_index_key :: "bytes \<Rightarrow> u64 \<Rightarrow> u64 \<Rightarrow> bytes" where
  "version_index_key t r ts = version_index_prefix t r @ pad20 (- 1 - ts)"

definition counter_key :: "bytes \<Rightarrow> bytes" where
  "counter_key t = ascii ''counter:'' @ t"

section \<open>Decimal texts\<close>

lemma digits_value_Nil [simp]: "digits_value [] = 0"
  by (simp add: digits_value_def)

lemma digits_value_append: "digits_value (xs @ ys) = digits_value xs * 10 ^ length ys + digits_value ys"
proof -
  have "foldl (\<lambda>n d. 10 * n + (unat d - 48)) k ys = k * 10 ^ length ys + foldl (\<lambda>n d. 10 * n + (unat (d::u8) - 48)) 0 ys" for k ys
  proof (induction ys arbitrary: k)
    case (Cons d ys)
    have "foldl (\<lambda>n d. 10 * n + (unat d - 48)) k (d # ys)
        = (10 * k + (unat d - 48)) * 10 ^ length ys + foldl (\<lambda>n d. 10 * n + (unat d - 48)) 0 ys"
      using Cons [of "10 * k + (unat d - 48)"] by (simp only: foldl_Cons)
    also have "\<dots> = k * 10 ^ length (d # ys) + ((unat d - 48) * 10 ^ length ys + foldl (\<lambda>n d. 10 * n + (unat d - 48)) 0 ys)"
      by (simp add: add_mult_distrib)
    also have "(unat d - 48) * 10 ^ length ys + foldl (\<lambda>n d. 10 * n + (unat d - 48)) 0 ys = foldl (\<lambda>n d. 10 * n + (unat d - 48)) 0 (d # ys)"
      using Cons [of "10 * 0 + (unat d - 48)"] by (simp only: foldl_Cons) simp
    finally show ?case .
  qed simp
  then show ?thesis unfolding digits_value_def foldl_append .
qed

lemma digits_value_Cons: "digits_value (d # ds) = (unat d - 48) * 10 ^ length ds + digits_value ds"
  using digits_value_append [of "[d]" ds] by (simp add: digits_value_def)

lemma digits_value_less: "list_all is_digit ds \<Longrightarrow> digits_value ds < 10 ^ length ds"
proof (induction ds)
  case (Cons d ds)
  then have "(unat d - 48) * 10 ^ length ds \<le> 9 * 10 ^ length ds" by (intro mult_right_mono) (auto simp: is_digit_def)
  moreover have "digits_value ds < 10 ^ length ds" using Cons by simp
  ultimately show ?case unfolding digits_value_Cons length_Cons power_Suc by linarith
qed simp

lemma digits_value_order:
  "length xs = length ys \<Longrightarrow> list_all is_digit xs \<Longrightarrow> list_all is_digit ys \<Longrightarrow> xs < ys \<longleftrightarrow> digits_value xs < digits_value ys"
proof (induction xs ys rule: list_induct2)
  case (Cons x xs y ys)
  have step: "m * p + a < n * p + b" if "m < n" "a < p" for m n p a b :: nat
  proof -
    have "(m + 1) * p \<le> n * p" using that(1) by (intro mult_right_mono) auto
    then show ?thesis using that(2) by (simp add: add_mult_distrib)
  qed
  have lt: "digits_value xs < 10 ^ length ys" "digits_value ys < 10 ^ length ys"
    using Cons digits_value_less [of xs] digits_value_less [of ys] by simp_all
  consider "unat x < unat y" | "x = y" | "unat y < unat x" by (metis linorder_less_linear word_unat_eq_iff)
  then show ?case
  proof cases
    case 1
    then have "unat x - 48 < unat y - 48" using Cons by (auto simp: is_digit_def)
    then have "digits_value (x # xs) < digits_value (y # ys)" using step [OF _ lt(1)] Cons(1) by (simp only: digits_value_Cons)
    then show ?thesis using 1 by (simp add: word_less_nat_alt)
  next
    case 2
    then show ?thesis using Cons by (simp add: digits_value_Cons)
  next
    case 3
    then have "unat y - 48 < unat x - 48" using Cons by (auto simp: is_digit_def)
    then have "digits_value (y # ys) < digits_value (x # xs)" using step [OF _ lt(2)] Cons(1) by (simp only: digits_value_Cons)
    then show ?thesis using 3 by (auto simp: word_less_nat_alt)
  qed
qed simp

lemma length_digits: "n < 10 ^ Suc k \<Longrightarrow> length (digits n) \<le> Suc k"
proof (induction k arbitrary: n)
  case (Suc k)
  then have "n div 10 < 10 ^ Suc k" by (simp add: div_less_iff_less_mult)
  then show ?case using Suc.IH [of "n div 10"] by (simp add: digits.simps [of n])
qed (simp add: digits.simps)

lemma u64_text_facts: "list_all is_digit (u64_text n)" "u64_text n \<noteq> []" "digits_value (u64_text n) = unat n" "length (u64_text n) \<le> 20"
proof -
  show "list_all is_digit (u64_text n)" "u64_text n \<noteq> []" "digits_value (u64_text n) = unat n"
    by (simp_all add: u64_text_def digits_correct)
  have "unat n < 10 ^ Suc 19" using unsigned_less [of n, where ?'a = nat] by simp
  then show "length (u64_text n) \<le> 20" using length_digits [of "unat n" 19] by (simp add: u64_text_def)
qed

lemma u64_text_inj [simp]: "u64_text a = u64_text b \<longleftrightarrow> a = b"
  by (metis u64_text_facts(3) word_unat_eq_iff)

lemma parse_u64_text [simp]: "parse_u64 (u64_text n) = Some n"
proof -
  have "case u64_text n of c # r \<Rightarrow> c \<noteq> 0x2B | [] \<Rightarrow> True"
    using digit_not_sign [OF u64_text_facts(1,2), of n] by (cases "u64_text n") simp_all
  then have "(case u64_text n of c # r \<Rightarrow> if c = 0x2B then r else u64_text n | [] \<Rightarrow> u64_text n) = u64_text n"
    by (auto split: list.splits)
  then show ?thesis using unsigned_less [of n, where ?'a = nat] u64_text_facts [of n] by (simp add: parse_u64_def)
qed

lemma pad20_facts [simp]: "length (pad20 n) = 20" "list_all is_digit (pad20 n)" "digits_value (pad20 n) = unat n"
proof -
  show "length (pad20 n) = 20" using u64_text_facts(4) [of n] by (simp add: pad20_def Let_def)
  show "list_all is_digit (pad20 n)" using u64_text_facts(1) [of n] by (auto simp: pad20_def Let_def list_all_iff is_digit_def)
  have "digits_value (replicate k 0x30) = 0" for k by (induction k) (simp_all add: digits_value_Cons)
  then show "digits_value (pad20 n) = unat n" by (simp add: pad20_def Let_def digits_value_append u64_text_facts)
qed

lemma pad20_order: "pad20 a < pad20 b \<longleftrightarrow> a < b" "pad20 a \<le> pad20 b \<longleftrightarrow> a \<le> b" "pad20 a = pad20 b \<longleftrightarrow> a = b"
proof -
  show l: "pad20 a < pad20 b \<longleftrightarrow> a < b" for a b by (simp add: digits_value_order word_less_nat_alt)
  show e: "pad20 a = pad20 b \<longleftrightarrow> a = b" by (metis pad20_facts(3) word_unat_eq_iff)
  show "pad20 a \<le> pad20 b \<longleftrightarrow> a \<le> b" using l [of a b] e by (auto simp: less_le)
qed

lemma colon_not_digit: "list_all is_digit ds \<Longrightarrow> colon \<notin> set ds"
  by (auto simp: list_all_iff is_digit_def)

lemma colon_texts [simp]: "colon \<notin> set (u64_text n)" "colon \<notin> set (pad20 n)"
  using colon_not_digit u64_text_facts(1) pad20_facts(2) by blast+

section \<open>Cutting keys\<close>

lemma split_at_colon: "colon \<notin> set a \<Longrightarrow> colon \<notin> set b \<Longrightarrow> a @ colon # x = b @ colon # y \<longleftrightarrow> a = b \<and> x = y"
  by (induction a arbitrary: b) (case_tac b; auto)+

lemma cut_first_colon [simp]: "colon \<notin> set a \<Longrightarrow> cut_first (a @ colon # b) = Some (a, b)"
proof -
  assume a: "colon \<notin> set a"
  have "takeWhile (\<lambda>c. c \<noteq> colon) (a @ colon # b) = a" using a by (induction a) auto
  moreover have "dropWhile (\<lambda>c. c \<noteq> colon) (a @ colon # b) = colon # b" using a by (induction a) auto
  ultimately show ?thesis by (simp add: cut_first_def)
qed

lemma cut_first_Some: "cut_first s = Some (a, b) \<longleftrightarrow> colon \<notin> set a \<and> s = a @ colon # b"
proof
  assume c: "cut_first s = Some (a, b)"
  then obtain x y where "s = x @ colon # y" "colon \<notin> set x" unfolding cut_first_def by (metis option.distinct(1) split_list_first)
  then show "colon \<notin> set a \<and> s = a @ colon # b" using c by simp
qed simp

lemma cut_last_Some: "cut_last s = Some (a, b) \<longleftrightarrow> colon \<notin> set b \<and> s = a @ colon # b"
proof
  assume "cut_last s = Some (a, b)"
  then have "cut_first (rev s) = Some (rev b, rev a)" unfolding cut_last_def by (auto split: prod.splits)
  then show "colon \<notin> set b \<and> s = a @ colon # b"
    unfolding cut_first_Some by (metis append.assoc append_Cons append_Nil rev.simps(2) rev_append rev_rev_ident set_rev)
next
  assume "colon \<notin> set b \<and> s = a @ colon # b"
  then show "cut_last s = Some (a, b)" by (simp add: cut_last_def)
qed

lemma strip_prefix_append [simp]: "strip_prefix p (p @ s) = Some s"
  by (simp add: strip_prefix_def)

lemma strip_prefix_Some: "strip_prefix p s = Some r \<longleftrightarrow> s = p @ r"
  by (auto simp: strip_prefix_def) (metis append_take_drop_id)

section \<open>The ordered store\<close>

datatype batch_op = BPut bytes bytes | BDelete bytes

text \<open>
  What the code calls of RocksDB: a point read, the entries of an iterator from a key onwards, and
  a write batch. Each may fail with a message.
\<close>

record 'db kv =
  kv_get :: "'db \<Rightarrow> bytes \<Rightarrow> string + bytes option"
  kv_scan :: "'db \<Rightarrow> bytes \<Rightarrow> (string + bytes \<times> bytes) list"
  kv_write :: "'db \<Rightarrow> batch_op list \<Rightarrow> string + 'db"

fun apply_op :: "batch_op \<Rightarrow> (bytes \<Rightarrow> bytes option) \<Rightarrow> bytes \<Rightarrow> bytes option" where
  "apply_op (BPut k v) m = m(k := Some v)"
| "apply_op (BDelete k) m = m(k := None)"

definition apply_batch :: "batch_op list \<Rightarrow> (bytes \<Rightarrow> bytes option) \<Rightarrow> bytes \<Rightarrow> bytes option" where
  "apply_batch b = fold apply_op b"

text \<open>
  The documented reads of a database whose content is \<open>m\<close> and that reports no failure: point
  reads return the stored value, and an iterator returns every entry from its start key on, in
  byte order. A batch applies its operations in order, all or none.
\<close>

definition kv_holds :: "'db kv \<Rightarrow> 'db \<Rightarrow> (bytes \<Rightarrow> bytes option) \<Rightarrow> bool" where
  "kv_holds kv db m \<longleftrightarrow> (\<forall>k. kv_get kv db k = Inr (m k)) \<and>
     (\<forall>s. \<exists>xs. kv_scan kv db s = map Inr xs \<and> sorted_wrt (<) (map fst xs) \<and> (\<forall>k v. (k, v) \<in> set xs \<longleftrightarrow> m k = Some v \<and> s \<le> k))"

definition kv_writes :: "'db kv \<Rightarrow> bool" where
  "kv_writes kv \<longleftrightarrow> (\<forall>db m b db'. kv_holds kv db m \<longrightarrow> kv_write kv db b = Inr db' \<longrightarrow> kv_holds kv db' (apply_batch b m))"

lemma apply_batch_simps [simp]:
  "apply_batch [] m = m" "apply_batch (BPut k v # b) m = apply_batch b (m(k := Some v))"
  "apply_batch (BDelete k # b) m = apply_batch b (m(k := None))" "apply_batch (b @ c) m = apply_batch c (apply_batch b m)"
  by (simp_all add: apply_batch_def)

fun op_key :: "batch_op \<Rightarrow> bytes" where
  "op_key (BPut k v) = k"
| "op_key (BDelete k) = k"

lemma apply_batch_other: "k \<notin> op_key ` set b \<Longrightarrow> apply_batch b m k = m k"
proof (induction b arbitrary: m)
  case (Cons op b)
  then show ?case by (cases op) auto
qed simp

lemma kv_get_holds [simp]: "kv_holds kv db m \<Longrightarrow> kv_get kv db k = Inr (m k)"
  by (simp add: kv_holds_def)

lemma kv_write_holds: "kv_writes kv \<Longrightarrow> kv_holds kv db m \<Longrightarrow> kv_write kv db b = Inr db' \<Longrightarrow> kv_holds kv db' (apply_batch b m)"
  by (simp add: kv_writes_def)

text \<open>Keys between two keys of one prefix have the prefix.\<close>

lemma prefix_convex: "p @ a \<le> k \<Longrightarrow> k \<le> p @ b \<Longrightarrow> \<exists>c. k = p @ c" for p :: bytes
proof (induction p arbitrary: k)
  case (Cons x p)
  then obtain y k' where k: "k = y # k'" by (cases k) auto
  then have "y = x" using Cons.prems by auto
  then show ?case using Cons k by auto
qed auto

lemma append_left_le [simp]: "p @ a \<le> p @ b \<longleftrightarrow> a \<le> b" "p @ a < p @ b \<longleftrightarrow> a < b" for p :: bytes
  by (induction p) auto

text \<open>A seek into the entries of one prefix finds the first of them, or leaves the prefix.\<close>

lemma seek_in_prefix:
  assumes m: "kv_holds kv db m" and xs: "\<And>k. m (p @ k) = map_of xs k" "sorted_wrt (<) (map fst xs)"
  shows "case find (\<lambda>(y, _). x \<le> y) xs of
      Some (y, v) \<Rightarrow> \<exists>rest. kv_scan kv db (p @ x) = Inr (p @ y, v) # rest
    | None \<Rightarrow> kv_scan kv db (p @ x) = [] \<or> (\<exists>k v rest. kv_scan kv db (p @ x) = Inr (k, v) # rest \<and> strip_prefix p k = None)"
proof -
  obtain es where es: "kv_scan kv db (p @ x) = map Inr es" "sorted_wrt (<) (map fst es)" "\<And>k v. (k, v) \<in> set es \<longleftrightarrow> m k = Some v \<and> p @ x \<le> k"
    using m unfolding kv_holds_def by blast
  have least: "k \<le> k'" if "es = (k, v) # rest" "(k', v') \<in> set es" for k v rest k' v' using es(2) that by fastforce
  have distinct: "distinct (map fst xs)" using xs(2) strict_sorted_iff by blast
  show ?thesis
  proof (cases "find (\<lambda>(y, _). x \<le> y) xs")
    case None
    then have no: "m (p @ y) \<noteq> Some v" if "x \<le> y" for y v using that unfolding xs(1) find_None_iff by (auto dest: map_of_SomeD)
    have "strip_prefix p k = None" if "(k, v) \<in> set es" for k v
    proof (rule ccontr)
      assume "strip_prefix p k \<noteq> None"
      then obtain y where "k = p @ y" using strip_prefix_Some by blast
      then show False using no [of y v] that es(3) by simp
    qed
    then show ?thesis using None es(1) by (cases es) auto
  next
    case (Some yv)
    obtain y v where yv: "yv = (y, v)" by (cases yv)
    from Some obtain i where i: "i < length xs" "x \<le> y" "xs ! i = (y, v)" "\<forall>j<i. \<not> x \<le> fst (xs ! j)"
      unfolding find_Some_iff yv by (metis (mono_tags, lifting) case_prod_beta fst_conv)
    have "m (p @ y) = Some v" using i(1,3) distinct unfolding xs(1) by (metis map_of_is_SomeI nth_mem)
    then have mem: "(p @ y, v) \<in> set es" using es(3) i(2) by simp
    then obtain k w rest where c: "es = (k, w) # rest" by (cases es) auto
    have kw: "m k = Some w" "p @ x \<le> k" using es(3) [of k w] c by simp_all
    have "k \<le> p @ y" using least [OF c] mem by blast
    then obtain z where z: "k = p @ z" using prefix_convex kw(2) by blast
    then have zw: "map_of xs z = Some w" "x \<le> z" "z \<le> y" using kw \<open>k \<le> p @ y\<close> xs(1) by simp_all
    then obtain j where j: "j < length xs" "xs ! j = (z, w)" by (metis in_set_conv_nth map_of_SomeD)
    have "\<not> j < i" using i(4) j zw(2) by auto
    moreover have "\<not> i < j" using sorted_wrt_nth_less [OF xs(2), of i j] i j zw(3) by auto
    ultimately have "z = y" "w = v" using i j by auto
    then show ?thesis using Some yv es(1) c z by simp
  qed
qed

section \<open>A store on sorted lists\<close>

text \<open>An instance of the interface, for evaluation: entries in key order, no failures.\<close>

definition list_put :: "bytes \<Rightarrow> bytes \<Rightarrow> (bytes \<times> bytes) list \<Rightarrow> (bytes \<times> bytes) list" where
  "list_put k v xs = filter (\<lambda>e. fst e < k) xs @ (k, v) # filter (\<lambda>e. k < fst e) xs"

fun list_op :: "batch_op \<Rightarrow> (bytes \<times> bytes) list \<Rightarrow> (bytes \<times> bytes) list" where
  "list_op (BPut k v) xs = list_put k v xs"
| "list_op (BDelete k) xs = filter (\<lambda>e. fst e \<noteq> k) xs"

definition list_kv :: "(bytes \<times> bytes) list kv" where
  "list_kv = \<lparr>kv_get = (\<lambda>xs k. Inr (map_of xs k)), kv_scan = (\<lambda>xs s. map Inr (filter (\<lambda>e. s \<le> fst e) xs)),
     kv_write = (\<lambda>xs b. Inr (fold list_op b xs))\<rparr>"

definition list_sorted :: "(bytes \<times> bytes) list \<Rightarrow> bool" where
  "list_sorted xs \<longleftrightarrow> sorted_wrt (<) (map fst xs)"

lemma list_sorted_filter: "list_sorted xs \<Longrightarrow> list_sorted (filter p xs)"
  unfolding list_sorted_def sorted_wrt_map by (rule sorted_wrt_filter)

lemma list_sorted_distinct: "list_sorted xs \<Longrightarrow> distinct (map fst xs)"
  using strict_sorted_iff unfolding list_sorted_def by blast

lemma list_kv_holds: "list_sorted xs \<Longrightarrow> kv_holds list_kv xs (map_of xs)"
  using list_sorted_filter [of xs] list_sorted_distinct [of xs]
  by (auto simp: kv_holds_def list_kv_def list_sorted_def intro!: exI [of _ "filter (\<lambda>e. _ \<le> fst e) xs"])

lemma map_of_filter_fst: "map_of (filter (\<lambda>e. p (fst e)) xs) k = (if p k then map_of xs k else None)"
  by (induction xs) auto

lemma list_op_sound: "list_sorted xs \<Longrightarrow> list_sorted (list_op b xs) \<and> map_of (list_op b xs) = apply_op b (map_of xs)"
proof (cases b)
  case (BPut k v)
  assume xs: "list_sorted xs"
  then have "list_sorted (list_put k v xs)"
    using list_sorted_filter [OF xs, of "\<lambda>e. fst e < k"] list_sorted_filter [OF xs, of "\<lambda>e. k < fst e"]
    by (auto simp: list_put_def list_sorted_def sorted_wrt_append)
  moreover have "map_of (list_put k v xs) = (map_of xs)(k := Some v)"
    using map_of_filter_fst [of "\<lambda>x. x < k" xs] map_of_filter_fst [of "\<lambda>x. k < x" xs]
    by (auto simp: list_put_def map_add_def fun_eq_iff split: option.splits)
  ultimately show ?thesis using BPut by simp
next
  case (BDelete k)
  assume xs: "list_sorted xs"
  have "map_of (filter (\<lambda>e. fst e \<noteq> k) xs) = (map_of xs)(k := None)"
    using map_of_filter_fst [of "\<lambda>x. x \<noteq> k" xs] by (auto simp: fun_eq_iff)
  then show ?thesis using BDelete list_sorted_filter [OF xs] by simp
qed

lemma list_batch_sound: "list_sorted xs \<Longrightarrow> list_sorted (fold list_op b xs) \<and> map_of (fold list_op b xs) = apply_batch b (map_of xs)"
  by (induction b arbitrary: xs) (simp_all add: apply_batch_def list_op_sound)

definition list_db :: "batch_op list \<Rightarrow> (bytes \<times> bytes) list" where
  "list_db b = fold list_op b []"

lemma list_db_sound: "list_sorted (list_db b)" "map_of (list_db b) = apply_batch b (\<lambda>k. None)"
  using list_batch_sound [of "[]" b] by (simp_all add: list_db_def list_sorted_def)

text \<open>The content of a list store determines the order of its keys, so every content comes from a sorted list.\<close>

lemma list_kv_sorted: "kv_holds list_kv xs m \<Longrightarrow> m = map_of xs \<and> list_sorted xs"
proof -
  assume h: "kv_holds list_kv xs m"
  then have "m = map_of xs" by (auto simp: kv_holds_def list_kv_def)
  moreover obtain ys where "kv_scan list_kv xs [] = map Inr ys" "sorted_wrt (<) (map fst ys)" using h unfolding kv_holds_def by blast
  ultimately show ?thesis by (auto simp: list_kv_def list_sorted_def dest: inj_mapD [rotated])
qed

lemma list_kv_writes: "kv_writes list_kv"
proof -
  have "kv_holds list_kv db' (apply_batch b m)" if "kv_holds list_kv db m" "kv_write list_kv db b = Inr db'" for db m b db'
    using that list_kv_sorted [OF that(1)] list_batch_sound [of db b] list_kv_holds [of db'] by (simp add: list_kv_def)
  then show ?thesis by (simp add: kv_writes_def)
qed

section \<open>UTF-8\<close>

lemma utf8_step_append: "utf8_step a = Inr n \<Longrightarrow> a \<noteq> [] \<Longrightarrow> utf8_step (a @ b) = Inr n \<and> n \<le> length a"
proof -
  assume n: "utf8_step a = Inr n" and a: "a \<noteq> []"
  have r: "in_range lo hi (byte_at a i) \<Longrightarrow> in_range lo hi (byte_at (a @ b) i) \<and> i < length a" for lo hi i
    by (simp add: in_range_def byte_at_def nth_append split: if_splits)
  then have r2: "second_byte x (byte_at a i) \<Longrightarrow> second_byte x (byte_at (a @ b) i) \<and> i < length a" for x i
    by (simp add: second_byte_def)
  show ?thesis using n a unfolding utf8_step_def Let_def
    by (auto split: if_split_asm dest!: r r2 simp: Suc_le_eq)
qed

lemma is_utf8_append: "is_utf8 a \<Longrightarrow> is_utf8 b \<Longrightarrow> is_utf8 (a @ b)"
proof (induction a rule: is_utf8.induct)
  case (1 a)
  show ?case
  proof (cases "a = []")
    case False
    then obtain n where n: "utf8_step a = Inr n" "is_utf8 (drop n a)" using 1(2) is_utf8.simps [of a] by (auto split: sum.splits)
    then have "is_utf8 (drop n a @ b)" using 1(1) [OF False n(1) n(2) 1(3)] by simp
    then show ?thesis using utf8_step_append [OF n(1) False] False by (simp add: is_utf8.simps [of "a @ b"])
  qed (use 1 in simp)
qed

lemma is_utf8_ascii: "list_all (\<lambda>c. unat c < 0x80) s \<Longrightarrow> is_utf8 s"
proof (induction s)
  case (Cons c s)
  then show ?case by (simp add: is_utf8.simps [of "c # s"] utf8_step_def)
qed (simp add: is_utf8.simps)

lemma is_utf8_digits: "list_all is_digit s \<Longrightarrow> is_utf8 s"
  by (rule is_utf8_ascii) (auto simp: list_all_iff is_digit_def)

lemma is_utf8_texts [simp]: "is_utf8 (u64_text n)" "is_utf8 (pad20 n)" "is_utf8 [colon]" "is_utf8 []"
  by (simp_all add: is_utf8_digits u64_text_facts is_utf8_ascii)

end
