(* ===== verification/Version_Store.thy ===== *)
theory Version_Store
  imports Storage_Keys "HOL-Library.AList"
begin

unbundle bit_operations_syntax

text \<open>
  The version history of rows (\<^verbatim>\<open>src/src/storage/time_travel.rs\<close>), the markers of bulk loads
  (\<^verbatim>\<open>src/src/storage/copy_marker.rs\<close>) and the sealing of stored values
  (\<^verbatim>\<open>src/src/storage/tde.rs\<close>). A version is a value under \<open>v:\<close> with an event under \<open>v_idx:\<close>
  whose key ends in the reversed timestamp; the newest event may be elided, which means that its
  value is the current row. The cipher is a parameter, as are the eviction of the cache and the
  serialised snapshot metadata. The history a chain of keys stands for is a list of timestamps
  and values, newest first.
\<close>

section \<open>Sealed values\<close>

record cipher =
  ci_encrypt :: "bytes \<Rightarrow> string + bytes"
  ci_try_decrypt :: "bytes \<Rightarrow> bytes option"

definition starts_with :: "bytes \<Rightarrow> bytes \<Rightarrow> bool" where
  "starts_with p k \<longleftrightarrow> strip_prefix p k \<noteq> None"

definition is_row_value_key :: "bytes \<Rightarrow> bool" where
  "is_row_value_key k \<longleftrightarrow> starts_with (ascii ''data:'') k \<or> starts_with (ascii ''v:'') k \<or> starts_with (ascii ''counter:'') k
     \<or> starts_with (ascii ''wal:entries:'') k \<or> starts_with (ascii ''bdata:'') k \<or> starts_with (ascii ''delta:'') k"

definition seal :: "cipher option \<Rightarrow> bytes \<Rightarrow> string + bytes" where
  "seal km v = (case km of None \<Rightarrow> Inr v | Some c \<Rightarrow> ci_encrypt c v)"

definition seal_row_value :: "cipher option \<Rightarrow> bytes \<Rightarrow> bytes \<Rightarrow> string + bytes" where
  "seal_row_value km k v = (case km of None \<Rightarrow> Inr v | Some c \<Rightarrow> if is_row_value_key k then ci_encrypt c v else Inr v)"

text \<open>The decision of \<open>open_inner\<close> (\<open>None\<close>: use the bytes as they are), without its count of plain values.\<close>

definition open_inner :: "cipher option \<Rightarrow> bytes \<Rightarrow> bytes option" where
  "open_inner km raw = (case km of None \<Rightarrow> None | Some c \<Rightarrow> ci_try_decrypt c raw)"

definition open_owned :: "cipher option \<Rightarrow> bytes \<Rightarrow> bytes" where
  "open_owned km raw = (case open_inner km raw of Some plain \<Rightarrow> plain | None \<Rightarrow> raw)"

definition open_opt :: "cipher option \<Rightarrow> bytes option \<Rightarrow> bytes option" where
  "open_opt km = map_option (open_owned km)"

text \<open>What an authenticated cipher promises: a frame it produced opens to its plain text.\<close>

definition cipher_ok :: "cipher option \<Rightarrow> bool" where
  "cipher_ok km \<longleftrightarrow> (\<forall>c p e. km = Some c \<longrightarrow> ci_encrypt c p = Inr e \<longrightarrow> ci_try_decrypt c e = Some p)"

section \<open>Events of the version index\<close>

definition VERSION_VALUE_ELIDED_FLAG :: u64 where
  "VERSION_VALUE_ELIDED_FLAG = push_bit 63 1"

definition encode_version_index_value :: "u64 \<Rightarrow> bool \<Rightarrow> bytes" where
  "encode_version_index_value ts elided = to_be_bytes 8 (if elided then ts OR VERSION_VALUE_ELIDED_FLAG else ts)"

definition decode_version_index_value :: "bytes \<Rightarrow> (u64 \<times> bool) option" where
  "decode_version_index_value b = (if length b < 8 then None else
     let raw = from_be_bytes (take 8 b) in
     Some (raw AND NOT VERSION_VALUE_ELIDED_FLAG, raw AND VERSION_VALUE_ELIDED_FLAG \<noteq> 0))"

section \<open>Markers of bulk loads\<close>

record interval =
  iv_first :: u64
  iv_last :: u64
  iv_ts :: u64

record copy_markers =
  cm_by_table :: "(bytes \<times> interval list) list"
  cm_any :: bool

definition markers_new :: copy_markers where
  "markers_new = \<lparr>cm_by_table = [], cm_any = False\<rparr>"

definition markers_len :: "copy_markers \<Rightarrow> nat" where
  "markers_len cm = (if \<not> cm_any cm then 0 else sum_list (map (length \<circ> snd) (cm_by_table cm)))"

definition marker_key :: "bytes \<Rightarrow> u64 \<Rightarrow> u64 \<Rightarrow> bytes" where
  "marker_key t first final = ascii ''vmeta:'' @ t @ [colon] @ pad20 first @ [colon] @ pad20 final"

definition parse_marker :: "bytes \<Rightarrow> bytes \<Rightarrow> (bytes \<times> u64 \<times> u64 \<times> u64) option" where
  "parse_marker key value = (if \<not> is_utf8 key then None else
     Option.bind (strip_prefix (ascii ''vmeta:'') key) (\<lambda>rest.
     Option.bind (cut_last rest) (\<lambda>(rest, final).
     Option.bind (cut_last rest) (\<lambda>(table, first).
     Option.bind (parse_u64 first) (\<lambda>first.
     Option.bind (parse_u64 final) (\<lambda>final.
       if length value < 8 then None else Some (table, first, final, from_be_bytes (take 8 value))))))))"

definition marker_insert :: "bytes \<Rightarrow> u64 \<Rightarrow> u64 \<Rightarrow> u64 \<Rightarrow> copy_markers \<Rightarrow> copy_markers" where
  "marker_insert t first final ts cm = \<lparr>
     cm_by_table = AList.update t ((case map_of (cm_by_table cm) t of None \<Rightarrow> [] | Some ivs \<Rightarrow> ivs) @ [\<lparr>iv_first = first, iv_last = final, iv_ts = ts\<rparr>]) (cm_by_table cm),
     cm_any = True\<rparr>"

definition load_record :: "bytes \<Rightarrow> bytes \<Rightarrow> copy_markers \<Rightarrow> copy_markers" where
  "load_record key value cm = (case parse_marker key value of None \<Rightarrow> cm | Some (t, first, final, ts) \<Rightarrow> marker_insert t first final ts cm)"

definition load_record_strict :: "bytes \<Rightarrow> bytes \<Rightarrow> copy_markers \<Rightarrow> string + copy_markers" where
  "load_record_strict key value cm = (case parse_marker key value of
       None \<Rightarrow> Inl ''malformed COPY visibility marker''
     | Some (t, first, final, ts) \<Rightarrow>
         if length value \<noteq> 8 \<or> final < first \<or> t = [] then Inl ''invalid COPY visibility marker interval''
         else Inr (marker_insert t first final ts cm))"

definition table_has_markers :: "copy_markers \<Rightarrow> bytes \<Rightarrow> bool" where
  "table_has_markers cm t \<longleftrightarrow> cm_any cm \<and> (case map_of (cm_by_table cm) t of None \<Rightarrow> False | Some ivs \<Rightarrow> ivs \<noteq> [])"

definition covering_ts :: "copy_markers \<Rightarrow> bytes \<Rightarrow> u64 \<Rightarrow> u64 option" where
  "covering_ts cm t r = (if \<not> cm_any cm then None else
     Option.bind (map_of (cm_by_table cm) t) (\<lambda>ivs. map_option iv_ts (find (\<lambda>iv. iv_first iv \<le> r \<and> r \<le> iv_last iv) ivs)))"

section \<open>The snapshot manager\<close>

type_synonym snapshot_cache = "((bytes \<times> u64 \<times> u64) \<times> u64 \<times> bytes option) list"

record snapshot_manager =
  sm_cache :: snapshot_cache
  sm_cache_gen :: "(bytes \<times> u64) list"
  sm_cache_enabled :: bool
  sm_persist_metadata :: bool
  sm_gc_low_watermark :: u64
  sm_copy_markers :: copy_markers
  sm_elide_latest_version :: bool
  sm_maybe_elided_rows :: bool
  sm_key_manager :: "cipher option"

definition ELIDE_SENTINEL_KEY :: bytes where
  "ELIDE_SENTINEL_KEY = ascii ''w3_2_elide_used''"

definition configure_elision :: "'db kv \<Rightarrow> bool \<Rightarrow> 'db \<Rightarrow> snapshot_manager \<Rightarrow> 'db \<times> snapshot_manager" where
  "configure_elision kv elide db sm = (
     let present = (case kv_get kv db ELIDE_SENTINEL_KEY of Inr (Some _) \<Rightarrow> True | _ \<Rightarrow> False);
         sm = sm\<lparr>sm_elide_latest_version := elide, sm_maybe_elided_rows := sm_maybe_elided_rows sm \<or> present\<rparr> in
     if \<not> elide then (db, sm)
     else if present \<or> \<not> sm_persist_metadata sm then (db, sm\<lparr>sm_maybe_elided_rows := True\<rparr>)
     else case kv_write kv db [BPut ELIDE_SENTINEL_KEY [1]] of
         Inr db \<Rightarrow> (db, sm\<lparr>sm_maybe_elided_rows := True\<rparr>)
       | Inl _ \<Rightarrow> (db, sm\<lparr>sm_elide_latest_version := False\<rparr>))"

definition configure_elision_read_only :: "'db kv \<Rightarrow> 'db \<Rightarrow> snapshot_manager \<Rightarrow> string + snapshot_manager" where
  "configure_elision_read_only kv db sm = bind_result (kv_get kv db ELIDE_SENTINEL_KEY) (\<lambda>sentinel.
     if (case sentinel of Some b \<Rightarrow> b \<noteq> [1] | None \<Rightarrow> False) then Inl ''invalid elision sentinel''
     else Inr (sm\<lparr>sm_elide_latest_version := False, sm_maybe_elided_rows := sentinel \<noteq> None\<rparr>))"

definition check_gc_horizon :: "snapshot_manager \<Rightarrow> u64 \<Rightarrow> string + unit" where
  "check_gc_horizon sm ts = (if ts < sm_gc_low_watermark sm then Inl ''historical read below the version-GC low watermark'' else Inr ())"

subsection \<open>Reading\<close>

text \<open>The first entry of an iterator, when it has one and the entry was read.\<close>

definition first_entry :: "'db kv \<Rightarrow> 'db \<Rightarrow> bytes \<Rightarrow> (bytes \<times> bytes) option" where
  "first_entry kv db s = (case kv_scan kv db s of Inr e # _ \<Rightarrow> Some e | _ \<Rightarrow> None)"

definition get_version_by_exact_timestamp :: "'db kv \<Rightarrow> 'db \<Rightarrow> bytes \<Rightarrow> u64 \<Rightarrow> u64 \<Rightarrow> string + bytes option" where
  "get_version_by_exact_timestamp kv db t r ts = kv_get kv db (version_key t r ts)"

definition has_any_version_index :: "'db kv \<Rightarrow> 'db \<Rightarrow> bytes \<Rightarrow> u64 \<Rightarrow> bool" where
  "has_any_version_index kv db t r \<longleftrightarrow> (case first_entry kv db (version_index_prefix t r) of
       Some (k, _) \<Rightarrow> starts_with (version_index_prefix t r) k | None \<Rightarrow> False)"

definition read_at_snapshot_uncached :: "'db kv \<Rightarrow> copy_markers \<Rightarrow> 'db \<Rightarrow> bytes \<Rightarrow> u64 \<Rightarrow> u64 \<Rightarrow> string + bytes option" where
  "read_at_snapshot_uncached kv cm db t r s = (
     case Option.bind (first_entry kv db (version_index_prefix t r @ pad20 (- 1 - s))) (\<lambda>(k, v).
            if is_utf8 k \<and> starts_with (version_index_prefix t r) k then
              Option.bind (decode_version_index_value v) (\<lambda>(actual, elided). if actual \<le> s then Some (actual, elided) else None)
            else None) of
       Some (actual, elided) \<Rightarrow>
         if elided then kv_get kv db (data_key t r) else get_version_by_exact_timestamp kv db t r actual
     | None \<Rightarrow>
         if has_any_version_index kv db t r then Inr None
         else case covering_ts cm t r of
             Some marker \<Rightarrow> if s < marker then Inr None else kv_get kv db (data_key t r)
           | None \<Rightarrow> kv_get kv db (data_key t r))"

definition table_cache_generation :: "snapshot_manager \<Rightarrow> bytes \<Rightarrow> u64" where
  "table_cache_generation sm t = (case map_of (sm_cache_gen sm) t of Some g \<Rightarrow> g | None \<Rightarrow> 0)"

definition bump_table_cache_generation :: "bytes \<Rightarrow> snapshot_manager \<Rightarrow> snapshot_manager" where
  "bump_table_cache_generation t sm = sm\<lparr>sm_cache_gen := AList.update t (table_cache_generation sm t + 1) (sm_cache_gen sm)\<rparr>"

definition invalidate_cache_for_row :: "bytes \<Rightarrow> snapshot_manager \<Rightarrow> snapshot_manager" where
  "invalidate_cache_for_row t sm = (if sm_cache_enabled sm then bump_table_cache_generation t sm else sm)"

definition cache_put :: "(snapshot_cache \<Rightarrow> snapshot_cache) \<Rightarrow> bytes \<times> u64 \<times> u64 \<Rightarrow> u64 \<times> bytes option \<Rightarrow> snapshot_manager \<Rightarrow> snapshot_manager" where
  "cache_put evict key entry sm = sm\<lparr>sm_cache := evict (AList.update key entry (sm_cache sm))\<rparr>"

definition read_at_snapshot ::
  "'db kv \<Rightarrow> (snapshot_cache \<Rightarrow> snapshot_cache) \<Rightarrow> 'db \<Rightarrow> bytes \<Rightarrow> u64 \<Rightarrow> u64 \<Rightarrow> snapshot_manager \<Rightarrow> snapshot_manager \<times> (string + bytes option)" where
  "read_at_snapshot kv evict db t r s sm = (
     let gen = table_cache_generation sm t;
         hit = (if sm_cache_enabled sm then
                  (case map_of (sm_cache sm) (t, r, s) of Some (g, v) \<Rightarrow> if g = gen then Some v else None | None \<Rightarrow> None)
                else None) in
     case hit of
       Some v \<Rightarrow> (sm, Inr v)
     | None \<Rightarrow> (case read_at_snapshot_uncached kv (sm_copy_markers sm) db t r s of
           Inl e \<Rightarrow> (sm, Inl e)
         | Inr stored \<Rightarrow>
             let result = open_opt (sm_key_manager sm) stored in
             (if sm_cache_enabled sm then cache_put evict (t, r, s) (gen, result) sm else sm, Inr result)))"

text \<open>The older reader that walks over the whole store and keeps the best version seen so far.\<close>

definition linear_step :: "bytes \<Rightarrow> u64 \<Rightarrow> bytes \<times> bytes \<Rightarrow> (u64 \<times> bytes) option \<Rightarrow> (u64 \<times> bytes) option" where
  "linear_step p s e best = (if is_utf8 (fst e) \<and> starts_with p (fst e) then
       (case parse_u64 (case cut_last (fst e) of Some (_, ts) \<Rightarrow> ts | None \<Rightarrow> fst e) of
          Some ts \<Rightarrow> if ts \<le> s \<and> (case best of None \<Rightarrow> True | Some (b, _) \<Rightarrow> b < ts) then Some (ts, snd e) else best
        | None \<Rightarrow> best)
     else best)"

fun linear_scan :: "bytes \<Rightarrow> u64 \<Rightarrow> (string + bytes \<times> bytes) list \<Rightarrow> (u64 \<times> bytes) option \<Rightarrow> string + (u64 \<times> bytes) option" where
  "linear_scan p s [] best = Inr best"
| "linear_scan p s (Inl e # es) best = Inl e"
| "linear_scan p s (Inr e # es) best = linear_scan p s es (linear_step p s e best)"

definition read_at_snapshot_linear :: "'db kv \<Rightarrow> cipher option \<Rightarrow> 'db \<Rightarrow> bytes \<Rightarrow> u64 \<Rightarrow> u64 \<Rightarrow> string + bytes option" where
  "read_at_snapshot_linear kv km db t r s = bind_result (linear_scan (version_prefix t r) s (kv_scan kv db []) None)
     (\<lambda>best. Inr (open_opt km (map_option snd best)))"

subsection \<open>Writing\<close>

definition materialized :: "bytes \<Rightarrow> u64 \<Rightarrow> u64 \<Rightarrow> bytes \<Rightarrow> batch_op list" where
  "materialized t r ts v = [BPut (version_key t r ts) v, BPut (version_index_key t r ts) (to_be_bytes 8 ts)]"

definition materialize_copy_marker_row ::
  "'db kv \<Rightarrow> copy_markers \<Rightarrow> 'db \<Rightarrow> bytes \<Rightarrow> u64 \<Rightarrow> u64 \<Rightarrow> string + batch_op list" where
  "materialize_copy_marker_row kv cm db t r new_ts = (case covering_ts cm t r of
       None \<Rightarrow> Inr []
     | Some marker \<Rightarrow>
         if new_ts \<le> marker \<or> has_any_version_index kv db t r then Inr []
         else bind_result (kv_get kv db (data_key t r)) (\<lambda>old. case old of
             None \<Rightarrow> Inr [] | Some v \<Rightarrow> Inr (materialized t r marker v)))"

definition find_flagged_latest_version :: "'db kv \<Rightarrow> 'db \<Rightarrow> bytes \<Rightarrow> u64 \<Rightarrow> string + (u64 \<times> bytes) option" where
  "find_flagged_latest_version kv db t r = (case kv_scan kv db (version_index_prefix t r) of
       [] \<Rightarrow> Inr None
     | Inl e # _ \<Rightarrow> Inl e
     | Inr (k, v) # _ \<Rightarrow> Inr (if starts_with (version_index_prefix t r) k then
           (case decode_version_index_value v of Some (ts, elided) \<Rightarrow> if elided then Some (ts, k) else None | None \<Rightarrow> None)
         else None))"

definition materialize_elided_latest_version :: "'db kv \<Rightarrow> 'db \<Rightarrow> bytes \<Rightarrow> u64 \<Rightarrow> string + batch_op list" where
  "materialize_elided_latest_version kv db t r = bind_result (find_flagged_latest_version kv db t r) (\<lambda>event. case event of
       None \<Rightarrow> Inr []
     | Some (ts, index_key) \<Rightarrow> bind_result (kv_get kv db (data_key t r)) (\<lambda>old. case old of
           None \<Rightarrow> Inr []
         | Some v \<Rightarrow> Inr [BPut (version_key t r ts) v, BPut index_key (encode_version_index_value ts False)]))"

text \<open>The same two in a write of their own, before a mutation that does not version its row.\<close>

definition write_nonempty :: "'db kv \<Rightarrow> 'db \<Rightarrow> batch_op list \<Rightarrow> string + 'db" where
  "write_nonempty kv db b = (if b = [] then Inr db else kv_write kv db b)"

definition materialize_copy_marker_row_durable_inner :: "'db kv \<Rightarrow> copy_markers \<Rightarrow> 'db \<Rightarrow> bytes \<Rightarrow> u64 \<Rightarrow> string + 'db" where
  "materialize_copy_marker_row_durable_inner kv cm db t r = (case covering_ts cm t r of
       None \<Rightarrow> Inr db
     | Some marker \<Rightarrow>
         if has_any_version_index kv db t r then Inr db
         else bind_result (kv_get kv db (data_key t r)) (\<lambda>old. case old of
             None \<Rightarrow> Inr db | Some v \<Rightarrow> kv_write kv db (materialized t r marker v)))"

definition materialize_elided_latest_version_durable :: "'db kv \<Rightarrow> 'db \<Rightarrow> bytes \<Rightarrow> u64 \<Rightarrow> string + 'db" where
  "materialize_elided_latest_version_durable kv db t r =
     bind_result (materialize_elided_latest_version kv db t r) (write_nonempty kv db)"

definition materialize_copy_marker_row_durable :: "'db kv \<Rightarrow> snapshot_manager \<Rightarrow> 'db \<Rightarrow> bytes \<Rightarrow> u64 \<Rightarrow> string + 'db" where
  "materialize_copy_marker_row_durable kv sm db t r =
     bind_result (if cm_any (sm_copy_markers sm) then materialize_copy_marker_row_durable_inner kv (sm_copy_markers sm) db t r else Inr db)
       (\<lambda>db. if sm_maybe_elided_rows sm then materialize_elided_latest_version_durable kv db t r else Inr db)"

text \<open>
  The entries of one version in the batch of a fast insert. \<open>sealed\<close> is the value when the caller
  has sealed it already, \<open>metadata\<close> the serialised metadata of the snapshot.
\<close>

definition append_version_snapshot_to_batch ::
  "'db kv \<Rightarrow> snapshot_manager \<Rightarrow> 'db \<Rightarrow> bytes \<Rightarrow> u64 \<Rightarrow> u64 \<Rightarrow> bytes \<Rightarrow> bytes option \<Rightarrow> string + bytes \<Rightarrow> bool \<Rightarrow> string + batch_op list" where
  "append_version_snapshot_to_batch kv sm db t r ts v sealed metadata allow_elide =
     bind_result (materialize_copy_marker_row kv (sm_copy_markers sm) db t r ts) (\<lambda>pre.
     bind_result (if allow_elide \<and> sm_elide_latest_version sm then
         Inr [BPut (version_index_key t r ts) (encode_version_index_value ts True)]
       else bind_result (case sealed of Some s \<Rightarrow> Inr s | None \<Rightarrow> seal (sm_key_manager sm) v) (\<lambda>stored.
         Inr [BPut (version_key t r ts) stored, BPut (version_index_key t r ts) (encode_version_index_value ts False)])) (\<lambda>version.
     if sm_persist_metadata sm then
       bind_result metadata (\<lambda>snapshot. Inr (pre @ version @ [BPut (ascii ''snapshot:'' @ u64_text ts) snapshot]))
     else Inr (pre @ version)))"

definition create_reverse_timestamp_index :: "'db kv \<Rightarrow> 'db \<Rightarrow> bytes \<Rightarrow> u64 \<Rightarrow> u64 \<Rightarrow> string + 'db" where
  "create_reverse_timestamp_index kv db t r ts = kv_write kv db [BPut (version_index_key t r ts) (to_be_bytes 8 ts)]"

definition write_version :: "'db kv \<Rightarrow> bytes \<Rightarrow> u64 \<Rightarrow> u64 \<Rightarrow> bytes \<Rightarrow> 'db \<Rightarrow> snapshot_manager \<Rightarrow> ('db \<times> snapshot_manager) \<times> (string + unit)" where
  "write_version kv t r ts v db sm = (case seal (sm_key_manager sm) v of
       Inl e \<Rightarrow> ((db, sm), Inl e)
     | Inr stored \<Rightarrow> (case kv_write kv db [BPut (version_key t r ts) stored] of
           Inl e \<Rightarrow> ((db, sm), Inl e)
         | Inr db \<Rightarrow> (case create_reverse_timestamp_index kv db t r ts of
               Inl e \<Rightarrow> ((db, sm), Inl e)
             | Inr db \<Rightarrow> ((db, invalidate_cache_for_row t sm), Inr ()))))"

section \<open>Histories\<close>

text \<open>
  A history is a list of versions, newest first. The index of a history is the suffix and value
  of its events, in key order; the newest may be elided. A table name has no colon, as names in
  keys are cut at colons.
\<close>

type_synonym history = "(u64 \<times> bytes) list"

definition history_ok :: "history \<Rightarrow> bool" where
  "history_ok h \<longleftrightarrow> sorted_wrt (\<lambda>a b. b < a) (map fst h) \<and> list_all (\<lambda>e. fst e < 2 ^ 63) h"

definition newest :: "history \<Rightarrow> u64 \<Rightarrow> bytes option" where
  "newest h s = map_option snd (find (\<lambda>e. fst e \<le> s) h)"

definition chain_index :: "history \<Rightarrow> bool \<Rightarrow> (bytes \<times> bytes) list" where
  "chain_index h elided = (case h of [] \<Rightarrow> [] | e # h \<Rightarrow> (pad20 (- 1 - fst e), encode_version_index_value (fst e) elided)
     # map (\<lambda>e. (pad20 (- 1 - fst e), encode_version_index_value (fst e) False)) h)"

text \<open>The events of an index, newest first, any of them elided.\<close>

definition event_index :: "(u64 \<times> bool) list \<Rightarrow> (bytes \<times> bytes) list" where
  "event_index evs = map (\<lambda>(ts, elided). (pad20 (- 1 - ts), encode_version_index_value ts elided)) evs"

definition events_at :: "(bytes \<Rightarrow> bytes option) \<Rightarrow> bytes \<Rightarrow> u64 \<Rightarrow> (u64 \<times> bool) list \<Rightarrow> bool" where
  "events_at m t r evs \<longleftrightarrow> sorted_wrt (\<lambda>a b. b < a) (map fst evs) \<and> list_all (\<lambda>e. fst e < 2 ^ 63) evs
     \<and> (\<forall>k. m (version_index_prefix t r @ k) = map_of (event_index evs) k)"

definition events :: "history \<Rightarrow> bool \<Rightarrow> (u64 \<times> bool) list" where
  "events h elided = (case h of [] \<Rightarrow> [] | e # h \<Rightarrow> (fst e, elided) # map (\<lambda>e. (fst e, False)) h)"

definition chain :: "(bytes \<Rightarrow> bytes option) \<Rightarrow> bytes \<Rightarrow> u64 \<Rightarrow> history \<Rightarrow> bool \<Rightarrow> bool" where
  "chain m t r h elided \<longleftrightarrow> history_ok h \<and> (\<forall>k. m (version_index_prefix t r @ k) = map_of (chain_index h elided) k)
     \<and> (\<forall>e \<in> set (if elided then tl h else h). m (version_key t r (fst e)) = Some (snd e))
     \<and> (elided \<longrightarrow> h \<noteq> [] \<and> m (data_key t r) = Some (snd (hd h)))"

definition table_name :: "bytes \<Rightarrow> bool" where
  "table_name t \<longleftrightarrow> is_utf8 t \<and> t \<noteq> [] \<and> colon \<notin> set t"

section \<open>Lemmas\<close>

lemma open_seal: "cipher_ok km \<Longrightarrow> seal km v = Inr e \<Longrightarrow> open_owned km e = v"
  by (auto simp: cipher_ok_def seal_def open_owned_def open_inner_def split: option.splits)

lemma flag_bits: "bit VERSION_VALUE_ELIDED_FLAG n \<longleftrightarrow> n = 63"
proof -
  have "bit VERSION_VALUE_ELIDED_FLAG n \<longleftrightarrow> 63 \<le> n \<and> n < 64 \<and> n - 63 = 0"
    unfolding VERSION_VALUE_ELIDED_FLAG_def bit_push_bit_iff bit_1_iff by auto
  then show ?thesis by auto
qed

lemma ts_no_flag: "ts < 2 ^ 63 \<Longrightarrow> \<not> bit ts 63" for ts :: u64
proof -
  assume "ts < 2 ^ 63"
  then have "unat (ts div 2 ^ 63) = 0" by (simp add: word_less_nat_alt unat_div)
  then have "ts div 2 ^ 63 = 0" by (simp add: unat_eq_zero)
  then show ?thesis by (simp add: bit_iff_odd)
qed

lemma decode_encode [simp]: "ts < 2 ^ 63 \<Longrightarrow> decode_version_index_value (encode_version_index_value ts elided) = Some (ts, elided)"
proof -
  assume "ts < 2 ^ 63"
  then have b: "\<not> bit ts 63" by (rule ts_no_flag)
  have rt: "from_be_bytes (to_be_bytes 8 w) = w" for w :: u64
    by (rule from_to_be_bytes) simp
  have z: "ts AND VERSION_VALUE_ELIDED_FLAG = 0" by (rule bit_word_eqI) (use b in \<open>auto simp: bit_and_iff flag_bits\<close>)
  have c: "ts AND NOT VERSION_VALUE_ELIDED_FLAG = ts" by (rule bit_word_eqI) (use b in \<open>auto simp: bit_and_iff bit_not_iff flag_bits\<close>)
  have o: "(ts OR VERSION_VALUE_ELIDED_FLAG) AND NOT VERSION_VALUE_ELIDED_FLAG = ts"
    by (rule bit_word_eqI) (use b in \<open>auto simp: bit_and_iff bit_or_iff bit_not_iff flag_bits\<close>)
  have f: "VERSION_VALUE_ELIDED_FLAG \<noteq> 0" using flag_bits [of 63] by auto
  show ?thesis by (cases elided) (simp_all add: decode_version_index_value_def encode_version_index_value_def Let_def rt z c o f)
qed

lemma reverse_ts: "- 1 - a \<le> - 1 - b \<longleftrightarrow> b \<le> a" "- 1 - a < - 1 - b \<longleftrightarrow> b < a" "- 1 - a = - 1 - b \<longleftrightarrow> a = b" for a b :: u64
proof -
  have u: "unat (- 1 - x) = unat (- 1 :: u64) - unat x" for x :: u64 by (rule unat_sub) simp
  have "unat a \<le> unat (- 1 :: u64)" "unat b \<le> unat (- 1 :: u64)" by (simp_all flip: word_le_nat_alt)
  then have "unat (- 1 :: u64) - unat a \<le> unat (- 1 :: u64) - unat b \<longleftrightarrow> unat b \<le> unat a"
      "unat (- 1 :: u64) - unat a < unat (- 1 :: u64) - unat b \<longleftrightarrow> unat b < unat a" by linarith+
  then show "- 1 - a \<le> - 1 - b \<longleftrightarrow> b \<le> a" "- 1 - a < - 1 - b \<longleftrightarrow> b < a"
    unfolding word_le_nat_alt word_less_nat_alt u by blast+
qed simp

lemma starts_with_append [simp]: "starts_with p (p @ k)"
  by (simp add: starts_with_def)

lemma starts_with_iff: "starts_with p k \<longleftrightarrow> (\<exists>s. k = p @ s)"
  by (auto simp: starts_with_def strip_prefix_Some)

lemma is_utf8_index_key: "is_utf8 t \<Longrightarrow> is_utf8 (version_index_prefix t r @ pad20 n)"
proof -
  have "is_utf8 (ascii ''v_idx:'')" by (rule is_utf8_ascii) (simp add: ascii_def)
  moreover assume "is_utf8 t"
  ultimately show ?thesis unfolding version_index_prefix_def by (intro is_utf8_append) simp_all
qed

lemma events_facts: "map fst (events h elided) = map fst h" "chain_index h elided = event_index (events h elided)"
  by (auto simp: events_def chain_index_def event_index_def split: list.splits)

lemma chain_events: "chain m t r h elided \<Longrightarrow> events_at m t r (events h elided)"
proof -
  assume c: "chain m t r h elided"
  then have "list_all (\<lambda>e. fst e < 2 ^ 63) (events h elided)" by (cases h) (simp_all add: events_def chain_def history_ok_def list_all_iff)
  then show ?thesis using c unfolding events_at_def chain_def history_ok_def events_facts by simp
qed

lemma find_events: "history_ok h \<Longrightarrow> find (\<lambda>e. fst e \<le> s) (events h elided) = map_option (\<lambda>e. (fst e, elided \<and> e = hd h)) (find (\<lambda>e. fst e \<le> s) h)"
proof (cases h)
  case (Cons e h')
  assume "history_ok h"
  then have new: "e \<notin> set h'" using Cons by (auto simp: history_ok_def)
  have tail: "find (\<lambda>e. fst e \<le> s) (map (\<lambda>e. (fst e, False)) g) = map_option (\<lambda>e. (fst e, False)) (find (\<lambda>e. fst e \<le> s) g)" for g :: history
    by (induction g) simp_all
  have ne: "d \<noteq> e" if "find (\<lambda>e. fst e \<le> s) h' = Some d" for d using that new unfolding find_Some_iff by (metis nth_mem)
  show ?thesis using Cons ne by (cases "find (\<lambda>e. fst e \<le> s) h'") (auto simp: events_def tail)
qed (simp add: events_def)

lemma event_index_sorted: "sorted_wrt (\<lambda>a b. b < a) (map fst evs) \<Longrightarrow> sorted_wrt (<) (map fst (event_index evs))"
  by (simp add: event_index_def sorted_wrt_map case_prod_beta pad20_order reverse_ts)

lemma find_event_index:
  "find (\<lambda>(y, _). pad20 (- 1 - s) \<le> y) (event_index evs)
     = map_option (\<lambda>(ts, elided). (pad20 (- 1 - ts), encode_version_index_value ts elided)) (find (\<lambda>e. fst e \<le> s) evs)"
  by (induction evs) (auto simp: event_index_def pad20_order reverse_ts)

lemma first_entry_prefix:
  assumes "kv_holds kv db m" "\<And>k. m (p @ k) = map_of xs k" "sorted_wrt (<) (map fst xs)"
  shows "Option.bind (first_entry kv db (p @ x)) (\<lambda>(k, v). if starts_with p k then f k v else None)
     = Option.bind (find (\<lambda>(y, _). x \<le> y) xs) (\<lambda>(y, v). f (p @ y) v)"
  using seek_in_prefix [OF assms, of x]
  by (auto simp: first_entry_def starts_with_def split: option.splits prod.splits)

lemma has_any_entries:
  assumes "kv_holds kv db m" "\<And>k. m (version_index_prefix t r @ k) = map_of xs k" "sorted_wrt (<) (map fst xs)"
  shows "has_any_version_index kv db t r \<longleftrightarrow> xs \<noteq> []"
  using seek_in_prefix [OF assms, of "[]"]
  by (cases xs) (auto simp: has_any_version_index_def first_entry_def starts_with_def split: prod.splits)

lemma event_seek:
  assumes "kv_holds kv db m" "events_at m t r evs" "table_name t"
  shows "Option.bind (first_entry kv db (version_index_prefix t r @ pad20 (- 1 - s))) (\<lambda>(k, v).
      if is_utf8 k \<and> starts_with (version_index_prefix t r) k then
        Option.bind (decode_version_index_value v) (\<lambda>(actual, el). if actual \<le> s then Some (actual, el) else None)
      else None) = find (\<lambda>e. fst e \<le> s) evs" (is "Option.bind ?e ?f = _")
proof -
  have h: "sorted_wrt (\<lambda>a b. b < a) (map fst evs)" "\<And>k. m (version_index_prefix t r @ k) = map_of (event_index evs) k"
    using assms(2) by (simp_all add: events_at_def)
  define g where "g k v = (if is_utf8 k then Option.bind (decode_version_index_value v) (\<lambda>(actual, el). if actual \<le> s then Some (actual, el) else None) else None)"
    for k v
  have "?f = (\<lambda>(k, v). if starts_with (version_index_prefix t r) k then g k v else None)" by (auto simp: g_def fun_eq_iff)
  then have "Option.bind ?e ?f = Option.bind (find (\<lambda>(y, _). pad20 (- 1 - s) \<le> y) (event_index evs)) (\<lambda>(y, v). g (version_index_prefix t r @ y) v)"
    using first_entry_prefix [OF assms(1) h(2) event_index_sorted [OF h(1)]] by simp
  moreover have "fst e < 2 ^ 63 \<and> fst e \<le> s" if "find (\<lambda>e. fst e \<le> s) evs = Some e" for e
    using that assms(2) unfolding find_Some_iff events_at_def list_all_iff by auto
  ultimately show ?thesis using assms(3) unfolding find_event_index
    by (cases "find (\<lambda>e. fst e \<le> s) evs") (auto simp: g_def is_utf8_index_key table_name_def)
qed

lemma has_any_events: "kv_holds kv db m \<Longrightarrow> events_at m t r evs \<Longrightarrow> has_any_version_index kv db t r \<longleftrightarrow> evs \<noteq> []"
  using has_any_entries [of kv db m t r "event_index evs"] event_index_sorted [of evs] by (simp add: events_at_def) (simp add: event_index_def)

lemma read_events:
  assumes "kv_holds kv db m" "events_at m t r evs" "table_name t"
  shows "read_at_snapshot_uncached kv cm db t r s = Inr (case find (\<lambda>e. fst e \<le> s) evs of
      Some (ts, elided) \<Rightarrow> m (if elided then data_key t r else version_key t r ts)
    | None \<Rightarrow> if evs \<noteq> [] then None
        else case covering_ts cm t r of Some marker \<Rightarrow> if s < marker then None else m (data_key t r) | None \<Rightarrow> m (data_key t r))"
  using assms(1) unfolding read_at_snapshot_uncached_def event_seek [OF assms] has_any_events [OF assms(1,2)] get_version_by_exact_timestamp_def
  by (auto split: option.splits)

lemma read_history:
  assumes "kv_holds kv db m" "chain m t r h elided" "table_name t" "h \<noteq> []"
  shows "read_at_snapshot_uncached kv cm db t r s = Inr (newest h s)"
proof -
  have ok: "history_ok h" using assms(2) by (simp add: chain_def)
  have "m (if elided \<and> e = hd h then data_key t r else version_key t r (fst e)) = Some (snd e)" if "e \<in> set h" for e
    using that assms(2) unfolding chain_def by (cases h) (auto split: if_splits)
  moreover have "e \<in> set h" if "find (\<lambda>e. fst e \<le> s) h = Some e" for e using that unfolding find_Some_iff by auto
  moreover have "events h elided \<noteq> []" using assms(4) by (simp add: events_def split: list.splits)
  ultimately show ?thesis unfolding read_events [OF assms(1) chain_events [OF assms(2)] assms(3)] find_events [OF ok] newest_def
    by (cases "find (\<lambda>e. fst e \<le> s) h") simp_all
qed

lemma read_no_history:
  assumes "kv_holds kv db m" "chain m t r [] elided" "table_name t"
  shows "read_at_snapshot_uncached kv cm db t r s
     = Inr (case covering_ts cm t r of Some marker \<Rightarrow> if s < marker then None else m (data_key t r) | None \<Rightarrow> m (data_key t r))"
  using read_events [OF assms(1) chain_events [OF assms(2)] assms(3)] by (simp add: events_def)

subsection \<open>Keys of different kinds and rows\<close>

lemma key_kinds [simp]:
  "version_index_prefix t r @ k \<noteq> data_key t' r'" "data_key t' r' \<noteq> version_index_prefix t r @ k"
  "version_index_prefix t r @ k \<noteq> version_key t' r' ts" "version_key t' r' ts \<noteq> version_index_prefix t r @ k"
  "version_key t r ts \<noteq> data_key t' r'" "data_key t' r' \<noteq> version_key t r ts"
  by (simp_all add: version_index_prefix_def data_key_def data_prefix_def version_key_def version_prefix_def ascii_def)

lemma row_cut: "colon \<notin> set t \<Longrightarrow> colon \<notin> set t' \<Longrightarrow> t @ colon # u64_text r @ colon # k = t' @ colon # u64_text r' @ colon # k' \<longleftrightarrow> t = t' \<and> r = r' \<and> k = k'"
  by (auto simp: split_at_colon)

lemma key_inj [simp]:
  assumes "table_name t" "table_name t'"
  shows "data_key t r = data_key t' r' \<longleftrightarrow> t = t' \<and> r = r'"
    "version_key t r ts = version_key t' r' ts' \<longleftrightarrow> t = t' \<and> r = r' \<and> ts = ts'"
    "version_index_prefix t r @ k = version_index_key t' r' ts' \<longleftrightarrow> t = t' \<and> r = r' \<and> k = pad20 (- 1 - ts')"
  using assms row_cut [of t t' r "u64_text ts" r' "u64_text ts'"] row_cut [of t t' r k r' "pad20 (- 1 - ts')"]
  by (auto simp: table_name_def data_key_def data_prefix_def version_key_def version_prefix_def version_index_key_def version_index_prefix_def split_at_colon)

lemma index_key_kinds [simp]:
  "version_index_key t r ts \<noteq> data_key t' r'" "data_key t' r' \<noteq> version_index_key t r ts"
  "version_index_key t r ts \<noteq> version_key t' r' ts'" "version_key t' r' ts' \<noteq> version_index_key t r ts"
  by (simp_all add: version_index_key_def)

subsection \<open>Chains\<close>

text \<open>A chain reads only the keys of its row.\<close>

definition row_keys :: "bytes \<Rightarrow> u64 \<Rightarrow> bytes set" where
  "row_keys t r = {data_key t r} \<union> range (version_key t r) \<union> range (\<lambda>k. version_index_prefix t r @ k)"

lemma chain_agree: "(\<And>k. k \<in> row_keys t r \<Longrightarrow> m' k = m k) \<Longrightarrow> chain m' t r h elided = chain m t r h elided"
  by (simp add: chain_def row_keys_def)

lemma chain_materialize:
  assumes "chain m t r h True" "table_name t"
  shows "chain (m(version_key t r (fst (hd h)) := Some (snd (hd h)), version_index_key t r (fst (hd h)) := Some (encode_version_index_value (fst (hd h)) False))) t r h False"
proof -
  obtain e g where h: "h = e # g" using assms(1) by (cases h) (auto simp: chain_def)
  then have ok: "history_ok (e # g)" and idx: "\<And>k. m (version_index_prefix t r @ k) = map_of (chain_index (e # g) True) k"
      and vals: "\<And>d. d \<in> set g \<Longrightarrow> m (version_key t r (fst d)) = Some (snd d)"
    using assms(1) by (auto simp: chain_def)
  have ne: "fst d \<noteq> fst e" if "d \<in> set g" for d using ok that by (auto simp: history_ok_def)
  show ?thesis unfolding chain_def h
    using ok vals ne assms(2) by (auto simp: idx chain_index_def)
qed

lemma chain_data: "chain m t r h False \<Longrightarrow> chain (m(data_key t r := x)) t r h False"
  by (auto simp: chain_def)

lemma chain_append:
  assumes "chain m t r h False" "table_name t" "list_all (\<lambda>e. fst e < ts) h" "ts < 2 ^ 63"
  shows "chain (m(data_key t r := Some x, version_key t r ts := Some x, version_index_key t r ts := Some (encode_version_index_value ts False))) t r ((ts, x) # h) False"
    and "chain (m(data_key t r := Some x, version_index_key t r ts := Some (encode_version_index_value ts True))) t r ((ts, x) # h) True"
proof -
  have ok: "history_ok ((ts, x) # h)" using assms by (auto simp: chain_def history_ok_def list_all_iff)
  have ne: "fst d \<noteq> ts" if "d \<in> set h" for d using assms(3) that by (auto simp: list_all_iff)
  have idx: "map_of (map (\<lambda>e. (pad20 (- 1 - fst e), encode_version_index_value (fst e) False)) h) k = m (version_index_prefix t r @ k)" for k
    using assms(1) by (cases h) (auto simp: chain_def chain_index_def)
  have vals: "\<And>d. d \<in> set h \<Longrightarrow> m (version_key t r (fst d)) = Some (snd d)" using assms(1) by (simp add: chain_def)
  show "chain (m(data_key t r := Some x, version_key t r ts := Some x, version_index_key t r ts := Some (encode_version_index_value ts False))) t r ((ts, x) # h) False"
    unfolding chain_def using ok ne vals assms(2) by (auto simp: chain_index_def idx)
  show "chain (m(data_key t r := Some x, version_index_key t r ts := Some (encode_version_index_value ts True))) t r ((ts, x) # h) True"
    unfolding chain_def using ok ne vals assms(2) by (auto simp: chain_index_def idx)
qed

lemma newest_append: "newest ((ts, x) # h) s = (if ts \<le> s then Some x else newest h s)"
  by (simp add: newest_def)

lemma history_distinct: "history_ok h \<Longrightarrow> distinct (map fst h)"
proof -
  have "sorted_wrt (\<lambda>a b. b < a) xs \<Longrightarrow> distinct xs" for xs :: "u64 list" by (induction xs) auto
  then show "history_ok h \<Longrightarrow> distinct (map fst h)" by (simp add: history_ok_def)
qed

lemma find_newest:
  assumes "history_ok h" "find (\<lambda>e. fst e \<le> s) h = Some e" "d \<in> set h" "fst d \<le> s"
  shows "fst d \<le> fst e"
proof -
  obtain i where i: "i < length h" "h ! i = e" "\<forall>j<i. \<not> fst (h ! j) \<le> s" using assms(2) unfolding find_Some_iff by auto
  obtain j where j: "j < length h" "h ! j = d" using assms(3) by (metis in_set_conv_nth)
  have "\<not> j < i" using i(3) j assms(4) by auto
  then show ?thesis using sorted_wrt_nth_less [of "\<lambda>a b. b < a" "map fst h" i j] assms(1) i j
    by (cases "i = j") (auto simp: history_ok_def)
qed

subsection \<open>Reads look only at the keys of the row\<close>

lemma prefix_entries:
  assumes "kv_holds kv db m"
  obtains xs where "\<And>k. m (p @ k) = map_of xs k" "sorted_wrt (<) (map fst xs)"
proof -
  obtain es where es: "sorted_wrt (<) (map fst es)" "\<And>k v. (k, v) \<in> set es \<longleftrightarrow> m k = Some v \<and> p @ [] \<le> k"
    using assms unfolding kv_holds_def by blast
  define xs where "xs = map (\<lambda>(k, v). (drop (length p) k, v)) (filter (\<lambda>(k, v). starts_with p k) es)"
  have mem: "(k, v) \<in> set xs \<longleftrightarrow> m (p @ k) = Some v" for k v
  proof -
    have "m (p @ k) = Some v \<longleftrightarrow> (p @ k, v) \<in> set es" using es(2) [of "p @ k" v] append_left_le(1) [of p "[]" k] by simp
    then show ?thesis by (force simp: xs_def starts_with_iff image_iff)
  qed
  have so: "sorted_wrt (\<lambda>x y. fst x < fst y) (filter (\<lambda>(k, v). starts_with p k) es)" using es(1) unfolding sorted_wrt_map by (rule sorted_wrt_filter)
  have st: "drop (length p) (fst x) < drop (length p) (fst y)"
    if "x \<in> set (filter (\<lambda>(k, v). starts_with p k) es)" "y \<in> set (filter (\<lambda>(k, v). starts_with p k) es)" "fst x < fst y" for x y
    using that by (auto simp: starts_with_iff)
  have "sorted_wrt (\<lambda>x y. drop (length p) (fst x) < drop (length p) (fst y)) (filter (\<lambda>(k, v). starts_with p k) es)"
    using sorted_wrt_mono_rel [OF st so] .
  then have srt: "sorted_wrt (<) (map fst xs)" by (simp add: xs_def sorted_wrt_map case_prod_beta)
  have "m (p @ k) = map_of xs k" for k
    using mem srt strict_sorted_iff [of "map fst xs"] by (metis map_of_SomeD map_of_is_SomeI not_None_eq option.inject)
  then show ?thesis using srt that by blast
qed

lemma read_agree:
  assumes m: "kv_holds kv db m" and m': "kv_holds kv' db' m'" and eq: "\<And>k. k \<in> row_keys t r \<Longrightarrow> m' k = m k"
  shows "read_at_snapshot_uncached kv' cm db' t r s = read_at_snapshot_uncached kv cm db t r s"
proof -
  let ?p = "version_index_prefix t r"
  obtain xs where xs: "\<And>k. m (?p @ k) = map_of xs k" "sorted_wrt (<) (map fst xs)" using prefix_entries [OF m] by blast
  have xs': "\<And>k. m' (?p @ k) = map_of xs k" using xs(1) eq by (simp add: row_keys_def)
  have keys: "m' (data_key t r) = m (data_key t r)" "\<And>ts. m' (version_key t r ts) = m (version_key t r ts)" using eq by (simp_all add: row_keys_def)
  have conv: "(\<lambda>(k, v). if is_utf8 k \<and> starts_with ?p k then f k v else None) = (\<lambda>(k, v). if starts_with ?p k then (if is_utf8 k then f k v else None) else None)"
    for f :: "bytes \<Rightarrow> bytes \<Rightarrow> (u64 \<times> bool) option" by (auto simp: fun_eq_iff)
  show ?thesis unfolding read_at_snapshot_uncached_def conv first_entry_prefix [OF m xs] first_entry_prefix [OF m' xs' xs(2)]
      has_any_entries [OF m xs] has_any_entries [OF m' xs' xs(2)] get_version_by_exact_timestamp_def using m m' keys by (simp split: option.splits)
qed

lemma other_row_keys:
  assumes "table_name t" "table_name t'" "(t, r) \<noteq> (t', r')"
  shows "data_key t' r' \<notin> row_keys t r" "version_key t' r' ts \<notin> row_keys t r" "version_index_key t' r' ts \<notin> row_keys t r"
proof -
  show "data_key t' r' \<notin> row_keys t r" using assms key_inj(1) [of t' t] by (auto simp: row_keys_def)
  show "version_key t' r' ts \<notin> row_keys t r" using assms key_inj(2) [of t' t] by (auto simp: row_keys_def)
  show "version_index_key t' r' ts \<notin> row_keys t r" using assms key_inj(3) [of t t' r _ r' ts] unfolding row_keys_def by (auto dest: sym)
qed

section \<open>Properties\<close>

text \<open>
  C13. A snapshot read returns the newest version at or before the snapshot, whether that version is
  stored or elided; a row with no versions is read from its data key, unless a bulk-load marker
  says that it was loaded after the snapshot.
\<close>

theorem snapshot_read_newest:
  assumes "kv_holds kv db m" "chain m t r h elided" "table_name t"
  shows "read_at_snapshot_uncached kv cm db t r s = Inr (
     if h \<noteq> [] then newest h s
     else case covering_ts cm t r of Some marker \<Rightarrow> if s < marker then None else m (data_key t r) | None \<Rightarrow> m (data_key t r))"
  using read_history [OF assms] read_no_history [of kv db m t r elided] assms by (cases h) simp_all

definition two_versions :: "(bytes \<times> bytes) list" where
  "two_versions = list_db [BPut (version_key [0x61] 1 9) [7], BPut (version_index_key [0x61] 1 9) (encode_version_index_value 9 False),
     BPut (version_index_key [0x61] 1 10) (encode_version_index_value 10 True), BPut (data_key [0x61] 1) [8]]"

lemma two_versions_sorted: "list_sorted two_versions"
  by (simp add: two_versions_def list_db_sound)

lemma two_versions_content: "map_of two_versions = (\<lambda>k. None)(version_key [0x61] 1 9 := Some [7],
   version_index_key [0x61] 1 9 := Some (encode_version_index_value 9 False),
   version_index_key [0x61] 1 10 := Some (encode_version_index_value 10 True), data_key [0x61] 1 := Some [8])"
  by (simp add: two_versions_def list_db_sound)

lemma two_versions_chain: "chain (map_of two_versions) [0x61] 1 [(10, [8]), (9, [7])] True"
proof -
  have a: "table_name [0x61]" by (simp add: table_name_def is_utf8_ascii)
  have "chain (\<lambda>k. None) [0x61] 1 [] False" by (simp add: chain_def history_ok_def chain_index_def)
  then have "chain ((\<lambda>k. None)(data_key [0x61] 1 := Some [7], version_key [0x61] 1 9 := Some [7], version_index_key [0x61] 1 9 := Some (encode_version_index_value 9 False)))
      [0x61] 1 [(9, [7])] False"
    using chain_append(1) [OF _ a, of "\<lambda>k. None" 1 "[]" 9 "[7]"] by simp
  from chain_append(2) [OF this a, of 10 "[8]"] show ?thesis unfolding two_versions_content
    by (rule iffD1 [OF chain_agree, rotated]) simp_all
qed

theorem snapshot_read_newest_witness:
  "read_at_snapshot_uncached list_kv markers_new two_versions [0x61] 1 9 = Inr (Some [7])
   \<and> read_at_snapshot_uncached list_kv markers_new two_versions [0x61] 1 10 = Inr (Some [8])
   \<and> read_at_snapshot_uncached list_kv markers_new two_versions [0x61] 1 8 = Inr None"
proof -
  have "table_name [0x61]" by (simp add: table_name_def is_utf8_ascii)
  from snapshot_read_newest [OF list_kv_holds [OF two_versions_sorted] two_versions_chain this, of markers_new]
  show ?thesis by (simp add: newest_def)
qed

subsection \<open>The linear reader\<close>

definition linear_ts :: "bytes \<Rightarrow> bytes \<Rightarrow> u64 option" where
  "linear_ts p k = (if is_utf8 k \<and> starts_with p k then parse_u64 (case cut_last k of Some (_, ts) \<Rightarrow> ts | None \<Rightarrow> k) else None)"

lemma linear_step_ts: "linear_step p s e best = (case linear_ts p (fst e) of
     Some ts \<Rightarrow> if ts \<le> s \<and> (case best of None \<Rightarrow> True | Some (b, _) \<Rightarrow> b < ts) then Some (ts, snd e) else best | None \<Rightarrow> best)"
  by (simp add: linear_step_def linear_ts_def)

lemma linear_scan_fold: "linear_scan p s (map Inr es) best = Inr (fold (linear_step p s) es best)"
  by (induction es arbitrary: best) simp_all

lemma linear_best:
  "(case fold (linear_step p s) es best of
      None \<Rightarrow> best = None \<and> (\<forall>e\<in>set es. \<forall>ts. linear_ts p (fst e) = Some ts \<longrightarrow> \<not> ts \<le> s)
    | Some (ts, v) \<Rightarrow> (best = Some (ts, v) \<or> (\<exists>e\<in>set es. linear_ts p (fst e) = Some ts \<and> ts \<le> s \<and> snd e = v))
        \<and> (\<forall>b. best = Some b \<longrightarrow> fst b \<le> ts) \<and> (\<forall>e\<in>set es. \<forall>ts'. linear_ts p (fst e) = Some ts' \<and> ts' \<le> s \<longrightarrow> ts' \<le> ts))"
proof (induction es arbitrary: best)
  case Nil
  then show ?case by (auto split: option.splits)
next
  case (Cons e es)
  have "linear_step p s e best = best \<and> (\<forall>ts. linear_ts p (fst e) = Some ts \<and> ts \<le> s \<longrightarrow> (\<exists>b. best = Some b \<and> ts \<le> fst b))
      \<or> (\<exists>ts. linear_ts p (fst e) = Some ts \<and> ts \<le> s \<and> linear_step p s e best = Some (ts, snd e) \<and> (\<forall>b. best = Some b \<longrightarrow> fst b < ts))"
    by (auto simp: linear_step_ts not_less split: option.splits)
  then show ?case using Cons [of "linear_step p s e best"] by (auto split: option.splits prod.splits)
qed

lemma is_utf8_version_key: "is_utf8 t \<Longrightarrow> is_utf8 (version_key t r ts)"
proof -
  have "is_utf8 (ascii ''v:'')" by (rule is_utf8_ascii) (simp add: ascii_def)
  moreover assume "is_utf8 t"
  ultimately show ?thesis unfolding version_key_def version_prefix_def by (intro is_utf8_append) simp_all
qed

lemma linear_ts_version_key: "is_utf8 t \<Longrightarrow> linear_ts (version_prefix t r) (version_key t r ts) = Some ts"
proof -
  have "cut_last (version_key t r ts) = Some (ascii ''v:'' @ t @ [colon] @ u64_text r, u64_text ts)"
    unfolding cut_last_Some by (simp add: version_key_def version_prefix_def)
  then show "is_utf8 t \<Longrightarrow> ?thesis" using is_utf8_version_key [of t r ts] by (simp add: linear_ts_def) (simp add: version_key_def)
qed

text \<open>
  C21. The indexed reader returns what the reader that walks over the whole store returns, for a row
  with at least one version whose versions are all stored (none elided) and indexed, and that has no other version keys.
\<close>

theorem indexed_read_is_linear_read:
  assumes m: "kv_holds kv db m" and c: "chain m t r h False" and t: "table_name t" and ne: "h \<noteq> []"
    and exact: "\<And>k. m (version_prefix t r @ k) = map_of (map (\<lambda>e. (u64_text (fst e), snd e)) h) k"
  shows "read_at_snapshot_linear kv km db t r s = map_sum id (open_opt km) (read_at_snapshot_uncached kv cm db t r s)"
proof -
  let ?p = "version_prefix t r"
  have u: "is_utf8 t" and ok: "history_ok h" using t c by (simp_all add: table_name_def chain_def)
  obtain es where es: "kv_scan kv db [] = map Inr es" "\<And>k v. (k, v) \<in> set es \<longleftrightarrow> m k = Some v" using m unfolding kv_holds_def by fastforce
  have inj: "map_of (map (\<lambda>e. (u64_text (fst e), snd e)) h) k = Some v \<longleftrightarrow> (\<exists>ts. k = u64_text ts \<and> (ts, v) \<in> set h)" for k v
  proof -
    have "distinct (map fst (map (\<lambda>e. (u64_text (fst e), snd e)) h))" using history_distinct [OF ok] by (simp add: distinct_map comp_def inj_on_def)
    then show ?thesis unfolding map_of_eq_Some_iff [OF \<open>distinct _\<close>] by force
  qed
  have stored: "(\<exists>e\<in>set es. linear_ts ?p (fst e) = Some ts \<and> snd e = v) \<longleftrightarrow> (ts, v) \<in> set h" for ts v
  proof
    assume "\<exists>e\<in>set es. linear_ts ?p (fst e) = Some ts \<and> snd e = v"
    then obtain k where k: "(k, v) \<in> set es" "linear_ts ?p k = Some ts" by auto
    then obtain x where x: "k = ?p @ x" by (auto simp: linear_ts_def starts_with_iff split: if_splits)
    then obtain ts' where "x = u64_text ts'" "(ts', v) \<in> set h" using k(1) es(2) exact inj by simp blast
    then show "(ts, v) \<in> set h" using k(2) x linear_ts_version_key [OF u, of r ts'] by (simp add: version_key_def)
  next
    assume "(ts, v) \<in> set h"
    then have "(version_key t r ts, v) \<in> set es" using es(2) exact inj by (auto simp: version_key_def)
    then show "\<exists>e\<in>set es. linear_ts ?p (fst e) = Some ts \<and> snd e = v" using linear_ts_version_key [OF u] by force
  qed
  have "map_option snd (fold (linear_step ?p s) es None) = newest h s"
  proof (cases "fold (linear_step ?p s) es None")
    case None
    then have "find (\<lambda>e. fst e \<le> s) h = None" using linear_best [where p = ?p and s = s and es = es and best = None] stored unfolding find_None_iff by fastforce
    then show ?thesis using None by (simp add: newest_def)
  next
    case (Some b)
    obtain ts v where b: "b = (ts, v)" by (cases b)
    then have lb: "\<exists>e\<in>set es. linear_ts ?p (fst e) = Some ts \<and> ts \<le> s \<and> snd e = v"
        "\<And>e ts'. e \<in> set es \<Longrightarrow> linear_ts ?p (fst e) = Some ts' \<Longrightarrow> ts' \<le> s \<Longrightarrow> ts' \<le> ts"
      using linear_best [where p = ?p and s = s and es = es and best = None] Some by simp_all
    then have mx: "(ts, v) \<in> set h" "ts \<le> s" using stored [of ts v] by blast+
    have mx3: "fst d \<le> ts" if "d \<in> set h" "fst d \<le> s" for d
      using stored [of "fst d" "snd d"] that lb(2) by auto
    from mx obtain e where e: "find (\<lambda>e. fst e \<le> s) h = Some e" by (cases "find (\<lambda>e. fst e \<le> s) h") (auto simp: find_None_iff)
    then have "e \<in> set h" "fst e \<le> s" unfolding find_Some_iff by auto
    then have "fst e = ts" using find_newest [OF ok e mx(1)] mx mx3 by (simp add: order.antisym)
    then have "snd e = v" using \<open>e \<in> set h\<close> mx(1) history_distinct [OF ok] by (metis eq_key_imp_eq_value prod.collapse)
    then show ?thesis using Some b e by (simp add: newest_def)
  qed
  then show ?thesis using read_history [OF m c t ne, of cm s] es(1)
    by (simp add: read_at_snapshot_linear_def linear_scan_fold)
qed

definition stored_versions :: "(bytes \<times> bytes) list" where
  "stored_versions = list_db [BPut (data_key [0x61] 1) [8], BPut (version_key [0x61] 1 9) [8], BPut (version_index_key [0x61] 1 9) (encode_version_index_value 9 False)]"

theorem indexed_read_is_linear_read_witness:
  "read_at_snapshot_linear list_kv None stored_versions [0x61] 1 9 = map_sum id (open_opt None) (read_at_snapshot_uncached list_kv markers_new stored_versions [0x61] 1 9)"
proof -
  have a: "table_name [0x61]" by (simp add: table_name_def is_utf8_ascii)
  have m: "map_of stored_versions = (\<lambda>k. None)(data_key [0x61] 1 := Some [8], version_key [0x61] 1 9 := Some [8],
      version_index_key [0x61] 1 9 := Some (encode_version_index_value 9 False))" by (simp add: stored_versions_def list_db_sound)
  have "chain (\<lambda>k. None) [0x61] 1 [] False" by (simp add: chain_def history_ok_def chain_index_def)
  from chain_append(1) [OF this a, of 9 "[8]"] have c: "chain (map_of stored_versions) [0x61] 1 [(9, [8])] False" by (simp add: m)
  have e: "map_of stored_versions (version_prefix [0x61] 1 @ k) = map_of (map (\<lambda>e. (u64_text (fst e), snd e)) [(9, [8])]) k" for k
  proof -
    have "version_prefix [0x61] 1 @ k \<noteq> version_index_key [0x61] 1 9" "version_prefix [0x61] 1 @ k \<noteq> data_key [0x61] 1"
      by (simp_all add: version_prefix_def version_index_key_def version_index_prefix_def data_key_def data_prefix_def ascii_def)
    moreover have "version_prefix [0x61] 1 @ k = version_key [0x61] 1 9 \<longleftrightarrow> k = u64_text 9" by (simp add: version_key_def)
    ultimately show ?thesis by (simp add: m)
  qed
  show ?thesis by (rule indexed_read_is_linear_read [OF list_kv_holds c a _ e]) (simp_all add: stored_versions_def list_db_sound)
qed

subsection \<open>The cache\<close>

definition cache_ok :: "'db kv \<Rightarrow> 'db \<Rightarrow> snapshot_manager \<Rightarrow> bool" where
  "cache_ok kv db sm \<longleftrightarrow> (\<forall>t r s g v. map_of (sm_cache sm) (t, r, s) = Some (g, v) \<longrightarrow> g \<le> table_cache_generation sm t
     \<and> (g = table_cache_generation sm t \<longrightarrow> (\<exists>x. read_at_snapshot_uncached kv (sm_copy_markers sm) db t r s = Inr x \<and> v = open_opt (sm_key_manager sm) x)))"

lemma below_max_less: "x < - 1 \<Longrightarrow> x < x + 1" for x :: u64
proof -
  assume "x < - 1"
  then have "1 + x \<noteq> 0" by (metis add.commute eq_neg_iff_add_eq_0 less_irrefl)
  then show "x < x + 1" using unatSuc [of x] by (simp add: word_less_nat_alt add.commute)
qed

lemma generation_bump: "table_cache_generation (bump_table_cache_generation t sm) t' = (if t' = t then table_cache_generation sm t + 1 else table_cache_generation sm t')"
  by (simp add: table_cache_generation_def bump_table_cache_generation_def update_conv)

lemma write_version_content:
  assumes "kv_writes kv" "kv_holds kv db m" "write_version kv t r ts v db sm = ((db', sm'), Inr ())"
  shows "\<exists>stored. seal (sm_key_manager sm) v = Inr stored \<and> sm' = invalidate_cache_for_row t sm
     \<and> kv_holds kv db' (m(version_key t r ts := Some stored, version_index_key t r ts := Some (to_be_bytes 8 ts)))"
proof -
  obtain stored db1 where w: "seal (sm_key_manager sm) v = Inr stored" "kv_write kv db [BPut (version_key t r ts) stored] = Inr db1"
      "kv_write kv db1 [BPut (version_index_key t r ts) (to_be_bytes 8 ts)] = Inr db'" "sm' = invalidate_cache_for_row t sm"
    using assms(3) by (auto simp: write_version_def create_reverse_timestamp_index_def split: sum.splits)
  from kv_write_holds [OF assms(1) assms(2) w(2)] have "kv_holds kv db1 (m(version_key t r ts := Some stored))" by simp
  from kv_write_holds [OF assms(1) this w(3)] show ?thesis using w by simp
qed

text \<open>
  C22. Cached snapshot reads are transparent: a read returns what the uncached read returns, errors
  included, and leaves a sound cache; writing a version keeps the cache sound, because every entry
  of the table carries an older generation afterwards. Eviction may drop any entry.
\<close>

theorem cached_reads_transparent:
  assumes c: "cache_ok kv db sm" and evict: "\<And>c k v. map_of (evict c) k = Some v \<Longrightarrow> map_of c k = Some v"
  shows "snd (read_at_snapshot kv evict db t r s sm) = map_sum id (open_opt (sm_key_manager sm)) (read_at_snapshot_uncached kv (sm_copy_markers sm) db t r s)
    \<and> cache_ok kv db (fst (read_at_snapshot kv evict db t r s sm))
    \<and> (kv_writes kv \<and> kv_holds kv db m \<and> table_name t' \<and> (\<forall>e\<in>set (sm_cache sm). table_name (fst (fst e))) \<and> sm_cache_enabled sm
        \<and> table_cache_generation sm t' < - 1 \<and> write_version kv t' r' ts v db sm = ((db', sm'), Inr ())
        \<longrightarrow> cache_ok kv db' sm')"
proof (intro conjI impI)
  let ?u = "read_at_snapshot_uncached kv (sm_copy_markers sm) db t r s"
  have hit: "\<exists>x. ?u = Inr x \<and> y = open_opt (sm_key_manager sm) x" if "map_of (sm_cache sm) (t, r, s) = Some (table_cache_generation sm t, y)" for y
    using that c unfolding cache_ok_def by blast
  then show "snd (read_at_snapshot kv evict db t r s sm) = map_sum id (open_opt (sm_key_manager sm)) ?u"
    by (cases ?u) (fastforce simp: read_at_snapshot_def Let_def split: option.splits prod.splits if_splits)+
  have put: "cache_ok kv db (cache_put evict (t, r, s) (table_cache_generation sm t, open_opt (sm_key_manager sm) x) sm)" if "?u = Inr x" for x
    unfolding cache_ok_def
  proof (intro allI impI)
    fix t' r' s' g v
    let ?sm = "cache_put evict (t, r, s) (table_cache_generation sm t, open_opt (sm_key_manager sm) x) sm"
    assume "map_of (sm_cache ?sm) (t', r', s') = Some (g, v)"
    then have "map_of (evict (AList.update (t, r, s) (table_cache_generation sm t, open_opt (sm_key_manager sm) x) (sm_cache sm))) (t', r', s') = Some (g, v)"
      by (simp add: cache_put_def)
    from evict [OF this] have "map_of (AList.update (t, r, s) (table_cache_generation sm t, open_opt (sm_key_manager sm) x) (sm_cache sm)) (t', r', s') = Some (g, v)" .
    moreover have gen: "table_cache_generation ?sm t' = table_cache_generation sm t'" for t' by (simp add: cache_put_def table_cache_generation_def)
    ultimately show "g \<le> table_cache_generation ?sm t' \<and> (g = table_cache_generation ?sm t' \<longrightarrow>
        (\<exists>x. read_at_snapshot_uncached kv (sm_copy_markers ?sm) db t' r' s' = Inr x \<and> v = open_opt (sm_key_manager ?sm) x))"
      unfolding gen using c that unfolding cache_ok_def by (auto simp: update_conv cache_put_def split: if_splits)
  qed
  show "cache_ok kv db (fst (read_at_snapshot kv evict db t r s sm))"
    using c put by (auto simp: read_at_snapshot_def Let_def split: option.splits sum.splits)
next
  assume a: "kv_writes kv \<and> kv_holds kv db m \<and> table_name t' \<and> (\<forall>e\<in>set (sm_cache sm). table_name (fst (fst e))) \<and> sm_cache_enabled sm
        \<and> table_cache_generation sm t' < - 1 \<and> write_version kv t' r' ts v db sm = ((db', sm'), Inr ())"
  then obtain stored where st: "sm' = bump_table_cache_generation t' sm"
      "kv_holds kv db' (m(version_key t' r' ts := Some stored, version_index_key t' r' ts := Some (to_be_bytes 8 ts)))"
    using write_version_content [of kv db m t' r' ts v sm db' sm'] by (auto simp: invalidate_cache_for_row_def)
  have b: "kv_holds kv db m" "table_name t'" "\<And>e. e \<in> set (sm_cache sm) \<Longrightarrow> table_name (fst (fst e))" "table_cache_generation sm t' < - 1" using a by blast+
  have lt: "table_cache_generation sm t' < table_cache_generation sm t' + 1" by (rule below_max_less [OF b(4)])
  show "cache_ok kv db' sm'" unfolding cache_ok_def
  proof (intro allI impI)
    fix t r s g w
    assume e: "map_of (sm_cache sm') (t, r, s) = Some (g, w)"
    then have e': "map_of (sm_cache sm) (t, r, s) = Some (g, w)" by (simp add: st bump_table_cache_generation_def)
    then have t: "table_name t" using b(3) [OF map_of_SomeD] by fastforce
    have old: "g \<le> table_cache_generation sm t" using c e' unfolding cache_ok_def by blast
    have same: "read_at_snapshot_uncached kv cm db' t r s = read_at_snapshot_uncached kv cm db t r s" if "t \<noteq> t'" for cm
    proof (rule read_agree [OF _ st(2)])
      show "kv_holds kv db m" by (rule b(1))
      fix k assume "k \<in> row_keys t r"
      then have "k \<noteq> version_key t' r' ts" "k \<noteq> version_index_key t' r' ts" using other_row_keys [OF t b(2), of r r'] that by auto
      then show "(m(version_key t' r' ts := Some stored, version_index_key t' r' ts := Some (to_be_bytes 8 ts))) k = m k" by simp
    qed
    show "g \<le> table_cache_generation sm' t \<and> (g = table_cache_generation sm' t \<longrightarrow>
        (\<exists>x. read_at_snapshot_uncached kv (sm_copy_markers sm') db' t r s = Inr x \<and> w = open_opt (sm_key_manager sm') x))"
    proof (cases "t = t'")
      case True
      then show ?thesis using old lt by (auto simp: st generation_bump)
    next
      case False
      then show ?thesis using c e' same unfolding cache_ok_def by (auto simp: st generation_bump) (auto simp: bump_table_cache_generation_def)
    qed
  qed
qed

definition manager_plain :: snapshot_manager where
  "manager_plain = \<lparr>sm_cache = [], sm_cache_gen = [], sm_cache_enabled = True, sm_persist_metadata = True, sm_gc_low_watermark = 0,
     sm_copy_markers = markers_new, sm_elide_latest_version = False, sm_maybe_elided_rows = False, sm_key_manager = None\<rparr>"

theorem cached_reads_transparent_witness:
  "snd (read_at_snapshot list_kv id two_versions [0x61] 1 9 manager_plain) = Inr (Some [7])
   \<and> cache_ok list_kv two_versions (fst (read_at_snapshot list_kv id two_versions [0x61] 1 9 manager_plain))
   \<and> cache_ok list_kv (fst (fst (write_version list_kv [0x61] 1 11 [9] two_versions manager_plain))) (snd (fst (write_version list_kv [0x61] 1 11 [9] two_versions manager_plain)))"
proof -
  have a: "table_name [0x61]" by (simp add: table_name_def is_utf8_ascii)
  have m: "kv_holds list_kv two_versions (map_of two_versions)" by (rule list_kv_holds [OF two_versions_sorted])
  have c: "cache_ok list_kv two_versions manager_plain" by (simp add: cache_ok_def manager_plain_def)
  have r: "read_at_snapshot_uncached list_kv markers_new two_versions [0x61] 1 9 = Inr (Some [7])"
    using read_history [OF m two_versions_chain a, of markers_new 9] by (simp add: newest_def)
  obtain db' sm' where w: "write_version list_kv [0x61] 1 11 [9] two_versions manager_plain = ((db', sm'), Inr ())"
    by (simp add: write_version_def list_kv_def create_reverse_timestamp_index_def seal_def manager_plain_def)
  have "(0::u64) < - 1" by (simp add: word_gt_0)
  then show ?thesis
    using cached_reads_transparent [OF c, of id "[0x61]" 1 9 "map_of two_versions" "[0x61]" 1 11 "[9]" db' sm'] m a w list_kv_writes r
    by (simp add: manager_plain_def open_opt_def open_owned_def open_inner_def table_cache_generation_def)
qed

subsection \<open>Markers\<close>

text \<open>The flag of the fast exit is set as soon as there is a marker.\<close>

definition markers_ok :: "copy_markers \<Rightarrow> bool" where
  "markers_ok cm \<longleftrightarrow> cm_any cm \<or> cm_by_table cm = []"

text \<open>
  The durable key and value of a bulk-load marker parse back to the marker, for every table
  name, names with colons included; loading it, strictly or not, makes exactly the rows of its
  range covered at its timestamp, when no marker of that table covered them before.
\<close>

theorem marker_roundtrip:
  assumes "is_utf8 t" "markers_ok cm"
  shows "parse_marker (marker_key t f l) (to_be_bytes 8 ts) = Some (t, f, l, ts)
    \<and> (\<forall>r. covering_ts cm t r = None \<longrightarrow>
         covering_ts (load_record (marker_key t f l) (to_be_bytes 8 ts) cm) t r = (if f \<le> r \<and> r \<le> l then Some ts else None))
    \<and> (load_record_strict (marker_key t f l) (to_be_bytes 8 ts) cm = Inr (load_record (marker_key t f l) (to_be_bytes 8 ts) cm) \<longleftrightarrow> f \<le> l \<and> t \<noteq> [])"
proof -
  have v: "is_utf8 (ascii ''vmeta:'')" by (rule is_utf8_ascii) (simp add: ascii_def)
  have u: "is_utf8 (marker_key t f l)" unfolding marker_key_def by (intro is_utf8_append assms(1) v) simp_all
  have cl: "cut_last (t @ [colon] @ pad20 f @ [colon] @ pad20 l) = Some (t @ [colon] @ pad20 f, pad20 l)" "cut_last (t @ [colon] @ pad20 f) = Some (t, pad20 f)"
    by (simp_all add: cut_last_Some)
  have p20: "parse_u64 (pad20 n) = Some n" for n
  proof -
    have "pad20 n \<noteq> []" using pad20_facts(1) [of n] by (metis list.size(3) zero_neq_numeral)
    then have "(case pad20 n of c # r \<Rightarrow> if c = 0x2B then r else pad20 n | [] \<Rightarrow> pad20 n) = pad20 n"
      using digit_not_sign [OF pad20_facts(2), of n] by (auto split: list.splits)
    then show ?thesis using \<open>pad20 n \<noteq> []\<close> unsigned_less [of n, where ?'a = nat] by (simp add: parse_u64_def)
  qed
  have rt: "from_be_bytes (to_be_bytes 8 ts) = ts" by (rule from_to_be_bytes) simp
  have pm: "parse_marker (marker_key t f l) (to_be_bytes 8 ts) = Some (t, f, l, ts)"
    using u unfolding parse_marker_def marker_key_def strip_prefix_append by (simp only: not_True_eq_False if_False bind.bind_lunit prod.case cl p20) (simp add: rt)
  have "covering_ts (marker_insert t f l ts cm) t r = (if f \<le> r \<and> r \<le> l then Some ts else None)" if "covering_ts cm t r = None" for r
  proof -
    have "find p (xs @ [x]) = (case find p xs of None \<Rightarrow> if p x then Some x else None | y \<Rightarrow> y)" for p xs and x :: interval
      by (induction xs) auto
    then show ?thesis using that assms(2) by (auto simp: markers_ok_def covering_ts_def marker_insert_def update_conv split: option.splits Option.bind_splits)
  qed
  then show ?thesis using pm by (auto simp: load_record_def load_record_strict_def)
qed

theorem marker_roundtrip_witness:
  "parse_marker (marker_key [0x61, colon, 0x62] 3 9) (to_be_bytes 8 (7 :: u64)) = Some ([0x61, colon, 0x62], 3, 9, 7)
   \<and> covering_ts (load_record (marker_key [0x61, colon, 0x62] 3 9) (to_be_bytes 8 (7 :: u64)) markers_new) [0x61, colon, 0x62] 5 = Some 7
   \<and> load_record_strict (marker_key [0x61, colon, 0x62] 3 9) (to_be_bytes 8 (7 :: u64)) markers_new = Inr (load_record (marker_key [0x61, colon, 0x62] 3 9) (to_be_bytes 8 (7 :: u64)) markers_new)"
proof -
  have a: "is_utf8 [0x61, colon, 0x62]" by (simp add: is_utf8_ascii)
  have m: "markers_ok markers_new" "covering_ts markers_new t r = None" for t r by (simp_all add: markers_ok_def markers_new_def covering_ts_def)
  show ?thesis using marker_roundtrip [OF a m(1), of 3 9 7] m(2) by simp
qed

subsection \<open>Failures\<close>

text \<open>
  A failing iterator is taken for a row without versions: when the entries cannot be read, a
  snapshot read returns the current row, at every snapshot, and reports no error.
\<close>

theorem failed_seek_reads_current_row:
  assumes "\<And>s. \<exists>e es. kv_scan kv db s = Inl e # es" "covering_ts cm t r = None"
  shows "read_at_snapshot_uncached kv cm db t r s = kv_get kv db (data_key t r)"
proof -
  have "first_entry kv db s = None" for s using assms(1) [of s] by (auto simp: first_entry_def)
  then show ?thesis using assms(2) by (simp add: read_at_snapshot_uncached_def has_any_version_index_def)
qed

theorem failed_seek_reads_current_row_witness:
  "read_at_snapshot_uncached (list_kv\<lparr>kv_scan := \<lambda>db s. [Inl ''io'']\<rparr>) markers_new two_versions [0x61] 1 9 = Inr (Some [8])
   \<and> read_at_snapshot_uncached list_kv markers_new two_versions [0x61] 1 9 = Inr (Some [7])"
proof -
  have c: "covering_ts markers_new t r = None" for t r by (simp add: markers_new_def covering_ts_def)
  have "kv_get list_kv two_versions (data_key [0x61] 1) = Inr (Some [8])" by (simp add: list_kv_def two_versions_content)
  moreover have "table_name [0x61]" by (simp add: table_name_def is_utf8_ascii)
  ultimately show ?thesis
    using failed_seek_reads_current_row [of "list_kv\<lparr>kv_scan := \<lambda>db s. [Inl ''io'']\<rparr>" two_versions markers_new "[0x61]" 1 9] c
      read_history [OF list_kv_holds [OF two_versions_sorted] two_versions_chain, of markers_new 9]
    by (simp add: newest_def)
qed

text \<open>
  Elision is on only with the gate that protects elided rows: turning it on, when the sentinel
  can be written, arms the gate now and at every later opening of the database, elision on or off;
  when it cannot, elision stays off.
\<close>

theorem elision_arms_gate:
  assumes "kv_writes kv" "kv_holds kv db m" "sm_persist_metadata sm" "configure_elision kv True db sm = (db', sm')"
  shows "(sm_elide_latest_version sm' \<longrightarrow> sm_maybe_elided_rows sm' \<and> sm_maybe_elided_rows (snd (configure_elision kv e db' sm2))
            \<and> map_sum id sm_maybe_elided_rows (configure_elision_read_only kv db' sm2) \<noteq> Inr False)
    \<and> (\<not> sm_elide_latest_version sm' \<longrightarrow> db' = db \<and> (\<exists>err. kv_write kv db [BPut ELIDE_SENTINEL_KEY [1]] = Inl err))"
proof (cases "m ELIDE_SENTINEL_KEY")
  case None
  show ?thesis
  proof (cases "kv_write kv db [BPut ELIDE_SENTINEL_KEY [1]]")
    case (Inl err)
    then show ?thesis using assms None by (auto simp: configure_elision_def Let_def)
  next
    case (Inr db1)
    then have "kv_holds kv db1 (m(ELIDE_SENTINEL_KEY := Some [1]))" using kv_write_holds [OF assms(1,2) Inr] by simp
    then show ?thesis using assms None Inr by (auto simp: configure_elision_def configure_elision_read_only_def Let_def split: sum.splits)
  qed
next
  case (Some b)
  then show ?thesis using assms by (auto simp: configure_elision_def configure_elision_read_only_def Let_def split: sum.splits)
qed

theorem elision_arms_gate_witness:
  "sm_elide_latest_version (snd (configure_elision list_kv True [] manager_plain))
   \<and> sm_maybe_elided_rows (snd (configure_elision list_kv False (fst (configure_elision list_kv True [] manager_plain)) manager_plain))"
proof -
  have h: "kv_holds list_kv [] (map_of [])" by (rule list_kv_holds) (simp add: list_sorted_def)
  have e: "sm_elide_latest_version (snd (configure_elision list_kv True [] manager_plain))"
    by (simp add: configure_elision_def list_kv_def manager_plain_def)
  show ?thesis
    using elision_arms_gate [OF list_kv_writes h, of manager_plain "fst (configure_elision list_kv True [] manager_plain)"
        "snd (configure_elision list_kv True [] manager_plain)" False manager_plain] e
    by (simp add: manager_plain_def)
qed

end
