(* ===== verification/Version_Gc.thy ===== *)
theory Version_Gc
  imports Version_Store Conflict_Registry
begin

text \<open>
  The garbage collector of row versions (\<^verbatim>\<open>src/src/storage/version_gc.rs\<close>): time anchors, the
  retention horizon and its clamping by pinned snapshots and branches, one bounded pass over the
  version keys, and a cycle. The clock and the list of branches are arguments, and a cycle takes
  the registry twice, as it looks at the pins before and after it publishes the watermark; readers
  pin and unpin between the two looks. Counts are natural numbers.
\<close>

section \<open>State\<close>

definition LOW_WATERMARK_KEY :: bytes where
  "LOW_WATERMARK_KEY = ascii ''vgc:low_watermark''"

definition ANCHOR_PREFIX :: bytes where
  "ANCHOR_PREFIX = ascii ''vgc:anchor:''"

definition DELETE_BATCH_KEYS :: nat where
  "DELETE_BATCH_KEYS = 1024"

definition SCAN_BOUND_FACTOR :: nat where
  "SCAN_BOUND_FACTOR = 8"

definition MAX_MEMORY_ANCHORS :: nat where
  "MAX_MEMORY_ANCHORS = 4096"

record version_gc =
  vg_retention_secs :: "u64 option"
  vg_max_versions_per_cycle :: nat
  vg_timestamp :: u64
  vg_cursor :: "bytes option"
  vg_memory_anchors :: "(int \<times> u64) list"

record gc_stats =
  gs_versions_deleted :: nat
  gs_keys_scanned :: nat
  gs_finished_pass :: bool
  gs_horizon :: "u64 option"

definition gc_recover :: "'db kv \<Rightarrow> 'db \<Rightarrow> version_gc \<Rightarrow> snapshot_manager \<Rightarrow> version_gc \<times> snapshot_manager" where
  "gc_recover kv db vg sm = (case kv_get kv db LOW_WATERMARK_KEY of
       Inr (Some raw) \<Rightarrow> if length raw < 8 then (vg, sm) else
         let w = from_be_bytes (take 8 raw) in (vg\<lparr>vg_timestamp := max (vg_timestamp vg) w\<rparr>, sm\<lparr>sm_gc_low_watermark := w\<rparr>)
     | _ \<Rightarrow> (vg, sm))"

section \<open>The horizon\<close>

definition anchor_key :: "int \<Rightarrow> bytes" where
  "anchor_key secs = ANCHOR_PREFIX @ pad20 (word_of_int (max secs 0))"

definition parse_anchor_secs :: "bytes \<Rightarrow> int option" where
  "parse_anchor_secs key = (if length key < length ANCHOR_PREFIX then None else
     let s = drop (length ANCHOR_PREFIX) key in if is_utf8 s then parse_int 64 s else None)"

definition record_time_anchor :: "'db kv \<Rightarrow> int \<Rightarrow> 'db \<Rightarrow> version_gc \<Rightarrow> 'db \<times> version_gc" where
  "record_time_anchor kv now db vg = (
     let anchors = vg_memory_anchors vg @ [(now, vg_timestamp vg)];
         vg' = vg\<lparr>vg_memory_anchors := drop (length anchors - MAX_MEMORY_ANCHORS) anchors\<rparr> in
     (case kv_write kv db [BPut (anchor_key now) (to_be_bytes 8 (vg_timestamp vg))] of Inr db' \<Rightarrow> db' | Inl _ \<Rightarrow> db, vg'))"

definition best_of :: "u64 option \<Rightarrow> u64 \<Rightarrow> u64 option" where
  "best_of best ts = Some (case best of None \<Rightarrow> ts | Some b \<Rightarrow> max b ts)"

definition max_snapshot_ts_at_or_before_wallclock :: "(u64 \<times> int) list \<Rightarrow> int \<Rightarrow> u64 option" where
  "max_snapshot_ts_at_or_before_wallclock snapshots cutoff =
     fold (\<lambda>(ts, secs) best. if secs \<le> cutoff then best_of best ts else best) snapshots None"

fun anchor_loop :: "int \<Rightarrow> (string + bytes \<times> bytes) list \<Rightarrow> (bytes \<times> u64) option \<Rightarrow> bytes list \<Rightarrow> string + (bytes \<times> u64) option \<times> bytes list" where
  "anchor_loop cutoff [] best stale = Inr (best, stale)"
| "anchor_loop cutoff (Inl e # es) best stale = Inl e"
| "anchor_loop cutoff (Inr (k, v) # es) best stale = (
     if \<not> starts_with ANCHOR_PREFIX k then Inr (best, stale)
     else case parse_anchor_secs k of
         None \<Rightarrow> anchor_loop cutoff es best stale
       | Some secs \<Rightarrow>
           if cutoff < secs then Inr (best, stale)
           else if length v < 8 then anchor_loop cutoff es best stale
           else anchor_loop cutoff es (Some (k, from_be_bytes (take 8 v))) (case best of None \<Rightarrow> stale | Some (k', _) \<Rightarrow> stale @ [k']))"

definition retention_horizon :: "'db kv \<Rightarrow> (u64 \<times> int) list \<Rightarrow> int \<Rightarrow> version_gc \<Rightarrow> 'db \<Rightarrow> 'db \<times> (string + u64 option)" where
  "retention_horizon kv snapshots cutoff vg db = (
     let best = fold (\<lambda>(secs, ts) best. if secs \<le> cutoff then best_of best ts else best) (vg_memory_anchors vg)
                  (max_snapshot_ts_at_or_before_wallclock snapshots cutoff) in
     case anchor_loop cutoff (kv_scan kv db ANCHOR_PREFIX) None [] of
       Inl e \<Rightarrow> (db, Inl e)
     | Inr (anchor, stale) \<Rightarrow>
         let best = (case anchor of None \<Rightarrow> best | Some (_, ts) \<Rightarrow> best_of best ts) in
         if stale = [] then (db, Inr best)
         else case kv_write kv db (map BDelete stale) of Inl e \<Rightarrow> (db, Inl e) | Inr db' \<Rightarrow> (db', Inr best))"

text \<open>\<open>branches\<close> is the result of the branch manager, when there is one.\<close>

definition clamp_horizon :: "registry \<Rightarrow> (string + (string \<times> u64) list) option \<Rightarrow> u64 \<Rightarrow> string + u64" where
  "clamp_horizon reg branches candidate = (
     let horizon = (case min_pinned_snapshot reg of Some p \<Rightarrow> min candidate p | None \<Rightarrow> candidate) in
     case branches of
       None \<Rightarrow> Inr horizon
     | Some listed \<Rightarrow> bind_result listed (\<lambda>bs. Inr (fold (\<lambda>(name, anchor) h. if name = ''main'' \<or> anchor = 0 then h else min h anchor) bs horizon)))"

section \<open>One pass over the versions\<close>

definition index_key_for :: "bytes \<Rightarrow> u64 \<Rightarrow> bytes" where
  "index_key_for prefix ts = ascii ''v_idx:'' @ drop 2 prefix @ pad20 (- 1 - ts)"

fun first_indexed :: "'db kv \<Rightarrow> 'db \<Rightarrow> bytes \<Rightarrow> u64 list \<Rightarrow> string + u64 option" where
  "first_indexed kv db prefix [] = Inr None"
| "first_indexed kv db prefix (ts # tss) = bind_result (kv_get kv db (index_key_for prefix ts))
     (\<lambda>v. if v \<noteq> None then Inr (Some ts) else first_indexed kv db prefix tss)"

definition max_of :: "u64 list \<Rightarrow> u64 option" where
  "max_of xs = (case xs of [] \<Rightarrow> None | x # xs \<Rightarrow> Some (fold max xs x))"

text \<open>The timestamps of the versions of a row that a pass deletes.\<close>

definition superseded :: "'db kv \<Rightarrow> u64 \<Rightarrow> 'db \<Rightarrow> bytes \<Rightarrow> u64 list \<Rightarrow> string + u64 list" where
  "superseded kv horizon db prefix versions = (
     if length versions \<le> 1 then Inr []
     else case max_of (filter (\<lambda>ts. ts \<le> horizon) versions) of
       None \<Rightarrow> Inr []
     | Some keep \<Rightarrow>
         bind_result (kv_get kv db (index_key_for prefix keep)) (\<lambda>v.
         bind_result (if v \<noteq> None then Inr None
             else first_indexed kv db prefix (rev (sort (filter (\<lambda>ts. ts \<le> horizon \<and> ts \<noteq> keep) versions)))) (\<lambda>keep_indexed.
         Inr (filter (\<lambda>ts. ts \<le> horizon \<and> ts \<noteq> keep \<and> Some ts \<noteq> keep_indexed) versions))))"

record 'db gc_run =
  gr_db :: 'db
  gr_batch :: "batch_op list"
  gr_deleted :: nat
  gr_scanned :: nat
  gr_prefix :: bytes
  gr_versions :: "u64 list"

definition gc_flush :: "'db kv \<Rightarrow> 'db gc_run \<Rightarrow> 'db gc_run \<times> (string + unit)" where
  "gc_flush kv st = (if gr_batch st = [] then (st, Inr ())
     else case kv_write kv (gr_db st) (gr_batch st) of
       Inl e \<Rightarrow> (st\<lparr>gr_batch := []\<rparr>, Inl e) | Inr db \<Rightarrow> (st\<lparr>gr_db := db, gr_batch := []\<rparr>, Inr ()))"

definition process_group :: "'db kv \<Rightarrow> u64 \<Rightarrow> 'db gc_run \<Rightarrow> 'db gc_run \<times> (string + unit)" where
  "process_group kv horizon st = (case superseded kv horizon (gr_db st) (gr_prefix st) (gr_versions st) of
       Inl e \<Rightarrow> (st, Inl e)
     | Inr tss \<Rightarrow>
         let batch = gr_batch st @ concat (map (\<lambda>ts. [BDelete (gr_prefix st @ u64_text ts), BDelete (index_key_for (gr_prefix st) ts)]) tss);
             st = st\<lparr>gr_batch := batch, gr_deleted := gr_deleted st + length tss, gr_versions := []\<rparr> in
         if DELETE_BATCH_KEYS \<le> length batch then gc_flush kv st else (st, Inr ()))"

definition version_ts :: "bytes \<Rightarrow> (bytes \<times> u64) option" where
  "version_ts k = (case cut_last k of None \<Rightarrow> None
     | Some (pre, suffix) \<Rightarrow> map_option (Pair (pre @ [colon])) (if is_utf8 suffix then parse_u64 suffix else None))"

fun collect_loop :: "'db kv \<Rightarrow> u64 \<Rightarrow> nat \<Rightarrow> nat \<Rightarrow> (string + bytes \<times> bytes) list \<Rightarrow> 'db gc_run \<Rightarrow> 'db gc_run \<times> (string + bytes option)" where
  "collect_loop kv horizon max_deletes budget [] st = (st, Inr None)"
| "collect_loop kv horizon max_deletes budget (Inl e # es) st = (st, Inl e)"
| "collect_loop kv horizon max_deletes budget (Inr (k, v) # es) st = (
     if \<not> starts_with (ascii ''v:'') k then (st, Inr None)
     else case version_ts k of
         None \<Rightarrow> collect_loop kv horizon max_deletes budget es st
       | Some (prefix, ts) \<Rightarrow>
           if prefix = gr_prefix st then
             collect_loop kv horizon max_deletes budget es (st\<lparr>gr_versions := gr_versions st @ [ts], gr_scanned := gr_scanned st + 1\<rparr>)
           else case process_group kv horizon st of
               (st, Inl e) \<Rightarrow> (st, Inl e)
             | (st, Inr _) \<Rightarrow>
                 if max_deletes \<le> gr_deleted st \<or> budget \<le> gr_scanned st then (st, Inr (Some k))
                 else collect_loop kv horizon max_deletes budget es
                   (st\<lparr>gr_prefix := prefix, gr_versions := gr_versions st @ [ts], gr_scanned := gr_scanned st + 1\<rparr>))"

definition collect_below :: "'db kv \<Rightarrow> u64 \<Rightarrow> version_gc \<Rightarrow> 'db \<Rightarrow> 'db \<times> version_gc \<times> (string + gc_stats)" where
  "collect_below kv horizon vg db = (
     let max_deletes = max (vg_max_versions_per_cycle vg) 1;
         budget = max (max_deletes * SCAN_BOUND_FACTOR) 65536;
         start = (case vg_cursor vg of Some k \<Rightarrow> k | None \<Rightarrow> ascii ''v:'');
         st = \<lparr>gr_db = db, gr_batch = [], gr_deleted = 0, gr_scanned = 0, gr_prefix = [], gr_versions = []\<rparr> in
     case collect_loop kv horizon max_deletes budget (kv_scan kv db start) st of
       (st, Inl e) \<Rightarrow> (gr_db st, vg, Inl e)
     | (st, Inr next_cursor) \<Rightarrow>
         (case (if next_cursor = None then process_group kv horizon st else (st, Inr ())) of
            (st, Inl e) \<Rightarrow> (gr_db st, vg, Inl e)
          | (st, Inr _) \<Rightarrow> (case gc_flush kv st of
                (st, Inl e) \<Rightarrow> (gr_db st, vg, Inl e)
              | (st, Inr _) \<Rightarrow> (gr_db st, vg\<lparr>vg_cursor := next_cursor\<rparr>,
                  Inr \<lparr>gs_versions_deleted = gr_deleted st, gs_keys_scanned = gr_scanned st, gs_finished_pass = next_cursor = None, gs_horizon = None\<rparr>))))"

section \<open>A cycle\<close>

definition idle_stats :: gc_stats where
  "idle_stats = \<lparr>gs_versions_deleted = 0, gs_keys_scanned = 0, gs_finished_pass = True, gs_horizon = None\<rparr>"

definition publish_watermark :: "'db kv \<Rightarrow> u64 \<Rightarrow> 'db \<Rightarrow> snapshot_manager \<Rightarrow> string + 'db \<times> snapshot_manager" where
  "publish_watermark kv horizon db sm = (if sm_gc_low_watermark sm < horizon
     then map_sum id (\<lambda>db. (db, sm\<lparr>sm_gc_low_watermark := horizon\<rparr>)) (kv_write kv db [BPut LOW_WATERMARK_KEY (to_be_bytes 8 horizon)])
     else Inr (db, sm))"

definition run_cycle_locked ::
  "'db kv \<Rightarrow> int \<Rightarrow> (u64 \<times> int) list \<Rightarrow> registry \<Rightarrow> registry \<Rightarrow> (string + (string \<times> u64) list) option \<Rightarrow> (string + (string \<times> u64) list) option
     \<Rightarrow> 'db \<Rightarrow> version_gc \<Rightarrow> snapshot_manager \<Rightarrow> 'db \<times> version_gc \<times> snapshot_manager \<times> (string + gc_stats)" where
  "run_cycle_locked kv now snapshots reg reg' branches branches' db vg sm = (case vg_retention_secs vg of
       None \<Rightarrow> (db, vg, sm, Inr idle_stats)
     | Some retention \<Rightarrow>
       (case retention_horizon kv snapshots (sint (word_of_int now - retention)) vg db of
          (db, Inl e) \<Rightarrow> (db, vg, sm, Inl e)
        | (db, Inr None) \<Rightarrow> (db, vg, sm, Inr idle_stats)
        | (db, Inr (Some retention_ts)) \<Rightarrow>
         (case clamp_horizon reg branches retention_ts of
            Inl e \<Rightarrow> (db, vg, sm, Inl e)
          | Inr horizon \<Rightarrow>
           (case publish_watermark kv horizon db sm of
              Inl e \<Rightarrow> (db, vg, sm, Inl e)
            | Inr (db, sm) \<Rightarrow>
             (case clamp_horizon reg' branches' horizon of
                Inl e \<Rightarrow> (db, vg, sm, Inl e)
              | Inr delete_horizon \<Rightarrow>
                  (case collect_below kv delete_horizon vg db of (db, vg, res) \<Rightarrow>
                     (db, vg, sm, map_sum id (\<lambda>stats. stats\<lparr>gs_horizon := Some delete_horizon\<rparr>) res)))))))"

definition run_cycle where
  "run_cycle kv now snapshots reg reg' branches branches' db vg sm =
     (let (db, vg) = record_time_anchor kv now db vg in run_cycle_locked kv now snapshots reg reg' branches branches' db vg sm)"

section \<open>What a pass may delete\<close>

text \<open>
  Relative to the content \<open>m\<close> at the start: a version at or below the horizon that is not indexed,
  or that has a newer indexed version at or below the horizon. The keys of such versions are
  spare, and a trimmed content lacks spare keys only.
\<close>

definition group_prefix :: "bytes \<Rightarrow> bool" where
  "group_prefix p \<longleftrightarrow> (\<exists>q. p = ascii ''v:'' @ q \<and> (q = [] \<or> (\<exists>q'. q = q' @ [colon])))"

definition expendable :: "(bytes \<Rightarrow> bytes option) \<Rightarrow> u64 \<Rightarrow> bytes \<Rightarrow> u64 \<Rightarrow> bool" where
  "expendable m horizon p ts \<longleftrightarrow> ts \<le> horizon
     \<and> (m (index_key_for p ts) \<noteq> None \<longrightarrow> (\<exists>ts'. ts < ts' \<and> ts' \<le> horizon \<and> m (index_key_for p ts') \<noteq> None))"

definition spare :: "(bytes \<Rightarrow> bytes option) \<Rightarrow> u64 \<Rightarrow> bytes \<Rightarrow> bool" where
  "spare m horizon k \<longleftrightarrow> (\<exists>p ts. group_prefix p \<and> expendable m horizon p ts \<and> (k = p @ u64_text ts \<or> k = index_key_for p ts))"

definition trimmed :: "(bytes \<Rightarrow> bytes option) \<Rightarrow> u64 \<Rightarrow> (bytes \<Rightarrow> bytes option) \<Rightarrow> bool" where
  "trimmed m horizon m' \<longleftrightarrow> (\<forall>k. m' k = m k \<or> m' k = None \<and> spare m horizon k)"

lemma index_key_for_eq:
  assumes "group_prefix p" "group_prefix p'"
  shows "index_key_for p ts = index_key_for p' ts' \<longleftrightarrow> p = p' \<and> ts = ts'"
proof -
  obtain q q' where q: "p = ascii ''v:'' @ q" "p' = ascii ''v:'' @ q'" using assms by (auto simp: group_prefix_def)
  have "q @ pad20 a = q' @ pad20 b \<longleftrightarrow> q = q' \<and> a = b" for a b using pad20_order(3) by (simp add: append_eq_append_conv)
  then show ?thesis by (auto simp: q index_key_for_def ascii_def)
qed

lemma version_not_index: "group_prefix p \<Longrightarrow> p @ k \<noteq> index_key_for p' ts"
  by (auto simp: group_prefix_def index_key_for_def ascii_def)

lemma spare_index:
  assumes "group_prefix p" "spare m horizon (index_key_for p ts)"
  shows "expendable m horizon p ts"
  using assms index_key_for_eq [OF assms(1)] version_not_index unfolding spare_def by metis

lemma superseded_expendable:
  assumes m': "kv_holds kv db m'" and tr: "trimmed m horizon m'" and p: "group_prefix p" and s: "superseded kv horizon db p versions = Inr tss" and ts: "ts \<in> set tss"
  shows "expendable m horizon p ts"
proof -
  obtain keep where keep: "max_of (filter (\<lambda>ts. ts \<le> horizon) versions) = Some keep"
    using s ts by (auto simp: superseded_def split: if_splits option.splits)
  have mx: "keep \<le> horizon" "\<And>x. x \<in> set versions \<Longrightarrow> x \<le> horizon \<Longrightarrow> x \<le> keep"
  proof -
    have f: "fold max ys (y::u64) \<in> insert y (set ys) \<and> y \<le> fold max ys y \<and> (\<forall>x\<in>set ys. x \<le> fold max ys y)" for ys y
      by (induction ys arbitrary: y) (auto simp: max_def, (metis order.trans linear)+)
    obtain y ys where y: "filter (\<lambda>ts. ts \<le> horizon) versions = y # ys" "keep = fold max ys y" using keep by (auto simp: max_of_def split: list.splits)
    then have "set (y # ys) = {ts \<in> set versions. ts \<le> horizon}" by (metis set_filter)
    then show "keep \<le> horizon" "\<And>x. x \<in> set versions \<Longrightarrow> x \<le> horizon \<Longrightarrow> x \<le> keep" using f [of ys y] y(2) by auto
  qed
  have first: "(\<exists>x \<in> set xs. m' (index_key_for p x) \<noteq> None) \<Longrightarrow> sorted_wrt (\<ge>) xs \<Longrightarrow>
      \<exists>y \<in> set xs. res = Some y \<and> m' (index_key_for p y) \<noteq> None \<and> (\<forall>x\<in>set xs. m' (index_key_for p x) \<noteq> None \<longrightarrow> x \<le> y)"
    if "first_indexed kv db p xs = Inr res" for xs res using that m' by (induction xs) (auto split: if_splits)
  obtain v ki where ki: "ts \<in> set versions" "ts \<le> horizon" "ts \<noteq> keep" "Some ts \<noteq> ki" "v = m' (index_key_for p keep)"
      "(if v \<noteq> None then Inr None else first_indexed kv db p (rev (sort (filter (\<lambda>ts. ts \<le> horizon \<and> ts \<noteq> keep) versions)))) = Inr ki"
    using s ts m' keep by (auto simp: superseded_def bind_result_Inr split: if_splits)
  have newer: "\<exists>ts'. ts < ts' \<and> ts' \<le> horizon \<and> m' (index_key_for p ts') \<noteq> None" if "m' (index_key_for p ts) \<noteq> None"
  proof (cases "v = None")
    case False
    then show ?thesis using mx ki by (metis order.not_eq_order_implies_strict)
  next
    case True
    let ?xs = "rev (sort (filter (\<lambda>ts. ts \<le> horizon \<and> ts \<noteq> keep) versions))"
    have fi: "first_indexed kv db p ?xs = Inr ki" using ki(6) True by simp
    have so: "sorted_wrt (\<ge>) ?xs" by (simp add: sorted_wrt_rev)
    have mem: "ts \<in> set ?xs" using ki by simp
    then have "\<exists>x \<in> set ?xs. m' (index_key_for p x) \<noteq> None" using that by (rule bexI [rotated])
    from first [OF fi this so] obtain y where y: "y \<in> set ?xs" "ki = Some y" "m' (index_key_for p y) \<noteq> None"
      "\<forall>x\<in>set ?xs. m' (index_key_for p x) \<noteq> None \<longrightarrow> x \<le> y" by (elim bexE conjE)
    have "ts \<le> y" using y(4) [THEN bspec, OF mem] that by (rule mp)
    then show ?thesis using ki(4) y(1-3) by (intro exI [of _ y]) auto
  qed
  show ?thesis
  proof (cases "m' (index_key_for p ts) = m (index_key_for p ts)")
    case True
    have "m (index_key_for p x) \<noteq> None" if "m' (index_key_for p x) \<noteq> None" for x using tr that unfolding trimmed_def by metis
    then show ?thesis using True newer ki(2) unfolding expendable_def by metis
  next
    case False
    then show ?thesis using tr spare_index [OF p] unfolding trimmed_def by metis
  qed
qed

lemma trimmed_delete:
  assumes "trimmed m horizon m'" "\<And>b. b \<in> set batch \<Longrightarrow> \<exists>k. b = BDelete k \<and> spare m horizon k"
  shows "trimmed m horizon (apply_batch batch m')"
  using assms
proof (induction batch arbitrary: m')
  case (Cons b batch)
  then obtain k where "b = BDelete k" "spare m horizon k" by (meson list.set_intros(1))
  moreover have "trimmed m horizon (m'(k := None))" using Cons.prems(1) \<open>spare m horizon k\<close> by (simp add: trimmed_def)
  ultimately show ?case using Cons by simp
qed simp

definition run_ok :: "'db kv \<Rightarrow> (bytes \<Rightarrow> bytes option) \<Rightarrow> u64 \<Rightarrow> 'db gc_run \<Rightarrow> bool" where
  "run_ok kv m horizon st \<longleftrightarrow> (\<exists>m'. kv_holds kv (gr_db st) m' \<and> trimmed m horizon m')
     \<and> (\<forall>b \<in> set (gr_batch st). \<exists>k. b = BDelete k \<and> spare m horizon k) \<and> (gr_versions st = [] \<or> group_prefix (gr_prefix st))"

lemma gc_flush_ok: "kv_writes kv \<Longrightarrow> run_ok kv m horizon st \<Longrightarrow> run_ok kv m horizon (fst (gc_flush kv st))"
proof -
  assume w: "kv_writes kv" and ok: "run_ok kv m horizon st"
  then obtain m' where m': "kv_holds kv (gr_db st) m'" "trimmed m horizon m'" by (auto simp: run_ok_def)
  have "kv_holds kv db (apply_batch (gr_batch st) m') \<and> trimmed m horizon (apply_batch (gr_batch st) m')" if "kv_write kv (gr_db st) (gr_batch st) = Inr db" for db
    using kv_write_holds [OF w m'(1) that] trimmed_delete [OF m'(2)] ok by (auto simp: run_ok_def)
  then show ?thesis using ok m' unfolding run_ok_def gc_flush_def by (auto split: sum.splits)
qed

lemma process_group_ok:
  assumes "kv_writes kv" "run_ok kv m horizon st"
  shows "run_ok kv m horizon (fst (process_group kv horizon st))"
proof (cases "superseded kv horizon (gr_db st) (gr_prefix st) (gr_versions st)")
  case (Inr tss)
  have "spare m horizon (gr_prefix st @ u64_text ts) \<and> spare m horizon (index_key_for (gr_prefix st) ts)" if "ts \<in> set tss" for ts
  proof -
    have "gr_versions st \<noteq> []" using that Inr by (auto simp: superseded_def)
    then have p: "group_prefix (gr_prefix st)" using assms(2) by (simp add: run_ok_def)
    then have "expendable m horizon (gr_prefix st) ts" using superseded_expendable [OF _ _ p Inr that] assms(2) unfolding run_ok_def by blast
    then show ?thesis using p unfolding spare_def by blast
  qed
  then have "run_ok kv m horizon (st\<lparr>gr_batch := gr_batch st @ concat (map (\<lambda>ts. [BDelete (gr_prefix st @ u64_text ts), BDelete (index_key_for (gr_prefix st) ts)]) tss),
      gr_deleted := gr_deleted st + length tss, gr_versions := []\<rparr>)" using assms(2) by (auto simp: run_ok_def)
  then show ?thesis using Inr gc_flush_ok [OF assms(1)] by (simp add: process_group_def Let_def)
qed (use assms in \<open>simp add: process_group_def\<close>)

lemma version_ts_prefix: "starts_with (ascii ''v:'') k \<Longrightarrow> version_ts k = Some (p, ts) \<Longrightarrow> group_prefix p"
proof -
  assume "starts_with (ascii ''v:'') k" "version_ts k = Some (p, ts)"
  then obtain q pre suffix where k: "k = ascii ''v:'' @ q" "cut_last k = Some (pre, suffix)" "p = pre @ [colon]"
    by (auto simp: starts_with_iff version_ts_def split: option.splits prod.splits)
  then have e: "ascii ''v:'' @ q = pre @ colon # suffix" "colon \<notin> set suffix" unfolding cut_last_Some by simp_all
  then obtain c pre' where "pre = c # pre'" "c = 0x76" by (cases pre) (auto simp: ascii_def)
  then show ?thesis using e k(3) by (cases pre') (auto simp: group_prefix_def ascii_def)
qed

lemma collect_loop_ok:
  "kv_writes kv \<Longrightarrow> run_ok kv m horizon st \<Longrightarrow> run_ok kv m horizon (fst (collect_loop kv horizon max_deletes budget es st))"
proof (induction kv horizon max_deletes budget es st rule: collect_loop.induct)
  case (3 kv horizon max_deletes budget k v es st)
  have pg: "run_ok kv m horizon (fst (process_group kv horizon st))" using process_group_ok [OF 3(4,5)] .
  have push: "run_ok kv m horizon (st'\<lparr>gr_prefix := p, gr_versions := gr_versions st' @ [ts], gr_scanned := n\<rparr>)"
    if "run_ok kv m horizon st'" "group_prefix p" for st' p ts n using that by (simp add: run_ok_def)
  show ?case
  proof (cases "starts_with (ascii ''v:'') k")
    case v: True
    show ?thesis
    proof (cases "version_ts k")
      case None
      then show ?thesis using v 3 by simp
    next
      case (Some pt)
      obtain p ts where pt: "pt = (p, ts)" by (cases pt)
      have gp: "group_prefix p" using version_ts_prefix [OF v] Some pt by simp
      obtain st' res where g: "process_group kv horizon st = (st', res)" by (cases "process_group kv horizon st")
      show ?thesis
      proof (cases "p = gr_prefix st")
        case True
        then have "run_ok kv m horizon (st\<lparr>gr_versions := gr_versions st @ [ts], gr_scanned := gr_scanned st + 1\<rparr>)"
          using 3(5) gp by (simp add: run_ok_def)
        then show ?thesis using 3(2) [OF _ Some pt [symmetric]] 3(4) v Some pt True by simp
      next
        case False
        show ?thesis
        proof (cases res)
          case (Inr u)
          have "run_ok kv m horizon (st'\<lparr>gr_prefix := p, gr_versions := gr_versions st' @ [ts], gr_scanned := gr_scanned st' + 1\<rparr>)"
            using push gp pg g by simp
          then show ?thesis using 3(3) [OF _ Some pt [symmetric] False g [symmetric] Inr] 3(4) v Some pt False g Inr pg by auto
        qed (use v Some pt False g pg in simp)
      qed
    qed
  qed (use 3 in simp)
qed simp_all

section \<open>Reads of a trimmed store\<close>

lemma row_prefix: "group_prefix (version_prefix t r)" "index_key_for (version_prefix t r) ts = version_index_key t r ts"
  by (auto simp: group_prefix_def version_prefix_def index_key_for_def version_index_key_def version_index_prefix_def ascii_def)

lemma spare_row:
  assumes "spare m horizon k"
  shows "k = version_index_key t r ts \<Longrightarrow> expendable m horizon (version_prefix t r) ts"
    and "k = version_key t r ts \<Longrightarrow> expendable m horizon (version_prefix t r) ts"
    and "k \<noteq> data_key t r"
proof -
  show "k = version_index_key t r ts \<Longrightarrow> expendable m horizon (version_prefix t r) ts"
    using spare_index [OF row_prefix(1), of m horizon t r ts] assms by (simp add: row_prefix(2))
  obtain p ts' where p: "group_prefix p" "expendable m horizon p ts'" "k = p @ u64_text ts' \<or> k = index_key_for p ts'" using assms by (auto simp: spare_def)
  then obtain q where q: "p = ascii ''v:'' @ q" "q = [] \<or> (\<exists>q'. q = q' @ [colon])" by (auto simp: group_prefix_def)
  show "k \<noteq> data_key t r" using p(3) by (auto simp: q(1) index_key_for_def data_key_def data_prefix_def ascii_def)
  assume k: "k = version_key t r ts"
  have "k \<noteq> index_key_for p ts'" using version_not_index [OF row_prefix(1), of t r "u64_text ts" p ts'] k by (simp add: version_key_def)
  then have e: "q @ u64_text ts' = t @ [colon] @ u64_text r @ [colon] @ u64_text ts" using p(3) k by (simp add: q(1) version_key_def version_prefix_def)
  show "expendable m horizon (version_prefix t r) ts"
  proof (cases "q = []")
    case True
    then show ?thesis using e colon_texts(1) [of ts'] by simp
  next
    case False
    then obtain q' where q': "q = q' @ [colon]" using q(2) by blast
    have "cut_last (q @ u64_text ts') = Some (q', u64_text ts')" unfolding cut_last_Some using q' by simp
    moreover have "cut_last (q @ u64_text ts') = Some (t @ [colon] @ u64_text r, u64_text ts)" unfolding cut_last_Some e by simp
    ultimately have "q' = t @ [colon] @ u64_text r" "ts' = ts" by simp_all
    then show ?thesis using p(2) q(1) q' by (simp add: version_prefix_def)
  qed
qed

lemma find_filter_keep: "find P xs = Some x \<Longrightarrow> Q x \<Longrightarrow> find P (filter Q xs) = Some x"
  by (induction xs) (auto split: if_splits)

lemma find_newest_event:
  fixes evs :: "(u64 \<times> bool) list"
  assumes "sorted_wrt (\<lambda>a b. b < a) (map fst evs)" "find (\<lambda>e. fst e \<le> s) evs = Some e" "d \<in> set evs" "fst d \<le> s"
  shows "fst d \<le> fst e"
proof -
  obtain i where i: "i < length evs" "evs ! i = e" "\<forall>j<i. \<not> fst (evs ! j) \<le> s" using assms(2) unfolding find_Some_iff by auto
  obtain j where j: "j < length evs" "evs ! j = d" using assms(3) by (metis in_set_conv_nth)
  have "\<not> j < i" using i(3) j assms(4) by auto
  then show ?thesis using sorted_wrt_nth_less [of "\<lambda>a b. b < a" "map fst evs" i j] assms(1) i j by (cases "i = j") auto
qed

lemma event_index_map: "sorted_wrt (\<lambda>a b. b < a) (map fst evs) \<Longrightarrow>
    map_of (event_index evs) k = Some v \<longleftrightarrow> (\<exists>ts elided. (ts, elided) \<in> set evs \<and> k = pad20 (- 1 - ts) \<and> v = encode_version_index_value ts elided)"
proof -
  assume "sorted_wrt (\<lambda>a b. b < a) (map fst evs)"
  then have "distinct (map fst (event_index evs))" using event_index_sorted strict_sorted_iff by blast
  moreover have "(k, v) \<in> set (event_index evs) \<longleftrightarrow> (\<exists>ts elided. (ts, elided) \<in> set evs \<and> k = pad20 (- 1 - ts) \<and> v = encode_version_index_value ts elided)"
    unfolding event_index_def by force
  ultimately show ?thesis by (simp add: map_of_eq_Some_iff)
qed

lemma trimmed_read:
  assumes m: "kv_holds kv db m" and m': "kv_holds kv db' m'" and tr: "trimmed m horizon m'" and ev: "events_at m t r evs" and t: "table_name t" and s: "horizon \<le> s"
  shows "read_at_snapshot_uncached kv cm db' t r s = read_at_snapshot_uncached kv cm db t r s"
proof -
  have so: "sorted_wrt (\<lambda>a b. b < a) (map fst evs)" and idx: "\<And>k. m (version_index_prefix t r @ k) = map_of (event_index evs) k"
    using ev by (simp_all add: events_at_def)
  define evs' where "evs' = filter (\<lambda>e. m' (version_index_key t r (fst e)) \<noteq> None) evs"
  have so': "sorted_wrt (\<lambda>a b. b < a) (map fst evs')" using so unfolding evs'_def sorted_wrt_map by (rule sorted_wrt_filter)
  have indexed: "m (version_index_key t r ts) = Some v \<longleftrightarrow> (\<exists>elided. (ts, elided) \<in> set evs \<and> v = encode_version_index_value ts elided)" for ts v
    using event_index_map [OF so] by (auto simp: version_index_key_def idx pad20_order reverse_ts)
  have sub: "m' k = m k \<or> m' k = None" for k using tr by (auto simp: trimmed_def)
  have idx': "m' (version_index_prefix t r @ k) = map_of (event_index evs') k" for k
  proof -
    have "m' (version_index_prefix t r @ k) = Some v \<longleftrightarrow> map_of (event_index evs') k = Some v" for v
    proof -
      have "m' (version_index_prefix t r @ k) = Some v \<longleftrightarrow> m (version_index_prefix t r @ k) = Some v \<and> m' (version_index_prefix t r @ k) \<noteq> None"
        using sub [of "version_index_prefix t r @ k"] by auto
      also have "\<dots> \<longleftrightarrow> (\<exists>ts elided. (ts, elided) \<in> set evs' \<and> k = pad20 (- 1 - ts) \<and> v = encode_version_index_value ts elided)"
        unfolding idx event_index_map [OF so] by (auto simp: evs'_def version_index_key_def)
      finally show ?thesis unfolding event_index_map [OF so'] .
    qed
    then show ?thesis by (metis not_None_eq)
  qed
  have ev': "events_at m' t r evs'" using ev so' idx' by (auto simp: events_at_def evs'_def list_all_iff)
  have gone: "ts \<le> horizon \<and> (\<exists>d \<in> set evs. ts < fst d \<and> fst d \<le> horizon)"
    if ex: "expendable m horizon (version_prefix t r) ts" and mem: "(ts, elided) \<in> set evs" for ts elided
  proof -
    have "m (version_index_key t r ts) \<noteq> None" using mem indexed [of ts] by blast
    then obtain ts' v where "ts \<le> horizon" "ts < ts'" "ts' \<le> horizon" "m (version_index_key t r ts') = Some v"
      using ex unfolding expendable_def row_prefix(2) by blast
    then show ?thesis using indexed [of ts' v] by force
  qed
  have kept: "m' (version_index_key t r ts) \<noteq> None \<and> m' (version_key t r ts) = m (version_key t r ts)"
    if f: "find (\<lambda>e. fst e \<le> s) evs = Some (ts, elided)" for ts elided
  proof -
    have mem: "(ts, elided) \<in> set evs" using f unfolding find_Some_iff by auto
    have "\<not> expendable m horizon (version_prefix t r) ts"
    proof
      assume "expendable m horizon (version_prefix t r) ts"
      then obtain d where "d \<in> set evs" "ts < fst d" "fst d \<le> horizon" using gone mem by blast
      then show False using find_newest_event [OF so f] s by fastforce
    qed
    then show ?thesis using tr spare_row(1) [of m horizon _ t r ts] spare_row(2) [of m horizon _ t r ts] indexed [of ts] mem unfolding trimmed_def by (metis not_None_eq)
  qed
  have same_find: "find (\<lambda>e. fst e \<le> s) evs' = find (\<lambda>e. fst e \<le> s) evs"
  proof (cases "find (\<lambda>e. fst e \<le> s) evs")
    case None
    then have "find (\<lambda>e. fst e \<le> s) evs' = None" unfolding evs'_def find_None_iff by auto
    then show ?thesis using None by simp
  next
    case (Some e)
    then have "m' (version_index_key t r (fst e)) \<noteq> None" using kept [of "fst e" "snd e"] by simp
    from find_filter_keep [of _ _ _ "\<lambda>e. m' (version_index_key t r (fst e)) \<noteq> None", OF Some this] show ?thesis using Some by (simp add: evs'_def)
  qed
  have data: "m' (data_key t r) = m (data_key t r)" using tr spare_row(3) [of m horizon "data_key t r" t r] by (auto simp: trimmed_def)
  have ne: "evs' = [] \<longleftrightarrow> evs = []"
  proof
    assume none: "evs' = []"
    show "evs = []"
    proof (rule ccontr)
      assume "evs \<noteq> []"
      then obtain ts elided rest where c: "evs = (ts, elided) # rest" by (cases evs) auto
      then have "m' (version_index_key t r ts) = None" using none by (cases "m' (version_index_key t r ts)") (simp_all add: evs'_def)
      then have "expendable m horizon (version_prefix t r) ts" using tr spare_row(1) indexed [of ts] c unfolding trimmed_def by (metis list.set_intros(1) option.distinct(1))
      then obtain d where "d \<in> set evs" "ts < fst d" using gone [of ts elided] c by auto
      then show False using so c by auto
    qed
  qed (simp add: evs'_def)
  show ?thesis unfolding read_events [OF m ev t] read_events [OF m' ev' t] same_find ne data
    using kept data by (auto split: option.splits)
qed

lemma collect_below_trims:
  assumes "kv_writes kv" "kv_holds kv db m" "collect_below kv horizon vg db = (db', vg', res)"
  shows "\<exists>m'. kv_holds kv db' m' \<and> trimmed m horizon m'"
proof -
  let ?st = "\<lparr>gr_db = db, gr_batch = [], gr_deleted = 0, gr_scanned = 0, gr_prefix = [], gr_versions = []\<rparr>"
  have ok: "run_ok kv m horizon ?st" using assms(2) by (auto simp: run_ok_def trimmed_def)
  let ?md = "max (vg_max_versions_per_cycle vg) 1"
  let ?start = "case vg_cursor vg of Some k \<Rightarrow> k | None \<Rightarrow> ascii ''v:''"
  obtain st1 r1 where l: "collect_loop kv horizon ?md (max (?md * SCAN_BOUND_FACTOR) 65536) (kv_scan kv db ?start) ?st = (st1, r1)"
    by (cases "collect_loop kv horizon ?md (max (?md * SCAN_BOUND_FACTOR) 65536) (kv_scan kv db ?start) ?st")
  then have ok1: "run_ok kv m horizon st1" using collect_loop_ok [OF assms(1) ok] by (metis fst_conv)
  obtain st2 r2 where g: "process_group kv horizon st1 = (st2, r2)" by (cases "process_group kv horizon st1")
  then have ok2: "run_ok kv m horizon st2" using process_group_ok [OF assms(1) ok1] by simp
  have fl: "run_ok kv m horizon (fst (gc_flush kv st1))" "run_ok kv m horizon (fst (gc_flush kv st2))" using gc_flush_ok [OF assms(1)] ok1 ok2 by blast+
  have "db' \<in> {gr_db st1, gr_db st2, gr_db (fst (gc_flush kv st1)), gr_db (fst (gc_flush kv st2))}"
    using assms(3) l g unfolding collect_below_def Let_def by (auto split: sum.splits prod.splits if_splits)
  then show ?thesis using ok1 ok2 fl unfolding run_ok_def by auto
qed

section \<open>The horizon protects readers\<close>

definition protected :: "registry \<Rightarrow> (string + (string \<times> u64) list) option \<Rightarrow> u64 \<Rightarrow> bool" where
  "protected reg branches s \<longleftrightarrow> s \<in> snd ` set (cr_pins reg) \<or> s \<in> snd ` set (cr_active reg)
     \<or> (\<exists>bs name. branches = Some (Inr bs) \<and> (name, s) \<in> set bs \<and> name \<noteq> ''main'' \<and> s \<noteq> 0)"

lemma clamp_horizon_le:
  assumes "clamp_horizon reg branches candidate = Inr h"
  shows "h \<le> candidate" and "protected reg branches s \<Longrightarrow> h \<le> s"
proof -
  define c where "c = (case min_pinned_snapshot reg of Some p \<Rightarrow> min candidate p | None \<Rightarrow> candidate)"
  have pins: "c \<le> candidate" "s \<in> snd ` set (cr_pins reg) \<union> snd ` set (cr_active reg) \<Longrightarrow> c \<le> s" for s
    using active_min_spec [of "cr_pins reg"] active_min_spec [of "cr_active reg"]
    by (auto simp: c_def min_pinned_snapshot_def min_le_iff_disj split: option.splits)
  have f: "fold (\<lambda>(name, anchor) h. if name = ''main'' \<or> anchor = 0 then h else min h anchor) bs x \<le> x
      \<and> (\<forall>(name, anchor) \<in> set bs. name \<noteq> ''main'' \<and> anchor \<noteq> 0 \<longrightarrow> fold (\<lambda>(name, anchor) h. if name = ''main'' \<or> anchor = 0 then h else min h anchor) bs x \<le> anchor)"
    for bs :: "(string \<times> u64) list" and x
  proof (induction bs arbitrary: x)
    case (Cons b bs)
    obtain name anchor where b: "b = (name, anchor)" by (cases b)
    show ?case
    proof (cases "name = ''main'' \<or> anchor = 0")
      case True
      then show ?thesis using Cons [of x] b by auto
    next
      case False
      then show ?thesis using Cons [of "min x anchor"] b by auto
    qed
  qed simp
  have "h \<le> c \<and> (\<forall>bs name. branches = Some (Inr bs) \<and> (name, s) \<in> set bs \<and> name \<noteq> ''main'' \<and> s \<noteq> 0 \<longrightarrow> h \<le> s)" for s
    using assms f [of _ c] unfolding clamp_horizon_def Let_def c_def [symmetric] by (fastforce simp: bind_result_Inr split: option.splits)
  then show "h \<le> candidate" "protected reg branches s \<Longrightarrow> h \<le> s"
    using pins unfolding protected_def by (blast intro: order.trans)+
qed

text \<open>A database that holds what \<open>m\<close> holds under the keys of rows and versions.\<close>

definition same_rows :: "'db kv \<Rightarrow> (bytes \<Rightarrow> bytes option) \<Rightarrow> 'db \<Rightarrow> bool" where
  "same_rows kv m db \<longleftrightarrow> (\<exists>m'. kv_holds kv db m' \<and> (\<forall>t r. \<forall>k \<in> row_keys t r. m' k = m k))"

lemma vgc_write:
  assumes "kv_writes kv" "same_rows kv m db" "kv_write kv db b = Inr db'"
    "\<And>op. op \<in> set b \<Longrightarrow> starts_with (ascii ''vgc:'') (op_key op)"
  shows "same_rows kv m db'"
proof -
  obtain m1 where m1: "kv_holds kv db m1" "\<forall>t r. \<forall>k \<in> row_keys t r. m1 k = m k" using assms(2) by (auto simp: same_rows_def)
  have "\<not> starts_with (ascii ''vgc:'') k" if "k \<in> row_keys t r" for t r k
    using that by (auto simp: row_keys_def starts_with_iff data_key_def data_prefix_def version_key_def version_prefix_def version_index_prefix_def ascii_def)
  then have "apply_batch b m1 k = m k" if "k \<in> row_keys t r" for t r k
    using apply_batch_other [of k b m1] assms(4) m1(2) that by (metis imageE)
  then show ?thesis using kv_write_holds [OF assms(1) m1(1) assms(3)] by (auto simp: same_rows_def)
qed

lemma anchor_loop_stale:
  "anchor_loop cutoff es best stale = Inr (best', stale') \<Longrightarrow> list_all (starts_with ANCHOR_PREFIX) stale \<Longrightarrow>
   (case best of None \<Rightarrow> True | Some b \<Rightarrow> starts_with ANCHOR_PREFIX (fst b)) \<Longrightarrow> list_all (starts_with ANCHOR_PREFIX) stale'"
proof (induction cutoff es best stale rule: anchor_loop.induct)
  case (3 cutoff k v es best stale)
  show ?case
  proof (cases "starts_with ANCHOR_PREFIX k")
    case True
    then show ?thesis using 3 by (simp split: option.split_asm if_split_asm prod.split_asm)
  qed (use 3 in simp)
qed simp_all

lemma vgc_keys: "starts_with (ascii ''vgc:'') LOW_WATERMARK_KEY" "starts_with ANCHOR_PREFIX k \<Longrightarrow> starts_with (ascii ''vgc:'') k" "starts_with (ascii ''vgc:'') (anchor_key n)"
  by (auto simp: starts_with_iff LOW_WATERMARK_KEY_def ANCHOR_PREFIX_def anchor_key_def ascii_def)

lemma retention_horizon_rows:
  assumes "kv_writes kv" "same_rows kv m db" "retention_horizon kv snapshots cutoff vg db = (db', res)"
  shows "same_rows kv m db'"
proof (cases "db' = db")
  case False
  then obtain anchor stale where w: "anchor_loop cutoff (kv_scan kv db ANCHOR_PREFIX) None [] = Inr (anchor, stale)" "kv_write kv db (map BDelete stale) = Inr db'"
    using assms(3) by (auto simp: retention_horizon_def Let_def split: sum.splits if_splits prod.splits)
  show ?thesis by (rule vgc_write [OF assms(1,2) w(2)]) (use anchor_loop_stale [OF w(1)] vgc_keys(2) in \<open>auto simp: list_all_iff\<close>)
qed (use assms(2) in simp)

lemma record_anchor_rows:
  assumes "kv_writes kv" "same_rows kv m db"
  shows "same_rows kv m (fst (record_time_anchor kv now db vg))"
proof (cases "kv_write kv db [BPut (anchor_key now) (to_be_bytes 8 (vg_timestamp vg))]")
  case (Inr db')
  have "same_rows kv m db'" by (rule vgc_write [OF assms Inr]) (use vgc_keys(3) in auto)
  then show ?thesis using Inr by (simp add: record_time_anchor_def Let_def)
qed (use assms(2) in \<open>simp add: record_time_anchor_def Let_def\<close>)

lemma publish_watermark_rows:
  assumes "kv_writes kv" "same_rows kv m db" "publish_watermark kv horizon db sm = Inr (db', sm')"
  shows "same_rows kv m db' \<and> horizon \<le> sm_gc_low_watermark sm'"
proof (cases "sm_gc_low_watermark sm < horizon")
  case True
  then have w: "kv_write kv db [BPut LOW_WATERMARK_KEY (to_be_bytes 8 horizon)] = Inr db'" "sm' = sm\<lparr>sm_gc_low_watermark := horizon\<rparr>"
    using assms(3) by (cases "kv_write kv db [BPut LOW_WATERMARK_KEY (to_be_bytes 8 horizon)]"; simp add: publish_watermark_def)+
  have "same_rows kv m db'" by (rule vgc_write [OF assms(1,2) w(1)]) (use vgc_keys(1) in auto)
  then show ?thesis using w(2) by simp
qed (use assms in \<open>auto simp: publish_watermark_def\<close>)

lemma run_cycle_outcome:
  assumes kv: "kv_writes kv" "same_rows kv m db"
    and run: "run_cycle_locked kv now snapshots reg reg' branches branches' db vg sm = (db', vg', sm', res)"
  shows "same_rows kv m db' \<or> (\<exists>db3 horizon delete_horizon. same_rows kv m db3 \<and> horizon \<le> sm_gc_low_watermark sm'
      \<and> clamp_horizon reg' branches' horizon = Inr delete_horizon \<and> db' = fst (collect_below kv delete_horizon vg db3))"
proof (cases "vg_retention_secs vg")
  case (Some retention)
  obtain db2 rh where h: "retention_horizon kv snapshots (sint (word_of_int now - retention)) vg db = (db2, rh)"
    by (cases "retention_horizon kv snapshots (sint (word_of_int now - retention)) vg db")
  note run2 = run [unfolded run_cycle_locked_def Some option.case h prod.case]
  have same2: "same_rows kv m db2" by (rule retention_horizon_rows [OF kv h])
  show ?thesis
  proof (cases "\<exists>ts hz. rh = Inr (Some ts) \<and> clamp_horizon reg branches ts = Inr hz")
    case True
    then obtain ts hz where ts: "rh = Inr (Some ts)" "clamp_horizon reg branches ts = Inr hz" by blast
    show ?thesis
    proof (cases "publish_watermark kv hz db2 sm")
      case (Inl e)
      then show ?thesis using run2 ts same2 by simp
    next
      case (Inr x)
      obtain db3 sm3 where x: "x = (db3, sm3)" by (cases x)
      have w: "same_rows kv m db3" "hz \<le> sm_gc_low_watermark sm3" using publish_watermark_rows [OF kv(1) same2] Inr x by blast+
      show ?thesis
      proof (cases "clamp_horizon reg' branches' hz")
        case (Inl e)
        then show ?thesis using run2 ts \<open>publish_watermark kv hz db2 sm = Inr x\<close> x w by simp
      next
        case (Inr dh)
        then have "sm' = sm3" "db' = fst (collect_below kv dh vg db3)"
          using run2 ts \<open>publish_watermark kv hz db2 sm = Inr x\<close> x by (auto split: prod.splits)
        then show ?thesis using Inr w by blast
      qed
    qed
  qed (use run2 same2 in \<open>auto split: sum.splits option.splits\<close>)
qed (use run kv(2) in \<open>simp add: run_cycle_locked_def\<close>)

section \<open>Properties\<close>

text \<open>
  Collection is invisible to readers: a pass with some horizon, completed, bounded by its
  budget or failed half-way, changes no snapshot read at or above the horizon, whichever versions
  of the row are indexed, elided or missing, and also when updates left versions without index
  entries.
\<close>

theorem gc_keeps_reads:
  assumes "kv_writes kv" "kv_holds kv db m" "events_at m t r evs" "table_name t" "horizon \<le> s"
  shows "read_at_snapshot_uncached kv cm (fst (collect_below kv horizon vg db)) t r s = read_at_snapshot_uncached kv cm db t r s"
proof -
  obtain db' vg' res where c: "collect_below kv horizon vg db = (db', vg', res)" by (metis prod.exhaust)
  then show ?thesis using collect_below_trims [OF assms(1,2) c] trimmed_read [OF assms(2) _ _ assms(3-5)] by auto
qed

text \<open>A row with three versions, of which a pass at horizon 5 deletes the oldest.\<close>

definition three_versions :: "(bytes \<times> bytes) list" where
  "three_versions = list_db (concat (map (\<lambda>ts. [BPut (version_key [0x61] 1 ts) (u64_text ts), BPut (version_index_key [0x61] 1 ts) (encode_version_index_value ts False)]) [3, 5, 9]))"

lemma three_versions_holds: "kv_holds list_kv three_versions (map_of three_versions)"
  by (rule list_kv_holds) (simp add: three_versions_def list_db_sound)

lemma three_versions_events: "events_at (map_of three_versions) [0x61] 1 [(9, False), (5, False), (3, False)]"
proof -
  have a: "table_name [0x61]" by (simp add: table_name_def is_utf8_ascii)
  show ?thesis by (simp add: events_at_def event_index_def three_versions_def list_db_sound key_inj(3) [OF a a])
qed

definition gc_demo :: version_gc where
  "gc_demo = \<lparr>vg_retention_secs = Some 10, vg_max_versions_per_cycle = 100, vg_timestamp = 9, vg_cursor = None, vg_memory_anchors = []\<rparr>"

theorem gc_keeps_reads_witness:
  "read_at_snapshot_uncached list_kv markers_new (fst (collect_below list_kv 5 gc_demo three_versions)) [0x61] 1 8
     = Inr (Some (u64_text 5))"
proof -
  have a: "table_name [0x61]" by (simp add: table_name_def is_utf8_ascii)
  have "read_at_snapshot_uncached list_kv markers_new three_versions [0x61] 1 8 = Inr (Some (u64_text 5))"
    using read_events [OF three_versions_holds three_versions_events a, of markers_new 8] by (simp add: three_versions_def list_db_sound key_inj(2) [OF a a])
  then show ?thesis using gc_keeps_reads [OF list_kv_writes three_versions_holds three_versions_events a, of 5 8 markers_new gc_demo] by simp
qed

text \<open>
  C14. A collection cycle never changes the past of a reader: a snapshot that is pinned, registered
  or the anchor of a branch when the cycle takes its second look at the pins, or that passes the
  horizon check afterwards, reads the same before and after the cycle, however the cycle ends.
\<close>

theorem gc_cycle_keeps_readers:
  assumes kv: "kv_writes kv" "kv_holds kv db m" and row: "events_at m t r evs" "table_name t"
    and cycle: "run_cycle kv now snapshots reg reg' branches branches' db vg sm = (db', vg', sm', res)"
    and reader: "protected reg' branches' s \<or> check_gc_horizon sm' s = Inr ()"
  shows "read_at_snapshot_uncached kv cm db' t r s = read_at_snapshot_uncached kv cm db t r s"
proof -
  obtain db1 vg1 where a: "record_time_anchor kv now db vg = (db1, vg1)" by (cases "record_time_anchor kv now db vg")
  have "same_rows kv m db" using kv(2) by (auto simp: same_rows_def)
  then have same1: "same_rows kv m db1" using record_anchor_rows [OF kv(1), of m db now vg] a by simp
  have locked: "run_cycle_locked kv now snapshots reg reg' branches branches' db1 vg1 sm = (db', vg', sm', res)" using cycle a by (simp add: run_cycle_def)
  have unchanged: "read_at_snapshot_uncached kv cm db2 t r s = read_at_snapshot_uncached kv cm db t r s" if "same_rows kv m db2" for db2
  proof -
    obtain m2 where "kv_holds kv db2 m2" "\<And>k. k \<in> row_keys t r \<Longrightarrow> m2 k = m k" using \<open>same_rows kv m db2\<close> by (auto simp: same_rows_def)
    then show ?thesis by (rule read_agree [OF kv(2)])
  qed
  show ?thesis
  proof (cases "same_rows kv m db'")
    case False
    then obtain db3 horizon dh where o: "same_rows kv m db3" "horizon \<le> sm_gc_low_watermark sm'"
        "clamp_horizon reg' branches' horizon = Inr dh" "db' = fst (collect_below kv dh vg1 db3)"
      using run_cycle_outcome [OF kv(1) same1 locked] by blast
    then obtain m3 where m3: "kv_holds kv db3 m3" "\<And>k. k \<in> row_keys t r \<Longrightarrow> m3 k = m k" by (auto simp: same_rows_def)
    have ev: "events_at m3 t r evs" using row(1) m3(2) by (simp add: events_at_def row_keys_def)
    have "dh \<le> s" using reader clamp_horizon_le [OF o(3)] o(2) by (auto simp: check_gc_horizon_def not_less split: if_splits intro: order.trans)
    then have "read_at_snapshot_uncached kv cm db' t r s = read_at_snapshot_uncached kv cm db3 t r s"
      using collect_below_trims [OF kv(1) m3(1)] trimmed_read [OF m3(1) _ _ ev row(2)] o(4) by (metis prod.exhaust_sel)
    then show ?thesis using unchanged [OF o(1)] by simp
  qed (rule unchanged)
qed

theorem gc_cycle_keeps_readers_witness:
  "let reg = registry_new\<lparr>cr_pins := [(0, 4)]\<rparr>;
       db' = fst (run_cycle list_kv 1000 [(9, 20)] registry_new reg None None three_versions gc_demo manager_plain)
   in read_at_snapshot_uncached list_kv markers_new db' [0x61] 1 4 = read_at_snapshot_uncached list_kv markers_new three_versions [0x61] 1 4"
proof -
  let ?reg = "registry_new\<lparr>cr_pins := [(0, 4)]\<rparr>"
  obtain db' vg' sm' res where c: "run_cycle list_kv 1000 [(9, 20)] registry_new ?reg None None three_versions gc_demo manager_plain = (db', vg', sm', res)"
    by (metis prod.exhaust)
  have a: "table_name [0x61]" by (simp add: table_name_def is_utf8_ascii)
  have p: "protected ?reg None 4 \<or> check_gc_horizon sm' 4 = Inr ()" by (simp add: protected_def)
  show ?thesis using gc_cycle_keeps_readers [OF list_kv_writes three_versions_holds three_versions_events a c p, of markers_new] c by (simp add: Let_def)
qed

end
