(* ===== verification/Write_Census.thy ===== *)
theory Write_Census
  imports Prelude "HOL-Library.AList"
begin

text \<open>
  The census of staged writes (\<^verbatim>\<open>src/src/storage/transaction.rs\<close>, \<open>UncommittedWriteCensus\<close>,
  \<open>WriteCensusGate\<close>, \<open>UncommittedWriteHold\<close>): how many open transactions hold a staged write, per
  table and in all, and how many have removed index entries. A transaction's gate and a hold taken
  across its commit are both a set of slots. A call of a method is one step; transactions begin,
  arm, are held and end in any order. Counters are natural numbers whose decrement saturates.
\<close>

section \<open>State\<close>

record table_census =
  tw_writes :: nat
  tw_removals :: nat

record census =
  cs_open :: nat
  cs_tables :: "(bytes \<times> table_census) list"
  cs_unattributed :: nat

record slots =
  sl_counted :: bool
  sl_unattributed :: bool
  sl_tables_written :: "bytes list"
  sl_tables_removed :: "bytes list"

definition census_new :: census where
  "census_new = \<lparr>cs_open = 0, cs_tables = [], cs_unattributed = 0\<rparr>"

definition gate_new :: slots where
  "gate_new = \<lparr>sl_counted = False, sl_unattributed = False, sl_tables_written = [], sl_tables_removed = []\<rparr>"

section \<open>Questions\<close>

definition any_uncommitted_writes :: "census \<Rightarrow> bool" where
  "any_uncommitted_writes cs \<longleftrightarrow> 0 < cs_open cs"

definition table_has_staged_writes :: "census \<Rightarrow> bytes \<Rightarrow> bool" where
  "table_has_staged_writes cs t \<longleftrightarrow> 0 < cs_unattributed cs \<or> (case map_of (cs_tables cs) t of Some c \<Rightarrow> 0 < tw_writes c | None \<Rightarrow> False)"

definition table_has_staged_index_removals :: "census \<Rightarrow> bytes \<Rightarrow> bool" where
  "table_has_staged_index_removals cs t \<longleftrightarrow> 0 < cs_unattributed cs \<or> (case map_of (cs_tables cs) t of Some c \<Rightarrow> 0 < tw_removals c | None \<Rightarrow> False)"

section \<open>Counting\<close>

definition enter :: "census \<Rightarrow> census" where
  "enter cs = cs\<lparr>cs_open := cs_open cs + 1\<rparr>"

definition leave :: "census \<Rightarrow> census" where
  "leave cs = cs\<lparr>cs_open := cs_open cs - 1\<rparr>"

definition enter_unattributed :: "census \<Rightarrow> census" where
  "enter_unattributed cs = cs\<lparr>cs_unattributed := cs_unattributed cs + 1\<rparr>"

definition leave_unattributed :: "census \<Rightarrow> census" where
  "leave_unattributed cs = cs\<lparr>cs_unattributed := cs_unattributed cs - 1\<rparr>"

definition table_counts :: "census \<Rightarrow> bytes \<Rightarrow> table_census" where
  "table_counts cs t = (case map_of (cs_tables cs) t of Some c \<Rightarrow> c | None \<Rightarrow> \<lparr>tw_writes = 0, tw_removals = 0\<rparr>)"

definition enter_table_write :: "bytes \<Rightarrow> census \<Rightarrow> census" where
  "enter_table_write t cs = (let c = table_counts cs t in cs\<lparr>cs_tables := AList.update t (c\<lparr>tw_writes := tw_writes c + 1\<rparr>) (cs_tables cs)\<rparr>)"

definition leave_table_write :: "bytes \<Rightarrow> census \<Rightarrow> census" where
  "leave_table_write t cs = (case map_of (cs_tables cs) t of None \<Rightarrow> cs
     | Some c \<Rightarrow> cs\<lparr>cs_tables := AList.update t (c\<lparr>tw_writes := tw_writes c - 1\<rparr>) (cs_tables cs)\<rparr>)"

definition enter_table_removal :: "bytes \<Rightarrow> census \<Rightarrow> census" where
  "enter_table_removal t cs = (let c = table_counts cs t in cs\<lparr>cs_tables := AList.update t (c\<lparr>tw_removals := tw_removals c + 1\<rparr>) (cs_tables cs)\<rparr>)"

definition leave_table_removal :: "bytes \<Rightarrow> census \<Rightarrow> census" where
  "leave_table_removal t cs = (case map_of (cs_tables cs) t of None \<Rightarrow> cs
     | Some c \<Rightarrow> cs\<lparr>cs_tables := AList.update t (c\<lparr>tw_removals := tw_removals c - 1\<rparr>) (cs_tables cs)\<rparr>)"

definition hold :: "slots \<Rightarrow> census \<Rightarrow> census" where
  "hold sl cs = (let cs = (if sl_counted sl then enter cs else cs); cs = (if sl_unattributed sl then enter_unattributed cs else cs)
     in fold enter_table_removal (sl_tables_removed sl) (fold enter_table_write (sl_tables_written sl) cs))"

text \<open>Dropping a hold, and the body of \<open>release\<close>, which empties the gate as well.\<close>

definition leave_all :: "slots \<Rightarrow> census \<Rightarrow> census" where
  "leave_all sl cs = (let cs = fold leave_table_write (sl_tables_written sl) (fold leave_table_removal (sl_tables_removed sl) cs);
       cs = (if sl_unattributed sl then leave_unattributed cs else cs) in if sl_counted sl then leave cs else cs)"

definition release :: "slots \<Rightarrow> census \<Rightarrow> slots \<times> census" where
  "release sl cs = (gate_new, leave_all sl cs)"

section \<open>Arming\<close>

definition note_write :: "slots \<Rightarrow> census \<Rightarrow> slots \<times> census" where
  "note_write sl cs = (if sl_counted sl then (sl, cs) else (sl\<lparr>sl_counted := True\<rparr>, enter cs))"

definition note_table_write :: "bytes \<Rightarrow> slots \<Rightarrow> census \<Rightarrow> slots \<times> census" where
  "note_table_write t sl cs = (if t \<in> set (sl_tables_written sl) then (sl, cs)
     else (sl\<lparr>sl_tables_written := t # sl_tables_written sl\<rparr>, enter_table_write t cs))"

definition note_table_removal :: "bytes \<Rightarrow> slots \<Rightarrow> census \<Rightarrow> slots \<times> census" where
  "note_table_removal t sl cs = (if t \<in> set (sl_tables_removed sl) then (sl, cs)
     else let (sl, cs) = note_table_write t sl cs in (sl\<lparr>sl_tables_removed := t # sl_tables_removed sl\<rparr>, enter_table_removal t cs))"

definition note_unattributed :: "slots \<Rightarrow> census \<Rightarrow> slots \<times> census" where
  "note_unattributed sl cs = (if sl_unattributed sl then (sl, cs) else (sl\<lparr>sl_unattributed := True\<rparr>, enter_unattributed cs))"

section \<open>Any number of transactions\<close>

record census_system =
  sy_census :: census
  sy_gates :: "(nat \<times> slots) list"
  sy_holds :: "(nat \<times> slots) list"

definition with_gate :: "nat \<Rightarrow> (slots \<Rightarrow> census \<Rightarrow> slots \<times> census) \<Rightarrow> census_system \<Rightarrow> census_system" where
  "with_gate i f sy = (case map_of (sy_gates sy) i of None \<Rightarrow> sy
     | Some sl \<Rightarrow> let (sl, cs) = f sl (sy_census sy) in sy\<lparr>sy_census := cs, sy_gates := AList.update i sl (sy_gates sy)\<rparr>)"

datatype census_op =
    Begin nat | Note_write nat | Note_table_write nat bytes | Note_table_removal nat bytes | Note_unattributed nat
  | Take_hold nat nat | Drop_hold nat | Finish nat

text \<open>
  \<open>Take_hold\<close> is \<open>write_census_hold\<close>, which gives nothing for a transaction that is neither counted
  nor unattributed; \<open>Finish\<close> is the drop of a transaction.
\<close>

fun census_step :: "census_op \<Rightarrow> census_system \<Rightarrow> census_system" where
  "census_step (Begin i) sy = (if i \<in> fst ` set (sy_gates sy) then sy else sy\<lparr>sy_gates := (i, gate_new) # sy_gates sy\<rparr>)"
| "census_step (Note_write i) sy = with_gate i note_write sy"
| "census_step (Note_table_write i t) sy = with_gate i (note_table_write t) sy"
| "census_step (Note_table_removal i t) sy = with_gate i (note_table_removal t) sy"
| "census_step (Note_unattributed i) sy = with_gate i note_unattributed sy"
| "census_step (Take_hold i j) sy = (case map_of (sy_gates sy) i of None \<Rightarrow> sy
     | Some sl \<Rightarrow> if j \<in> fst ` set (sy_holds sy) \<or> \<not> sl_counted sl \<and> \<not> sl_unattributed sl then sy
         else sy\<lparr>sy_census := hold sl (sy_census sy), sy_holds := (j, sl) # sy_holds sy\<rparr>)"
| "census_step (Drop_hold j) sy = (case map_of (sy_holds sy) j of None \<Rightarrow> sy
     | Some sl \<Rightarrow> sy\<lparr>sy_census := leave_all sl (sy_census sy), sy_holds := AList.delete j (sy_holds sy)\<rparr>)"
| "census_step (Finish i) sy = (case map_of (sy_gates sy) i of None \<Rightarrow> sy
     | Some sl \<Rightarrow> sy\<lparr>sy_census := snd (release sl (sy_census sy)), sy_gates := AList.delete i (sy_gates sy)\<rparr>)"

definition census_run :: "census_op list \<Rightarrow> census_system" where
  "census_run ops = fold census_step ops \<lparr>sy_census = census_new, sy_gates = [], sy_holds = []\<rparr>"

definition members :: "census_system \<Rightarrow> slots list" where
  "members sy = map snd (sy_gates sy) @ map snd (sy_holds sy)"

section \<open>The counters are a tally of the slots\<close>

definition tally :: "census \<Rightarrow> slots multiset \<Rightarrow> bool" where
  "tally cs M \<longleftrightarrow> cs_open cs = size (filter_mset sl_counted M) \<and> cs_unattributed cs = size (filter_mset sl_unattributed M)
     \<and> (\<forall>t. tw_writes (table_counts cs t) = size (filter_mset (\<lambda>sl. t \<in> set (sl_tables_written sl)) M)
          \<and> tw_removals (table_counts cs t) = size (filter_mset (\<lambda>sl. t \<in> set (sl_tables_removed sl)) M))"

definition slots_ok :: "slots \<Rightarrow> bool" where
  "slots_ok sl \<longleftrightarrow> distinct (sl_tables_written sl) \<and> distinct (sl_tables_removed sl) \<and> set (sl_tables_removed sl) \<subseteq> set (sl_tables_written sl)"

lemma counts_entered:
  "table_counts (enter_table_write t cs) t' = (if t' = t then (table_counts cs t)\<lparr>tw_writes := tw_writes (table_counts cs t) + 1\<rparr> else table_counts cs t')"
  "table_counts (enter_table_removal t cs) t' = (if t' = t then (table_counts cs t)\<lparr>tw_removals := tw_removals (table_counts cs t) + 1\<rparr> else table_counts cs t')"
  by (simp_all add: table_counts_def enter_table_write_def enter_table_removal_def Let_def update_conv)

lemma counts_left:
  "table_counts (leave_table_write t cs) t' = (if t' = t then (table_counts cs t)\<lparr>tw_writes := tw_writes (table_counts cs t) - 1\<rparr> else table_counts cs t')"
  "table_counts (leave_table_removal t cs) t' = (if t' = t then (table_counts cs t)\<lparr>tw_removals := tw_removals (table_counts cs t) - 1\<rparr> else table_counts cs t')"
  by (auto simp: table_counts_def leave_table_write_def leave_table_removal_def update_conv split: option.splits)

lemma totals_kept [simp]:
  "cs_open (enter_table_write t cs) = cs_open cs" "cs_unattributed (enter_table_write t cs) = cs_unattributed cs"
  "cs_open (enter_table_removal t cs) = cs_open cs" "cs_unattributed (enter_table_removal t cs) = cs_unattributed cs"
  "cs_open (leave_table_write t cs) = cs_open cs" "cs_unattributed (leave_table_write t cs) = cs_unattributed cs"
  "cs_open (leave_table_removal t cs) = cs_open cs" "cs_unattributed (leave_table_removal t cs) = cs_unattributed cs"
  by (auto simp: enter_table_write_def enter_table_removal_def leave_table_write_def leave_table_removal_def Let_def split: option.splits)

lemma totals_fold [simp]:
  "cs_open (fold enter_table_write ts cs) = cs_open cs" "cs_unattributed (fold enter_table_write ts cs) = cs_unattributed cs"
  "cs_open (fold enter_table_removal ts cs) = cs_open cs" "cs_unattributed (fold enter_table_removal ts cs) = cs_unattributed cs"
  "cs_open (fold leave_table_write ts cs) = cs_open cs" "cs_unattributed (fold leave_table_write ts cs) = cs_unattributed cs"
  "cs_open (fold leave_table_removal ts cs) = cs_open cs" "cs_unattributed (fold leave_table_removal ts cs) = cs_unattributed cs"
  by (induction ts arbitrary: cs) simp_all

lemma table_counts_fold:
  "distinct ts \<Longrightarrow> tw_writes (table_counts (fold enter_table_write ts cs) t) = tw_writes (table_counts cs t) + (if t \<in> set ts then 1 else 0)"
  "tw_removals (table_counts (fold enter_table_write ts cs) t) = tw_removals (table_counts cs t)"
  "distinct ts \<Longrightarrow> tw_removals (table_counts (fold enter_table_removal ts cs) t) = tw_removals (table_counts cs t) + (if t \<in> set ts then 1 else 0)"
  "tw_writes (table_counts (fold enter_table_removal ts cs) t) = tw_writes (table_counts cs t)"
  "distinct ts \<Longrightarrow> tw_writes (table_counts (fold leave_table_write ts cs) t) = tw_writes (table_counts cs t) - (if t \<in> set ts then 1 else 0)"
  "tw_removals (table_counts (fold leave_table_write ts cs) t) = tw_removals (table_counts cs t)"
  "distinct ts \<Longrightarrow> tw_removals (table_counts (fold leave_table_removal ts cs) t) = tw_removals (table_counts cs t) - (if t \<in> set ts then 1 else 0)"
  "tw_writes (table_counts (fold leave_table_removal ts cs) t) = tw_writes (table_counts cs t)"
  by (induction ts arbitrary: cs) (auto simp: counts_entered counts_left)

lemma table_counts_totals [simp]:
  "table_counts (enter cs) t = table_counts cs t" "table_counts (enter_unattributed cs) t = table_counts cs t"
  "table_counts (leave cs) t = table_counts cs t" "table_counts (leave_unattributed cs) t = table_counts cs t"
  by (simp_all add: table_counts_def enter_def leave_def enter_unattributed_def leave_unattributed_def)

lemmas totals_defs = enter_def leave_def enter_unattributed_def leave_unattributed_def

lemma tally_hold: "tally cs M \<Longrightarrow> slots_ok sl \<Longrightarrow> tally (hold sl cs) (add_mset sl M)"
  by (simp add: tally_def hold_def Let_def slots_ok_def table_counts_fold) (simp add: totals_defs)

lemma tally_leave: "tally cs (add_mset sl M) \<Longrightarrow> slots_ok sl \<Longrightarrow> tally (leave_all sl cs) M"
  by (simp add: tally_def leave_all_def Let_def slots_ok_def table_counts_fold) (simp add: totals_defs)

definition keeps_tally :: "(slots \<Rightarrow> census \<Rightarrow> slots \<times> census) \<Rightarrow> bool" where
  "keeps_tally f \<longleftrightarrow> (\<forall>sl cs M. tally cs (add_mset sl M) \<and> slots_ok sl \<longrightarrow> tally (snd (f sl cs)) (add_mset (fst (f sl cs)) M) \<and> slots_ok (fst (f sl cs)))"

lemma notes_keep_tally: "keeps_tally note_write" "keeps_tally (note_table_write t)" "keeps_tally (note_table_removal t)" "keeps_tally note_unattributed"
proof -
  show "keeps_tally note_write" "keeps_tally note_unattributed"
    by (simp_all add: keeps_tally_def note_write_def note_unattributed_def tally_def slots_ok_def) (simp_all add: totals_defs)
  show w: "keeps_tally (note_table_write t)"
    by (auto simp: keeps_tally_def note_table_write_def tally_def slots_ok_def counts_entered)
  show "keeps_tally (note_table_removal t)" unfolding keeps_tally_def
  proof (intro allI impI)
    fix sl cs M assume a: "tally cs (add_mset sl M) \<and> slots_ok sl"
    obtain sl1 cs1 where n: "note_table_write t sl cs = (sl1, cs1)" by (cases "note_table_write t sl cs")
    have "tally cs1 (add_mset sl1 M) \<and> slots_ok sl1" using w a n unfolding keeps_tally_def by (metis fst_conv snd_conv)
    moreover have "t \<in> set (sl_tables_written sl1)" "sl_tables_removed sl1 = sl_tables_removed sl" using n by (auto simp: note_table_write_def split: if_splits)
    ultimately show "tally (snd (note_table_removal t sl cs)) (add_mset (fst (note_table_removal t sl cs)) M) \<and> slots_ok (fst (note_table_removal t sl cs))"
      using a n by (auto simp: note_table_removal_def tally_def slots_ok_def counts_entered)
  qed
qed

definition system_ok :: "census_system \<Rightarrow> bool" where
  "system_ok sy \<longleftrightarrow> tally (sy_census sy) (mset (members sy)) \<and> (\<forall>sl \<in> set (members sy). slots_ok sl)
     \<and> distinct (map fst (sy_gates sy)) \<and> distinct (map fst (sy_holds sy))"

lemma mset_update: "distinct (map fst xs) \<Longrightarrow> map_of xs i = Some x \<Longrightarrow>
    mset (map snd xs) = add_mset x (mset (map snd (AList.delete i xs))) \<and> mset (map snd (AList.update i y xs)) = add_mset y (mset (map snd (AList.delete i xs)))"
proof (induction xs)
  case (Cons a xs)
  obtain k v where a: "a = (k, v)" by (cases a)
  have "AList.delete k xs = xs" using Cons.prems(1) a by (intro delete_id) simp
  then show ?case using Cons a by (cases "k = i") (simp_all add: delete_simps)
qed simp

lemma with_gate_ok: "keeps_tally f \<Longrightarrow> system_ok sy \<Longrightarrow> system_ok (with_gate i f sy)"
proof (cases "map_of (sy_gates sy) i")
  case (Some sl)
  assume f: "keeps_tally f" and ok: "system_ok sy"
  let ?M = "mset (map snd (AList.delete i (sy_gates sy))) + mset (map snd (sy_holds sy))"
  note u = mset_update [OF _ Some, of "fst (f sl (sy_census sy))"]
  have d: "distinct (map fst (sy_gates sy))" using ok by (simp add: system_ok_def)
  have M: "mset (members sy) = add_mset sl ?M" using u [OF d] by (simp add: members_def)
  have old: "slots_ok x" if "x \<in># add_mset sl ?M" for x using ok M that unfolding system_ok_def by (metis set_mset_mset)
  have "tally (sy_census sy) (add_mset sl ?M)" "slots_ok sl" using ok M old unfolding system_ok_def by simp_all
  then have "tally (snd (f sl (sy_census sy))) (add_mset (fst (f sl (sy_census sy))) ?M) \<and> slots_ok (fst (f sl (sy_census sy)))"
    using f unfolding keeps_tally_def by blast
  moreover have M': "mset (members (with_gate i f sy)) = add_mset (fst (f sl (sy_census sy))) ?M"
    using u [OF d] Some by (simp add: members_def with_gate_def case_prod_beta Let_def)
  moreover have "slots_ok x" if "x \<in> set (members (with_gate i f sy))" for x
    using that old calculation by (metis insert_iff set_mset_add_mset_insert set_mset_mset)
  moreover have "distinct (map fst (AList.update i (fst (f sl (sy_census sy))) (sy_gates sy)))" using d by (rule distinct_update)
  ultimately show ?thesis using ok Some by (simp add: system_ok_def with_gate_def case_prod_beta Let_def)
qed (simp add: with_gate_def)

lemma leave_ok:
  assumes ok: "system_ok sy" and M: "mset (members sy) = add_mset sl (mset (members sy'))" and c: "sy_census sy' = leave_all sl (sy_census sy)"
    and d: "distinct (map fst (sy_gates sy'))" "distinct (map fst (sy_holds sy'))"
  shows "system_ok sy'"
proof -
  have "slots_ok x" if "x \<in># add_mset sl (mset (members sy'))" for x using ok M that unfolding system_ok_def by (metis set_mset_mset)
  then show ?thesis using ok tally_leave M c d unfolding system_ok_def by simp
qed

lemma census_step_ok: "system_ok sy \<Longrightarrow> system_ok (census_step op sy)"
proof (cases op)
  case (Begin i)
  assume "system_ok sy"
  then show ?thesis using Begin by (auto simp: system_ok_def members_def tally_def gate_new_def slots_ok_def)
next
  case (Take_hold i j)
  assume ok: "system_ok sy"
  show ?thesis
  proof (cases "map_of (sy_gates sy) i")
    case (Some sl)
    then have "sl \<in> set (members sy)" using map_of_SomeD by (force simp: members_def)
    then show ?thesis using ok Some Take_hold tally_hold by (auto simp: system_ok_def members_def)
  qed (use ok Take_hold in simp)
next
  case (Drop_hold j)
  assume ok: "system_ok sy"
  show ?thesis
  proof (cases "map_of (sy_holds sy) j")
    case (Some sl)
    show ?thesis by (rule leave_ok [OF ok, of sl]) (use ok Some Drop_hold mset_update [OF _ Some] distinct_delete in \<open>auto simp: system_ok_def members_def\<close>)
  qed (use ok Drop_hold in simp)
next
  case (Finish i)
  assume ok: "system_ok sy"
  show ?thesis
  proof (cases "map_of (sy_gates sy) i")
    case (Some sl)
    show ?thesis by (rule leave_ok [OF ok, of sl]) (use ok Some Finish mset_update [OF _ Some] distinct_delete in \<open>auto simp: system_ok_def members_def release_def\<close>)
  qed (use ok Finish in simp)
qed (simp_all add: with_gate_ok notes_keep_tally)

lemma census_run_ok: "system_ok (census_run ops)"
proof -
  have "system_ok sy \<Longrightarrow> system_ok (fold census_step ops sy)" for sy by (induction ops arbitrary: sy) (simp_all add: census_step_ok)
  moreover have "system_ok \<lparr>sy_census = census_new, sy_gates = [], sy_holds = []\<rparr>"
    by (simp add: system_ok_def members_def tally_def table_counts_def census_new_def)
  ultimately show ?thesis by (simp add: census_run_def)
qed

section \<open>Properties\<close>

text \<open>
  C23. The census is exact: after any interleaving of transactions that begin, arm, are held across
  a commit and end, its answers are those of the open gates and holds, no more and no less. A table
  reports staged writes exactly when some of them holds the table or a key without a table, and
  once all have ended it reports nothing.
\<close>

theorem census_exact:
  "(any_uncommitted_writes (sy_census (census_run ops)) \<longleftrightarrow> (\<exists>sl \<in> set (members (census_run ops)). sl_counted sl))
   \<and> (table_has_staged_writes (sy_census (census_run ops)) t
        \<longleftrightarrow> (\<exists>sl \<in> set (members (census_run ops)). sl_unattributed sl \<or> t \<in> set (sl_tables_written sl)))
   \<and> (table_has_staged_index_removals (sy_census (census_run ops)) t
        \<longleftrightarrow> (\<exists>sl \<in> set (members (census_run ops)). sl_unattributed sl \<or> t \<in> set (sl_tables_removed sl)))"
proof -
  let ?cs = "sy_census (census_run ops)" and ?M = "mset (members (census_run ops))"
  have T: "tally ?cs ?M" using census_run_ok [of ops] by (simp add: system_ok_def)
  have pos: "0 < size (filter_mset P ?M) \<longleftrightarrow> (\<exists>sl \<in> set (members (census_run ops)). P sl)" for P
    by (auto simp: zero_less_iff_neq_zero)
  have c: "(case map_of (cs_tables ?cs) t of Some c \<Rightarrow> 0 < tw_writes c | None \<Rightarrow> False) \<longleftrightarrow> 0 < tw_writes (table_counts ?cs t)"
    "(case map_of (cs_tables ?cs) t of Some c \<Rightarrow> 0 < tw_removals c | None \<Rightarrow> False) \<longleftrightarrow> 0 < tw_removals (table_counts ?cs t)"
    by (auto simp: table_counts_def split: option.splits)
  show ?thesis unfolding any_uncommitted_writes_def table_has_staged_writes_def table_has_staged_index_removals_def c
    using T pos unfolding tally_def by (simp add: zero_less_iff_neq_zero) blast
qed

end
