(* ===== verification/Transaction.thy ===== *)
theory Transaction
  imports Version_Store Write_Census Lock_Manager
begin

text \<open>
  A transaction while it is open (\<^verbatim>\<open>src/src/storage/transaction.rs\<close>): reads through the staged
  writes to the snapshot, staging of puts, deletes, fast inserts and row counters, attribution of
  staged keys to tables and to the census, savepoints, roll-back, and the merge of staged rows
  into a scan. The lock manager and the census are shared state in \<open>txn_env\<close>. A call that has to
  wait for a lock is \<open>Waiting\<close>; \<open>elapsed\<close> is the comparison of the clock with the lock timeout. The
  write set is the association list of the concurrent map, its order that of its iteration.
  Serialisation of tuples is a parameter, and the dirty tracker is only present or absent.
\<close>

section \<open>State\<close>

datatype transaction_state = Active | Committed | Aborted

datatype isolation_level = ReadCommitted | RepeatableRead | Serializable

datatype staged_key = StagedValue | Tombstone

record transaction_savepoint_snapshot =
  sn_write_set :: "(bytes \<times> bytes option) list"
  sn_insert_log_len :: nat

record savepoint_entry =
  sp_name :: string
  sp_snapshot :: transaction_savepoint_snapshot
  sp_art_undo_len :: nat

record transaction =
  tx_id :: u64
  tx_snapshot_ts :: u64
  tx_write_set :: "(bytes \<times> bytes option) list"
  tx_insert_log :: "(bytes \<times> bytes) list"
  tx_row_counter_stages :: "(bytes \<times> u64) list"
  tx_written_tables :: "bytes list"
  tx_has_unattributed_writes :: bool
  tx_state :: transaction_state
  tx_isolation_level :: isolation_level
  tx_lock_manager :: bool
  tx_acquired_locks :: "lock_guard list"
  tx_dirty_tracker :: bool
  tx_versioning_enabled :: bool
  tx_conflict_registry :: bool
  tx_conflict_validation :: bool
  tx_key_manager :: "cipher option"
  tx_sql_aborted :: bool
  tx_write_census :: "slots option"
  tx_savepoints :: "savepoint_entry list"

record txn_env =
  en_locks :: lock_manager
  en_census :: census

datatype txn_error = Not_active | Lock_failed lock_error | Storage_failed string

datatype 'a attempt = Done 'a | Failed txn_error | Waiting

definition transaction_new :: "u64 \<Rightarrow> u64 \<Rightarrow> transaction" where
  "transaction_new i snapshot = \<lparr>tx_id = i, tx_snapshot_ts = snapshot, tx_write_set = [], tx_insert_log = [], tx_row_counter_stages = [],
     tx_written_tables = [], tx_has_unattributed_writes = False, tx_state = Active, tx_isolation_level = ReadCommitted, tx_lock_manager = False,
     tx_acquired_locks = [], tx_dirty_tracker = False, tx_versioning_enabled = True, tx_conflict_registry = False, tx_conflict_validation = False,
     tx_key_manager = None, tx_sql_aborted = False, tx_write_census = None, tx_savepoints = []\<rparr>"

definition new_with_session :: "u64 \<Rightarrow> u64 \<Rightarrow> isolation_level \<Rightarrow> transaction" where
  "new_with_session i snapshot isolation =
     (transaction_new i snapshot)\<lparr>tx_isolation_level := isolation, tx_lock_manager := True, tx_dirty_tracker := True\<rparr>"

definition set_write_census :: "transaction \<Rightarrow> transaction" where
  "set_write_census tx = tx\<lparr>tx_write_census := Some gate_new\<rparr>"

definition mark_sql_aborted :: "transaction \<Rightarrow> transaction" where
  "mark_sql_aborted tx = tx\<lparr>tx_sql_aborted := True\<rparr>"

definition clear_sql_aborted :: "transaction \<Rightarrow> transaction" where
  "clear_sql_aborted tx = tx\<lparr>tx_sql_aborted := False\<rparr>"

section \<open>Locks and the census\<close>

definition txn_lock :: "bool \<Rightarrow> lock_type \<Rightarrow> bytes \<Rightarrow> txn_env \<times> transaction \<Rightarrow> (txn_env \<times> transaction) \<times> unit attempt" where
  "txn_lock elapsed ty key = (\<lambda>(env, tx). if \<not> tx_lock_manager tx then ((env, tx), Done ()) else
     case acquire_iteration (en_locks env) (map (\<lambda>b. char_of (unat b)) (from_utf8_lossy key)) (tx_id tx) ty elapsed of
       (m, Granted g) \<Rightarrow> ((env\<lparr>en_locks := m\<rparr>, tx\<lparr>tx_acquired_locks := tx_acquired_locks tx @ [g]\<rparr>), Done ())
     | (m, AcquireError e) \<Rightarrow> ((env\<lparr>en_locks := m\<rparr>, tx), Failed (Lock_failed e))
     | (m, Retry) \<Rightarrow> ((env\<lparr>en_locks := m\<rparr>, tx), Waiting))"

definition on_gate :: "(slots \<Rightarrow> census \<Rightarrow> slots \<times> census) \<Rightarrow> txn_env \<times> transaction \<Rightarrow> txn_env \<times> transaction" where
  "on_gate f = (\<lambda>(env, tx). case tx_write_census tx of None \<Rightarrow> (env, tx)
     | Some sl \<Rightarrow> let (sl, cs) = f sl (en_census env) in (env\<lparr>en_census := cs\<rparr>, tx\<lparr>tx_write_census := Some sl\<rparr>))"

definition note_index_key_removal :: "bytes \<Rightarrow> txn_env \<times> transaction \<Rightarrow> txn_env \<times> transaction" where
  "note_index_key_removal t = on_gate (note_table_removal t)"

definition key_cannot_change_an_index :: "bytes \<Rightarrow> bool" where
  "key_cannot_change_an_index key \<longleftrightarrow> (\<exists>p \<in> set [''col:'', ''colz:'', ''colzm:'', ''colp:'', ''colpm:'', ''counter:'']. starts_with (ascii p) key)"

text \<open>The table of a key \<open>data:{table}:{suffix}\<close>, cut at its first colon.\<close>

definition key_table :: "bytes \<Rightarrow> bytes option" where
  "key_table key = Option.bind (strip_prefix (ascii ''data:'') key) (\<lambda>rest. if is_utf8 rest then map_option fst (cut_first rest) else None)"

definition add_written_table :: "bytes \<Rightarrow> txn_env \<times> transaction \<Rightarrow> txn_env \<times> transaction" where
  "add_written_table t = (\<lambda>(env, tx). if t \<in> set (tx_written_tables tx) then (env, tx)
     else on_gate (note_table_write t) (env, tx\<lparr>tx_written_tables := t # tx_written_tables tx\<rparr>))"

definition note_written_key :: "bytes \<Rightarrow> staged_key \<Rightarrow> txn_env \<times> transaction \<Rightarrow> txn_env \<times> transaction" where
  "note_written_key key staged s = (let s = on_gate note_write s in case key_table key of
       Some t \<Rightarrow> let s = add_written_table t s in if staged = Tombstone then on_gate (note_table_removal t) s else s
     | None \<Rightarrow> let (env, tx) = (if key_cannot_change_an_index key then s else on_gate note_unattributed s)
         in (env, tx\<lparr>tx_has_unattributed_writes := True\<rparr>))"

definition has_writes_for_table :: "transaction \<Rightarrow> bytes \<Rightarrow> bool" where
  "has_writes_for_table tx t \<longleftrightarrow> tx_has_unattributed_writes tx \<or> t \<in> set (tx_written_tables tx)"

section \<open>Reading\<close>

definition staged_lookup :: "transaction \<Rightarrow> bytes \<Rightarrow> bytes option option" where
  "staged_lookup tx key = (case map_of (tx_write_set tx) key of Some v \<Rightarrow> Some v
     | None \<Rightarrow> map_option Some (map_of (rev (tx_insert_log tx)) key))"

definition read_raw_decoded :: "'db kv \<Rightarrow> transaction \<Rightarrow> 'db \<Rightarrow> bytes \<Rightarrow> txn_error + bytes option" where
  "read_raw_decoded kv tx db key = map_sum Storage_failed (open_opt (tx_key_manager tx)) (kv_get kv db key)"

definition read_at_version ::
  "'db kv \<Rightarrow> (snapshot_cache \<Rightarrow> snapshot_cache) \<Rightarrow> transaction \<Rightarrow> 'db \<Rightarrow> bytes \<Rightarrow> snapshot_manager \<Rightarrow> snapshot_manager \<times> (txn_error + bytes option)" where
  "read_at_version kv evict tx db key sm = (case strip_prefix (ascii ''data:'') key of
       None \<Rightarrow> (sm, read_raw_decoded kv tx db key)
     | Some rest \<Rightarrow>
         if \<not> is_utf8 key then (sm, Inl (Storage_failed ''Invalid key encoding''))
         else case Option.bind (cut_first rest) (\<lambda>(t, r). map_option (Pair t) (parse_u64 r)) of
             None \<Rightarrow> (sm, read_raw_decoded kv tx db key)
           | Some (t, r) \<Rightarrow>
               if \<not> tx_versioning_enabled tx then (sm, read_raw_decoded kv tx db key)
               else apsnd (map_sum Storage_failed id) (read_at_snapshot kv evict db t r (tx_snapshot_ts tx) sm))"

definition txn_get ::
  "'db kv \<Rightarrow> (snapshot_cache \<Rightarrow> snapshot_cache) \<Rightarrow> bool \<Rightarrow> 'db \<Rightarrow> bytes \<Rightarrow> snapshot_manager \<Rightarrow> txn_env \<times> transaction
     \<Rightarrow> snapshot_manager \<times> (txn_env \<times> transaction) \<times> bytes option attempt" where
  "txn_get kv evict elapsed db key sm s = (if tx_state (snd s) \<noteq> Active then (sm, s, Failed Not_active) else
     case (if tx_isolation_level (snd s) \<in> {RepeatableRead, Serializable} then txn_lock elapsed ReadLock key s else (s, Done ())) of
       (s, Failed e) \<Rightarrow> (sm, s, Failed e)
     | (s, Waiting) \<Rightarrow> (sm, s, Waiting)
     | (s, Done _) \<Rightarrow> (case staged_lookup (snd s) key of
           Some v \<Rightarrow> (sm, s, Done v)
         | None \<Rightarrow> (case read_at_version kv evict (snd s) db key sm of
               (sm, Inl e) \<Rightarrow> (sm, s, Failed e) | (sm, Inr v) \<Rightarrow> (sm, s, Done v))))"

section \<open>Staging\<close>

definition txn_put :: "bool \<Rightarrow> bytes \<Rightarrow> bytes \<Rightarrow> txn_env \<times> transaction \<Rightarrow> (txn_env \<times> transaction) \<times> unit attempt" where
  "txn_put elapsed key v s = (if tx_state (snd s) \<noteq> Active then (s, Failed Not_active) else
     case txn_lock elapsed WriteLock key s of
       (s, Done _) \<Rightarrow> (let (env, tx) = note_written_key key StagedValue s in ((env, tx\<lparr>tx_write_set := AList.update key (Some v) (tx_write_set tx)\<rparr>), Done ()))
     | (s, Failed e) \<Rightarrow> (s, Failed e)
     | (s, Waiting) \<Rightarrow> (s, Waiting))"

definition put_insert_fast :: "bool \<Rightarrow> bytes \<Rightarrow> bytes \<Rightarrow> txn_env \<times> transaction \<Rightarrow> (txn_env \<times> transaction) \<times> unit attempt" where
  "put_insert_fast elapsed key v s = (if tx_state (snd s) \<noteq> Active then (s, Failed Not_active)
     else if tx_lock_manager (snd s) \<or> tx_dirty_tracker (snd s) then txn_put elapsed key v s
     else let (env, tx) = note_written_key key StagedValue s in ((env, tx\<lparr>tx_insert_log := tx_insert_log tx @ [(key, v)]\<rparr>), Done ()))"

definition stage_row_counter :: "bytes \<Rightarrow> u64 \<Rightarrow> txn_env \<times> transaction \<Rightarrow> (txn_env \<times> transaction) \<times> unit attempt" where
  "stage_row_counter t r s = (if tx_state (snd s) \<noteq> Active then (s, Failed Not_active) else
     let (env, tx) = add_written_table t (on_gate note_write s);
         highest = (case map_of (tx_row_counter_stages tx) t of Some current \<Rightarrow> max current r | None \<Rightarrow> r)
     in ((env, tx\<lparr>tx_row_counter_stages := AList.update t highest (tx_row_counter_stages tx)\<rparr>), Done ()))"

definition txn_delete :: "bytes \<Rightarrow> txn_env \<times> transaction \<Rightarrow> (txn_env \<times> transaction) \<times> unit attempt" where
  "txn_delete key s = (if tx_state (snd s) \<noteq> Active then (s, Failed Not_active) else
     let (env, tx) = note_written_key key Tombstone s in ((env, tx\<lparr>tx_write_set := AList.update key None (tx_write_set tx)\<rparr>), Done ()))"

record row_tuple =
  rt_values :: "sql_value list"
  rt_row_id :: "u64 option"

text \<open>The loops of \<open>update_tuples\<close> and \<open>delete_tuples\<close>; a failure keeps the rows staged before it.\<close>

fun update_tuples_loop :: "(row_tuple \<Rightarrow> string + bytes) \<Rightarrow> bool \<Rightarrow> bytes \<Rightarrow> (u64 \<times> row_tuple) list \<Rightarrow> nat \<Rightarrow> txn_env \<times> transaction
    \<Rightarrow> (txn_env \<times> transaction) \<times> nat attempt" where
  "update_tuples_loop ser elapsed t [] n s = (s, Done n)"
| "update_tuples_loop ser elapsed t ((r, tuple) # us) n s = (case ser tuple of
       Inl e \<Rightarrow> (s, Failed (Storage_failed e))
     | Inr v \<Rightarrow> (case txn_put elapsed (data_key t r) v s of
           (s, Done _) \<Rightarrow> update_tuples_loop ser elapsed t us (n + 1) s
         | (s, Failed e) \<Rightarrow> (s, Failed e)
         | (s, Waiting) \<Rightarrow> (s, Waiting)))"

definition update_tuples where
  "update_tuples ser elapsed t updates s = (if tx_state (snd s) \<noteq> Active then (s, Failed Not_active) else update_tuples_loop ser elapsed t updates 0 s)"

fun delete_tuples_loop :: "bytes \<Rightarrow> u64 list \<Rightarrow> nat \<Rightarrow> txn_env \<times> transaction \<Rightarrow> (txn_env \<times> transaction) \<times> nat attempt" where
  "delete_tuples_loop t [] n s = (s, Done n)"
| "delete_tuples_loop t (r # rs) n s = (case txn_delete (data_key t r) s of
       (s, Done _) \<Rightarrow> delete_tuples_loop t rs (n + 1) s | (s, Failed e) \<Rightarrow> (s, Failed e) | (s, Waiting) \<Rightarrow> (s, Waiting))"

definition delete_tuples where
  "delete_tuples t rows s = (if tx_state (snd s) \<noteq> Active then (s, Failed Not_active) else delete_tuples_loop t rows 0 s)"

section \<open>Savepoints and the end\<close>

definition savepoint_snapshot :: "transaction \<Rightarrow> transaction_savepoint_snapshot" where
  "savepoint_snapshot tx = \<lparr>sn_write_set = tx_write_set tx, sn_insert_log_len = length (tx_insert_log tx)\<rparr>"

definition rollback_to_savepoint :: "transaction_savepoint_snapshot \<Rightarrow> transaction \<Rightarrow> transaction" where
  "rollback_to_savepoint sn tx = tx\<lparr>
     tx_write_set := fold (\<lambda>(k, v). AList.update k v) (sn_write_set sn) (filter (\<lambda>e. fst e \<in> fst ` set (sn_write_set sn)) (tx_write_set tx)),
     tx_insert_log := take (sn_insert_log_len sn) (tx_insert_log tx)\<rparr>"

definition push_savepoint :: "string \<Rightarrow> transaction_savepoint_snapshot \<Rightarrow> nat \<Rightarrow> transaction \<Rightarrow> transaction" where
  "push_savepoint name sn undo tx = tx\<lparr>tx_savepoints := tx_savepoints tx @ [\<lparr>sp_name = name, sp_snapshot = sn, sp_art_undo_len = undo\<rparr>]\<rparr>"

definition rposition :: "string \<Rightarrow> savepoint_entry list \<Rightarrow> nat option" where
  "rposition name stack = (case filter (\<lambda>i. sp_name (stack ! i) = name) [0..<length stack] of [] \<Rightarrow> None | is \<Rightarrow> Some (last is))"

definition release_savepoint :: "string \<Rightarrow> transaction \<Rightarrow> transaction \<times> bool" where
  "release_savepoint name tx = (case rposition name (tx_savepoints tx) of
       Some p \<Rightarrow> (tx\<lparr>tx_savepoints := take p (tx_savepoints tx)\<rparr>, True) | None \<Rightarrow> (tx, False))"

definition resolve_savepoint_target :: "string \<Rightarrow> transaction \<Rightarrow> transaction \<times> (transaction_savepoint_snapshot \<times> nat) option" where
  "resolve_savepoint_target name tx = (case rposition name (tx_savepoints tx) of
       None \<Rightarrow> (tx, None)
     | Some p \<Rightarrow> (tx\<lparr>tx_savepoints := take (p + 1) (tx_savepoints tx)\<rparr>,
         Some (sp_snapshot (tx_savepoints tx ! p), sp_art_undo_len (tx_savepoints tx ! p))))"

text \<open>The statements: the length of the undo log of the indexes is an argument and a result.\<close>

definition savepoint_establish :: "string \<Rightarrow> nat \<Rightarrow> transaction \<Rightarrow> transaction" where
  "savepoint_establish name undo tx = push_savepoint name (savepoint_snapshot tx) undo tx"

definition savepoint_release :: "string \<Rightarrow> transaction \<Rightarrow> transaction \<times> (string + unit)" where
  "savepoint_release name tx = (case release_savepoint name tx of (tx, ok) \<Rightarrow> (tx, if ok then Inr () else Inl ''savepoint does not exist''))"

definition savepoint_rollback_to :: "string \<Rightarrow> transaction \<Rightarrow> transaction \<times> (string + nat)" where
  "savepoint_rollback_to name tx = (case resolve_savepoint_target name tx of
       (tx, Some (sn, undo)) \<Rightarrow> (rollback_to_savepoint sn tx, Inr undo) | (tx, None) \<Rightarrow> (tx, Inl ''savepoint does not exist''))"

definition discard_staged_for_table :: "bytes \<Rightarrow> transaction \<Rightarrow> transaction" where
  "discard_staged_for_table t tx = tx\<lparr>
     tx_write_set := filter (\<lambda>e. \<not> starts_with (data_prefix t) (fst e)) (tx_write_set tx),
     tx_insert_log := filter (\<lambda>e. \<not> starts_with (data_prefix t) (fst e)) (tx_insert_log tx),
     tx_row_counter_stages := AList.delete t (tx_row_counter_stages tx)\<rparr>"

definition txn_rollback :: "txn_env \<times> transaction \<Rightarrow> (txn_env \<times> transaction) \<times> unit attempt" where
  "txn_rollback = (\<lambda>(env, tx). if tx_state tx \<noteq> Active then ((env, tx), Failed Not_active) else
     ((env\<lparr>en_locks := fold (\<lambda>g m. guard_drop m g) (tx_acquired_locks tx) (en_locks env)\<rparr>,
       tx\<lparr>tx_state := Aborted, tx_acquired_locks := [], tx_write_set := [], tx_insert_log := [], tx_row_counter_stages := []\<rparr>), Done ()))"

section \<open>Scans\<close>

definition pad_to :: "nat option \<Rightarrow> row_tuple \<Rightarrow> row_tuple" where
  "pad_to width tuple = (case width of None \<Rightarrow> tuple
     | Some w \<Rightarrow> if length (rt_values tuple) < w then tuple\<lparr>rt_values := rt_values tuple @ replicate (w - length (rt_values tuple)) Null\<rparr> else tuple)"

definition staged_tuple :: "(bytes \<Rightarrow> string + row_tuple) \<Rightarrow> nat option \<Rightarrow> u64 \<Rightarrow> bytes \<Rightarrow> txn_error + row_tuple" where
  "staged_tuple de width r v = map_sum Storage_failed (\<lambda>tuple. pad_to width (tuple\<lparr>rt_row_id := Some r\<rparr>)) (de v)"

fun merge_base :: "(bytes \<Rightarrow> string + row_tuple) \<Rightarrow> nat option \<Rightarrow> (bytes \<times> bytes option) list \<Rightarrow> bytes \<Rightarrow> row_tuple list \<Rightarrow> txn_error + row_tuple list \<times> u64 list" where
  "merge_base de width ws t [] = Inr ([], [])"
| "merge_base de width ws t (tuple # tuples) = (case rt_row_id tuple of
       None \<Rightarrow> bind_result (merge_base de width ws t tuples) (\<lambda>(out, handled). Inr (tuple # out, handled))
     | Some r \<Rightarrow> (case map_of ws (data_key t r) of
           None \<Rightarrow> bind_result (merge_base de width ws t tuples) (\<lambda>(out, handled). Inr (tuple # out, r # handled))
         | Some None \<Rightarrow> bind_result (merge_base de width ws t tuples) (\<lambda>(out, handled). Inr (out, r # handled))
         | Some (Some v) \<Rightarrow> bind_result (staged_tuple de width r v) (\<lambda>updated.
             bind_result (merge_base de width ws t tuples) (\<lambda>(out, handled). Inr (updated # out, r # handled)))))"

text \<open>The row of a key of the table, and the rows of the write set and of the log that the base has not.\<close>

definition table_row :: "bytes \<Rightarrow> bytes \<Rightarrow> u64 option" where
  "table_row t key = (if is_utf8 key then Option.bind (strip_prefix (data_prefix t) key) parse_u64 else None)"

fun merge_write_set :: "(bytes \<Rightarrow> string + row_tuple) \<Rightarrow> nat option \<Rightarrow> bytes \<Rightarrow> u64 list \<Rightarrow> (bytes \<times> bytes option) list \<Rightarrow> txn_error + row_tuple list" where
  "merge_write_set de width t handled [] = Inr []"
| "merge_write_set de width t handled ((key, v) # ws) = (case table_row t key of
       None \<Rightarrow> merge_write_set de width t handled ws
     | Some r \<Rightarrow> if r \<in> set handled then merge_write_set de width t handled ws
         else case v of None \<Rightarrow> merge_write_set de width t handled ws
           | Some data \<Rightarrow> bind_result (staged_tuple de width r data) (\<lambda>tuple. bind_result (merge_write_set de width t handled ws) (\<lambda>out. Inr (tuple # out))))"

fun merge_insert_log :: "(bytes \<Rightarrow> string + row_tuple) \<Rightarrow> nat option \<Rightarrow> (bytes \<times> bytes option) list \<Rightarrow> bytes \<Rightarrow> u64 list \<Rightarrow> (bytes \<times> bytes) list \<Rightarrow> txn_error + row_tuple list" where
  "merge_insert_log de width ws t handled [] = Inr []"
| "merge_insert_log de width ws t handled ((key, data) # log) = (
     if key \<in> fst ` set ws then merge_insert_log de width ws t handled log
     else case table_row t key of
         None \<Rightarrow> merge_insert_log de width ws t handled log
       | Some r \<Rightarrow> if r \<in> set handled then merge_insert_log de width ws t handled log
           else bind_result (staged_tuple de width r data) (\<lambda>tuple. bind_result (merge_insert_log de width ws t (r # handled) log) (\<lambda>out. Inr (tuple # out))))"

definition merge_with_write_set_inner ::
  "(bytes \<Rightarrow> string + row_tuple) \<Rightarrow> transaction \<Rightarrow> bytes \<Rightarrow> row_tuple list \<Rightarrow> nat option \<Rightarrow> txn_error + row_tuple list" where
  "merge_with_write_set_inner de tx t tuples width =
     bind_result (merge_base de width (tx_write_set tx) t tuples) (\<lambda>(base, handled).
     bind_result (merge_write_set de width t handled (tx_write_set tx)) (\<lambda>staged.
     bind_result (merge_insert_log de width (tx_write_set tx) t handled (tx_insert_log tx)) (\<lambda>inserted.
     Inr (base @ staged @ inserted))))"

definition merge_with_write_set where
  "merge_with_write_set de tx t tuples = merge_with_write_set_inner de tx t tuples None"

definition merge_with_write_set_to_width where
  "merge_with_write_set_to_width de tx t tuples width = merge_with_write_set_inner de tx t tuples (Some width)"

section \<open>Runs of one transaction\<close>

datatype txn_op =
    Op_put bytes bytes | Op_insert bytes bytes | Op_delete bytes | Op_counter bytes u64
  | Op_savepoint string nat | Op_release string | Op_rollback_to string | Op_discard bytes

fun txn_step :: "txn_op \<Rightarrow> txn_env \<times> transaction \<Rightarrow> txn_env \<times> transaction" where
  "txn_step (Op_put k v) s = fst (txn_put False k v s)"
| "txn_step (Op_insert k v) s = fst (put_insert_fast False k v s)"
| "txn_step (Op_delete k) s = fst (txn_delete k s)"
| "txn_step (Op_counter t r) s = fst (stage_row_counter t r s)"
| "txn_step (Op_savepoint name undo) s = apsnd (savepoint_establish name undo) s"
| "txn_step (Op_release name) s = apsnd (\<lambda>tx. fst (savepoint_release name tx)) s"
| "txn_step (Op_rollback_to name) s = apsnd (\<lambda>tx. fst (savepoint_rollback_to name tx)) s"
| "txn_step (Op_discard t) s = apsnd (discard_staged_for_table t) s"

section \<open>Lemmas\<close>

text \<open>Locking, arming and attribution leave the staged data alone.\<close>

definition staged_view where
  "staged_view tx = (tx_write_set tx, tx_insert_log tx, tx_savepoints tx, tx_state tx, tx_lock_manager tx, tx_isolation_level tx)"

lemma staged_view_updates [simp]:
  "staged_view (tx\<lparr>tx_written_tables := w\<rparr>) = staged_view tx" "staged_view (tx\<lparr>tx_has_unattributed_writes := u\<rparr>) = staged_view tx"
  "staged_view (tx\<lparr>tx_write_census := c\<rparr>) = staged_view tx" "staged_view (tx\<lparr>tx_acquired_locks := l\<rparr>) = staged_view tx"
  "staged_view (tx\<lparr>tx_row_counter_stages := r\<rparr>) = staged_view tx"
  by (simp_all add: staged_view_def)

lemma view_on_gate [simp]: "staged_view (snd (on_gate f s)) = staged_view (snd s)"
  by (cases s) (simp add: on_gate_def Let_def split: option.split prod.split)

lemma view_add_written [simp]: "staged_view (snd (add_written_table t s)) = staged_view (snd s)"
  by (cases s) (simp add: add_written_table_def)

lemma view_note_written [simp]: "staged_view (snd (note_written_key key staged s)) = staged_view (snd s)"
  by (simp add: note_written_key_def Let_def case_prod_beta split: option.split)

lemma view_txn_lock [simp]: "staged_view (snd (fst (txn_lock elapsed ty key s))) = staged_view (snd s)"
  by (cases s) (simp add: txn_lock_def split: acquire_outcome.split prod.split)

lemma staged_view_eq: "staged_view tx' = staged_view tx \<Longrightarrow> tx_write_set tx' = tx_write_set tx \<and> tx_insert_log tx' = tx_insert_log tx \<and> tx_savepoints tx' = tx_savepoints tx
   \<and> tx_state tx' = tx_state tx \<and> tx_lock_manager tx' = tx_lock_manager tx \<and> tx_isolation_level tx' = tx_isolation_level tx"
  by (simp add: staged_view_def)

text \<open>What each operation does to the view.\<close>

definition put_view where
  "put_view k v tx = staged_view (tx\<lparr>tx_write_set := AList.update k v (tx_write_set tx)\<rparr>)"

lemma put_view_cong: "staged_view tx' = staged_view tx \<Longrightarrow> put_view k v tx' = put_view k v tx"
  by (simp add: put_view_def staged_view_def)

lemma put_effect: "staged_view (snd (fst (txn_put elapsed k v s))) = (if snd (txn_put elapsed k v s) = Done () then put_view k (Some v) (snd s) else staged_view (snd s))"
proof (cases "tx_state (snd s) = Active")
  case True
  obtain s1 b where l: "txn_lock elapsed WriteLock k s = (s1, b)" by (cases "txn_lock elapsed WriteLock k s")
  then have st: "staged_view (snd s1) = staged_view (snd s)" using view_txn_lock [of elapsed WriteLock k s] by simp
  then have "put_view k (Some v) (snd (note_written_key k StagedValue s1)) = put_view k (Some v) (snd s)" by (intro put_view_cong) simp
  then show ?thesis using l st True by (cases b) (simp_all add: txn_put_def case_prod_beta put_view_def)
qed (simp add: txn_put_def)

lemma delete_effect: "staged_view (snd (fst (txn_delete k s))) = (if tx_state (snd s) = Active then put_view k None (snd s) else staged_view (snd s))"
  using put_view_cong [OF view_note_written, of k None k Tombstone s] by (simp add: txn_delete_def Let_def case_prod_beta put_view_def)

lemma counter_effect: "staged_view (snd (fst (stage_row_counter t r s))) = staged_view (snd s)"
  by (simp add: stage_row_counter_def Let_def case_prod_beta)

lemma insert_effect:
  "staged_view (snd (fst (put_insert_fast elapsed k v s))) = staged_view (snd s)
   \<or> staged_view (snd (fst (put_insert_fast elapsed k v s))) = put_view k (Some v) (snd s)
   \<or> staged_view (snd (fst (put_insert_fast elapsed k v s))) = staged_view ((snd s)\<lparr>tx_insert_log := tx_insert_log (snd s) @ [(k, v)]\<rparr>)"
proof -
  have "staged_view ((snd (note_written_key k StagedValue s))\<lparr>tx_insert_log := tx_insert_log (snd (note_written_key k StagedValue s)) @ [(k, v)]\<rparr>)
      = staged_view ((snd s)\<lparr>tx_insert_log := tx_insert_log (snd s) @ [(k, v)]\<rparr>)"
    using view_note_written [of k StagedValue s] by (simp add: staged_view_def)
  then show ?thesis using put_effect [of elapsed k v s] by (auto simp: put_insert_fast_def Let_def case_prod_beta)
qed

end
