(* ===== verification/Transaction_Laws.thy ===== *)
theory Transaction_Laws
  imports Transaction
begin

text \<open>
  Laws of the open transaction of \<open>Transaction\<close>. The specification is an overlay: what the
  transaction has staged for every key, and a stack of named earlier overlays. The transaction
  refines it, and its scans agree with its point reads. Two theorems show where the code departs
  from this: the discarding of a dropped table inside a savepoint, and tables whose name contains a
  colon.
\<close>

section \<open>The overlay\<close>

type_synonym overlay = "bytes \<Rightarrow> bytes option option"

record overlay_txn =
  ov_now :: overlay
  ov_saved :: "(string \<times> overlay) list"

fun overlay_step :: "txn_op \<Rightarrow> overlay_txn \<Rightarrow> overlay_txn" where
  "overlay_step (Op_put k v) a = a\<lparr>ov_now := (ov_now a)(k \<mapsto> Some v)\<rparr>"
| "overlay_step (Op_insert k v) a = a\<lparr>ov_now := (ov_now a)(k \<mapsto> Some v)\<rparr>"
| "overlay_step (Op_delete k) a = a\<lparr>ov_now := (ov_now a)(k \<mapsto> None)\<rparr>"
| "overlay_step (Op_counter t r) a = a"
| "overlay_step (Op_savepoint name undo) a = a\<lparr>ov_saved := ov_saved a @ [(name, ov_now a)]\<rparr>"
| "overlay_step (Op_release name) a = (case dropWhile (\<lambda>e. fst e \<noteq> name) (rev (ov_saved a)) of
       [] \<Rightarrow> a | _ # older \<Rightarrow> a\<lparr>ov_saved := rev older\<rparr>)"
| "overlay_step (Op_rollback_to name) a = (case dropWhile (\<lambda>e. fst e \<noteq> name) (rev (ov_saved a)) of
       [] \<Rightarrow> a | (n, saved) # older \<Rightarrow> \<lparr>ov_now = saved, ov_saved = rev older @ [(n, saved)]\<rparr>)"
| "overlay_step (Op_discard t) a = a\<lparr>ov_now := (\<lambda>k. if starts_with (data_prefix t) k then None else ov_now a k)\<rparr>"

text \<open>Whether an operation was carried out: with a lock manager, a write can fail or have to wait.\<close>

fun txn_accepts :: "txn_op \<Rightarrow> txn_env \<times> transaction \<Rightarrow> bool" where
  "txn_accepts (Op_put k v) s \<longleftrightarrow> snd (txn_put False k v s) = Done ()"
| "txn_accepts (Op_insert k v) s \<longleftrightarrow> snd (put_insert_fast False k v s) = Done ()"
| "txn_accepts (Op_delete k) s \<longleftrightarrow> snd (txn_delete k s) = Done ()"
| "txn_accepts op s \<longleftrightarrow> True"

text \<open>
  What the callers promise: fast inserts are for rows that the transaction has not touched, and a
  table is dropped outside savepoints.
\<close>

fun op_legal :: "txn_op \<Rightarrow> transaction \<Rightarrow> bool" where
  "op_legal (Op_insert k v) tx \<longleftrightarrow> staged_lookup tx k = None"
| "op_legal (Op_discard t) tx \<longleftrightarrow> tx_savepoints tx = []"
| "op_legal op tx \<longleftrightarrow> True"

fun legal_run :: "txn_op list \<Rightarrow> txn_env \<times> transaction \<Rightarrow> bool" where
  "legal_run [] s \<longleftrightarrow> True"
| "legal_run (op # ops) s \<longleftrightarrow> op_legal op (snd s) \<and> legal_run ops (txn_step op s)"

fun overlay_run :: "txn_op list \<Rightarrow> txn_env \<times> transaction \<Rightarrow> overlay_txn \<Rightarrow> overlay_txn" where
  "overlay_run [] s a = a"
| "overlay_run (op # ops) s a = overlay_run ops (txn_step op s) (if txn_accepts op s then overlay_step op a else a)"

section \<open>The overlay of a transaction\<close>

definition lookup_in :: "(bytes \<times> bytes option) list \<Rightarrow> (bytes \<times> bytes) list \<Rightarrow> overlay" where
  "lookup_in ws log key = (case map_of ws key of Some v \<Rightarrow> Some v | None \<Rightarrow> map_option Some (map_of (rev log) key))"

definition saved_overlay :: "(bytes \<times> bytes) list \<Rightarrow> savepoint_entry \<Rightarrow> string \<times> overlay" where
  "saved_overlay log e = (sp_name e, lookup_in (sn_write_set (sp_snapshot e)) (take (sn_insert_log_len (sp_snapshot e)) log))"

definition overlay_of :: "transaction \<Rightarrow> overlay_txn" where
  "overlay_of tx = \<lparr>ov_now = staged_lookup tx, ov_saved = map (saved_overlay (tx_insert_log tx)) (tx_savepoints tx)\<rparr>"

definition txn_ok :: "transaction \<Rightarrow> bool" where
  "txn_ok tx \<longleftrightarrow> distinct (map fst (tx_write_set tx)) \<and> sorted (map (sn_insert_log_len \<circ> sp_snapshot) (tx_savepoints tx))
     \<and> (\<forall>e \<in> set (tx_savepoints tx). sn_insert_log_len (sp_snapshot e) \<le> length (tx_insert_log tx) \<and> distinct (map fst (sn_write_set (sp_snapshot e))))"

lemma staged_lookup_in: "staged_lookup tx = lookup_in (tx_write_set tx) (tx_insert_log tx)"
  by (simp add: fun_eq_iff staged_lookup_def lookup_in_def)

lemma overlay_cong: "staged_view tx' = staged_view tx \<Longrightarrow> overlay_of tx' = overlay_of tx \<and> txn_ok tx' = txn_ok tx"
  by (drule staged_view_eq) (simp add: overlay_of_def txn_ok_def staged_lookup_in)

lemma saved_append: "txn_ok tx \<Longrightarrow> map (saved_overlay (tx_insert_log tx @ xs)) (tx_savepoints tx) = map (saved_overlay (tx_insert_log tx)) (tx_savepoints tx)"
  by (auto simp: saved_overlay_def txn_ok_def)

lemma put_refines:
  assumes "staged_view tx' = put_view k v tx" "txn_ok tx"
  shows "overlay_of tx' = (overlay_of tx)\<lparr>ov_now := (staged_lookup tx)(k \<mapsto> v)\<rparr> \<and> txn_ok tx'"
proof -
  let ?tx = "tx\<lparr>tx_write_set := AList.update k v (tx_write_set tx)\<rparr>"
  have "overlay_of ?tx = (overlay_of tx)\<lparr>ov_now := (staged_lookup tx)(k \<mapsto> v)\<rparr>"
    by (simp add: overlay_of_def staged_lookup_in lookup_in_def update_conv fun_eq_iff)
  moreover have "txn_ok ?tx" using assms(2) by (simp add: txn_ok_def distinct_update)
  ultimately show ?thesis using overlay_cong [of tx' ?tx] assms(1) by (simp add: put_view_def)
qed

lemma log_refines:
  assumes "staged_view tx' = staged_view (tx\<lparr>tx_insert_log := tx_insert_log tx @ [(k, v)]\<rparr>)" "txn_ok tx" "staged_lookup tx k = None"
  shows "overlay_of tx' = (overlay_of tx)\<lparr>ov_now := (staged_lookup tx)(k \<mapsto> Some v)\<rparr> \<and> txn_ok tx'"
proof -
  let ?tx = "tx\<lparr>tx_insert_log := tx_insert_log tx @ [(k, v)]\<rparr>"
  have "map_of (tx_write_set tx) k = None" using assms(3) by (auto simp: staged_lookup_def split: option.splits)
  then have "staged_lookup ?tx = (staged_lookup tx)(k \<mapsto> Some v)" by (auto simp: fun_eq_iff staged_lookup_def split: option.splits)
  then have "overlay_of ?tx = (overlay_of tx)\<lparr>ov_now := (staged_lookup tx)(k \<mapsto> Some v)\<rparr>"
    using saved_append [OF assms(2)] by (simp add: overlay_of_def)
  moreover have "txn_ok ?tx" using assms(2) by (auto simp: txn_ok_def)
  ultimately show ?thesis using overlay_cong [of tx' ?tx] assms(1) by simp
qed

subsection \<open>Savepoints\<close>

lemma rposition_None: "rposition name st = None \<longleftrightarrow> (\<forall>e \<in> set st. sp_name e \<noteq> name)"
proof -
  have "rposition name st = None \<longleftrightarrow> filter (\<lambda>i. sp_name (st ! i) = name) [0..<length st] = []" by (simp add: rposition_def split: list.split)
  also have "\<dots> \<longleftrightarrow> (\<forall>e \<in> set st. sp_name e \<noteq> name)" by (auto simp: filter_empty_conv all_set_conv_all_nth)
  finally show ?thesis .
qed

lemma no_position: "rposition name st = None \<Longrightarrow> dropWhile (\<lambda>e. sp_name e \<noteq> name) (rev st) = []"
  by (simp add: rposition_None)

lemma sorted_last: "sorted xs \<Longrightarrow> x \<in> set xs \<Longrightarrow> x \<le> last xs"
  by (induction xs) auto

lemma rposition_Some:
  assumes "rposition name st = Some p"
  shows "p < length st" "dropWhile (\<lambda>e. sp_name e \<noteq> name) (rev st) = st ! p # rev (take p st)"
proof -
  let ?is = "filter (\<lambda>i. sp_name (st ! i) = name) [0..<length st]"
  have ne: "?is \<noteq> []" and p: "p = last ?is" using assms by (auto simp: rposition_def split: list.splits)
  then have "p \<in> set ?is" by (metis last_in_set)
  then show len: "p < length st" by simp
  have named: "sp_name (st ! p) = name" using \<open>p \<in> set ?is\<close> by simp
  have s: "sorted ?is" by (rule sorted_wrt_filter) simp
  have above: "sp_name (st ! i) \<noteq> name" if "p < i" "i < length st" for i
  proof
    assume "sp_name (st ! i) = name"
    then have "i \<in> set ?is" using that by simp
    then have "i \<le> last ?is" using s by (intro sorted_last)
    then show False using p that by simp
  qed
  have "rev st = rev (drop (Suc p) st) @ rev (take (Suc p) st)" by (metis append_take_drop_id rev_append)
  then have "dropWhile (\<lambda>e. sp_name e \<noteq> name) (rev st) = dropWhile (\<lambda>e. sp_name e \<noteq> name) (rev (drop (Suc p) st) @ rev (take (Suc p) st))" by simp
  also have "\<dots> = dropWhile (\<lambda>e. sp_name e \<noteq> name) (rev (take (Suc p) st))"
  proof (rule dropWhile_append2, simp)
    fix e assume e: "e \<in> set (drop (Suc p) st)"
    obtain i where "i < length st - Suc p" "e = st ! Suc (p + i)" using e by (auto simp: in_set_conv_nth)
    then show "sp_name e \<noteq> name" using above [of "Suc (p + i)"] by simp
  qed
  finally show "dropWhile (\<lambda>e. sp_name e \<noteq> name) (rev st) = st ! p # rev (take p st)"
    using named len by (simp add: take_Suc_conv_app_nth)
qed

lemma saved_rev: "dropWhile (\<lambda>e. fst e \<noteq> name) (map (saved_overlay log) (rev st)) = map (saved_overlay log) (dropWhile (\<lambda>e. sp_name e \<noteq> name) (rev st))"
  by (simp add: dropWhile_map comp_def saved_overlay_def)

lemma restore_keys:
  assumes "distinct (map fst sn)"
  shows "map_of (fold (\<lambda>(k, v). AList.update k v) sn (filter (\<lambda>e. fst e \<in> fst ` set sn) ws)) = map_of sn"
proof -
  have f: "map_of (fold (\<lambda>(k, v). AList.update k v) sn xs) = map_of xs ++ map_of sn" for xs
    using assms by (induction sn arbitrary: xs) (auto simp: update_conv' map_add_upd_left dom_map_of_conv_image_fst)
  have "map_of (filter (\<lambda>e. fst e \<in> fst ` set sn) ws) k = None" if "map_of sn k = None" for k
    using that by (auto simp: map_of_eq_None_iff)
  then show ?thesis unfolding f by (auto simp: fun_eq_iff map_add_def split: option.split)
qed

lemma release_refines:
  assumes "txn_ok tx"
  shows "overlay_of (fst (savepoint_release name tx)) = overlay_step (Op_release name) (overlay_of tx) \<and> txn_ok (fst (savepoint_release name tx))"
proof (cases "rposition name (tx_savepoints tx)")
  case None
  then show ?thesis using assms by (simp add: no_position [OF None] savepoint_release_def release_savepoint_def overlay_of_def saved_rev rev_map)
next
  case (Some p)
  have "txn_ok (tx\<lparr>tx_savepoints := take p (tx_savepoints tx)\<rparr>)"
    using assms by (auto simp: txn_ok_def take_map [symmetric] sorted_wrt_take dest: in_set_takeD)
  then show ?thesis using Some by (simp add: savepoint_release_def release_savepoint_def overlay_of_def saved_rev rposition_Some(2) [OF Some] rev_map staged_lookup_in)
qed

lemma rollback_refines:
  assumes ok: "txn_ok tx"
  shows "overlay_of (fst (savepoint_rollback_to name tx)) = overlay_step (Op_rollback_to name) (overlay_of tx) \<and> txn_ok (fst (savepoint_rollback_to name tx))"
proof (cases "rposition name (tx_savepoints tx)")
  case None
  then show ?thesis using assms by (simp add: no_position [OF None] savepoint_rollback_to_def resolve_savepoint_target_def overlay_of_def saved_rev rev_map)
next
  case (Some p)
  note p = rposition_Some [OF Some]
  let ?st = "tx_savepoints tx" and ?log = "tx_insert_log tx" and ?len = "sn_insert_log_len \<circ> sp_snapshot"
  let ?sn = "sp_snapshot (?st ! p)"
  define tx' where "tx' = rollback_to_savepoint ?sn (tx\<lparr>tx_savepoints := take (Suc p) ?st\<rparr>)"
  have step: "fst (savepoint_rollback_to name tx) = tx'" using Some by (simp add: savepoint_rollback_to_def resolve_savepoint_target_def tx'_def)
  have sn: "distinct (map fst (sn_write_set ?sn))" "sn_insert_log_len ?sn \<le> length ?log" using ok p(1) by (simp_all add: txn_ok_def)
  have below: "?len e \<le> sn_insert_log_len ?sn" if e: "e \<in> set (take (Suc p) ?st)" for e
  proof -
    obtain i where i: "i \<le> p" "e = ?st ! i" using e p(1) by (auto simp: in_set_conv_nth less_Suc_eq_le)
    have "map ?len ?st ! i \<le> map ?len ?st ! p" using ok i(1) p(1) by (intro sorted_nth_mono) (simp_all add: txn_ok_def)
    then show ?thesis using i p(1) by simp
  qed
  have st: "take (Suc p) ?st = take p ?st @ [?st ! p]" using p(1) by (simp add: take_Suc_conv_app_nth)
  have fields: "tx_write_set tx' = fold (\<lambda>(k, v). AList.update k v) (sn_write_set ?sn) (filter (\<lambda>e. fst e \<in> fst ` set (sn_write_set ?sn)) (tx_write_set tx))"
    "tx_insert_log tx' = take (sn_insert_log_len ?sn) ?log" "tx_savepoints tx' = take (Suc p) ?st" by (simp_all add: tx'_def rollback_to_savepoint_def)
  have now: "staged_lookup tx' = lookup_in (sn_write_set ?sn) (take (sn_insert_log_len ?sn) ?log)"
    unfolding staged_lookup_def lookup_in_def fields(1,2) restore_keys [OF sn(1)] by simp
  have "map (saved_overlay (take (sn_insert_log_len ?sn) ?log)) (take (Suc p) ?st) = map (saved_overlay ?log) (take (Suc p) ?st)"
    using below by (simp add: saved_overlay_def min_absorb1)
  then have "overlay_of tx' = overlay_step (Op_rollback_to name) (overlay_of tx)"
    unfolding overlay_of_def fields now st by (simp add: saved_rev p(2) rev_map) (simp add: saved_overlay_def)
  moreover have "txn_ok tx'"
  proof -
    have "distinct (map fst (fold (\<lambda>(k, v). AList.update k v) kvs xs))" if "distinct (map fst xs)" for kvs and xs :: "(bytes \<times> bytes option) list"
      using that by (induction kvs arbitrary: xs) (auto simp: distinct_update)
    then have "distinct (map fst (tx_write_set tx'))" using ok by (simp add: fields txn_ok_def distinct_map_filter)
    moreover have "sorted (map ?len (take (Suc p) ?st))" using ok by (simp add: txn_ok_def take_map [symmetric] sorted_wrt_take)
    ultimately show ?thesis using ok below sn(2) unfolding txn_ok_def fields by (auto dest: in_set_takeD)
  qed
  ultimately show ?thesis using step by simp
qed

subsection \<open>Steps\<close>

lemma insert_outcome:
  "if snd (put_insert_fast e k v s) = Done ()
   then staged_view (snd (fst (put_insert_fast e k v s))) \<in> {put_view k (Some v) (snd s), staged_view ((snd s)\<lparr>tx_insert_log := tx_insert_log (snd s) @ [(k, v)]\<rparr>)}
   else staged_view (snd (fst (put_insert_fast e k v s))) = staged_view (snd s)"
proof -
  have "staged_view ((snd (note_written_key k StagedValue s))\<lparr>tx_insert_log := tx_insert_log (snd (note_written_key k StagedValue s)) @ [(k, v)]\<rparr>)
      = staged_view ((snd s)\<lparr>tx_insert_log := tx_insert_log (snd s) @ [(k, v)]\<rparr>)"
    using view_note_written [of k StagedValue s] by (simp add: staged_view_def)
  then show ?thesis using put_effect [of e k v s] by (simp add: put_insert_fast_def Let_def case_prod_beta)
qed

lemma discard_refines:
  assumes "txn_ok tx" "tx_savepoints tx = []"
  shows "overlay_of (discard_staged_for_table t tx) = overlay_step (Op_discard t) (overlay_of tx) \<and> txn_ok (discard_staged_for_table t tx)"
proof -
  let ?p = "\<lambda>k. \<not> starts_with (data_prefix t) k"
  have "lookup_in (filter (\<lambda>e. ?p (fst e)) ws) (filter (\<lambda>e. ?p (fst e)) log) k = (if ?p k then lookup_in ws log k else None)" for ws log k
    using map_of_filter_fst [of ?p ws k] map_of_filter_fst [of ?p "rev log" k] by (simp add: lookup_in_def flip: rev_filter split: option.split)
  then show ?thesis using assms by (simp add: overlay_of_def discard_staged_for_table_def staged_lookup_in fun_eq_iff txn_ok_def distinct_map_filter)
qed

lemma savepoint_refines:
  assumes "txn_ok tx"
  shows "overlay_of (savepoint_establish name undo tx) = overlay_step (Op_savepoint name undo) (overlay_of tx) \<and> txn_ok (savepoint_establish name undo tx)"
  using assms by (auto simp: savepoint_establish_def push_savepoint_def savepoint_snapshot_def overlay_of_def saved_overlay_def staged_lookup_in txn_ok_def sorted_append)

lemma txn_step_refines:
  assumes ok: "txn_ok (snd s)" and legal: "op_legal op (snd s)"
  shows "overlay_of (snd (txn_step op s)) = (if txn_accepts op s then overlay_step op (overlay_of (snd s)) else overlay_of (snd s)) \<and> txn_ok (snd (txn_step op s))"
proof (cases op)
  case (Op_put k v)
  show ?thesis
  proof (cases "txn_accepts op s")
    case True
    then show ?thesis using put_effect [of False k v s] put_refines [OF _ ok] Op_put by (simp add: overlay_of_def)
  next
    case False
    then show ?thesis using overlay_cong [of "snd (txn_step op s)" "snd s"] put_effect [of False k v s] ok Op_put by simp
  qed
next
  case (Op_insert k v)
  show ?thesis
  proof (cases "txn_accepts op s")
    case True
    then consider "staged_view (snd (txn_step op s)) = put_view k (Some v) (snd s)"
      | "staged_view (snd (txn_step op s)) = staged_view ((snd s)\<lparr>tx_insert_log := tx_insert_log (snd s) @ [(k, v)]\<rparr>)"
      using insert_outcome [of False k v s] Op_insert by auto
    then show ?thesis
    proof cases
      case 1
      then show ?thesis using put_refines [OF 1 ok] True Op_insert by (simp add: overlay_of_def)
    next
      case 2
      then show ?thesis using log_refines [OF 2 ok] True Op_insert legal by (simp add: overlay_of_def)
    qed
  next
    case False
    then show ?thesis using overlay_cong [of "snd (txn_step op s)" "snd s"] insert_outcome [of False k v s] ok Op_insert by simp
  qed
next
  case (Op_delete k)
  show ?thesis
  proof (cases "tx_state (snd s) = Active")
    case True
    then have "txn_accepts op s" using Op_delete by (simp add: txn_delete_def Let_def case_prod_beta)
    moreover have "staged_view (snd (txn_step op s)) = put_view k None (snd s)" using True delete_effect [of k s] Op_delete by simp
    ultimately show ?thesis using put_refines [OF _ ok] Op_delete by (simp add: overlay_of_def)
  qed (use ok Op_delete in \<open>simp add: txn_delete_def\<close>)
next
  case (Op_counter t r)
  then show ?thesis using counter_effect [of t r s] overlay_cong [of "snd (txn_step op s)" "snd s"] ok by simp
qed (use ok legal release_refines rollback_refines discard_refines savepoint_refines in \<open>auto simp: apsnd_def map_prod_def split: prod.splits simp del: overlay_step.simps\<close>)

lemma txn_run_refines: "txn_ok (snd s) \<Longrightarrow> legal_run ops s \<Longrightarrow> overlay_of (snd (fold txn_step ops s)) = overlay_run ops s (overlay_of (snd s)) \<and> txn_ok (snd (fold txn_step ops s))"
proof (induction ops arbitrary: s)
  case (Cons op ops)
  then have "overlay_of (snd (txn_step op s)) = (if txn_accepts op s then overlay_step op (overlay_of (snd s)) else overlay_of (snd s))" "txn_ok (snd (txn_step op s))"
    using txn_step_refines [of s op] by simp_all
  then show ?case using Cons by simp
qed simp

text \<open>No operation ends the transaction or changes how it locks.\<close>

definition txn_mode where
  "txn_mode tx = (tx_state tx, tx_isolation_level tx, tx_lock_manager tx)"

lemma mode_of_view: "staged_view tx' = staged_view tx \<Longrightarrow> txn_mode tx' = txn_mode tx" "staged_view tx' = put_view k v tx \<Longrightarrow> txn_mode tx' = txn_mode tx"
  "staged_view tx' = staged_view (tx\<lparr>tx_insert_log := l\<rparr>) \<Longrightarrow> txn_mode tx' = txn_mode tx"
  by (simp_all add: txn_mode_def put_view_def staged_view_def)

lemma step_mode: "txn_mode (snd (txn_step op s)) = txn_mode (snd s)"
proof (cases op)
  case (Op_put k v)
  then show ?thesis using put_effect [of False k v s] mode_of_view(1,2) by (metis txn_step.simps(1))
next
  case (Op_insert k v)
  then show ?thesis using insert_effect [of False k v s] mode_of_view by (metis txn_step.simps(2))
next
  case (Op_delete k)
  then show ?thesis using delete_effect [of k s] mode_of_view(1,2) by (metis txn_step.simps(3))
next
  case (Op_counter t r)
  then show ?thesis using counter_effect [of t r s] mode_of_view(1) by (metis txn_step.simps(4))
qed (auto simp: txn_mode_def savepoint_establish_def push_savepoint_def savepoint_release_def release_savepoint_def savepoint_rollback_to_def
      resolve_savepoint_target_def rollback_to_savepoint_def discard_staged_for_table_def split: option.split)

lemma run_mode: "txn_mode (snd (fold txn_step ops s)) = txn_mode (snd s)"
  by (induction ops arbitrary: s) (simp_all add: step_mode)

lemma get_unlocked:
  assumes "tx_state (snd s) = Active" "tx_isolation_level (snd s) = ReadCommitted \<or> \<not> tx_lock_manager (snd s)"
  shows "txn_get kv evict elapsed db k sm s = (case staged_lookup (snd s) k of Some v \<Rightarrow> (sm, s, Done v)
     | None \<Rightarrow> (case read_at_version kv evict (snd s) db k sm of (sm, Inl e) \<Rightarrow> (sm, s, Failed e) | (sm, Inr v) \<Rightarrow> (sm, s, Done v)))"
  using assms by (cases s) (auto simp: txn_get_def txn_lock_def)

section \<open>Properties\<close>

text \<open>
  C11. An open transaction refines the overlay: after any legal run of writes, deletes, fast inserts,
  savepoints, releases and roll-backs, what it has staged for every key is what the overlay says,
  a roll-back restores exactly the state of its savepoint, and reads that take no lock return the
  staged value, or else what the version store holds for the snapshot.
\<close>

theorem transaction_refines_overlay:
  assumes start: "tx_write_set tx = []" "tx_insert_log tx = []" "tx_savepoints tx = []"
    and mode: "tx_state tx = Active" "tx_isolation_level tx = ReadCommitted \<or> \<not> tx_lock_manager tx"
    and run: "legal_run ops (env, tx)" "s = fold txn_step ops (env, tx)"
  shows "overlay_of (snd s) = overlay_run ops (env, tx) \<lparr>ov_now = Map.empty, ov_saved = []\<rparr>
    \<and> txn_get kv evict elapsed db k sm s = (case ov_now (overlay_run ops (env, tx) \<lparr>ov_now = Map.empty, ov_saved = []\<rparr>) k of
         Some v \<Rightarrow> (sm, s, Done v)
       | None \<Rightarrow> (case read_at_version kv evict (snd s) db k sm of (sm, Inl e) \<Rightarrow> (sm, s, Failed e) | (sm, Inr v) \<Rightarrow> (sm, s, Done v)))"
proof -
  have "txn_ok tx" "overlay_of tx = \<lparr>ov_now = Map.empty, ov_saved = []\<rparr>" using start by (simp_all add: txn_ok_def overlay_of_def staged_lookup_def fun_eq_iff)
  then have "overlay_of (snd s) = overlay_run ops (env, tx) \<lparr>ov_now = Map.empty, ov_saved = []\<rparr>" using txn_run_refines [of "(env, tx)" ops] run by simp
  moreover from this have "staged_lookup (snd s) = ov_now (overlay_run ops (env, tx) \<lparr>ov_now = Map.empty, ov_saved = []\<rparr>)" by (metis overlay_of_def overlay_txn.select_convs(1))
  moreover have "txn_mode (snd s) = txn_mode tx" using run_mode [of ops "(env, tx)"] run(2) by simp
  ultimately show ?thesis using mode get_unlocked [of s] by (simp add: txn_mode_def)
qed

definition demo_env :: txn_env where
  "demo_env = \<lparr>en_locks = manager_new 1000 retry_disabled, en_census = census_new\<rparr>"

text \<open>Row 1 is written, and after a savepoint overwritten, row 2 inserted and row 1 deleted; then all of that is rolled back.\<close>

definition demo_ops :: "txn_op list" where
  "demo_ops = (let a = data_key [0x61] 1; b = data_key [0x61] 2 in
     [Op_put a [7], Op_savepoint ''sp'' 0, Op_put a [8], Op_insert b [9], Op_savepoint ''in'' 3, Op_delete a, Op_rollback_to ''sp''])"

theorem transaction_refines_overlay_witness:
  "let s = fold txn_step demo_ops (demo_env, transaction_new 1 5) in
     txn_get list_kv id False two_versions (data_key [0x61] 1) manager_plain s = (manager_plain, s, Done (Some [7]))
     \<and> ov_now (overlay_of (snd s)) (data_key [0x61] 2) = None \<and> map fst (ov_saved (overlay_of (snd s))) = [''sp'']"
proof -
  let ?s0 = "(demo_env, transaction_new 1 5)" and ?a = "data_key [0x61] 1" and ?b = "data_key [0x61] 2"
  have l: "legal_run demo_ops ?s0" by code_simp
  have ov: "ov_now (overlay_run demo_ops ?s0 \<lparr>ov_now = Map.empty, ov_saved = []\<rparr>) ?a = Some (Some [7])"
    "ov_now (overlay_run demo_ops ?s0 \<lparr>ov_now = Map.empty, ov_saved = []\<rparr>) ?b = None"
    "map fst (ov_saved (overlay_run demo_ops ?s0 \<lparr>ov_now = Map.empty, ov_saved = []\<rparr>)) = [''sp'']" by code_simp+
  note r = transaction_refines_overlay [of "transaction_new 1 5" demo_ops demo_env "fold txn_step demo_ops ?s0" list_kv id False two_versions ?a manager_plain]
  show ?thesis using r l ov by (simp add: transaction_new_def Let_def)
qed

lemma note_written_frame:
  "tx_dirty_tracker (snd (note_written_key k st s)) = tx_dirty_tracker (snd s)"
  "tx_insert_log (snd (note_written_key k st s)) = tx_insert_log (snd s)"
  "tx_state (snd (note_written_key k st s)) = tx_state (snd s)"
  "tx_lock_manager (snd (note_written_key k st s)) = tx_lock_manager (snd s)"
  "tx_savepoints (snd (note_written_key k st s)) = tx_savepoints (snd s)"
  by (auto simp: note_written_key_def on_gate_def add_written_table_def note_index_key_removal_def Let_def split: prod.splits option.splits staged_key.splits if_splits)

lemma fast_inserts_log:
  assumes "tx_state (snd s) = Active" "\<not> tx_lock_manager (snd s)" "\<not> tx_dirty_tracker (snd s)"
  shows "tx_insert_log (snd (fold txn_step (map (\<lambda>(k, v). Op_insert k v) rows) s)) = tx_insert_log (snd s) @ rows
    \<and> tx_savepoints (snd (fold txn_step (map (\<lambda>(k, v). Op_insert k v) rows) s)) = tx_savepoints (snd s)"
  using assms
proof (induction rows arbitrary: s)
  case (Cons e rows)
  obtain k v where e: "e = (k, v)" by force
  let ?s = "txn_step (Op_insert k v) s"
  have i: "tx_insert_log (snd ?s) = tx_insert_log (snd s) @ [e]" "tx_savepoints (snd ?s) = tx_savepoints (snd s)"
      "tx_state (snd ?s) = Active" "\<not> tx_lock_manager (snd ?s)" "\<not> tx_dirty_tracker (snd ?s)"
    using Cons.prems note_written_frame [of k StagedValue s] by (auto simp: put_insert_fast_def Let_def e case_prod_unfold)
  show ?case using Cons.IH [OF i(3-5)] i(1,2) e by simp
qed simp

lemma rposition_own: "rposition (sp_name e) (es @ [e]) = Some (length es)"
proof -
  have last: "(case ys @ [y] of [] \<Rightarrow> None | z # zs \<Rightarrow> Some (last (z # zs))) = Some y" for y :: nat and ys by (cases ys) simp_all
  show ?thesis unfolding rposition_def by (simp add: last del: last.simps)
qed

definition other_rows :: "bytes \<Rightarrow> (bytes \<times> bytes) list \<Rightarrow> (bytes \<times> bytes) list" where
  "other_rows t = filter (\<lambda>e. \<not> starts_with (data_prefix t) (fst e))"

lemma other_rows_shorter: "e \<in> set log \<Longrightarrow> starts_with (data_prefix t) (fst e) \<Longrightarrow> length (other_rows t log) < length log"
  unfolding other_rows_def by (rule length_filter_less) auto

text \<open>
  C39. Dropping a table after a savepoint breaks the roll-back to it. The savepoint remembers how
  long the log of inserts was; discarding the rows of the dropped table shortens the log, so the roll-back keeps, of
  the rows of other tables that were logged after the savepoint, as many as rows of the dropped table were logged
  before it; the commit then makes them durable. In particular the first of them stays as soon as one row of the
  dropped table was logged before. For an active transaction that logs its inserts (no lock manager, no dirty tracker).
\<close>

theorem discard_breaks_savepoint:
  assumes "tx_state (snd s) = Active" "\<not> tx_lock_manager (snd s)" "\<not> tx_dirty_tracker (snd s)"
    and "s' = fold txn_step ([Op_savepoint name undo] @ map (\<lambda>(k, v). Op_insert k v) rows @ [Op_discard t, Op_rollback_to name]) s"
  shows "tx_insert_log (snd s') = other_rows t (tx_insert_log (snd s))
      @ take (length (tx_insert_log (snd s)) - length (other_rows t (tx_insert_log (snd s)))) (other_rows t rows)
    \<and> ((\<exists>e \<in> set (tx_insert_log (snd s)). starts_with (data_prefix t) (fst e)) \<longrightarrow> other_rows t rows \<noteq> []
        \<longrightarrow> hd (other_rows t rows) \<in> set (tx_insert_log (snd s')))"
proof -
  let ?s1 = "txn_step (Op_savepoint name undo) s" and ?log = "tx_insert_log (snd s)"
  let ?s2 = "fold txn_step (map (\<lambda>(k, v). Op_insert k v) rows) ?s1"
  have "tx_insert_log (snd ?s1) = ?log" "tx_state (snd ?s1) = Active" "\<not> tx_lock_manager (snd ?s1)" "\<not> tx_dirty_tracker (snd ?s1)"
    using assms(1-3) by (simp_all add: savepoint_establish_def push_savepoint_def)
  then have 2: "tx_insert_log (snd ?s2) = ?log @ rows" "tx_savepoints (snd ?s2) = tx_savepoints (snd ?s1)" using fast_inserts_log [of ?s1 rows] by simp_all
  have sp: "tx_savepoints (snd ?s1) = tx_savepoints (snd s) @ [\<lparr>sp_name = name, sp_snapshot = savepoint_snapshot (snd s), sp_art_undo_len = undo\<rparr>]"
    by (simp add: savepoint_establish_def push_savepoint_def)
  have own: "rposition name (tx_savepoints (snd ?s1)) = Some (length (tx_savepoints (snd s)))" unfolding sp
    using rposition_own [of "\<lparr>sp_name = name, sp_snapshot = savepoint_snapshot (snd s), sp_art_undo_len = undo\<rparr>"] by simp
  let ?tx = "discard_staged_for_table t (snd ?s2)"
  have "tx_savepoints ?tx = tx_savepoints (snd ?s1)" "tx_insert_log ?tx = other_rows t (?log @ rows)"
    using 2 by (simp_all add: discard_staged_for_table_def other_rows_def)
  then have "tx_insert_log (fst (savepoint_rollback_to name ?tx)) = take (length ?log) (other_rows t (?log @ rows))"
    using own by (simp add: savepoint_rollback_to_def resolve_savepoint_target_def rollback_to_savepoint_def savepoint_snapshot_def savepoint_establish_def push_savepoint_def)
  then have log: "tx_insert_log (snd s') = other_rows t ?log @ take (length ?log - length (other_rows t ?log)) (other_rows t rows)"
    by (simp add: assms(4) other_rows_def del: txn_step.simps(2,5))
  show ?thesis
  proof (intro conjI impI)
    assume a: "\<exists>e \<in> set ?log. starts_with (data_prefix t) (fst e)" "other_rows t rows \<noteq> []"
    then obtain n where "length ?log - length (other_rows t ?log) = Suc n" using other_rows_shorter [of _ ?log t] by (metis Suc_diff_Suc)
    then show "hd (other_rows t rows) \<in> set (tx_insert_log (snd s'))" using a(2) unfolding log by (cases "other_rows t rows") simp_all
  qed (rule log)
qed

theorem discard_breaks_savepoint_witness:
  "let a = data_key [0x61] 1; b = data_key [0x62] 1; s = fold txn_step [Op_insert a [7]] (demo_env, transaction_new 1 5);
       s' = fold txn_step [Op_savepoint ''sp'' 0, Op_insert b [8], Op_discard [0x61], Op_rollback_to ''sp''] s
   in (b, [8]) \<in> set (tx_insert_log (snd s'))"
proof -
  let ?a = "data_key [0x61] 1" and ?b = "data_key [0x62] 1"
  let ?s = "fold txn_step [Op_insert ?a [7]] (demo_env, transaction_new 1 5)"
  have 1: "tx_state (snd ?s) = Active" "\<not> tx_lock_manager (snd ?s)" "\<not> tx_dirty_tracker (snd ?s)" by code_simp+
  have 2: "\<exists>e \<in> set (tx_insert_log (snd ?s)). starts_with (data_prefix [0x61]) (fst e)" "other_rows [0x61] [(?b, [8])] = [(?b, [8])]" by code_simp+
  have "hd (other_rows [0x61] [(?b, [8])]) \<in> set (tx_insert_log (snd (fold txn_step ([Op_savepoint ''sp'' 0] @ map (\<lambda>(k, v). Op_insert k v) [(?b, [8])]
      @ [Op_discard [0x61], Op_rollback_to ''sp'']) ?s)))"
    using discard_breaks_savepoint [OF 1 refl, of "''sp''" 0 "[(?b, [8])]" "[0x61]", THEN conjunct2, rule_format, OF 2(1)] 2(2) by simp
  then show ?thesis unfolding 2(2) Let_def by (simp del: txn_step.simps)
qed

text \<open>
  C40. Writes to a table whose name contains a colon are attributed to the part before the colon: the
  transaction reports that it has not written the table although the row is staged, so a scan
  that consults \<open>has_writes_for_table\<close> misses it, and the census reports no staged writes for
  the table. Loads of such tables are supported elsewhere: their markers are split at the last colons.
\<close>

theorem colon_table_writes_unseen:
  assumes "is_utf8 (p @ [colon] @ q)" "colon \<notin> set p"
  shows "let t = p @ [colon] @ q; s = fst (txn_put False (data_key t r) v (demo_env, set_write_census (transaction_new i n)))
    in staged_lookup (snd s) (data_key t r) = Some (Some v) \<and> \<not> has_writes_for_table (snd s) t \<and> \<not> table_has_staged_writes (en_census (fst s)) t
      \<and> has_writes_for_table (snd s) p"
proof -
  have "is_utf8 (p @ [colon] @ q @ [colon] @ u64_text r)" using is_utf8_append [OF assms(1), of "[colon] @ u64_text r"] is_utf8_append [of "[colon]" "u64_text r"] by simp
  then have k: "key_table (data_key (p @ [colon] @ q) r) = Some p" using assms(2) by (simp add: key_table_def data_key_def data_prefix_def)
  show ?thesis using k
    by (simp add: txn_put_def txn_lock_def set_write_census_def transaction_new_def Let_def note_written_key_def on_gate_def add_written_table_def staged_lookup_def update_conv
      has_writes_for_table_def demo_env_def gate_new_def note_write_def note_table_write_def enter_def enter_table_write_def table_has_staged_writes_def census_new_def)
qed

theorem colon_table_writes_unseen_witness:
  "let t = [0x61, colon, 0x62]; s = fst (txn_put False (data_key t 1) [7] (demo_env, set_write_census (transaction_new 1 5)))
   in staged_lookup (snd s) (data_key t 1) = Some (Some [7]) \<and> \<not> has_writes_for_table (snd s) t"
proof -
  have "is_utf8 ([0x61] @ [colon] @ [0x62])" by (simp add: is_utf8_ascii)
  from colon_table_writes_unseen [OF this, of 1 "[7]" 1 5] show ?thesis by (simp add: Let_def)
qed

end
