(* ===== verification/Transaction_Notes.thy ===== *)
theory Transaction_Notes
  imports Transaction_Laws
begin

text \<open>
  What a transaction notes about the keys it stages, in its own sets and in the census of
  uncommitted writes: nothing staged goes unnoted. The gates that scans and index probes consult before
  they take a fast path are therefore sound.
\<close>

section \<open>Notes of staged keys\<close>

text \<open>
  What a transaction and its gate note only grows, and the census stays a tally: \<open>M\<close> are the slots
  of the other transactions. \<open>gate_has\<close> says that the gate knows the tables the transaction knows.
\<close>

definition slots_le :: "slots \<Rightarrow> slots \<Rightarrow> bool" where
  "slots_le sl sl' \<longleftrightarrow> (sl_counted sl \<longrightarrow> sl_counted sl') \<and> (sl_unattributed sl \<longrightarrow> sl_unattributed sl')
     \<and> set (sl_tables_written sl) \<subseteq> set (sl_tables_written sl') \<and> set (sl_tables_removed sl) \<subseteq> set (sl_tables_removed sl')"

definition gate_has :: "transaction \<Rightarrow> bool" where
  "gate_has tx \<longleftrightarrow> (\<forall>sl. tx_write_census tx = Some sl \<longrightarrow> set (tx_written_tables tx) \<subseteq> set (sl_tables_written sl))"

definition counted_with :: "slots multiset \<Rightarrow> txn_env \<times> transaction \<Rightarrow> bool" where
  "counted_with M s \<longleftrightarrow> (\<forall>sl. tx_write_census (snd s) = Some sl \<longrightarrow> slots_ok sl \<and> tally (en_census (fst s)) (add_mset sl M))"

definition notes_grow :: "txn_env \<times> transaction \<Rightarrow> txn_env \<times> transaction \<Rightarrow> bool" where
  "notes_grow s s' \<longleftrightarrow> set (tx_written_tables (snd s)) \<subseteq> set (tx_written_tables (snd s'))
     \<and> (tx_has_unattributed_writes (snd s) \<longrightarrow> tx_has_unattributed_writes (snd s'))
     \<and> rel_option slots_le (tx_write_census (snd s)) (tx_write_census (snd s'))
     \<and> (gate_has (snd s) \<longrightarrow> gate_has (snd s')) \<and> (\<forall>M. counted_with M s \<longrightarrow> counted_with M s')"

lemma slots_le_refl [simp]: "slots_le sl sl"
  by (simp add: slots_le_def)

lemma slots_le_trans: "slots_le a b \<Longrightarrow> slots_le b c \<Longrightarrow> slots_le a c"
  by (auto simp: slots_le_def)

lemma grow_refl [simp]: "notes_grow s s"
  by (simp add: notes_grow_def option.rel_refl)

lemma grow_trans [trans]: "notes_grow a b \<Longrightarrow> notes_grow b c \<Longrightarrow> notes_grow a c"
proof -
  assume ab: "notes_grow a b" and bc: "notes_grow b c"
  have "rel_option slots_le (tx_write_census (snd a)) (tx_write_census (snd c))"
    using ab bc unfolding notes_grow_def by (auto simp: option_rel_Some1 option_rel_Some2 elim!: option.rel_cases intro: slots_le_trans)
  then show ?thesis using ab bc unfolding notes_grow_def by blast
qed

lemma notes_le: "slots_le sl (fst (note_write sl cs))" "slots_le sl (fst (note_table_write t sl cs))"
  "slots_le sl (fst (note_table_removal t sl cs))" "slots_le sl (fst (note_unattributed sl cs))"
  by (auto simp: slots_le_def note_write_def note_table_write_def note_table_removal_def note_unattributed_def)

lemma on_gate_grows:
  assumes "keeps_tally f" "\<And>sl cs. slots_le sl (fst (f sl cs))"
  shows "notes_grow s (on_gate f s)"
proof -
  obtain env tx where s: "s = (env, tx)" by (cases s)
  show ?thesis
  proof (cases "tx_write_census tx")
    case (Some sl)
    obtain sl' cs' where f: "f sl (en_census env) = (sl', cs')" by (cases "f sl (en_census env)")
    then have "slots_le sl sl'" using assms(2) [of sl "en_census env"] by simp
    moreover have "tally cs' (add_mset sl' M) \<and> slots_ok sl'" if "tally (en_census env) (add_mset sl M)" "slots_ok sl" for M
      using assms(1) that f unfolding keeps_tally_def by (metis fst_conv snd_conv)
    ultimately show ?thesis using s Some f by (auto simp: notes_grow_def on_gate_def gate_has_def counted_with_def slots_le_def)
  qed (use s in \<open>simp add: on_gate_def\<close>)
qed

lemmas notes_grow_rules = on_gate_grows [OF notes_keep_tally(1) notes_le(1)] on_gate_grows [OF notes_keep_tally(2) notes_le(2)]
  on_gate_grows [OF notes_keep_tally(3) notes_le(3)] on_gate_grows [OF notes_keep_tally(4) notes_le(4)]

lemma add_written_grows: "notes_grow s (add_written_table t s)" "t \<in> set (tx_written_tables (snd (add_written_table t s)))"
proof -
  obtain env tx where s: "s = (env, tx)" by (cases s)
  have n: "slots_le sl (fst (note_table_write t sl cs))" "t \<in> set (sl_tables_written (fst (note_table_write t sl cs)))" for sl cs
    by (auto simp: slots_le_def note_table_write_def)
  show "notes_grow s (add_written_table t s)"
  proof (cases "t \<in> set (tx_written_tables tx) \<or> tx_write_census tx = None")
    case True
    then show ?thesis using s by (auto simp: add_written_table_def on_gate_def notes_grow_def gate_has_def counted_with_def option.rel_refl)
  next
    case False
    then obtain sl where sl: "tx_write_census tx = Some sl" by auto
    obtain sl' cs' where f: "note_table_write t sl (en_census env) = (sl', cs')" by (cases "note_table_write t sl (en_census env)")
    have "slots_le sl sl'" "t \<in> set (sl_tables_written sl')" using n [of sl "en_census env"] f by simp_all
    moreover have "tally cs' (add_mset sl' M) \<and> slots_ok sl'" if "tally (en_census env) (add_mset sl M)" "slots_ok sl" for M
      using notes_keep_tally(2) [of t] that f unfolding keeps_tally_def by (metis fst_conv snd_conv)
    ultimately show ?thesis using s False sl f by (auto simp: add_written_table_def on_gate_def notes_grow_def gate_has_def counted_with_def slots_le_def)
  qed
  show "t \<in> set (tx_written_tables (snd (add_written_table t s)))"
    using s by (auto simp: add_written_table_def on_gate_def split: option.split prod.split)
qed

text \<open>A staged key is noted: its table is known to the transaction and to the gate, a removal too, and a key without a table is remembered as such.\<close>

definition noted :: "transaction \<Rightarrow> bytes \<Rightarrow> bool \<Rightarrow> bool" where
  "noted tx k tombstone \<longleftrightarrow> (case key_table k of
       Some t \<Rightarrow> t \<in> set (tx_written_tables tx) \<and> (\<forall>sl. tx_write_census tx = Some sl \<longrightarrow> tombstone \<longrightarrow> t \<in> set (sl_tables_removed sl))
     | None \<Rightarrow> tx_has_unattributed_writes tx \<and> (\<forall>sl. tx_write_census tx = Some sl \<longrightarrow> key_cannot_change_an_index k \<or> sl_unattributed sl))
     \<and> (\<forall>sl. tx_write_census tx = Some sl \<longrightarrow> sl_counted sl)"

lemma noted_grows: "notes_grow s s' \<Longrightarrow> noted (snd s) k b \<Longrightarrow> noted (snd s') k b"
  by (auto simp: notes_grow_def noted_def slots_le_def rel_option_iff split: option.splits)

lemma noted_value: "noted tx k b \<Longrightarrow> noted tx k False"
  by (auto simp: noted_def split: option.splits)

lemma on_gate_slots: "tx_write_census (snd (on_gate f s)) = map_option (\<lambda>sl. fst (f sl (en_census (fst s)))) (tx_write_census (snd s))"
  by (cases s) (simp add: on_gate_def Let_def split: option.split prod.split)

lemma on_gate_keeps [simp]: "tx_written_tables (snd (on_gate f s)) = tx_written_tables (snd s)"
  "tx_has_unattributed_writes (snd (on_gate f s)) = tx_has_unattributed_writes (snd s)"
  by (cases s, simp add: on_gate_def Let_def split: option.split prod.split)+

lemma note_written_grows: "notes_grow s (note_written_key k st s)"
proof (cases "key_table k")
  case None
  let ?s = "if key_cannot_change_an_index k then on_gate note_write s else on_gate note_unattributed (on_gate note_write s)"
  have a: "notes_grow s ?s" using notes_grow_rules(1) [of s] grow_trans [OF notes_grow_rules(1,4), of s] by simp
  have b: "notes_grow ?s (fst ?s, (snd ?s)\<lparr>tx_has_unattributed_writes := True\<rparr>)" by (auto simp: notes_grow_def gate_has_def counted_with_def option.rel_refl)
  show ?thesis using grow_trans [OF a b] None by (simp add: note_written_key_def Let_def case_prod_beta)
next
  case (Some t)
  then show ?thesis using notes_grow_rules(1) [of s] notes_grow_rules(3) add_written_grows(1) grow_trans by (simp add: note_written_key_def Let_def) metis
qed

lemma note_written_noted: "gate_has (snd s) \<Longrightarrow> noted (snd (note_written_key k st s)) k (st = Tombstone)"
proof -
  have c: "\<And>sl. tx_write_census (snd (on_gate note_write s)) = Some sl \<Longrightarrow> sl_counted sl"
    by (auto simp: on_gate_slots note_write_def)
  have cc: "sl_counted sl" if "notes_grow (on_gate note_write s) s'" "tx_write_census (snd s') = Some sl" for s' sl
    using that c by (auto simp: notes_grow_def slots_le_def option_rel_Some2)
  show ?thesis
  proof (cases "key_table k")
    case None
    let ?s = "if key_cannot_change_an_index k then on_gate note_write s else on_gate note_unattributed (on_gate note_write s)"
    have "sl_counted sl" if "tx_write_census (snd ?s) = Some sl" for sl using that cc [of ?s sl] notes_grow_rules(4) by (auto split: if_splits)
    moreover have "sl_unattributed sl" if "tx_write_census (snd ?s) = Some sl" "\<not> key_cannot_change_an_index k" for sl
      using that by (auto simp: on_gate_slots note_unattributed_def)
    ultimately show ?thesis using None by (auto simp: note_written_key_def Let_def case_prod_beta noted_def)
  next
    case (Some t)
    let ?s1 = "add_written_table t (on_gate note_write s)" and ?s2 = "note_written_key k st s"
    have s2: "?s2 = (if st = Tombstone then on_gate (note_table_removal t) ?s1 else ?s1)" using Some by (simp add: note_written_key_def Let_def)
    have "notes_grow ?s1 ?s2" using s2 notes_grow_rules(3) by simp
    then have "notes_grow (on_gate note_write s) ?s2" using add_written_grows(1) grow_trans by blast
    then have "\<And>sl. tx_write_census (snd ?s2) = Some sl \<Longrightarrow> sl_counted sl" by (rule cc)
    moreover have "t \<in> set (tx_written_tables (snd ?s2))" using \<open>notes_grow ?s1 ?s2\<close> add_written_grows(2) unfolding notes_grow_def by blast
    moreover have "t \<in> set (sl_tables_removed sl)" if "st = Tombstone" "tx_write_census (snd ?s2) = Some sl" for sl
      using that s2 by (auto simp: on_gate_slots note_table_removal_def Let_def split: prod.splits if_splits)
    ultimately show ?thesis using Some by (cases st) (auto simp: noted_def)
  qed
qed

lemma lock_grows: "notes_grow s (fst (txn_lock e ty k s))"
  by (cases s) (auto simp: txn_lock_def notes_grow_def gate_has_def counted_with_def option.rel_refl split: acquire_outcome.split prod.split)

lemma staging_grows [simp]: "notes_grow s (env, tx\<lparr>tx_write_set := w\<rparr>) = notes_grow s (env, tx)" "notes_grow s (env, tx\<lparr>tx_insert_log := l\<rparr>) = notes_grow s (env, tx)"
  "notes_grow s (env, tx\<lparr>tx_row_counter_stages := c\<rparr>) = notes_grow s (env, tx)" "notes_grow s (env, tx\<lparr>tx_savepoints := p\<rparr>) = notes_grow s (env, tx)"
  by (simp_all add: notes_grow_def gate_has_def counted_with_def)

lemma noted_staging [simp]: "noted (tx\<lparr>tx_write_set := w\<rparr>) k b = noted tx k b" "noted (tx\<lparr>tx_insert_log := l\<rparr>) k b = noted tx k b"
  by (simp_all add: noted_def cong: option.case_cong)

lemma put_notes:
  "notes_grow s (fst (txn_put e k v s)) \<and> (gate_has (snd s) \<and> snd (txn_put e k v s) = Done () \<longrightarrow> noted (snd (fst (txn_put e k v s))) k False)"
proof -
  obtain s1 o1 where l: "txn_lock e WriteLock k s = (s1, o1)" by (cases "txn_lock e WriteLock k s")
  have g: "notes_grow s s1" using lock_grows [of s e WriteLock k] l by simp
  then have "notes_grow s (note_written_key k StagedValue s1)" using note_written_grows grow_trans by blast
  moreover have "gate_has (snd s) \<Longrightarrow> noted (snd (note_written_key k StagedValue s1)) k False" using g note_written_noted [of s1 k StagedValue] by (simp add: notes_grow_def)
  ultimately show ?thesis using g l by (cases o1) (auto simp: txn_put_def case_prod_beta)
qed

lemma insert_notes:
  "notes_grow s (fst (put_insert_fast e k v s)) \<and> (gate_has (snd s) \<and> snd (put_insert_fast e k v s) = Done () \<longrightarrow> noted (snd (fst (put_insert_fast e k v s))) k False)"
  using put_notes [of s e k v] note_written_grows [of s k StagedValue] note_written_noted [of s k StagedValue]
  by (auto simp: put_insert_fast_def Let_def case_prod_beta)

lemma delete_notes:
  "notes_grow s (fst (txn_delete k s)) \<and> (gate_has (snd s) \<and> snd (txn_delete k s) = Done () \<longrightarrow> noted (snd (fst (txn_delete k s))) k True)"
  using note_written_grows [of s k Tombstone] note_written_noted [of s k Tombstone]
  by (auto simp: txn_delete_def Let_def case_prod_beta)

lemma counter_notes: "notes_grow s (fst (stage_row_counter t r s))"
  using grow_trans [OF notes_grow_rules(1) add_written_grows(1), of s t] by (simp add: stage_row_counter_def Let_def case_prod_beta)

subsection \<open>Everything staged is noted\<close>

definition entries_of :: "(bytes \<times> bytes option) list \<Rightarrow> (bytes \<times> bool) set" where
  "entries_of ws = (\<lambda>(k, v). (k, v = None)) ` set ws"

definition staged_entries :: "transaction \<Rightarrow> (bytes \<times> bool) set" where
  "staged_entries tx = entries_of (tx_write_set tx) \<union> (\<Union>e \<in> set (tx_savepoints tx). entries_of (sn_write_set (sp_snapshot e)))
     \<union> (\<lambda>(k, v). (k, False)) ` set (tx_insert_log tx)"

definition all_noted :: "transaction \<Rightarrow> bool" where
  "all_noted tx \<longleftrightarrow> gate_has tx \<and> (\<forall>(k, b) \<in> staged_entries tx. noted tx k b)"

lemma staged_entries_view: "staged_view tx' = staged_view tx \<Longrightarrow> staged_entries tx' = staged_entries tx"
  by (drule staged_view_eq) (simp add: staged_entries_def)

lemma set_alist_update: "set (AList.update k v xs) \<subseteq> insert (k, v) (set xs)"
  by (induction xs) auto

lemma set_alist_fold: "set (fold (\<lambda>(k, v). AList.update k v) kvs xs) \<subseteq> set kvs \<union> set xs"
proof (induction kvs arbitrary: xs)
  case (Cons a kvs)
  show ?case using Cons [of "AList.update (fst a) (snd a) xs"] set_alist_update [of "fst a" "snd a" xs] by (auto simp: case_prod_beta)
qed simp

lemma entries_put: "staged_view tx' = put_view k v tx \<Longrightarrow> staged_entries tx' \<subseteq> insert (k, v = None) (staged_entries tx)"
proof -
  assume "staged_view tx' = put_view k v tx"
  then have "staged_entries tx' = staged_entries (tx\<lparr>tx_write_set := AList.update k v (tx_write_set tx)\<rparr>)" unfolding put_view_def by (rule staged_entries_view)
  also have "\<dots> \<subseteq> insert (k, v = None) (staged_entries tx)" using set_alist_update [of k v "tx_write_set tx"] by (force simp: staged_entries_def entries_of_def)
  finally show ?thesis .
qed

lemma all_noted_grows:
  assumes "all_noted (snd s)" "notes_grow s s'" "staged_entries (snd s') \<subseteq> E \<union> staged_entries (snd s)" "\<And>k b. (k, b) \<in> E \<Longrightarrow> noted (snd s') k b"
  shows "all_noted (snd s')"
  using assms noted_grows [OF assms(2)] unfolding all_noted_def notes_grow_def by blast

lemma rollback_entries: "staged_entries (fst (savepoint_rollback_to name tx)) \<subseteq> staged_entries tx"
proof (cases "rposition name (tx_savepoints tx)")
  case (Some p)
  note p = rposition_Some(1) [OF Some]
  let ?sn = "sp_snapshot (tx_savepoints tx ! p)"
  have "set (fold (\<lambda>(k, v). AList.update k v) (sn_write_set ?sn) (filter q (tx_write_set tx))) \<subseteq> set (sn_write_set ?sn) \<union> set (tx_write_set tx)" for q
    using set_alist_fold [of "sn_write_set ?sn" "filter q (tx_write_set tx)"] by auto
  then have "entries_of (fold (\<lambda>(k, v). AList.update k v) (sn_write_set ?sn) (filter q (tx_write_set tx))) \<subseteq> entries_of (sn_write_set ?sn) \<union> entries_of (tx_write_set tx)" for q
    unfolding entries_of_def by blast
  moreover have "tx_savepoints tx ! p \<in> set (tx_savepoints tx)" using p by simp
  ultimately show ?thesis using Some
    by (fastforce simp: savepoint_rollback_to_def resolve_savepoint_target_def rollback_to_savepoint_def staged_entries_def dest: in_set_takeD)
qed (simp add: savepoint_rollback_to_def resolve_savepoint_target_def)

lemma apsnd_grows:
  assumes "\<And>env. notes_grow (env, snd s) (env, f (snd s))" "staged_entries (f (snd s)) \<subseteq> staged_entries (snd s)" "all_noted (snd s)"
  shows "notes_grow s (apsnd f s) \<and> all_noted (snd (apsnd f s))"
proof -
  have g: "notes_grow s (apsnd f s)" using assms(1) [of "fst s"] by (cases s) simp
  then show ?thesis using all_noted_grows [OF assms(3) g, of "{}"] assms(2) by simp
qed

lemma step_noted:
  assumes "all_noted (snd s)"
  shows "notes_grow s (txn_step op s) \<and> all_noted (snd (txn_step op s))"
proof (cases op)
  case (Op_put k v)
  have "gate_has (snd s)" using assms by (simp add: all_noted_def)
  then show ?thesis using put_notes [of s False k v] put_effect [of False k v s] entries_put [of "snd (txn_step op s)" k "Some v" "snd s"] staged_entries_view [of "snd (txn_step op s)" "snd s"]
      all_noted_grows [OF assms, of "txn_step op s" "{(k, False)}"] all_noted_grows [OF assms, of "txn_step op s" "{}"] Op_put
    by (cases "snd (txn_put False k v s) = Done ()") simp_all
next
  case (Op_insert k v)
  have g: "gate_has (snd s)" using assms by (simp add: all_noted_def)
  let ?log = "(snd s)\<lparr>tx_insert_log := tx_insert_log (snd s) @ [(k, v)]\<rparr>"
  have l: "staged_entries ?log \<subseteq> {(k, False)} \<union> staged_entries (snd s)" by (auto simp: staged_entries_def)
  show ?thesis
  proof (cases "snd (put_insert_fast False k v s) = Done ()")
    case True
    then have "staged_entries (snd (txn_step op s)) \<subseteq> {(k, False)} \<union> staged_entries (snd s)"
      using insert_outcome [of False k v s] Op_insert l entries_put [of "snd (txn_step op s)" k "Some v" "snd s"] staged_entries_view [of "snd (txn_step op s)" ?log] by auto
    then show ?thesis using insert_notes [of s False k v] True g Op_insert all_noted_grows [OF assms, of "txn_step op s" "{(k, False)}"] by simp
  next
    case False
    then show ?thesis using insert_notes [of s False k v] insert_outcome [of False k v s] staged_entries_view [of "snd (txn_step op s)" "snd s"] Op_insert
        all_noted_grows [OF assms, of "txn_step op s" "{}"] by simp
  qed
next
  case (Op_delete k)
  have g: "gate_has (snd s)" using assms by (simp add: all_noted_def)
  show ?thesis
  proof (cases "tx_state (snd s) = Active")
    case True
    then have d: "snd (txn_delete k s) = Done ()" by (simp add: txn_delete_def Let_def case_prod_beta)
    have "staged_entries (snd (txn_step op s)) \<subseteq> {(k, True)} \<union> staged_entries (snd s)"
      using entries_put [of "snd (txn_step op s)" k None "snd s"] delete_effect [of k s] True Op_delete by simp
    then show ?thesis using delete_notes [of s k] d g Op_delete all_noted_grows [OF assms, of "txn_step op s" "{(k, True)}"] by simp
  qed (use assms Op_delete in \<open>simp add: txn_delete_def\<close>)
next
  case (Op_counter t r)
  then show ?thesis using counter_notes [of s t r] counter_effect [of t r s] staged_entries_view [of "snd (txn_step op s)" "snd s"] all_noted_grows [OF assms, of "txn_step op s" "{}"] by simp
next
  case (Op_savepoint name undo)
  have "notes_grow (env, snd s) (env, savepoint_establish name undo (snd s))" for env by (simp add: savepoint_establish_def push_savepoint_def)
  moreover have "staged_entries (savepoint_establish name undo (snd s)) \<subseteq> staged_entries (snd s)"
    by (auto simp: staged_entries_def savepoint_establish_def push_savepoint_def savepoint_snapshot_def)
  ultimately show ?thesis using apsnd_grows [of s "savepoint_establish name undo"] assms Op_savepoint by simp
next
  case (Op_release name)
  have "notes_grow (env, snd s) (env, fst (savepoint_release name (snd s)))" for env by (simp add: savepoint_release_def release_savepoint_def split: option.split)
  moreover have "staged_entries (fst (savepoint_release name (snd s))) \<subseteq> staged_entries (snd s)"
    by (auto simp: staged_entries_def savepoint_release_def release_savepoint_def split: option.split dest: in_set_takeD)
  ultimately show ?thesis using apsnd_grows [of s "\<lambda>tx. fst (savepoint_release name tx)"] assms Op_release by simp
next
  case (Op_rollback_to name)
  have "notes_grow (env, snd s) (env, fst (savepoint_rollback_to name (snd s)))" for env
    by (simp add: savepoint_rollback_to_def resolve_savepoint_target_def rollback_to_savepoint_def split: option.split)
  then show ?thesis using apsnd_grows [of s "\<lambda>tx. fst (savepoint_rollback_to name tx)"] rollback_entries assms Op_rollback_to by simp
next
  case (Op_discard t)
  have "notes_grow (env, snd s) (env, discard_staged_for_table t (snd s))" for env by (simp add: discard_staged_for_table_def)
  moreover have "staged_entries (discard_staged_for_table t (snd s)) \<subseteq> staged_entries (snd s)"
    by (auto simp: staged_entries_def discard_staged_for_table_def entries_of_def)
  ultimately show ?thesis using apsnd_grows [of s "discard_staged_for_table t"] assms Op_discard by simp
qed

lemma run_noted: "all_noted (snd s) \<Longrightarrow> notes_grow s (fold txn_step ops s) \<and> all_noted (snd (fold txn_step ops s))"
proof (induction ops arbitrary: s)
  case (Cons op ops)
  then show ?case using step_noted [OF Cons.prems, of op] Cons.IH [of "txn_step op s"] grow_trans [of s "txn_step op s"] by simp
qed simp

section \<open>The gate of the scans\<close>

lemma is_utf8_Cons: "unat b < 0x80 \<Longrightarrow> is_utf8 (b # bs) = is_utf8 bs"
  by (subst is_utf8.simps) (simp add: utf8_step_def Let_def)

lemma table_row_key: "table_name t \<Longrightarrow> table_row t k = Some r \<Longrightarrow> key_table k = Some t"
  by (auto simp: table_row_def key_table_def strip_prefix_Some data_prefix_def table_name_def ascii_def is_utf8_Cons split: if_splits Option.bind_splits)

lemma table_row_data: "table_name t \<Longrightarrow> table_row t (data_key t r) = Some r"
proof -
  assume "table_name t"
  then have "is_utf8 (data_key t r)" by (simp add: table_name_def data_key_def data_prefix_def ascii_def is_utf8_Cons is_utf8_append)
  then show ?thesis by (simp add: table_row_def) (simp add: data_key_def)
qed

lemma staged_keys_noted:
  assumes "all_noted tx" "table_name t" "\<not> has_writes_for_table tx t"
  shows "k \<in> fst ` set (tx_write_set tx) \<Longrightarrow> table_row t k = None" "k \<in> fst ` set (tx_insert_log tx) \<Longrightarrow> table_row t k = None"
proof -
  have "table_row t k = None" if "(k, b) \<in> staged_entries tx" for b
    using that assms table_row_key [OF assms(2), of k] by (fastforce simp: all_noted_def noted_def has_writes_for_table_def split: option.splits)
  then show "k \<in> fst ` set (tx_write_set tx) \<Longrightarrow> table_row t k = None" "k \<in> fst ` set (tx_insert_log tx) \<Longrightarrow> table_row t k = None"
    by (force simp: staged_entries_def entries_of_def)+
qed

lemma merge_base_unstaged: "(\<And>r. map_of ws (data_key t r) = None) \<Longrightarrow> \<exists>h. merge_base de width ws t tuples = Inr (tuples, h)"
  by (induction tuples) (auto split: option.split)

lemma merge_write_set_unstaged: "\<forall>k \<in> fst ` set ws. table_row t k = None \<Longrightarrow> merge_write_set de width t h ws = Inr []"
  by (induction ws) auto

lemma merge_insert_log_unstaged: "\<forall>k \<in> fst ` set log. table_row t k = None \<Longrightarrow> merge_insert_log de width ws t h log = Inr []"
  by (induction log) auto

text \<open>
  C25. The gate of the scans is sound for tables without a colon in their name: when an open transaction, whatever
  it has done since it began, reports no writes for such a table, merging its staged rows into a scan of
  that table changes nothing, so the scans that skip the merge return the same rows.
\<close>

theorem unwritten_table_needs_no_merge:
  assumes "tx_write_set tx = []" "tx_insert_log tx = []" "tx_savepoints tx = []" "tx_written_tables tx = []"
    and "table_name t" "\<not> has_writes_for_table (snd (fold txn_step ops (env, tx))) t"
  shows "merge_with_write_set_inner de (snd (fold txn_step ops (env, tx))) t tuples width = Inr tuples"
proof -
  let ?tx = "snd (fold txn_step ops (env, tx))"
  have "all_noted tx" using assms by (simp add: all_noted_def gate_has_def staged_entries_def entries_of_def)
  then have n: "all_noted ?tx" using run_noted [of "(env, tx)" ops] by simp
  note k = staged_keys_noted [OF n assms(5,6)]
  have "map_of (tx_write_set ?tx) (data_key t r) = None" for r
    using k(1) [of "data_key t r"] table_row_data [OF assms(5), of r] by (auto simp: map_of_eq_None_iff)
  then show ?thesis using merge_base_unstaged [of "tx_write_set ?tx" t de width tuples] k merge_write_set_unstaged [of "tx_write_set ?tx" t]
      merge_insert_log_unstaged [of "tx_insert_log ?tx" t] by (auto simp: merge_with_write_set_inner_def)
qed

theorem unwritten_table_needs_no_merge_witness:
  "merge_with_write_set_inner (\<lambda>b. Inr \<lparr>rt_values = [], rt_row_id = None\<rparr>) (snd (fold txn_step demo_ops (demo_env, transaction_new 1 5))) [0x62] [] None = Inr []"
proof -
  have "table_name [0x62]" by (simp add: table_name_def is_utf8_ascii)
  moreover have "\<not> has_writes_for_table (snd (fold txn_step demo_ops (demo_env, transaction_new 1 5))) [0x62]" by code_simp
  ultimately show ?thesis using unwritten_table_needs_no_merge [of "transaction_new 1 5" "[0x62]" demo_ops demo_env] by (simp add: transaction_new_def)
qed

section \<open>The census\<close>

lemma tally_answers:
  assumes "tally cs (add_mset sl M)"
  shows "sl_counted sl \<Longrightarrow> any_uncommitted_writes cs" "sl_unattributed sl \<or> t \<in> set (sl_tables_written sl) \<Longrightarrow> table_has_staged_writes cs t"
    "sl_unattributed sl \<or> t \<in> set (sl_tables_removed sl) \<Longrightarrow> table_has_staged_index_removals cs t"
proof -
  have w: "tw_writes (table_counts cs t) = size (filter_mset (\<lambda>sl. t \<in> set (sl_tables_written sl)) (add_mset sl M))"
    "tw_removals (table_counts cs t) = size (filter_mset (\<lambda>sl. t \<in> set (sl_tables_removed sl)) (add_mset sl M))"
    and u: "cs_unattributed cs = size (filter_mset sl_unattributed (add_mset sl M))" "cs_open cs = size (filter_mset sl_counted (add_mset sl M))"
    using assms by (simp_all only: tally_def)
  show "sl_counted sl \<Longrightarrow> any_uncommitted_writes cs" using u by (simp add: any_uncommitted_writes_def)
  show "sl_unattributed sl \<or> t \<in> set (sl_tables_written sl) \<Longrightarrow> table_has_staged_writes cs t"
    using u(1) w(1) by (auto simp: table_has_staged_writes_def table_counts_def split: option.splits if_splits)
  show "sl_unattributed sl \<or> t \<in> set (sl_tables_removed sl) \<Longrightarrow> table_has_staged_index_removals cs t"
    using u(1) w(2) by (auto simp: table_has_staged_index_removals_def table_counts_def split: option.splits if_splits)
qed

lemma lookup_entry: "staged_lookup tx k = Some v \<Longrightarrow> (k, v = None) \<in> staged_entries tx"
  by (force simp: staged_lookup_def staged_entries_def entries_of_def split: option.splits dest!: map_of_SomeD)

text \<open>
  C24. The census sees every staged write: whatever a transaction enrolled in it has done since it began, next to
  any history of other transactions, while a write of a key is staged the census reports an open
  writer and staged writes for the table that the key names, and for a staged delete removals from its indexes; a
  staged key that names no table makes it report them for all tables, unless the key cannot
  change an index. The table a key names is the part before its first colon (\<open>key_table\<close>).
\<close>

theorem staged_writes_are_counted:
  assumes "tx_write_set tx = []" "tx_insert_log tx = []" "tx_savepoints tx = []" "tx_written_tables tx = []"
    and "s = fold txn_step ops (env\<lparr>en_census := sy_census (census_run others)\<rparr>, set_write_census tx)" "staged_lookup (snd s) k = Some v"
  shows "any_uncommitted_writes (en_census (fst s)) \<and> (case key_table k of
       Some t \<Rightarrow> has_writes_for_table (snd s) t \<and> table_has_staged_writes (en_census (fst s)) t
         \<and> (v = None \<longrightarrow> table_has_staged_index_removals (en_census (fst s)) t)
     | None \<Rightarrow> has_writes_for_table (snd s) t \<and> (\<not> key_cannot_change_an_index k \<longrightarrow>
         table_has_staged_writes (en_census (fst s)) t \<and> table_has_staged_index_removals (en_census (fst s)) t))"
proof -
  let ?s0 = "(env\<lparr>en_census := sy_census (census_run others)\<rparr>, set_write_census tx)" and ?M = "mset (members (census_run others))"
  have "all_noted (snd ?s0)" using assms by (simp add: all_noted_def gate_has_def staged_entries_def entries_of_def set_write_census_def)
  from run_noted [OF this] have n: "notes_grow ?s0 s" "all_noted (snd s)" using assms(5) by simp_all
  have "counted_with ?M ?s0" using census_run_ok [of others] by (simp add: counted_with_def set_write_census_def gate_new_def slots_ok_def system_ok_def tally_def)
  then have c: "counted_with ?M s" using n(1) by (simp add: notes_grow_def)
  obtain sl where sl: "tx_write_census (snd s) = Some sl" using n(1) by (auto simp: notes_grow_def set_write_census_def option_rel_Some1)
  have T: "tally (en_census (fst s)) (add_mset sl ?M)" using c sl by (simp add: counted_with_def)
  have k: "noted (snd s) k (v = None)" "gate_has (snd s)" using n(2) lookup_entry [OF assms(6)] by (auto simp: all_noted_def)
  show ?thesis using k sl tally_answers [OF T] by (auto simp: noted_def has_writes_for_table_def gate_has_def split: option.split)
qed

theorem staged_writes_are_counted_witness:
  "let s = fold txn_step [Op_put (data_key [0x61] 1) [7], Op_delete (data_key [0x61] 1)] (demo_env\<lparr>en_census := sy_census (census_run [])\<rparr>, set_write_census (transaction_new 1 5))
   in table_has_staged_index_removals (en_census (fst s)) [0x61]"
proof -
  let ?ops = "[Op_put (data_key [0x61] 1) [7], Op_delete (data_key [0x61] 1)]"
  let ?s = "fold txn_step ?ops (demo_env\<lparr>en_census := sy_census (census_run [])\<rparr>, set_write_census (transaction_new 1 5))"
  have "staged_lookup (snd ?s) (data_key [0x61] 1) = Some None" "key_table (data_key [0x61] 1) = Some [0x61]" by code_simp+
  then show ?thesis
    using staged_writes_are_counted [where tx = "transaction_new 1 5" and ops = ?ops and env = demo_env and others = "[]" and k = "data_key [0x61] 1" and v = None] by (simp add: transaction_new_def Let_def)
qed

end
