(* ===== verification/Transaction_Scan.thy ===== *)
theory Transaction_Scan
  imports Transaction_Notes
begin

text \<open>
  The merge of the staged writes of a transaction into a scan, loop by loop: what each loop returns
  for one row id, and that the whole agrees with the point reads of the transaction.
\<close>

text \<open>The tuples of one row, and a staged value as the scan decodes it.\<close>

definition rows_of :: "u64 \<Rightarrow> row_tuple list \<Rightarrow> row_tuple list" where
  "rows_of r tuples = filter (\<lambda>tuple. rt_row_id tuple = Some r) tuples"

definition decoded :: "(bytes \<Rightarrow> string + row_tuple) \<Rightarrow> nat option \<Rightarrow> u64 \<Rightarrow> bytes \<Rightarrow> row_tuple" where
  "decoded de width r v = projr (staged_tuple de width r v)"

lemma rows_of_simps [simp]: "rows_of r [] = []" "rows_of r (x # xs) = (if rt_row_id x = Some r then x # rows_of r xs else rows_of r xs)"
  "rows_of r (xs @ ys) = rows_of r xs @ rows_of r ys"
  by (simp_all add: rows_of_def)

lemma staged_decoded: "de v = Inr tuple \<Longrightarrow> staged_tuple de width r v = Inr (decoded de width r v) \<and> rt_row_id (decoded de width r v) = Some r"
  by (simp add: staged_tuple_def decoded_def pad_to_def split: option.split)

lemma data_key_row [simp]: "data_key t r = data_key t r' \<longleftrightarrow> r = r'"
  by (simp add: data_key_def)

definition canonical :: "bytes \<Rightarrow> bytes list \<Rightarrow> bool" where
  "canonical t keys \<longleftrightarrow> (\<forall>k \<in> set keys. \<forall>r. table_row t k = Some r \<longrightarrow> k = data_key t r)"

lemma distinct_row: "distinct (map rt_row_id xs) \<Longrightarrow> Some r \<in> rt_row_id ` set xs \<Longrightarrow> \<exists>x. rows_of r xs = [x]"
proof (induction xs)
  case (Cons x xs)
  then show ?case by (cases "rt_row_id x = Some r") (auto simp: rows_of_def filter_empty_conv image_iff)
qed simp

lemma merge_base_rows:
  assumes "\<And>k v. (k, Some v) \<in> set ws \<Longrightarrow> \<exists>tuple. de v = Inr tuple"
  shows "\<exists>out h. merge_base de width ws t tuples = Inr (out, h) \<and> set h = {r. Some r \<in> rt_row_id ` set tuples}
     \<and> (\<forall>r. rows_of r out = (case map_of ws (data_key t r) of None \<Rightarrow> rows_of r tuples | Some None \<Rightarrow> []
            | Some (Some v) \<Rightarrow> map (\<lambda>_. decoded de width r v) (rows_of r tuples)))"
proof (induction tuples)
  case (Cons x xs)
  then obtain out h where ih: "merge_base de width ws t xs = Inr (out, h)" "set h = {r. Some r \<in> rt_row_id ` set xs}"
    "\<And>r. rows_of r out = (case map_of ws (data_key t r) of None \<Rightarrow> rows_of r xs | Some None \<Rightarrow> []
            | Some (Some v) \<Rightarrow> map (\<lambda>_. decoded de width r v) (rows_of r xs))" by blast
  show ?case
  proof (cases "rt_row_id x")
    case None
    then show ?thesis using ih by (auto split: option.split)
  next
    case (Some q)
    consider "map_of ws (data_key t q) = None" | "map_of ws (data_key t q) = Some None" | v where "map_of ws (data_key t q) = Some (Some v)" by (metis option.exhaust)
    then show ?thesis
    proof cases
      case 3
      then obtain tuple where "de v = Inr tuple" using assms [OF map_of_SomeD [OF 3]] by blast
      then show ?thesis using ih Some 3 staged_decoded [of de v tuple width q] by (auto split: option.split)
    qed (use ih Some in \<open>auto split: option.split\<close>)
  qed
qed (simp split: option.split)

lemma merge_write_set_rows:
  assumes "table_name t" "canonical t (map fst ws)" "distinct (map fst ws)" "\<And>k v. (k, Some v) \<in> set ws \<Longrightarrow> \<exists>tuple. de v = Inr tuple"
  shows "\<exists>out. merge_write_set de width t h ws = Inr out
     \<and> (\<forall>r. rows_of r out = (if r \<in> set h then [] else case map_of ws (data_key t r) of Some (Some v) \<Rightarrow> [decoded de width r v] | _ \<Rightarrow> []))"
  using assms(2-)
proof (induction ws)
  case (Cons x ws)
  obtain k v where x: "x = (k, v)" by (cases x)
  have "\<exists>tuple. de v = Inr tuple" if "(k, Some v) \<in> set ws" for k v using Cons.prems(3) [of k v] that by simp
  then obtain out where ih: "merge_write_set de width t h ws = Inr out"
    "\<And>r. rows_of r out = (if r \<in> set h then [] else case map_of ws (data_key t r) of Some (Some v) \<Rightarrow> [decoded de width r v] | _ \<Rightarrow> [])"
    using Cons.IH Cons.prems(1,2) by (auto simp: canonical_def)
  show ?case
  proof (cases "table_row t k")
    case None
    then have "k \<noteq> data_key t r" for r using table_row_data [OF assms(1)] by auto
    then show ?thesis using None ih x by (auto split: option.split)
  next
    case (Some q)
    then have k: "k = data_key t q" using Cons.prems(1) x by (simp add: canonical_def)
    have fresh: "map_of ws (data_key t q) = None" using Cons.prems(2) x k by (simp add: map_of_eq_None_iff image_iff)
    show ?thesis
    proof (cases "\<exists>d. v = Some d \<and> q \<notin> set h")
      case True
      then obtain d where v: "v = Some d" "q \<notin> set h" by blast
      then obtain tuple where d: "de d = Inr tuple" using Cons.prems(3) [of k d] x by auto
      then show ?thesis using v Some ih x k fresh staged_decoded [of de d tuple width q] by (auto split: option.split)
    qed (use Some ih x k fresh in \<open>auto split: option.split\<close>)
  qed
qed simp

lemma merge_insert_log_rows:
  assumes "table_name t" "canonical t (map fst log)" "distinct (map fst log)" "\<And>k v. (k, v) \<in> set log \<Longrightarrow> \<exists>tuple. de v = Inr tuple"
  shows "\<exists>out. merge_insert_log de width ws t h log = Inr out
     \<and> (\<forall>r. rows_of r out = (if r \<in> set h \<or> map_of ws (data_key t r) \<noteq> None then [] else case map_of log (data_key t r) of Some v \<Rightarrow> [decoded de width r v] | None \<Rightarrow> []))"
  using assms(2-)
proof (induction log arbitrary: h)
  case (Cons x log)
  obtain k d where x: "x = (k, d)" by (cases x)
  obtain tuple where d: "de d = Inr tuple" using Cons.prems(3) [of k d] x by auto
  have "\<exists>tuple. de v = Inr tuple" if "(k, v) \<in> set log" for k v using Cons.prems(3) [of k v] that by simp
  then have ih: "\<exists>out. merge_insert_log de width ws t h log = Inr out
     \<and> (\<forall>r. rows_of r out = (if r \<in> set h \<or> map_of ws (data_key t r) \<noteq> None then [] else case map_of log (data_key t r) of Some v \<Rightarrow> [decoded de width r v] | None \<Rightarrow> []))" for h
    using Cons.IH [of h] Cons.prems(1,2) by (simp add: canonical_def)
  show ?case
  proof (cases "table_row t k")
    case None
    then have "data_key t r \<noteq> k" for r using table_row_data [OF assms(1)] by auto
    then have "map_of (x # log) (data_key t r) = map_of log (data_key t r)" for r using x by simp
    moreover have "merge_insert_log de width ws t h (x # log) = merge_insert_log de width ws t h log" using None x by simp
    ultimately show ?thesis using ih [of h] by presburger
  next
    case (Some q)
    then have k: "k = data_key t q" using Cons.prems(1) x by (simp add: canonical_def)
    have fresh: "map_of log (data_key t q) = None" using Cons.prems(2) x k by (simp add: map_of_eq_None_iff image_iff)
    have staged: "k \<in> fst ` set ws \<longleftrightarrow> map_of ws (data_key t q) \<noteq> None" using k by (simp add: map_of_eq_None_iff)
    show ?thesis
    proof (cases "q \<in> set h \<or> map_of ws (data_key t q) \<noteq> None")
      case True
      then show ?thesis using Some ih [of h] x k fresh staged by (auto split: option.split)
    next
      case False
      obtain out where "merge_insert_log de width ws t (q # h) log = Inr out"
        "\<And>r. rows_of r out = (if r \<in> set (q # h) \<or> map_of ws (data_key t r) \<noteq> None then [] else case map_of log (data_key t r) of Some v \<Rightarrow> [decoded de width r v] | None \<Rightarrow> [])"
        using ih [of "q # h"] by blast
      then show ?thesis using False Some x k fresh staged d staged_decoded [of de d tuple width q] by (auto split: option.split)
    qed
  qed
qed simp

section \<open>Properties\<close>

text \<open>
  C12. A scan inside a transaction agrees with its point reads: merging the staged writes into the rows
  of a table gives, for every row id, nothing if the row is staged as deleted, the decoded
  staged value if one is staged, and otherwise the row of the base scan. The base has one tuple per
  row, and fast inserts are of new rows.
\<close>

theorem merge_shows_own_writes:
  assumes "table_name t" "canonical t (map fst (tx_write_set tx) @ map fst (tx_insert_log tx))"
    and "distinct (map fst (tx_write_set tx))" "distinct (map fst (tx_insert_log tx))"
    and "\<And>k v. (k, Some v) \<in> set (tx_write_set tx) \<or> (k, v) \<in> set (tx_insert_log tx) \<Longrightarrow> \<exists>tuple. de v = Inr tuple"
    and "distinct (map rt_row_id tuples)" "\<And>r. Some r \<in> rt_row_id ` set tuples \<Longrightarrow> data_key t r \<notin> fst ` set (tx_insert_log tx)"
  shows "\<exists>out. merge_with_write_set_inner de tx t tuples width = Inr out
    \<and> (\<forall>r. rows_of r out = (case staged_lookup tx (data_key t r) of None \<Rightarrow> rows_of r tuples | Some None \<Rightarrow> [] | Some (Some v) \<Rightarrow> [decoded de width r v]))"
proof -
  let ?ws = "tx_write_set tx" and ?log = "tx_insert_log tx"
  obtain base h where b: "merge_base de width ?ws t tuples = Inr (base, h)" "set h = {r. Some r \<in> rt_row_id ` set tuples}"
    "\<And>r. rows_of r base = (case map_of ?ws (data_key t r) of None \<Rightarrow> rows_of r tuples | Some None \<Rightarrow> []
            | Some (Some v) \<Rightarrow> map (\<lambda>_. decoded de width r v) (rows_of r tuples))"
    using merge_base_rows [of ?ws de width t tuples] assms(5) by blast
  obtain staged where w: "merge_write_set de width t h ?ws = Inr staged"
    "\<And>r. rows_of r staged = (if r \<in> set h then [] else case map_of ?ws (data_key t r) of Some (Some v) \<Rightarrow> [decoded de width r v] | _ \<Rightarrow> [])"
    using merge_write_set_rows [OF assms(1) _ assms(3), of de width h] assms(2,5) unfolding canonical_def by auto blast
  obtain inserted where l: "merge_insert_log de width ?ws t h ?log = Inr inserted"
    "\<And>r. rows_of r inserted = (if r \<in> set h \<or> map_of ?ws (data_key t r) \<noteq> None then [] else case map_of ?log (data_key t r) of Some v \<Rightarrow> [decoded de width r v] | None \<Rightarrow> [])"
    using merge_insert_log_rows [OF assms(1) _ assms(4), of de width ?ws h] assms(2,5) unfolding canonical_def by auto blast
  have rev: "map_of (rev ?log) = map_of ?log" using assms(4) by (intro map_of_inject_set [THEN iffD2]) (simp_all add: rev_map [symmetric])
  have one: "r \<notin> set h \<Longrightarrow> rows_of r tuples = []" "r \<in> set h \<Longrightarrow> \<exists>x. rows_of r tuples = [x]" for r
    using b(2) distinct_row [OF assms(6), of r] by (auto simp: rows_of_def filter_empty_conv image_iff)
  have new: "r \<in> set h \<Longrightarrow> map_of ?log (data_key t r) = None" for r using b(2) assms(7) by (simp add: map_of_eq_None_iff)
  have "rows_of r (base @ staged @ inserted) = (case staged_lookup tx (data_key t r) of None \<Rightarrow> rows_of r tuples | Some None \<Rightarrow> [] | Some (Some v) \<Rightarrow> [decoded de width r v])" for r
    using one [of r] new [of r] by (cases "r \<in> set h") (auto simp: b(3) w(2) l(2) staged_lookup_def rev split: option.split)
  then show ?thesis using b(1) w(1) l(1) by (simp add: merge_with_write_set_inner_def)
qed

text \<open>Row 1 is overwritten, row 2 deleted and row 3 inserted; the base has rows 1, 2 and 4.\<close>

definition scan_txn :: transaction where
  "scan_txn = snd (fold txn_step [Op_put (data_key [0x61] 1) [7], Op_delete (data_key [0x61] 2), Op_insert (data_key [0x61] 3) [9]] (demo_env, transaction_new 1 5))"

definition scan_decode :: "bytes \<Rightarrow> string + row_tuple" where
  "scan_decode b = Inr \<lparr>rt_values = map (Int4 \<circ> ucast) b, rt_row_id = None\<rparr>"

theorem merge_shows_own_writes_witness:
  "\<exists>out. merge_with_write_set_inner scan_decode scan_txn [0x61] (map (\<lambda>r. \<lparr>rt_values = [Null], rt_row_id = Some r\<rparr>) [1, 2, 4]) (Some 2) = Inr out
     \<and> map rt_values (rows_of 1 out) = [[Int4 7, Null]] \<and> rows_of 2 out = [] \<and> map rt_values (rows_of 3 out) = [[Int4 9, Null]] \<and> map rt_values (rows_of 4 out) = [[Null]]"
proof -
  let ?t = "[0x61] :: bytes"
  have t: "table_name ?t" by (simp add: table_name_def is_utf8_ascii)
  have w: "tx_write_set scan_txn = [(data_key ?t 1, Some [7]), (data_key ?t 2, None)]" and l: "tx_insert_log scan_txn = [(data_key ?t 3, [9])]" by code_simp+
  have c: "canonical ?t (map fst (tx_write_set scan_txn) @ map fst (tx_insert_log scan_txn))"
    using table_row_data [OF t] by (simp add: w l canonical_def)
  have v: "map rt_values [decoded scan_decode (Some 2) r [b]] = [[Int4 (ucast b), Null]]" for r b
    by (simp add: decoded_def staged_tuple_def scan_decode_def pad_to_def)
  let ?base = "map (\<lambda>r. \<lparr>rt_values = [Null], rt_row_id = Some r\<rparr>) [1, 2, 4] :: row_tuple list"
  have d: "distinct (map fst (tx_write_set scan_txn))" "distinct (map fst (tx_insert_log scan_txn))" "distinct (map rt_row_id ?base)" by (simp_all add: w l)
  have e: "\<And>k v. (k, Some v) \<in> set (tx_write_set scan_txn) \<or> (k, v) \<in> set (tx_insert_log scan_txn) \<Longrightarrow> \<exists>tuple. scan_decode v = Inr tuple" by (simp add: scan_decode_def)
  have f: "\<And>r. Some r \<in> rt_row_id ` set ?base \<Longrightarrow> data_key ?t r \<notin> fst ` set (tx_insert_log scan_txn)" by (auto simp: l)
  have "\<exists>out. merge_with_write_set_inner scan_decode scan_txn ?t ?base (Some 2) = Inr out
    \<and> (\<forall>r. rows_of r out = (case staged_lookup scan_txn (data_key ?t r) of None \<Rightarrow> rows_of r ?base | Some None \<Rightarrow> [] | Some (Some v) \<Rightarrow> [decoded scan_decode (Some 2) r v]))"
    by (rule merge_shows_own_writes [OF t c d(1,2) _ d(3)]) (rule e, assumption, rule f, assumption)
  then show ?thesis using v by (auto simp: staged_lookup_def w l)
qed

end
