(* ===== verification/Spec2Isabelle.thy ===== *)
theory Spec2Isabelle
  imports Art_Scan Lock_Manager Conflict_Registry Table_Rows Sequence_Race Group_Commit Parallel_Filter Eval_Pushdown Version_Gc Transaction_Scan
begin

text \<open>
  Verification of the storage core of HeliosDB-Nano, an embedded SQL database in Rust.

  \<^bold>\<open>The program.\<close> A table is a set of encoded rows in a key-value store. Each index of a table is an
  adaptive radix tree from encoded keys to row ids; the index manager keeps the trees of all tables and
  the rules for unique and primary keys. Writers reserve their index entries before they store a
  row and give them back when a later step fails. Transactions take locks in the lock manager and
  check their writes against the conflict registry, committers share one flush of the log through the group
  committer, and sequences hand out numbers from blocks that were made durable beforehand. An open
  transaction stages its writes, counts them in a census that fast paths consult, and reads
  through them to its snapshot; every committed row has a history of versions, from which snapshots read and a
  collector removes what no reader can see. A scan
  analyses its condition, skips rows and blocks with Bloom filters and zone maps, and evaluates what is
  left with the filter engine, alone or in parallel chunks; conditions that are not pushed into the
  scan are evaluated row by row by the expression evaluator.

  \<^bold>\<open>Theories and sources\<close> (all paths below \<^verbatim>\<open>src/src\<close>). State is a record with the fields of the struct, an operation is
  a function with the name of the method, an error is the left value of a sum, a panic is \<open>None\<close>.

  \<^item> \<open>Prelude\<close>, \<open>Interleaving\<close>: machine types, checked reads and list operations of the Rust library; threads as
    a list of program counters with one step at a time.
  \<^item> \<open>Values\<close>: \<^verbatim>\<open>types.rs\<close> (\<open>Value\<close>), big-endian bytes, IEEE-754 order read from the bits.
  \<^item> \<open>Art_Node\<close>, \<open>Art_Store\<close>, \<open>Art_Resize\<close>: \<^verbatim>\<open>storage/art_node.rs\<close>, the four node sizes; the locale
    \<open>child_store\<close> is the interface between tree and nodes and is interpreted for each size.
  \<^item> \<open>Dense_Int\<close>, \<open>Art_Index\<close>, \<open>Art_Inv\<close>, \<open>Art_Insert\<close>, \<open>Art_Remove\<close>, \<open>Art_Spec\<close>, \<open>Art_Scan\<close>: \<^verbatim>\<open>storage/art_index.rs\<close>, insertion,
    removal, lookup, range scan and iterator; \<open>Art_Spec\<close> refines an abstract index, a function from keys to rows.
  \<^item> \<open>Key_Encoding\<close>, \<open>Index_Registry\<close>, \<open>Row_Indexes\<close>: \<^verbatim>\<open>storage/art_manager.rs\<close>, the key bytes, the registry of
    indexes per table, and the maintenance of all indexes of a row with its compensation.
  \<^item> \<open>Table_Rows\<close>: the insert, batch, update and delete funnels of \<^verbatim>\<open>storage/engine.rs\<close> with their claim
    guards, a failure possible at every fallible step.
  \<^item> \<open>Lock_Manager\<close>: \<^verbatim>\<open>storage/lock_manager.rs\<close>, re-entrant locks and deadlock detection; a release and a clean-up are the
    separate accesses they make to the shared maps, interleaved by the relation \<open>lock_step\<close>.
  \<^item> \<open>Conflict_Registry\<close>: \<^verbatim>\<open>storage/conflict.rs\<close>, snapshots, the ring of commits in flight, first committer wins;
    the relation \<open>key_run\<close> interleaves validations key by key.
  \<^item> \<open>Group_Commit\<close>: \<^verbatim>\<open>storage/group_commit.rs\<close>, leader and followers as a step relation in which waiting is
    parking on the condition variable until it is notified.
  \<^item> \<open>Sequences\<close>, \<open>Sequence_Race\<close>: \<^verbatim>\<open>sql/sequences.rs\<close> and the records of \<^verbatim>\<open>storage/catalog.rs\<close>; sequential
    semantics and the interleavings of concurrent \<open>nextval\<close> with crashes.
  \<^item> \<open>Filter_Predicate\<close>: \<open>FilterPredicate\<close> of \<^verbatim>\<open>storage/simd_filter.rs\<close> and the numeric order of \<^verbatim>\<open>sql/numeric_special.rs\<close>.
  \<^item> \<open>Zone_Map\<close>, \<open>Bloom_Filter\<close>: \<^verbatim>\<open>storage/zone_map.rs\<close>, \<^verbatim>\<open>storage/bloom_filter.rs\<close>; the locale \<open>ordered_family\<close> states what
    the bounds of a block need of a type and is interpreted for the six families of values.
  \<^item> \<open>Pushdown\<close>: \<^verbatim>\<open>storage/predicate_pushdown.rs\<close>, the gate \<open>can_push_predicate\<close> of \<^verbatim>\<open>optimizer/rules.rs\<close> and the gates
    of \<open>handle_filtered_scan\<close> in \<^verbatim>\<open>sql/executor/scan.rs\<close>.
  \<^item> \<open>Simd_Filter\<close>: the engine of \<^verbatim>\<open>storage/simd_filter.rs\<close> with the AVX2 kernel instruction by instruction.
  \<^item> \<open>Zone_Summary\<close>, \<open>Parallel_Filter\<close>: \<^verbatim>\<open>storage/columnar_zone_summary.rs\<close>, \<^verbatim>\<open>storage/parallel_filter.rs\<close>; the locale
    \<open>summary_family\<close> is the contract of the types a summary can decide.
  \<^item> \<open>Storage_Keys\<close>, \<open>Version_Store\<close>, \<open>Version_Gc\<close>: the keys of rows and versions, \<^verbatim>\<open>storage/time_travel.rs\<close>,
    \<^verbatim>\<open>storage/copy_marker.rs\<close>, \<^verbatim>\<open>storage/tde.rs\<close> and \<^verbatim>\<open>storage/version_gc.rs\<close>; a row stands for a history, a list of timestamps
    and values, and the readers refine a lookup in it.
  \<^item> \<open>Write_Census\<close>, \<open>Transaction\<close>, \<open>Transaction_Laws\<close>, \<open>Transaction_Notes\<close>, \<open>Transaction_Scan\<close>: \<^verbatim>\<open>storage/transaction.rs\<close>, the census of
    staged writes and a transaction until it commits, with the savepoint statements of \<^verbatim>\<open>lib.rs\<close>. The specification of a
    transaction is an overlay with a stack of saved overlays.
  \<^item> \<open>Eval_Ops\<close>, \<open>Evaluator\<close>, \<open>Eval_Laws\<close>, \<open>Eval_Pushdown\<close>: \<^verbatim>\<open>sql/evaluator.rs\<close> with the expressions of \<^verbatim>\<open>sql/logical_plan.rs\<close>: the
    operations on values, \<open>evaluate\<close> and \<open>bind\<close>, their laws, and their agreement with the pushed predicates.

  \<^bold>\<open>What is shown.\<close> Index: a run of inserts and removals of keys of at most ten bytes answers every lookup as the
  abstract index does, scans of such trees return exactly the keys of a range in order, and key bytes
  order and separate values as SQL does. Rows: in every state of a \<open>store_run\<close> (keys of at most ten bytes, updates
  to free unique keys that do not only change the sign of a zero) each index agrees with the stored rows,
  and a refused or failed write leaves no trace. Locks: writers exclude everybody else provided no lock
  is granted on an entry between its last release and its removal, which the code does not prevent; the deadlock
  search ends, finds every transaction on a cycle and reports nobody without one. Conflicts: a
  snapshot passes the barrier exactly when all commits at or below it are applied, and no validation
  misses a kept record as long as a losing call undoes a key before another records it. Group
  commit: a committer that returns success is durable, if it wakes within the retention of errors, and
  nobody stays parked. Sequences: concurrent \<open>nextval\<close> without CYCLE and \<open>setval\<close>, away from the ends of
  the 64-bit range, never repeats a value. Versions: a snapshot read returns the newest version at or before it, with or
  without the cache, and collection changes no read of a live snapshot even when it fails half-way; the census
  answers exactly what the open transactions have staged. Transactions: staging, savepoints and roll-backs refine the overlay, scans
  agree with point reads, nothing staged goes unnoted, and a table with no colon in its name and no noted writes needs no merge. Scans:
  for predicates that fit their columns, pruning by Bloom filters and zone maps built with the configured
  block size never changes a result; what is pushed without a second filter means what SQL says where
  comparisons have their column on the left and the types are plain; the vector kernel equals
  the scalar loop, and the parallel evaluation with a limit returns the right number of matches
  under every interleaving. Evaluation: a scan that filters in storage only returns what the evaluator keeps, under the
  conditions of the two theorems before; binding does not change a value; conditions are truth values, connectives and row comparisons follow
  three-valued logic, and integer arithmetic never wraps. Theorems of the kind error show where the code departs from
  that: they state exactly what it does there.

  \<^bold>\<open>Bounds and fuel.\<close> Recursion is structural or has a measure, except the cycle search of the lock manager, whose
  fuel is the size of the wait graph plus one, and is shown to be enough. The tree stores at
  most ten bytes of a compressed prefix; removal is exact while the rest can be read off a leaf, which keys
  of at most ten bytes guarantee. Sequence blocks are assumed to end inside the 64-bit range where a
  theorem says so. Group commit remembers failed generations for \<open>ERROR_RETENTION_GENS\<close> generations (1024). Counters that only feed
  statistics are natural numbers. Atomic operations are sequentially consistent.

  \<^bold>\<open>Parameters.\<close> Code outside the repository is an argument: RocksDB as the record \<open>kv\<close> of its reads and writes with
  their documented laws (\<open>kv_holds\<close>, \<open>kv_writes\<close>), the cipher, the eviction of the snapshot cache, the serialisation of rows, \<open>DefaultHasher\<close>, the parsers and printers of
  \<open>rust_decimal\<close>, \<open>uuid\<close> and \<open>chrono\<close>, the sizes that Bloom filters compute with logarithms, the failures of the
  store, regular expressions, the texts of floats, the presence of AVX2, and the order in which rayon and the operating system run threads.

  \<^bold>\<open>Not modelled.\<close> The SQL parser, planner and operators beyond the sequence statements and the pushdown
  gates; of the evaluator, the library of scalar functions, casts, and the operators on decimals, floats, times, JSON, vectors
  and text search, which are arguments of \<open>evaluate_expr\<close>; the wire protocols, replication, vector and full-text search, the REST, MCP and AI services
  and the REPL. They rest on external crates or on input and output, or are estimates without a functional contract. Of the
  storage engine, the commit path of a transaction, the register of snapshots, branches and the column store are not modelled. The
  manifest lists them by name.

  \<^bold>\<open>Plan.\<close> Next in order: the commit path of a transaction; the delta tracker of the Bloom filters (\<^verbatim>\<open>storage/filter_index_delta.rs\<close>); the row cache; the dirty tracker.
\<close>

end
